(* ===== verification/GoPrelude.thy ===== *)
theory GoPrelude
  imports Main "HOL-Library.AList"
begin

text \<open>
  Shared ground of the development: the parts of Go and of its package
  \<^verbatim>\<open>strings\<close> that the modelled code uses, and the lemmas about them that the component
  theories share.

  A Go string is a sequence of bytes, so it is a HOL \<^typ>\<open>string\<close>: a HOL \<^typ>\<open>char\<close> is one of 256
  byte values. Functions that read runes (\<^verbatim>\<open>TrimSpace\<close>, \<^verbatim>\<open>ToUpper\<close>, \<^verbatim>\<open>ToLower\<close>) first cut
  the bytes into the units Go's UTF-8 decoder yields: a well-formed encoding, or one byte that is
  not part of one.

  The collections: \<open>scan_simps\<close> gathers the facts that say what a scanner consumes,
  \<open>go_defs\<close> the definitions of small wrappers that proofs unfold together.
\<close>

named_theorems scan_simps
named_theorems go_defs

section \<open>Bytes\<close>

abbreviation byte_of :: "char \<Rightarrow> nat" where
  "byte_of c \<equiv> of_char c"

abbreviation DQ :: char where "DQ \<equiv> CHR 0x22"
abbreviation SQ :: char where "SQ \<equiv> CHR 0x27"
abbreviation BT :: char where "BT \<equiv> CHR 0x60"
abbreviation BSL :: char where "BSL \<equiv> CHR 0x5C"
abbreviation NL :: char where "NL \<equiv> CHR 0x0A"
abbreviation SP :: char where "SP \<equiv> CHR 0x20"
abbreviation TAB :: char where "TAB \<equiv> CHR 0x09"

definition is_digit :: "char \<Rightarrow> bool" where
  "is_digit c \<longleftrightarrow> 48 \<le> byte_of c \<and> byte_of c \<le> 57"

definition is_lower :: "char \<Rightarrow> bool" where
  "is_lower c \<longleftrightarrow> 97 \<le> byte_of c \<and> byte_of c \<le> 122"

definition is_upper :: "char \<Rightarrow> bool" where
  "is_upper c \<longleftrightarrow> 65 \<le> byte_of c \<and> byte_of c \<le> 90"

text \<open>\<^verbatim>\<open>c + ('a' - 'A')\<close> on an upper-case letter, and its inverse.\<close>

definition lower_byte :: "char \<Rightarrow> char" where
  "lower_byte c = (if is_upper c then char_of (byte_of c + 32) else c)"

definition upper_byte :: "char \<Rightarrow> char" where
  "upper_byte c = (if is_lower c then char_of (byte_of c - 32) else c)"

lemmas byte_class_defs = is_digit_def is_lower_def is_upper_def

lemma byte_of_less [simp]: "byte_of c < 256"
  using nat_of_char_less_256 by simp

lemma byte_of_char_of [simp]: "n < 256 \<Longrightarrow> byte_of (char_of n) = n"
  by (simp add: of_char_of)

lemma char_eq_byte: "c = d \<longleftrightarrow> byte_of c = byte_of d"
  by simp

lemma lower_byte_not_upper [simp]: "\<not> is_upper (lower_byte c)"
  by (auto simp: lower_byte_def is_upper_def)

lemma lower_byte_idem [simp]: "lower_byte (lower_byte c) = lower_byte c"
  using lower_byte_not_upper [of c] by (simp add: lower_byte_def [of "lower_byte c"])

section \<open>Package strings\<close>

definition has_prefix :: "'a list \<Rightarrow> 'a list \<Rightarrow> bool" where
  "has_prefix s p \<longleftrightarrow> take (length p) s = p"

text \<open>\<^verbatim>\<open>strings.Index\<close>, with \<^term>\<open>None\<close> for its \<^verbatim>\<open>-1\<close>.\<close>

fun index_str :: "'a list \<Rightarrow> 'a list \<Rightarrow> nat option" where
  "index_str [] p = (if p = [] then Some 0 else None)"
| "index_str (c # cs) p =
     (if has_prefix (c # cs) p then Some 0 else map_option Suc (index_str cs p))"

definition contains_str :: "'a list \<Rightarrow> 'a list \<Rightarrow> bool" where
  "contains_str s p \<longleftrightarrow> index_str s p \<noteq> None"

text \<open>\<^verbatim>\<open>strings.ReplaceAll\<close> for a non-empty pattern \<open>o # os\<close>: leftmost, not overlapping.\<close>

fun replace_all :: "'a list \<Rightarrow> 'a list \<Rightarrow> 'a list \<Rightarrow> 'a list" where
  "replace_all [] old new = []"
| "replace_all (c # cs) old new =
     (if old \<noteq> [] \<and> has_prefix (c # cs) old
      then new @ replace_all (drop (length old - 1) cs) old new
      else c # replace_all cs old new)"

text \<open>\<^verbatim>\<open>strings.Split\<close> on a one-byte separator, and \<^verbatim>\<open>strings.Join\<close>.\<close>

fun split_on :: "'a \<Rightarrow> 'a list \<Rightarrow> 'a list list" where
  "split_on d [] = [[]]"
| "split_on d (c # cs) =
     (if c = d then [] # split_on d cs
      else (case split_on d cs of [] \<Rightarrow> [[c]] | w # ws \<Rightarrow> (c # w) # ws))"

fun join :: "'a list \<Rightarrow> 'a list list \<Rightarrow> 'a list" where
  "join sep [] = []"
| "join sep [w] = w"
| "join sep (w # v # ws) = w @ sep @ join sep (v # ws)"

text \<open>\<^verbatim>\<open>strings.LastIndexByte\<close>, as the text before and after the last separator.\<close>

definition cut_last :: "'a \<Rightarrow> 'a list \<Rightarrow> ('a list \<times> 'a list) option" where
  "cut_last d s =
     (if d \<in> set s
      then Some (rev (tl (dropWhile (\<lambda>c. c \<noteq> d) (rev s))), rev (takeWhile (\<lambda>c. c \<noteq> d) (rev s)))
      else None)"

text \<open>\<^verbatim>\<open>%d\<close> of a non-negative integer.\<close>

fun show_nat :: "nat \<Rightarrow> string" where
  "show_nat n =
     (if n < 10 then [char_of (48 + n)] else show_nat (n div 10) @ [char_of (48 + n mod 10)])"

declare show_nat.simps [simp del]

definition read_nat :: "string \<Rightarrow> nat" where
  "read_nat s = foldl (\<lambda>n c. 10 * n + (byte_of c - 48)) 0 s"

text \<open>The slice \<^verbatim>\<open>s[a:b]\<close>.\<close>

definition substr :: "string \<Rightarrow> nat \<Rightarrow> nat \<Rightarrow> string" where
  "substr s a b = drop a (take b s)"

lemma index_str_bound: "index_str s [d] = Some n \<Longrightarrow> n < length s"
  by (induction s arbitrary: n) (auto simp: has_prefix_def split: if_splits)

lemma substr_snoc: "lit \<le> i \<Longrightarrow> i < length s \<Longrightarrow> substr s lit (i + 1) = substr s lit i @ [s ! i]"
  by (simp add: substr_def take_Suc_conv_app_nth)

lemma substr_drop: "lit \<le> i \<Longrightarrow> substr s lit i @ drop i s = drop lit s"
  by (simp add: substr_def) (metis append_take_drop_id drop_append drop_take diff_diff_cancel drop_drop le_add_diff_inverse2 take_drop)

lemma substr_nil [simp]: "substr s i i = []"
  by (simp add: substr_def)

lemma set_substr: "set (substr s a b) \<subseteq> set s"
  by (auto simp: substr_def dest: in_set_dropD in_set_takeD)

lemma split_on_not_Nil [simp]: "split_on d s \<noteq> []"
  by (induction d s rule: split_on.induct) (auto split: list.splits)

lemma join_split_on [simp]: "join [d] (split_on d s) = s"
proof (induction d s rule: split_on.induct)
  case (2 d c cs)
  then show ?case
    by (cases "split_on d cs"; cases "tl (split_on d cs)") auto
qed simp

lemma split_on_no_sep: "d \<notin> set s \<Longrightarrow> split_on d s = [s]"
  by (induction d s rule: split_on.induct) auto

lemma split_on_parts: "w \<in> set (split_on d s) \<Longrightarrow> d \<notin> set w"
  by (induction d s arbitrary: w rule: split_on.induct) (auto split: list.splits if_splits)

lemma split_on_append_sep: "d \<notin> set w \<Longrightarrow> split_on d (w @ d # s) = w # split_on d s"
  by (induction w) auto

lemma split_on_join:
  "ws \<noteq> [] \<Longrightarrow> (\<And>w. w \<in> set ws \<Longrightarrow> d \<notin> set w) \<Longrightarrow> split_on d (join [d] ws) = ws"
  by (induction "[d]" ws rule: join.induct) (auto simp: split_on_no_sep split_on_append_sep)

lemma cut_last_Some:
  "cut_last d s = Some (a, b) \<Longrightarrow> s = a @ d # b \<and> d \<notin> set b"
proof -
  assume c: "cut_last d s = Some (a, b)"
  let ?t = "takeWhile (\<lambda>c. c \<noteq> d) (rev s)" and ?r = "dropWhile (\<lambda>c. c \<noteq> d) (rev s)"
  from c have mem: "d \<in> set (rev s)" and a: "a = rev (tl ?r)" and b: "b = rev ?t"
    by (auto simp: cut_last_def split: if_splits)
  from mem have ne: "?r \<noteq> []" by (simp add: dropWhile_eq_Nil_conv)
  then have "hd ?r = d" by (metis (mono_tags, lifting) hd_dropWhile)
  with ne have "?r = d # tl ?r" by (metis list.collapse)
  then have "rev s = ?t @ d # tl ?r" by (metis takeWhile_dropWhile_id)
  then have "s = rev (tl ?r) @ d # rev ?t"
    by (metis append.assoc append_Cons append_Nil rev.simps(2) rev_append rev_rev_ident)
  moreover have "d \<notin> set b" using b set_takeWhileD by fastforce
  ultimately show ?thesis using a b by simp
qed

lemma replace_one: "replace_all s [a] new = concat (map (\<lambda>c. if c = a then new else [c]) s)"
  by (induction s) (auto simp: has_prefix_def replace_all.simps)

lemma replace_two_Cons:
  "replace_all (c # cs) [a, b] new =
     (case cs of d # ds \<Rightarrow> if c = a \<and> d = b then new @ replace_all ds [a, b] new
                           else c # replace_all cs [a, b] new
      | [] \<Rightarrow> [c])"
  by (auto simp: has_prefix_def split: list.split)

declare replace_all.simps(2) [simp del]

lemma set_replace_all: "set (replace_all s old new) \<subseteq> set s \<union> set new"
proof (induction s old new rule: replace_all.induct)
  case (2 c cs old new)
  then show ?case using set_drop_subset [of "length old - 1" cs]
    by (cases "old \<noteq> [] \<and> has_prefix (c # cs) old") (auto simp: replace_all.simps)
qed simp

lemma replace_all_pred:
  "\<forall>c\<in>set s. P c \<Longrightarrow> \<forall>c\<in>set new. P c \<Longrightarrow> \<forall>c\<in>set (replace_all s old new). P c"
  using set_replace_all [of s old new] by blast

lemma replace_all_absent: "d \<notin> set s \<Longrightarrow> replace_all s [d] new = s"
  by (induction s) (auto simp: replace_one)

lemma contains_str_one [simp]: "contains_str s [d] \<longleftrightarrow> d \<in> set s"
proof -
  have "index_str s [d] = None \<longleftrightarrow> d \<notin> set s"
    by (induction s) (auto simp: has_prefix_def)
  then show ?thesis by (simp add: contains_str_def)
qed

lemma show_nat_digits: "c \<in> set (show_nat n) \<Longrightarrow> is_digit c"
proof (induction n rule: show_nat.induct)
  case (1 n)
  show ?case
  proof (cases "n < 10")
    case True
    with "1.prems" have "c = char_of (48 + n)" by (subst (asm) show_nat.simps) simp
    with True show ?thesis by (simp add: is_digit_def)
  next
    case False
    with "1.prems" have "c \<in> set (show_nat (n div 10)) \<or> c = char_of (48 + n mod 10)"
      by (subst (asm) show_nat.simps) auto
    moreover have "is_digit (char_of (48 + n mod 10) :: char)" by (simp add: is_digit_def)
    ultimately show ?thesis using "1.IH" [OF False] by auto
  qed
qed

lemma show_nat_not_Nil [simp]: "show_nat n \<noteq> []"
  by (subst show_nat.simps) simp

lemma read_show_nat [simp]: "read_nat (show_nat n) = n"
proof (induction n rule: show_nat.induct)
  case (1 n)
  show ?case
  proof (cases "n < 10")
    case True
    then show ?thesis by (subst show_nat.simps) (simp add: read_nat_def)
  next
    case False
    with "1.IH" have "foldl (\<lambda>n c. 10 * n + (byte_of c - 48)) 0 (show_nat (n div 10)) = n div 10"
      by (simp add: read_nat_def)
    with False show ?thesis by (subst show_nat.simps) (simp add: read_nat_def)
  qed
qed

lemma show_nat_inj: "show_nat m = show_nat n \<Longrightarrow> m = n"
  by (metis read_show_nat)

section \<open>UTF-8 units\<close>

definition cont :: "char \<Rightarrow> bool" where
  "cont c \<longleftrightarrow> 128 \<le> byte_of c \<and> byte_of c < 192"

definition byte_in :: "nat \<Rightarrow> nat \<Rightarrow> char \<Rightarrow> bool" where
  "byte_in lo hi c \<longleftrightarrow> lo \<le> byte_of c \<and> byte_of c \<le> hi"

text \<open>
  The size \<^verbatim>\<open>utf8.DecodeRune\<close> reports for the first rune: 1 for ASCII and for a byte that
  starts no well-formed encoding.
\<close>

fun rune_size :: "string \<Rightarrow> nat" where
  "rune_size (a # b # c # d # _) =
     (if byte_in 194 223 a \<and> cont b then 2
      else if ((byte_of a = 224 \<and> byte_in 160 191 b) \<or> (byte_in 225 236 a \<and> cont b)
           \<or> (byte_of a = 237 \<and> byte_in 128 159 b) \<or> (byte_in 238 239 a \<and> cont b)) \<and> cont c then 3
      else if ((byte_of a = 240 \<and> byte_in 144 191 b) \<or> (byte_in 241 243 a \<and> cont b)
           \<or> (byte_of a = 244 \<and> byte_in 128 143 b)) \<and> cont c \<and> cont d then 4
      else 1)"
| "rune_size [a, b, c] =
     (if byte_in 194 223 a \<and> cont b then 2
      else if ((byte_of a = 224 \<and> byte_in 160 191 b) \<or> (byte_in 225 236 a \<and> cont b)
           \<or> (byte_of a = 237 \<and> byte_in 128 159 b) \<or> (byte_in 238 239 a \<and> cont b)) \<and> cont c then 3
      else 1)"
| "rune_size [a, b] = (if byte_in 194 223 a \<and> cont b then 2 else 1)"
| "rune_size _ = 1"

fun utf8_units :: "string \<Rightarrow> string list" where
  "utf8_units [] = []"
| "utf8_units (c # cs) =
     take (rune_size (c # cs)) (c # cs) # utf8_units (drop (rune_size (c # cs) - 1) cs)"

lemma rune_size_pos [simp]: "0 < rune_size s"
  by (induction s rule: rune_size.induct) auto

lemma concat_utf8_units [simp]: "concat (utf8_units s) = s"
proof (induction s rule: utf8_units.induct)
  case (2 c cs)
  obtain k where k: "rune_size (c # cs) = Suc k"
    using rune_size_pos [of "c # cs"] gr0_implies_Suc by blast
  with 2 show ?case by simp
qed simp

text \<open>\<^verbatim>\<open>unicode.IsSpace\<close> on a unit.\<close>

definition unit_bytes :: "nat list \<Rightarrow> string" where
  "unit_bytes ns = map char_of ns"

definition is_space_unit :: "string \<Rightarrow> bool" where
  "is_space_unit u \<longleftrightarrow>
     u \<in> set (map unit_bytes
       ([[9], [10], [11], [12], [13], [32], [194, 133], [194, 160], [225, 154, 128]]
        @ map (\<lambda>k. [226, 128, k]) [128, 129, 130, 131, 132, 133, 134, 135, 136, 137, 138, 168, 169, 175]
        @ [[226, 129, 159], [227, 128, 128]]))"

definition trim_space :: "string \<Rightarrow> string" where
  "trim_space s =
     concat (rev (dropWhile is_space_unit (rev (dropWhile is_space_unit (utf8_units s)))))"

text \<open>
  \<^verbatim>\<open>strings.ToUpper\<close> and \<^verbatim>\<open>strings.ToLower\<close> as the modelled code uses them: the result is
  compared with ASCII words only. Two runes outside ASCII have an upper case in ASCII (the
  dotless i and the long s), two a lower case in ASCII (the dotted I and the Kelvin sign); every
  other unit outside ASCII stays outside ASCII, and is left as it is here.
\<close>

definition upper_unit :: "string \<Rightarrow> string" where
  "upper_unit u =
     (if u = unit_bytes [196, 177] then ''I''
      else if u = unit_bytes [197, 191] then ''S''
      else map upper_byte u)"

definition lower_unit :: "string \<Rightarrow> string" where
  "lower_unit u =
     (if u = unit_bytes [196, 176] then ''i''
      else if u = unit_bytes [226, 132, 170] then ''k''
      else map lower_byte u)"

definition to_upper :: "string \<Rightarrow> string" where
  "to_upper s = concat (map upper_unit (utf8_units s))"

definition to_lower :: "string \<Rightarrow> string" where
  "to_lower s = concat (map lower_unit (utf8_units s))"

section \<open>Lists\<close>

lemma rev_dropWhile_prefix: "\<exists>t. s = rev (dropWhile P (rev s)) @ t"
  by (metis rev_append rev_rev_ident takeWhile_dropWhile_id)

lemma takeWhile_drop_length [simp]:
  "drop (length (takeWhile P xs)) xs = dropWhile P xs"
  by (simp add: dropWhile_eq_drop)

lemma set_update_subset: "set (AList.update k v al) \<subseteq> insert (k, v) (set al)"
  by (induction al) auto

lemma update_new: "k \<notin> fst ` set vs \<Longrightarrow> AList.update k v vs = vs @ [(k, v)]"
  by (induction vs) auto

section \<open>Trimming\<close>

lemma rune_size_le4: "rune_size s \<le> 4"
  by (cases s rule: rune_size.cases) simp_all

lemma rune_size_conts:
  "2 \<le> rune_size s \<Longrightarrow> 1 < length s \<and> cont (s ! 1)"
  "3 \<le> rune_size s \<Longrightarrow> 2 < length s \<and> cont (s ! 2)"
  "4 \<le> rune_size s \<Longrightarrow> 3 < length s \<and> cont (s ! 3)"
  by (cases s rule: rune_size.cases; simp add: cont_def byte_in_def numeral_2_eq_2 numeral_3_eq_3 split: if_splits; linarith)+

lemma rune_size_cont: "0 < i \<Longrightarrow> i < rune_size s \<Longrightarrow> i < length s \<and> cont (s ! i)"
proof -
  assume i: "0 < i" "i < rune_size s"
  then consider "i = 1" | "i = 2" | "i = 3" using rune_size_le4 [of s] by linarith
  then show ?thesis using i rune_size_conts [of s] by cases simp_all
qed

lemma utf8_units_ascii: "byte_of c < 128 \<Longrightarrow> utf8_units (c # cs) = [c] # utf8_units cs"
proof -
  assume c: "byte_of c < 128"
  have "rune_size (c # cs) = 1"
    using c by (cases "c # cs" rule: rune_size.cases) (auto simp: byte_in_def)
  then show ?thesis by simp
qed

lemma utf8_units_last: "byte_of d < 128 \<Longrightarrow> \<exists>us. utf8_units (s @ [d]) = us @ [[d]]"
proof (induction s rule: length_induct)
  case (1 s)
  show ?case
  proof (cases s)
    case Nil
    then show ?thesis using utf8_units_ascii [OF 1(2), of "[]"] by simp
  next
    case (Cons c cs)
    define k where "k = rune_size (c # cs @ [d]) - 1"
    have k: "rune_size (c # cs @ [d]) = Suc k" using rune_size_pos [of "c # cs @ [d]"] by (simp add: k_def)
    have "k \<le> length cs"
    proof (rule ccontr)
      assume "\<not> k \<le> length cs"
      then have "Suc (length cs) < rune_size (c # cs @ [d])" using k by simp
      from rune_size_cont [OF _ this] have "cont d" by (simp add: nth_append)
      then show False using 1(2) by (simp add: cont_def)
    qed
    moreover obtain us where "utf8_units (drop k cs @ [d]) = us @ [[d]]"
      using 1 Cons by (metis diff_le_self le_imp_less_Suc length_Cons length_drop)
    ultimately show ?thesis using Cons k by simp
  qed
qed

lemma space_unit_ascii: "is_space_unit [c] \<longleftrightarrow> byte_of c \<in> {9, 10, 11, 12, 13, 32}"
proof -
  have "c = char_of n \<longleftrightarrow> byte_of c = n" if "n < 256" for n :: nat
    using that by (metis byte_of_char_of char_of_char)
  then show ?thesis by (simp add: is_space_unit_def unit_bytes_def)
qed

definition graphic :: "char \<Rightarrow> bool" where
  "graphic c \<longleftrightarrow> 33 \<le> byte_of c \<and> byte_of c < 128"

lemma trim_space_id:
  assumes "s \<noteq> []" "graphic (hd s)" "graphic (last s)"
  shows "trim_space s = s"
proof -
  obtain us where us: "utf8_units s = us @ [[last s]]"
    using utf8_units_last [of "last s" "butlast s"] assms by (auto simp: graphic_def)
  obtain vs where vs: "utf8_units s = [hd s] # vs"
    using utf8_units_ascii [of "hd s" "tl s"] assms by (auto simp: graphic_def)
  have "\<not> is_space_unit [hd s]" "\<not> is_space_unit [last s]"
    using assms space_unit_ascii by (auto simp: graphic_def)
  then have "dropWhile is_space_unit (utf8_units s) = utf8_units s"
    "dropWhile is_space_unit (rev (utf8_units s)) = rev (utf8_units s)"
    by (subst vs, simp add: vs, subst us, simp add: us)
  then show ?thesis by (simp add: trim_space_def)
qed

lemma set_trim_space: "set (trim_space s) \<subseteq> set s"
proof -
  have "set (dropWhile P us) \<subseteq> set us" for P and us :: "string list" by (meson set_dropWhileD subsetI)
  then have "set (rev (dropWhile is_space_unit (rev (dropWhile is_space_unit (utf8_units s))))) \<subseteq> set (utf8_units s)"
    by (metis (no_types, lifting) set_rev subset_trans)
  then have "set (trim_space s) \<subseteq> set (concat (utf8_units s))"
    unfolding trim_space_def set_concat by blast
  then show ?thesis by simp
qed

end
