(* ===== verification/Sha256.thy ===== *)
theory Sha256
  imports GoPrelude "HOL-Library.Word"
begin

text \<open>
  SHA-256 (FIPS 180-4), the one function of Go's \<^verbatim>\<open>crypto/sha256\<close> the modelled code calls, and
  the lower-case hex encoding of \<^verbatim>\<open>encoding/hex\<close>. Words are 32 bits wide, so addition wraps.
  Nothing is claimed here about collisions: the components use only that the digest is a
  function of the input and 32 bytes long.
\<close>

unbundle bit_operations_syntax

type_synonym u32 = "32 word"

text \<open>The standard's constants, as it derives them: the first 32 bits of the fractional parts of the cube
  and square roots of the first primes. \<open>root_bits k n b 0\<close> is the integer \<open>k\<close>th root of \<open>n\<close>,
  found bit by bit from bit \<open>b - 1\<close> down.\<close>

primrec root_bits :: "nat \<Rightarrow> nat \<Rightarrow> nat \<Rightarrow> nat \<Rightarrow> nat" where
  "root_bits k n 0 r = r"
| "root_bits k n (Suc b) r = root_bits k n b (if (r + 2 ^ b) ^ k \<le> n then r + 2 ^ b else r)"

definition sha_primes :: "nat list" where
  "sha_primes = filter (\<lambda>p. list_all (\<lambda>d. p mod d \<noteq> 0) [2..<p]) [2..<312]"

definition sha_k :: "u32 list" where
  "sha_k = map (\<lambda>p. word_of_nat (root_bits 3 (p * 2 ^ 96) 36 0)) sha_primes"

definition sha_h0 :: "u32 list" where
  "sha_h0 = map (\<lambda>p. word_of_nat (root_bits 2 (p * 2 ^ 64) 36 0)) [2, 3, 5, 7, 11, 13, 17, 19]"

definition be_bytes :: "nat \<Rightarrow> nat \<Rightarrow> string" where
  "be_bytes k n = map (\<lambda>i. char_of (n div 256 ^ i)) (rev [0..<k])"

definition sha_pad :: "string \<Rightarrow> string" where
  "sha_pad s =
     s @ [char_of (128::nat)] @ replicate ((119 - length s mod 64) mod 64) (char_of (0::nat))
       @ be_bytes 8 ((8 * length s) mod 2 ^ 64)"

fun be_words :: "string \<Rightarrow> u32 list" where
  "be_words (a # b # c # d # rest) =
     word_of_nat (byte_of a * 2 ^ 24 + byte_of b * 2 ^ 16 + byte_of c * 2 ^ 8 + byte_of d) # be_words rest"
| "be_words _ = []"

text \<open>The message schedule, newest word first.\<close>

definition sha_next :: "u32 list \<Rightarrow> u32" where
  "sha_next ws =
     (let a = ws ! 14; b = ws ! 1 in
      ws ! 15 + (word_rotr 7 a XOR word_rotr 18 a XOR drop_bit 3 a)
      + ws ! 6 + (word_rotr 17 b XOR word_rotr 19 b XOR drop_bit 10 b))"

primrec sha_extend :: "nat \<Rightarrow> u32 list \<Rightarrow> u32 list" where
  "sha_extend 0 ws = ws"
| "sha_extend (Suc n) ws = sha_extend n (sha_next ws # ws)"

fun sha_round :: "u32 list \<Rightarrow> u32 \<times> u32 \<Rightarrow> u32 list" where
  "sha_round [a, b, c, d, e, f, g, h] (k, w) =
     (let t1 = h + (word_rotr 6 e XOR word_rotr 11 e XOR word_rotr 25 e)
                 + ((e AND f) XOR (NOT e AND g)) + k + w;
          t2 = (word_rotr 2 a XOR word_rotr 13 a XOR word_rotr 22 a)
                 + ((a AND b) XOR (a AND c) XOR (b AND c))
      in [t1 + t2, a, b, c, d + t1, e, f, g])"
| "sha_round st kw = st"

definition sha_block :: "u32 list \<Rightarrow> u32 list \<Rightarrow> u32 list" where
  "sha_block st m =
     map2 (+) st (foldl sha_round st (zip sha_k (rev (sha_extend 48 (rev m)))))"

fun sha_blocks :: "u32 list \<Rightarrow> u32 list \<Rightarrow> u32 list" where
  "sha_blocks st ws = (if ws = [] then st else sha_blocks (sha_block st (take 16 ws)) (drop 16 ws))"

declare sha_blocks.simps [simp del]

definition word_bytes :: "u32 \<Rightarrow> string" where
  "word_bytes w = map (\<lambda>n. char_of (unat (drop_bit n w))) [24, 16, 8, 0]"

definition sha256 :: "string \<Rightarrow> string" where
  "sha256 s = concat (map word_bytes (sha_blocks sha_h0 (be_words (sha_pad s))))"

definition hex_digit :: "nat \<Rightarrow> char" where
  "hex_digit n = char_of (if n < 10 then 48 + n else 87 + n)"

definition hex_encode :: "string \<Rightarrow> string" where
  "hex_encode s = concat (map (\<lambda>c. [hex_digit (byte_of c div 16), hex_digit (byte_of c mod 16)]) s)"

section \<open>Lengths\<close>

lemma length_sha_round [simp]: "length (sha_round st kw) = length st"
  by (induction st kw rule: sha_round.induct) (auto simp: Let_def)

lemma length_foldl_sha_round [simp]: "length (foldl sha_round st kws) = length st"
  by (induction kws arbitrary: st) auto

lemma length_sha_block [simp]: "length (sha_block st m) = length st"
  by (simp add: sha_block_def)

lemma length_sha_blocks [simp]: "length (sha_blocks st ws) = length st"
proof (induction st ws rule: sha_blocks.induct)
  case (1 st ws)
  then show ?case by (subst sha_blocks.simps) simp
qed

lemma length_sha_h0: "length sha_h0 = 8"
  by (simp add: sha_h0_def)

lemma length_word_bytes [simp]: "length (word_bytes w) = 4"
  by (simp add: word_bytes_def)

lemma length_sha256 [simp]: "length (sha256 s) = 32"
proof -
  have "length (concat (map word_bytes ws)) = 4 * length ws" for ws
    by (induction ws) auto
  then show ?thesis by (simp add: sha256_def length_sha_h0)
qed

lemma length_hex_encode [simp]: "length (hex_encode s) = 2 * length s"
  by (induction s) (auto simp: hex_encode_def)

lemma hex_encode_set: "c \<in> set (hex_encode s) \<Longrightarrow> is_digit c \<or> is_lower c"
proof -
  have d: "is_digit (hex_digit n) \<or> is_lower (hex_digit n)" if "n < 16" for n
    using that by (auto simp: hex_digit_def byte_class_defs)
  have b: "byte_of x div 16 < 16 \<and> byte_of x mod 16 < 16" for x :: char
    using byte_of_less [of x] by (auto simp: less_mult_imp_div_less)
  assume "c \<in> set (hex_encode s)"
  then obtain n where "c = hex_digit n" "n < 16"
    using b by (auto simp: hex_encode_def)
  with d show ?thesis by blast
qed

end
