(* ===== verification/SqlIdent.thy ===== *)
theory SqlIdent
  imports Sha256
begin

text \<open>
  SQL identifiers of the query package: \<^verbatim>\<open>core/query/safe.go\<close> and \<^verbatim>\<open>core/query/keyword.go\<close>.
  Validation (\<^verbatim>\<open>SafeIdent\<close>, \<^verbatim>\<open>SafeTableName\<close>), naming of generated objects (\<^verbatim>\<open>FitIdent\<close>,
  \<^verbatim>\<open>ObjectName\<close>, \<^verbatim>\<open>FitObjectName\<close>), quoting (\<^verbatim>\<open>QuoteIdent\<close>, \<^verbatim>\<open>QuoteFolded\<close>,
  \<^verbatim>\<open>QuoteKeyword\<close>) and the scrub the builders run over every identifier slot
  (\<^verbatim>\<open>sanitizeFragment\<close>, \<^verbatim>\<open>sanitizeColumn\<close>, \<^verbatim>\<open>sanitizeDirection\<close>). A Go panic is \<^term>\<open>None\<close>,
  an error return is \<^term>\<open>Inl\<close>.
\<close>

section \<open>Identifier syntax\<close>

datatype ident_error = EmptyIdent | UnsafeIdent string

definition isASCIIDigit :: "char \<Rightarrow> bool" where
  "isASCIIDigit b \<longleftrightarrow> is_digit b"

definition isIdentByte :: "char \<Rightarrow> bool" where
  "isIdentByte b \<longleftrightarrow> b = CHR ''_'' \<or> is_lower b \<or> is_upper b \<or> isASCIIDigit b"

definition ident_start :: "char \<Rightarrow> bool" where
  "ident_start c \<longleftrightarrow> is_lower c \<or> is_upper c \<or> c = CHR ''_''"

text \<open>
  \<^verbatim>\<open>identRe\<close>, \<^verbatim>\<open>^[a-zA-Z_][a-zA-Z0-9_]*(\.[a-zA-Z_][a-zA-Z0-9_]*)*$\<close>, as the automaton with
  one state before a segment's first byte and one inside a segment.
\<close>

fun ident_seg_start :: "string \<Rightarrow> bool" and ident_seg_rest :: "string \<Rightarrow> bool" where
  "ident_seg_start [] = False"
| "ident_seg_start (c # cs) = (ident_start c \<and> ident_seg_rest cs)"
| "ident_seg_rest [] = True"
| "ident_seg_rest (c # cs) =
     (if c = CHR ''.'' then ident_seg_start cs else isIdentByte c \<and> ident_seg_rest cs)"

definition identRe :: "string \<Rightarrow> bool" where
  "identRe s = ident_seg_start s"

definition SafeIdent :: "string \<Rightarrow> ident_error + string" where
  "SafeIdent s =
     (if s = [] then Inl EmptyIdent
      else if \<not> identRe s then Inl (UnsafeIdent s)
      else Inr s)"

definition MustIdent :: "string \<Rightarrow> string option" where
  "MustIdent s = (case SafeIdent s of Inl e \<Rightarrow> None | Inr i \<Rightarrow> Some i)"

section \<open>Names of generated objects\<close>

definition MaxIdentBytes :: nat where
  "MaxIdentBytes = 63"

definition identHash :: "string \<Rightarrow> string" where
  "identHash name = hex_encode (take 4 (sha256 (map lower_byte name)))"

definition FitIdent :: "string \<Rightarrow> string" where
  "FitIdent name =
     (if length name \<le> MaxIdentBytes then name
      else take (MaxIdentBytes - 9) name @ ''_'' @ identHash name)"

text \<open>
  The trimming loop of \<^verbatim>\<open>ObjectName\<close>. The counters are Go ints: nothing in the loop keeps them
  from going below zero, and a negative slice bound panics.
\<close>

function trim_loop :: "int \<Rightarrow> int \<Rightarrow> int \<Rightarrow> int \<times> int" where
  "trim_loop avail n1 n2 =
     (if n1 + n2 > avail
      then (if n1 > n2 then trim_loop avail (n1 - 1) n2 else trim_loop avail n1 (n2 - 1))
      else (n1, n2))"
  by pat_completeness auto
termination
  by (relation "measure (\<lambda>(avail, n1, n2). nat (n1 + n2 - avail))") auto

declare trim_loop.simps [simp del]

definition ObjectName :: "string \<Rightarrow> string \<Rightarrow> string \<Rightarrow> string option" where
  "ObjectName name1 name2 label =
     (let avail = int MaxIdentBytes - int (length label) - 2;
          (n1, n2) = trim_loop avail (int (length name1)) (int (length name2))
      in if n1 < 0 \<or> n2 < 0 then None
         else Some (take (nat n1) name1 @ ''_'' @ take (nat n2) name2 @ ''_'' @ label))"

text \<open>One \<^verbatim>\<open>%d:%s\<close> of the text \<^verbatim>\<open>FitObjectName\<close> hashes.\<close>

definition len_part :: "string \<Rightarrow> string" where
  "len_part p = show_nat (length p) @ '':'' @ p"

definition FitObjectName :: "string \<Rightarrow> string \<Rightarrow> string \<Rightarrow> string option" where
  "FitObjectName name1 name2 label =
     (let whole = name1 @ ''_'' @ name2 @ ''_'' @ label in
      if length whole \<le> MaxIdentBytes then Some whole
      else let parts = len_part name1 @ ''|'' @ len_part name2 @ ''|'' @ len_part label
           in ObjectName name1 name2 (identHash parts @ ''_'' @ label))"

section \<open>Quoting\<close>

definition QuoteIdent :: "string \<Rightarrow> string" where
  "QuoteIdent s = [DQ] @ replace_all s [DQ] [DQ, DQ] @ [DQ]"

definition QuoteFolded :: "string \<Rightarrow> string" where
  "QuoteFolded s = join ''.'' (map (\<lambda>part. QuoteIdent (map lower_byte part)) (split_on CHR ''.'' s))"

definition QuoteIndexName :: "string \<Rightarrow> string" where
  "QuoteIndexName s =
     QuoteFolded (FitIdent (case cut_last CHR ''.'' s of Some (_, b) \<Rightarrow> b | None \<Rightarrow> s))"

definition IndexOn :: "bool \<Rightarrow> string \<Rightarrow> string \<Rightarrow> string" where
  "IndexOn sqlite name table =
     (case cut_last CHR ''.'' table of
        Some (schema, t) \<Rightarrow>
          if sqlite then schema @ ''.'' @ name @ '' ON '' @ t else name @ '' ON '' @ table
      | None \<Rightarrow> name @ '' ON '' @ table)"

definition SQLitePragma :: "string \<Rightarrow> string \<Rightarrow> string" where
  "SQLitePragma fn table =
     (case cut_last CHR ''.'' table of
        Some (schema, t) \<Rightarrow> ''PRAGMA '' @ schema @ ''.'' @ fn @ ''('' @ t @ '')''
      | None \<Rightarrow> ''PRAGMA '' @ fn @ ''('' @ table @ '')'')"

definition SafeQuote :: "string \<Rightarrow> ident_error + string" where
  "SafeQuote s =
     (case SafeIdent s of
        Inl e \<Rightarrow> Inl e
      | Inr _ \<Rightarrow> Inr (join ''.'' (map QuoteIdent (split_on CHR ''.'' s))))"

definition reservedSQLIdents :: "string list" where
  "reservedSQLIdents =
     [''select'', ''insert'', ''update'', ''delete'',
      ''drop'', ''create'', ''table'', ''from'', ''where'',
      ''users'', ''user'', ''migrations'', ''sessions'', ''accounts'']"

definition ReservedIdent :: "string \<Rightarrow> bool" where
  "ReservedIdent name \<longleftrightarrow> to_lower name \<in> set reservedSQLIdents"

definition SafeTableName :: "string \<Rightarrow> bool" where
  "SafeTableName name \<longleftrightarrow>
     (if name = [] \<or> length name > 64 \<or> contains_str name ''.'' then False
      else (case SafeIdent name of Inl _ \<Rightarrow> False | Inr _ \<Rightarrow> \<not> ReservedIdent name))"

section \<open>Keywords\<close>

definition sql_keywords :: "string list" where
  "sql_keywords =
    [''add'', ''all'', ''alter'', ''analyse'', ''analyze'', ''and'', ''any'', ''array'', ''as'',
     ''asc'', ''asymmetric'', ''authorization'', ''autoincrement'', ''between'',
     ''binary'', ''both'', ''case'', ''cast'', ''check'', ''collate'', ''collation'',
     ''column'', ''commit'', ''concurrently'', ''constraint'', ''create'', ''cross'',
     ''current_catalog'', ''current_date'', ''current_role'', ''current_schema'',
     ''current_time'', ''current_timestamp'', ''current_user'', ''default'',
     ''deferrable'', ''delete'', ''desc'', ''distinct'', ''do'', ''drop'', ''else'',
     ''end'', ''escape'', ''except'', ''exists'', ''false'', ''fetch'', ''for'',
     ''foreign'', ''freeze'', ''from'', ''full'', ''grant'', ''group'', ''having'', ''if'',
     ''ilike'', ''in'', ''index'', ''initially'', ''inner'', ''insert'', ''intersect'',
     ''into'', ''is'', ''isnull'', ''join'', ''lateral'', ''leading'', ''left'', ''like'',
     ''limit'', ''localtime'', ''localtimestamp'', ''natural'', ''not'', ''nothing'',
     ''notnull'', ''null'', ''offset'', ''on'', ''only'', ''or'', ''order'', ''outer'',
     ''overlaps'', ''placing'', ''primary'', ''raise'', ''references'', ''returning'',
     ''right'', ''select'', ''session_user'', ''set'', ''similar'', ''some'',
     ''symmetric'', ''system_user'', ''table'', ''tablesample'', ''then'', ''to'',
     ''trailing'', ''transaction'', ''true'', ''union'', ''unique'', ''update'', ''user'',
     ''using'', ''values'', ''variadic'', ''verbose'', ''when'', ''where'', ''window'',
     ''with'']"

text \<open>\<^verbatim>\<open>asciicase.Lower\<close> folds A--Z and leaves every other byte.\<close>

definition asciicase_Lower :: "string \<Rightarrow> string" where
  "asciicase_Lower s = map lower_byte s"

definition IsKeyword :: "string \<Rightarrow> bool" where
  "IsKeyword name \<longleftrightarrow> asciicase_Lower name \<in> set sql_keywords"

definition QuoteKeyword :: "string \<Rightarrow> string" where
  "QuoteKeyword name =
     (if \<not> contains_str name ''.'' then (if IsKeyword name then QuoteFolded name else name)
      else join ''.'' (map (\<lambda>p. if IsKeyword p then QuoteFolded p else p) (split_on CHR ''.'' name)))"

definition QuoteKeywords :: "string list \<Rightarrow> string list" where
  "QuoteKeywords names = map QuoteKeyword names"

definition identSlot :: "string \<Rightarrow> string" where
  "identSlot s = (if \<not> identRe s then s else QuoteKeyword s)"

section \<open>The scrub\<close>

definition dangerousSeqs :: "string list" where
  "dangerousSeqs = ['';'', ''--'', ''/*'', ''*/'']"

definition control_byte :: "char \<Rightarrow> bool" where
  "control_byte c \<longleftrightarrow> byte_of c < 32 \<or> byte_of c = 127"

definition parenReplacer :: "string \<Rightarrow> string" where
  "parenReplacer s = map (\<lambda>c. if c = CHR ''('' \<or> c = CHR '')'' then SP else c) s"

definition scrubFragment :: "string \<Rightarrow> string" where
  "scrubFragment s =
     foldl (\<lambda>out seq. replace_all out seq [SP])
       (parenReplacer (filter (\<lambda>c. \<not> control_byte c) s)) dangerousSeqs"

fun fragmentIsClean :: "string \<Rightarrow> bool" where
  "fragmentIsClean [] = True"
| "fragmentIsClean (c # cs) =
     (if control_byte c \<or> c = CHR ''('' \<or> c = CHR '')'' \<or> c = CHR '';'' then False
      else if (case cs of [] \<Rightarrow> False
               | n # _ \<Rightarrow> (c = CHR ''-'' \<and> n = CHR ''-'') \<or> (c = CHR ''/'' \<and> n = CHR ''*'')
                        \<or> (c = CHR ''*'' \<and> n = CHR ''/'')) then False
      else fragmentIsClean cs)"

definition sanitizeFragment :: "string \<Rightarrow> string" where
  "sanitizeFragment s = (if fragmentIsClean s then s else scrubFragment s)"

definition sanitizeColumn :: "string \<Rightarrow> string" where
  "sanitizeColumn s =
     (let out = sanitizeFragment s in
      if \<not> (SP \<in> set out \<or> TAB \<in> set out) then out
      else filter (\<lambda>c. \<not> (c = SP \<or> c = TAB)) out)"

definition sanitizeDirection :: "string \<Rightarrow> string" where
  "sanitizeDirection s =
     (let u = to_upper (trim_space s) in
      if u = ''ASC'' \<or> u = ''DESC'' then u else [])"

section \<open>Identifiers accepted\<close>

definition ident_segment :: "string \<Rightarrow> bool" where
  "ident_segment w \<longleftrightarrow> (case w of [] \<Rightarrow> False | c # cs \<Rightarrow> ident_start c \<and> list_all isIdentByte cs)"

lemma ident_bytes_not_dot: "isIdentByte c \<Longrightarrow> c \<noteq> CHR ''.''" "ident_start c \<Longrightarrow> c \<noteq> CHR ''.''"
  by (auto simp: isIdentByte_def ident_start_def isASCIIDigit_def byte_class_defs)

lemma ident_start_isIdentByte: "ident_start c \<Longrightarrow> isIdentByte c"
  by (auto simp: isIdentByte_def ident_start_def)

lemma ident_seg_split:
  "ident_seg_start s \<longleftrightarrow> list_all ident_segment (split_on CHR ''.'' s)"
  "ident_seg_rest s \<longleftrightarrow>
     list_all isIdentByte (hd (split_on CHR ''.'' s)) \<and> list_all ident_segment (tl (split_on CHR ''.'' s))"
proof (induction s rule: ident_seg_start_ident_seg_rest.induct)
  case (2 c cs)
  then show ?case
    by (cases "split_on CHR ''.'' cs") (auto simp: ident_segment_def dest: ident_bytes_not_dot)
next
  case (4 c cs)
  then show ?case
    by (cases "split_on CHR ''.'' cs") (auto simp: ident_segment_def)
qed (auto simp: ident_segment_def)

text \<open>\<^verbatim>\<open>SafeIdent\<close> accepts exactly the non-empty dot-separated lists of segments that start with
  a letter or underscore and go on with letters, digits and underscores, and returns them
  unchanged: the regular expression and the segment reading agree on every byte string.\<close>

lemma SafeIdent_iff:
  "SafeIdent s = Inr t \<longleftrightarrow> t = s \<and> list_all ident_segment (split_on CHR ''.'' s)"
  by (auto simp: SafeIdent_def identRe_def ident_seg_split ident_segment_def)

section \<open>Lengths of generated names\<close>

lemma length_identHash [simp]: "length (identHash s) = 8"
  by (simp add: identHash_def)

lemma trim_loop_sum:
  "fst (trim_loop a m n) + snd (trim_loop a m n) = min (m + n) a"
proof (induction a m n rule: trim_loop.induct)
  case (1 a m n)
  then show ?case by (subst (1 2) trim_loop.simps) (auto simp: min_def)
qed

lemma trim_loop_nonneg:
  assumes "0 \<le> a" "0 \<le> m" "0 \<le> n"
  shows "0 \<le> fst (trim_loop a m n) \<and> 0 \<le> snd (trim_loop a m n)"
  using assms
proof (induction a m n rule: trim_loop.induct)
  case (1 a m n)
  then show ?case by (subst (1 2) trim_loop.simps) auto
qed

lemma trim_loop_le: "fst (trim_loop a m n) \<le> m \<and> snd (trim_loop a m n) \<le> n"
proof (induction a m n rule: trim_loop.induct)
  case (1 a m n)
  then show ?case by (subst (1 2) trim_loop.simps) (simp; linarith)
qed

lemma ObjectName_Some:
  assumes "length label \<le> 61"
  shows "\<exists>k1 k2. ObjectName n1 n2 label = Some (take k1 n1 @ ''_'' @ take k2 n2 @ ''_'' @ label)
     \<and> k1 \<le> length n1 \<and> k2 \<le> length n2 \<and> k1 + k2 = min (length n1 + length n2) (61 - length label)"
proof -
  let ?a = "int MaxIdentBytes - int (length label) - 2"
  let ?r = "trim_loop ?a (int (length n1)) (int (length n2))"
  have a: "0 \<le> ?a" using assms by (simp add: MaxIdentBytes_def)
  have nn: "0 \<le> fst ?r \<and> 0 \<le> snd ?r" using trim_loop_nonneg [OF a] by simp
  have le: "fst ?r \<le> int (length n1) \<and> snd ?r \<le> int (length n2)" by (rule trim_loop_le)
  have sum: "fst ?r + snd ?r = min (int (length n1) + int (length n2)) ?a" by (rule trim_loop_sum)
  have "nat (fst ?r) + nat (snd ?r) = min (length n1 + length n2) (61 - length label)"
    using sum nn assms by (simp add: MaxIdentBytes_def nat_add_distrib [symmetric] split: split_min)
  moreover have "ObjectName n1 n2 label =
      Some (take (nat (fst ?r)) n1 @ ''_'' @ take (nat (snd ?r)) n2 @ ''_'' @ label)"
    using nn by (simp add: ObjectName_def Let_def case_prod_beta)
  ultimately show ?thesis using le nn
    by (intro exI [of _ "nat (fst ?r)"] exI [of _ "nat (snd ?r)"]) auto
qed

lemma ObjectName_None: "61 < length label \<Longrightarrow> ObjectName n1 n2 label = None"
  using trim_loop_sum [of "int MaxIdentBytes - int (length label) - 2" "int (length n1)" "int (length n2)"]
  by (auto simp: ObjectName_def MaxIdentBytes_def Let_def split: prod.split)

text \<open>Names of generated objects fit Postgres's 63 bytes: \<^verbatim>\<open>FitIdent\<close> always, \<^verbatim>\<open>FitObjectName\<close>
  whenever it returns, keeping the label whole at the end and a name that already fits as it is;
  it panics (slice bounds) only for a label longer than 52 bytes, and \<^verbatim>\<open>ObjectName\<close> exactly
  for a label longer than 61.\<close>

lemma FitObjectName_fits:
  "length (FitIdent n1) \<le> MaxIdentBytes
   \<and> (ObjectName n1 n2 label = None \<longleftrightarrow> 61 < length label)
   \<and> (case FitObjectName n1 n2 label of
        None \<Rightarrow> 52 < length label
      | Some r \<Rightarrow> length r \<le> MaxIdentBytes \<and> (\<exists>p. r = p @ ''_'' @ label)
          \<and> (r = n1 @ ''_'' @ n2 @ ''_'' @ label \<longleftrightarrow>
               length (n1 @ ''_'' @ n2 @ ''_'' @ label) \<le> MaxIdentBytes))"
proof (intro conjI)
  show "length (FitIdent n1) \<le> MaxIdentBytes" by (simp add: FitIdent_def MaxIdentBytes_def)
  show "ObjectName n1 n2 label = None \<longleftrightarrow> 61 < length label"
    using ObjectName_Some [of label n1 n2] ObjectName_None [of label n1 n2] by (metis leI option.distinct(1))
next
  let ?whole = "n1 @ ''_'' @ n2 @ ''_'' @ label"
  let ?h = "identHash (len_part n1 @ ''|'' @ len_part n2 @ ''|'' @ len_part label) @ ''_'' @ label"
  show "case FitObjectName n1 n2 label of
        None \<Rightarrow> 52 < length label
      | Some r \<Rightarrow> length r \<le> MaxIdentBytes \<and> (\<exists>p. r = p @ ''_'' @ label)
          \<and> (r = ?whole \<longleftrightarrow> length ?whole \<le> MaxIdentBytes)"
  proof (cases "length ?whole \<le> MaxIdentBytes")
    case True
    then have "FitObjectName n1 n2 label = Some ?whole" by (simp add: FitObjectName_def Let_def)
    with True show ?thesis by (auto intro: exI [of _ "n1 @ ''_'' @ n2"])
  next
    case False
    then have f: "FitObjectName n1 n2 label = ObjectName n1 n2 ?h"
      by (simp add: FitObjectName_def Let_def)
    show ?thesis
    proof (cases "length label \<le> 52")
      case True
      then obtain k1 k2 where r: "ObjectName n1 n2 ?h = Some (take k1 n1 @ ''_'' @ take k2 n2 @ ''_'' @ ?h)"
        and k: "k1 \<le> length n1" "k2 \<le> length n2" "k1 + k2 \<le> 61 - length ?h"
        using ObjectName_Some [of ?h n1 n2] by auto
      let ?r = "take k1 n1 @ ''_'' @ take k2 n2 @ ''_'' @ ?h"
      have len: "length ?r \<le> MaxIdentBytes" using k True by (simp add: MaxIdentBytes_def)
      with False have "?r \<noteq> ?whole" by metis
      moreover have "\<exists>p. ?r = p @ ''_'' @ label" by (metis append.assoc)
      ultimately show ?thesis using f r len False by simp
    next
      case long: False
      then have "ObjectName n1 n2 ?h = None" by (intro ObjectName_None) simp
      with f long show ?thesis by simp
    qed
  qed
qed

section \<open>What the scrub leaves\<close>

fun no_pair :: "char \<Rightarrow> char \<Rightarrow> string \<Rightarrow> bool" where
  "no_pair a b (c # d # cs) = (\<not> (c = a \<and> d = b) \<and> no_pair a b (d # cs))"
| "no_pair a b _ = True"

lemma hd_replace_two:
  assumes "b \<noteq> x" "a \<noteq> x"
  shows "replace_all s [a, b] [x] = d # r \<Longrightarrow> d = x \<or> (\<exists>s'. s = d # s')"
  using assms by (cases s) (auto simp: replace_two_Cons split: list.splits if_splits)

lemma no_pair_Cons: "no_pair a b (c # s) \<longleftrightarrow> no_pair a b s \<and> (c = a \<longrightarrow> (\<forall>s'. s \<noteq> b # s'))"
  by (cases s) auto

lemma no_pair_replace_same:
  assumes "x \<noteq> a" "x \<noteq> b"
  shows "no_pair a b (replace_all s [a, b] [x])"
proof (induction s rule: length_induct)
  case (1 s)
  show ?case
  proof (cases s)
    case (Cons c cs)
    show ?thesis
    proof (cases "\<exists>ds. c = a \<and> cs = b # ds")
      case True
      then obtain ds where "c = a" "cs = b # ds" by blast
      with 1 Cons assms show ?thesis by (simp add: replace_two_Cons no_pair_Cons)
    next
      case False
      then have "replace_all s [a, b] [x] = c # replace_all cs [a, b] [x]"
        using Cons by (auto simp: replace_two_Cons split: list.split)
      moreover have "replace_all cs [a, b] [x] \<noteq> b # r" if "c = a" for r
        using hd_replace_two [of b x a cs b r] False assms that by auto
      ultimately show ?thesis using 1 Cons by (simp add: no_pair_Cons)
    qed
  qed simp
qed

lemma no_pair_replace_other:
  assumes "x \<notin> {a, b, c, d}" "no_pair c d s"
  shows "no_pair c d (replace_all s [a, b] [x])"
  using assms(2)
proof (induction s rule: length_induct)
  case (1 s)
  show ?case
  proof (cases s)
    case (Cons e es)
    have np: "no_pair c d es" using 1 Cons by (simp add: no_pair_Cons)
    show ?thesis
    proof (cases "\<exists>ds. e = a \<and> es = b # ds")
      case True
      then obtain ds where "e = a" "es = b # ds" by blast
      with 1 Cons assms np show ?thesis by (simp add: replace_two_Cons no_pair_Cons)
    next
      case False
      then have "replace_all s [a, b] [x] = e # replace_all es [a, b] [x]"
        using Cons by (auto simp: replace_two_Cons split: list.split)
      moreover have "replace_all es [a, b] [x] \<noteq> d # r" if "e = c" for r
        using hd_replace_two [of b x a es d r] "1.prems" Cons assms that by (auto simp: no_pair_Cons)
      ultimately show ?thesis using 1 Cons np by (simp add: no_pair_Cons)
    qed
  qed simp
qed

definition bad_byte :: "char \<Rightarrow> bool" where
  "bad_byte c \<longleftrightarrow> control_byte c \<or> c = CHR ''('' \<or> c = CHR '')'' \<or> c = CHR '';''"

lemma fragmentIsClean_iff:
  "fragmentIsClean s \<longleftrightarrow> (\<forall>c\<in>set s. \<not> bad_byte c) \<and> no_pair CHR ''-'' CHR ''-'' s
     \<and> no_pair CHR ''/'' CHR ''*'' s \<and> no_pair CHR ''*'' CHR ''/'' s"
  by (induction s rule: fragmentIsClean.induct) (auto simp: no_pair_Cons bad_byte_def split: list.splits)

definition scrub_byte :: "char \<Rightarrow> char" where
  "scrub_byte c = (if c = CHR ''('' \<or> c = CHR '')'' \<or> c = CHR '';'' then SP else c)"

lemma scrubFragment_eq:
  "scrubFragment s =
     replace_all (replace_all (replace_all (map scrub_byte (filter (\<lambda>c. \<not> control_byte c) s))
       ''--'' [SP]) ''/*'' [SP]) ''*/'' [SP]"
proof -
  have "replace_all (parenReplacer t) '';'' [SP] = map scrub_byte t" for t
    by (induction t) (simp_all add: replace_one parenReplacer_def scrub_byte_def)
  then show ?thesis by (simp add: scrubFragment_def dangerousSeqs_def)
qed

lemma scrub_clean: "fragmentIsClean (scrubFragment s)"
proof -
  let ?m = "map scrub_byte (filter (\<lambda>c. \<not> control_byte c) s)"
  let ?r1 = "replace_all ?m ''--'' [SP]" and ?r2 = "replace_all (replace_all ?m ''--'' [SP]) ''/*'' [SP]"
  have sp: "\<not> bad_byte SP" by (simp add: bad_byte_def control_byte_def)
  have "\<forall>c\<in>set ?m. \<not> bad_byte c" using sp by (auto simp: scrub_byte_def bad_byte_def)
  then have b: "\<forall>c\<in>set (replace_all ?r2 ''*/'' [SP]). \<not> bad_byte c"
    using sp by (intro replace_all_pred) simp_all
  have "no_pair CHR ''-'' CHR ''-'' ?r1" by (rule no_pair_replace_same) simp_all
  then have p1: "no_pair CHR ''-'' CHR ''-'' (replace_all ?r2 ''*/'' [SP])"
    by (rule no_pair_replace_other [rotated, OF no_pair_replace_other [rotated]]) simp_all
  have "no_pair CHR ''/'' CHR ''*'' ?r2" by (rule no_pair_replace_same) simp_all
  then have p2: "no_pair CHR ''/'' CHR ''*'' (replace_all ?r2 ''*/'' [SP])"
    by (rule no_pair_replace_other [rotated]) simp_all
  have p3: "no_pair CHR ''*'' CHR ''/'' (replace_all ?r2 ''*/'' [SP])"
    by (rule no_pair_replace_same) simp_all
  show ?thesis using b p1 p2 p3 by (simp add: fragmentIsClean_iff scrubFragment_eq)
qed


lemma replace_two_absent: "no_pair a b s \<Longrightarrow> replace_all s [a, b] new = s"
proof (induction s)
  case (Cons c cs)
  then show ?case by (cases cs) (auto simp: replace_two_Cons [of c])
qed simp

lemma scrub_of_clean: "fragmentIsClean s \<Longrightarrow> scrubFragment s = s"
proof -
  assume c: "fragmentIsClean s"
  then have b: "\<forall>x\<in>set s. \<not> bad_byte x" by (simp add: fragmentIsClean_iff)
  then have "filter (\<lambda>c. \<not> control_byte c) s = s" by (simp add: bad_byte_def)
  moreover have "map scrub_byte s = s"
    using b by (intro map_idI) (simp add: bad_byte_def scrub_byte_def)
  ultimately show ?thesis using c by (simp add: scrubFragment_eq replace_two_absent fragmentIsClean_iff)
qed

lemma sanitizeFragment_clean: "fragmentIsClean (sanitizeFragment s)"
  by (simp add: sanitizeFragment_def scrub_clean)

lemma sanitizeFragment_idem [simp]: "sanitizeFragment (sanitizeFragment s) = sanitizeFragment s"
  by (simp add: sanitizeFragment_def scrub_clean)

text \<open>C3. Whatever the input, \<^verbatim>\<open>sanitizeFragment\<close> returns a fragment with no control byte, no
  parenthesis, no semicolon and no comment opener or closer; it is idempotent, and it returns its
  input exactly when \<^verbatim>\<open>fragmentIsClean\<close> says so, which is what the fast path relies on.\<close>

theorem sanitizeFragment_safe:
  "fragmentIsClean (sanitizeFragment s)
   \<and> sanitizeFragment (sanitizeFragment s) = sanitizeFragment s
   \<and> (scrubFragment s = s \<longleftrightarrow> fragmentIsClean s)"
proof (intro conjI)
  show "scrubFragment s = s \<longleftrightarrow> fragmentIsClean s"
    using scrub_clean [of s] scrub_of_clean [of s] by metis
qed (simp_all add: sanitizeFragment_clean)

lemma sanitizeColumn_bytes:
  "c \<in> set (sanitizeColumn s) \<Longrightarrow> \<not> bad_byte c \<and> c \<noteq> SP \<and> c \<noteq> TAB"
  using sanitizeFragment_clean [of s]
  by (auto simp: sanitizeColumn_def Let_def fragmentIsClean_iff split: if_splits)

lemma sanitizeColumn_filter:
  "sanitizeColumn s = filter (\<lambda>c. c \<noteq> SP \<and> c \<noteq> TAB) (sanitizeFragment s)"
  by (auto simp: sanitizeColumn_def Let_def filter_id_conv intro!: filter_cong [THEN trans] filter_True [symmetric])

lemma no_pair_split: "no_pair x y s \<longleftrightarrow> \<not> (\<exists>a b. s = a @ x # y # b)"
proof (induction s)
  case (Cons c s)
  have "(\<exists>a b. c # s = a @ x # y # b) \<longleftrightarrow> (c = x \<and> (\<exists>s'. s = y # s')) \<or> (\<exists>a b. s = a @ x # y # b)"
    by (metis append_Cons append_Nil list.inject neq_Nil_conv)
  with Cons show ?case by (auto simp: no_pair_Cons)
qed simp

lemma filter_eq_appendD: "filter P s = a @ t \<Longrightarrow> \<exists>s1 s2. s = s1 @ s2 \<and> filter P s2 = t"
proof (induction a arbitrary: s)
  case Nil
  then show ?case by (intro exI [of _ "[]"] exI [of _ s]) simp
next
  case (Cons c a)
  then obtain u v where "s = u @ c # v" "filter P v = a @ t" by (auto simp: filter_eq_Cons_iff)
  with Cons.IH [of v] obtain s1 s2 where "s = (u @ c # s1) @ s2" "filter P s2 = t" by auto
  then show ?case by blast
qed

text \<open>Two bytes that stay are side by side after a filter when only dropped bytes stood between them.\<close>

lemma no_pair_filter:
  assumes "P x" "P y"
  shows "no_pair x y (filter P s) \<longleftrightarrow> \<not> (\<exists>a gap b. s = a @ x # gap @ y # b \<and> filter P gap = [])"
proof -
  have "(\<exists>a b. filter P s = a @ x # y # b) \<longleftrightarrow> (\<exists>a gap b. s = a @ x # gap @ y # b \<and> filter P gap = [])"
  proof
    assume "\<exists>a b. filter P s = a @ x # y # b"
    then obtain a b where "filter P s = a @ x # y # b" by blast
    then obtain s1 s2 where s: "s = s1 @ s2" "filter P s2 = x # y # b"
      using filter_eq_appendD by blast
    then obtain u v where v: "s2 = u @ x # v" "filter P v = y # b"
      by (metis filter_eq_Cons_iff)
    then obtain gap w where "v = gap @ y # w" "filter P gap = []"
      by (metis filter_eq_Cons_iff filter_empty_conv)
    with s v show "\<exists>a gap b. s = a @ x # gap @ y # b \<and> filter P gap = []"
      by (metis append.assoc)
  next
    assume "\<exists>a gap b. s = a @ x # gap @ y # b \<and> filter P gap = []"
    then obtain a gap b where "s = a @ x # gap @ y # b" "filter P gap = []" by blast
    with assms have "filter P s = filter P a @ x # y # filter P b" by simp
    then show "\<exists>a b. filter P s = a @ x # y # b" by blast
  qed
  then show ?thesis by (simp add: no_pair_split)
qed

text \<open>A text holds the two halves of a comment mark with nothing but blanks between them.\<close>

definition split_mark :: "char \<Rightarrow> char \<Rightarrow> string \<Rightarrow> bool" where
  "split_mark x y s \<longleftrightarrow> (\<exists>a gap b. s = a @ x # gap @ y # b \<and> set gap \<subseteq> {SP, TAB})"

lemma no_pair_sanitizeColumn:
  assumes "x \<noteq> SP" "x \<noteq> TAB" "y \<noteq> SP" "y \<noteq> TAB"
  shows "no_pair x y (sanitizeColumn s) \<longleftrightarrow> \<not> split_mark x y (sanitizeFragment s)"
proof -
  have "filter (\<lambda>c. c \<noteq> SP \<and> c \<noteq> TAB) gap = [] \<longleftrightarrow> set gap \<subseteq> {SP, TAB}" for gap :: string
    by (auto simp: filter_empty_conv)
  with no_pair_filter [of "\<lambda>c. c \<noteq> SP \<and> c \<noteq> TAB" x y "sanitizeFragment s"] assms show ?thesis
    by (simp add: sanitizeColumn_filter split_mark_def)
qed

text \<open>C4. What the column scrub keeps out and what it lets through, for every input:
  \<^verbatim>\<open>sanitizeColumn\<close> returns the bytes of the scrubbed fragment in order without its blanks, so that no
  control byte, parenthesis, semicolon or blank is left; but it takes the blanks out after the comment
  scrub, and its result is a clean fragment exactly when the scrubbed text has no comment mark whose two
  halves are parted by blanks only. Otherwise the blanks' removal joins the halves to \<^verbatim>\<open>--\<close>,
  \<^verbatim>\<open>/*\<close> or \<^verbatim>\<open>*/\<close> in the column slot.\<close>

theorem sanitizeColumn_clean_iff:
  "sanitizeColumn s = filter (\<lambda>c. c \<noteq> SP \<and> c \<noteq> TAB) (sanitizeFragment s)
   \<and> filter (\<lambda>c. bad_byte c \<or> c = SP \<or> c = TAB) (sanitizeColumn s) = []
   \<and> (fragmentIsClean (sanitizeColumn s) \<longleftrightarrow>
        \<not> (split_mark CHR ''-'' CHR ''-'' (sanitizeFragment s)
           \<or> split_mark CHR ''/'' CHR ''*'' (sanitizeFragment s)
           \<or> split_mark CHR ''*'' CHR ''/'' (sanitizeFragment s)))"
proof (intro conjI)
  show "filter (\<lambda>c. bad_byte c \<or> c = SP \<or> c = TAB) (sanitizeColumn s) = []"
    using sanitizeColumn_bytes [of _ s] by (auto simp: filter_empty_conv)
  have "\<forall>c\<in>set (sanitizeColumn s). \<not> bad_byte c" using sanitizeColumn_bytes [of _ s] by blast
  then show "fragmentIsClean (sanitizeColumn s) \<longleftrightarrow>
        \<not> (split_mark CHR ''-'' CHR ''-'' (sanitizeFragment s)
           \<or> split_mark CHR ''/'' CHR ''*'' (sanitizeFragment s)
           \<or> split_mark CHR ''*'' CHR ''/'' (sanitizeFragment s))"
    by (simp add: fragmentIsClean_iff no_pair_sanitizeColumn)
qed (rule sanitizeColumn_filter)

section \<open>Keyword quoting\<close>

lemma sql_keywords_bytes: "w \<in> set sql_keywords \<Longrightarrow> DQ \<notin> set w \<and> CHR ''.'' \<notin> set w"
  by (auto simp: sql_keywords_def)

lemma lower_byte_punct [simp]: "lower_byte c = CHR ''.'' \<longleftrightarrow> c = CHR ''.''" "lower_byte c = DQ \<longleftrightarrow> c = DQ"
  by (auto simp: lower_byte_def is_upper_def char_eq_byte)

lemma lower_byte_punct_sym [simp]: "DQ = lower_byte c \<longleftrightarrow> c = DQ" "CHR ''.'' = lower_byte c \<longleftrightarrow> c = CHR ''.''"
  using lower_byte_punct [of c] by (simp_all add: eq_commute [of _ "lower_byte c"])

lemma lower_byte_image_punct [simp]:
  "DQ \<in> lower_byte ` A \<longleftrightarrow> DQ \<in> A" "CHR ''.'' \<in> lower_byte ` A \<longleftrightarrow> CHR ''.'' \<in> A"
  by (auto simp: image_iff)

lemma IsKeyword_bytes: "IsKeyword p \<Longrightarrow> DQ \<notin> set p \<and> CHR ''.'' \<notin> set p"
  using sql_keywords_bytes [of "map lower_byte p"] by (simp add: IsKeyword_def asciicase_Lower_def)

lemma QuoteFolded_keyword: "IsKeyword p \<Longrightarrow> QuoteFolded p = DQ # map lower_byte p @ [DQ]"
  using IsKeyword_bytes [of p]
  by (simp add: QuoteFolded_def split_on_no_sep QuoteIdent_def replace_all_absent)

definition keyword_part :: "string \<Rightarrow> string" where
  "keyword_part p = (if IsKeyword p then DQ # map lower_byte p @ [DQ] else p)"

lemma QuoteKeyword_eq:
  "QuoteKeyword s = join ''.'' (map keyword_part (split_on CHR ''.'' s))"
proof -
  have e: "keyword_part p = (if IsKeyword p then QuoteFolded p else p)" for p
    by (simp add: keyword_part_def QuoteFolded_keyword)
  then have "map keyword_part = map (\<lambda>p. if IsKeyword p then QuoteFolded p else p)" by auto
  then show ?thesis by (simp add: QuoteKeyword_def split_on_no_sep e)
qed

lemma keyword_part_no_dot: "CHR ''.'' \<notin> set p \<Longrightarrow> CHR ''.'' \<notin> set (keyword_part p)"
  by (simp add: keyword_part_def)

lemma keyword_part_idem [simp]: "keyword_part (keyword_part p) = keyword_part p"
  using IsKeyword_bytes [of "DQ # map lower_byte p @ [DQ]"] by (auto simp: keyword_part_def)

lemma split_QuoteKeyword:
  "split_on CHR ''.'' (QuoteKeyword s) = map keyword_part (split_on CHR ''.'' s)"
  unfolding QuoteKeyword_eq
  by (rule split_on_join) (auto dest: split_on_parts keyword_part_no_dot)

text \<open>What Postgres reads an identifier part as: a quoted part is itself, a bare one folds.\<close>

definition pg_part :: "string \<Rightarrow> string" where
  "pg_part p = (case p of [] \<Rightarrow> [] | c # cs \<Rightarrow> if c = DQ then butlast cs else map lower_byte p)"

definition pg_name :: "string \<Rightarrow> string list" where
  "pg_name s = map pg_part (split_on CHR ''.'' s)"

lemma pg_part_keyword_part: "pg_part (keyword_part p) = pg_part p"
  using IsKeyword_bytes [of p] by (cases p) (auto simp: keyword_part_def pg_part_def)

text \<open>\<^verbatim>\<open>QuoteKeyword\<close> changes nothing on its own output, as its comment says, and names the same
  object: read the way Postgres reads a name (a quoted part as it stands, a bare part folded),
  every part of the result is what it was.\<close>

lemma QuoteKeyword_same_name:
  "QuoteKeyword (QuoteKeyword s) = QuoteKeyword s \<and> pg_name (QuoteKeyword s) = pg_name s"
proof
  show "QuoteKeyword (QuoteKeyword s) = QuoteKeyword s"
    unfolding QuoteKeyword_eq [of "QuoteKeyword s"] split_QuoteKeyword
    by (simp add: QuoteKeyword_eq o_def)
  show "pg_name (QuoteKeyword s) = pg_name s"
    by (simp add: pg_name_def split_QuoteKeyword pg_part_keyword_part)
qed


end
