(* ===== verification/SqlRenumber.thy ===== *)
theory SqlRenumber
  imports SqlIdent
begin

text \<open>
  The placeholder renumberer of \<^verbatim>\<open>core/query/query.go\<close>: \<^verbatim>\<open>renumberCondition\<close>,
  \<^verbatim>\<open>renumberPlaceholders\<close>, \<^verbatim>\<open>copyStringLiteral\<close> and \<^verbatim>\<open>dollarQuoteEnd\<close>.

  The Go loop walks an index over the condition and looks back at most two bytes. The model walks
  the suffix that is left, and carries the bytes already read, newest first, for the look-back:
  \<open>i == 0\<close> is an empty \<open>pre\<close> and \<open>condition[i-1]\<close> is its head. A scanner returns the text it
  consumed and the text that is left; \<open>next_tok\<close> is the body of the loop's switch, and
  \<open>renumber_loop\<close> the loop.
\<close>

section \<open>Scanners\<close>

text \<open>The quoted-identifier case: the text after the opening quote up to and with the closing one,
  a doubled quote being an escaped one.\<close>

fun scan_quoted :: "char \<Rightarrow> string \<Rightarrow> string \<times> string" where
  "scan_quoted q [] = ([], [])"
| "scan_quoted q (c # cs) =
     (if c = q then
        (case cs of
           d # ds \<Rightarrow> if d = q then map_prod (\<lambda>t. c # d # t) id (scan_quoted q ds) else ([c], cs)
         | [] \<Rightarrow> ([c], []))
      else map_prod ((#) c) id (scan_quoted q cs))"

text \<open>The loop of \<^verbatim>\<open>copyStringLiteral\<close>, after the opening quote.\<close>

fun scan_literal :: "bool \<Rightarrow> string \<Rightarrow> string \<times> string" where
  "scan_literal escapes [] = ([], [])"
| "scan_literal escapes (c # cs) =
     (if escapes \<and> c = BSL \<and> cs \<noteq> []
      then map_prod (\<lambda>t. c # hd cs # t) id (scan_literal escapes (tl cs))
      else if c = SQ then
        (case cs of
           d # ds \<Rightarrow> if d = SQ then map_prod (\<lambda>t. c # d # t) id (scan_literal escapes ds) else ([c], cs)
         | [] \<Rightarrow> ([c], []))
      else map_prod ((#) c) id (scan_literal escapes cs))"

text \<open>The byte before a token, as the \<^verbatim>\<open>$N\<close> case judges it.\<close>

definition breaks_token :: "string \<Rightarrow> bool" where
  "breaks_token pre \<longleftrightarrow>
     (case pre of [] \<Rightarrow> True
      | p # _ \<Rightarrow> \<not> isIdentByte p \<and> p \<noteq> CHR ''$'' \<and> byte_of p < 128)"

definition literal_escapes :: "string \<Rightarrow> bool" where
  "literal_escapes pre \<longleftrightarrow>
     (case pre of [] \<Rightarrow> False
      | e # before \<Rightarrow> (e = CHR ''E'' \<or> e = CHR ''e'') \<and> breaks_token before)"

definition copyStringLiteral :: "string \<Rightarrow> string \<Rightarrow> string \<times> string" where
  "copyStringLiteral pre after = map_prod ((#) SQ) id (scan_literal (literal_escapes pre) after)"

text \<open>A line comment, with its newline when it has one; the flag says it has none.\<close>

fun scan_line :: "string \<Rightarrow> string \<times> string \<times> bool" where
  "scan_line [] = ([], [], True)"
| "scan_line (c # cs) =
     (if c = NL then ([c], cs, False) else map_prod ((#) c) id (scan_line cs))"

text \<open>The nesting scan of a block comment after its opener: how many bytes it read and the depth it
  ended at.\<close>

fun scan_block :: "nat \<Rightarrow> string \<Rightarrow> nat \<times> nat" where
  "scan_block 0 s = (0, 0)"
| "scan_block (Suc d) [] = (0, Suc d)"
| "scan_block (Suc d) (c # cs) =
     (if c = CHR ''/'' \<and> cs \<noteq> [] \<and> hd cs = CHR ''*''
      then map_prod (\<lambda>n. n + 2) id (scan_block (Suc (Suc d)) (tl cs))
      else if c = CHR ''*'' \<and> cs \<noteq> [] \<and> hd cs = CHR ''/''
      then map_prod (\<lambda>n. n + 2) id (scan_block d (tl cs))
      else map_prod Suc id (scan_block (Suc d) cs))"

definition block_end :: "string \<Rightarrow> nat" where
  "block_end after =
     (let (n, depth) = scan_block 1 after in
      if depth > 0 then (case index_str after ''*/'' of Some k \<Rightarrow> k + 2 | None \<Rightarrow> n) else n)"

text \<open>\<^verbatim>\<open>dollarQuoteEnd\<close>: the length of the dollar-quoted literal whose \<^verbatim>\<open>$\<close> is just before the
  given text, counted after that \<^verbatim>\<open>$\<close>.\<close>

definition dollarQuoteEnd :: "string \<Rightarrow> nat option" where
  "dollarQuoteEnd after =
     (if after \<noteq> [] \<and> isASCIIDigit (hd after) then None
      else let name = takeWhile isIdentByte after; r = dropWhile isIdentByte after in
        case r of
          [] \<Rightarrow> None
        | c # rest \<Rightarrow>
            if c \<noteq> CHR ''$'' then None
            else let tag = ''$'' @ name @ ''$'' in
              case index_str rest tag of
                None \<Rightarrow> Some (length after)
              | Some e \<Rightarrow> Some (length name + 1 + e + length tag))"

section \<open>The loop\<close>

datatype sqltok =
    TRaw string \<comment> \<open>copied byte for byte\<close>
  | TParam string \<comment> \<open>a placeholder, with its digits\<close>
  | TOpenComment string \<comment> \<open>a line comment that runs to the end of the condition\<close>

definition next_tok :: "string \<Rightarrow> char \<Rightarrow> string \<Rightarrow> sqltok \<times> string" where
  "next_tok pre c cs =
     (if c = DQ \<or> c = BT then map_prod (\<lambda>t. TRaw (c # t)) id (scan_quoted c cs)
      else if c = SQ then map_prod TRaw id (copyStringLiteral pre cs)
      else if c = CHR ''-'' \<and> cs \<noteq> [] \<and> hd cs = CHR ''-'' then
        (case scan_line (c # cs) of
           (t, r, open) \<Rightarrow> (if open then TOpenComment t else TRaw t, r))
      else if c = CHR ''/'' \<and> cs \<noteq> [] \<and> hd cs = CHR ''*'' then
        (let n = block_end (tl cs) in (TRaw (c # hd cs # take n (tl cs)), drop n (tl cs)))
      else if c = CHR ''$'' \<and> breaks_token pre then
        (case dollarQuoteEnd cs of
           Some n \<Rightarrow> (TRaw (c # take n cs), drop n cs)
         | None \<Rightarrow>
             if cs \<noteq> [] \<and> isASCIIDigit (hd cs)
             then (TParam (takeWhile isASCIIDigit cs), dropWhile isASCIIDigit cs)
             else (TRaw [c], cs))
      else (TRaw [c], cs))"

fun tok_text :: "sqltok \<Rightarrow> string" where
  "tok_text (TRaw t) = t"
| "tok_text (TParam ds) = CHR ''$'' # ds"
| "tok_text (TOpenComment t) = t"

fun is_open :: "sqltok \<Rightarrow> bool" where
  "is_open (TOpenComment _) = True"
| "is_open _ = False"

subsection \<open>Scanners consume a prefix\<close>

lemma scan_quoted_text [scan_simps]: "fst (scan_quoted q s) @ snd (scan_quoted q s) = s"
  by (induction q s rule: scan_quoted.induct) (auto split: list.splits)

lemma scan_literal_text [scan_simps]: "fst (scan_literal e s) @ snd (scan_literal e s) = s"
  by (induction e s rule: scan_literal.induct) (auto split: list.splits)

lemma scan_line_text [scan_simps]: "fst (scan_line s) @ fst (snd (scan_line s)) = s"
  by (induction s) auto

lemma scan_line_nonempty [scan_simps]: "s \<noteq> [] \<Longrightarrow> fst (scan_line s) \<noteq> []"
  by (cases s) auto

lemma scan_line_open: "snd (snd (scan_line s)) \<Longrightarrow> fst (snd (scan_line s)) = []"
  by (induction s) (auto split: if_splits)

text \<open>Case analysis over the switch: one case per way a token is produced.\<close>

lemma next_tok_cases [case_names quoted literal line block dollar param byte]:
  assumes "c = DQ \<or> c = BT \<Longrightarrow> P (TRaw (c # fst (scan_quoted c cs))) (snd (scan_quoted c cs))"
    and "c = SQ \<Longrightarrow> P (TRaw (c # fst (scan_literal (literal_escapes pre) cs)))
           (snd (scan_literal (literal_escapes pre) cs))"
    and "c = CHR ''-'' \<Longrightarrow>
       P (if snd (snd (scan_line (c # cs))) then TOpenComment (fst (scan_line (c # cs)))
          else TRaw (fst (scan_line (c # cs)))) (fst (snd (scan_line (c # cs))))"
    and "\<And>d ds n. c = CHR ''/'' \<Longrightarrow> cs = d # ds \<Longrightarrow> P (TRaw (c # d # take n ds)) (drop n ds)"
    and "\<And>n. c = CHR ''$'' \<Longrightarrow> P (TRaw (c # take n cs)) (drop n cs)"
    and "c = CHR ''$'' \<Longrightarrow> P (TParam (takeWhile isASCIIDigit cs)) (dropWhile isASCIIDigit cs)"
    and "P (TRaw [c]) cs"
  shows "P (fst (next_tok pre c cs)) (snd (next_tok pre c cs))"
proof -
  note defs = next_tok_def copyStringLiteral_def Let_def
  consider "c = DQ \<or> c = BT" | "c = SQ"
    | "c = CHR ''-'' \<and> cs \<noteq> [] \<and> hd cs = CHR ''-''"
    | "c = CHR ''/'' \<and> cs \<noteq> [] \<and> hd cs = CHR ''*''"
    | "c = CHR ''$'' \<and> breaks_token pre"
    | "\<not> (c = DQ \<or> c = BT)" "c \<noteq> SQ" "\<not> (c = CHR ''-'' \<and> cs \<noteq> [] \<and> hd cs = CHR ''-'')"
      "\<not> (c = CHR ''/'' \<and> cs \<noteq> [] \<and> hd cs = CHR ''*'')" "\<not> (c = CHR ''$'' \<and> breaks_token pre)"
    by blast
  then show ?thesis
  proof cases
    case 1
    then show ?thesis using assms(1) by (simp add: defs)
  next
    case 2
    then show ?thesis using assms(2) by (simp add: defs)
  next
    case 3
    then show ?thesis using assms(3) by (simp add: defs case_prod_beta del: scan_line.simps split: if_splits)
  next
    case 4
    then obtain ds where "cs = CHR ''*'' # ds" by (cases cs) auto
    with 4 show ?thesis using assms(4) by (simp add: defs)
  next
    case 5
    then show ?thesis using assms(5,6,7) by (cases "dollarQuoteEnd cs") (simp_all add: defs)
  next
    case 6
    then have "next_tok pre c cs = (TRaw [c], cs)" unfolding next_tok_def by (simp only: if_False)
    then show ?thesis using assms(7) by simp
  qed
qed

lemma next_tok_text: "tok_text (fst (next_tok pre c cs)) @ snd (next_tok pre c cs) = c # cs"
  by (rule next_tok_cases [where P = "\<lambda>t r. tok_text t @ r = c # cs"])
    (simp_all add: scan_quoted_text scan_literal_text scan_line_text del: scan_line.simps)

lemma next_tok_nonempty: "tok_text (fst (next_tok pre c cs)) \<noteq> []"
  by (rule next_tok_cases [where P = "\<lambda>t r. tok_text t \<noteq> []"]) (simp_all add: scan_line_nonempty del: scan_line.simps)

lemma next_tok_open: "is_open (fst (next_tok pre c cs)) \<Longrightarrow> snd (next_tok pre c cs) = []"
  by (rule next_tok_cases [where P = "\<lambda>u r. is_open u \<longrightarrow> r = []", rule_format])
    (simp_all add: scan_line_open del: scan_line.simps split: if_splits)

lemma next_tok_length: "next_tok pre c cs = (t, r) \<Longrightarrow> length r \<le> length cs"
  using next_tok_text [of pre c cs] next_tok_nonempty [of pre c cs]
  by (cases "tok_text t") (auto dest!: arg_cong [of _ _ length])

function renumber_loop :: "string \<Rightarrow> string \<Rightarrow> nat \<Rightarrow> string \<times> bool" where
  "renumber_loop pre [] next = ([], False)"
| "renumber_loop pre (c # cs) next =
     (case next_tok pre c cs of
        (TRaw t, r) \<Rightarrow> map_prod ((@) t) id (renumber_loop (rev t @ pre) r next)
      | (TParam ds, r) \<Rightarrow>
          map_prod ((@) (CHR ''$'' # show_nat next)) id
            (renumber_loop (rev (CHR ''$'' # ds) @ pre) r (Suc next))
      | (TOpenComment t, r) \<Rightarrow> (t, True))"
  by pat_completeness auto
termination
  by (relation "measure (\<lambda>(pre, s, next). length s)") (auto dest: next_tok_length [OF sym])

definition renumberCondition :: "string \<Rightarrow> nat \<Rightarrow> string \<times> bool" where
  "renumberCondition condition startIdx = renumber_loop [] condition startIdx"

definition renumberPlaceholders :: "string \<Rightarrow> nat \<Rightarrow> string" where
  "renumberPlaceholders condition startIdx = fst (renumberCondition condition startIdx)"

section \<open>The lexer reading of the loop\<close>

text \<open>
  The loop in two passes, for the lemmas about composed statements: the tokens the loop's switch
  produces, and the sequence with its placeholders replaced by a run of binds. This is a view of the
  code, not a specification of it: what a condition means is given by the grammar at the end of the
  theory. A \<open>piece\<close> of an emitted statement is fixed text or the placeholder of one bind.
\<close>

datatype piece = Text string | Bind nat

fun piece_text :: "piece \<Rightarrow> string" where
  "piece_text (Text t) = t"
| "piece_text (Bind n) = CHR ''$'' # show_nat n"

definition pieces_text :: "piece list \<Rightarrow> string" where
  "pieces_text ps = concat (map piece_text ps)"

definition binds :: "piece list \<Rightarrow> nat list" where
  "binds ps = concat (map (\<lambda>p. case p of Text _ \<Rightarrow> [] | Bind n \<Rightarrow> [n]) ps)"

function sql_lex :: "string \<Rightarrow> string \<Rightarrow> sqltok list" where
  "sql_lex pre [] = []"
| "sql_lex pre (c # cs) =
     (case next_tok pre c cs of (t, r) \<Rightarrow> t # sql_lex (rev (tok_text t) @ pre) r)"
  by pat_completeness auto
termination
  by (relation "measure (\<lambda>(pre, s). length s)") (auto dest: next_tok_length [OF sym])

fun number_toks :: "nat \<Rightarrow> sqltok list \<Rightarrow> piece list" where
  "number_toks n [] = []"
| "number_toks n (TParam ds # ts) = Bind n # number_toks (Suc n) ts"
| "number_toks n (t # ts) = Text (tok_text t) # number_toks n ts"

fun is_param :: "sqltok \<Rightarrow> bool" where
  "is_param (TParam _) = True"
| "is_param _ = False"

definition placeholders :: "string \<Rightarrow> nat" where
  "placeholders s = length (filter is_param (sql_lex [] s))"

definition condition_pieces :: "string \<Rightarrow> nat \<Rightarrow> piece list" where
  "condition_pieces s n = number_toks n (sql_lex [] s)"

lemma pieces_text_simps [simp]:
  "pieces_text [] = []"
  "pieces_text (p # ps) = piece_text p @ pieces_text ps"
  "pieces_text (ps @ qs) = pieces_text ps @ pieces_text qs"
  by (simp_all add: pieces_text_def)

lemma binds_simps [simp]:
  "binds [] = []"
  "binds (Text t # ps) = binds ps"
  "binds (Bind n # ps) = n # binds ps"
  "binds (ps @ qs) = binds ps @ binds qs"
  by (simp_all add: binds_def)

lemma concat_sql_lex: "concat (map tok_text (sql_lex pre s)) = s"
proof (induction pre s rule: sql_lex.induct)
  case (2 pre c cs)
  then show ?case using next_tok_text [of pre c cs] by (cases "next_tok pre c cs") simp
qed simp

lemma renumber_loop_lex:
  "renumber_loop pre s n =
     (pieces_text (number_toks n (sql_lex pre s)), \<exists>t\<in>set (sql_lex pre s). is_open t)"
proof (induction pre s n rule: renumber_loop.induct)
  case (2 pre c cs n)
  obtain t r where tr: "next_tok pre c cs = (t, r)" by (cases "next_tok pre c cs")
  show ?case
  proof (cases t)
    case (TOpenComment x)
    with tr next_tok_open [of pre c cs] show ?thesis by simp
  qed (use tr 2 in simp_all)
qed simp

lemma binds_number_toks: "binds (number_toks n ts) = [n..<n + length (filter is_param ts)]"
proof (induction n ts rule: number_toks.induct)
  case (2 n ds ts)
  then show ?case by (simp add: upt_conv_Cons del: upt_Suc)
qed simp_all

text \<open>The loop as tokens, for any input: the tokens concatenate to the condition, the output is the
  tokens with their placeholders numbered in a run, the flag an open comment among them.\<close>

lemma renumberCondition_lex:
  "concat (map tok_text (sql_lex [] s)) = s
   \<and> fst (renumberCondition s n) = pieces_text (condition_pieces s n)
   \<and> binds (condition_pieces s n) = [n..<n + placeholders s]
   \<and> (snd (renumberCondition s n) \<longleftrightarrow> list_ex is_open (sql_lex [] s))"
  by (simp add: concat_sql_lex renumberCondition_def renumber_loop_lex condition_pieces_def
      binds_number_toks placeholders_def list_ex_iff)

section \<open>Quoted text is data\<close>

fun starts_with :: "char \<Rightarrow> string \<Rightarrow> bool" where
  "starts_with q [] = False"
| "starts_with q (c # cs) = (c = q)"

lemma double_Cons:
  "replace_all (c # cs) [q] [q, q] = (if c = q then [q, q] else [c]) @ replace_all cs [q] [q, q]"
  by (simp add: replace_one)

lemma scan_quoted_double:
  "\<not> starts_with q rest \<Longrightarrow>
     scan_quoted q (replace_all s [q] [q, q] @ q # rest) = (replace_all s [q] [q, q] @ [q], rest)"
proof (induction s)
  case Nil
  then show ?case by (cases rest) auto
next
  case (Cons c cs)
  then show ?case by (cases "c = q") (simp_all add: double_Cons)
qed

lemma scan_literal_double:
  "\<not> starts_with SQ rest \<Longrightarrow>
     scan_literal False (replace_all s [SQ] [SQ, SQ] @ SQ # rest) = (replace_all s [SQ] [SQ, SQ] @ [SQ], rest)"
proof (induction s)
  case Nil
  then show ?case by (cases rest) auto
next
  case (Cons c cs)
  then show ?case by (cases "c = SQ") (simp_all add: double_Cons)
qed

lemma undouble: "replace_all (replace_all s [q] [q, q]) [q, q] [q] = s"
proof (induction s)
  case (Cons c cs)
  show ?case
  proof (cases "c = q")
    case False
    with Cons show ?thesis by (cases "replace_all cs [q] [q, q]") (auto simp: double_Cons replace_two_Cons)
  qed (use Cons in \<open>simp add: double_Cons replace_two_Cons\<close>)
qed simp

definition sql_string :: "string \<Rightarrow> string" where
  "sql_string s = [SQ] @ replace_all s [SQ] [SQ, SQ] @ [SQ]"

text \<open>Quoted text is data to the renumberer, whatever bytes it holds: a name quoted by
  \<^verbatim>\<open>QuoteIdent\<close> and a string literal with its quotes doubled are each read as one token, so no
  placeholder-looking text inside is renumbered and reading resumes right after the closing quote;
  and undoubling the quotes gives the name back.\<close>

lemma quoted_text_is_data:
  assumes "\<not> starts_with DQ rest" "\<not> starts_with SQ rest" "\<not> literal_escapes pre"
  shows "sql_lex pre (QuoteIdent s @ rest) = TRaw (QuoteIdent s) # sql_lex (rev (QuoteIdent s) @ pre) rest
    \<and> sql_lex pre (sql_string s @ rest) = TRaw (sql_string s) # sql_lex (rev (sql_string s) @ pre) rest
    \<and> replace_all (butlast (tl (QuoteIdent s))) [DQ, DQ] [DQ] = s"
proof (intro conjI)
  have "next_tok pre DQ (replace_all s [DQ] [DQ, DQ] @ DQ # rest) = (TRaw (QuoteIdent s), rest)"
    using scan_quoted_double [OF assms(1), of s] by (simp add: next_tok_def QuoteIdent_def)
  then show "sql_lex pre (QuoteIdent s @ rest) = TRaw (QuoteIdent s) # sql_lex (rev (QuoteIdent s) @ pre) rest"
    by (simp add: QuoteIdent_def)
  have "next_tok pre SQ (replace_all s [SQ] [SQ, SQ] @ SQ # rest) = (TRaw (sql_string s), rest)"
    using scan_literal_double [OF assms(2), of s] assms(3)
    by (simp add: next_tok_def copyStringLiteral_def sql_string_def)
  then show "sql_lex pre (sql_string s @ rest) = TRaw (sql_string s) # sql_lex (rev (sql_string s) @ pre) rest"
    by (simp add: sql_string_def)
  show "replace_all (butlast (tl (QuoteIdent s))) [DQ, DQ] [DQ] = s"
    by (simp add: QuoteIdent_def undouble)
qed

lemma quoted_text_is_data_witness:
  "sql_lex [] (QuoteIdent ''a$1'' @ '' = $1'')
     = TRaw (QuoteIdent ''a$1'') # sql_lex (rev (QuoteIdent ''a$1'')) '' = $1''"
proof -
  have "\<not> starts_with DQ '' = $1''" "\<not> starts_with SQ '' = $1''" "\<not> literal_escapes []"
    by (simp_all add: literal_escapes_def)
  from quoted_text_is_data [OF this, of "''a$1''"] show ?thesis by simp
qed

section \<open>Conditions as SQL writes them\<close>

text \<open>
  A grammar of condition texts, written from the SQL syntax and not from the scanner: a condition is
  a row of items, and \<open>items_ok\<close> says that the row is unambiguous where SQL's tokens depend on
  the bytes around them. A placeholder or a dollar-quoted body starts where no word runs on (a byte of
  \<open>word_letters\<close>, a dollar sign or a byte above ASCII continues a word), a quote does not touch
  a second one, a comment mark is not hidden in two plain bytes, an open line comment is the last item.
\<close>

definition word_letters :: string where
  "word_letters = ''ABCDEFGHIJKLMNOPQRSTUVWXYZabcdefghijklmnopqrstuvwxyz0123456789_''"

definition digit_letters :: string where
  "digit_letters = ''0123456789''"

definition word_byte :: "char \<Rightarrow> bool" where
  "word_byte c \<longleftrightarrow> c \<in> set word_letters \<or> c = CHR ''$'' \<or> 128 \<le> byte_of c"

text \<open>The text before an item is given newest byte first.\<close>

fun word_start :: "string \<Rightarrow> bool" where
  "word_start [] = True"
| "word_start (p # pre) = (\<not> word_byte p)"

fun after_E :: "string \<Rightarrow> bool" where
  "after_E [] = False"
| "after_E (e # pre) = ((e = CHR ''E'' \<or> e = CHR ''e'') \<and> word_start pre)"

text \<open>The bytes of an escape string: a byte, a backslash with the byte it escapes, a doubled quote.\<close>

datatype eunit = EByte char | EEscape char | EQuote

fun eunit_text :: "eunit \<Rightarrow> string" where
  "eunit_text (EByte c) = [c]"
| "eunit_text (EEscape c) = [BSL, c]"
| "eunit_text EQuote = [SQ, SQ]"

fun eunit_ok :: "eunit \<Rightarrow> bool" where
  "eunit_ok (EByte c) = (c \<noteq> BSL \<and> c \<noteq> SQ)"
| "eunit_ok _ = True"

text \<open>The body of a block comment: bytes and nested comments; no two bytes read as a comment mark.\<close>

datatype cpart = CByte char | CNest "cpart list"

fun begins :: "string \<Rightarrow> string \<Rightarrow> bool" where
  "begins [] s = True"
| "begins (p # ps) [] = False"
| "begins (p # ps) (c # cs) = (c = p \<and> begins ps cs)"

fun cparts_text :: "cpart list \<Rightarrow> string" where
  "cparts_text [] = []"
| "cparts_text (CByte c # ps) = c # cparts_text ps"
| "cparts_text (CNest qs # ps) = ''/*'' @ cparts_text qs @ ''*/'' @ cparts_text ps"

fun cparts_ok :: "cpart list \<Rightarrow> bool" where
  "cparts_ok [] = True"
| "cparts_ok (CByte c # ps) =
     (\<not> begins ''/*'' (c # cparts_text ps @ ''*/'') \<and> \<not> begins ''*/'' (c # cparts_text ps @ ''*/'')
      \<and> cparts_ok ps)"
| "cparts_ok (CNest qs # ps) = (cparts_ok qs \<and> cparts_ok ps)"

fun occurs :: "string \<Rightarrow> string \<Rightarrow> bool" where
  "occurs p [] = begins p []"
| "occurs p (c # cs) = (begins p (c # cs) \<or> occurs p cs)"

datatype cond_item =
    IByte char \<comment> \<open>a byte outside quotes, comments and placeholders\<close>
  | IName char string \<comment> \<open>a quoted name: its quote and the name\<close>
  | IString string \<comment> \<open>a string literal: its value\<close>
  | IEString char "eunit list" \<comment> \<open>an escape string: its E and its units\<close>
  | IDollar string string \<comment> \<open>a dollar-quoted literal: its tag and its body\<close>
  | ILine string \<comment> \<open>a line comment that ends in a newline\<close>
  | IBlock "cpart list" \<comment> \<open>a block comment\<close>
  | IParam string \<comment> \<open>a placeholder: its digits\<close>
  | IOpen string \<comment> \<open>a line comment that runs to the end of the condition\<close>

definition doubled :: "char \<Rightarrow> string \<Rightarrow> string" where
  "doubled q s = concat (map (\<lambda>c. if c = q then [q, q] else [c]) s)"

fun item_text :: "cond_item \<Rightarrow> string" where
  "item_text (IByte c) = [c]"
| "item_text (IName q s) = [q] @ doubled q s @ [q]"
| "item_text (IString s) = [SQ] @ doubled SQ s @ [SQ]"
| "item_text (IEString e us) = [e, SQ] @ concat (map eunit_text us) @ [SQ]"
| "item_text (IDollar tag body) = ''$'' @ tag @ ''$'' @ body @ ''$'' @ tag @ ''$''"
| "item_text (ILine s) = ''--'' @ s @ [NL]"
| "item_text (IBlock ps) = ''/*'' @ cparts_text ps @ ''*/''"
| "item_text (IParam ds) = ''$'' @ ds"
| "item_text (IOpen s) = ''--'' @ s"

fun item_ok :: "string \<Rightarrow> cond_item \<Rightarrow> string \<Rightarrow> bool" where
  "item_ok pre (IByte c) rest \<longleftrightarrow>
     c \<notin> {DQ, BT, SQ} \<and> \<not> begins ''--'' (c # rest) \<and> \<not> begins ''/*'' (c # rest)
     \<and> (c = CHR ''$'' \<longrightarrow> \<not> word_start pre)"
| "item_ok pre (IName q s) rest \<longleftrightarrow> (q = DQ \<or> q = BT) \<and> \<not> begins [q] rest"
| "item_ok pre (IString s) rest \<longleftrightarrow> \<not> after_E pre \<and> \<not> begins [SQ] rest"
| "item_ok pre (IEString e us) rest \<longleftrightarrow>
     (e = CHR ''E'' \<or> e = CHR ''e'') \<and> word_start pre \<and> list_all eunit_ok us \<and> \<not> begins [SQ] rest"
| "item_ok pre (IDollar tag body) rest \<longleftrightarrow>
     word_start pre \<and> set tag \<subseteq> set word_letters \<and> (tag \<noteq> [] \<longrightarrow> hd tag \<notin> set digit_letters)
     \<and> \<not> occurs (''$'' @ tag @ ''$'') (body @ ''$'' @ tag)"
| "item_ok pre (ILine s) rest \<longleftrightarrow> NL \<notin> set s"
| "item_ok pre (IBlock ps) rest \<longleftrightarrow> cparts_ok ps"
| "item_ok pre (IParam ds) rest \<longleftrightarrow>
     word_start pre \<and> ds \<noteq> [] \<and> set ds \<subseteq> set digit_letters \<and> (rest \<noteq> [] \<longrightarrow> hd rest \<notin> set digit_letters)"
| "item_ok pre (IOpen s) rest \<longleftrightarrow> NL \<notin> set s \<and> rest = []"

definition items_text :: "cond_item list \<Rightarrow> string" where
  "items_text is = concat (map item_text is)"

fun items_ok :: "string \<Rightarrow> cond_item list \<Rightarrow> bool" where
  "items_ok pre [] = True"
| "items_ok pre (i # is) = (item_ok pre i (items_text is) \<and> items_ok (rev (item_text i) @ pre) is)"

text \<open>What renumbering has to do: the placeholders become \<open>n\<close>, \<open>n + 1\<close>, \<dots> in order, every other
  item stays.\<close>

fun renumber_items :: "nat \<Rightarrow> cond_item list \<Rightarrow> cond_item list" where
  "renumber_items n [] = []"
| "renumber_items n (IParam ds # is) = IParam (show_nat n) # renumber_items (Suc n) is"
| "renumber_items n (i # is) = i # renumber_items n is"

fun open_item :: "cond_item \<Rightarrow> bool" where
  "open_item (IOpen s) = True"
| "open_item _ = False"

definition ends_open :: "cond_item list \<Rightarrow> bool" where
  "ends_open is \<longleftrightarrow> is \<noteq> [] \<and> open_item (last is)"

subsection \<open>The scanners on the items\<close>

lemma mem_bytes: "map byte_of s = ns \<Longrightarrow> c \<in> set s \<longleftrightarrow> byte_of c \<in> set ns"
  by (auto simp: image_iff)

lemma word_letters_iff: "c \<in> set word_letters \<longleftrightarrow> isIdentByte c"
proof -
  have "map byte_of word_letters = [65..<91] @ [97..<123] @ [48..<58] @ [95]" by code_simp
  note m = mem_bytes [OF this, of c]
  have "c = CHR ''_'' \<longleftrightarrow> byte_of c = 95" by (simp add: char_eq_byte del: of_char_eq_iff)
  then show ?thesis
    unfolding m set_append set_upt isIdentByte_def isASCIIDigit_def byte_class_defs by auto
qed

lemma digit_letters_iff: "c \<in> set digit_letters \<longleftrightarrow> isASCIIDigit c"
proof -
  have "map byte_of digit_letters = [48..<58]" by code_simp
  note m = mem_bytes [OF this, of c]
  show ?thesis unfolding m set_upt isASCIIDigit_def byte_class_defs by auto
qed

lemma word_start_breaks: "word_start pre \<longleftrightarrow> breaks_token pre"
  by (cases pre) (auto simp: breaks_token_def word_byte_def word_letters_iff)

lemma after_E_escapes: "after_E pre \<longleftrightarrow> literal_escapes pre"
  by (cases pre) (auto simp: literal_escapes_def word_start_breaks)

lemma begins_single: "begins [q] s \<longleftrightarrow> starts_with q s"
  by (cases s) auto

lemma begins_hd: "begins [q] s \<longleftrightarrow> s \<noteq> [] \<and> hd s = q"
  by (cases s) auto


lemma doubled_replace: "doubled q s = replace_all s [q] [q, q]"
  by (induction s) (simp_all add: doubled_def double_Cons)

lemma scan_literal_units:
  "list_all eunit_ok us \<Longrightarrow> \<not> starts_with SQ rest \<Longrightarrow>
     scan_literal True (concat (map eunit_text us) @ SQ # rest) = (concat (map eunit_text us) @ [SQ], rest)"
proof (induction us)
  case Nil
  then show ?case by (cases rest) auto
next
  case (Cons u us)
  then show ?case by (cases u) auto
qed

lemma scan_line_text_NL: "NL \<notin> set s \<Longrightarrow> scan_line (s @ NL # rest) = (s @ [NL], rest, False)"
  by (induction s) auto

lemma scan_line_text_end: "NL \<notin> set s \<Longrightarrow> scan_line s = (s, [], True)"
  by (induction s) auto

lemma scan_block_parts:
  "cparts_ok ps \<Longrightarrow>
     scan_block (Suc d) (cparts_text ps @ CHR ''*'' # CHR ''/'' # rest) =
       map_prod (\<lambda>n. n + length (cparts_text ps) + 2) id (scan_block d rest)"
proof (induction ps arbitrary: d rest rule: cparts_text.induct)
  case (2 c ps)
  define t where "t = cparts_text ps @ CHR ''*'' # CHR ''/'' # rest"
  have t: "t \<noteq> []" "hd t = hd (cparts_text ps @ ''*/'')"
    by (cases "cparts_text ps"; simp add: t_def)+
  have "\<not> (c = CHR ''/'' \<and> hd t = CHR ''*'')" "\<not> (c = CHR ''*'' \<and> hd t = CHR ''/'')"
    using "2.prems" by (auto simp: t(2) begins_hd)
  with t(1) have "scan_block (Suc d) (c # t) = map_prod Suc id (scan_block (Suc d) t)" by auto
  with 2 show ?case by (simp add: t_def prod.map_comp o_def)
qed (simp_all add: prod.map_comp o_def id_def add_ac)

lemma begins_has_prefix: "begins p s \<longleftrightarrow> has_prefix s p"
  by (induction p s rule: begins.induct) (auto simp: has_prefix_def)

lemma index_str_first:
  "\<not> occurs p (body @ butlast p) \<Longrightarrow> p \<noteq> [] \<Longrightarrow> index_str (body @ p @ rest) p = Some (length body)"
proof (induction body)
  case Nil
  then show ?case by (cases p) (auto simp: has_prefix_def)
next
  case (Cons c body)
  have "\<not> has_prefix (c # body @ p @ rest) p"
  proof
    assume "has_prefix (c # body @ p @ rest) p"
    then have "take (length p) (c # body @ p @ rest) = p" by (simp add: has_prefix_def)
    then have "take (length p) (c # body @ butlast p) = p"
      using \<open>p \<noteq> []\<close> by (cases "length p \<le> length (c # body)") (simp_all add: butlast_conv_take take_Cons')
    then have "begins p (c # body @ butlast p)" by (simp add: begins_has_prefix has_prefix_def)
    with Cons.prems show False by simp
  qed
  with Cons show ?case by simp
qed

lemma dollarQuoteEnd_item:
  assumes "list_all isIdentByte tag" "tag \<noteq> [] \<longrightarrow> \<not> isASCIIDigit (hd tag)"
    and "\<not> occurs (''$'' @ tag @ ''$'') (body @ ''$'' @ tag)"
  shows "dollarQuoteEnd (tag @ CHR ''$'' # body @ CHR ''$'' # tag @ CHR ''$'' # rest)
    = Some (length tag + 1 + length body + length tag + 2)"
proof -
  have d: "\<not> isIdentByte (CHR ''$'')" "\<not> isASCIIDigit (CHR ''$'')"
    by (simp_all add: isIdentByte_def isASCIIDigit_def byte_class_defs)
  let ?rest = "body @ (''$'' @ tag @ ''$'') @ rest"
  have "index_str ?rest (''$'' @ tag @ ''$'') = Some (length body)"
    by (rule index_str_first) (use assms(3) in \<open>simp_all add: butlast_append\<close>)
  moreover have "takeWhile isIdentByte (tag @ CHR ''$'' # ?rest) = tag"
    "dropWhile isIdentByte (tag @ CHR ''$'' # ?rest) = CHR ''$'' # ?rest"
    using assms(1) d by (simp_all add: list_all_iff takeWhile_append dropWhile_append)
  moreover have "\<not> isASCIIDigit (hd (tag @ CHR ''$'' # ?rest))" using assms(2) d by (cases tag) auto
  ultimately show ?thesis by (simp add: dollarQuoteEnd_def Let_def)
qed

subsection \<open>The loop on the items\<close>

fun item_tok :: "cond_item \<Rightarrow> sqltok" where
  "item_tok (IParam ds) = TParam ds"
| "item_tok (IOpen s) = TOpenComment (''--'' @ s)"
| "item_tok i = TRaw (item_text i)"

fun escape_item :: "cond_item \<Rightarrow> bool" where
  "escape_item (IEString e us) = True"
| "escape_item _ = False"

lemma item_text_nonempty [simp]: "item_text i \<noteq> []"
  by (cases i) simp_all

lemma items_text_simps [simp]:
  "items_text [] = []" "items_text (i # is) = item_text i @ items_text is"
  by (simp_all add: items_text_def)

lemma items_text_Nil [simp]: "items_text is = [] \<longleftrightarrow> is = []"
  by (cases "is") simp_all

lemma next_tok_byte:
  "item_ok pre (IByte c) rest \<Longrightarrow> next_tok pre c rest = (TRaw [c], rest)"
  by (auto simp: next_tok_def begins_hd word_start_breaks)

lemma next_tok_dollar_end:
  "breaks_token pre \<Longrightarrow> dollarQuoteEnd (q @ rest) = Some (length q) \<Longrightarrow>
     next_tok pre CHR ''$'' (q @ rest) = (TRaw (CHR ''$'' # q), rest)"
  by (simp add: next_tok_def)

lemma next_tok_dollar:
  assumes "item_ok pre (IDollar tag body) rest"
  shows "next_tok pre CHR ''$'' (tag @ CHR ''$'' # body @ CHR ''$'' # tag @ CHR ''$'' # rest)
    = (TRaw (item_text (IDollar tag body)), rest)"
proof -
  have "list_all isIdentByte tag"
    using assms by (auto simp: list_all_iff word_letters_iff [symmetric])
  let ?q = "tag @ CHR ''$'' # body @ CHR ''$'' # tag @ ''$''"
  have e: "tag @ CHR ''$'' # body @ CHR ''$'' # tag @ CHR ''$'' # rest = ?q @ rest" by simp
  from \<open>list_all isIdentByte tag\<close> assms have "dollarQuoteEnd (?q @ rest) = Some (length ?q)"
    using dollarQuoteEnd_item [of tag body rest] by (simp add: digit_letters_iff)
  with assms next_tok_dollar_end [of pre ?q rest] show ?thesis
    unfolding e by (simp add: word_start_breaks)
qed

lemma next_tok_block:
  assumes "cparts_ok ps"
  shows "next_tok pre CHR ''/'' (CHR ''*'' # cparts_text ps @ CHR ''*'' # CHR ''/'' # rest)
    = (TRaw (item_text (IBlock ps)), rest)"
  using scan_block_parts [OF assms, of 0 rest] by (simp add: next_tok_def block_end_def)

lemma next_tok_param:
  assumes "item_ok pre (IParam ds) rest"
  shows "next_tok pre CHR ''$'' (ds @ rest) = (TParam ds, rest)"
proof -
  have d: "\<forall>c\<in>set ds. isASCIIDigit c" "ds \<noteq> []" "rest \<noteq> [] \<longrightarrow> \<not> isASCIIDigit (hd rest)"
    using assms by (auto simp: digit_letters_iff [symmetric])
  then have "isASCIIDigit (hd (ds @ rest))" by (cases ds) auto
  moreover have "takeWhile isASCIIDigit (ds @ rest) = ds" "dropWhile isASCIIDigit (ds @ rest) = rest"
    using d by (cases rest; simp add: takeWhile_append dropWhile_append)+
  ultimately show ?thesis
    using assms by (simp add: next_tok_def dollarQuoteEnd_def word_start_breaks)
qed

lemma next_tok_item:
  assumes "item_ok pre i rest" "\<not> escape_item i"
  shows "next_tok pre (hd (item_text i)) (tl (item_text i) @ rest) = (item_tok i, rest)"
proof (cases i)
  case (IByte c)
  with assms next_tok_byte [of pre c rest] show ?thesis by simp
next
  case (IName q s)
  with assms have "\<not> starts_with q rest" "q = DQ \<or> q = BT" by (auto simp: begins_single)
  with IName scan_quoted_double [of q rest s] show ?thesis
    by (simp add: next_tok_def doubled_replace)
next
  case (IString s)
  with assms have "\<not> starts_with SQ rest" "\<not> literal_escapes pre"
    by (auto simp: begins_single after_E_escapes)
  with IString scan_literal_double [of rest s] show ?thesis
    by (simp add: next_tok_def copyStringLiteral_def doubled_replace)
next
  case (IDollar tag body)
  with assms next_tok_dollar [of pre tag body rest] show ?thesis by simp
next
  case (ILine s)
  with assms scan_line_text_NL [of "''--'' @ s" rest] show ?thesis
    by (simp add: next_tok_def del: scan_line.simps)
next
  case (IBlock ps)
  with assms next_tok_block [of ps pre rest] show ?thesis by simp
next
  case (IParam ds)
  with assms next_tok_param [of pre ds rest] show ?thesis by simp
next
  case (IOpen s)
  with assms scan_line_text_end [of "''--'' @ s"] show ?thesis
    by (simp add: next_tok_def del: scan_line.simps)
qed (use assms in simp_all)

lemma renumber_loop_raw:
  "item_ok pre i rest \<Longrightarrow> \<not> escape_item i \<Longrightarrow> item_tok i = TRaw (item_text i) \<Longrightarrow>
     renumber_loop pre (item_text i @ rest) n =
       map_prod ((@) (item_text i)) id (renumber_loop (rev (item_text i) @ pre) rest n)"
  using next_tok_item [of pre i rest] by (cases "item_text i") simp_all

lemma renumber_loop_escape:
  assumes "item_ok pre (IEString e us) rest"
  shows "renumber_loop pre (item_text (IEString e us) @ rest) n =
    map_prod ((@) (item_text (IEString e us))) id
      (renumber_loop (rev (item_text (IEString e us)) @ pre) rest n)"
proof -
  have e: "(e = CHR ''E'' \<or> e = CHR ''e'')" "word_start pre" "\<not> starts_with SQ rest" "list_all eunit_ok us"
    using assms by (auto simp: begins_single)
  let ?lit = "SQ # concat (map eunit_text us) @ [SQ]"
  have "next_tok (e # pre) SQ (concat (map eunit_text us) @ SQ # rest) = (TRaw ?lit, rest)"
    using scan_literal_units [OF e(4,3)] e(1,2)
    by (auto simp: next_tok_def copyStringLiteral_def after_E_escapes [symmetric])
  moreover have "next_tok pre e (?lit @ rest) = (TRaw [e], ?lit @ rest)"
    by (rule next_tok_byte) (use e(1) in auto)
  ultimately show ?thesis by (simp add: prod.map_comp o_def map_prod_def split_beta)
qed

lemma ends_open_Cons: "ends_open (i # is) = (if is = [] then open_item i else ends_open is)"
  by (simp add: ends_open_def)

lemma items_ok_open: "items_ok pre (i # is) \<Longrightarrow> open_item i \<Longrightarrow> is = []"
  by (cases i) simp_all

lemma renumber_loop_other:
  assumes "item_ok pre i rest" "\<not> open_item i" "\<forall>ds. i \<noteq> IParam ds"
  shows "renumber_loop pre (item_text i @ rest) n =
    map_prod ((@) (item_text i)) id (renumber_loop (rev (item_text i) @ pre) rest n)"
proof (cases "escape_item i")
  case True
  then show ?thesis using assms(1) renumber_loop_escape by (cases i) (simp_all del: item_text.simps)
next
  case False
  moreover have "item_tok i = TRaw (item_text i)" using assms by (cases i) simp_all
  ultimately show ?thesis using assms(1) renumber_loop_raw by blast
qed

lemma renumber_items_other: "\<forall>ds. i \<noteq> IParam ds \<Longrightarrow> renumber_items n (i # is) = i # renumber_items n is"
  by (cases i) simp_all

lemma renumber_loop_items:
  "items_ok pre is \<Longrightarrow> renumber_loop pre (items_text is) n = (items_text (renumber_items n is), ends_open is)"
proof (induction "is" arbitrary: pre n)
  case (Cons i "is")
  consider (param) ds where "i = IParam ds" | (opened) s where "i = IOpen s" | (other) "\<forall>ds. i \<noteq> IParam ds" "\<not> open_item i"
    by (cases i) auto
  then show ?case
  proof cases
    case param
    with Cons next_tok_item [of pre i "items_text is"] show ?thesis
      by (simp add: ends_open_Cons) (simp add: ends_open_def)
  next
    case opened
    with Cons.prems next_tok_item [of pre i "items_text is"] show ?thesis
      by (simp add: ends_open_Cons)
  next
    case other
    with Cons show ?thesis
      by (simp add: renumber_loop_other renumber_items_other ends_open_Cons) (simp add: ends_open_def)
  qed
qed (simp add: ends_open_def)

text \<open>C2. Renumbering rewrites placeholders and nothing else. A condition written as a row of plain
  bytes, quoted names, string literals, escape strings, dollar-quoted bodies, line comments, nested
  block comments and placeholders comes back as the same row, with the placeholders \<^verbatim>\<open>$n\<close>,
  \<^verbatim>\<open>$n+1\<close>, \<dots> in the order they are met, whatever digits they had: text that looks like a
  placeholder inside a literal, a name, a comment or a word stays as it is. The flag is set exactly when
  the row ends in a line comment with no newline. (Block comments whose marks do not balance, and
  literals that are never closed, are outside the grammar.)\<close>

theorem renumberCondition_spec:
  assumes "items_ok [] is"
  shows "renumberCondition (items_text is) n = (items_text (renumber_items n is), ends_open is)"
  using assms by (simp add: renumberCondition_def renumber_loop_items)

definition example_items :: "cond_item list" where
  "example_items =
     [IName DQ ''a$1'', IByte CHR ''='', IParam ''7'', IByte SP, IString [SQ, CHR ''$'', CHR ''2''], IByte SP,
      IEString CHR ''E'' [EEscape SQ, EByte CHR ''$'', EByte CHR ''3'', EQuote], ILine ''$4'',
      IBlock [CByte CHR ''$'', CNest [CByte CHR ''5''], CByte CHR ''*''], IDollar ''t'' ''$6$$'', IByte SP,
      IByte CHR ''x'', IByte CHR ''$'', IByte CHR ''8'', IByte SP, IParam ''1'', IOpen '' $9'']"

theorem renumberCondition_spec_witness:
  "renumberCondition (items_text example_items) 3 = (items_text (renumber_items 3 example_items), True)"
proof -
  have "items_ok [] example_items" "ends_open example_items" by code_simp+
  with renumberCondition_spec [of example_items 3] show ?thesis by simp
qed


end
