(* ===== verification/GoInt.thy ===== *)
theory GoInt
  imports Main "HOL-Library.Signed_Division"
begin

text \<open>
  Go's 64-bit integers, durations and times, shared by the components below.

  An \<^verbatim>\<open>int\<close> or \<^verbatim>\<open>int64\<close> value is an \<^typ>\<open>int\<close>; where a sum or product of the source can leave the 64-bit
  range it is wrapped by \<open>wrap64\<close>, written at that operation. A \<^verbatim>\<open>time.Duration\<close> is such an integer of
  nanoseconds. A \<^verbatim>\<open>time.Time\<close> is nanoseconds since Go's zero time, with no bound (Go's times span far
  more than 64 bits of nanoseconds); \<^verbatim>\<open>Time.Sub\<close> saturates at the limits of a duration.
\<close>

type_synonym gotime = int

definition maxInt64 :: int where
  "maxInt64 = 2 ^ 63 - 1"

definition minInt64 :: int where
  "minInt64 = - (2 ^ 63)"

definition wrap64 :: "int \<Rightarrow> int" where
  "wrap64 x = (x + 2 ^ 63) mod 2 ^ 64 - 2 ^ 63"

definition time_sub :: "gotime \<Rightarrow> gotime \<Rightarrow> int" where
  "time_sub t u = max minInt64 (min maxInt64 (t - u))"

definition second :: int where
  "second = 10 ^ 9"

lemma wrap64_id: "minInt64 \<le> x \<Longrightarrow> x \<le> maxInt64 \<Longrightarrow> wrap64 x = x"
  by (simp add: wrap64_def minInt64_def maxInt64_def)

lemma wrap64_range: "minInt64 \<le> wrap64 x \<and> wrap64 x \<le> maxInt64"
  using pos_mod_bound [of "2 ^ 64" "x + 2 ^ 63"] pos_mod_sign [of "2 ^ 64" "x + 2 ^ 63"]
  by (simp add: wrap64_def minInt64_def maxInt64_def)

lemma wrap64_nonneg: "0 \<le> x \<Longrightarrow> x \<le> maxInt64 \<Longrightarrow> wrap64 x = x"
  by (rule wrap64_id) (simp_all add: minInt64_def)

text \<open>The difference of two instants is exact as long as they lie within 292 years (\<^verbatim>\<open>math.MaxInt64\<close>
  nanoseconds) of an instant \<open>org\<close> that is not after either.\<close>

lemma time_sub_exact: "org \<le> u \<Longrightarrow> u \<le> t \<Longrightarrow> t \<le> org + maxInt64 \<Longrightarrow> time_sub t u = t - u"
  by (simp add: time_sub_def minInt64_def maxInt64_def)

lemma sdiv_nonneg: "0 \<le> a \<Longrightarrow> 0 < b \<Longrightarrow> (a :: int) sdiv b = a div b"
  by (cases "a = 0") (simp_all add: signed_divide_int_def)

lemma smod_nonneg: "0 \<le> a \<Longrightarrow> 0 < b \<Longrightarrow> (a :: int) smod b = a mod b"
  by (cases "a = 0") (simp_all add: signed_modulo_int_def)

end
