(* ===== verification/QueryBuilder.thy ===== *)
theory QueryBuilder
  imports SqlRenumber GoInt
begin

text \<open>
  The statement builders of \<^verbatim>\<open>core/query\<close>: \<^verbatim>\<open>QueryBuilder\<close> (query.go), \<^verbatim>\<open>CountBuilder\<close>
  (count.go), \<^verbatim>\<open>DeleteBuilder\<close> (delete.go), \<^verbatim>\<open>InsertBuilder\<close> (insert.go) and
  \<^verbatim>\<open>UpdateBuilder\<close> (update.go), one record and one definition per method. A builder method
  mutates its receiver and returns it; here it returns the updated record. \<^verbatim>\<open>any\<close> arguments are
  \<open>'v goany\<close>: an opaque value, or one of the two integers \<^verbatim>\<open>Build\<close> adds itself.
\<close>

section \<open>Data\<close>

datatype 'v goany = AnyVal 'v | AnyInt int | AnyInt64 int

record joinClause =
  joinType :: string
  joinTable :: string
  joinOn :: string

record 'v whereClause =
  connector :: string
  condition :: string
  whereArgs :: "'v goany list"

record orderClause =
  orderColumn :: string
  orderDir :: string

record 'v QueryBuilder =
  qTable :: string
  qColumns :: "string list"
  qJoins :: "joinClause list"
  qWheres :: "'v whereClause list"
  qOrderBy :: "orderClause list"
  qLimit :: "int option"
  qOffset :: "int option"
  qArgs :: "'v goany list"

section \<open>QueryBuilder\<close>

definition Select :: "string list \<Rightarrow> 'v QueryBuilder" where
  "Select columns =
     \<lparr>qTable = [], qColumns = columns, qJoins = [], qWheres = [], qOrderBy = [],
      qLimit = None, qOffset = None, qArgs = []\<rparr>"

definition From :: "'v QueryBuilder \<Rightarrow> string \<Rightarrow> 'v QueryBuilder" where
  "From qb table = qb\<lparr>qTable := table\<rparr>"

definition Where :: "'v QueryBuilder \<Rightarrow> string \<Rightarrow> 'v goany list \<Rightarrow> 'v QueryBuilder" where
  "Where qb cond args =
     qb\<lparr>qWheres := qWheres qb @ [\<lparr>connector = ''AND'', condition = cond, whereArgs = args\<rparr>],
        qArgs := qArgs qb @ args\<rparr>"

definition OrWhere :: "'v QueryBuilder \<Rightarrow> string \<Rightarrow> 'v goany list \<Rightarrow> 'v QueryBuilder" where
  "OrWhere qb cond args =
     qb\<lparr>qWheres := qWheres qb @ [\<lparr>connector = ''OR'', condition = cond, whereArgs = args\<rparr>],
        qArgs := qArgs qb @ args\<rparr>"

definition Join :: "'v QueryBuilder \<Rightarrow> string \<Rightarrow> string \<Rightarrow> 'v QueryBuilder" where
  "Join qb table on =
     qb\<lparr>qJoins := qJoins qb @ [\<lparr>joinType = ''JOIN'', joinTable = table, joinOn = on\<rparr>]\<rparr>"

definition LeftJoin :: "'v QueryBuilder \<Rightarrow> string \<Rightarrow> string \<Rightarrow> 'v QueryBuilder" where
  "LeftJoin qb table on =
     qb\<lparr>qJoins := qJoins qb @ [\<lparr>joinType = ''LEFT JOIN'', joinTable = table, joinOn = on\<rparr>]\<rparr>"

definition Order :: "'v QueryBuilder \<Rightarrow> string \<Rightarrow> string \<Rightarrow> 'v QueryBuilder" where
  "Order qb column dir =
     qb\<lparr>qOrderBy := qOrderBy qb @ [\<lparr>orderColumn = column, orderDir = dir\<rparr>]\<rparr>"

definition Limit :: "'v QueryBuilder \<Rightarrow> int \<Rightarrow> 'v QueryBuilder" where
  "Limit qb n = qb\<lparr>qLimit := Some n\<rparr>"

definition Offset :: "'v QueryBuilder \<Rightarrow> int \<Rightarrow> 'v QueryBuilder" where
  "Offset qb n = qb\<lparr>qOffset := Some n\<rparr>"

definition Cursor :: "'v QueryBuilder \<Rightarrow> string \<Rightarrow> 'v goany \<Rightarrow> string \<Rightarrow> 'v QueryBuilder" where
  "Cursor qb field0 v dir =
     (let field = identSlot (sanitizeFragment field0);
          cmp = (if dir = ''backward'' then ''<'' else ''>'');
          ordDir = (if dir = ''backward'' then ''DESC'' else ''ASC'');
          cond = field @ '' '' @ cmp @ '' $1'';
          qb1 = qb\<lparr>qArgs := qArgs qb @ [v],
                   qWheres := qWheres qb @ [\<lparr>connector = ''AND'', condition = cond, whereArgs = [v]\<rparr>]\<rparr>
      in if list_ex (\<lambda>ob. identSlot (sanitizeFragment (orderColumn ob)) = field) (qOrderBy qb1)
         then qb1
         else qb1\<lparr>qOrderBy := qOrderBy qb1 @ [\<lparr>orderColumn = field, orderDir = ordDir\<rparr>]\<rparr>)"

subsection \<open>The WHERE chain\<close>

text \<open>The first loop of \<^verbatim>\<open>appendWhereClauses\<close>, over the clauses after the first: how many AND
  connectors end a run of ORs.\<close>

fun count_groups :: "bool \<Rightarrow> 'v whereClause list \<Rightarrow> nat" where
  "count_groups sawOr [] = 0"
| "count_groups sawOr (w # ws) =
     (if connector w = ''OR'' then count_groups True ws
      else if sawOr then Suc (count_groups False ws)
      else count_groups sawOr ws)"

text \<open>One parenthesised condition, with the newline that closes an open line comment.\<close>

definition where_condition :: "'v whereClause \<Rightarrow> nat \<Rightarrow> string" where
  "where_condition w paramIdx =
     (case renumberCondition (condition w) paramIdx of
        (cond, inLineComment) \<Rightarrow> ''('' @ cond @ (if inLineComment then [NL] else []) @ '')'')"

text \<open>The second loop, over the clauses after the first.\<close>

fun where_tail :: "bool \<Rightarrow> 'v whereClause list \<Rightarrow> nat \<Rightarrow> string" where
  "where_tail sawOr [] paramIdx = []"
| "where_tail sawOr (w # ws) paramIdx =
     (let closes = connector w \<noteq> ''OR'' \<and> sawOr;
          sawOr' = (if connector w = ''OR'' then True else if sawOr then False else sawOr)
      in (if closes then '')'' else []) @ '' '' @ connector w @ '' '' @ where_condition w paramIdx
         @ where_tail sawOr' ws (paramIdx + length (whereArgs w)))"

definition appendWhereClauses :: "'v whereClause list \<Rightarrow> nat \<Rightarrow> string" where
  "appendWhereClauses wheres paramIdx =
     (case wheres of
        [] \<Rightarrow> []
      | w # ws \<Rightarrow>
          replicate (count_groups False ws) CHR ''('' @ where_condition w paramIdx
          @ where_tail False ws (paramIdx + length (whereArgs w)))"

subsection \<open>Build\<close>

definition build_columns :: "string list \<Rightarrow> string" where
  "build_columns cols =
     (if cols = [] then ''*'' else join '', '' (map (\<lambda>c. identSlot (sanitizeColumn c)) cols))"

definition build_join :: "joinClause \<Rightarrow> string" where
  "build_join j =
     '' '' @ joinType j @ '' '' @ identSlot (sanitizeFragment (joinTable j))
     @ '' ON '' @ sanitizeFragment (joinOn j)"

definition build_order :: "orderClause \<Rightarrow> string" where
  "build_order ob =
     (let dir = sanitizeDirection (orderDir ob) in
      identSlot (sanitizeFragment (orderColumn ob)) @ (if dir \<noteq> [] then '' '' @ dir else []))"

definition build_where :: "'v whereClause list \<Rightarrow> nat \<Rightarrow> string" where
  "build_where wheres n = (if wheres = [] then [] else '' WHERE '' @ appendWhereClauses wheres n)"

definition Build :: "'v QueryBuilder \<Rightarrow> string \<times> 'v goany list" where
  "Build qb =
     (let args0 = qArgs qb;
          head = ''SELECT '' @ build_columns (qColumns qb)
            @ '' FROM '' @ identSlot (sanitizeFragment (qTable qb))
            @ concat (map build_join (qJoins qb))
            @ build_where (qWheres qb) 1
            @ (if qOrderBy qb = [] then [] else '' ORDER BY '' @ join '', '' (map build_order (qOrderBy qb)));
          (lim, args1) =
            (case qLimit qb of
               Some l \<Rightarrow> ('' LIMIT $'' @ show_nat (length args0 + 1), args0 @ [AnyInt l])
             | None \<Rightarrow>
                 (case qOffset qb of
                    Some _ \<Rightarrow> ('' LIMIT $'' @ show_nat (length args0 + 1), args0 @ [AnyInt64 maxInt64])
                  | None \<Rightarrow> ([], args0)));
          (off, args2) =
            (case qOffset qb of
               Some k \<Rightarrow> ('' OFFSET $'' @ show_nat (length args1 + 1), args1 @ [AnyInt k])
             | None \<Rightarrow> ([], args1))
      in (head @ lim @ off, args2))"

section \<open>CountBuilder and DeleteBuilder\<close>

record 'v CountBuilder =
  cTable :: string
  cWheres :: "'v whereClause list"
  cArgs :: "'v goany list"

definition Count :: "string \<Rightarrow> 'v CountBuilder" where
  "Count table = \<lparr>cTable = table, cWheres = [], cArgs = []\<rparr>"

definition CountWhere :: "'v CountBuilder \<Rightarrow> string \<Rightarrow> 'v goany list \<Rightarrow> 'v CountBuilder" where
  "CountWhere cb cond args =
     cb\<lparr>cWheres := cWheres cb @ [\<lparr>connector = ''AND'', condition = cond, whereArgs = args\<rparr>],
        cArgs := cArgs cb @ args\<rparr>"

definition buildFiltered ::
  "string \<Rightarrow> string \<Rightarrow> 'v whereClause list \<Rightarrow> 'v goany list \<Rightarrow> string \<times> 'v goany list" where
  "buildFiltered verb table wheres args =
     (verb @ identSlot (sanitizeFragment table) @ build_where wheres 1, args)"

definition CountBuild :: "'v CountBuilder \<Rightarrow> string \<times> 'v goany list" where
  "CountBuild cb = buildFiltered ''SELECT COUNT(*) FROM '' (cTable cb) (cWheres cb) (cArgs cb)"

record 'v DeleteBuilder =
  dTable :: string
  dWheres :: "'v whereClause list"
  dArgs :: "'v goany list"
  dReturning :: "string list"

definition Delete :: "string \<Rightarrow> 'v DeleteBuilder" where
  "Delete table = \<lparr>dTable = table, dWheres = [], dArgs = [], dReturning = []\<rparr>"

definition DeleteWhere :: "'v DeleteBuilder \<Rightarrow> string \<Rightarrow> 'v goany list \<Rightarrow> 'v DeleteBuilder" where
  "DeleteWhere db cond args =
     db\<lparr>dWheres := dWheres db @ [\<lparr>connector = ''AND'', condition = cond, whereArgs = args\<rparr>],
        dArgs := dArgs db @ args\<rparr>"

definition DeleteReturning :: "'v DeleteBuilder \<Rightarrow> string list \<Rightarrow> 'v DeleteBuilder" where
  "DeleteReturning db cols = db\<lparr>dReturning := cols\<rparr>"

definition column_list :: "string list \<Rightarrow> string" where
  "column_list cols = join '', '' (map (\<lambda>c. identSlot (sanitizeColumn c)) cols)"

definition selectVerb :: "string list \<Rightarrow> string" where
  "selectVerb cols = ''SELECT '' @ column_list cols @ '' FROM ''"

definition DeleteMatching :: "'v DeleteBuilder \<Rightarrow> string list \<Rightarrow> string \<times> 'v goany list" where
  "DeleteMatching db cols = buildFiltered (selectVerb cols) (dTable db) (dWheres db) (dArgs db)"

definition returning_clause :: "string list \<Rightarrow> string" where
  "returning_clause cols = (if cols = [] then [] else '' RETURNING '' @ column_list cols)"

definition DeleteBuild :: "'v DeleteBuilder \<Rightarrow> string \<times> 'v goany list" where
  "DeleteBuild db =
     (case buildFiltered ''DELETE FROM '' (dTable db) (dWheres db) (dArgs db) of
        (sqlStr, args) \<Rightarrow> (sqlStr @ returning_clause (dReturning db), args))"

section \<open>InsertBuilder\<close>

record 'v InsertBuilder =
  iTable :: string
  iColumns :: "string list"
  iValues :: "'v goany list"
  iReturning :: "string list"

definition Insert :: "string \<Rightarrow> 'v InsertBuilder" where
  "Insert table = \<lparr>iTable = table, iColumns = [], iValues = [], iReturning = []\<rparr>"

definition Columns :: "'v InsertBuilder \<Rightarrow> string list \<Rightarrow> 'v InsertBuilder" where
  "Columns ib cols = ib\<lparr>iColumns := cols\<rparr>"

definition Values :: "'v InsertBuilder \<Rightarrow> 'v goany list \<Rightarrow> 'v InsertBuilder" where
  "Values ib vals = ib\<lparr>iValues := vals\<rparr>"

definition InsertReturning :: "'v InsertBuilder \<Rightarrow> string list \<Rightarrow> 'v InsertBuilder" where
  "InsertReturning ib cols = ib\<lparr>iReturning := cols\<rparr>"

definition InsertBuild :: "'v InsertBuilder \<Rightarrow> string \<times> 'v goany list" where
  "InsertBuild ib =
     (''INSERT INTO '' @ identSlot (sanitizeFragment (iTable ib))
      @ (if iColumns ib = [] \<and> iValues ib = [] then '' DEFAULT VALUES''
         else '' ('' @ column_list (iColumns ib) @ '')'' @ '' VALUES (''
              @ join '', '' (map (\<lambda>i. CHR ''$'' # show_nat (i + 1)) [0..<length (iValues ib)]) @ '')'')
      @ returning_clause (iReturning ib),
      iValues ib)"

section \<open>UpdateBuilder\<close>

record 'v setClause =
  setColumn :: string
  setValue :: "'v goany"

record 'v UpdateBuilder =
  uTable :: string
  uSets :: "'v setClause list"
  uWheres :: "'v whereClause list"
  uReturning :: "string list"

definition Update :: "string \<Rightarrow> 'v UpdateBuilder" where
  "Update table = \<lparr>uTable = table, uSets = [], uWheres = [], uReturning = []\<rparr>"

definition Set :: "'v UpdateBuilder \<Rightarrow> string \<Rightarrow> 'v goany \<Rightarrow> 'v UpdateBuilder" where
  "Set ub column v = ub\<lparr>uSets := uSets ub @ [\<lparr>setColumn = column, setValue = v\<rparr>]\<rparr>"

definition UpdateWhere :: "'v UpdateBuilder \<Rightarrow> string \<Rightarrow> 'v goany list \<Rightarrow> 'v UpdateBuilder" where
  "UpdateWhere ub cond args =
     ub\<lparr>uWheres := uWheres ub @ [\<lparr>connector = ''AND'', condition = cond, whereArgs = args\<rparr>]\<rparr>"

definition UpdateReturning :: "'v UpdateBuilder \<Rightarrow> string list \<Rightarrow> 'v UpdateBuilder" where
  "UpdateReturning ub cols = ub\<lparr>uReturning := cols\<rparr>"

definition UpdateMatching :: "'v UpdateBuilder \<Rightarrow> string list \<Rightarrow> string \<times> 'v goany list" where
  "UpdateMatching ub cols =
     buildFiltered (selectVerb cols) (uTable ub) (uWheres ub) (concat (map whereArgs (uWheres ub)))"

text \<open>The SET loop: the assignments from \<^verbatim>\<open>paramIdx\<close> on.\<close>

fun set_clauses :: "nat \<Rightarrow> 'v setClause list \<Rightarrow> string list" where
  "set_clauses paramIdx [] = []"
| "set_clauses paramIdx (s # ss) =
     (identSlot (sanitizeColumn (setColumn s)) @ '' = $'' @ show_nat paramIdx)
       # set_clauses (paramIdx + 1) ss"

definition UpdateBuild :: "'v UpdateBuilder \<Rightarrow> string \<times> 'v goany list" where
  "UpdateBuild ub =
     (''UPDATE '' @ identSlot (sanitizeFragment (uTable ub)) @ '' SET ''
      @ join '', '' (set_clauses 1 (uSets ub))
      @ build_where (uWheres ub) (1 + length (uSets ub))
      @ returning_clause (uReturning ub),
      map setValue (uSets ub) @ concat (map whereArgs (uWheres ub)))"

section \<open>Numbering a sequence of fragments\<close>

text \<open>
  What the builders rely on of the renumberer: a fragment numbered from \<open>n\<close> uses the binds
  \<open>n\<close>, \<open>n + 1\<close>, \<dots>, one per placeholder. A statement composed of fragments, each numbered
  from where the arguments of the ones before it end, then uses one unbroken run.
\<close>

fun number_chain :: "(string \<Rightarrow> nat \<Rightarrow> piece list) \<Rightarrow> (string \<times> nat) list \<Rightarrow> nat \<Rightarrow> piece list" where
  "number_chain number [] n = []"
| "number_chain number ((s, k) # fs) n = number s n @ number_chain number fs (n + k)"

locale fragment_numbering =
  fixes number :: "string \<Rightarrow> nat \<Rightarrow> piece list"
    and arity :: "string \<Rightarrow> nat"
  assumes binds_number: "binds (number s n) = [n..<n + arity s]"
begin

lemma binds_number_chain:
  "list_all (\<lambda>(s, k). arity s = k) fs \<Longrightarrow>
     binds (number_chain number fs n) = [n..<n + sum_list (map snd fs)]"
proof (induction fs arbitrary: n)
  case (Cons f fs)
  obtain s k where "f = (s, k)" by (cases f)
  with Cons show ?case
    using upt_add_eq_append [of n "n + k" "sum_list (map snd fs)"]
    by (simp add: binds_number add.assoc)
qed simp

end

interpretation cond: fragment_numbering condition_pieces placeholders
  by unfold_locales (simp add: condition_pieces_def placeholders_def binds_number_toks)

section \<open>Reachable builders\<close>

inductive built :: "'v QueryBuilder \<Rightarrow> bool" where
  built_Select: "built (Select cols)"
| built_From: "built qb \<Longrightarrow> built (From qb t)"
| built_Where: "built qb \<Longrightarrow> built (Where qb c args)"
| built_OrWhere: "built qb \<Longrightarrow> built (OrWhere qb c args)"
| built_Join: "built qb \<Longrightarrow> built (Join qb t c)"
| built_LeftJoin: "built qb \<Longrightarrow> built (LeftJoin qb t c)"
| built_Order: "built qb \<Longrightarrow> built (Order qb c d)"
| built_Limit: "built qb \<Longrightarrow> built (Limit qb n)"
| built_Offset: "built qb \<Longrightarrow> built (Offset qb n)"
| built_Cursor: "built qb \<Longrightarrow> built (Cursor qb f v d)"

lemmas builder_ops = Select_def From_def Where_def OrWhere_def Join_def LeftJoin_def Order_def
  Limit_def Offset_def Cursor_def

definition connectors_ok :: "'v whereClause list \<Rightarrow> bool" where
  "connectors_ok ws = list_all (\<lambda>w. connector w = ''AND'' \<or> connector w = ''OR'') ws"

definition builder_ok :: "'v QueryBuilder \<Rightarrow> bool" where
  "builder_ok qb \<longleftrightarrow>
     qArgs qb = concat (map whereArgs (qWheres qb)) \<and> connectors_ok (qWheres qb)"

lemma built_ok: "built qb \<Longrightarrow> builder_ok qb"
  by (induction rule: built.induct)
    (simp_all add: builder_ok_def connectors_ok_def builder_ops Let_def)

section \<open>The WHERE chain is read left to right\<close>

datatype 'v wtok = LParen | RParen | AndTok | OrTok | CondTok "'v whereClause" nat

fun wtok_text :: "'v wtok \<Rightarrow> string" where
  "wtok_text LParen = ''(''"
| "wtok_text RParen = '')''"
| "wtok_text AndTok = '' AND ''"
| "wtok_text OrTok = '' OR ''"
| "wtok_text (CondTok w n) = where_condition w n"

text \<open>
  A boolean expression over the clauses of the chain, each with the index its placeholders are
  numbered from, and the tokens it is printed as. \<open>chain_expr\<close> is the expression the builder
  documents for a chain: each clause is combined with all that come before, and what comes before an
  AND is put in parentheses when it is a disjunction.
\<close>

datatype 'v wexpr =
    ECond "'v whereClause" nat
  | EAnd "'v wexpr" "'v wexpr"
  | EOr "'v wexpr" "'v wexpr"
  | EParen "'v wexpr"

fun expr_toks :: "'v wexpr \<Rightarrow> 'v wtok list" where
  "expr_toks (ECond w n) = [CondTok w n]"
| "expr_toks (EAnd d e) = expr_toks d @ [AndTok] @ expr_toks e"
| "expr_toks (EOr d e) = expr_toks d @ [OrTok] @ expr_toks e"
| "expr_toks (EParen e) = [LParen] @ expr_toks e @ [RParen]"

fun is_or :: "'v wexpr \<Rightarrow> bool" where
  "is_or (EOr _ _) = True"
| "is_or _ = False"

definition chain_add :: "'v wexpr \<Rightarrow> 'v whereClause \<Rightarrow> nat \<Rightarrow> 'v wexpr" where
  "chain_add e w n =
     (if connector w = ''OR'' then EOr e (ECond w n)
      else EAnd (if is_or e then EParen e else e) (ECond w n))"

fun chain_expr :: "'v wexpr \<Rightarrow> 'v whereClause list \<Rightarrow> nat \<Rightarrow> 'v wexpr" where
  "chain_expr e [] n = e"
| "chain_expr e (w # ws) n = chain_expr (chain_add e w n) ws (n + length (whereArgs w))"

definition where_toks :: "'v whereClause list \<Rightarrow> nat \<Rightarrow> 'v wtok list" where
  "where_toks ws n =
     (case ws of [] \<Rightarrow> []
      | w # ws' \<Rightarrow> expr_toks (chain_expr (ECond w n) ws' (n + length (whereArgs w))))"

text \<open>
  SQL's reading of a token row, in one pass: AND binds tighter than OR, a parenthesis opens a fresh
  reading. \<open>ors\<close> is the disjunction of the AND-runs that are done, \<open>ands\<close> the run being read,
  the stack what waits outside the open parentheses, \<open>operand\<close> says that a condition or an opening
  parenthesis has to come next. A row that is not an expression (a parenthesis that is never closed or
  never opened, a connector with no operand, two operands side by side) has no reading.
\<close>

fun sql_read :: "('v whereClause \<Rightarrow> bool) \<Rightarrow> (bool \<times> bool) list \<Rightarrow> bool \<Rightarrow> bool \<Rightarrow> bool \<Rightarrow> 'v wtok list
    \<Rightarrow> bool option" where
  "sql_read v stk ors ands operand [] = (if operand \<or> stk \<noteq> [] then None else Some (ors \<or> ands))"
| "sql_read v stk ors ands operand (AndTok # ts) =
     (if operand then None else sql_read v stk ors ands True ts)"
| "sql_read v stk ors ands operand (OrTok # ts) =
     (if operand then None else sql_read v stk (ors \<or> ands) True True ts)"
| "sql_read v stk ors ands operand (LParen # ts) =
     (if operand then sql_read v ((ors, ands) # stk) False True True ts else None)"
| "sql_read v stk ors ands operand (RParen # ts) =
     (if operand then None
      else case stk of [] \<Rightarrow> None
        | (ors', ands') # stk' \<Rightarrow> sql_read v stk' ors' (ands' \<and> (ors \<or> ands)) False ts)"
| "sql_read v stk ors ands operand (CondTok w n # ts) =
     (if operand then sql_read v stk ors (ands \<and> v w) False ts else None)"

definition sql_value :: "('v whereClause \<Rightarrow> bool) \<Rightarrow> 'v wtok list \<Rightarrow> bool option" where
  "sql_value v ts = sql_read v [] False True True ts"

text \<open>What \<^verbatim>\<open>Where\<close> and \<^verbatim>\<open>OrWhere\<close> document: each condition is combined with all that come before.\<close>

definition fold_chain :: "('v whereClause \<Rightarrow> bool) \<Rightarrow> bool \<Rightarrow> 'v whereClause list \<Rightarrow> bool" where
  "fold_chain v =
     foldl (\<lambda>acc w. if connector w = ''OR'' then acc \<or> v w else acc \<and> v w)"

text \<open>The conditions of a row in order, with the index each is numbered from.\<close>

definition row_conditions :: "'v wtok list \<Rightarrow> ('v whereClause \<times> nat) list" where
  "row_conditions ts = concat (map (\<lambda>t. case t of CondTok w n \<Rightarrow> [(w, n)] | _ \<Rightarrow> []) ts)"

fun clause_indices :: "'v whereClause list \<Rightarrow> nat \<Rightarrow> ('v whereClause \<times> nat) list" where
  "clause_indices [] n = []"
| "clause_indices (w # ws) n = (w, n) # clause_indices ws (n + length (whereArgs w))"

subsection \<open>The text is the print of the expression\<close>

abbreviation toks_text :: "'v wtok list \<Rightarrow> string" where
  "toks_text ts \<equiv> concat (map wtok_text ts)"

lemma is_or_chain_add [simp]: "is_or (chain_add e w n) = (connector w = ''OR'')"
  by (simp add: chain_add_def)

lemma chain_expr_text:
  "connectors_ok ws \<Longrightarrow>
     toks_text (expr_toks (chain_expr e ws n)) =
       replicate (count_groups (is_or e) ws) CHR ''('' @ toks_text (expr_toks e) @ where_tail (is_or e) ws n"
proof (induction e ws n rule: chain_expr.induct)
  case (2 e w ws n)
  then have c: "connector w = ''AND'' \<or> connector w = ''OR''" and ok: "connectors_ok ws"
    by (simp_all add: connectors_ok_def)
  from 2(1) [OF ok] c show ?case
    by (cases "connector w = ''OR''"; cases "is_or e")
      (auto simp: chain_add_def replicate_app_Cons_same)
qed simp

lemma appendWhereClauses_toks:
  "connectors_ok ws \<Longrightarrow> appendWhereClauses ws n = toks_text (where_toks ws n)"
  by (cases ws) (simp_all add: appendWhereClauses_def where_toks_def chain_expr_text connectors_ok_def)

lemma row_conditions_simps [simp]:
  "row_conditions [] = []"
  "row_conditions (t # ts) = (case t of CondTok w n \<Rightarrow> [(w, n)] | _ \<Rightarrow> []) @ row_conditions ts"
  "row_conditions (ts @ us) = row_conditions ts @ row_conditions us"
  by (simp_all add: row_conditions_def)

lemma chain_expr_conditions:
  "row_conditions (expr_toks (chain_expr e ws n)) = row_conditions (expr_toks e) @ clause_indices ws n"
  by (induction e ws n rule: chain_expr.induct) (simp_all add: chain_add_def)

lemma where_toks_conditions: "row_conditions (where_toks ws n) = clause_indices ws n"
  by (cases ws) (simp_all add: where_toks_def chain_expr_conditions)

subsection \<open>The print of the expression reads back\<close>

fun expr_value :: "('v whereClause \<Rightarrow> bool) \<Rightarrow> 'v wexpr \<Rightarrow> bool" where
  "expr_value v (ECond w n) = v w"
| "expr_value v (EAnd d e) = (expr_value v d \<and> expr_value v e)"
| "expr_value v (EOr d e) = (expr_value v d \<or> expr_value v e)"
| "expr_value v (EParen e) = expr_value v e"

fun expr_ok :: "'v wexpr \<Rightarrow> bool" where
  "expr_ok (ECond w n) = True"
| "expr_ok (EAnd d e) = (expr_ok d \<and> expr_ok e \<and> \<not> is_or d \<and> \<not> is_or e)"
| "expr_ok (EOr d e) = (expr_ok d \<and> expr_ok e \<and> \<not> is_or e)"
| "expr_ok (EParen e) = expr_ok e"

lemma sql_read_expr:
  "expr_ok e \<Longrightarrow>
     (\<not> is_or e \<longrightarrow> (\<forall>stk ors ands ts. sql_read v stk ors ands True (expr_toks e @ ts) =
        sql_read v stk ors (ands \<and> expr_value v e) False ts))
     \<and> (\<forall>stk ors ts. \<exists>o' a'. (o' \<or> a') = (ors \<or> expr_value v e)
        \<and> sql_read v stk ors True True (expr_toks e @ ts) = sql_read v stk o' a' False ts)"
proof (induction e)
  case (EOr d e)
  then have d: "\<forall>stk ors ts. \<exists>o' a'. (o' \<or> a') = (ors \<or> expr_value v d)
        \<and> sql_read v stk ors True True (expr_toks d @ ts) = sql_read v stk o' a' False ts"
    and e: "\<forall>stk ors ands ts. sql_read v stk ors ands True (expr_toks e @ ts) =
        sql_read v stk ors (ands \<and> expr_value v e) False ts"
    by simp_all
  show ?case
  proof (intro conjI allI)
    fix stk ors ts
    obtain o' a' where "(o' \<or> a') = (ors \<or> expr_value v d)"
      "sql_read v stk ors True True (expr_toks d @ OrTok # expr_toks e @ ts)
         = sql_read v stk o' a' False (OrTok # expr_toks e @ ts)"
      using d by blast
    with e show "\<exists>o' a'. (o' \<or> a') = (ors \<or> expr_value v (EOr d e))
        \<and> sql_read v stk ors True True (expr_toks (EOr d e) @ ts) = sql_read v stk o' a' False ts"
      by (intro exI [of _ "o' \<or> a'"] exI [of _ "expr_value v e"]) auto
  qed simp
next
  case (EParen e)
  have "sql_read v stk ors ands True (expr_toks (EParen e) @ ts)
      = sql_read v stk ors (ands \<and> expr_value v e) False ts" for stk ors ands ts
  proof -
    obtain o' a' where "(o' \<or> a') = expr_value v e"
      "sql_read v ((ors, ands) # stk) False True True (expr_toks e @ RParen # ts)
         = sql_read v ((ors, ands) # stk) o' a' False (RParen # ts)"
      using EParen by (metis expr_ok.simps(4))
    then show ?thesis by simp
  qed
  then show ?case by auto
qed auto

lemma sql_value_expr: "expr_ok e \<Longrightarrow> sql_value v (expr_toks e) = Some (expr_value v e)"
proof -
  assume "expr_ok e"
  from conjunct2 [OF sql_read_expr [OF this, of v]]
  obtain o' a' where "(o' \<or> a') = expr_value v e"
    "sql_read v [] False True True (expr_toks e @ []) = sql_read v [] o' a' False []" by metis
  then show ?thesis by (simp add: sql_value_def)
qed

lemma chain_expr_ok: "expr_ok e \<Longrightarrow> expr_ok (chain_expr e ws n)"
  by (induction e ws n rule: chain_expr.induct) (simp_all add: chain_add_def)

lemma chain_expr_value: "expr_value v (chain_expr e ws n) = fold_chain v (expr_value v e) ws"
  by (induction e ws n rule: chain_expr.induct) (simp_all add: chain_add_def fold_chain_def)

lemma where_toks_value: "sql_value v (where_toks (w # ws) n) = Some (fold_chain v (v w) ws)"
  by (simp add: where_toks_def sql_value_expr chain_expr_ok chain_expr_value)


section \<open>Placeholders and arguments\<close>

text \<open>The statements as pieces: the text of \<^verbatim>\<open>Build\<close> with its placeholders kept apart.\<close>

definition where_condition_pieces :: "'v whereClause \<Rightarrow> nat \<Rightarrow> piece list" where
  "where_condition_pieces w n =
     [Text ''(''] @ condition_pieces (condition w) n
     @ [Text ((if snd (renumberCondition (condition w) n) then [NL] else []) @ '')'')]"

fun wtok_pieces :: "'v wtok \<Rightarrow> piece list" where
  "wtok_pieces (CondTok w n) = where_condition_pieces w n"
| "wtok_pieces t = [Text (wtok_text t)]"

definition where_pieces :: "'v whereClause list \<Rightarrow> nat \<Rightarrow> piece list" where
  "where_pieces ws n =
     (if ws = [] then [] else Text '' WHERE '' # concat (map wtok_pieces (where_toks ws n)))"

lemma where_condition_pieces_text: "pieces_text (where_condition_pieces w n) = where_condition w n"
  by (simp add: where_condition_pieces_def where_condition_def case_prod_beta renumberCondition_def
      renumber_loop_lex condition_pieces_def)

lemma wtok_pieces_text: "pieces_text (wtok_pieces t) = wtok_text t"
  by (cases t) (simp_all add: where_condition_pieces_text)

lemma concat_wtok_pieces_text:
  "pieces_text (concat (map wtok_pieces ts)) = concat (map wtok_text ts)"
  by (induction ts) (simp_all add: wtok_pieces_text)

lemma where_pieces_text: "connectors_ok ws \<Longrightarrow> pieces_text (where_pieces ws n) = build_where ws n"
  by (simp add: where_pieces_def build_where_def concat_wtok_pieces_text appendWhereClauses_toks)

definition arg_fragment :: "'v whereClause \<Rightarrow> string \<times> nat" where
  "arg_fragment w = (condition w, length (whereArgs w))"

lemma binds_where_condition [simp]:
  "binds (where_condition_pieces w n) = binds (condition_pieces (condition w) n)"
  by (simp add: where_condition_pieces_def)

lemma binds_wtok_pieces:
  "binds (concat (map wtok_pieces ts)) =
     concat (map (\<lambda>(w, n). binds (condition_pieces (condition w) n)) (row_conditions ts))"
  by (induction ts) (simp_all split: wtok.split)

lemma binds_clause_indices:
  "concat (map (\<lambda>(w, n). binds (condition_pieces (condition w) n)) (clause_indices ws n)) =
     binds (number_chain condition_pieces (map arg_fragment ws) n)"
  by (induction ws n rule: clause_indices.induct) (simp_all add: arg_fragment_def)

lemma binds_where_pieces:
  "binds (where_pieces ws n) = binds (number_chain condition_pieces (map arg_fragment ws) n)"
  using binds_clause_indices [of ws n]
  by (cases "ws = []") (simp_all add: where_pieces_def binds_wtok_pieces where_toks_conditions)

definition args_match :: "'v whereClause list \<Rightarrow> bool" where
  "args_match ws = list_all (\<lambda>w. placeholders (condition w) = length (whereArgs w)) ws"

lemma binds_where_run:
  "args_match ws \<Longrightarrow>
     binds (where_pieces ws n) = [n..<n + length (concat (map whereArgs ws))]"
  using cond.binds_number_chain [of "map arg_fragment ws" n]
  by (simp add: binds_where_pieces args_match_def list_all_iff arg_fragment_def length_concat o_def)

definition build_pieces :: "'v QueryBuilder \<Rightarrow> piece list" where
  "build_pieces qb =
     [Text (''SELECT '' @ build_columns (qColumns qb) @ '' FROM '' @ identSlot (sanitizeFragment (qTable qb))
        @ concat (map build_join (qJoins qb)))]
     @ where_pieces (qWheres qb) 1
     @ [Text (if qOrderBy qb = [] then [] else '' ORDER BY '' @ join '', '' (map build_order (qOrderBy qb)))]
     @ (if qLimit qb = None \<and> qOffset qb = None then []
        else [Text '' LIMIT '', Bind (length (qArgs qb) + 1)])
     @ (if qOffset qb = None then [] else [Text '' OFFSET '', Bind (length (qArgs qb) + 2)])"

text \<open>A SELECT built by any sequence of builder calls, each condition carrying as many arguments as
  it has placeholders, numbers its placeholders \<^verbatim>\<open>$1\<close> to \<^verbatim>\<open>$n\<close> without gap or repeat, WHERE,
  LIMIT and OFFSET together, and returns exactly \<open>n\<close> arguments: the \<open>k\<close>th placeholder of the
  text binds the \<open>k\<close>th argument.\<close>

lemma Build_binds_arguments:
  assumes "built qb" "args_match (qWheres qb)"
  shows "fst (Build qb) = pieces_text (build_pieces qb)
    \<and> binds (build_pieces qb) = [1..<Suc (length (snd (Build qb)))]"
proof
  have ok: "qArgs qb = concat (map whereArgs (qWheres qb))" "connectors_ok (qWheres qb)"
    using built_ok [OF assms(1)] by (simp_all add: builder_ok_def)
  show "fst (Build qb) = pieces_text (build_pieces qb)"
    by (simp add: Build_def build_pieces_def where_pieces_text [OF ok(2)] Let_def split: option.split)
  show "binds (build_pieces qb) = [1..<Suc (length (snd (Build qb)))]"
    using binds_where_run [OF assms(2), of 1]
    by (simp add: Build_def build_pieces_def ok(1) [symmetric] Let_def split: option.split)
qed

fun set_pieces :: "nat \<Rightarrow> 'v setClause list \<Rightarrow> piece list" where
  "set_pieces n [] = []"
| "set_pieces n [s] = [Text (identSlot (sanitizeColumn (setColumn s)) @ '' = ''), Bind n]"
| "set_pieces n (s # t # ss) =
     [Text (identSlot (sanitizeColumn (setColumn s)) @ '' = ''), Bind n, Text '', ''] @ set_pieces (n + 1) (t # ss)"

lemma set_pieces_text: "pieces_text (set_pieces n ss) = join '', '' (set_clauses n ss)"
  by (induction n ss rule: set_pieces.induct) simp_all

lemma binds_set_pieces: "binds (set_pieces n ss) = [n..<n + length ss]"
  by (induction n ss rule: set_pieces.induct) (simp_all add: upt_conv_Cons del: upt_Suc)

definition update_pieces :: "'v UpdateBuilder \<Rightarrow> piece list" where
  "update_pieces ub =
     [Text (''UPDATE '' @ identSlot (sanitizeFragment (uTable ub)) @ '' SET '')]
     @ set_pieces 1 (uSets ub)
     @ where_pieces (uWheres ub) (1 + length (uSets ub)) @ [Text (returning_clause (uReturning ub))]"

inductive updated :: "'v UpdateBuilder \<Rightarrow> bool" where
  updated_Update: "updated (Update t)"
| updated_Set: "updated ub \<Longrightarrow> updated (Set ub c v)"
| updated_Where: "updated ub \<Longrightarrow> updated (UpdateWhere ub c args)"
| updated_Returning: "updated ub \<Longrightarrow> updated (UpdateReturning ub cols)"

lemmas update_ops = Update_def Set_def UpdateWhere_def UpdateReturning_def

lemma updated_ok: "updated ub \<Longrightarrow> connectors_ok (uWheres ub)"
  by (induction rule: updated.induct) (simp_all add: update_ops connectors_ok_def)

text \<open>An UPDATE numbers its placeholders in one run over SET and WHERE and returns the SET values
  before the WHERE arguments, so the \<open>k\<close>th placeholder binds the \<open>k\<close>th argument; the order in
  which \<^verbatim>\<open>Set\<close> and \<^verbatim>\<open>Where\<close> were called makes no difference.\<close>

lemma UpdateBuild_binds_arguments:
  assumes "updated ub" "args_match (uWheres ub)"
  shows "fst (UpdateBuild ub) = pieces_text (update_pieces ub)
    \<and> binds (update_pieces ub) = [1..<Suc (length (snd (UpdateBuild ub)))]
    \<and> UpdateBuild (Set (UpdateWhere ub c args) col v) = UpdateBuild (UpdateWhere (Set ub col v) c args)"
proof (intro conjI)
  show "fst (UpdateBuild ub) = pieces_text (update_pieces ub)"
    by (simp add: UpdateBuild_def update_pieces_def set_pieces_text where_pieces_text [OF updated_ok [OF assms(1)]])
  have "binds (update_pieces ub) = [1..<1 + length (uSets ub)]
      @ [1 + length (uSets ub)..<1 + length (uSets ub) + length (concat (map whereArgs (uWheres ub)))]"
    using binds_where_run [OF assms(2), of "1 + length (uSets ub)"]
    by (simp add: update_pieces_def binds_set_pieces del: upt_Suc)
  then show "binds (update_pieces ub) = [1..<Suc (length (snd (UpdateBuild ub)))]"
    using upt_add_eq_append [of 1 "1 + length (uSets ub)" "length (concat (map whereArgs (uWheres ub)))"]
    by (simp add: UpdateBuild_def del: upt_Suc)
qed (simp add: update_ops UpdateBuild_def)

text \<open>\<^verbatim>\<open>Matching\<close> selects from the rows the statement would touch: for a DELETE the same table and
  WHERE text with the same arguments, for an UPDATE the same clauses numbered from \<^verbatim>\<open>$1\<close> with the
  WHERE arguments alone, which are what is left of the UPDATE's arguments after its SET values.\<close>

lemma Matching_same_rows:
  "DeleteBuild db =
     (''DELETE FROM '' @ identSlot (sanitizeFragment (dTable db)) @ build_where (dWheres db) 1
        @ returning_clause (dReturning db), snd (DeleteMatching db cols))
   \<and> fst (DeleteMatching db cols) =
       selectVerb cols @ identSlot (sanitizeFragment (dTable db)) @ build_where (dWheres db) 1
   \<and> fst (UpdateMatching ub cols) =
       selectVerb cols @ identSlot (sanitizeFragment (uTable ub)) @ build_where (uWheres ub) 1
   \<and> snd (UpdateBuild ub) = map setValue (uSets ub) @ snd (UpdateMatching ub cols)"
  by (simp add: DeleteBuild_def DeleteMatching_def UpdateMatching_def UpdateBuild_def buildFiltered_def)

text \<open>A column slot holding two dashes with a blank between them, which the fragment scrub lets pass,
  comes out as a line comment: the rest of the statement, the tenant scope in the WHERE included, is
  commented out.\<close>

lemma sanitizeColumn_opens_comment:
  "fragmentIsClean ''id- -''
   \<and> fst (Build (Where (From (Select [''id- -'']) ''docs'') ''tenant_id = $1'' [AnyVal (0::nat)]))
       = ''SELECT id-- FROM docs WHERE (tenant_id = $1)''"
  by code_simp


lemma Build_binds_arguments_witness:
  "binds (build_pieces (Limit (Where (Where (Select []) ''a = $1'' [AnyVal (7::nat)]) ''b = $1'' [AnyVal 8]) 5))
     = [1, 2, 3]"
proof -
  let ?qb = "Limit (Where (Where (Select []) ''a = $1'' [AnyVal (7::nat)]) ''b = $1'' [AnyVal 8]) 5"
  have b: "built ?qb" by (intro built.intros)
  have m: "args_match (qWheres ?qb)" by code_simp
  have "length (snd (Build ?qb)) = 3" by code_simp
  with Build_binds_arguments [OF b m] show ?thesis by (simp add: upt_rec)
qed

lemma UpdateBuild_binds_arguments_witness:
  "binds (update_pieces (Set (UpdateWhere (Update ''t'') ''id = $1'' [AnyVal (7::nat)]) ''title'' (AnyVal 8)))
     = [1, 2]"
proof -
  let ?ub = "Set (UpdateWhere (Update ''t'') ''id = $1'' [AnyVal (7::nat)]) ''title'' (AnyVal 8)"
  have b: "updated ?ub" by (intro updated.intros)
  have m: "args_match (uWheres ?ub)" by code_simp
  have "length (snd (UpdateBuild ?ub)) = 2" by code_simp
  with UpdateBuild_binds_arguments [OF b m] show ?thesis by (simp add: upt_rec)
qed

end
