(* ===== verification/SqlSplit.thy ===== *)
theory SqlSplit
  imports GoPrelude
begin

text \<open>
  The statement splitter of \<^verbatim>\<open>core/migrate/split.go\<close>, by which a migration that runs outside a transaction sends its
  statements one at a time. Its loops over byte positions end by the distance to the end of the body.
\<close>

section \<open>Scanning\<close>

definition identByte :: "char \<Rightarrow> bool" where
  "identByte c \<longleftrightarrow> c = CHR ''_'' \<or> c = CHR ''$'' \<or> is_digit c \<or> is_lower c \<or> is_upper c \<or> 128 \<le> byte_of c"

text \<open>The loop of \<^verbatim>\<open>skipQuoted\<close> at position \<open>i\<close>.\<close>

function skip_quoted :: "string \<Rightarrow> nat \<Rightarrow> char \<Rightarrow> bool \<Rightarrow> nat" where
  "skip_quoted body i q escapes =
     (if \<not> i < length body then length body
      else if body ! i = BSL then skip_quoted body (if escapes then i + 2 else i + 1) q escapes
      else if body ! i = q then
        (if i + 1 < length body \<and> body ! (i + 1) = q then skip_quoted body (i + 2) q escapes else i + 1)
      else skip_quoted body (i + 1) q escapes)"
  by pat_completeness auto
termination by (relation "measure (\<lambda>(body, i, q, escapes). length body - i)") auto

definition skipQuoted :: "string \<Rightarrow> nat \<Rightarrow> char \<Rightarrow> bool \<Rightarrow> nat" where
  "skipQuoted body i q escapes = skip_quoted body (i + 1) q escapes"

definition tag_byte :: "char \<Rightarrow> bool \<Rightarrow> bool" where
  "tag_byte c later \<longleftrightarrow> c = CHR ''_'' \<or> is_lower c \<or> is_upper c \<or> 128 \<le> byte_of c \<or> later \<and> is_digit c"

function tag_loop :: "string \<Rightarrow> nat \<Rightarrow> nat \<Rightarrow> string option" where
  "tag_loop body i j =
     (if j < length body \<and> body ! j \<noteq> CHR ''$'' then
        (if \<not> tag_byte (body ! j) (j > i + 1) then None else tag_loop body i (j + 1))
      else if j \<ge> length body then None
      else Some (substr body i (j + 1)))"
  by pat_completeness auto
termination by (relation "measure (\<lambda>(body, i, j). length body - j)") auto

definition dollarTag :: "string \<Rightarrow> nat \<Rightarrow> string option" where
  "dollarTag body i = tag_loop body i (i + 1)"

function skip_line :: "string \<Rightarrow> nat \<Rightarrow> nat" where
  "skip_line body i = (if i < length body \<and> body ! i \<noteq> NL then skip_line body (i + 1) else i)"
  by pat_completeness auto
termination by (relation "measure (\<lambda>(body, i). length body - i)") auto

definition two_at :: "string \<Rightarrow> nat \<Rightarrow> char \<Rightarrow> char \<Rightarrow> bool" where
  "two_at body i c d \<longleftrightarrow> i + 1 < length body \<and> body ! i = c \<and> body ! (i + 1) = d"

function skip_block :: "string \<Rightarrow> nat \<Rightarrow> int \<Rightarrow> nat" where
  "skip_block body i depth =
     (if \<not> i < length body then i
      else if two_at body i (CHR ''/'') (CHR ''*'') then skip_block body (i + 2) (depth + 1)
      else if two_at body i (CHR ''*'') (CHR ''/'') then
        (if depth - 1 = 0 then i + 2 else skip_block body (i + 2) (depth - 1))
      else skip_block body (i + 1) depth)"
  by pat_completeness auto
termination by (relation "measure (\<lambda>(body, i, depth). length body - i)") auto

function word_end :: "string \<Rightarrow> nat \<Rightarrow> nat" where
  "word_end body j = (if j < length body \<and> identByte (body ! j) then word_end body (j + 1) else j)"
  by pat_completeness auto
termination by (relation "measure (\<lambda>(body, j). length body - j)") auto

declare skip_quoted.simps [simp del] tag_loop.simps [simp del] skip_line.simps [simp del] skip_block.simps [simp del]
  word_end.simps [simp del]

section \<open>The splitter\<close>

record split_state =
  splitOut :: "string list"
  pieceStart :: nat
  hasCode :: bool
  atomicDepth :: nat
  caseDepth :: nat
  parenDepth :: nat
  prevWord :: string

definition split_flush :: "string \<Rightarrow> nat \<Rightarrow> split_state \<Rightarrow> split_state" where
  "split_flush body e s =
     s\<lparr>splitOut := (if hasCode s then splitOut s @ [trim_space (substr body (pieceStart s) e)] else splitOut s),
       pieceStart := e + 1, hasCode := False\<rparr>"

definition split_word :: "string \<Rightarrow> split_state \<Rightarrow> split_state" where
  "split_word word s =
     (let s1 = s\<lparr>hasCode := True\<rparr>;
          s2 = (if word = ''ATOMIC'' \<and> prevWord s = ''BEGIN'' then s1\<lparr>atomicDepth := atomicDepth s + 1\<rparr>
                else if atomicDepth s > 0 \<and> word = ''CASE'' then s1\<lparr>caseDepth := caseDepth s + 1\<rparr>
                else if atomicDepth s > 0 \<and> word = ''END'' \<and> caseDepth s > 0 then s1\<lparr>caseDepth := caseDepth s - 1\<rparr>
                else if atomicDepth s > 0 \<and> word = ''END'' then s1\<lparr>atomicDepth := atomicDepth s - 1\<rparr>
                else s1)
      in s2\<lparr>prevWord := word\<rparr>)"

definition ident_before :: "string \<Rightarrow> nat \<Rightarrow> bool" where
  "ident_before body i \<longleftrightarrow> i \<noteq> 0 \<and> identByte (body ! (i - 1))"

definition escape_string :: "string \<Rightarrow> nat \<Rightarrow> bool" where
  "escape_string body i \<longleftrightarrow> i > 0 \<and> (body ! (i - 1) = CHR ''E'' \<or> body ! (i - 1) = CHR ''e'') \<and> (i < 2 \<or> \<not> identByte (body ! (i - 2)))"

definition after_dollar :: "string \<Rightarrow> nat \<Rightarrow> nat" where
  "after_dollar body i =
     (case dollarTag body i of
        None \<Rightarrow> i + 1
      | Some tag \<Rightarrow>
          (case index_str (drop (i + length tag) body) tag of
             None \<Rightarrow> length body
           | Some e \<Rightarrow> i + (length tag + e + length tag)))"

text \<open>One turn of the loop at position \<open>i\<close>: the next position and the state.\<close>

definition split_turn :: "string \<Rightarrow> nat \<Rightarrow> split_state \<Rightarrow> nat \<times> split_state" where
  "split_turn body i s =
     (let c = body ! i in
      if two_at body i (CHR ''-'') (CHR ''-'') then (skip_line body i, s)
      else if two_at body i (CHR ''/'') (CHR ''*'') then (skip_block body i 0, s)
      else if c = SQ then (skipQuoted body i SQ (escape_string body i), s\<lparr>hasCode := True\<rparr>)
      else if c = DQ then (skipQuoted body i DQ False, s\<lparr>hasCode := True\<rparr>)
      else if c = CHR ''$'' \<and> \<not> ident_before body i then (after_dollar body i, s\<lparr>hasCode := True\<rparr>)
      else if c = CHR ''('' then (i + 1, s\<lparr>hasCode := True, parenDepth := parenDepth s + 1\<rparr>)
      else if c = CHR '')'' then (i + 1, s\<lparr>hasCode := True, parenDepth := parenDepth s - 1\<rparr>)
      else if c = CHR '';'' then
        (i + 1, if atomicDepth s = 0 \<and> parenDepth s = 0 then split_flush body i s else s)
      else if identByte c \<and> \<not> ident_before body i then
        (word_end body i, split_word (to_upper (substr body i (word_end body i))) s)
      else (i + 1, if c \<noteq> SP \<and> c \<noteq> TAB \<and> c \<noteq> NL \<and> c \<noteq> CHR 0x0D then s\<lparr>hasCode := True\<rparr> else s))"

lemma skip_line_ge: "i \<le> skip_line body i"
  by (induction body i rule: skip_line.induct) (subst skip_line.simps, auto)

lemma skip_block_ge: "i \<le> skip_block body i depth"
  by (induction body i depth rule: skip_block.induct) (subst skip_block.simps, auto)

lemma skip_quoted_bounds: "min i (length body) \<le> skip_quoted body i q escapes \<and> skip_quoted body i q escapes \<le> length body"
proof (induction body i q escapes rule: skip_quoted.induct)
  case (1 body i q escapes)
  note eq = skip_quoted.simps [of body i q escapes]
  consider "\<not> i < length body" | "i < length body" "body ! i = BSL"
    | "i < length body" "body ! i \<noteq> BSL" "body ! i = q" "i + 1 < length body \<and> body ! (i + 1) = q"
    | "i < length body" "body ! i \<noteq> BSL" "body ! i = q" "\<not> (i + 1 < length body \<and> body ! (i + 1) = q)"
    | "i < length body" "body ! i \<noteq> BSL" "body ! i \<noteq> q"
    by blast
  then show ?case
  proof cases
    case 2
    then show ?thesis using 1(1) eq by (cases escapes) (auto simp: min_def split: if_splits)
  next
    case 3
    then show ?thesis using 1(2) eq by simp
  next
    case 4
    then have "skip_quoted body i q escapes = i + 1" using eq by (simp only: if_False if_True not_not simp_thms)
    then show ?thesis using 4 by simp
  next
    case 5
    then show ?thesis using 1(3) eq by simp
  qed (use eq in simp)
qed

lemma word_end_ge: "i \<le> word_end body i"
  by (induction body i rule: word_end.induct) (subst word_end.simps, auto)

lemma tag_loop_length: "tag_loop body i j = Some tag \<Longrightarrow> i < j \<Longrightarrow> 2 \<le> length tag"
proof (induction body i j rule: tag_loop.induct)
  case (1 body i j)
  show ?case
    using 1(1) 1(2) [unfolded tag_loop.simps [of body i j]] 1(3) by (auto simp: substr_def split: if_splits)
qed

lemma split_turn_later: "i < length body \<Longrightarrow> i < fst (split_turn body i s)"
proof -
  assume i: "i < length body"
  have line: "i < skip_line body i" if "two_at body i (CHR ''-'') (CHR ''-'')"
    using that skip_line_ge [of "i + 1" body] by (subst skip_line.simps) (auto simp: two_at_def)
  have block: "i < skip_block body i 0" if "two_at body i (CHR ''/'') (CHR ''*'')"
    using that skip_block_ge [of "i + 2" body 1] by (subst skip_block.simps) (auto simp: two_at_def)
  have quoted: "i < skipQuoted body i q e" for q e
    using i skip_quoted_bounds [of "i + 1" body q e] by (simp add: skipQuoted_def)
  have dollar: "i < after_dollar body i"
    using i tag_loop_length [of body i "i + 1"] by (auto simp: after_dollar_def dollarTag_def split: option.splits)
  have word: "i < word_end body i" if "identByte (body ! i)"
    using that i word_end_ge [of "i + 1" body] by (subst word_end.simps) auto
  show ?thesis
    using line block quoted dollar word by (simp add: split_turn_def Let_def)
qed

function split_loop :: "string \<Rightarrow> nat \<Rightarrow> split_state \<Rightarrow> split_state" where
  "split_loop body i s =
     (if i < length body then split_loop body (fst (split_turn body i s)) (snd (split_turn body i s)) else s)"
  by pat_completeness auto
termination
proof (relation "measure (\<lambda>(body, i, s). length body - i)")
  fix body :: string and i :: nat and s :: split_state
  assume "i < length body"
  from split_turn_later [OF this, of s] this
  show "((body, fst (split_turn body i s), snd (split_turn body i s)), body, i, s) \<in> measure (\<lambda>(body, i, s). length body - i)"
    by (simp add: case_prod_beta diff_less_mono2)
qed simp

declare split_loop.simps [simp del]

definition splitStatements :: "string \<Rightarrow> string list" where
  "splitStatements body =
     splitOut (split_flush body (length body) (split_loop body 0
       \<lparr>splitOut = [], pieceStart = 0, hasCode = False, atomicDepth = 0, caseDepth = 0, parenDepth = 0, prevWord = []\<rparr>))"

text \<open>\<^verbatim>\<open>execNoTx\<close>: the statements sent to the connection, and the error that stopped it; \<open>exec\<close> is the connection.\<close>

fun exec_all :: "('w \<Rightarrow> string \<Rightarrow> 'w \<times> 'e option) \<Rightarrow> string list \<Rightarrow> 'w \<Rightarrow> 'w \<times> 'e option" where
  "exec_all exec [] w = (w, None)"
| "exec_all exec (stmt # stmts) w =
     (case exec w stmt of (w', Some err) \<Rightarrow> (w', Some err) | (w', None) \<Rightarrow> exec_all exec stmts w')"

definition execNoTx :: "bool \<Rightarrow> ('w \<Rightarrow> string \<Rightarrow> 'w \<times> 'e option) \<Rightarrow> string \<Rightarrow> 'w \<Rightarrow> 'w \<times> 'e option" where
  "execNoTx sqlite exec body w = (if sqlite then exec w body else exec_all exec (splitStatements body) w)"

section \<open>Text at a position\<close>

definition text_at :: "string \<Rightarrow> nat \<Rightarrow> string \<Rightarrow> bool" where
  "text_at body i xs \<longleftrightarrow> take (length xs) (drop i body) = xs"

lemma text_at_simps [simp]:
  "text_at body i []"
  "text_at body i (x # xs) \<longleftrightarrow> i < length body \<and> body ! i = x \<and> text_at body (Suc i) xs"
proof -
  show "text_at body i []" by (simp add: text_at_def)
  show "text_at body i (x # xs) \<longleftrightarrow> i < length body \<and> body ! i = x \<and> text_at body (Suc i) xs"
  proof (cases "i < length body")
    case True
    then have "drop i body = body ! i # drop (Suc i) body" by (simp add: Cons_nth_drop_Suc)
    then show ?thesis using True by (simp add: text_at_def)
  qed (simp add: text_at_def)
qed

lemma text_at_append [simp]: "text_at body i (xs @ ys) \<longleftrightarrow> text_at body i xs \<and> text_at body (i + length xs) ys"
  by (induction xs arbitrary: i) auto

lemma text_at_drop: "text_at body i xs \<Longrightarrow> drop i body = xs @ drop (i + length xs) body"
  unfolding text_at_def by (metis add.commute append_take_drop_id drop_drop)

lemma text_at_substr: "text_at body i xs \<Longrightarrow> substr body i (i + length xs) = xs"
  by (simp add: text_at_def substr_def drop_take)

lemma text_at_self: "text_at body i xs \<Longrightarrow> i + length xs = length body \<Longrightarrow> drop i body = xs"
  by (drule text_at_drop) simp

section \<open>Tokens of a statement\<close>

datatype sql_tok =
    TWord string | TStr string | TName string | TDollar string string | TLine string | TBlock string
  | TOp char | TOpen | TClose | TSemi

definition dbl :: "char \<Rightarrow> string \<Rightarrow> string" where
  "dbl q v = concat (map (\<lambda>c. if c = q then [q, q] else [c]) v)"

definition delim :: "string \<Rightarrow> string" where
  "delim tag = CHR ''$'' # tag @ ''$''"

fun sql_text :: "sql_tok \<Rightarrow> string" where
  "sql_text (TWord w) = w"
| "sql_text (TStr v) = SQ # dbl SQ v @ [SQ]"
| "sql_text (TName v) = DQ # dbl DQ v @ [DQ]"
| "sql_text (TDollar tag v) = delim tag @ v @ delim tag"
| "sql_text (TLine t) = ''--'' @ t @ [NL]"
| "sql_text (TBlock t) = ''/*'' @ t @ ''*/''"
| "sql_text (TOp c) = [c]"
| "sql_text TOpen = ''(''"
| "sql_text TClose = '')''"
| "sql_text TSemi = '';''"

fun tok_ok :: "sql_tok \<Rightarrow> bool" where
  "tok_ok (TWord w) \<longleftrightarrow> w \<noteq> [] \<and> list_all identByte w \<and> hd w \<noteq> CHR ''$'' \<and> to_upper w \<noteq> ''ATOMIC''"
| "tok_ok (TDollar tag v) \<longleftrightarrow>
     (\<forall>j < length tag. tag_byte (tag ! j) (0 < j)) \<and> index_str (v @ delim tag) (delim tag) = Some (length v)"
| "tok_ok (TLine t) \<longleftrightarrow> NL \<notin> set t"
| "tok_ok (TBlock t) \<longleftrightarrow> CHR ''*'' \<notin> set t \<and> CHR ''/'' \<notin> set t"
| "tok_ok (TOp c) \<longleftrightarrow> \<not> identByte c \<and> c \<notin> {SQ, DQ, CHR ''('', CHR '')'', CHR '';'', SP, TAB, NL, CHR 0x0D}"
| "tok_ok _ \<longleftrightarrow> True"

fun is_comment :: "sql_tok \<Rightarrow> bool" where
  "is_comment (TLine t) = True"
| "is_comment (TBlock t) = True"
| "is_comment _ = False"

text \<open>Semicolons only inside parentheses, and all of these closed at the end.\<close>

fun parens_ok :: "nat \<Rightarrow> sql_tok list \<Rightarrow> bool" where
  "parens_ok d [] \<longleftrightarrow> d = 0"
| "parens_ok d (t # ts) \<longleftrightarrow>
     (case t of TOpen \<Rightarrow> parens_ok (d + 1) ts | TClose \<Rightarrow> parens_ok (d - 1) ts | TSemi \<Rightarrow> d > 0 \<and> parens_ok d ts
      | _ \<Rightarrow> parens_ok d ts)"

definition stmt_text :: "sql_tok list \<Rightarrow> string" where
  "stmt_text ts = concat (map (\<lambda>t. sql_text t @ [SP]) ts)"

section \<open>The scanners on tokens\<close>

lemma dbl_simps [simp]: "dbl q [] = []" "dbl q (x # v) = (if x = q then [q, q] else [x]) @ dbl q v"
  by (simp_all add: dbl_def)

lemma skip_quoted_dbl:
  "q \<noteq> BSL \<Longrightarrow> c \<noteq> q \<Longrightarrow> text_at body i (dbl q v @ [q, c]) \<Longrightarrow> skip_quoted body i q False = i + length (dbl q v) + 1"
proof (induction v arbitrary: i)
  case Nil
  then show ?case by (subst skip_quoted.simps) auto
next
  case (Cons x v)
  show ?case
  proof (cases "x = q")
    case True
    have "skip_quoted body (i + 2) q False = i + 2 + length (dbl q v) + 1"
      using Cons.prems True by (intro Cons.IH) simp_all
    then show ?thesis
      using Cons.prems True by (subst skip_quoted.simps) simp
  next
    case False
    have "skip_quoted body (i + 1) q False = i + 1 + length (dbl q v) + 1"
      using Cons.prems False by (intro Cons.IH) simp_all
    then show ?thesis
      using Cons.prems False by (subst skip_quoted.simps) simp
  qed
qed

lemma skip_line_text: "NL \<notin> set t \<Longrightarrow> text_at body i (t @ [NL]) \<Longrightarrow> skip_line body i = i + length t"
proof (induction t arbitrary: i)
  case Nil
  then show ?case by (subst skip_line.simps) simp
next
  case (Cons x t)
  then have "skip_line body (Suc i) = Suc i + length t" by (intro Cons.IH) simp_all
  then show ?case using Cons.prems by (subst skip_line.simps) auto
qed

lemma skip_block_text:
  "CHR ''*'' \<notin> set t \<Longrightarrow> CHR ''/'' \<notin> set t \<Longrightarrow> text_at body i (t @ ''*/'') \<Longrightarrow> skip_block body i 1 = i + length t + 2"
proof (induction t arbitrary: i)
  case Nil
  then show ?case by (subst skip_block.simps) (simp add: two_at_def)
next
  case (Cons x t)
  then have "skip_block body (Suc i) 1 = Suc i + length t + 2" by (intro Cons.IH) simp_all
  then show ?case using Cons.prems by (subst skip_block.simps) (auto simp: two_at_def)
qed

lemma word_end_text:
  "list_all identByte w \<Longrightarrow> \<not> identByte c \<Longrightarrow> text_at body i (w @ [c]) \<Longrightarrow> word_end body i = i + length w"
proof (induction w arbitrary: i)
  case Nil
  then show ?case by (subst word_end.simps) simp
next
  case (Cons x w)
  then have "word_end body (Suc i) = Suc i + length w" by (intro Cons.IH) simp_all
  then show ?case using Cons.prems by (subst word_end.simps) simp
qed

lemma tag_loop_text:
  assumes "\<forall>j < length tag. tag_byte (tag ! j) (0 < j)" "text_at body i (delim tag)" "k \<le> length tag"
  shows "tag_loop body i (i + 1 + k) = Some (delim tag)"
  using assms(3)
proof (induction "length tag - k" arbitrary: k)
  case 0
  then have k: "k = length tag" by simp
  have end_: "i + 1 + k < length body" "body ! (i + 1 + k) = CHR ''$''"
    using assms(2) k by (simp_all add: delim_def)
  have "substr body i (i + length (delim tag)) = delim tag" using assms(2) by (rule text_at_substr)
  then have "substr body i (i + 1 + k + 1) = delim tag" using k by (simp add: delim_def)
  then show ?case using end_ by (subst tag_loop.simps) simp
next
  case (Suc n)
  then have k: "k < length tag" by simp
  have at: "text_at body (i + 1) tag" using assms(2) by (simp add: delim_def)
  then have "take (length tag) (drop (i + 1) body) = tag" by (simp add: text_at_def)
  then have "tag ! k = drop (i + 1) body ! k" "k < length (drop (i + 1) body)"
    using k by (metis nth_take, metis length_take min_less_iff_conj)
  then have b: "body ! (i + 1 + k) = tag ! k" "i + 1 + k < length body" by auto
  have t: "tag_byte (tag ! k) (0 < k)" using assms(1) k by blast
  then have "tag ! k \<noteq> CHR ''$''" by (auto simp: tag_byte_def byte_class_defs)
  moreover have "tag_loop body i (i + 1 + (k + 1)) = Some (delim tag)"
    using Suc.hyps(2) k by (intro Suc.hyps(1)) simp_all
  ultimately show ?case using b t by (subst tag_loop.simps) simp
qed

lemma index_str_fits: "index_str s p = Some n \<Longrightarrow> n + length p \<le> length s"
  by (induction s arbitrary: n) (auto simp: has_prefix_def split: if_splits dest: arg_cong [of _ _ length])

lemma index_str_append: "index_str s p = Some n \<Longrightarrow> index_str (s @ r) p = Some n"
proof (induction s arbitrary: n)
  case Nil
  then show ?case by (cases r) (auto simp: has_prefix_def split: if_splits)
next
  case (Cons c s)
  have "length p \<le> length (c # s)" using index_str_fits [OF Cons.prems] by simp
  then have "has_prefix ((c # s) @ r) p = has_prefix (c # s) p" unfolding has_prefix_def take_append by simp
  then show ?case using Cons by (auto split: if_splits)
qed

section \<open>One token\<close>

fun tok_step :: "sql_tok \<Rightarrow> split_state \<Rightarrow> split_state" where
  "tok_step (TWord w) s = split_word (to_upper w) s"
| "tok_step (TLine t) s = s"
| "tok_step (TBlock t) s = s"
| "tok_step TOpen s = s\<lparr>hasCode := True, parenDepth := parenDepth s + 1\<rparr>"
| "tok_step TClose s = s\<lparr>hasCode := True, parenDepth := parenDepth s - 1\<rparr>"
| "tok_step TSemi s = s"
| "tok_step _ s = s\<lparr>hasCode := True\<rparr>"

lemma loop_turn:
  "i < length body \<Longrightarrow> split_turn body i s = (j, s') \<Longrightarrow> split_loop body i s = split_loop body j s'"
  by (subst split_loop.simps) simp

lemma not_ident: "\<not> identByte SP" "\<not> identByte SQ" "\<not> identByte DQ" "\<not> identByte (CHR ''('')" "\<not> identByte (CHR '')'')"
  "\<not> identByte (CHR '';'')" "\<not> identByte NL" "\<not> identByte (CHR ''-'')" "\<not> identByte (CHR ''/'')" "identByte (CHR ''$'')"
  by (simp_all add: identByte_def byte_class_defs)

lemma turn_space: "i < length body \<Longrightarrow> body ! i = SP \<or> body ! i = NL \<Longrightarrow> split_turn body i s = (i + 1, s)"
  by (auto simp: split_turn_def Let_def two_at_def not_ident)

lemma turn_token:
  assumes ok: "tok_ok t" and at: "text_at body i (sql_text t @ [SP])" and before: "\<not> ident_before body i"
    and semi: "t = TSemi \<Longrightarrow> 0 < parenDepth s"
  shows "split_turn body i s = (i + length (sql_text t) - (case t of TLine _ \<Rightarrow> 1 | _ \<Rightarrow> 0), tok_step t s)"
proof (cases t)
  case (TWord w)
  then obtain c w' where w: "w = c # w'" using ok by (cases w) auto
  have c: "identByte c" "c \<noteq> CHR ''$''" "body ! i = c" using ok at TWord w by simp_all
  have e: "word_end body i = i + length w" using word_end_text [of w SP body i] ok at TWord not_ident by simp
  have "substr body i (i + length w) = w" using text_at_substr at TWord by simp
  moreover have "c \<notin> {SQ, DQ, CHR ''('', CHR '')'', CHR '';'', CHR ''-'', CHR ''/''}" using c(1) not_ident by auto
  ultimately show ?thesis
    using TWord c e before by (simp add: split_turn_def Let_def two_at_def)
next
  case (TStr v)
  have "skip_quoted body (i + 1) SQ False = i + 1 + length (dbl SQ v) + 1"
    by (rule skip_quoted_dbl [of _ SP]) (use at TStr in simp_all)
  moreover have "\<not> escape_string body i"
    using before by (auto simp: escape_string_def ident_before_def identByte_def byte_class_defs)
  ultimately show ?thesis using TStr at by (simp add: split_turn_def Let_def two_at_def skipQuoted_def)
next
  case (TName v)
  have "skip_quoted body (i + 1) DQ False = i + 1 + length (dbl DQ v) + 1"
    by (rule skip_quoted_dbl [of _ SP]) (use at TName in simp_all)
  then show ?thesis using TName at by (simp add: split_turn_def Let_def two_at_def skipQuoted_def)
next
  case (TDollar tag v)
  have tag: "dollarTag body i = Some (delim tag)"
    using tag_loop_text [of tag body i 0] ok at TDollar by (simp add: dollarTag_def)
  have "drop (i + length (delim tag)) body = (v @ delim tag) @ drop (i + length (delim tag) + length (v @ delim tag)) body"
    by (rule text_at_drop) (use at TDollar in simp)
  then have "index_str (drop (i + length (delim tag)) body) (delim tag) = Some (length v)"
    using index_str_append ok TDollar by (metis tok_ok.simps(2))
  then have "after_dollar body i = i + length (sql_text t)" using tag TDollar by (simp add: after_dollar_def)
  then show ?thesis using TDollar at before by (simp add: split_turn_def Let_def two_at_def delim_def)
next
  case (TLine u)
  have "skip_line body (i + 2) = i + 2 + length u"
    by (rule skip_line_text) (use ok at TLine in simp_all)
  then have "skip_line body i = i + 2 + length u"
    using at TLine by (subst skip_line.simps, subst skip_line.simps) (simp add: numeral_2_eq_2)
  then show ?thesis using TLine at by (simp add: split_turn_def Let_def two_at_def)
next
  case (TBlock u)
  have "skip_block body (i + 2) 1 = i + 2 + length u + 2"
    by (rule skip_block_text) (use ok at TBlock in simp_all)
  then have "skip_block body i 0 = i + 2 + length u + 2"
    using at TBlock by (subst skip_block.simps) (simp add: two_at_def)
  then show ?thesis using TBlock at by (simp add: split_turn_def Let_def two_at_def)
next
  case (TOp c)
  then show ?thesis using ok at before by (auto simp: split_turn_def Let_def two_at_def not_ident)
next
  case TOpen
  then show ?thesis using at by (simp add: split_turn_def Let_def two_at_def)
next
  case TClose
  then show ?thesis using at by (simp add: split_turn_def Let_def two_at_def)
next
  case TSemi
  then show ?thesis using at semi by (simp add: split_turn_def Let_def two_at_def)
qed

lemma loop_token:
  assumes "tok_ok t" "text_at body i (sql_text t @ [SP])" "\<not> ident_before body i" "t = TSemi \<Longrightarrow> 0 < parenDepth s"
  shows "split_loop body i s = split_loop body (i + length (sql_text t) + 1) (tok_step t s)"
proof -
  define e where "e = i + length (sql_text t)"
  have sp: "e < length body" "body ! e = SP" using assms(2) by (simp_all add: e_def)
  have last: "split_loop body e s' = split_loop body (e + 1) s'" for s'
    using loop_turn [OF sp(1) turn_space] sp by simp
  have i: "i < length body" using sp(1) by (simp add: e_def)
  show ?thesis
  proof (cases "\<exists>u. t = TLine u")
    case True
    then obtain u where u: "t = TLine u" by blast
    have nl: "e - 1 < length body" "body ! (e - 1) = NL" "0 < e" using assms(2) u by (simp_all add: e_def)
    have "split_loop body i s = split_loop body (e - 1) (tok_step t s)"
      using loop_turn [OF i] turn_token [OF assms] u by (simp add: e_def)
    also have "\<dots> = split_loop body e (tok_step t s)"
      using loop_turn [OF nl(1) turn_space] nl by simp
    finally show ?thesis using last by (simp add: e_def)
  next
    case False
    then have "split_loop body i s = split_loop body e (tok_step t s)"
      using loop_turn [OF i] turn_token [OF assms] by (cases t) (simp_all add: e_def)
    then show ?thesis using last by (simp add: e_def)
  qed
qed

section \<open>One statement\<close>

definition depth_step :: "sql_tok \<Rightarrow> nat \<Rightarrow> nat" where
  "depth_step t d = (case t of TOpen \<Rightarrow> d + 1 | TClose \<Rightarrow> d - 1 | _ \<Rightarrow> d)"

lemma parens_ok_Cons: "parens_ok d (t # ts) \<longleftrightarrow> (t = TSemi \<longrightarrow> 0 < d) \<and> parens_ok (depth_step t d) ts"
  by (cases t) (simp_all add: depth_step_def)

lemma tok_step_frame:
  assumes "tok_ok t" "atomicDepth s = 0"
  shows "splitOut (tok_step t s) = splitOut s" "pieceStart (tok_step t s) = pieceStart s" "atomicDepth (tok_step t s) = 0"
    "parenDepth (tok_step t s) = depth_step t (parenDepth s)"
    "t \<noteq> TSemi \<Longrightarrow> hasCode (tok_step t s) = (hasCode s \<or> \<not> is_comment t)" "t = TSemi \<Longrightarrow> hasCode (tok_step t s) = hasCode s"
  using assms by (cases t; simp add: split_word_def Let_def depth_step_def)+

lemma loop_statement:
  assumes "list_all tok_ok ts" "parens_ok (parenDepth s) ts" "text_at body i (stmt_text ts)" "\<not> ident_before body i" "atomicDepth s = 0"
    "0 < parenDepth s \<Longrightarrow> hasCode s"
  shows "\<exists>s'. split_loop body i s = split_loop body (i + length (stmt_text ts)) s' \<and> splitOut s' = splitOut s
    \<and> pieceStart s' = pieceStart s \<and> atomicDepth s' = 0 \<and> parenDepth s' = 0
    \<and> hasCode s' = (hasCode s \<or> (\<exists>t \<in> set ts. \<not> is_comment t)) \<and> \<not> ident_before body (i + length (stmt_text ts))"
  using assms
proof (induction ts arbitrary: i s)
  case Nil
  then show ?case by (auto simp: stmt_text_def)
next
  case (Cons t ts)
  have st: "stmt_text (t # ts) = sql_text t @ SP # stmt_text ts" by (simp add: stmt_text_def)
  have t: "tok_ok t" "text_at body i (sql_text t @ [SP])" using Cons.prems(1,3) st by simp_all
  have semi: "t = TSemi \<Longrightarrow> 0 < parenDepth s" using Cons.prems(2) parens_ok_Cons by blast
  define s1 where "s1 = tok_step t s"
  define j where "j = i + length (sql_text t) + 1"
  have step: "split_loop body i s = split_loop body j s1"
    using loop_token [OF t Cons.prems(4) semi] by (simp add: s1_def j_def)
  note fr = tok_step_frame [OF t(1) Cons.prems(5), folded s1_def]
  have code: "hasCode s1 = (hasCode s \<or> \<not> is_comment t)"
    using fr(5,6) semi Cons.prems(6) by (cases "t = TSemi") auto
  have "\<not> ident_before body j" using t(2) not_ident(1) by (simp add: ident_before_def j_def)
  moreover have "0 < parenDepth s1 \<Longrightarrow> hasCode s1"
    using fr(4) code Cons.prems(6) by (cases t) (auto simp: depth_step_def)
  ultimately obtain s' where s': "split_loop body j s1 = split_loop body (j + length (stmt_text ts)) s'" "splitOut s' = splitOut s1"
      "pieceStart s' = pieceStart s1" "atomicDepth s' = 0" "parenDepth s' = 0"
      "hasCode s' = (hasCode s1 \<or> (\<exists>t \<in> set ts. \<not> is_comment t))" "\<not> ident_before body (j + length (stmt_text ts))"
    using Cons.IH [of s1 j] Cons.prems(1,2,3) st fr(3,4) parens_ok_Cons by (auto simp: j_def)
  show ?case
    by (rule exI [of _ s']) (use step s' fr(1,2) code in \<open>auto simp: st j_def add.assoc\<close>)
qed

section \<open>Statements\<close>

definition has_code :: "sql_tok list \<Rightarrow> bool" where
  "has_code ts \<longleftrightarrow> (\<exists>t \<in> set ts. \<not> is_comment t)"

definition stmt_ok :: "sql_tok list \<Rightarrow> bool" where
  "stmt_ok ts \<longleftrightarrow> list_all tok_ok ts \<and> parens_ok 0 ts"

definition texts :: "sql_tok list list \<Rightarrow> string list" where
  "texts stmts = map (\<lambda>ts. trim_space (stmt_text ts)) (filter has_code stmts)"

lemma loop_statements:
  assumes "\<forall>ts \<in> set stmts. stmt_ok ts" "stmts \<noteq> []" "text_at body i (join '';'' (map stmt_text stmts))"
    "i + length (join '';'' (map stmt_text stmts)) = length body" "\<not> ident_before body i"
    "pieceStart s = i" "\<not> hasCode s" "atomicDepth s = 0" "parenDepth s = 0"
  shows "splitOut (split_flush body (length body) (split_loop body i s)) = splitOut s @ texts stmts"
  using assms
proof (induction stmts arbitrary: i s)
  case (Cons ts stmts)
  define e where "e = i + length (stmt_text ts)"
  have ts: "list_all tok_ok ts" "parens_ok (parenDepth s) ts" using Cons.prems(1,9) by (simp_all add: stmt_ok_def)
  have at: "text_at body i (stmt_text ts)" using Cons.prems(3) by (cases stmts) simp_all
  obtain s1 where s1: "split_loop body i s = split_loop body e s1" "splitOut s1 = splitOut s" "pieceStart s1 = i"
      "atomicDepth s1 = 0" "parenDepth s1 = 0" "hasCode s1 = has_code ts" "\<not> ident_before body e"
    using loop_statement [OF ts at Cons.prems(5,8)] Cons.prems(6,7,9) by (auto simp: e_def has_code_def)
  have piece: "substr body i e = stmt_text ts" using text_at_substr [OF at] by (simp add: e_def)
  define s2 where "s2 = split_flush body e s1"
  have s2: "splitOut s2 = splitOut s @ texts [ts]" "pieceStart s2 = e + 1" "\<not> hasCode s2" "atomicDepth s2 = 0" "parenDepth s2 = 0"
    using s1 piece by (auto simp: s2_def split_flush_def texts_def)
  show ?case
  proof (cases stmts)
    case Nil
    then have "e = length body" using Cons.prems(4) by (simp add: e_def)
    then show ?thesis using s1(1) s2(1) Nil by (simp add: s2_def split_loop.simps [of body "length body"])
  next
    case (Cons ts' rest)
    have join: "join '';'' (map stmt_text (ts # stmts)) = stmt_text ts @ CHR '';'' # join '';'' (map stmt_text stmts)"
      using Cons by simp
    have semi: "e < length body" "body ! e = CHR '';''" using Cons.prems(3) unfolding join by (simp_all add: e_def)
    have "split_turn body e s1 = (e + 1, s2)"
      using semi s1(4,5) by (simp add: split_turn_def Let_def two_at_def s2_def)
    then have "split_loop body i s = split_loop body (e + 1) s2" using s1(1) loop_turn semi(1) by metis
    moreover have "splitOut (split_flush body (length body) (split_loop body (e + 1) s2)) = splitOut s2 @ texts stmts"
      using Cons.prems(1,3,4) Cons semi s2 not_ident(6) unfolding join
      by (intro Cons.IH) (simp_all add: e_def ident_before_def)
    ultimately show ?thesis using s2(1) by (simp add: texts_def)
  qed
qed simp

text \<open>C16. A migration body written as statements joined by semicolons, each a sequence of words, quoted strings and names, dollar-quoted
  bodies, comments, operators and balanced parentheses, is split into exactly those statements, trimmed, in order: no semicolon inside
  a string, a quoted name, a dollar-quoted body, a comment or parentheses ends a statement, and a piece of comments only is dropped.
\<close>

theorem splitStatements_roundtrip:
  assumes "stmts \<noteq> []" "\<forall>ts \<in> set stmts. stmt_ok ts"
  shows "splitStatements (join '';'' (map stmt_text stmts)) = map (\<lambda>ts. trim_space (stmt_text ts)) (filter has_code stmts)"
proof -
  let ?body = "join '';'' (map stmt_text stmts)"
  have "text_at ?body 0 ?body" by (simp add: text_at_def)
  then have "splitStatements ?body = [] @ texts stmts"
    unfolding splitStatements_def using assms by (subst loop_statements) (simp_all add: ident_before_def)
  then show ?thesis by (simp add: texts_def)
qed

definition example_stmts :: "sql_tok list list" where
  "example_stmts =
     [[TWord ''SELECT'', TStr [CHR ''a'', CHR '';'', SQ, CHR ''b'']],
      [TLine ''done; next''],
      [TWord ''DO'', TDollar ''f'' ''x; y''],
      [TWord ''DO'', TOpen, TWord ''a'', TSemi, TWord ''b'', TClose]]"

lemma example_stmts_ok: "list_all stmt_ok example_stmts"
  by code_simp

theorem splitStatements_roundtrip_witness:
  "splitStatements (join '';'' (map stmt_text example_stmts)) = map (\<lambda>ts. trim_space (stmt_text ts)) (filter has_code example_stmts)
   \<and> length (filter has_code example_stmts) = 3"
  using splitStatements_roundtrip [of example_stmts] example_stmts_ok by (simp add: example_stmts_def has_code_def list_all_iff)

lemma exec_all_stops:
  "exec_all exec stmts w = (w', Some err) \<Longrightarrow>
   \<exists>sent stmt rest w1. stmts = sent @ stmt # rest \<and> exec_all exec sent w = (w1, None) \<and> exec w1 stmt = (w', Some err)"
proof (induction stmts arbitrary: w)
  case (Cons stmt stmts)
  obtain w1 r where r: "exec w stmt = (w1, r)" by fastforce
  show ?case
  proof (cases r)
    case None
    then have "exec_all exec stmts w1 = (w', Some err)" using Cons.prems r by simp
    from Cons.IH [OF this] obtain sent st rest w2
      where "stmts = sent @ st # rest" "exec_all exec sent w1 = (w2, None)" "exec w2 st = (w', Some err)"
      by blast
    then have "stmt # stmts = (stmt # sent) @ st # rest \<and> exec_all exec (stmt # sent) w = (w2, None) \<and> exec w2 st = (w', Some err)"
      using r None by simp
    then show ?thesis by blast
  next
    case (Some e)
    then have "stmt # stmts = [] @ stmt # stmts \<and> exec_all exec [] w = (w, None) \<and> exec w stmt = (w', Some err)"
      using Cons.prems r by simp
    then show ?thesis by blast
  qed
qed simp

end
