(* ===== verification/GoStrconv.thy ===== *)
theory GoStrconv
  imports GoPrelude GoInt
begin

text \<open>
  Decimal integers as text: \<^verbatim>\<open>strconv.Atoi\<close>, which accepts a sign and decimal digits whose value fits 64 bits, and
  \<^verbatim>\<open>strconv.Itoa\<close> of a length, which is \<^const>\<open>show_nat\<close>; cutting text at a separator byte; the
  lines of a text file.
\<close>

definition Atoi :: "string \<Rightarrow> int option" where
  "Atoi s =
     (let neg = has_prefix s ''-'';
          ds = (if neg \<or> has_prefix s ''+'' then tl s else s);
          v = (if neg then - int (read_nat ds) else int (read_nat ds))
      in if ds = [] \<or> \<not> list_all is_digit ds \<or> v < minInt64 \<or> maxInt64 < v then None else Some v)"

text \<open>\<^verbatim>\<open>strings.Cut\<close> at a one-byte separator.\<close>

definition cut_at :: "'a \<Rightarrow> 'a list \<Rightarrow> ('a list \<times> 'a list) option" where
  "cut_at d s = (if d \<in> set s then Some (takeWhile (\<lambda>c. c \<noteq> d) s, tl (dropWhile (\<lambda>c. c \<noteq> d) s)) else None)"

text \<open>\<^verbatim>\<open>strconv.ParseUint\<close> of decimal text at 64 bits, and \<^verbatim>\<open>strings.TrimPrefix\<close>.\<close>

definition ParseUint :: "string \<Rightarrow> nat option" where
  "ParseUint s = (if s = [] \<or> \<not> list_all is_digit s \<or> 2 ^ 64 \<le> read_nat s then None else Some (read_nat s))"

definition trim_prefix :: "string \<Rightarrow> string \<Rightarrow> string" where
  "trim_prefix p s = (if has_prefix s p then drop (length p) s else s)"

definition bom :: string where "bom = unit_bytes [239, 187, 191]"

text \<open>The lines of \<^verbatim>\<open>bufio.Scanner\<close>: split at newlines, one carriage return dropped, no empty last line; a line of
  \<open>limit\<close> bytes or more ends the scan with an error.\<close>

definition drop_cr :: "string \<Rightarrow> string" where
  "drop_cr l = (if l \<noteq> [] \<and> last l = CHR 0x0D then butlast l else l)"

definition raw_lines :: "string \<Rightarrow> string list" where
  "raw_lines s = (let ls = split_on NL s in if last ls = [] then butlast ls else ls)"

definition lines_upto :: "nat \<Rightarrow> string \<Rightarrow> string list \<times> bool" where
  "lines_upto limit s =
     (let ls = raw_lines s; ok = takeWhile (\<lambda>l. length l < limit) ls
      in (map drop_cr ok, length ok < length ls))"

lemma cut_at_append: "d \<notin> set p \<Longrightarrow> cut_at d (p @ d # q) = Some (p, q)"
proof -
  assume p: "d \<notin> set p"
  then have "\<And>c. c \<in> set p \<Longrightarrow> c \<noteq> d" by auto
  with p show ?thesis by (simp add: cut_at_def takeWhile_append2 dropWhile_append2)
qed

lemma index_str_char:
  "c \<notin> set p \<Longrightarrow> index_str (p @ c # q) [c] = Some (length p)" "c \<notin> set p \<Longrightarrow> index_str p [c] = None"
  by (induction p) (auto simp: has_prefix_def)

lemma show_nat_char: "\<not> is_digit c \<Longrightarrow> c \<notin> set (show_nat n)"
  using show_nat_digits by blast

lemma not_digit [simp]: "\<not> is_digit CHR ''-''" "\<not> is_digit CHR ''/''" "\<not> is_digit CHR ''+''" "\<not> is_digit CHR '',''" "\<not> is_digit CHR ''*''"
  by (simp_all add: is_digit_def)

lemma Atoi_show_nat:
  assumes "int n \<le> maxInt64"
  shows "Atoi (show_nat n) = Some (int n)"
proof -
  obtain c cs where s: "show_nat n = c # cs" by (cases "show_nat n") auto
  then have "is_digit c" using show_nat_digits [of c n] by simp
  then have "\<not> has_prefix (show_nat n) ''-''" "\<not> has_prefix (show_nat n) ''+''"
    unfolding s by (auto simp: has_prefix_def)
  moreover have "list_all is_digit (show_nat n)" using show_nat_digits by (simp add: list_all_iff)
  ultimately show ?thesis using assms by (simp add: Atoi_def Let_def minInt64_def)
qed

lemma ParseUint_show_nat: "n < 2 ^ 64 \<Longrightarrow> ParseUint (show_nat n) = Some n"
  using show_nat_digits by (auto simp: ParseUint_def list_all_iff)

end
