(* ===== verification/Migration.thy ===== *)
theory Migration
  imports SqlIdent GoStrconv "HOL-Library.List_Lexorder" "HOL-Library.Char_ord" "HOL-Library.Product_Lexorder" "HOL-Library.Multiset"
begin

text \<open>
  Migrations, their groups, registration and the file format of \<^verbatim>\<open>core/migrate/migrate.go\<close>. A registered list is kept in
  (Version, Group) order with one migration per group and version.
\<close>

section \<open>Migrations and groups\<close>

record Migration =
  mVersion :: nat
  mName :: string
  mUp :: string
  mDown :: string
  mGroup :: string
  mNoTransaction :: bool

datatype Dialect = DialectPostgres | DialectSQLite

record Migrator =
  migrations :: "Migration list"
  tableName :: string
  dialect :: Dialect

definition New :: "string \<Rightarrow> Dialect \<Rightarrow> Migrator" where
  "New name d = \<lparr>migrations = [], tableName = (if name = [] then ''_migrations'' else name), dialect = d\<rparr>"

datatype migration_error =
    ReservedGroup | InvalidGroup string | UnknownGroup string | EmptyUp nat string | DuplicateVersion nat string
  | BadVersion | UnknownDirective string | MalformedDirective string | ReadError | NoVersion | NoUpSection | OrphanedSQL

definition groupNameRe :: "string \<Rightarrow> bool" where
  "groupNameRe s \<longleftrightarrow> s \<noteq> [] \<and> length s \<le> 64
     \<and> list_all (\<lambda>c. is_upper c \<or> is_lower c \<or> is_digit c \<or> c = CHR ''_'' \<or> c = CHR ''-'') s"

definition defaultGroupAlias :: string where "defaultGroupAlias = ''default''"

definition validateGroupName :: "string \<Rightarrow> migration_error option" where
  "validateGroupName name =
     (if name = [] then None
      else if name = defaultGroupAlias then Some ReservedGroup
      else if \<not> groupNameRe name then Some (InvalidGroup name)
      else None)"

definition normalizeGroupSelection :: "string list \<Rightarrow> string list" where
  "normalizeGroupSelection groups = map (\<lambda>g. if g = defaultGroupAlias then [] else g) groups"

definition groupDisplayName :: "string \<Rightarrow> string" where
  "groupDisplayName g = (if g = [] then ''default'' else g)"

fun selection_error :: "string list \<Rightarrow> bool \<Rightarrow> string list \<Rightarrow> migration_error option" where
  "selection_error registered mustBeRegistered [] = None"
| "selection_error registered mustBeRegistered (g # groups) =
     (case validateGroupName g of
        Some e \<Rightarrow> Some e
      | None \<Rightarrow>
          if mustBeRegistered \<and> g \<notin> set registered then Some (UnknownGroup (groupDisplayName g))
          else selection_error registered mustBeRegistered groups)"

definition validateGroupSelection :: "Migrator \<Rightarrow> string list \<Rightarrow> bool \<Rightarrow> migration_error option" where
  "validateGroupSelection m groups mustBeRegistered = selection_error (map mGroup (migrations m)) mustBeRegistered groups"

definition mig_order :: "Migration \<Rightarrow> nat \<times> string" where
  "mig_order mig = (mVersion mig, mGroup mig)"

definition RegisterMigration :: "Migrator \<Rightarrow> Migration \<Rightarrow> migration_error + Migrator" where
  "RegisterMigration m mig =
     (case validateGroupName (mGroup mig) of
        Some e \<Rightarrow> Inl e
      | None \<Rightarrow>
          if trim_space (mUp mig) = [] then Inl (EmptyUp (mVersion mig) (groupDisplayName (mGroup mig)))
          else if list_ex (\<lambda>e. mGroup e = mGroup mig \<and> mVersion e = mVersion mig) (migrations m)
          then Inl (DuplicateVersion (mVersion mig) (groupDisplayName (mGroup mig)))
          else Inr (m\<lparr>migrations := sort_key mig_order (migrations m @ [mig])\<rparr>))"

section \<open>The file format\<close>

definition isNearMissDirective :: "string \<Rightarrow> bool" where
  "isNearMissDirective trimmed \<longleftrightarrow>
     has_prefix trimmed ''--''
     \<and> (let rest = dropWhile (\<lambda>c. c = SP \<or> c = TAB) (drop 2 trimmed)
        in 8 \<le> length rest \<and> asciicase_Lower (take 8 rest) = ''+migrate'')"

definition IsDirectiveLine :: "string \<Rightarrow> bool" where
  "IsDirectiveLine line \<longleftrightarrow>
     (let trimmed = trim_space line in has_prefix trimmed ''-- +migrate'' \<or> isNearMissDirective trimmed)"

datatype mig_section = NoSection | InUp | InDown

record mig_parse =
  pVersion :: nat
  pName :: string
  pNoTx :: bool
  pGroup :: string
  pUp :: string
  pDown :: string
  pSection :: mig_section
  pUpOpened :: bool
  pOrphaned :: bool

definition cut_prefix :: "string \<Rightarrow> string \<Rightarrow> string option" where
  "cut_prefix s p = (if has_prefix s p then Some (drop (length p) s) else None)"

definition parse_directive :: "string \<Rightarrow> string \<Rightarrow> mig_parse \<Rightarrow> migration_error + mig_parse" where
  "parse_directive trimmed directive p =
     (case cut_prefix directive ''Version'' of
        Some after \<Rightarrow> (case ParseUint (trim_space after) of None \<Rightarrow> Inl BadVersion | Some v \<Rightarrow> Inr (p\<lparr>pVersion := v\<rparr>))
      | None \<Rightarrow>
      (case cut_prefix directive ''Name'' of
        Some after \<Rightarrow> Inr (p\<lparr>pName := trim_space after\<rparr>)
      | None \<Rightarrow>
      (case cut_prefix directive ''Group'' of
        Some after \<Rightarrow>
          (case validateGroupName (trim_space after) of Some e \<Rightarrow> Inl e | None \<Rightarrow> Inr (p\<lparr>pGroup := trim_space after\<rparr>))
      | None \<Rightarrow>
          if directive = ''Up'' then Inr (p\<lparr>pSection := InUp, pUpOpened := True\<rparr>)
          else if directive = ''Down'' then Inr (p\<lparr>pSection := InDown\<rparr>)
          else if directive = ''NoTransaction'' then Inr (p\<lparr>pNoTx := True\<rparr>)
          else Inl (UnknownDirective trimmed))))"

definition add_line :: "string \<Rightarrow> string \<Rightarrow> string" where
  "add_line sql line = (if sql \<noteq> [] then sql @ [NL] else sql) @ line"

definition mig_line :: "bool \<Rightarrow> string \<Rightarrow> mig_parse \<Rightarrow> migration_error + mig_parse" where
  "mig_line first line0 p =
     (let line = (if first then trim_prefix bom line0 else line0); trimmed = trim_space line in
      case cut_prefix trimmed ''-- +migrate'' of
        Some after \<Rightarrow> parse_directive trimmed (trim_space after) p
      | None \<Rightarrow>
          if isNearMissDirective trimmed then Inl (MalformedDirective trimmed)
          else Inr (case pSection p of
                      InUp \<Rightarrow> p\<lparr>pUp := add_line (pUp p) line\<rparr>
                    | InDown \<Rightarrow> p\<lparr>pDown := add_line (pDown p) line\<rparr>
                    | NoSection \<Rightarrow> if trimmed \<noteq> [] \<and> \<not> has_prefix trimmed ''--'' then p\<lparr>pOrphaned := True\<rparr> else p))"

fun mig_lines :: "bool \<Rightarrow> string list \<Rightarrow> mig_parse \<Rightarrow> migration_error + mig_parse" where
  "mig_lines first [] p = Inr p"
| "mig_lines first (l # ls) p = (case mig_line first l p of Inl e \<Rightarrow> Inl e | Inr p' \<Rightarrow> mig_lines False ls p')"

definition maxScanTokenSize :: nat where "maxScanTokenSize = 65536"

definition parse_start :: mig_parse where
  "parse_start = \<lparr>pVersion = 0, pName = [], pNoTx = False, pGroup = [], pUp = [], pDown = [], pSection = NoSection,
     pUpOpened = False, pOrphaned = False\<rparr>"

text \<open>\<open>parseMigration s broken\<close> reads a file holding \<open>s\<close> whose reading ends in an error when \<open>broken\<close>.\<close>

definition parse_finish :: "mig_parse \<Rightarrow> migration_error + Migration" where
  "parse_finish p =
     (if pVersion p = 0 then Inl NoVersion
      else if \<not> pUpOpened p then Inl NoUpSection
      else if trim_space (pUp p) = [] \<and> pOrphaned p then Inl OrphanedSQL
      else Inr \<lparr>mVersion = pVersion p, mName = pName p, mUp = trim_space (pUp p), mDown = trim_space (pDown p),
                mGroup = pGroup p, mNoTransaction = pNoTx p\<rparr>)"

definition parseMigration :: "string \<Rightarrow> bool \<Rightarrow> migration_error + Migration" where
  "parseMigration s broken =
     (case lines_upto maxScanTokenSize s of (ls, long) \<Rightarrow>
      case mig_lines True ls parse_start of
        Inl e \<Rightarrow> Inl e
      | Inr p \<Rightarrow> if long \<or> broken then Inl ReadError else parse_finish p)"

definition RegisterFromReader :: "Migrator \<Rightarrow> string \<Rightarrow> bool \<Rightarrow> migration_error + Migrator" where
  "RegisterFromReader m s broken = (case parseMigration s broken of Inl e \<Rightarrow> Inl e | Inr mig \<Rightarrow> RegisterMigration m mig)"

section \<open>Registration\<close>

definition registered_ok :: "Migration list \<Rightarrow> bool" where
  "registered_ok ms \<longleftrightarrow> sorted (map mig_order ms) \<and> distinct (map mig_order ms)
     \<and> (\<forall>mig \<in> set ms. validateGroupName (mGroup mig) = None \<and> trim_space (mUp mig) \<noteq> [])"

lemma Register_Inr:
  "RegisterMigration m mig = Inr m' \<longleftrightarrow> validateGroupName (mGroup mig) = None \<and> trim_space (mUp mig) \<noteq> []
     \<and> mig_order mig \<notin> mig_order ` set (migrations m)
     \<and> m' = m\<lparr>migrations := sort_key mig_order (migrations m @ [mig])\<rparr>"
  by (auto simp: RegisterMigration_def list_ex_iff mig_order_def image_iff split: option.splits) metis

lemma Register_ok:
  assumes "registered_ok (migrations m)" "RegisterMigration m mig = Inr m'"
  shows "registered_ok (migrations m')" "set (migrations m') = insert mig (set (migrations m))"
proof -
  let ?ms = "sort_key mig_order (migrations m @ [mig])"
  have "mset ?ms = mset (migrations m @ [mig])" by simp
  then have mset: "mset (map mig_order ?ms) = mset (map mig_order (migrations m @ [mig]))" by (simp only: mset_map)
  have "distinct (map mig_order (migrations m @ [mig]))"
    using assms by (auto simp: registered_ok_def Register_Inr)
  then have "distinct (map mig_order ?ms)" using mset mset_eq_imp_distinct_iff by blast
  then show "registered_ok (migrations m')" "set (migrations m') = insert mig (set (migrations m))"
    using assms by (auto simp: registered_ok_def Register_Inr)
qed

section \<open>A migration written as a file\<close>

definition directive_line :: "string \<Rightarrow> string" where
  "directive_line d = ''-- +migrate '' @ d"

definition head_lines :: "Migration \<Rightarrow> string list" where
  "head_lines mig =
     directive_line (''Version '' @ show_nat (mVersion mig))
     # (if mName mig = [] then [] else [directive_line (''Name '' @ mName mig)])
     @ (if mGroup mig = [] then [] else [directive_line (''Group '' @ mGroup mig)])
     @ (if mNoTransaction mig then [directive_line ''NoTransaction''] else [])"

definition file_lines :: "Migration \<Rightarrow> string list" where
  "file_lines mig =
     head_lines mig @ directive_line ''Up'' # split_on NL (mUp mig) @ directive_line ''Down'' # split_on NL (mDown mig)"

definition migration_text :: "Migration \<Rightarrow> string" where
  "migration_text mig = concat (map (\<lambda>l. l @ [NL]) (file_lines mig))"

definition body_ok :: "string \<Rightarrow> bool" where
  "body_ok sql \<longleftrightarrow> trim_space sql = sql \<and> list_all (\<lambda>l. \<not> IsDirectiveLine l) (split_on NL sql)"

definition line_ok :: "string \<Rightarrow> bool" where
  "line_ok l \<longleftrightarrow> length l < maxScanTokenSize \<and> drop_cr l = l"

definition file_ok :: "Migration \<Rightarrow> bool" where
  "file_ok mig \<longleftrightarrow> 0 < mVersion mig \<and> mVersion mig < 2 ^ 64 \<and> validateGroupName (mGroup mig) = None
     \<and> (mName mig = [] \<or> graphic (hd (mName mig)) \<and> graphic (last (mName mig)) \<and> NL \<notin> set (mName mig))
     \<and> mUp mig \<noteq> [] \<and> body_ok (mUp mig) \<and> body_ok (mDown mig)
     \<and> list_all line_ok (file_lines mig)"

lemma trim_space_SP: "trim_space (SP # s) = trim_space s"
  using utf8_units_ascii [of SP s] space_unit_ascii [of SP] by (simp add: trim_space_def)

lemma trim_space_Nil [simp]: "trim_space [] = []"
  by (simp add: trim_space_def)

lemma trim_space_directive: "d \<noteq> [] \<Longrightarrow> graphic (last d) \<Longrightarrow> trim_space (directive_line d) = directive_line d"
  by (rule trim_space_id) (auto simp: directive_line_def graphic_def)

lemma mig_line_directive:
  assumes "d \<noteq> []" "graphic (hd d)" "graphic (last d)"
  shows "mig_line first (directive_line d) p = parse_directive (directive_line d) d p"
proof -
  have "trim_prefix bom (directive_line d) = directive_line d"
    by (simp add: trim_prefix_def has_prefix_def bom_def unit_bytes_def directive_line_def)
  moreover have "cut_prefix (directive_line d) ''-- +migrate'' = Some (SP # d)"
    by (simp add: cut_prefix_def directive_line_def has_prefix_def)
  ultimately show ?thesis
    using assms by (simp add: mig_line_def Let_def trim_space_directive trim_space_SP trim_space_id)
qed

lemma cut_prefix_simps [simp]:
  "cut_prefix s [] = Some s" "cut_prefix [] (c # p) = None"
  "cut_prefix (x # s) (c # p) = (if x = c then cut_prefix s p else None)"
  by (simp_all add: cut_prefix_def has_prefix_def)

lemma version_line:
  assumes "v < 2 ^ 64"
  shows "mig_line first (directive_line (''Version '' @ show_nat v)) p = Inr (p\<lparr>pVersion := v\<rparr>)"
proof -
  have ne: "show_nat v \<noteq> []" by simp
  have g: "graphic c" if "c \<in> set (show_nat v)" for c
    using show_nat_digits [OF that] by (auto simp: graphic_def is_digit_def)
  have last: "graphic (last (show_nat v))" "graphic (hd (show_nat v))" using ne g by (simp_all add: last_in_set hd_in_set)
  then have "trim_space (show_nat v) = show_nat v" by (intro trim_space_id) simp_all
  then show ?thesis
    using last assms by (subst mig_line_directive) (auto simp: graphic_def parse_directive_def trim_space_SP ParseUint_show_nat)
qed

lemma name_line:
  "n \<noteq> [] \<Longrightarrow> graphic (hd n) \<Longrightarrow> graphic (last n) \<Longrightarrow> mig_line first (directive_line (''Name '' @ n)) p = Inr (p\<lparr>pName := n\<rparr>)"
  by (subst mig_line_directive) (auto simp: graphic_def parse_directive_def trim_space_SP trim_space_id)

lemma group_graphic:
  assumes "validateGroupName g = None" "c \<in> set g"
  shows "graphic c"
proof -
  have "groupNameRe g" using assms by (auto simp: validateGroupName_def split: if_splits)
  then have "is_upper c \<or> is_lower c \<or> is_digit c \<or> c = CHR ''_'' \<or> c = CHR ''-''"
    using assms(2) by (simp add: groupNameRe_def list_all_iff)
  then show ?thesis by (elim disjE) (auto simp: graphic_def byte_class_defs)
qed

lemma group_line:
  assumes "validateGroupName g = None" "g \<noteq> []"
  shows "mig_line first (directive_line (''Group '' @ g)) p = Inr (p\<lparr>pGroup := g\<rparr>)"
proof -
  have last: "graphic (last g)" "graphic (hd g)" using assms group_graphic by simp_all
  then have "trim_space g = g" using assms by (intro trim_space_id) simp_all
  then show ?thesis
    using last assms by (subst mig_line_directive) (auto simp: graphic_def parse_directive_def trim_space_SP)
qed

lemma word_line:
  "mig_line first (directive_line ''Up'') p = Inr (p\<lparr>pSection := InUp, pUpOpened := True\<rparr>)"
  "mig_line first (directive_line ''Down'') p = Inr (p\<lparr>pSection := InDown\<rparr>)"
  "mig_line first (directive_line ''NoTransaction'') p = Inr (p\<lparr>pNoTx := True\<rparr>)"
  by (subst mig_line_directive, simp_all add: graphic_def parse_directive_def)+

lemma mig_lines_append:
  "mig_lines first (xs @ ys) p = (case mig_lines first xs p of Inl e \<Rightarrow> Inl e | Inr p' \<Rightarrow> mig_lines (first \<and> xs = []) ys p')"
proof (induction xs arbitrary: first p)
  case (Cons x xs)
  show ?case using Cons [of False] by (simp split: sum.splits)
qed simp

lemma head_parse:
  assumes "file_ok mig"
  shows "mig_lines True (head_lines mig) p
    = Inr (p\<lparr>pVersion := mVersion mig, pName := (if mName mig = [] then pName p else mName mig),
             pGroup := (if mGroup mig = [] then pGroup p else mGroup mig), pNoTx := (mNoTransaction mig \<or> pNoTx p)\<rparr>)"
  using assms unfolding head_lines_def file_ok_def
  by (auto simp: version_line [simplified] name_line [simplified] group_line [simplified] word_line mig_lines_append)

lemma body_line:
  "\<not> IsDirectiveLine l \<Longrightarrow> pSection p \<noteq> NoSection \<Longrightarrow>
   mig_line False l p = Inr (if pSection p = InUp then p\<lparr>pUp := add_line (pUp p) l\<rparr> else p\<lparr>pDown := add_line (pDown p) l\<rparr>)"
  by (cases "pSection p") (auto simp: mig_line_def IsDirectiveLine_def Let_def cut_prefix_def)

lemma body_parse:
  assumes "\<forall>l \<in> set ls. \<not> IsDirectiveLine l"
  shows "pSection p = InUp \<Longrightarrow> mig_lines False ls p = Inr (p\<lparr>pUp := foldl add_line (pUp p) ls\<rparr>)"
    and "pSection p = InDown \<Longrightarrow> mig_lines False ls p = Inr (p\<lparr>pDown := foldl add_line (pDown p) ls\<rparr>)"
  using assms by (induction ls arbitrary: p) (auto simp: body_line)

lemma foldl_add_line: "sql \<noteq> [] \<Longrightarrow> foldl add_line sql ls = join [NL] (sql # ls)"
proof (induction ls arbitrary: sql)
  case (Cons l ls)
  have "add_line sql l \<noteq> []" using Cons.prems by (simp add: add_line_def)
  from Cons.IH [OF this] show ?case using Cons.prems by (cases ls) (simp_all add: add_line_def)
qed simp

lemma foldl_add_lines:
  assumes "trim_space sql = sql"
  shows "foldl add_line [] (split_on NL sql) = sql"
proof (cases sql)
  case Nil
  then show ?thesis by (simp add: add_line_def)
next
  case (Cons c cs)
  have "c \<noteq> NL"
  proof
    assume c: "c = NL"
    have "trim_space sql = trim_space cs"
      using utf8_units_ascii [of c cs] space_unit_ascii [of c] c Cons by (simp add: trim_space_def)
    moreover have "length (trim_space cs) \<le> length cs" for cs
    proof -
      have l: "length (concat (dropWhile P us)) \<le> length (concat us)" for P and us :: "string list"
        by (induction us) auto
      have "length (trim_space cs) = length (concat (dropWhile is_space_unit (rev (dropWhile is_space_unit (utf8_units cs)))))"
        by (simp add: trim_space_def length_concat rev_map [symmetric])
      also have "\<dots> \<le> length (concat (rev (dropWhile is_space_unit (utf8_units cs))))" by (rule l)
      also have "\<dots> = length (concat (dropWhile is_space_unit (utf8_units cs)))" by (simp add: length_concat rev_map [symmetric])
      also have "\<dots> \<le> length (concat (utf8_units cs))" by (rule l)
      finally show ?thesis by simp
    qed
    from this [of cs] calculation show False using assms Cons by simp
  qed
  then obtain l ls where ls: "split_on NL sql = l # ls" "l \<noteq> []"
    using Cons by (cases "split_on NL cs") auto
  have "foldl add_line [] (l # ls) = foldl add_line l ls" by (simp add: add_line_def)
  then have "foldl add_line [] (split_on NL sql) = join [NL] (split_on NL sql)"
    using foldl_add_line [OF ls(2)] ls(1) by simp
  then show ?thesis by simp
qed

lemma raw_lines_text:
  assumes "\<forall>l \<in> set ls. NL \<notin> set l"
  shows "raw_lines (concat (map (\<lambda>l. l @ [NL]) ls)) = ls"
proof -
  have "split_on NL (concat (map (\<lambda>l. l @ [NL]) ls)) = ls @ [[]]"
    using assms by (induction ls) (simp_all add: split_on_append_sep)
  then show ?thesis by (simp add: raw_lines_def)
qed

lemma file_lines_no_NL:
  assumes "file_ok mig" "l \<in> set (file_lines mig)"
  shows "NL \<notin> set l"
proof -
  have "NL \<notin> set (show_nat n)" for n by (rule show_nat_char) (simp add: is_digit_def)
  moreover have "NL \<notin> set (mGroup mig)"
    using group_graphic [of "mGroup mig" NL] assms(1) by (auto simp: file_ok_def graphic_def)
  moreover have "NL \<notin> set (mName mig)" using assms(1) by (auto simp: file_ok_def)
  ultimately show ?thesis
    using assms(2) by (auto simp: file_lines_def head_lines_def directive_line_def dest: split_on_parts split: if_splits)
qed

lemma lines_migration_text: "file_ok mig \<Longrightarrow> lines_upto maxScanTokenSize (migration_text mig) = (file_lines mig, False)"
proof -
  assume ok: "file_ok mig"
  have raw: "raw_lines (migration_text mig) = file_lines mig"
    unfolding migration_text_def using file_lines_no_NL [OF ok] by (intro raw_lines_text) blast
  have "takeWhile (\<lambda>l. length l < maxScanTokenSize) (file_lines mig) = file_lines mig"
    using ok by (simp add: file_ok_def line_ok_def list_all_iff)
  moreover have "map drop_cr (file_lines mig) = file_lines mig"
    using ok by (simp add: file_ok_def line_ok_def list_all_iff map_idI)
  ultimately show ?thesis by (simp add: lines_upto_def raw Let_def del: takeWhile_eq_all_conv)
qed

text \<open>A migration written in the file format, with the header directives and the Up and Down sections, parses back to itself:
  version, name, group, flag and both bodies byte for byte, as long as the bodies are trimmed, hold no line the parser reads as a
  directive and every line fits the scanner.\<close>

lemma parseMigration_text:
  assumes "file_ok mig"
  shows "parseMigration (migration_text mig) False = Inr mig"
proof -
  have up: "\<forall>l \<in> set (split_on NL (mUp mig)). \<not> IsDirectiveLine l" "trim_space (mUp mig) = mUp mig" "mUp mig \<noteq> []"
    and down: "\<forall>l \<in> set (split_on NL (mDown mig)). \<not> IsDirectiveLine l" "trim_space (mDown mig) = mDown mig" and v: "0 < mVersion mig"
    using assms by (auto simp: file_ok_def body_ok_def list_all_iff)
  have head: "head_lines mig \<noteq> []" by (simp add: head_lines_def)
  have "mig_lines True (file_lines mig) parse_start
    = Inr \<lparr>pVersion = mVersion mig, pName = mName mig, pNoTx = mNoTransaction mig, pGroup = mGroup mig, pUp = mUp mig,
           pDown = mDown mig, pSection = InDown, pUpOpened = True, pOrphaned = False\<rparr>"
    by (simp add: file_lines_def mig_lines_append head_parse [OF assms] head word_line body_parse(1) [OF up(1)]
        body_parse(2) [OF down(1)] foldl_add_lines up(2) down(2) parse_start_def)
  then show ?thesis
    using up(2,3) down(2) v by (simp add: parseMigration_def lines_migration_text [OF assms] parse_finish_def)
qed

definition example_migration :: Migration where
  "example_migration = \<lparr>mVersion = 7, mName = ''add users'', mUp = ''CREATE TABLE users(id INT);'' @ NL # ''-- +2'',
     mDown = ''DROP TABLE users;'', mGroup = ''core'', mNoTransaction = True\<rparr>"

lemma example_migration_ok: "file_ok example_migration"
proof -
  have trims: "trim_space (mUp example_migration) = mUp example_migration" "trim_space (mDown example_migration) = mDown example_migration"
    by (rule trim_space_id; simp add: example_migration_def graphic_def)+
  have "\<not> IsDirectiveLine l" if "l \<in> set (split_on NL (mUp example_migration) @ split_on NL (mDown example_migration))" for l
  proof -
    have "trim_space l = l"
      by (rule trim_space_id) (use that in \<open>auto simp: example_migration_def graphic_def\<close>)
    then show ?thesis
      using that by (auto simp: example_migration_def IsDirectiveLine_def isNearMissDirective_def has_prefix_def)
  qed
  then have bodies: "body_ok (mUp example_migration)" "body_ok (mDown example_migration)"
    using trims by (simp_all add: body_ok_def list_all_iff)
  have "list_all line_ok (file_lines example_migration)"
    by (simp add: file_lines_def head_lines_def directive_line_def example_migration_def line_ok_def maxScanTokenSize_def drop_cr_def show_nat.simps [of 7] char_of_def)
  then show ?thesis
    using bodies by (simp add: file_ok_def) (simp add: example_migration_def validateGroupName_def defaultGroupAlias_def
      groupNameRe_def byte_class_defs graphic_def)
qed

lemma parseMigration_text_witness:
  "parseMigration (migration_text example_migration) False = Inr example_migration"
  using parseMigration_text [OF example_migration_ok] .

text \<open>However migrations are registered, by value or from files, the registered list stays in (Version, Group) order with one
  migration per group and version, valid group names and no blank Up; a refused registration changes nothing, an accepted one
  adds exactly its migration.\<close>

lemma Register_invariant:
  assumes "registered_ok (migrations m)"
  shows "case RegisterMigration m mig of
      Inl e \<Rightarrow> validateGroupName (mGroup mig) \<noteq> None \<or> trim_space (mUp mig) = [] \<or> mig_order mig \<in> mig_order ` set (migrations m)
    | Inr m' \<Rightarrow> registered_ok (migrations m') \<and> set (migrations m') = insert mig (set (migrations m))
        \<and> mig_order mig \<notin> mig_order ` set (migrations m) \<and> tableName m' = tableName m \<and> dialect m' = dialect m"
proof (cases "RegisterMigration m mig")
  case (Inl e)
  have "(\<exists>e \<in> set (migrations m). mGroup e = mGroup mig \<and> mVersion e = mVersion mig) \<Longrightarrow> mig_order mig \<in> mig_order ` set (migrations m)"
    unfolding mig_order_def by (metis (no_types, lifting) image_eqI)
  with Inl show ?thesis by (auto simp: RegisterMigration_def list_ex_iff split: option.splits if_splits)
next
  case (Inr m')
  then have "mig_order mig \<notin> mig_order ` set (migrations m)" "tableName m' = tableName m" "dialect m' = dialect m"
    by (simp_all add: Register_Inr)
  then show ?thesis using Register_ok [OF assms Inr] Inr by simp
qed

lemma New_registered_ok: "registered_ok (migrations (New name d))"
  by (simp add: New_def registered_ok_def)

end
