(* ===== verification/MigrateRunner.thy ===== *)
theory MigrateRunner
  imports Migration SqlSplit
begin

text \<open>
  The migration runner of \<^verbatim>\<open>core/migrate/runner.go\<close> and the checks of \<^verbatim>\<open>integrity.go\<close>: Up, Down, Force and
  Status over a tracking table and the schema the migrations change. Every database call may fail before or after its effect;
  a crash is every later call failing before it.
\<close>

section \<open>The database\<close>

record MigrationRecord =
  rGroup :: string
  rVersion :: nat
  rName :: string
  rAppliedAt :: int
  rChecksum :: string
  rDirty :: bool

text \<open>The tracking table: whether it exists, has a \<^verbatim>\<open>group_name\<close> column and a (group_name, version) key, and its rows. The schema
  \<open>'s\<close> is all the migrations' own statements act on. \<open>tCalls\<close> counts the calls made.\<close>

record 's track_db =
  tExists :: bool
  tGroupColumn :: bool
  tComposite :: bool
  tRows :: "MigrationRecord list"
  tSchema :: 's
  tCalls :: nat

datatype fault = Runs | FailsBefore | FailsAfter

text \<open>The surroundings of a run: the fate of each call, the clock, the way a statement changes the schema and whether it fails
  (it may have changed part of it), whether the lease is lost at a call, whether a connection is had, whether the SQLite lease
  is taken, the answers to the polls of the Postgres lock until the context ends (\<open>None\<close> a failing poll), whether Postgres
  holds a table under the case-kept name, and the name of the primary key constraint.\<close>

record 's mig_env =
  fate :: "nat \<Rightarrow> fault"
  clockAt :: "nat \<Rightarrow> int"
  execSQL :: "string \<Rightarrow> 's \<Rightarrow> bool \<times> 's"
  leaseLost :: "nat \<Rightarrow> bool"
  connOK :: bool
  leaseTaken :: bool
  lockPolls :: "bool option list"
  caseKept :: bool
  keyName :: string

datatype run_error =
    Refused migration_error | BadTableName | CaseKeptTable | LockFailed | CallFailed | ErrDirty | ErrNoDown | ChecksumMismatch nat string
  | LeaseLost | NotRegistered nat string | TooManyGroups

type_synonym ('s, 'a) mig_prog = "'s track_db \<Rightarrow> (run_error + 'a) \<times> 's track_db"

definition give :: "'a \<Rightarrow> ('s, 'a) mig_prog" where
  "give a db = (Inr a, db)"

definition stop :: "run_error \<Rightarrow> ('s, 'a) mig_prog" where
  "stop e db = (Inl e, db)"

definition andThen :: "('s, 'a) mig_prog \<Rightarrow> ('a \<Rightarrow> ('s, 'b) mig_prog) \<Rightarrow> ('s, 'b) mig_prog" where
  "andThen p f db = (case p db of (Inl e, db') \<Rightarrow> (Inl e, db') | (Inr a, db') \<Rightarrow> f a db')"

text \<open>A statement: \<open>f\<close> gives whether the database accepts it, and its effect.\<close>

definition exec_call :: "'s mig_env \<Rightarrow> ('s track_db \<Rightarrow> bool \<times> 's track_db) \<Rightarrow> ('s, unit) mig_prog" where
  "exec_call env f db =
     (let db1 = db\<lparr>tCalls := tCalls db + 1\<rparr>; (ok, db2) = f db1 in
      case fate env (tCalls db) of
        Runs \<Rightarrow> (if ok then Inr () else Inl CallFailed, db2)
      | FailsBefore \<Rightarrow> (Inl CallFailed, db1)
      | FailsAfter \<Rightarrow> (Inl CallFailed, db2))"

definition query_call :: "'s mig_env \<Rightarrow> ('s track_db \<Rightarrow> 'a) \<Rightarrow> ('s, 'a) mig_prog" where
  "query_call env g db =
     (if fate env (tCalls db) = Runs then Inr (g db) else Inl CallFailed, db\<lparr>tCalls := tCalls db + 1\<rparr>)"

text \<open>A transaction: the statements of \<open>p\<close> take effect when it is committed and not otherwise.\<close>

definition undo :: "'s track_db \<Rightarrow> 's track_db \<Rightarrow> 's track_db" where
  "undo db0 db = db0\<lparr>tCalls := tCalls db\<rparr>"

definition in_tx :: "'s mig_env \<Rightarrow> ('s, unit) mig_prog \<Rightarrow> ('s, unit) mig_prog" where
  "in_tx env p =
     andThen (query_call env (\<lambda>_. ())) (\<lambda>_ db0.
       case p db0 of
         (Inl e, db) \<Rightarrow> (Inl e, undo db0 db)
       | (Inr _, db) \<Rightarrow>
           (let db1 = db\<lparr>tCalls := tCalls db + 1\<rparr> in
            case fate env (tCalls db) of
              Runs \<Rightarrow> (Inr (), db1)
            | FailsBefore \<Rightarrow> (Inl CallFailed, undo db0 db1)
            | FailsAfter \<Rightarrow> (Inl CallFailed, db1)))"

section \<open>Group selection\<close>

definition hasNonDefaultGroup :: "Migrator \<Rightarrow> bool" where
  "hasNonDefaultGroup m \<longleftrightarrow> list_ex (\<lambda>mig. mGroup mig \<noteq> []) (migrations m)"

definition groupAware :: "Migrator \<Rightarrow> string list \<Rightarrow> bool" where
  "groupAware m groups \<longleftrightarrow> hasNonDefaultGroup m \<or> list_ex (\<lambda>g. g \<noteq> []) groups"

definition groupSelected :: "string \<Rightarrow> string list \<Rightarrow> bool" where
  "groupSelected g groups \<longleftrightarrow> groups = [] \<or> g \<in> set groups"

definition selectedMigrations :: "Migrator \<Rightarrow> string list \<Rightarrow> Migration list" where
  "selectedMigrations m groups =
     (if groups = [] then migrations m else filter (\<lambda>mig. groupSelected (mGroup mig) groups) (migrations m))"

definition qtable :: "Migrator \<Rightarrow> run_error + string" where
  "qtable m = (case SafeIdent (tableName m) of Inl _ \<Rightarrow> Inl BadTableName | Inr safe \<Rightarrow> Inr (QuoteFolded safe))"

definition sqliteTableParts :: "Migrator \<Rightarrow> string \<times> string" where
  "sqliteTableParts m = (case cut_last CHR ''.'' (tableName m) of Some (a, b) \<Rightarrow> (a, b) | None \<Rightarrow> ([], tableName m))"

section \<open>The tracking table\<close>

definition RefuseCaseKept :: "Migrator \<Rightarrow> 's mig_env \<Rightarrow> ('s, unit) mig_prog" where
  "RefuseCaseKept m env =
     (if QuoteIdent (tableName m) = QuoteFolded (tableName m) then give ()
      else andThen (query_call env (\<lambda>_. caseKept env)) (\<lambda>kept. if kept then stop CaseKeptTable else give ()))"

definition create_table :: "bool \<Rightarrow> 's track_db \<Rightarrow> bool \<times> 's track_db" where
  "create_table ga db =
     (True, if tExists db then db else db\<lparr>tExists := True, tGroupColumn := ga, tComposite := ga, tRows := []\<rparr>)"

definition ensureTrackingColumns :: "'s mig_env \<Rightarrow> bool \<Rightarrow> ('s, unit) mig_prog" where
  "ensureTrackingColumns env ga =
     andThen (exec_call env (\<lambda>db. (True, db))) (\<lambda>_.
     andThen (exec_call env (\<lambda>db. (True, db))) (\<lambda>_.
     if ga then exec_call env (\<lambda>db. (True, db\<lparr>tGroupColumn := True\<rparr>)) else give ()))"

definition createMigrationsTable :: "Migrator \<Rightarrow> 's mig_env \<Rightarrow> bool \<Rightarrow> ('s, unit) mig_prog" where
  "createMigrationsTable m env ga =
     andThen (if dialect m = DialectPostgres then RefuseCaseKept m env else give ()) (\<lambda>_.
     andThen (exec_call env (create_table ga)) (\<lambda>_.
     ensureTrackingColumns env ga))"

definition set_composite :: "'s track_db \<Rightarrow> bool \<times> 's track_db" where
  "set_composite db = (True, db\<lparr>tComposite := True\<rparr>)"

definition upgradePKPostgres :: "'s mig_env \<Rightarrow> ('s, unit) mig_prog" where
  "upgradePKPostgres env =
     andThen (query_call env (\<lambda>_. keyName env)) (\<lambda>cname.
       case SafeIdent cname of Inl _ \<Rightarrow> stop BadTableName | Inr _ \<Rightarrow> exec_call env set_composite)"

definition rebuildTableSQLite :: "Migrator \<Rightarrow> 's mig_env \<Rightarrow> ('s, unit) mig_prog" where
  "rebuildTableSQLite m env =
     (let (schema, base) = sqliteTableParts m;
          tmpName = (if schema \<noteq> [] then schema @ ''.'' else []) @ base @ ''__grp_upg''
      in case SafeIdent tmpName of
           Inl _ \<Rightarrow> stop BadTableName
         | Inr _ \<Rightarrow>
             in_tx env
               (andThen (exec_call env (\<lambda>db. (True, db))) (\<lambda>_.
                andThen (exec_call env (\<lambda>db. (True, db))) (\<lambda>_.
                andThen (exec_call env (\<lambda>db. (True, db))) (\<lambda>_.
                exec_call env set_composite)))))"

definition ensureCompositeKey :: "Migrator \<Rightarrow> 's mig_env \<Rightarrow> ('s, unit) mig_prog" where
  "ensureCompositeKey m env =
     andThen (query_call env tComposite) (\<lambda>composite.
       if composite then give ()
       else if dialect m = DialectPostgres then upgradePKPostgres env
       else rebuildTableSQLite m env)"

definition hasGroupColumn :: "'s mig_env \<Rightarrow> ('s, bool) mig_prog" where
  "hasGroupColumn env = query_call env tGroupColumn"

definition rec_key :: "MigrationRecord \<Rightarrow> string \<times> nat" where
  "rec_key r = (rGroup r, rVersion r)"

definition mig_key :: "Migration \<Rightarrow> string \<times> nat" where
  "mig_key mig = (mGroup mig, mVersion mig)"

type_synonym applied = "((string \<times> nat) \<times> MigrationRecord) list"

definition scan_record :: "bool \<Rightarrow> MigrationRecord \<Rightarrow> MigrationRecord" where
  "scan_record ga r = (if ga then r else r\<lparr>rGroup := []\<rparr>)"

definition applied_of :: "bool \<Rightarrow> MigrationRecord list \<Rightarrow> applied" where
  "applied_of ga rs = fold (\<lambda>r. AList.update (rec_key r) r) (map (scan_record ga) rs) []"

definition appliedVersions :: "'s mig_env \<Rightarrow> bool \<Rightarrow> ('s, applied) mig_prog" where
  "appliedVersions env ga = query_call env (\<lambda>db. applied_of ga (tRows db))"

section \<open>Integrity\<close>

definition checksumOf :: "Migration \<Rightarrow> string" where
  "checksumOf mig = hex_encode (sha256 (mUp mig))"

text \<open>The dirty row that is reported depends on the order of a Go map, so the error names none.\<close>

definition own_group :: "Migrator \<Rightarrow> string \<Rightarrow> bool" where
  "own_group m g \<longleftrightarrow> g = [] \<or> g \<in> mGroup ` set (migrations m)"

definition drifted :: "applied \<Rightarrow> Migration \<Rightarrow> bool" where
  "drifted ap mig \<longleftrightarrow>
     (case map_of ap (mig_key mig) of None \<Rightarrow> False | Some r \<Rightarrow> rChecksum r \<noteq> [] \<and> checksumOf mig \<noteq> rChecksum r)"

definition checkIntegrity :: "Migrator \<Rightarrow> applied \<Rightarrow> run_error option" where
  "checkIntegrity m ap =
     (if list_ex (\<lambda>(_, r). own_group m (rGroup r) \<and> rDirty r) ap then Some ErrDirty
      else case find (drifted ap) (migrations m) of
             Some mig \<Rightarrow> Some (ChecksumMismatch (mVersion mig) (mName mig))
           | None \<Rightarrow> None)"

definition pendingMigrations :: "Migration list \<Rightarrow> applied \<Rightarrow> Migration list" where
  "pendingMigrations registered ap = sort_key mig_order (filter (\<lambda>mig. map_of ap (mig_key mig) = None) registered)"

section \<open>Up\<close>

definition row_is :: "bool \<Rightarrow> Migration \<Rightarrow> MigrationRecord \<Rightarrow> bool" where
  "row_is ga mig r \<longleftrightarrow> rVersion r = mVersion mig \<and> (ga \<longrightarrow> rGroup r = mGroup mig)"

definition insert_row :: "'s mig_env \<Rightarrow> bool \<Rightarrow> Migration \<Rightarrow> bool \<Rightarrow> 's track_db \<Rightarrow> bool \<times> 's track_db" where
  "insert_row env ga mig dirty db =
     (let r = \<lparr>rGroup = (if ga then mGroup mig else []), rVersion = mVersion mig, rName = mName mig,
               rAppliedAt = clockAt env (tCalls db), rChecksum = checksumOf mig, rDirty = dirty\<rparr>
      in if list_ex (\<lambda>e. rVersion e = rVersion r \<and> (tComposite db \<longrightarrow> rGroup e = rGroup r)) (tRows db) then (False, db)
         else (True, db\<lparr>tRows := tRows db @ [r]\<rparr>))"

definition set_dirty :: "bool \<Rightarrow> Migration \<Rightarrow> bool \<Rightarrow> 's track_db \<Rightarrow> bool \<times> 's track_db" where
  "set_dirty ga mig d db = (True, db\<lparr>tRows := map (\<lambda>r. if row_is ga mig r then r\<lparr>rDirty := d\<rparr> else r) (tRows db)\<rparr>)"

definition delete_row :: "bool \<Rightarrow> Migration \<Rightarrow> 's track_db \<Rightarrow> bool \<times> 's track_db" where
  "delete_row ga mig db = (True, db\<lparr>tRows := filter (\<lambda>r. \<not> row_is ga mig r) (tRows db)\<rparr>)"

definition run_sql :: "'s mig_env \<Rightarrow> string \<Rightarrow> 's track_db \<Rightarrow> bool \<times> 's track_db" where
  "run_sql env sql db = (case execSQL env sql (tSchema db) of (ok, s) \<Rightarrow> (ok, db\<lparr>tSchema := s\<rparr>))"

text \<open>\<^verbatim>\<open>execNoTx\<close> on the connection of the run.\<close>

definition run_noTx :: "Migrator \<Rightarrow> 's mig_env \<Rightarrow> string \<Rightarrow> ('s, unit) mig_prog" where
  "run_noTx m env body db =
     (case execNoTx (dialect m = DialectSQLite)
             (\<lambda>db stmt. case exec_call env (run_sql env stmt) db of (Inl e, db') \<Rightarrow> (db', Some e) | (Inr _, db') \<Rightarrow> (db', None)) body db of
        (db', Some e) \<Rightarrow> (Inl e, db')
      | (db', None) \<Rightarrow> (Inr (), db'))"

definition migrationRecorded :: "'s mig_env \<Rightarrow> Migration \<Rightarrow> bool \<Rightarrow> ('s, bool option) mig_prog" where
  "migrationRecorded env mig ga = query_call env (\<lambda>db. map_option rDirty (find (row_is ga mig) (tRows db)))"

definition runMigrationUpNoTx :: "Migrator \<Rightarrow> 's mig_env \<Rightarrow> Migration \<Rightarrow> bool \<Rightarrow> ('s, unit) mig_prog" where
  "runMigrationUpNoTx m env mig ga =
     andThen (exec_call env (insert_row env ga mig True)) (\<lambda>_.
     andThen (run_noTx m env (mUp mig)) (\<lambda>_.
     exec_call env (set_dirty ga mig False)))"

definition apply_up :: "Migrator \<Rightarrow> 's mig_env \<Rightarrow> Migration \<Rightarrow> bool \<Rightarrow> ('s, unit) mig_prog" where
  "apply_up m env mig ga =
     (if mNoTransaction mig then runMigrationUpNoTx m env mig ga
      else in_tx env (andThen (exec_call env (run_sql env (mUp mig))) (\<lambda>_. exec_call env (insert_row env ga mig False))))"

definition runMigrationUp :: "Migrator \<Rightarrow> 's mig_env \<Rightarrow> Migration \<Rightarrow> bool \<Rightarrow> ('s, unit) mig_prog" where
  "runMigrationUp m env mig ga =
     (if dialect m = DialectSQLite then
        andThen (migrationRecorded env mig ga) (\<lambda>recorded.
          case recorded of
            Some dirty \<Rightarrow> if dirty then stop ErrDirty else give ()
          | None \<Rightarrow> apply_up m env mig ga)
      else apply_up m env mig ga)"

text \<open>The renewal of the SQLite lease before each migration: a lost lease stops the run, any other failure does not.\<close>

definition keep :: "Migrator \<Rightarrow> 's mig_env \<Rightarrow> ('s, unit) mig_prog" where
  "keep m env db =
     (if dialect m = DialectSQLite then
        (if leaseLost env (tCalls db) then Inl LeaseLost else Inr (), db\<lparr>tCalls := tCalls db + 1\<rparr>)
      else (Inr (), db))"

fun up_loop :: "Migrator \<Rightarrow> 's mig_env \<Rightarrow> bool \<Rightarrow> Migration list \<Rightarrow> ('s, unit) mig_prog" where
  "up_loop m env ga [] = give ()"
| "up_loop m env ga (mig # migs) =
     andThen (keep m env) (\<lambda>_. andThen (runMigrationUp m env mig ga) (\<lambda>_. up_loop m env ga migs))"

text \<open>The opening of Up, Down and Force: the table, its key and its shape.\<close>

definition open_table :: "Migrator \<Rightarrow> 's mig_env \<Rightarrow> bool \<Rightarrow> ('s, bool) mig_prog" where
  "open_table m env ga =
     andThen (createMigrationsTable m env ga) (\<lambda>_.
     andThen (if ga then ensureCompositeKey m env else give ()) (\<lambda>_.
     if ga then give True else hasGroupColumn env))"

definition up :: "Migrator \<Rightarrow> 's mig_env \<Rightarrow> bool \<Rightarrow> string list \<Rightarrow> ('s, unit) mig_prog" where
  "up m env ga groups =
     andThen (open_table m env ga) (\<lambda>tableGa.
     andThen (appliedVersions env tableGa) (\<lambda>ap.
       case checkIntegrity m ap of
         Some e \<Rightarrow> stop e
       | None \<Rightarrow> up_loop m env tableGa (pendingMigrations (selectedMigrations m groups) ap)))"

fun pg_poll :: "bool option list \<Rightarrow> bool" where
  "pg_poll [] = False"
| "pg_poll (None # polls) = False"
| "pg_poll (Some got # polls) = (got \<or> pg_poll polls)"

text \<open>The lock around a run: its release touches neither the tracking table nor the schema.\<close>

definition withLeasedLock :: "Migrator \<Rightarrow> 's mig_env \<Rightarrow> ('s, 'a) mig_prog \<Rightarrow> ('s, 'a) mig_prog" where
  "withLeasedLock m env p =
     (if \<not> connOK env then stop LockFailed
      else if dialect m = DialectSQLite then (if leaseTaken env then p else stop LockFailed)
      else if pg_poll (lockPolls env) then p else stop LockFailed)"

definition Up :: "Migrator \<Rightarrow> 's mig_env \<Rightarrow> string list \<Rightarrow> ('s, unit) mig_prog" where
  "Up m env groups0 =
     (let groups = normalizeGroupSelection groups0 in
      case validateGroupSelection m groups True of
        Some e \<Rightarrow> stop (Refused e)
      | None \<Rightarrow> (case qtable m of Inl e \<Rightarrow> stop e | Inr _ \<Rightarrow> withLeasedLock m env (up m env (groupAware m groups) groups)))"

section \<open>Down\<close>

definition runMigrationDownNoTx :: "Migrator \<Rightarrow> 's mig_env \<Rightarrow> Migration \<Rightarrow> bool \<Rightarrow> ('s, unit) mig_prog" where
  "runMigrationDownNoTx m env mig ga =
     andThen (exec_call env (set_dirty ga mig True)) (\<lambda>_.
     andThen (run_noTx m env (mDown mig)) (\<lambda>_.
     exec_call env (delete_row ga mig)))"

definition runMigrationDown :: "Migrator \<Rightarrow> 's mig_env \<Rightarrow> Migration \<Rightarrow> bool \<Rightarrow> ('s, unit) mig_prog" where
  "runMigrationDown m env mig ga =
     (if mNoTransaction mig then runMigrationDownNoTx m env mig ga
      else in_tx env (andThen (exec_call env (run_sql env (mDown mig))) (\<lambda>_. exec_call env (delete_row ga mig))))"

definition down_order :: "string \<times> nat \<Rightarrow> nat \<times> string" where
  "down_order k = (snd k, fst k)"

definition rollback_keys :: "Migrator \<Rightarrow> string list \<Rightarrow> applied \<Rightarrow> (string \<times> nat) list" where
  "rollback_keys m groups ap =
     rev (sort_key down_order (filter (\<lambda>k. groupSelected (fst k) groups \<and> own_group m (fst k)) (map fst ap)))"

definition lookup_migration :: "Migrator \<Rightarrow> string \<times> nat \<Rightarrow> Migration option" where
  "lookup_migration m k = map_of (rev (map (\<lambda>mig. (mig_key mig, mig)) (migrations m))) k"

fun down_loop :: "Migrator \<Rightarrow> 's mig_env \<Rightarrow> bool \<Rightarrow> (string \<times> nat) list \<Rightarrow> ('s, unit) mig_prog" where
  "down_loop m env ga [] = give ()"
| "down_loop m env ga (k # ks) =
     (case lookup_migration m k of
        None \<Rightarrow> stop (NotRegistered (snd k) (groupDisplayName (fst k)))
      | Some mig \<Rightarrow>
          andThen (keep m env) (\<lambda>_. andThen (runMigrationDown m env mig ga) (\<lambda>_. down_loop m env ga ks)))"

definition no_down :: "Migrator \<Rightarrow> string \<times> nat \<Rightarrow> bool" where
  "no_down m k \<longleftrightarrow> (case lookup_migration m k of Some mig \<Rightarrow> trim_space (mDown mig) = [] | None \<Rightarrow> False)"

definition down :: "Migrator \<Rightarrow> 's mig_env \<Rightarrow> int \<Rightarrow> bool \<Rightarrow> string list \<Rightarrow> ('s, unit) mig_prog" where
  "down m env n ga groups =
     andThen (open_table m env ga) (\<lambda>tableGa.
     andThen (appliedVersions env tableGa) (\<lambda>ap.
       if list_ex (\<lambda>(_, r). rDirty r \<and> own_group m (rGroup r)) ap then stop ErrDirty
       else let ks = take (nat n) (rollback_keys m groups ap) in
         if list_ex (no_down m) ks then stop ErrNoDown else down_loop m env tableGa ks))"

definition Down :: "Migrator \<Rightarrow> 's mig_env \<Rightarrow> int \<Rightarrow> string list \<Rightarrow> ('s, unit) mig_prog" where
  "Down m env n groups0 =
     (let groups = normalizeGroupSelection groups0 in
      case validateGroupSelection m groups True of
        Some e \<Rightarrow> stop (Refused e)
      | None \<Rightarrow> (case qtable m of Inl e \<Rightarrow> stop e | Inr _ \<Rightarrow> withLeasedLock m env (down m env n (groupAware m groups) groups)))"

section \<open>Force and Status\<close>

definition key_is :: "bool \<Rightarrow> string \<Rightarrow> nat \<Rightarrow> MigrationRecord \<Rightarrow> bool" where
  "key_is ga grp version r \<longleftrightarrow> rVersion r = version \<and> (ga \<longrightarrow> rGroup r = grp)"

text \<open>The upsert of Force names the key its conflict arm relies on: on a table with the group column and still the
  old key on the version alone, \<^verbatim>\<open>ON CONFLICT (group_name, version)\<close> matches no key and the statement fails.\<close>

definition force_row :: "'s mig_env \<Rightarrow> bool \<Rightarrow> string \<Rightarrow> nat \<Rightarrow> string \<Rightarrow> string \<Rightarrow> 's track_db \<Rightarrow> bool \<times> 's track_db" where
  "force_row env ga grp version name checksum db =
     (if ga \<and> \<not> tComposite db then (False, db)
      else (True, db\<lparr>tRows :=
        (if list_ex (key_is ga grp version) (tRows db)
         then map (\<lambda>r. if key_is ga grp version r then r\<lparr>rDirty := False, rName := name, rChecksum := checksum\<rparr> else r) (tRows db)
         else tRows db @ [\<lparr>rGroup = (if ga then grp else []), rVersion = version, rName = name,
                            rAppliedAt = clockAt env (tCalls db), rChecksum = checksum, rDirty = False\<rparr>])\<rparr>))"

definition forced_name :: "Migrator \<Rightarrow> string \<Rightarrow> nat \<Rightarrow> string \<times> string" where
  "forced_name m grp version =
     (case find (\<lambda>mig. mGroup mig = grp \<and> mVersion mig = version) (migrations m) of
        Some mig \<Rightarrow> (mName mig, checksumOf mig)
      | None \<Rightarrow> (''forced'', []))"

definition force :: "Migrator \<Rightarrow> 's mig_env \<Rightarrow> bool \<Rightarrow> string \<Rightarrow> nat \<Rightarrow> bool \<Rightarrow> ('s, unit) mig_prog" where
  "force m env ga grp version applied =
     andThen (open_table m env ga) (\<lambda>tableGa.
       if \<not> applied then exec_call env (\<lambda>db. (True, db\<lparr>tRows := filter (\<lambda>r. \<not> key_is tableGa grp version r) (tRows db)\<rparr>))
       else case forced_name m grp version of
              (name, checksum) \<Rightarrow> exec_call env (force_row env tableGa grp version name checksum))"

definition Force :: "Migrator \<Rightarrow> 's mig_env \<Rightarrow> nat \<Rightarrow> bool \<Rightarrow> string list \<Rightarrow> ('s, unit) mig_prog" where
  "Force m env version applied groups0 =
     (if length groups0 > 1 then stop TooManyGroups
      else let groups = normalizeGroupSelection groups0; grp = (case groups of [] \<Rightarrow> [] | g # _ \<Rightarrow> g) in
        case (if groups = [] then None else validateGroupName grp) of
          Some e \<Rightarrow> stop (Refused e)
        | None \<Rightarrow> (case qtable m of
              Inl e \<Rightarrow> stop e
            | Inr _ \<Rightarrow> withLeasedLock m env (force m env (groupAware m groups) grp version applied)))"

record Status =
  sApplied :: "MigrationRecord list"
  sPending :: "Migration list"
  sModified :: "MigrationRecord list"
  sUnregistered :: "MigrationRecord list"

definition status_of :: "Migrator \<Rightarrow> string list \<Rightarrow> applied \<Rightarrow> Status" where
  "status_of m groups ap =
     (let list = sort_key (\<lambda>r. (rVersion r, rGroup r)) (filter (\<lambda>r. groupSelected (rGroup r) groups) (map snd ap))
      in \<lparr>sApplied = list,
          sPending = pendingMigrations (selectedMigrations m groups) ap,
          sModified = filter (\<lambda>r. case lookup_migration m (rec_key r) of
             Some mig \<Rightarrow> rChecksum r \<noteq> [] \<and> checksumOf mig \<noteq> rChecksum r | None \<Rightarrow> False) list,
          sUnregistered = filter (\<lambda>r. lookup_migration m (rec_key r) = None \<and> own_group m (rGroup r)) list\<rparr>)"

definition MigrationStatus :: "Migrator \<Rightarrow> 's mig_env \<Rightarrow> string list \<Rightarrow> ('s, Status) mig_prog" where
  "MigrationStatus m env groups0 =
     (let groups = normalizeGroupSelection groups0 in
      case validateGroupSelection m groups False of
        Some e \<Rightarrow> stop (Refused e)
      | None \<Rightarrow> (case qtable m of
            Inl e \<Rightarrow> stop e
          | Inr _ \<Rightarrow>
              andThen (createMigrationsTable m env False) (\<lambda>_.
              andThen (hasGroupColumn env) (\<lambda>tableGa.
              andThen (appliedVersions env tableGa) (\<lambda>ap. give (status_of m groups ap))))))"

definition lock_taken :: "Migrator \<Rightarrow> 's mig_env \<Rightarrow> bool" where
  "lock_taken m env \<longleftrightarrow> connOK env \<and> (if dialect m = DialectSQLite then leaseTaken env else pg_poll (lockPolls env))"

lemma withLeasedLock_eq: "withLeasedLock m env p = (if lock_taken m env then p else stop LockFailed)"
  by (simp add: withLeasedLock_def lock_taken_def)

section \<open>Programs that leave the rows and the schema alone\<close>

text \<open>A well-formed table: no rows before it exists, one row per group and version, and only the default group until both the column
  and the key of group-aware mode are there.\<close>

definition wf_db :: "'s track_db \<Rightarrow> bool" where
  "wf_db db \<longleftrightarrow> (\<not> tExists db \<longrightarrow> tRows db = []) \<and> distinct (map rec_key (tRows db))
     \<and> (\<not> (tGroupColumn db \<and> tComposite db) \<longrightarrow> (\<forall>r \<in> set (tRows db). rGroup r = []))"

definition framed :: "'s track_db \<Rightarrow> 's track_db \<Rightarrow> bool" where
  "framed db db' \<longleftrightarrow> (wf_db db \<longrightarrow> wf_db db' \<and> tRows db' = tRows db \<and> tSchema db' = tSchema db
     \<and> (tExists db \<longrightarrow> tExists db' \<and> (tGroupColumn db \<longrightarrow> tGroupColumn db') \<and> (tComposite db \<longrightarrow> tComposite db')))"

definition frames :: "('s, 'a) mig_prog \<Rightarrow> bool" where
  "frames p \<longleftrightarrow> (\<forall>db. framed db (snd (p db)))"

named_theorems frames_intro

lemma framed_refl [simp]: "framed db db" by (simp add: framed_def)

lemma framed_trans: "framed a b \<Longrightarrow> framed b c \<Longrightarrow> framed a c" by (auto simp: framed_def)

lemma framed_calls [simp]: "framed db (db\<lparr>tCalls := n\<rparr>)" by (auto simp: framed_def wf_db_def)

lemma framesD: "frames p \<Longrightarrow> p db = (r, db') \<Longrightarrow> framed db db'" unfolding frames_def by (metis snd_conv)

lemma frames_give [frames_intro]: "frames (give a)" by (simp add: frames_def give_def)

lemma frames_stop [frames_intro]: "frames (stop e)" by (simp add: frames_def stop_def)

lemma frames_andThen [frames_intro]: "frames p \<Longrightarrow> (\<And>a. frames (f a)) \<Longrightarrow> frames (andThen p f)"
proof -
  assume p: "frames p" and f: "\<And>a. frames (f a)"
  show ?thesis
    unfolding frames_def
  proof
    fix db
    obtain r db1 where r: "p db = (r, db1)" by fastforce
    then have "framed db db1" using p framesD by blast
    then show "framed db (snd (andThen p f db))"
      using f r by (cases r) (auto simp: andThen_def frames_def intro: framed_trans)
  qed
qed

lemma frames_if [frames_intro]: "frames p \<Longrightarrow> frames q \<Longrightarrow> frames (if b then p else q)" by simp

lemma frames_query [frames_intro]: "frames (query_call env g)"
  by (simp add: frames_def query_call_def)

lemma frames_exec [frames_intro]: "(\<And>db. framed db (snd (f db))) \<Longrightarrow> frames (exec_call env f)"
  unfolding frames_def exec_call_def
  by (auto simp: Let_def split: fault.splits prod.splits) (metis framed_calls framed_trans snd_conv)+

lemma framed_undo: "framed db (undo db db')"
  by (simp add: undo_def)

lemma frames_in_tx [frames_intro]: "frames p \<Longrightarrow> frames (in_tx env p)"
proof -
  assume p: "frames p"
  have "frames (\<lambda>db0. case p db0 of (Inl e, db) \<Rightarrow> (Inl e, undo db0 db) | (Inr _, db) \<Rightarrow>
      (let db1 = db\<lparr>tCalls := tCalls db + 1\<rparr> in case fate env (tCalls db) of
          Runs \<Rightarrow> (Inr (), db1) | FailsBefore \<Rightarrow> (Inl CallFailed, undo db0 db1) | FailsAfter \<Rightarrow> (Inl CallFailed, db1)))"
    unfolding frames_def
    by (auto simp: Let_def framed_undo split: prod.splits sum.splits fault.splits) (metis p framesD framed_trans framed_calls)+
  then show ?thesis unfolding in_tx_def by (intro frames_intro)
qed

lemma framed_effects [simp]: "framed db (snd (create_table ga db))" "framed db (snd (set_composite db))"
  "framed db (db\<lparr>tGroupColumn := True\<rparr>)"
  by (auto simp: create_table_def set_composite_def framed_def wf_db_def)

lemma frames_RefuseCaseKept: "frames (RefuseCaseKept m env)"
  unfolding RefuseCaseKept_def by (intro frames_intro)

lemma frames_ensureTrackingColumns: "frames (ensureTrackingColumns env ga)"
  unfolding ensureTrackingColumns_def by (intro frames_intro) simp_all

lemma frames_createMigrationsTable: "frames (createMigrationsTable m env ga)"
  unfolding createMigrationsTable_def
  by (intro frames_intro frames_RefuseCaseKept frames_ensureTrackingColumns) simp

lemma frames_upgradePK: "frames (upgradePKPostgres env)"
proof -
  have "frames (case SafeIdent c of Inl _ \<Rightarrow> stop BadTableName | Inr _ \<Rightarrow> exec_call env set_composite)" for c
    by (cases "SafeIdent c") (auto intro!: frames_intro)
  then show ?thesis unfolding upgradePKPostgres_def by (intro frames_intro)
qed

lemma frames_rebuild: "frames (rebuildTableSQLite m env)"
  unfolding rebuildTableSQLite_def Let_def
  by (auto split: prod.splits sum.splits intro!: frames_intro)

lemma frames_ensureCompositeKey: "frames (ensureCompositeKey m env)"
  unfolding ensureCompositeKey_def by (intro frames_intro frames_upgradePK frames_rebuild)

lemma frames_open_table: "frames (open_table m env ga)"
  unfolding open_table_def hasGroupColumn_def
  by (intro frames_intro frames_createMigrationsTable frames_ensureCompositeKey)

section \<open>What an opened table looks like\<close>

lemma andThen_Inr: "andThen p f db = (Inr b, db') \<longleftrightarrow> (\<exists>a db1. p db = (Inr a, db1) \<and> f a db1 = (Inr b, db'))"
  by (auto simp: andThen_def split: prod.splits sum.splits)

lemma exec_call_Inr:
  "exec_call env f db = (Inr u, db') \<longleftrightarrow> fate env (tCalls db) = Runs \<and> f (db\<lparr>tCalls := tCalls db + 1\<rparr>) = (True, db')"
  by (auto simp: exec_call_def Let_def split: fault.splits prod.splits if_splits)

lemma query_call_Inr:
  "query_call env g db = (Inr a, db') \<longleftrightarrow> fate env (tCalls db) = Runs \<and> a = g db \<and> db' = db\<lparr>tCalls := tCalls db + 1\<rparr>"
  by (auto simp: query_call_def)

lemma in_tx_Inr:
  "in_tx env p db = (Inr u, db') \<Longrightarrow> \<exists>db1 n. p (db\<lparr>tCalls := tCalls db + 1\<rparr>) = (Inr (), db1) \<and> db' = db1\<lparr>tCalls := n\<rparr>"
  by (auto simp: in_tx_def andThen_Inr query_call_Inr Let_def split: prod.splits sum.splits fault.splits)

lemmas prog_Inr = andThen_Inr exec_call_Inr query_call_Inr

lemma createMigrationsTable_Inr:
  assumes "createMigrationsTable m env ga db = (Inr u, db')"
  shows "tExists db'" "ga \<Longrightarrow> tGroupColumn db'"
  using assms
  by (auto simp: createMigrationsTable_def ensureTrackingColumns_def prog_Inr create_table_def give_def split: if_splits)

lemma ensureCompositeKey_Inr:
  assumes "ensureCompositeKey m env db = (Inr u, db')"
  shows "tComposite db'" "tGroupColumn db' = tGroupColumn db" "tExists db' = tExists db"
proof -
  have up: "upgradePKPostgres env d = (Inr u, db') \<Longrightarrow> tComposite db' \<and> tGroupColumn db' = tGroupColumn d \<and> tExists db' = tExists d" for d
    by (auto simp: upgradePKPostgres_def prog_Inr set_composite_def stop_def split: sum.splits)
  have re: "rebuildTableSQLite m env d = (Inr u, db') \<Longrightarrow> tComposite db' \<and> tGroupColumn db' = tGroupColumn d \<and> tExists db' = tExists d" for d
    by (auto simp: rebuildTableSQLite_def prog_Inr set_composite_def stop_def Let_def split: sum.splits prod.splits dest!: in_tx_Inr)
  show "tComposite db'" "tGroupColumn db' = tGroupColumn db" "tExists db' = tExists db"
    using assms up [of "db\<lparr>tCalls := Suc (tCalls db)\<rparr>"] re [of "db\<lparr>tCalls := Suc (tCalls db)\<rparr>"]
    by (auto simp: ensureCompositeKey_def prog_Inr give_def split: if_splits)
qed

lemma open_table_Inr:
  assumes "open_table m env ga db = (Inr tableGa, db')"
  shows "tableGa = tGroupColumn db'" "tExists db'" "ga \<Longrightarrow> tGroupColumn db' \<and> tComposite db'"
proof -
  show "tableGa = tGroupColumn db'" "tExists db'" "ga \<Longrightarrow> tGroupColumn db' \<and> tComposite db'"
    using assms unfolding open_table_def hasGroupColumn_def
    by (cases ga; auto simp: prog_Inr give_def dest: createMigrationsTable_Inr ensureCompositeKey_Inr)+
qed

lemma applied_of_wf:
  assumes "wf_db db" "ga = tGroupColumn db"
  shows "applied_of ga (tRows db) = map (\<lambda>r. (rec_key r, r)) (tRows db)"
proof -
  have "scan_record ga r = r" if "r \<in> set (tRows db)" for r
    using assms that by (auto simp: scan_record_def wf_db_def)
  then have scan: "map (scan_record ga) (tRows db) = tRows db" by (simp add: map_idI)
  have "distinct (map rec_key (rs @ rs')) \<Longrightarrow> fold (\<lambda>r. AList.update (rec_key r) r) rs' (map (\<lambda>r. (rec_key r, r)) rs)
      = map (\<lambda>r. (rec_key r, r)) (rs @ rs')" for rs rs'
  proof (induction rs' arbitrary: rs)
    case (Cons r rs')
    have "rec_key r \<notin> fst ` set (map (\<lambda>r. (rec_key r, r)) rs)" using Cons.prems by (auto simp: image_image)
    then have "AList.update (rec_key r) r (map (\<lambda>r. (rec_key r, r)) rs) = map (\<lambda>r. (rec_key r, r)) (rs @ [r])"
      by (simp add: update_new)
    then show ?case using Cons.IH [of "rs @ [r]"] Cons.prems by simp
  qed simp
  from this [of "[]" "tRows db"] show ?thesis
    using assms(1) scan by (simp add: applied_of_def wf_db_def)
qed

section \<open>Statements on the schema\<close>

fun sql_list :: "(string \<Rightarrow> 's \<Rightarrow> bool \<times> 's) \<Rightarrow> string list \<Rightarrow> 's \<Rightarrow> bool \<times> 's" where
  "sql_list ex [] s = (True, s)"
| "sql_list ex (stmt # stmts) s = (case ex stmt s of (ok, s') \<Rightarrow> if ok then sql_list ex stmts s' else (False, s'))"

definition noTx_statements :: "Migrator \<Rightarrow> string \<Rightarrow> string list" where
  "noTx_statements m body = (if dialect m = DialectSQLite then [body] else splitStatements body)"

definition up_statements :: "Migrator \<Rightarrow> Migration \<Rightarrow> string list" where
  "up_statements m mig = (if mNoTransaction mig then noTx_statements m (mUp mig) else [mUp mig])"

definition down_statements :: "Migrator \<Rightarrow> Migration \<Rightarrow> string list" where
  "down_statements m mig = (if mNoTransaction mig then noTx_statements m (mDown mig) else [mDown mig])"

definition send :: "'s mig_env \<Rightarrow> 's track_db \<Rightarrow> string \<Rightarrow> 's track_db \<times> run_error option" where
  "send env db stmt = (case exec_call env (run_sql env stmt) db of (Inl e, db') \<Rightarrow> (db', Some e) | (Inr _, db') \<Rightarrow> (db', None))"

text \<open>All of the database but the count of calls.\<close>

definition view :: "'s track_db \<Rightarrow> (bool \<times> bool \<times> bool) \<times> MigrationRecord list \<times> 's" where
  "view db = ((tExists db, tGroupColumn db, tComposite db), tRows db, tSchema db)"

definition with_schema :: "'s track_db \<Rightarrow> 's \<Rightarrow> (bool \<times> bool \<times> bool) \<times> MigrationRecord list \<times> 's" where
  "with_schema db s = (fst (view db), tRows db, s)"

lemma with_schema_self [simp]: "with_schema db (tSchema db) = view db"
  by (simp add: view_def with_schema_def)

lemma view_with_schema: "view db1 = with_schema db s \<Longrightarrow> with_schema db1 = with_schema db \<and> tSchema db1 = s"
  by (auto simp: view_def with_schema_def)

lemma send_cases:
  assumes "send env db stmt = (db', e)" "execSQL env stmt (tSchema db) = (ok, s)"
  obtains "view db' = view db" "e \<noteq> None" | "view db' = with_schema db s" "e \<noteq> None" | "view db' = with_schema db s" "e = None" ok
  using assms
  by (cases "fate env (tCalls db)"; cases ok) (auto simp: send_def exec_call_def run_sql_def Let_def view_def with_schema_def)

lemma send_all:
  assumes "exec_all (send env) stmts db = (db', e)"
  shows "\<exists>n. view db' = with_schema db (snd (sql_list (execSQL env) (take n stmts) (tSchema db)))
    \<and> (e = None \<longrightarrow> sql_list (execSQL env) stmts (tSchema db) = (True, tSchema db'))"
  using assms
proof (induction stmts arbitrary: db)
  case Nil
  then show ?case by simp
next
  case (Cons stmt stmts)
  obtain ok s where ex: "execSQL env stmt (tSchema db) = (ok, s)" by fastforce
  obtain db1 e1 where sd: "send env db stmt = (db1, e1)" by fastforce
  from sd ex show ?case
  proof (cases rule: send_cases)
    case 1
    then show ?thesis using Cons.prems sd by (intro exI [of _ "0 :: nat"]) auto
  next
    case 2
    then show ?thesis using Cons.prems sd ex by (intro exI [of _ "1 :: nat"]) auto
  next
    case 3
    then have "exec_all (send env) stmts db1 = (db', e)" using Cons.prems sd by simp
    from Cons.IH [OF this] obtain n where "view db' = with_schema db1 (snd (sql_list (execSQL env) (take n stmts) (tSchema db1)))"
      "e = None \<longrightarrow> sql_list (execSQL env) stmts (tSchema db1) = (True, tSchema db')" by blast
    then show ?thesis using 3 ex view_with_schema [OF 3(1)] by (intro exI [of _ "Suc n"]) simp
  qed
qed

lemma run_noTx_sql:
  assumes "run_noTx m env body db = (res, db')"
  shows "\<exists>n. view db' = with_schema db (snd (sql_list (execSQL env) (take n (noTx_statements m body)) (tSchema db)))
    \<and> (res = Inr () \<longrightarrow> sql_list (execSQL env) (noTx_statements m body) (tSchema db) = (True, tSchema db'))"
proof -
  have one: "exec_all f [b] w = f w b" for f :: "'a track_db \<Rightarrow> string \<Rightarrow> 'a track_db \<times> run_error option" and b w
    by (auto split: prod.splits option.splits)
  have "(\<lambda>db stmt. case exec_call env (run_sql env stmt) db of (Inl e, db') \<Rightarrow> (db', Some e) | (Inr _, db') \<Rightarrow> (db', None)) = send env"
    by (intro ext) (simp add: send_def)
  then have "run_noTx m env body db
      = (case exec_all (send env) (noTx_statements m body) db of (db', Some e) \<Rightarrow> (Inl e, db') | (db', None) \<Rightarrow> (Inr (), db'))"
    by (simp add: run_noTx_def execNoTx_def noTx_statements_def one del: exec_all.simps)
  moreover obtain d e where de: "exec_all (send env) (noTx_statements m body) db = (d, e)" by fastforce
  ultimately have "d = db'" "res = Inr () \<longrightarrow> e = None" using assms by (auto split: option.splits)
  then show ?thesis using send_all [OF de] by auto
qed

section \<open>One migration up\<close>

definition track_entry :: "MigrationRecord \<Rightarrow> (string \<times> nat) \<times> string \<times> string \<times> bool" where
  "track_entry r = (rec_key r, rName r, rChecksum r, rDirty r)"

definition mig_entry :: "bool \<Rightarrow> Migration \<Rightarrow> (string \<times> nat) \<times> string \<times> string \<times> bool" where
  "mig_entry d mig = (mig_key mig, mName mig, checksumOf mig, d)"

definition fits_table :: "'s track_db \<Rightarrow> Migration \<Rightarrow> bool" where
  "fits_table db mig \<longleftrightarrow> mGroup mig = [] \<or> tGroupColumn db \<and> tComposite db"

lemma row_is_key:
  assumes "wf_db db" "fits_table db mig" "r \<in> set (tRows db)"
  shows "row_is (tGroupColumn db) mig r \<longleftrightarrow> rec_key r = mig_key mig"
  using assms by (auto simp: wf_db_def fits_table_def row_is_def rec_key_def mig_key_def)

lemma find_row_None:
  assumes "wf_db db" "fits_table db mig" "mig_key mig \<notin> rec_key ` set (tRows db)"
  shows "find (row_is (tGroupColumn db) mig) (tRows db) = None"
  using assms row_is_key unfolding find_None_iff by (metis image_eqI)

lemma insert_row_new:
  assumes "wf_db db" "fits_table db mig" "mig_key mig \<notin> rec_key ` set (tRows db)"
  shows "\<exists>r. insert_row env (tGroupColumn db) mig d db = (True, db\<lparr>tRows := tRows db @ [r]\<rparr>) \<and> track_entry r = mig_entry d mig"
proof -
  have "\<not> (rVersion e = mVersion mig \<and> (tComposite db \<longrightarrow> rGroup e = (if tGroupColumn db then mGroup mig else [])))"
    if "e \<in> set (tRows db)" for e
    using assms that by (auto simp: wf_db_def fits_table_def rec_key_def mig_key_def image_iff)
  moreover have "(if tGroupColumn db then mGroup mig else []) = mGroup mig" using assms(2) by (auto simp: fits_table_def)
  ultimately have "insert_row env (tGroupColumn db) mig d db = (True, db\<lparr>tRows := tRows db @ [
      \<lparr>rGroup = mGroup mig, rVersion = mVersion mig, rName = mName mig, rAppliedAt = clockAt env (tCalls db),
       rChecksum = checksumOf mig, rDirty = d\<rparr>]\<rparr>)"
    by (simp add: insert_row_def Let_def list_ex_iff)
  then show ?thesis by (intro exI conjI, assumption) (simp add: track_entry_def mig_entry_def rec_key_def mig_key_def)
qed

definition up_step :: "Migrator \<Rightarrow> (string \<Rightarrow> 's \<Rightarrow> bool \<times> 's) \<Rightarrow> Migration \<Rightarrow> 's track_db \<Rightarrow> run_error + unit \<Rightarrow> 's track_db \<Rightarrow> bool" where
  "up_step m ex mig db res db' \<longleftrightarrow> fst (view db') = fst (view db) \<and>
     (res \<noteq> Inr () \<and> tRows db' = tRows db \<and> tSchema db' = tSchema db
    \<or> (\<exists>r. tRows db' = tRows db @ [r] \<and> track_entry r = mig_entry False mig) \<and> sql_list ex (up_statements m mig) (tSchema db) = (True, tSchema db')
    \<or> res \<noteq> Inr () \<and> mNoTransaction mig \<and> (\<exists>r. tRows db' = tRows db @ [r] \<and> track_entry r = mig_entry True mig)
        \<and> (\<exists>n. tSchema db' = snd (sql_list ex (take n (up_statements m mig)) (tSchema db))))"

lemma wf_calls [simp]: "wf_db (db\<lparr>tCalls := c\<rparr>) = wf_db db" "fits_table (db\<lparr>tCalls := c\<rparr>) mig = fits_table db mig"
  "wf_db (db\<lparr>tSchema := s\<rparr>) = wf_db db" "fits_table (db\<lparr>tSchema := s\<rparr>) mig = fits_table db mig"
  by (simp_all add: wf_db_def fits_table_def)

lemma exec_call_cases:
  assumes "exec_call env f db = (res, db')" "f (db\<lparr>tCalls := tCalls db + 1\<rparr>) = (ok, db2)"
  obtains "res \<noteq> Inr ()" "db' = db\<lparr>tCalls := tCalls db + 1\<rparr>" | "res = Inr ()" "db' = db2" ok | "res \<noteq> Inr ()" "db' = db2"
  using assms by (cases "fate env (tCalls db)"; cases ok) (auto simp: exec_call_def Let_def)

text \<open>What a transaction leaves: the database as it was, or what its statements made of it.\<close>

lemma in_tx_cases:
  assumes "in_tx env p db = (res, db')"
  obtains "res \<noteq> Inr ()" "view db' = view db" | db2 where "p (db\<lparr>tCalls := tCalls db + 1\<rparr>) = (Inr (), db2)" "view db' = view db2"
proof (cases "fate env (tCalls db) = Runs")
  case False
  then have "res \<noteq> Inr ()" "view db' = view db" using assms by (auto simp: in_tx_def andThen_def query_call_def view_def)
  then show ?thesis by (rule that(1))
next
  case True
  define db0 where "db0 = db\<lparr>tCalls := tCalls db + 1\<rparr>"
  obtain r db2 where p: "p db0 = (r, db2)" by fastforce
  have eq: "(res, db') = (case r of Inl e \<Rightarrow> (Inl e, undo db0 db2) | Inr _ \<Rightarrow>
      (case fate env (tCalls db2) of Runs \<Rightarrow> (Inr (), db2\<lparr>tCalls := tCalls db2 + 1\<rparr>)
       | FailsBefore \<Rightarrow> (Inl CallFailed, undo db0 (db2\<lparr>tCalls := tCalls db2 + 1\<rparr>))
       | FailsAfter \<Rightarrow> (Inl CallFailed, db2\<lparr>tCalls := tCalls db2 + 1\<rparr>)))"
    unfolding assms [symmetric] in_tx_def andThen_def [of "query_call env (\<lambda>_. ())"] query_call_def
    using True p unfolding db0_def by (simp add: Let_def split: sum.splits fault.splits)
  have "res \<noteq> Inr () \<and> view db' = view db \<or> r = Inr () \<and> view db' = view db2"
    using eq by (cases r; cases "fate env (tCalls db2)") (auto simp: undo_def db0_def view_def)
  then show ?thesis using that p by (auto simp: db0_def)
qed

lemma apply_up_tx:
  assumes wf: "wf_db db" "fits_table db mig" "mig_key mig \<notin> rec_key ` set (tRows db)" "\<not> mNoTransaction mig"
    and run: "apply_up m env mig (tGroupColumn db) db = (res, db')"
  shows "up_step m (execSQL env) mig db res db'"
proof -
  have "in_tx env (andThen (exec_call env (run_sql env (mUp mig))) (\<lambda>_. exec_call env (insert_row env (tGroupColumn db) mig False))) db
      = (res, db')"
    using run wf(4) by (simp add: apply_up_def)
  then show ?thesis
  proof (cases rule: in_tx_cases)
    case 1
    then show ?thesis by (simp add: up_step_def view_def)
  next
    case (2 db2)
    then obtain db1 where db1: "exec_call env (run_sql env (mUp mig)) (db\<lparr>tCalls := tCalls db + 1\<rparr>) = (Inr (), db1)"
      "exec_call env (insert_row env (tGroupColumn db) mig False) db1 = (Inr (), db2)" by (auto simp: andThen_Inr)
    obtain s where s: "execSQL env (mUp mig) (tSchema db) = (True, s)" "view db1 = with_schema db s"
      using db1(1) by (auto simp: exec_call_Inr run_sql_def view_def with_schema_def split: prod.splits)
    define db3 where "db3 = db1\<lparr>tCalls := tCalls db1 + 1\<rparr>"
    have view3: "view db3 = with_schema db s" using s(2) by (simp add: db3_def view_def with_schema_def)
    then have "wf_db db3" "fits_table db3 mig" "mig_key mig \<notin> rec_key ` set (tRows db3)" "tGroupColumn db3 = tGroupColumn db"
      using wf by (simp_all add: view_def with_schema_def wf_db_def fits_table_def)
    from insert_row_new [OF this(1-3), of env False] this(4) obtain r
      where r: "insert_row env (tGroupColumn db) mig False db3 = (True, db3\<lparr>tRows := tRows db3 @ [r]\<rparr>)" "track_entry r = mig_entry False mig"
      by auto
    then have "db2 = db3\<lparr>tRows := tRows db3 @ [r]\<rparr>" using db1(2) by (simp add: exec_call_Inr db3_def)
    then have "view db' = (fst (view db), tRows db @ [r], s)" using 2(2) view3 by (simp add: view_def with_schema_def)
    then show ?thesis using r(2) s(1) wf(4) by (auto simp: up_step_def view_def up_statements_def)
  qed
qed

lemma apply_up_noTx:
  assumes wf: "wf_db db" "fits_table db mig" "mig_key mig \<notin> rec_key ` set (tRows db)" "mNoTransaction mig"
    and run: "apply_up m env mig (tGroupColumn db) db = (res, db')"
  shows "up_step m (execSQL env) mig db res db'"
proof -
  let ?ga = "tGroupColumn db"
  define db0 where "db0 = db\<lparr>tCalls := tCalls db + 1\<rparr>"
  have wf0: "wf_db db0" "fits_table db0 mig" "mig_key mig \<notin> rec_key ` set (tRows db0)" "tGroupColumn db0 = ?ga"
    using wf by (simp_all add: db0_def)
  obtain r where r: "insert_row env ?ga mig True db0 = (True, db0\<lparr>tRows := tRows db0 @ [r]\<rparr>)" "track_entry r = mig_entry True mig"
    using insert_row_new [OF wf0(1-3), of env True] wf0(4) by auto
  define db2 where "db2 = db0\<lparr>tRows := tRows db0 @ [r]\<rparr>"
  have view2: "view db2 = (fst (view db), tRows db @ [r], tSchema db)" by (simp add: db2_def db0_def view_def)
  obtain r1 db1 where e1: "exec_call env (insert_row env ?ga mig True) db = (r1, db1)" by fastforce
  have all: "apply_up m env mig ?ga db = (case r1 of Inl e \<Rightarrow> (Inl e, db1) | Inr _ \<Rightarrow>
      andThen (run_noTx m env (mUp mig)) (\<lambda>_. exec_call env (set_dirty ?ga mig False)) db1)"
    using wf(4) e1 by (simp add: apply_up_def runMigrationUpNoTx_def andThen_def split: sum.splits)
  from e1 r(1) [unfolded db0_def] show ?thesis
  proof (cases rule: exec_call_cases)
    case 1
    then show ?thesis using all run by (cases r1) (auto simp: up_step_def view_def)
  next
    case 3
    then have "res \<noteq> Inr ()" "db' = db2" using all run by (cases r1; simp add: db2_def db0_def)+
    then show ?thesis using view2 r(2) wf(4)
      by (auto simp: up_step_def view_def intro!: exI [of _ r] exI [of _ "0 :: nat"])
  next
    case 2
    then have "db1 = db2" by (simp add: db2_def db0_def)
    with all run 2(1) have body: "andThen (run_noTx m env (mUp mig)) (\<lambda>_. exec_call env (set_dirty ?ga mig False)) db2 = (res, db')"
      by simp
    obtain r4 db4 where e4: "run_noTx m env (mUp mig) db2 = (r4, db4)" by fastforce
    from run_noTx_sql [OF e4] obtain n where n: "view db4 = with_schema db2 (snd (sql_list (execSQL env) (take n (up_statements m mig)) (tSchema db)))"
      "r4 = Inr () \<longrightarrow> sql_list (execSQL env) (up_statements m mig) (tSchema db) = (True, tSchema db4)"
      using view2 wf(4) by (auto simp: up_statements_def view_def)
    have half: "up_step m (execSQL env) mig db res db'" if "res \<noteq> Inr ()" "view db' = view db4"
      using that n(1) view2 r(2) wf(4)
      by (auto simp: up_step_def view_def with_schema_def)
    show ?thesis
    proof (cases r4)
      case (Inl e)
      then show ?thesis using body e4 half by (auto simp: andThen_def)
    next
      case (Inr u)
      then have last: "exec_call env (set_dirty ?ga mig False) db4 = (res, db')" using body e4 by (simp add: andThen_def)
      have wf4: "tRows db4 = tRows db @ [r]" "fst (view db4) = fst (view db)"
        using n(1) view2 by (simp_all add: with_schema_def view_def)
      have rows: "map (\<lambda>x. if row_is ?ga mig x then x\<lparr>rDirty := False\<rparr> else x) (tRows db @ [r]) = tRows db @ [r\<lparr>rDirty := False\<rparr>]"
      proof -
        have "\<not> row_is ?ga mig x" if "x \<in> set (tRows db)" for x
          using row_is_key [OF wf(1,2) that] wf(3) that by (metis image_eqI)
        moreover have "row_is ?ga mig r" using r(2) by (simp add: row_is_def track_entry_def mig_entry_def rec_key_def mig_key_def)
        ultimately show ?thesis by (simp add: map_idI)
      qed
      obtain db5 where db5: "set_dirty ?ga mig False (db4\<lparr>tCalls := tCalls db4 + 1\<rparr>) = (True, db5)"
        "view db5 = (fst (view db), tRows db @ [r\<lparr>rDirty := False\<rparr>], tSchema db4)"
        using rows wf4 by (simp add: set_dirty_def view_def)
      from last db5(1) show ?thesis
      proof (cases rule: exec_call_cases)
        case 1
        then show ?thesis by (intro half) (simp_all add: view_def)
      qed (use db5(2) n(2) Inr r(2) in \<open>auto simp: up_step_def view_def track_entry_def mig_entry_def rec_key_def\<close>)
    qed
  qed
qed

section \<open>A run of Up\<close>

fun schema_after :: "Migrator \<Rightarrow> (string \<Rightarrow> 's \<Rightarrow> bool \<times> 's) \<Rightarrow> Migration list \<Rightarrow> 's \<Rightarrow> 's option" where
  "schema_after m ex [] s = Some s"
| "schema_after m ex (mig # migs) s =
     (case sql_list ex (up_statements m mig) s of (ok, s') \<Rightarrow> if ok then schema_after m ex migs s' else None)"

text \<open>The ways a run over the pending list \<open>P\<close> can leave the database: the first migrations \<open>ran\<close> recorded clean and applied
  whole, nothing of the others; or, after those, one non-transactional migration recorded dirty and a part of its statements run.\<close>

definition up_outcome ::
  "Migrator \<Rightarrow> (string \<Rightarrow> 's \<Rightarrow> bool \<times> 's) \<Rightarrow> Migration list \<Rightarrow> 's track_db \<Rightarrow> run_error + unit \<Rightarrow> 's track_db \<Rightarrow> bool" where
  "up_outcome m ex P db res db' \<longleftrightarrow>
     (\<exists>ran rest s. P = ran @ rest \<and> (res = Inr () \<longrightarrow> rest = []) \<and> schema_after m ex ran (tSchema db) = Some s \<and>
        (map track_entry (tRows db') = map track_entry (tRows db) @ map (mig_entry False) ran \<and> tSchema db' = s
       \<or> (\<exists>mig rest' n. rest = mig # rest' \<and> mNoTransaction mig
            \<and> map track_entry (tRows db') = map track_entry (tRows db) @ map (mig_entry False) ran @ [mig_entry True mig]
            \<and> tSchema db' = snd (sql_list ex (take n (up_statements m mig)) s))))"

lemma up_step_view: "view db1 = view db \<Longrightarrow> up_step m ex mig db1 res db' = up_step m ex mig db res db'"
  by (simp add: up_step_def view_def)

lemma runMigrationUp_step:
  assumes wf: "wf_db db" "fits_table db mig" "mig_key mig \<notin> rec_key ` set (tRows db)"
    and run: "runMigrationUp m env mig (tGroupColumn db) db = (res, db')"
  shows "up_step m (execSQL env) mig db res db'"
proof -
  have app: "up_step m (execSQL env) mig db res db'"
    if v: "view db1 = view db" and r: "apply_up m env mig (tGroupColumn db) db1 = (res, db')" for db1
  proof -
    have w: "wf_db db1" "fits_table db1 mig" "mig_key mig \<notin> rec_key ` set (tRows db1)" "tGroupColumn db1 = tGroupColumn db"
      using wf v by (simp_all add: view_def wf_db_def fits_table_def)
    have "up_step m (execSQL env) mig db1 res db'"
      using apply_up_tx [OF w(1-3)] apply_up_noTx [OF w(1-3)] r w(4) by (cases "mNoTransaction mig") simp_all
    then show ?thesis by (simp add: up_step_view [OF v])
  qed
  define db1 where "db1 = db\<lparr>tCalls := tCalls db + 1\<rparr>"
  have v: "view db1 = view db" by (simp add: db1_def view_def)
  show ?thesis
  proof (cases "dialect m = DialectSQLite")
    case True
    show ?thesis
    proof (cases "fate env (tCalls db) = Runs")
      case Runs: True
      have "apply_up m env mig (tGroupColumn db) db1 = (res, db')"
        using run True Runs find_row_None [OF wf]
        by (simp add: runMigrationUp_def migrationRecorded_def andThen_def query_call_def db1_def)
      then show ?thesis by (rule app [OF v])
    next
      case False
      then have "res \<noteq> Inr ()" "db' = db1"
        using run True by (auto simp: runMigrationUp_def migrationRecorded_def andThen_def query_call_def db1_def)
      then show ?thesis using v by (simp add: up_step_def view_def)
    qed
  next
    case False
    then show ?thesis using run app [OF refl] by (simp add: runMigrationUp_def)
  qed
qed

lemma up_step_wf:
  assumes "wf_db db" "tExists db" "fits_table db mig" "mig_key mig \<notin> rec_key ` set (tRows db)" "up_step m ex mig db res db'"
  shows "wf_db db'" "tExists db'" "fits_table db' mig' = fits_table db mig'" "rec_key ` set (tRows db') \<subseteq> insert (mig_key mig) (rec_key ` set (tRows db))"
proof -
  have v: "tExists db' = tExists db" "tGroupColumn db' = tGroupColumn db" "tComposite db' = tComposite db"
    using assms(5) by (simp_all add: up_step_def view_def)
  have rows: "tRows db' = tRows db \<or> (\<exists>r. tRows db' = tRows db @ [r] \<and> rec_key r = mig_key mig)"
    using assms(5) by (auto simp: up_step_def track_entry_def mig_entry_def)
  show "wf_db db'" "tExists db'" "fits_table db' mig' = fits_table db mig'" "rec_key ` set (tRows db') \<subseteq> insert (mig_key mig) (rec_key ` set (tRows db))"
    using rows assms(1-4) v by (auto simp: wf_db_def fits_table_def rec_key_def mig_key_def)
qed

lemma up_step_outcome:
  assumes "up_step m ex mig db res1 db1" "res1 = Inr () \<Longrightarrow> up_outcome m ex P db1 res db'" "res1 \<noteq> Inr () \<Longrightarrow> res \<noteq> Inr () \<and> db' = db1"
  shows "up_outcome m ex (mig # P) db res db'"
proof -
  consider (none) "res1 \<noteq> Inr ()" "tRows db1 = tRows db" "tSchema db1 = tSchema db"
    | (clean) r where "tRows db1 = tRows db @ [r]" "track_entry r = mig_entry False mig" "sql_list ex (up_statements m mig) (tSchema db) = (True, tSchema db1)"
    | (half) r n where "res1 \<noteq> Inr ()" "mNoTransaction mig" "tRows db1 = tRows db @ [r]" "track_entry r = mig_entry True mig"
        "tSchema db1 = snd (sql_list ex (take n (up_statements m mig)) (tSchema db))"
    using assms(1) by (auto simp: up_step_def)
  then show ?thesis
  proof cases
    case none
    then show ?thesis using assms(3) unfolding up_outcome_def by (intro exI [of _ "[]"] exI [of _ "mig # P"]) auto
  next
    case half
    then show ?thesis using assms(3) unfolding up_outcome_def by (intro exI [of _ "[]"] exI [of _ "mig # P"]) auto
  next
    case clean
    show ?thesis
    proof (cases "res1 = Inr ()")
      case False
      then show ?thesis using assms(3) clean unfolding up_outcome_def by (intro exI [of _ "[mig]"] exI [of _ P]) auto
    next
      case True
      then obtain ran rest s where o: "P = ran @ rest" "res = Inr () \<longrightarrow> rest = []" "schema_after m ex ran (tSchema db1) = Some s"
        "map track_entry (tRows db') = map track_entry (tRows db1) @ map (mig_entry False) ran \<and> tSchema db' = s
         \<or> (\<exists>mig rest' n. rest = mig # rest' \<and> mNoTransaction mig
            \<and> map track_entry (tRows db') = map track_entry (tRows db1) @ map (mig_entry False) ran @ [mig_entry True mig]
            \<and> tSchema db' = snd (sql_list ex (take n (up_statements m mig)) s))"
        using assms(2) unfolding up_outcome_def by blast
      then show ?thesis using clean unfolding up_outcome_def by (intro exI [of _ "mig # ran"] exI [of _ rest]) auto
    qed
  qed
qed

lemma up_loop_outcome:
  assumes "wf_db db" "tExists db" "\<forall>mig \<in> set P. fits_table db mig \<and> mig_key mig \<notin> rec_key ` set (tRows db)" "distinct (map mig_key P)"
    "up_loop m env (tGroupColumn db) P db = (res, db')"
  shows "up_outcome m (execSQL env) P db res db' \<and> wf_db db'"
  using assms
proof (induction P arbitrary: db)
  case Nil
  then show ?case by (auto simp: give_def up_outcome_def)
next
  case (Cons mig P)
  obtain rk db0 where k: "keep m env db = (rk, db0)" by fastforce
  have v: "view db0 = view db" using k by (auto simp: keep_def view_def split: if_splits)
  then have wf0: "wf_db db0" "tExists db0" "tGroupColumn db0 = tGroupColumn db" "tRows db0 = tRows db" "tSchema db0 = tSchema db"
    "fits_table db0 = fits_table db"
    using Cons.prems(1,2) by (auto simp: view_def wf_db_def fits_table_def)
  have mig: "fits_table db0 mig" "mig_key mig \<notin> rec_key ` set (tRows db0)" using Cons.prems(3) wf0(4,6) by simp_all
  show ?case
  proof (cases rk)
    case (Inl e)
    then have "db' = db0" "res \<noteq> Inr ()" using Cons.prems(5) k by (auto simp: andThen_def)
    then show ?thesis using wf0 unfolding up_outcome_def by (intro conjI exI [of _ "[]"] exI [of _ "mig # P"]) auto
  next
    case (Inr u)
    obtain r1 db1 where r1: "runMigrationUp m env mig (tGroupColumn db0) db0 = (r1, db1)" by fastforce
    have step: "up_step m (execSQL env) mig db0 r1 db1" by (rule runMigrationUp_step [OF wf0(1) mig r1])
    note wf1 = up_step_wf [OF wf0(1,2) mig step]
    have run: "(case r1 of Inl e \<Rightarrow> (Inl e, db1) | Inr _ \<Rightarrow> up_loop m env (tGroupColumn db) P db1) = (res, db')"
      using Cons.prems(5) k Inr r1 wf0(3) by (simp add: andThen_def)
    have out: "up_outcome m (execSQL env) (mig # P) db0 res db' \<and> wf_db db'"
    proof (cases r1)
      case (Inl e)
      then show ?thesis using run wf1(1) by (auto intro: up_step_outcome [OF step])
    next
      case (Inr u)
      have "tGroupColumn db1 = tGroupColumn db" using step wf0(3) by (simp add: up_step_def view_def)
      then have loop: "up_loop m env (tGroupColumn db1) P db1 = (res, db')" using run Inr by simp
      have "\<forall>mig' \<in> set P. fits_table db1 mig' \<and> mig_key mig' \<notin> rec_key ` set (tRows db1)"
      proof
        fix mig' assume m': "mig' \<in> set P"
        then have "mig_key mig' \<noteq> mig_key mig" using Cons.prems(4) by (metis distinct.simps(2) image_eqI list.set_map list.simps(9))
        then show "fits_table db1 mig' \<and> mig_key mig' \<notin> rec_key ` set (tRows db1)"
          using m' Cons.prems(3) wf1(3) [of mig'] wf1(4) wf0(4,6) by auto
      qed
      from Cons.IH [OF wf1(1,2) this _ loop] have "up_outcome m (execSQL env) P db1 res db'" "wf_db db'"
        using Cons.prems(4) by simp_all
      then show ?thesis using up_step_outcome [OF step] Inr by auto
    qed
    then show ?thesis using wf0(4,5) by (simp add: up_outcome_def)
  qed
qed

section \<open>Up as a whole\<close>

definition rows_applied :: "MigrationRecord list \<Rightarrow> applied" where
  "rows_applied rs = map (\<lambda>r. (rec_key r, r)) rs"

lemma map_of_recorded: "map_of (rows_applied rs) k = find (\<lambda>r. rec_key r = k) rs"
  by (induction rs) (auto simp: rows_applied_def)

lemma mig_key_order: "mig_key mig = mig_key mig' \<longleftrightarrow> mig_order mig = mig_order mig'"
  by (auto simp: mig_key_def mig_order_def)

lemma pending_facts:
  assumes "registered_ok (migrations m)" "P = pendingMigrations (selectedMigrations m groups) (rows_applied rs)"
  shows "set P = {mig \<in> set (migrations m). groupSelected (mGroup mig) groups \<and> mig_key mig \<notin> rec_key ` set rs}"
    "distinct (map mig_key P)" "sorted (map mig_order P)"
proof -
  have none: "map_of (rows_applied rs) (mig_key mig) = None \<longleftrightarrow> mig_key mig \<notin> rec_key ` set rs" for mig
    by (auto simp: map_of_recorded find_None_iff image_iff)
  show "set P = {mig \<in> set (migrations m). groupSelected (mGroup mig) groups \<and> mig_key mig \<notin> rec_key ` set rs}"
    using none assms(2) by (auto simp: pendingMigrations_def selectedMigrations_def groupSelected_def)
  have "distinct (migrations m)" using assms(1) by (auto simp: registered_ok_def distinct_map)
  then have dist: "distinct P" using assms(2) by (simp add: pendingMigrations_def selectedMigrations_def)
  have "inj_on mig_order (set (migrations m))" using assms(1) by (auto simp: registered_ok_def distinct_map)
  moreover have "set P \<subseteq> set (migrations m)" using assms(2) by (auto simp: pendingMigrations_def selectedMigrations_def split: if_splits)
  ultimately have "inj_on mig_key (set P)" by (auto simp: inj_on_def mig_key_order)
  with dist show "distinct (map mig_key P)" by (simp add: distinct_map)
  show "sorted (map mig_order P)" using assms(2) by (simp add: pendingMigrations_def)
qed

lemma groupAware_fits_table:
  assumes "open_table m env (groupAware m groups) db = (Inr ga, db1)" "mig \<in> set (migrations m)"
  shows "fits_table db1 mig"
  using open_table_Inr(3) [OF assms(1)] assms(2)
  by (auto simp: fits_table_def groupAware_def hasNonDefaultGroup_def list_ex_iff)

definition pending_of :: "Migrator \<Rightarrow> string list \<Rightarrow> 's track_db \<Rightarrow> Migration list" where
  "pending_of m groups db = pendingMigrations (selectedMigrations m (normalizeGroupSelection groups)) (rows_applied (tRows db))"

lemma up_outcome_untouched:
  "tRows db' = tRows db \<Longrightarrow> tSchema db' = tSchema db \<Longrightarrow> res = Inr () \<longrightarrow> P = [] \<Longrightarrow> up_outcome m ex P db res db'"
  unfolding up_outcome_def by (intro exI [of _ "[]"] exI [of _ P]) auto

text \<open>The opening Up and Down share: it stops with the rows and the schema as they were, or goes on with the recorded migrations.\<close>

lemma open_applied:
  assumes wf: "wf_db db"
    and run: "andThen (open_table m env (groupAware m groups)) (\<lambda>ga. andThen (appliedVersions env ga) (K ga)) db = (res, db')"
  obtains (stopped) "res \<noteq> Inr ()" "wf_db db'" "tRows db' = tRows db" "tSchema db' = tSchema db"
      "(\<exists>e db1. open_table m env (groupAware m groups) db = (Inl e, db1)) \<or> (\<exists>n. fate env n \<noteq> Runs)"
  | (opened) db2 where "K (tGroupColumn db2) (rows_applied (tRows db)) db2 = (res, db')" "wf_db db2" "tExists db2"
      "tRows db2 = tRows db" "tSchema db2 = tSchema db" "\<forall>mig \<in> set (migrations m). fits_table db2 mig"
proof -
  obtain ro db1 where o: "open_table m env (groupAware m groups) db = (ro, db1)" by fastforce
  have fr: "framed db db1" using frames_open_table o framesD by blast
  have wf1: "wf_db db1" "tRows db1 = tRows db" "tSchema db1 = tSchema db" using fr wf by (simp_all add: framed_def)
  show thesis
  proof (cases ro)
    case (Inl e)
    then have "res \<noteq> Inr ()" "db' = db1" using run o by (auto simp: andThen_def)
    then show thesis using wf1 stopped o Inl by blast
  next
    case (Inr ga)
    note o = o [unfolded Inr]
    define db2 where "db2 = db1\<lparr>tCalls := tCalls db1 + 1\<rparr>"
    have wf2: "wf_db db2" "tExists db2" "tRows db2 = tRows db" "tSchema db2 = tSchema db" "ga = tGroupColumn db2"
      using wf1 open_table_Inr(1,2) [OF o] by (simp_all add: db2_def)
    have ap: "applied_of ga (tRows db1) = rows_applied (tRows db)"
      using applied_of_wf [OF wf1(1) open_table_Inr(1) [OF o]] wf1(2) by (simp add: rows_applied_def)
    show thesis
    proof (cases "fate env (tCalls db1) = Runs")
      case False
      then have "res \<noteq> Inr ()" "db' = db2" using run o by (auto simp: andThen_def appliedVersions_def query_call_def db2_def)
      then show thesis using wf2 stopped False by blast
    next
      case True
      then have "K ga (rows_applied (tRows db)) db2 = (res, db')"
        using run o ap by (simp add: andThen_def appliedVersions_def query_call_def db2_def)
      moreover have "\<forall>mig \<in> set (migrations m). fits_table db2 mig" using groupAware_fits_table [OF o] by (simp add: db2_def)
      ultimately show thesis using wf2 opened by simp
    qed
  qed
qed

lemma Up_outcome:
  assumes ok: "registered_ok (migrations m)" and wf: "wf_db db" and run: "Up m env groups db = (res, db')"
  shows "up_outcome m (execSQL env) (pending_of m groups db) db res db' \<and> wf_db db'"
proof -
  define gs where "gs = normalizeGroupSelection groups"
  define P where "P = pending_of m groups db"
  have P: "P = pendingMigrations (selectedMigrations m gs) (rows_applied (tRows db))" by (simp add: P_def pending_of_def gs_def)
  consider (early) "res \<noteq> Inr ()" "db' = db" | (go) "up m env (groupAware m gs) gs db = (res, db')"
    using run by (auto simp: Up_def Let_def gs_def [symmetric] stop_def withLeasedLock_eq split: option.splits sum.splits if_splits)
  then have "up_outcome m (execSQL env) P db res db' \<and> wf_db db'"
  proof cases
    case early
    then show ?thesis using wf by (simp add: up_outcome_untouched)
  next
    case go
    from wf go [unfolded up_def] show ?thesis
    proof (cases rule: open_applied)
      case stopped
      then show ?thesis by (simp add: up_outcome_untouched)
    next
      case (opened db2)
      show ?thesis
      proof (cases "checkIntegrity m (rows_applied (tRows db))")
        case (Some e)
        then have "res \<noteq> Inr ()" "db' = db2" using opened(1) by (auto simp: stop_def)
        then show ?thesis using opened by (simp add: up_outcome_untouched)
      next
        case None
        note pf = pending_facts [OF ok P]
        have "\<forall>mig \<in> set P. fits_table db2 mig \<and> mig_key mig \<notin> rec_key ` set (tRows db2)"
          using pf(1) opened(4,6) by auto
        from up_loop_outcome [OF opened(2,3) this pf(2)] opened(1) None
        show ?thesis using opened(4,5) by (simp add: up_outcome_def P)
      qed
    qed
  qed
  then show ?thesis by (simp add: P_def)
qed

section \<open>A dirty row\<close>

definition dirty_own :: "Migrator \<Rightarrow> 's track_db \<Rightarrow> bool" where
  "dirty_own m db \<longleftrightarrow> (\<exists>r \<in> set (tRows db). rDirty r \<and> own_group m (rGroup r))"

lemma list_ex_recorded: "list_ex (\<lambda>(_, r). Q r) (rows_applied rs) \<longleftrightarrow> (\<exists>r \<in> set rs. Q r)"
  by (auto simp: rows_applied_def list_ex_iff)

lemma checkIntegrity_dirty: "dirty_own m db \<Longrightarrow> checkIntegrity m (rows_applied (tRows db)) = Some ErrDirty"
  by (auto simp: checkIntegrity_def list_ex_recorded dirty_own_def)

lemma Up_dirty:
  assumes "wf_db db" "dirty_own m db" "Up m env groups db = (res, db')"
  shows "res \<noteq> Inr () \<and> tRows db' = tRows db \<and> tSchema db' = tSchema db"
proof -
  define gs where "gs = normalizeGroupSelection groups"
  consider (early) "res \<noteq> Inr ()" "db' = db" | (go) "up m env (groupAware m gs) gs db = (res, db')"
    using assms(3) by (auto simp: Up_def Let_def gs_def [symmetric] stop_def withLeasedLock_eq split: option.splits sum.splits if_splits)
  then show ?thesis
  proof cases
    case go
    from assms(1) go [unfolded up_def] show ?thesis
      by (cases rule: open_applied) (auto simp: checkIntegrity_dirty [OF assms(2)] stop_def)
  qed simp
qed

lemma Down_dirty:
  assumes "wf_db db" "dirty_own m db" "Down m env n groups db = (res, db')"
  shows "res \<noteq> Inr () \<and> tRows db' = tRows db \<and> tSchema db' = tSchema db"
proof -
  define gs where "gs = normalizeGroupSelection groups"
  consider (early) "res \<noteq> Inr ()" "db' = db" | (go) "down m env n (groupAware m gs) gs db = (res, db')"
    using assms(3) by (auto simp: Down_def Let_def gs_def [symmetric] stop_def withLeasedLock_eq split: option.splits sum.splits if_splits)
  then show ?thesis
  proof cases
    case go
    have "list_ex (\<lambda>(_, r). rDirty r \<and> own_group m (rGroup r)) (rows_applied (tRows db))"
      using assms(2) by (simp add: list_ex_recorded dirty_own_def)
    then have dirty: "(if list_ex (\<lambda>(_, r). rDirty r \<and> own_group m (rGroup r)) (rows_applied (tRows db)) then stop ErrDirty else p) = stop ErrDirty"
      for p :: "('a, unit) mig_prog" by simp
    from assms(1) go [unfolded down_def] show ?thesis
      by (cases rule: open_applied) (auto simp: dirty stop_def)
  qed simp
qed

section \<open>Exactly once\<close>

definition run_ups :: "Migrator \<Rightarrow> ('s mig_env \<times> string list) list \<Rightarrow> 's track_db \<Rightarrow> 's track_db" where
  "run_ups m runs db = fold (\<lambda>(env, groups) db. snd (Up m env groups db)) runs db"

definition tracked :: "Migrator \<Rightarrow> (string \<Rightarrow> 's \<Rightarrow> bool \<times> 's) \<Rightarrow> 's \<Rightarrow> 's track_db \<Rightarrow> bool" where
  "tracked m ex s0 db \<longleftrightarrow>
     (\<exists>ran s. distinct ran \<and> set ran \<subseteq> set (migrations m) \<and> schema_after m ex ran s0 = Some s \<and>
       (map track_entry (tRows db) = map (mig_entry False) ran \<and> tSchema db = s
      \<or> (\<exists>mig n. mig \<in> set (migrations m) - set ran \<and> mNoTransaction mig
           \<and> map track_entry (tRows db) = map (mig_entry False) ran @ [mig_entry True mig]
           \<and> tSchema db = snd (sql_list ex (take n (up_statements m mig)) s))))"

lemma schema_after_append:
  "schema_after m ex (xs @ ys) s = (case schema_after m ex xs s of None \<Rightarrow> None | Some s' \<Rightarrow> schema_after m ex ys s')"
  by (induction xs arbitrary: s) (auto split: prod.splits)

lemma entry_key: "fst (track_entry r) = rec_key r" "fst (mig_entry d mig) = mig_key mig"
  by (simp_all add: track_entry_def mig_entry_def)

lemma entries_keys: "map track_entry rs = es \<Longrightarrow> rec_key ` set rs = fst ` set es"
  by (drule sym) (simp add: entry_key image_image)

lemma own_group_registered: "mig \<in> set (migrations m) \<Longrightarrow> own_group m (mGroup mig)"
  by (simp add: own_group_def)

lemma tracked_Up:
  assumes ok: "registered_ok (migrations m)" and wf: "wf_db db" and tr: "tracked m (execSQL env) s0 db" and run: "Up m env groups db = (res, db')"
  shows "tracked m (execSQL env) s0 db'"
proof -
  let ?ex = "execSQL env"
  from tr obtain ran s where t: "distinct ran" "set ran \<subseteq> set (migrations m)" "schema_after m ?ex ran s0 = Some s"
    and rows: "map track_entry (tRows db) = map (mig_entry False) ran \<and> tSchema db = s
      \<or> (\<exists>mig n. mig \<in> set (migrations m) - set ran \<and> mNoTransaction mig
           \<and> map track_entry (tRows db) = map (mig_entry False) ran @ [mig_entry True mig]
           \<and> tSchema db = snd (sql_list ?ex (take n (up_statements m mig)) s))"
    unfolding tracked_def by blast
  show ?thesis
  proof (cases "dirty_own m db")
    case True
    then show ?thesis using Up_dirty [OF wf True run] tr by (simp add: tracked_def)
  next
    case False
    have "\<not> (\<exists>mig \<in> set (migrations m). map track_entry (tRows db) = map (mig_entry False) ran @ [mig_entry True mig])"
    proof
      assume "\<exists>mig \<in> set (migrations m). map track_entry (tRows db) = map (mig_entry False) ran @ [mig_entry True mig]"
      then obtain mig where mig: "mig \<in> set (migrations m)" "map track_entry (tRows db) = map (mig_entry False) ran @ [mig_entry True mig]" by blast
      have "mig_entry True mig \<in> track_entry ` set (tRows db)"
        unfolding set_map [symmetric] mig(2) by simp
      then obtain r where "r \<in> set (tRows db)" "track_entry r = mig_entry True mig" by auto
      then have "dirty_own m db"
        using own_group_registered [OF mig(1)] unfolding dirty_own_def
        by (intro bexI [of _ r]) (auto simp: track_entry_def mig_entry_def rec_key_def mig_key_def)
      with False show False ..
    qed
    with rows have clean: "map track_entry (tRows db) = map (mig_entry False) ran" "tSchema db = s" by auto
    define P where "P = pending_of m groups db"
    note pf = pending_facts [OF ok P_def [unfolded pending_of_def]]
    have "rec_key ` set (tRows db) = mig_key ` set ran"
      using entries_keys [OF clean(1)] by (simp add: image_image entry_key)
    then have P: "set P \<inter> set ran = {}" "set P \<subseteq> set (migrations m)" "distinct P" using pf(1,2) by (auto simp: distinct_map)
    from Up_outcome [OF ok wf run] obtain ran' rest s' where o: "P = ran' @ rest" "schema_after m ?ex ran' s = Some s'"
      and rows': "map track_entry (tRows db') = map (mig_entry False) ran @ map (mig_entry False) ran' \<and> tSchema db' = s'
       \<or> (\<exists>mig rest' n. rest = mig # rest' \<and> mNoTransaction mig
            \<and> map track_entry (tRows db') = map (mig_entry False) ran @ map (mig_entry False) ran' @ [mig_entry True mig]
            \<and> tSchema db' = snd (sql_list ?ex (take n (up_statements m mig)) s'))"
      unfolding up_outcome_def P_def clean by blast
    have "distinct (ran @ ran')" "set (ran @ ran') \<subseteq> set (migrations m)" "schema_after m ?ex (ran @ ran') s0 = Some s'"
      "\<And>mig rest'. rest = mig # rest' \<Longrightarrow> mig \<in> set (migrations m) - set (ran @ ran')"
      using P o t by (auto simp: schema_after_append)
    then show ?thesis
      using rows' unfolding tracked_def by (intro exI [of _ "ran @ ran'"] exI [of _ s']) (simp, blast)
  qed
qed

lemma tracked_runs:
  assumes ok: "registered_ok (migrations m)"
  shows "wf_db db \<Longrightarrow> tracked m ex s0 db \<Longrightarrow> \<forall>run \<in> set runs. execSQL (fst run) = ex \<Longrightarrow> tracked m ex s0 (run_ups m runs db)"
proof (induction runs arbitrary: db)
  case (Cons run runs)
  obtain env groups where r: "run = (env, groups)" by fastforce
  obtain res db' where u: "Up m env groups db = (res, db')" by fastforce
  have ex: "execSQL env = ex" using Cons.prems(3) r by simp
  have "wf_db db'" using Up_outcome [OF ok Cons.prems(1) u] by simp
  moreover have "tracked m ex s0 db'" using tracked_Up [OF ok Cons.prems(1) _ u] Cons.prems(2) ex by simp
  ultimately show ?case using Cons.IH [of db'] Cons.prems(3) r u by (simp add: run_ups_def)
qed (simp add: run_ups_def)

section \<open>Force\<close>

lemma key_is_key:
  assumes "wf_db db" "g = [] \<or> tGroupColumn db \<and> tComposite db" "r \<in> set (tRows db)"
  shows "key_is (tGroupColumn db) g v r \<longleftrightarrow> rec_key r = (g, v)"
  using assms by (auto simp: wf_db_def key_is_def rec_key_def)

lemma force_Inr:
  assumes wf: "wf_db db" and g: "g \<noteq> [] \<Longrightarrow> ga" and run: "force m env ga g v app db = (Inr (), db')"
  shows "tSchema db' = tSchema db
    \<and> map track_entry (tRows db') =
        (if \<not> app then map track_entry (filter (\<lambda>r. rec_key r \<noteq> (g, v)) (tRows db))
         else if (g, v) \<in> rec_key ` set (tRows db)
         then map (\<lambda>r. if rec_key r = (g, v) then ((g, v), fst (forced_name m g v), snd (forced_name m g v), False) else track_entry r) (tRows db)
         else map track_entry (tRows db) @ [((g, v), fst (forced_name m g v), snd (forced_name m g v), False)])"
proof -
  obtain tga db1 where o: "open_table m env ga db = (Inr tga, db1)"
    and b: "(if \<not> app then exec_call env (\<lambda>db. (True, db\<lparr>tRows := filter (\<lambda>r. \<not> key_is tga g v r) (tRows db)\<rparr>))
       else case forced_name m g v of (name, checksum) \<Rightarrow> exec_call env (force_row env tga g v name checksum)) db1 = (Inr (), db')"
    using run unfolding force_def andThen_Inr by blast
  have "framed db db1" using frames_open_table o framesD by blast
  then have wf1: "wf_db db1" "tRows db1 = tRows db" "tSchema db1 = tSchema db" using wf by (simp_all add: framed_def)
  have tga: "tga = tGroupColumn db1" by (rule open_table_Inr(1) [OF o])
  have g1: "g = [] \<or> tGroupColumn db1 \<and> tComposite db1" using open_table_Inr(3) [OF o] g by blast
  note key = key_is_key [OF wf1(1) g1, unfolded wf1(2) tga [symmetric]]
  have filt: "filter (\<lambda>r. \<not> key_is tga g v r) (tRows db) = filter (\<lambda>r. rec_key r \<noteq> (g, v)) (tRows db)"
    using key by (intro filter_cong) auto
  show ?thesis
  proof (cases app)
    case False
    then show ?thesis using b wf1 filt by (auto simp: exec_call_Inr)
  next
    case True
    obtain name checksum where nc: "forced_name m g v = (name, checksum)" by fastforce
    have ex: "list_ex (key_is tga g v) (tRows db) \<longleftrightarrow> (g, v) \<in> rec_key ` set (tRows db)"
      using key unfolding list_ex_iff by (metis (no_types, lifting) image_iff)
    have up: "map track_entry (map (\<lambda>r. if key_is tga g v r then r\<lparr>rDirty := False, rName := name, rChecksum := checksum\<rparr> else r) (tRows db))
        = map (\<lambda>r. if rec_key r = (g, v) then ((g, v), name, checksum, False) else track_entry r) (tRows db)"
      using key by (auto simp: track_entry_def rec_key_def)
    have grp: "(if tga then g else []) = g" using g1 tga by auto
    show ?thesis
      using b True nc wf1 ex up grp by (auto simp: exec_call_Inr force_row_def split: if_splits) (auto simp: track_entry_def rec_key_def)
  qed
qed

lemma Force_force:
  assumes "Force m env v app groups db = (Inr (), db')" "groups = [] \<and> g = [] \<or> groups = [g] \<and> g \<noteq> defaultGroupAlias"
  shows "\<exists>ga. force m env ga g v app db = (Inr (), db') \<and> (g \<noteq> [] \<longrightarrow> ga)"
  using assms
  by (auto simp: Force_def normalizeGroupSelection_def stop_def withLeasedLock_eq Let_def groupAware_def
      split: option.splits sum.splits if_splits)

section \<open>One migration down\<close>

lemma lookup_registered:
  "lookup_migration m k = Some mig \<Longrightarrow> mig \<in> set (migrations m) \<and> mig_key mig = k"
  by (auto simp: lookup_migration_def dest!: map_of_SomeD)

lemma lookup_None: "lookup_migration m k = None \<longleftrightarrow> k \<notin> mig_key ` set (migrations m)"
  by (auto simp: lookup_migration_def map_of_eq_None_iff image_image)

definition mark_dirty :: "string \<times> nat \<Rightarrow> MigrationRecord \<Rightarrow> MigrationRecord" where
  "mark_dirty k r = (if rec_key r = k then r\<lparr>rDirty := True\<rparr> else r)"

definition down_step :: "Migrator \<Rightarrow> (string \<Rightarrow> 's \<Rightarrow> bool \<times> 's) \<Rightarrow> Migration \<Rightarrow> 's track_db \<Rightarrow> run_error + unit \<Rightarrow> 's track_db \<Rightarrow> bool" where
  "down_step m ex mig db res db' \<longleftrightarrow> fst (view db') = fst (view db) \<and>
     (res \<noteq> Inr () \<and> tRows db' = tRows db \<and> tSchema db' = tSchema db
    \<or> tRows db' = filter (\<lambda>r. rec_key r \<noteq> mig_key mig) (tRows db) \<and> sql_list ex (down_statements m mig) (tSchema db) = (True, tSchema db')
    \<or> res \<noteq> Inr () \<and> mNoTransaction mig \<and> tRows db' = map (mark_dirty (mig_key mig)) (tRows db)
        \<and> (\<exists>n. tSchema db' = snd (sql_list ex (take n (down_statements m mig)) (tSchema db))))"

lemma delete_row_key:
  assumes "wf_db db" "fits_table db mig"
  shows "delete_row (tGroupColumn db) mig db = (True, db\<lparr>tRows := filter (\<lambda>r. rec_key r \<noteq> mig_key mig) (tRows db)\<rparr>)"
proof -
  have "filter (\<lambda>r. \<not> row_is (tGroupColumn db) mig r) (tRows db) = filter (\<lambda>r. rec_key r \<noteq> mig_key mig) (tRows db)"
    using row_is_key [OF assms] by (intro filter_cong) auto
  then show ?thesis by (simp add: delete_row_def)
qed

lemma set_dirty_key:
  assumes "wf_db db" "fits_table db mig"
  shows "set_dirty (tGroupColumn db) mig True db = (True, db\<lparr>tRows := map (mark_dirty (mig_key mig)) (tRows db)\<rparr>)"
proof -
  have "map (\<lambda>r. if row_is (tGroupColumn db) mig r then r\<lparr>rDirty := True\<rparr> else r) (tRows db) = map (mark_dirty (mig_key mig)) (tRows db)"
    using row_is_key [OF assms] by (intro map_cong) (auto simp: mark_dirty_def)
  then show ?thesis by (simp add: set_dirty_def)
qed

lemma rec_key_mark [simp]: "rec_key (mark_dirty k r) = rec_key r" "rGroup (mark_dirty k r) = rGroup r"
  by (simp_all add: mark_dirty_def rec_key_def)

lemma wf_mark:
  assumes "wf_db db" "fst (view db') = fst (view db)" "tRows db' = map (mark_dirty k) (tRows db)"
  shows "wf_db db'"
  using assms by (simp add: wf_db_def view_def comp_def)

lemma wf_filter:
  assumes "wf_db db" "fst (view db') = fst (view db)" "tRows db' = filter Q (tRows db)"
  shows "wf_db db'"
  using assms by (auto simp: wf_db_def view_def distinct_map_filter)

lemma fits_table_view: "fst (view db') = fst (view db) \<Longrightarrow> fits_table db' = fits_table db"
  by (auto simp: fits_table_def view_def)

lemma runDown_tx:
  assumes wf: "wf_db db" "fits_table db mig" "\<not> mNoTransaction mig" and run: "runMigrationDown m env mig (tGroupColumn db) db = (res, db')"
  shows "down_step m (execSQL env) mig db res db'"
proof -
  have "in_tx env (andThen (exec_call env (run_sql env (mDown mig))) (\<lambda>_. exec_call env (delete_row (tGroupColumn db) mig))) db = (res, db')"
    using run wf(3) by (simp add: runMigrationDown_def)
  then show ?thesis
  proof (cases rule: in_tx_cases)
    case 1
    then show ?thesis by (simp add: down_step_def view_def)
  next
    case (2 db2)
    then obtain db1 where db1: "exec_call env (run_sql env (mDown mig)) (db\<lparr>tCalls := tCalls db + 1\<rparr>) = (Inr (), db1)"
      "exec_call env (delete_row (tGroupColumn db) mig) db1 = (Inr (), db2)" by (auto simp: andThen_Inr)
    obtain s where s: "execSQL env (mDown mig) (tSchema db) = (True, s)" "view db1 = with_schema db s"
      using db1(1) by (auto simp: exec_call_Inr run_sql_def view_def with_schema_def split: prod.splits)
    define db3 where "db3 = db1\<lparr>tCalls := tCalls db1 + 1\<rparr>"
    have view3: "view db3 = with_schema db s" using s(2) by (simp add: db3_def view_def with_schema_def)
    then have "wf_db db3" "fits_table db3 mig" "tGroupColumn db3 = tGroupColumn db"
      using wf by (simp_all add: view_def with_schema_def wf_db_def fits_table_def)
    from delete_row_key [OF this(1,2)] this(3)
    have "db2 = db3\<lparr>tRows := filter (\<lambda>r. rec_key r \<noteq> mig_key mig) (tRows db3)\<rparr>" using db1(2) by (simp add: exec_call_Inr db3_def)
    then have "view db' = (fst (view db), filter (\<lambda>r. rec_key r \<noteq> mig_key mig) (tRows db), s)"
      using 2(2) view3 by (simp add: view_def with_schema_def)
    then show ?thesis using s(1) wf(3) by (auto simp: down_step_def view_def down_statements_def)
  qed
qed

lemma runDown_noTx:
  assumes wf: "wf_db db" "fits_table db mig" "mNoTransaction mig" and run: "runMigrationDown m env mig (tGroupColumn db) db = (res, db')"
  shows "down_step m (execSQL env) mig db res db'"
proof -
  let ?ga = "tGroupColumn db" and ?k = "mig_key mig"
  define db0 where "db0 = db\<lparr>tCalls := tCalls db + 1\<rparr>"
  define db2 where "db2 = db0\<lparr>tRows := map (mark_dirty ?k) (tRows db0)\<rparr>"
  have mark: "set_dirty ?ga mig True (db\<lparr>tCalls := tCalls db + 1\<rparr>) = (True, db2)"
    using set_dirty_key [of db0 mig] wf by (simp add: db2_def db0_def)
  have view2: "view db2 = (fst (view db), map (mark_dirty ?k) (tRows db), tSchema db)" by (simp add: db2_def db0_def view_def)
  obtain r1 db1 where e1: "exec_call env (set_dirty ?ga mig True) db = (r1, db1)" by fastforce
  have all: "runMigrationDown m env mig ?ga db = (case r1 of Inl e \<Rightarrow> (Inl e, db1) | Inr _ \<Rightarrow>
      andThen (run_noTx m env (mDown mig)) (\<lambda>_. exec_call env (delete_row ?ga mig)) db1)"
    using wf(3) e1 by (simp add: runMigrationDown_def runMigrationDownNoTx_def andThen_def split: sum.splits)
  from e1 mark show ?thesis
  proof (cases rule: exec_call_cases)
    case 1
    then show ?thesis using all run by (cases r1) (auto simp: down_step_def view_def)
  next
    case 3
    then have "res \<noteq> Inr ()" "db' = db2" using all run by (cases r1; simp)+
    then show ?thesis using view2 wf(3) by (auto simp: down_step_def view_def intro!: exI [of _ "0 :: nat"])
  next
    case 2
    with all run have body: "andThen (run_noTx m env (mDown mig)) (\<lambda>_. exec_call env (delete_row ?ga mig)) db2 = (res, db')" by simp
    obtain r4 db4 where e4: "run_noTx m env (mDown mig) db2 = (r4, db4)" by fastforce
    from run_noTx_sql [OF e4] obtain n where n: "view db4 = with_schema db2 (snd (sql_list (execSQL env) (take n (down_statements m mig)) (tSchema db)))"
      "r4 = Inr () \<longrightarrow> sql_list (execSQL env) (down_statements m mig) (tSchema db) = (True, tSchema db4)"
      using view2 wf(3) by (auto simp: down_statements_def view_def)
    have half: "down_step m (execSQL env) mig db res db'" if "res \<noteq> Inr ()" "view db' = view db4"
      using that n(1) view2 wf(3) by (auto simp: down_step_def view_def with_schema_def)
    show ?thesis
    proof (cases r4)
      case (Inl e)
      then show ?thesis using body e4 half by (auto simp: andThen_def)
    next
      case (Inr u)
      then have last: "exec_call env (delete_row ?ga mig) db4 = (res, db')" using body e4 by (simp add: andThen_def)
      have v4: "tRows db4 = map (mark_dirty ?k) (tRows db)" "fst (view db4) = fst (view db)"
        using n(1) view2 by (simp_all add: with_schema_def view_def)
      define db5 where "db5 = db4\<lparr>tCalls := tCalls db4 + 1\<rparr>"
      have "wf_db db5" "fits_table db5 mig" "tGroupColumn db5 = ?ga" "tRows db5 = tRows db4" "fst (view db5) = fst (view db)" "tSchema db5 = tSchema db4"
        using wf_mark [OF wf(1) v4(2,1)] fits_table_view [OF v4(2)] wf(2) v4(2) by (simp_all add: db5_def view_def)
      moreover have "filter (\<lambda>r. rec_key r \<noteq> ?k) (map (mark_dirty ?k) rs) = filter (\<lambda>r. rec_key r \<noteq> ?k) rs" for rs
        by (induction rs) (auto simp: mark_dirty_def rec_key_def)
      ultimately obtain db6 where db6: "delete_row ?ga mig (db4\<lparr>tCalls := tCalls db4 + 1\<rparr>) = (True, db6)"
        "view db6 = (fst (view db), filter (\<lambda>r. rec_key r \<noteq> ?k) (tRows db), tSchema db4)"
        using delete_row_key [of db5 mig] v4(1) by (simp add: db5_def view_def)
      from last db6(1) show ?thesis
      proof (cases rule: exec_call_cases)
        case 1
        then show ?thesis by (intro half) (simp_all add: view_def)
      qed (use db6(2) n(2) Inr in \<open>auto simp: down_step_def view_def\<close>)
    qed
  qed
qed

section \<open>A run of Down\<close>

fun schema_back :: "Migrator \<Rightarrow> (string \<Rightarrow> 's \<Rightarrow> bool \<times> 's) \<Rightarrow> (string \<times> nat) list \<Rightarrow> 's \<Rightarrow> 's option" where
  "schema_back m ex [] s = Some s"
| "schema_back m ex (k # ks) s =
     (case lookup_migration m k of
        None \<Rightarrow> None
      | Some mig \<Rightarrow> (case sql_list ex (down_statements m mig) s of (ok, s') \<Rightarrow> if ok then schema_back m ex ks s' else None))"

definition down_outcome ::
  "Migrator \<Rightarrow> (string \<Rightarrow> 's \<Rightarrow> bool \<times> 's) \<Rightarrow> (string \<times> nat) list \<Rightarrow> 's track_db \<Rightarrow> run_error + unit \<Rightarrow> 's track_db \<Rightarrow> bool" where
  "down_outcome m ex ks db res db' \<longleftrightarrow>
     (\<exists>ran rest s. ks = ran @ rest \<and> (res = Inr () \<longrightarrow> rest = []) \<and> schema_back m ex ran (tSchema db) = Some s \<and>
        (tRows db' = filter (\<lambda>r. rec_key r \<notin> set ran) (tRows db) \<and> tSchema db' = s
       \<or> (\<exists>mig rest' n. rest = mig_key mig # rest' \<and> lookup_migration m (mig_key mig) = Some mig \<and> mNoTransaction mig
            \<and> tRows db' = map (mark_dirty (mig_key mig)) (filter (\<lambda>r. rec_key r \<notin> set ran) (tRows db))
            \<and> tSchema db' = snd (sql_list ex (take n (down_statements m mig)) s))))"

lemma down_step_wf:
  assumes "wf_db db" "down_step m ex mig db res db'"
  shows "wf_db db'" "fits_table db' = fits_table db" "tGroupColumn db' = tGroupColumn db"
proof -
  have v: "fst (view db') = fst (view db)" using assms(2) by (simp add: down_step_def)
  show "fits_table db' = fits_table db" using v by (rule fits_table_view)
  show "tGroupColumn db' = tGroupColumn db" using v by (simp add: view_def)
  have "filter (\<lambda>_. True) (tRows db) = tRows db" by simp
  then show "wf_db db'"
    using assms(2) wf_mark [OF assms(1) v] wf_filter [OF assms(1) v] unfolding down_step_def by metis
qed

lemma down_step_outcome:
  assumes "lookup_migration m k = Some mig" "down_step m ex mig db res1 db1"
    "res1 = Inr () \<Longrightarrow> down_outcome m ex ks db1 res db'" "res1 \<noteq> Inr () \<Longrightarrow> res \<noteq> Inr () \<and> db' = db1"
  shows "down_outcome m ex (k # ks) db res db'"
proof -
  have k: "mig_key mig = k" using lookup_registered [OF assms(1)] by simp
  consider (none) "res1 \<noteq> Inr ()" "tRows db1 = tRows db" "tSchema db1 = tSchema db"
    | (clean) "tRows db1 = filter (\<lambda>r. rec_key r \<noteq> k) (tRows db)" "sql_list ex (down_statements m mig) (tSchema db) = (True, tSchema db1)"
    | (half) n where "res1 \<noteq> Inr ()" "mNoTransaction mig" "tRows db1 = map (mark_dirty k) (tRows db)"
        "tSchema db1 = snd (sql_list ex (take n (down_statements m mig)) (tSchema db))"
    using assms(2) k by (auto simp: down_step_def)
  then show ?thesis
  proof cases
    case none
    then show ?thesis using assms(4) unfolding down_outcome_def by (intro exI [of _ "[]"] exI [of _ "k # ks"]) auto
  next
    case half
    then show ?thesis using assms(1,4) k unfolding down_outcome_def by (intro exI [of _ "[]"] exI [of _ "k # ks"]) auto
  next
    case clean
    show ?thesis
    proof (cases "res1 = Inr ()")
      case False
      then show ?thesis using assms(1,4) clean unfolding down_outcome_def by (intro exI [of _ "[k]"] exI [of _ ks]) auto
    next
      case True
      have both: "filter (\<lambda>r. rec_key r \<notin> set ran) (tRows db1) = filter (\<lambda>r. rec_key r \<notin> set (k # ran)) (tRows db)" for ran
        unfolding clean(1) filter_filter by (rule filter_cong) auto
      from True obtain ran rest s where o: "ks = ran @ rest" "res = Inr () \<longrightarrow> rest = []" "schema_back m ex ran (tSchema db1) = Some s"
        "tRows db' = filter (\<lambda>r. rec_key r \<notin> set (k # ran)) (tRows db) \<and> tSchema db' = s
         \<or> (\<exists>mig rest' n. rest = mig_key mig # rest' \<and> lookup_migration m (mig_key mig) = Some mig \<and> mNoTransaction mig
            \<and> tRows db' = map (mark_dirty (mig_key mig)) (filter (\<lambda>r. rec_key r \<notin> set (k # ran)) (tRows db))
            \<and> tSchema db' = snd (sql_list ex (take n (down_statements m mig)) s))"
        using assms(3) unfolding down_outcome_def both by blast
      then show ?thesis using assms(1) clean(2) unfolding down_outcome_def
        by (intro exI [of _ "k # ran"] exI [of _ rest] exI [of _ s]) (simp del: list.set)
    qed
  qed
qed

lemma down_loop_outcome:
  assumes "wf_db db" "\<forall>mig \<in> set (migrations m). fits_table db mig" "down_loop m env (tGroupColumn db) ks db = (res, db')"
  shows "down_outcome m (execSQL env) ks db res db' \<and> wf_db db'"
  using assms
proof (induction ks arbitrary: db)
  case Nil
  then show ?case by (auto simp: give_def down_outcome_def)
next
  case (Cons k ks)
  have stays: "down_outcome m ex (k # ks) db r d" if "r \<noteq> Inr ()" "tRows d = tRows db" "tSchema d = tSchema db" for ex r d
    using that unfolding down_outcome_def by (intro exI [of _ "[]"] exI [of _ "k # ks"]) auto
  show ?case
  proof (cases "lookup_migration m k")
    case None
    then have "res \<noteq> Inr ()" "db' = db" using Cons.prems(3) by (auto simp: stop_def)
    then show ?thesis using stays Cons.prems(1) by simp
  next
    case (Some mig)
    obtain rk db0 where k: "keep m env db = (rk, db0)" by fastforce
    have v: "view db0 = view db" using k by (auto simp: keep_def view_def split: if_splits)
    then have wf0: "wf_db db0" "tGroupColumn db0 = tGroupColumn db" "tRows db0 = tRows db" "tSchema db0 = tSchema db" "fits_table db0 = fits_table db"
      using Cons.prems(1) by (auto simp: view_def wf_db_def fits_table_def)
    show ?thesis
    proof (cases rk)
      case (Inl e)
      then have "db' = db0" "res \<noteq> Inr ()" using Cons.prems(3) k Some by (auto simp: andThen_def)
      then show ?thesis using wf0 stays by simp
    next
      case (Inr u)
      obtain r1 db1 where r1: "runMigrationDown m env mig (tGroupColumn db0) db0 = (r1, db1)" by fastforce
      have "fits_table db0 mig" using lookup_registered [OF Some] Cons.prems(2) wf0(5) by simp
      then have step: "down_step m (execSQL env) mig db0 r1 db1"
        using runDown_tx runDown_noTx wf0(1) r1 by (cases "mNoTransaction mig") blast+
      note wf1 = down_step_wf [OF wf0(1) step]
      have run: "(case r1 of Inl e \<Rightarrow> (Inl e, db1) | Inr _ \<Rightarrow> down_loop m env (tGroupColumn db1) ks db1) = (res, db')"
        using Cons.prems(3) k Inr r1 wf0(2) wf1(3) Some by (auto simp: andThen_def split: sum.splits)
      have "down_outcome m (execSQL env) (k # ks) db0 res db' \<and> wf_db db'"
      proof (cases r1)
        case (Inl e)
        then show ?thesis using run wf1(1) by (auto intro: down_step_outcome [OF Some step])
      next
        case (Inr u)
        then have "down_loop m env (tGroupColumn db1) ks db1 = (res, db')" using run by simp
        from Cons.IH [OF wf1(1) _ this] have "down_outcome m (execSQL env) ks db1 res db'" "wf_db db'"
          using Cons.prems(2) wf1(2) wf0(5) by simp_all
        then show ?thesis using down_step_outcome [OF Some step] Inr by auto
      qed
      then show ?thesis using wf0(3,4) by (simp add: down_outcome_def)
    qed
  qed
qed

definition rollback_of :: "Migrator \<Rightarrow> int \<Rightarrow> string list \<Rightarrow> 's track_db \<Rightarrow> (string \<times> nat) list" where
  "rollback_of m n groups db = take (nat n) (rollback_keys m (normalizeGroupSelection groups) (rows_applied (tRows db)))"

lemma Down_outcome:
  assumes wf: "wf_db db" and run: "Down m env n groups db = (res, db')"
  shows "down_outcome m (execSQL env) (rollback_of m n groups db) db res db' \<and> wf_db db'
    \<and> (tRows db' \<noteq> tRows db \<or> tSchema db' \<noteq> tSchema db \<longrightarrow> \<not> list_ex (no_down m) (rollback_of m n groups db))"
proof -
  define gs where "gs = normalizeGroupSelection groups"
  define ks where "ks = rollback_of m n groups db"
  have ks: "ks = take (nat n) (rollback_keys m gs (rows_applied (tRows db)))" by (simp add: ks_def rollback_of_def gs_def)
  have stays: "down_outcome m ex ks db res d" if "res \<noteq> Inr ()" "tRows d = tRows db" "tSchema d = tSchema db" for ex d
    using that unfolding down_outcome_def by (intro exI [of _ "[]"] exI [of _ ks]) auto
  consider (early) "res \<noteq> Inr ()" "db' = db" | (go) "down m env n (groupAware m gs) gs db = (res, db')"
    using run by (auto simp: Down_def Let_def gs_def [symmetric] stop_def withLeasedLock_eq split: option.splits sum.splits if_splits)
  then have "down_outcome m (execSQL env) ks db res db' \<and> wf_db db' \<and> (tRows db' \<noteq> tRows db \<or> tSchema db' \<noteq> tSchema db \<longrightarrow> \<not> list_ex (no_down m) ks)"
  proof cases
    case early
    then show ?thesis using wf stays by simp
  next
    case go
    from wf go [unfolded down_def] show ?thesis
    proof (cases rule: open_applied)
      case stopped
      then show ?thesis using stays by simp
    next
      case (opened db2)
      show ?thesis
      proof (cases "list_ex (\<lambda>(_, r). rDirty r \<and> own_group m (rGroup r)) (rows_applied (tRows db)) \<or> list_ex (no_down m) ks")
        case True
        then have "res \<noteq> Inr ()" "db' = db2" using opened(1) by (auto simp: stop_def Let_def ks split: if_splits)
        then show ?thesis using opened(2,4,5) stays by simp
      next
        case False
        then have "down_loop m env (tGroupColumn db2) ks db2 = (res, db')" using opened(1) by (simp add: Let_def ks)
        from down_loop_outcome [OF opened(2,6) this] show ?thesis
          using opened(4,5) False by (simp add: down_outcome_def)
      qed
    qed
  qed
  then show ?thesis by (simp add: ks_def)
qed

end
