(* ===== verification/MigrateRuns.thy ===== *)
theory MigrateRuns
  imports MigrateRunner
begin

text \<open>
  Whole runs of the migrator: runs in which nothing fails complete, interrupted and repeated runs never lose track of the schema,
  Down undoes Up, a dirty row stops everything until it is forced, and Status tells what Up will do.
\<close>

section \<open>A run in which nothing fails\<close>

definition faultless :: "Migrator \<Rightarrow> 's mig_env \<Rightarrow> bool" where
  "faultless m env \<longleftrightarrow> fate env = (\<lambda>_. Runs) \<and> leaseLost env = (\<lambda>_. False) \<and> lock_taken m env \<and> \<not> caseKept env
     \<and> SafeIdent (keyName env) = Inr (keyName env)
     \<and> (\<exists>t. SafeIdent ((if fst (sqliteTableParts m) \<noteq> [] then fst (sqliteTableParts m) @ ''.'' else []) @ snd (sqliteTableParts m) @ ''__grp_upg'') = Inr t)"

definition succeeds :: "('s, 'a) mig_prog \<Rightarrow> bool" where
  "succeeds p \<longleftrightarrow> (\<forall>db. \<exists>a db'. p db = (Inr a, db'))"

named_theorems succeeds_intro

lemma succeeds_give [succeeds_intro]: "succeeds (give a)"
  by (simp add: succeeds_def give_def)

lemma succeeds_andThen [succeeds_intro]: "succeeds p \<Longrightarrow> (\<And>a. succeeds (f a)) \<Longrightarrow> succeeds (andThen p f)"
  unfolding succeeds_def andThen_Inr by meson

lemma succeeds_exec [succeeds_intro]: "faultless m env \<Longrightarrow> (\<And>db. fst (f db)) \<Longrightarrow> succeeds (exec_call env f)"
  unfolding succeeds_def exec_call_Inr faultless_def by (metis prod.collapse)

lemma succeeds_query [succeeds_intro]: "faultless m env \<Longrightarrow> succeeds (query_call env g)"
  by (simp add: succeeds_def query_call_def faultless_def)

lemma in_tx_succeeds:
  "faultless m env \<Longrightarrow> p (db\<lparr>tCalls := tCalls db + 1\<rparr>) = (Inr (), db2) \<Longrightarrow> \<exists>db'. in_tx env p db = (Inr (), db')"
  by (auto simp: in_tx_def andThen_def query_call_def faultless_def Let_def)

lemma succeeds_in_tx [succeeds_intro]: "faultless m env \<Longrightarrow> succeeds p \<Longrightarrow> succeeds (in_tx env p)"
  unfolding succeeds_def using in_tx_succeeds by (metis (full_types) old.unit.exhaust)

lemma succeeds_createMigrationsTable:
  assumes env: "faultless m env"
  shows "succeeds (createMigrationsTable m env ga)"
proof -
  have "succeeds (RefuseCaseKept m env)"
  proof -
    have "andThen (query_call env (\<lambda>_. caseKept env)) (\<lambda>kept. if kept then stop CaseKeptTable else give ())
        = andThen (query_call env (\<lambda>_. False)) (\<lambda>_. give ())"
      using env by (intro ext) (simp add: andThen_def query_call_def faultless_def split: sum.splits)
    then show ?thesis unfolding RefuseCaseKept_def using env by (auto intro!: succeeds_intro)
  qed
  then show ?thesis
    unfolding createMigrationsTable_def ensureTrackingColumns_def
    using env by (auto intro!: succeeds_intro simp: create_table_def)
qed

lemma succeeds_open_table:
  assumes env: "faultless m env"
  shows "succeeds (open_table m env ga)"
proof -
  have up: "succeeds (upgradePKPostgres env)"
  proof -
    have "upgradePKPostgres env = andThen (query_call env (\<lambda>_. keyName env)) (\<lambda>_. exec_call env set_composite)"
      using env by (intro ext) (simp add: upgradePKPostgres_def andThen_def query_call_def faultless_def split: sum.splits)
    then show ?thesis using env by (auto intro!: succeeds_intro simp: set_composite_def)
  qed
  have "succeeds (rebuildTableSQLite m env)"
    using env unfolding rebuildTableSQLite_def
    by (auto simp: Let_def case_prod_beta faultless_def set_composite_def
        intro!: succeeds_in_tx [OF env] succeeds_exec [OF env] succeeds_andThen)
  then show ?thesis
    unfolding open_table_def ensureCompositeKey_def hasGroupColumn_def
    using env up by (auto intro!: succeeds_intro succeeds_createMigrationsTable)
qed

lemma exec_call_faultless:
  "faultless m env \<Longrightarrow> f (db\<lparr>tCalls := tCalls db + 1\<rparr>) = (True, db2) \<Longrightarrow> exec_call env f db = (Inr (), db2)"
  by (simp add: exec_call_def faultless_def)

lemma run_noTx_faultless:
  assumes env: "faultless m env" and ok: "fst (sql_list (execSQL env) (noTx_statements m body) (tSchema db))"
  shows "\<exists>db'. run_noTx m env body db = (Inr (), db')"
proof -
  have all: "\<exists>db'. exec_all (send env) stmts db = (db', None)" if "fst (sql_list (execSQL env) stmts (tSchema db))" for stmts db
    using that
  proof (induction stmts arbitrary: db)
    case (Cons stmt stmts)
    obtain s where s: "execSQL env stmt (tSchema db) = (True, s)" "fst (sql_list (execSQL env) stmts s)"
      using Cons.prems by (auto split: prod.splits if_splits)
    define db1 where "db1 = db\<lparr>tCalls := tCalls db + 1, tSchema := s\<rparr>"
    have "send env db stmt = (db1, None)"
      using s(1) exec_call_faultless [OF env, of "run_sql env stmt" db db1] by (simp add: send_def run_sql_def db1_def)
    then show ?case using Cons.IH [of db1] s(2) by (simp add: db1_def)
  qed simp
  from all [OF ok] obtain db' where e: "exec_all (send env) (noTx_statements m body) db = (db', None)" by blast
  have "exec_all f [b] w = f w b" for f :: "'a track_db \<Rightarrow> string \<Rightarrow> 'a track_db \<times> run_error option" and b w
    by (auto split: prod.splits option.splits)
  moreover have "(\<lambda>db stmt. case exec_call env (run_sql env stmt) db of (Inl e, db') \<Rightarrow> (db', Some e) | (Inr _, db') \<Rightarrow> (db', None)) = send env"
    by (intro ext) (simp add: send_def)
  ultimately show ?thesis
    using e by (simp add: run_noTx_def execNoTx_def noTx_statements_def del: exec_all.simps split: if_splits)
qed

lemma runMigrationUp_faultless:
  assumes env: "faultless m env" and wf: "wf_db db" "fits_table db mig" "mig_key mig \<notin> rec_key ` set (tRows db)"
    and ok: "fst (sql_list (execSQL env) (up_statements m mig) (tSchema db))"
  shows "\<exists>db'. runMigrationUp m env mig (tGroupColumn db) db = (Inr (), db')"
proof -
  have app: "\<exists>db'. apply_up m env mig (tGroupColumn d) d = (Inr (), db')" if v: "view d = view db" for d
  proof -
    have wfd: "wf_db d" "fits_table d mig" "mig_key mig \<notin> rec_key ` set (tRows d)" "tSchema d = tSchema db"
      using wf v by (simp_all add: view_def wf_db_def fits_table_def)
    show ?thesis
    proof (cases "mNoTransaction mig")
      case True
      define d0 where "d0 = d\<lparr>tCalls := tCalls d + 1\<rparr>"
      obtain r where r: "insert_row env (tGroupColumn d) mig True d0 = (True, d0\<lparr>tRows := tRows d0 @ [r]\<rparr>)"
        using insert_row_new [of d0 mig env True] wfd by (auto simp: d0_def)
      obtain d1 where "run_noTx m env (mUp mig) (d0\<lparr>tRows := tRows d0 @ [r]\<rparr>) = (Inr (), d1)"
        using run_noTx_faultless [OF env, of "mUp mig"] ok True wfd(4) by (fastforce simp: up_statements_def d0_def)
      moreover have "exec_call env (insert_row env (tGroupColumn d) mig True) d = (Inr (), d0\<lparr>tRows := tRows d0 @ [r]\<rparr>)"
        by (rule exec_call_faultless [OF env]) (use r in \<open>simp add: d0_def\<close>)
      ultimately show ?thesis
        using True exec_call_faultless [OF env, of "set_dirty (tGroupColumn d) mig False" d1]
        by (auto simp: apply_up_def runMigrationUpNoTx_def andThen_def d0_def set_dirty_def)
    next
      case False
      obtain s where s: "execSQL env (mUp mig) (tSchema d) = (True, s)"
        using ok False wfd(4) by (auto simp: up_statements_def split: prod.splits if_splits)
      define d1 where "d1 = d\<lparr>tCalls := Suc (Suc (tCalls d)), tSchema := s\<rparr>"
      define d2 where "d2 = d1\<lparr>tCalls := tCalls d1 + 1\<rparr>"
      obtain r where r: "insert_row env (tGroupColumn d) mig False d2 = (True, d2\<lparr>tRows := tRows d2 @ [r]\<rparr>)"
        using insert_row_new [of d2 mig env False] wfd by (auto simp: d2_def d1_def)
      have "exec_call env (run_sql env (mUp mig)) (d\<lparr>tCalls := tCalls d + 1\<rparr>) = (Inr (), d1)"
        by (rule exec_call_faultless [OF env]) (simp add: run_sql_def s d1_def)
      moreover have "exec_call env (insert_row env (tGroupColumn d) mig False) d1 = (Inr (), d2\<lparr>tRows := tRows d2 @ [r]\<rparr>)"
        by (rule exec_call_faultless [OF env]) (use r in \<open>simp add: d2_def\<close>)
      ultimately have "andThen (exec_call env (run_sql env (mUp mig))) (\<lambda>_. exec_call env (insert_row env (tGroupColumn d) mig False))
          (d\<lparr>tCalls := tCalls d + 1\<rparr>) = (Inr (), d2\<lparr>tRows := tRows d2 @ [r]\<rparr>)"
        by (simp add: andThen_def)
      then show ?thesis using in_tx_succeeds [OF env, where db = d] False by (simp add: apply_up_def)
    qed
  qed
  show ?thesis
  proof (cases "dialect m = DialectSQLite")
    case True
    have "view (db\<lparr>tCalls := Suc (tCalls db)\<rparr>) = view db" by (simp add: view_def)
    from app [OF this] show ?thesis
      using True env find_row_None [OF wf] by (simp add: runMigrationUp_def migrationRecorded_def andThen_def query_call_def faultless_def)
  next
    case False
    then show ?thesis using app [OF refl] by (simp add: runMigrationUp_def)
  qed
qed

lemma up_loop_faultless:
  assumes "faultless m env" "wf_db db" "tExists db" "\<forall>mig \<in> set P. fits_table db mig \<and> mig_key mig \<notin> rec_key ` set (tRows db)"
    "distinct (map mig_key P)" "schema_after m (execSQL env) P (tSchema db) \<noteq> None"
  shows "\<exists>db'. up_loop m env (tGroupColumn db) P db = (Inr (), db')"
  using assms
proof (induction P arbitrary: db)
  case (Cons mig P)
  define db0 where "db0 = snd (keep m env db)"
  have k: "keep m env db = (Inr (), db0)" "view db0 = view db"
    using Cons.prems(1) by (simp_all add: db0_def keep_def faultless_def view_def)
  have wf0: "wf_db db0" "tExists db0" "tGroupColumn db0 = tGroupColumn db" "tRows db0 = tRows db" "tSchema db0 = tSchema db" "fits_table db0 = fits_table db"
    using k(2) Cons.prems(2,3) by (auto simp: view_def wf_db_def fits_table_def)
  have mig: "fits_table db0 mig" "mig_key mig \<notin> rec_key ` set (tRows db0)" using Cons.prems(4) wf0(4,6) by simp_all
  obtain s where s: "sql_list (execSQL env) (up_statements m mig) (tSchema db) = (True, s)" "schema_after m (execSQL env) P s \<noteq> None"
    using Cons.prems(6) by (auto split: prod.splits if_splits)
  obtain db1 where r1: "runMigrationUp m env mig (tGroupColumn db0) db0 = (Inr (), db1)"
    using runMigrationUp_faultless [OF Cons.prems(1) wf0(1) mig] s(1) wf0(5) by auto
  have step: "up_step m (execSQL env) mig db0 (Inr ()) db1" by (rule runMigrationUp_step [OF wf0(1) mig r1])
  note wf1 = up_step_wf [OF wf0(1,2) mig step]
  have "tGroupColumn db1 = tGroupColumn db" "tSchema db1 = s" using step s(1) wf0(3,5) by (auto simp: up_step_def view_def)
  moreover have "\<forall>mig' \<in> set P. fits_table db1 mig' \<and> mig_key mig' \<notin> rec_key ` set (tRows db1)"
  proof
    fix mig' assume m': "mig' \<in> set P"
    then have "mig_key mig' \<noteq> mig_key mig" using Cons.prems(5) by (metis distinct.simps(2) image_eqI list.set_map list.simps(9))
    then show "fits_table db1 mig' \<and> mig_key mig' \<notin> rec_key ` set (tRows db1)"
      using m' Cons.prems(4) wf1(3) [of mig'] wf1(4) wf0(4,6) by auto
  qed
  ultimately show ?case
    using Cons.IH [OF Cons.prems(1) wf1(1,2)] Cons.prems(5) s(2) k(1) r1 wf0(3) by (simp add: andThen_def)
qed (simp add: give_def)

section \<open>Properties of the runner\<close>

text \<open>C18. Up cannot lose track of the schema. However its database calls fail, before or after their effect, or the process dies,
  it leaves the first of the pending migrations, in (Version, Group) order, recorded clean and applied whole, and nothing of the
  others; or, after those, one non-transactional migration recorded dirty with a prefix of its statements run. When it returns
  no error, every pending migration of the selection was applied.\<close>

theorem Up_interrupted:
  assumes "registered_ok (migrations m)" "wf_db db" "Up m env groups db = (res, db')"
  shows "\<exists>ran rest s. pending_of m groups db = ran @ rest \<and> sorted (map mig_order (ran @ rest)) \<and> (res = Inr () \<longrightarrow> rest = [])
    \<and> schema_after m (execSQL env) ran (tSchema db) = Some s
    \<and> (map track_entry (tRows db') = map track_entry (tRows db) @ map (mig_entry False) ran \<and> tSchema db' = s
      \<or> (\<exists>mig rest' n. rest = mig # rest' \<and> mNoTransaction mig
           \<and> map track_entry (tRows db') = map track_entry (tRows db) @ map (mig_entry False) ran @ [mig_entry True mig]
           \<and> tSchema db' = snd (sql_list (execSQL env) (take n (up_statements m mig)) s)))"
proof -
  have "sorted (map mig_order (pending_of m groups db))"
    using pending_facts(3) [OF assms(1) refl] by (simp add: pending_of_def)
  then show ?thesis using Up_outcome [OF assms] unfolding up_outcome_def by metis
qed

text \<open>C17. Any number of Up runs over a new tracking table, each interrupted anywhere and for any groups, apply every migration at most
  once: the schema is always the first schema with the recorded migrations applied, each whole and once, in the order of their
  rows; or a further migration outside a transaction is recorded dirty, which it stays, with a prefix of its statements run.\<close>

theorem Up_exactly_once:
  assumes "registered_ok (migrations m)" "tRows db = []" "\<forall>run \<in> set runs. execSQL (fst run) = ex"
  shows "\<exists>ran s. distinct ran \<and> set ran \<subseteq> set (migrations m) \<and> schema_after m ex ran (tSchema db) = Some s \<and>
     (map track_entry (tRows (run_ups m runs db)) = map (mig_entry False) ran \<and> tSchema (run_ups m runs db) = s
    \<or> (\<exists>mig n. mig \<in> set (migrations m) - set ran \<and> mNoTransaction mig
         \<and> map track_entry (tRows (run_ups m runs db)) = map (mig_entry False) ran @ [mig_entry True mig]
         \<and> tSchema (run_ups m runs db) = snd (sql_list ex (take n (up_statements m mig)) s)))"
proof -
  have wf: "wf_db db" using assms(2) by (simp add: wf_db_def)
  have "tracked m ex (tSchema db) db"
    unfolding tracked_def using assms(2) by (intro exI [of _ "[]"] exI [of _ "tSchema db"]) simp
  from tracked_runs [OF assms(1) wf this assms(3)] show ?thesis unfolding tracked_def .
qed

text \<open>C19. A dirty row of the application's own groups stops Up and Down, with every other row and the schema as they were, whatever the
  calls do; a successful Force of that version clears it, recording it clean with the registered name and checksum or dropping it,
  and changes no other row and not the schema.\<close>

theorem dirty_needs_Force:
  assumes "wf_db db" "r \<in> set (tRows db)" "rDirty r" "own_group m (rGroup r)" "rGroup r \<noteq> defaultGroupAlias"
  shows "(\<forall>env groups. case Up m env groups db of (res, db') \<Rightarrow> res \<noteq> Inr () \<and> tRows db' = tRows db \<and> tSchema db' = tSchema db)
    \<and> (\<forall>env n groups. case Down m env n groups db of (res, db') \<Rightarrow> res \<noteq> Inr () \<and> tRows db' = tRows db \<and> tSchema db' = tSchema db)
    \<and> (\<forall>env app db'. Force m env (rVersion r) app [rGroup r] db = (Inr (), db') \<longrightarrow>
        tSchema db' = tSchema db \<and>
        map track_entry (tRows db') =
          (if app then map (\<lambda>x. if rec_key x = rec_key r then (rec_key r, fst (forced_name m (rGroup r) (rVersion r)),
                     snd (forced_name m (rGroup r) (rVersion r)), False) else track_entry x) (tRows db)
           else map track_entry (filter (\<lambda>x. rec_key x \<noteq> rec_key r) (tRows db))))"
proof -
  have d: "dirty_own m db" using assms by (auto simp: dirty_own_def)
  have key: "(rGroup r, rVersion r) = rec_key r" by (simp add: rec_key_def)
  have "tSchema db' = tSchema db \<and> map track_entry (tRows db') =
      (if app then map (\<lambda>x. if rec_key x = rec_key r then (rec_key r, fst (forced_name m (rGroup r) (rVersion r)),
                 snd (forced_name m (rGroup r) (rVersion r)), False) else track_entry x) (tRows db)
       else map track_entry (filter (\<lambda>x. rec_key x \<noteq> rec_key r) (tRows db)))"
    if f: "Force m env (rVersion r) app [rGroup r] db = (Inr (), db')" for env app db'
  proof -
    obtain ga where ga: "force m env ga (rGroup r) (rVersion r) app db = (Inr (), db')" "rGroup r \<noteq> [] \<longrightarrow> ga"
      using Force_force [OF f] assms(5) by blast
    have mem: "rec_key r \<in> rec_key ` set (tRows db)" using assms(2) by simp
    show ?thesis
      using force_Inr [OF assms(1) _ ga(1)] ga(2) mem unfolding key by simp
  qed
  then show ?thesis
    using Up_dirty [OF assms(1) d] Down_dirty [OF assms(1) d] by (auto split: prod.splits)
qed

lemma lookup_self:
  assumes "registered_ok (migrations m)" "mig \<in> set (migrations m)"
  shows "lookup_migration m (mig_key mig) = Some mig"
proof (cases "lookup_migration m (mig_key mig)")
  case None
  then show ?thesis using assms(2) by (simp add: lookup_None)
next
  case (Some mig')
  have "inj_on mig_order (set (migrations m))" using assms(1) by (auto simp: registered_ok_def distinct_map)
  then have "mig' = mig" using lookup_registered [OF Some] assms(2) unfolding mig_key_order by (meson inj_onD)
  then show ?thesis using Some by simp
qed

lemma schema_back_append:
  "schema_back m ex (xs @ ys) s = (case schema_back m ex xs s of None \<Rightarrow> None | Some s' \<Rightarrow> schema_back m ex ys s')"
  by (induction xs arbitrary: s) (auto split: prod.splits option.splits)

lemma schema_back_after:
  assumes "\<forall>mig \<in> set P. lookup_migration m (mig_key mig) = Some mig
      \<and> (\<forall>s s'. sql_list ex (up_statements m mig) s = (True, s') \<longrightarrow> sql_list ex (down_statements m mig) s' = (True, s))"
    "schema_after m ex P s = Some s'"
  shows "schema_back m ex (rev (map mig_key P)) s' = Some s"
  using assms
proof (induction P arbitrary: s)
  case (Cons mig P)
  then obtain s1 where s1: "sql_list ex (up_statements m mig) s = (True, s1)" "schema_after m ex P s1 = Some s'"
    by (auto split: prod.splits if_splits)
  have "schema_back m ex (rev (map mig_key P)) s' = Some s1" using Cons.IH [OF _ s1(2)] Cons.prems(1) by simp
  then show ?case using Cons.prems(1) s1(1) by (simp add: schema_back_append)
qed simp

lemma rollback_after_Up:
  assumes ok: "registered_ok (migrations m)" and wf: "wf_db db'"
    and keys: "map rec_key (tRows db') = map rec_key (tRows db) @ map mig_key P"
    and P: "P = pending_of m groups db"
    and newer: "\<forall>r \<in> set (tRows db). \<forall>mig \<in> set P. groupSelected (rGroup r) (normalizeGroupSelection groups) \<and> own_group m (rGroup r) \<longrightarrow>
      (rVersion r, rGroup r) < mig_order mig"
  shows "rollback_of m (int (length P)) groups db' = rev (map mig_key P)"
proof -
  define gs where "gs = normalizeGroupSelection groups"
  define sel where "sel = (\<lambda>k :: string \<times> nat. groupSelected (fst k) gs \<and> own_group m (fst k))"
  note pf = pending_facts [OF ok P [unfolded pending_of_def]]
  have selP: "filter sel (map mig_key P) = map mig_key P"
    using pf(1) own_group_registered by (auto simp: filter_id_conv sel_def mig_key_def gs_def)
  have fst: "map fst (rows_applied (tRows db')) = map rec_key (tRows db) @ map mig_key P"
    using keys by (simp add: rows_applied_def comp_def)
  define A where "A = sort_key down_order (filter sel (map rec_key (tRows db)))"
  have inj: "inj down_order" by (auto simp: inj_def down_order_def)
  have dist: "distinct (map rec_key (tRows db) @ map mig_key P)" using wf unfolding keys [symmetric] by (simp add: wf_db_def)
  have "sort_key down_order (filter sel (map rec_key (tRows db) @ map mig_key P)) = A @ map mig_key P"
  proof (rule map_sorted_distinct_set_unique [of down_order])
    show "inj_on down_order (set (sort_key down_order (filter sel (map rec_key (tRows db) @ map mig_key P))) \<union> set (A @ map mig_key P))"
      using inj by (meson inj_on_subset subset_UNIV)
    show "distinct (map down_order (sort_key down_order (filter sel (map rec_key (tRows db) @ map mig_key P))))"
      using dist inj by (auto simp: distinct_map intro: inj_on_subset [OF inj])
    show "distinct (map down_order (A @ map mig_key P))"
      using dist inj by (subst distinct_map) (auto simp: A_def intro: inj_on_subset [OF inj])
    have low: "down_order x < down_order y" if "x \<in> set A" "y \<in> set (map mig_key P)" for x y
      using that newer by (fastforce simp: A_def sel_def down_order_def rec_key_def mig_key_def mig_order_def gs_def)
    have sP: "sorted (map down_order (map mig_key P))"
    proof -
      have "map down_order (map mig_key P) = map mig_order P" by (simp add: down_order_def mig_key_def mig_order_def)
      then show ?thesis using pf(3) by (simp only:)
    qed
    show "sorted (map down_order (A @ map mig_key P))"
      unfolding map_append sorted_append using sP low by (auto simp: A_def less_imp_le simp del: map_map)
  qed (use selP in \<open>auto simp: A_def\<close>)
  then show ?thesis
    unfolding rollback_of_def rollback_keys_def gs_def [symmetric] fst sel_def [symmetric] by simp
qed

text \<open>C20. Down undoes Up: when the pending migrations are newer than every recorded one of the selection, each Down body undoes its Up,
  Up and then Down of as many return without error, the rows and the schema are those before.\<close>

theorem Down_undoes_Up:
  assumes "registered_ok (migrations m)" "wf_db db" "Up m env groups db = (Inr (), db1)"
    "Down m env' (int (length (pending_of m groups db))) groups db1 = (Inr (), db2)" "execSQL env' = execSQL env"
    "\<forall>mig \<in> set (pending_of m groups db). \<forall>s s'. sql_list (execSQL env) (up_statements m mig) s = (True, s') \<longrightarrow>
       sql_list (execSQL env) (down_statements m mig) s' = (True, s)"
    "\<forall>r \<in> set (tRows db). \<forall>mig \<in> set (pending_of m groups db).
       groupSelected (rGroup r) (normalizeGroupSelection groups) \<and> own_group m (rGroup r) \<longrightarrow> (rVersion r, rGroup r) < mig_order mig"
  shows "map track_entry (tRows db2) = map track_entry (tRows db) \<and> tSchema db2 = tSchema db"
proof -
  define P where "P = pending_of m groups db"
  note pf = pending_facts [OF assms(1) P_def [unfolded pending_of_def]]
  obtain s1 where s1: "schema_after m (execSQL env) P (tSchema db) = Some s1" "tSchema db1 = s1"
      "map track_entry (tRows db1) = map track_entry (tRows db) @ map (mig_entry False) P" and wf1: "wf_db db1"
    using Up_outcome [OF assms(1-3)] unfolding up_outcome_def P_def by auto
  have keys: "map rec_key (tRows db1) = map rec_key (tRows db) @ map mig_key P"
    using arg_cong [OF s1(3), of "map fst"] by (simp add: comp_def entry_key)
  have ks: "rollback_of m (int (length P)) groups db1 = rev (map mig_key P)"
    by (rule rollback_after_Up [OF assms(1) wf1 keys P_def]) (use assms(7) in \<open>simp add: P_def\<close>)
  have "schema_back m (execSQL env) (rev (map mig_key P)) s1 = Some (tSchema db)"
    by (rule schema_back_after [OF _ s1(1)]) (use assms(6) lookup_self [OF assms(1)] pf(1) in \<open>auto simp: P_def\<close>)
  with Down_outcome [OF wf1 assms(4)] have down: "tRows db2 = filter (\<lambda>r. rec_key r \<notin> set (map mig_key P)) (tRows db1)" "tSchema db2 = tSchema db"
    unfolding down_outcome_def assms(5) P_def [symmetric] ks using s1(2) by auto
  have "map track_entry (filter (\<lambda>r. rec_key r \<notin> K) rs) = filter (\<lambda>e. fst e \<notin> K) (map track_entry rs)" for K rs
    by (induction rs) (auto simp: entry_key)
  moreover have "fst e \<notin> set (map mig_key P)" if "e \<in> set (map track_entry (tRows db))" for e
    using that pf(1) by (auto simp: entry_key) (metis imageI)
  then have "filter (\<lambda>e. fst e \<notin> set (map mig_key P)) (map track_entry (tRows db)) = map track_entry (tRows db)" by (simp only: filter_id_conv) blast
  moreover have "filter (\<lambda>e. fst e \<notin> set (map mig_key P)) (map (mig_entry False) P) = []" by (auto simp: filter_empty_conv entry_key)
  ultimately show ?thesis using down s1(3) by (simp only: filter_append append_Nil2 simp_thms)
qed

lemma Status_reads:
  assumes wf: "wf_db db" and run: "MigrationStatus m env groups db = (Inr st, db')"
  shows "st = status_of m (normalizeGroupSelection groups) (rows_applied (tRows db))" "tRows db' = tRows db" "tSchema db' = tSchema db"
proof -
  define gs where "gs = normalizeGroupSelection groups"
  obtain u db1 ga db2 ap where s: "createMigrationsTable m env False db = (Inr u, db1)" "hasGroupColumn env db1 = (Inr ga, db2)"
      "appliedVersions env ga db2 = (Inr ap, db')" "st = status_of m gs ap"
    using run unfolding MigrationStatus_def Let_def gs_def [symmetric]
    by (auto simp: stop_def andThen_Inr give_def split: option.splits sum.splits)
  have "framed db db1" using frames_createMigrationsTable s(1) framesD by blast
  then have wf1: "wf_db db1" "tRows db1 = tRows db" "tSchema db1 = tSchema db" using wf by (simp_all add: framed_def)
  have 2: "ga = tGroupColumn db1" "db2 = db1\<lparr>tCalls := tCalls db1 + 1\<rparr>" using s(2) by (simp_all add: hasGroupColumn_def query_call_Inr)
  have "ap = applied_of ga (tRows db2)" "db' = db2\<lparr>tCalls := tCalls db2 + 1\<rparr>" using s(3) by (simp_all add: appliedVersions_def query_call_Inr)
  then show "st = status_of m gs (rows_applied (tRows db))" "tRows db' = tRows db" "tSchema db' = tSchema db"
    using s(4) 2 wf1 applied_of_wf [OF wf1(1) 2(1)] by (simp_all add: rows_applied_def)
qed

lemma modified_drifted:
  assumes "registered_ok (migrations m)" "wf_db db"
  shows "(\<exists>r \<in> set (tRows db). case lookup_migration m (rec_key r) of
      Some mig \<Rightarrow> rChecksum r \<noteq> [] \<and> checksumOf mig \<noteq> rChecksum r | None \<Rightarrow> False)
    \<longleftrightarrow> (\<exists>mig \<in> set (migrations m). drifted (rows_applied (tRows db)) mig)" (is "?L \<longleftrightarrow> ?R")
proof
  have dist: "distinct (map fst (rows_applied (tRows db)))" using assms(2) by (simp add: wf_db_def rows_applied_def comp_def)
  {
    assume ?L
    then obtain r mig where r: "r \<in> set (tRows db)" "lookup_migration m (rec_key r) = Some mig" "rChecksum r \<noteq> []" "checksumOf mig \<noteq> rChecksum r"
      by (auto split: option.splits)
    have "map_of (rows_applied (tRows db)) (rec_key r) = Some r"
      using r(1) dist by (auto simp: rows_applied_def intro!: map_of_is_SomeI)
    then show ?R using r lookup_registered [OF r(2)] by (intro bexI [of _ mig]) (auto simp: drifted_def)
  next
    assume ?R
    then obtain mig r where m: "mig \<in> set (migrations m)" "map_of (rows_applied (tRows db)) (mig_key mig) = Some r" "rChecksum r \<noteq> []"
        "checksumOf mig \<noteq> rChecksum r"
      by (auto simp: drifted_def split: option.splits)
    have "r \<in> set (tRows db)" "rec_key r = mig_key mig" using map_of_SomeD [OF m(2)] by (auto simp: rows_applied_def)
    then show ?L using m lookup_self [OF assms(1) m(1)] by (intro bexI [of _ r]) auto
  }
qed

lemma Up_selected:
  assumes "SafeIdent (tableName m) = Inr safe" "gs = normalizeGroupSelection groups"
  shows "Up m env groups db =
    (case validateGroupSelection m gs True of
       Some e \<Rightarrow> (Inl (Refused e), db)
     | None \<Rightarrow> if lock_taken m env then up m env (groupAware m gs) gs db else (Inl LockFailed, db))"
  using assms by (simp add: Up_def Let_def qtable_def withLeasedLock_eq stop_def split: option.split)

lemma Up_refused:
  assumes "SafeIdent (tableName m) = Inr safe" "wf_db db" "checkIntegrity m (rows_applied (tRows db)) \<noteq> None" "Up m env groups db = (res, db')"
  shows "res \<noteq> Inr () \<and> tRows db' = tRows db \<and> tSchema db' = tSchema db"
proof -
  define gs where "gs = normalizeGroupSelection groups"
  note u = assms(4) [unfolded Up_selected [OF assms(1) gs_def]]
  show ?thesis
  proof (cases "validateGroupSelection m gs True = None \<and> lock_taken m env")
    case True
    with u have "up m env (groupAware m gs) gs db = (res, db')" by simp
    from assms(2) this [unfolded up_def] assms(3) show ?thesis by (cases rule: open_applied) (auto simp: stop_def)
  next
    case False
    with u show ?thesis by (auto split: option.splits if_splits)
  qed
qed

lemma Up_completes:
  assumes ok: "registered_ok (migrations m)" and wf: "wf_db db" and name: "SafeIdent (tableName m) = Inr safe"
    and sel: "validateGroupSelection m (normalizeGroupSelection groups) True = None"
    and int: "checkIntegrity m (rows_applied (tRows db)) = None" and fl: "faultless m env"
    and P: "P = pending_of m groups db" and s: "schema_after m (execSQL env) P (tSchema db) = Some s"
  shows "\<exists>db'. Up m env groups db = (Inr (), db') \<and> tSchema db' = s \<and> pending_of m groups db' = []
    \<and> map track_entry (tRows db') = map track_entry (tRows db) @ map (mig_entry False) P"
proof -
  define gs where "gs = normalizeGroupSelection groups"
  note pf = pending_facts [OF ok P [unfolded pending_of_def]]
  obtain res db' where u: "Up m env groups db = (res, db')" by fastforce
  with fl sel have go: "up m env (groupAware m gs) gs db = (res, db')"
    by (simp add: Up_selected [OF name gs_def] faultless_def gs_def)
  have "res = Inr ()"
    using wf go [unfolded up_def]
  proof (cases rule: open_applied)
    case stopped
    then show ?thesis using succeeds_open_table [OF fl, of "groupAware m gs"] fl unfolding succeeds_def faultless_def by (metis Inl_Inr_False prod.inject)
  next
    case (opened db2)
    have "\<forall>mig \<in> set P. fits_table db2 mig \<and> mig_key mig \<notin> rec_key ` set (tRows db2)" using pf(1) opened(4,6) by auto
    from up_loop_faultless [OF fl opened(2,3) this pf(2)] s opened(5)
    obtain d where "up_loop m env (tGroupColumn db2) P db2 = (Inr (), d)" by auto
    then show ?thesis using opened(1) int by (simp add: P pending_of_def gs_def)
  qed
  then have u: "Up m env groups db = (Inr (), db')" using u by simp
  from Up_outcome [OF ok wf u] have o: "map track_entry (tRows db') = map track_entry (tRows db) @ map (mig_entry False) P" "tSchema db' = s"
    unfolding up_outcome_def P [symmetric] using s by auto
  have keys: "rec_key ` set (tRows db') = rec_key ` set (tRows db) \<union> mig_key ` set P"
    using entries_keys [OF o(1)] by (simp add: image_Un image_image entry_key)
  have "set (pending_of m groups db') = {}"
    using pending_facts(1) [OF ok refl, of "normalizeGroupSelection groups" "tRows db'"] pf(1) keys by (auto simp: pending_of_def)
  then show ?thesis using u o by simp
qed

lemma runMigrationDown_faultless:
  assumes env: "faultless m env" and ok: "fst (sql_list (execSQL env) (down_statements m mig) (tSchema db))"
  shows "\<exists>db'. runMigrationDown m env mig ga db = (Inr (), db')"
proof (cases "mNoTransaction mig")
  case True
  obtain d0 where d0: "exec_call env (set_dirty ga mig True) db = (Inr (), d0)" "tSchema d0 = tSchema db"
    using exec_call_faultless [OF env, of "set_dirty ga mig True" db] by (simp add: set_dirty_def)
  obtain d1 where "run_noTx m env (mDown mig) d0 = (Inr (), d1)"
    using run_noTx_faultless [OF env, of "mDown mig" d0] ok True d0(2) by (auto simp: down_statements_def)
  then show ?thesis
    using d0(1) True exec_call_faultless [OF env, of "delete_row ga mig" d1]
    by (auto simp: runMigrationDown_def runMigrationDownNoTx_def andThen_def delete_row_def)
next
  case False
  obtain s where s: "execSQL env (mDown mig) (tSchema db) = (True, s)"
    using ok False by (auto simp: down_statements_def split: prod.splits if_splits)
  have "exec_call env (run_sql env (mDown mig)) (db\<lparr>tCalls := tCalls db + 1\<rparr>) = (Inr (), db\<lparr>tCalls := Suc (Suc (tCalls db)), tSchema := s\<rparr>)"
    by (rule exec_call_faultless [OF env]) (simp add: run_sql_def s)
  then have "\<exists>d. andThen (exec_call env (run_sql env (mDown mig))) (\<lambda>_. exec_call env (delete_row ga mig)) (db\<lparr>tCalls := tCalls db + 1\<rparr>) = (Inr (), d)"
    using succeeds_exec [OF env, of "delete_row ga mig"] by (auto simp: andThen_def succeeds_def delete_row_def)
  then show ?thesis using in_tx_succeeds [OF env, where db = db] False by (auto simp: runMigrationDown_def)
qed

lemma down_loop_faultless:
  assumes "faultless m env" "wf_db db" "\<forall>mig \<in> set (migrations m). fits_table db mig" "schema_back m (execSQL env) ks (tSchema db) \<noteq> None"
  shows "\<exists>db'. down_loop m env (tGroupColumn db) ks db = (Inr (), db')"
  using assms
proof (induction ks arbitrary: db)
  case (Cons k ks)
  obtain mig s where mig: "lookup_migration m k = Some mig" "sql_list (execSQL env) (down_statements m mig) (tSchema db) = (True, s)"
      "schema_back m (execSQL env) ks s \<noteq> None"
    using Cons.prems(4) by (auto split: option.splits prod.splits if_splits)
  define db0 where "db0 = snd (keep m env db)"
  have k: "keep m env db = (Inr (), db0)" "view db0 = view db"
    using Cons.prems(1) by (simp_all add: db0_def keep_def faultless_def view_def)
  have wf0: "wf_db db0" "tGroupColumn db0 = tGroupColumn db" "tSchema db0 = tSchema db" "fits_table db0 = fits_table db"
    using k(2) Cons.prems(2) by (auto simp: view_def wf_db_def fits_table_def)
  obtain db1 where r1: "runMigrationDown m env mig (tGroupColumn db0) db0 = (Inr (), db1)"
    using runMigrationDown_faultless [OF Cons.prems(1)] mig(2) wf0(3) by (metis fst_conv)
  have "fits_table db0 mig" using lookup_registered [OF mig(1)] Cons.prems(3) wf0(4) by simp
  then have step: "down_step m (execSQL env) mig db0 (Inr ()) db1"
    using runDown_tx runDown_noTx wf0(1) r1 by (cases "mNoTransaction mig") blast+
  note wf1 = down_step_wf [OF wf0(1) step]
  have "tSchema db1 = s" using step mig(2) wf0(3) by (auto simp: down_step_def)
  then obtain db' where "down_loop m env (tGroupColumn db1) ks db1 = (Inr (), db')"
    using Cons.IH [OF Cons.prems(1) wf1(1)] Cons.prems(3) wf1(2) wf0(4) mig(3) by auto
  then show ?case using mig(1) k(1) r1 wf0(2) wf1(3) by (simp add: andThen_def)
qed (simp add: give_def)

lemma Down_completes:
  assumes wf: "wf_db db" and name: "SafeIdent (tableName m) = Inr safe" and fl: "faultless m env"
    and clean: "\<not> dirty_own m db" and sel: "validateGroupSelection m (normalizeGroupSelection groups) True = None"
    and downs: "\<not> list_ex (no_down m) (rollback_of m n groups db)"
    and s: "schema_back m (execSQL env) (rollback_of m n groups db) (tSchema db) \<noteq> None"
  shows "\<exists>db'. Down m env n groups db = (Inr (), db')"
proof -
  define gs where "gs = normalizeGroupSelection groups"
  obtain res db' where u: "Down m env n groups db = (res, db')" by fastforce
  then have go: "down m env n (groupAware m gs) gs db = (res, db')"
    using name fl sel by (simp add: Down_def Let_def qtable_def withLeasedLock_eq faultless_def gs_def)
  have "res = Inr ()"
    using wf go [unfolded down_def]
  proof (cases rule: open_applied)
    case stopped
    then show ?thesis using succeeds_open_table [OF fl, of "groupAware m gs"] fl unfolding succeeds_def faultless_def by (metis Inl_Inr_False prod.inject)
  next
    case (opened db2)
    have "\<not> list_ex (\<lambda>(_, r). rDirty r \<and> own_group m (rGroup r)) (rows_applied (tRows db))"
      using clean by (simp add: list_ex_recorded dirty_own_def)
    then have "down_loop m env (tGroupColumn db2) (rollback_of m n groups db) db2 = (res, db')"
      using opened(1) downs by (simp add: Let_def rollback_of_def gs_def)
    then show ?thesis using down_loop_faultless [OF fl opened(2,6), of "rollback_of m n groups db"] s opened(5) by auto
  qed
  then show ?thesis using u by simp
qed

text \<open>What makes Up refuse: a dirty row of one of the application's groups, or a recorded migration whose registered text has another
  checksum; and what an operator sees of it in a status.\<close>

definition blocked :: "Migrator \<Rightarrow> 's track_db \<Rightarrow> bool" where
  "blocked m db \<longleftrightarrow> (\<exists>r \<in> set (tRows db). rDirty r \<and> own_group m (rGroup r))
     \<or> (\<exists>mig \<in> set (migrations m). \<exists>r \<in> set (tRows db).
          rec_key r = mig_key mig \<and> rChecksum r \<noteq> [] \<and> rChecksum r \<noteq> checksumOf mig)"

definition shows_block :: "Migrator \<Rightarrow> Status \<Rightarrow> bool" where
  "shows_block m st \<longleftrightarrow> (\<exists>r \<in> set (sApplied st). rDirty r \<and> own_group m (rGroup r)) \<or> sModified st \<noteq> []"

lemma drifted_row:
  assumes "wf_db db"
  shows "drifted (rows_applied (tRows db)) mig \<longleftrightarrow>
    (\<exists>r \<in> set (tRows db). rec_key r = mig_key mig \<and> rChecksum r \<noteq> [] \<and> rChecksum r \<noteq> checksumOf mig)"
proof
  assume "drifted (rows_applied (tRows db)) mig"
  then obtain r where r: "map_of (rows_applied (tRows db)) (mig_key mig) = Some r" "rChecksum r \<noteq> []" "checksumOf mig \<noteq> rChecksum r"
    by (auto simp: drifted_def split: option.splits)
  from map_of_SomeD [OF r(1)] r(2,3)
  show "\<exists>r \<in> set (tRows db). rec_key r = mig_key mig \<and> rChecksum r \<noteq> [] \<and> rChecksum r \<noteq> checksumOf mig"
    by (auto simp: rows_applied_def)
next
  assume "\<exists>r \<in> set (tRows db). rec_key r = mig_key mig \<and> rChecksum r \<noteq> [] \<and> rChecksum r \<noteq> checksumOf mig"
  then obtain r where r: "r \<in> set (tRows db)" "rec_key r = mig_key mig" "rChecksum r \<noteq> []" "rChecksum r \<noteq> checksumOf mig" by blast
  have "distinct (map fst (rows_applied (tRows db)))" using assms by (simp add: wf_db_def rows_applied_def comp_def)
  with r(1,2) have "map_of (rows_applied (tRows db)) (mig_key mig) = Some r"
    by (auto simp: rows_applied_def image_iff intro!: map_of_is_SomeI)
  with r(3,4) show "drifted (rows_applied (tRows db)) mig" by (auto simp: drifted_def)
qed

lemma integrity_blocked:
  assumes "wf_db db"
  shows "checkIntegrity m (rows_applied (tRows db)) \<noteq> None \<longleftrightarrow> blocked m db"
  using find_None_iff [of "drifted (rows_applied (tRows db))" "migrations m"]
  by (cases "find (drifted (rows_applied (tRows db))) (migrations m)")
    (auto simp: checkIntegrity_def list_ex_recorded blocked_def drifted_row [OF assms])

lemma status_shows:
  assumes "registered_ok (migrations m)" "wf_db db" "st = status_of m gs (rows_applied (tRows db))"
  shows "shows_block m st \<Longrightarrow> blocked m db" "gs = [] \<Longrightarrow> shows_block m st = blocked m db"
proof -
  have app: "set (sApplied st) = {r \<in> set (tRows db). groupSelected (rGroup r) gs}"
    using assms(3) by (auto simp: status_of_def Let_def rows_applied_def image_image)
  have mod: "sModified st = filter (\<lambda>r. case lookup_migration m (rec_key r) of
      Some mig \<Rightarrow> rChecksum r \<noteq> [] \<and> checksumOf mig \<noteq> rChecksum r | None \<Rightarrow> False) (sApplied st)"
    using assms(3) by (simp add: status_of_def Let_def)
  have drift: "(\<exists>r \<in> set (tRows db). case lookup_migration m (rec_key r) of
      Some mig \<Rightarrow> rChecksum r \<noteq> [] \<and> checksumOf mig \<noteq> rChecksum r | None \<Rightarrow> False)
    \<longleftrightarrow> (\<exists>mig \<in> set (migrations m). \<exists>r \<in> set (tRows db).
          rec_key r = mig_key mig \<and> rChecksum r \<noteq> [] \<and> rChecksum r \<noteq> checksumOf mig)"
    unfolding modified_drifted [OF assms(1,2)] drifted_row [OF assms(2)] ..
  show "shows_block m st \<Longrightarrow> blocked m db"
    unfolding shows_block_def blocked_def mod filter_empty_conv app drift [symmetric] by blast
  show "gs = [] \<Longrightarrow> shows_block m st = blocked m db"
    unfolding shows_block_def blocked_def mod filter_empty_conv app drift [symmetric] groupSelected_def by blast
qed


section \<open>An example\<close>

definition ex_tx :: Migration where
  "ex_tx = \<lparr>mVersion = 1, mName = ''one'', mUp = ''A'', mDown = ''a'', mGroup = [], mNoTransaction = False\<rparr>"

definition ex_noTx :: Migration where
  "ex_noTx = \<lparr>mVersion = 2, mName = ''two'', mUp = ''B'', mDown = ''b'', mGroup = [], mNoTransaction = True\<rparr>"

definition ex_migrator :: Migrator where
  "ex_migrator = \<lparr>migrations = [ex_tx, ex_noTx], tableName = ''_migrations'', dialect = DialectSQLite\<rparr>"

definition ex_sql :: "string \<Rightarrow> string list \<Rightarrow> bool \<times> string list" where
  "ex_sql sql s = (True, if sql = ''A'' \<or> sql = ''B'' then sql # s else tl s)"

definition ex_env :: "(nat \<Rightarrow> fault) \<Rightarrow> string list mig_env" where
  "ex_env f = \<lparr>fate = f, clockAt = (\<lambda>_. 0), execSQL = ex_sql, leaseLost = (\<lambda>_. False), connOK = True, leaseTaken = True, lockPolls = [], caseKept = False, keyName = ''k''\<rparr>"

definition ex_new :: "string list track_db" where
  "ex_new = \<lparr>tExists = False, tGroupColumn = False, tComposite = False, tRows = [], tSchema = [], tCalls = 0\<rparr>"

lemma ex_faultless: "faultless ex_migrator (ex_env (\<lambda>_. Runs))"
proof -
  have "SafeIdent ''k'' = Inr ''k''" "SafeIdent ''_migrations__grp_upg'' = Inr ''_migrations__grp_upg''" by code_simp+
  then show ?thesis by (simp add: faultless_def lock_taken_def ex_env_def sqliteTableParts_def ex_migrator_def cut_last_def)
qed

lemma ex_trims: "trim_space ''A'' = ''A''" "trim_space ''B'' = ''B''" "trim_space ''a'' = ''a''" "trim_space ''b'' = ''b''"
  by (rule trim_space_id; simp add: graphic_def)+

lemma ex_registered: "registered_ok (migrations ex_migrator)"
  by (simp add: registered_ok_def ex_migrator_def ex_tx_def ex_noTx_def mig_order_def validateGroupName_def ex_trims)

lemma ex_table: "SafeIdent ''_migrations'' = Inr ''_migrations''"
  by code_simp

lemma ex_wf: "wf_db ex_new"
  by (simp add: wf_db_def ex_new_def)

theorem Up_interrupted_witness:
  "\<exists>ran rest s. pending_of ex_migrator [] ex_new = ran @ rest \<and> sorted (map mig_order (ran @ rest))
    \<and> (fst (Up ex_migrator (ex_env (\<lambda>n. if n = 9 then FailsAfter else Runs)) [] ex_new) = Inr () \<longrightarrow> rest = [])
    \<and> schema_after ex_migrator ex_sql ran [] = Some s"
  using Up_interrupted [OF ex_registered ex_wf prod.collapse [symmetric], where env = "ex_env (\<lambda>n. if n = 9 then FailsAfter else Runs)" and groups = "[]"]
  by (auto simp: ex_env_def ex_new_def)

theorem Up_exactly_once_witness:
  "\<exists>ran s. distinct ran \<and> set ran \<subseteq> {ex_tx, ex_noTx} \<and> schema_after ex_migrator ex_sql ran [] = Some s"
  using Up_exactly_once [OF ex_registered, of ex_new "[(ex_env (\<lambda>n. if n = 9 then FailsAfter else Runs), []), (ex_env (\<lambda>_. Runs), [])]" ex_sql]
  by (auto simp: ex_env_def ex_new_def ex_migrator_def)

definition ex_row :: MigrationRecord where
  "ex_row = \<lparr>rGroup = [], rVersion = 2, rName = ''two'', rAppliedAt = 0, rChecksum = [], rDirty = True\<rparr>"

definition ex_dirty :: "string list track_db" where
  "ex_dirty = ex_new\<lparr>tExists := True, tRows := [ex_row]\<rparr>"

theorem dirty_needs_Force_witness:
  "(case Up ex_migrator (ex_env (\<lambda>_. Runs)) [] ex_dirty of (res, db') \<Rightarrow> res \<noteq> Inr () \<and> tRows db' = [ex_row])"
proof -
  have "wf_db ex_dirty" "ex_row \<in> set (tRows ex_dirty)" "rDirty ex_row" "own_group ex_migrator (rGroup ex_row)" "rGroup ex_row \<noteq> defaultGroupAlias"
    by (simp_all add: ex_dirty_def ex_row_def ex_new_def wf_db_def own_group_def defaultGroupAlias_def)
  from dirty_needs_Force [OF this] show ?thesis by (auto simp: ex_dirty_def split: prod.splits)
qed

definition ex_up :: "string list track_db" where
  "ex_up = snd (Up ex_migrator (ex_env (\<lambda>_. Runs)) [] ex_new)"

lemma ex_pending: "pending_of ex_migrator [] ex_new = [ex_tx, ex_noTx]"
  by (simp add: pending_of_def pendingMigrations_def selectedMigrations_def normalizeGroupSelection_def ex_migrator_def rows_applied_def
      ex_new_def ex_tx_def ex_noTx_def mig_order_def)

lemma ex_schema_after:
  "schema_after ex_migrator (execSQL (ex_env (\<lambda>_. Runs))) [ex_tx, ex_noTx] (tSchema ex_new) = Some [''B'', ''A'']"
  by (simp add: ex_env_def ex_new_def up_statements_def noTx_statements_def ex_migrator_def ex_tx_def ex_noTx_def ex_sql_def)

lemma ex_up_rows:
  "Up ex_migrator (ex_env (\<lambda>_. Runs)) [] ex_new = (Inr (), ex_up) \<and> map track_entry (tRows ex_up) = map (mig_entry False) [ex_tx, ex_noTx]
   \<and> tSchema ex_up = [''B'', ''A''] \<and> wf_db ex_up"
proof -
  note s = ex_schema_after
  have int: "checkIntegrity ex_migrator (rows_applied (tRows ex_new)) = None"
    by (simp add: checkIntegrity_def rows_applied_def ex_new_def ex_migrator_def drifted_def)
  have name: "SafeIdent (tableName ex_migrator) = Inr ''_migrations''" by (simp add: ex_migrator_def ex_table)
  obtain db' where u: "Up ex_migrator (ex_env (\<lambda>_. Runs)) [] ex_new = (Inr (), db')" "tSchema db' = [''B'', ''A'']"
      "map track_entry (tRows db') = map track_entry (tRows ex_new) @ map (mig_entry False) [ex_tx, ex_noTx]"
    using Up_completes [OF ex_registered ex_wf name _ int ex_faultless ex_pending [symmetric] s]
    by (auto simp: normalizeGroupSelection_def validateGroupSelection_def)
  moreover have "wf_db db'" using Up_outcome [OF ex_registered ex_wf u(1)] by simp
  moreover have "db' = ex_up" using u(1) by (simp add: ex_up_def)
  ultimately show ?thesis by (simp add: ex_new_def)
qed


lemma ex_undoes:
  "mig \<in> {ex_tx, ex_noTx} \<Longrightarrow> sql_list ex_sql (up_statements ex_migrator mig) s = (True, s') \<Longrightarrow>
   sql_list ex_sql (down_statements ex_migrator mig) s' = (True, s)"
  by (auto simp: up_statements_def down_statements_def noTx_statements_def ex_migrator_def ex_tx_def ex_noTx_def ex_sql_def)

lemma ex_down: "\<exists>db2. Down ex_migrator (ex_env (\<lambda>_. Runs)) 2 [] ex_up = (Inr (), db2)"
proof -
  have rows: "map track_entry (tRows ex_up) = map (mig_entry False) [ex_tx, ex_noTx]" "wf_db ex_up" "tSchema ex_up = [''B'', ''A'']"
    using ex_up_rows by simp_all
  have keys: "map rec_key (tRows ex_up) = map rec_key (tRows ex_new) @ map mig_key [ex_tx, ex_noTx]"
    using arg_cong [OF rows(1), of "map fst"] by (simp add: comp_def entry_key ex_new_def)
  have ks: "rollback_of ex_migrator (int (length [ex_tx, ex_noTx])) [] ex_up = rev (map mig_key [ex_tx, ex_noTx])"
    by (rule rollback_after_Up [OF ex_registered rows(2) keys ex_pending [symmetric]]) (simp add: ex_new_def)
  have reg: "lookup_migration ex_migrator (mig_key ex_tx) = Some ex_tx" "lookup_migration ex_migrator (mig_key ex_noTx) = Some ex_noTx"
    by (rule lookup_self [OF ex_registered]; simp add: ex_migrator_def)+
  have dirty: "\<forall>r \<in> set (tRows ex_up). \<not> rDirty r"
    using arg_cong [OF rows(1), of "map (snd \<circ> snd \<circ> snd)"] by (auto simp: comp_def track_entry_def mig_entry_def)
  then have clean: "\<not> dirty_own ex_migrator ex_up" by (simp add: dirty_own_def)
  have name: "SafeIdent (tableName ex_migrator) = Inr ''_migrations''" by (simp add: ex_migrator_def ex_table)
  have sel: "validateGroupSelection ex_migrator (normalizeGroupSelection []) True = None"
    by (simp add: validateGroupSelection_def normalizeGroupSelection_def)
  have ks2: "rollback_of ex_migrator 2 [] ex_up = [mig_key ex_noTx, mig_key ex_tx]" using ks by simp
  have "trim_space (mDown ex_tx) \<noteq> []" "trim_space (mDown ex_noTx) \<noteq> []" by (simp_all add: ex_tx_def ex_noTx_def ex_trims)
  then have downs: "\<not> list_ex (no_down ex_migrator) (rollback_of ex_migrator 2 [] ex_up)" by (simp add: ks2 no_down_def reg)
  have sql: "sql_list (execSQL (ex_env f)) (down_statements ex_migrator mig) s = (True, tl s)" if "mig = ex_tx \<or> mig = ex_noTx" for f mig s
    using that by (auto simp: ex_env_def down_statements_def noTx_statements_def ex_migrator_def ex_tx_def ex_noTx_def ex_sql_def)
  have "schema_back ex_migrator (execSQL (ex_env (\<lambda>_. Runs))) (rollback_of ex_migrator 2 [] ex_up) (tSchema ex_up) \<noteq> None"
    by (simp add: ks2 reg sql)
  then show ?thesis by (rule Down_completes [OF rows(2) name ex_faultless clean sel downs])
qed

theorem Down_undoes_Up_witness:
  "\<exists>db2. Down ex_migrator (ex_env (\<lambda>_. Runs)) 2 [] ex_up = (Inr (), db2) \<and> tRows db2 = [] \<and> tSchema db2 = []"
proof -
  obtain db2 where d: "Down ex_migrator (ex_env (\<lambda>_. Runs)) 2 [] ex_up = (Inr (), db2)" using ex_down by blast
  have "map track_entry (tRows db2) = map track_entry (tRows ex_new) \<and> tSchema db2 = tSchema ex_new"
    by (rule Down_undoes_Up [OF ex_registered ex_wf, of "ex_env (\<lambda>_. Runs)" "[]" ex_up "ex_env (\<lambda>_. Runs)"])
      (use ex_up_rows d ex_pending ex_undoes in \<open>auto simp: ex_env_def ex_new_def\<close>)
  then show ?thesis using d by (simp add: ex_new_def)
qed


end
