(* ===== verification/MigrateLease.thy ===== *)
theory MigrateLease
  imports MigrateRunner GoInt
begin

text \<open>
  The lease that serialises migrators of one SQLite file, from \<^verbatim>\<open>core/migrate/lock.go\<close>: one row holding the second its
  lease expires, taken by an upsert that fires only on an expired row, renewed and released only by the holder whose fence, the
  expiry it wrote last, is still there. Processes interleave statement by statement; a statement may fail before or after its effect.
\<close>

section \<open>The lease statements\<close>

record sqliteLease =
  lSeconds :: int
  lFence :: int
  lLost :: bool

datatype acquire_out = Acquired sqliteLease | HeldByOther | AcquireError

datatype lease_error = ErrLeaseLost | RenewalFailed

definition lease_seconds :: "int \<Rightarrow> int" where
  "lease_seconds lease = max (lease sdiv second) 1"

text \<open>The upsert and its \<^verbatim>\<open>RETURNING\<close>: the new expiry, or no row while the lease is held.\<close>

definition upsert_lease :: "int \<Rightarrow> int \<Rightarrow> int option \<Rightarrow> int option" where
  "upsert_lease now secs row = (case row of Some e \<Rightarrow> if e \<le> now then Some (now + secs) else None | None \<Rightarrow> Some (now + secs))"

definition acquire_call :: "fault \<Rightarrow> int \<Rightarrow> int \<Rightarrow> int option \<Rightarrow> acquire_out \<times> int option" where
  "acquire_call f now secs row =
     (case (f, upsert_lease now secs row) of
        (FailsBefore, _) \<Rightarrow> (AcquireError, row)
      | (FailsAfter, None) \<Rightarrow> (AcquireError, row)
      | (FailsAfter, Some e) \<Rightarrow> (AcquireError, Some e)
      | (Runs, None) \<Rightarrow> (HeldByOther, row)
      | (Runs, Some e) \<Rightarrow> (Acquired \<lparr>lSeconds = secs, lFence = e, lLost = False\<rparr>, Some e))"

definition markLost :: "sqliteLease \<Rightarrow> sqliteLease" where
  "markLost l = l\<lparr>lLost := True\<rparr>"

definition renew :: "fault \<Rightarrow> int \<Rightarrow> sqliteLease \<Rightarrow> int option \<Rightarrow> lease_error option \<times> sqliteLease \<times> int option" where
  "renew f now l row =
     (if lLost l then (Some ErrLeaseLost, l, row)
      else let e = now + lSeconds l; hit = (row = Some (lFence l)) in
        case f of
          FailsBefore \<Rightarrow> (Some RenewalFailed, l, row)
        | FailsAfter \<Rightarrow> (Some RenewalFailed, l, if hit then Some e else row)
        | Runs \<Rightarrow> if hit then (None, l\<lparr>lFence := e\<rparr>, Some e) else (Some ErrLeaseLost, markLost l, row))"

definition lease_keep :: "fault \<Rightarrow> int \<Rightarrow> sqliteLease \<Rightarrow> int option \<Rightarrow> lease_error option \<times> sqliteLease \<times> int option" where
  "lease_keep f now l row =
     (case renew f now l row of (err, l', row') \<Rightarrow> (if err = Some RenewalFailed then None else err, l', row'))"

definition lease_release :: "fault \<Rightarrow> sqliteLease \<Rightarrow> int option \<Rightarrow> sqliteLease \<times> int option" where
  "lease_release f l row =
     (if lLost l then (l, row)
      else let hit = (row = Some (lFence l)); row' = (if hit then None else row) in
        case f of
          FailsBefore \<Rightarrow> (l, row)
        | FailsAfter \<Rightarrow> (l, row')
        | Runs \<Rightarrow> (if hit then l else markLost l, row'))"

section \<open>Processes sharing the row\<close>

record lease_system =
  lsNow :: int
  lsRow :: "int option"
  lsHolds :: "nat \<Rightarrow> sqliteLease option"

definition set_proc :: "nat \<Rightarrow> sqliteLease option \<Rightarrow> int option \<Rightarrow> lease_system \<Rightarrow> lease_system" where
  "set_proc p l row s = s\<lparr>lsRow := row, lsHolds := (lsHolds s)(p := l)\<rparr>"

text \<open>Time passes; a process that waits tries to acquire; a holder renews, by a heartbeat or between migrations, releases, or dies.\<close>

inductive lease_step :: "int \<Rightarrow> lease_system \<Rightarrow> lease_system \<Rightarrow> bool" for secs where
  later: "lsNow s \<le> t \<Longrightarrow> lease_step secs s (s\<lparr>lsNow := t\<rparr>)"
| acquire: "lsHolds s p = None \<Longrightarrow> acquire_call f (lsNow s) secs (lsRow s) = (out, row) \<Longrightarrow>
    lease_step secs s (set_proc p (case out of Acquired l \<Rightarrow> Some l | _ \<Rightarrow> None) row s)"
| renewal: "lsHolds s p = Some l \<Longrightarrow> lease_keep f (lsNow s) l (lsRow s) = (err, l', row) \<Longrightarrow> lease_step secs s (set_proc p (Some l') row s)"
| release: "lsHolds s p = Some l \<Longrightarrow> lease_release f l (lsRow s) = (l', row) \<Longrightarrow> lease_step secs s (set_proc p None row s)"
| crash: "lsHolds s p = Some l \<Longrightarrow> lease_step secs s (set_proc p None (lsRow s) s)"

inductive lease_reaches :: "int \<Rightarrow> lease_system \<Rightarrow> lease_system \<Rightarrow> bool" for secs where
  start: "lease_reaches secs s s"
| step: "lease_reaches secs s s' \<Longrightarrow> lease_step secs s' s'' \<Longrightarrow> lease_reaches secs s s''"

definition lease_start :: "int \<Rightarrow> int option \<Rightarrow> lease_system" where
  "lease_start now row = \<lparr>lsNow = now, lsRow = row, lsHolds = (\<lambda>_. None)\<rparr>"

text \<open>A process holds the lock while its fence lies ahead and it has not learnt of a loss.\<close>

definition holding :: "lease_system \<Rightarrow> nat \<Rightarrow> bool" where
  "holding s p \<longleftrightarrow> (case lsHolds s p of Some l \<Rightarrow> \<not> lLost l \<and> lsNow s < lFence l | None \<Rightarrow> False)"

definition lease_inv :: "int \<Rightarrow> lease_system \<Rightarrow> bool" where
  "lease_inv secs s \<longleftrightarrow>
     (\<forall>p l. lsHolds s p = Some l \<longrightarrow> lSeconds l = secs \<and> (\<not> lLost l \<longrightarrow> lFence l \<le> lsNow s + secs))
   \<and> (\<forall>p l. holding s p \<and> lsHolds s p = Some l \<longrightarrow> (\<exists>e. lsRow s = Some e \<and> lFence l \<le> e))
   \<and> (\<forall>p q. holding s p \<and> holding s q \<longrightarrow> p = q)"

lemma holdingI: "lsHolds s p = Some l \<Longrightarrow> \<not> lLost l \<Longrightarrow> lsNow s < lFence l \<Longrightarrow> holding s p"
  by (simp add: holding_def)

lemma holdingE:
  assumes "holding s p"
  obtains l where "lsHolds s p = Some l" "\<not> lLost l" "lsNow s < lFence l"
  using assms by (auto simp: holding_def split: option.splits)

lemma lease_invD:
  assumes "lease_inv secs s"
  shows "lsHolds s p = Some l \<Longrightarrow> lSeconds l = secs" "lsHolds s p = Some l \<Longrightarrow> \<not> lLost l \<Longrightarrow> lFence l \<le> lsNow s + secs"
    "lsHolds s p = Some l \<Longrightarrow> \<not> lLost l \<Longrightarrow> lsNow s < lFence l \<Longrightarrow> \<exists>e. lsRow s = Some e \<and> lFence l \<le> e"
    "holding s p \<Longrightarrow> holding s q \<Longrightarrow> p = q"
  using assms holdingI [of s p l] unfolding lease_inv_def by blast+

text \<open>Only the holder's own fence matches the row of a process that holds the lock.\<close>

lemma fence_is_mine:
  assumes inv: "lease_inv secs s" and p: "holding s p" and q: "lsHolds s q = Some l" "\<not> lLost l" "lsRow s = Some (lFence l)"
  shows "q = p"
proof -
  obtain lp where lp: "lsHolds s p = Some lp" "\<not> lLost lp" "lsNow s < lFence lp" using p by (auto simp: holding_def split: option.splits)
  then have "lFence lp \<le> lFence l" using lease_invD(3) [OF inv lp] q(3) by simp
  then have "holding s q" using q lp(3) by (simp add: holding_def)
  then show ?thesis using lease_invD(4) [OF inv _ p] by blast
qed

lemma free_no_holder:
  assumes inv: "lease_inv secs s" and free: "upsert_lease (lsNow s) secs (lsRow s) = Some e"
  shows "\<not> holding s p"
proof
  assume "holding s p"
  then obtain l where "lsHolds s p = Some l" "\<not> lLost l" "lsNow s < lFence l" by (auto simp: holding_def split: option.splits)
  from lease_invD(3) [OF inv this] this(3) free show False by (auto simp: upsert_lease_def split: if_splits)
qed

lemma holding_set:
  "holding (set_proc p l row s) q \<longleftrightarrow> (if q = p then (case l of Some l \<Rightarrow> \<not> lLost l \<and> lsNow s < lFence l | None \<Rightarrow> False) else holding s q)"
  by (auto simp: holding_def set_proc_def split: option.splits)

text \<open>A step of \<open>p\<close> keeps the invariant when no other process holds the lock or the row only moves up.\<close>

lemma set_proc_inv:
  assumes inv: "lease_inv secs s"
    and mine: "\<And>l. lp = Some l \<Longrightarrow> lSeconds l = secs \<and> (\<not> lLost l \<longrightarrow> lFence l \<le> lsNow s + secs)"
    and row: "\<And>l. lp = Some l \<Longrightarrow> \<not> lLost l \<Longrightarrow> lsNow s < lFence l \<Longrightarrow> \<exists>e. row = Some e \<and> lFence l \<le> e"
    and others: "(\<forall>q. q \<noteq> p \<longrightarrow> \<not> holding s q)
      \<or> row = lsRow s \<and> (\<forall>l. lp = Some l \<and> \<not> lLost l \<and> lsNow s < lFence l \<longrightarrow> holding s p)"
  shows "lease_inv secs (set_proc p lp row s)"
proof -
  let ?s = "set_proc p lp row s"
  have "lSeconds l = secs \<and> (\<not> lLost l \<longrightarrow> lFence l \<le> lsNow ?s + secs)" if "lsHolds ?s q = Some l" for q l
    using that mine lease_invD(1,2) [OF inv] by (auto simp: set_proc_def split: if_splits)
  moreover have "\<exists>e. lsRow ?s = Some e \<and> lFence l \<le> e" if h: "holding ?s q" "lsHolds ?s q = Some l" for q l
  proof (cases "q = p")
    case True
    then show ?thesis using h row by (auto simp: holding_def set_proc_def)
  next
    case False
    then have q: "holding s q" "lsHolds s q = Some l" using h by (simp_all add: holding_set) (simp add: set_proc_def)
    then have "row = lsRow s" using others False by blast
    then show ?thesis using q inv by (auto simp: lease_inv_def set_proc_def)
  qed
  moreover have "q = r" if "holding ?s q" "holding ?s r" for q r
    using that others lease_invD(4) [OF inv] by (auto simp: holding_set split: if_splits option.splits)
  ultimately show ?thesis by (auto simp: lease_inv_def)
qed

lemma lease_keep_cases:
  assumes "lease_keep f now l row = (err, l', row')"
  shows "row' = row \<and> (l' = l \<or> l' = markLost l)
    \<or> row = Some (lFence l) \<and> \<not> lLost l \<and> row' = Some (now + lSeconds l) \<and> (l' = l \<or> l' = l\<lparr>lFence := now + lSeconds l\<rparr>)"
proof (cases "\<not> lLost l \<and> row = Some (lFence l)")
  case True
  then show ?thesis using assms by (cases f) (auto simp: lease_keep_def renew_def Let_def)
next
  case False
  then show ?thesis using assms by (cases "lLost l"; cases f) (auto simp: lease_keep_def renew_def Let_def)
qed

lemma lease_step_inv:
  assumes "lease_step secs s s'" "lease_inv secs s" "0 < secs"
  shows "lease_inv secs s'"
  using assms(1)
proof cases
  case (later t)
  have sub: "holding s' p \<Longrightarrow> holding s p" for p using later by (auto simp: holding_def split: option.splits)
  have same: "lsHolds s' = lsHolds s" "lsRow s' = lsRow s" "lsNow s \<le> lsNow s'" using later by simp_all
  show ?thesis
    unfolding lease_inv_def same
  proof (intro conjI allI impI)
    fix p l assume l: "lsHolds s p = Some l"
    show "lSeconds l = secs" by (rule lease_invD(1) [OF assms(2) l])
    assume "\<not> lLost l"
    then show "lFence l \<le> lsNow s' + secs" using lease_invD(2) [OF assms(2) l] same(3) by simp
  next
    fix p l assume "holding s' p \<and> lsHolds s p = Some l"
    then show "\<exists>e. lsRow s = Some e \<and> lFence l \<le> e" using sub assms(2) unfolding lease_inv_def by blast
  next
    fix p q assume "holding s' p \<and> holding s' q"
    then show "p = q" using sub lease_invD(4) [OF assms(2)] by blast
  qed
next
  case (acquire p f out row)
  show ?thesis
  proof (cases "upsert_lease (lsNow s) secs (lsRow s)")
    case (Some e)
    then have free: "upsert_lease (lsNow s) secs (lsRow s) = Some e" "e = lsNow s + secs"
      by (auto simp: upsert_lease_def split: option.splits if_splits)
    have none: "\<not> holding s q" for q using free_no_holder [OF assms(2) free(1)] .
    show ?thesis
      unfolding acquire(1)
      by (rule set_proc_inv [OF assms(2)])
        (use acquire(3) free none in \<open>auto simp: acquire_call_def free(1) [unfolded free(2)] split: fault.splits acquire_out.splits\<close>)
  next
    case None
    then have "row = lsRow s" "\<And>l. out \<noteq> Acquired l" using acquire(3) by (auto simp: acquire_call_def split: fault.splits)
    then show ?thesis unfolding acquire(1) by (intro set_proc_inv [OF assms(2)]) (auto split: acquire_out.splits)
  qed
next
  case (renewal p l f err l' row)
  note l = lease_invD(1,2) [OF assms(2) renewal(2)]
  have hit: "\<not> holding s q" if "lsRow s = Some (lFence l)" "\<not> lLost l" "q \<noteq> p" for q
    using fence_is_mine [OF assms(2) _ renewal(2) that(2,1), of q] that(3) by blast
  have "(lsHolds s)(p := Some l) = lsHolds s" using renewal(2) by (simp add: fun_upd_idem)
  then have keep: "lease_inv secs (set_proc p (Some l) (lsRow s) s)" using assms(2) by (simp add: set_proc_def)
  from lease_keep_cases [OF renewal(3)] l(1)
  consider (lost) "row = lsRow s" "l' = markLost l" | (same) "row = lsRow s" "l' = l"
    | (moved) "lsRow s = Some (lFence l)" "\<not> lLost l" "row = Some (lsNow s + secs)" "l' = l \<or> l' = l\<lparr>lFence := lsNow s + secs\<rparr>"
    by blast
  then show ?thesis
  proof cases
    case lost
    then show ?thesis unfolding renewal(1) using l by (intro set_proc_inv [OF assms(2)]) (auto simp: markLost_def)
  next
    case same
    then show ?thesis unfolding renewal(1) using keep by simp
  next
    case moved
    then show ?thesis unfolding renewal(1) using l hit by (intro set_proc_inv [OF assms(2)]) auto
  qed
next
  case (release p l f l' row)
  have "row = lsRow s \<or> lsRow s = Some (lFence l) \<and> \<not> lLost l"
    using release(3) by (auto simp: lease_release_def Let_def split: if_splits fault.splits)
  then have "(\<forall>q. q \<noteq> p \<longrightarrow> \<not> holding s q) \<or> row = lsRow s"
    using fence_is_mine [OF assms(2) _ release(2)] by blast
  then show ?thesis unfolding release(1) by (intro set_proc_inv [OF assms(2)]) auto
next
  case (crash p l)
  then show ?thesis by (auto intro!: set_proc_inv [OF assms(2)])
qed

lemma lease_reaches_inv: "lease_reaches secs s s' \<Longrightarrow> lease_inv secs s \<Longrightarrow> 0 < secs \<Longrightarrow> lease_inv secs s'"
  by (induction rule: lease_reaches.induct) (auto intro: lease_step_inv)


text \<open>C22. The lease is exclusive. However acquisitions, renewals, releases, crashes and the clock of any number of processes interleave, and
  whichever statements fail before or after their effect, at most one process has a lease that has not run out and that it does not
  know lost; while it has, no acquisition succeeds and no renewal or release of another process touches the row. A lease that ran
  out can be taken.\<close>

theorem lease_exclusive:
  assumes "0 < lease_seconds lease" "lease_reaches (lease_seconds lease) (lease_start now row) s"
  shows "(\<forall>p q. holding s p \<longrightarrow> holding s q \<longrightarrow> p = q)
    \<and> (\<forall>p. holding s p \<longrightarrow> (\<forall>f. snd (acquire_call f (lsNow s) (lease_seconds lease) (lsRow s)) = lsRow s
           \<and> (\<forall>l. fst (acquire_call f (lsNow s) (lease_seconds lease) (lsRow s)) \<noteq> Acquired l)))
    \<and> (\<forall>p q l f. holding s p \<longrightarrow> q \<noteq> p \<longrightarrow> lsHolds s q = Some l \<longrightarrow>
           snd (snd (lease_keep f (lsNow s) l (lsRow s))) = lsRow s \<and> snd (lease_release f l (lsRow s)) = lsRow s)
    \<and> (\<forall>e. lsRow s = Some e \<longrightarrow> e \<le> lsNow s \<longrightarrow> (\<exists>l. acquire_call Runs (lsNow s) (lease_seconds lease) (lsRow s) = (Acquired l, Some (lFence l))
           \<and> lsNow s < lFence l))"
proof -
  let ?secs = "lease_seconds lease"
  have "lease_inv ?secs (lease_start now row)" by (simp add: lease_inv_def lease_start_def holding_def)
  then have inv: "lease_inv ?secs s" using lease_reaches_inv assms by blast
  have acq: "upsert_lease (lsNow s) ?secs (lsRow s) = None" if "holding s p" for p
    using free_no_holder [OF inv] that by (cases "upsert_lease (lsNow s) ?secs (lsRow s)") auto
  have other: "snd (snd (lease_keep f (lsNow s) l (lsRow s))) = lsRow s \<and> snd (lease_release f l (lsRow s)) = lsRow s"
    if "holding s p" "q \<noteq> p" "lsHolds s q = Some l" for p q l f
  proof -
    have "lLost l \<or> lsRow s \<noteq> Some (lFence l)" using fence_is_mine [OF inv that(1,3)] that(2) by blast
    then show ?thesis by (auto simp: lease_keep_def renew_def lease_release_def Let_def split: fault.splits)
  qed
  have "lsRow s = Some e \<Longrightarrow> e \<le> lsNow s \<Longrightarrow> \<exists>l. acquire_call Runs (lsNow s) ?secs (lsRow s) = (Acquired l, Some (lFence l)) \<and> lsNow s < lFence l" for e
    using assms(1) by (simp add: acquire_call_def upsert_lease_def)
  then show ?thesis
    using lease_invD(4) [OF inv] acq other by (auto simp: acquire_call_def split: fault.splits)
qed

theorem lease_exclusive_witness:
  "\<exists>s. lease_reaches (lease_seconds (60 * second)) (lease_start 0 None) s \<and> holding s 1 \<and> \<not> holding s 2
     \<and> (\<forall>q. holding s q \<longrightarrow> q = 1)"
proof -
  have secs: "lease_seconds (60 * second) = 60" by (simp add: lease_seconds_def second_def sdiv_nonneg)
  define l where "l = \<lparr>lSeconds = 60, lFence = 60, lLost = False\<rparr>"
  define s where "s = set_proc 1 (Some l) (Some 60) (lease_start 0 None)"
  have "acquire_call Runs 0 60 None = (Acquired l, Some 60)" by (simp add: acquire_call_def upsert_lease_def l_def)
  then have "lease_step 60 (lease_start 0 None) s"
    using lease_step.acquire [of "lease_start 0 None" 1 Runs 60 "Acquired l" "Some 60"] by (simp add: lease_start_def s_def)
  then have r: "lease_reaches (lease_seconds (60 * second)) (lease_start 0 None) s"
    unfolding secs by (intro lease_reaches.step [OF lease_reaches.start])
  have h: "holding s 1" by (simp add: holding_def s_def set_proc_def lease_start_def l_def)
  have "0 < lease_seconds (60 * second)" by (simp add: secs)
  from conjunct1 [OF lease_exclusive [OF this r]] h have "\<forall>q. holding s q \<longrightarrow> q = 1" by blast
  moreover have "\<not> holding s 2" by (simp add: holding_def s_def set_proc_def lease_start_def)
  ultimately show ?thesis using r h by blast
qed

end
