(* ===== verification/StrictKeys.thy ===== *)
theory StrictKeys
  imports GoPrelude
begin

text \<open>
  The key rule of strict JSON decoding (\<^verbatim>\<open>core/handler/decode_strict.go\<close>): before a body is decoded, its tokens are
  walked and any object that repeats a key, or holds two keys the decoder would match to one struct
  field, is refused.

  The tokens are those of \<^verbatim>\<open>json.Decoder\<close>: delimiters, strings and other scalars, commas and colons
  consumed inside. \<open>Bad\<close> is the place where the tokeniser fails, by a syntax error; the end
  of the list is the end of the input. The fold of keys is an argument of the code too.
  The recursive walk is bounded by the number of tokens, which \<open>walk_fuel\<close> shows to be enough.
\<close>

section \<open>Tokens\<close>

datatype JTok = Delim char | Str string | Scalar | Bad

definition dec_Token :: "JTok list \<Rightarrow> (JTok \<times> JTok list) option" where
  "dec_Token ts = (case ts of [] \<Rightarrow> None | Bad # _ \<Rightarrow> None | t # r \<Rightarrow> Some (t, r))"

definition dec_More :: "JTok list \<Rightarrow> bool" where
  "dec_More ts = (case ts of [] \<Rightarrow> False | t # _ \<Rightarrow> t \<noteq> Delim CHR ''}'' \<and> t \<noteq> Delim CHR '']'')"

text \<open>\<^verbatim>\<open>Decode\<close> into a raw message consumes one value: it stops where the nesting closes.\<close>

fun skip_value :: "nat \<Rightarrow> JTok list \<Rightarrow> JTok list option" where
  "skip_value d [] = None"
| "skip_value d (t # r) =
     (if t = Bad then None
      else if t = Delim CHR ''{'' \<or> t = Delim CHR ''['' then skip_value (d + 1) r
      else if t = Delim CHR ''}'' \<or> t = Delim CHR '']''
      then (if d = 0 then None else if d = 1 then Some r else skip_value (d - 1) r)
      else if d = 0 then Some r else skip_value d r)"

section \<open>The walks\<close>

datatype pathSeg = KeySeg string | IdxSeg nat

datatype walk_err =
    KeyRefusal "pathSeg list" string string
  | TokenError

fun walkObjectKeys :: "nat \<Rightarrow> (string \<Rightarrow> string) \<Rightarrow> pathSeg list \<Rightarrow> JTok list \<Rightarrow> walk_err + JTok list"
  and walkObject :: "nat \<Rightarrow> (string \<Rightarrow> string) \<Rightarrow> pathSeg list \<Rightarrow> (string \<rightharpoonup> string) \<Rightarrow> JTok list \<Rightarrow> walk_err + JTok list"
  and walkArray :: "nat \<Rightarrow> (string \<Rightarrow> string) \<Rightarrow> pathSeg list \<Rightarrow> nat \<Rightarrow> JTok list \<Rightarrow> walk_err + JTok list"
where
  "walkObjectKeys 0 fd path ts = Inl TokenError"
| "walkObjectKeys (Suc n) fd path ts =
     (case dec_Token ts of
        None \<Rightarrow> Inl TokenError
      | Some (tok, r) \<Rightarrow>
          if tok = Delim CHR ''{'' then walkObject n fd path (\<lambda>_. None) r
          else if tok = Delim CHR ''['' then walkArray n fd path 0 r
          else Inr r)"
| "walkObject 0 fd path seen ts = Inl TokenError"
| "walkObject (Suc n) fd path seen ts =
     (if dec_More ts
      then (case dec_Token ts of
              Some (Str key, r) \<Rightarrow>
                (case seen (fd key) of
                   Some prev \<Rightarrow> Inl (KeyRefusal path prev key)
                 | None \<Rightarrow>
                     (case walkObjectKeys n fd (path @ [KeySeg key]) r of
                        Inl e \<Rightarrow> Inl e
                      | Inr r' \<Rightarrow> walkObject n fd path (seen(fd key \<mapsto> key)) r'))
            | _ \<Rightarrow> Inl TokenError)
      else (case dec_Token ts of None \<Rightarrow> Inl TokenError | Some (_, r) \<Rightarrow> Inr r))"
| "walkArray 0 fd path i ts = Inl TokenError"
| "walkArray (Suc n) fd path i ts =
     (if dec_More ts
      then (case walkObjectKeys n fd (path @ [IdxSeg i]) ts of
              Inl e \<Rightarrow> Inl e
            | Inr r' \<Rightarrow> walkArray n fd path (i + 1) r')
      else (case dec_Token ts of None \<Rightarrow> Inl TokenError | Some (_, r) \<Rightarrow> Inr r))"

text \<open>Only a refused key is reported; a tokenisation failure is left to the decoder that follows.\<close>

definition CheckObjectKeys :: "(string \<Rightarrow> string) \<Rightarrow> JTok list \<Rightarrow> walk_err option" where
  "CheckObjectKeys fd ts =
     (case walkObjectKeys (2 * length ts + 1) fd [] ts of
        Inl (KeyRefusal path prev key) \<Rightarrow> Some (KeyRefusal path prev key)
      | _ \<Rightarrow> None)"

fun topLoop :: "nat \<Rightarrow> (string \<Rightarrow> string) \<Rightarrow> (string \<rightharpoonup> string) \<Rightarrow> JTok list \<Rightarrow> walk_err option" where
  "topLoop 0 fd seen ts = None"
| "topLoop (Suc n) fd seen ts =
     (if dec_More ts
      then (case dec_Token ts of
              Some (Str key, r) \<Rightarrow>
                (case seen (fd key) of
                   Some prev \<Rightarrow> Some (KeyRefusal [] prev key)
                 | None \<Rightarrow> (case skip_value 0 r of None \<Rightarrow> None | Some r' \<Rightarrow> topLoop n fd (seen(fd key \<mapsto> key)) r'))
            | _ \<Rightarrow> None)
      else None)"

definition CheckTopLevelKeys :: "(string \<Rightarrow> string) \<Rightarrow> JTok list \<Rightarrow> walk_err option" where
  "CheckTopLevelKeys fd ts =
     (case dec_Token ts of
        Some (Delim c, r) \<Rightarrow> if c = CHR ''{'' then topLoop (length r) fd (\<lambda>_. None) r else None
      | _ \<Rightarrow> None)"

section \<open>The rule the walks decide\<close>

text \<open>A JSON value as the decoder reads it, the tokens of its text, and the rule: in every object of the value
  the folded keys differ.\<close>

datatype JVal = JScalar | JStr string | JArr "JVal list" | JObj "(string \<times> JVal) list"

fun tokens_of :: "JVal \<Rightarrow> JTok list" where
  "tokens_of JScalar = [Scalar]"
| "tokens_of (JStr s) = [Str s]"
| "tokens_of (JArr vs) = Delim CHR ''['' # concat (map tokens_of vs) @ [Delim CHR '']'']"
| "tokens_of (JObj kvs) =
     Delim CHR ''{'' # concat (map (\<lambda>(k, v). Str k # tokens_of v) kvs) @ [Delim CHR ''}'']"

fun keys_unique :: "(string \<Rightarrow> string) \<Rightarrow> JVal \<Rightarrow> bool" where
  "keys_unique fd (JArr vs) \<longleftrightarrow> list_all (keys_unique fd) vs"
| "keys_unique fd (JObj kvs) \<longleftrightarrow>
     distinct (map (fd \<circ> fst) kvs) \<and> list_all (\<lambda>(k, v). keys_unique fd v) kvs"
| "keys_unique fd _ \<longleftrightarrow> True"

lemma tokens_of_Cons: "\<exists>t r. tokens_of v = t # r \<and> t \<noteq> Bad \<and> t \<noteq> Delim CHR ''}'' \<and> t \<noteq> Delim CHR '']''"
  by (cases v) auto

lemma More_tokens [simp]: "dec_More (tokens_of v @ r)"
  using tokens_of_Cons [of v] by (auto simp: dec_More_def)

lemma Token_simps [simp]:
  "dec_Token (Str k # r) = Some (Str k, r)" "dec_Token (Scalar # r) = Some (Scalar, r)"
  "dec_Token (Delim c # r) = Some (Delim c, r)" "dec_Token [] = None" "dec_Token (Bad # r) = None"
  by (simp_all add: dec_Token_def)

lemma More_simps [simp]:
  "dec_More (Str k # r)" "\<not> dec_More (Delim CHR ''}'' # r)" "\<not> dec_More (Delim CHR '']'' # r)" "\<not> dec_More []"
  by (simp_all add: dec_More_def)

text \<open>What a walk of a value's tokens returns: the rest of the stream when the rule holds of the value, a refusal
  otherwise.\<close>

definition walk_says :: "bool \<Rightarrow> JTok list \<Rightarrow> walk_err + JTok list \<Rightarrow> bool" where
  "walk_says ok r res \<longleftrightarrow> (if ok then res = Inr r else \<exists>p a b. res = Inl (KeyRefusal p a b))"

lemma walk_says_simps [simp]:
  "walk_says True r res \<longleftrightarrow> res = Inr r" "walk_says ok r (Inl (KeyRefusal p a b)) \<longleftrightarrow> \<not> ok"
  "walk_says False r res \<longleftrightarrow> (\<exists>p a b. res = Inl (KeyRefusal p a b))"
  by (auto simp: walk_says_def)

lemma walkArray_says:
  assumes "\<And>v n p r. v \<in> set vs \<Longrightarrow> length (tokens_of v) * 2 \<le> n \<Longrightarrow>
      walk_says (keys_unique fd v) r (walkObjectKeys n fd p (tokens_of v @ r))"
    and "length (concat (map tokens_of vs)) * 2 + 2 \<le> n"
  shows "walk_says (list_all (keys_unique fd) vs) r
      (walkArray n fd p i (concat (map tokens_of vs) @ Delim CHR '']'' # r))"
  using assms
proof (induction vs arbitrary: n i)
  case Nil
  then obtain m where "n = Suc m" by (cases n) auto
  then show ?case by simp
next
  case (Cons v vs)
  then obtain m where n: "n = Suc m" by (cases n) auto
  let ?rest = "concat (map tokens_of vs) @ Delim CHR '']'' # r"
  have pos: "1 \<le> length (tokens_of v)" using tokens_of_Cons [of v] by auto
  have v: "walk_says (keys_unique fd v) ?rest (walkObjectKeys m fd (p @ [IdxSeg i]) (tokens_of v @ ?rest))"
    using Cons.prems n by (intro Cons.prems(1)) auto
  have vs: "walk_says (list_all (keys_unique fd) vs) r (walkArray m fd p (i + 1) ?rest)"
    using Cons.prems n pos by (intro Cons.IH) auto
  show ?case
    using v vs by (cases "keys_unique fd v") (auto simp: n)
qed

lemma walkObject_says:
  assumes "\<And>k v n p r. (k, v) \<in> set kvs \<Longrightarrow> length (tokens_of v) * 2 \<le> n \<Longrightarrow>
      walk_says (keys_unique fd v) r (walkObjectKeys n fd p (tokens_of v @ r))"
    and "length (concat (map (\<lambda>(k, v). Str k # tokens_of v) kvs)) * 2 + 2 \<le> n"
  shows "walk_says (distinct (map (fd \<circ> fst) kvs) \<and> (\<forall>k \<in> fst ` set kvs. seen (fd k) = None) \<and>
        list_all (\<lambda>(k, v). keys_unique fd v) kvs) r
      (walkObject n fd p seen (concat (map (\<lambda>(k, v). Str k # tokens_of v) kvs) @ Delim CHR ''}'' # r))"
  using assms
proof (induction kvs arbitrary: n seen)
  case Nil
  then obtain m where "n = Suc m" by (cases n) auto
  then show ?case by simp
next
  case (Cons kv kvs)
  obtain k v where kv: "kv = (k, v)" by force
  obtain m where n: "n = Suc m" using Cons.prems(2) by (cases n) auto
  let ?rest = "concat (map (\<lambda>(k, v). Str k # tokens_of v) kvs) @ Delim CHR ''}'' # r"
  have v: "walk_says (keys_unique fd v) ?rest (walkObjectKeys m fd (p @ [KeySeg k]) (tokens_of v @ ?rest))"
    using Cons.prems n kv by (intro Cons.prems(1)) auto
  have vs: "walk_says (distinct (map (fd \<circ> fst) kvs) \<and> (\<forall>k' \<in> fst ` set kvs. (seen(fd k \<mapsto> k)) (fd k') = None) \<and>
        list_all (\<lambda>(k, v). keys_unique fd v) kvs) r (walkObject m fd p (seen(fd k \<mapsto> k)) ?rest)"
  proof (rule Cons.IH)
    show "walk_says (keys_unique fd v') r' (walkObjectKeys n' fd p' (tokens_of v' @ r'))"
      if "(k', v') \<in> set kvs" "length (tokens_of v') * 2 \<le> n'" for k' v' n' p' r'
      using that by (intro Cons.prems(1) [of k']) auto
    show "length (concat (map (\<lambda>(k, v). Str k # tokens_of v) kvs)) * 2 + 2 \<le> m"
      using Cons.prems(2) n kv by simp
  qed
  have split: "(distinct (map (fd \<circ> fst) kvs) \<and> (\<forall>k' \<in> fst ` set kvs. (seen(fd k \<mapsto> k)) (fd k') = None) \<and>
        list_all (\<lambda>(k, v). keys_unique fd v) kvs) \<longleftrightarrow>
     (fd k \<notin> (fd \<circ> fst) ` set kvs \<and> distinct (map (fd \<circ> fst) kvs) \<and> (\<forall>k' \<in> fst ` set kvs. seen (fd k') = None) \<and>
        list_all (\<lambda>(k, v). keys_unique fd v) kvs)"
    by (auto simp: image_iff)
  show ?case
  proof (cases "seen (fd k)")
    case (Some prev)
    then show ?thesis by (simp add: kv n)
  next
    case None
    show ?thesis
      using v vs unfolding split by (cases "keys_unique fd v") (auto simp: kv n None comp_def)
  qed
qed

lemma walk_says_value:
  assumes "length (tokens_of v) * 2 \<le> n"
  shows "walk_says (keys_unique fd v) r (walkObjectKeys n fd p (tokens_of v @ r))"
  using assms
proof (induction v arbitrary: n p r)
  case (JArr vs)
  then obtain m where n: "n = Suc m" by (cases n) auto
  have "walk_says (list_all (keys_unique fd) vs) r
      (walkArray m fd p 0 (concat (map tokens_of vs) @ Delim CHR '']'' # r))"
    using JArr n by (intro walkArray_says) auto
  then show ?case by (simp add: n)
next
  case (JObj kvs)
  then obtain m where n: "n = Suc m" by (cases n) auto
  have "walk_says (distinct (map (fd \<circ> fst) kvs) \<and> (\<forall>k \<in> fst ` set kvs. (\<lambda>_. None) (fd k) = (None :: string option)) \<and>
        list_all (\<lambda>(k, v). keys_unique fd v) kvs) r
      (walkObject m fd p (\<lambda>_. None) (concat (map (\<lambda>(k, v). Str k # tokens_of v) kvs) @ Delim CHR ''}'' # r))"
    using JObj.prems n JObj.IH by (intro walkObject_says) (auto simp: snds.simps)
  then show ?case by (simp add: n)
next
  case JScalar
  then obtain m where "n = Suc m" by (cases n) auto
  then show ?case by simp
next
  case (JStr s)
  then obtain m where "n = Suc m" by (cases n) auto
  then show ?case by simp
qed

text \<open>Twice the number of tokens is enough: more does not change a walk, on malformed streams included.\<close>

lemma Token_shorter: "dec_Token ts = Some (t, r) \<Longrightarrow> length ts = Suc (length r)"
  by (auto simp: dec_Token_def split: list.splits JTok.splits)

lemma walk_shorter:
  "walkObjectKeys n fd p ts = Inr r \<Longrightarrow> length r < length ts"
  "walkObject n fd p seen ts = Inr r \<Longrightarrow> length r < length ts"
  "walkArray n fd p i ts = Inr r \<Longrightarrow> length r < length ts"
  by (induction n fd p ts and n fd p seen ts and n fd p i ts arbitrary: r and r and r
        rule: walkObjectKeys_walkObject_walkArray.induct)
    (fastforce dest: Token_shorter split: option.splits prod.splits if_splits JTok.splits sum.splits)+

lemma walk_fuel_step:
  "2 * length ts + 1 \<le> n \<Longrightarrow> walkObjectKeys (Suc n) fd p ts = walkObjectKeys n fd p ts"
  "2 * length ts + 2 \<le> n \<Longrightarrow> walkObject (Suc n) fd p seen ts = walkObject n fd p seen ts"
  "2 * length ts + 2 \<le> n \<Longrightarrow> walkArray (Suc n) fd p i ts = walkArray n fd p i ts"
proof (induction n fd p ts and n fd p seen ts and n fd p i ts rule: walkObjectKeys_walkObject_walkArray.induct)
  case (2 n fd path ts)
  have "walkObject (Suc n) fd path (\<lambda>_. None) r = walkObject n fd path (\<lambda>_. None) r"
    if "dec_Token ts = Some (Delim CHR ''{'', r)" for r
    using 2(1) [OF that refl refl] 2(3) Token_shorter [OF that] by simp
  moreover have "walkArray (Suc n) fd path 0 r = walkArray n fd path 0 r"
    if "dec_Token ts = Some (Delim CHR ''['', r)" for r
    using 2(2) [OF that refl _ refl] 2(3) Token_shorter [OF that] by simp
  ultimately show ?case
    by (simp only: walkObjectKeys.simps) (auto split: option.splits prod.splits)
next
  case (4 n fd path seen ts)
  show ?case
  proof (cases "\<exists>key r. dec_More ts \<and> dec_Token ts = Some (Str key, r) \<and> seen (fd key) = None")
    case True
    then obtain key r where t: "dec_More ts" "dec_Token ts = Some (Str key, r)" and new: "seen (fd key) = None" by auto
    have short: "length ts = Suc (length r)" using Token_shorter [OF t(2)] .
    have v: "walkObjectKeys (Suc n) fd (path @ [KeySeg key]) r = walkObjectKeys n fd (path @ [KeySeg key]) r"
      using 4(1) [OF t refl refl new] 4(3) short by simp
    have rest: "walkObject (Suc n) fd path (seen(fd key \<mapsto> key)) r' = walkObject n fd path (seen(fd key \<mapsto> key)) r'"
      if "walkObjectKeys n fd (path @ [KeySeg key]) r = Inr r'" for r'
      using 4(2) [OF t refl refl new that] walk_shorter(1) [OF that] 4(3) short by (simp add: fun_upd_def)
    show ?thesis
      unfolding walkObject.simps(2) [of "Suc n" fd path seen ts] walkObject.simps(2) [of n fd path seen ts]
      using v rest by (simp only: t new if_True option.case prod.case JTok.case) (simp split: sum.splits)
  next
    case False
    then show ?thesis
      unfolding walkObject.simps(2) [of "Suc n" fd path seen ts] walkObject.simps(2) [of n fd path seen ts]
      by (auto split: option.splits JTok.splits)
  qed
next
  case (6 n fd path i ts)
  show ?case
  proof (cases "dec_More ts")
    case True
    have v: "walkObjectKeys (Suc n) fd (path @ [IdxSeg i]) ts = walkObjectKeys n fd (path @ [IdxSeg i]) ts"
      using 6(1) [OF True] 6(3) by simp
    have rest: "walkArray (Suc n) fd path (i + 1) r' = walkArray n fd path (i + 1) r'"
      if "walkObjectKeys n fd (path @ [IdxSeg i]) ts = Inr r'" for r'
      using 6(2) [OF True that] walk_shorter(1) [OF that] 6(3) by simp
    show ?thesis
      unfolding walkArray.simps(2) [of "Suc n" fd path i ts] walkArray.simps(2) [of n fd path i ts]
      using v rest True
      by (cases "walkObjectKeys n fd (path @ [IdxSeg i]) ts")
        (simp_all del: walkArray.simps walkObjectKeys.simps walkObject.simps)
  next
    case False
    then show ?thesis by simp
  qed
qed auto

lemma walk_fuel: "2 * length ts + 1 \<le> n \<Longrightarrow> walkObjectKeys n fd p ts = walkObjectKeys (2 * length ts + 1) fd p ts"
proof (induction n rule: dec_induct)
  case (step m)
  then show ?case using walk_fuel_step(1) [OF step.hyps(1)] by simp
qed simp

text \<open>The refusal names two keys with one fold.\<close>

lemma refusal_keys:
  "walkObjectKeys n fd p ts = Inl (KeyRefusal q a b) \<Longrightarrow> fd a = fd b"
  "\<forall>x y. seen x = Some y \<longrightarrow> fd y = x \<Longrightarrow> walkObject n fd p seen ts = Inl (KeyRefusal q a b) \<Longrightarrow> fd a = fd b"
  "walkArray n fd p i ts = Inl (KeyRefusal q a b) \<Longrightarrow> fd a = fd b"
proof (induction n fd p ts and n fd p seen ts and n fd p i ts rule: walkObjectKeys_walkObject_walkArray.induct)
  case (2 n fd path ts)
  then show ?case by (auto split: option.splits prod.splits if_splits)
next
  case (4 n fd path seen ts)
  show ?case
  proof (cases "\<exists>key r. dec_More ts \<and> dec_Token ts = Some (Str key, r)")
    case True
    then obtain key r where t: "dec_More ts" "dec_Token ts = Some (Str key, r)" by auto
    have seen': "\<forall>x y. (seen(fd key \<mapsto> key)) x = Some y \<longrightarrow> fd y = x" using 4(3) by simp
    show ?thesis
    proof (cases "seen (fd key)")
      case None
      show ?thesis
        using 4(4) 4(1) [OF t(1,2) refl refl None] 4(2) [OF t(1,2) refl refl None _ seen']
        by (cases "walkObjectKeys n fd (path @ [KeySeg key]) r") (auto simp: t None fun_upd_def)
    qed (use 4(3,4) t in auto)
  qed (use 4(4) in \<open>auto split: option.splits prod.splits if_splits JTok.splits\<close>)
next
  case (6 n fd path i ts)
  then show ?case by (auto split: option.splits prod.splits if_splits sum.splits)
qed auto

text \<open>C30. For the tokens of any JSON value, with whatever follows it, the check refuses exactly when some object of
  the value, at any depth, has two keys with the same fold.\<close>

theorem CheckObjectKeys_decides:
  "CheckObjectKeys fd (tokens_of v @ r) = None \<longleftrightarrow> keys_unique fd v"
proof -
  have "walk_says (keys_unique fd v) r (walkObjectKeys (2 * length (tokens_of v @ r) + 1) fd [] (tokens_of v @ r))"
    by (intro walk_says_value) simp
  then show ?thesis
    by (cases "keys_unique fd v") (auto simp: CheckObjectKeys_def)
qed

end
