(* ===== verification/ModuleProto.thy ===== *)
theory ModuleProto
  imports GoStrconv StrictKeys
begin

text \<open>
  The wire protocol between the host and a process module (\<^verbatim>\<open>core/moduleproto\<close>): the frame and the validation of a
  decoded one (\<^verbatim>\<open>frame.go\<close>), version and feature negotiation (\<^verbatim>\<open>version.go\<close>), the
  handshake's verdict (\<^verbatim>\<open>handshake.go\<close>), the newline-delimited codec (\<^verbatim>\<open>codec.go\<close>) and the
  ring that keeps the end of the child's error output (\<^verbatim>\<open>stderrsink.go\<close>).

  A uint64 is a natural number below \<open>2 ^ 64\<close>. A raw JSON message is its text, nil the empty text.
  The JSON encoding of a frame, the decoding of a struct and the tokeniser are arguments.
\<close>

section \<open>Frames\<close>

record RpcError =
  ecode :: int
  emessage :: string
  edata :: string

record Frame =
  JSONRPC :: string
  ID :: "nat option"
  fmethod :: string
  Params :: string
  Result :: string
  Error :: "RpcError option"

datatype ProtoError =
    ErrClosed
  | ErrInflightCap
  | ErrInvalidFrame string
  | ErrNegotiation
  | ErrCriticalFeature string
  | ErrHandshakeUnanswered
  | ErrStalled
  | OvercapError "nat option" nat
  | HandshakeMismatch string
  | EmptyMethod
  | MarshalError
  | DecodeError
  | ConfigError
  | CtxErr
  | EOF
  | IOError
  | Rpc RpcError

definition CodeMethodNotFound :: int where "CodeMethodNotFound = -32601"
definition CodeInternalError :: int where "CodeInternalError = -32603"
definition CodeInflightCap :: int where "CodeInflightCap = -32098"

definition HasID :: "Frame \<Rightarrow> bool" where "HasID f \<longleftrightarrow> ID f \<noteq> None"

definition IDValue :: "Frame \<Rightarrow> nat" where
  "IDValue f = (case ID f of None \<Rightarrow> 0 | Some i \<Rightarrow> i)"

definition IsRequest :: "Frame \<Rightarrow> bool" where "IsRequest f \<longleftrightarrow> fmethod f \<noteq> [] \<and> ID f \<noteq> None"

definition IsNotification :: "Frame \<Rightarrow> bool" where "IsNotification f \<longleftrightarrow> fmethod f \<noteq> [] \<and> ID f = None"

definition IsResponse :: "Frame \<Rightarrow> bool" where "IsResponse f \<longleftrightarrow> fmethod f = [] \<and> ID f \<noteq> None"

definition IsSuccess :: "Frame \<Rightarrow> bool" where
  "IsSuccess f \<longleftrightarrow> fmethod f = [] \<and> ID f \<noteq> None \<and> Error f = None"

definition IsError :: "Frame \<Rightarrow> bool" where "IsError f \<longleftrightarrow> Error f \<noteq> None"

definition NewRequest :: "nat \<Rightarrow> string \<Rightarrow> string \<Rightarrow> Frame" where
  "NewRequest i m ps = \<lparr>JSONRPC = ''2.0'', ID = Some i, fmethod = m, Params = ps, Result = [], Error = None\<rparr>"

definition NewNotification :: "string \<Rightarrow> string \<Rightarrow> Frame" where
  "NewNotification m ps = \<lparr>JSONRPC = ''2.0'', ID = None, fmethod = m, Params = ps, Result = [], Error = None\<rparr>"

definition NewSuccessResponse :: "nat \<Rightarrow> string \<Rightarrow> Frame" where
  "NewSuccessResponse i res =
     \<lparr>JSONRPC = ''2.0'', ID = Some i, fmethod = [], Params = [], Result = (if res = [] then ''null'' else res),
      Error = None\<rparr>"

definition NewErrorResponse :: "nat \<Rightarrow> int \<Rightarrow> string \<Rightarrow> string \<Rightarrow> Frame" where
  "NewErrorResponse i c msg d =
     \<lparr>JSONRPC = ''2.0'', ID = Some i, fmethod = [], Params = [], Result = [],
      Error = Some \<lparr>ecode = c, emessage = msg, edata = d\<rparr>\<rparr>"

lemmas frame_constructors = NewRequest_def NewNotification_def NewSuccessResponse_def NewErrorResponse_def

text \<open>\<^verbatim>\<open>UnmarshalJSON\<close>: \<open>dec\<close> decodes the struct, \<open>rawID\<close> reads the raw
  text of the \<^verbatim>\<open>id\<close> field (empty when absent). Every failure is an invalid frame.\<close>

definition Frame_UnmarshalJSON ::
  "(string \<Rightarrow> Frame option) \<Rightarrow> (string \<Rightarrow> string option) \<Rightarrow> string \<Rightarrow> ProtoError + Frame"
where
  "Frame_UnmarshalJSON dec rawID text =
     (case dec text of
        None \<Rightarrow> Inl (ErrInvalidFrame ''json'')
      | Some r \<Rightarrow>
          if JSONRPC r \<noteq> ''2.0'' then Inl (ErrInvalidFrame ''jsonrpc'')
          else
            (case rawID text of
               None \<Rightarrow> Inl (ErrInvalidFrame ''json'')
             | Some rid \<Rightarrow>
                 let hasMethod = fmethod r \<noteq> []; hasResult = Result r \<noteq> [];
                     hasError = Error r \<noteq> None; hasID = ID r \<noteq> None
                 in if trim_space rid = ''null'' then Inl (ErrInvalidFrame ''id null'')
                    else if ID r = Some 0 then Inl (ErrInvalidFrame ''id 0'')
                    else if hasMethod \<and> (hasResult \<or> hasError) then Inl (ErrInvalidFrame ''method with result/error'')
                    else if \<not> hasMethod \<and> \<not> hasID then Inl (ErrInvalidFrame ''response missing id'')
                    else if \<not> hasMethod \<and> hasResult \<and> hasError then Inl (ErrInvalidFrame ''result and error'')
                    else if \<not> hasMethod \<and> \<not> hasResult \<and> \<not> hasError then Inl (ErrInvalidFrame ''no result/error'')
                    else Inr r))"

text \<open>What the read loop may rely on of a frame that was accepted.\<close>

definition frame_ok :: "Frame \<Rightarrow> bool" where
  "frame_ok f \<longleftrightarrow>
     JSONRPC f = ''2.0'' \<and> ID f \<noteq> Some 0 \<and>
     (if fmethod f \<noteq> [] then Result f = [] \<and> Error f = None
      else ID f \<noteq> None \<and> (Result f \<noteq> []) \<noteq> (Error f \<noteq> None))"

lemma UnmarshalJSON_iff:
  "Frame_UnmarshalJSON dec rawID text = Inr f \<longleftrightarrow>
     dec text = Some f \<and> (\<exists>rid. rawID text = Some rid \<and> trim_space rid \<noteq> ''null'') \<and> frame_ok f"
  by (auto simp: Frame_UnmarshalJSON_def frame_ok_def Let_def split: option.splits if_splits)

lemma frame_kinds:
  "frame_ok f \<Longrightarrow>
     (IsRequest f \<and> \<not> IsNotification f \<and> \<not> IsResponse f) \<or>
     (\<not> IsRequest f \<and> IsNotification f \<and> \<not> IsResponse f) \<or>
     (\<not> IsRequest f \<and> \<not> IsNotification f \<and> IsResponse f)"
  by (auto simp: frame_ok_def IsRequest_def IsNotification_def IsResponse_def split: if_splits)

lemma constructed_ok [simp]:
  "m \<noteq> [] \<Longrightarrow> 0 < i \<Longrightarrow> frame_ok (NewRequest i m ps)"
  "m \<noteq> [] \<Longrightarrow> frame_ok (NewNotification m ps)"
  "0 < i \<Longrightarrow> frame_ok (NewSuccessResponse i res)"
  "0 < i \<Longrightarrow> frame_ok (NewErrorResponse i c msg d)"
  by (simp_all add: frame_ok_def frame_constructors)

section \<open>Versions and features\<close>

record ProtoRange =
  pmin :: int
  pmax :: int

definition ProtoRange_Contains :: "ProtoRange \<Rightarrow> int \<Rightarrow> bool" where
  "ProtoRange_Contains r v \<longleftrightarrow> v \<ge> pmin r \<and> v \<le> pmax r"

definition ProtoRange_Validate :: "ProtoRange \<Rightarrow> ProtoError option" where
  "ProtoRange_Validate r =
     (if pmin r > pmax r then Some ErrNegotiation else if pmin r < 1 then Some ErrNegotiation else None)"

definition Negotiate :: "ProtoRange \<Rightarrow> ProtoRange \<Rightarrow> ProtoError + int" where
  "Negotiate host child =
     (case ProtoRange_Validate host of
        Some e \<Rightarrow> Inl e
      | None \<Rightarrow>
          (case ProtoRange_Validate child of
             Some e \<Rightarrow> Inl e
           | None \<Rightarrow>
               let ceiling = min (pmax host) (pmax child); floor = max (pmin host) (pmin child)
               in if ceiling < floor then Inl ErrNegotiation else Inr ceiling))"

fun CheckCritical :: "string list \<Rightarrow> string list \<Rightarrow> ProtoError option" where
  "CheckCritical supported [] = None"
| "CheckCritical supported (r # rs) =
     (if r \<in> set supported then CheckCritical supported rs else Some (ErrCriticalFeature r))"

fun ack_loop :: "string list \<Rightarrow> string list \<Rightarrow> string list \<Rightarrow> string list" where
  "ack_loop b seen [] = []"
| "ack_loop b seen (s # a) =
     (if s \<notin> set b then ack_loop b seen a
      else if s \<in> set seen then ack_loop b seen a
      else s # ack_loop b (s # seen) a)"

definition FeatureAck :: "string list \<Rightarrow> string list \<Rightarrow> string list" where
  "FeatureAck a b = (if a = [] \<or> b = [] then [] else ack_loop b [] a)"

definition highest_common :: "ProtoRange \<Rightarrow> ProtoRange \<Rightarrow> int \<Rightarrow> bool" where
  "highest_common host child v \<longleftrightarrow>
     ProtoRange_Contains host v \<and> ProtoRange_Contains child v \<and>
     (\<forall>w. ProtoRange_Contains host w \<and> ProtoRange_Contains child w \<longrightarrow> w \<le> v)"

lemma highest_common_iff:
  "highest_common host child v \<longleftrightarrow> max (pmin host) (pmin child) \<le> v \<and> v = min (pmax host) (pmax child)"
proof
  assume "highest_common host child v"
  then have c: "ProtoRange_Contains host v" "ProtoRange_Contains child v"
    and m: "\<And>w. ProtoRange_Contains host w \<Longrightarrow> ProtoRange_Contains child w \<Longrightarrow> w \<le> v"
    by (auto simp: highest_common_def)
  have "min (pmax host) (pmax child) \<le> v" using c by (intro m) (auto simp: ProtoRange_Contains_def)
  with c show "max (pmin host) (pmin child) \<le> v \<and> v = min (pmax host) (pmax child)"
    by (auto simp: ProtoRange_Contains_def)
qed (auto simp: highest_common_def ProtoRange_Contains_def)

lemma Negotiate_iff:
  "Negotiate host child = Inr v \<longleftrightarrow>
     ProtoRange_Validate host = None \<and> ProtoRange_Validate child = None \<and> highest_common host child v"
  unfolding highest_common_iff by (auto simp: Negotiate_def Let_def split: option.splits if_splits)

lemma Negotiate_refuses:
  "Negotiate host child = Inl e \<longleftrightarrow>
     e = ErrNegotiation \<and>
     (ProtoRange_Validate host \<noteq> None \<or> ProtoRange_Validate child \<noteq> None \<or> (\<forall>v. \<not> highest_common host child v))"
  unfolding highest_common_iff
  by (auto simp: Negotiate_def ProtoRange_Validate_def Let_def not_le split: option.splits if_splits)

lemma CheckCritical_iff: "CheckCritical supported rs = None \<longleftrightarrow> set rs \<subseteq> set supported"
  by (induction rs) auto

lemma ack_loop_set: "set (ack_loop b seen a) = set a \<inter> set b - set seen"
  by (induction a arbitrary: seen) auto

lemma ack_loop_distinct: "distinct (ack_loop b seen a)"
  by (induction a arbitrary: seen) (auto simp: ack_loop_set)

lemma FeatureAck_set [simp]: "set (FeatureAck a b) = set a \<inter> set b" "distinct (FeatureAck a b)"
  by (auto simp: FeatureAck_def ack_loop_set ack_loop_distinct)

section \<open>The handshake\<close>

record HandshakeExpected =
  xName :: string
  xVersion :: string
  xArtifactSHA256 :: string
  xSurfaceSHA256 :: string
  xDesiredGeneration :: nat
  xInstanceID :: string

record Identity =
  iName :: string
  iVersion :: string
  iInstanceID :: string
  iDesiredGeneration :: nat

record HandshakeResult =
  rProto :: ProtoRange
  rIdentity :: Identity
  rSurfaceSHA256 :: string
  rFeatures :: "string list"
  rReady :: bool

record HandshakeConfig =
  Expected :: HandshakeExpected
  HostProto :: ProtoRange
  HostFeatures :: "string list"
  HostCritical :: "string list"

record HandshakeOutcome =
  NegotiatedProto :: int
  oIdentity :: Identity
  oSurfaceSHA256 :: string
  oReady :: bool
  AckedFeatures :: "string list"

definition crossCheck :: "HandshakeExpected \<Rightarrow> HandshakeResult \<Rightarrow> ProtoError option" where
  "crossCheck want got =
     (if xName want \<noteq> iName (rIdentity got) then Some (HandshakeMismatch ''identity.name'')
      else if xVersion want \<noteq> iVersion (rIdentity got) then Some (HandshakeMismatch ''identity.version'')
      else if xInstanceID want \<noteq> iInstanceID (rIdentity got) then Some (HandshakeMismatch ''identity.instance_id'')
      else if xDesiredGeneration want \<noteq> iDesiredGeneration (rIdentity got)
      then Some (HandshakeMismatch ''identity.desired_generation'')
      else if xSurfaceSHA256 want \<noteq> rSurfaceSHA256 got then Some (HandshakeMismatch ''surface_sha256'')
      else None)"

text \<open>\<^verbatim>\<open>Handshake\<close>, from the answer of its \<^verbatim>\<open>module.handshake\<close> call on: \<open>dec\<close> decodes the
  result. A call with no answer is marked as such; an RPC error is an answer.\<close>

definition Handshake ::
  "(string \<Rightarrow> HandshakeResult option) \<Rightarrow> HandshakeConfig \<Rightarrow> ProtoError + string \<Rightarrow> ProtoError list + HandshakeOutcome"
where
  "Handshake dec cfg answer =
     (case answer of
        Inl (Rpc e) \<Rightarrow> Inl [Rpc e]
      | Inl e \<Rightarrow> Inl [ErrHandshakeUnanswered, e]
      | Inr raw \<Rightarrow>
          (case dec raw of
             None \<Rightarrow> Inl [DecodeError]
           | Some result \<Rightarrow>
               (case crossCheck (Expected cfg) result of
                  Some e \<Rightarrow> Inl [e]
                | None \<Rightarrow>
                    (case Negotiate (HostProto cfg) (rProto result) of
                       Inl e \<Rightarrow> Inl [e]
                     | Inr negotiated \<Rightarrow>
                         (case CheckCritical (rFeatures result) (HostCritical cfg) of
                            Some e \<Rightarrow> Inl [e]
                          | None \<Rightarrow>
                              Inr \<lparr>NegotiatedProto = negotiated, oIdentity = rIdentity result,
                                   oSurfaceSHA256 = rSurfaceSHA256 result, oReady = rReady result,
                                   AckedFeatures = FeatureAck (HostFeatures cfg) (rFeatures result)\<rparr>)))))"

text \<open>\<^verbatim>\<open>WaitForReady\<close> on the events its loop sees: the context's end, or a tick and the answer of the
  \<^verbatim>\<open>module.ready\<close> call made there. \<^term>\<open>None\<close> is still waiting.\<close>

datatype poll = PollCtxDone | PollTick "ProtoError + string"

fun ready_loop :: "(string \<Rightarrow> bool option) \<Rightarrow> poll list \<Rightarrow> (ProtoError + unit) option" where
  "ready_loop dec [] = None"
| "ready_loop dec (PollCtxDone # _) = Some (Inl CtxErr)"
| "ready_loop dec (PollTick (Inl e) # _) = Some (Inl e)"
| "ready_loop dec (PollTick (Inr raw) # ps) =
     (case dec raw of
        None \<Rightarrow> Some (Inl DecodeError)
      | Some ready \<Rightarrow> if ready then Some (Inr ()) else ready_loop dec ps)"

definition WaitForReady :: "(string \<Rightarrow> bool option) \<Rightarrow> int \<Rightarrow> poll list \<Rightarrow> (ProtoError + unit) option" where
  "WaitForReady dec pollInterval ps = (if pollInterval < 0 then Some (Inl ConfigError) else ready_loop dec ps)"

text \<open>The host accepts a child exactly when the child echoed the identity, generation and surface digest that were
  expected of it, the two version windows meet, and it has every feature the host requires.\<close>

definition child_matches :: "HandshakeExpected \<Rightarrow> HandshakeResult \<Rightarrow> bool" where
  "child_matches x r \<longleftrightarrow>
     rIdentity r = \<lparr>iName = xName x, iVersion = xVersion x, iInstanceID = xInstanceID x,
                    iDesiredGeneration = xDesiredGeneration x\<rparr> \<and>
     rSurfaceSHA256 r = xSurfaceSHA256 x"

lemma crossCheck_iff: "crossCheck x r = None \<longleftrightarrow> child_matches x r"
  by (cases "rIdentity r") (auto simp: crossCheck_def child_matches_def)

lemma Handshake_Inr:
  "Handshake dec cfg answer = Inr out \<longleftrightarrow>
     (\<exists>raw r v. answer = Inr raw \<and> dec raw = Some r \<and> child_matches (Expected cfg) r \<and>
        Negotiate (HostProto cfg) (rProto r) = Inr v \<and> set (HostCritical cfg) \<subseteq> set (rFeatures r) \<and>
        out = \<lparr>NegotiatedProto = v, oIdentity = rIdentity r, oSurfaceSHA256 = rSurfaceSHA256 r, oReady = rReady r,
               AckedFeatures = FeatureAck (HostFeatures cfg) (rFeatures r)\<rparr>)"
  by (auto simp: Handshake_def crossCheck_iff [symmetric] CheckCritical_iff [symmetric]
      split: sum.splits option.splits ProtoError.splits)

text \<open>A handshake succeeds with version \<open>v\<close> exactly when the child answered with a decodable
  result that carries the expected name, version, instance, generation and surface digest, both version windows are
  well formed, \<open>v\<close> is the highest version in both, and every feature the host requires is among
  the child's; the agreed features are those on both lists, each once.\<close>

lemma Handshake_accepts:
  "(\<exists>out. Handshake dec cfg answer = Inr out \<and> NegotiatedProto out = v \<and>
        distinct (AckedFeatures out) \<and> set (AckedFeatures out) = acked) \<longleftrightarrow>
     (\<exists>raw r. answer = Inr raw \<and> dec raw = Some r \<and> child_matches (Expected cfg) r \<and>
        ProtoRange_Validate (HostProto cfg) = None \<and> ProtoRange_Validate (rProto r) = None \<and>
        highest_common (HostProto cfg) (rProto r) v \<and>
        set (HostCritical cfg) \<subseteq> set (rFeatures r) \<and> acked = set (HostFeatures cfg) \<inter> set (rFeatures r))"
  unfolding Handshake_Inr Negotiate_iff by (rule iffI; elim exE conjE; intro exI conjI; (rule refl | assumption)?) auto

section \<open>The ring of error output\<close>

definition DefaultRingSinkBytes :: nat where "DefaultRingSinkBytes = 64 * 1024"

record RingSink =
  rbuf :: string
  rcap :: nat

definition NewRingSink :: "int \<Rightarrow> RingSink" where
  "NewRingSink capBytes = \<lparr>rbuf = [], rcap = (if capBytes \<le> 0 then DefaultRingSinkBytes else nat capBytes)\<rparr>"

definition RingSink_Write :: "string \<Rightarrow> RingSink \<Rightarrow> RingSink \<times> nat" where
  "RingSink_Write p r =
     (if p = [] then (r, 0)
      else
        let b = rbuf r @ p
        in (r\<lparr>rbuf := (if length b > rcap r then drop (length b - rcap r) b else b)\<rparr>, length p))"

definition RingSink_Tail :: "RingSink \<Rightarrow> string" where "RingSink_Tail r = rbuf r"

definition RingSink_Len :: "RingSink \<Rightarrow> nat" where "RingSink_Len r = length (rbuf r)"

definition RingSink_Reset :: "RingSink \<Rightarrow> RingSink" where "RingSink_Reset r = r\<lparr>rbuf := []\<rparr>"

text \<open>\<^verbatim>\<open>Drain\<close> on the answers of the source's reads: the bytes and the error of each.\<close>

fun RingSink_Drain :: "(string \<times> ProtoError option) list \<Rightarrow> RingSink \<Rightarrow> RingSink \<times> ProtoError option option" where
  "RingSink_Drain [] r = (r, None)"
| "RingSink_Drain ((b, e) # reads) r =
     (let r1 = (if b \<noteq> [] then fst (RingSink_Write b r) else r)
      in case e of
           None \<Rightarrow> RingSink_Drain reads r1
         | Some err \<Rightarrow> (r1, Some (if err = EOF then None else Some err)))"

definition last_bytes :: "nat \<Rightarrow> string \<Rightarrow> string" where
  "last_bytes n s = drop (length s - n) s"

lemma last_bytes_append: "last_bytes n (last_bytes n s @ p) = last_bytes n (s @ p)"
  by (cases "n \<le> length s") (simp_all add: last_bytes_def drop_append add.commute)

lemma Write_last: "rbuf (fst (RingSink_Write p r)) = (if p = [] then rbuf r else last_bytes (rcap r) (rbuf r @ p))"
  by (auto simp: RingSink_Write_def Let_def last_bytes_def)

lemma Write_cap [simp]: "rcap (fst (RingSink_Write p r)) = rcap r"
  by (simp add: RingSink_Write_def Let_def)

lemma ring_fold:
  "rcap (foldl (\<lambda>r p. fst (RingSink_Write p r)) r ps) = rcap r \<and>
   (length (rbuf r) \<le> rcap r \<longrightarrow>
     rbuf (foldl (\<lambda>r p. fst (RingSink_Write p r)) r ps) = last_bytes (rcap r) (rbuf r @ concat ps))"
proof (induction ps arbitrary: r)
  case (Cons p ps)
  have "length (rbuf (fst (RingSink_Write p r))) \<le> rcap r" if "length (rbuf r) \<le> rcap r"
    using that by (auto simp: Write_last last_bytes_def)
  then show ?case
    using Cons.IH [of "fst (RingSink_Write p r)"] last_bytes_append [of "rcap r" "rbuf r @ p" "concat ps"]
    by (auto simp: Write_last)
qed (simp add: last_bytes_def)

text \<open>Whatever is written to a ring, in whatever pieces, it holds exactly the last bytes written, as many as its
  capacity, in write order.\<close>

lemma RingSink_keeps_tail:
  "RingSink_Tail (foldl (\<lambda>r p. fst (RingSink_Write p r)) (NewRingSink c) ps) =
     last_bytes (if c \<le> 0 then DefaultRingSinkBytes else nat c) (concat ps)"
  using ring_fold [of "NewRingSink c" ps] by (simp add: NewRingSink_def RingSink_Tail_def)

lemma Drain_writes:
  assumes "\<And>b e. (b, e) \<in> set (butlast reads) \<Longrightarrow> e = None" and "reads \<noteq> []" "snd (last reads) = Some err"
  shows "RingSink_Drain reads r =
     (foldl (\<lambda>r p. fst (RingSink_Write p r)) r (map fst reads), Some (if err = EOF then None else Some err))"
  using assms
proof (induction reads arbitrary: r)
  case (Cons x reads)
  have w: "(if b \<noteq> [] then fst (RingSink_Write b r) else r) = fst (RingSink_Write b r)" for b
    by (simp add: RingSink_Write_def)
  obtain b e where x: "x = (b, e)" by force
  show ?case
  proof (cases "reads = []")
    case False
    then have e: "e = None" using Cons.prems(1) [of b e] by (simp add: x)
    have "RingSink_Drain reads (fst (RingSink_Write b r)) =
      (foldl (\<lambda>r p. fst (RingSink_Write p r)) (fst (RingSink_Write b r)) (map fst reads),
       Some (if err = EOF then None else Some err))"
      using Cons.prems False by (intro Cons.IH) auto
    then show ?thesis by (simp only: x e RingSink_Drain.simps w Let_def option.case list.map fst_conv foldl_Cons)
  qed (use Cons.prems in \<open>simp add: x w Let_def\<close>)
qed simp

section \<open>The codec\<close>

text \<open>The codec's write side is its cap, the error a cut frame leaves behind, and the bytes the transport took. The
  transport answers each write with the number of bytes it took and whether it failed. The read side is the rest
  of the scanner's lines, with the mark of a line too long for the scanner's buffer.\<close>

definition DefaultMaxFrameBytes :: nat where "DefaultMaxFrameBytes = 2 ^ 20"
definition scannerMaxCap :: nat where "scannerMaxCap = 4 * 1024 * 1024"
definition DefaultMaxInflight :: nat where "DefaultMaxInflight = 32"

record Codec =
  cmax :: nat
  werr :: "ProtoError option"
  sent :: string

definition NewCodec :: "int \<Rightarrow> ProtoError + Codec" where
  "NewCodec maxFrameBytes =
     (let m = (if maxFrameBytes \<le> 0 then DefaultMaxFrameBytes else nat maxFrameBytes)
      in if m > scannerMaxCap then Inl ConfigError else Inr \<lparr>cmax = m, werr = None, sent = []\<rparr>)"

definition codec_write :: "(Frame \<Rightarrow> string option) \<Rightarrow> Frame \<Rightarrow> nat \<times> bool \<Rightarrow> Codec \<Rightarrow> (ProtoError + unit) \<times> Codec" where
  "codec_write enc f answer c =
     (case enc f of
        None \<Rightarrow> (Inl MarshalError, c)
      | Some body \<Rightarrow>
          if length body > cmax c then (Inl (OvercapError (Some (length body)) (cmax c)), c)
          else
            (case werr c of
               Some e \<Rightarrow> (Inl e, c)
             | None \<Rightarrow>
                 (case answer of (n, failed) \<Rightarrow>
                    let c1 = c\<lparr>sent := sent c @ take n (body @ [NL])\<rparr>
                    in if failed \<or> n \<noteq> length body + 1
                       then (Inl IOError, if n > 0 then c1\<lparr>werr := Some IOError\<rparr> else c1)
                       else (Inr (), c1))))"

record json_lib =
  json_dec :: "string \<Rightarrow> Frame option"
  json_rawID :: "string \<Rightarrow> string option"
  json_tokens :: "string \<Rightarrow> JTok list"
  json_fold :: "string \<Rightarrow> string"

definition decode_line :: "json_lib \<Rightarrow> nat \<Rightarrow> string \<Rightarrow> ProtoError + Frame" where
  "decode_line J m text =
     (if length text > m then Inl (OvercapError (Some (length text)) m)
      else if CheckObjectKeys (json_fold J) (json_tokens J text) \<noteq> None then Inl (ErrInvalidFrame ''keys'')
      else Frame_UnmarshalJSON (json_dec J) (json_rawID J) text)"

definition ReadFrame :: "json_lib \<Rightarrow> nat \<Rightarrow> string list \<times> bool \<Rightarrow> (ProtoError + Frame) \<times> (string list \<times> bool)" where
  "ReadFrame J m sc =
     (case sc of (ls, long) \<Rightarrow>
        (case ls of
           [] \<Rightarrow> (Inl (if long then OvercapError None m else EOF), sc)
         | text # r \<Rightarrow> (decode_line J m text, (r, long))))"

text \<open>A stream of writes, and the read loop's view of a whole stream: frames up to the first error.\<close>

fun write_all ::
  "(Frame \<Rightarrow> string option) \<Rightarrow> (Frame \<times> nat \<times> bool) list \<Rightarrow> Codec \<Rightarrow> (ProtoError + unit) list \<times> Codec"
where
  "write_all enc [] c = ([], c)"
| "write_all enc ((f, a) # ws) c =
     (case codec_write enc f a c of (r, c1) \<Rightarrow> case write_all enc ws c1 of (rs, c2) \<Rightarrow> (r # rs, c2))"

fun read_all :: "json_lib \<Rightarrow> nat \<Rightarrow> string list \<Rightarrow> bool \<Rightarrow> (ProtoError + Frame) list" where
  "read_all J m [] long = [fst (ReadFrame J m ([], long))]"
| "read_all J m (l # ls) long =
     (case fst (ReadFrame J m (l # ls, long)) of Inl e \<Rightarrow> [Inl e] | Inr f \<Rightarrow> Inr f # read_all J m ls long)"

definition read_stream :: "json_lib \<Rightarrow> nat \<Rightarrow> string \<Rightarrow> (ProtoError + Frame) list" where
  "read_stream J m text = (case lines_upto (scannerMaxCap + 2) text of (ls, long) \<Rightarrow> read_all J m ls long)"

definition written :: "(Frame \<times> nat \<times> bool) list \<Rightarrow> (ProtoError + unit) list \<Rightarrow> Frame list" where
  "written ws rs = map (fst \<circ> fst) (filter (\<lambda>(w, r). r = Inr ()) (zip ws rs))"

text \<open>What is relied on of the JSON package for one frame: its encoding is one line that does not end in a carriage
  return, decodes to the same frame with an \<^verbatim>\<open>id\<close> that is not null, and repeats no key.\<close>

definition json_carries :: "(Frame \<Rightarrow> string option) \<Rightarrow> json_lib \<Rightarrow> Frame \<Rightarrow> bool" where
  "json_carries enc J f \<longleftrightarrow>
     (case enc f of
        None \<Rightarrow> False
      | Some body \<Rightarrow>
          body \<noteq> [] \<and> NL \<notin> set body \<and> last body \<noteq> CHR 0x0D \<and> json_dec J body = Some f \<and>
          (case json_rawID J body of None \<Rightarrow> False | Some rid \<Rightarrow> trim_space rid \<noteq> ''null'') \<and>
          CheckObjectKeys (json_fold J) (json_tokens J body) = None)"

definition line_of :: "(Frame \<Rightarrow> string option) \<Rightarrow> Frame \<Rightarrow> string" where
  "line_of enc f = (case enc f of None \<Rightarrow> [] | Some body \<Rightarrow> body)"

lemma write_all_stuck:
  "werr c \<noteq> None \<Longrightarrow> write_all enc ws c = (rs, c') \<Longrightarrow> c' = c \<and> written ws rs = []"
proof (induction ws arbitrary: rs)
  case (Cons w ws)
  obtain f a where w: "w = (f, a)" by (cases w)
  obtain r c1 where cw: "codec_write enc f a c = (r, c1)" by force
  obtain rs1 where rs: "write_all enc ws c1 = (rs1, c')" "rs = r # rs1"
    using Cons.prems(2) by (auto simp: w cw split: prod.splits)
  have "c1 = c \<and> r \<noteq> Inr ()"
    using cw Cons.prems(1) by (auto simp: codec_write_def split: option.splits if_splits)
  with Cons.IH [OF Cons.prems(1), of rs1] rs show ?case by (simp add: written_def)
qed (simp add: written_def)

lemma codec_write_cases:
  assumes "codec_write enc f (n, failed) c = (r, c1)" "werr c = None"
  obtains (kept) "c1 = c" "r \<noteq> Inr ()"
  | (cut_short) "r \<noteq> Inr ()" "enc f \<noteq> None" "length (line_of enc f) \<le> cmax c" "0 < n"
      "c1 = c\<lparr>sent := sent c @ take n (line_of enc f @ [NL]), werr := Some IOError\<rparr>"
  | (whole) "r = Inr ()" "enc f \<noteq> None" "length (line_of enc f) \<le> cmax c"
      "c1 = c\<lparr>sent := sent c @ line_of enc f @ [NL]\<rparr>"
  using assms by (auto simp: codec_write_def line_of_def Let_def split: option.splits if_splits)

lemma write_all_sent:
  assumes "werr c = None" "write_all enc ws c = (rs, c')"
  shows "\<exists>f n. sent c' = sent c @ concat (map (\<lambda>f. line_of enc f @ [NL]) (written ws rs)) @ take n (line_of enc f @ [NL]) \<and>
      cmax c' = cmax c \<and> (werr c' = None \<longrightarrow> n = 0) \<and>
      (\<forall>g \<in> set (written ws rs). g \<in> fst ` set ws \<and> length (line_of enc g) \<le> cmax c) \<and>
      (0 < n \<longrightarrow> f \<in> fst ` set ws \<and> length (line_of enc f) \<le> cmax c)"
  using assms
proof (induction ws arbitrary: rs c)
  case Nil
  then show ?case by (intro exI [of _ "undefined"] exI [of _ 0]) (simp add: written_def)
next
  case (Cons w ws)
  obtain f n failed where w: "w = (f, n, failed)" by (cases w) auto
  obtain r c1 where cw: "codec_write enc f (n, failed) c = (r, c1)" by force
  obtain rs1 where rs: "write_all enc ws c1 = (rs1, c')" "rs = r # rs1"
    using Cons.prems(2) by (auto simp: w cw split: prod.splits)
  show ?case
    using cw Cons.prems(1)
  proof (cases rule: codec_write_cases)
    case kept
    then have "written (w # ws) rs = written ws rs1" by (simp add: written_def rs(2))
    then show ?thesis using Cons.IH [of c rs1] Cons.prems(1) rs(1) kept(1) by (auto 0 3)
  next
    case cut_short
    then have c': "c' = c1" "written ws rs1 = []" using write_all_stuck [OF _ rs(1)] by auto
    then have "written (w # ws) rs = []" using cut_short(1) by (simp add: written_def rs(2))
    then show ?thesis
      using cut_short c'(1) by (intro exI [of _ f] exI [of _ n]) (simp add: w)
  next
    case whole
    then have wr: "written (w # ws) rs = f # written ws rs1" by (simp add: written_def rs(2) w)
    have "werr c1 = None" using whole(4) Cons.prems(1) by simp
    from Cons.IH [OF this rs(1)] obtain g k where "sent c' = sent c1 @ concat (map (\<lambda>f. line_of enc f @ [NL]) (written ws rs1)) @ take k (line_of enc g @ [NL]) \<and>
        cmax c' = cmax c1 \<and> (werr c' = None \<longrightarrow> k = 0) \<and>
        (\<forall>g \<in> set (written ws rs1). g \<in> fst ` set ws \<and> length (line_of enc g) \<le> cmax c1) \<and>
        (0 < k \<longrightarrow> g \<in> fst ` set ws \<and> length (line_of enc g) \<le> cmax c1)"
      by (elim exE)
    then show ?thesis
      unfolding wr using whole(3,4) by (intro exI [of _ g] exI [of _ k]) (auto simp: w)
  qed
qed

lemma raw_lines_stream:
  assumes "\<forall>l \<in> set ls. NL \<notin> set l" "NL \<notin> set b"
  shows "raw_lines (concat (map (\<lambda>l. l @ [NL]) ls) @ take n (b @ [NL])) = ls @ (if n = 0 then [] else [take n b])"
proof -
  have tail: "split_on NL (take n (b @ [NL])) = (if n = 0 then [[]] else if n \<le> length b then [take n b] else [b, []])"
  proof -
    have "NL \<notin> set (take n b)" using assms(2) by (auto dest: in_set_takeD)
    then show ?thesis using assms(2) by (simp add: split_on_no_sep split_on_append_sep)
  qed
  have "split_on NL (concat (map (\<lambda>l. l @ [NL]) ls) @ take n (b @ [NL])) = ls @ split_on NL (take n (b @ [NL]))"
    using assms(1) by (induction ls) (simp_all add: split_on_append_sep)
  moreover have "take n b \<noteq> []" if "n \<noteq> 0" "n \<le> length b" using that by (cases b) auto
  ultimately show ?thesis by (simp add: raw_lines_def tail butlast_append Let_def del: take_append)
qed

lemma read_all_map:
  "\<forall>l \<in> set ls. decode_line J m l = Inr (g l) \<Longrightarrow> read_all J m (ls @ ks) long = map (Inr \<circ> g) ls @ read_all J m ks long"
  by (induction ls) (simp_all add: ReadFrame_def)

lemma json_carries_decode:
  assumes "json_carries enc J f" "frame_ok f" "length (line_of enc f) \<le> m"
  shows "decode_line J m (line_of enc f) = Inr f" "NL \<notin> set (line_of enc f)" "drop_cr (line_of enc f) = line_of enc f"
  using assms by (auto simp: json_carries_def line_of_def decode_line_def UnmarshalJSON_iff drop_cr_def split: option.splits)


definition ping :: Frame where "ping = NewNotification ''p'' []"

definition ping_lib :: json_lib where
  "ping_lib = \<lparr>json_dec = (\<lambda>s. if s = ''{p}'' then Some ping else None), json_rawID = (\<lambda>_. Some []),
     json_tokens = (\<lambda>_. tokens_of (JObj [(''method'', JStr ''p'')])), json_fold = id\<rparr>"


end
