(* ===== verification/ModulePeer.thy ===== *)
theory ModulePeer
  imports ModuleProto
begin

text \<open>
  One endpoint of a module connection (\<^verbatim>\<open>core/moduleproto/peer.go\<close>): a peer originates requests, serves the
  other side's and reads the transport, each in its own goroutines. A goroutine is an entry of a table with the place
  it has reached; an event is one stretch of a goroutine between two places where others may run, in the order of
  the code: a critical section of \<^verbatim>\<open>p.mu\<close>, an atomic operation, a frame written or read, a case of a
  \<^verbatim>\<open>select\<close>. \<open>peer_step\<close> runs one event and gives the frames it put on the transport, or
  \<^term>\<open>None\<close> when the event is not possible in that state.

  The handlers and the serve gate are arguments: which results a handler may return for a method and its parameters,
  which answers the gate may give for a method (an error of the code's own when it panics). So are the encoding of frames, as the error of a frame that cannot be encoded or is over the cap, and the decoding of the
  parameters of \<^verbatim>\<open>module.cancel\<close>.
\<close>

section \<open>State\<close>

datatype hout = HErr RpcError | HPlain | HPanic | HOk "string option"

record peer_env =
  fits :: "Frame \<Rightarrow> ProtoError option"
  cancelID :: "string \<Rightarrow> string option"
  gates :: "string \<Rightarrow> RpcError option \<Rightarrow> bool"
  handles :: "string \<Rightarrow> string \<Rightarrow> hout \<Rightarrow> bool"

datatype callpc = PcAlloc | PcRegister | PcPrepare | PcSelect | PcReturned

text \<open>The request's write: not started, pending in its goroutine, reported on its channel, received.\<close>

datatype wstate = WNone | WParked | WDone "ProtoError option" | WTaken

record CallG =
  gMethod :: string
  gParams :: "string option"
  gID :: "nat option"
  gPc :: callpc
  gChan :: "Frame option"
  gWrite :: wstate
  gAnswer :: "Frame option"
  gRet :: "(ProtoError + string) option"

text \<open>A notification: its frame, the result of its write (\<^term>\<open>None\<close> while pending) and of the call.\<close>

record NotifyG =
  nFrame :: Frame
  nDone :: "ProtoError option option"
  nRet :: "ProtoError option option"

text \<open>A serving goroutine: started, running its handler (with its context cancelled or not), holding a response it
  has not yet counted, waiting for the codec, holding the codec; or running a notification's handler.\<close>

datatype srv = SNew Frame | SRun Frame bool | SResp Frame | SWrite Frame | SHold Frame | SNote Frame

record Peer =
  maxInflight :: nat
  maxServeInflight :: nat
  nextID :: nat
  ppending :: "nat \<rightharpoonup> nat"
  abandoned :: "nat set"
  abandonedFIFO :: "nat list"
  pinflight :: nat
  serveInflight :: nat
  respPending :: nat
  notifyPending :: nat
  phandlers :: "string set"
  cancels :: "nat \<Rightarrow> nat list"
  pclosed :: bool
  closeCh :: bool
  readDone :: bool
  stopped :: bool
  fatal :: "ProtoError option"
  pwerr :: "ProtoError option"
  calls :: "nat \<rightharpoonup> CallG"
  notifies :: "nat \<rightharpoonup> NotifyG"
  serving :: "nat \<rightharpoonup> srv"
  codecHolder :: "nat option"

definition MethodCancel :: string where "MethodCancel = ''module.cancel''"

definition maxAbandonedIDs :: nat where "maxAbandonedIDs = 1024"

text \<open>\<^verbatim>\<open>NewPeer\<close> with its options: a cap that is not positive keeps the default; the built-in handler is added
  last.\<close>

definition NewPeer :: "int \<Rightarrow> int \<Rightarrow> string set \<Rightarrow> Peer" where
  "NewPeer n sn hs =
     \<lparr>maxInflight = (if n > 0 then nat n else DefaultMaxInflight),
      maxServeInflight = (if sn > 0 then nat sn else DefaultMaxInflight),
      nextID = 0, ppending = (\<lambda>_. None), abandoned = {}, abandonedFIFO = [], pinflight = 0, serveInflight = 0,
      respPending = 0, notifyPending = 0, phandlers = insert MethodCancel hs, cancels = (\<lambda>_. []),
      pclosed = False, closeCh = False, readDone = False, stopped = False, fatal = None, pwerr = None,
      calls = (\<lambda>_. None), notifies = (\<lambda>_. None), serving = (\<lambda>_. None), codecHolder = None\<rparr>"

definition Peer_Handle :: "string \<Rightarrow> Peer \<Rightarrow> ProtoError option \<times> Peer" where
  "Peer_Handle m p =
     (if m = MethodCancel then (Some ConfigError, p)
      else if m = [] then (Some EmptyMethod, p)
      else (None, p\<lparr>phandlers := insert m (phandlers p)\<rparr>))"

definition setFatal :: "ProtoError \<Rightarrow> Peer \<Rightarrow> Peer" where
  "setFatal err p =
     (case fatal p of
        None \<Rightarrow> p\<lparr>fatal := Some err, pclosed := True, stopped := True\<rparr>
      | Some _ \<Rightarrow> p)"

definition Peer_Close :: "Peer \<Rightarrow> Peer" where
  "Peer_Close p = p\<lparr>pclosed := True, stopped := True, closeCh := True\<rparr>"

section \<open>Writing frames\<close>

text \<open>What the transport does with a frame the codec hands it: takes it whole, takes nothing, or takes part of it (all
  of it with an error reported, for \<open>WCut True\<close>). The result is the error, whether the write got as
  far as holding the codec, and the frames put on the transport.\<close>

datatype wout = WWhole | WNothing | WCut bool

definition peer_write :: "peer_env \<Rightarrow> wout \<Rightarrow> Frame \<Rightarrow> Peer \<Rightarrow> ProtoError option \<times> bool \<times> Peer \<times> Frame list" where
  "peer_write env out f p =
     (case fits env f of
        Some e \<Rightarrow> (Some e, False, p, [])
      | None \<Rightarrow>
          (case pwerr p of
             Some e \<Rightarrow> (Some e, True, p, [])
           | None \<Rightarrow>
               (case out of
                  WWhole \<Rightarrow> (None, True, p, [f])
                | WNothing \<Rightarrow> (Some IOError, True, p, [])
                | WCut whole \<Rightarrow> (Some IOError, True, p\<lparr>pwerr := Some IOError\<rparr>, if whole then [f] else []))))"

section \<open>Calls\<close>

definition call_frame :: "CallG \<Rightarrow> Frame" where
  "call_frame g =
     NewRequest (case gID g of None \<Rightarrow> 0 | Some i \<Rightarrow> i) (gMethod g) (case gParams g of None \<Rightarrow> [] | Some ps \<Rightarrow> ps)"

definition answerResult :: "Frame \<Rightarrow> ProtoError + string" where
  "answerResult f = (case Error f of Some e \<Rightarrow> Inl (Rpc e) | None \<Rightarrow> Inr (Result f))"

text \<open>The eviction loop of \<^verbatim>\<open>noteAbandonedLocked\<close>: from the front of the queue while the window is over full.\<close>

fun evict :: "nat list \<Rightarrow> nat set \<Rightarrow> nat list \<times> nat set" where
  "evict [] ab = ([], ab)"
| "evict (oldest # fifo) ab =
     (if card ab > maxAbandonedIDs then evict fifo (ab - {oldest}) else (oldest # fifo, ab))"

definition noteAbandonedLocked :: "nat \<Rightarrow> Peer \<Rightarrow> Peer" where
  "noteAbandonedLocked i p =
     (case evict (abandonedFIFO p @ [i]) (insert i (abandoned p)) of (fifo, ab) \<Rightarrow>
        p\<lparr>abandoned := ab,
          abandonedFIFO := (if length fifo > 2 * maxAbandonedIDs then filter (\<lambda>a. a \<in> ab) fifo else fifo)\<rparr>)"

definition call_entry :: "nat \<Rightarrow> string \<Rightarrow> string option \<Rightarrow> bool \<Rightarrow> Peer \<Rightarrow> Peer" where
  "call_entry k m ps ctxDone p =
     (let g = \<lparr>gMethod = m, gParams = ps, gID = None, gPc = PcAlloc, gChan = None, gWrite = WNone,
               gAnswer = None, gRet = None\<rparr>;
          refuse = (\<lambda>e. p\<lparr>calls := (calls p)(k \<mapsto> g\<lparr>gPc := PcReturned, gRet := Some (Inl e)\<rparr>)\<rparr>)
      in if pclosed p then refuse ErrClosed
         else if m = [] then refuse EmptyMethod
         else if ctxDone then refuse CtxErr
         else if pinflight p \<ge> maxInflight p then refuse ErrInflightCap
         else p\<lparr>pinflight := pinflight p + 1, calls := (calls p)(k \<mapsto> g)\<rparr>)"

definition call_alloc :: "nat \<Rightarrow> CallG \<Rightarrow> Peer \<Rightarrow> Peer" where
  "call_alloc k g p =
     (let i = (nextID p + 1) mod 2 ^ 64
      in p\<lparr>nextID := i, calls := (calls p)(k \<mapsto> g\<lparr>gID := Some i, gPc := PcRegister\<rparr>)\<rparr>)"

definition call_register :: "nat \<Rightarrow> nat \<Rightarrow> CallG \<Rightarrow> Peer \<Rightarrow> Peer" where
  "call_register k i g p =
     p\<lparr>ppending := (ppending p)(i \<mapsto> k), calls := (calls p)(k \<mapsto> g\<lparr>gPc := PcPrepare\<rparr>)\<rparr>"

definition is_writing :: "CallG \<Rightarrow> bool" where
  "is_writing g \<longleftrightarrow> (case gWrite g of WParked \<Rightarrow> True | WDone _ \<Rightarrow> True | _ \<Rightarrow> False)"

text \<open>The deferred cleanup, and the value the call returns.\<close>

definition call_return :: "nat \<Rightarrow> nat \<Rightarrow> CallG \<Rightarrow> ProtoError + string \<Rightarrow> Peer \<Rightarrow> Peer" where
  "call_return k i g ret p =
     (let p1 = (if ppending p i \<noteq> None then noteAbandonedLocked i (p\<lparr>ppending := (ppending p)(i := None)\<rparr>) else p);
          p2 = (if is_writing g then p1 else p1\<lparr>pinflight := pinflight p1 - 1\<rparr>)
      in p2\<lparr>calls := (calls p2)(k \<mapsto> g\<lparr>gPc := PcReturned, gRet := Some ret\<rparr>)\<rparr>)"

definition call_prepare :: "nat \<Rightarrow> nat \<Rightarrow> CallG \<Rightarrow> bool \<Rightarrow> Peer \<Rightarrow> Peer" where
  "call_prepare k i g ctxDone p =
     (if gParams g = None then call_return k i g (Inl MarshalError) p
      else if ctxDone then call_return k i g (Inl CtxErr) p
      else p\<lparr>calls := (calls p)(k \<mapsto> g\<lparr>gPc := PcSelect, gWrite := WParked\<rparr>)\<rparr>)"

text \<open>The cases of the call's \<^verbatim>\<open>select\<close>.\<close>

datatype stop_cause = StopCtx | StopClosed | StopFatal | StopDone

definition stop_error :: "stop_cause \<Rightarrow> Peer \<Rightarrow> ProtoError option" where
  "stop_error c p =
     (case c of
        StopCtx \<Rightarrow> Some CtxErr
      | StopClosed \<Rightarrow> if closeCh p then Some ErrClosed else None
      | StopFatal \<Rightarrow> fatal p
      | StopDone \<Rightarrow> if readDone p then Some (case fatal p of None \<Rightarrow> ErrClosed | Some e \<Rightarrow> e) else None)"

definition call_wrote :: "nat \<Rightarrow> nat \<Rightarrow> CallG \<Rightarrow> ProtoError option \<Rightarrow> Peer \<Rightarrow> Peer" where
  "call_wrote k i g err p =
     (let g1 = g\<lparr>gWrite := WTaken\<rparr>
      in case gAnswer g of
           Some f \<Rightarrow> call_return k i g1 (answerResult f) p
         | None \<Rightarrow>
             (case err of
                Some e \<Rightarrow> call_return k i g1 (Inl e) p
              | None \<Rightarrow> p\<lparr>calls := (calls p)(k \<mapsto> g1)\<rparr>))"

definition call_answer :: "nat \<Rightarrow> nat \<Rightarrow> CallG \<Rightarrow> Frame \<Rightarrow> Peer \<Rightarrow> Peer" where
  "call_answer k i g f p =
     (let g1 = g\<lparr>gChan := None\<rparr>
      in if is_writing g then p\<lparr>calls := (calls p)(k \<mapsto> g1\<lparr>gAnswer := Some f\<rparr>)\<rparr>
         else call_return k i g1 (answerResult f) p)"

section \<open>Notifications\<close>

definition notify_entry :: "nat \<Rightarrow> string \<Rightarrow> string option \<Rightarrow> bool \<Rightarrow> Peer \<Rightarrow> Peer" where
  "notify_entry k m ps ctxDone p =
     (let refuse = (\<lambda>e. p\<lparr>notifies := (notifies p)(k \<mapsto>
              \<lparr>nFrame = NewNotification m [], nDone = Some (Some e), nRet = Some (Some e)\<rparr>)\<rparr>)
      in if pclosed p then refuse ErrClosed
         else if m = [] then refuse EmptyMethod
         else if ctxDone then refuse CtxErr
         else
           (case ps of
              None \<Rightarrow> refuse MarshalError
            | Some raw \<Rightarrow>
                if notifyPending p \<ge> maxInflight p then refuse ErrInflightCap
                else p\<lparr>notifyPending := notifyPending p + 1,
                       notifies := (notifies p)(k \<mapsto>
                         \<lparr>nFrame = NewNotification m raw, nDone = None, nRet = None\<rparr>)\<rparr>))"

definition notify_wrote :: "nat \<Rightarrow> NotifyG \<Rightarrow> ProtoError option \<Rightarrow> Peer \<Rightarrow> Peer" where
  "notify_wrote k g err p =
     p\<lparr>notifyPending := notifyPending p - 1, notifies := (notifies p)(k \<mapsto> g\<lparr>nDone := Some err\<rparr>)\<rparr>"

text \<open>The cases of the \<^verbatim>\<open>select\<close>: the write's report (\<^term>\<open>None\<close>), or a reason to stop.\<close>

definition notify_result :: "stop_cause option \<Rightarrow> NotifyG \<Rightarrow> Peer \<Rightarrow> ProtoError option option" where
  "notify_result c g p =
     (case c of
        None \<Rightarrow> nDone g
      | Some StopDone \<Rightarrow> if readDone p then Some (Some ErrClosed) else None
      | Some c' \<Rightarrow> map_option Some (stop_error c' p))"

section \<open>Serving\<close>

definition retireCancel :: "nat \<Rightarrow> nat \<Rightarrow> Peer \<Rightarrow> Peer" where
  "retireCancel i slot p = p\<lparr>cancels := (cancels p)(i := remove1 slot (cancels p i))\<rparr>"

text \<open>\<^verbatim>\<open>builtinCancelHandler\<close>: the id must be spelled canonically; every handler serving it is cancelled.\<close>

definition cancel_target :: "peer_env \<Rightarrow> string \<Rightarrow> nat option" where
  "cancel_target env ps =
     (case (if ps = [] then Some [] else cancelID env ps) of
        None \<Rightarrow> None
      | Some rid \<Rightarrow>
          (case ParseUint rid of
             None \<Rightarrow> None
           | Some i \<Rightarrow> if i = 0 \<or> rid \<noteq> show_nat i then None else Some i))"

definition cancel_slot :: "srv \<Rightarrow> srv" where
  "cancel_slot s = (case s of SRun f _ \<Rightarrow> SRun f True | _ \<Rightarrow> s)"

definition builtinCancelHandler :: "peer_env \<Rightarrow> string \<Rightarrow> Peer \<Rightarrow> Peer" where
  "builtinCancelHandler env ps p =
     (case cancel_target env ps of
        None \<Rightarrow> p
      | Some i \<Rightarrow>
          p\<lparr>serving := (\<lambda>j. if j \<in> set (cancels p i) then map_option cancel_slot (serving p j) else serving p j)\<rparr>)"

text \<open>\<^verbatim>\<open>buildResponse\<close> up to the handler: a refusal of the gate (never of \<^verbatim>\<open>module.cancel\<close>), an unknown
  method, or the handler started with its cancel slot registered.\<close>

definition serve_start :: "nat \<Rightarrow> Frame \<Rightarrow> RpcError option \<Rightarrow> Peer \<Rightarrow> Peer" where
  "serve_start j f gate p =
     (let i = IDValue f; refused = (if fmethod f = MethodCancel then None else gate) in
      case refused of
        Some e \<Rightarrow> p\<lparr>serving := (serving p)(j \<mapsto> SResp (NewErrorResponse i (ecode e) (emessage e) (edata e)))\<rparr>
      | None \<Rightarrow>
          if fmethod f \<notin> phandlers p
          then p\<lparr>serving := (serving p)(j \<mapsto>
                 SResp (NewErrorResponse i CodeMethodNotFound (''method not found: '' @ fmethod f) []))\<rparr>
          else p\<lparr>cancels := (cancels p)(i := cancels p i @ [j]), serving := (serving p)(j \<mapsto> SRun f False)\<rparr>)"

definition handler_response :: "nat \<Rightarrow> hout \<Rightarrow> Frame" where
  "handler_response i out =
     (case out of
        HErr e \<Rightarrow> NewErrorResponse i (ecode e) (emessage e) (edata e)
      | HPlain \<Rightarrow> NewErrorResponse i CodeInternalError ''internal handler error'' []
      | HPanic \<Rightarrow> NewErrorResponse i CodeInternalError ''internal handler error'' []
      | HOk None \<Rightarrow> NewErrorResponse i CodeInternalError ''internal error marshaling result'' []
      | HOk (Some res) \<Rightarrow> NewSuccessResponse i res)"

definition serve_handled :: "peer_env \<Rightarrow> nat \<Rightarrow> Frame \<Rightarrow> hout \<Rightarrow> Peer \<Rightarrow> Peer" where
  "serve_handled env j f out p =
     (let i = IDValue f;
          p1 = (if fmethod f = MethodCancel then builtinCancelHandler env (Params f) p else p);
          p2 = retireCancel i j p1
      in p2\<lparr>serving := (serving p2)(j \<mapsto>
              SResp (handler_response i (if fmethod f = MethodCancel then HOk (Some []) else out)))\<rparr>)"

text \<open>After the handler: the serve slot is freed and the response counted as unwritten, or the peer has stalled.\<close>

definition serve_finish :: "nat \<Rightarrow> Frame \<Rightarrow> Peer \<Rightarrow> Peer" where
  "serve_finish j resp p =
     (let p1 = p\<lparr>serveInflight := serveInflight p - 1\<rparr>
      in if respPending p \<ge> maxServeInflight p
         then setFatal ErrStalled (p1\<lparr>serving := (serving p)(j := None)\<rparr>)
         else p1\<lparr>respPending := respPending p + 1, serving := (serving p)(j \<mapsto> SWrite resp)\<rparr>)"

text \<open>\<^verbatim>\<open>writeServed\<close>: a frame that never reaches the codec faults the peer with its response still counted;
  otherwise it leaves the count when the write holds the codec, before any byte is sent.\<close>

definition resp_lock :: "peer_env \<Rightarrow> nat \<Rightarrow> Frame \<Rightarrow> Peer \<Rightarrow> Peer" where
  "resp_lock env j resp p =
     (case fits env resp of
        Some e \<Rightarrow> setFatal e (p\<lparr>serving := (serving p)(j := None)\<rparr>)
      | None \<Rightarrow> p\<lparr>respPending := respPending p - 1, serving := (serving p)(j \<mapsto> SHold resp), codecHolder := Some j\<rparr>)"

definition resp_write :: "peer_env \<Rightarrow> wout \<Rightarrow> nat \<Rightarrow> Frame \<Rightarrow> Peer \<Rightarrow> Peer \<times> Frame list" where
  "resp_write env out j resp p =
     (case peer_write env out resp (p\<lparr>serving := (serving p)(j := None), codecHolder := None\<rparr>) of (err, _, p1, fs) \<Rightarrow>
        (case err of None \<Rightarrow> p1 | Some e \<Rightarrow> setFatal e p1, fs))"

section \<open>The read loop\<close>

definition deliverResponse :: "Frame \<Rightarrow> Peer \<Rightarrow> Peer" where
  "deliverResponse f p =
     (let i = IDValue f in
      case ppending p i of
        Some k \<Rightarrow>
          p\<lparr>ppending := (ppending p)(i := None),
            calls := (calls p)(k := map_option (\<lambda>g. g\<lparr>gChan := Some f\<rparr>) (calls p k))\<rparr>
      | None \<Rightarrow>
          if i \<in> abandoned p then p\<lparr>abandoned := abandoned p - {i}\<rparr>
          else if pclosed p then p
          else setFatal (ErrInvalidFrame ''unsolicited response'') p)"

text \<open>\<^verbatim>\<open>dispatch\<close>; \<open>j\<close> is the goroutine started for the frame, if one is.\<close>

definition dispatch :: "peer_env \<Rightarrow> nat \<Rightarrow> Frame \<Rightarrow> Peer \<Rightarrow> Peer" where
  "dispatch env j f p =
     (if fatal p \<noteq> None then p
      else if IsRequest f then
        (if serveInflight p \<ge> maxServeInflight p
         then (if respPending p \<ge> maxServeInflight p then setFatal ErrStalled p
               else p\<lparr>respPending := respPending p + 1,
                      serving := (serving p)(j \<mapsto>
                        SWrite (NewErrorResponse (IDValue f) CodeInflightCap ''serve inflight cap reached'' []))\<rparr>)
         else p\<lparr>serveInflight := serveInflight p + 1, serving := (serving p)(j \<mapsto> SNew f)\<rparr>)
      else if IsNotification f then
        (if fmethod f = MethodCancel then builtinCancelHandler env (Params f) p
         else if fmethod f \<notin> phandlers p then p
         else if serveInflight p \<ge> maxServeInflight p then p
         else p\<lparr>serveInflight := serveInflight p + 1, serving := (serving p)(j \<mapsto> SNote f)\<rparr>)
      else if IsResponse f then deliverResponse f p
      else setFatal (ErrInvalidFrame ''no method and no id'') p)"

definition read_step :: "peer_env \<Rightarrow> nat \<Rightarrow> ProtoError + Frame \<Rightarrow> Peer \<Rightarrow> Peer" where
  "read_step env j r p =
     (case r of
        Inr f \<Rightarrow> dispatch env j f p
      | Inl e \<Rightarrow>
          (let p1 = (if pclosed p \<or> e = EOF then p else setFatal e p)
           in p1\<lparr>readDone := True, stopped := True\<rparr>))"

section \<open>Steps\<close>

datatype pev =
    EvCall nat string "string option" bool
  | EvAlloc nat
  | EvRegister nat
  | EvPrepare nat bool
  | EvWrite nat wout
  | EvWrote nat
  | EvAnswer nat
  | EvStop nat stop_cause
  | EvRelease nat
  | EvNotify nat string "string option" bool
  | EvNotifyWrite nat wout
  | EvNotifyReturn nat "stop_cause option"
  | EvHandle string
  | EvClose
  | EvRead nat "ProtoError + Frame"
  | EvServe nat "RpcError option"
  | EvHandled nat hout
  | EvFinish nat
  | EvRespLock nat
  | EvRespWrite nat wout
  | EvNoteDone nat

text \<open>A write needs the codec, which a served response in the middle of its own write holds; a frame that cannot be
  sent fails without it.\<close>

definition can_write :: "peer_env \<Rightarrow> Frame \<Rightarrow> Peer \<Rightarrow> bool" where
  "can_write env f p \<longleftrightarrow> fits env f \<noteq> None \<or> codecHolder p = None"

definition call_turn :: "peer_env \<Rightarrow> pev \<Rightarrow> nat \<Rightarrow> Peer \<Rightarrow> (Peer \<times> Frame list) option" where
  "call_turn env ev k p =
     (case calls p k of
        None \<Rightarrow> None
      | Some g \<Rightarrow>
          (case gID g of
             None \<Rightarrow> (case ev of EvAlloc _ \<Rightarrow> if gPc g = PcAlloc then Some (call_alloc k g p, []) else None | _ \<Rightarrow> None)
           | Some i \<Rightarrow>
               (case ev of
                  EvRegister _ \<Rightarrow> if gPc g = PcRegister then Some (call_register k i g p, []) else None
                | EvPrepare _ ctxDone \<Rightarrow> if gPc g = PcPrepare then Some (call_prepare k i g ctxDone p, []) else None
                | EvWrite _ out \<Rightarrow>
                    if gWrite g = WParked \<and> can_write env (call_frame g) p
                    then (case peer_write env out (call_frame g) p of (err, _, p1, fs) \<Rightarrow>
                            Some (p1\<lparr>calls := (calls p1)(k \<mapsto> g\<lparr>gWrite := WDone err\<rparr>)\<rparr>, fs))
                    else None
                | EvWrote _ \<Rightarrow>
                    (case gWrite g of
                       WDone err \<Rightarrow> if gPc g = PcSelect then Some (call_wrote k i g err p, []) else None
                     | _ \<Rightarrow> None)
                | EvAnswer _ \<Rightarrow>
                    (case gChan g of
                       Some f \<Rightarrow> if gPc g = PcSelect then Some (call_answer k i g f p, []) else None
                     | None \<Rightarrow> None)
                | EvStop _ c \<Rightarrow>
                    (case stop_error c p of
                       Some e \<Rightarrow> if gPc g = PcSelect then Some (call_return k i g (Inl e) p, []) else None
                     | None \<Rightarrow> None)
                | EvRelease _ \<Rightarrow>
                    (case gWrite g of
                       WDone err \<Rightarrow>
                         if gPc g = PcReturned
                         then Some (p\<lparr>pinflight := pinflight p - 1, calls := (calls p)(k \<mapsto> g\<lparr>gWrite := WTaken\<rparr>)\<rparr>, [])
                         else None
                     | _ \<Rightarrow> None)
                | _ \<Rightarrow> None)))"

definition notify_step :: "peer_env \<Rightarrow> pev \<Rightarrow> nat \<Rightarrow> Peer \<Rightarrow> (Peer \<times> Frame list) option" where
  "notify_step env ev k p =
     (case notifies p k of
        None \<Rightarrow> None
      | Some g \<Rightarrow>
          (case ev of
             EvNotifyWrite _ out \<Rightarrow>
               if nDone g = None \<and> can_write env (nFrame g) p
               then (case peer_write env out (nFrame g) p of (err, _, p1, fs) \<Rightarrow> Some (notify_wrote k g err p1, fs))
               else None
           | EvNotifyReturn _ c \<Rightarrow>
               if nRet g = None
               then map_option (\<lambda>r. (p\<lparr>notifies := (notifies p)(k \<mapsto> g\<lparr>nRet := Some r\<rparr>)\<rparr>, [])) (notify_result c g p)
               else None
           | _ \<Rightarrow> None))"

definition serve_step :: "peer_env \<Rightarrow> pev \<Rightarrow> nat \<Rightarrow> Peer \<Rightarrow> (Peer \<times> Frame list) option" where
  "serve_step env ev j p =
     (case serving p j of
        None \<Rightarrow> None
      | Some s \<Rightarrow>
          (case (ev, s) of
             (EvServe _ gate, SNew f) \<Rightarrow>
               if fmethod f = MethodCancel \<or> gates env (fmethod f) gate then Some (serve_start j f gate p, []) else None
           | (EvHandled _ out, SRun f _) \<Rightarrow>
               if fmethod f = MethodCancel \<or> handles env (fmethod f) (Params f) out then Some (serve_handled env j f out p, []) else None
           | (EvFinish _, SResp resp) \<Rightarrow> Some (serve_finish j resp p, [])
           | (EvRespLock _, SWrite resp) \<Rightarrow> if can_write env resp p then Some (resp_lock env j resp p, []) else None
           | (EvRespWrite _ out, SHold resp) \<Rightarrow> Some (resp_write env out j resp p)
           | (EvNoteDone _, SNote f) \<Rightarrow>
               Some (p\<lparr>serveInflight := serveInflight p - 1, serving := (serving p)(j := None)\<rparr>, [])
           | _ \<Rightarrow> None))"

definition peer_step :: "peer_env \<Rightarrow> pev \<Rightarrow> Peer \<Rightarrow> (Peer \<times> Frame list) option" where
  "peer_step env ev p =
     (case ev of
        EvCall k m ps ctxDone \<Rightarrow> if calls p k = None then Some (call_entry k m ps ctxDone p, []) else None
      | EvNotify k m ps ctxDone \<Rightarrow> if notifies p k = None then Some (notify_entry k m ps ctxDone p, []) else None
      | EvHandle m \<Rightarrow> Some (snd (Peer_Handle m p), [])
      | EvClose \<Rightarrow> Some (Peer_Close p, [])
      | EvRead j r \<Rightarrow> if readDone p \<or> serving p j \<noteq> None then None else Some (read_step env j r p, [])
      | EvAlloc k \<Rightarrow> call_turn env ev k p
      | EvRegister k \<Rightarrow> call_turn env ev k p
      | EvPrepare k _ \<Rightarrow> call_turn env ev k p
      | EvWrite k _ \<Rightarrow> call_turn env ev k p
      | EvWrote k \<Rightarrow> call_turn env ev k p
      | EvAnswer k \<Rightarrow> call_turn env ev k p
      | EvStop k _ \<Rightarrow> call_turn env ev k p
      | EvRelease k \<Rightarrow> call_turn env ev k p
      | EvNotifyWrite k _ \<Rightarrow> notify_step env ev k p
      | EvNotifyReturn k _ \<Rightarrow> notify_step env ev k p
      | EvServe j _ \<Rightarrow> serve_step env ev j p
      | EvHandled j _ \<Rightarrow> serve_step env ev j p
      | EvFinish j \<Rightarrow> serve_step env ev j p
      | EvRespLock j \<Rightarrow> serve_step env ev j p
      | EvRespWrite j _ \<Rightarrow> serve_step env ev j p
      | EvNoteDone j \<Rightarrow> serve_step env ev j p)"

fun peer_run :: "peer_env \<Rightarrow> pev list \<Rightarrow> Peer \<Rightarrow> Peer option" where
  "peer_run env [] p = Some p"
| "peer_run env (ev # evs) p = (case peer_step env ev p of None \<Rightarrow> None | Some (p1, _) \<Rightarrow> peer_run env evs p1)"

section \<open>Counting goroutines\<close>

definition cnt :: "('v \<Rightarrow> bool) \<Rightarrow> (nat \<rightharpoonup> 'v) \<Rightarrow> nat" where
  "cnt P m = card {k. \<exists>v. m k = Some v \<and> P v}"

lemma cnt_finite: "finite (dom m) \<Longrightarrow> finite {k. \<exists>v. m k = Some v \<and> P v}"
  by (rule finite_subset [of _ "dom m"]) auto

lemma cnt_pos: "finite (dom m) \<Longrightarrow> m k = Some v \<Longrightarrow> P v \<Longrightarrow> 0 < cnt P m"
  using cnt_finite [of m P] by (auto simp: cnt_def card_gt_0_iff)

lemma cnt_del:
  assumes "finite (dom m)" "m k = Some u"
  shows "cnt P (m(k := None)) = cnt P m - of_bool (P u)"
proof -
  have "{j. \<exists>v. (m(k := None)) j = Some v \<and> P v} = {j. \<exists>v. m j = Some v \<and> P v} - {k}" by auto
  then show ?thesis using assms cnt_finite [OF assms(1), of P] by (simp add: cnt_def card_Diff_singleton_if)
qed

lemma cnt_new:
  assumes "finite (dom m)" "m k = None"
  shows "cnt P (m(k \<mapsto> v)) = cnt P m + of_bool (P v)"
proof -
  have "{j. \<exists>u. (m(k \<mapsto> v)) j = Some u \<and> P u} =
      (if P v then insert k {j. \<exists>u. m j = Some u \<and> P u} else {j. \<exists>u. m j = Some u \<and> P u})"
    using assms(2) by auto
  then show ?thesis using assms cnt_finite [OF assms(1), of P] by (simp add: cnt_def)
qed

lemma cnt_mod:
  assumes "finite (dom m)" "m k = Some u"
  shows "cnt P (m(k \<mapsto> v)) = cnt P m - of_bool (P u) + of_bool (P v)"
  using cnt_new [of "m(k := None)" k P v] cnt_del [OF assms, of P] assms(1) by simp

lemma cnt_map:
  assumes "\<And>v. P (h v) = P v"
  shows "cnt P (\<lambda>j. if j \<in> S then map_option h (m j) else m j) = cnt P m"
  unfolding cnt_def by (rule arg_cong [where f = card]) (auto simp: assms split: if_splits)

lemma cnt_empty [simp]: "cnt P (\<lambda>_. None) = 0"
  by (simp add: cnt_def)

lemmas cnt_simps = cnt_new cnt_mod cnt_del

definition holds_slot :: "CallG \<Rightarrow> bool" where
  "holds_slot g \<longleftrightarrow> gPc g \<noteq> PcReturned \<or> is_writing g"

fun handling :: "srv \<Rightarrow> bool" where
  "handling (SWrite _) = False"
| "handling (SHold _) = False"
| "handling _ = True"

fun awaiting :: "srv \<Rightarrow> bool" where
  "awaiting (SWrite _) = True"
| "awaiting _ = False"

fun holds_codec :: "srv \<Rightarrow> bool" where
  "holds_codec (SHold _) = True"
| "holds_codec _ = False"

text \<open>The counters are the numbers of the goroutines they stand for, and within the caps.\<close>

definition calls_inv :: "Peer \<Rightarrow> bool" where
  "calls_inv p \<longleftrightarrow>
     finite (dom (calls p)) \<and> pinflight p = cnt holds_slot (calls p) \<and> pinflight p \<le> maxInflight p"

definition notify_inv :: "Peer \<Rightarrow> bool" where
  "notify_inv p \<longleftrightarrow>
     finite (dom (notifies p)) \<and> notifyPending p = cnt (\<lambda>g. nDone g = None) (notifies p) \<and>
     notifyPending p \<le> maxInflight p"

definition serve_inv :: "Peer \<Rightarrow> bool" where
  "serve_inv p \<longleftrightarrow>
     finite (dom (serving p)) \<and> serveInflight p = cnt handling (serving p) \<and>
     serveInflight p \<le> maxServeInflight p \<and> cnt awaiting (serving p) \<le> respPending p \<and>
     respPending p \<le> maxServeInflight p \<and> cnt holds_codec (serving p) \<le> (if codecHolder p = None then 0 else 1)"

lemmas peer_inv_defs = calls_inv_def notify_inv_def serve_inv_def

lemma setFatal_simps [simp]:
  "calls (setFatal e p) = calls p" "notifies (setFatal e p) = notifies p" "serving (setFatal e p) = serving p"
  "pinflight (setFatal e p) = pinflight p" "serveInflight (setFatal e p) = serveInflight p"
  "respPending (setFatal e p) = respPending p" "notifyPending (setFatal e p) = notifyPending p"
  "maxInflight (setFatal e p) = maxInflight p" "maxServeInflight (setFatal e p) = maxServeInflight p"
  "codecHolder (setFatal e p) = codecHolder p" "nextID (setFatal e p) = nextID p" "ppending (setFatal e p) = ppending p"
  "abandoned (setFatal e p) = abandoned p" "abandonedFIFO (setFatal e p) = abandonedFIFO p" "cancels (setFatal e p) = cancels p"
  by (simp_all add: setFatal_def split: option.splits)

text \<open>Which part of the state an operation leaves alone.\<close>

definition calls_view where
  "calls_view p = (calls p, pinflight p, maxInflight p, nextID p, ppending p, abandoned p, abandonedFIFO p)"

definition notify_view where "notify_view p = (notifies p, notifyPending p, maxInflight p)"

definition serve_view where
  "serve_view p = (serving p, serveInflight p, respPending p, maxServeInflight p, codecHolder p, cancels p)"

lemmas view_defs = calls_view_def notify_view_def serve_view_def

lemma inv_views:
  "calls_view p' = calls_view p \<Longrightarrow> calls_inv p \<Longrightarrow> calls_inv p'"
  "notify_view p' = notify_view p \<Longrightarrow> notify_inv p \<Longrightarrow> notify_inv p'"
  "serve_view p' = serve_view p \<Longrightarrow> serve_inv p \<Longrightarrow> serve_inv p'"
  by (simp_all add: view_defs peer_inv_defs)

lemma noteAbandoned_simps [simp]:
  "calls (noteAbandonedLocked i p) = calls p" "pinflight (noteAbandonedLocked i p) = pinflight p"
  "maxInflight (noteAbandonedLocked i p) = maxInflight p" "nextID (noteAbandonedLocked i p) = nextID p"
  "ppending (noteAbandonedLocked i p) = ppending p" "notify_view (noteAbandonedLocked i p) = notify_view p"
  "serve_view (noteAbandonedLocked i p) = serve_view p"
  by (simp_all add: noteAbandonedLocked_def view_defs split: prod.splits)

lemma peer_write_frame:
  assumes "peer_write env out f p = (err, took, p1, fs)"
  shows "\<exists>w. p1 = p\<lparr>pwerr := w\<rparr>" "set fs \<subseteq> {f}" "length fs \<le> 1"
proof -
  have same: "p = p\<lparr>pwerr := pwerr p\<rparr>" by simp
  have "p1 = p \<or> (\<exists>w. p1 = p\<lparr>pwerr := w\<rparr>)"
    using assms by (auto simp: peer_write_def split: option.splits wout.splits if_splits)
  with same show "\<exists>w. p1 = p\<lparr>pwerr := w\<rparr>" by metis
qed (use assms in \<open>auto simp: peer_write_def split: option.splits wout.splits if_splits\<close>)

lemma call_return_simps [simp]:
  "calls (call_return k i g ret p) = (calls p)(k \<mapsto> g\<lparr>gPc := PcReturned, gRet := Some ret\<rparr>)"
  "pinflight (call_return k i g ret p) = (if is_writing g then pinflight p else pinflight p - 1)"
  "maxInflight (call_return k i g ret p) = maxInflight p" "nextID (call_return k i g ret p) = nextID p"
  "ppending (call_return k i g ret p) = (ppending p)(i := None)"
  "notify_view (call_return k i g ret p) = notify_view p" "serve_view (call_return k i g ret p) = serve_view p"
  by (auto simp: call_return_def Let_def view_defs noteAbandonedLocked_def split: prod.splits)

lemma call_return_inv:
  assumes "calls_inv p" "calls p k = Some g0" "gPc g0 \<noteq> PcReturned"
  shows "calls_inv (call_return k i g ret p)"
proof -
  have "0 < cnt holds_slot (calls p)" using assms cnt_pos [of "calls p" k g0 holds_slot] by (simp add: calls_inv_def holds_slot_def)
  then show ?thesis
    using assms by (auto simp: calls_inv_def cnt_simps holds_slot_def is_writing_def)
qed

lemma calls_update_views [simp]:
  "notify_view (p\<lparr>calls := c\<rparr>) = notify_view p" "serve_view (p\<lparr>calls := c\<rparr>) = serve_view p"
  "notify_view (p\<lparr>calls := c, pinflight := n\<rparr>) = notify_view p" "serve_view (p\<lparr>calls := c, pinflight := n\<rparr>) = serve_view p"
  by (simp_all add: view_defs)

lemma call_keep_inv:
  assumes "calls_inv p" "calls p k = Some g" "holds_slot g" "holds_slot g'"
  shows "calls_inv (p\<lparr>calls := (calls p)(k \<mapsto> g')\<rparr>)"
  using assms cnt_pos [of "calls p" k g holds_slot] by (simp add: calls_inv_def cnt_simps)

lemma call_step_calls_inv:
  assumes "call_turn env ev k p = Some (p', fs)" "calls_inv p"
  shows "calls_inv p' \<and> notify_view p' = notify_view p \<and> serve_view p' = serve_view p"
proof -
  obtain g where g: "calls p k = Some g" using assms(1) by (auto simp: call_turn_def split: option.splits)
  have fin: "finite (dom (calls p))" and n: "pinflight p = cnt holds_slot (calls p)" and le: "pinflight p \<le> maxInflight p"
    using assms(2) by (auto simp: calls_inv_def)
  have pos: "0 < cnt holds_slot (calls p)" if "holds_slot g" using cnt_pos [of "calls p" k g holds_slot] fin g that by simp
  show ?thesis
  proof (cases ev)
    case (EvWrite _ out)
    obtain err took p1 fs1 where w: "peer_write env out (call_frame g) p = (err, took, p1, fs1)" by (metis prod_cases4)
    obtain we where p1: "p1 = p\<lparr>pwerr := we\<rparr>" using peer_write_frame(1) [OF w] by auto
    have "p' = p1\<lparr>calls := (calls p1)(k \<mapsto> g\<lparr>gWrite := WDone err\<rparr>)\<rparr>" "gWrite g = WParked"
      using assms(1) g w EvWrite by (auto simp: call_turn_def split: option.splits if_splits)
    then show ?thesis
      using fin n le g pos by (auto simp: p1 calls_inv_def view_defs cnt_simps holds_slot_def is_writing_def)
  next
    case (EvAlloc _)
    then show ?thesis
      using assms(1) g fin n le pos
      by (auto simp: call_turn_def calls_inv_def view_defs cnt_simps holds_slot_def call_alloc_def Let_def
          split: option.splits if_splits)
  next
    case (EvRegister _)
    then show ?thesis
      using assms(1) g fin n le pos
      by (auto simp: call_turn_def calls_inv_def view_defs cnt_simps holds_slot_def call_register_def Let_def
          split: option.splits if_splits)
  next
    case (EvPrepare _ c)
    then obtain i where p': "p' = call_prepare k i g c p" and pc: "gPc g = PcPrepare"
      using assms(1) g by (auto simp: call_turn_def split: option.splits if_splits)
    then show ?thesis
      using call_return_inv [OF assms(2) g, of i g] call_keep_inv [OF assms(2) g]
      by (simp add: call_prepare_def holds_slot_def)
  next
    case (EvWrote _)
    then obtain i err where p': "p' = call_wrote k i g err p" and pc: "gPc g = PcSelect" "gWrite g = WDone err"
      using assms(1) g by (auto simp: call_turn_def split: option.splits if_splits wstate.splits)
    then show ?thesis
      using call_return_inv [OF assms(2) g] call_keep_inv [OF assms(2) g]
      by (simp add: call_wrote_def Let_def holds_slot_def split: option.splits)
  next
    case (EvAnswer _)
    then obtain i f where p': "p' = call_answer k i g f p" and pc: "gPc g = PcSelect"
      using assms(1) g by (auto simp: call_turn_def split: option.splits if_splits)
    then show ?thesis
      using call_return_inv [OF assms(2) g] call_keep_inv [OF assms(2) g]
      by (simp add: call_answer_def Let_def holds_slot_def)
  next
    case (EvStop _ c)
    then obtain i e where p': "p' = call_return k i g (Inl e) p" and pc: "gPc g = PcSelect"
      using assms(1) g by (auto simp: call_turn_def split: option.splits if_splits)
    then show ?thesis using call_return_inv [OF assms(2) g, of i g] by simp
  next
    case (EvRelease _)
    then show ?thesis
      using assms(1) g fin n le pos
      by (auto simp: call_turn_def calls_inv_def view_defs cnt_simps holds_slot_def is_writing_def
          split: option.splits if_splits wstate.splits)
  qed (use assms(1) g in \<open>simp_all add: call_turn_def split: option.splits\<close>)
qed

lemma notify_step_inv:
  assumes "notify_step env ev k p = Some (p', fs)" "notify_inv p"
  shows "notify_inv p' \<and> calls_view p' = calls_view p \<and> serve_view p' = serve_view p"
proof -
  obtain g where g: "notifies p k = Some g" using assms(1) by (auto simp: notify_step_def split: option.splits)
  have fin: "finite (dom (notifies p))" and n: "notifyPending p = cnt (\<lambda>g. nDone g = None) (notifies p)"
    and le: "notifyPending p \<le> maxInflight p"
    using assms(2) by (auto simp: notify_inv_def)
  have pos: "0 < cnt (\<lambda>g. nDone g = None) (notifies p)" if "nDone g = None"
    using cnt_pos [of "notifies p" k g "\<lambda>g. nDone g = None"] fin g that by simp
  show ?thesis
  proof (cases ev)
    case (EvNotifyWrite _ out)
    obtain err took p1 fs1 where w: "peer_write env out (nFrame g) p = (err, took, p1, fs1)" by (metis prod_cases4)
    obtain we where p1: "p1 = p\<lparr>pwerr := we\<rparr>" using peer_write_frame(1) [OF w] by auto
    have "p' = notify_wrote k g err p1" "nDone g = None"
      using assms(1) g w EvNotifyWrite by (auto simp: notify_step_def split: option.splits if_splits)
    then show ?thesis
      using fin n le g pos by (auto simp: p1 notify_wrote_def notify_inv_def view_defs cnt_simps)
  next
    case (EvNotifyReturn _ c)
    then show ?thesis
      using assms(1) g fin n le pos
      by (auto simp: notify_step_def notify_inv_def view_defs cnt_simps split: option.splits if_splits)
  qed (use assms(1) g in \<open>simp_all add: notify_step_def\<close>)
qed

lemma cancel_class [simp]:
  "handling (cancel_slot s) = handling s" "awaiting (cancel_slot s) = awaiting s" "holds_codec (cancel_slot s) = holds_codec s"
  by (cases s; simp add: cancel_slot_def)+

lemma builtinCancel_inv: "serve_inv p \<Longrightarrow> serve_inv (builtinCancelHandler env ps p)"
proof -
  have "dom (\<lambda>j. if j \<in> S then map_option cancel_slot (serving p j) else serving p j) = dom (serving p)" for S
    by (auto split: if_splits)
  then show "serve_inv p \<Longrightarrow> ?thesis"
    by (auto simp: builtinCancelHandler_def serve_inv_def cnt_map split: option.splits)
qed

lemma builtinCancel_views [simp]:
  "calls_view (builtinCancelHandler env ps p) = calls_view p" "notify_view (builtinCancelHandler env ps p) = notify_view p"
  "cancels (builtinCancelHandler env ps p) = cancels p"
  by (auto simp: builtinCancelHandler_def view_defs split: option.splits)

lemma builtinCancel_serving:
  "serving p j = None \<longleftrightarrow> serving (builtinCancelHandler env ps p) j = None"
  "serving p j = Some (SRun f c) \<Longrightarrow> \<exists>c'. serving (builtinCancelHandler env ps p) j = Some (SRun f c')"
  by (auto simp: builtinCancelHandler_def cancel_slot_def split: option.splits)

lemma serve_handled_inv:
  assumes "serve_inv p" "serving p j = Some (SRun f c)"
  shows "serve_inv (serve_handled env j f out p)"
proof -
  define p1 where "p1 = (if fmethod f = MethodCancel then builtinCancelHandler env (Params f) p else p)"
  have inv: "serve_inv p1" using assms(1) builtinCancel_inv by (simp add: p1_def)
  obtain c' where s: "serving p1 j = Some (SRun f c')"
    using assms(2) builtinCancel_serving(2) [OF assms(2)] unfolding p1_def by metis
  have "0 < cnt handling (serving p1)"
    using cnt_pos [of "serving p1" j _ handling] s inv by (simp add: serve_inv_def)
  then show ?thesis
    using inv s unfolding serve_handled_def Let_def p1_def [symmetric]
    by (auto simp: serve_inv_def retireCancel_def cnt_simps)
qed

lemma serve_step_inv:
  assumes "serve_step env ev j p = Some (p', fs)" "serve_inv p"
  shows "serve_inv p' \<and> calls_view p' = calls_view p \<and> notify_view p' = notify_view p"
proof -
  obtain s where s: "serving p j = Some s" using assms(1) by (auto simp: serve_step_def split: option.splits)
  have fin: "finite (dom (serving p))" using assms(2) by (simp add: serve_inv_def)
  have pos: "handling s \<Longrightarrow> 0 < cnt handling (serving p)" "awaiting s \<Longrightarrow> 0 < cnt awaiting (serving p)"
      "holds_codec s \<Longrightarrow> 0 < cnt holds_codec (serving p)"
    using fin s cnt_pos [of "serving p" j s] by auto
  show ?thesis
  proof (cases s)
    case (SNew f)
    then show ?thesis
      using assms s pos fin
      by (auto simp: serve_step_def serve_start_def Let_def serve_inv_def view_defs cnt_simps
          split: pev.splits option.splits if_splits)
  next
    case (SRun f c)
    then obtain out where p': "p' = serve_handled env j f out p"
      using assms(1) s by (auto simp: serve_step_def split: pev.splits if_splits)
    have "calls_view p' = calls_view p" "notify_view p' = notify_view p"
      by (auto simp: p' serve_handled_def Let_def retireCancel_def view_defs builtinCancelHandler_def split: option.splits)
    then show ?thesis using serve_handled_inv [OF assms(2)] s SRun p' by simp
  next
    case (SResp f)
    then show ?thesis
      using assms s pos fin
      by (auto simp: serve_step_def serve_finish_def Let_def serve_inv_def view_defs cnt_simps
          split: pev.splits option.splits if_splits)
  next
    case (SWrite f)
    then show ?thesis
      using assms s pos fin
      by (auto simp: serve_step_def resp_lock_def can_write_def serve_inv_def view_defs cnt_simps
          split: pev.splits option.splits if_splits)
  next
    case (SHold f)
    then obtain out where w: "resp_write env out j f p = (p', fs)"
      using assms(1) s by (auto simp: serve_step_def split: pev.splits if_splits)
    obtain err took p1 fs1 where pw: "peer_write env out f (p\<lparr>serving := (serving p)(j := None), codecHolder := None\<rparr>) = (err, took, p1, fs1)"
      by (metis prod_cases4)
    obtain we where p1: "p1 = p\<lparr>serving := (serving p)(j := None), codecHolder := None, pwerr := we\<rparr>"
      using peer_write_frame(1) [OF pw] by auto
    have "p' = (case err of None \<Rightarrow> p1 | Some e \<Rightarrow> setFatal e p1)" using w pw by (simp add: resp_write_def)
    moreover have "serve_inv p1 \<and> calls_view p1 = calls_view p \<and> notify_view p1 = notify_view p"
      using assms(2) pos SHold fin s by (auto simp: p1 serve_inv_def view_defs cnt_simps split: if_splits)
    ultimately show ?thesis by (auto simp: serve_inv_def view_defs split: option.splits)
  next
    case (SNote f)
    then show ?thesis
      using assms s pos fin
      by (auto simp: serve_step_def serve_inv_def view_defs cnt_simps split: pev.splits option.splits if_splits)
  qed
qed

lemma deliverResponse_inv:
  assumes "calls_inv p"
  shows "calls_inv (deliverResponse f p) \<and> notify_view (deliverResponse f p) = notify_view p \<and>
    serve_view (deliverResponse f p) = serve_view p"
proof (cases "ppending p (IDValue f)")
  case None
  then show ?thesis using assms by (auto simp: deliverResponse_def calls_inv_def view_defs Let_def)
next
  case (Some k)
  show ?thesis
  proof (cases "calls p k")
    case None
    then have "(calls p)(k := None) = calls p" by (simp add: fun_upd_idem)
    then show ?thesis using assms Some None by (simp add: deliverResponse_def calls_inv_def view_defs Let_def)
  next
    case (Some g)
    have "holds_slot (g\<lparr>gChan := Some f\<rparr>) = holds_slot g" by (simp add: holds_slot_def is_writing_def)
    then show ?thesis
      using assms \<open>ppending p (IDValue f) = Some k\<close> Some cnt_pos [of "calls p" k g holds_slot]
      by (cases "holds_slot g") (auto simp: deliverResponse_def calls_inv_def view_defs Let_def cnt_simps)
  qed
qed

lemma dispatch_inv:
  assumes "calls_inv p" "serve_inv p" "serving p j = None"
  shows "calls_inv (dispatch env j f p) \<and> serve_inv (dispatch env j f p) \<and> notify_view (dispatch env j f p) = notify_view p"
proof -
  have fin: "finite (dom (serving p))" using assms(2) by (simp add: serve_inv_def)
  consider (dead) "fatal p \<noteq> None" | (req) "fatal p = None" "IsRequest f" | (notif) "fatal p = None" "IsNotification f"
    | (resp) "fatal p = None" "\<not> IsRequest f" "\<not> IsNotification f" by auto
  then show ?thesis
  proof cases
    case dead
    then show ?thesis using assms by (simp add: dispatch_def)
  next
    case req
    then show ?thesis
      using assms fin by (auto simp: dispatch_def calls_inv_def serve_inv_def view_defs cnt_simps)
  next
    case notif
    then have "\<not> IsRequest f" by (simp add: IsRequest_def IsNotification_def)
    show ?thesis
    proof (cases "fmethod f = MethodCancel")
      case True
      then show ?thesis
        using notif \<open>\<not> IsRequest f\<close> builtinCancel_inv [OF assms(2)] inv_views(1) [OF _ assms(1)] by (simp add: dispatch_def)
    next
      case False
      then show ?thesis
        using notif \<open>\<not> IsRequest f\<close> assms fin by (auto simp: dispatch_def calls_inv_def serve_inv_def view_defs cnt_simps)
    qed
  next
    case resp
    have "serve_inv (deliverResponse f p)"
      using deliverResponse_inv [OF assms(1)] inv_views(3) [OF _ assms(2)] by blast
    then show ?thesis
      using resp assms deliverResponse_inv [OF assms(1), of f] by (auto simp: dispatch_def calls_inv_def serve_inv_def view_defs)
  qed
qed

text \<open>Every event keeps the counters true.\<close>

definition peer_inv :: "Peer \<Rightarrow> bool" where
  "peer_inv p \<longleftrightarrow> calls_inv p \<and> notify_inv p \<and> serve_inv p"

lemma NewPeer_inv: "peer_inv (NewPeer n sn hs)"
  by (simp add: peer_inv_def peer_inv_defs NewPeer_def)

lemma peer_step_inv:
  assumes "peer_step env ev p = Some (p', fs)" "peer_inv p"
  shows "peer_inv p'"
proof -
  have inv: "calls_inv p" "notify_inv p" "serve_inv p" using assms(2) by (auto simp: peer_inv_def)
  have by_call: "peer_inv p'" if "call_turn env ev k p = Some (p', fs)" for k
    using call_step_calls_inv [OF that inv(1)] inv_views inv by (auto simp: peer_inv_def)
  have by_notify: "peer_inv p'" if "notify_step env ev k p = Some (p', fs)" for k
    using notify_step_inv [OF that inv(2)] inv_views inv by (auto simp: peer_inv_def)
  have by_serve: "peer_inv p'" if "serve_step env ev k p = Some (p', fs)" for k
    using serve_step_inv [OF that inv(3)] inv_views inv by (auto simp: peer_inv_def)
  show ?thesis
  proof (cases ev)
    case (EvCall k m ps c)
    then have "p' = call_entry k m ps c p" "calls p k = None"
      using assms(1) by (auto simp: peer_step_def split: if_splits)
    then show ?thesis
      using inv by (auto simp: peer_inv_def peer_inv_defs call_entry_def Let_def cnt_simps holds_slot_def is_writing_def)
  next
    case (EvNotify k m ps c)
    then have "p' = notify_entry k m ps c p" "notifies p k = None"
      using assms(1) by (auto simp: peer_step_def split: if_splits)
    then show ?thesis
      using inv by (auto simp: peer_inv_def peer_inv_defs notify_entry_def Let_def cnt_simps split: option.splits)
  next
    case (EvHandle m)
    then show ?thesis
      using assms(1) inv by (auto simp: peer_step_def Peer_Handle_def peer_inv_def peer_inv_defs split: if_splits)
  next
    case EvClose
    then show ?thesis using assms(1) inv by (auto simp: peer_step_def Peer_Close_def peer_inv_def peer_inv_defs)
  next
    case (EvRead j r)
    then have p': "p' = read_step env j r p" "serving p j = None"
      using assms(1) by (auto simp: peer_step_def split: if_splits)
    show ?thesis
    proof (cases r)
      case (Inr f)
      then show ?thesis
        using dispatch_inv [OF inv(1,3) p'(2), of env f] inv_views(2) [OF _ inv(2)] p'(1)
        by (auto simp: read_step_def peer_inv_def)
    next
      case (Inl e)
      then show ?thesis using inv p'(1) by (auto simp: read_step_def peer_inv_def peer_inv_defs Let_def)
    qed
  qed (use assms(1) by_call by_notify by_serve in \<open>auto simp: peer_step_def\<close>)
qed

lemma peer_run_inv: "peer_run env evs p = Some p' \<Longrightarrow> peer_inv p \<Longrightarrow> peer_inv p'"
proof (induction evs arbitrary: p)
  case (Cons ev evs)
  then show ?case using peer_step_inv by (auto split: option.splits)
qed simp

text \<open>The caps never change.\<close>

definition caps :: "Peer \<Rightarrow> nat \<times> nat" where "caps p = (maxInflight p, maxServeInflight p)"

lemma caps_views:
  "notify_view p' = notify_view p \<Longrightarrow> serve_view p' = serve_view p \<Longrightarrow> caps p' = caps p"
  by (simp add: caps_def view_defs)

lemma setFatal_caps [simp]: "caps (setFatal e p) = caps p"
  by (simp add: caps_def)

lemma builtinCancel_caps [simp]: "caps (builtinCancelHandler env ps p) = caps p"
  by (simp add: builtinCancelHandler_def caps_def split: option.splits)

lemma deliverResponse_caps [simp]: "caps (deliverResponse f p) = caps p"
  by (simp add: deliverResponse_def caps_def Let_def split: option.splits)

lemma peer_write_caps: "peer_write env out f p = (err, took, p1, fs) \<Longrightarrow> caps p1 = caps p"
  by (auto simp: caps_def peer_write_def split: option.splits wout.splits if_splits)

lemma serve_step_caps:
  assumes "serve_step env ev j p = Some (p', fs)"
  shows "caps p' = caps p"
proof -
  have upd: "caps (q\<lparr>serving := s\<rparr>) = caps q" "caps (retireCancel i j q) = caps q" for q s i
    by (simp_all add: caps_def retireCancel_def)
  have "caps (serve_start j f gate p) = caps p" for f gate
    by (simp add: serve_start_def Let_def caps_def split: option.splits)
  moreover have "caps (serve_handled env j f out p) = caps p" for f out
    by (simp add: serve_handled_def Let_def upd)
  moreover have "caps (serve_finish j resp p) = caps p" for resp
    by (simp add: serve_finish_def Let_def) (simp add: caps_def)
  moreover have "caps (resp_lock env j resp p) = caps p" for resp
    by (simp add: resp_lock_def upd caps_def split: option.splits)
  moreover have "caps (fst (resp_write env out j resp p)) = caps p" for out resp
  proof -
    obtain err took p1 fs1 where
      w: "peer_write env out resp (p\<lparr>serving := (serving p)(j := None), codecHolder := None\<rparr>) = (err, took, p1, fs1)"
      by (metis prod_cases4)
    have "caps p1 = caps p" using peer_write_caps [OF w] by (simp add: caps_def)
    then show ?thesis by (cases err) (simp_all add: resp_write_def w)
  qed
  moreover have "caps (p\<lparr>serveInflight := n, serving := s\<rparr>) = caps p" for n s by (simp add: caps_def)
  ultimately have all: "caps (serve_start j f gate p) = caps p" "caps (serve_handled env j f out p) = caps p"
      "caps (serve_finish j f p) = caps p" "caps (resp_lock env j f p) = caps p" "caps (fst (resp_write env w j f p)) = caps p"
      "caps (p\<lparr>serveInflight := n, serving := s\<rparr>) = caps p" for f gate out w n s
    by auto
  obtain s where s: "serving p j = Some s" using assms by (auto simp: serve_step_def split: option.splits)
  show ?thesis
  proof (cases s)
    case (SHold f)
    then show ?thesis
      using assms s all(5) [of _ f] by (cases ev) (auto simp: serve_step_def, metis fst_conv)
  qed (use assms s all in \<open>cases ev; auto simp: serve_step_def split: if_splits\<close>)+
qed

lemma peer_step_caps:
  assumes "peer_step env ev p = Some (p', fs)" "peer_inv p"
  shows "caps p' = caps p"
proof -
  have by_call: "caps p' = caps p" if "call_turn env ev k p = Some (p', fs)" for k
    using call_step_calls_inv [OF that] assms(2) caps_views [of p' p] by (simp add: peer_inv_def)
  have by_notify: "caps p' = caps p" if "notify_step env ev k p = Some (p', fs)" for k
    using notify_step_inv [OF that] assms(2) by (simp add: peer_inv_def caps_def view_defs)
  show ?thesis
  proof (cases ev)
    case (EvRead j r)
    have "caps (dispatch env j f p) = caps p" for f
      by (simp add: dispatch_def) (simp add: caps_def)
    then show ?thesis
      using assms(1) EvRead by (cases r) (auto simp: peer_step_def read_step_def Let_def caps_def split: if_splits)
  qed (use assms(1) by_call by_notify serve_step_caps in
      \<open>auto simp: peer_step_def call_entry_def notify_entry_def Peer_Handle_def Peer_Close_def Let_def caps_def
        split: if_splits option.splits\<close>)
qed

lemma peer_run_caps: "peer_run env evs p = Some p' \<Longrightarrow> peer_inv p \<Longrightarrow> caps p' = caps p"
proof (induction evs arbitrary: p)
  case (Cons ev evs)
  obtain p1 fs where st: "peer_step env ev p = Some (p1, fs)" "peer_run env evs p1 = Some p'"
    using Cons.prems(1) by (auto split: option.splits)
  then show ?case
    using Cons.IH [OF st(2) peer_step_inv [OF st(1) Cons.prems(2)]] peer_step_caps [OF st(1) Cons.prems(2)] by simp
qed simp

definition cap_of :: "int \<Rightarrow> nat" where
  "cap_of n = (if n > 0 then nat n else DefaultMaxInflight)"

text \<open>C26. Whatever the counterparty sends, however the transport treats the writes and in whatever order the
  goroutines run, a peer never has more calls open or still writing than its inflight cap, nor more notification
  writes pending; never more handlers running than its serve cap, nor more responses waiting to be written; and one
  response at most holds the codec.\<close>

theorem peer_goroutines_bounded:
  assumes "peer_run env evs (NewPeer n sn hs) = Some p"
  shows "cnt holds_slot (calls p) \<le> cap_of n \<and> cnt (\<lambda>g. nDone g = None) (notifies p) \<le> cap_of n \<and>
    cnt handling (serving p) \<le> cap_of sn \<and> cnt awaiting (serving p) \<le> cap_of sn \<and> cnt holds_codec (serving p) \<le> 1"
proof -
  have "caps p = (cap_of n, cap_of sn)"
    using peer_run_caps [OF assms NewPeer_inv] by (simp add: caps_def NewPeer_def cap_of_def)
  then show ?thesis
    using peer_run_inv [OF assms NewPeer_inv] by (auto simp: peer_inv_def peer_inv_defs caps_def split: if_splits)
qed

text \<open>The writes of the peer are those of the codec: \<open>fits_of\<close> is the codec's refusal of a frame before
  it writes, \<open>wout_of\<close> reads the transport's answer.\<close>

definition fits_of :: "(Frame \<Rightarrow> string option) \<Rightarrow> nat \<Rightarrow> Frame \<Rightarrow> ProtoError option" where
  "fits_of enc m f =
     (case enc f of
        None \<Rightarrow> Some MarshalError
      | Some body \<Rightarrow> if length body > m then Some (OvercapError (Some (length body)) m) else None)"

definition wout_of :: "string \<Rightarrow> nat \<times> bool \<Rightarrow> wout" where
  "wout_of body a =
     (case a of (n, failed) \<Rightarrow>
        if \<not> failed \<and> n = length body + 1 then WWhole else if n = 0 then WNothing else WCut (length body \<le> n))"

lemma peer_write_is_codec_write:
  assumes "fits env = fits_of enc (cmax c)" "werr c = pwerr p" "enc f = Some body"
    and "peer_write env (wout_of body a) f p = (err, took, p1, fs)" "codec_write enc f a c = (r, c1)"
  shows "r = (case err of None \<Rightarrow> Inr () | Some e \<Rightarrow> Inl e) \<and> werr c1 = pwerr p1 \<and>
    (fs = [f] \<longrightarrow> (\<exists>t. sent c1 = sent c @ body @ t)) \<and> (fs = [] \<longrightarrow> length (sent c1) < length (sent c) + length body + 1)"
proof (cases "length body > cmax c \<or> werr c \<noteq> None")
  case True
  then show ?thesis
    using assms by (auto simp: peer_write_def codec_write_def fits_of_def split: option.splits if_splits)
next
  case False
  obtain n failed where a: "a = (n, failed)" by force
  have "fits env f = None" "pwerr p = None" "werr c = None" using False assms(1-3) by (auto simp: fits_of_def)
  then show ?thesis
    using assms(3-5) False
    by (auto simp: peer_write_def codec_write_def wout_of_def a Let_def split: if_splits)
qed

text \<open>A flood against caps of one: the second request is answered with the cap error, the third, with that answer
  unwritten, faults the peer as stalled.\<close>

definition free_env :: peer_env where
  "free_env = \<lparr>fits = (\<lambda>_. None), cancelID = (\<lambda>ps. Some ps), gates = (\<lambda>_ _. True), handles = (\<lambda>_ _ _. True)\<rparr>"

definition flood :: "pev list" where
  "flood =
     [EvCall 0 ''module.http'' (Some []) False, EvCall 1 ''module.http'' (Some []) False,
      EvRead 0 (Inr (NewRequest 7 ''host.entity.query'' [])), EvRead 1 (Inr (NewRequest 8 ''host.entity.query'' [])),
      EvRead 2 (Inr (NewRequest 9 ''host.entity.query'' []))]"

theorem peer_goroutines_bounded_witness:
  "\<exists>p. peer_run free_env flood (NewPeer 1 1 {''host.entity.query''}) = Some p \<and> fatal p = Some ErrStalled \<and>
     map_option gRet (calls p 1) = Some (Some (Inl ErrInflightCap)) \<and>
     cnt holds_slot (calls p) \<le> cap_of 1 \<and> cnt (\<lambda>g. nDone g = None) (notifies p) \<le> cap_of 1 \<and>
     cnt handling (serving p) \<le> cap_of 1 \<and> cnt awaiting (serving p) \<le> cap_of 1 \<and> cnt holds_codec (serving p) \<le> 1"
proof -
  have "\<exists>p. peer_run free_env flood (NewPeer 1 1 {''host.entity.query''}) = Some p \<and> fatal p = Some ErrStalled \<and>
     map_option gRet (calls p 1) = Some (Some (Inl ErrInflightCap))"
    by (simp add: flood_def peer_step_def call_entry_def NewPeer_def Let_def read_step_def dispatch_def NewRequest_def
        IsRequest_def setFatal_def)
  then show ?thesis using peer_goroutines_bounded [of free_env flood 1 1 "{''host.entity.query''}"] by blast
qed

end
