(* ===== verification/PeerWindow.thy ===== *)
theory PeerWindow
  imports ModulePeer
begin

text \<open>
  Two facts of the peer's memory over its reachable states (\<^verbatim>\<open>core/moduleproto/peer.go\<close>): the window of given-up
  calls still owed a response, and the cancel slots of the handlers being served.
\<close>

section \<open>The window of abandoned calls\<close>

text \<open>The tombstones still owed a response, oldest first.\<close>

definition owed_ids :: "Peer \<Rightarrow> nat list" where
  "owed_ids p = filter (\<lambda>i. i \<in> abandoned p) (abandonedFIFO p)"

definition window_inv :: "Peer \<Rightarrow> bool" where
  "window_inv p \<longleftrightarrow> abandoned p \<subseteq> set (abandonedFIFO p) \<and> distinct (abandonedFIFO p)"

definition newest :: "nat \<Rightarrow> 'a list \<Rightarrow> 'a list" where
  "newest n xs = drop (length xs - n) xs"

lemma owed_set: "window_inv p \<Longrightarrow> set (owed_ids p) = abandoned p" "window_inv p \<Longrightarrow> distinct (owed_ids p)"
  by (auto simp: owed_ids_def window_inv_def)

lemma evict_newest:
  assumes "ab \<subseteq> set fifo" "distinct fifo" "evict fifo ab = (fifo', ab')"
  shows "filter (\<lambda>i. i \<in> ab') fifo' = newest maxAbandonedIDs (filter (\<lambda>i. i \<in> ab) fifo) \<and>
    ab' \<subseteq> set fifo' \<and> set fifo' \<subseteq> set fifo \<and> distinct fifo'"
  using assms
proof (induction fifo arbitrary: ab)
  case (Cons x fifo)
  have card: "card ab = length (filter (\<lambda>i. i \<in> ab) (x # fifo))"
  proof -
    have "ab = set (filter (\<lambda>i. i \<in> ab) (x # fifo))" using Cons.prems(1) by auto
    then show ?thesis using Cons.prems(2) distinct_card [of "filter (\<lambda>i. i \<in> ab) (x # fifo)"] by simp
  qed
  show ?case
  proof (cases "card ab > maxAbandonedIDs")
    case True
    have same: "filter (\<lambda>i. i \<in> ab - {x}) fifo = filter (\<lambda>i. i \<in> ab) fifo"
      using Cons.prems(2) by (intro filter_cong) auto
    have "newest maxAbandonedIDs (filter (\<lambda>i. i \<in> ab - {x}) fifo) =
        newest maxAbandonedIDs (filter (\<lambda>i. i \<in> ab) (x # fifo))"
      using True unfolding card same by (auto simp: newest_def Suc_diff_le)
    moreover have "filter (\<lambda>i. i \<in> ab') fifo' = newest maxAbandonedIDs (filter (\<lambda>i. i \<in> ab - {x}) fifo) \<and>
        ab' \<subseteq> set fifo' \<and> set fifo' \<subseteq> set fifo \<and> distinct fifo'"
      using Cons.prems True by (intro Cons.IH) auto
    ultimately show ?thesis by auto
  next
    case False
    then have "fifo' = x # fifo" "ab' = ab" "length (filter (\<lambda>i. i \<in> ab) (x # fifo)) \<le> maxAbandonedIDs"
      using Cons.prems(3) card by auto
    then show ?thesis using Cons.prems(1,2) by (auto simp: newest_def)
  qed
qed (simp add: newest_def)

lemma abandoned_window_note:
  assumes "window_inv p" "i \<notin> set (abandonedFIFO p)"
  shows "window_inv (noteAbandonedLocked i p)" "owed_ids (noteAbandonedLocked i p) = newest maxAbandonedIDs (owed_ids p @ [i])"
    "length (abandonedFIFO (noteAbandonedLocked i p)) \<le> 2 * maxAbandonedIDs"
proof -
  obtain fifo ab where e: "evict (abandonedFIFO p @ [i]) (insert i (abandoned p)) = (fifo, ab)" by force
  have ev: "filter (\<lambda>i. i \<in> ab) fifo = newest maxAbandonedIDs (filter (\<lambda>k. k \<in> insert i (abandoned p)) (abandonedFIFO p @ [i]))"
      "ab \<subseteq> set fifo" "set fifo \<subseteq> insert i (set (abandonedFIFO p))" "distinct fifo"
    using evict_newest [OF _ _ e] assms by (auto simp: window_inv_def)
  have live: "filter (\<lambda>k. k \<in> insert i (abandoned p)) (abandonedFIFO p @ [i]) = owed_ids p @ [i]"
    using assms(2) by (auto simp: owed_ids_def intro: filter_cong)
  have short: "length (filter (\<lambda>i. i \<in> ab) fifo) \<le> maxAbandonedIDs"
    unfolding ev(1) by (simp add: newest_def)
  have note_fields: "abandoned (noteAbandonedLocked i p) = ab"
      "abandonedFIFO (noteAbandonedLocked i p) =
        (if length fifo > 2 * maxAbandonedIDs then filter (\<lambda>a. a \<in> ab) fifo else fifo)"
    by (simp_all add: noteAbandonedLocked_def e)
  show "window_inv (noteAbandonedLocked i p)"
    using ev(2,4) unfolding window_inv_def note_fields by auto
  show "owed_ids (noteAbandonedLocked i p) = newest maxAbandonedIDs (owed_ids p @ [i])"
  proof -
    have "owed_ids (noteAbandonedLocked i p) = filter (\<lambda>i. i \<in> ab) fifo" unfolding owed_ids_def note_fields by simp
    then show ?thesis using ev(1) live by simp
  qed
  show "length (abandonedFIFO (noteAbandonedLocked i p)) \<le> 2 * maxAbandonedIDs"
    unfolding note_fields using short by auto
qed

text \<open>The memory of given-up calls is a window: recording an id appends it to the ids still owed a response and keeps
  the newest 1024 of them, consuming a late response removes that id alone, and the queue behind it never holds more
  than twice as many entries.\<close>

lemma abandoned_window:
  assumes "window_inv p" "i \<notin> set (abandonedFIFO p)"
  shows "window_inv (noteAbandonedLocked i p) \<and>
    owed_ids (noteAbandonedLocked i p) = newest maxAbandonedIDs (owed_ids p @ [i]) \<and>
    length (abandonedFIFO (noteAbandonedLocked i p)) \<le> 2 * maxAbandonedIDs \<and>
    (ppending p (IDValue f) = None \<longrightarrow> IDValue f \<in> abandoned p \<longrightarrow>
      window_inv (deliverResponse f p) \<and> owed_ids (deliverResponse f p) = removeAll (IDValue f) (owed_ids p))"
  using abandoned_window_note [OF assms] assms(1)
  by (auto simp: deliverResponse_def Let_def window_inv_def owed_ids_def removeAll_filter_not_eq intro: filter_cong)

lemma abandoned_window_witness:
  "let p = NewPeer 0 0 {} in window_inv p \<and> 1 \<notin> set (abandonedFIFO p) \<and>
     owed_ids (noteAbandonedLocked 1 p) = [1] \<and> owed_ids (noteAbandonedLocked 1 p) = newest maxAbandonedIDs (owed_ids p @ [1])"
  using abandoned_window [of "NewPeer 0 0 {}" 1 "NewSuccessResponse 1 []"]
  by (simp add: Let_def NewPeer_def window_inv_def owed_ids_def newest_def maxAbandonedIDs_def)

section \<open>Cancellation\<close>

text \<open>The slots registered under an id are those of the handlers serving it.\<close>

definition runs_for :: "(nat \<rightharpoonup> srv) \<Rightarrow> nat \<Rightarrow> nat \<Rightarrow> bool" where
  "runs_for m j i \<longleftrightarrow> (\<exists>f c. m j = Some (SRun f c) \<and> IDValue f = i)"

definition cancels_inv :: "Peer \<Rightarrow> bool" where
  "cancels_inv p \<longleftrightarrow> (\<forall>i. distinct (cancels p i) \<and> (\<forall>j. j \<in> set (cancels p i) \<longleftrightarrow> runs_for (serving p) j i))"

lemma runs_for_upd:
  "runs_for (m(j := x)) j' i \<longleftrightarrow> (if j' = j then (\<exists>f c. x = Some (SRun f c) \<and> IDValue f = i) else runs_for m j' i)"
  by (auto simp: runs_for_def)

lemma runs_for_cancel: "runs_for (serving (builtinCancelHandler env ps p)) j i \<longleftrightarrow> runs_for (serving p) j i"
proof (cases "cancel_target env ps")
  case (Some t)
  show ?thesis
  proof (cases "serving p j")
    case (Some s)
    then show ?thesis
      using \<open>cancel_target env ps = Some t\<close> by (cases s) (auto simp: runs_for_def builtinCancelHandler_def cancel_slot_def)
  qed (use Some in \<open>auto simp: runs_for_def builtinCancelHandler_def\<close>)
qed (simp add: builtinCancelHandler_def)

lemma cancels_inv_view: "serve_view p' = serve_view p \<Longrightarrow> cancels_inv p \<Longrightarrow> cancels_inv p'"
  by (simp add: cancels_inv_def serve_view_def)

lemma cancels_inv_same:
  assumes "cancels_inv p" "cancels p' = cancels p" "\<And>j i. runs_for (serving p') j i = runs_for (serving p) j i"
  shows "cancels_inv p'"
  using assms by (simp add: cancels_inv_def)

lemma serve_handled_cancels:
  assumes "cancels_inv p" "serving p j = Some (SRun f c)"
  shows "cancels_inv (serve_handled env j f out p)"
proof -
  define p1 where "p1 = (if fmethod f = MethodCancel then builtinCancelHandler env (Params f) p else p)"
  have p1: "cancels p1 = cancels p" "runs_for (serving p1) j' i = runs_for (serving p) j' i" for j' i
    by (simp_all add: p1_def runs_for_cancel)
  have "serving (serve_handled env j f out p) =
      (serving p1)(j \<mapsto> SResp (handler_response (IDValue f) (if fmethod f = MethodCancel then HOk (Some []) else out)))"
    "cancels (serve_handled env j f out p) = (cancels p)(IDValue f := remove1 j (cancels p (IDValue f)))"
    by (simp_all add: serve_handled_def Let_def p1_def [symmetric] retireCancel_def p1)
  moreover have "runs_for (serving p) j i \<longleftrightarrow> i = IDValue f" for i using assms(2) by (auto simp: runs_for_def)
  ultimately show ?thesis
    using assms(1) by (auto simp: cancels_inv_def runs_for_upd p1 set_remove1_eq)
qed

lemma serve_step_cancels:
  assumes "serve_step env ev j p = Some (p', fs)" "cancels_inv p"
  shows "cancels_inv p'"
proof -
  obtain s where s: "serving p j = Some s" using assms(1) by (auto simp: serve_step_def split: option.splits)
  have idle: "\<not> runs_for (serving p) j i" if "\<And>f c. s \<noteq> SRun f c" for i using that s by (auto simp: runs_for_def)
  have same: "cancels_inv q" if "cancels q = cancels p" "serving q = (serving p)(j := x)" "\<And>f c. x \<noteq> Some (SRun f c)"
      "\<And>f c. s \<noteq> SRun f c" for q x
    using idle [OF that(4)] that by (intro cancels_inv_same [OF assms(2)]) (auto simp: runs_for_upd)
  show ?thesis
  proof (cases s)
    case (SNew f)
    then obtain gate where p': "p' = serve_start j f gate p"
      using assms(1) s by (auto simp: serve_step_def split: pev.splits if_splits)
    have "j \<notin> set (cancels p i)" for i using idle [of i] SNew assms(2) by (auto simp: cancels_inv_def)
    then have "cancels_inv (p\<lparr>cancels := (cancels p)(IDValue f := cancels p (IDValue f) @ [j]),
        serving := (serving p)(j \<mapsto> SRun f False)\<rparr>)"
      using assms(2) idle SNew by (auto simp: cancels_inv_def runs_for_upd)
    then show ?thesis
      unfolding p' serve_start_def Let_def using same SNew by (auto split: option.splits)
  next
    case (SRun f c)
    then show ?thesis
      using assms s serve_handled_cancels by (auto simp: serve_step_def split: pev.splits if_splits)
  next
    case (SResp f)
    then have "p' = serve_finish j f p" using assms(1) s by (auto simp: serve_step_def split: pev.splits)
    moreover have "\<exists>x. serving (serve_finish j f p) = (serving p)(j := x) \<and> (\<forall>f c. x \<noteq> Some (SRun f c))"
      by (rule exI [of _ "if respPending p \<ge> maxServeInflight p then None else Some (SWrite f)"])
        (simp add: serve_finish_def Let_def)
    moreover have "cancels (serve_finish j f p) = cancels p" by (simp add: serve_finish_def Let_def)
    ultimately show ?thesis using same SResp by auto
  next
    case (SWrite f)
    then have "p' = resp_lock env j f p" using assms(1) s by (auto simp: serve_step_def split: pev.splits if_splits)
    moreover have "\<exists>x. serving (resp_lock env j f p) = (serving p)(j := x) \<and> (\<forall>f c. x \<noteq> Some (SRun f c))"
      by (rule exI [of _ "if fits env f = None then Some (SHold f) else None"])
        (simp add: resp_lock_def split: option.splits)
    moreover have "cancels (resp_lock env j f p) = cancels p" by (simp add: resp_lock_def split: option.splits)
    ultimately show ?thesis using same SWrite by auto
  next
    case (SHold f)
    then obtain out where w: "resp_write env out j f p = (p', fs)"
      using assms(1) s by (auto simp: serve_step_def split: pev.splits if_splits)
    obtain err took p1 fs1 where pw: "peer_write env out f (p\<lparr>serving := (serving p)(j := None), codecHolder := None\<rparr>) = (err, took, p1, fs1)"
      by (metis prod_cases4)
    have "serving p1 = (serving p)(j := None)" "cancels p1 = cancels p"
      using peer_write_frame(1) [OF pw] by auto
    then have "serving p' = (serving p)(j := None)" "cancels p' = cancels p"
      using w pw by (auto simp: resp_write_def split: option.splits)
    then show ?thesis using same SHold by auto
  next
    case (SNote f)
    then show ?thesis using assms(1) s same by (auto simp: serve_step_def split: pev.splits)
  qed
qed

lemma dispatch_cancels:
  assumes "cancels_inv p" "serving p j = None"
  shows "cancels_inv (dispatch env j f p)"
proof -
  have idle: "\<not> runs_for (serving p) j i" for i using assms(2) by (simp add: runs_for_def)
  have "cancels (deliverResponse f p) = cancels p" "serving (deliverResponse f p) = serving p"
    by (auto simp: deliverResponse_def Let_def split: option.splits)
  then show ?thesis
    using idle by (intro cancels_inv_same [OF assms(1)]) (auto simp: dispatch_def runs_for_upd runs_for_cancel)
qed

lemma peer_step_cancels:
  assumes "peer_step env ev p = Some (p', fs)" "peer_inv p" "cancels_inv p"
  shows "cancels_inv p'"
proof -
  have by_call: "cancels_inv p'" if "call_turn env ev k p = Some (p', fs)" for k
    using call_step_calls_inv [OF that] assms(2,3) cancels_inv_view [of p' p] by (simp add: peer_inv_def)
  have by_notify: "cancels_inv p'" if "notify_step env ev k p = Some (p', fs)" for k
    using notify_step_inv [OF that] assms(2,3) cancels_inv_view [of p' p] by (simp add: peer_inv_def)
  have keep: "cancels_inv q" if "serve_view q = serve_view p" for q using cancels_inv_view [OF that assms(3)] .
  show ?thesis
  proof (cases ev)
    case (EvRead j r)
    show ?thesis
    proof (cases r)
      case (Inl e)
      then show ?thesis
        using assms(1) EvRead by (auto simp: peer_step_def read_step_def Let_def view_defs intro!: keep split: if_splits)
    next
      case (Inr f)
      then show ?thesis
        using assms(1) EvRead dispatch_cancels [OF assms(3), of j env f] by (auto simp: peer_step_def read_step_def split: if_splits)
    qed
  qed (use assms(1) by_call by_notify serve_step_cancels [OF _ assms(3)] in
      \<open>auto simp: peer_step_def call_entry_def notify_entry_def Peer_Handle_def Peer_Close_def Let_def view_defs
        intro!: keep split: if_splits option.splits\<close>)
qed

lemma peer_run_cancels: "peer_run env evs p = Some p' \<Longrightarrow> peer_inv p \<Longrightarrow> cancels_inv p \<Longrightarrow> cancels_inv p'"
proof (induction evs arbitrary: p)
  case (Cons ev evs)
  then show ?case using peer_step_inv peer_step_cancels by (auto split: option.splits)
qed simp

text \<open>C27. On any reachable peer that has not faulted, a \<^verbatim>\<open>module.cancel\<close> notification whose request id is the
  decimal text of \<open>i\<close> ends the context of every handler serving a request with that id, several if the
  counterparty reused it, and of no other handler; nothing else of the peer's serving changes. No cap can keep it
  from running.\<close>

theorem cancel_exact:
  assumes "peer_run env evs (NewPeer n sn hs) = Some p" "fatal p = None"
    and "0 < i" "i < 2 ^ 64" "cancelID env ps = Some (show_nat i)" "ps \<noteq> []"
  shows "serving (dispatch env j (NewNotification MethodCancel ps) p) j' =
    (case serving p j' of
       Some (SRun f c) \<Rightarrow> Some (SRun f (c \<or> IDValue f = i))
     | s \<Rightarrow> s)"
proof -
  have inv: "cancels_inv p"
    by (rule peer_run_cancels [OF assms(1) NewPeer_inv]) (simp add: cancels_inv_def NewPeer_def runs_for_def)
  have "cancel_target env ps = Some i"
    using assms(3-6) ParseUint_show_nat [of i] by (simp add: cancel_target_def)
  moreover have "dispatch env j (NewNotification MethodCancel ps) p = builtinCancelHandler env ps p"
    using assms(2) by (simp add: dispatch_def NewNotification_def IsRequest_def IsNotification_def MethodCancel_def)
  moreover have "j' \<in> set (cancels p i) \<longleftrightarrow> runs_for (serving p) j' i" using inv by (simp add: cancels_inv_def)
  ultimately show ?thesis
    by (auto simp: builtinCancelHandler_def runs_for_def cancel_slot_def split: option.splits srv.splits)
qed

definition reused_id :: "pev list" where
  "reused_id =
     [EvRead 0 (Inr (NewRequest 7 ''m'' [])), EvRead 1 (Inr (NewRequest 7 ''m'' [])), EvRead 2 (Inr (NewRequest 8 ''m'' [])),
      EvServe 0 None, EvServe 1 None, EvServe 2 None]"

theorem cancel_exact_witness:
  "\<exists>p. peer_run free_env reused_id (NewPeer 0 0 {''m''}) = Some p \<and> fatal p = None \<and>
     (let q = dispatch free_env 9 (NewNotification MethodCancel ''7'') p in
        serving q 0 = Some (SRun (NewRequest 7 ''m'' []) True) \<and> serving q 1 = Some (SRun (NewRequest 7 ''m'' []) True) \<and>
        serving q 2 = Some (SRun (NewRequest 8 ''m'' []) False))"
proof -
  have run: "\<exists>p. peer_run free_env reused_id (NewPeer 0 0 {''m''}) = Some p \<and> fatal p = None \<and>
      serving p 0 = Some (SRun (NewRequest 7 ''m'' []) False) \<and> serving p 1 = Some (SRun (NewRequest 7 ''m'' []) False) \<and>
      serving p 2 = Some (SRun (NewRequest 8 ''m'' []) False)"
    by (simp add: reused_id_def peer_step_def serve_step_def serve_start_def NewPeer_def Let_def read_step_def dispatch_def
        NewRequest_def IsRequest_def DefaultMaxInflight_def MethodCancel_def free_env_def)
  then obtain p where p: "peer_run free_env reused_id (NewPeer 0 0 {''m''}) = Some p" "fatal p = None"
      "serving p 0 = Some (SRun (NewRequest 7 ''m'' []) False)" "serving p 1 = Some (SRun (NewRequest 7 ''m'' []) False)"
      "serving p 2 = Some (SRun (NewRequest 8 ''m'' []) False)" by blast
  have seven: "show_nat 7 = ''7''" by code_simp
  have "serving (dispatch free_env 9 (NewNotification MethodCancel ''7'') p) j' =
      (case serving p j' of Some (SRun f c) \<Rightarrow> Some (SRun f (c \<or> IDValue f = 7)) | s \<Rightarrow> s)" for j'
    using cancel_exact [OF p(1,2), of 7 "''7''" 9 j'] seven by (simp add: free_env_def)
  then show ?thesis using p by (auto simp: Let_def NewRequest_def IDValue_def)
qed

section \<open>Calls that were never sent\<close>

text \<open>A call whose parameters do not marshal returns before anything is written; its id is remembered all the same.\<close>

definition unsent :: "nat \<Rightarrow> pev list" where
  "unsent k = [EvCall k ''module.http'' None False, EvAlloc k, EvRegister k, EvPrepare k False]"

definition idle_at :: "nat \<Rightarrow> Peer \<Rightarrow> bool" where
  "idle_at n p \<longleftrightarrow>
     \<not> pclosed p \<and> fatal p = None \<and> pinflight p < maxInflight p \<and> nextID p = n \<and> ppending p = (\<lambda>_. None) \<and>
     window_inv p \<and> (\<forall>i \<in> set (abandonedFIFO p). i \<le> n)"

lemma note_flags [simp]:
  "pclosed (noteAbandonedLocked i p) = pclosed p" "fatal (noteAbandonedLocked i p) = fatal p"
  by (simp_all add: noteAbandonedLocked_def split: prod.splits)

lemma note_fifo: "set (abandonedFIFO (noteAbandonedLocked i p)) \<subseteq> insert i (set (abandonedFIFO p))"
proof -
  obtain fifo ab where e: "evict (abandonedFIFO p @ [i]) (insert i (abandoned p)) = (fifo, ab)" by force
  have "set (fst (evict xs a)) \<subseteq> set xs" for xs a
    by (induction xs a rule: evict.induct) auto
  from this [of "abandonedFIFO p @ [i]" "insert i (abandoned p)"] show ?thesis
    by (auto simp: noteAbandonedLocked_def e split: if_splits)
qed

lemma unsent_run:
  assumes "idle_at n p" "n + 1 < 2 ^ 64" "calls p k = None"
  shows "\<exists>p'. peer_run env (unsent k) p = Some p' \<and> idle_at (n + 1) p' \<and>
    owed_ids p' = newest maxAbandonedIDs (owed_ids p @ [n + 1]) \<and> (\<forall>k'. k' \<noteq> k \<longrightarrow> calls p' k' = calls p k')"
proof -
  have p: "\<not> pclosed p" "fatal p = None" "pinflight p < maxInflight p" "nextID p = n" "ppending p = (\<lambda>_. None)"
      "window_inv p" "\<forall>i \<in> set (abandonedFIFO p). i \<le> n"
    using assms(1) by (auto simp: idle_at_def)
  define g where "g = \<lparr>gMethod = ''module.http'', gParams = None, gID = Some (n + 1), gPc = PcPrepare, gChan = None,
      gWrite = WNone, gAnswer = None, gRet = None\<rparr>"
  define q where "q = p\<lparr>pinflight := pinflight p + 1, nextID := n + 1, ppending := (\<lambda>_. None), calls := (calls p)(k \<mapsto> g)\<rparr>"
  have note_same: "noteAbandonedLocked (n + 1) q = q\<lparr>abandoned := abandoned (noteAbandonedLocked (n + 1) q),
      abandonedFIFO := abandonedFIFO (noteAbandonedLocked (n + 1) q)\<rparr>"
    by (simp add: noteAbandonedLocked_def split: prod.splits)
  have q: "window_inv q" "owed_ids q = owed_ids p" "abandonedFIFO q = abandonedFIFO p"
    using p(6) by (simp_all add: q_def window_inv_def owed_ids_def)
  have new: "n + 1 \<notin> set (abandonedFIFO q)" using p(7) q(3) by auto
  note win = abandoned_window_note [OF q(1) new]
  have mod: "(n + 1) mod 2 ^ 64 = n + 1" using assms(2) by simp
  let ?p' = "(noteAbandonedLocked (n + 1) q)\<lparr>pinflight := pinflight p,
      calls := (calls p)(k \<mapsto> g\<lparr>gPc := PcReturned, gRet := Some (Inl MarshalError)\<rparr>)\<rparr>"
  have "peer_run env (unsent k) p = Some ?p'"
    using assms(3) p(1-5) mod note_same
    by (simp add: unsent_def peer_step_def call_entry_def call_turn_def call_alloc_def call_register_def call_prepare_def
        call_return_def is_writing_def Let_def q_def g_def noteAbandonedLocked_def split: prod.splits)
  moreover have "idle_at (n + 1) ?p'"
  proof -
    have "pclosed q = pclosed p" "fatal q = fatal p" "maxInflight q = maxInflight p" "nextID q = n + 1" "ppending q = (\<lambda>_. None)"
      by (simp_all add: q_def)
    moreover have "\<forall>i \<in> set (abandonedFIFO (noteAbandonedLocked (n + 1) q)). i \<le> n + 1"
      using p(7) note_fifo [of "n + 1" q] unfolding q(3) by fastforce
    ultimately show ?thesis
      using p(1-3) win(1) by (simp add: idle_at_def window_inv_def)
  qed
  ultimately show ?thesis using win q by (auto simp: owed_ids_def)
qed

lemma peer_run_append:
  "peer_run env (es @ es') p = (case peer_run env es p of None \<Rightarrow> None | Some p1 \<Rightarrow> peer_run env es' p1)"
  by (induction es arbitrary: p) (auto split: option.splits)

lemma newest_newest: "newest n (newest n xs @ ys) = newest n (xs @ ys)"
  by (cases "n \<le> length xs") (simp_all add: newest_def drop_append add.commute)

lemma unsent_runs:
  assumes "idle_at n p" "n + length ks < 2 ^ 64" "distinct ks" "\<forall>k \<in> set ks. calls p k = None"
    and "length (owed_ids p) \<le> maxAbandonedIDs"
  shows "\<exists>p'. peer_run env (concat (map unsent ks)) p = Some p' \<and> idle_at (n + length ks) p' \<and>
    owed_ids p' = newest maxAbandonedIDs (owed_ids p @ [n + 1..<n + 1 + length ks])"
  using assms
proof (induction ks arbitrary: n p)
  case (Cons k ks)
  obtain p1 where p1: "peer_run env (unsent k) p = Some p1" "idle_at (n + 1) p1"
      "owed_ids p1 = newest maxAbandonedIDs (owed_ids p @ [n + 1])" "\<forall>k'. k' \<noteq> k \<longrightarrow> calls p1 k' = calls p k'"
    using unsent_run [of n p k env] Cons.prems by auto
  have "\<forall>k \<in> set ks. calls p1 k = None" using p1(4) Cons.prems(3,4) by auto
  moreover have "length (owed_ids p1) \<le> maxAbandonedIDs" unfolding p1(3) by (simp add: newest_def)
  ultimately obtain p' where p': "peer_run env (concat (map unsent ks)) p1 = Some p'" "idle_at (n + 1 + length ks) p'"
      "owed_ids p' = newest maxAbandonedIDs (owed_ids p1 @ [n + 1 + 1..<n + 1 + 1 + length ks])"
    using Cons.IH [OF p1(2)] Cons.prems by auto
  have "[n + 1..<n + 1 + length (k # ks)] = [n + 1] @ [n + 1 + 1..<n + 1 + 1 + length ks]"
    by (simp add: upt_conv_Cons del: upt_Suc)
  then have "owed_ids p' = newest maxAbandonedIDs (owed_ids p @ [n + 1..<n + 1 + length (k # ks)])"
    unfolding p'(3) p1(3) newest_newest by (simp only: append_assoc)
  then show ?case using p1(1) p'(1,2) by (simp add: peer_run_append del: upt_Suc)
qed (simp add: newest_def)

text \<open>One call is sent and given up; its answer is still to come.\<close>

definition slow_call :: "pev list" where
  "slow_call =
     [EvCall 0 ''module.http'' (Some []) False, EvAlloc 0, EvRegister 0, EvPrepare 0 False, EvWrite 0 WWhole, EvWrote 0,
      EvStop 0 StopCtx]"

lemma slow_call_run:
  "\<exists>p. peer_run free_env slow_call (NewPeer 0 0 {}) = Some p \<and> idle_at 1 p \<and> owed_ids p = [1] \<and> (\<forall>k > 0. calls p k = None)"
  by (simp add: slow_call_def peer_step_def call_entry_def call_turn_def call_alloc_def call_register_def call_prepare_def
      call_wrote_def call_return_def stop_error_def can_write_def free_env_def is_writing_def peer_write_def call_frame_def
      Let_def NewPeer_def noteAbandonedLocked_def maxAbandonedIDs_def DefaultMaxInflight_def idle_at_def window_inv_def
      owed_ids_def)

text \<open>C28. A call is sent and given up, and then 1024 calls fail locally because their parameters do not marshal: nothing
  of them is ever sent. The answer of the first, from a counterparty that did nothing wrong, then faults the peer,
  because the calls that were never sent took its place among the ids still owed a response.\<close>

theorem unsent_calls_fault_peer:
  "\<exists>p. peer_run free_env (slow_call @ concat (map unsent [1..<1 + maxAbandonedIDs])) (NewPeer 0 0 {}) = Some p \<and> fatal p = None \<and>
     fatal (dispatch free_env j (NewSuccessResponse 1 res) p) = Some (ErrInvalidFrame ''unsolicited response'')"
proof -
  obtain p0 where p0: "peer_run free_env slow_call (NewPeer 0 0 {}) = Some p0" "idle_at 1 p0" "owed_ids p0 = [1]"
      "\<forall>k > 0. calls p0 k = None" using slow_call_run by blast
  have len: "length (owed_ids p0) \<le> maxAbandonedIDs" "1 + length [1..<1 + maxAbandonedIDs] < 2 ^ 64"
    unfolding p0(3) length_upt by (simp_all add: maxAbandonedIDs_def)
  obtain p where p: "peer_run free_env (concat (map unsent [1..<1 + maxAbandonedIDs])) p0 = Some p"
      "idle_at (1 + maxAbandonedIDs) p" "owed_ids p = newest maxAbandonedIDs ([1] @ [2..<2 + maxAbandonedIDs])"
    using unsent_runs [OF p0(2) len(2) _ _ len(1), of free_env] p0(3,4)
    unfolding length_upt by (auto simp del: upt_Suc simp: numeral_2_eq_2)
  have win: "window_inv p" "ppending p 1 = None" "\<not> pclosed p" "fatal p = None" using p(2) by (auto simp: idle_at_def)
  have "owed_ids p = [2..<2 + maxAbandonedIDs]" unfolding p(3) by (simp add: newest_def del: upt_Suc)
  then have "abandoned p = {2..<2 + maxAbandonedIDs}" using owed_set(1) [OF win(1)] by (simp only: set_upt)
  then have "1 \<notin> abandoned p" by simp
  then have "fatal (dispatch free_env j (NewSuccessResponse 1 res) p) = Some (ErrInvalidFrame ''unsolicited response'')"
    using win by (simp add: dispatch_def NewSuccessResponse_def IsRequest_def IsNotification_def IsResponse_def
        deliverResponse_def IDValue_def setFatal_def)
  then show ?thesis using p0(1) p(1) win(4) by (auto simp: peer_run_append)
qed

end
