(* ===== verification/ModuleLink.thy ===== *)
theory ModuleLink
  imports PeerWindow
begin

text \<open>
  Two peers joined by a transport: the host and a module process. Each side runs the events of
  \<open>peer_step\<close>; the frames it writes queue on the wire to the other side, whose read loop takes them in
  order. Either side may be reading, serving, calling, failing or closing at any point.

  The invariant follows each request id of one direction: it is in one place only, with the caller's unsent request,
  on the wire, with the goroutine that serves it, or in the answer on the wire back, and the caller still knows it.
\<close>

section \<open>The pair\<close>

record Link =
  sideA :: Peer
  sideB :: Peer
  wireAB :: "Frame list"
  wireBA :: "Frame list"

definition endpoint_step ::
  "peer_env \<Rightarrow> pev \<Rightarrow> Peer \<Rightarrow> Frame list \<Rightarrow> Frame list \<Rightarrow> (Peer \<times> Frame list \<times> Frame list) option"
where
  "endpoint_step env ev me out inn =
     (case peer_step env ev me of
        None \<Rightarrow> None
      | Some (p, fs) \<Rightarrow>
          (case ev of
             EvRead _ (Inr f) \<Rightarrow> (case inn of [] \<Rightarrow> None | g # rest \<Rightarrow> if g = f then Some (p, out @ fs, rest) else None)
           | _ \<Rightarrow> Some (p, out @ fs, inn)))"

datatype side = SideA | SideB

definition link_step :: "peer_env \<Rightarrow> peer_env \<Rightarrow> side \<times> pev \<Rightarrow> Link \<Rightarrow> Link option" where
  "link_step ea eb act s =
     (case act of
        (SideA, ev) \<Rightarrow>
          map_option (\<lambda>(p, out, inn). s\<lparr>sideA := p, wireAB := out, wireBA := inn\<rparr>)
            (endpoint_step ea ev (sideA s) (wireAB s) (wireBA s))
      | (SideB, ev) \<Rightarrow>
          map_option (\<lambda>(p, out, inn). s\<lparr>sideB := p, wireBA := out, wireAB := inn\<rparr>)
            (endpoint_step eb ev (sideB s) (wireBA s) (wireAB s)))"

text \<open>The states of a run, the first included; \<^term>\<open>None\<close> when an event was not possible.\<close>

fun link_run :: "peer_env \<Rightarrow> peer_env \<Rightarrow> (side \<times> pev) list \<Rightarrow> Link \<Rightarrow> Link list option" where
  "link_run ea eb [] s = Some [s]"
| "link_run ea eb (a # acts) s =
     (case link_step ea eb a s of
        None \<Rightarrow> None
      | Some s1 \<Rightarrow> map_option (\<lambda>ss. s # ss) (link_run ea eb acts s1))"

definition NewLink :: "Peer \<Rightarrow> Peer \<Rightarrow> Link" where
  "NewLink a b = \<lparr>sideA = a, sideB = b, wireAB = [], wireBA = []\<rparr>"

section \<open>Where a request is\<close>

text \<open>The frame a serving goroutine carries: the request it serves or the response it will write.\<close>

fun load :: "srv \<Rightarrow> Frame option" where
  "load (SNew f) = Some f"
| "load (SRun f _) = Some f"
| "load (SResp r) = Some r"
| "load (SWrite r) = Some r"
| "load (SHold r) = Some r"
| "load (SNote _) = None"

fun serves :: "srv \<Rightarrow> bool" where
  "serves (SNew _) = True"
| "serves (SRun _ _) = True"
| "serves _ = False"

definition unsent_call :: "CallG \<Rightarrow> bool" where
  "unsent_call g \<longleftrightarrow> gPc g = PcRegister \<or> gPc g = PcPrepare \<or> gWrite g = WParked"

definition ids_in :: "nat \<Rightarrow> Frame list \<Rightarrow> nat" where
  "ids_in i fs = length (filter (\<lambda>f. ID f = Some i) fs)"

definition call_at :: "nat \<Rightarrow> CallG \<Rightarrow> bool" where "call_at i g \<longleftrightarrow> unsent_call g \<and> gID g = Some i"

definition load_at :: "nat \<Rightarrow> srv \<Rightarrow> bool" where "load_at i s \<longleftrightarrow> (\<exists>f. load s = Some f \<and> ID f = Some i)"

text \<open>How many places hold the request or the answer with id \<open>i\<close>, for the calls of \<open>p\<close> on
  \<open>q\<close> with the requests \<open>rq\<close> and the responses \<open>rs\<close> on the wires.\<close>

definition tok :: "Peer \<Rightarrow> Peer \<Rightarrow> Frame list \<Rightarrow> Frame list \<Rightarrow> nat \<Rightarrow> nat" where
  "tok p q rq rs i = cnt (call_at i) (calls p) + ids_in i rq + cnt (load_at i) (serving q) + ids_in i rs"

text \<open>Which answers a served request may get.\<close>

definition reply_ok :: "peer_env \<Rightarrow> Frame \<Rightarrow> Frame \<Rightarrow> bool" where
  "reply_ok env f r \<longleftrightarrow>
     (\<exists>out. handles env (fmethod f) (Params f) out \<and> r = handler_response (IDValue f) out) \<or>
     (\<exists>e. gates env (fmethod f) (Some e) \<and> r = NewErrorResponse (IDValue f) (ecode e) (emessage e) (edata e)) \<or>
     r = NewErrorResponse (IDValue f) CodeMethodNotFound (''method not found: '' @ fmethod f) [] \<or>
     r = NewErrorResponse (IDValue f) CodeInflightCap ''serve inflight cap reached'' [] \<or>
     (fmethod f = MethodCancel \<and> r = NewSuccessResponse (IDValue f) [])"

lemma response_fields [simp]:
  "ID (NewErrorResponse i c m d) = Some i" "IsResponse (NewErrorResponse i c m d)"
  "ID (NewSuccessResponse i res) = Some i" "IsResponse (NewSuccessResponse i res)"
  by (simp_all add: frame_constructors IsResponse_def)

lemma handler_response_fields [simp]: "ID (handler_response i out) = Some i" "IsResponse (handler_response i out)"
  by (cases out; simp add: handler_response_def split: option.splits)+

lemma reply_frame: "reply_ok env f r \<Longrightarrow> ID r = Some (IDValue f)" "reply_ok env f r \<Longrightarrow> IsResponse r"
  by (auto simp: reply_ok_def)

lemma call_frame_fields [simp]:
  "ID (call_frame g) = Some (case gID g of None \<Rightarrow> 0 | Some i \<Rightarrow> i)" "fmethod (call_frame g) = gMethod g"
  "Params (call_frame g) = (case gParams g of None \<Rightarrow> [] | Some ps \<Rightarrow> ps)"
  by (simp_all add: call_frame_def NewRequest_def)

definition known :: "Peer \<Rightarrow> Frame \<Rightarrow> CallG \<Rightarrow> bool" where
  "known p f g \<longleftrightarrow> (\<exists>k. calls p k = Some g \<and> gID g = ID f \<and> ID f \<noteq> None)"

definition ids_inv :: "Peer \<Rightarrow> bool" where
  "ids_inv p \<longleftrightarrow>
     (\<forall>k g i. calls p k = Some g \<longrightarrow> gID g = Some i \<longrightarrow>
        0 < i \<and> i \<le> nextID p \<and> gMethod g \<noteq> [] \<and> (\<forall>k' g'. calls p k' = Some g' \<longrightarrow> gID g' = Some i \<longrightarrow> k' = k))"

definition pending_inv :: "Peer \<Rightarrow> bool" where
  "pending_inv p \<longleftrightarrow>
     (\<forall>i k. ppending p i = Some k \<longrightarrow>
        (\<exists>g. calls p k = Some g \<and> gID g = Some i \<and> gChan g = None \<and> gAnswer g = None \<and>
             (gPc g = PcPrepare \<or> gPc g = PcSelect)))"

definition owed_inv :: "Peer \<Rightarrow> (nat \<Rightarrow> nat) \<Rightarrow> bool" where
  "owed_inv p tk \<longleftrightarrow>
     (\<forall>i. tk i \<le> 1 \<and>
        (0 < tk i \<longrightarrow> ppending p i \<noteq> None \<or> i \<in> abandoned p \<or>
           (\<exists>k g. calls p k = Some g \<and> gID g = Some i \<and> gPc g = PcRegister)))"

definition request_inv :: "Peer \<Rightarrow> Frame \<Rightarrow> bool" where
  "request_inv p f \<longleftrightarrow> (\<exists>g. known p f g \<and> f = call_frame g)"

definition response_inv :: "peer_env \<Rightarrow> Peer \<Rightarrow> Frame \<Rightarrow> bool" where
  "response_inv env p r \<longleftrightarrow> (\<exists>g. known p r g \<and> reply_ok env (call_frame g) r)"

definition answer_inv :: "peer_env \<Rightarrow> CallG \<Rightarrow> bool" where
  "answer_inv env g \<longleftrightarrow>
     (\<forall>f. gChan g = Some f \<or> gAnswer g = Some f \<longrightarrow> reply_ok env (call_frame g) f) \<and>
     (\<forall>res. gRet g = Some (Inr res) \<longrightarrow> (\<exists>f. reply_ok env (call_frame g) f \<and> answerResult f = Inr res))"

definition not_lost :: "Peer \<Rightarrow> Peer \<Rightarrow> (nat \<Rightarrow> nat) \<Rightarrow> bool" where
  "not_lost p q tk \<longleftrightarrow>
     (\<forall>i k g. ppending p i = Some k \<longrightarrow> calls p k = Some g \<longrightarrow> fatal p = None \<longrightarrow> fatal q = None \<longrightarrow>
        (\<forall>e. gWrite g \<noteq> WDone (Some e)) \<longrightarrow> 0 < tk i)"

definition begun :: "CallG \<Rightarrow> bool" where
  "begun g \<longleftrightarrow> gMethod g \<noteq> [] \<and> gChan g = None \<and> gAnswer g = None \<and> gRet g = None \<and> gWrite g = WNone"

definition early_inv :: "CallG \<Rightarrow> bool" where
  "early_inv g \<longleftrightarrow> (gPc g = PcAlloc \<longrightarrow> begun g) \<and> (gPc g = PcRegister \<or> gPc g = PcPrepare \<longrightarrow> gWrite g = WNone) \<and>
     (gPc g = PcRegister \<longrightarrow> gChan g = None \<and> gAnswer g = None)"

definition dir_inv :: "peer_env \<Rightarrow> Peer \<Rightarrow> Peer \<Rightarrow> Frame list \<Rightarrow> Frame list \<Rightarrow> bool" where
  "dir_inv env p q rq rs \<longleftrightarrow>
     finite (dom (calls p)) \<and> finite (dom (serving q)) \<and> ids_inv p \<and> pending_inv p \<and>
     owed_inv p (tok p q rq rs) \<and> not_lost p q (tok p q rq rs) \<and>
     (\<forall>f \<in> set rq. request_inv p f) \<and> (\<forall>r \<in> set rs. response_inv env p r) \<and>
     (\<forall>j s f. serving q j = Some s \<longrightarrow> load s = Some f \<longrightarrow> (if serves s then request_inv p f else response_inv env p f)) \<and>
     (\<forall>k g. calls p k = Some g \<longrightarrow> answer_inv env g) \<and>
     (\<forall>k g. calls p k = Some g \<longrightarrow> early_inv g)"

section \<open>A step of the caller\<close>

lemma ids_in_simps [simp]: "ids_in i [] = 0" "ids_in i (xs @ ys) = ids_in i xs + ids_in i ys"
  "ids_in i (f # fs) = of_bool (ID f = Some i) + ids_in i fs"
  by (simp_all add: ids_in_def)

lemma known_upd:
  assumes "calls p k = Some g" "calls p' = (calls p)(k \<mapsto> g')" "gID g' = gID g" "call_frame g' = call_frame g"
  shows "request_inv p f \<Longrightarrow> request_inv p' f" "response_inv env p f \<Longrightarrow> response_inv env p' f"
proof -
  have "\<exists>h'. known p' f h' \<and> call_frame h' = call_frame h" if h: "known p f h" for h
  proof -
    obtain k0 where k0: "calls p k0 = Some h" "gID h = ID f" "ID f \<noteq> None" using h by (auto simp: known_def)
    show ?thesis
    proof (cases "k0 = k")
      case True
      then have "known p' f g'" using k0 assms by (auto simp: known_def)
      then show ?thesis using True k0(1) assms by auto
    next
      case False
      then have "known p' f h" using k0 assms(2) by (auto simp: known_def)
      then show ?thesis by auto
    qed
  qed
  then show "request_inv p f \<Longrightarrow> request_inv p' f" "response_inv env p f \<Longrightarrow> response_inv env p' f"
    unfolding request_inv_def response_inv_def by metis+
qed

lemma tok_call_upd:
  assumes "finite (dom (calls p))" "calls p k = Some g" "gID g = Some i" "calls p' = (calls p)(k \<mapsto> g')" "gID g' = Some i"
    and "em = [] \<or> em = [call_frame g]"
  shows "tok p' q (rq @ em) rs i + of_bool (unsent_call g) = tok p q rq rs i + of_bool (unsent_call g') + length em"
    and "i' \<noteq> i \<Longrightarrow> tok p' q (rq @ em) rs i' = tok p q rq rs i'"
proof -
  have "0 < cnt (call_at i) (calls p)" if "unsent_call g"
    using cnt_pos [of "calls p" k g "call_at i"] assms that by (simp add: call_at_def)
  then show "tok p' q (rq @ em) rs i + of_bool (unsent_call g) = tok p q rq rs i + of_bool (unsent_call g') + length em"
    using assms cnt_mod [of "calls p" k g "call_at i" g'] by (auto simp: tok_def call_at_def)
  show "tok p' q (rq @ em) rs i' = tok p q rq rs i'" if "i' \<noteq> i"
    using that assms cnt_mod [of "calls p" k g "call_at i'" g'] by (auto simp: tok_def call_at_def)
qed

lemma ids_unique: "ids_inv p \<Longrightarrow> calls p k = Some g \<Longrightarrow> gID g = Some i \<Longrightarrow> calls p k' = Some g' \<Longrightarrow> gID g' = Some i \<Longrightarrow> k' = k"
  and ids_range: "ids_inv p \<Longrightarrow> calls p k = Some g \<Longrightarrow> gID g = Some i \<Longrightarrow> 0 < i \<and> i \<le> nextID p \<and> gMethod g \<noteq> []"
  unfolding ids_inv_def by metis+

lemma pendingD:
  "pending_inv p \<Longrightarrow> ppending p i = Some k \<Longrightarrow>
     \<exists>g. calls p k = Some g \<and> gID g = Some i \<and> gChan g = None \<and> gAnswer g = None \<and> (gPc g = PcPrepare \<or> gPc g = PcSelect)"
  by (simp add: pending_inv_def)

lemma dir_inv_call:
  assumes inv: "dir_inv env p q rq rs" and g: "calls p k = Some g" "gID g = Some i"
    and p': "calls p' = (calls p)(k \<mapsto> g')" "nextID p' = nextID p" "ppending p' = (ppending p)(i := x)"
      "abandoned p \<subseteq> abandoned p'" "fatal p' = fatal p"
    and g': "gID g' = Some i" "gMethod g' = gMethod g" "gParams g' = gParams g" "answer_inv env g'" "early_inv g'"
    and x: "x = None \<or> (x = Some k \<and> gChan g' = None \<and> gAnswer g' = None \<and> (gPc g' = PcPrepare \<or> gPc g' = PcSelect))"
    and keep: "ppending p i \<noteq> None \<Longrightarrow> x \<noteq> None \<or> i \<in> abandoned p'" "gPc g = PcRegister \<Longrightarrow> x \<noteq> None"
    and em: "em = [] \<or> em = [call_frame g]" "of_bool (unsent_call g') + length em \<le> of_bool (unsent_call g)"
    and lost: "x \<noteq> None \<Longrightarrow> \<forall>e. gWrite g' \<noteq> WDone (Some e) \<Longrightarrow>
        (ppending p i = Some k \<and> (\<forall>e. gWrite g \<noteq> WDone (Some e)) \<or> unsent_call g) \<and>
        of_bool (unsent_call g') + length em = (of_bool (unsent_call g) :: nat)"
  shows "dir_inv env p' q (rq @ em) rs"
proof -
  have fin: "finite (dom (calls p))" "finite (dom (serving q))" and ids: "ids_inv p" and pend: "pending_inv p"
    and owed_ids: "owed_inv p (tok p q rq rs)" and nl: "not_lost p q (tok p q rq rs)"
    using inv by (auto simp: dir_inv_def)
  note tk = tok_call_upd [OF fin(1) g p'(1) g'(1) em(1), where q = q and rq = rq and rs = rs]
  have le: "tok p' q (rq @ em) rs i' \<le> tok p q rq rs i'" for i'
    using tk em(2) by (cases "i' = i") auto
  have cf: "call_frame g' = call_frame g" using g' g by (simp add: call_frame_def)
  have pk: "ppending p i' = Some k \<Longrightarrow> i' = i" for i' using pendingD [OF pend, of i' k] g by auto
  have only: "ppending p i = Some k' \<Longrightarrow> k' = k" for k' using pendingD [OF pend, of i k'] ids_unique [OF ids g] by auto
  have "ids_inv p'"
    unfolding ids_inv_def
  proof (intro allI impI)
    fix k1 h i1 assume h: "calls p' k1 = Some h" "gID h = Some i1"
    have "\<exists>h0. calls p k1 = Some h0 \<and> gID h0 = Some i1 \<and> gMethod h0 = gMethod h"
      using h g g'(1,2) by (cases "k1 = k") (auto simp: p'(1))
    then obtain h0 where h0: "calls p k1 = Some h0" "gID h0 = Some i1" "gMethod h0 = gMethod h" by auto
    have "k2 = k1" if "calls p' k2 = Some h2" "gID h2 = Some i1" for k2 h2
      using that g g'(1) ids_unique [OF ids h0(1,2), of k2] by (cases "k2 = k") (auto simp: p'(1))
    then show "0 < i1 \<and> i1 \<le> nextID p' \<and> gMethod h \<noteq> [] \<and> (\<forall>k' g'. calls p' k' = Some g' \<longrightarrow> gID g' = Some i1 \<longrightarrow> k' = k1)"
      using ids_range [OF ids h0(1,2)] h0(3) p'(2) by auto
  qed
  moreover have "pending_inv p'"
    unfolding pending_inv_def
  proof (intro allI impI)
    fix i1 k1 assume a: "ppending p' i1 = Some k1"
    show "\<exists>g. calls p' k1 = Some g \<and> gID g = Some i1 \<and> gChan g = None \<and> gAnswer g = None \<and> (gPc g = PcPrepare \<or> gPc g = PcSelect)"
    proof (cases "i1 = i")
      case True
      then show ?thesis using a x g'(1) by (auto simp: p'(1,3))
    next
      case False
      then have "ppending p i1 = Some k1" "k1 \<noteq> k" using a pk by (auto simp: p'(3))
      then show ?thesis using pendingD [OF pend, of i1 k1] by (simp add: p'(1))
    qed
  qed
  moreover have "owed_inv p' (tok p' q (rq @ em) rs)"
    unfolding owed_inv_def
  proof (intro allI conjI impI)
    fix i'
    have o: "tok p q rq rs i' \<le> 1" "0 < tok p q rq rs i' \<Longrightarrow> ppending p i' \<noteq> None \<or> i' \<in> abandoned p \<or>
        (\<exists>k g. calls p k = Some g \<and> gID g = Some i' \<and> gPc g = PcRegister)"
      using owed_ids by (auto simp: owed_inv_def)
    show "tok p' q (rq @ em) rs i' \<le> 1" using le [of i'] o(1) by simp
    assume "0 < tok p' q (rq @ em) rs i'"
    then consider "ppending p i' \<noteq> None" | "i' \<in> abandoned p"
      | k' h where "calls p k' = Some h" "gID h = Some i'" "gPc h = PcRegister"
      using o(2) le [of i'] by fastforce
    then show "ppending p' i' \<noteq> None \<or> i' \<in> abandoned p' \<or>
        (\<exists>k g. calls p' k = Some g \<and> gID g = Some i' \<and> gPc g = PcRegister)"
    proof cases
      case 1
      then show ?thesis using keep(1) by (cases "i' = i") (auto simp: p'(3))
    next
      case 2
      then show ?thesis using p'(4) by auto
    next
      case 3
      then show ?thesis
        using keep(2) g by (cases "k' = k") (auto simp: p'(1,3))
    qed
  qed
  moreover have "not_lost p' q (tok p' q (rq @ em) rs)"
    unfolding not_lost_def
  proof (intro allI impI)
    fix i' k' h
    assume h: "ppending p' i' = Some k'" "calls p' k' = Some h" "fatal p' = None" "fatal q = None"
      "\<forall>e. gWrite h \<noteq> WDone (Some e)"
    show "0 < tok p' q (rq @ em) rs i'"
    proof (cases "i' = i")
      case True
      then have "x = Some k'" using h(1) p'(3) by simp
      then have k': "k' = k" "x \<noteq> None" using x by auto
      then have "h = g'" using h(2) p'(1) by simp
      then have l: "ppending p i = Some k \<and> (\<forall>e. gWrite g \<noteq> WDone (Some e)) \<or> unsent_call g"
        "of_bool (unsent_call g') + length em = (of_bool (unsent_call g) :: nat)"
        using lost [OF k'(2)] h(5) by auto
      then have same: "tok p' q (rq @ em) rs i = tok p q rq rs i" using tk(1) by linarith
      show ?thesis
      proof (cases "unsent_call g")
        case True
        then have "0 < cnt (call_at i) (calls p)"
          using cnt_pos [of "calls p" k g "call_at i"] fin(1) g by (simp add: call_at_def)
        then have "0 < tok p q rq rs i" by (simp add: tok_def)
        then show ?thesis using same \<open>i' = i\<close> by simp
      next
        case False
        then have "ppending p i = Some k" "\<forall>e. gWrite g \<noteq> WDone (Some e)" using l(1) by auto
        then show ?thesis
          using nl g(1) h(3,4) p'(5) same \<open>i' = i\<close> unfolding not_lost_def by auto
      qed
    next
      case False
      then have "ppending p i' = Some k'" "k' \<noteq> k" using h(1) p'(3) pk by auto
      then have "0 < tok p q rq rs i'"
        using nl h(2-5) p'(1,5) unfolding not_lost_def by auto
      then show ?thesis using tk(2) [OF False] by simp
    qed
  qed
  moreover have "\<forall>f \<in> set (rq @ em). request_inv p' f"
  proof -
    have "request_inv p (call_frame g)" using g by (auto simp: request_inv_def known_def)
    then show ?thesis using inv em(1) known_upd(1) [OF g(1) p'(1) _ cf] g(2) g'(1) by (auto simp: dir_inv_def)
  qed
  ultimately show ?thesis
    using inv p'(1) g'(4,5) known_upd [OF g(1) p'(1) _ cf] g(2) g'(1) unfolding dir_inv_def by (auto split: if_splits)
qed

section \<open>A step of the server\<close>

lemma cnt_upd:
  assumes "finite (dom m)"
  shows "cnt P (m(j := x)) + of_bool (\<exists>s. m j = Some s \<and> P s) = cnt P m + of_bool (\<exists>s. x = Some s \<and> P s)"
proof (cases "m j")
  case None
  then show ?thesis using assms by (cases x) (auto simp: cnt_new fun_upd_idem)
next
  case (Some u)
  have "0 < cnt P m" if "P u" using cnt_pos [of m j u P] assms Some that by simp
  then show ?thesis using assms Some by (cases x) (auto simp: cnt_simps)
qed

lemma inv_calls_same:
  assumes "calls p' = calls p"
  shows "request_inv p' f = request_inv p f" "response_inv env p' f = response_inv env p f"
  using assms by (simp_all add: request_inv_def response_inv_def known_def)

definition at_load :: "nat \<Rightarrow> srv option \<Rightarrow> nat" where
  "at_load i x = of_bool (\<exists>s. x = Some s \<and> load_at i s)"

lemma dir_inv_serve:
  assumes inv: "dir_inv env p q (rd @ rq) rs"
    and q': "serving q' = (serving q)(j := x)" "fatal q' = None \<Longrightarrow> fatal q = None"
    and tk: "\<And>i. at_load i x + ids_in i em \<le> at_load i (serving q j) + ids_in i rd"
      "\<And>i. fatal q' = None \<Longrightarrow> at_load i x + ids_in i em = at_load i (serving q j) + ids_in i rd"
    and new: "\<And>s f. x = Some s \<Longrightarrow> load s = Some f \<Longrightarrow> (if serves s then request_inv p f else response_inv env p f)"
      "\<And>r. r \<in> set em \<Longrightarrow> response_inv env p r"
  shows "dir_inv env p q' rq (rs @ em)"
proof -
  have fin: "finite (dom (calls p))" "finite (dom (serving q))" and pend: "pending_inv p"
    and owed_ids: "owed_inv p (tok p q (rd @ rq) rs)" and nl: "not_lost p q (tok p q (rd @ rq) rs)"
    using inv by (auto simp: dir_inv_def)
  have bal: "tok p q' rq (rs @ em) i + at_load i (serving q j) + ids_in i rd = tok p q (rd @ rq) rs i + at_load i x + ids_in i em" for i
    using cnt_upd [OF fin(2), of "load_at i" j x] by (simp add: tok_def q'(1) at_load_def)
  have le: "tok p q' rq (rs @ em) i \<le> tok p q (rd @ rq) rs i" for i using bal [of i] tk(1) [of i] by linarith
  have eq: "tok p q' rq (rs @ em) i = tok p q (rd @ rq) rs i" if "fatal q' = None" for i using bal [of i] tk(2) [OF that, of i] by linarith
  have "owed_inv p (tok p q' rq (rs @ em))"
    using owed_ids le unfolding owed_inv_def by (meson le_trans less_le_trans)
  moreover have "not_lost p q' (tok p q' rq (rs @ em))"
    using nl eq q'(2) unfolding not_lost_def by metis
  moreover have "finite (dom (serving q'))" using fin(2) by (cases x) (simp_all add: q'(1))
  ultimately show ?thesis
    using inv new unfolding dir_inv_def q'(1) by (auto split: if_splits)
qed

text \<open>Steps that move no request of this direction.\<close>

definition same_loads :: "Peer \<Rightarrow> Peer \<Rightarrow> bool" where
  "same_loads q' q \<longleftrightarrow>
     (\<forall>j. map_option (\<lambda>s. (load s, serves s)) (serving q' j) = map_option (\<lambda>s. (load s, serves s)) (serving q j))"

lemma same_loadsD:
  "same_loads q' q \<Longrightarrow> serving q' j = Some s' \<Longrightarrow> \<exists>s. serving q j = Some s \<and> load s = load s' \<and> serves s = serves s'"
  unfolding same_loads_def by (drule spec [of _ j]) (cases "serving q j"; simp)

lemma same_loads_sym: "same_loads q' q \<Longrightarrow> same_loads q q'"
  by (simp add: same_loads_def)

lemma dir_inv_same:
  assumes inv: "dir_inv env p q rq rs"
    and p': "calls p' = calls p" "ppending p' = ppending p" "abandoned p' = abandoned p" "nextID p' = nextID p"
      "fatal p' = None \<Longrightarrow> fatal p = None"
    and q': "same_loads q' q" "fatal q' = None \<Longrightarrow> fatal q = None"
  shows "dir_inv env p' q' rq rs"
proof -
  have sets: "{k. \<exists>v. serving q' k = Some v \<and> load_at i v} = {k. \<exists>v. serving q k = Some v \<and> load_at i v}" for i
  proof -
    have "load_at i v = load_at i u" if "load v = load u" for v u using that by (simp add: load_at_def)
    then show ?thesis
      using same_loadsD [OF q'(1)] same_loadsD [OF same_loads_sym [OF q'(1)]] by (intro Collect_cong) metis
  qed
  have tok: "tok p' q' rq rs = tok p q rq rs"
    by (rule ext) (simp add: tok_def cnt_def p'(1) sets)
  have dom: "dom (serving q') = dom (serving q)"
    using same_loadsD [OF q'(1)] same_loadsD [OF same_loads_sym [OF q'(1)]] unfolding dom_def by blast
  have "not_lost p' q' (tok p q rq rs)"
    using inv p'(5) q'(2) unfolding dir_inv_def not_lost_def p'(1,2) by blast
  moreover have "(if serves s then request_inv p f else response_inv env p f)"
    if a: "serving q' j = Some s" "load s = Some f" for j s f
  proof -
    obtain s0 where "serving q j = Some s0" "load s0 = load s" "serves s0 = serves s"
      using same_loadsD [OF q'(1) a(1)] by auto
    then show ?thesis using a(2) inv unfolding dir_inv_def by metis
  qed
  moreover have "ids_inv p' = ids_inv p" "pending_inv p' = pending_inv p" "owed_inv p' (tok p q rq rs) = owed_inv p (tok p q rq rs)"
    by (simp_all only: ids_inv_def pending_inv_def owed_inv_def p'(1-4))
  ultimately show ?thesis
    using inv dom unfolding dir_inv_def tok inv_calls_same [OF p'(1)] p'(1) by auto
qed

text \<open>An answer reaches the caller.\<close>

lemma dir_inv_deliver:
  assumes inv: "dir_inv env p q rq (f # rs)" and f: "IsResponse f" and ok: "fatal p = None"
  shows "dir_inv env (deliverResponse f p) q rq rs \<and> fatal (deliverResponse f p) = None"
proof -
  have fin: "finite (dom (calls p))" and ids: "ids_inv p" and pend: "pending_inv p"
    and owed_ids: "owed_inv p (tok p q rq (f # rs))" and nl: "not_lost p q (tok p q rq (f # rs))"
    and rsp: "response_inv env p f"
    using inv by (auto simp: dir_inv_def)
  obtain i where i: "ID f = Some i" using f by (auto simp: IsResponse_def)
  then have iv: "IDValue f = i" by (simp add: IDValue_def)
  obtain k g where g: "calls p k = Some g" "gID g = Some i" "reply_ok env (call_frame g) f"
    using rsp i by (auto simp: response_inv_def known_def)
  have t1: "tok p q rq (f # rs) i = Suc (tok p q rq rs i)" using i by (simp add: tok_def)
  have t0: "tok p q rq rs i = 0" and one: "tok p q rq (f # rs) i = 1"
    using owed_ids t1 unfolding owed_inv_def by (metis One_nat_def Suc_le_mono le_zero_eq)+
  have ti: "tok p q rq (f # rs) i' = tok p q rq rs i'" if "i' \<noteq> i" for i' using that i by (simp add: tok_def)
  have noreg: "gPc h \<noteq> PcRegister" if "calls p k' = Some h" "gID h = Some i" for k' h
  proof
    assume "gPc h = PcRegister"
    then have "0 < cnt (call_at i) (calls p)"
      using cnt_pos [of "calls p" k' h "call_at i"] that fin by (simp add: call_at_def unsent_call_def)
    then show False using t0 by (simp add: tok_def)
  qed
  have where_: "ppending p i \<noteq> None \<or> i \<in> abandoned p"
    using owed_ids one noreg unfolding owed_inv_def by (metis zero_less_one)
  have base: "dir_inv env p1 q rq rs"
    if "calls p1 = calls p" "nextID p1 = nextID p" "fatal p1 = fatal p" "ppending p1 = ppending p" "ppending p i = None"
      "abandoned p1 = abandoned p - {i}" for p1
  proof -
    have tk: "tok p1 q rq rs = tok p q rq rs" by (rule ext) (simp add: tok_def that(1))
    have "owed_inv p1 (tok p q rq rs)"
      unfolding owed_inv_def
    proof (intro allI conjI impI)
      fix i' show "tok p q rq rs i' \<le> 1" using owed_ids ti t0 unfolding owed_inv_def by (cases "i' = i") (auto, metis One_nat_def)
      assume "0 < tok p q rq rs i'"
      moreover from this have "i' \<noteq> i" using t0 by auto
      ultimately have "i' \<noteq> i" "0 < tok p q rq (f # rs) i'" using ti by auto
      then show "ppending p1 i' \<noteq> None \<or> i' \<in> abandoned p1 \<or> (\<exists>k g. calls p1 k = Some g \<and> gID g = Some i' \<and> gPc g = PcRegister)"
        using owed_ids that unfolding owed_inv_def by auto
    qed
    moreover have "not_lost p1 q (tok p q rq rs)"
      using nl ti that unfolding not_lost_def by (metis option.distinct(1))
    moreover have "ids_inv p1 = ids_inv p" "pending_inv p1 = pending_inv p"
      by (simp_all only: ids_inv_def pending_inv_def that(1,2,4))
    ultimately show ?thesis
      using inv unfolding dir_inv_def tk inv_calls_same [OF that(1)] that(1) by auto
  qed
  show ?thesis
  proof (cases "ppending p i")
    case None
    then have "deliverResponse f p = p\<lparr>abandoned := abandoned p - {i}\<rparr>"
      using where_ iv by (simp add: deliverResponse_def)
    then show ?thesis using base [of "p\<lparr>abandoned := abandoned p - {i}\<rparr>"] None ok by simp
  next
    case (Some k')
    have k': "k' = k" using pendingD [OF pend Some] ids_unique [OF ids g(1,2)] by auto
    have nosend: "\<not> unsent_call g"
    proof
      assume "unsent_call g"
      then have "0 < cnt (call_at i) (calls p)"
        using cnt_pos [of "calls p" k g "call_at i"] g fin by (simp add: call_at_def)
      then show False using t0 by (simp add: tok_def)
    qed
    let ?g = "g\<lparr>gChan := Some f\<rparr>"
    let ?p = "p\<lparr>ppending := (ppending p)(i := None), calls := (calls p)(k \<mapsto> ?g)\<rparr>"
    have d: "deliverResponse f p = ?p" using iv Some g(1) k' by (simp add: deliverResponse_def)
    have nosend': "\<not> unsent_call ?g" using nosend by (simp add: unsent_call_def)
    have cf: "call_frame ?g = call_frame g" by (simp add: call_frame_def)
    have tk: "tok ?p q rq rs i' = tok p q rq rs i'" for i'
      using tok_call_upd [where p = p and k = k and g = g and i = i and p' = ?p and g' = ?g and em = "[]" and q = q and rq = rq and rs = rs]
        fin g nosend nosend' by (cases "i' = i") auto
    have kn: "request_inv p h \<Longrightarrow> request_inv ?p h" "response_inv env p h \<Longrightarrow> response_inv env ?p h" for h
      using known_upd [where p = p and k = k and g = g and p' = ?p and g' = ?g] g(1) cf by auto
    have "ids_inv ?p"
      unfolding ids_inv_def
    proof (intro allI impI)
      fix k1 h i1 assume h: "calls ?p k1 = Some h" "gID h = Some i1"
      have "\<exists>h0. calls p k1 = Some h0 \<and> gID h0 = Some i1 \<and> gMethod h0 = gMethod h"
        using h g by (cases "k1 = k") auto
      then obtain h0 where h0: "calls p k1 = Some h0" "gID h0 = Some i1" "gMethod h0 = gMethod h" by auto
      have "k2 = k1" if "calls ?p k2 = Some h2" "gID h2 = Some i1" for k2 h2
        using that g ids_unique [OF ids h0(1,2), of k2] by (cases "k2 = k") auto
      then show "0 < i1 \<and> i1 \<le> nextID ?p \<and> gMethod h \<noteq> [] \<and> (\<forall>k' g'. calls ?p k' = Some g' \<longrightarrow> gID g' = Some i1 \<longrightarrow> k' = k1)"
        using ids_range [OF ids h0(1,2)] h0(3) by auto
    qed
    moreover have "pending_inv ?p"
      unfolding pending_inv_def
    proof (intro allI impI)
      fix i1 k1 assume a: "ppending ?p i1 = Some k1"
      then have b: "ppending p i1 = Some k1" "i1 \<noteq> i" by (auto split: if_splits)
      then have "k1 \<noteq> k" using pendingD [OF pend b(1)] g by auto
      then show "\<exists>g. calls ?p k1 = Some g \<and> gID g = Some i1 \<and> gChan g = None \<and> gAnswer g = None \<and> (gPc g = PcPrepare \<or> gPc g = PcSelect)"
        using pendingD [OF pend b(1)] by simp
    qed
    moreover have "owed_inv ?p (tok ?p q rq rs)"
      unfolding owed_inv_def tk
    proof (intro allI conjI impI)
      fix i' show "tok p q rq rs i' \<le> 1" using owed_ids ti t0 unfolding owed_inv_def by (cases "i' = i") (auto, metis One_nat_def)
      assume "0 < tok p q rq rs i'"
      moreover from this have "i' \<noteq> i" using t0 by auto
      ultimately have i': "i' \<noteq> i" "0 < tok p q rq (f # rs) i'" using ti by auto
      then consider "ppending p i' \<noteq> None" | "i' \<in> abandoned p"
        | k1 h where "calls p k1 = Some h" "gID h = Some i'" "gPc h = PcRegister"
        using owed_ids unfolding owed_inv_def by blast
      then show "ppending ?p i' \<noteq> None \<or> i' \<in> abandoned ?p \<or> (\<exists>k g. calls ?p k = Some g \<and> gID g = Some i' \<and> gPc g = PcRegister)"
      proof cases
        case 3
        then have "k1 \<noteq> k" using i'(1) g by auto
        then show ?thesis using 3 by (intro disjI2 exI [of _ k1] exI [of _ h]) simp
      qed (use i' in auto)
    qed
    moreover have "not_lost ?p q (tok ?p q rq rs)"
      unfolding not_lost_def tk
    proof (intro allI impI)
      fix i' k1 h
      assume a: "ppending ?p i' = Some k1" "calls ?p k1 = Some h" "fatal ?p = None" "fatal q = None" "\<forall>e. gWrite h \<noteq> WDone (Some e)"
      then have b: "ppending p i' = Some k1" "i' \<noteq> i" by (auto split: if_splits)
      then have "k1 \<noteq> k" using pendingD [OF pend b(1)] g by auto
      then have "0 < tok p q rq (f # rs) i'" using nl a b unfolding not_lost_def by auto
      then show "0 < tok p q rq rs i'" using ti [OF b(2)] by simp
    qed
    moreover have "answer_inv env ?g"
      using inv g cf by (auto simp: dir_inv_def answer_inv_def)
    moreover have "early_inv ?g" using inv g(1) pendingD [OF pend Some] k' by (auto simp: dir_inv_def early_inv_def)
    ultimately show ?thesis
      using inv kn ok unfolding d dir_inv_def by (auto split: if_splits)
  qed
qed

section \<open>Events of the caller\<close>

lemma cnt_zero: "(\<And>k v. m k = Some v \<Longrightarrow> \<not> P v) \<Longrightarrow> cnt P m = 0"
proof -
  assume "\<And>k v. m k = Some v \<Longrightarrow> \<not> P v"
  then have "{k. \<exists>v. m k = Some v \<and> P v} = {}" by auto
  then show ?thesis by (simp only: cnt_def card.empty)
qed

lemma no_token_beyond:
  assumes "dir_inv env p q rq rs" "nextID p < i"
  shows "tok p q rq rs i = 0"
proof -
  have ids: "ids_inv p" using assms(1) by (simp add: dir_inv_def)
  have k: "i' \<le> nextID p" if "known p f g" "ID f = Some i'" for f g i'
    using that ids_range [OF ids] by (auto simp: known_def)
  have rq: "ID f \<noteq> Some i" if "f \<in> set rq" for f
    using that assms k by (fastforce simp: dir_inv_def request_inv_def)
  have rs: "ID f \<noteq> Some i" if "f \<in> set rs" for f
    using that assms k by (fastforce simp: dir_inv_def response_inv_def)
  have sv: "\<not> load_at i s" if "serving q j = Some s" for j s
  proof
    assume "load_at i s"
    then obtain f where f: "load s = Some f" "ID f = Some i" by (auto simp: load_at_def)
    then have "request_inv p f \<or> response_inv env p f"
      using assms(1) that unfolding dir_inv_def by (metis (full_types))
    then obtain g where "known p f g" unfolding request_inv_def response_inv_def by blast
    from k [OF this f(2)] show False using assms(2) by simp
  qed
  have "\<not> call_at i g" if "calls p k = Some g" for k g
    using ids_range [OF ids that] assms(2) by (auto simp: call_at_def)
  then have "cnt (call_at i) (calls p) = 0" "cnt (load_at i) (serving q) = 0"
    using sv cnt_zero by blast+
  then show ?thesis using rq rs by (auto simp: tok_def ids_in_def filter_empty_conv)
qed

lemma dir_inv_fresh:
  assumes inv: "dir_inv env p q rq rs" and old: "\<And>g. calls p k = Some g \<Longrightarrow> gID g = None"
    and p': "calls p' = (calls p)(k \<mapsto> g')" "ppending p' = ppending p" "abandoned p' = abandoned p" "fatal p' = fatal p"
    and g': "answer_inv env g'" "early_inv g'"
      "gID g' = None \<and> nextID p' = nextID p \<or>
       gID g' = Some (Suc (nextID p)) \<and> nextID p' = Suc (nextID p) \<and> gPc g' = PcRegister \<and> gMethod g' \<noteq> []"
  shows "dir_inv env p' q rq rs"
proof -
  have fin: "finite (dom (calls p))" and ids: "ids_inv p" and pend: "pending_inv p"
    and owed_ids: "owed_inv p (tok p q rq rs)" and nl: "not_lost p q (tok p q rq rs)"
    using inv by (auto simp: dir_inv_def)
  have nk: "k1 \<noteq> k" if "calls p k1 = Some h" "gID h = Some i" for k1 h i using old that by auto
  have kn: "known p' f h" if "known p f h" for f h
    using that nk unfolding known_def p'(1) by (metis fun_upd_other option.exhaust)
  have req: "request_inv p f \<Longrightarrow> request_inv p' f" "response_inv env p f \<Longrightarrow> response_inv env p' f" for f
    using kn unfolding request_inv_def response_inv_def by blast+
  have zero: "tok p q rq rs (Suc (nextID p)) = 0" using no_token_beyond [OF inv] by simp
  have tk: "tok p' q rq rs i = tok p q rq rs i + of_bool (call_at i g')" for i
  proof -
    have "(\<exists>s. calls p k = Some s \<and> call_at i s) = False" using old by (auto simp: call_at_def)
    from cnt_upd [OF fin, of "call_at i" k "Some g'", unfolded this] show ?thesis by (simp add: tok_def p'(1))
  qed
  have at: "call_at i g' \<Longrightarrow> i = Suc (nextID p) \<and> gID g' = Some i \<and> gPc g' = PcRegister" for i
    using g'(3) by (auto simp: call_at_def)
  have "ids_inv p'"
    unfolding ids_inv_def
  proof (intro allI impI)
    fix k1 h i1 assume h: "calls p' k1 = Some h" "gID h = Some i1"
    have new: "k1 = k" if "i1 = Suc (nextID p)"
      using h that ids_range [OF ids, of k1 h i1] by (cases "k1 = k") (auto simp: p'(1))
    have le: "i1 \<le> nextID p \<and> calls p k1 = Some h" if "i1 \<noteq> Suc (nextID p)"
      using h that g'(3) ids_range [OF ids, of k1 h i1] by (cases "k1 = k") (auto simp: p'(1))
    have uniq: "k2 = k1" if "calls p' k2 = Some h2" "gID h2 = Some i1" for k2 h2
    proof (cases "i1 = Suc (nextID p)")
      case True
      then have "k2 = k" using that ids_range [OF ids, of k2 h2 i1] by (cases "k2 = k") (auto simp: p'(1))
      then show ?thesis using new [OF True] by simp
    next
      case False
      then have "calls p k2 = Some h2" using that g'(3) by (cases "k2 = k") (auto simp: p'(1))
      then show ?thesis using le [OF False] ids_unique [OF ids _ h(2), of k1 k2] that(2) by auto
    qed
    show "0 < i1 \<and> i1 \<le> nextID p' \<and> gMethod h \<noteq> [] \<and> (\<forall>k' g'. calls p' k' = Some g' \<longrightarrow> gID g' = Some i1 \<longrightarrow> k' = k1)"
    proof (cases "i1 = Suc (nextID p)")
      case True
      have "h = g'" using new [OF True] h(1) by (simp add: p'(1))
      then have "0 < i1 \<and> i1 \<le> nextID p' \<and> gMethod h \<noteq> []" using h(2) True g'(3) by auto
      then show ?thesis using uniq by blast
    next
      case False
      then show ?thesis using le [OF False] ids_range [OF ids _ h(2), of k1] uniq g'(3) by auto
    qed
  qed
  moreover have "pending_inv p'"
    unfolding pending_inv_def p'(2)
  proof (intro allI impI)
    fix i1 k1 assume "ppending p i1 = Some k1"
    from pendingD [OF pend this] nk show "\<exists>g. calls p' k1 = Some g \<and> gID g = Some i1 \<and> gChan g = None \<and> gAnswer g = None \<and>
        (gPc g = PcPrepare \<or> gPc g = PcSelect)"
      unfolding p'(1) by (metis fun_upd_other)
  qed
  moreover have "owed_inv p' (tok p' q rq rs)"
    unfolding owed_inv_def
  proof (intro allI conjI impI)
    fix i show "tok p' q rq rs i \<le> 1"
      using owed_ids at [of i] zero unfolding tk owed_inv_def by (cases "call_at i g'") auto
    assume a: "0 < tok p' q rq rs i"
    show "ppending p' i \<noteq> None \<or> i \<in> abandoned p' \<or> (\<exists>k g. calls p' k = Some g \<and> gID g = Some i \<and> gPc g = PcRegister)"
    proof (cases "call_at i g'")
      case True
      then show ?thesis using at p'(1) by (intro disjI2 exI [of _ k] exI [of _ g']) simp
    next
      case False
      then have "0 < tok p q rq rs i" using a tk by simp
      then consider "ppending p i \<noteq> None" | "i \<in> abandoned p"
        | k1 h where "calls p k1 = Some h" "gID h = Some i" "gPc h = PcRegister"
        using owed_ids unfolding owed_inv_def by blast
      then show ?thesis
      proof cases
        case 3
        then show ?thesis using nk [OF 3(1,2)] p'(1) by (intro disjI2 exI [of _ k1] exI [of _ h]) simp
      qed (use p' in auto)
    qed
  qed
  moreover have "not_lost p' q (tok p' q rq rs)"
    unfolding not_lost_def p'(2)
  proof (intro allI impI)
    fix i k1 h
    assume a: "ppending p i = Some k1" "calls p' k1 = Some h" "fatal p' = None" "fatal q = None" "\<forall>e. gWrite h \<noteq> WDone (Some e)"
    obtain h0 where "calls p k1 = Some h0" "gID h0 = Some i" using pendingD [OF pend a(1)] by auto
    then have "calls p k1 = Some h" using nk a(2) by (auto simp: p'(1))
    then have "0 < tok p q rq rs i" using nl a p'(4) unfolding not_lost_def by metis
    then show "0 < tok p' q rq rs i" using tk by simp
  qed
  moreover have "finite (dom (calls p'))" using fin by (simp add: p'(1))
  moreover have "(if serves s then request_inv p' f else response_inv env p' f)"
    if "serving q j = Some s" "load s = Some f" for j s f
    using inv that req unfolding dir_inv_def by (metis (full_types))
  moreover have "answer_inv env h \<and> early_inv h" if "calls p' k1 = Some h" for k1 h
    using inv that g'(1,2) unfolding dir_inv_def by (cases "k1 = k") (auto simp: p'(1))
  ultimately show ?thesis
    using inv req unfolding dir_inv_def by blast
qed

lemma note_no_evict:
  assumes "card (abandoned p) < maxAbandonedIDs"
  shows "abandoned (noteAbandonedLocked i p) = insert i (abandoned p)"
proof -
  have "card (insert i (abandoned p)) \<le> Suc (card (abandoned p))" by (simp add: card_insert_le_m1 card_insert_if)
  then have "\<not> card (insert i (abandoned p)) > maxAbandonedIDs" using assms by simp
  then have "evict fifo (insert i (abandoned p)) = (fifo, insert i (abandoned p))" for fifo by (cases fifo) simp_all
  then show ?thesis by (simp add: noteAbandonedLocked_def)
qed

lemma call_return_abandoned:
  assumes "card (abandoned p) < maxAbandonedIDs"
  shows "abandoned (call_return k i g ret p) = (if ppending p i \<noteq> None then insert i (abandoned p) else abandoned p)"
    "fatal (call_return k i g ret p) = fatal p"
  using note_no_evict [of "p\<lparr>ppending := (ppending p)(i := None)\<rparr>" i] assms
  by (auto simp: call_return_def Let_def)

lemma dir_inv_return:
  assumes inv: "dir_inv env p q rq rs" and card: "card (abandoned p) < maxAbandonedIDs"
    and g: "calls p k = Some g0" "gID g0 = Some i" "gPc g0 = PcPrepare \<or> gPc g0 = PcSelect"
    and g1: "gID g = Some i" "gMethod g = gMethod g0" "gParams g = gParams g0" "gWrite g = WParked \<Longrightarrow> gWrite g0 = WParked"
      "answer_inv env (g\<lparr>gPc := PcReturned, gRet := Some ret\<rparr>)"
  shows "dir_inv env (call_return k i g ret p) q rq rs"
proof -
  note ab = call_return_abandoned [OF card, of k i g ret]
  have "dir_inv env (call_return k i g ret p) q (rq @ []) rs"
    by (rule dir_inv_call [OF inv g(1,2), where x = None])
      (use g g1 ab in \<open>auto simp: unsent_call_def early_inv_def\<close>)
  then show ?thesis by simp
qed

lemma answer_inv_cong:
  assumes "answer_inv env g" "call_frame g' = call_frame g" "gChan g' = gChan g" "gAnswer g' = gAnswer g"
    "\<And>res. gRet g' = Some (Inr res) \<Longrightarrow> gRet g = Some (Inr res)"
  shows "answer_inv env g'"
  using assms by (auto simp: answer_inv_def)

lemma call_frame_upd [simp]:
  "call_frame (g\<lparr>gPc := a\<rparr>) = call_frame g" "call_frame (g\<lparr>gWrite := b\<rparr>) = call_frame g"
  "call_frame (g\<lparr>gChan := c\<rparr>) = call_frame g" "call_frame (g\<lparr>gAnswer := c\<rparr>) = call_frame g"
  "call_frame (g\<lparr>gRet := d\<rparr>) = call_frame g"
  by (simp_all add: call_frame_def)

lemma caller_call_step:
  assumes st: "call_turn env0 ev k p = Some (p', fs)" and inv: "dir_inv env p q rq rs"
    and card: "card (abandoned p) < maxAbandonedIDs" and ids: "nextID p + 1 < 2 ^ 64"
  shows "dir_inv env p' q (rq @ fs) rs \<and> fatal p' = fatal p \<and> (\<forall>f \<in> set fs. IsRequest f) \<and> nextID p' \<le> Suc (nextID p)"
proof -
  obtain g where g: "calls p k = Some g" using st by (auto simp: call_turn_def split: option.splits)
  have ans: "answer_inv env g" "early_inv g" using inv g by (auto simp: dir_inv_def)
  have pend: "pending_inv p" and idi: "ids_inv p" using inv by (auto simp: dir_inv_def)
  show ?thesis
  proof (cases "gID g")
    case None
    then have p': "p' = call_alloc k g p" "fs = []" "gPc g = PcAlloc"
      using st g by (auto simp: call_turn_def split: pev.splits if_splits)
    have b: "begun g" using ans(2) p'(3) by (simp add: early_inv_def)
    have "dir_inv env p' q rq rs"
      by (rule dir_inv_fresh [OF inv, where k = k and g' = "g\<lparr>gID := Some (Suc (nextID p)), gPc := PcRegister\<rparr>"])
        (use g None p' ids b in \<open>auto simp: call_alloc_def Let_def answer_inv_def begun_def early_inv_def\<close>)
    then show ?thesis using p' ids by (simp add: call_alloc_def Let_def)
  next
    case (Some i)
    note upd = dir_inv_call [OF inv g Some]
    have px: "ppending p i = None \<or> (ppending p i = Some k \<and> gChan g = None \<and> gAnswer g = None \<and> (gPc g = PcPrepare \<or> gPc g = PcSelect))"
    proof (cases "ppending p i")
      case (Some k')
      then obtain g' where g': "calls p k' = Some g'" "gID g' = Some i" "gChan g' = None" "gAnswer g' = None"
          "gPc g' = PcPrepare \<or> gPc g' = PcSelect" using pendingD [OF pend Some] by auto
      have "k' = k" by (rule ids_unique [OF idi g \<open>gID g = Some i\<close> g'(1,2)])
      then show ?thesis using Some g g' by auto
    qed simp
    have req: "IsRequest (call_frame g)"
      using ids_range [OF idi g Some] by (simp add: IsRequest_def)
    have stop: "dir_inv env (call_return k i g (Inl e) p) q rq rs" if "gPc g = PcPrepare \<or> gPc g = PcSelect" for e
      by (rule dir_inv_return [OF inv card g Some that])
        (use Some in \<open>auto intro!: answer_inv_cong [OF ans(1)]\<close>)
    note ret = call_return_abandoned(2) [OF card]
    show ?thesis
    proof (cases ev)
      case (EvRegister _)
      then have p': "p' = call_register k i g p" "fs = []" and pc: "gPc g = PcRegister"
        using st g Some by (auto simp: call_turn_def split: if_splits)
      have "gChan g = None" "gAnswer g = None" using ans(2) pc by (auto simp: early_inv_def)
      then have "dir_inv env p' q (rq @ []) rs"
        by (intro upd [where x = "Some k" and g' = "g\<lparr>gPc := PcPrepare\<rparr>"])
          (use p' pc Some ans in \<open>auto simp: call_register_def unsent_call_def early_inv_def intro!: answer_inv_cong [OF ans(1)]\<close>)
      then show ?thesis using p' by (simp add: call_register_def)
    next
      case (EvPrepare _ c)
      then have p': "p' = call_prepare k i g c p" "fs = []" and pc: "gPc g = PcPrepare"
        using st g Some by (auto simp: call_turn_def split: if_splits)
      have "dir_inv env (p\<lparr>calls := (calls p)(k \<mapsto> g\<lparr>gPc := PcSelect, gWrite := WParked\<rparr>)\<rparr>) q (rq @ []) rs"
        by (rule upd [where x = "ppending p i" and g' = "g\<lparr>gPc := PcSelect, gWrite := WParked\<rparr>"])
          (use pc Some px in \<open>auto simp: unsent_call_def early_inv_def intro!: answer_inv_cong [OF ans(1)]\<close>)
      then show ?thesis using p' stop pc ret by (simp add: call_prepare_def)
    next
      case (EvWrite _ out)
      obtain err took p1 fs1 where w: "peer_write env0 out (call_frame g) p = (err, took, p1, fs1)" by (metis prod_cases4)
      have p': "p' = p1\<lparr>calls := (calls p1)(k \<mapsto> g\<lparr>gWrite := WDone err\<rparr>)\<rparr>" "fs = fs1" and wp: "gWrite g = WParked"
        using st g w Some EvWrite by (auto simp: call_turn_def split: if_splits)
      have late: "gPc g \<noteq> PcAlloc" "gPc g \<noteq> PcRegister" "gPc g \<noteq> PcPrepare"
        using ans(2) wp by (auto simp: early_inv_def begun_def)
      have em: "fs1 = [] \<or> fs1 = [call_frame g]" "err = None \<Longrightarrow> fs1 = [call_frame g]"
        using w by (auto simp: peer_write_def split: option.splits wout.splits if_splits)
      obtain we where p1: "p1 = p\<lparr>pwerr := we\<rparr>" using peer_write_frame(1) [OF w] by auto
      have "dir_inv env p' q (rq @ fs1) rs"
        by (rule upd [where x = "ppending p i" and g' = "g\<lparr>gWrite := WDone err\<rparr>"])
          (use late wp em px Some in \<open>auto simp: p'(1) p1 unsent_call_def early_inv_def intro!: answer_inv_cong [OF ans(1)]\<close>)
      then show ?thesis using p' p1 em(1) req by auto
    next
      case (EvWrote _)
      then obtain err where p': "p' = call_wrote k i g err p" "fs = []" and pc: "gPc g = PcSelect" "gWrite g = WDone err"
        using st g Some by (auto simp: call_turn_def split: option.splits if_splits wstate.splits)
      have keep: "dir_inv env (p\<lparr>calls := (calls p)(k \<mapsto> g\<lparr>gWrite := WTaken\<rparr>)\<rparr>) q (rq @ []) rs" if "err = None"
        by (rule upd [where x = "ppending p i" and g' = "g\<lparr>gWrite := WTaken\<rparr>"])
          (use pc Some px that in \<open>auto simp: unsent_call_def early_inv_def intro!: answer_inv_cong [OF ans(1)]\<close>)
      have rets: "dir_inv env (call_return k i (g\<lparr>gWrite := WTaken\<rparr>) r p) q rq rs"
        if "\<And>res. r = Inr res \<Longrightarrow> \<exists>f. reply_ok env (call_frame g) f \<and> answerResult f = Inr res" for r
        by (rule dir_inv_return [OF inv card g Some]) (use pc Some ans(1) that in \<open>auto simp: answer_inv_def\<close>)
      have "\<And>f res. gAnswer g = Some f \<Longrightarrow> answerResult f = Inr res \<Longrightarrow> \<exists>f. reply_ok env (call_frame g) f \<and> answerResult f = Inr res"
        using ans(1) by (auto simp: answer_inv_def)
      then show ?thesis
        using keep rets ret by (auto simp: p' call_wrote_def Let_def split: option.splits)
    next
      case (EvAnswer _)
      then obtain f where p': "p' = call_answer k i g f p" "fs = []" and pc: "gPc g = PcSelect" and f: "gChan g = Some f"
        using st g Some by (auto simp: call_turn_def split: option.splits if_splits)
      have rep: "reply_ok env (call_frame g) f" using ans(1) f by (auto simp: answer_inv_def)
      have "dir_inv env (p\<lparr>calls := (calls p)(k \<mapsto> g\<lparr>gChan := None, gAnswer := Some f\<rparr>)\<rparr>) q (rq @ []) rs"
        by (rule upd [where x = "ppending p i" and g' = "g\<lparr>gChan := None, gAnswer := Some f\<rparr>"])
          (use pc Some px f ans(1) rep in \<open>auto simp: unsent_call_def early_inv_def answer_inv_def\<close>)
      moreover have "dir_inv env (call_return k i (g\<lparr>gChan := None\<rparr>) (answerResult f) p) q rq rs"
        by (rule dir_inv_return [OF inv card g Some]) (use pc Some ans(1) rep in \<open>auto simp: answer_inv_def\<close>)
      ultimately show ?thesis using ret by (auto simp: p' call_answer_def Let_def)
    next
      case (EvStop _ c)
      then obtain e where "p' = call_return k i g (Inl e) p" "fs = []" "gPc g = PcSelect"
        using st g Some by (auto simp: call_turn_def split: option.splits if_splits)
      then show ?thesis using stop ret by simp
    next
      case (EvRelease _)
      then obtain err where p': "p' = p\<lparr>pinflight := pinflight p - 1, calls := (calls p)(k \<mapsto> g\<lparr>gWrite := WTaken\<rparr>)\<rparr>" "fs = []"
          and pc: "gPc g = PcReturned" "gWrite g = WDone err"
        using st g Some by (auto simp: call_turn_def split: option.splits if_splits wstate.splits)
      have "dir_inv env p' q (rq @ []) rs"
        by (rule upd [where x = "ppending p i" and g' = "g\<lparr>gWrite := WTaken\<rparr>"])
          (use pc Some px in \<open>auto simp: p'(1) unsent_call_def early_inv_def intro!: answer_inv_cong [OF ans(1)]\<close>)
      then show ?thesis using p' by simp
    qed (use st g Some in \<open>simp_all add: call_turn_def\<close>)
  qed
qed

section \<open>Every event of either side\<close>

lemma setFatal_fatal [simp]: "fatal (setFatal e p) \<noteq> None" "fatal p \<noteq> None \<Longrightarrow> setFatal e p = p"
  by (auto simp: setFatal_def split: option.splits)

lemma call_return_fatal [simp]: "fatal (call_return k i g ret p) = fatal p"
  by (simp add: call_return_def Let_def)

lemma peer_write_fatal: "peer_write env out f p = (err, took, p1, fs) \<Longrightarrow> fatal p1 = fatal p"
  by (auto simp: peer_write_def split: option.splits wout.splits if_splits)

lemma call_step_fatal: "call_turn env ev k p = Some (p', fs) \<Longrightarrow> fatal p' = fatal p"
  by (auto simp: call_turn_def call_alloc_def call_register_def call_prepare_def call_wrote_def call_answer_def Let_def
      dest!: peer_write_fatal split: option.splits pev.splits if_splits wstate.splits prod.splits)

lemma notify_step_fatal: "notify_step env ev k p = Some (p', fs) \<Longrightarrow> fatal p' = fatal p"
  by (auto simp: notify_step_def notify_wrote_def dest!: peer_write_fatal split: option.splits pev.splits if_splits prod.splits)

lemma builtinCancel_fatal [simp]: "fatal (builtinCancelHandler env ps p) = fatal p"
  by (simp add: builtinCancelHandler_def split: option.splits)

lemma serve_step_fatal: "serve_step env ev j p = Some (p', fs) \<Longrightarrow> fatal p' = None \<Longrightarrow> fatal p = None"
proof -
  assume st: "serve_step env ev j p = Some (p', fs)" and ok: "fatal p' = None"
  obtain s where s: "serving p j = Some s" using st by (auto simp: serve_step_def split: option.splits)
  show "fatal p = None"
  proof (cases s)
    case (SHold f)
    then obtain out where w: "resp_write env out j f p = (p', fs)"
      using st s by (auto simp: serve_step_def split: pev.splits if_splits)
    obtain err took p1 fs1 where pw: "peer_write env out f (p\<lparr>serving := (serving p)(j := None), codecHolder := None\<rparr>) = (err, took, p1, fs1)"
      by (metis prod_cases4)
    show ?thesis
      using w pw peer_write_fatal [OF pw] ok by (auto simp: resp_write_def split: option.splits)
  qed (use st s ok in \<open>auto simp: serve_step_def serve_start_def serve_handled_def serve_finish_def resp_lock_def retireCancel_def
        Let_def split: pev.splits option.splits if_splits\<close>)
qed

lemma peer_step_fatal: "peer_step env ev p = Some (p', fs) \<Longrightarrow> fatal p' = None \<Longrightarrow> fatal p = None"
proof -
  assume st: "peer_step env ev p = Some (p', fs)" and ok: "fatal p' = None"
  show "fatal p = None"
  proof (cases ev)
    case (EvRead j r)
    have "fatal (deliverResponse f p) = None \<Longrightarrow> fatal p = None" for f
      by (auto simp: deliverResponse_def Let_def split: option.splits if_splits)
    then have "fatal (dispatch env j f p) = None \<Longrightarrow> fatal p = None" for f
      by (auto simp: dispatch_def split: if_splits)
    then show ?thesis
      using st ok EvRead by (cases r) (auto simp: peer_step_def read_step_def Let_def split: if_splits)
  qed (use st ok call_step_fatal notify_step_fatal serve_step_fatal in
      \<open>auto simp: peer_step_def call_entry_def notify_entry_def Peer_Handle_def Peer_Close_def Let_def
        split: if_splits option.splits\<close>)
qed

lemma same_loads_refl [simp]: "serving q' = serving q \<Longrightarrow> same_loads q' q"
  by (simp add: same_loads_def)

lemma load_cancel [simp]: "load (cancel_slot s) = load s" "serves (cancel_slot s) = serves s"
  by (cases s; simp add: cancel_slot_def)+

lemma same_loads_cancel [simp]: "same_loads (builtinCancelHandler env ps q) q"
  by (auto simp: same_loads_def builtinCancelHandler_def option.map_comp comp_def split: option.splits)

text \<open>A response dropped by a caller that has faulted.\<close>

lemma dir_inv_drop:
  assumes inv: "dir_inv env p q rq (f # rs)" and "fatal p \<noteq> None"
  shows "dir_inv env p q rq rs"
proof -
  have "tok p q rq rs i \<le> tok p q rq (f # rs) i" for i by (simp add: tok_def)
  then have "owed_inv p (tok p q rq rs)"
    using inv unfolding dir_inv_def owed_inv_def by (meson le_trans less_le_trans)
  moreover have "not_lost p q (tok p q rq rs)" using assms(2) by (auto simp: not_lost_def)
  ultimately show ?thesis using inv unfolding dir_inv_def by auto
qed

definition reading :: "pev \<Rightarrow> Frame list" where
  "reading ev = (case ev of EvRead _ (Inr f) \<Rightarrow> [f] | _ \<Rightarrow> [])"

fun call_event :: "pev \<Rightarrow> nat option" where
  "call_event (EvAlloc k) = Some k"
| "call_event (EvRegister k) = Some k"
| "call_event (EvPrepare k _) = Some k"
| "call_event (EvWrite k _) = Some k"
| "call_event (EvWrote k) = Some k"
| "call_event (EvAnswer k) = Some k"
| "call_event (EvStop k _) = Some k"
| "call_event (EvRelease k) = Some k"
| "call_event _ = None"

lemma peer_step_call: "call_event ev = Some k \<Longrightarrow> peer_step env ev p = call_turn env ev k p"
  by (cases ev) (auto simp: peer_step_def)

lemma filter_requests: "\<forall>f \<in> set fs. IsRequest f \<Longrightarrow> filter IsRequest fs = fs \<and> filter IsResponse fs = []"
  by (auto simp: filter_id_conv filter_empty_conv IsRequest_def IsResponse_def)

lemma dispatch_keeps_calls:
  assumes "\<not> IsResponse f \<or> fatal p \<noteq> None"
  shows "calls (dispatch env j f p) = calls p" "ppending (dispatch env j f p) = ppending p"
    "abandoned (dispatch env j f p) = abandoned p" "nextID (dispatch env j f p) = nextID p"
proof -
  have "calls_view (dispatch env j f p) = calls_view p"
  proof (cases "fatal p")
    case None
    have upd: "calls_view (p\<lparr>respPending := a, serving := b\<rparr>) = calls_view p" "calls_view (p\<lparr>serveInflight := a, serving := b\<rparr>) = calls_view p"
      "calls_view (setFatal e p) = calls_view p" for a b e
      by (simp_all add: view_defs)
    then show ?thesis using assms None by (simp add: dispatch_def)
  qed (simp add: dispatch_def)
  then show "calls (dispatch env j f p) = calls p" "ppending (dispatch env j f p) = ppending p"
    "abandoned (dispatch env j f p) = abandoned p" "nextID (dispatch env j f p) = nextID p"
    by (simp_all add: calls_view_def)
qed

lemma caller_step:
  assumes st: "peer_step env0 ev p = Some (p', fs)" and pin: "peer_inv p"
    and inv: "dir_inv env p q rq (filter IsResponse (reading ev) @ rs)"
    and card: "card (abandoned p) < maxAbandonedIDs" and ids: "nextID p + 1 < 2 ^ 64"
    and em: "call_event ev = None \<Longrightarrow> filter IsRequest fs = []"
  shows "dir_inv env p' q (rq @ filter IsRequest fs) rs \<and> nextID p' \<le> Suc (nextID p)"
proof (cases "call_event ev")
  case (Some k)
  then have r: "reading ev = []" by (cases ev) (auto simp: reading_def)
  have "call_turn env0 ev k p = Some (p', fs)" using st peer_step_call [OF Some] by simp
  from caller_call_step [OF this _ card ids, of env q rq rs] inv r show ?thesis
    by (simp add: filter_requests)
next
  case None
  have fs: "filter IsRequest fs = []" using em None .
  have fat: "fatal p' = None \<Longrightarrow> fatal p = None" using peer_step_fatal [OF st] .
  have same: "dir_inv env p' q rq rs \<and> nextID p' \<le> Suc (nextID p)"
    if "calls p' = calls p" "ppending p' = ppending p" "abandoned p' = abandoned p" "nextID p' = nextID p" "dir_inv env p q rq rs"
    using dir_inv_same [OF that(5,1-4) fat] that(4) by auto
  have view: "dir_inv env p' q rq rs \<and> nextID p' \<le> Suc (nextID p)" if "calls_view p' = calls_view p" "reading ev = []"
    using that inv by (intro same) (auto simp: view_defs)
  show ?thesis
  proof (cases ev)
    case (EvCall k m ps c)
    then have p': "p' = call_entry k m ps c p" "calls p k = None" "reading ev = []"
      using st by (auto simp: peer_step_def reading_def split: if_splits)
    define g where "g = \<lparr>gMethod = m, gParams = ps, gID = None, gPc = PcAlloc, gChan = None, gWrite = WNone,
               gAnswer = None, gRet = None\<rparr>"
    have "\<exists>g'. calls p' = (calls p)(k \<mapsto> g') \<and> answer_inv env g' \<and> early_inv g' \<and> gID g' = None"
      unfolding p'(1) call_entry_def Let_def g_def [symmetric]
      by (auto simp: g_def answer_inv_def early_inv_def begun_def)
    moreover have "ppending p' = ppending p" "abandoned p' = abandoned p" "fatal p' = fatal p" "nextID p' = nextID p"
      by (auto simp: p'(1) call_entry_def Let_def)
    ultimately have "dir_inv env p' q rq rs"
      using inv p'(2,3) by (elim exE conjE) (rule dir_inv_fresh, auto)
    then show ?thesis using fs \<open>nextID p' = nextID p\<close> by simp
  next
    case (EvRead j r)
    then have p': "p' = read_step env0 j r p" using st by (auto simp: peer_step_def split: if_splits)
    show ?thesis
    proof (cases r)
      case (Inl e)
      then show ?thesis using view p' EvRead fs by (auto simp: read_step_def Let_def view_defs reading_def)
    next
      case (Inr f)
      then have d: "p' = dispatch env0 j f p" "reading ev = [f]" using p' EvRead by (auto simp: read_step_def reading_def)
      show ?thesis
      proof (cases "IsResponse f \<and> fatal p = None")
        case True
        then have "\<not> IsRequest f" "\<not> IsNotification f" by (auto simp: IsRequest_def IsResponse_def IsNotification_def)
        then have "p' = deliverResponse f p" using True d(1) by (simp add: dispatch_def)
        moreover have "nextID (deliverResponse f p) = nextID p"
          by (simp add: deliverResponse_def Let_def split: option.splits)
        ultimately show ?thesis using dir_inv_deliver [of env p q rq f rs] inv True d(2) fs by simp
      next
        case False
        then have "dir_inv env p q rq rs" using inv d(2) dir_inv_drop [of env p q rq f rs] by (cases "IsResponse f") auto
        then show ?thesis
          using same dispatch_keeps_calls [of f p env0 j] False d(1) fs by auto
      qed
    qed
  next
    case (EvNotifyWrite k out)
    then have "notify_step env0 ev k p = Some (p', fs)" using st by (simp add: peer_step_def)
    then show ?thesis using notify_step_inv view pin fs EvNotifyWrite by (auto simp: peer_inv_def reading_def)
  next
    case (EvNotifyReturn k c)
    then have "notify_step env0 ev k p = Some (p', fs)" using st by (simp add: peer_step_def)
    then show ?thesis using notify_step_inv view pin fs EvNotifyReturn by (auto simp: peer_inv_def reading_def)
  next
    case (EvNotify k m ps c)
    then show ?thesis
      using st view fs by (auto simp: peer_step_def notify_entry_def Let_def view_defs reading_def split: if_splits option.splits)
  next
    case (EvHandle m)
    then show ?thesis
      using st view fs by (auto simp: peer_step_def Peer_Handle_def view_defs reading_def split: if_splits)
  next
    case EvClose
    then show ?thesis using st view fs by (auto simp: peer_step_def Peer_Close_def view_defs reading_def)
  qed (use st None view fs serve_step_inv pin in \<open>auto simp: peer_step_def peer_inv_def reading_def\<close>)
qed

fun serve_event :: "pev \<Rightarrow> nat option" where
  "serve_event (EvServe j _) = Some j"
| "serve_event (EvHandled j _) = Some j"
| "serve_event (EvFinish j) = Some j"
| "serve_event (EvRespLock j) = Some j"
| "serve_event (EvRespWrite j _) = Some j"
| "serve_event (EvNoteDone j) = Some j"
| "serve_event _ = None"

lemma peer_step_serve: "serve_event ev = Some j \<Longrightarrow> peer_step env ev p = serve_step env ev j p"
  by (cases ev) (auto simp: peer_step_def)

lemma request_reply:
  assumes "request_inv p f" "reply_ok env f r"
  shows "response_inv env p r"
proof -
  obtain k g i where g: "calls p k = Some g" "gID g = ID f" "ID f = Some i" "f = call_frame g"
    using assms(1) by (auto simp: request_inv_def known_def)
  then have "ID r = Some i" using reply_frame(1) [OF assms(2)] by (simp add: IDValue_def)
  then have "known p r g" using g by (auto simp: known_def)
  then show ?thesis using assms(2) g(4) by (auto simp: response_inv_def)
qed

lemma request_inv_ID: "request_inv p f \<Longrightarrow> ID f = Some (IDValue f)"
  by (auto simp: request_inv_def known_def IDValue_def split: option.splits)

lemma at_load_simps [simp]:
  "at_load i None = 0" "at_load i (Some s) = of_bool (\<exists>f. load s = Some f \<and> ID f = Some i)"
  by (simp_all add: at_load_def load_at_def)

lemma server_serve_step:
  assumes st: "serve_step env ev j q = Some (q', fs)" and inv: "dir_inv env p q rq rs"
  shows "dir_inv env p q' rq (rs @ fs) \<and> (\<forall>f \<in> set fs. IsResponse f)"
proof -
  obtain s where s: "serving q j = Some s" using st by (auto simp: serve_step_def split: option.splits)
  have load: "if serves s then request_inv p f else response_inv env p f" if "load s = Some f" for f
    using inv s that unfolding dir_inv_def by blast
  have fat: "fatal q' = None \<Longrightarrow> fatal q = None" using serve_step_fatal [OF st] .
  have inv': "dir_inv env p q ([] @ rq) rs" using inv by simp
  note upd = dir_inv_serve [OF inv', where j = j and q' = q' and em = fs]
  show ?thesis
  proof (cases s)
    case (SNew f)
    then obtain gate where q': "q' = serve_start j f gate q" "fs = []" and gate: "fmethod f = MethodCancel \<or> gates env (fmethod f) gate"
      using st s by (auto simp: serve_step_def split: pev.splits if_splits)
    have req: "request_inv p f" using load SNew by simp
    note idf = request_inv_ID [OF req]
    have rep: "response_inv env p r" if "reply_ok env f r" for r using request_reply [OF req that] .
    have "\<exists>x. serving q' = (serving q)(j \<mapsto> x) \<and> (x = SRun f False \<or> (\<exists>r. x = SResp r \<and> reply_ok env f r))"
      using gate by (auto simp: q' serve_start_def Let_def reply_ok_def split: option.splits if_splits)
    then obtain x where x: "serving q' = (serving q)(j \<mapsto> x)" "x = SRun f False \<or> (\<exists>r. x = SResp r \<and> reply_ok env f r)" by blast
    have "ID r = Some (IDValue f)" if "x = SResp r" for r using x(2) reply_frame(1) that by auto
    then have "dir_inv env p q' rq (rs @ fs)"
      by (intro upd [where x = "Some x"]) (use x s SNew q'(2) fat req rep idf in auto)
    then show ?thesis using q'(2) by simp
  next
    case (SRun f c)
    then obtain out where q': "q' = serve_handled env j f out q" "fs = []"
        and out: "fmethod f = MethodCancel \<or> handles env (fmethod f) (Params f) out"
      using st s by (auto simp: serve_step_def split: pev.splits if_splits)
    have req: "request_inv p f" using load SRun by simp
    note idf = request_inv_ID [OF req]
    define q1 where "q1 = (if fmethod f = MethodCancel then builtinCancelHandler env (Params f) q else q)"
    define r where "r = handler_response (IDValue f) (if fmethod f = MethodCancel then HOk (Some []) else out)"
    have q1: "same_loads q1 q" "fatal q1 = fatal q" by (simp_all add: q1_def)
    have inv1: "dir_inv env p q1 ([] @ rq) rs"
      using dir_inv_same [OF inv refl refl refl refl _ q1(1)] q1(2) by simp
    obtain c' where c': "serving q1 j = Some (SRun f c')"
      using s SRun builtinCancel_serving(2) [of q j f c env "Params f"] unfolding q1_def by metis
    have rep: "reply_ok env f r"
      using out by (auto simp: r_def reply_ok_def handler_response_def)
    have "serving q' = (serving q1)(j \<mapsto> SResp r)" "fatal q' = fatal q1"
      by (simp_all add: q' serve_handled_def Let_def q1_def [symmetric] r_def [symmetric] retireCancel_def)
    then have "dir_inv env p q' rq (rs @ [])"
      by (intro dir_inv_serve [OF inv1, where j = j and x = "Some (SResp r)"])
        (use c' request_reply [OF req rep] reply_frame(1) [OF rep] idf in auto)
    then show ?thesis using q'(2) by simp
  next
    case (SResp r)
    then have q': "q' = serve_finish j r q" "fs = []" using st s by (auto simp: serve_step_def split: pev.splits)
    have "dir_inv env p q' rq (rs @ fs)"
      by (rule upd [where x = "if respPending q \<ge> maxServeInflight q then None else Some (SWrite r)"])
        (use s SResp load fat in \<open>auto simp: q' serve_finish_def Let_def split: if_splits\<close>)
    then show ?thesis using q'(2) by simp
  next
    case (SWrite r)
    then have q': "q' = resp_lock env j r q" "fs = []" using st s by (auto simp: serve_step_def split: pev.splits if_splits)
    have "dir_inv env p q' rq (rs @ fs)"
      by (rule upd [where x = "if fits env r = None then Some (SHold r) else None"])
        (use s SWrite load fat in \<open>auto simp: q' resp_lock_def split: if_splits option.splits\<close>)
    then show ?thesis using q'(2) by simp
  next
    case (SHold r)
    then obtain out where w: "resp_write env out j r q = (q', fs)"
      using st s by (auto simp: serve_step_def split: pev.splits if_splits)
    obtain err took q1 fs1 where pw: "peer_write env out r (q\<lparr>serving := (serving q)(j := None), codecHolder := None\<rparr>) = (err, took, q1, fs1)"
      by (metis prod_cases4)
    have em: "fs1 = [] \<or> fs1 = [r]" "err = None \<Longrightarrow> fs1 = [r]"
      using pw by (auto simp: peer_write_def split: option.splits wout.splits if_splits)
    have sv: "serving q1 = (serving q)(j := None)" using peer_write_frame(1) [OF pw] by auto
    have q': "serving q' = (serving q)(j := None)" "fs = fs1" "fatal q' = None \<Longrightarrow> err = None"
      using w pw sv by (auto simp: resp_write_def split: option.splits)
    have resp: "response_inv env p r" using load SHold by simp
    have "dir_inv env p q' rq (rs @ fs)"
      by (rule upd [where x = None]) (use s SHold resp fat em q' in auto)
    moreover have "IsResponse r" using resp reply_frame(2) by (auto simp: response_inv_def)
    ultimately show ?thesis using q'(2) em(1) by auto
  next
    case (SNote f)
    then have q': "q' = q\<lparr>serveInflight := serveInflight q - 1, serving := (serving q)(j := None)\<rparr>" "fs = []"
      using st s by (auto simp: serve_step_def split: pev.splits)
    have "dir_inv env p q' rq (rs @ fs)"
      by (rule upd [where x = None]) (use s SNote q' in auto)
    then show ?thesis using q'(2) by simp
  qed
qed

lemma server_dispatch:
  assumes inv: "dir_inv env p q (filter IsRequest [f] @ rq) rs" and free: "serving q j = None"
  shows "dir_inv env p (dispatch env j f q) rq rs"
proof (cases "IsRequest f")
  case True
  then have inv': "dir_inv env p q ([f] @ rq) rs" and req: "request_inv p f" using inv by (auto simp: dir_inv_def)
  note idf = request_inv_ID [OF req]
  define cap where "cap = NewErrorResponse (IDValue f) CodeInflightCap ''serve inflight cap reached'' []"
  have rep: "reply_ok env f cap" by (simp add: reply_ok_def cap_def)
  have drop: "dir_inv env p q' rq (rs @ [])" if "serving q' = serving q" "fatal q' \<noteq> None" for q'
    by (rule dir_inv_serve [OF inv', where j = j and x = None])
      (use that free in \<open>auto simp: fun_upd_idem\<close>)
  have put: "dir_inv env p q' rq (rs @ [])" if "serving q' = (serving q)(j \<mapsto> x)" "fatal q' = fatal q" "x = SNew f \<or> x = SWrite cap" for q' x
    by (rule dir_inv_serve [OF inv', where j = j and x = "Some x"])
      (use that free req rep request_reply [OF req rep] reply_frame(1) [OF rep] idf in auto)
  show ?thesis
  proof (cases "fatal q")
    case None
    consider "serveInflight q < maxServeInflight q" | "serveInflight q \<ge> maxServeInflight q" "respPending q < maxServeInflight q"
      | "serveInflight q \<ge> maxServeInflight q" "respPending q \<ge> maxServeInflight q" by linarith
    then show ?thesis
    proof cases
      case 1
      then show ?thesis using put [of "dispatch env j f q" "SNew f"] True None by (simp add: dispatch_def)
    next
      case 2
      then show ?thesis using put [of "dispatch env j f q" "SWrite cap"] True None by (simp add: dispatch_def cap_def)
    next
      case 3
      then show ?thesis using drop [of "dispatch env j f q"] True None by (simp add: dispatch_def)
    qed
  qed (use drop [of q] in \<open>simp add: dispatch_def\<close>)
next
  case False
  then have inv': "dir_inv env p q rq rs" using inv by simp
  have same: "dir_inv env p q' rq rs" if "same_loads q' q" "fatal q' = None \<Longrightarrow> fatal q = None" for q'
    using dir_inv_same [OF inv' refl refl refl refl _ that(1)] that(2) by simp
  have "dir_inv env p (q\<lparr>serveInflight := n, serving := (serving q)(j \<mapsto> SNote f)\<rparr>) rq (rs @ [])" for n
    by (rule dir_inv_serve [where q = q and rd = "[]" and j = j and x = "Some (SNote f)"]) (use inv' free in auto)
  moreover have "dir_inv env p (deliverResponse f q) rq rs"
    by (rule same) (auto simp: deliverResponse_def Let_def split: option.splits if_splits)
  ultimately show ?thesis
    using inv' same [of "setFatal e q" for e] same [of "builtinCancelHandler env (Params f) q"] False
    by (auto simp: dispatch_def)
qed

lemma server_step:
  assumes st: "peer_step env ev q = Some (q', fs)" and pin: "peer_inv q"
    and inv: "dir_inv env p q (filter IsRequest (reading ev) @ rq) rs"
    and em: "serve_event ev = None \<Longrightarrow> filter IsResponse fs = []"
  shows "dir_inv env p q' rq (rs @ filter IsResponse fs)"
proof (cases "serve_event ev")
  case (Some j)
  then have r: "reading ev = []" by (cases ev) (auto simp: reading_def)
  have "serve_step env ev j q = Some (q', fs)" using st peer_step_serve [OF Some] by simp
  from server_serve_step [OF this, of p rq rs] inv r show ?thesis by (simp add: filter_id_conv)
next
  case None
  have fs: "filter IsResponse fs = []" using em None .
  have fat: "fatal q' = None \<Longrightarrow> fatal q = None" using peer_step_fatal [OF st] .
  have view: "dir_inv env p q' rq rs" if "serve_view q' = serve_view q" "reading ev = []"
  proof -
    have "serving q' = serving q" using that(1) by (simp add: serve_view_def)
    then show ?thesis using dir_inv_same [OF inv refl refl refl refl _ _ fat] that(2) by simp
  qed
  show ?thesis
  proof (cases ev)
    case (EvRead j r)
    then have q': "q' = read_step env j r q" "serving q j = None" using st by (auto simp: peer_step_def split: if_splits)
    show ?thesis
    proof (cases r)
      case (Inl e)
      then show ?thesis using view q' EvRead fs by (auto simp: read_step_def Let_def view_defs reading_def)
    next
      case (Inr f)
      then show ?thesis
        using server_dispatch [of env p q f rq rs j] inv q' EvRead fs by (simp add: read_step_def reading_def)
    qed
  next
    case (EvNotifyWrite k out)
    then have "notify_step env ev k q = Some (q', fs)" using st by (simp add: peer_step_def)
    then show ?thesis using notify_step_inv view pin fs EvNotifyWrite by (auto simp: peer_inv_def reading_def)
  next
    case (EvNotifyReturn k c)
    then have "notify_step env ev k q = Some (q', fs)" using st by (simp add: peer_step_def)
    then show ?thesis using notify_step_inv view pin fs EvNotifyReturn by (auto simp: peer_inv_def reading_def)
  next
    case (EvNotify k m ps c)
    then show ?thesis
      using st view fs by (auto simp: peer_step_def notify_entry_def Let_def view_defs reading_def split: if_splits option.splits)
  next
    case (EvCall k m ps c)
    then show ?thesis
      using st view fs by (auto simp: peer_step_def call_entry_def Let_def view_defs reading_def split: if_splits option.splits)
  next
    case (EvHandle m)
    then show ?thesis
      using st view fs by (auto simp: peer_step_def Peer_Handle_def view_defs reading_def split: if_splits)
  next
    case EvClose
    then show ?thesis using st view fs by (auto simp: peer_step_def Peer_Close_def view_defs reading_def)
  qed (use st None view fs call_step_calls_inv pin in \<open>auto simp: peer_step_def peer_inv_def reading_def\<close>)
qed

end
