(* ===== verification/ModulePair.thy ===== *)
theory ModulePair
  imports ModuleLink
begin

text \<open>
  Runs of two joined peers: the invariant of \<open>dir_inv\<close> holds of both directions in every state a run reaches,
  and with it what a caller may rely on.
\<close>

section \<open>Runs of the pair\<close>

definition notes_inv :: "Peer \<Rightarrow> bool" where
  "notes_inv p \<longleftrightarrow> (\<forall>k g. notifies p k = Some g \<longrightarrow> ID (nFrame g) = None)"

lemma notes_view: "notify_view p' = notify_view p \<Longrightarrow> notes_inv p \<Longrightarrow> notes_inv p'"
  by (simp add: notes_inv_def notify_view_def)

lemma notify_step_notes:
  assumes st: "notify_step env ev k p = Some (p', fs)" and inv: "notes_inv p"
  shows "notes_inv p' \<and> filter IsRequest fs = [] \<and> filter IsResponse fs = []"
proof -
  obtain g where g: "notifies p k = Some g" using st by (auto simp: notify_step_def split: option.splits)
  have idn: "ID (nFrame g) = None" using inv g by (auto simp: notes_inv_def)
  show ?thesis
  proof (cases ev)
    case (EvNotifyWrite _ out)
    obtain err took p1 fs1 where w: "peer_write env out (nFrame g) p = (err, took, p1, fs1)" by (metis prod_cases4)
    have "p' = notify_wrote k g err p1" "fs = fs1"
      using st g w EvNotifyWrite by (auto simp: notify_step_def split: if_splits)
    moreover have "notifies p1 = notifies p" using peer_write_frame(1) [OF w] by auto
    moreover have "fs1 = [] \<or> fs1 = [nFrame g]"
      using w by (auto simp: peer_write_def split: option.splits wout.splits if_splits)
    ultimately show ?thesis
      using inv idn by (auto simp: notes_inv_def notify_wrote_def IsRequest_def IsResponse_def)
  next
    case (EvNotifyReturn _ c)
    then show ?thesis
      using st g inv idn by (auto simp: notify_step_def notes_inv_def split: if_splits)
  qed (use st g in \<open>simp_all add: notify_step_def\<close>)
qed

lemma emitted:
  assumes st: "peer_step env ev p = Some (p', fs)" and noti: "notes_inv p" and pin: "peer_inv p"
    and caller: "dir_inv eo p q rq rs" and server: "dir_inv env q' p rq' rs'"
    and card: "card (abandoned p) < maxAbandonedIDs" and ids: "nextID p + 1 < 2 ^ 64"
  shows "call_event ev = None \<Longrightarrow> filter IsRequest fs = []" "serve_event ev = None \<Longrightarrow> filter IsResponse fs = []"
    "notes_inv p'"
proof -
  have call: "(\<forall>f \<in> set fs. IsRequest f) \<and> notes_inv p'" if "call_event ev = Some k" for k
  proof -
    have cs: "call_turn env ev k p = Some (p', fs)" using st peer_step_call [OF that] by simp
    show ?thesis
      using caller_call_step [OF cs caller card ids] call_step_calls_inv [OF cs] pin notes_view [OF _ noti]
      by (auto simp: peer_inv_def)
  qed
  have serve: "(\<forall>f \<in> set fs. IsResponse f) \<and> notes_inv p'" if "serve_event ev = Some j" for j
  proof -
    have ss: "serve_step env ev j p = Some (p', fs)" using st peer_step_serve [OF that] by simp
    show ?thesis
      using server_serve_step [OF ss server] serve_step_inv [OF ss] pin notes_view [OF _ noti]
      by (auto simp: peer_inv_def)
  qed
  have other: "filter IsRequest fs = [] \<and> filter IsResponse fs = [] \<and> notes_inv p'"
    if "call_event ev = None" "serve_event ev = None"
  proof (cases ev)
    case (EvRead j r)
    have "notify_view (dispatch env j f p) = notify_view p" if "serving p j = None" for f
      using dispatch_inv [of p j env f] pin that by (auto simp: peer_inv_def)
    then show ?thesis
      using st EvRead notes_view [OF _ noti]
      by (cases r) (auto simp: peer_step_def read_step_def Let_def notify_view_def split: if_splits)
  next
    case (EvNotifyWrite k out)
    then show ?thesis using st notify_step_notes [OF _ noti] by (auto simp: peer_step_def)
  next
    case (EvNotifyReturn k c)
    then show ?thesis using st notify_step_notes [OF _ noti] by (auto simp: peer_step_def)
  next
    case (EvNotify k m ps c)
    then show ?thesis
      using st noti by (auto simp: peer_step_def notify_entry_def Let_def notes_inv_def NewNotification_def split: if_splits option.splits)
  qed (use st that noti in \<open>auto simp: peer_step_def call_entry_def Peer_Handle_def Peer_Close_def Let_def notes_inv_def split: if_splits\<close>)
  show "filter IsRequest fs = []" if "call_event ev = None"
    using other [OF that] serve by (cases "serve_event ev") (auto simp: filter_empty_conv IsRequest_def IsResponse_def)
  show "filter IsResponse fs = []" if "serve_event ev = None"
    using other [OF _ that] call by (cases "call_event ev") (auto simp: filter_empty_conv IsRequest_def IsResponse_def)
  show "notes_inv p'" using call serve other by (cases "call_event ev"; cases "serve_event ev") auto
qed

definition both_inv :: "peer_env \<Rightarrow> peer_env \<Rightarrow> Peer \<Rightarrow> Peer \<Rightarrow> Frame list \<Rightarrow> Frame list \<Rightarrow> bool" where
  "both_inv env eo me other out inn \<longleftrightarrow>
     peer_inv me \<and> peer_inv other \<and> notes_inv me \<and> notes_inv other \<and>
     dir_inv eo me other (filter IsRequest out) (filter IsResponse inn) \<and>
     dir_inv env other me (filter IsRequest inn) (filter IsResponse out)"

lemma both_inv_sym: "both_inv env eo me other out inn \<Longrightarrow> both_inv eo env other me inn out"
  by (simp add: both_inv_def)

lemma endpoint_inv:
  assumes st: "endpoint_step env ev me out inn = Some (me', out', inn')" and inv: "both_inv env eo me other out inn"
    and card: "card (abandoned me) < maxAbandonedIDs" and ids: "nextID me + 1 < 2 ^ 64"
  shows "both_inv env eo me' other out' inn' \<and> nextID me' \<le> Suc (nextID me)"
proof -
  obtain fs where ps: "peer_step env ev me = Some (me', fs)" and io: "out' = out @ fs" "inn = reading ev @ inn'"
    using st by (auto simp: endpoint_step_def reading_def split: option.splits pev.splits sum.splits list.splits if_splits)
  have pin: "peer_inv me" "notes_inv me"
    and caller: "dir_inv eo me other (filter IsRequest out) (filter IsResponse inn)"
    and server: "dir_inv env other me (filter IsRequest inn) (filter IsResponse out)"
    using inv by (auto simp: both_inv_def)
  note em = emitted [OF ps pin(2,1) caller server card ids]
  have "dir_inv eo me' other (filter IsRequest out @ filter IsRequest fs) (filter IsResponse inn') \<and> nextID me' \<le> Suc (nextID me)"
    using caller_step [OF ps pin(1) _ card ids em(1)] caller io(2) by simp
  moreover have "dir_inv env other me' (filter IsRequest inn') (filter IsResponse out @ filter IsResponse fs)"
    using server_step [OF ps pin(1) _ em(2)] server io(2) by simp
  ultimately show ?thesis
    using inv em(3) peer_step_inv [OF ps pin(1)] by (simp add: both_inv_def io(1))
qed

definition link_inv :: "peer_env \<Rightarrow> peer_env \<Rightarrow> Link \<Rightarrow> bool" where
  "link_inv ea eb s \<longleftrightarrow> both_inv ea eb (sideA s) (sideB s) (wireAB s) (wireBA s)"

text \<open>Neither side has so many given-up calls outstanding that the window drops one.\<close>

definition window_free :: "Link \<Rightarrow> bool" where
  "window_free s \<longleftrightarrow> card (abandoned (sideA s)) < maxAbandonedIDs \<and> card (abandoned (sideB s)) < maxAbandonedIDs"

lemma link_step_inv:
  assumes st: "link_step ea eb act s = Some s'" and inv: "link_inv ea eb s" and win: "window_free s"
    and ids: "nextID (sideA s) \<le> n" "nextID (sideB s) \<le> n" "n + 1 < 2 ^ 64"
  shows "link_inv ea eb s' \<and> nextID (sideA s') \<le> Suc n \<and> nextID (sideB s') \<le> Suc n"
proof -
  obtain d ev where act: "act = (d, ev)" by force
  show ?thesis
  proof (cases d)
    case SideA
    then obtain p out inn where e: "endpoint_step ea ev (sideA s) (wireAB s) (wireBA s) = Some (p, out, inn)"
        "s' = s\<lparr>sideA := p, wireAB := out, wireBA := inn\<rparr>"
      using st act by (auto simp: link_step_def)
    have "both_inv ea eb (sideA s) (sideB s) (wireAB s) (wireBA s)" using inv by (simp add: link_inv_def)
    from endpoint_inv [OF e(1) this] have "both_inv ea eb p (sideB s) out inn \<and> nextID p \<le> Suc (nextID (sideA s))"
      using win ids by (auto simp: window_free_def)
    then show ?thesis using e(2) ids by (auto simp: link_inv_def)
  next
    case SideB
    then obtain p out inn where e: "endpoint_step eb ev (sideB s) (wireBA s) (wireAB s) = Some (p, out, inn)"
        "s' = s\<lparr>sideB := p, wireBA := out, wireAB := inn\<rparr>"
      using st act by (auto simp: link_step_def)
    have "both_inv eb ea (sideB s) (sideA s) (wireBA s) (wireAB s)"
      using both_inv_sym inv by (auto simp: link_inv_def)
    from endpoint_inv [OF e(1) this] have "both_inv eb ea p (sideA s) out inn \<and> nextID p \<le> Suc (nextID (sideB s))"
      using win ids by (auto simp: window_free_def)
    then show ?thesis using both_inv_sym e(2) ids by (auto simp: link_inv_def)
  qed
qed

lemma link_run_inv:
  assumes "link_run ea eb acts s = Some ss" "link_inv ea eb s" "\<forall>t \<in> set ss. window_free t"
    and "nextID (sideA s) \<le> n" "nextID (sideB s) \<le> n" "n + length acts < 2 ^ 64"
  shows "link_inv ea eb (last ss)"
  using assms
proof (induction acts arbitrary: s ss n)
  case (Cons a acts)
  obtain s1 ss1 where s1: "link_step ea eb a s = Some s1" "link_run ea eb acts s1 = Some ss1" "ss = s # ss1"
    using Cons.prems(1) by (auto split: option.splits)
  have "link_inv ea eb s1 \<and> nextID (sideA s1) \<le> Suc n \<and> nextID (sideB s1) \<le> Suc n"
    using link_step_inv [OF s1(1) Cons.prems(2), of n] Cons.prems s1(3) by auto
  moreover have "ss1 \<noteq> []" using s1(2) by (cases acts) (auto split: option.splits)
  ultimately show ?case using Cons.IH [OF s1(2), of "Suc n"] Cons.prems(3,6) s1(3) by auto
qed auto

lemma NewLink_inv: "link_inv ea eb (NewLink (NewPeer n sn hs) (NewPeer n' sn' hs'))"
proof -
  have "dir_inv env (NewPeer n sn hs) (NewPeer n' sn' hs') [] []" for env n sn hs n' sn' hs'
    by (simp add: dir_inv_def ids_inv_def pending_inv_def owed_inv_def not_lost_def tok_def NewPeer_def)
  then show ?thesis
    by (simp add: link_inv_def both_inv_def NewLink_def NewPeer_inv notes_inv_def) (simp add: NewPeer_def)
qed

text \<open>The two sides of a pair, seen from one of them.\<close>

definition mine :: "side \<Rightarrow> Link \<Rightarrow> Peer" where "mine d s = (case d of SideA \<Rightarrow> sideA s | SideB \<Rightarrow> sideB s)"
definition theirs :: "side \<Rightarrow> Link \<Rightarrow> Peer" where "theirs d s = (case d of SideA \<Rightarrow> sideB s | SideB \<Rightarrow> sideA s)"
definition outgoing :: "side \<Rightarrow> Link \<Rightarrow> Frame list" where "outgoing d s = (case d of SideA \<Rightarrow> wireAB s | SideB \<Rightarrow> wireBA s)"
definition incoming :: "side \<Rightarrow> Link \<Rightarrow> Frame list" where "incoming d s = (case d of SideA \<Rightarrow> wireBA s | SideB \<Rightarrow> wireAB s)"
definition their_env :: "side \<Rightarrow> peer_env \<Rightarrow> peer_env \<Rightarrow> peer_env" where
  "their_env d ea eb = (case d of SideA \<Rightarrow> eb | SideB \<Rightarrow> ea)"

lemmas side_defs = mine_def theirs_def outgoing_def incoming_def their_env_def

text \<open>The runs the properties speak of: of fewer than \<open>2^64\<close> events, so that ids do not come round, and in every state
  of which each side has fewer than 1024 given-up calls outstanding.\<close>

definition run_to :: "peer_env \<Rightarrow> peer_env \<Rightarrow> (side \<times> pev) list \<Rightarrow> Link \<Rightarrow> Link \<Rightarrow> bool" where
  "run_to ea eb acts s0 s \<longleftrightarrow>
     (case link_run ea eb acts s0 of None \<Rightarrow> False | Some ss \<Rightarrow> list_all window_free ss \<and> last ss = s) \<and> length acts < 2 ^ 64"

lemma run_dir:
  assumes "run_to ea eb acts (NewLink (NewPeer n sn hs) (NewPeer n' sn' hs')) s"
  shows "dir_inv (their_env d ea eb) (mine d s) (theirs d s) (filter IsRequest (outgoing d s)) (filter IsResponse (incoming d s))"
proof -
  obtain ss where ss: "link_run ea eb acts (NewLink (NewPeer n sn hs) (NewPeer n' sn' hs')) = Some ss"
      "list_all window_free ss" "last ss = s" "length acts < 2 ^ 64"
    using assms by (auto simp: run_to_def split: option.splits)
  have "link_inv ea eb s"
    using link_run_inv [OF ss(1) NewLink_inv _ _ _, of 0] ss(2-4) by (simp add: list_all_iff NewLink_def NewPeer_def)
  then show ?thesis by (cases d) (auto simp: link_inv_def both_inv_def side_defs)
qed

text \<open>C23. Between two peers with fewer than 1024 given-up calls outstanding on each side, however their goroutines
  interleave in a run of fewer than \<open>2^64\<close> events, when a call returns a result it is the result the other side's handler gave for that call's own method and parameters (an empty result is \<^verbatim>\<open>null\<close>, as is the
  answer of the built-in cancel): request ids of the two directions never mix.\<close>

theorem call_gets_its_own_answer:
  assumes "run_to ea eb acts (NewLink (NewPeer n sn hs) (NewPeer n' sn' hs')) s"
    and "calls (mine d s) k = Some g" "gRet g = Some (Inr res)"
  shows "(\<exists>raw. handles (their_env d ea eb) (gMethod g) (case gParams g of None \<Rightarrow> [] | Some ps \<Rightarrow> ps) (HOk (Some raw)) \<and>
        res = (if raw = [] then ''null'' else raw)) \<or>
      gMethod g = MethodCancel \<and> res = ''null''"
proof -
  have "answer_inv (their_env d ea eb) g" using run_dir [OF assms(1), of d] assms(2) by (auto simp: dir_inv_def)
  then obtain f where f: "reply_ok (their_env d ea eb) (call_frame g) f" "answerResult f = Inr res"
    using assms(3) by (auto simp: answer_inv_def)
  have err: "answerResult (NewErrorResponse i c m x) \<noteq> Inr res" for i c m x
    by (simp add: answerResult_def NewErrorResponse_def)
  have ok: "answerResult (NewSuccessResponse i raw) = Inr (if raw = [] then ''null'' else raw)" for i raw
    by (simp add: answerResult_def NewSuccessResponse_def)
  have out: "\<exists>raw. out = HOk (Some raw) \<and> res = (if raw = [] then ''null'' else raw)"
    if "answerResult (handler_response i out) = Inr res" for i out
    using that err ok by (cases out) (auto simp: handler_response_def split: option.splits)
  show ?thesis using f out err ok unfolding reply_ok_def by fastforce
qed

text \<open>C24. In such runs of two peers, of which no state has 1024 given-up calls of a side outstanding, the next response on
  the wire never faults the peer that reads it, late answers to given-up calls included.\<close>

theorem no_unsolicited_response:
  assumes "run_to ea eb acts (NewLink (NewPeer n sn hs) (NewPeer n' sn' hs')) s"
    and "incoming d s = f # rest" "IsResponse f" "fatal (mine d s) = None"
  shows "fatal (dispatch env j f (mine d s)) = None"
proof -
  have "\<not> IsRequest f" "\<not> IsNotification f" using assms(3) by (auto simp: IsRequest_def IsResponse_def IsNotification_def)
  then have "dispatch env j f (mine d s) = deliverResponse f (mine d s)" using assms(3,4) by (simp add: dispatch_def)
  then show ?thesis
    using dir_inv_deliver [of "their_env d ea eb" "mine d s" "theirs d s" _ f] run_dir [OF assms(1), of d] assms(2-4) by simp
qed

text \<open>C25. In such runs, while neither peer has faulted, a call that waits for its answer, and whose write has not failed, is
  never forgotten: its request or its answer is
  in exactly one place, not yet sent, on the wire, with the one goroutine serving it, or on the wire back.\<close>

theorem open_call_is_owned:
  assumes "run_to ea eb acts (NewLink (NewPeer n sn hs) (NewPeer n' sn' hs')) s"
    and "ppending (mine d s) i = Some k" "calls (mine d s) k = Some g" "fatal (mine d s) = None" "fatal (theirs d s) = None"
      "\<forall>e. gWrite g \<noteq> WDone (Some e)"
  shows "tok (mine d s) (theirs d s) (filter IsRequest (outgoing d s)) (filter IsResponse (incoming d s)) i = 1"
proof -
  let ?t = "tok (mine d s) (theirs d s) (filter IsRequest (outgoing d s)) (filter IsResponse (incoming d s))"
  have "owed_inv (mine d s) ?t" "not_lost (mine d s) (theirs d s) ?t" using run_dir [OF assms(1), of d] by (auto simp: dir_inv_def)
  then have "?t i \<le> 1" "0 < ?t i" using assms(2-6) unfolding owed_inv_def not_lost_def by blast+
  then show ?thesis by simp
qed

section \<open>A call, its answer, and the points between\<close>

definition echo_env :: peer_env where
  "echo_env = \<lparr>fits = (\<lambda>_. None), cancelID = (\<lambda>ps. Some ps), gates = (\<lambda>_ g. g = None), handles = (\<lambda>_ ps out. out = HOk (Some ps))\<rparr>"

definition call_out :: "(side \<times> pev) list" where
  "call_out =
     [(SideA, EvCall 0 ''m'' (Some ''x'') False), (SideA, EvAlloc 0), (SideA, EvRegister 0), (SideA, EvPrepare 0 False),
      (SideA, EvWrite 0 WWhole), (SideA, EvWrote 0)]"

definition call_served :: "(side \<times> pev) list" where
  "call_served =
     [(SideB, EvRead 0 (Inr (NewRequest 1 ''m'' ''x''))), (SideB, EvServe 0 None), (SideB, EvHandled 0 (HOk (Some ''x''))),
      (SideB, EvFinish 0), (SideB, EvRespLock 0), (SideB, EvRespWrite 0 WWhole)]"

definition call_back :: "(side \<times> pev) list" where
  "call_back = [(SideA, EvRead 0 (Inr (NewSuccessResponse 1 ''x''))), (SideA, EvAnswer 0)]"

abbreviation fresh_pair :: Link where
  "fresh_pair \<equiv> NewLink (NewPeer 1 1 {}) (NewPeer 1 1 {''m''})"

lemmas pair_run_defs = run_to_def call_out_def call_served_def call_back_def link_step_def endpoint_step_def peer_step_def
  call_entry_def call_turn_def call_alloc_def call_register_def call_prepare_def call_wrote_def call_answer_def call_return_def
  can_write_def peer_write_def call_frame_def is_writing_def read_step_def dispatch_def deliverResponse_def serve_step_def
  serve_start_def serve_handled_def serve_finish_def resp_lock_def resp_write_def retireCancel_def handler_response_def
  answerResult_def frame_constructors IsRequest_def IsNotification_def IsResponse_def IDValue_def Let_def NewLink_def NewPeer_def
  echo_env_def window_free_def maxAbandonedIDs_def MethodCancel_def side_defs

theorem call_gets_its_own_answer_witness:
  "\<exists>s g. run_to echo_env echo_env (call_out @ call_served @ call_back) fresh_pair s \<and> calls (mine SideA s) 0 = Some g \<and>
     gRet g = Some (Inr ''x'') \<and> handles (their_env SideA echo_env echo_env) ''m'' ''x'' (HOk (Some ''x''))"
proof -
  have run: "\<exists>s g. run_to echo_env echo_env (call_out @ call_served @ call_back) fresh_pair s \<and> calls (mine SideA s) 0 = Some g \<and>
     gRet g = Some (Inr ''x'') \<and> gMethod g = ''m'' \<and> gParams g = Some ''x''"
    by (simp add: pair_run_defs)
  then obtain s g where "run_to echo_env echo_env (call_out @ call_served @ call_back) fresh_pair s" "calls (mine SideA s) 0 = Some g"
     "gRet g = Some (Inr ''x'')" "gMethod g = ''m''" "gParams g = Some ''x''" by blast
  with call_gets_its_own_answer [OF this(1-3)] show ?thesis by (auto simp: MethodCancel_def split: if_splits)
qed

theorem no_unsolicited_response_witness:
  "\<exists>s f. run_to echo_env echo_env (call_out @ call_served) fresh_pair s \<and> incoming SideA s = [f] \<and> IsResponse f \<and>
     fatal (mine SideA s) = None \<and> fatal (dispatch echo_env 0 f (mine SideA s)) = None"
proof -
  have "\<exists>s f. run_to echo_env echo_env (call_out @ call_served) fresh_pair s \<and> incoming SideA s = [f] \<and> IsResponse f \<and>
     fatal (mine SideA s) = None"
    by (simp add: pair_run_defs)
  then show ?thesis using no_unsolicited_response [of echo_env echo_env "call_out @ call_served"] by blast
qed

theorem open_call_is_owned_witness:
  "\<exists>s. run_to echo_env echo_env call_out fresh_pair s \<and> ppending (mine SideA s) 1 = Some 0 \<and>
     tok (mine SideA s) (theirs SideA s) (filter IsRequest (outgoing SideA s)) (filter IsResponse (incoming SideA s)) 1 = 1"
proof -
  have "\<exists>s g. run_to echo_env echo_env call_out fresh_pair s \<and> ppending (mine SideA s) 1 = Some 0 \<and>
     calls (mine SideA s) 0 = Some g \<and> fatal (mine SideA s) = None \<and> fatal (theirs SideA s) = None \<and>
     (\<forall>e. gWrite g \<noteq> WDone (Some e))"
    by (simp add: pair_run_defs)
  then show ?thesis using open_call_is_owned [of echo_env echo_env call_out] by blast
qed

end
