(* ===== verification/MemoryQueue.thy ===== *)
theory MemoryQueue
  imports GoPrelude GoInt "HOL-Library.Multiset"
begin

text \<open>
  The in-memory job queue, \<^verbatim>\<open>battery/queue/memory.go\<close>, with the job of \<^verbatim>\<open>battery/queue/queue.go\<close>.

  The state is everything the queue's mutexes guard. Every definition below is one critical
  section, or the sections one call runs while it keeps other moves of the same job out; the
  blocking \<^verbatim>\<open>waitAndPop\<close> is one pass of its loop. What comes from outside is an argument: the
  clock (\<open>now\<close>), whether the caller's context is done, a random ID, and what the handler returned.
  Log records are not modelled.

  A Go time is an integer, nanoseconds since Go's zero time, so \<^verbatim>\<open>IsZero\<close> is equality with 0 and
  \<^verbatim>\<open>After\<close> is \<open>>\<close>. The pending store keeps its items in arrival order: \<^verbatim>\<open>container/heap\<close>
  permutes them, but \<^verbatim>\<open>removeMatching\<close> reads every item and its choice does not depend on their
  order (\<open>removeMatching_perm\<close>). A \<^verbatim>\<open>*runningJob\<close> is identified by a number handed out once.
\<close>

section \<open>State\<close>

record Job =
  jID :: string
  jOccurrenceID :: string
  jType :: string
  jPayload :: string
  jPriority :: int
  jLane :: string
  jAttempts :: int
  jMaxAttempts :: int
  jCreatedAt :: gotime
  jScheduledAt :: gotime
  jClaimToken :: string
  jUserID :: string
  jUniqueKey :: string
  jStatus :: string
  jUpdatedAt :: gotime
  jLastError :: string

datatype queue_error = ErrQueueClosed | ErrNoJob | ErrDuplicateJob | ErrContext

record pendingJob =
  pJob :: Job
  pSeq :: nat

record runningJob =
  rId :: nat
  rJob :: Job
  rErased :: bool

record deadJob =
  dJob :: Job
  dGen :: nat

type_synonym uniqueSlot = "string \<times> string"

record MemoryQueue =
  handlers :: "string set"
  gate :: "(string \<Rightarrow> bool option) option"
  pending :: "pendingJob list"
  seqNo :: nat
  closed :: bool
  wakeAt :: gotime
  held :: "uniqueSlot set"
  inflight :: "(string \<times> Job) list"
  running :: "runningJob list"
  nextRun :: nat
  dead :: "deadJob list"
  deadSeq :: nat

definition maxDeadJobs :: nat where
  "maxDeadJobs = 1000"

definition gateDeferDelay :: int where
  "gateDeferDelay = 100 * 10 ^ 6"

definition NewMemoryQueue :: MemoryQueue where
  "NewMemoryQueue =
     \<lparr>handlers = {}, gate = None, pending = [], seqNo = 0, closed = False, wakeAt = 0, held = {},
      inflight = [], running = [], nextRun = 0, dead = [], deadSeq = 0\<rparr>"

definition RegisterHandler :: "string \<Rightarrow> MemoryQueue \<Rightarrow> MemoryQueue" where
  "RegisterHandler jobType q = q\<lparr>handlers := insert jobType (handlers q)\<rparr>"

definition SetGate :: "(string \<Rightarrow> bool option) option \<Rightarrow> MemoryQueue \<Rightarrow> MemoryQueue" where
  "SetGate g q = q\<lparr>gate := g\<rparr>"

section \<open>The pending store\<close>

definition heap_Less :: "pendingJob \<Rightarrow> pendingJob \<Rightarrow> bool" where
  "heap_Less a b \<longleftrightarrow>
     (if jPriority (pJob a) \<noteq> jPriority (pJob b) then jPriority (pJob a) > jPriority (pJob b)
      else pSeq a < pSeq b)"

fun scan_pending ::
  "(Job \<Rightarrow> bool) \<Rightarrow> gotime \<Rightarrow> pendingJob list \<Rightarrow> pendingJob option \<Rightarrow> gotime \<Rightarrow> pendingJob option \<times> gotime"
where
  "scan_pending match now [] best nextDue = (best, nextDue)"
| "scan_pending match now (p # ps) best nextDue =
     (if \<not> match (pJob p) then scan_pending match now ps best nextDue
      else if jScheduledAt (pJob p) > now
      then scan_pending match now ps best
             (if nextDue = 0 \<or> jScheduledAt (pJob p) < nextDue then jScheduledAt (pJob p) else nextDue)
      else scan_pending match now ps
             (case best of None \<Rightarrow> Some p | Some b \<Rightarrow> if heap_Less p b then Some p else best) nextDue)"

definition removeMatching ::
  "(Job \<Rightarrow> bool) \<Rightarrow> gotime \<Rightarrow> pendingJob list \<Rightarrow> pendingJob option \<times> gotime \<times> pendingJob list" where
  "removeMatching match now items =
     (case scan_pending match now items None 0 of
        (None, nextDue) \<Rightarrow> (None, nextDue, items)
      | (Some p, _) \<Rightarrow> (Some p, 0, remove1 p items))"

definition matchLane :: "string \<Rightarrow> Job \<Rightarrow> bool" where
  "matchLane lane j \<longleftrightarrow> (if lane = [] then True else jLane j = lane)"

definition matchTypes :: "string list \<Rightarrow> Job \<Rightarrow> bool" where
  "matchTypes types j \<longleftrightarrow> (if types = [] then True else jType j \<in> set types)"

definition pushLocked :: "Job \<Rightarrow> MemoryQueue \<Rightarrow> MemoryQueue" where
  "pushLocked job q =
     q\<lparr>seqNo := seqNo q + 1, pending := pending q @ [\<lparr>pJob = job, pSeq = seqNo q + 1\<rparr>]\<rparr>"

section \<open>Enqueue and unique keys\<close>

definition slot_of :: "Job \<Rightarrow> uniqueSlot" where
  "slot_of j = (jType j, jUniqueKey j)"

definition job_defaults :: "gotime \<Rightarrow> string \<Rightarrow> Job \<Rightarrow> Job" where
  "job_defaults now fresh job =
     (let j1 = (if jID job = [] then job\<lparr>jID := fresh\<rparr> else job);
          j2 = (if jCreatedAt j1 = 0 then j1\<lparr>jCreatedAt := now\<rparr> else j1)
      in if jMaxAttempts j2 = 0 then j2\<lparr>jMaxAttempts := 3\<rparr> else j2)"

definition enqueue_job ::
  "bool \<Rightarrow> gotime \<Rightarrow> string \<Rightarrow> bool \<Rightarrow> Job \<Rightarrow> MemoryQueue \<Rightarrow> queue_error option \<times> MemoryQueue" where
  "enqueue_job ctxDone now fresh acquire job0 q =
     (if ctxDone then (Some ErrContext, q)
      else let job = job_defaults now fresh job0 in
        if closed q then (Some ErrQueueClosed, q)
        else if acquire \<and> jUniqueKey job \<noteq> [] then
          (if slot_of job \<in> held q then (Some ErrDuplicateJob, q)
           else (None, pushLocked job (q\<lparr>held := insert (slot_of job) (held q)\<rparr>)))
        else (None, pushLocked job q))"

definition Enqueue ::
  "bool \<Rightarrow> gotime \<Rightarrow> string \<Rightarrow> Job \<Rightarrow> MemoryQueue \<Rightarrow> queue_error option \<times> MemoryQueue" where
  "Enqueue ctxDone now fresh job q = enqueue_job ctxDone now fresh True job q"

definition requeue ::
  "bool \<Rightarrow> gotime \<Rightarrow> string \<Rightarrow> Job \<Rightarrow> MemoryQueue \<Rightarrow> queue_error option \<times> MemoryQueue" where
  "requeue ctxDone now fresh job q = enqueue_job ctxDone now fresh False job q"

definition release :: "Job \<Rightarrow> MemoryQueue \<Rightarrow> MemoryQueue" where
  "release job q = (if jUniqueKey job = [] then q else q\<lparr>held := held q - {slot_of job}\<rparr>)"

section \<open>The dead-letter set\<close>

fun put_dead :: "deadJob \<Rightarrow> deadJob list \<Rightarrow> deadJob list" where
  "put_dead e [] = [e]"
| "put_dead e (d # ds) = (if jID (dJob d) = jID (dJob e) then e # ds else d # put_dead e ds)"

definition retainDead :: "Job \<Rightarrow> MemoryQueue \<Rightarrow> MemoryQueue" where
  "retainDead job q0 =
     (let q = release job q0 in
      if jID job = [] then q
      else let gen = deadSeq q + 1;
               ds = put_dead \<lparr>dJob = job, dGen = gen\<rparr> (dead q)
           in q\<lparr>deadSeq := gen, dead := drop (length ds - maxDeadJobs) ds\<rparr>)"

definition ListJobs :: "string \<Rightarrow> int \<Rightarrow> int \<Rightarrow> MemoryQueue \<Rightarrow> Job list" where
  "ListJobs status limit0 offset q =
     (if status \<noteq> [] \<and> status \<noteq> ''all'' \<and> status \<noteq> ''failed'' then []
      else let limit = (if limit0 \<le> 0 then 100 else limit0);
               skip = min (nat (max offset 0)) (length (dead q))
           in take (nat limit) (drop skip (rev (map dJob (dead q)))))"

definition Stats :: "MemoryQueue \<Rightarrow> (string \<times> nat) list" where
  "Stats q = (if length (dead q) > 0 then [(''failed'', length (dead q))] else [])"

section \<open>Manual consumption\<close>

definition trackInflight :: "Job \<Rightarrow> MemoryQueue \<Rightarrow> MemoryQueue" where
  "trackInflight job q =
     (if jID job = [] then q else q\<lparr>inflight := AList.update (jID job) job (inflight q)\<rparr>)"

definition takeInflight :: "string \<Rightarrow> MemoryQueue \<Rightarrow> Job option \<times> MemoryQueue" where
  "takeInflight jobID q =
     (case map_of (inflight q) jobID of
        None \<Rightarrow> (None, q)
      | Some job \<Rightarrow> (Some job, q\<lparr>inflight := AList.delete jobID (inflight q)\<rparr>))"

definition Dequeue ::
  "bool \<Rightarrow> gotime \<Rightarrow> string list \<Rightarrow> MemoryQueue \<Rightarrow> (queue_error + Job) \<times> MemoryQueue" where
  "Dequeue ctxDone now types q =
     (if ctxDone then (Inl ErrContext, q)
      else if closed q then (Inl ErrQueueClosed, q)
      else (case removeMatching (matchTypes types) now (pending q) of
              (None, _, _) \<Rightarrow> (Inl ErrNoJob, q)
            | (Some p, _, items) \<Rightarrow> (Inr (pJob p), trackInflight (pJob p) (q\<lparr>pending := items\<rparr>))))"

definition Ack :: "string \<Rightarrow> MemoryQueue \<Rightarrow> MemoryQueue" where
  "Ack jobID q =
     (case takeInflight jobID q of (None, q') \<Rightarrow> q' | (Some stored, q') \<Rightarrow> release stored q')"

definition Nack :: "bool \<Rightarrow> gotime \<Rightarrow> string \<Rightarrow> string \<Rightarrow> MemoryQueue \<Rightarrow> queue_error option \<times> MemoryQueue" where
  "Nack ctxDone now fresh jobID q =
     (case takeInflight jobID q of
        (None, q') \<Rightarrow> (None, q')
      | (Some stored0, q') \<Rightarrow>
          let stored = stored0\<lparr>jAttempts := jAttempts stored0 + 1\<rparr> in
          if jMaxAttempts stored > 0 \<and> jAttempts stored \<ge> jMaxAttempts stored
          then (None, retainDead stored q')
          else (case requeue ctxDone now fresh stored q' of
                  (None, q2) \<Rightarrow> (None, q2)
                | (Some e, q2) \<Rightarrow> (Some e, retainDead stored q2)))"

text \<open>\<^verbatim>\<open>Replay\<close> releases the dead list's lock between its re-enqueue and the removal of the record, so
  it is two steps; \<open>Replay\<close> is the call with nothing in between.\<close>

definition replay_enqueue ::
  "bool \<Rightarrow> gotime \<Rightarrow> string \<Rightarrow> string \<Rightarrow> MemoryQueue \<Rightarrow> (queue_error + nat option) \<times> MemoryQueue" where
  "replay_enqueue ctxDone now fresh jobID q =
     (case find (\<lambda>d. jID (dJob d) = jobID) (dead q) of
        None \<Rightarrow> (Inr None, q)
      | Some d \<Rightarrow>
          (case Enqueue ctxDone now fresh ((dJob d)\<lparr>jAttempts := 0\<rparr>) q of
             (Some e, q') \<Rightarrow> (Inl e, q')
           | (None, q') \<Rightarrow> (Inr (Some (dGen d)), q')))"

fun drop_gen :: "nat \<Rightarrow> deadJob list \<Rightarrow> deadJob list" where
  "drop_gen gen [] = []"
| "drop_gen gen (d # ds) = (if dGen d = gen then ds else d # drop_gen gen ds)"

definition replay_retire :: "nat \<Rightarrow> MemoryQueue \<Rightarrow> MemoryQueue" where
  "replay_retire gen q = q\<lparr>dead := drop_gen gen (dead q)\<rparr>"

definition Replay ::
  "bool \<Rightarrow> gotime \<Rightarrow> string \<Rightarrow> string \<Rightarrow> MemoryQueue \<Rightarrow> queue_error option \<times> MemoryQueue" where
  "Replay ctxDone now fresh jobID q =
     (case replay_enqueue ctxDone now fresh jobID q of
        (Inl e, q') \<Rightarrow> (Some e, q')
      | (Inr None, q') \<Rightarrow> (None, q')
      | (Inr (Some gen), q') \<Rightarrow> (None, replay_retire gen q'))"

section \<open>Workers\<close>

definition armWakeLocked :: "gotime \<Rightarrow> MemoryQueue \<Rightarrow> MemoryQueue" where
  "armWakeLocked at q = (if wakeAt q \<noteq> 0 \<and> \<not> at < wakeAt q then q else q\<lparr>wakeAt := at\<rparr>)"

definition fireWake :: "MemoryQueue \<Rightarrow> MemoryQueue" where
  "fireWake q = q\<lparr>wakeAt := 0\<rparr>"

datatype pop_result = Popped nat | Exit | Wait

definition waitAndPop :: "string \<Rightarrow> gotime \<Rightarrow> MemoryQueue \<Rightarrow> pop_result \<times> MemoryQueue" where
  "waitAndPop lane now q =
     (case removeMatching (matchLane lane) now (pending q) of
        (Some p, _, items) \<Rightarrow>
          (Popped (nextRun q),
           q\<lparr>pending := items, nextRun := nextRun q + 1,
             running := running q @ [\<lparr>rId = nextRun q, rJob = pJob p, rErased = False\<rparr>]\<rparr>)
      | (None, nextDue, _) \<Rightarrow>
          if closed q then (Exit, q)
          else (Wait, if nextDue \<noteq> 0 then armWakeLocked nextDue q else q))"

definition settleRunning :: "runningJob \<Rightarrow> (MemoryQueue \<Rightarrow> MemoryQueue) \<Rightarrow> MemoryQueue \<Rightarrow> MemoryQueue" where
  "settleRunning rj settle q =
     (let q' = q\<lparr>running := filter (\<lambda>r. rId r \<noteq> rId rj) (running q)\<rparr> in
      if rErased rj then q' else settle q')"

definition deferGated :: "gotime \<Rightarrow> Job \<Rightarrow> MemoryQueue \<Rightarrow> MemoryQueue" where
  "deferGated now job q =
     (if closed q then q else pushLocked (job\<lparr>jScheduledAt := now + gateDeferDelay\<rparr>) q)"

text \<open>\<^verbatim>\<open>gateAllows\<close>: a gate that panics (\<^term>\<open>None\<close>) fails closed.\<close>

definition gateAllows :: "(string \<Rightarrow> bool option) \<Rightarrow> string \<Rightarrow> bool" where
  "gateAllows g jobType = (case g jobType of Some b \<Rightarrow> b | None \<Rightarrow> False)"

text \<open>\<^verbatim>\<open>processJob\<close> of a run: \<open>ok\<close> says that the handler returned nil within its budget.\<close>

definition settle_failure :: "gotime \<Rightarrow> string \<Rightarrow> Job \<Rightarrow> MemoryQueue \<Rightarrow> MemoryQueue" where
  "settle_failure now fresh job0 q =
     (let job = job0\<lparr>jAttempts := jAttempts job0 + 1\<rparr> in
      if jAttempts job < jMaxAttempts job
      then (case requeue False now fresh job q of
              (None, q') \<Rightarrow> q'
            | (Some _, q') \<Rightarrow> retainDead job q')
      else retainDead job q)"

definition processJob :: "nat \<Rightarrow> bool \<Rightarrow> gotime \<Rightarrow> string \<Rightarrow> MemoryQueue \<Rightarrow> MemoryQueue" where
  "processJob run ok now fresh q =
     (case find (\<lambda>r. rId r = run) (running q) of
        None \<Rightarrow> q
      | Some rj \<Rightarrow>
          let job = rJob rj in
          if jType job \<notin> handlers q then settleRunning rj (retainDead job) q
          else if (case gate q of None \<Rightarrow> False | Some g \<Rightarrow> \<not> gateAllows g (jType job))
          then settleRunning rj (deferGated now job) q
          else if ok then settleRunning rj (release job) q
          else settleRunning rj (settle_failure now fresh job) q)"

section \<open>Erasure and shutdown\<close>

definition eraseUser :: "string \<Rightarrow> bool \<Rightarrow> MemoryQueue \<Rightarrow> nat \<times> MemoryQueue" where
  "eraseUser userID dryRun q =
     (let mine = (\<lambda>j. jUserID j = userID);
          gone = filter mine (map pJob (pending q)) @ filter mine (map snd (inflight q))
               @ map rJob (filter (\<lambda>r. mine (rJob r) \<and> \<not> rErased r) (running q));
          n = length gone + length (filter (\<lambda>d. mine (dJob d)) (dead q))
      in if dryRun then (n, q)
         else (n, fold release gone
                (q\<lparr>pending := filter (\<lambda>p. \<not> mine (pJob p)) (pending q),
                   inflight := filter (\<lambda>(_, j). \<not> mine j) (inflight q),
                   running := map (\<lambda>r. if mine (rJob r) \<and> \<not> rErased r then r\<lparr>rErased := True\<rparr> else r) (running q),
                   dead := filter (\<lambda>d. \<not> mine (dJob d)) (dead q)\<rparr>)))"

definition Close :: "MemoryQueue \<Rightarrow> MemoryQueue" where
  "Close q = (if closed q then q else q\<lparr>closed := True\<rparr>)"

section \<open>Selection\<close>

definition due_match :: "(Job \<Rightarrow> bool) \<Rightarrow> gotime \<Rightarrow> pendingJob \<Rightarrow> bool" where
  "due_match match now p \<longleftrightarrow> match (pJob p) \<and> \<not> jScheduledAt (pJob p) > now"

definition held_back :: "(Job \<Rightarrow> bool) \<Rightarrow> gotime \<Rightarrow> pendingJob \<Rightarrow> bool" where
  "held_back match now p \<longleftrightarrow> match (pJob p) \<and> jScheduledAt (pJob p) > now"

lemma heap_Less_irrefl [simp]: "\<not> heap_Less p p"
  by (simp add: heap_Less_def)

lemma heap_Less_trans: "heap_Less a b \<Longrightarrow> heap_Less b c \<Longrightarrow> heap_Less a c"
  by (auto simp: heap_Less_def split: if_splits)

lemma heap_Less_linear: "pSeq a \<noteq> pSeq b \<Longrightarrow> heap_Less a b \<or> heap_Less b a"
  by (auto simp: heap_Less_def)

lemma heap_Less_neg_trans: "\<not> heap_Less a b \<Longrightarrow> \<not> heap_Less b c \<Longrightarrow> \<not> heap_Less a c"
  by (auto simp: heap_Less_def split: if_splits)

lemma scan_pending_best:
  "fst (scan_pending match now ps best nd) = b \<Longrightarrow>
     (case b of
        None \<Rightarrow> best = None \<and> (\<forall>p\<in>set ps. \<not> due_match match now p)
      | Some x \<Rightarrow> (best = Some x \<or> x \<in> set ps \<and> due_match match now x)
          \<and> (\<forall>p\<in>set ps. due_match match now p \<longrightarrow> \<not> heap_Less p x)
          \<and> (\<forall>y. best = Some y \<longrightarrow> \<not> heap_Less y x))"
proof (induction match now ps best nd arbitrary: b rule: scan_pending.induct)
  case (1 match now best nd)
  then show ?case by (auto split: option.splits)
next
  case (2 match now p ps best nd)
  show ?case
  proof (cases "due_match match now p")
    case False
    with 2 show ?thesis by (auto simp: due_match_def split: if_splits option.splits)
  next
    case True
    let ?best = "case best of None \<Rightarrow> Some p | Some b \<Rightarrow> if heap_Less p b then Some p else best"
    have "fst (scan_pending match now ps ?best nd) = b"
      using True "2.prems" by (simp add: due_match_def)
    from "2.IH"(3) [OF _ _ this] True
    have IH: "case b of
        None \<Rightarrow> ?best = None \<and> (\<forall>p\<in>set ps. \<not> due_match match now p)
      | Some x \<Rightarrow> (?best = Some x \<or> x \<in> set ps \<and> due_match match now x)
          \<and> (\<forall>p\<in>set ps. due_match match now p \<longrightarrow> \<not> heap_Less p x)
          \<and> (\<forall>y. ?best = Some y \<longrightarrow> \<not> heap_Less y x)"
      by (simp add: due_match_def)
    show ?thesis
    proof (cases best)
      case None
      with IH True show ?thesis by (auto split: option.splits)
    next
      case (Some y)
      with IH True show ?thesis
        by (auto split: option.splits if_splits dest: heap_Less_neg_trans heap_Less_trans)
    qed
  qed
qed

definition earlier :: "gotime \<Rightarrow> gotime \<Rightarrow> gotime" where
  "earlier t nextDue = (if nextDue = 0 \<or> t < nextDue then t else nextDue)"

lemma scan_pending_nextDue:
  "snd (scan_pending match now ps best nd)
   = fold earlier (map (\<lambda>p. jScheduledAt (pJob p)) (filter (held_back match now) ps)) nd"
  by (induction match now ps best nd rule: scan_pending.induct) (auto simp: held_back_def earlier_def)

lemma fold_earlier:
  assumes "\<forall>t\<in>set ts. 0 < t" "0 \<le> nd"
  shows "fold earlier ts nd = (if nd = 0 then (if ts = [] then 0 else Min (set ts)) else Min (insert nd (set ts)))"
  using assms
proof (induction ts arbitrary: nd)
  case (Cons t ts)
  have pos: "0 < earlier t nd" using Cons.prems by (auto simp: earlier_def)
  have min: "earlier t nd = (if nd = 0 then t else min t nd)" by (auto simp: earlier_def)
  have "fold earlier (t # ts) nd = Min (insert (earlier t nd) (set ts))"
    using Cons.IH [of "earlier t nd"] Cons.prems pos by simp
  then show ?case unfolding min by (cases "ts = []") (auto simp: min.assoc min.left_commute)
qed simp

lemma removeMatching_eq:
  "removeMatching match now items =
     (case fst (scan_pending match now items None 0) of
        None \<Rightarrow> (None, snd (scan_pending match now items None 0), items)
      | Some p \<Rightarrow> (Some p, 0, remove1 p items))"
  by (simp add: removeMatching_def split: prod.splits option.splits)

lemma removeMatching_Some:
  assumes "removeMatching match now items = (Some p, nd, items')"
  shows "p \<in> set items" "due_match match now p" "items' = remove1 p items" "nd = 0"
    "x \<in> set items \<Longrightarrow> due_match match now x \<Longrightarrow> \<not> heap_Less x p"
  using assms scan_pending_best [where match = match and now = now and ps = items and best = None and nd = 0, OF refl]
  by (auto simp: removeMatching_eq split: option.splits)

lemma removeMatching_None:
  assumes "removeMatching match now items = (None, nd, items')"
  shows "items' = items" "x \<in> set items \<Longrightarrow> \<not> due_match match now x"
    "nd = fold earlier (map (\<lambda>p. jScheduledAt (pJob p)) (filter (held_back match now) items)) 0"
  using assms scan_pending_best [where match = match and now = now and ps = items and best = None and nd = 0, OF refl]
    scan_pending_nextDue [of match now items None 0]
  by (auto simp: removeMatching_eq split: option.splits)

lemma removeMatching_perm:
  assumes "mset items = mset items'" "distinct (map pSeq items)"
  shows "fst (removeMatching match now items) = fst (removeMatching match now items')"
    "mset (snd (snd (removeMatching match now items))) = mset (snd (snd (removeMatching match now items')))"
proof -
  obtain a x xs where A: "removeMatching match now items = (a, x, xs)" by (cases "removeMatching match now items") auto
  obtain b y ys where B: "removeMatching match now items' = (b, y, ys)" by (cases "removeMatching match now items'") auto
  note sets = mset_eq_setD [OF assms(1)]
  have "a = b"
  proof (cases a)
    case None
    with A B sets show ?thesis
      by (cases b) (auto dest: removeMatching_None(2) removeMatching_Some(1,2))
  next
    case (Some p)
    show ?thesis
    proof (cases b)
      case None
      with A B Some sets show ?thesis by (metis removeMatching_None(2) removeMatching_Some(1,2))
    next
      case (Some p')
      with \<open>a = Some p\<close> A B sets have "\<not> heap_Less p' p" "\<not> heap_Less p p'" "p \<in> set items" "p' \<in> set items"
        by (metis removeMatching_Some(1,2,5))+
      then have "pSeq p = pSeq p'" using heap_Less_linear by blast
      with \<open>p \<in> set items\<close> \<open>p' \<in> set items\<close> assms(2) have "p = p'" by (auto simp: distinct_map inj_on_def)
      with Some \<open>a = Some p\<close> show ?thesis by simp
    qed
  qed
  with A B show "fst (removeMatching match now items) = fst (removeMatching match now items')" by simp
  have "mset xs = mset ys"
  proof (cases a)
    case None
    with \<open>a = b\<close> A B assms(1) show ?thesis by (metis removeMatching_None(1))
  next
    case (Some p)
    with \<open>a = b\<close> A B assms(1) show ?thesis by (metis removeMatching_Some(3) mset_remove1)
  qed
  with A B show "mset (snd (snd (removeMatching match now items))) = mset (snd (snd (removeMatching match now items')))"
    by simp
qed


section \<open>Unique keys\<close>

definition live :: "MemoryQueue \<Rightarrow> Job multiset" where
  "live q = mset (map pJob (pending q)) + mset (map snd (inflight q))
          + mset (map rJob (filter (\<lambda>r. \<not> rErased r) (running q)))"

definition holders :: "uniqueSlot \<Rightarrow> Job multiset \<Rightarrow> nat" where
  "holders s J = size {#j \<in># J. jUniqueKey j \<noteq> [] \<and> slot_of j = s#}"

definition keys_ok :: "Job multiset \<Rightarrow> uniqueSlot set \<Rightarrow> bool" where
  "keys_ok J H \<longleftrightarrow> (\<forall>s. holders s J \<le> (if s \<in> H then 1 else 0))"

lemma keys_okD: "keys_ok J H \<Longrightarrow> holders s J \<le> (if s \<in> H then 1 else 0)"
  unfolding keys_ok_def by blast

lemma keys_okI: "(\<And>s. holders s J \<le> (if s \<in> H then 1 else 0)) \<Longrightarrow> keys_ok J H"
  unfolding keys_ok_def by blast

lemma holders_simps [simp]:
  "holders s {#} = 0"
  "holders s (add_mset j J) = (if jUniqueKey j \<noteq> [] \<and> slot_of j = s then 1 else 0) + holders s J"
  "holders s (J + K) = holders s J + holders s K"
  by (auto simp: holders_def)

lemma holders_mono: "J \<subseteq># K \<Longrightarrow> holders s J \<le> holders s K"
  by (auto simp: holders_def intro: size_mset_mono multiset_filter_mono)

lemma keys_ok_mono: "keys_ok K H \<Longrightarrow> J \<subseteq># K \<Longrightarrow> keys_ok J H"
  unfolding keys_ok_def by (meson holders_mono le_trans)

lemma keys_ok_same: "keys_ok (add_mset j J) H \<Longrightarrow> slot_of j' = slot_of j \<Longrightarrow> keys_ok (add_mset j' J) H"
  by (auto simp: keys_ok_def slot_of_def)

lemma keys_ok_unkeyed: "jUniqueKey j = [] \<Longrightarrow> keys_ok (add_mset j J) H = keys_ok J H"
  by (auto simp: keys_ok_def)

lemma keys_ok_acquire:
  assumes "keys_ok J H" "slot_of j \<notin> H"
  shows "keys_ok (add_mset j J) (insert (slot_of j) H)"
proof (rule keys_okI)
  fix s
  show "holders s (add_mset j J) \<le> (if s \<in> insert (slot_of j) H then 1 else 0)"
    using keys_okD [OF assms(1), of s] assms(2) by (auto split: if_splits)
qed

lemma held_release: "held (release j q) = (if jUniqueKey j = [] then held q else held q - {slot_of j})"
  by (simp add: release_def)

lemma release_simps [simp]:
  "pending (release j q) = pending q" "inflight (release j q) = inflight q" "running (release j q) = running q"
  "seqNo (release j q) = seqNo q" "closed (release j q) = closed q" "wakeAt (release j q) = wakeAt q"
  "dead (release j q) = dead q" "deadSeq (release j q) = deadSeq q" "nextRun (release j q) = nextRun q"
  "handlers (release j q) = handlers q" "gate (release j q) = gate q"
  by (simp_all add: release_def)

lemma live_release [simp]: "live (release j q) = live q"
  by (simp add: live_def)

lemma keys_ok_release:
  assumes "keys_ok (add_mset j J) (held q)"
  shows "keys_ok J (held (release j q))"
proof (rule keys_okI)
  fix s
  show "holders s J \<le> (if s \<in> held (release j q) then 1 else 0)"
    using keys_okD [OF assms(1), of s] by (auto simp: held_release split: if_splits)
qed

lemma keys_ok_release_all:
  "keys_ok (mset js + J) (held q) \<Longrightarrow> keys_ok J (held (fold release js q))"
proof (induction js arbitrary: q)
  case (Cons j js)
  then show ?case using keys_ok_release [of j "mset js + J" q] by simp
qed simp

lemma slot_of_simps [simp]:
  "slot_of (j\<lparr>jAttempts := a\<rparr>) = slot_of j" "slot_of (j\<lparr>jScheduledAt := t\<rparr>) = slot_of j"
  "slot_of (j\<lparr>jID := i\<rparr>) = slot_of j" "slot_of (j\<lparr>jCreatedAt := t\<rparr>) = slot_of j"
  "slot_of (j\<lparr>jMaxAttempts := a\<rparr>) = slot_of j"
  by (simp_all add: slot_of_def)

lemma job_defaults_simps [simp]:
  "slot_of (job_defaults now fresh j) = slot_of j"
  "jUniqueKey (job_defaults now fresh j) = jUniqueKey j"
  "jUserID (job_defaults now fresh j) = jUserID j"
  "jAttempts (job_defaults now fresh j) = jAttempts j"
  "jMaxAttempts (job_defaults now fresh j) \<noteq> 0"
  "jID j \<noteq> [] \<Longrightarrow> jID (job_defaults now fresh j) = jID j"
  by (simp_all add: job_defaults_def Let_def)

lemma live_push [simp]: "live (pushLocked j q) = add_mset j (live q)"
  by (simp add: live_def pushLocked_def)

lemma push_simps [simp]:
  "held (pushLocked j q) = held q" "inflight (pushLocked j q) = inflight q" "running (pushLocked j q) = running q"
  "closed (pushLocked j q) = closed q" "wakeAt (pushLocked j q) = wakeAt q" "dead (pushLocked j q) = dead q"
  "deadSeq (pushLocked j q) = deadSeq q" "nextRun (pushLocked j q) = nextRun q"
  by (simp_all add: pushLocked_def)

lemma live_upd [simp]:
  "live (q\<lparr>held := h\<rparr>) = live q" "live (q\<lparr>dead := d\<rparr>) = live q" "live (q\<lparr>deadSeq := n\<rparr>) = live q"
  "live (q\<lparr>wakeAt := t\<rparr>) = live q" "live (q\<lparr>closed := b\<rparr>) = live q" "live (q\<lparr>gate := g\<rparr>) = live q"
  "live (q\<lparr>handlers := hs\<rparr>) = live q"
  by (simp_all add: live_def)

definition keysOK :: "MemoryQueue \<Rightarrow> bool" where
  "keysOK q \<longleftrightarrow> keys_ok (live q) (held q)"

lemma keysOK_enqueue: "keysOK q \<Longrightarrow> keysOK (snd (enqueue_job c now fresh True j q))"
  by (auto simp: keysOK_def enqueue_job_def Let_def keys_ok_acquire [where j = "job_defaults now fresh j", simplified]
    keys_ok_unkeyed)

lemma live_retainDead [simp]: "live (retainDead j q) = live q" and held_retainDead [simp]: "held (retainDead j q) = held (release j q)"
  by (simp_all add: retainDead_def Let_def)

section \<open>Steps and the invariant\<close>

inductive mq_step :: "MemoryQueue \<Rightarrow> MemoryQueue \<Rightarrow> bool" where
  step_handler: "mq_step q (RegisterHandler jobType q)"
| step_gate: "mq_step q (SetGate g q)"
| step_enqueue: "mq_step q (snd (Enqueue c now fresh job q))"
| step_dequeue: "mq_step q (snd (Dequeue c now types q))"
| step_ack: "mq_step q (Ack jobID q)"
| step_nack: "mq_step q (snd (Nack c now fresh jobID q))"
| step_replay: "mq_step q (snd (replay_enqueue c now fresh jobID q))"
| step_retire: "mq_step q (replay_retire gen q)"
| step_pop: "mq_step q (snd (waitAndPop lane now q))"
| step_wake: "mq_step q (fireWake q)"
| step_process: "mq_step q (processJob run ok now fresh q)"
| step_erase: "mq_step q (snd (eraseUser userID dryRun q))"
| step_close: "mq_step q (Close q)"

inductive mq_reachable :: "MemoryQueue \<Rightarrow> bool" where
  reach_new: "mq_reachable NewMemoryQueue"
| reach_step: "mq_reachable q \<Longrightarrow> mq_step q q' \<Longrightarrow> mq_reachable q'"

lemmas step_defs = RegisterHandler_def SetGate_def replay_retire_def fireWake_def Close_def

subsection \<open>Live jobs\<close>

lemma mset_remove1_map: "x \<in> set xs \<Longrightarrow> mset (map f xs) = add_mset (f x) (mset (map f (remove1 x xs)))"
  by (induction xs) auto

lemma mset_update_subset: "mset (map snd (AList.update k v al)) \<subseteq># add_mset v (mset (map snd al))"
  by (induction al) (auto intro: subset_mset.order_trans simp: add_mset_commute)

lemma mset_delete_subset:
  "map_of al k = Some v \<Longrightarrow> add_mset v (mset (map snd (AList.delete k al))) \<subseteq># mset (map snd al)"
proof (induction al)
  case (Cons a al)
  have "mset (map snd (AList.delete k al)) \<subseteq># mset (map snd al)"
    by (simp add: AList.delete_eq image_mset_subseteq_mono multiset_filter_subset)
  with Cons show ?case by (cases a) (auto split: if_splits)
qed simp

lemma mset_filter_subset: "mset (map f (filter P (filter Q xs))) \<subseteq># mset (map f (filter P xs))"
  unfolding mset_map mset_filter
  by (rule image_mset_subseteq_mono) (rule multiset_filter_mono, rule multiset_filter_subset)

lemma mset_filter_two:
  "x \<in> set xs \<Longrightarrow> P x \<Longrightarrow> \<not> Q x \<Longrightarrow>
     add_mset (f x) (mset (map f (filter P (filter Q xs)))) \<subseteq># mset (map f (filter P xs))"
proof (induction xs)
  case (Cons a xs)
  with mset_filter_subset [of f P Q xs] show ?case
    by (cases "a = x") (auto intro: subset_mset.order_trans simp del: mset_map mset_filter)
qed simp


lemma live_dequeue:
  assumes "removeMatching match now (pending q) = (Some p, nd, items)"
  shows "live (trackInflight (pJob p) (q\<lparr>pending := items\<rparr>)) \<subseteq># live q"
    "live q = add_mset (pJob p) (live (q\<lparr>pending := items\<rparr>))"
proof -
  have p: "p \<in> set (pending q)" "items = remove1 p (pending q)"
    using removeMatching_Some [OF assms] by auto
  then show eq: "live q = add_mset (pJob p) (live (q\<lparr>pending := items\<rparr>))"
    by (simp add: live_def mset_remove1_map del: mset_map mset_remove1)
  have "mset (map snd (inflight (trackInflight (pJob p) q))) \<subseteq># add_mset (pJob p) (mset (map snd (inflight q)))"
    using mset_update_subset by (auto simp: trackInflight_def simp del: mset_map)
  then show "live (trackInflight (pJob p) (q\<lparr>pending := items\<rparr>)) \<subseteq># live q"
    unfolding eq by (auto simp: live_def trackInflight_def simp del: mset_map)
qed

lemma live_takeInflight:
  assumes "takeInflight i q = (r, q')"
  shows "held q' = held q" "(case r of None \<Rightarrow> q' = q | Some j \<Rightarrow> add_mset j (live q') \<subseteq># live q)"
  using assms mset_delete_subset [of "inflight q" i]
  by (auto simp: takeInflight_def live_def split: option.splits simp del: mset_map)

lemma keysOK_retainDead: "keys_ok (add_mset j (live q)) (held q) \<Longrightarrow> keysOK (retainDead j q)"
  by (simp add: keysOK_def keys_ok_release)

lemma keysOK_requeue:
  assumes "keys_ok (add_mset j (live q)) (held q)" "requeue c now fresh j q = (e, q')"
  shows "case e of None \<Rightarrow> keysOK q' | Some _ \<Rightarrow> q' = q"
  using assms keys_ok_same [of j "live q" "held q" "job_defaults now fresh j"]
  by (auto simp: requeue_def enqueue_job_def Let_def keysOK_def split: if_splits)

lemma keysOK_settle_failure: "keys_ok (add_mset j (live q)) (held q) \<Longrightarrow> keysOK (settle_failure now fresh j q)"
proof -
  assume "keys_ok (add_mset j (live q)) (held q)"
  then have ok: "keys_ok (add_mset (j\<lparr>jAttempts := jAttempts j + 1\<rparr>) (live q)) (held q)"
    by (rule keys_ok_same) simp
  show ?thesis
    using keysOK_requeue [OF ok] keysOK_retainDead [OF ok]
    by (fastforce simp: settle_failure_def Let_def split: prod.splits option.splits)
qed

lemma keysOK_deferGated: "keys_ok (add_mset j (live q)) (held q) \<Longrightarrow> keysOK (deferGated now j q)"
  by (auto simp: deferGated_def keysOK_def intro: keys_ok_same keys_ok_mono)

lemma keysOK_release: "keys_ok (add_mset j (live q)) (held q) \<Longrightarrow> keysOK (release j q)"
  by (simp add: keysOK_def keys_ok_release)

lemma keysOK_settleRunning:
  assumes "keysOK q" "rj \<in> set (running q)"
    and settle: "\<And>q. keys_ok (add_mset (rJob rj) (live q)) (held q) \<Longrightarrow> keysOK (settle q)"
  shows "keysOK (settleRunning rj settle q)"
proof -
  let ?q = "q\<lparr>running := filter (\<lambda>r. rId r \<noteq> rId rj) (running q)\<rparr>"
  have "live ?q \<subseteq># live q"
    using mset_filter_subset [of rJob "\<lambda>r. \<not> rErased r" "\<lambda>r. rId r \<noteq> rId rj" "running q"]
    by (simp add: live_def del: mset_map mset_filter filter_filter)
  moreover have "\<not> rErased rj \<Longrightarrow> add_mset (rJob rj) (live ?q) \<subseteq># live q"
    using mset_filter_two [OF assms(2), of "\<lambda>r. \<not> rErased r" "\<lambda>r. rId r \<noteq> rId rj" rJob]
    by (simp add: live_def del: mset_map mset_filter filter_filter)
  ultimately show ?thesis
    using assms(1) settle [of ?q] unfolding settleRunning_def Let_def
    by (auto simp: keysOK_def intro: keys_ok_mono)
qed

lemma keysOK_processJob: "keysOK q \<Longrightarrow> keysOK (processJob run ok now fresh q)"
  unfolding processJob_def Let_def
  by (auto split: option.split simp: find_Some_iff
    intro!: keysOK_settleRunning keysOK_retainDead keysOK_deferGated keysOK_release keysOK_settle_failure)


lemma fold_release_simps [simp]:
  "pending (fold release js q) = pending q" "inflight (fold release js q) = inflight q"
  "running (fold release js q) = running q" "seqNo (fold release js q) = seqNo q"
  "dead (fold release js q) = dead q" "deadSeq (fold release js q) = deadSeq q"
  "nextRun (fold release js q) = nextRun q"
  by (induction js arbitrary: q) simp_all

lemma live_fold_release [simp]: "live (fold release js q) = live q"
  by (simp add: live_def)

lemma mset_map_partition: "mset (map f xs) = mset (map f (filter P xs)) + mset (map f (filter (\<lambda>x. \<not> P x) xs))"
  by (induction xs) auto

lemma mset_jobs_filter:
  "mset (map pJob (filter (\<lambda>p. P (pJob p)) ps)) = {#j \<in># mset (map pJob ps). P j#}"
  "mset (map snd (filter (\<lambda>(_, j). P j) al)) = {#j \<in># mset (map snd al). P j#}"
  "mset (map rJob (filter (\<lambda>r. P (rJob r) \<and> \<not> rErased r) rs))
     = {#j \<in># mset (map rJob (filter (\<lambda>r. \<not> rErased r) rs)). P j#}"
  "mset (map rJob (filter (\<lambda>r. \<not> rErased r)
     (map (\<lambda>r. if \<not> P (rJob r) \<and> \<not> rErased r then r\<lparr>rErased := True\<rparr> else r) rs)))
     = {#j \<in># mset (map rJob (filter (\<lambda>r. \<not> rErased r) rs)). P j#}"
  by (induction ps; simp; fail | induction al; auto; fail | induction rs; simp; fail)+

lemma live_erase:
  "live (q\<lparr>pending := filter (\<lambda>p. P (pJob p)) (pending q),
           inflight := filter (\<lambda>(_, j). P j) (inflight q),
           running := map (\<lambda>r. if \<not> P (rJob r) \<and> \<not> rErased r then r\<lparr>rErased := True\<rparr> else r) (running q),
           dead := filter (\<lambda>d. P (dJob d)) (dead q)\<rparr>) = {#j \<in># live q. P j#}"
  by (simp add: live_def mset_jobs_filter del: mset_map mset_filter)

lemma gone_live:
  "mset (filter P (map pJob (pending q))) + (mset (filter P (map snd (inflight q)))
     + mset (map rJob (filter (\<lambda>r. P (rJob r) \<and> \<not> rErased r) (running q)))) = {#j \<in># live q. P j#}"
  unfolding mset_jobs_filter(3) live_def by simp

lemma eraseUser_eq:
  "eraseUser u dry q =
    (let gone = filter (\<lambda>j. jUserID j = u) (map pJob (pending q)) @ filter (\<lambda>j. jUserID j = u) (map snd (inflight q))
         @ map rJob (filter (\<lambda>r. jUserID (rJob r) = u \<and> \<not> rErased r) (running q))
     in (size {#j \<in># live q. jUserID j = u#} + length (filter (\<lambda>d. jUserID (dJob d) = u) (dead q)),
         if dry then q
         else fold release gone
                (q\<lparr>pending := filter (\<lambda>p. jUserID (pJob p) \<noteq> u) (pending q),
                   inflight := filter (\<lambda>(_, j). jUserID j \<noteq> u) (inflight q),
                   running := map (\<lambda>r. if jUserID (rJob r) = u \<and> \<not> rErased r then r\<lparr>rErased := True\<rparr> else r) (running q),
                   dead := filter (\<lambda>d. jUserID (dJob d) \<noteq> u) (dead q)\<rparr>)))"
  using arg_cong [OF gone_live [of "\<lambda>j. jUserID j = u" q], of size]
  unfolding eraseUser_def Let_def by (simp add: add.assoc [symmetric] del: mset_map mset_filter)

lemma live_eraseUser: "live (snd (eraseUser u dry q)) = (if dry then live q else {#j \<in># live q. jUserID j \<noteq> u#})"
  using live_erase [where q = q and P = "\<lambda>j. jUserID j \<noteq> u"] by (simp add: eraseUser_eq Let_def)

lemma keysOK_eraseUser:
  assumes "keysOK q"
  shows "keysOK (snd (eraseUser u dry q))"
proof (cases dry)
  case True
  with assms show ?thesis by (simp add: eraseUser_eq Let_def)
next
  case False
  let ?gone = "filter (\<lambda>j. jUserID j = u) (map pJob (pending q)) @ filter (\<lambda>j. jUserID j = u) (map snd (inflight q))
         @ map rJob (filter (\<lambda>r. jUserID (rJob r) = u \<and> \<not> rErased r) (running q))"
  have gone: "mset ?gone = {#j \<in># live q. jUserID j = u#}"
    unfolding mset_append by (rule gone_live)
  from assms multiset_partition [of "live q" "\<lambda>j. jUserID j = u"]
  have "keys_ok (mset ?gone + {#j \<in># live q. jUserID j \<noteq> u#}) (held q)"
    unfolding gone keysOK_def by simp
  with False show ?thesis
    unfolding keysOK_def live_eraseUser by (simp add: eraseUser_eq Let_def keys_ok_release_all del: mset_append fold_append)
qed


lemma keysOK_Dequeue: "keysOK q \<Longrightarrow> keysOK (snd (Dequeue c now types q))"
  by (auto simp: Dequeue_def keysOK_def trackInflight_def split: prod.splits option.splits
    dest!: live_dequeue(1) intro: keys_ok_mono)

lemma keysOK_Ack: "keysOK q \<Longrightarrow> keysOK (Ack i q)"
  using live_takeInflight [of i q]
  by (auto simp: Ack_def keysOK_def split: prod.split option.split intro!: keys_ok_release intro: keys_ok_mono)

lemma keysOK_Nack:
  assumes "keysOK q"
  shows "keysOK (snd (Nack c now fresh i q))"
proof (cases "takeInflight i q")
  case (Pair r q')
  note t = live_takeInflight [OF Pair]
  show ?thesis
  proof (cases r)
    case None
    with assms t Pair show ?thesis by (simp add: Nack_def)
  next
    case (Some j)
    let ?j = "j\<lparr>jAttempts := jAttempts j + 1\<rparr>"
    have "keys_ok (add_mset j (live q')) (held q')"
      using assms t Some by (auto simp: keysOK_def intro: keys_ok_mono)
    then have ok: "keys_ok (add_mset ?j (live q')) (held q')" by (rule keys_ok_same) simp
    show ?thesis
      using keysOK_requeue [OF ok] keysOK_retainDead [OF ok] Pair Some
      by (fastforce simp: Nack_def Let_def split: prod.splits option.splits)
  qed
qed

lemma replay_enqueue_state:
  "snd (replay_enqueue c now fresh i q) =
     (case find (\<lambda>d. jID (dJob d) = i) (dead q) of
        None \<Rightarrow> q | Some d \<Rightarrow> snd (enqueue_job c now fresh True ((dJob d)\<lparr>jAttempts := 0\<rparr>) q))"
  by (auto simp: replay_enqueue_def Enqueue_def split: prod.split option.split)

lemma keysOK_replay: "keysOK q \<Longrightarrow> keysOK (snd (replay_enqueue c now fresh i q))"
  by (auto simp: replay_enqueue_state keysOK_enqueue split: option.split)

lemma waitAndPop_live: "live (snd (waitAndPop lane now q)) = live q"
  and waitAndPop_held: "held (snd (waitAndPop lane now q)) = held q"
proof -
  obtain r nd items where R: "removeMatching (matchLane lane) now (pending q) = (r, nd, items)"
    by (cases "removeMatching (matchLane lane) now (pending q)") auto
  show "live (snd (waitAndPop lane now q)) = live q"
  proof (cases r)
    case None
    with R show ?thesis by (simp add: waitAndPop_def armWakeLocked_def)
  next
    case (Some p)
    with R live_dequeue(2) [of "matchLane lane" now q p nd items] show ?thesis
      by (simp add: waitAndPop_def) (simp add: live_def)
  qed
  from R show "held (snd (waitAndPop lane now q)) = held q"
    by (cases r) (simp_all add: waitAndPop_def armWakeLocked_def)
qed

lemma keysOK_waitAndPop: "keysOK q \<Longrightarrow> keysOK (snd (waitAndPop lane now q))"
  by (simp add: keysOK_def waitAndPop_live waitAndPop_held)

lemma keysOK_step: "mq_step q q' \<Longrightarrow> keysOK q \<Longrightarrow> keysOK q'"
proof (induction rule: mq_step.induct)
  case (step_enqueue q c now fresh job)
  then show ?case by (simp add: Enqueue_def keysOK_enqueue)
qed (simp_all add: keysOK_Dequeue keysOK_Ack keysOK_Nack keysOK_replay keysOK_waitAndPop keysOK_processJob
    keysOK_eraseUser, simp_all add: keysOK_def step_defs)

lemma keysOK_reachable: "mq_reachable q \<Longrightarrow> keysOK q"
proof (induction rule: mq_reachable.induct)
  case reach_new
  show ?case by (simp add: keysOK_def keys_ok_def live_def NewMemoryQueue_def)
qed (rule keysOK_step)


subsection \<open>Sequence numbers, runs and the dead-letter set\<close>

definition seqs_ok :: "MemoryQueue \<Rightarrow> bool" where
  "seqs_ok q \<longleftrightarrow> sorted_wrt (<) (map pSeq (pending q)) \<and> list_all (\<lambda>p. pSeq p \<le> seqNo q) (pending q)"

definition runs_ok :: "MemoryQueue \<Rightarrow> bool" where
  "runs_ok q \<longleftrightarrow> distinct (map rId (running q)) \<and> list_all (\<lambda>r. rId r < nextRun q) (running q)"

definition dead_ok :: "MemoryQueue \<Rightarrow> bool" where
  "dead_ok q \<longleftrightarrow> length (dead q) \<le> maxDeadJobs \<and> distinct (map (\<lambda>d. jID (dJob d)) (dead q))
     \<and> distinct (map dGen (dead q)) \<and> list_all (\<lambda>d. dGen d \<le> deadSeq q \<and> jID (dJob d) \<noteq> []) (dead q)"

definition inflight_ok :: "MemoryQueue \<Rightarrow> bool" where
  "inflight_ok q \<longleftrightarrow> distinct (map fst (inflight q)) \<and> list_all (\<lambda>(i, j). i = jID j \<and> i \<noteq> []) (inflight q)"

lemma put_dead_set: "set (put_dead e ds) \<subseteq> insert e (set ds)"
  by (induction ds) auto

lemma put_dead_ids:
  "map (\<lambda>d. jID (dJob d)) (put_dead e ds)
   = (let ids = map (\<lambda>d. jID (dJob d)) ds in if jID (dJob e) \<in> set ids then ids else ids @ [jID (dJob e)])"
  by (induction ds) (auto simp: Let_def)

lemma put_dead_gens:
  "distinct (map dGen ds) \<Longrightarrow> dGen e \<notin> dGen ` set ds \<Longrightarrow> distinct (map dGen (put_dead e ds))"
  using put_dead_set by (induction ds) fastforce+

lemma put_dead_length: "length (put_dead e ds) \<le> length ds + 1"
  by (induction ds) auto

lemma dead_ok_retainDead: "dead_ok q \<Longrightarrow> dead_ok (retainDead j q)"
proof -
  assume ok: "dead_ok q"
  let ?e = "\<lparr>dJob = j, dGen = deadSeq q + 1\<rparr>"
  let ?ds = "put_dead ?e (dead q)"
  have "distinct (map (\<lambda>d. jID (dJob d)) ?ds)"
    using ok by (auto simp: put_dead_ids Let_def dead_ok_def)
  moreover have "distinct (map dGen ?ds)"
    using ok by (intro put_dead_gens) (auto simp: dead_ok_def list_all_iff)
  moreover have "jID j \<noteq> [] \<Longrightarrow> list_all (\<lambda>d. dGen d \<le> deadSeq q + 1 \<and> jID (dJob d) \<noteq> []) ?ds"
    using ok put_dead_set [of ?e "dead q"] by (fastforce simp: dead_ok_def list_all_iff)
  ultimately show ?thesis
    using ok put_dead_length [of ?e "dead q"] set_drop_subset [of "length ?ds - maxDeadJobs" ?ds]
    by (auto simp: dead_ok_def retainDead_def Let_def list_all_iff drop_map [symmetric] distinct_drop simp del: put_dead.simps)
qed


definition struct_ok :: "MemoryQueue \<Rightarrow> bool" where
  "struct_ok q \<longleftrightarrow> seqs_ok q \<and> runs_ok q \<and> dead_ok q \<and> inflight_ok q"

lemmas struct_defs = struct_ok_def seqs_ok_def runs_ok_def dead_ok_def inflight_ok_def

lemma struct_ok_upd [simp]:
  "struct_ok (q\<lparr>held := h\<rparr>) = struct_ok q" "struct_ok (q\<lparr>wakeAt := t\<rparr>) = struct_ok q"
  "struct_ok (q\<lparr>closed := b\<rparr>) = struct_ok q" "struct_ok (q\<lparr>gate := g\<rparr>) = struct_ok q"
  "struct_ok (q\<lparr>handlers := hs\<rparr>) = struct_ok q" "struct_ok (release j q) = struct_ok q"
  by (simp_all add: struct_defs)

lemma struct_ok_push: "struct_ok q \<Longrightarrow> struct_ok (pushLocked j q)"
  by (auto simp: struct_defs pushLocked_def sorted_wrt_append list_all_iff)

lemma struct_ok_retainDead: "struct_ok q \<Longrightarrow> struct_ok (retainDead j q)"
  using dead_ok_retainDead [of q j]
  by (auto simp: struct_ok_def) (auto simp: struct_defs retainDead_def Let_def)

lemma struct_ok_enqueue: "struct_ok q \<Longrightarrow> struct_ok (snd (enqueue_job c now fresh a j q))"
  by (auto simp: enqueue_job_def Let_def intro!: struct_ok_push)

lemma sorted_wrt_map_remove1: "sorted_wrt P (map f xs) \<Longrightarrow> sorted_wrt P (map f (remove1 x xs))"
  by (induction xs) (auto dest: in_set_remove1 [THEN iffD1, rotated] notin_set_remove1 simp: notin_set_remove1)

lemma sorted_wrt_map_filter: "sorted_wrt P (map f xs) \<Longrightarrow> sorted_wrt P (map f (filter Q xs))"
  by (induction xs) auto

lemma struct_ok_remove1: "struct_ok q \<Longrightarrow> struct_ok (q\<lparr>pending := remove1 p (pending q)\<rparr>)"
  by (auto simp: struct_defs sorted_wrt_map_remove1 list_all_iff dest: notin_set_remove1)

lemma struct_ok_track: "struct_ok q \<Longrightarrow> struct_ok (trackInflight j q)"
  by (auto simp: struct_defs trackInflight_def distinct_update list_all_iff dest!: set_update_subset [THEN subsetD])

lemma struct_ok_take: "struct_ok q \<Longrightarrow> takeInflight i q = (r, q') \<Longrightarrow> struct_ok q'"
  by (auto simp: struct_defs takeInflight_def distinct_map_filter list_all_iff AList.delete_eq split: option.splits)

lemma struct_ok_Dequeue: "struct_ok q \<Longrightarrow> struct_ok (snd (Dequeue c now types q))"
  by (auto simp: Dequeue_def split: prod.split option.split dest!: removeMatching_Some(3)
    intro!: struct_ok_track struct_ok_remove1)

lemma struct_ok_Ack: "struct_ok q \<Longrightarrow> struct_ok (Ack i q)"
  by (auto simp: Ack_def split: prod.split option.split dest: struct_ok_take)

lemma struct_ok_requeue: "struct_ok q \<Longrightarrow> requeue c now fresh j q = (e, q') \<Longrightarrow> struct_ok q'"
  using struct_ok_enqueue [of q c now fresh False j] by (simp add: requeue_def)

lemma struct_ok_Nack: "struct_ok q \<Longrightarrow> struct_ok (snd (Nack c now fresh i q))"
  by (auto simp: Nack_def Let_def split: prod.split option.split
    intro!: struct_ok_retainDead dest: struct_ok_take struct_ok_requeue)

lemma struct_ok_settle_failure: "struct_ok q \<Longrightarrow> struct_ok (settle_failure now fresh j q)"
  by (auto simp: settle_failure_def Let_def split: prod.split option.split
    intro!: struct_ok_retainDead dest: struct_ok_requeue)

lemma struct_ok_settleRunning:
  assumes "struct_ok q" and settle: "\<And>q. struct_ok q \<Longrightarrow> struct_ok (settle q)"
  shows "struct_ok (settleRunning rj settle q)"
proof -
  from assms(1) have "struct_ok (q\<lparr>running := filter (\<lambda>r. rId r \<noteq> rId rj) (running q)\<rparr>)"
    by (auto simp: struct_defs distinct_map_filter list_all_iff)
  with settle show ?thesis by (simp add: settleRunning_def Let_def)
qed

lemma struct_ok_deferGated: "struct_ok q \<Longrightarrow> struct_ok (deferGated now j q)"
  by (simp add: deferGated_def struct_ok_push)

lemma struct_ok_processJob: "struct_ok q \<Longrightarrow> struct_ok (processJob run ok now fresh q)"
  unfolding processJob_def Let_def
  by (simp split: option.split add: struct_ok_settleRunning struct_ok_retainDead struct_ok_settle_failure
    struct_ok_deferGated)

lemma struct_ok_replay: "struct_ok q \<Longrightarrow> struct_ok (snd (replay_enqueue c now fresh i q))"
  by (auto simp: replay_enqueue_state struct_ok_enqueue split: option.split)

lemma drop_gen_set: "set (drop_gen g ds) \<subseteq> set ds" and drop_gen_length: "length (drop_gen g ds) \<le> length ds"
  by (induction ds) auto

lemma drop_gen_map_distinct: "distinct (map f ds) \<Longrightarrow> distinct (map f (drop_gen g ds))"
  using drop_gen_set by (induction ds) fastforce+

lemma struct_ok_retire: "struct_ok q \<Longrightarrow> struct_ok (replay_retire g q)"
  using drop_gen_length [of g "dead q"] drop_gen_set [of g "dead q"]
  by (auto simp: struct_defs replay_retire_def drop_gen_map_distinct list_all_iff)

lemma struct_ok_waitAndPop: "struct_ok q \<Longrightarrow> struct_ok (snd (waitAndPop lane now q))"
proof -
  assume ok: "struct_ok q"
  obtain r nd items where R: "removeMatching (matchLane lane) now (pending q) = (r, nd, items)"
    by (cases "removeMatching (matchLane lane) now (pending q)") auto
  show ?thesis
  proof (cases r)
    case None
    with R ok show ?thesis by (simp add: waitAndPop_def armWakeLocked_def)
  next
    case (Some p)
    with R have "items = remove1 p (pending q)" by (auto dest: removeMatching_Some(3))
    with struct_ok_remove1 [OF ok, of p] R Some show ?thesis
      by (auto simp: waitAndPop_def struct_defs list_all_iff)
  qed
qed

lemma struct_ok_eraseUser: "struct_ok q \<Longrightarrow> struct_ok (snd (eraseUser u dry q))"
proof -
  have [simp]: "map rId (map (\<lambda>r. if P r then r\<lparr>rErased := True\<rparr> else r) rs) = map rId rs" for P rs
    by (induction rs) auto
  assume "struct_ok q"
  then show ?thesis
    by (auto simp: struct_defs eraseUser_eq Let_def sorted_wrt_map_filter distinct_map_filter list_all_iff simp del: map_map)
      (meson length_filter_le le_trans)
qed

lemma struct_ok_step: "mq_step q q' \<Longrightarrow> struct_ok q \<Longrightarrow> struct_ok q'"
proof (induction rule: mq_step.induct)
  case (step_enqueue q c now fresh job)
  then show ?case by (simp add: Enqueue_def struct_ok_enqueue)
next
  case (step_retire q gen)
  then show ?case by (rule struct_ok_retire)
qed (simp_all add: struct_ok_Dequeue struct_ok_Ack struct_ok_Nack struct_ok_replay struct_ok_waitAndPop
    struct_ok_processJob struct_ok_eraseUser, simp_all add: step_defs)

lemma struct_ok_reachable: "mq_reachable q \<Longrightarrow> struct_ok q"
proof (induction rule: mq_reachable.induct)
  case reach_new
  show ?case by (simp add: struct_defs NewMemoryQueue_def)
qed (rule struct_ok_step)

lemma find_map_key:
  "r \<in> set rs \<Longrightarrow> distinct (map f rs) \<Longrightarrow> (\<And>x. f (g x) = f x) \<Longrightarrow> find (\<lambda>x. f x = f r) (map g rs) = Some (g r)"
proof (induction rs)
  case (Cons a rs)
  then show ?case by (cases "f a = f r") (auto intro: image_eqI)
qed simp

lemma set_drop_gen: "distinct (map dGen ds) \<Longrightarrow> set (drop_gen g ds) = {d \<in> set ds. dGen d \<noteq> g}"
proof (induction ds)
  case (Cons a ds)
  have "dGen d \<noteq> dGen a" if "d \<in> set ds" for d using Cons.prems that by (metis distinct.simps(2) image_eqI list.map(2) set_map)
  with Cons show ?case by auto
qed simp

lemma dead_enqueue [simp]: "dead (snd (enqueue_job c now fresh a j q)) = dead q"
    "deadSeq (snd (enqueue_job c now fresh a j q)) = deadSeq q"
  by (simp_all add: enqueue_job_def Let_def)

section \<open>Properties\<close>

text \<open>C5. In every reachable state of the queue at most one job that is pending, handed out by \<^verbatim>\<open>Dequeue\<close> or
  running (and not erased) holds a given unique key, and only while the key is in \<^verbatim>\<open>held\<close>; \<^verbatim>\<open>Enqueue\<close> of
  a keyed job succeeds only when no live job holds the key, and takes it.\<close>

theorem unique_key_exclusive:
  assumes "mq_reachable q"
  shows "size {#j \<in># live q. jUniqueKey j \<noteq> [] \<and> slot_of j = s#} \<le> (if s \<in> held q then 1 else 0)
    \<and> (jUniqueKey job \<noteq> [] \<and> fst (Enqueue c now fresh job q) = None \<longrightarrow>
         size {#j \<in># live q. jUniqueKey j \<noteq> [] \<and> slot_of j = slot_of job#} = 0
         \<and> slot_of job \<in> held (snd (Enqueue c now fresh job q)))"
proof -
  note ok = keys_okD [OF keysOK_reachable [OF assms, unfolded keysOK_def]]
  have taken: "holders (slot_of job) (live q) = 0 \<and> slot_of job \<in> held (snd (Enqueue c now fresh job q))"
    if "jUniqueKey job \<noteq> []" "fst (Enqueue c now fresh job q) = None"
    using that ok [of "slot_of job"] by (auto simp: Enqueue_def enqueue_job_def Let_def split: if_splits)
  show ?thesis using ok [of s] taken unfolding holders_def by blast
qed

text \<open>In every reachable state the pending items carry strictly increasing sequence numbers, every run
  has a number of its own, and the dead-letter set holds at most \<^verbatim>\<open>maxDeadJobs\<close> records, one per job
  ID, with distinct generations and no empty ID.\<close>

lemma queue_invariant:
  assumes "mq_reachable q"
  shows "seqs_ok q \<and> runs_ok q \<and> inflight_ok q \<and> length (dead q) \<le> 1000
    \<and> distinct (map (\<lambda>d. jID (dJob d)) (dead q)) \<and> distinct (map dGen (dead q))
    \<and> list_all (\<lambda>d. dGen d \<le> deadSeq q \<and> jID (dJob d) \<noteq> []) (dead q)"
  using struct_ok_reachable [OF assms] by (simp add: struct_ok_def dead_ok_def maxDeadJobs_def)

text \<open>\<^verbatim>\<open>removeMatching\<close> takes, of the due items the predicate accepts, the one with the highest priority and
  among those the lowest sequence number, removes exactly that item, and does so whatever order the
  heap keeps its slice in.\<close>

lemma removeMatching_selects:
  assumes "mset heap = mset items" "distinct (map pSeq items)"
  shows "fst (removeMatching match now heap) = fst (removeMatching match now items)
    \<and> mset (snd (snd (removeMatching match now heap))) = mset (snd (snd (removeMatching match now items)))
    \<and> (case removeMatching match now items of
         (None, _, rest) \<Rightarrow> rest = items \<and> \<not> list_ex (due_match match now) items
       | (Some p, _, rest) \<Rightarrow> due_match match now p \<and> mset items = add_mset p (mset rest)
           \<and> list_all (\<lambda>x. due_match match now x \<longrightarrow>
               jPriority (pJob x) < jPriority (pJob p)
               \<or> jPriority (pJob x) = jPriority (pJob p) \<and> pSeq p < pSeq x) rest)"
proof -
  have d: "distinct (map pSeq heap)" using assms
    by (metis mset_eq_imp_distinct_iff mset_map)
  obtain r nd rest where R: "removeMatching match now items = (r, nd, rest)"
    by (cases "removeMatching match now items") auto
  have "case r of
         None \<Rightarrow> rest = items \<and> \<not> list_ex (due_match match now) items
       | Some p \<Rightarrow> due_match match now p \<and> mset items = add_mset p (mset rest)
           \<and> list_all (\<lambda>x. due_match match now x \<longrightarrow>
               jPriority (pJob x) < jPriority (pJob p)
               \<or> jPriority (pJob x) = jPriority (pJob p) \<and> pSeq p < pSeq x) rest"
  proof (cases r)
    case None
    with R show ?thesis by (auto simp: list_ex_iff dest: removeMatching_None)
  next
    case (Some p)
    note P = removeMatching_Some [OF R [unfolded Some]]
    have "pSeq x \<noteq> pSeq p \<and> x \<in> set items" if "x \<in> set rest" for x
      using that P(1,3) assms(2) notin_set_remove1 [of x items p]
      by (auto simp: distinct_map inj_on_def distinct_remove1)
    with P show ?thesis by (fastforce simp: Some list_all_iff heap_Less_def split: if_splits)
  qed
  with R removeMatching_perm [OF assms(1) d] show ?thesis by (cases r) auto
qed


lemma put_dead_last: "e \<in> set (put_dead e ds)"
  by (induction ds) auto

lemma put_dead_find: "find (\<lambda>d. jID (dJob d) = jID (dJob e)) (put_dead e ds) = Some e"
  by (induction ds) auto

lemma retained:
  assumes "dead_ok q" "jID j \<noteq> []"
  shows "\<lparr>dJob = j, dGen = deadSeq q + 1\<rparr> \<in> set (dead (retainDead j q))"
proof -
  let ?e = "\<lparr>dJob = j, dGen = deadSeq q + 1\<rparr>"
  have keep: "length ds \<le> m \<Longrightarrow> ?e \<in> set (drop (length (put_dead ?e ds) - m) (put_dead ?e ds))" if "0 < m" for ds m
    using that
  proof (induction ds arbitrary: m)
    case (Cons d ds)
    show ?case
    proof (cases "jID (dJob d) = jID j")
      case True
      with Cons.prems show ?thesis by simp
    next
      case False
      show ?thesis
      proof (cases "length (put_dead ?e ds) < m")
        case True
        with False put_dead_last [of ?e ds] show ?thesis by simp
      next
        case ge: False
        then have m: "length (put_dead ?e ds) = m" "length ds \<le> m"
          using Cons.prems put_dead_length [of ?e ds] by auto
        with False put_dead_last [of ?e ds] show ?thesis by simp
      qed
    qed
  qed simp
  from keep [of maxDeadJobs "dead q"] assms show ?thesis
    by (simp add: retainDead_def Let_def dead_ok_def maxDeadJobs_def)
qed

text \<open>C6. \<^verbatim>\<open>Nack\<close> never loses the job it was given: the job, with one more attempt, is pending again or, when
  its attempts are used up or the re-enqueue is refused, in the dead-letter set, and it has left the
  handed-out set. When it comes back to the queue its attempts are still below its maximum.\<close>

theorem Nack_lossless:
  assumes "mq_reachable q" "map_of (inflight q) jobID = Some j"
  shows "case Nack c now fresh jobID q of (e, q') \<Rightarrow>
    map_of (inflight q') jobID = None
    \<and> (let j' = j\<lparr>jAttempts := jAttempts j + 1\<rparr> in
       if (jMaxAttempts j > 0 \<and> jAttempts j + 1 \<ge> jMaxAttempts j) \<or> c \<or> closed q
       then list_ex (\<lambda>d. dJob d = j') (dead q') \<and> pending q' = pending q
       else e = None \<and> dead q' = dead q
         \<and> pending q' = pending q @ [\<lparr>pJob = job_defaults now fresh j', pSeq = seqNo q + 1\<rparr>])"
proof -
  have ok: "struct_ok q" by (rule struct_ok_reachable [OF assms(1)])
  then have id: "jID j \<noteq> []" using map_of_SomeD [OF assms(2)] by (auto simp: struct_defs list_all_iff)
  let ?q = "q\<lparr>inflight := AList.delete jobID (inflight q)\<rparr>" and ?j = "j\<lparr>jAttempts := jAttempts j + 1\<rparr>"
  have take: "takeInflight jobID q = (Some j, ?q)" using assms(2) by (simp add: takeInflight_def)
  have "dead_ok ?q" using struct_ok_take [OF ok take] by (simp add: struct_ok_def)
  then have dead: "list_ex (\<lambda>d. dJob d = ?j) (dead (retainDead ?j ?q))"
    using retained [of ?q ?j] id by (force simp: list_ex_iff)
  have [simp]: "inflight (retainDead ?j ?q) = AList.delete jobID (inflight q)"
     "pending (retainDead ?j ?q) = pending q"
    by (simp_all add: retainDead_def Let_def)
  show ?thesis
    using dead by (auto simp: Nack_def take requeue_def enqueue_job_def Let_def delete_conv' pushLocked_def)
qed


text \<open>After \<^verbatim>\<open>eraseUser\<close> no job of the user is pending, handed out, live in a run, or dead-lettered;
  every other user's live job is untouched; the reported count is the number of jobs taken, and a dry
  run reports the same count and changes nothing.\<close>

lemma eraseUser_complete:
  "snd (eraseUser u True q) = q \<and> fst (eraseUser u True q) = fst (eraseUser u False q)
   \<and> (case eraseUser u False q of (n, q') \<Rightarrow>
        live q' = {#j \<in># live q. jUserID j \<noteq> u#}
        \<and> dead q' = filter (\<lambda>d. jUserID (dJob d) \<noteq> u) (dead q)
        \<and> n = size (live q) - size (live q') + (length (dead q) - length (dead q')))"
proof -
  have "size (live q) = size {#j \<in># live q. jUserID j = u#} + size {#j \<in># live q. jUserID j \<noteq> u#}"
    by (metis multiset_partition size_union)
  moreover have "length (dead q) = length (filter (\<lambda>d. jUserID (dJob d) = u) (dead q))
      + length (filter (\<lambda>d. jUserID (dJob d) \<noteq> u) (dead q))"
    by (simp add: sum_length_filter_compl)
  ultimately show ?thesis
    using live_eraseUser [of u False q] by (simp add: eraseUser_eq Let_def)
qed

text \<open>A job that was running when its user was erased is gone when its run ends, however the run ends: the
  run is over, and nothing is put back into the pending items, the dead-letter set or the held keys.\<close>

lemma erased_run_not_settled:
  assumes "mq_reachable q" "r \<in> set (running q)" "jUserID (rJob r) = u"
  shows "case processJob (rId r) ok now fresh (snd (eraseUser u False q)) of q' \<Rightarrow>
     pending q' = filter (\<lambda>p. jUserID (pJob p) \<noteq> u) (pending q)
   \<and> dead q' = filter (\<lambda>d. jUserID (dJob d) \<noteq> u) (dead q)
   \<and> held q' = held (snd (eraseUser u False q))
   \<and> \<not> list_ex (\<lambda>x. rId x = rId r) (running q')
   \<and> live q' = {#j \<in># live q. jUserID j \<noteq> u#}"
proof -
  let ?q = "snd (eraseUser u False q)"
  let ?erase = "\<lambda>r. if jUserID (rJob r) = u \<and> \<not> rErased r then r\<lparr>rErased := True\<rparr> else r"
  have run: "running ?q = map ?erase (running q)"
    and pend: "pending ?q = filter (\<lambda>p. jUserID (pJob p) \<noteq> u) (pending q)"
    and dead: "dead ?q = filter (\<lambda>d. jUserID (dJob d) \<noteq> u) (dead q)"
    by (simp_all add: eraseUser_eq Let_def)
  have d: "distinct (map rId (running q))" using struct_ok_reachable [OF assms(1)] by (simp add: struct_defs)
  have find: "find (\<lambda>x. rId x = rId r) (running ?q) = Some (?erase r)"
    unfolding run by (rule find_map_key [OF assms(2) d]) simp
  have "rErased (?erase r)" "rId (?erase r) = rId r" using assms(3) by auto
  with find have p: "processJob (rId r) ok now fresh ?q = ?q\<lparr>running := filter (\<lambda>x. rId x \<noteq> rId r) (running ?q)\<rparr>"
    by (simp add: processJob_def settleRunning_def Let_def)
  have "rErased x" if "x \<in> set (running ?q)" "rId x = rId r" for x
    using that assms(2,3) d unfolding run by (auto simp: distinct_map inj_on_def)
  then have "filter (\<lambda>x. \<not> rErased x) (filter (\<lambda>x. rId x \<noteq> rId r) (running ?q)) = filter (\<lambda>x. \<not> rErased x) (running ?q)"
    by (auto intro!: filter_cong)
  then have "live (?q\<lparr>running := filter (\<lambda>x. rId x \<noteq> rId r) (running ?q)\<rparr>) = live ?q"
    by (simp add: live_def del: filter_filter)
  with live_eraseUser [of u False q] show ?thesis
    by (simp add: p pend dead list_ex_iff)
qed

text \<open>\<^verbatim>\<open>Replay\<close> puts a dead-lettered job back with no attempts used, and its removal of the record touches
  only the generation it replayed: when the job has failed again before the removal, the record of
  the new failure stays.\<close>

lemma Replay_keeps_newer_failure:
  assumes "mq_reachable q" "replay_enqueue c now fresh jobID q = (Inr (Some gen), q1)"
    and "jID j = jobID"
  shows "pending q1 \<noteq> [] \<and> jAttempts (pJob (last (pending q1))) = 0 \<and> jID (pJob (last (pending q1))) = jobID
    \<and> list_ex (\<lambda>d. dJob d = j) (dead (replay_retire gen (retainDead j q1)))
    \<and> \<not> list_ex (\<lambda>d. jID (dJob d) = jobID) (dead (replay_retire gen q1))"
proof -
  from assms(2) obtain d where find: "find (\<lambda>d. jID (dJob d) = jobID) (dead q) = Some d" and gen: "gen = dGen d"
    and q1: "enqueue_job c now fresh True ((dJob d)\<lparr>jAttempts := 0\<rparr>) q = (None, q1)"
    by (auto simp: replay_enqueue_def Enqueue_def split: option.splits prod.splits)
  from find have d: "d \<in> set (dead q)" "jID (dJob d) = jobID" by (auto simp: find_Some_iff)
  have ok: "struct_ok q1" and dead: "dead q1 = dead q" "deadSeq q1 = deadSeq q"
    using struct_ok_enqueue [OF struct_ok_reachable [OF assms(1)]] dead_enqueue q1 by (metis snd_conv)+
  then have D: "dead_ok q1" by (simp add: struct_ok_def)
  with d dead have id: "jobID \<noteq> []" and le: "gen \<le> deadSeq q1" by (auto simp: dead_ok_def list_all_iff gen)
  have last: "pending q1 \<noteq> []" "pJob (last (pending q1)) = job_defaults now fresh ((dJob d)\<lparr>jAttempts := 0\<rparr>)"
    using q1 by (auto simp: enqueue_job_def Let_def pushLocked_def split: if_splits)
  have "dead_ok (retainDead j q1)" by (rule dead_ok_retainDead [OF D])
  then have "\<lparr>dJob = j, dGen = deadSeq q1 + 1\<rparr> \<in> set (dead (replay_retire gen (retainDead j q1)))"
    using retained [OF D, of j] assms(3) id le by (auto simp: replay_retire_def set_drop_gen dead_ok_def)
  then have "list_ex (\<lambda>d. dJob d = j) (dead (replay_retire gen (retainDead j q1)))"
    by (force simp: list_ex_iff)
  moreover have "\<not> list_ex (\<lambda>d. jID (dJob d) = jobID) (dead (replay_retire gen q1))"
    using D d dead by (auto simp: replay_retire_def list_ex_iff dead_ok_def set_drop_gen gen distinct_map inj_on_def)
  ultimately show ?thesis using last d id by (simp add: job_defaults_def Let_def)
qed

text \<open>A failed run of an unerased job is never lost and never retried past its budget: the job, with one more
  attempt, goes back to the pending items while its attempts stay below its maximum and the queue is
  open, and is dead-lettered with its unique key freed otherwise; in both cases the run is over.\<close>

lemma failed_run_bounded_retry:
  assumes "mq_reachable q" "r \<in> set (running q)" "\<not> rErased r" "jType (rJob r) \<in> handlers q"
    and "gate q = None \<or> gateAllows (the (gate q)) (jType (rJob r))" "jID (rJob r) \<noteq> []"
  shows "case processJob (rId r) False now fresh q of q' \<Rightarrow>
    \<not> list_ex (\<lambda>x. rId x = rId r) (running q')
    \<and> (let j' = (rJob r)\<lparr>jAttempts := jAttempts (rJob r) + 1\<rparr> in
       if jAttempts j' < jMaxAttempts j' \<and> \<not> closed q
       then dead q' = dead q \<and> pending q' = pending q @ [\<lparr>pJob = job_defaults now fresh j', pSeq = seqNo q + 1\<rparr>]
       else pending q' = pending q \<and> list_ex (\<lambda>d. dJob d = j') (dead q')
         \<and> (jUniqueKey j' = [] \<or> slot_of j' \<notin> held q'))"
proof -
  have ok: "struct_ok q" by (rule struct_ok_reachable [OF assms(1)])
  let ?q = "q\<lparr>running := filter (\<lambda>x. rId x \<noteq> rId r) (running q)\<rparr>" and ?j = "(rJob r)\<lparr>jAttempts := jAttempts (rJob r) + 1\<rparr>"
  have "find (\<lambda>x. rId x = rId r) (running q) = Some r"
    using find_map_key [OF assms(2), of rId id] ok by (simp add: struct_defs)
  then have p: "processJob (rId r) False now fresh q = settle_failure now fresh (rJob r) ?q"
    using assms(3-5) by (auto simp: processJob_def settleRunning_def Let_def split: option.splits)
  have "dead_ok ?q" using ok by (simp add: struct_defs)
  then have "list_ex (\<lambda>d. dJob d = ?j) (dead (retainDead ?j ?q))"
    using retained [of ?q ?j] assms(6) by (force simp: list_ex_iff)
  moreover have "running (retainDead ?j ?q) = running ?q" "pending (retainDead ?j ?q) = pending q"
    by (simp_all add: retainDead_def Let_def)
  moreover have "jUniqueKey ?j = [] \<or> slot_of ?j \<notin> held (retainDead ?j ?q)"
    by (auto simp: held_release)
  ultimately show ?thesis
    unfolding p settle_failure_def requeue_def enqueue_job_def Let_def
    by (simp add: list_ex_iff) (simp add: pushLocked_def)
qed

text \<open>C7. A worker goes to sleep only when no due job of its lane is pending, and then the wake timer is armed
  no later than the earliest held-back job of its lane; it exits only on a closed queue with no due job
  of its lane left.\<close>

theorem waitAndPop_no_lost_wakeup:
  assumes "0 \<le> now" "0 \<le> wakeAt q"
  shows "case waitAndPop lane now q of
     (Wait, q') \<Rightarrow> \<not> closed q \<and> \<not> list_ex (due_match (matchLane lane) now) (pending q) \<and> pending q' = pending q
       \<and> list_all (\<lambda>p. held_back (matchLane lane) now p \<longrightarrow> 0 < wakeAt q' \<and> wakeAt q' \<le> jScheduledAt (pJob p)) (pending q)
   | (Exit, q') \<Rightarrow> closed q \<and> \<not> list_ex (due_match (matchLane lane) now) (pending q) \<and> q' = q
   | (Popped n, q') \<Rightarrow> \<exists>p\<in>set (pending q). due_match (matchLane lane) now p \<and> pending q' = remove1 p (pending q)
       \<and> running q' = running q @ [\<lparr>rId = n, rJob = pJob p, rErased = False\<rparr>]"
proof -
  obtain res nd items where R: "removeMatching (matchLane lane) now (pending q) = (res, nd, items)"
    by (cases "removeMatching (matchLane lane) now (pending q)") auto
  show ?thesis
  proof (cases res)
    case (Some p)
    with R show ?thesis by (auto simp: waitAndPop_def dest: removeMatching_Some)
  next
    case None
    let ?hb = "filter (held_back (matchLane lane) now) (pending q)"
    let ?ts = "map (\<lambda>p. jScheduledAt (pJob p)) ?hb"
    note N = removeMatching_None [OF R [unfolded None]]
    have pos: "\<forall>t\<in>set ?ts. 0 < t" using assms(1) by (auto simp: held_back_def)
    have nd: "nd = (if ?ts = [] then 0 else Min (set ?ts))"
      using fold_earlier [OF pos, of 0] N(3) by simp
    have sleep: "0 < wakeAt (if nd \<noteq> 0 then armWakeLocked nd q else q)
        \<and> wakeAt (if nd \<noteq> 0 then armWakeLocked nd q else q) \<le> jScheduledAt (pJob p)"
      if "p \<in> set (pending q)" "held_back (matchLane lane) now p" for p
    proof -
      have "jScheduledAt (pJob p) \<in> set ?ts" using that by auto
      with nd pos have "nd \<le> jScheduledAt (pJob p)" "0 < nd" by (auto simp: Min_gr_iff simp del: set_map)
      with assms(2) show ?thesis by (auto simp: armWakeLocked_def)
    qed
    have "pending (if nd \<noteq> 0 then armWakeLocked nd q else q) = pending q" by (simp add: armWakeLocked_def)
    moreover have "\<not> list_ex (due_match (matchLane lane) now) (pending q)" using N(2) by (auto simp: list_ex_iff)
    moreover have "list_all (\<lambda>p. held_back (matchLane lane) now p \<longrightarrow>
        0 < wakeAt (if nd \<noteq> 0 then armWakeLocked nd q else q)
        \<and> wakeAt (if nd \<noteq> 0 then armWakeLocked nd q else q) \<le> jScheduledAt (pJob p)) (pending q)"
      using sleep by (simp add: list_all_iff)
    moreover have "waitAndPop lane now q = (if closed q then (Exit, q) else (Wait, if nd \<noteq> 0 then armWakeLocked nd q else q))"
      using R None by (simp add: waitAndPop_def)
    ultimately show ?thesis by (cases "closed q") (simp_all only: if_True if_False prod.case pop_result.case simp_thms)
  qed
qed


section \<open>Example states\<close>

text \<open>A keyed job that is enqueued, handed out by \<^verbatim>\<open>Dequeue\<close>, run by a worker, and dead-lettered; the witnesses
  apply the properties to these states.\<close>

definition example_job :: Job where
  "example_job =
     \<lparr>jID = ''j1'', jOccurrenceID = [], jType = ''email'', jPayload = ''hi'', jPriority = 1, jLane = [], jAttempts = 0,
      jMaxAttempts = 1, jCreatedAt = 0, jScheduledAt = 0, jClaimToken = [], jUserID = ''u'', jUniqueKey = ''k'',
      jStatus = [], jUpdatedAt = 0, jLastError = []\<rparr>"

definition example_pending :: MemoryQueue where
  "example_pending = snd (Enqueue False 5 ''r'' example_job (RegisterHandler ''email'' NewMemoryQueue))"

definition example_handed :: MemoryQueue where
  "example_handed = snd (Dequeue False 6 [] example_pending)"

definition example_running :: MemoryQueue where
  "example_running = snd (waitAndPop [] 6 example_pending)"

definition example_dead :: MemoryQueue where
  "example_dead = processJob 0 False 7 ''r'' example_running"

lemmas example_defs = example_job_def example_pending_def example_handed_def example_running_def example_dead_def

lemmas queue_eval = Enqueue_def enqueue_job_def RegisterHandler_def NewMemoryQueue_def job_defaults_def pushLocked_def
  Dequeue_def waitAndPop_def removeMatching_def matchTypes_def matchLane_def trackInflight_def slot_of_def
  processJob_def settleRunning_def settle_failure_def retainDead_def release_def maxDeadJobs_def Let_def

lemma example_reachable:
  "mq_reachable example_pending" "mq_reachable example_handed" "mq_reachable example_running" "mq_reachable example_dead"
proof -
  show p: "mq_reachable example_pending"
    unfolding example_pending_def by (intro reach_step [OF _ step_enqueue] reach_step [OF _ step_handler] reach_new)
  show "mq_reachable example_handed" unfolding example_handed_def by (rule reach_step [OF p step_dequeue])
  show r: "mq_reachable example_running" unfolding example_running_def by (rule reach_step [OF p step_pop])
  show "mq_reachable example_dead" unfolding example_dead_def by (rule reach_step [OF r step_process])
qed

theorem unique_key_exclusive_witness:
  "size {#j \<in># live example_running. jUniqueKey j \<noteq> [] \<and> slot_of j = (''email'', ''k'')#} \<le> 1
   \<and> size {#j \<in># live example_dead. jUniqueKey j \<noteq> [] \<and> slot_of j = slot_of example_job#} = 0"
proof -
  have "jUniqueKey example_job \<noteq> []" "fst (Enqueue False 9 ''r'' example_job example_dead) = None"
    by (simp_all add: example_defs queue_eval)
  with unique_key_exclusive [OF example_reachable(4), of _ example_job False 9 "''r''"]
  have "size {#j \<in># live example_dead. jUniqueKey j \<noteq> [] \<and> slot_of j = slot_of example_job#} = 0" by blast
  moreover have "(''email'', ''k'') \<in> held example_running" by (simp add: example_defs queue_eval)
  with unique_key_exclusive [OF example_reachable(3), of "(''email'', ''k'')"]
  have "size {#j \<in># live example_running. jUniqueKey j \<noteq> [] \<and> slot_of j = (''email'', ''k'')#} \<le> 1" by presburger
  ultimately show ?thesis by blast
qed

lemma queue_invariant_witness: "seqs_ok example_dead \<and> length (dead example_dead) = 1 \<and> length (dead example_dead) \<le> 1000"
  using queue_invariant [OF example_reachable(4)] by (simp add: example_defs queue_eval)

lemma removeMatching_selects_witness:
  "fst (removeMatching (matchLane []) 9
      [\<lparr>pJob = example_job\<lparr>jPriority := 2\<rparr>, pSeq = 3\<rparr>, \<lparr>pJob = example_job, pSeq = 1\<rparr>])
   = Some \<lparr>pJob = example_job\<lparr>jPriority := 2\<rparr>, pSeq = 3\<rparr>"
  using removeMatching_selects [of
      "[\<lparr>pJob = example_job\<lparr>jPriority := 2\<rparr>, pSeq = 3\<rparr>, \<lparr>pJob = example_job, pSeq = 1\<rparr>]"
      "[\<lparr>pJob = example_job, pSeq = 1\<rparr>, \<lparr>pJob = example_job\<lparr>jPriority := 2\<rparr>, pSeq = 3\<rparr>]" "matchLane []" 9]
  by (simp add: removeMatching_def matchLane_def example_job_def heap_Less_def)

theorem Nack_lossless_witness:
  "map_of (inflight example_handed) ''j1'' \<noteq> None
   \<and> list_ex (\<lambda>d. jID (dJob d) = ''j1'' \<and> jAttempts (dJob d) = 1) (dead (snd (Nack False 8 ''r'' ''j1'' example_handed)))"
proof -
  have j: "map_of (inflight example_handed) ''j1'' = Some (example_job\<lparr>jCreatedAt := 5\<rparr>)"
    by (simp add: example_defs queue_eval)
  from Nack_lossless [OF example_reachable(2) j, of False 8 "''r''"]
  have "list_ex (\<lambda>d. dJob d = example_job\<lparr>jCreatedAt := 5, jAttempts := 1\<rparr>) (dead (snd (Nack False 8 ''r'' ''j1'' example_handed)))"
    by (simp add: example_job_def split: prod.splits)
  with j show ?thesis by (force simp: list_ex_iff example_job_def)
qed

lemma erased_run_not_settled_witness:
  "case processJob 0 False 9 ''r'' (snd (eraseUser ''u'' False example_running)) of q' \<Rightarrow> pending q' = [] \<and> dead q' = []"
proof -
  have run: "running example_running = [\<lparr>rId = 0, rJob = example_job\<lparr>jCreatedAt := 5\<rparr>, rErased = False\<rparr>]"
    and rest: "pending example_running = []" "dead example_running = []"
    by (simp_all add: example_defs queue_eval)
  from erased_run_not_settled [OF example_reachable(3), of "\<lparr>rId = 0, rJob = example_job\<lparr>jCreatedAt := 5\<rparr>, rErased = False\<rparr>"
      "''u''" False 9 "''r''"]
  show ?thesis by (simp add: run rest, simp add: example_job_def)
qed

lemma Replay_keeps_newer_failure_witness:
  "case replay_enqueue False 9 ''r'' ''j1'' example_dead of (r, q1) \<Rightarrow>
     r = Inr (Some 1) \<and> list_ex (\<lambda>d. dJob d = example_job) (dead (replay_retire 1 (retainDead example_job q1)))"
proof -
  let ?r = "replay_enqueue False 9 ''r'' ''j1'' example_dead"
  have r: "fst ?r = Inr (Some 1)"
    by (simp add: example_defs queue_eval replay_enqueue_def)
  then have "?r = (Inr (Some 1), snd ?r)" by (cases ?r) simp
  from Replay_keeps_newer_failure [OF example_reachable(4) this, of example_job] r
  show ?thesis by (cases ?r) (simp add: example_job_def)
qed

lemma failed_run_bounded_retry_witness:
  "list_ex (\<lambda>d. jAttempts (dJob d) = 1) (dead (processJob 0 False 7 ''r'' example_running))
   \<and> running (processJob 0 False 7 ''r'' example_running) = []"
proof -
  let ?r = "\<lparr>rId = 0, rJob = example_job\<lparr>jCreatedAt := 5\<rparr>, rErased = False\<rparr>"
  have run: "running example_running = [?r]" "handlers example_running = {''email''}" "gate example_running = None"
    by (simp_all add: example_defs queue_eval)
  from failed_run_bounded_retry [OF example_reachable(3), of ?r 7 "''r''"] run
  have "list_ex (\<lambda>d. dJob d = example_job\<lparr>jCreatedAt := 5, jAttempts := 1\<rparr>) (dead (processJob 0 False 7 ''r'' example_running))"
    by (simp add: example_job_def Let_def)
  moreover have "running (processJob 0 False 7 ''r'' example_running) = []"
    by (simp add: example_defs queue_eval)
  ultimately show ?thesis by (force simp: list_ex_iff)
qed

theorem waitAndPop_no_lost_wakeup_witness:
  "case waitAndPop [] 4 (pushLocked (example_job\<lparr>jScheduledAt := 70\<rparr>) NewMemoryQueue) of
     (r, q') \<Rightarrow> r = Wait \<and> 0 < wakeAt q' \<and> wakeAt q' \<le> 70"
proof -
  let ?q = "pushLocked (example_job\<lparr>jScheduledAt := 70\<rparr>) NewMemoryQueue"
  have r: "fst (waitAndPop [] 4 ?q) = Wait" by (simp add: example_defs queue_eval)
  have p: "pending ?q = [\<lparr>pJob = example_job\<lparr>jScheduledAt := 70\<rparr>, pSeq = 1\<rparr>]" "wakeAt ?q = 0"
    by (simp_all add: queue_eval)
  from waitAndPop_no_lost_wakeup [of 4 ?q "[]"] r show ?thesis
    unfolding p by (cases "waitAndPop [] 4 ?q") (simp add: held_back_def matchLane_def)
qed

end
