(* ===== verification/RateLimit.thy ===== *)
theory RateLimit
  imports GoPrelude GoInt "HOL-Library.Multiset" "HOL-Library.Product_Lexorder"
begin

text \<open>
  The token-bucket rate limiter, \<^verbatim>\<open>core/middleware/ratelimit.go\<close>: the bucket store, the reap of full
  buckets, the shedding above the key cap, and the decision and headers of one request.

  The map of buckets is an association list; its order stands for the order in which Go iterates the
  map, and no property depends on it. \<open>now\<close> is the clock read at the call. The key of a request
  (\<^verbatim>\<open>KeyFunc\<close>) is an argument. Products that can leave 64 bits are wrapped.
\<close>

section \<open>State\<close>

record bucket =
  tokens :: int
  lastSeen :: gotime

record bucketStore =
  capacity :: int
  rate :: int
  refill :: int
  maxKeys :: int
  buckets :: "(string \<times> bucket) list"

definition defaultRateLimitMaxKeys :: int where
  "defaultRateLimitMaxKeys = 100000"

definition newBucketStoreCapped :: "int \<Rightarrow> int \<Rightarrow> int \<Rightarrow> int \<Rightarrow> bucketStore" where
  "newBucketStoreCapped cap rt rf mk =
     \<lparr>capacity = cap, rate = rt, refill = rf, maxKeys = (if mk \<le> 0 then defaultRateLimitMaxKeys else mk),
      buckets = []\<rparr>"

definition newBucketStore :: "int \<Rightarrow> int \<Rightarrow> int \<Rightarrow> bucketStore" where
  "newBucketStore cap rt rf = newBucketStoreCapped cap rt rf 0"

section \<open>Operations\<close>

definition timeToFull :: "bucketStore \<Rightarrow> int \<Rightarrow> gotime \<Rightarrow> gotime \<Rightarrow> int" where
  "timeToFull s remaining seen now =
     (let deficit = capacity s - remaining in
      if deficit \<le> 0 then 0
      else let ticks = wrap64 (deficit + refill s - 1) sdiv refill s;
               resetAt = seen + wrap64 (ticks * rate s);
               d = time_sub resetAt now
           in if d > 0 then d else 0)"

definition tokensAt :: "bucketStore \<Rightarrow> bucket \<Rightarrow> gotime \<Rightarrow> int" where
  "tokensAt s b now =
     (let elapsed = time_sub now (lastSeen b) in
      if elapsed \<le> 0 \<or> rate s \<le> 0 then tokens b
      else let ticks = elapsed sdiv rate s in
        if ticks \<ge> capacity s then capacity s
        else min (wrap64 (tokens b + wrap64 (ticks * refill s))) (capacity s))"

definition ceilSeconds :: "int \<Rightarrow> int" where
  "ceilSeconds d =
     (let secs = d sdiv second + (if d smod second > 0 then 1 else 0) in if secs < 0 then 0 else secs)"

definition reapLocked :: "gotime \<Rightarrow> bucketStore \<Rightarrow> bucketStore" where
  "reapLocked now s =
     s\<lparr>buckets := filter (\<lambda>(_, b). timeToFull s (tokens b) (lastSeen b) now \<noteq> 0) (buckets s)\<rparr>"

text \<open>\<^verbatim>\<open>evictLocked\<close> sorts by most tokens first, then by the smaller debt; the pair is ordered
  lexicographically. \<^verbatim>\<open>slices.SortFunc\<close> leaves the order of ties open, the list order settles it here.\<close>

definition shed_key :: "bucketStore \<Rightarrow> gotime \<Rightarrow> string \<times> bucket \<Rightarrow> int \<times> int" where
  "shed_key s now kb = (- tokensAt s (snd kb) now, timeToFull s (tokens (snd kb)) (lastSeen (snd kb)) now)"

fun shed_loop :: "int \<Rightarrow> ('a \<times> 'b) list \<Rightarrow> ('a \<times> 'b) list \<Rightarrow> ('a \<times> 'b) list" where
  "shed_loop lowWater [] bs = bs"
| "shed_loop lowWater (p # ps) bs =
     (if int (length bs) > lowWater then shed_loop lowWater ps (AList.delete (fst p) bs) else bs)"

definition evictLocked :: "gotime \<Rightarrow> bucketStore \<Rightarrow> bucketStore" where
  "evictLocked now s =
     (let lowWater = wrap64 (maxKeys s * 9) sdiv 10 in
      if int (length (buckets s)) \<le> lowWater then s
      else s\<lparr>buckets := shed_loop lowWater (sort_key (shed_key s now) (buckets s)) (buckets s)\<rparr>)"

definition refill_bucket :: "bucketStore \<Rightarrow> bucket \<Rightarrow> gotime \<Rightarrow> bucket" where
  "refill_bucket s b now =
     (let elapsed = time_sub now (lastSeen b) in
      if elapsed > 0 then
        let gained = wrap64 ((elapsed sdiv rate s) * refill s) in
        if gained > 0 then
          let t = wrap64 (tokens b + gained) in
          \<lparr>tokens = (if t > capacity s then capacity s else t),
           lastSeen = lastSeen b + wrap64 ((gained sdiv refill s) * rate s)\<rparr>
        else b
      else b)"

record take_result =
  allowed :: bool
  retryAfter :: int
  remaining :: int
  resetAfter :: int

definition take_token :: "string \<Rightarrow> gotime \<Rightarrow> bucketStore \<Rightarrow> take_result \<times> bucketStore" where
  "take_token key now s =
     (case map_of (buckets s) key of
        None \<Rightarrow>
          let left = capacity s - 1;
              s1 = s\<lparr>buckets := AList.update key \<lparr>tokens = left, lastSeen = now\<rparr> (buckets s)\<rparr>;
              s2 = (if length (buckets s1) mod 64 = 0 then reapLocked now s1 else s1);
              s3 = (if int (length (buckets s2)) > maxKeys s2 then evictLocked now s2 else s2)
          in (\<lparr>allowed = True, retryAfter = 0, remaining = left, resetAfter = timeToFull s left now now\<rparr>, s3)
      | Some b0 \<Rightarrow>
          let b = refill_bucket s b0 now in
          if tokens b \<le> 0 then
            (\<lparr>allowed = False, retryAfter = max (rate s - time_sub now (lastSeen b)) second, remaining = 0,
              resetAfter = timeToFull s 0 (lastSeen b) now\<rparr>,
             s\<lparr>buckets := AList.update key b (buckets s)\<rparr>)
          else let b' = b\<lparr>tokens := tokens b - 1\<rparr> in
            (\<lparr>allowed = True, retryAfter = 0, remaining = tokens b', resetAfter = timeToFull s (tokens b') (lastSeen b') now\<rparr>,
             s\<lparr>buckets := AList.update key b' (buckets s)\<rparr>))"

section \<open>The middleware\<close>

record RateLimitConfig =
  cfgCapacity :: int
  cfgRefillEvery :: int
  cfgRefillBy :: int
  cfgStatusCode :: int
  cfgOmitBudgetHeaders :: bool
  cfgMaxKeys :: int

definition config_defaults :: "RateLimitConfig \<Rightarrow> RateLimitConfig" where
  "config_defaults cfg0 =
     (let c1 = (if cfgCapacity cfg0 \<le> 0 then cfg0\<lparr>cfgCapacity := 60\<rparr> else cfg0);
          c2 = (if cfgRefillEvery c1 \<le> 0 then c1\<lparr>cfgRefillEvery := 60 * second\<rparr> else c1);
          c3 = (if cfgRefillBy c2 \<le> 0 then c2\<lparr>cfgRefillBy := cfgCapacity c2\<rparr> else c2)
      in if cfgStatusCode c3 = 0 then c3\<lparr>cfgStatusCode := 429\<rparr> else c3)"

definition RateLimit_store :: "RateLimitConfig \<Rightarrow> bucketStore" where
  "RateLimit_store cfg0 =
     (let cfg = config_defaults cfg0
      in newBucketStoreCapped (cfgCapacity cfg) (cfgRefillEvery cfg) (cfgRefillBy cfg) (cfgMaxKeys cfg))"

datatype limit_response = NextHandler "(string \<times> int) list" | HTTPError int "(string \<times> int) list"

definition RateLimit_handle ::
  "RateLimitConfig \<Rightarrow> string \<Rightarrow> gotime \<Rightarrow> bucketStore \<Rightarrow> limit_response \<times> bucketStore" where
  "RateLimit_handle cfg0 key now s =
     (let cfg = config_defaults cfg0 in
      case take_token key now s of (r, s') \<Rightarrow>
        let budget = (if cfgOmitBudgetHeaders cfg then []
                      else [(''RateLimit-Limit'', cfgCapacity cfg), (''RateLimit-Remaining'', remaining r),
                            (''RateLimit-Reset'', ceilSeconds (resetAfter r))])
        in if \<not> allowed r
           then (HTTPError (cfgStatusCode cfg)
                   (budget @ (if retryAfter r > 0 then [(''Retry-After'', ceilSeconds (retryAfter r))] else [])), s')
           else (NextHandler budget, s'))"


section \<open>Refill arithmetic\<close>

text \<open>A store whose settings stay clear of 64-bit overflow: the refill of any duration and the time to refill
  an empty bucket fit.\<close>

definition store_ok :: "bucketStore \<Rightarrow> bool" where
  "store_ok s \<longleftrightarrow> 0 < capacity s \<and> 0 < rate s \<and> 0 < refill s \<and> refill s * (maxInt64 div rate s) + capacity s \<le> maxInt64
     \<and> capacity s * rate s \<le> maxInt64 \<and> capacity s + refill s \<le> maxInt64"

text \<open>A bucket between empty and full whose clock lies between \<open>org\<close>, an instant before the store's first
  request, and now. Durations between instants less than 292 years after \<open>org\<close> do not saturate.\<close>

definition bucket_ok :: "gotime \<Rightarrow> bucketStore \<Rightarrow> gotime \<Rightarrow> bucket \<Rightarrow> bool" where
  "bucket_ok org s now b \<longleftrightarrow> 0 \<le> tokens b \<and> tokens b \<le> capacity s \<and> org \<le> lastSeen b \<and> lastSeen b \<le> now"

definition ticks_between :: "bucketStore \<Rightarrow> gotime \<Rightarrow> gotime \<Rightarrow> int" where
  "ticks_between s t u = (u - t) div rate s"

lemma ticks_bounds:
  assumes "store_ok s" "org \<le> t" "t \<le> u" "u \<le> org + maxInt64"
  shows "0 \<le> ticks_between s t u" "ticks_between s t u * rate s \<le> u - t" "u - t < ticks_between s t u * rate s + rate s"
    "ticks_between s t u * refill s + capacity s \<le> maxInt64"
proof -
  have r: "0 < rate s" "0 < refill s" using assms(1) by (auto simp: store_ok_def)
  show "0 \<le> ticks_between s t u" using r assms by (simp add: ticks_between_def pos_imp_zdiv_nonneg_iff)
  show "ticks_between s t u * rate s \<le> u - t" "u - t < ticks_between s t u * rate s + rate s"
    using r(1) pos_mod_bound [of "rate s" "u - t"] pos_mod_sign [of "rate s" "u - t"] div_mult_mod_eq [of "u - t" "rate s"]
    unfolding ticks_between_def by linarith+
  have "ticks_between s t u \<le> maxInt64 div rate s"
    unfolding ticks_between_def using assms r by (intro zdiv_mono1) auto
  then have "refill s * ticks_between s t u \<le> refill s * (maxInt64 div rate s)" using r by (intro mult_left_mono) auto
  moreover have "refill s * (maxInt64 div rate s) + capacity s \<le> maxInt64" using assms(1) by (simp add: store_ok_def)
  ultimately show "ticks_between s t u * refill s + capacity s \<le> maxInt64" unfolding mult.commute [of _ "refill s"] by linarith
qed

lemma refill_bucket_exact:
  assumes "store_ok s" "bucket_ok org s now b" "now \<le> org + maxInt64"
  shows "refill_bucket s b now =
    \<lparr>tokens = min (tokens b + ticks_between s (lastSeen b) now * refill s) (capacity s),
     lastSeen = lastSeen b + ticks_between s (lastSeen b) now * rate s\<rparr>"
proof -
  let ?m = "ticks_between s (lastSeen b) now"
  have b: "0 \<le> tokens b" "tokens b \<le> capacity s" "org \<le> lastSeen b" "lastSeen b \<le> now"
    using assms(2) by (auto simp: bucket_ok_def)
  have r: "0 < rate s" "0 < refill s" using assms(1) by (auto simp: store_ok_def)
  note m = ticks_bounds [OF assms(1) b(3,4) assms(3)]
  have el: "time_sub now (lastSeen b) = now - lastSeen b" using b assms(3) by (simp add: time_sub_exact [of org])
  have nn: "0 \<le> ?m * refill s" using m(1) r by simp
  have quot: "(now - lastSeen b) sdiv rate s = ?m" using b r by (simp add: sdiv_nonneg ticks_between_def)
  have gained: "wrap64 (((now - lastSeen b) sdiv rate s) * refill s) = ?m * refill s"
    unfolding quot using nn m(4) b by (intro wrap64_nonneg) auto
  have sum: "wrap64 (tokens b + ?m * refill s) = tokens b + ?m * refill s"
    using nn m(4) b by (intro wrap64_nonneg) auto
  have adv: "wrap64 ((?m * refill s) sdiv refill s * rate s) = ?m * rate s"
    using r nn m(1,2) b assms(3) by (simp add: sdiv_nonneg wrap64_nonneg)
  show ?thesis
  proof (cases "?m = 0")
    case True
    then show ?thesis using b el gained by (simp add: refill_bucket_def Let_def)
  next
    case False
    then have pos: "0 < ?m" using m(1) by simp
    then have "0 < ?m * refill s" "0 < ?m * rate s" using r by simp_all
    then have "0 < now - lastSeen b" using m(2) by linarith
    then show ?thesis unfolding refill_bucket_def Let_def el gained sum adv
      using \<open>0 < ?m * refill s\<close> by (simp add: min_def)
  qed
qed

lemma le_div_iff:
  assumes "0 < (r :: int)"
  shows "m \<le> a div r \<longleftrightarrow> m * r \<le> a"
proof
  assume "m \<le> a div r"
  then have "m * r \<le> a div r * r" using assms by (intro mult_right_mono) auto
  then show "m * r \<le> a" using assms pos_mod_sign [of r a] div_mult_mod_eq [of a r] by linarith
next
  assume "m * r \<le> a"
  from zdiv_mono1 [OF this assms] show "m \<le> a div r" using assms by simp
qed

lemma ceil_le_iff:
  assumes "0 < (r :: int)"
  shows "(d + r - 1) div r \<le> m \<longleftrightarrow> d \<le> m * r"
  using le_div_iff [OF assms, of "m + 1" "d + r - 1"] by (simp add: algebra_simps) linarith

lemma timeToFull_exact:
  assumes "store_ok s" "0 \<le> rem" "rem \<le> capacity s" "org \<le> seen" "seen \<le> now" "now \<le> org + maxInt64"
  shows "timeToFull s rem seen now =
    (if rem = capacity s then 0
     else max 0 (seen + (capacity s - rem + refill s - 1) div refill s * rate s - now))"
proof (cases "rem = capacity s")
  case True
  then show ?thesis by (simp add: timeToFull_def)
next
  case False
  let ?d = "capacity s - rem" and ?k = "(capacity s - rem + refill s - 1) div refill s"
  have r: "0 < rate s" "0 < refill s" using assms(1) by (auto simp: store_ok_def)
  have "?d \<le> ?d * refill s" using r assms(3) by (simp add: mult_le_cancel_left1)
  then have k: "?k \<le> ?d" "0 \<le> ?k" using r assms(3) by (simp_all add: ceil_le_iff pos_imp_zdiv_nonneg_iff)
  have "?k * rate s \<le> capacity s * rate s" using k assms(2) r by (intro mult_right_mono) auto
  moreover have "capacity s * rate s \<le> maxInt64" using assms(1) by (simp add: store_ok_def)
  ultimately have kr: "?k * rate s \<le> maxInt64" "0 \<le> ?k * rate s" using k r by (linarith, simp)
  have "wrap64 (?d + refill s - 1) = ?d + refill s - 1"
    using assms r by (intro wrap64_nonneg) (auto simp: store_ok_def)
  moreover have "(?d + refill s - 1) sdiv refill s = ?k" using r assms(3) by (simp add: sdiv_nonneg)
  moreover have "time_sub (seen + ?k * rate s) now = seen + ?k * rate s - now"
    using kr assms by (simp add: time_sub_def minInt64_def maxInt64_def)
  ultimately show ?thesis using False assms(3) kr
    by (simp add: timeToFull_def Let_def wrap64_nonneg)
qed

lemma timeToFull_zero_iff:
  assumes "store_ok s" "bucket_ok org s now b" "now \<le> org + maxInt64"
  shows "timeToFull s (tokens b) (lastSeen b) now = 0 \<longleftrightarrow> tokens (refill_bucket s b now) = capacity s"
proof -
  have b: "0 \<le> tokens b" "tokens b \<le> capacity s" "org \<le> lastSeen b" "lastSeen b \<le> now"
    using assms(2) by (auto simp: bucket_ok_def)
  have r: "0 < rate s" "0 < refill s" using assms(1) by (auto simp: store_ok_def)
  let ?k = "(capacity s - tokens b + refill s - 1) div refill s"
  have "lastSeen b + ?k * rate s \<le> now \<longleftrightarrow> ?k * rate s \<le> now - lastSeen b" by linarith
  also have "\<dots> \<longleftrightarrow> ?k \<le> ticks_between s (lastSeen b) now"
    using r by (simp add: ticks_between_def le_div_iff)
  also have "\<dots> \<longleftrightarrow> capacity s - tokens b \<le> ticks_between s (lastSeen b) now * refill s"
    using r by (rule_tac ceil_le_iff)
  finally show ?thesis
    using ticks_bounds(1) [OF assms(1) b(3,4) assms(3)] r
    by (auto simp: timeToFull_exact [OF assms(1) b assms(3)] refill_bucket_exact [OF assms] min_def mult_le_0_iff)
qed


lemma refill_bucket_ok:
  assumes "store_ok s" "bucket_ok org s now b" "now \<le> org + maxInt64"
  shows "bucket_ok org s now (refill_bucket s b now)" "now - lastSeen (refill_bucket s b now) < rate s"
proof -
  have b: "0 \<le> tokens b" "tokens b \<le> capacity s" "org \<le> lastSeen b" "lastSeen b \<le> now"
    using assms(2) by (auto simp: bucket_ok_def)
  note m = ticks_bounds [OF assms(1) b(3,4) assms(3)]
  have "0 < rate s" "0 < refill s" using assms(1) by (auto simp: store_ok_def)
  with m(1) have "0 \<le> ticks_between s (lastSeen b) now * refill s" "0 \<le> ticks_between s (lastSeen b) now * rate s" by simp_all
  with b m(2,3) show "bucket_ok org s now (refill_bucket s b now)" "now - lastSeen (refill_bucket s b now) < rate s"
    by (auto simp: refill_bucket_exact [OF assms] bucket_ok_def)
qed

text \<open>Refilling in two steps is refilling once.\<close>

lemma ticks_split:
  assumes "store_ok s"
  shows "ticks_between s (t + k * rate s) u = ticks_between s t u - k"
proof -
  have "0 < rate s" using assms by (simp add: store_ok_def)
  moreover have "u - (t + k * rate s) = u - t + (- k) * rate s" by simp
  ultimately show ?thesis unfolding ticks_between_def by (simp only: div_mult_self1)
qed

lemma refill_bucket_compose:
  assumes "store_ok s" "bucket_ok org s now b" "now \<le> now'" "now' \<le> org + maxInt64"
  shows "refill_bucket s (refill_bucket s b now) now' = refill_bucket s b now'"
proof -
  have now: "now \<le> org + maxInt64" using assms by simp
  have ok': "bucket_ok org s now' b" using assms by (auto simp: bucket_ok_def)
  have okr: "bucket_ok org s now' (refill_bucket s b now)"
    using refill_bucket_ok(1) [OF assms(1,2) now] assms(3) by (auto simp: bucket_ok_def)
  let ?m = "ticks_between s (lastSeen b) now" and ?n = "ticks_between s (lastSeen b) now'"
  have b: "org \<le> lastSeen b" "lastSeen b \<le> now" "tokens b \<le> capacity s" using assms(2) by (auto simp: bucket_ok_def)
  have r: "0 < rate s" "0 < refill s" using assms(1) by (auto simp: store_ok_def)
  have mn: "?m \<le> ?n" unfolding ticks_between_def using assms(3) r by (intro zdiv_mono1) auto
  then have "?m * refill s \<le> ?n * refill s" using r by (intro mult_right_mono) auto
  moreover have "(?n - ?m) * refill s = ?n * refill s - ?m * refill s" by (simp add: algebra_simps)
  moreover define b1 where "b1 = refill_bucket s b now"
  then have "tokens b1 = min (tokens b + ?m * refill s) (capacity s)" "lastSeen b1 = lastSeen b + ?m * rate s"
    by (simp_all add: refill_bucket_exact [OF assms(1,2) now])
  ultimately show ?thesis
    unfolding refill_bucket_exact [OF assms(1) ok' assms(4)] b1_def [symmetric]
      refill_bucket_exact [OF assms(1) okr [folded b1_def] assms(4)]
    by (auto simp: ticks_split [OF assms(1)] min_def left_diff_distrib)
qed

section \<open>The store\<close>

definition bstore_inv :: "gotime \<Rightarrow> bucketStore \<Rightarrow> gotime \<Rightarrow> bool" where
  "bstore_inv org s now \<longleftrightarrow> store_ok s \<and> org \<le> now \<and> distinct (map fst (buckets s)) \<and> list_all (\<lambda>(_, b). bucket_ok org s now b) (buckets s)"

definition same_settings :: "bucketStore \<Rightarrow> bucketStore \<Rightarrow> bool" where
  "same_settings s s' \<longleftrightarrow> capacity s' = capacity s \<and> rate s' = rate s \<and> refill s' = refill s \<and> maxKeys s' = maxKeys s"

lemma settings_upd [simp]: "same_settings s (s\<lparr>buckets := bs\<rparr>)"
  by (simp add: same_settings_def)

lemma inv_upd [simp]: "store_ok (s\<lparr>buckets := bs\<rparr>) = store_ok s" "bucket_ok org (s\<lparr>buckets := bs\<rparr>) = bucket_ok org s"
  "timeToFull (s\<lparr>buckets := bs\<rparr>) = timeToFull s" "tokensAt (s\<lparr>buckets := bs\<rparr>) = tokensAt s"
  "refill_bucket (s\<lparr>buckets := bs\<rparr>) = refill_bucket s" "shed_key (s\<lparr>buckets := bs\<rparr>) = shed_key s"
  by (auto simp: store_ok_def bucket_ok_def timeToFull_def tokensAt_def refill_bucket_def shed_key_def fun_eq_iff Let_def)

lemma bstore_inv_lookup: "bstore_inv org s now \<Longrightarrow> map_of (buckets s) k = Some b \<Longrightarrow> bucket_ok org s now b"
  using map_of_SomeD by (fastforce simp: bstore_inv_def list_all_iff)

lemma bstore_inv_later: "bstore_inv org s now \<Longrightarrow> now \<le> now' \<Longrightarrow> bstore_inv org s now'"
  by (auto simp: bstore_inv_def bucket_ok_def list_all_iff)

lemma bstore_inv_update: "bstore_inv org s now \<Longrightarrow> bucket_ok org s now b \<Longrightarrow> bstore_inv org (s\<lparr>buckets := AList.update k b (buckets s)\<rparr>) now"
proof -
  have "set (AList.update k b al) \<subseteq> insert (k, b) (set al)" for al :: "(string \<times> bucket) list"
    by (induction al) auto
  then show "bstore_inv org s now \<Longrightarrow> bucket_ok org s now b \<Longrightarrow> ?thesis"
    by (fastforce simp: bstore_inv_def list_all_iff distinct_update)
qed

lemma bstore_inv_filter: "bstore_inv org s now \<Longrightarrow> bstore_inv org (s\<lparr>buckets := filter P (buckets s)\<rparr>) now"
  by (auto simp: bstore_inv_def list_all_iff distinct_map_filter)

text \<open>What a request of a key sees: its bucket refilled, or a full one when there is none.\<close>

definition view_bucket :: "bucketStore \<Rightarrow> string \<Rightarrow> gotime \<Rightarrow> bucket" where
  "view_bucket s key now =
     (case map_of (buckets s) key of None \<Rightarrow> \<lparr>tokens = capacity s, lastSeen = now\<rparr> | Some b \<Rightarrow> refill_bucket s b now)"

lemma take_allowed: "store_ok s \<Longrightarrow> allowed (fst (take_token key now s)) \<longleftrightarrow> 0 < tokens (view_bucket s key now)"
  by (auto simp: take_token_def view_bucket_def Let_def store_ok_def split: option.split)

lemma take_remaining:
  "store_ok s \<Longrightarrow> remaining (fst (take_token key now s)) = (if 0 < tokens (view_bucket s key now) then tokens (view_bucket s key now) - 1 else 0)"
  by (auto simp: take_token_def view_bucket_def Let_def store_ok_def split: option.split)


lemma view_bucket_ok:
  assumes "bstore_inv org s now" "now \<le> org + maxInt64"
  shows "bucket_ok org s now (view_bucket s key now)" "now - lastSeen (view_bucket s key now) < rate s"
  using assms refill_bucket_ok [OF _ bstore_inv_lookup [OF assms(1)] assms(2)]
  by (auto simp: view_bucket_def bstore_inv_def bucket_ok_def store_ok_def split: option.splits)

text \<open>A reap does not change what a key sees, except that the refill clock of a reclaimed bucket restarts.\<close>

lemma map_of_filter_distinct:
  "distinct (map fst al) \<Longrightarrow>
     map_of (filter P al) k = (case map_of al k of None \<Rightarrow> None | Some v \<Rightarrow> if P (k, v) then Some v else None)"
  by (induction al) (auto split: option.splits simp: map_of_eq_None_iff rev_image_eqI)

lemma view_reap:
  assumes "bstore_inv org s now" "now \<le> org + maxInt64"
  shows "tokens (view_bucket (reapLocked now s) key now) = tokens (view_bucket s key now)"
    "lastSeen (view_bucket s key now) \<le> lastSeen (view_bucket (reapLocked now s) key now)"
proof -
  have d: "distinct (map fst (buckets s))" and s: "store_ok s" using assms(1) by (auto simp: bstore_inv_def)
  have m: "map_of (buckets (reapLocked now s)) key =
      (case map_of (buckets s) key of None \<Rightarrow> None
       | Some b \<Rightarrow> if timeToFull s (tokens b) (lastSeen b) now \<noteq> 0 then Some b else None)"
    by (simp add: reapLocked_def map_of_filter_distinct [OF d] cong: option.case_cong)
  have rf: "refill_bucket (reapLocked now s) = refill_bucket s" "capacity (reapLocked now s) = capacity s"
    by (simp_all add: reapLocked_def)
  show "tokens (view_bucket (reapLocked now s) key now) = tokens (view_bucket s key now)"
    "lastSeen (view_bucket s key now) \<le> lastSeen (view_bucket (reapLocked now s) key now)"
    using timeToFull_zero_iff [OF s bstore_inv_lookup [OF assms(1), of key] assms(2)] view_bucket_ok(1) [OF assms, of key]
    by (auto simp: view_bucket_def m rf bucket_ok_def split: option.splits)
qed

lemma reap_inv: "bstore_inv org s now \<Longrightarrow> bstore_inv org (reapLocked now s) now"
  by (simp add: reapLocked_def bstore_inv_filter)

lemma view_later:
  assumes "bstore_inv org s now" "now \<le> now'" "now' \<le> org + maxInt64"
  shows "view_bucket s key now' =
    (if map_of (buckets s) key = None then \<lparr>tokens = capacity s, lastSeen = now'\<rparr>
     else refill_bucket s (view_bucket s key now) now')"
  using refill_bucket_compose [OF _ bstore_inv_lookup [OF assms(1)] assms(2,3)] assms(1)
  by (auto simp: view_bucket_def bstore_inv_def split: option.splits)

text \<open>A request without shedding, as a change of the views.\<close>

definition spent :: "bucket \<Rightarrow> bucket" where
  "spent b = (if tokens b \<le> 0 then b else b\<lparr>tokens := tokens b - 1\<rparr>)"

lemma take_store:
  assumes "store_ok s"
  shows "snd (take_token key now s) =
    (case map_of (buckets s) key of
       Some b \<Rightarrow> s\<lparr>buckets := AList.update key (spent (refill_bucket s b now)) (buckets s)\<rparr>
     | None \<Rightarrow>
         let s1 = s\<lparr>buckets := AList.update key (spent \<lparr>tokens = capacity s, lastSeen = now\<rparr>) (buckets s)\<rparr>;
             s2 = (if length (buckets s1) mod 64 = 0 then reapLocked now s1 else s1)
         in if int (length (buckets s2)) > maxKeys s2 then evictLocked now s2 else s2)"
  using assms by (auto simp: take_token_def Let_def spent_def store_ok_def split: option.split)

lemma refill_idle:
  assumes "bstore_inv org s now" "bucket_ok org s now b" "now - lastSeen b < rate s" "now \<le> org + maxInt64"
  shows "refill_bucket s b now = b"
proof -
  have s: "store_ok s" using assms(1) by (simp add: bstore_inv_def)
  then have "ticks_between s (lastSeen b) now = 0"
    using assms(2,3) by (auto simp: ticks_between_def bucket_ok_def store_ok_def)
  then show ?thesis using assms(2) by (simp add: refill_bucket_exact [OF s assms(2,4)] bucket_ok_def)
qed

lemma spent_ok: "bucket_ok org s now b \<Longrightarrow> bucket_ok org s now (spent b)"
  by (auto simp: spent_def bucket_ok_def)

lemma view_update:
  assumes "bstore_inv org s now" "now \<le> org + maxInt64" "bucket_ok org s now b" "now - lastSeen b < rate s"
  shows "view_bucket (s\<lparr>buckets := AList.update k b (buckets s)\<rparr>) key now = (if key = k then b else view_bucket s key now)"
  using refill_idle [OF assms(1,3,4,2)] by (simp add: view_bucket_def update_conv' split: option.split)

lemma spent_sel [simp]: "lastSeen (spent b) = lastSeen b"
  by (simp add: spent_def)

lemma take_view:
  assumes "bstore_inv org s now" "now \<le> org + maxInt64" "int (length (buckets s)) < maxKeys s \<or> map_of (buckets s) k \<noteq> None"
  defines "s' \<equiv> snd (take_token k now s)"
  shows "tokens (view_bucket s' key now) = tokens ((if key = k then spent else id) (view_bucket s key now))"
    and "lastSeen (view_bucket s key now) \<le> lastSeen (view_bucket s' key now)"
    and "bstore_inv org s' now" and "same_settings s s'" and "fst ` set (buckets s') \<subseteq> insert k (fst ` set (buckets s))"
proof -
  have s: "store_ok s" using assms(1) by (simp add: bstore_inv_def)
  define s1 where "s1 = s\<lparr>buckets := AList.update k (spent (view_bucket s k now)) (buckets s)\<rparr>"
  have inv1: "bstore_inv org s1 now"
    unfolding s1_def using view_bucket_ok(1) [OF assms(1,2)] by (intro bstore_inv_update [OF assms(1)] spent_ok)
  have "int (length (buckets s1)) \<le> int (length (buckets s)) + 1"
  proof -
    have "length (AList.update k b al) \<le> length al + 1" for b and al :: "(string \<times> bucket) list" by (induction al) auto
    from this [of "spent (view_bucket s k now)" "buckets s"] show ?thesis unfolding s1_def by simp
  qed
  moreover have "length (buckets (reapLocked now s1)) \<le> length (buckets s1)" by (simp add: reapLocked_def)
  moreover have "maxKeys (reapLocked now s1) = maxKeys s" "maxKeys s1 = maxKeys s" by (simp_all add: reapLocked_def s1_def)
  ultimately have s': "s' = s1 \<or> s' = reapLocked now s1"
    using assms(3) unfolding s'_def take_store [OF s] s1_def
    by (auto simp: Let_def view_bucket_def split: option.splits)
  have v1: "view_bucket s1 key now = (if key = k then spent (view_bucket s k now) else view_bucket s key now)"
    unfolding s1_def by (rule view_update [OF assms(1,2)]) (simp_all add: spent_ok view_bucket_ok [OF assms(1,2)])
  have cap: "view_bucket s1 key now = (if key = k then spent else id) (view_bucket s key now)"
    using v1 by simp
  show "tokens (view_bucket s' key now) = tokens ((if key = k then spent else id) (view_bucket s key now))"
    and "lastSeen (view_bucket s key now) \<le> lastSeen (view_bucket s' key now)"
    using s' view_reap [OF inv1 assms(2), of key] cap by (auto split: if_splits)
  show "bstore_inv org s' now" using s' inv1 reap_inv by auto
  show "same_settings s s'" using s' by (auto simp: s1_def reapLocked_def same_settings_def)
  have "fst ` set (buckets s') \<subseteq> fst ` set (buckets s1)" using s' by (auto simp: reapLocked_def)
  also have "\<dots> \<subseteq> insert k (fst ` set (buckets s))" by (simp add: s1_def dom_update)
  finally show "fst ` set (buckets s') \<subseteq> insert k (fst ` set (buckets s))" .
qed

fun allowed_count :: "string \<Rightarrow> (string \<times> gotime) list \<Rightarrow> bucketStore \<Rightarrow> int" where
  "allowed_count key [] s = 0"
| "allowed_count key ((k, t) # es) s =
     (if k = key \<and> allowed (fst (take_token k t s)) then 1 else 0) + allowed_count key es (snd (take_token k t s))"

definition budget :: "bucketStore \<Rightarrow> gotime \<Rightarrow> int \<Rightarrow> bucket \<Rightarrow> bool" where
  "budget s t0 n v \<longleftrightarrow> (\<exists>K \<ge> 0. n + tokens v \<le> capacity s + refill s * K \<and> t0 + (K - 1) * rate s < lastSeen v)"

lemma budget_mono: "budget s t0 n v \<Longrightarrow> n' + tokens v' \<le> n + tokens v \<Longrightarrow> lastSeen v \<le> lastSeen v' \<Longrightarrow> budget s t0 n' v'"
  unfolding budget_def by (meson add_mono le_less_trans less_le_trans order_trans)

lemma budget_later:
  assumes "bstore_inv org s now" "now \<le> now'" "now' \<le> org + maxInt64" "budget s t0 n (view_bucket s key now)"
  shows "budget s t0 n (view_bucket s key now')"
proof (cases "map_of (buckets s) key")
  case None
  with assms(2,4) show ?thesis by (auto simp: view_bucket_def intro: budget_mono)
next
  case (Some b)
  let ?v = "view_bucket s key now" and ?m = "ticks_between s (lastSeen (view_bucket s key now)) now'"
  have s: "store_ok s" using assms(1) by (simp add: bstore_inv_def)
  have now: "now \<le> org + maxInt64" using assms(2,3) by simp
  have ok: "bucket_ok org s now' ?v" using view_bucket_ok(1) [OF assms(1) now, of key] assms(2) by (auto simp: bucket_ok_def)
  have v': "view_bucket s key now' = refill_bucket s ?v now'" using view_later [OF assms(1-3), of key] Some by simp
  from assms(4) obtain K where K: "0 \<le> K" "n + tokens ?v \<le> capacity s + refill s * K" "t0 + (K - 1) * rate s < lastSeen ?v"
    by (auto simp: budget_def)
  have "0 \<le> ?m" using ticks_bounds(1) [OF s _ _ assms(3)] ok by (auto simp: bucket_ok_def)
  then have "0 \<le> K + ?m" "n + tokens (view_bucket s key now') \<le> capacity s + refill s * (K + ?m)"
    "t0 + (K + ?m - 1) * rate s < lastSeen (view_bucket s key now')"
    using K unfolding v' by (simp_all add: refill_bucket_exact [OF s ok assms(3)] algebra_simps min_def) 
  then show ?thesis unfolding budget_def by blast
qed

lemma budget_end:
  assumes "store_ok s" "budget s t0 n v" "0 \<le> tokens v" "lastSeen v \<le> e"
  shows "n \<le> capacity s + refill s * (1 + (e - t0) div rate s)"
proof -
  from assms(2) obtain K where K: "n + tokens v \<le> capacity s + refill s * K" "t0 + (K - 1) * rate s < lastSeen v"
    by (auto simp: budget_def)
  have r: "0 < rate s" "0 < refill s" using assms(1) by (auto simp: store_ok_def)
  have "(K - 1) * rate s \<le> e - t0" using K(2) assms(4) by linarith
  then have "K - 1 \<le> (e - t0) div rate s" using le_div_iff [OF r(1)] by blast
  then have "refill s * K \<le> refill s * (1 + (e - t0) div rate s)" using r(2) by (intro mult_left_mono) auto
  with K(1) assms(3) show ?thesis by linarith
qed


lemma settings_transfer:
  "same_settings s s' \<Longrightarrow> budget s' = budget s"
  "same_settings s s' \<Longrightarrow> capacity s' = capacity s" "same_settings s s' \<Longrightarrow> rate s' = rate s"
  "same_settings s s' \<Longrightarrow> refill s' = refill s" "same_settings s s' \<Longrightarrow> maxKeys s' = maxKeys s"
  by (auto simp: same_settings_def budget_def fun_eq_iff)

lemma allowed_within_budget:
  assumes "bstore_inv org s now" "budget s t0 n (view_bucket s key now)" "now \<le> e" "e \<le> org + maxInt64"
    and "sorted_wrt (\<le>) (map snd es)" "list_all (\<lambda>(_, t). now \<le> t \<and> t \<le> e) es"
    and "int (card (fst ` set (buckets s) \<union> fst ` set es)) \<le> maxKeys s"
  shows "n + allowed_count key es s \<le> capacity s + refill s * (1 + (e - t0) div rate s)"
  using assms
proof (induction es arbitrary: s now n)
  case Nil
  have "now \<le> org + maxInt64" using Nil.prems(3,4) by simp
  note v = view_bucket_ok(1) [OF Nil.prems(1) this, of key]
  show ?case
    using budget_end [of s t0 n "view_bucket s key now" e] Nil.prems v by (auto simp: bucket_ok_def bstore_inv_def)
next
  case (Cons ev es)
  obtain k t where ev: "ev = (k, t)" by (cases ev)
  have t: "now \<le> t" "t \<le> e" "t \<le> org + maxInt64" using Cons.prems by (auto simp: ev)
  note inv = bstore_inv_later [OF Cons.prems(1) t(1)]
  have d: "distinct (map fst (buckets s))" and ok: "store_ok s" using inv by (auto simp: bstore_inv_def)
  have len: "length (buckets s) = card (fst ` set (buckets s))"
    using distinct_card [OF d] by simp
  have room: "int (length (buckets s)) < maxKeys s \<or> map_of (buckets s) k \<noteq> None"
  proof (cases "map_of (buckets s) k")
    case None
    then have "k \<notin> fst ` set (buckets s)" by (simp add: map_of_eq_None_iff)
    then have "card (insert k (fst ` set (buckets s))) = Suc (length (buckets s))" by (simp add: len)
    moreover have "card (insert k (fst ` set (buckets s))) \<le> card (fst ` set (buckets s) \<union> fst ` set (ev # es))"
      by (rule card_mono) (auto simp: ev)
    ultimately show ?thesis using Cons.prems(7) by linarith
  qed simp
  let ?s = "snd (take_token k t s)"
  note tv = take_view [OF inv t(3) room]
  have "fst ` set (buckets ?s) \<union> fst ` set es \<subseteq> fst ` set (buckets s) \<union> fst ` set (ev # es)"
    using tv(5) by (auto simp: ev)
  then have "card (fst ` set (buckets ?s) \<union> fst ` set es) \<le> card (fst ` set (buckets s) \<union> fst ` set (ev # es))"
    by (intro card_mono) auto
  with Cons.prems(7) have card: "int (card (fst ` set (buckets ?s) \<union> fst ` set es)) \<le> maxKeys ?s"
    unfolding settings_transfer(5) [OF tv(4)] by linarith
  let ?n = "n + (if k = key \<and> allowed (fst (take_token k t s)) then 1 else 0)"
  have b: "budget s t0 n (view_bucket s key t)" by (rule budget_later [OF Cons.prems(1) t(1,3) Cons.prems(2)])
  have "budget ?s t0 ?n (view_bucket ?s key t)"
    unfolding settings_transfer(1) [OF tv(4)]
    by (rule budget_mono [OF b]) (use tv(1,2) [of key] take_allowed [OF ok, of k t] in \<open>auto simp: spent_def\<close>)
  moreover have "sorted_wrt (\<le>) (map snd es)" "list_all (\<lambda>(_, u). t \<le> u \<and> u \<le> e) es"
    using Cons.prems(5,6) by (auto simp: ev list_all_iff)
  ultimately have "?n + allowed_count key es ?s \<le> capacity s + refill s * (1 + (e - t0) div rate s)"
    using Cons.IH [OF tv(3) _ t(2) Cons.prems(4) _ _ card] by (simp only: settings_transfer [OF tv(4)])
  then show ?case by (simp add: ev add.assoc)
qed

section \<open>Properties\<close>

text \<open>C8. In any window of time the limiter lets through at most one bucket of a key's requests plus the refills
  of the window: \<open>Capacity + RefillBy\<close> for each started \<^verbatim>\<open>RefillEvery\<close>. This holds from every consistent
  state of the store, whatever other keys do and whenever the reap runs, as long as the number of
  keys stays within \<^verbatim>\<open>MaxKeys\<close>, so that no bucket is shed. Two limits are stated: the window ends less
  than 292 years (\<^verbatim>\<open>math.MaxInt64\<close> ns) after an instant \<open>org\<close> no later than any bucket's clock, whatever the
  absolute reading of the clock; and the settings are clear of 64-bit overflow (\<open>store_ok\<close>: positive, with
  \<open>RefillBy\<close> times the refill periods of 292 years plus \<open>Capacity\<close>, \<open>Capacity\<close> times
  \<open>RefillEvery\<close>, and \<open>Capacity + RefillBy\<close> all within an \<^verbatim>\<open>int64\<close>).\<close>

theorem rate_limit_window:
  assumes "bstore_inv org s t0" "t0 \<le> e" "e \<le> org + maxInt64"
    and "sorted_wrt (\<le>) (map snd es)" "list_all (\<lambda>(_, t). t0 \<le> t \<and> t \<le> e) es"
    and "int (card (fst ` set (buckets s) \<union> fst ` set es)) \<le> maxKeys s"
  shows "allowed_count key es s \<le> capacity s + refill s * (1 + (e - t0) div rate s)"
proof -
  have t0: "t0 \<le> org + maxInt64" using assms(2,3) by simp
  note v = view_bucket_ok [OF assms(1) t0, of key]
  have "budget s t0 0 (view_bucket s key t0)"
    unfolding budget_def using v by (intro exI [of _ 0]) (auto simp: bucket_ok_def)
  from allowed_within_budget [OF assms(1) this assms(2-6)] show ?thesis by simp
qed


lemma ceilSeconds_covers:
  assumes "0 < d"
  shows "d \<le> second * ceilSeconds d"
proof -
  have "0 < second" by (simp add: second_def)
  with assms have c: "ceilSeconds d = d div second + (if 0 < d mod second then 1 else 0)"
    by (auto simp: ceilSeconds_def sdiv_nonneg smod_nonneg Let_def pos_imp_zdiv_neg_iff)
    (metis add_le_same_cancel1 linorder_not_less pos_imp_zdiv_nonneg_iff order_less_imp_le le_add_same_cancel2 not_one_le_zero zero_le_one order_trans)
  have "0 < d mod second \<Longrightarrow> second * ceilSeconds d = second * (d div second) + second"
    "\<not> 0 < d mod second \<Longrightarrow> second * ceilSeconds d = second * (d div second)"
    by (simp_all add: c distrib_left)
  moreover have "second * (d div second) + d mod second = d" by simp
  moreover have "d mod second < second" "0 \<le> d mod second" using \<open>0 < second\<close> by simp_all
  ultimately show ?thesis by linarith
qed

text \<open>A refused request is told when to come back: at the quoted \<^verbatim>\<open>Retry-After\<close> instant, and at any later one, a
  request of the same key on the store it left is allowed, and a request before the next refill tick
  (\<^verbatim>\<open>lastSeen + RefillEvery\<close>) is refused again. The whole seconds of the header never fall short.\<close>

lemma retry_after_sufficient:
  assumes "bstore_inv org s now" "now \<le> now'" "now' \<le> org + maxInt64" "\<not> allowed (fst (take_token key now s))"
  shows "retryAfter (fst (take_token key now s)) \<le> second * ceilSeconds (retryAfter (fst (take_token key now s)))
    \<and> (if now + retryAfter (fst (take_token key now s)) \<le> now'
       then allowed (fst (take_token key now' (snd (take_token key now s))))
       else lastSeen (view_bucket s key now) + rate s > now' \<longrightarrow> \<not> allowed (fst (take_token key now' (snd (take_token key now s)))))"
proof -
  have s: "store_ok s" and now: "now \<le> org + maxInt64" using assms by (auto simp: bstore_inv_def)
  obtain b0 where b0: "map_of (buckets s) key = Some b0"
    using assms(4) by (auto simp: take_token_def Let_def split: option.splits)
  let ?b = "refill_bucket s b0 now"
  have v: "view_bucket s key now = ?b" by (simp add: view_bucket_def b0)
  have ok: "bucket_ok org s now ?b" "now - lastSeen ?b < rate s" using view_bucket_ok [OF assms(1) now, of key] by (simp_all add: v)
  have z: "tokens ?b = 0" using take_allowed [OF s, of key now] assms(4) ok by (auto simp: v bucket_ok_def)
  let ?s = "s\<lparr>buckets := AList.update key ?b (buckets s)\<rparr>"
  have tk: "take_token key now s = (\<lparr>allowed = False, retryAfter = max (rate s - time_sub now (lastSeen ?b)) second, remaining = 0,
              resetAfter = timeToFull s 0 (lastSeen ?b) now\<rparr>, ?s)"
    using b0 z by (simp add: take_token_def Let_def)
  have sub: "time_sub now (lastSeen ?b) = now - lastSeen ?b" using ok now by (simp add: bucket_ok_def time_sub_exact [of org])
  have ok': "bucket_ok org s now' ?b" using ok assms(2) by (auto simp: bucket_ok_def)
  have r: "0 < rate s" "0 < refill s" "0 < capacity s" using s by (auto simp: store_ok_def)
  have "allowed (fst (take_token key now' ?s)) \<longleftrightarrow> 0 < tokens (refill_bucket s ?b now')"
    using take_allowed [of ?s key now'] s by (simp add: view_bucket_def update_conv')
  also have "\<dots> \<longleftrightarrow> 0 < ticks_between s (lastSeen ?b) now'"
    using r by (simp add: refill_bucket_exact [OF s ok' assms(3)] z zero_less_mult_iff)
  also have "\<dots> \<longleftrightarrow> lastSeen ?b + rate s \<le> now'"
    using le_div_iff [OF r(1), of 1 "now' - lastSeen ?b"] by (auto simp: ticks_between_def)
  finally have A: "allowed (fst (take_token key now' ?s)) \<longleftrightarrow> lastSeen ?b + rate s \<le> now'" .
  define r where "r = max (rate s - time_sub now (lastSeen ?b)) second"
  have "0 < r" "now + r \<le> now' \<Longrightarrow> lastSeen ?b + rate s \<le> now'"
    unfolding r_def sub by (auto simp: second_def)
  with A ceilSeconds_covers [of r] show ?thesis unfolding tk v r_def [symmetric] by auto
qed

text \<open>The reap is lossless: after it, every key's next request at that moment gets the same decision and the
  same remaining budget as without it.\<close>

lemma reap_lossless:
  assumes "bstore_inv org s now" "now \<le> org + maxInt64"
  shows "allowed (fst (take_token key now (reapLocked now s))) = allowed (fst (take_token key now s))
    \<and> remaining (fst (take_token key now (reapLocked now s))) = remaining (fst (take_token key now s))"
proof -
  have "store_ok s" "store_ok (reapLocked now s)" using assms(1) by (auto simp: bstore_inv_def reapLocked_def)
  then show ?thesis by (simp add: take_allowed take_remaining view_reap(1) [OF assms])
qed


section \<open>Shedding\<close>

lemma length_filter_neq: "distinct bs \<Longrightarrow> p \<in> set bs \<Longrightarrow> length (filter (\<lambda>x. x \<noteq> p) bs) = length bs - 1"
proof (induction bs)
  case (Cons a bs)
  show ?case
  proof (cases "a = p")
    case True
    then have "filter (\<lambda>x. x \<noteq> p) bs = bs" using Cons.prems by (intro filter_True) auto
    then show ?thesis using True by simp
  next
    case False
    then show ?thesis using Cons length_pos_if_in_set [of p bs] by simp
  qed
qed simp

lemma shed_loop_spec:
  assumes "distinct (map fst bs)" "distinct (map fst ps)" "set ps \<subseteq> set bs" "0 \<le> lw"
  shows "shed_loop lw ps bs = filter (\<lambda>x. x \<notin> set (take (nat (int (length bs) - lw)) ps)) bs"
  using assms
proof (induction ps arbitrary: bs)
  case (Cons p ps)
  obtain k b where p: "p = (k, b)" by (cases p)
  have pin: "p \<in> set bs" using Cons.prems by simp
  have del: "AList.delete k bs = filter (\<lambda>x. x \<noteq> p) bs"
    using Cons.prems(1) pin unfolding AList.delete_eq p
    by (intro filter_cong) (auto dest: eq_key_imp_eq_value)
  have len: "length (filter (\<lambda>x. x \<noteq> p) bs) = length bs - 1" "0 < length bs"
    using length_filter_neq [OF _ pin] Cons.prems(1) pin length_pos_if_in_set by (auto simp: distinct_map)
  show ?case
  proof (cases "int (length bs) > lw")
    case True
    have "set ps \<subseteq> set (AList.delete k bs)" using Cons.prems unfolding del by (force simp: p)
    moreover have "distinct (map fst (AList.delete k bs))" using Cons.prems(1) by (simp add: distinct_delete)
    ultimately have "shed_loop lw ps (AList.delete k bs)
        = filter (\<lambda>x. x \<notin> set (take (nat (int (length (AList.delete k bs)) - lw)) ps)) (AList.delete k bs)"
      using Cons.IH [of "AList.delete k bs"] Cons.prems by simp
    moreover have "nat (int (length bs) - lw) = Suc (nat (int (length (AList.delete k bs)) - lw))"
      using True len(2) unfolding del len(1) by (cases "length bs") (simp_all add: Suc_nat_eq_nat_zadd1)
    ultimately show ?thesis using True by (simp add: p) (simp add: del p conj_commute)
  qed simp
qed simp

lemma shed_sorted:
  fixes f :: "'a \<times> 'b \<Rightarrow> 'k::linorder"
  assumes "distinct (map fst bs)" "0 \<le> lw"
  defines "srt \<equiv> sort_key f bs" and "n \<equiv> nat (int (length bs) - lw)"
  shows "shed_loop lw srt bs = filter (\<lambda>x. x \<notin> set (take n srt)) bs"
    and "set (shed_loop lw srt bs) = set (drop n srt)"
    and "length (shed_loop lw srt bs) = length bs - n"
    and "x \<in> set (take n srt) \<Longrightarrow> y \<in> set (drop n srt) \<Longrightarrow> f x \<le> f y"
proof -
  have d: "distinct (map fst srt)" "set srt = set bs" "length srt = length bs"
    using assms(1) by (auto simp: srt_def distinct_map)
  have D: "distinct srt" "distinct bs" using d(1) assms(1) by (auto simp: distinct_map)
  show b: "shed_loop lw srt bs = filter (\<lambda>x. x \<notin> set (take n srt)) bs"
    using shed_loop_spec [OF assms(1) d(1) _ assms(2)] d(2) by (simp add: n_def)
  have dis: "set (take n srt) \<inter> set (drop n srt) = {}" using D(1) by (rule set_take_disj_set_drop_if_distinct) simp
  have un: "set (take n srt) \<union> set (drop n srt) = set bs"
    using d(2) by (metis append_take_drop_id set_append)
  show st: "set (shed_loop lw srt bs) = set (drop n srt)" unfolding b using dis un by auto
  have "distinct (shed_loop lw srt bs)" unfolding b using D by simp
  then have "length (shed_loop lw srt bs) = card (set (drop n srt))" using st distinct_card by metis
  also have "\<dots> = length (drop n srt)" using D by (intro distinct_card) simp
  finally show "length (shed_loop lw srt bs) = length bs - n" by (simp add: d(3))
  have "sorted (map f (take n srt @ drop n srt))" by (simp add: srt_def del: map_append)
  then show "x \<in> set (take n srt) \<Longrightarrow> y \<in> set (drop n srt) \<Longrightarrow> f x \<le> f y"
    unfolding map_append sorted_append by auto
qed

lemma evict_split:
  fixes now :: gotime
  assumes "distinct (map fst (buckets s))" "0 \<le> maxKeys s" "maxKeys s \<le> maxInt64 div 9"
  defines "srt \<equiv> sort_key (shed_key s now) (buckets s)"
    and "n \<equiv> nat (int (length (buckets s)) - maxKeys s * 9 div 10)"
  shows "buckets (evictLocked now s) = filter (\<lambda>x. x \<notin> set (take n srt)) (buckets s)"
    and "set (buckets (evictLocked now s)) = set (drop n srt)"
    and "length (buckets (evictLocked now s)) = length (buckets s) - n"
    and "x \<in> set (take n srt) \<Longrightarrow> y \<in> set (drop n srt) \<Longrightarrow> tokensAt s (snd y) now \<le> tokensAt s (snd x) now"
proof -
  have "wrap64 (maxKeys s * 9) = maxKeys s * 9"
    using assms(2,3) by (intro wrap64_nonneg) (auto simp: le_div_iff)
  then have lw: "wrap64 (maxKeys s * 9) sdiv 10 = maxKeys s * 9 div 10" using assms(2) by (simp add: sdiv_nonneg)
  have nz: "n = 0 \<longleftrightarrow> int (length (buckets s)) \<le> maxKeys s * 9 div 10" by (auto simp: n_def)
  have b: "buckets (evictLocked now s) = shed_loop (maxKeys s * 9 div 10) srt (buckets s)"
  proof (cases "n = 0")
    case True
    have "shed_loop lw ps bs = bs" if "int (length bs) \<le> lw" for lw ps and bs :: "(string \<times> bucket) list"
      using that by (cases ps) auto
    with True nz show ?thesis by (simp add: evictLocked_def lw)
  next
    case False
    with nz show ?thesis by (simp add: evictLocked_def lw Let_def srt_def)
  qed
  have lw0: "0 \<le> maxKeys s * 9 div 10" using assms(2) by simp
  note S = shed_sorted [OF assms(1) lw0, where f = "shed_key s now", folded srt_def n_def]
  show "buckets (evictLocked now s) = filter (\<lambda>x. x \<notin> set (take n srt)) (buckets s)"
    "set (buckets (evictLocked now s)) = set (drop n srt)" "length (buckets (evictLocked now s)) = length (buckets s) - n"
    unfolding b by (fact S)+
  show "tokensAt s (snd y) now \<le> tokensAt s (snd x) now" if "x \<in> set (take n srt)" "y \<in> set (drop n srt)" for x y
    using S(4) [OF that] by (auto simp: shed_key_def less_eq_prod_def)
qed

text \<open>Shedding brings the store down to nine tenths of its cap and sheds the buckets with the most tokens
  left: no shed bucket had fewer tokens at that moment than one that is kept.\<close>

lemma evict_sheds_fullest:
  assumes "distinct (map fst (buckets s))" "0 \<le> maxKeys s" "maxKeys s \<le> maxInt64 div 9"
  shows "case evictLocked now s of s' \<Rightarrow>
      int (length (buckets s')) = min (int (length (buckets s))) (maxKeys s * 9 div 10)
    \<and> set (buckets s') \<subseteq> set (buckets s)
    \<and> list_all (\<lambda>kept. list_all (\<lambda>x. x \<in> set (buckets s') \<or> tokensAt s (snd kept) now \<le> tokensAt s (snd x) now) (buckets s))
        (buckets s')"
proof -
  note E = evict_split [OF assms, where now = now]
  let ?n = "nat (int (length (buckets s)) - maxKeys s * 9 div 10)" and ?srt = "sort_key (shed_key s now) (buckets s)"
  have "0 \<le> maxKeys s * 9 div 10" using assms(2) by simp
  then have "int (length (buckets s) - ?n) = min (int (length (buckets s))) (maxKeys s * 9 div 10)" by linarith
  moreover have "x \<in> set (take ?n ?srt)" if "x \<in> set (buckets s)" "x \<notin> set (drop ?n ?srt)" for x
    using that by (metis Un_iff append_take_drop_id set_append set_sort)
  then have "list_all (\<lambda>kept. list_all (\<lambda>x. x \<in> set (buckets (evictLocked now s)) \<or> tokensAt s (snd kept) now \<le> tokensAt s (snd x) now) (buckets s))
        (buckets (evictLocked now s))"
    unfolding list_all_iff E(2) by (auto intro: E(4))
  moreover have "set (buckets (evictLocked now s)) \<subseteq> set (buckets s)" unfolding E(1) by auto
  ultimately show ?thesis unfolding E(3) by simp
qed


text \<open>Every request keeps the store consistent, with each bucket between empty and \<^verbatim>\<open>Capacity\<close> and its clock not
  ahead of the request, and the number of buckets within \<^verbatim>\<open>MaxKeys\<close>.\<close>

lemma bucket_store_bounded:
  assumes "bstore_inv org s now" "now \<le> org + maxInt64" "0 \<le> maxKeys s" "maxKeys s \<le> maxInt64 div 9"
    and "int (length (buckets s)) \<le> maxKeys s"
  shows "case take_token key now s of (_, s') \<Rightarrow>
    bstore_inv org s' now \<and> same_settings s s' \<and> int (length (buckets s')) \<le> maxKeys s"
proof (cases "int (length (buckets s)) < maxKeys s \<or> map_of (buckets s) key \<noteq> None")
  case True
  note t = take_view [OF assms(1,2) True]
  let ?s = "snd (take_token key now s)"
  have d: "distinct (map fst (buckets s))" "distinct (map fst (buckets ?s))"
    using t(3) assms(1) by (auto simp: bstore_inv_def)
  have "length (buckets ?s) = card (fst ` set (buckets ?s))" using distinct_card [OF d(2)] by simp
  also have "\<dots> \<le> card (insert key (fst ` set (buckets s)))" using t(5) by (intro card_mono) auto
  also have "\<dots> = (if map_of (buckets s) key = None then 1 else 0) + length (buckets s)"
    using distinct_card [OF d(1)] by (auto simp: map_of_eq_None_iff insert_absorb)
  finally have "int (length (buckets ?s)) \<le> maxKeys s" using True assms(5) by (auto split: if_splits)
  with t(3,4) show ?thesis by (auto split: prod.split)
next
  case False
  have s: "store_ok s" using assms(1) by (simp add: bstore_inv_def)
  define s1 where "s1 = s\<lparr>buckets := AList.update key (spent \<lparr>tokens = capacity s, lastSeen = now\<rparr>) (buckets s)\<rparr>"
  define s2 where "s2 = (if length (buckets s1) mod 64 = 0 then reapLocked now s1 else s1)"
  have "bucket_ok org s now \<lparr>tokens = capacity s, lastSeen = now\<rparr>"
    using assms(1) by (auto simp: bstore_inv_def bucket_ok_def store_ok_def)
  then have "bstore_inv org s1 now" unfolding s1_def by (intro bstore_inv_update [OF assms(1)] spent_ok)
  then have inv2: "bstore_inv org s2 now" by (simp add: s2_def reap_inv)
  have mk: "maxKeys s2 = maxKeys s" "same_settings s s2"
    by (simp_all add: s2_def s1_def reapLocked_def same_settings_def)
  have s': "snd (take_token key now s) = (if int (length (buckets s2)) > maxKeys s2 then evictLocked now s2 else s2)"
    using False unfolding take_store [OF s] s2_def s1_def by (simp add: Let_def)
  have d: "distinct (map fst (buckets s2))" using inv2 by (simp add: bstore_inv_def)
  note E = evict_split [OF d, where now = now, unfolded mk, OF assms(3,4)]
  have "evictLocked now s2 = s2\<lparr>buckets := buckets (evictLocked now s2)\<rparr>"
    by (simp add: evictLocked_def Let_def)
  then have "bstore_inv org (evictLocked now s2) now" "same_settings s (evictLocked now s2)"
    using bstore_inv_filter [OF inv2] mk(2) unfolding E(1) by (metis, simp add: same_settings_def)
  moreover have "int (length (buckets (evictLocked now s2))) \<le> maxKeys s"
  proof -
    have "0 \<le> maxKeys s * 9 div 10" "maxKeys s * 9 div 10 \<le> maxKeys s" using assms(3) by simp_all
    then show ?thesis unfolding E(3) by linarith
  qed
  ultimately show ?thesis using s' inv2 mk by (cases "take_token key now s") (auto split: if_splits)
qed


section \<open>Example store\<close>

text \<open>A clock reading of the year 2026, counted from the zero \<^verbatim>\<open>time.Time\<close>, is the origin of the examples.\<close>

definition example_clock :: gotime where
  "example_clock = 63902000000 * second"

definition example_store :: bucketStore where
  "example_store = newBucketStoreCapped 2 second 1 2"

definition example_spent :: bucketStore where
  "example_spent = example_store\<lparr>buckets :=
     [(''a'', \<lparr>tokens = 0, lastSeen = example_clock\<rparr>), (''b'', \<lparr>tokens = 1, lastSeen = example_clock\<rparr>)]\<rparr>"

lemma example_ok: "bstore_inv example_clock example_store example_clock" "bstore_inv example_clock example_spent example_clock"
  "example_clock \<le> example_clock + maxInt64" "example_clock + 2 * second \<le> example_clock + maxInt64"
  by (simp_all add: bstore_inv_def store_ok_def bucket_ok_def example_store_def example_spent_def newBucketStoreCapped_def
      second_def maxInt64_def)

theorem rate_limit_window_witness:
  "allowed_count ''a'' [(''a'', example_clock), (''a'', example_clock), (''b'', example_clock + second),
     (''a'', example_clock + 2 * second)] example_store \<le> 5"
proof -
  let ?es = "[(''a'', example_clock), (''a'', example_clock), (''b'', example_clock + second), (''a'', example_clock + 2 * second)]"
  have "example_clock \<le> example_clock + 2 * second" by (simp add: second_def)
  moreover have "sorted_wrt (\<le>) (map snd ?es)"
    "list_all (\<lambda>(_, t). example_clock \<le> t \<and> t \<le> example_clock + 2 * second) ?es"
    "int (card (fst ` set (buckets example_store) \<union> fst ` set ?es)) \<le> maxKeys example_store"
    by (simp_all add: example_store_def newBucketStoreCapped_def second_def card_insert_if)
  ultimately show ?thesis
    using rate_limit_window [OF example_ok(1) _ example_ok(4), of ?es "''a''"]
    by (simp add: example_store_def newBucketStoreCapped_def second_def)
qed

lemma retry_after_sufficient_witness:
  "allowed (fst (take_token ''a'' (example_clock + second) (snd (take_token ''a'' example_clock example_spent))))"
proof -
  have "\<not> allowed (fst (take_token ''a'' example_clock example_spent))"
    "retryAfter (fst (take_token ''a'' example_clock example_spent)) = second"
    by code_simp+
  moreover have "example_clock \<le> example_clock + second" "example_clock + second \<le> example_clock + maxInt64"
    by (simp_all add: second_def maxInt64_def)
  ultimately show ?thesis
    using retry_after_sufficient [OF example_ok(2), of "example_clock + second" "''a''"] by simp
qed

lemma reap_lossless_witness:
  "allowed (fst (take_token ''b'' example_clock (reapLocked example_clock example_spent)))
     = allowed (fst (take_token ''b'' example_clock example_spent))"
  using reap_lossless [OF example_ok(2,3), of "''b''"] by simp

lemma evict_sheds_fullest_witness: "int (length (buckets (evictLocked example_clock example_spent))) = 1"
proof -
  have "distinct (map fst (buckets example_spent))" "0 \<le> maxKeys example_spent" "maxKeys example_spent \<le> maxInt64 div 9"
    by (simp_all add: example_spent_def example_store_def newBucketStoreCapped_def maxInt64_def)
  from evict_sheds_fullest [OF this, of example_clock] show ?thesis
    by (simp add: example_spent_def example_store_def newBucketStoreCapped_def)
qed

lemma bucket_store_bounded_witness:
  "int (length (buckets (snd (take_token ''c'' example_clock example_spent)))) \<le> 2"
proof -
  have "0 \<le> maxKeys example_spent" "maxKeys example_spent \<le> maxInt64 div 9"
    "int (length (buckets example_spent)) \<le> maxKeys example_spent" "maxKeys example_spent = 2"
    by (simp_all add: example_spent_def example_store_def newBucketStoreCapped_def maxInt64_def)
  with bucket_store_bounded [OF example_ok(2,3) this(1-3), of "''c''"] show ?thesis by (auto split: prod.splits)
qed

end
