(* ===== verification/MemoryCache.thy ===== *)
theory MemoryCache
  imports GoPrelude GoInt
begin

text \<open>
  The in-memory cache, \<^verbatim>\<open>battery/cache/memory.go\<close>, and its options in \<^verbatim>\<open>battery/cache/cache.go\<close>.

  The map of entries is an association list with distinct keys whose order stands for nothing. A list
  element of \<^verbatim>\<open>container/list\<close> is a node number with its value, the key, so that an entry's \<^verbatim>\<open>lru\<close>
  pointer is a node number; the recency list has the most recently used node first. A value is the
  JSON bytes \<^verbatim>\<open>json.Marshal\<close> makes of it, or \<^term>\<open>None\<close> where it fails; \<^verbatim>\<open>Get\<close> gives the stored bytes,
  which the code then decodes into the caller's variable without touching the cache. Each operation
  reads the clock once, as \<open>now\<close>.
\<close>

section \<open>State\<close>

record memoryEntry =
  data :: string
  expiresAt :: gotime
  hasExpiry :: bool
  lru :: "nat option"

record config =
  defaultTTL :: int
  cprefix :: string
  cleanupInterval :: int
  maxEntries :: int

record MemoryCache =
  items :: "(string \<times> memoryEntry) list"
  cfg :: config
  lruList :: "(nat \<times> string) list option"
  nextNode :: nat

datatype cache_error = ErrCacheMiss | ErrMarshal

datatype cache_option = WithTTL int | WithPrefix string | WithCleanupInterval int | WithMaxEntries int

fun apply_option :: "cache_option \<Rightarrow> config \<Rightarrow> config" where
  "apply_option (WithTTL d) c = c\<lparr>defaultTTL := d\<rparr>"
| "apply_option (WithPrefix p) c = c\<lparr>cprefix := p\<rparr>"
| "apply_option (WithCleanupInterval d) c = c\<lparr>cleanupInterval := d\<rparr>"
| "apply_option (WithMaxEntries n) c = c\<lparr>maxEntries := (if n < 0 then 0 else n)\<rparr>"

definition applyOptions :: "cache_option list \<Rightarrow> config" where
  "applyOptions opts =
     fold apply_option opts \<lparr>defaultTTL = 0, cprefix = [], cleanupInterval = 60 * second, maxEntries = 0\<rparr>"

definition NewMemoryCache :: "cache_option list \<Rightarrow> MemoryCache" where
  "NewMemoryCache opts =
     (let c = applyOptions opts
      in \<lparr>items = [], cfg = c, lruList = (if maxEntries c > 0 then Some [] else None), nextNode = 0\<rparr>)"

section \<open>Operations\<close>

definition isExpired :: "gotime \<Rightarrow> memoryEntry \<Rightarrow> bool" where
  "isExpired now e \<longleftrightarrow> hasExpiry e \<and> now > expiresAt e"

definition prefixedKey :: "MemoryCache \<Rightarrow> string \<Rightarrow> string" where
  "prefixedKey mc key = (if cprefix (cfg mc) = [] then key else cprefix (cfg mc) @ '':'' @ key)"

definition removeLocked :: "string \<Rightarrow> memoryEntry option \<Rightarrow> MemoryCache \<Rightarrow> MemoryCache" where
  "removeLocked key entry mc0 =
     (let mc = mc0\<lparr>items := AList.delete key (items mc0)\<rparr> in
      case (lruList mc, entry) of
        (Some l, Some e) \<Rightarrow>
          (case lru e of Some n \<Rightarrow> mc\<lparr>lruList := Some (filter (\<lambda>x. fst x \<noteq> n) l)\<rparr> | None \<Rightarrow> mc)
      | _ \<Rightarrow> mc)"

definition MoveToFront :: "nat \<Rightarrow> (nat \<times> string) list \<Rightarrow> (nat \<times> string) list" where
  "MoveToFront n l = filter (\<lambda>x. fst x = n) l @ filter (\<lambda>x. fst x \<noteq> n) l"

definition touchLocked :: "memoryEntry \<Rightarrow> MemoryCache \<Rightarrow> MemoryCache" where
  "touchLocked entry mc =
     (case (lruList mc, lru entry) of
        (Some l, Some n) \<Rightarrow> mc\<lparr>lruList := Some (MoveToFront n l)\<rparr>
      | _ \<Rightarrow> mc)"

definition evict_if_expired :: "gotime \<Rightarrow> string \<times> memoryEntry \<Rightarrow> MemoryCache \<Rightarrow> MemoryCache" where
  "evict_if_expired now kv mc =
     (if hasExpiry (snd kv) \<and> now > expiresAt (snd kv) then removeLocked (fst kv) (Some (snd kv)) mc else mc)"

definition evictExpired :: "gotime \<Rightarrow> MemoryCache \<Rightarrow> MemoryCache" where
  "evictExpired now mc = fold (evict_if_expired now) (items mc) mc"

definition cache_Len :: "MemoryCache \<Rightarrow> nat" where
  "cache_Len mc = length (items mc)"

definition cache_Get :: "gotime \<Rightarrow> string \<Rightarrow> MemoryCache \<Rightarrow> (cache_error + string) \<times> MemoryCache" where
  "cache_Get now key mc =
     (let k = prefixedKey mc key in
      if lruList mc \<noteq> None then
        (case map_of (items mc) k of
           None \<Rightarrow> (Inl ErrCacheMiss, mc)
         | Some entry \<Rightarrow>
             if isExpired now entry then (Inl ErrCacheMiss, removeLocked k (Some entry) mc)
             else (Inr (data entry), touchLocked entry mc))
      else
        (case map_of (items mc) k of
           None \<Rightarrow> (Inl ErrCacheMiss, mc)
         | Some entry \<Rightarrow>
             if isExpired now entry then (Inl ErrCacheMiss, mc\<lparr>items := AList.delete k (items mc)\<rparr>)
             else (Inr (data entry), mc)))"

text \<open>The loop of \<^verbatim>\<open>Set\<close> that enforces the cap. Nothing in its text bounds it: a key at the back of the
  recency list whose entry does not own that node would stay there. \<^term>\<open>None\<close> is such a loop that never
  ends; \<open>evict_loop_spec\<close> shows that it always ends.\<close>

partial_function (option) evict_loop :: "MemoryCache \<Rightarrow> MemoryCache option" where
  "evict_loop mc =
     (if int (length (items mc)) > maxEntries (cfg mc) then
        (case lruList mc of
           None \<Rightarrow> Some mc
         | Some l \<Rightarrow>
             if l = [] then Some mc
             else evict_loop (removeLocked (snd (last l)) (map_of (items mc) (snd (last l))) mc))
      else Some mc)"

definition new_entry :: "gotime \<Rightarrow> int \<Rightarrow> string \<Rightarrow> memoryEntry" where
  "new_entry now ttl d =
     \<lparr>data = d, expiresAt = (if ttl > 0 then now + ttl else 0), hasExpiry = (ttl > 0), lru = None\<rparr>"

definition PushFront :: "string \<Rightarrow> memoryEntry \<Rightarrow> (nat \<times> string) list \<Rightarrow> MemoryCache \<Rightarrow> MemoryCache" where
  "PushFront k entry l mc =
     mc\<lparr>lruList := Some ((nextNode mc, k) # l), nextNode := nextNode mc + 1,
        items := AList.update k (entry\<lparr>lru := Some (nextNode mc)\<rparr>) (items mc)\<rparr>"

definition cache_Set ::
  "gotime \<Rightarrow> string \<Rightarrow> string option \<Rightarrow> int \<Rightarrow> MemoryCache \<Rightarrow> (cache_error option \<times> MemoryCache) option" where
  "cache_Set now key value ttl mc =
     (let k = prefixedKey mc key in
      case value of
        None \<Rightarrow> Some (Some ErrMarshal, mc)
      | Some d \<Rightarrow>
          let effectiveTTL = (if ttl = 0 then defaultTTL (cfg mc) else ttl) in
          if effectiveTTL < 0 then
            Some (None, case map_of (items mc) k of Some existing \<Rightarrow> removeLocked k (Some existing) mc | None \<Rightarrow> mc)
          else
            let entry = new_entry now effectiveTTL d in
            (case lruList mc of
               Some l \<Rightarrow>
                 (case map_of (items mc) k of
                    Some existing \<Rightarrow>
                      Some (None,
                        case lru existing of
                          Some n \<Rightarrow> mc\<lparr>lruList := Some (MoveToFront n l),
                                       items := AList.update k (entry\<lparr>lru := Some n\<rparr>) (items mc)\<rparr>
                        | None \<Rightarrow> PushFront k entry l mc)
                  | None \<Rightarrow> map_option (Pair None) (evict_loop (PushFront k entry l mc)))
             | None \<Rightarrow> Some (None, mc\<lparr>items := AList.update k entry (items mc)\<rparr>)))"

definition cache_Delete :: "string \<Rightarrow> MemoryCache \<Rightarrow> MemoryCache" where
  "cache_Delete key mc = (let k = prefixedKey mc key in removeLocked k (map_of (items mc) k) mc)"

definition cache_Exists :: "gotime \<Rightarrow> string \<Rightarrow> MemoryCache \<Rightarrow> bool \<times> MemoryCache" where
  "cache_Exists now key mc =
     (let k = prefixedKey mc key in
      case map_of (items mc) k of
        None \<Rightarrow> (False, mc)
      | Some entry \<Rightarrow> if isExpired now entry then (False, removeLocked k (Some entry) mc) else (True, mc))"

definition cache_Clear :: "MemoryCache \<Rightarrow> MemoryCache" where
  "cache_Clear mc = mc\<lparr>items := [], lruList := (case lruList mc of None \<Rightarrow> None | Some _ \<Rightarrow> Some [])\<rparr>"

section \<open>The recency list\<close>

definition lru_inv :: "MemoryCache \<Rightarrow> (nat \<times> string) list \<Rightarrow> bool" where
  "lru_inv mc l \<longleftrightarrow> lruList mc = Some l \<and> distinct (map fst (items mc)) \<and> distinct (map fst l) \<and> distinct (map snd l)
     \<and> set (map snd l) = set (map fst (items mc))
     \<and> (\<forall>(n, k)\<in>set l. n < nextNode mc \<and> (\<exists>e. map_of (items mc) k = Some e \<and> lru e = Some n))"

lemma lru_inv_node: "lru_inv mc l \<Longrightarrow> map_of (items mc) k = Some e \<Longrightarrow> \<exists>n. (n, k) \<in> set l \<and> lru e = Some n"
proof -
  assume inv: "lru_inv mc l" and e: "map_of (items mc) k = Some e"
  then have "k \<in> set (map fst (items mc))" by (force dest: map_of_SomeD)
  then have "k \<in> snd ` set l" using inv by (simp add: lru_inv_def)
  then obtain n where "(n, k) \<in> set l" by auto
  with inv e show ?thesis by (fastforce simp: lru_inv_def)
qed

lemma filter_eq_single: "distinct xs \<Longrightarrow> x \<in> set xs \<Longrightarrow> filter (\<lambda>y. y = x) xs = [x]"
  by (induction xs) (auto simp: filter_empty_conv)

lemma node_filter:
  assumes "lru_inv mc l" "(n, k) \<in> set l"
  shows "filter (\<lambda>x. fst x \<noteq> n) l = filter (\<lambda>x. snd x \<noteq> k) l" "filter (\<lambda>x. fst x = n) l = [(n, k)]"
proof -
  have d: "distinct (map fst l)" "distinct (map snd l)" using assms(1) by (auto simp: lru_inv_def)
  have iff: "fst x = n \<longleftrightarrow> snd x = k" if "x \<in> set l" for x
    using that assms(2) d by (auto simp: distinct_map inj_on_def) (metis fst_conv snd_conv surjective_pairing)+
  then show "filter (\<lambda>x. fst x \<noteq> n) l = filter (\<lambda>x. snd x \<noteq> k) l" by (intro filter_cong) auto
  have "distinct l" using d by (simp add: distinct_map)
  then have single: "filter (\<lambda>x. x = (n, k)) l = [(n, k)]" using assms(2) by (rule filter_eq_single)
  have "fst x = n \<longleftrightarrow> x = (n, k)" if "x \<in> set l" for x using that iff by (metis fst_conv prod.collapse)
  then show "filter (\<lambda>x. fst x = n) l = [(n, k)]" using single filter_cong [of l l "\<lambda>x. fst x = n" "\<lambda>x. x = (n, k)"] by auto
qed

lemma remove_spec:
  assumes "lru_inv mc l" "map_of (items mc) k = Some e"
  shows "removeLocked k (Some e) mc = mc\<lparr>items := AList.delete k (items mc), lruList := Some (filter (\<lambda>x. snd x \<noteq> k) l)\<rparr>"
    "lru_inv (removeLocked k (Some e) mc) (filter (\<lambda>x. snd x \<noteq> k) l)"
proof -
  obtain n where n: "(n, k) \<in> set l" "lru e = Some n" using lru_inv_node [OF assms] by blast
  show eq: "removeLocked k (Some e) mc = mc\<lparr>items := AList.delete k (items mc), lruList := Some (filter (\<lambda>x. snd x \<noteq> k) l)\<rparr>"
    using assms(1) n node_filter(1) [OF assms(1) n(1)] by (simp add: removeLocked_def lru_inv_def)
  show "lru_inv (removeLocked k (Some e) mc) (filter (\<lambda>x. snd x \<noteq> k) l)"
    using assms(1) unfolding eq lru_inv_def
    by (auto simp: distinct_map_filter distinct_delete delete_conv' AList.delete_keys distinct_removeAll)
qed

lemma lru_inv_front:
  assumes "lru_inv mc l" "(n, k) \<in> set l"
  shows "MoveToFront n l = (n, k) # filter (\<lambda>x. snd x \<noteq> k) l"
    "lru_inv (mc\<lparr>lruList := Some (MoveToFront n l)\<rparr>) (MoveToFront n l)"
proof -
  show eq: "MoveToFront n l = (n, k) # filter (\<lambda>x. snd x \<noteq> k) l"
    using node_filter [OF assms] by (simp add: MoveToFront_def)
  have d: "fst x = n \<longleftrightarrow> snd x = k" if "x \<in> set l" for x
    using that assms by (auto simp: lru_inv_def distinct_map inj_on_def) (metis fst_conv snd_conv surjective_pairing)+
  show "lru_inv (mc\<lparr>lruList := Some (MoveToFront n l)\<rparr>) (MoveToFront n l)"
  proof -
    have "insert k (snd ` {x \<in> set l. snd x \<noteq> k}) = snd ` set l" using assms(2) by force
    moreover have "n \<notin> fst ` {x \<in> set l. snd x \<noteq> k}" using d by auto
    ultimately show ?thesis using assms unfolding eq lru_inv_def by (auto simp: distinct_map_filter)
  qed
qed

lemma push_spec:
  assumes "lru_inv mc l" "map_of (items mc) k = None"
  shows "lru_inv (PushFront k e l mc) ((nextNode mc, k) # l)"
proof -
  have k: "k \<notin> fst ` set (items mc)" using assms(2) by (simp add: map_of_eq_None_iff)
  have l: "lruList mc = Some l" "distinct (map fst (items mc))" "distinct (map fst l)" "distinct (map snd l)"
    and keys: "snd ` set l = fst ` set (items mc)"
    and nodes: "\<And>n k. (n, k) \<in> set l \<Longrightarrow> n < nextNode mc \<and> (\<exists>e. map_of (items mc) k = Some e \<and> lru e = Some n)"
    using assms(1) by (auto simp: lru_inv_def)
  have "nextNode mc \<notin> fst ` set l" using nodes by force
  moreover have "k \<notin> snd ` set l" using k keys by simp
  have all: "n < nextNode (PushFront k e l mc) \<and> (\<exists>e'. map_of (items (PushFront k e l mc)) k' = Some e' \<and> lru e' = Some n)"
    if "(n, k') \<in> set ((nextNode mc, k) # l)" for n k'
  proof (cases "k' = k")
    case True
    with that \<open>k \<notin> snd ` set l\<close> have "n = nextNode mc" by force
    with True show ?thesis by (simp add: PushFront_def update_conv')
  next
    case False
    with that have "(n, k') \<in> set l" by simp
    from nodes [OF this] False show ?thesis by (simp add: PushFront_def update_conv' less_SucI)
  qed
  show ?thesis
    unfolding lru_inv_def
  proof (intro conjI)
    show "\<forall>(n, k')\<in>set ((nextNode mc, k) # l). n < nextNode (PushFront k e l mc)
        \<and> (\<exists>e'. map_of (items (PushFront k e l mc)) k' = Some e' \<and> lru e' = Some n)"
      using all by blast
  qed (use l keys k \<open>nextNode mc \<notin> fst ` set l\<close> \<open>k \<notin> snd ` set l\<close> in \<open>auto simp: PushFront_def distinct_update update_keys\<close>)
qed

lemma filter_last:
  assumes "distinct (map snd l)" "l \<noteq> []"
  shows "filter (\<lambda>x. snd x \<noteq> snd (last l)) l = butlast l"
proof (cases l rule: rev_cases)
  case (snoc xs x)
  then have "snd x \<notin> snd ` set xs" using assms(1) by simp
  then have "filter (\<lambda>y. snd y \<noteq> snd x) xs = xs" by (intro filter_True) (auto simp: rev_image_eqI)
  then show ?thesis using snoc by simp
qed (use assms(2) in simp)

lemma lru_inv_length: "lru_inv mc l \<Longrightarrow> length (items mc) = length l"
proof -
  assume inv: "lru_inv mc l"
  have "length (items mc) = card (set (map fst (items mc)))" using inv distinct_card [of "map fst (items mc)"] by (simp add: lru_inv_def)
  also have "\<dots> = card (set (map snd l))" using inv by (simp add: lru_inv_def)
  also have "\<dots> = length l" using inv distinct_card [of "map snd l"] by (simp add: lru_inv_def)
  finally show ?thesis .
qed

lemma evict_loop_spec:
  assumes "lru_inv mc l" "0 \<le> maxEntries (cfg mc)"
  defines "l' \<equiv> take (nat (maxEntries (cfg mc))) l"
  shows "\<exists>mc'. evict_loop mc = Some mc' \<and> lru_inv mc' l' \<and> cfg mc' = cfg mc
    \<and> (\<forall>k. map_of (items mc') k = (if k \<in> snd ` set l' then map_of (items mc) k else None))"
  using assms(1,2) unfolding l'_def
proof (induction "length l" arbitrary: l mc)
  case 0
  then have "length (items mc) = 0" using lru_inv_length by metis
  then have "evict_loop mc = Some mc" using 0 by (simp add: evict_loop.simps)
  with 0 \<open>length (items mc) = 0\<close> show ?case by auto
next
  case (Suc m)
  let ?c = "nat (maxEntries (cfg mc))"
  note len = lru_inv_length [OF Suc.prems(1)]
  show ?case
  proof (cases "int (length (items mc)) > maxEntries (cfg mc)")
    case False
    then have "take ?c l = l" using Suc.prems(2) len by simp
    moreover have "map_of (items mc) k = None" if "k \<notin> snd ` set l" for k
      using that Suc.prems(1) by (simp add: lru_inv_def map_of_eq_None_iff)
    moreover have "evict_loop mc = Some mc" using False by (simp add: evict_loop.simps)
    ultimately show ?thesis using Suc.prems(1) by auto
  next
    case True
    have ne: "l \<noteq> []" using Suc.hyps(2) by auto
    let ?k = "snd (last l)"
    have l: "lruList mc = Some l" "distinct (map snd l)" using Suc.prems(1) by (auto simp: lru_inv_def)
    have "(fst (last l), ?k) \<in> set l" using ne by simp
    then obtain e where e: "map_of (items mc) ?k = Some e" using Suc.prems(1) unfolding lru_inv_def by blast
    let ?mc = "removeLocked ?k (Some e) mc"
    note R = remove_spec [OF Suc.prems(1) e]
    have step: "evict_loop mc = evict_loop ?mc" using True ne l(1) e by (subst evict_loop.simps) simp
    have inv: "lru_inv ?mc (butlast l)" using R(2) filter_last [OF l(2) ne] by simp
    have c: "cfg ?mc = cfg mc" by (simp add: R(1))
    have tk: "take ?c (butlast l) = take ?c l" using True len Suc.prems(2) by (intro take_butlast) (simp add: nat_less_iff)
    have kin: "?k \<notin> snd ` set (butlast l)"
      by (subst filter_last [OF l(2) ne, symmetric]) auto
    have m: "m = length (butlast l)" using Suc.hyps(2) by simp
    from Suc.hyps(1) [OF m inv] Suc.prems(2) obtain mc' where
      mc': "evict_loop ?mc = Some mc'" "lru_inv mc' (take ?c l)" "cfg mc' = cfg mc"
        "\<forall>k. map_of (items mc') k = (if k \<in> snd ` set (take ?c l) then map_of (items ?mc) k else None)"
      by (auto simp: c tk)
    have "snd ` set (take ?c l) \<subseteq> snd ` set (butlast l)" unfolding tk [symmetric] using set_take_subset by (intro image_mono)
    with kin have "?k \<notin> snd ` set (take ?c l)" by blast
    then have "\<forall>k. map_of (items mc') k = (if k \<in> snd ` set (take ?c l) then map_of (items mc) k else None)"
      using mc'(4) unfolding R(1) by (simp add: delete_conv')
    with mc'(1-3) step show ?thesis by auto
  qed
qed


section \<open>Invariant and lookup\<close>

definition cache_inv :: "MemoryCache \<Rightarrow> bool" where
  "cache_inv mc \<longleftrightarrow>
     (case lruList mc of
        None \<Rightarrow> maxEntries (cfg mc) \<le> 0 \<and> distinct (map fst (items mc))
      | Some l \<Rightarrow> 0 < maxEntries (cfg mc) \<and> lru_inv mc l \<and> int (length (items mc)) \<le> maxEntries (cfg mc))"

definition cache_lookup :: "MemoryCache \<Rightarrow> gotime \<Rightarrow> string \<Rightarrow> string option" where
  "cache_lookup mc now key =
     (case map_of (items mc) (prefixedKey mc key) of
        None \<Rightarrow> None | Some e \<Rightarrow> if isExpired now e then None else Some (data e))"

lemma prefixedKey_inj: "prefixedKey mc k = prefixedKey mc k' \<longleftrightarrow> k = k'"
  by (simp add: prefixedKey_def)

lemma prefixedKey_cfg: "cfg mc' = cfg mc \<Longrightarrow> prefixedKey mc' = prefixedKey mc"
  by (simp add: prefixedKey_def fun_eq_iff)

lemma removeLocked_sel: "items (removeLocked k e mc) = AList.delete k (items mc)" "cfg (removeLocked k e mc) = cfg mc"
  by (auto simp: removeLocked_def Let_def split: option.split)

lemma touchLocked_sel: "items (touchLocked e mc) = items mc" "cfg (touchLocked e mc) = cfg mc"
  by (auto simp: touchLocked_def split: option.split)

lemma prefixedKey_same [simp]:
  "prefixedKey (removeLocked k e mc) = prefixedKey mc" "prefixedKey (touchLocked x mc) = prefixedKey mc"
  by (rule prefixedKey_cfg, simp add: removeLocked_sel touchLocked_sel)+

lemma length_delete_le: "length (AList.delete k al) \<le> length al"
  by (simp add: AList.delete_eq)

lemma cache_inv_remove:
  assumes "cache_inv mc" "map_of (items mc) k = Some e"
  shows "cache_inv (removeLocked k (Some e) mc)"
proof (cases "lruList mc")
  case None
  with assms show ?thesis by (auto simp: cache_inv_def removeLocked_def distinct_delete)
next
  case (Some l)
  with assms have inv: "lru_inv mc l" "0 < maxEntries (cfg mc)" "int (length (items mc)) \<le> maxEntries (cfg mc)"
    by (auto simp: cache_inv_def)
  from remove_spec [OF inv(1) assms(2)] inv(2,3) length_delete_le [of k "items mc"] show ?thesis
    by (auto simp: cache_inv_def)
qed

lemma cache_inv_touch:
  assumes "cache_inv mc" "map_of (items mc) k = Some e"
  shows "cache_inv (touchLocked e mc)"
proof (cases "lruList mc")
  case None
  with assms show ?thesis by (simp add: touchLocked_def)
next
  case (Some l)
  with assms have inv: "lru_inv mc l" "0 < maxEntries (cfg mc)" "int (length (items mc)) \<le> maxEntries (cfg mc)"
    by (auto simp: cache_inv_def)
  obtain n where "(n, k) \<in> set l" "lru e = Some n" using lru_inv_node [OF inv(1) assms(2)] by blast
  with lru_inv_front(2) [OF inv(1)] inv Some show ?thesis by (auto simp: cache_inv_def touchLocked_def)
qed

lemma Get_spec:
  assumes "cache_inv mc"
  shows "case cache_Get now key mc of (r, mc') \<Rightarrow>
    r = (case cache_lookup mc now key of None \<Rightarrow> Inl ErrCacheMiss | Some d \<Rightarrow> Inr d)
    \<and> cache_inv mc' \<and> cfg mc' = cfg mc
    \<and> (\<forall>k' t. now \<le> t \<longrightarrow> cache_lookup mc' t k' = cache_lookup mc t k')"
proof (cases "map_of (items mc) (prefixedKey mc key)")
  case None
  with assms show ?thesis by (simp add: cache_Get_def cache_lookup_def Let_def)
next
  case (Some e)
  have unbounded: "lruList mc = None \<Longrightarrow> mc\<lparr>items := AList.delete (prefixedKey mc key) (items mc)\<rparr> = removeLocked (prefixedKey mc key) (Some e) mc"
    "lruList mc = None \<Longrightarrow> touchLocked e mc = mc"
    by (simp_all add: removeLocked_def touchLocked_def)
  show ?thesis
  proof (cases "isExpired now e")
    case True
    let ?mc = "removeLocked (prefixedKey mc key) (Some e) mc"
    have get: "cache_Get now key mc = (Inl ErrCacheMiss, ?mc)"
      using Some True unbounded(1) by (simp add: cache_Get_def Let_def)
    have "now \<le> t \<Longrightarrow> isExpired t e" for t using True by (simp add: isExpired_def)
    then have "\<forall>k' t. now \<le> t \<longrightarrow> cache_lookup ?mc t k' = cache_lookup mc t k'"
      using Some by (auto simp: cache_lookup_def removeLocked_sel delete_conv' prefixedKey_inj)
    then show ?thesis
      using get cache_inv_remove [OF assms Some] True Some by (simp add: cache_lookup_def removeLocked_sel)
  next
    case False
    have get: "cache_Get now key mc = (Inr (data e), touchLocked e mc)"
      using Some False unbounded(2) by (simp add: cache_Get_def Let_def)
    have "cache_lookup (touchLocked e mc) t k' = cache_lookup mc t k'" for t k'
      by (simp add: cache_lookup_def touchLocked_sel)
    then show ?thesis using get cache_inv_touch [OF assms Some] Some False by (simp add: cache_lookup_def touchLocked_sel)
  qed
qed


lemma Set_overwrite:
  assumes "lru_inv mc l" "map_of (items mc) k = Some e" "lru e = Some n" "(n, k) \<in> set l"
  shows "lru_inv (mc\<lparr>lruList := Some (MoveToFront n l), items := AList.update k (e'\<lparr>lru := Some n\<rparr>) (items mc)\<rparr>) (MoveToFront n l)"
proof -
  note F = lru_inv_front [OF assms(1,4)]
  have k: "k \<in> fst ` set (items mc)" using assms(2) by (force dest: map_of_SomeD)
  have node: "n' = n" if "(n', k) \<in> set (MoveToFront n l)" for n'
    using that unfolding F(1) by auto
  from F(2) have "distinct (map fst (items mc))" "distinct (map fst (MoveToFront n l))" "distinct (map snd (MoveToFront n l))"
    "snd ` set (MoveToFront n l) = fst ` set (items mc)"
    and nodes: "\<And>n' k'. (n', k') \<in> set (MoveToFront n l) \<Longrightarrow> n' < nextNode mc \<and> (\<exists>e. map_of (items mc) k' = Some e \<and> lru e = Some n')"
    by (auto simp: lru_inv_def)
  moreover have "\<forall>(n', k')\<in>set (MoveToFront n l). n' < nextNode mc
      \<and> (\<exists>x. map_of (AList.update k (e'\<lparr>lru := Some n\<rparr>) (items mc)) k' = Some x \<and> lru x = Some n')"
    using nodes node by (auto simp: update_conv')
  ultimately show ?thesis unfolding lru_inv_def using k by (simp add: distinct_update update_keys insert_absorb)
qed

lemma length_update_present: "k \<in> fst ` set al \<Longrightarrow> length (AList.update k v al) = length al"
  by (induction al) auto

definition expiry :: "gotime \<Rightarrow> int \<Rightarrow> gotime option" where
  "expiry now ttl = (if ttl > 0 then Some (now + ttl) else None)"

definition effective_ttl :: "MemoryCache \<Rightarrow> int \<Rightarrow> int" where
  "effective_ttl mc ttl = (if ttl = 0 then defaultTTL (cfg mc) else ttl)"

lemma new_entry_expired: "isExpired t ((new_entry now ttl d)\<lparr>lru := n\<rparr>) \<longleftrightarrow> ttl > 0 \<and> t > now + ttl"
  "isExpired t (new_entry now ttl d) \<longleftrightarrow> ttl > 0 \<and> t > now + ttl"
  "data ((new_entry now ttl d)\<lparr>lru := n\<rparr>) = d" "data (new_entry now ttl d) = d"
  by (auto simp: isExpired_def new_entry_def)

lemma Set_bounded:
  fixes key d :: string and now :: gotime
  assumes "lru_inv mc l" "0 < maxEntries (cfg mc)" "int (length (items mc)) \<le> maxEntries (cfg mc)" "0 \<le> effective_ttl mc ttl"
  defines "k \<equiv> prefixedKey mc key" and "e \<equiv> new_entry now (effective_ttl mc ttl) d"
  shows "\<exists>mc' n. cache_Set now key (Some d) ttl mc = Some (None, mc') \<and> cfg mc' = cfg mc
    \<and> (let l' = take (nat (maxEntries (cfg mc))) ((n, k) # filter (\<lambda>x. snd x \<noteq> k) l) in
       lru_inv mc' l' \<and> (\<forall>k'. map_of (items mc') k' =
         (if k' \<notin> snd ` set l' then None else if k' = k then Some (e\<lparr>lru := Some n\<rparr>) else map_of (items mc) k')))"
proof -
  have ttl: "(if ttl = 0 then defaultTTL (cfg mc) else ttl) = effective_ttl mc ttl" "\<not> effective_ttl mc ttl < 0"
    using assms(4) by (simp_all add: effective_ttl_def)
  have l: "lruList mc = Some l" using assms(1) by (simp add: lru_inv_def)
  show ?thesis
  proof (cases "map_of (items mc) k")
    case None
    let ?mc = "PushFront k e l mc"
    have set: "cache_Set now key (Some d) ttl mc = map_option (Pair None) (evict_loop ?mc)"
      unfolding cache_Set_def Let_def ttl(1) using ttl(2) l None by (simp add: k_def e_def)
    have c: "cfg ?mc = cfg mc" "map_of (items ?mc) = (map_of (items mc))(k \<mapsto> e\<lparr>lru := Some (nextNode mc)\<rparr>)"
      by (simp_all add: PushFront_def update_conv')
    have "k \<notin> snd ` set l" using None assms(1) by (simp add: lru_inv_def map_of_eq_None_iff)
    then have l': "filter (\<lambda>x. snd x \<noteq> k) l = l" by (intro filter_True) (auto simp: rev_image_eqI)
    from evict_loop_spec [OF push_spec [OF assms(1) None, of e]] assms(2) obtain mc' where
      "evict_loop ?mc = Some mc'" "lru_inv mc' (take (nat (maxEntries (cfg mc))) ((nextNode mc, k) # l))" "cfg mc' = cfg mc"
        "\<forall>k'. map_of (items mc') k' =
          (if k' \<in> snd ` set (take (nat (maxEntries (cfg mc))) ((nextNode mc, k) # l)) then map_of (items ?mc) k' else None)"
      unfolding c(1) by auto
    with set show ?thesis by (intro exI [of _ mc'] exI [of _ "nextNode mc"]) (simp add: l' c(2) Let_def)
  next
    case ex: (Some x)
    obtain n where n: "(n, k) \<in> set l" "lru x = Some n" using lru_inv_node [OF assms(1) ex] by blast
    let ?mc = "mc\<lparr>lruList := Some (MoveToFront n l), items := AList.update k (e\<lparr>lru := Some n\<rparr>) (items mc)\<rparr>"
    have set: "cache_Set now key (Some d) ttl mc = Some (None, ?mc)"
      unfolding cache_Set_def Let_def ttl(1) using ttl(2) l ex n by (simp add: k_def e_def)
    note F = lru_inv_front [OF assms(1) n(1)]
    have "length (MoveToFront n l) = length (items mc)" using lru_inv_length [OF F(2)] by simp
    then have tk: "take (nat (maxEntries (cfg mc))) ((n, k) # filter (\<lambda>x. snd x \<noteq> k) l) = MoveToFront n l"
      using assms(3) unfolding F(1) by simp
    have "snd ` set (MoveToFront n l) = fst ` set (items mc)" using F(2) by (simp add: lru_inv_def)
    then have "map_of (items mc) k' = None" if "k' \<notin> snd ` set (MoveToFront n l)" for k'
      using that by (simp add: map_of_eq_None_iff)
    moreover have "k \<in> snd ` set (MoveToFront n l)" unfolding F(1) by simp
    ultimately show ?thesis
      using set Set_overwrite [OF assms(1) ex n(2,1), of e]
      by (intro exI [of _ ?mc] exI [of _ n]) (simp add: tk Let_def update_conv' del: set_map)
  qed
qed

text \<open>What a stored value leaves behind: the new value under its key and, in a bounded cache, possibly fewer
  of the others.\<close>

lemma Set_spec:
  assumes "cache_inv mc" "0 \<le> effective_ttl mc ttl"
  shows "\<exists>mc'. cache_Set now key (Some d) ttl mc = Some (None, mc') \<and> cache_inv mc' \<and> cfg mc' = cfg mc
    \<and> (\<exists>e. map_of (items mc') (prefixedKey mc key) = Some e \<and> data e = d
          \<and> (\<forall>t. isExpired t e \<longleftrightarrow> effective_ttl mc ttl > 0 \<and> t > now + effective_ttl mc ttl))
    \<and> (\<forall>k. k \<noteq> prefixedKey mc key \<longrightarrow> map_of (items mc') k \<in> {map_of (items mc) k, None})"
proof (cases "lruList mc")
  case None
  let ?t = "effective_ttl mc ttl"
  have ttl: "(if ttl = 0 then defaultTTL (cfg mc) else ttl) = ?t" "\<not> ?t < 0"
    using assms(2) by (simp_all add: effective_ttl_def)
  have "cache_Set now key (Some d) ttl mc = Some (None, mc\<lparr>items := AList.update (prefixedKey mc key) (new_entry now ?t d) (items mc)\<rparr>)"
    unfolding cache_Set_def Let_def ttl(1) using ttl(2) None by simp
  with assms(1) None show ?thesis
    by (auto simp: cache_inv_def distinct_update update_conv' new_entry_expired)
next
  case (Some l)
  with assms(1) have inv: "lru_inv mc l" "0 < maxEntries (cfg mc)" "int (length (items mc)) \<le> maxEntries (cfg mc)"
    by (auto simp: cache_inv_def)
  let ?k = "prefixedKey mc key" and ?c = "nat (maxEntries (cfg mc))"
  from Set_bounded [OF inv assms(2), of now key d] obtain mc' n where
    mc': "cache_Set now key (Some d) ttl mc = Some (None, mc')" "cfg mc' = cfg mc"
    "lru_inv mc' (take ?c ((n, ?k) # filter (\<lambda>x. snd x \<noteq> ?k) l))"
    "\<forall>k'. map_of (items mc') k' = (if k' \<notin> snd ` set (take ?c ((n, ?k) # filter (\<lambda>x. snd x \<noteq> ?k) l)) then None
       else if k' = ?k then Some ((new_entry now (effective_ttl mc ttl) d)\<lparr>lru := Some n\<rparr>) else map_of (items mc) k')"
    unfolding Let_def by blast
  have "?k \<in> snd ` set (take ?c ((n, ?k) # filter (\<lambda>x. snd x \<noteq> ?k) l))" using inv(2) by (cases ?c) auto
  then have "map_of (items mc') ?k = Some ((new_entry now (effective_ttl mc ttl) d)\<lparr>lru := Some n\<rparr>)" using mc'(4) by simp
  moreover have "length (items mc') \<le> ?c" unfolding lru_inv_length [OF mc'(3)] by simp
  then have "cache_inv mc'" using mc'(2,3) inv(2) by (auto simp: cache_inv_def lru_inv_def)
  moreover have "\<forall>k. k \<noteq> ?k \<longrightarrow> map_of (items mc') k \<in> {map_of (items mc) k, None}" using mc'(4) by simp
  ultimately show ?thesis using mc'(1,2) by (auto simp: new_entry_expired)
qed

section \<open>Reachable caches\<close>

inductive cache_reach :: "cache_option list \<Rightarrow> MemoryCache \<Rightarrow> bool" for opts where
  reach_new: "cache_reach opts (NewMemoryCache opts)"
| reach_get: "cache_reach opts mc \<Longrightarrow> cache_reach opts (snd (cache_Get now key mc))"
| reach_set: "cache_reach opts mc \<Longrightarrow> cache_Set now key value ttl mc = Some (e, mc') \<Longrightarrow> cache_reach opts mc'"
| reach_delete: "cache_reach opts mc \<Longrightarrow> cache_reach opts (cache_Delete key mc)"
| reach_exists: "cache_reach opts mc \<Longrightarrow> cache_reach opts (snd (cache_Exists now key mc))"
| reach_clear: "cache_reach opts mc \<Longrightarrow> cache_reach opts (cache_Clear mc)"
| reach_expired: "cache_reach opts mc \<Longrightarrow> cache_reach opts (evictExpired now mc)"

lemma removeLocked_absent: "map_of (items mc) k = None \<Longrightarrow> removeLocked k None mc = mc"
  by (auto simp: removeLocked_def Let_def delete_id map_of_eq_None_iff split: option.split)

lemma cache_inv_removeLocked: "cache_inv mc \<Longrightarrow> cache_inv (removeLocked k (map_of (items mc) k) mc)"
  by (cases "map_of (items mc) k") (simp_all add: removeLocked_absent cache_inv_remove)

lemma Set_negative:
  assumes "effective_ttl mc ttl < 0"
  shows "cache_Set now key (Some d) ttl mc = Some (None, removeLocked (prefixedKey mc key) (map_of (items mc) (prefixedKey mc key)) mc)"
  using assms unfolding cache_Set_def Let_def effective_ttl_def
  by (auto simp: removeLocked_absent split: option.split)

lemma cache_inv_Set:
  assumes "cache_inv mc" "cache_Set now key val ttl mc = Some (e, mc')"
  shows "cache_inv mc' \<and> cfg mc' = cfg mc"
proof (cases val)
  case None
  with assms show ?thesis by (auto simp: cache_Set_def Let_def)
next
  case (Some d)
  show ?thesis
  proof (cases "effective_ttl mc ttl < 0")
    case True
    from Set_negative [OF this, of now key d] assms Some cache_inv_removeLocked [OF assms(1)]
    show ?thesis by (auto simp: removeLocked_sel)
  next
    case False
    with Set_spec [OF assms(1), of ttl now key d] assms(2) Some show ?thesis by auto
  qed
qed

lemma cache_inv_Exists: "cache_inv mc \<Longrightarrow> cache_inv (snd (cache_Exists now key mc))"
  by (auto simp: cache_Exists_def Let_def cache_inv_remove split: option.split)

lemma cache_inv_Clear: "cache_inv mc \<Longrightarrow> cache_inv (cache_Clear mc)"
  by (auto simp: cache_inv_def cache_Clear_def lru_inv_def split: option.splits)

text \<open>The sweep removes exactly what has expired.\<close>

lemma sweep_spec:
  assumes "cache_inv mc" "distinct (map fst xs)" "\<forall>(k, v)\<in>set xs. map_of (items mc) k = Some v"
  shows "cache_inv (fold (evict_if_expired now) xs mc) \<and> cfg (fold (evict_if_expired now) xs mc) = cfg mc
    \<and> (\<forall>k. map_of (items (fold (evict_if_expired now) xs mc)) k =
         (if \<exists>v. (k, v) \<in> set xs \<and> isExpired now v then None else map_of (items mc) k))"
  using assms
proof (induction xs arbitrary: mc)
  case (Cons x xs)
  obtain k v where x: "x = (k, v)" by (cases x)
  have e: "map_of (items mc) k = Some v" using Cons.prems(3) by (simp add: x)
  have k: "(k, w) \<notin> set xs" for w using Cons.prems(2) by (force simp: x)
  define mc1 where "mc1 = evict_if_expired now x mc"
  then have mc1: "mc1 = (if isExpired now v then removeLocked k (Some v) mc else mc)"
    by (simp add: evict_if_expired_def x isExpired_def)
  have m1: "map_of (items mc1) k' = (if k' = k \<and> isExpired now v then None else map_of (items mc) k')" for k'
    by (auto simp: mc1 removeLocked_sel delete_conv')
  have "cache_inv mc1" using Cons.prems(1) cache_inv_remove [OF _ e] by (simp add: mc1)
  moreover have "\<forall>(k, v)\<in>set xs. map_of (items mc1) k = Some v"
    using Cons.prems(3) k unfolding m1 by auto
  moreover have "distinct (map fst xs)" using Cons.prems(2) by simp
  ultimately have "cache_inv (fold (evict_if_expired now) xs mc1) \<and> cfg (fold (evict_if_expired now) xs mc1) = cfg mc1
    \<and> (\<forall>k. map_of (items (fold (evict_if_expired now) xs mc1)) k =
         (if \<exists>v. (k, v) \<in> set xs \<and> isExpired now v then None else map_of (items mc1) k))"
    using Cons.IH by blast
  moreover have "cfg mc1 = cfg mc" by (simp add: mc1 removeLocked_sel)
  moreover have "fold (evict_if_expired now) (x # xs) mc = fold (evict_if_expired now) xs mc1" by (simp add: mc1_def)
  ultimately show ?case using k unfolding m1 by (auto simp: x simp del: fold_simps)
qed simp

lemma evictExpired_spec:
  assumes "cache_inv mc"
  shows "cache_inv (evictExpired now mc)" "cfg (evictExpired now mc) = cfg mc"
    "map_of (items (evictExpired now mc)) k =
       (case map_of (items mc) k of Some e \<Rightarrow> if isExpired now e then None else Some e | None \<Rightarrow> None)"
proof -
  have d: "distinct (map fst (items mc))" using assms by (auto simp: cache_inv_def lru_inv_def split: option.splits)
  then have m: "\<forall>(k, v)\<in>set (items mc). map_of (items mc) k = Some v" by auto
  note S = sweep_spec [OF assms d m, of now, folded evictExpired_def]
  from S show "cache_inv (evictExpired now mc)" "cfg (evictExpired now mc) = cfg mc" by auto
  from S d show "map_of (items (evictExpired now mc)) k =
       (case map_of (items mc) k of Some e \<Rightarrow> if isExpired now e then None else Some e | None \<Rightarrow> None)"
    by (auto split: option.split simp: map_of_eq_None_iff dest: eq_key_imp_eq_value)
qed

lemma cache_inv_reach: "cache_reach opts mc \<Longrightarrow> cache_inv mc"
proof (induction rule: cache_reach.induct)
  case reach_new
  show ?case by (simp add: NewMemoryCache_def cache_inv_def Let_def lru_inv_def)
next
  case (reach_get mc now key)
  then show ?case using Get_spec [of mc now key] by auto
next
  case (reach_set mc now key v ttl e mc')
  then show ?case using cache_inv_Set by blast
next
  case (reach_delete mc key)
  then show ?case by (simp add: cache_Delete_def Let_def cache_inv_removeLocked)
qed (simp_all add: cache_inv_Exists cache_inv_Clear evictExpired_spec(1))

section \<open>The least-recently-used specification\<close>

text \<open>What a bounded cache promises: a list of keys with their values and expiry, most recently used first.\<close>

type_synonym lru_spec = "(string \<times> string \<times> gotime option) list"

definition spec_expired :: "gotime \<Rightarrow> gotime option \<Rightarrow> bool" where
  "spec_expired now x = (case x of None \<Rightarrow> False | Some t \<Rightarrow> now > t)"

definition spec_remove :: "string \<Rightarrow> lru_spec \<Rightarrow> lru_spec" where
  "spec_remove k xs = filter (\<lambda>x. fst x \<noteq> k) xs"

definition spec_get :: "gotime \<Rightarrow> string \<Rightarrow> lru_spec \<Rightarrow> string option \<times> lru_spec" where
  "spec_get now k xs =
     (case map_of xs k of
        None \<Rightarrow> (None, xs)
      | Some (d, x) \<Rightarrow> if spec_expired now x then (None, spec_remove k xs) else (Some d, (k, d, x) # spec_remove k xs))"

definition spec_set :: "nat \<Rightarrow> string \<Rightarrow> string \<Rightarrow> gotime option \<Rightarrow> lru_spec \<Rightarrow> lru_spec" where
  "spec_set cap k d x xs = take cap ((k, d, x) # spec_remove k xs)"

definition payload :: "memoryEntry \<Rightarrow> string \<times> gotime option" where
  "payload e = (data e, if hasExpiry e then Some (expiresAt e) else None)"

definition cache_abs :: "MemoryCache \<Rightarrow> lru_spec" where
  "cache_abs mc = map (\<lambda>(n, k). (k, payload (the (map_of (items mc) k)))) (the (lruList mc))"

lemma cache_abs_lookup:
  assumes "lru_inv mc l"
  shows "map_of (cache_abs mc) k = map_option payload (map_of (items mc) k)"
proof -
  have l: "lruList mc = Some l" and keys: "snd ` set l = fst ` set (items mc)" using assms by (auto simp: lru_inv_def)
  have "map_of (map (\<lambda>(n, k). (k, payload (the (map_of (items mc) k)))) l) k
      = (if k \<in> snd ` set l then Some (payload (the (map_of (items mc) k))) else None)" for l :: "(nat \<times> string) list"
    by (induction l) auto
  then show ?thesis using l keys by (cases "map_of (items mc) k") (force simp: cache_abs_def map_of_eq_None_iff dest: map_of_SomeD)+
qed

lemma cache_abs_remove:
  assumes "lru_inv mc' (filter (\<lambda>x. snd x \<noteq> k) l)" "lruList mc = Some l"
    and "\<And>k'. k' \<noteq> k \<Longrightarrow> map_of (items mc') k' = map_of (items mc) k'"
  shows "cache_abs mc' = spec_remove k (cache_abs mc)"
  using assms unfolding cache_abs_def spec_remove_def lru_inv_def
  by (auto simp: filter_map o_def intro!: map_cong filter_cong)


lemma cache_abs_front:
  assumes "lru_inv mc' ((n, k) # filter (\<lambda>x. snd x \<noteq> k) l)" "lruList mc = Some l"
    and "\<And>k'. k' \<noteq> k \<Longrightarrow> map_of (items mc') k' = map_of (items mc) k'" "map_of (items mc') k = Some e"
  shows "cache_abs mc' = (k, payload e) # spec_remove k (cache_abs mc)"
  using assms unfolding cache_abs_def spec_remove_def lru_inv_def
  by (auto simp: filter_map o_def intro!: map_cong filter_cong)

section \<open>Properties\<close>

text \<open>The three operations on a bounded cache, one by one, under its list invariant.\<close>

lemma removeLocked_abs:
  assumes "lruList mc = Some l" "lru_inv mc l" "map_of (items mc) k = Some e"
  shows "cache_abs (removeLocked k (Some e) mc) = spec_remove k (cache_abs mc)"
  by (rule cache_abs_remove [OF remove_spec(2) [OF assms(2,3)] assms(1)]) (simp add: removeLocked_sel delete_conv')

lemma cache_Get_abs:
  assumes l: "lruList mc = Some l" and inv: "lru_inv mc l" and k_def: "k = prefixedKey mc key"
  shows "case cache_Get now key mc of (r, mc') \<Rightarrow>
      spec_get now k (cache_abs mc) = (case r of Inl _ \<Rightarrow> None | Inr d \<Rightarrow> Some d, cache_abs mc')"
proof (cases "map_of (items mc) k")
  case None
  then show ?thesis using l by (simp add: cache_Get_def k_def [symmetric] spec_get_def cache_abs_lookup [OF inv])
next
  case (Some e)
  have ex: "isExpired now e \<longleftrightarrow> spec_expired now (snd (payload e))" "fst (payload e) = data e"
    by (auto simp: isExpired_def payload_def spec_expired_def)
  have m: "map_of (cache_abs mc) k = Some (data e, snd (payload e))"
    using ex(2) by (simp add: cache_abs_lookup [OF inv] Some prod_eq_iff)
  obtain n where n: "(n, k) \<in> set l" "lru e = Some n" using lru_inv_node [OF inv Some] by blast
  note F = lru_inv_front [OF inv n(1)]
  have touch: "touchLocked e mc = mc\<lparr>lruList := Some (MoveToFront n l)\<rparr>" using l n by (simp add: touchLocked_def)
  have "cache_abs (touchLocked e mc) = (k, data e, snd (payload e)) # spec_remove k (cache_abs mc)"
    using cache_abs_front [OF F(2) [unfolded F(1)] l, of e] Some ex(2) unfolding touch F(1) by (simp add: prod_eq_iff)
  then show ?thesis using l Some m removeLocked_abs [OF l inv Some] by (simp add: cache_Get_def k_def [symmetric] spec_get_def ex(1))
qed

lemma cache_Set_abs:
  assumes l: "lruList mc = Some l" and inv: "lru_inv mc l" "0 < maxEntries (cfg mc)" "int (length (items mc)) \<le> maxEntries (cfg mc)"
    and ttl: "0 \<le> effective_ttl mc ttl" and k_def: "k = prefixedKey mc key"
  shows "\<exists>mc'. cache_Set now key (Some d) ttl mc = Some (None, mc') \<and>
      cache_abs mc' = spec_set (nat (maxEntries (cfg mc))) k d (expiry now (effective_ttl mc ttl)) (cache_abs mc)"
proof -
  let ?l = "\<lambda>n. take (nat (maxEntries (cfg mc))) ((n, k) # filter (\<lambda>x. snd x \<noteq> k) l)"
  from Set_bounded [OF inv ttl, of now key d, folded k_def] obtain mc' n where
    mc': "cache_Set now key (Some d) ttl mc = Some (None, mc')" "lru_inv mc' (?l n)"
    and it: "\<And>k'. map_of (items mc') k' = (if k' \<notin> snd ` set (?l n) then None
       else if k' = k then Some ((new_entry now (effective_ttl mc ttl) d)\<lparr>lru := Some n\<rparr>) else map_of (items mc) k')"
    unfolding Let_def by blast
  have pay: "payload ((new_entry now (effective_ttl mc ttl) d)\<lparr>lru := Some n\<rparr>) = (d, expiry now (effective_ttl mc ttl))"
    by (simp add: payload_def new_entry_def expiry_def)
  have "cache_abs mc' = map (\<lambda>(n, k'). (k', payload (the (map_of (items mc') k')))) (?l n)"
    using mc'(2) by (simp add: cache_abs_def lru_inv_def)
  also have "\<dots> = map (\<lambda>(n, k'). (k', if k' = k then (d, expiry now (effective_ttl mc ttl)) else payload (the (map_of (items mc) k')))) (?l n)"
  proof (intro map_cong refl)
    fix x assume "x \<in> set (?l n)"
    then have "snd x \<in> snd ` set (?l n)" by (rule imageI)
    then show "(case x of (n, k') \<Rightarrow> (k', payload (the (map_of (items mc') k'))))
        = (case x of (n, k') \<Rightarrow> (k', if k' = k then (d, expiry now (effective_ttl mc ttl)) else payload (the (map_of (items mc) k'))))"
      by (cases x) (simp add: it pay del: take_Suc_Cons)
  qed
  also have "\<dots> = spec_set (nat (maxEntries (cfg mc))) k d (expiry now (effective_ttl mc ttl)) (cache_abs mc)"
    unfolding spec_set_def spec_remove_def cache_abs_def l
    by (auto simp: take_map [symmetric] filter_map o_def case_prod_beta intro!: arg_cong [of _ _ "take _"])
  finally show ?thesis using mc'(1) by blast
qed

lemma cache_Delete_abs:
  assumes l: "lruList mc = Some l" and inv: "lru_inv mc l" and k_def: "k = prefixedKey mc key"
  shows "cache_abs (cache_Delete key mc) = spec_remove k (cache_abs mc)"
proof (cases "map_of (items mc) k")
  case None
  then have "map_of (cache_abs mc) k = None" by (simp add: cache_abs_lookup [OF inv])
  then have "spec_remove k (cache_abs mc) = cache_abs mc"
    unfolding spec_remove_def by (intro filter_True) (auto simp: map_of_eq_None_iff rev_image_eqI)
  then show ?thesis using None by (simp add: cache_Delete_def k_def [symmetric] removeLocked_absent)
next
  case (Some e)
  then show ?thesis using removeLocked_abs [OF l inv Some] by (simp add: cache_Delete_def k_def [symmetric])
qed

text \<open>C9. A bounded cache is a least-recently-used cache: read through the recency list, every \<^verbatim>\<open>Get\<close>, \<^verbatim>\<open>Set\<close> and
  \<^verbatim>\<open>Delete\<close> does exactly what the specification does. A hit moves its key to the front, an expired entry is
  dropped, and a stored value goes to the front and pushes out the keys past the cap from the back.\<close>

theorem cache_refines_lru:
  assumes "cache_inv mc" "lruList mc \<noteq> None" "0 \<le> effective_ttl mc ttl"
  shows "(case cache_Get now key mc of (r, mc') \<Rightarrow>
        spec_get now (prefixedKey mc key) (cache_abs mc) = (case r of Inl _ \<Rightarrow> None | Inr d \<Rightarrow> Some d, cache_abs mc'))
    \<and> (case cache_Set now key (Some d) ttl mc of
         Some (e, mc') \<Rightarrow> e = None
           \<and> cache_abs mc' = spec_set (nat (maxEntries (cfg mc))) (prefixedKey mc key) d (expiry now (effective_ttl mc ttl)) (cache_abs mc)
       | None \<Rightarrow> False)
    \<and> cache_abs (cache_Delete key mc) = spec_remove (prefixedKey mc key) (cache_abs mc)"
proof -
  from assms(1,2) obtain l where l: "lruList mc = Some l" and inv: "lru_inv mc l" "0 < maxEntries (cfg mc)" "int (length (items mc)) \<le> maxEntries (cfg mc)"
    by (auto simp: cache_inv_def split: option.splits)
  obtain mc' where "cache_Set now key (Some d) ttl mc = Some (None, mc')"
    "cache_abs mc' = spec_set (nat (maxEntries (cfg mc))) (prefixedKey mc key) d (expiry now (effective_ttl mc ttl)) (cache_abs mc)"
    using cache_Set_abs [OF l inv assms(3) refl] by blast
  with cache_Get_abs [OF l inv(1) refl] cache_Delete_abs [OF l inv(1) refl] show ?thesis by simp
qed


text \<open>What was stored is what is read: after \<^verbatim>\<open>Set\<close> with a lifetime that is not negative, which always returns,
  \<^verbatim>\<open>Get\<close> of the key gives the value until the lifetime has passed and a miss from then on, and any other
  key gives what it gave before or, when the cap pushed it out, a miss.\<close>

lemma cache_get_after_set:
  assumes "cache_inv mc" "0 \<le> effective_ttl mc ttl"
  shows "case cache_Set now key (Some d) ttl mc of
      None \<Rightarrow> False
    | Some (e, mc') \<Rightarrow> e = None
        \<and> fst (cache_Get t key mc') = (if effective_ttl mc ttl > 0 \<and> t > now + effective_ttl mc ttl then Inl ErrCacheMiss else Inr d)
        \<and> (k' = key \<or> fst (cache_Get t k' mc') \<in> {fst (cache_Get t k' mc), Inl ErrCacheMiss})"
proof -
  from Set_spec [OF assms, of now key d] obtain mc' e where
    mc': "cache_Set now key (Some d) ttl mc = Some (None, mc')" "cache_inv mc'" "cfg mc' = cfg mc"
    and e: "map_of (items mc') (prefixedKey mc key) = Some e" "data e = d"
      "\<forall>t. isExpired t e \<longleftrightarrow> effective_ttl mc ttl > 0 \<and> t > now + effective_ttl mc ttl"
    and other: "\<forall>k. k \<noteq> prefixedKey mc key \<longrightarrow> map_of (items mc') k \<in> {map_of (items mc) k, None}"
    by blast
  have get: "fst (cache_Get t k mc) = (case cache_lookup mc t k of None \<Rightarrow> Inl ErrCacheMiss | Some d \<Rightarrow> Inr d)" if "cache_inv mc" for k mc
    using Get_spec [OF that, of t k] by (auto split: prod.splits)
  have pk: "prefixedKey mc' = prefixedKey mc" by (rule prefixedKey_cfg [OF mc'(3)])
  have "cache_lookup mc' t key = (if effective_ttl mc ttl > 0 \<and> t > now + effective_ttl mc ttl then None else Some d)"
    using e by (simp add: cache_lookup_def pk)
  moreover have "k' = key \<or> cache_lookup mc' t k' \<in> {cache_lookup mc t k', None}"
    using other [rule_format, of "prefixedKey mc k'"]
    by (cases "k' = key") (auto simp: cache_lookup_def pk prefixedKey_inj split: option.splits)
  ultimately show ?thesis using mc'(1) get [OF mc'(2)] get [OF assms(1)] by auto
qed

text \<open>A negative lifetime never widens into retention: \<^verbatim>\<open>Set\<close> with one stores nothing, drops what was under the
  key, and leaves every other key as it was.\<close>

lemma cache_negative_ttl:
  assumes "cache_inv mc" "effective_ttl mc ttl < 0"
  shows "case cache_Set now key (Some d) ttl mc of
      None \<Rightarrow> False
    | Some (e, mc') \<Rightarrow> e = None \<and> cache_lookup mc' t key = None
        \<and> (k' = key \<or> cache_lookup mc' t k' = cache_lookup mc t k')"
  using Set_negative [OF assms(2), of now key d]
  by (auto simp: cache_lookup_def removeLocked_sel delete_conv' prefixedKey_inj)

text \<open>Every cache the operations can make from \<^verbatim>\<open>NewMemoryCache\<close> keeps its entries under distinct keys and, with
  \<^verbatim>\<open>WithMaxEntries\<close>, at most that many of them, with the recency list holding each key exactly once.\<close>

lemma cache_bounded:
  assumes "cache_reach opts mc"
  shows "distinct (map fst (items mc))
    \<and> (case lruList mc of
         None \<Rightarrow> maxEntries (cfg mc) \<le> 0
       | Some l \<Rightarrow> int (cache_Len mc) \<le> maxEntries (cfg mc) \<and> distinct (map snd l) \<and> set (map snd l) = set (map fst (items mc)))"
  using cache_inv_reach [OF assms]
  by (auto simp: cache_inv_def lru_inv_def cache_Len_def split: option.splits)

text \<open>The background sweep drops exactly the entries that have expired: no reader can tell, and none of them is
  left.\<close>

lemma evictExpired_exact:
  assumes "cache_inv mc" "now \<le> t"
  shows "cache_lookup (evictExpired now mc) t key = cache_lookup mc t key
    \<and> list_all (\<lambda>(_, e). \<not> isExpired now e) (items (evictExpired now mc))"
proof -
  note E = evictExpired_spec [OF assms(1), of now]
  have pk: "prefixedKey (evictExpired now mc) = prefixedKey mc" by (rule prefixedKey_cfg [OF E(2)])
  have d: "distinct (map fst (items (evictExpired now mc)))"
    using E(1) by (auto simp: cache_inv_def lru_inv_def split: option.splits)
  have "isExpired now e \<Longrightarrow> isExpired t e" for e using assms(2) by (simp add: isExpired_def)
  then have "cache_lookup (evictExpired now mc) t key = cache_lookup mc t key"
    by (auto simp: cache_lookup_def pk E(3) split: option.splits)
  moreover have "\<not> isExpired now e" if "(k, e) \<in> set (items (evictExpired now mc))" for k e
    using that d E(3) [of k] by (auto split: option.splits if_splits)
  ultimately show ?thesis by (auto simp: list_all_iff)
qed

section \<open>Example caches\<close>

definition example_cache :: MemoryCache where
  "example_cache = NewMemoryCache [WithMaxEntries 2, WithTTL 10]"

definition example_filled :: "MemoryCache" where
  "example_filled = PushFront ''a'' (new_entry 0 10 ''1'') [] example_cache"

lemma example_cache_inv: "cache_inv example_cache" "cache_inv example_filled"
  by (simp_all add: example_filled_def example_cache_def NewMemoryCache_def applyOptions_def cache_inv_def lru_inv_def
      PushFront_def new_entry_def)

lemma example_ttl: "effective_ttl example_filled 0 = 10" "effective_ttl example_filled (-5) < 0" "lruList example_filled \<noteq> None"
  by (simp_all add: effective_ttl_def example_filled_def example_cache_def NewMemoryCache_def applyOptions_def PushFront_def)

lemma example_abs: "cache_abs example_filled = [(''a'', ''1'', Some 10)]" "prefixedKey example_filled k = k" "maxEntries (cfg example_filled) = 2"
  by (simp_all add: example_filled_def example_cache_def NewMemoryCache_def applyOptions_def PushFront_def cache_abs_def
      payload_def new_entry_def prefixedKey_def)

theorem cache_refines_lru_witness:
  "(case cache_Set 3 ''b'' (Some ''2'') 0 example_filled of
      Some (e, mc') \<Rightarrow> cache_abs mc' = [(''b'', ''2'', Some 13), (''a'', ''1'', Some 10)] | None \<Rightarrow> False)"
proof -
  have "0 \<le> effective_ttl example_filled 0" by (simp add: example_ttl)
  from cache_refines_lru [OF example_cache_inv(2) example_ttl(3) this, where key = "''b''" and d = "''2''" and now = 3]
  show ?thesis by (auto simp: example_abs example_ttl spec_set_def spec_remove_def expiry_def split: option.splits)
qed

lemma cache_get_after_set_witness:
  "case cache_Set 3 ''b'' (Some ''2'') 0 example_filled of
     None \<Rightarrow> False | Some (e, mc') \<Rightarrow> fst (cache_Get 13 ''b'' mc') = Inr ''2''"
proof -
  have "0 \<le> effective_ttl example_filled 0" by (simp add: example_ttl)
  from cache_get_after_set [OF example_cache_inv(2) this, where key = "''b''" and d = "''2''" and now = 3 and t = 13 and k' = "''a''"]
  show ?thesis by (auto simp: example_ttl split: option.splits)
qed

lemma cache_negative_ttl_witness:
  "case cache_Set 3 ''a'' (Some ''2'') (-5) example_filled of None \<Rightarrow> False | Some (e, mc') \<Rightarrow> cache_lookup mc' 3 ''a'' = None"
  using cache_negative_ttl [OF example_cache_inv(2) example_ttl(2), where key = "''a''" and d = "''2''" and now = 3 and t = 3 and k' = "''a''"]
  by (auto split: option.splits)

lemma cache_bounded_witness: "int (cache_Len (cache_Clear (NewMemoryCache [WithMaxEntries 2]))) \<le> 2"
  using cache_bounded [OF reach_clear [OF reach_new, of "[WithMaxEntries 2]"]]
  by (simp add: NewMemoryCache_def applyOptions_def cache_Clear_def)

lemma evictExpired_exact_witness: "cache_lookup (evictExpired 11 example_filled) 12 ''a'' = None"
proof -
  have "cache_lookup example_filled 12 ''a'' = None"
    by (simp add: cache_lookup_def example_abs(2))
      (simp add: example_filled_def PushFront_def new_entry_def isExpired_def update_conv')
  then show ?thesis using evictExpired_exact [OF example_cache_inv(2), of 11 12 "''a''"] by simp
qed

end
