(* ===== verification/CacheFill.thy ===== *)
theory CacheFill
  imports MemoryCache
begin

text \<open>
  \<^verbatim>\<open>GetOrSet\<close> of \<^verbatim>\<open>battery/cache/cache.go\<close> and the flights that make concurrent misses of one key share
  a fill.

  \<open>GetOrSet\<close> is one caller's run over any cache: the backend's \<^verbatim>\<open>Get\<close> and \<^verbatim>\<open>Set\<close> are arguments, with their
  contract in the locale \<open>cache_backend\<close>, which the in-memory cache meets. The loader's outcome is an
  argument, the clock is read at each of the four cache calls, and a value is its JSON form. The
  flights are a state machine: callers enter, leave when their context ends, or receive the result, and
  the fill's goroutine finishes.
\<close>

section \<open>One caller\<close>

datatype 'e fill_error = CacheErr cache_error | LoaderErr 'e | FillCancelled

type_synonym 's get_op = "gotime \<Rightarrow> string \<Rightarrow> 's \<Rightarrow> (cache_error + string) \<times> 's"
type_synonym 's set_op = "gotime \<Rightarrow> string \<Rightarrow> string option \<Rightarrow> int \<Rightarrow> 's \<Rightarrow> (cache_error option \<times> 's) option"

text \<open>The fill: the result is the loader's value when the loader ran and the value was stored. The flag says
  whether the loader was called; \<open>abandoned\<close> whether the fill's context ended while it loaded.\<close>

definition fill ::
  "'s get_op \<Rightarrow> 's set_op \<Rightarrow> gotime \<Rightarrow> gotime \<Rightarrow> string \<Rightarrow> int \<Rightarrow> bool \<Rightarrow> 'e + string option \<Rightarrow> 's
   \<Rightarrow> (('e fill_error + string option) \<times> bool \<times> 's) option" where
  "fill get put t2 t3 key ttl abandoned loader s =
     (case get t2 key s of
        (Inr _, s1) \<Rightarrow> Some (Inr None, False, s1)
      | (Inl ErrCacheMiss, s1) \<Rightarrow>
          (case loader of
             Inl e \<Rightarrow> Some (Inl (LoaderErr e), True, s1)
           | Inr val \<Rightarrow>
               if abandoned then Some (Inl FillCancelled, True, s1)
               else (case put t3 key val ttl s1 of
                       None \<Rightarrow> None
                     | Some (Some e, s2) \<Rightarrow> Some (Inl (CacheErr e), True, s2)
                     | Some (None, s2) \<Rightarrow> Some (Inr val, True, s2)))
      | (Inl e, s1) \<Rightarrow> Some (Inl (CacheErr e), False, s1))"

definition GetOrSet ::
  "'s get_op \<Rightarrow> 's set_op \<Rightarrow> gotime \<times> gotime \<times> gotime \<times> gotime \<Rightarrow> string \<Rightarrow> int \<Rightarrow> bool \<Rightarrow> 'e + string option \<Rightarrow> 's
   \<Rightarrow> (('e fill_error + string) \<times> bool \<times> 's) option" where
  "GetOrSet get put ts key ttl abandoned loader s =
     (case ts of (t1, t2, t3, t4) \<Rightarrow>
      case get t1 key s of
        (Inr d, s1) \<Rightarrow> Some (Inr d, False, s1)
      | (Inl ErrCacheMiss, s1) \<Rightarrow>
          (case fill get put t2 t3 key ttl abandoned loader s1 of
             None \<Rightarrow> None
           | Some (Inl e, called, s2) \<Rightarrow> Some (Inl e, called, s2)
           | Some (Inr loaded, called, s2) \<Rightarrow>
               (case get t4 key s2 of
                  (Inr d, s3) \<Rightarrow> Some (Inr d, called, s3)
                | (Inl ErrCacheMiss, s3) \<Rightarrow>
                    (case loaded of
                       Some v \<Rightarrow> if ttl \<ge> 0 then Some (Inr v, called, s3) else Some (Inl (CacheErr ErrCacheMiss), called, s3)
                     | None \<Rightarrow> Some (Inl (CacheErr ErrCacheMiss), called, s3))
                | (Inl e, s3) \<Rightarrow> Some (Inl (CacheErr e), called, s3)))
      | (Inl e, s1) \<Rightarrow> Some (Inl (CacheErr e), False, s1))"

section \<open>The contract of a cache\<close>

locale cache_backend =
  fixes inv :: "'s \<Rightarrow> bool"
    and lookup :: "'s \<Rightarrow> gotime \<Rightarrow> string \<Rightarrow> string option"
    and get :: "'s get_op"
    and put :: "'s set_op"
  assumes get_law: "inv s \<Longrightarrow> \<exists>s'. get now k s = (case lookup s now k of None \<Rightarrow> Inl ErrCacheMiss | Some d \<Rightarrow> Inr d, s')
      \<and> inv s' \<and> (\<forall>k' t. now \<le> t \<longrightarrow> lookup s' t k' = lookup s t k')"
    and set_law: "inv s \<Longrightarrow> \<exists>s'. put now k (Some d) ttl s = Some (None, s') \<and> inv s'
      \<and> (\<forall>t. lookup s' t k = None \<or> 0 \<le> ttl \<and> lookup s' t k = Some d)"
    and set_marshal: "put now k None ttl s = Some (Some ErrMarshal, s)"
    and expiry_law: "lookup s t k = None \<Longrightarrow> t \<le> t' \<Longrightarrow> lookup s t' k = None"
begin

lemma hit:
  assumes "inv s" "lookup s t1 key = Some d"
  shows "\<exists>s'. GetOrSet get put (t1, t2, t3, t4) key ttl ab loader s = Some (Inr d, False, s') \<and> inv s'"
  using get_law [OF assms(1), of t1 key] assms(2) by (auto simp: GetOrSet_def)

lemma miss:
  assumes "inv s" "lookup s t1 key = None" "t1 \<le> t2"
  obtains s1 s2 where "get t1 key s = (Inl ErrCacheMiss, s1)" "get t2 key s1 = (Inl ErrCacheMiss, s2)" "inv s2"
    "\<And>k t. t2 \<le> t \<Longrightarrow> lookup s2 t k = lookup s t k"
proof -
  from get_law [OF assms(1), of t1 key] assms(2) obtain s1 where
    s1: "get t1 key s = (Inl ErrCacheMiss, s1)" "inv s1" "\<forall>k' t. t1 \<le> t \<longrightarrow> lookup s1 t k' = lookup s t k'"
    by auto
  have "lookup s1 t2 key = None" using s1(3) expiry_law [OF assms(2,3)] assms(3) by simp
  with get_law [OF s1(2), of t2 key] obtain s2 where
    s2: "get t2 key s1 = (Inl ErrCacheMiss, s2)" "inv s2" "\<forall>k' t. t2 \<le> t \<longrightarrow> lookup s2 t k' = lookup s1 t k'"
    by auto
  show ?thesis by (rule that [OF s1(1) s2(1,2)]) (use s1(3) s2(3) assms(3) in simp)
qed

lemma loaded:
  assumes "inv s" "lookup s t1 key = None" "t1 \<le> t2"
  shows "\<exists>s'. GetOrSet get put (t1, t2, t3, t4) key ttl False (Inr (Some d)) s
      = Some (if 0 \<le> ttl then Inr d else Inl (CacheErr ErrCacheMiss), True, s') \<and> inv s'"
proof -
  from miss [OF assms] obtain s1 s2 where s: "get t1 key s = (Inl ErrCacheMiss, s1)" "get t2 key s1 = (Inl ErrCacheMiss, s2)" "inv s2"
    by metis
  from set_law [OF s(3), of t3 key d ttl] obtain s3 where
    s3: "put t3 key (Some d) ttl s2 = Some (None, s3)" "inv s3" "\<And>t. lookup s3 t key = None \<or> 0 \<le> ttl \<and> lookup s3 t key = Some d"
    by blast
  from get_law [OF s3(2), of t4 key] obtain s4 where
    "get t4 key s3 = (case lookup s3 t4 key of None \<Rightarrow> Inl ErrCacheMiss | Some d \<Rightarrow> Inr d, s4)" "inv s4" by blast
  with s s3(1) s3(3) [of t4] show ?thesis by (auto simp: GetOrSet_def fill_def)
qed

lemma not_loaded:
  assumes "inv s" "lookup s t1 key = None" "t1 \<le> t2" "loader = Inl e \<or> ab \<or> loader = Inr None"
  shows "\<exists>s' err. GetOrSet get put (t1, t2, t3, t4) key ttl ab loader s = Some (Inl err, True, s') \<and> inv s'
    \<and> (loader = Inl e \<longrightarrow> err = LoaderErr e) \<and> (\<forall>k t. t2 \<le> t \<longrightarrow> lookup s' t k = lookup s t k)"
proof -
  from miss [OF assms(1-3)] obtain s1 s2 where
    s: "get t1 key s = (Inl ErrCacheMiss, s1)" "get t2 key s1 = (Inl ErrCacheMiss, s2)" "inv s2"
      "\<And>k t. t2 \<le> t \<Longrightarrow> lookup s2 t k = lookup s t k"
    by metis
  from assms(4) s show ?thesis
    by (cases loader) (auto simp: GetOrSet_def fill_def set_marshal split: if_splits)
qed

end

interpretation memory: cache_backend cache_inv cache_lookup cache_Get cache_Set
proof
  fix mc :: MemoryCache and now ttl t t' :: int and k d :: string
  show "cache_lookup mc t k = None \<Longrightarrow> t \<le> t' \<Longrightarrow> cache_lookup mc t' k = None"
    by (auto simp: cache_lookup_def isExpired_def split: option.splits if_splits)
  show "cache_Set now k None ttl mc = Some (Some ErrMarshal, mc)" by (simp add: cache_Set_def Let_def)
  assume inv: "cache_inv mc"
  show "\<exists>s'. cache_Get now k mc = (case cache_lookup mc now k of None \<Rightarrow> Inl ErrCacheMiss | Some d \<Rightarrow> Inr d, s')
      \<and> cache_inv s' \<and> (\<forall>k' t. now \<le> t \<longrightarrow> cache_lookup s' t k' = cache_lookup mc t k')"
    using Get_spec [OF inv, of now k] by (cases "cache_Get now k mc") auto
  show "\<exists>s'. cache_Set now k (Some d) ttl mc = Some (None, s') \<and> cache_inv s'
      \<and> (\<forall>t. cache_lookup s' t k = None \<or> 0 \<le> ttl \<and> cache_lookup s' t k = Some d)"
  proof (cases "effective_ttl mc ttl < 0")
    case True
    have "cache_lookup (removeLocked (prefixedKey mc k) (map_of (items mc) (prefixedKey mc k)) mc) t k = None" for t
      by (simp add: cache_lookup_def removeLocked_sel delete_conv')
    with Set_negative [OF True, of now k d] cache_inv_removeLocked [OF inv] show ?thesis by auto
  next
    case False
    then have "0 \<le> effective_ttl mc ttl" "0 \<le> ttl" by (auto simp: effective_ttl_def split: if_splits)
    from Set_spec [OF inv this(1), of now k d] obtain mc' e where
      mc': "cache_Set now k (Some d) ttl mc = Some (None, mc')" "cache_inv mc'" "cfg mc' = cfg mc"
        "map_of (items mc') (prefixedKey mc k) = Some e" "data e = d" by blast
    then have "\<forall>t. cache_lookup mc' t k = None \<or> 0 \<le> ttl \<and> cache_lookup mc' t k = Some d"
      using \<open>0 \<le> ttl\<close> by (simp add: cache_lookup_def prefixedKey_cfg [OF mc'(3)])
    with mc'(1,2) show ?thesis by blast
  qed
qed

section \<open>Flights\<close>

record flight =
  fkey :: string
  waiters :: int
  fdone :: bool
  fcancelled :: bool
  fresult :: "(string fill_error + string option) option"

text \<open>\<open>flight_table\<close> is the global map of running flights; a flight is a position of \<open>flight_heap\<close>. \<open>blocked\<close>
  lists the callers that sit in \<^verbatim>\<open>joinFill\<close>'s select, each with its flight.\<close>

record flights =
  flight_table :: "(string \<times> nat) list"
  flight_heap :: "flight list"
  blocked :: "(nat \<times> nat) list"

definition no_flights :: flights where
  "no_flights = \<lparr>flight_table = [], flight_heap = [], blocked = []\<rparr>"

definition joinFill_enter :: "nat \<Rightarrow> string \<Rightarrow> flights \<Rightarrow> flights" where
  "joinFill_enter caller key fs =
     (case map_of (flight_table fs) key of
        Some f \<Rightarrow>
          fs\<lparr>flight_heap := (flight_heap fs)[f := (flight_heap fs ! f)\<lparr>waiters := waiters (flight_heap fs ! f) + 1\<rparr>],
             blocked := (caller, f) # blocked fs\<rparr>
      | None \<Rightarrow>
          let f = length (flight_heap fs) in
          fs\<lparr>flight_table := AList.update key f (flight_table fs),
             flight_heap := flight_heap fs @ [\<lparr>fkey = key, waiters = 1, fdone = False, fcancelled = False, fresult = None\<rparr>],
             blocked := (caller, f) # blocked fs\<rparr>)"

definition unhook :: "nat \<Rightarrow> flights \<Rightarrow> flights" where
  "unhook f fs =
     (let key = fkey (flight_heap fs ! f) in
      if map_of (flight_table fs) key = Some f then fs\<lparr>flight_table := AList.delete key (flight_table fs)\<rparr> else fs)"

definition joinFill_leave :: "nat \<Rightarrow> flights \<Rightarrow> flights" where
  "joinFill_leave caller fs =
     (case map_of (blocked fs) caller of
        None \<Rightarrow> fs
      | Some f \<Rightarrow>
          let fl = (flight_heap fs ! f)\<lparr>waiters := waiters (flight_heap fs ! f) - 1\<rparr>;
              fs1 = fs\<lparr>flight_heap := (flight_heap fs)[f := fl], blocked := AList.delete caller (blocked fs)\<rparr>
          in if waiters fl = 0
             then (unhook f fs1)\<lparr>flight_heap := (flight_heap fs1)[f := fl\<lparr>fcancelled := True\<rparr>]\<rparr>
             else fs1)"

definition joinFill_receive :: "nat \<Rightarrow> flights \<Rightarrow> (string fill_error + string option) option \<times> flights" where
  "joinFill_receive caller fs =
     (case map_of (blocked fs) caller of
        None \<Rightarrow> (None, fs)
      | Some f \<Rightarrow>
          if fdone (flight_heap fs ! f)
          then (fresult (flight_heap fs ! f), fs\<lparr>blocked := AList.delete caller (blocked fs)\<rparr>)
          else (None, fs))"

text \<open>The end of a fill. The code unhooks it, cancels its context and closes its channel one after the other, with the loader already
  back; here they are one step, so no caller is seen between them.\<close>

definition runFlight_finish :: "nat \<Rightarrow> (string fill_error + string option) \<Rightarrow> flights \<Rightarrow> flights" where
  "runFlight_finish f res fs =
     (unhook f fs)\<lparr>flight_heap :=
        (flight_heap fs)[f := (flight_heap fs ! f)\<lparr>fresult := Some res, fcancelled := True, fdone := True\<rparr>]\<rparr>"

inductive flights_reach :: "flights \<Rightarrow> bool" where
  flights_new: "flights_reach no_flights"
| flights_enter: "flights_reach fs \<Longrightarrow> map_of (blocked fs) c = None \<Longrightarrow> flights_reach (joinFill_enter c key fs)"
| flights_leave: "flights_reach fs \<Longrightarrow> flights_reach (joinFill_leave c fs)"
| flights_receive: "flights_reach fs \<Longrightarrow> flights_reach (snd (joinFill_receive c fs))"
| flights_finish: "flights_reach fs \<Longrightarrow> f < length (flight_heap fs) \<Longrightarrow> \<not> fdone (flight_heap fs ! f) \<Longrightarrow>
    flights_reach (runFlight_finish f res fs)"

definition waiting_on :: "nat \<Rightarrow> (nat \<times> nat) list \<Rightarrow> nat" where
  "waiting_on f bs = length (filter (\<lambda>x. snd x = f) bs)"

definition flight_live :: "flight \<Rightarrow> bool" where
  "flight_live fl \<longleftrightarrow> \<not> fdone fl \<and> \<not> fcancelled fl"

definition flight_ok :: "flights \<Rightarrow> nat \<Rightarrow> bool" where
  "flight_ok fs f \<longleftrightarrow> (let fl = flight_heap fs ! f in
     (fdone fl \<or> waiters fl = int (waiting_on f (blocked fs)))
     \<and> (flight_live fl \<longleftrightarrow> map_of (flight_table fs) (fkey fl) = Some f)
     \<and> (flight_live fl \<longrightarrow> 0 < waiters fl) \<and> (fcancelled fl \<and> \<not> fdone fl \<longrightarrow> waiters fl = 0))"

definition flights_inv :: "flights \<Rightarrow> bool" where
  "flights_inv fs \<longleftrightarrow> distinct (map fst (flight_table fs)) \<and> distinct (map fst (blocked fs))
     \<and> (\<forall>f < length (flight_heap fs). flight_ok fs f)
     \<and> (\<forall>k f. map_of (flight_table fs) k = Some f \<longrightarrow> f < length (flight_heap fs) \<and> fkey (flight_heap fs ! f) = k)
     \<and> (\<forall>c f. map_of (blocked fs) c = Some f \<longrightarrow> f < length (flight_heap fs))"

lemma waiting_on_Cons [simp]: "waiting_on f ((c, g) # bs) = (if g = f then 1 else 0) + waiting_on f bs"
  by (simp add: waiting_on_def)

lemma waiting_on_delete:
  "distinct (map fst bs) \<Longrightarrow> map_of bs c = Some f \<Longrightarrow>
     waiting_on g bs = (if g = f then 1 else 0) + waiting_on g (AList.delete c bs)"
proof (induction bs)
  case (Cons b bs)
  obtain c' f' where b: "b = (c', f')" by (cases b)
  show ?case
  proof (cases "c' = c")
    case True
    then have "AList.delete c bs = bs" using Cons.prems(1) by (intro delete_id) (simp add: b)
    then show ?thesis using True Cons.prems by (simp add: b)
  next
    case False
    then show ?thesis using Cons by (simp add: b)
  qed
qed simp

lemma waiting_on_zero: "\<forall>c. map_of bs c \<noteq> Some f \<Longrightarrow> distinct (map fst bs) \<Longrightarrow> waiting_on f bs = 0"
  by (auto simp: waiting_on_def filter_empty_conv)

lemma flights_invI:
  assumes "distinct (map fst (flight_table fs))" "distinct (map fst (blocked fs))"
    and "\<And>f. f < length (flight_heap fs) \<Longrightarrow> flight_ok fs f"
    and "\<And>k f. map_of (flight_table fs) k = Some f \<Longrightarrow> f < length (flight_heap fs) \<and> fkey (flight_heap fs ! f) = k"
    and "\<And>c f. map_of (blocked fs) c = Some f \<Longrightarrow> f < length (flight_heap fs)"
  shows "flights_inv fs"
  using assms unfolding flights_inv_def by blast

lemma flights_invD:
  assumes "flights_inv fs"
  shows "distinct (map fst (flight_table fs))" "distinct (map fst (blocked fs))"
    "f < length (flight_heap fs) \<Longrightarrow> flight_ok fs f"
    "map_of (flight_table fs) k = Some f \<Longrightarrow> f < length (flight_heap fs) \<and> fkey (flight_heap fs ! f) = k"
    "map_of (blocked fs) c = Some f \<Longrightarrow> f < length (flight_heap fs)"
  using assms unfolding flights_inv_def by blast+

lemma unhook_table:
  assumes "flights_inv fs"
  shows "map_of (if map_of (flight_table fs) (fkey (flight_heap fs ! f)) = Some f
      then AList.delete (fkey (flight_heap fs ! f)) (flight_table fs) else flight_table fs) k = Some g
    \<longleftrightarrow> map_of (flight_table fs) k = Some g \<and> g \<noteq> f"
proof -
  let ?k = "fkey (flight_heap fs ! f)"
  have other: "map_of (flight_table fs) k \<noteq> Some f" if "k \<noteq> ?k" using flights_invD(4) [OF assms, of k f] that by blast
  show ?thesis
  proof (cases "k = ?k")
    case True
    then show ?thesis by (auto simp: delete_conv' simp del: map_of_eq_Some_iff)
  next
    case False
    have "map_of (AList.delete ?k (flight_table fs)) k = map_of (flight_table fs) k" using False by (simp add: delete_conv')
    then show ?thesis using other [OF False] by auto
  qed
qed

lemma inv_enter_join:
  assumes "flights_inv fs" "map_of (blocked fs) c = None" "map_of (flight_table fs) key = Some f"
  shows "flights_inv (joinFill_enter c key fs)"
proof -
  note D = flights_invD [OF assms(1)]
  have f: "f < length (flight_heap fs)" "fkey (flight_heap fs ! f) = key" using D(4) [OF assms(3)] by auto
  let ?fl = "(flight_heap fs ! f)\<lparr>waiters := waiters (flight_heap fs ! f) + 1\<rparr>"
  let ?fs = "fs\<lparr>flight_heap := (flight_heap fs)[f := ?fl], blocked := (c, f) # blocked fs\<rparr>"
  have eq: "joinFill_enter c key fs = ?fs" using assms(3) by (simp add: joinFill_enter_def)
  show ?thesis unfolding eq
  proof (rule flights_invI)
    fix g assume g: "g < length (flight_heap ?fs)"
    then have ok: "flight_ok fs g" using D(3) by simp
    have live: "flight_live (flight_heap fs ! f)" using D(3) [OF f(1)] assms(3) f(2) by (simp add: flight_ok_def Let_def)
    show "flight_ok ?fs g"
      using ok live g by (cases "g = f") (auto simp: flight_ok_def Let_def flight_live_def)
  next
    fix c' g assume "map_of (blocked ?fs) c' = Some g"
    then show "g < length (flight_heap ?fs)" using D(5) f by (auto split: if_splits)
  next
    fix k g assume "map_of (flight_table ?fs) k = Some g"
    then have "g < length (flight_heap fs) \<and> fkey (flight_heap fs ! g) = k" using D(4) by simp
    then show "g < length (flight_heap ?fs) \<and> fkey (flight_heap ?fs ! g) = k" by (cases "g = f") auto
  qed (use D(1,2) assms(2) in \<open>simp_all add: map_of_eq_None_iff\<close>)
qed

lemma inv_enter_new:
  assumes "flights_inv fs" "map_of (blocked fs) c = None" "map_of (flight_table fs) key = None"
  shows "flights_inv (joinFill_enter c key fs)"
proof -
  note D = flights_invD [OF assms(1)]
  let ?f = "length (flight_heap fs)"
  let ?fl = "\<lparr>fkey = key, waiters = 1, fdone = False, fcancelled = False, fresult = None\<rparr>"
  let ?fs = "fs\<lparr>flight_table := AList.update key ?f (flight_table fs), flight_heap := flight_heap fs @ [?fl],
      blocked := (c, ?f) # blocked fs\<rparr>"
  have eq: "joinFill_enter c key fs = ?fs" using assms(3) by (simp add: joinFill_enter_def Let_def)
  have none: "map_of (flight_table fs) k \<noteq> Some ?f" "map_of (blocked fs) c' \<noteq> Some ?f" for k c'
    using D(4) [of k ?f] D(5) [of c' ?f] by blast+
  have z: "waiting_on ?f (blocked fs) = 0" using none(2) D(2) by (intro waiting_on_zero) auto
  show ?thesis unfolding eq
  proof (rule flights_invI)
    fix g assume g: "g < length (flight_heap ?fs)"
    show "flight_ok ?fs g"
    proof (cases "g = ?f")
      case True
      then show ?thesis using z by (simp add: flight_ok_def Let_def flight_live_def update_conv')
    next
      case False
      then have "g < ?f" using g by simp
      then have "flight_ok fs g" by (rule D(3))
      moreover have "fkey (flight_heap fs ! g) = key \<Longrightarrow> map_of (flight_table fs) key \<noteq> Some g" using assms(3) by simp
      ultimately show ?thesis using \<open>g < ?f\<close>
        by (auto simp: flight_ok_def Let_def nth_append update_conv' assms(3))
    qed
  next
    fix c' g assume "map_of (blocked ?fs) c' = Some g"
    then show "g < length (flight_heap ?fs)" using D(5) by (force split: if_splits)
  next
    fix k g assume "map_of (flight_table ?fs) k = Some g"
    then show "g < length (flight_heap ?fs) \<and> fkey (flight_heap ?fs ! g) = k"
      using D(4) [of k g] by (auto simp: update_conv' nth_append split: if_splits)
  qed (use D(1,2) assms(2) in \<open>simp_all add: map_of_eq_None_iff distinct_update\<close>)
qed

lemma inv_finish:
  assumes "flights_inv fs" "f < length (flight_heap fs)" "\<not> fdone (flight_heap fs ! f)"
  shows "flights_inv (runFlight_finish f res fs)"
proof -
  note D = flights_invD [OF assms(1)]
  let ?k = "fkey (flight_heap fs ! f)"
  let ?t = "if map_of (flight_table fs) ?k = Some f then AList.delete ?k (flight_table fs) else flight_table fs"
  let ?fs = "fs\<lparr>flight_table := ?t,
      flight_heap := (flight_heap fs)[f := (flight_heap fs ! f)\<lparr>fresult := Some res, fcancelled := True, fdone := True\<rparr>]\<rparr>"
  have eq: "runFlight_finish f res fs = ?fs" by (simp add: runFlight_finish_def unhook_def Let_def)
  have t: "map_of ?t k = Some g \<longleftrightarrow> map_of (flight_table fs) k = Some g \<and> g \<noteq> f" for k g
    by (rule unhook_table [OF assms(1)])
  show ?thesis unfolding eq
  proof (rule flights_invI)
    fix g assume "g < length (flight_heap ?fs)"
    then have "flight_ok fs g" using D(3) by simp
    then show "flight_ok ?fs g"
      using t [of "fkey (flight_heap fs ! g)" g] assms(2)
      by (cases "g = f") (simp_all add: flight_ok_def Let_def flight_live_def del: map_of_eq_Some_iff)
  next
    fix k g assume "map_of (flight_table ?fs) k = Some g"
    then have "map_of (flight_table fs) k = Some g" "g \<noteq> f" using t by simp_all
    with D(4) show "g < length (flight_heap ?fs) \<and> fkey (flight_heap ?fs ! g) = k" by simp
  qed (use D(1,2,5) in \<open>simp_all add: distinct_delete\<close>)
qed


lemma inv_receive: "flights_inv fs \<Longrightarrow> flights_inv (snd (joinFill_receive c fs))"
proof -
  assume inv: "flights_inv fs"
  note D = flights_invD [OF inv]
  show ?thesis
  proof (cases "\<exists>f. map_of (blocked fs) c = Some f \<and> fdone (flight_heap fs ! f)")
    case False
    then show ?thesis using inv by (auto simp: joinFill_receive_def split: option.split)
  next
    case True
    then obtain f where f: "map_of (blocked fs) c = Some f" "fdone (flight_heap fs ! f)" by blast
    let ?fs = "fs\<lparr>blocked := AList.delete c (blocked fs)\<rparr>"
    have eq: "snd (joinFill_receive c fs) = ?fs" using f by (simp add: joinFill_receive_def)
    show ?thesis unfolding eq
    proof (rule flights_invI)
      fix g assume "g < length (flight_heap ?fs)"
      then have "flight_ok fs g" using D(3) by simp
      then show "flight_ok ?fs g"
        using waiting_on_delete [OF D(2) f(1), of g] f(2) by (cases "g = f") (auto simp: flight_ok_def Let_def)
    next
      fix c' g assume "map_of (blocked ?fs) c' = Some g"
      then show "g < length (flight_heap ?fs)" using D(5) by (auto simp: delete_conv' split: if_splits)
    qed (use D(1,2,4) in \<open>simp_all add: distinct_delete\<close>)
  qed
qed

lemma inv_leave: "flights_inv fs \<Longrightarrow> flights_inv (joinFill_leave c fs)"
proof (cases "map_of (blocked fs) c")
  case None
  then show "flights_inv fs \<Longrightarrow> ?thesis" by (simp add: joinFill_leave_def)
next
  case (Some f)
  assume inv: "flights_inv fs"
  note D = flights_invD [OF inv]
  have f: "f < length (flight_heap fs)" using D(5) [OF Some] .
  let ?k = "fkey (flight_heap fs ! f)" and ?w = "waiters (flight_heap fs ! f) - 1"
  let ?h = "(flight_heap fs)[f := (flight_heap fs ! f)\<lparr>waiters := ?w, fcancelled := fcancelled (flight_heap fs ! f) \<or> ?w = 0\<rparr>]"
  let ?t = "if ?w = 0 \<and> map_of (flight_table fs) ?k = Some f then AList.delete ?k (flight_table fs) else flight_table fs"
  let ?fs = "fs\<lparr>flight_table := ?t, flight_heap := ?h, blocked := AList.delete c (blocked fs)\<rparr>"
  have eq: "joinFill_leave c fs = ?fs"
    using Some f by (auto simp: joinFill_leave_def unhook_def Let_def)
  have t: "map_of ?t k = Some g \<longleftrightarrow> map_of (flight_table fs) k = Some g \<and> (g \<noteq> f \<or> ?w \<noteq> 0)" for k g
    using unhook_table [OF inv, of f k g] by (cases "?w = 0") (simp_all del: map_of_eq_Some_iff)
  show ?thesis unfolding eq
  proof (rule flights_invI)
    fix g assume g: "g < length (flight_heap ?fs)"
    then have ok: "flight_ok fs g" using D(3) by simp
    have w: "waiting_on g (blocked fs) = (if g = f then 1 else 0) + waiting_on g (AList.delete c (blocked fs))"
      by (rule waiting_on_delete [OF D(2) Some])
    show "flight_ok ?fs g"
      using ok w f t [of "fkey (flight_heap fs ! g)" g]
      by (cases "g = f") (auto simp: flight_ok_def Let_def flight_live_def simp del: map_of_eq_Some_iff)
  next
    fix k g assume "map_of (flight_table ?fs) k = Some g"
    then have "map_of (flight_table fs) k = Some g" using t by simp
    with D(4) show "g < length (flight_heap ?fs) \<and> fkey (flight_heap ?fs ! g) = k" by (cases "g = f") auto
  next
    fix c' g assume "map_of (blocked ?fs) c' = Some g"
    then show "g < length (flight_heap ?fs)" using D(5) by (auto simp: delete_conv' split: if_splits)
  qed (use D(1,2) in \<open>simp_all add: distinct_delete\<close>)
qed

lemma flights_inv_reach: "flights_reach fs \<Longrightarrow> flights_inv fs"
proof (induction rule: flights_reach.induct)
  case flights_new
  show ?case by (simp add: flights_inv_def no_flights_def)
next
  case (flights_enter fs c key)
  then show ?case by (cases "map_of (flight_table fs) key") (simp_all add: inv_enter_join inv_enter_new)
qed (simp_all add: inv_leave inv_receive inv_finish)

section \<open>Properties\<close>

text \<open>\<^verbatim>\<open>GetOrSet\<close> on the in-memory cache always returns. A hit gives the cached value without calling the loader.
  A miss calls it once: its value is returned even when the entry is gone again at the read-back, an
  error of it is returned as it is, and a failed or abandoned load leaves what every key reads as it was;
  with a negative lifetime the miss is reported.\<close>

lemma GetOrSet_memory:
  assumes "cache_inv mc" "t1 \<le> t2"
  shows "case GetOrSet cache_Get cache_Set (t1, t2, t3, t4) key ttl abandoned loader mc of
      None \<Rightarrow> False
    | Some (r, called, mc') \<Rightarrow> cache_inv mc'
        \<and> (case cache_lookup mc t1 key of
             Some d \<Rightarrow> r = Inr d \<and> \<not> called
           | None \<Rightarrow> called
               \<and> (case loader of
                    Inr (Some d) \<Rightarrow>
                      if abandoned then (\<exists>e. r = Inl e) \<and> (t2 \<le> t \<longrightarrow> cache_lookup mc' t k = cache_lookup mc t k)
                      else r = (if 0 \<le> ttl then Inr d else Inl (CacheErr ErrCacheMiss))
                  | Inr None \<Rightarrow> (\<exists>e. r = Inl e) \<and> (t2 \<le> t \<longrightarrow> cache_lookup mc' t k = cache_lookup mc t k)
                  | Inl e \<Rightarrow> r = Inl (LoaderErr e) \<and> (t2 \<le> t \<longrightarrow> cache_lookup mc' t k = cache_lookup mc t k)))"
proof (cases "cache_lookup mc t1 key")
  case (Some d)
  with memory.hit [OF assms(1) Some, of t2 t3 t4 ttl abandoned loader] show ?thesis by auto
next
  case None
  note L = memory.loaded [OF assms(1) None assms(2)] and N = memory.not_loaded [OF assms(1) None assms(2)]
  show ?thesis
  proof (cases "\<exists>d. loader = Inr (Some d) \<and> \<not> abandoned")
    case True
    then obtain d where d: "loader = Inr (Some d)" "\<not> abandoned" by blast
    from L [of t3 t4 ttl d] obtain mc' where
      "GetOrSet cache_Get cache_Set (t1, t2, t3, t4) key ttl abandoned loader mc
       = Some (if 0 \<le> ttl then Inr d else Inl (CacheErr ErrCacheMiss), True, mc')" "cache_inv mc'"
      unfolding d(1) using d(2) by auto
    then show ?thesis by (simp add: None d)
  next
    case False
    define e where "e = projl loader"
    have e: "loader = Inl e \<or> abandoned \<or> loader = Inr None"
      using False by (cases loader) (auto simp: e_def)
    from N [OF e, of t3 t4 ttl] obtain mc' err where
      eq: "GetOrSet cache_Get cache_Set (t1, t2, t3, t4) key ttl abandoned loader mc = Some (Inl err, True, mc')" "cache_inv mc'"
        "loader = Inl e \<longrightarrow> err = LoaderErr e" "\<forall>k t. t2 \<le> t \<longrightarrow> cache_lookup mc' t k = cache_lookup mc t k"
      by blast
    show ?thesis
    proof (cases loader)
      case (Inl x)
      then show ?thesis using eq by (simp add: None e_def)
    next
      case (Inr v)
      then show ?thesis using eq False by (cases v) (simp_all add: None)
    qed
  qed
qed

text \<open>C10. A caller that waits on a shared fill is never left with a cancelled one: whatever the other callers do,
  a fill is cancelled before it is done only when nobody waits on it, a caller that arrives joins only a
  live fill, and at most one live fill of a key exists.\<close>

theorem shared_fill_safe:
  assumes "flights_reach fs" "map_of (blocked fs) c = Some f"
  shows "f < length (flight_heap fs) \<and> (fdone (flight_heap fs ! f) \<or> \<not> fcancelled (flight_heap fs ! f))
    \<and> (case map_of (flight_table fs) key of
         None \<Rightarrow> list_all (\<lambda>fl. fkey fl = key \<longrightarrow> \<not> flight_live fl) (flight_heap fs)
       | Some g \<Rightarrow> flight_live (flight_heap fs ! g)
           \<and> list_all (\<lambda>h. flight_live (flight_heap fs ! h) \<and> fkey (flight_heap fs ! h) = key \<longrightarrow> h = g) [0..<length (flight_heap fs)])"
proof -
  note inv = flights_inv_reach [OF assms(1)]
  note D = flights_invD [OF inv]
  have f: "f < length (flight_heap fs)" by (rule D(5) [OF assms(2)])
  have "waiting_on f (blocked fs) \<noteq> 0"
    using waiting_on_delete [OF D(2) assms(2), of f] by simp
  with D(3) [OF f] have safe: "fdone (flight_heap fs ! f) \<or> \<not> fcancelled (flight_heap fs ! f)"
    by (auto simp: flight_ok_def Let_def)
  have live: "flight_live (flight_heap fs ! h) \<longleftrightarrow> map_of (flight_table fs) (fkey (flight_heap fs ! h)) = Some h"
    if "h < length (flight_heap fs)" for h
    using D(3) [OF that] by (simp add: flight_ok_def Let_def)
  show ?thesis
  proof (cases "map_of (flight_table fs) key")
    case None
    then have "list_all (\<lambda>fl. fkey fl = key \<longrightarrow> \<not> flight_live fl) (flight_heap fs)"
      using live by (auto simp: list_all_length)
    with f safe None show ?thesis by simp
  next
    case (Some g)
    then have g: "g < length (flight_heap fs)" "fkey (flight_heap fs ! g) = key" using D(4) by blast+
    have "list_all (\<lambda>h. flight_live (flight_heap fs ! h) \<and> fkey (flight_heap fs ! h) = key \<longrightarrow> h = g) [0..<length (flight_heap fs)]"
      using live Some by (auto simp: list_all_iff simp del: map_of_eq_Some_iff)
    with f safe Some live [OF g(1)] g(2) show ?thesis by simp
  qed
qed


section \<open>Examples\<close>

definition example_flights :: flights where
  "example_flights = joinFill_leave 1 (joinFill_enter 2 ''k'' (joinFill_enter 1 ''k'' no_flights))"

lemma GetOrSet_memory_witness:
  "case GetOrSet cache_Get cache_Set (1, 2, 3, 4) ''b'' 5 False (Inr (Some ''v'') :: string + string option) example_filled of
     None \<Rightarrow> False | Some (r, called, mc') \<Rightarrow> r = Inr ''v'' \<and> called"
proof -
  have miss: "cache_lookup example_filled 1 ''b'' = None"
    by (simp add: cache_lookup_def example_abs(2))
      (simp add: example_filled_def example_cache_def NewMemoryCache_def applyOptions_def PushFront_def)
  from GetOrSet_memory [OF example_cache_inv(2), where ?t1.0 = 1 and ?t2.0 = 2 and ?t3.0 = 3 and ?t4.0 = 4 and key = "''b''" and ttl = 5
      and abandoned = False and loader = "Inr (Some ''v'') :: string + string option" and t = 9 and k = "''a''"] miss
  show ?thesis by (auto split: option.splits)
qed

theorem shared_fill_safe_witness: "\<not> fcancelled (flight_heap example_flights ! 0) \<and> flight_live (flight_heap example_flights ! 0)"
proof -
  have "flights_reach example_flights"
    unfolding example_flights_def
    by (intro flights_leave flights_enter flights_new) (simp_all add: joinFill_enter_def no_flights_def Let_def)
  moreover have b: "map_of (blocked example_flights) 2 = Some 0" and t: "map_of (flight_table example_flights) ''k'' = Some 0"
    and d: "\<not> fdone (flight_heap example_flights ! 0)"
    by code_simp+
  ultimately show ?thesis using shared_fill_safe [of example_flights 2 0 "''k''"] by simp
qed

end
