(* ===== verification/Cron.thy ===== *)
theory Cron
  imports GoStrconv "HOL-Library.Word"
begin

text \<open>
  Cron expressions and their firing times: the parser of \<^verbatim>\<open>framework/cron/cron.go\<close>, the search of
  \<^verbatim>\<open>framework/cron/next.go\<close> and the daylight-saving rules of \<^verbatim>\<open>framework/cron/dst.go\<close>.

  An instant is a Go time. What a clock on the wall shows at an instant is again a number of
  nanoseconds, the instant plus its zone's offset, counted from the first midnight of the year 1; the
  calendar fields the code reads (\<^verbatim>\<open>Minute\<close>, \<^verbatim>\<open>Hour\<close>, \<^verbatim>\<open>Day\<close>, \<^verbatim>\<open>Month\<close>, \<^verbatim>\<open>Weekday\<close>) are functions of it. A
  zone is its table of offsets (seconds east of UTC) and period starts, an argument.
\<close>

unbundle bit_operations_syntax

section \<open>The calendar\<close>

definition minute_ns :: int where "minute_ns = 60 * second"
definition hour_ns :: int where "hour_ns = 60 * minute_ns"
definition day_ns :: int where "day_ns = 24 * hour_ns"

definition wall_Minute :: "int \<Rightarrow> int" where "wall_Minute w = w mod hour_ns div minute_ns"
definition wall_Hour :: "int \<Rightarrow> int" where "wall_Hour w = w mod day_ns div hour_ns"
definition wall_Weekday :: "int \<Rightarrow> int" where "wall_Weekday w = (w div day_ns + 1) mod 7"

definition month_len :: "bool \<Rightarrow> int \<Rightarrow> int" where
  "month_len leap m = (if m = 2 then (if leap then 29 else 28) else if m \<in> {4, 6, 9, 11} then 30 else 31)"

text \<open>The month and day of the day number \<open>n\<close> of a year, counting from 0.\<close>

fun month_walk :: "bool \<Rightarrow> int list \<Rightarrow> int \<Rightarrow> int \<times> int" where
  "month_walk leap [] n = (12, n + 1)"
| "month_walk leap [m] n = (m, n + 1)"
| "month_walk leap (m # m' # ms) n =
     (if n < month_len leap m then (m, n + 1) else month_walk leap (m' # ms) (n - month_len leap m))"

text \<open>Year, whether it is a leap year, and day of the year of a day number, from the 400-, 100-, 4- and 1-year
  cycles that start with the year 1.\<close>

definition year_day :: "int \<Rightarrow> int \<times> bool \<times> int" where
  "year_day n =
     (let n400 = n div 146097; r400 = n mod 146097;
          n100 = min 3 (r400 div 36524); r100 = r400 - n100 * 36524;
          n4 = r100 div 1461; r4 = r100 mod 1461;
          n1 = min 3 (r4 div 365)
      in (400 * n400 + 100 * n100 + 4 * n4 + n1 + 1, n1 = 3 \<and> (n4 \<noteq> 24 \<or> n100 = 3), r4 - n1 * 365))"

definition wall_Date :: "int \<Rightarrow> int \<times> int \<times> int" where
  "wall_Date w = (case year_day (w div day_ns) of (y, leap, n) \<Rightarrow> (y, month_walk leap [1..12] n))"

definition wall_Month :: "int \<Rightarrow> int" where "wall_Month w = fst (snd (wall_Date w))"
definition wall_Day :: "int \<Rightarrow> int" where "wall_Day w = snd (snd (wall_Date w))"

definition days_before_year :: "int \<Rightarrow> int" where
  "days_before_year y = 365 * (y - 1) + (y - 1) div 4 - (y - 1) div 100 + (y - 1) div 400"

definition is_leap :: "int \<Rightarrow> bool" where
  "is_leap y \<longleftrightarrow> y mod 4 = 0 \<and> (y mod 100 \<noteq> 0 \<or> y mod 400 = 0)"

definition AddYears :: "int \<Rightarrow> int \<Rightarrow> int" where
  "AddYears years w =
     (case wall_Date w of (y, m, d) \<Rightarrow>
        (days_before_year (y + years) + sum_list (map (month_len (is_leap (y + years))) [1..m - 1]) + d - 1) * day_ns
        + w mod day_ns)"

section \<open>Parsing\<close>

datatype cron_error =
    BadStep string | BadRange string | BadValue string | OutOfRange int int int int
  | FieldCount nat | InField string cron_error

fun fields_acc :: "string list \<Rightarrow> string \<Rightarrow> string list" where
  "fields_acc [] w = (if w = [] then [] else [w])"
| "fields_acc (u # us) w =
     (if is_space_unit u then (if w = [] then fields_acc us [] else w # fields_acc us []) else fields_acc us (w @ u))"

definition Fields :: "string \<Rightarrow> string list" where
  "Fields s = fields_acc (utf8_units s) []"

text \<open>The loop of \<^verbatim>\<open>parseFieldPart\<close>. It is called with a positive step only.\<close>

function mask_loop :: "int \<Rightarrow> int \<Rightarrow> int \<Rightarrow> 64 word \<Rightarrow> 64 word" where
  "mask_loop i hi step msk =
     (if i \<le> hi then
        let msk' = msk OR push_bit (nat i) 1
        in if step > hi - i \<or> step \<le> 0 then msk' else mask_loop (i + step) hi step msk'
      else msk)"
  by pat_completeness auto
termination by (relation "measure (\<lambda>(i, hi, step, msk). nat (hi - i + 1))") auto

declare mask_loop.simps [simp del]

definition part_range :: "string \<Rightarrow> bool \<Rightarrow> int \<Rightarrow> int \<Rightarrow> cron_error + int \<times> int" where
  "part_range part stepped mn mx =
     (if part = ''*'' then Inr (mn, mx)
      else case index_str part ''-'' of
        Some i \<Rightarrow>
          (case (Atoi (take i part), Atoi (drop (i + 1) part)) of
             (Some a, Some b) \<Rightarrow> Inr (a, b)
           | _ \<Rightarrow> Inl (BadRange part))
      | None \<Rightarrow>
          (case Atoi part of
             None \<Rightarrow> Inl (BadValue part)
           | Some n \<Rightarrow> Inr (n, if stepped then mx else n)))"

definition part_mask :: "int \<Rightarrow> int \<Rightarrow> int \<Rightarrow> int \<Rightarrow> int \<Rightarrow> cron_error + 64 word" where
  "part_mask lo hi step mn mx =
     (if lo < mn \<or> hi > mx \<or> lo > hi then Inl (OutOfRange lo hi mn mx) else Inr (mask_loop lo hi step 0))"

definition parseFieldPart :: "string \<Rightarrow> int \<Rightarrow> int \<Rightarrow> cron_error + 64 word" where
  "parseFieldPart part mn mx =
     (case index_str part ''/'' of
        None \<Rightarrow>
          (case part_range part False mn mx of Inl e \<Rightarrow> Inl e | Inr (lo, hi) \<Rightarrow> part_mask lo hi 1 mn mx)
      | Some idx \<Rightarrow>
          (case Atoi (drop (idx + 1) part) of
             None \<Rightarrow> Inl (BadStep (drop (idx + 1) part))
           | Some s \<Rightarrow>
               if s \<le> 0 then Inl (BadStep (drop (idx + 1) part))
               else (case part_range (take idx part) True mn mx of
                       Inl e \<Rightarrow> Inl e | Inr (lo, hi) \<Rightarrow> part_mask lo hi s mn mx)))"

fun parse_parts :: "string list \<Rightarrow> int \<Rightarrow> int \<Rightarrow> 64 word \<Rightarrow> cron_error + 64 word" where
  "parse_parts [] mn mx msk = Inr msk"
| "parse_parts (p # ps) mn mx msk =
     (case parseFieldPart p mn mx of Inl e \<Rightarrow> Inl e | Inr m \<Rightarrow> parse_parts ps mn mx (msk OR m))"

definition parseField :: "string \<Rightarrow> int \<Rightarrow> int \<Rightarrow> cron_error + 64 word" where
  "parseField s mn mx = parse_parts (split_on CHR '','' s) mn mx 0"

record cronExpr =
  minute :: "64 word"
  hour :: "64 word"
  dom :: "64 word"
  month :: "64 word"
  dow :: "64 word"
  domAny :: bool
  dowAny :: bool
  minuteAny :: bool
  hourAny :: bool

definition in_field :: "string \<Rightarrow> cron_error + 'a \<Rightarrow> ('a \<Rightarrow> cron_error + 'b) \<Rightarrow> cron_error + 'b" where
  "in_field name r k = (case r of Inl e \<Rightarrow> Inl (InField name e) | Inr x \<Rightarrow> k x)"

definition parse_five :: "string \<Rightarrow> cron_error + cronExpr" where
  "parse_five spec =
     (case Fields (trim_space spec) of
        [f0, f1, f2, f3, f4] \<Rightarrow>
          in_field ''minute'' (parseField f0 0 59) (\<lambda>mi.
          in_field ''hour'' (parseField f1 0 23) (\<lambda>h.
          in_field ''day-of-month'' (parseField f2 1 31) (\<lambda>d.
          in_field ''month'' (parseField f3 1 12) (\<lambda>mo.
          in_field ''day-of-week'' (parseField f4 0 6) (\<lambda>w.
            Inr \<lparr>minute = mi, hour = h, dom = d, month = mo, dow = w, domAny = has_prefix f2 ''*'',
                 dowAny = has_prefix f4 ''*'', minuteAny = has_prefix f0 ''*'', hourAny = has_prefix f1 ''*''\<rparr>)))))
      | fs \<Rightarrow> Inl (FieldCount (length fs)))"

definition ParseCron :: "string \<Rightarrow> cron_error + cronExpr" where
  "ParseCron spec0 =
     (let spec = trim_space spec0 in
      if spec = ''@hourly'' then parse_five ''0 * * * *''
      else if spec = ''@daily'' \<or> spec = ''@midnight'' then parse_five ''0 0 * * *''
      else if spec = ''@weekly'' then parse_five ''0 0 * * 0''
      else if spec = ''@monthly'' then parse_five ''0 0 1 * *''
      else if spec = ''@yearly'' \<or> spec = ''@annually'' then parse_five ''0 0 1 1 *''
      else parse_five spec)"

section \<open>Matching\<close>

definition mask_has :: "64 word \<Rightarrow> int \<Rightarrow> bool" where
  "mask_has msk v \<longleftrightarrow> msk AND push_bit (nat v) 1 \<noteq> 0"

definition matchesDay :: "cronExpr \<Rightarrow> int \<Rightarrow> bool" where
  "matchesDay e w =
     (let domMatch = mask_has (dom e) (wall_Day w);
          dowMatch = mask_has (dow e) (wall_Weekday w);
          dayMatch = (if \<not> domAny e \<and> \<not> dowAny e then domMatch \<or> dowMatch else domMatch \<and> dowMatch)
      in dayMatch \<and> mask_has (month e) (wall_Month w))"

definition matches :: "cronExpr \<Rightarrow> int \<Rightarrow> bool" where
  "matches e w \<longleftrightarrow> mask_has (minute e) (wall_Minute w) \<and> mask_has (hour e) (wall_Hour w) \<and> matchesDay e w"

definition satisfiable :: "cronExpr \<Rightarrow> bool" where
  "satisfiable e =
     (if month e = 0 \<or> dow e = 0 then False
      else if \<not> domAny e \<and> \<not> dowAny e then True
      else list_ex (\<lambda>m. mask_has (month e) m \<and> dom e AND (push_bit (nat (month_len True m + 1)) 1 - 1) \<noteq> 0) [1..12])"

definition FixedTime :: "cronExpr \<Rightarrow> bool" where
  "FixedTime e \<longleftrightarrow> \<not> minuteAny e \<and> \<not> hourAny e"

section \<open>The next firing\<close>

record zone =
  offset_at :: "gotime \<Rightarrow> int"
  period_start :: "gotime \<Rightarrow> gotime"

definition wall :: "zone \<Rightarrow> gotime \<Rightarrow> int" where
  "wall z t = t + offset_at z t * second"

text \<open>\<^verbatim>\<open>time.Date\<close> of a wall-clock reading: the offset is looked up as if the reading were UTC, and once more at
  the instant that offset gives.\<close>

definition time_Date :: "zone \<Rightarrow> int \<Rightarrow> gotime" where
  "time_Date z w =
     (let off = offset_at z w in
      if off = 0 then w else w - offset_at z (w - off * second) * second)"

definition HorizonYears :: int where "HorizonYears = 401"

text \<open>The date read off \<open>t\<close> at 21:00 reads, on the wall, as that date's midnight and 21 hours.\<close>

definition SkipDay :: "cronExpr \<Rightarrow> zone \<Rightarrow> gotime \<Rightarrow> gotime" where
  "SkipDay e z t =
     (let j = time_Date z (wall z t div day_ns * day_ns + 21 * hour_ns)
      in if \<not> matchesDay e (wall z t) \<and> j > t then j else t + minute_ns)"

lemma SkipDay_later: "t < SkipDay e z t"
  by (simp add: SkipDay_def minute_ns_def second_def Let_def)

function next_loop :: "cronExpr \<Rightarrow> zone \<Rightarrow> gotime \<Rightarrow> gotime \<Rightarrow> gotime option" where
  "next_loop e z t stop =
     (if t < stop then (if matches e (wall z t) then Some t else next_loop e z (SkipDay e z t) stop) else None)"
  by pat_completeness auto
termination by (relation "measure (\<lambda>(e, z, t, stop). nat (stop - t))") (auto simp: SkipDay_later)

declare next_loop.simps [simp del]

text \<open>The first whole minute after an instant, and the end of the search that starts there.\<close>

definition next_minute :: "gotime \<Rightarrow> gotime" where
  "next_minute t = t div minute_ns * minute_ns + minute_ns"

definition horizon :: "zone \<Rightarrow> gotime \<Rightarrow> gotime" where
  "horizon z t = time_Date z (AddYears HorizonYears (wall z t))"

text \<open>\<^term>\<open>None\<close> is the zero time \<^verbatim>\<open>Next\<close> returns for a spec that never fires.\<close>

definition Next :: "cronExpr \<Rightarrow> zone \<Rightarrow> gotime \<Rightarrow> gotime option" where
  "Next e z after =
     (if \<not> satisfiable e then None
      else let t = next_minute after in next_loop e z t (horizon z t))"

section \<open>Daylight saving\<close>

definition fallBackRepeat :: "zone \<Rightarrow> gotime \<Rightarrow> bool" where
  "fallBackRepeat z t =
     (let start = period_start z t in
      if start = 0 then False
      else let back = (offset_at z (start - 1) - offset_at z t) * second in back > 0 \<and> t < start + back)"

fun gap_walk :: "cronExpr \<Rightarrow> int \<Rightarrow> int \<Rightarrow> nat \<Rightarrow> bool" where
  "gap_walk e start stop 0 = False"
| "gap_walk e start stop (Suc n) =
     (if \<not> start < stop then False
      else if matches e start then True
      else gap_walk e (start + minute_ns) stop n)"

definition skippedMatchInGap :: "cronExpr \<Rightarrow> zone \<Rightarrow> gotime \<Rightarrow> gotime \<Rightarrow> bool" where
  "skippedMatchInGap e z a b =
     (if offset_at z b \<le> offset_at z a then False
      else gap_walk e (wall z a div minute_ns * minute_ns + minute_ns) (wall z b div minute_ns * minute_ns) 120)"

definition FiresAt :: "cronExpr \<Rightarrow> zone \<Rightarrow> gotime \<Rightarrow> gotime \<Rightarrow> bool" where
  "FiresAt e z prev t =
     (if \<not> FixedTime e then matches e (wall z t)
      else if \<not> matches e (wall z t) \<and> \<not> skippedMatchInGap e z prev t then False
      else \<not> fallBackRepeat z t)"

section \<open>Masks\<close>

lemma mask_has_bit: "mask_has m v \<longleftrightarrow> bit m (nat v)"
  unfolding mask_has_def push_bit_of_1 using and_exp_eq_0_iff_not_bit [of m "nat v"] by blast

lemma bit_two_power: "bit (2 ^ n :: 64 word) v \<longleftrightarrow> v = n \<and> n < 64"
  by (auto simp: bit_exp_iff possible_bit_word)

lemma mask_loop_bits:
  assumes "0 \<le> i" "0 < step" "hi < 64" "0 \<le> v"
  shows "mask_has (mask_loop i hi step m) v \<longleftrightarrow> mask_has m v \<or> i \<le> v \<and> v \<le> hi \<and> step dvd v - i"
  using assms(1,2,3)
proof (induction i hi step m rule: mask_loop.induct)
  case (1 i hi step m)
  show ?case
  proof (cases "i \<le> hi")
    case False
    then show ?thesis by (auto simp: mask_loop.simps [of i])
  next
    case True
    let ?m = "m OR push_bit (nat i) 1"
    have m: "mask_has ?m v \<longleftrightarrow> mask_has m v \<or> v = i"
      using "1.prems" True assms(4) by (auto simp: mask_has_bit bit_or_iff bit_two_power)
    have small: "step dvd v - i \<Longrightarrow> i \<le> v \<Longrightarrow> v = i \<or> i + step \<le> v"
      using zdvd_imp_le [of step "v - i"] by linarith
    show ?thesis
    proof (cases "step > hi - i")
      case step: True
      then have "mask_loop i hi step m = ?m" using True by (simp add: mask_loop.simps [of i])
      then show ?thesis using m small step True by auto
    next
      case step: False
      have eq: "mask_loop i hi step m = mask_loop (i + step) hi step ?m"
        using True step "1.prems" by (subst mask_loop.simps) simp
      have IH: "mask_has (mask_loop (i + step) hi step ?m) v
          \<longleftrightarrow> mask_has ?m v \<or> i + step \<le> v \<and> v \<le> hi \<and> step dvd v - (i + step)"
        using "1.IH" [OF True refl] step "1.prems" by simp
      have "step dvd v - (i + step) \<longleftrightarrow> step dvd v - i"
        by (metis diff_diff_eq dvd_diff_commute dvd_minus_add dvd_refl zdvd_zdiffD dvd_diff diff_add_cancel)
      then show ?thesis unfolding eq IH m using small "1.prems" True step by auto
    qed
  qed
qed

lemma part_mask_ok:
  assumes "part_mask lo hi step mn mx = Inr m" "0 \<le> mn" "mx < 64" "0 < step"
  shows "mn \<le> lo \<and> lo \<le> hi \<and> hi \<le> mx \<and> (\<forall>v\<ge>0. mask_has m v \<longleftrightarrow> lo \<le> v \<and> v \<le> hi \<and> step dvd v - lo)"
  using assms mask_loop_bits [of lo step hi _ 0]
  by (auto simp: part_mask_def mask_has_def split: if_splits)

lemma parseFieldPart_cases:
  assumes "parseFieldPart part mn mx = Inr m"
  obtains lo hi step where "part_mask lo hi step mn mx = Inr m" "0 < step"
  using assms by (auto simp: parseFieldPart_def split: option.splits sum.splits if_splits)

text \<open>What a parsed field can hold.\<close>

definition field_mask_ok :: "int \<Rightarrow> int \<Rightarrow> 64 word \<Rightarrow> bool" where
  "field_mask_ok mn mx m \<longleftrightarrow> m \<noteq> 0 \<and> (\<forall>v\<ge>0. mask_has m v \<longrightarrow> mn \<le> v \<and> v \<le> mx)"

lemma parseFieldPart_ok:
  assumes "parseFieldPart part mn mx = Inr m" "0 \<le> mn" "mx < 64"
  shows "field_mask_ok mn mx m"
proof -
  from parseFieldPart_cases [OF assms(1)] obtain lo hi step where
    "part_mask lo hi step mn mx = Inr m" "0 < step" by metis
  from part_mask_ok [OF this(1) assms(2,3) this(2)] have P: "mn \<le> lo" "lo \<le> hi" "hi \<le> mx"
    "\<And>v. 0 \<le> v \<Longrightarrow> mask_has m v \<longleftrightarrow> lo \<le> v \<and> v \<le> hi \<and> step dvd v - lo" by auto
  have "mask_has m lo" using P assms(2) by simp
  then have "m \<noteq> 0" by (auto simp: mask_has_def)
  with P show ?thesis by (auto simp: field_mask_ok_def)
qed

lemma field_mask_or: "field_mask_ok mn mx m \<Longrightarrow> field_mask_ok mn mx m' \<or> m' = 0 \<Longrightarrow> field_mask_ok mn mx (m' OR m)"
  by (auto simp: field_mask_ok_def mask_has_bit bit_or_iff or_eq_0_iff)

lemma parse_parts_ok:
  "parse_parts ps mn mx acc = Inr m \<Longrightarrow> field_mask_ok mn mx acc \<or> acc = 0 \<and> ps \<noteq> [] \<Longrightarrow> 0 \<le> mn \<Longrightarrow> mx < 64 \<Longrightarrow> field_mask_ok mn mx m"
proof (induction ps arbitrary: acc)
  case (Cons p ps)
  from Cons.prems(1) obtain mp where mp: "parseFieldPart p mn mx = Inr mp" "parse_parts ps mn mx (acc OR mp) = Inr m"
    by (auto split: sum.splits)
  have "field_mask_ok mn mx (acc OR mp)"
    using parseFieldPart_ok [OF mp(1)] Cons.prems by (intro field_mask_or) auto
  with Cons.IH [OF mp(2)] Cons.prems show ?case by blast
qed simp

lemma parseField_ok: "parseField s mn mx = Inr m \<Longrightarrow> 0 \<le> mn \<Longrightarrow> mx < 64 \<Longrightarrow> field_mask_ok mn mx m"
  unfolding parseField_def by (erule parse_parts_ok) auto

section \<open>Printed fields\<close>

lemma parse_printed:
  assumes "mn \<le> int lo" "lo \<le> hi" "int hi \<le> mx" "mx < 64" "0 < st" "int st \<le> maxInt64"
  shows "parseFieldPart (show_nat lo @ ''-'' @ show_nat hi @ ''/'' @ show_nat st) mn mx = Inr (mask_loop (int lo) (int hi) (int st) 0)"
proof -
  let ?r = "show_nat lo @ ''-'' @ show_nat hi"
  have slash: "index_str (?r @ CHR ''/'' # show_nat st) ''/'' = Some (length ?r)"
    by (rule index_str_char) (auto simp: show_nat_char)
  have dash: "index_str ?r ''-'' = Some (length (show_nat lo))"
    using index_str_char(1) [of "CHR ''-''" "show_nat lo" "show_nat hi"] by (simp add: show_nat_char)
  have star: "?r \<noteq> ''*''" by (cases "show_nat lo") auto
  have "int lo \<le> maxInt64" "int hi \<le> maxInt64" using assms by (auto simp: maxInt64_def)
  then have range: "part_range ?r True mn mx = Inr (int lo, int hi)"
    unfolding part_range_def dash using star by (simp add: Atoi_show_nat)
  show ?thesis
    using slash range assms by (simp add: parseFieldPart_def Atoi_show_nat part_mask_def)
qed

section \<open>Properties\<close>

text \<open>A cron field means what it says. The printed form \<open>lo-hi/step\<close> of any range inside a field's bounds, with any
  positive step that fits Go's \<^verbatim>\<open>int\<close>, parses to the set of the values \<open>lo\<close>, \<open>lo + step\<close>, \<open>\<dots>\<close> up to \<open>hi\<close>, with no
  value added by overflow; \<^verbatim>\<open>*\<close> parses to every value; and no text at all parses to an empty set or to a
  value outside the bounds.\<close>

lemma cron_field_exact:
  assumes "0 \<le> mn" "mn \<le> int lo" "lo \<le> hi" "int hi \<le> mx" "mx < 64" "0 < st" "int st \<le> maxInt64" "0 \<le> v"
  shows "(case parseFieldPart (show_nat lo @ ''-'' @ show_nat hi @ ''/'' @ show_nat st) mn mx of
        Inl _ \<Rightarrow> False
      | Inr m \<Rightarrow> mask_has m v \<longleftrightarrow> int lo \<le> v \<and> v \<le> int hi \<and> int st dvd v - int lo)
    \<and> (case parseFieldPart ''*'' mn mx of Inl _ \<Rightarrow> False | Inr m \<Rightarrow> mask_has m v \<longleftrightarrow> mn \<le> v \<and> v \<le> mx)
    \<and> (case parseField s mn mx of Inl _ \<Rightarrow> True | Inr m \<Rightarrow> m \<noteq> 0 \<and> (mask_has m v \<longrightarrow> mn \<le> v \<and> v \<le> mx))"
proof -
  have "mask_has (mask_loop (int lo) (int hi) (int st) 0) v \<longleftrightarrow> int lo \<le> v \<and> v \<le> int hi \<and> int st dvd v - int lo"
    using mask_loop_bits [of "int lo" "int st" "int hi" v 0] assms by (simp add: mask_has_def)
  moreover have "parseFieldPart ''*'' mn mx = Inr (mask_loop mn mx 1 0)"
    using assms by (simp add: parseFieldPart_def part_range_def part_mask_def has_prefix_def)
  moreover have "mask_has (mask_loop mn mx 1 0) v \<longleftrightarrow> mn \<le> v \<and> v \<le> mx"
    using mask_loop_bits [of mn 1 mx v 0] assms by (simp add: mask_has_def)
  moreover have "case parseField s mn mx of Inl _ \<Rightarrow> True | Inr m \<Rightarrow> m \<noteq> 0 \<and> (mask_has m v \<longrightarrow> mn \<le> v \<and> v \<le> mx)"
    using parseField_ok [of s mn mx] assms by (auto simp: field_mask_ok_def split: sum.splits)
  ultimately show ?thesis using parse_printed [OF assms(2-7)] by simp
qed

section \<open>The search\<close>

lemma pos_units: "0 < minute_ns" "0 < hour_ns" "0 < day_ns" "0 < second"
  by (simp_all add: minute_ns_def hour_ns_def day_ns_def second_def)

lemma matchesDay_day: "w div day_ns = w' div day_ns \<Longrightarrow> matchesDay e w = matchesDay e w'"
  by (simp add: matchesDay_def wall_Day_def wall_Month_def wall_Date_def wall_Weekday_def)

text \<open>
  What the search needs of a zone, from the instant \<open>from\<close> on: offsets of whole minutes and less than a
  day; any two instants at most three days apart differ in offset by less than three hours; and the date
  on the wall never runs backwards (a clock may be set back, but not over midnight into the date before).
\<close>

definition zone_ok :: "zone \<Rightarrow> gotime \<Rightarrow> bool" where
  "zone_ok z from \<longleftrightarrow>
     (\<forall>x\<ge>from. offset_at z x mod 60 = 0 \<and> \<bar>offset_at z x\<bar> \<le> 86400)
     \<and> (\<forall>x\<ge>from. \<forall>y. x \<le> y \<and> y \<le> x + 3 * day_ns \<longrightarrow> \<bar>offset_at z x - offset_at z y\<bar> < 10800)
     \<and> (\<forall>x\<ge>from. \<forall>y\<ge>x. wall z x div day_ns \<le> wall z y div day_ns)"

lemma zone_okD:
  assumes "zone_ok z from" "from \<le> x"
  shows "offset_at z x mod 60 = 0" "\<bar>offset_at z x\<bar> \<le> 86400"
    "from \<le> y \<Longrightarrow> \<bar>x - y\<bar> \<le> 3 * day_ns \<Longrightarrow> \<bar>offset_at z x - offset_at z y\<bar> < 10800"
    "x \<le> y \<Longrightarrow> wall z x div day_ns \<le> wall z y div day_ns"
proof -
  show "offset_at z x mod 60 = 0" "\<bar>offset_at z x\<bar> \<le> 86400"
    "x \<le> y \<Longrightarrow> wall z x div day_ns \<le> wall z y div day_ns"
    using assms by (auto simp: zone_ok_def)
  have near: "\<bar>offset_at z u - offset_at z v\<bar> < 10800" if "from \<le> u" "u \<le> v" "v \<le> u + 3 * day_ns" for u v
    using assms(1) that by (auto simp: zone_ok_def)
  show "from \<le> y \<Longrightarrow> \<bar>x - y\<bar> \<le> 3 * day_ns \<Longrightarrow> \<bar>offset_at z x - offset_at z y\<bar> < 10800"
    using near [of x y] near [of y x] assms(2) by linarith
qed

lemma time_Date_eq: "time_Date z w = w - offset_at z (w - offset_at z w * second) * second"
  by (simp add: time_Date_def Let_def)

lemma units_second: "minute_ns = 60 * second" "hour_ns = 3600 * second" "day_ns = 86400 * second" "second = 1000000000"
  by (simp_all add: day_ns_def hour_ns_def minute_ns_def second_def)

text \<open>A jump stays within the date it started from.\<close>

lemma SkipDay_same_date:
  assumes z: "zone_ok z from" and t: "from + 3 * day_ns \<le> t"
    and x: "t < x" "x < SkipDay e z t" and jump: "SkipDay e z t \<noteq> t + minute_ns"
  shows "wall z x div day_ns = wall z t div day_ns"
proof (rule antisym)
  define D where "D = wall z t div day_ns"
  define L where "L = D * day_ns + 21 * hour_ns"
  define p where "p = L - offset_at z L * second"
  have j: "SkipDay e z t = L - offset_at z p * second"
    using jump by (auto simp: SkipDay_def Let_def time_Date_eq L_def D_def p_def split: if_splits)
  have w: "D * day_ns \<le> wall z t" "wall z t < D * day_ns + day_ns"
    using div_mult_mod_eq [of "wall z t" day_ns] pos_mod_bound [of day_ns "wall z t"] pos_mod_sign [of day_ns "wall z t"]
      pos_units(3) unfolding D_def by linarith+
  have t0: "from \<le> t" using t pos_units(3) by linarith
  note ot = zone_okD(2) [OF z t0]
  have "from \<le> L" using w t ot unfolding L_def wall_def units_second by linarith
  note oL = zone_okD(2) [OF z this]
  have p: "from \<le> p" using w t ot oL unfolding p_def L_def wall_def units_second by linarith
  note op = zone_okD(2) [OF z p]
  have "\<bar>p - x\<bar> \<le> 3 * day_ns"
    using w x ot oL op unfolding j p_def L_def wall_def units_second by linarith
  moreover have "from \<le> x" using t0 x(1) by linarith
  ultimately have "\<bar>offset_at z p - offset_at z x\<bar> < 10800" using zone_okD(3) [OF z p] by blast
  then have "wall z x < D * day_ns + day_ns"
    using x(2) unfolding j L_def wall_def units_second by linarith
  moreover have "wall z x div day_ns * day_ns \<le> wall z x"
    using div_mult_mod_eq [of "wall z x" day_ns] pos_mod_sign [of day_ns "wall z x"] pos_units(3) by linarith
  ultimately have "wall z x div day_ns * day_ns < (D + 1) * day_ns" by (simp add: algebra_simps)
  then show "wall z x div day_ns \<le> wall z t div day_ns"
    using pos_units(3) by (simp add: mult_less_cancel_right D_def)
  show "wall z t div day_ns \<le> wall z x div day_ns" using zone_okD(4) [OF z t0] x(1) by simp
qed

lemma aligned_step: "t mod minute_ns = 0 \<Longrightarrow> u mod minute_ns = 0 \<Longrightarrow> t < u \<Longrightarrow> t + minute_ns \<le> u"
proof -
  assume "t mod minute_ns = 0" "u mod minute_ns = 0" "t < u"
  then have "minute_ns dvd u - t" by (metis dvd_diff mod_0_imp_dvd)
  from zdvd_imp_le [OF this] \<open>t < u\<close> show ?thesis by linarith
qed

lemma SkipDay_skips:
  assumes "zone_ok z from" "from + 3 * day_ns \<le> t" "t mod minute_ns = 0" "t < u" "u < SkipDay e z t" "u mod minute_ns = 0"
  shows "\<not> matches e (wall z u)"
proof (cases "SkipDay e z t = t + minute_ns")
  case True
  with assms(5) aligned_step [OF assms(3,6,4)] show ?thesis by simp
next
  case False
  then have "\<not> matchesDay e (wall z t)" by (auto simp: SkipDay_def Let_def split: if_splits)
  with matchesDay_day [OF SkipDay_same_date [OF assms(1,2,4,5) False], of e] show ?thesis by (simp add: matches_def)
qed

lemma SkipDay_aligned:
  assumes "zone_ok z from" "from + 3 * day_ns \<le> t" "t mod minute_ns = 0"
  shows "SkipDay e z t mod minute_ns = 0"
proof (cases "SkipDay e z t = t + minute_ns")
  case False
  define L where "L = wall z t div day_ns * day_ns + 21 * hour_ns"
  define p where "p = L - offset_at z L * second"
  have j: "SkipDay e z t = L - offset_at z p * second"
    using False by (auto simp: SkipDay_def Let_def time_Date_eq L_def p_def split: if_splits)
  have w: "wall z t < wall z t div day_ns * day_ns + day_ns"
    using div_mult_mod_eq [of "wall z t" day_ns] pos_mod_bound [of day_ns "wall z t"] pos_units(3) by linarith
  have t0: "from \<le> t" using assms(2) pos_units(3) by linarith
  note ot = zone_okD(2) [OF assms(1) t0]
  have L: "from \<le> L" using w assms(2) ot unfolding L_def units_second wall_def by linarith
  have "from \<le> p"
    using w assms(2) ot zone_okD(2) [OF assms(1) L] unfolding p_def L_def units_second wall_def by linarith
  then have "offset_at z p mod 60 = 0" by (rule zone_okD(1) [OF assms(1)])
  then obtain k where "offset_at z p = 60 * k" by auto
  then have "offset_at z p * second = minute_ns * k" by (simp add: minute_ns_def)
  moreover have "L = minute_ns * (wall z t div day_ns * 1440 + 1260)"
    by (simp add: L_def day_ns_def hour_ns_def algebra_simps)
  ultimately show ?thesis unfolding j by (simp flip: right_diff_distrib)
qed (use assms(3) in simp)

lemma next_loop_spec:
  assumes "zone_ok z from" "from + 3 * day_ns \<le> t" "t mod minute_ns = 0"
  shows "case next_loop e z t stop of
      Some u \<Rightarrow> t \<le> u \<and> u < stop \<and> u mod minute_ns = 0 \<and> matches e (wall z u)
        \<and> (\<forall>x. t \<le> x \<and> x < u \<and> x mod minute_ns = 0 \<longrightarrow> \<not> matches e (wall z x))
    | None \<Rightarrow> \<forall>x. t \<le> x \<and> x < stop \<and> x mod minute_ns = 0 \<longrightarrow> \<not> matches e (wall z x)"
  using assms
proof (induction e z t stop rule: next_loop.induct)
  case (1 e z t stop)
  show ?case
  proof (cases "t < stop \<and> \<not> matches e (wall z t)")
    case False
    then show ?thesis using "1.prems" by (subst next_loop.simps) auto
  next
    case True
    let ?s = "SkipDay e z t"
    have eq: "next_loop e z t stop = next_loop e z ?s stop" using True by (subst next_loop.simps) simp
    have skip: "\<not> matches e (wall z x)" if "t \<le> x" "x < ?s" "x mod minute_ns = 0" for x
      using SkipDay_skips [OF "1.prems" _ that(2,3)] that(1) True by (cases "t = x") auto
    have "t < ?s" by (rule SkipDay_later)
    then have "from + 3 * day_ns \<le> ?s" using "1.prems"(2) by simp
    with "1.IH" [OF _ _ "1.prems"(1) _ SkipDay_aligned [OF "1.prems"]] True skip \<open>t < ?s\<close> show ?thesis
      unfolding eq by (force split: option.splits)
  qed
qed

lemma next_minute_first:
  "t < next_minute t" "next_minute t mod minute_ns = 0"
  "t < x \<Longrightarrow> x mod minute_ns = 0 \<Longrightarrow> next_minute t \<le> x"
proof -
  show l: "t < next_minute t"
    using pos_units(1) div_mult_mod_eq [of t minute_ns] pos_mod_bound [of minute_ns t] unfolding next_minute_def by linarith
  show "next_minute t mod minute_ns = 0" by (simp add: next_minute_def)
  assume x: "t < x" "x mod minute_ns = 0"
  have "t div minute_ns * minute_ns \<le> t"
    using pos_units(1) div_mult_mod_eq [of t minute_ns] pos_mod_sign [of minute_ns t] by linarith
  with x aligned_step [of "t div minute_ns * minute_ns" x] show "next_minute t \<le> x" by (simp add: next_minute_def)
qed

text \<open>C11. \<^verbatim>\<open>Next\<close> returns the earliest firing, across changes of the clocks: a whole minute, strictly after the
  given instant, at which the schedule matches what the wall clock of the zone shows, with no matching minute
  between the two; a search that finds nothing means that no minute up to its horizon of 401 years matches.
  So the jumps of \<^verbatim>\<open>SkipDay\<close> to 21:00 never step over a firing. From three days before the given instant on,
  the zone has offsets of whole minutes, changes them by less than three hours in any three days, and never
  sets the date on the wall back (\<open>zone_ok\<close>).\<close>

theorem cron_next_earliest:
  assumes "zone_ok z (after - 3 * day_ns)"
  shows "case Next e z after of
      Some t \<Rightarrow> after < t \<and> t mod minute_ns = 0 \<and> matches e (wall z t)
        \<and> (\<forall>x. after < x \<and> x < t \<and> x mod minute_ns = 0 \<longrightarrow> \<not> matches e (wall z x))
    | None \<Rightarrow> \<not> satisfiable e
        \<or> (\<forall>x. after < x \<and> x < horizon z (next_minute after) \<and> x mod minute_ns = 0 \<longrightarrow> \<not> matches e (wall z x))"
proof (cases "satisfiable e")
  case False
  then show ?thesis by (simp add: Next_def)
next
  case True
  note m = next_minute_first [of after]
  have "after - 3 * day_ns + 3 * day_ns \<le> next_minute after" using m(1) by simp
  from next_loop_spec [OF assms this m(2), where e = e and stop = "horizon z (next_minute after)"] m True
  show ?thesis by (fastforce simp: Next_def Let_def split: option.splits)
qed

section \<open>Dates that exist\<close>

lemma year_day_range: "case year_day n of (y, leap, d) \<Rightarrow> 0 \<le> d \<and> d < (if leap then 366 else 365)"
proof -
  define r400 where "r400 = n mod 146097"
  define n100 where "n100 = min 3 (r400 div 36524)"
  define r100 where "r100 = r400 - n100 * 36524"
  define n4 where "n4 = r100 div 1461"
  define r4 where "r4 = r100 mod 1461"
  define n1 where "n1 = min 3 (r4 div 365)"
  have r400: "0 \<le> r400" "r400 < 146097" by (simp_all add: r400_def)
  have r100: "0 \<le> r100" "r100 \<le> 36524" "n100 \<noteq> 3 \<Longrightarrow> r100 < 36524"
    using r400 unfolding r100_def n100_def by (auto simp: min_def split: if_splits)
  have r4: "0 \<le> r4" "r4 < 1461" by (simp_all add: r4_def)
  have n4: "r100 = n4 * 1461 + r4" by (simp add: n4_def r4_def)
  have q: "r4 div 365 \<le> 4" using r4 by simp
  have m: "r4 div 365 * 365 \<le> r4" "r4 < r4 div 365 * 365 + 365"
    using div_mult_mod_eq [of r4 365] pos_mod_bound [of 365 r4] pos_mod_sign [of 365 r4] by linarith+
  have "0 \<le> r4 - n1 * 365" "r4 - n1 * 365 < 366" "n1 \<noteq> 3 \<Longrightarrow> r4 - n1 * 365 < 365"
    using m r4 by (cases "r4 div 365 \<le> 3"; simp add: n1_def min_def; linarith)+
  moreover have "r4 - n1 * 365 < 365" if "n1 = 3" "n4 = 24" "n100 \<noteq> 3"
    using that n4 r100(3) by simp
  moreover have "year_day n = (400 * (n div 146097) + 100 * n100 + 4 * n4 + n1 + 1, n1 = 3 \<and> (n4 \<noteq> 24 \<or> n100 = 3), r4 - n1 * 365)"
    by (simp only: year_day_def Let_def n1_def r4_def n4_def r100_def n100_def r400_def)
  ultimately show ?thesis by (cases "n1 = 3") auto
qed

lemma twelve: "[1..12] = [1, 2, 3, 4, 5, 6, 7, 8, 9, 10, 11, 12 :: int]"
  by (simp add: upto.simps)

lemma month_walk_range:
  "0 \<le> n \<Longrightarrow> n < sum_list (map (month_len leap) ms) \<Longrightarrow>
     fst (month_walk leap ms n) \<in> set ms \<and> 1 \<le> snd (month_walk leap ms n)
     \<and> snd (month_walk leap ms n) \<le> month_len leap (fst (month_walk leap ms n))"
  by (induction leap ms n rule: month_walk.induct) auto

lemma year_sum: "sum_list (map (month_len leap) [1..12]) = (if leap then 366 else 365)"
  unfolding twelve by (simp add: month_len_def)

lemma month_len_leap: "month_len leap m \<le> month_len True m"
  by (simp add: month_len_def)

lemma wall_date_range: "1 \<le> wall_Month w" "wall_Month w \<le> 12" "1 \<le> wall_Day w" "wall_Day w \<le> month_len True (wall_Month w)"
proof -
  obtain y leap n where Y: "year_day (w div day_ns) = (y, leap, n)" by (cases "year_day (w div day_ns)")
  with year_day_range [of "w div day_ns"] have "0 \<le> n" "n < (if leap then 366 else 365)" by auto
  then have n: "0 \<le> n" "n < sum_list (map (month_len leap) [1..12])" unfolding year_sum by auto
  from month_walk_range [OF n] Y order_trans [OF _ month_len_leap, of _ leap]
  show "1 \<le> wall_Month w" "wall_Month w \<le> 12" "1 \<le> wall_Day w" "wall_Day w \<le> month_len True (wall_Month w)"
    by (auto simp: wall_Month_def wall_Day_def wall_Date_def split: prod.splits)
qed


lemma ParseCron_ok:
  assumes "ParseCron spec = Inr e"
  shows "field_mask_ok 0 59 (minute e)" "field_mask_ok 0 23 (hour e)" "field_mask_ok 1 31 (dom e)"
    "field_mask_ok 1 12 (month e)" "field_mask_ok 0 6 (dow e)"
proof -
  from assms obtain spec' where "parse_five spec' = Inr e" by (auto simp: ParseCron_def Let_def split: if_splits)
  then show "field_mask_ok 0 59 (minute e)" "field_mask_ok 0 23 (hour e)" "field_mask_ok 1 31 (dom e)"
    "field_mask_ok 1 12 (month e)" "field_mask_ok 0 6 (dow e)"
    by (auto simp: parse_five_def in_field_def dest!: parseField_ok split: list.splits sum.splits)
qed

lemma mask_has_low:
  assumes "0 \<le> d" "d \<le> n" "mask_has m d"
  shows "m AND (push_bit (nat (n + 1)) 1 - 1) \<noteq> 0"
proof
  assume z: "m AND (push_bit (nat (n + 1)) 1 - 1) = 0"
  have "bit m (nat d)" using assms(3) by (simp add: mask_has_bit)
  moreover have "nat d < 64" using bit_imp_le_length [OF \<open>bit m (nat d)\<close>] by simp
  ultimately show False using z assms(1,2)
    by (auto simp: push_bit_of_1 mask_eq_exp_minus_1 [symmetric] bit_eq_iff bit_and_iff bit_mask_iff)
qed

text \<open>A schedule that \<^verbatim>\<open>Satisfiable\<close> refuses never fires: when a parsed expression names no date that exists (such as
  the 30th of February), no wall-clock time matches it, on any day of any year.\<close>

lemma cron_unsatisfiable_never:
  assumes "ParseCron spec = Inr e" "\<not> satisfiable e"
  shows "\<not> matches e w"
proof
  assume "matches e w"
  then have day: "matchesDay e w" by (simp add: matches_def)
  then have mo: "mask_has (month e) (wall_Month w)" by (simp add: matchesDay_def Let_def)
  note P = ParseCron_ok [OF assms(1)]
  from assms(2) P(4,5) have any: "domAny e \<or> dowAny e"
    and none: "\<And>m. 1 \<le> m \<Longrightarrow> m \<le> 12 \<Longrightarrow> mask_has (month e) m \<Longrightarrow> dom e AND (push_bit (nat (month_len True m + 1)) 1 - 1) = 0"
    by (auto simp: satisfiable_def field_mask_ok_def list_ex_iff split: if_splits)
  from day any have "mask_has (dom e) (wall_Day w)" by (auto simp: matchesDay_def Let_def)
  with mask_has_low [of "wall_Day w" "month_len True (wall_Month w)" "dom e"] wall_date_range [of w]
  show False using none [OF wall_date_range(1,2) mo] by simp
qed


section \<open>Daylight saving\<close>

text \<open>A zone with one change of its offset, at the instant \<open>at\<close>.\<close>

definition one_change :: "gotime \<Rightarrow> int \<Rightarrow> int \<Rightarrow> zone" where
  "one_change at before after_off =
     \<lparr>offset_at = (\<lambda>t. if t < at then before else after_off), period_start = (\<lambda>t. if t < at then 0 else at)\<rparr>"

lemma gap_walk_iff:
  assumes "start mod minute_ns = 0" "stop mod minute_ns = 0" "stop - start \<le> int n * minute_ns"
  shows "gap_walk e start stop n \<longleftrightarrow> (\<exists>w. start \<le> w \<and> w < stop \<and> w mod minute_ns = 0 \<and> matches e w)"
  using assms
proof (induction n arbitrary: start)
  case 0
  then show ?case by auto
next
  case (Suc n)
  have step: "w = start \<or> start + minute_ns \<le> w" if "start \<le> w" "w mod minute_ns = 0" for w
  proof -
    have "minute_ns dvd w - start" using that(2) Suc.prems(1) by (simp add: dvd_eq_mod_eq_0 mod_diff_eq [symmetric])
    then show ?thesis using that(1) zdvd_imp_le [of minute_ns "w - start"] by linarith
  qed
  have al: "(start + minute_ns) mod minute_ns = 0" using Suc.prems(1) by simp
  have len: "stop - (start + minute_ns) \<le> int n * minute_ns" using Suc.prems(3) by (simp add: algebra_simps)
  show ?case
  proof (cases "start < stop \<and> \<not> matches e start")
    case False
    then show ?thesis using Suc.prems(1) by auto
  next
    case True
    have "gap_walk e start stop (Suc n) = gap_walk e (start + minute_ns) stop n" using True by simp
    also have "\<dots> \<longleftrightarrow> (\<exists>w. start + minute_ns \<le> w \<and> w < stop \<and> w mod minute_ns = 0 \<and> matches e w)"
      by (rule Suc.IH [OF al Suc.prems(2) len])
    also have "\<dots> \<longleftrightarrow> (\<exists>w. start \<le> w \<and> w < stop \<and> w mod minute_ns = 0 \<and> matches e w)"
    proof -
      have "start + minute_ns \<le> w \<longleftrightarrow> start \<le> w" if "w mod minute_ns = 0" "matches e w" for w
        using step [of w] that True pos_units(1) by auto
      then show ?thesis by (intro arg_cong [of _ _ Ex] ext) auto
    qed
    finally show ?thesis .
  qed
qed

text \<open>A fixed-time job runs once across a change of the clocks. At a fall-back every wall-clock minute of the
  repeated interval fires in the first pass when it matches and never in the second; at a spring-forward
  of at most two hours the first minute after the jump fires exactly when it matches itself or some
  skipped wall-clock minute does.\<close>

lemma cron_dst_once:
  assumes "FixedTime e" "0 < at" "at mod minute_ns = 0" "off mod 60 = 0" "gap mod 60 = 0" "0 < gap" "gap \<le> 7200"
  shows "(if 0 \<le> t \<and> t < gap * second
       then FiresAt e (one_change at off (off - gap)) (at - gap * second + t - minute_ns) (at - gap * second + t) = matches e (at + (off - gap) * second + t)
         \<and> \<not> FiresAt e (one_change at off (off - gap)) (at + t - minute_ns) (at + t)
       else True)
    \<and> FiresAt e (one_change at off (off + gap)) (at - minute_ns) at
      = (\<exists>w. at + off * second \<le> w \<and> w \<le> at + (off + gap) * second \<and> w mod minute_ns = 0 \<and> matches e w)"
proof -
  obtain i j where ij: "off = 60 * i" "gap = 60 * j" using assms(4,5) unfolding mod_eq_0_iff_dvd dvd_def by blast
  have mul: "off * second = minute_ns * i" "gap * second = minute_ns * j" by (simp_all add: ij minute_ns_def)
  have m: "(at + off * second) mod minute_ns = 0" "(at + (off + gap) * second) mod minute_ns = 0"
    using assms(3) by (simp_all add: mul distrib_right flip: distrib_left)
  let ?f = "one_change at off (off - gap)" and ?s = "one_change at off (off + gap)"
  have first: "FiresAt e ?f (at - gap * second + t - minute_ns) (at - gap * second + t) = matches e (at + (off - gap) * second + t)"
    if "0 \<le> t" "t < gap * second"
    using that assms(1) pos_units(1)
    by (simp add: FiresAt_def fallBackRepeat_def one_change_def wall_def skippedMatchInGap_def algebra_simps)
  have second: "\<not> FiresAt e ?f (at + t - minute_ns) (at + t)" if "0 \<le> t" "t < gap * second"
    using that assms(1,2,6) pos_units(4) by (auto simp: FiresAt_def fallBackRepeat_def one_change_def Let_def)
  obtain q where q: "at + off * second = minute_ns * q" using m(1) unfolding mod_eq_0_iff_dvd dvd_def by blast
  have wa: "wall ?s (at - minute_ns) div minute_ns * minute_ns + minute_ns = at + off * second"
  proof -
    have "wall ?s (at - minute_ns) = minute_ns * (q - 1)"
      using q pos_units(1) by (simp add: wall_def one_change_def right_diff_distrib)
    then show ?thesis using q pos_units(1)
      by (metis add.commute diff_add_cancel mult.commute mult.right_neutral distrib_left nonzero_mult_div_cancel_left less_irrefl)
  qed
  have wb: "wall ?s at div minute_ns * minute_ns = at + (off + gap) * second"
    using m(2) div_mult_mod_eq [of "at + (off + gap) * second" minute_ns] by (simp add: wall_def one_change_def)
  have len: "at + (off + gap) * second - (at + off * second) \<le> int 120 * minute_ns"
    using assms(7) pos_units(4) by (simp add: minute_ns_def distrib_right)
  have gapm: "skippedMatchInGap e ?s (at - minute_ns) at
      \<longleftrightarrow> (\<exists>w. at + off * second \<le> w \<and> w < at + (off + gap) * second \<and> w mod minute_ns = 0 \<and> matches e w)"
    using gap_walk_iff [OF m len, of e] assms(6) pos_units(1)
    unfolding skippedMatchInGap_def wa wb by (simp add: one_change_def)
  have nb: "\<not> fallBackRepeat ?s at" using assms(6) pos_units(4) by (auto simp: fallBackRepeat_def one_change_def Let_def mult_less_0_iff)
  have w: "wall ?s at = at + (off + gap) * second" by (simp add: wall_def one_change_def)
  have "at + off * second \<le> at + (off + gap) * second" using assms(6) pos_units(4) by (simp add: distrib_right)
  then have "FiresAt e ?s (at - minute_ns) at
      = (\<exists>w. at + off * second \<le> w \<and> w \<le> at + (off + gap) * second \<and> w mod minute_ns = 0 \<and> matches e w)"
    using assms(1) nb gapm m(2) unfolding FiresAt_def w by (metis order_le_less)
  with first second show ?thesis by simp
qed


section \<open>Example schedules\<close>

definition example_midnight :: cronExpr where
  "example_midnight = \<lparr>minute = 1, hour = 1, dom = 4294967294, month = 8190, dow = 127, domAny = True, dowAny = True,
     minuteAny = False, hourAny = False\<rparr>"

lemma cron_field_exact_witness:
  "case parseFieldPart (show_nat 0 @ ''-'' @ show_nat 30 @ ''/'' @ show_nat 15) 0 59 of
     Inl _ \<Rightarrow> False | Inr m \<Rightarrow> mask_has m 15 \<and> \<not> mask_has m 16 \<and> \<not> mask_has m 45"
proof -
  have ok: "int 15 \<le> maxInt64" by (simp add: maxInt64_def)
  from cron_field_exact [of 0 0 30 59 15 15 "''5''", OF _ _ _ _ _ _ ok] cron_field_exact [of 0 0 30 59 15 16 "''5''", OF _ _ _ _ _ _ ok]
    cron_field_exact [of 0 0 30 59 15 45 "''5''", OF _ _ _ _ _ _ ok]
  show ?thesis by (auto split: sum.splits)
qed

text \<open>A zone three hours east of UTC that at 01:00 of the second day sets its clocks back to 00:00, and a
  schedule for 00:00 of the second of January: a search from the evening before finds the first of the two
  midnights, although a search that jumped to midnight would come out at the second.\<close>

definition example_zone_back :: zone where
  "example_zone_back = one_change (day_ns + hour_ns - 10800 * second) 10800 7200"

definition example_second_day :: cronExpr where
  "example_second_day = \<lparr>minute = 1, hour = 1, dom = 4, month = 2, dow = 127, domAny = False, dowAny = True,
     minuteAny = False, hourAny = False\<rparr>"

lemma example_zone_back_ok: "zone_ok example_zone_back from"
proof -
  let ?z = "example_zone_back" and ?at = "day_ns + hour_ns - 10800 * second"
  have off: "offset_at ?z x = (if x < ?at then 10800 else 7200)" for x by (simp add: example_zone_back_def one_change_def)
  have "wall ?z x div day_ns \<le> wall ?z y div day_ns" if "x \<le> y" for x y
  proof (cases "x < ?at \<and> \<not> y < ?at")
    case True
    then have "wall ?z x \<le> day_ns + hour_ns" "day_ns \<le> wall ?z y"
      by (simp_all add: wall_def off units_second)
    then have "wall ?z x div day_ns \<le> (day_ns + hour_ns) div day_ns" "day_ns div day_ns \<le> wall ?z y div day_ns"
      using pos_units(3) by (simp_all only: zdiv_mono1)
    then show ?thesis by (simp add: units_second)
  next
    case False
    with that have "wall ?z x \<le> wall ?z y" by (auto simp: wall_def off)
    then show ?thesis using pos_units(3) by (rule zdiv_mono1)
  qed
  then show ?thesis by (auto simp: zone_ok_def off)
qed

theorem cron_next_earliest_witness:
  "case Next example_second_day example_zone_back (20 * hour_ns - 10800 * second) of
     Some t \<Rightarrow> 20 * hour_ns - 10800 * second < t \<and> t \<le> day_ns - 10800 * second | None \<Rightarrow> False"
proof -
  let ?after = "20 * hour_ns - 10800 * second" and ?x = "day_ns - 10800 * second"
  have s: "satisfiable example_second_day" and m: "matches example_second_day (wall example_zone_back ?x)"
    "?x mod minute_ns = 0" "?after < ?x" "?x < horizon example_zone_back (next_minute ?after)"
    by code_simp+
  note N = cron_next_earliest [OF example_zone_back_ok, of example_second_day ?after]
  show ?thesis
  proof (cases "Next example_second_day example_zone_back ?after")
    case None
    with N s m show ?thesis by auto
  next
    case (Some t)
    with N have t: "?after < t" "\<And>x. ?after < x \<Longrightarrow> x < t \<Longrightarrow> x mod minute_ns = 0 \<Longrightarrow>
        \<not> matches example_second_day (wall example_zone_back x)"
      by auto
    from t(2) [OF m(3) _ m(2)] m(1) have "\<not> ?x < t" by blast
    with t(1) show ?thesis by (simp add: Some)
  qed
qed

text \<open>The condition on the date is needed: in a zone that at 00:01 sets its clocks back to 23:01 of the date
  before (as Newfoundland did until 2011), \<^verbatim>\<open>SkipDay\<close> at 00:00 jumps over the repeated evening of that date.\<close>

lemma SkipDay_steps_over:
  "case (one_change (day_ns + minute_ns + 9000 * second) (-9000) (-12600),
         example_midnight\<lparr>minute := 1073741824, hour := 8388608, dom := 2, domAny := False\<rparr>,
         day_ns + 9000 * second, day_ns - 30 * minute_ns + 12600 * second) of
     (z, e, t, u) \<Rightarrow> \<not> matches e (wall z t) \<and> t < u \<and> u < SkipDay e z t \<and> matches e (wall z u)"
  by code_simp

lemma cron_unsatisfiable_never_witness:
  "case ParseCron ''0 0 30 2 *'' of Inl _ \<Rightarrow> False | Inr e \<Rightarrow> \<not> matches e 0"
proof -
  have u: "utf8_units ''0 0 30 2 *'' = [''0'', '' '', ''0'', '' '', ''3'', ''0'', '' '', ''2'', '' '', ''*'']" by code_simp
  have t: "trim_space ''0 0 30 2 *'' = ''0 0 30 2 *''" unfolding trim_space_def u by (simp add: space_unit_ascii)
  have f: "Fields ''0 0 30 2 *'' = [''0'', ''0'', ''30'', ''2'', ''*'']" unfolding Fields_def u by (simp add: space_unit_ascii)
  have p: "parseField ''0'' 0 59 = Inr 1" "parseField ''0'' 0 23 = Inr 1" "parseField ''30'' 1 31 = Inr 1073741824"
    "parseField ''2'' 1 12 = Inr 4" "parseField ''*'' 0 6 = Inr 127"
    by code_simp+
  have n: "\<not> satisfiable \<lparr>minute = 1, hour = 1, dom = 1073741824, month = 4, dow = 127, domAny = False, dowAny = True,
      minuteAny = False, hourAny = False\<rparr>"
    by code_simp
  have "case ParseCron ''0 0 30 2 *'' of Inl _ \<Rightarrow> False | Inr e \<Rightarrow> \<not> satisfiable e"
    using p n by (simp add: ParseCron_def parse_five_def in_field_def has_prefix_def t f)
  then show ?thesis using cron_unsatisfiable_never [of "''0 0 30 2 *''" _ 0] by (auto split: sum.splits)
qed

lemma cron_dst_once_witness:
  "\<not> FiresAt example_midnight (one_change day_ns 3600 0) (day_ns - minute_ns) day_ns"
proof -
  have "FixedTime example_midnight" "0 < day_ns" "day_ns mod minute_ns = 0"
    by (simp_all add: example_midnight_def FixedTime_def day_ns_def hour_ns_def minute_ns_def second_def)
  from cron_dst_once [OF this, of 3600 3600 0] show ?thesis by (simp add: second_def)
qed

end
