(* ===== verification/CronScheduler.thy ===== *)
theory CronScheduler
  imports Cron "HOL-Library.AList"
begin

text \<open>
  The scheduler of \<^verbatim>\<open>framework/cron/cron.go\<close> and the Postgres lease of \<^verbatim>\<open>framework/cron/leader_pg.go\<close>.

  A callback of the host (a job, a gate, an error handler, a lease) either returns or panics. The work of
  one tick is a function of the scheduler; goroutines it starts are entries of its state. A method of the
  lease is a program of database calls: each call is given an answer, so that the calls of several replicas
  interleave statement by statement, and a call can fail before or after its effect.
\<close>

section \<open>The scheduler\<close>

datatype 'a called = Returned 'a | Panicked string

datatype sched_fault =
    JobError string | JobPanic string | GatePanic string
  | LeaseError string | AcquirePanic string | ReleasePanic string

datatype report = ToOnError string sched_fault | OnErrorPanicked string string sched_fault | Logged string sched_fault

record 'c CronJob =
  jobName :: string
  jobSpec :: string
  jobRun :: "('c \<Rightarrow> string option called) option"

record 'c scheduledJob =
  job :: "'c CronJob"
  expr :: cronExpr

text \<open>The fields of \<^verbatim>\<open>Scheduler\<close>; \<open>inflight\<close> holds the running job goroutines, each with the tick group it counts in,
  \<open>reports\<close> what \<^verbatim>\<open>reportError\<close> told.\<close>

record 'c Scheduler =
  cronJobs :: "'c scheduledJob list"
  tickEv :: int
  stopClosed :: bool
  stoppedClosed :: bool
  loopStarted :: bool
  inflight :: "('c CronJob \<times> nat option) list"
  onError :: "(string \<Rightarrow> sched_fault \<Rightarrow> unit called) option"
  cronGate :: "(string \<Rightarrow> bool called) option"
  reports :: "report list"

definition NewScheduler :: "'c Scheduler" where
  "NewScheduler = \<lparr>cronJobs = [], tickEv = minute_ns, stopClosed = False, stoppedClosed = False, loopStarted = False,
     inflight = [], onError = None, cronGate = None, reports = []\<rparr>"

definition MaxJobNameBytes :: nat where "MaxJobNameBytes = 256"

datatype register_error = ErrInvalidJobName nat | ErrNilJobRun string | BadSpec string cron_error

definition cron_Register :: "'c Scheduler \<Rightarrow> 'c CronJob \<Rightarrow> register_error + 'c Scheduler" where
  "cron_Register s j =
     (if jobName j = [] \<or> length (jobName j) > MaxJobNameBytes then Inl (ErrInvalidJobName (length (jobName j)))
      else if jobRun j = None then Inl (ErrNilJobRun (jobName j))
      else case ParseCron (jobSpec j) of
        Inl err \<Rightarrow> Inl (BadSpec (jobName j) err)
      | Inr e \<Rightarrow> Inr (s\<lparr>cronJobs := cronJobs s @ [\<lparr>job = j, expr = e\<rparr>]\<rparr>))"

definition cron_SetGate :: "'c Scheduler \<Rightarrow> (string \<Rightarrow> bool called) option \<Rightarrow> 'c Scheduler" where
  "cron_SetGate s g = s\<lparr>cronGate := g\<rparr>"

definition reportError :: "'c Scheduler \<Rightarrow> string \<Rightarrow> sched_fault \<Rightarrow> 'c Scheduler" where
  "reportError s name err =
     (case onError s of
        None \<Rightarrow> s\<lparr>reports := reports s @ [Logged name err]\<rparr>
      | Some h \<Rightarrow> (case h name err of
          Returned _ \<Rightarrow> s\<lparr>reports := reports s @ [ToOnError name err]\<rparr>
        | Panicked rec \<Rightarrow> s\<lparr>reports := reports s @ [ToOnError name err, OnErrorPanicked name rec err]\<rparr>))"

definition gateAllow :: "'c Scheduler \<Rightarrow> (string \<Rightarrow> bool called) \<Rightarrow> string \<Rightarrow> bool \<times> 'c Scheduler" where
  "gateAllow s g name =
     (case g name of
        Returned b \<Rightarrow> (b, s)
      | Panicked r \<Rightarrow> (False, reportError s name (GatePanic r)))"

definition firing_jobs :: "'c Scheduler \<Rightarrow> zone \<Rightarrow> gotime \<Rightarrow> 'c CronJob list" where
  "firing_jobs s z now = map job (filter (\<lambda>sj. FiresAt (expr sj) z (now - minute_ns) now) (cronJobs s))"

fun start_jobs :: "(string \<Rightarrow> bool called) option \<Rightarrow> nat option \<Rightarrow> 'c CronJob list \<Rightarrow> 'c Scheduler \<Rightarrow> 'c Scheduler" where
  "start_jobs g wg [] s = s"
| "start_jobs g wg (j # js) s =
     (case (case g of None \<Rightarrow> (True, s) | Some gf \<Rightarrow> gateAllow s gf (jobName j)) of (allow, s1) \<Rightarrow>
        start_jobs g wg js (if allow then s1\<lparr>inflight := inflight s1 @ [(j, wg)]\<rparr> else s1))"

definition runOnce :: "'c Scheduler \<Rightarrow> zone \<Rightarrow> gotime \<Rightarrow> nat option \<Rightarrow> 'c Scheduler" where
  "runOnce s z now wg = start_jobs (cronGate s) wg (firing_jobs s z now) s"

definition RunOnce :: "'c Scheduler \<Rightarrow> zone \<Rightarrow> gotime \<Rightarrow> 'c Scheduler" where
  "RunOnce s z now = runOnce s z now None"

text \<open>The end of the \<open>n\<close>-th running goroutine, whose job is called in the state \<open>c\<close> of the host.\<close>

definition job_exit :: "'c Scheduler \<Rightarrow> nat \<Rightarrow> 'c \<Rightarrow> 'c Scheduler" where
  "job_exit s n c =
     (case inflight s ! n of (j, wg) \<Rightarrow>
        let s1 = s\<lparr>inflight := take n (inflight s) @ drop (Suc n) (inflight s)\<rparr> in
        case the (jobRun j) c of
          Returned None \<Rightarrow> s1
        | Returned (Some err) \<Rightarrow> reportError s1 (jobName j) (JobError err)
        | Panicked r \<Rightarrow> reportError s1 (jobName j) (JobPanic r))"

definition tick_of :: "gotime \<Rightarrow> gotime" where
  "tick_of now = now - now mod minute_ns"

definition untilNextTick :: "'c Scheduler \<Rightarrow> gotime \<Rightarrow> int" where
  "untilNextTick s now = time_sub (now - now mod tickEv s + tickEv s) now"

text \<open>What a lease answers: whether it is held, the handle that releases it, an error.\<close>

type_synonym 'r lease_answer = "bool \<times> 'r option \<times> string option"

definition acquireSafely :: "'r lease_answer called \<Rightarrow> bool \<times> 'r option \<times> sched_fault option" where
  "acquireSafely a =
     (case a of
        Panicked r \<Rightarrow> (False, None, Some (AcquirePanic r))
      | Returned (held, release, err) \<Rightarrow> (held, release, map_option LeaseError err))"

text \<open>The goroutine a tick leaves behind: release at once, or when the jobs counted in the tick group are done.\<close>

datatype 'r release_plan = NoRelease | ReleaseNow "'r option" | ReleaseAfter nat "'r option"

definition leader_name :: string where "leader_name = ''(leader-election)''"

definition runTick_acquired ::
  "bool \<Rightarrow> 'c Scheduler \<Rightarrow> zone \<Rightarrow> gotime \<Rightarrow> nat \<Rightarrow> 'r lease_answer called \<Rightarrow> bool \<times> 'c Scheduler \<times> 'r release_plan" where
  "runTick_acquired claims s z now wg a =
     (case acquireSafely a of (held, release, err) \<Rightarrow>
        case err of
          Some e \<Rightarrow> (False, reportError s leader_name e, NoRelease)
        | None \<Rightarrow>
            if \<not> held then (False, s, NoRelease)
            else if claims then (True, RunOnce s z now, ReleaseNow release)
            else (True, runOnce s z now (Some wg), ReleaseAfter wg release))"

text \<open>A lease, over the state \<open>'w\<close> of the world: plain, or one that claims the tick minute.\<close>

datatype ('w, 'r) leader =
    Plain "'w \<Rightarrow> 'r lease_answer called \<times> 'w"
  | TickClaims "gotime \<Rightarrow> 'w \<Rightarrow> 'r lease_answer called \<times> 'w"

definition runTick ::
  "('w, 'r) leader option \<Rightarrow> 'c Scheduler \<Rightarrow> zone \<Rightarrow> gotime \<Rightarrow> nat \<Rightarrow> 'w \<Rightarrow> (bool \<times> 'c Scheduler \<times> 'r release_plan) \<times> 'w" where
  "runTick leader s z now wg w =
     (case leader of
        None \<Rightarrow> ((True, RunOnce s z now, NoRelease), w)
      | Some (Plain acquire) \<Rightarrow> (case acquire w of (a, w') \<Rightarrow> (runTick_acquired False s z now wg a, w'))
      | Some (TickClaims acquireTick) \<Rightarrow>
          (case acquireTick (tick_of now) w of (a, w') \<Rightarrow> (runTick_acquired True s z now wg a, w')))"

definition releaseSafely :: "'c Scheduler \<Rightarrow> unit called \<Rightarrow> 'c Scheduler" where
  "releaseSafely s a =
     (case a of Returned _ \<Rightarrow> s | Panicked r \<Rightarrow> reportError s leader_name (ReleasePanic r))"

text \<open>Whether the goroutine that waits for a tick group may go on.\<close>

definition tickJobs_done :: "'c Scheduler \<Rightarrow> nat \<Rightarrow> bool" where
  "tickJobs_done s wg \<longleftrightarrow> (\<forall>(j, g) \<in> set (inflight s). g \<noteq> Some wg)"

definition cron_Start :: "'c Scheduler \<Rightarrow> 'c Scheduler" where
  "cron_Start s = s\<lparr>loopStarted := True\<rparr>"

definition loop_exit :: "'c Scheduler \<Rightarrow> 'c Scheduler" where
  "loop_exit s = s\<lparr>stoppedClosed := True\<rparr>"

text \<open>\<^verbatim>\<open>StopContext\<close>: it closes the stop channel, reads whether the loop was started and waits for it, then for the
  jobs. The answer is \<^term>\<open>None\<close> while it must go on waiting.\<close>

datatype stop_result = StopOk | LoopStillRunning | JobsStillRunning

definition StopContext_signal :: "'c Scheduler \<Rightarrow> bool \<times> 'c Scheduler" where
  "StopContext_signal s = (loopStarted s, s\<lparr>stopClosed := True\<rparr>)"

definition StopContext_wait :: "'c Scheduler \<Rightarrow> bool \<Rightarrow> bool \<Rightarrow> bool \<Rightarrow> stop_result option" where
  "StopContext_wait s started expired1 expired2 =
     (if started \<and> expired1 then Some LoopStillRunning
      else if started \<and> \<not> stoppedClosed s then None
      else if expired2 then Some JobsStillRunning
      else if inflight s = [] then Some StopOk else None)"

section \<open>The Postgres lease\<close>

datatype stmt =
    PoolConn | TryLock int | CreateTicks | UpsertTick int gotime | Unlock int | BadConn | CloseConn

text \<open>\<open>Failed\<close> is an error of the call; \<open>Rows None\<close> a statement whose \<^verbatim>\<open>RowsAffected\<close> fails.\<close>

datatype answer = Failed | Done | Flag bool | Rows "nat option"

datatype 'a prog = Ret 'a | Call stmt "answer \<Rightarrow> 'a prog"

primrec prog_bind :: "'a prog \<Rightarrow> ('a \<Rightarrow> 'b prog) \<Rightarrow> 'b prog" where
  "prog_bind (Ret a) f = f a"
| "prog_bind (Call q k) f = Call q (\<lambda>a. prog_bind (k a) f)"

record PostgresAdvisoryLease =
  leaseKey :: int
  tableReady :: bool

definition NewPostgresAdvisoryLease :: "int \<Rightarrow> PostgresAdvisoryLease" where
  "NewPostgresAdvisoryLease key = \<lparr>leaseKey = key, tableReady = False\<rparr>"

text \<open>\<open>Inr True\<close>: the lock is held on the pinned connection.\<close>

definition lease_lock :: "PostgresAdvisoryLease \<Rightarrow> (string + bool) prog" where
  "lease_lock p =
     Call PoolConn (\<lambda>a.
       if a = Failed then Ret (Inl ''cron: lease connection'')
       else Call (TryLock (leaseKey p)) (\<lambda>a.
         case a of
           Flag got \<Rightarrow> if got then Ret (Inr True) else Call CloseConn (\<lambda>_. Ret (Inr False))
         | _ \<Rightarrow> Call CloseConn (\<lambda>_. Ret (Inl ''cron: pg_try_advisory_lock''))))"

definition ensureTicksTable :: "PostgresAdvisoryLease \<Rightarrow> (string option \<times> PostgresAdvisoryLease) prog" where
  "ensureTicksTable p =
     (if tableReady p then Ret (None, p)
      else Call CreateTicks (\<lambda>a.
        if a = Failed then
          Call CreateTicks (\<lambda>a.
            if a = Failed then Ret (Some ''cron: create gofastr_cron_ticks'', p)
            else Ret (None, p\<lparr>tableReady := True\<rparr>))
        else Ret (None, p\<lparr>tableReady := True\<rparr>)))"

definition claimTick :: "PostgresAdvisoryLease \<Rightarrow> gotime \<Rightarrow> ((string + bool) \<times> PostgresAdvisoryLease) prog" where
  "claimTick p tick =
     prog_bind (ensureTicksTable p) (\<lambda>(err, p).
       case err of
         Some e \<Rightarrow> Ret (Inl e, p)
       | None \<Rightarrow> Call (UpsertTick (leaseKey p) tick) (\<lambda>a.
           case a of
             Rows (Some n) \<Rightarrow> Ret (Inr (n = 1), p)
           | _ \<Rightarrow> Ret (Inl ''cron: claim tick'', p)))"

definition unlocker :: "PostgresAdvisoryLease \<Rightarrow> unit prog" where
  "unlocker p =
     Call (Unlock (leaseKey p)) (\<lambda>a.
       if a = Flag True then Call CloseConn (\<lambda>_. Ret ())
       else Call BadConn (\<lambda>_. Call CloseConn (\<lambda>_. Ret ())))"

type_synonym acquired = "unit prog lease_answer \<times> PostgresAdvisoryLease"

definition lease_Acquire :: "PostgresAdvisoryLease \<Rightarrow> acquired prog" where
  "lease_Acquire p =
     prog_bind (lease_lock p) (\<lambda>r.
       case r of
         Inl e \<Rightarrow> Ret ((False, None, Some e), p)
       | Inr got \<Rightarrow> Ret (if got then (True, Some (unlocker p), None) else (False, None, None), p))"

definition AcquireTick :: "PostgresAdvisoryLease \<Rightarrow> gotime \<Rightarrow> acquired prog" where
  "AcquireTick p tick =
     prog_bind (lease_lock p) (\<lambda>r.
       case r of
         Inl e \<Rightarrow> Ret ((False, None, Some e), p)
       | Inr got \<Rightarrow>
           if \<not> got then Ret ((False, None, None), p)
           else prog_bind (claimTick p tick) (\<lambda>(c, p).
             case c of
               Inl e \<Rightarrow> prog_bind (unlocker p) (\<lambda>_. Ret ((False, None, Some e), p))
             | Inr claimed \<Rightarrow>
                 if claimed then Ret ((True, Some (unlocker p), None), p)
                 else prog_bind (unlocker p) (\<lambda>_. Ret ((False, None, None), p))))"

text \<open>The database: the ticks table (if it exists) and the advisory locks with the session that holds each and how
  often. \<open>db_call c q\<close> is the effect and the answer of a call on session \<open>c\<close>.\<close>

record tick_db =
  ticksTable :: "(int \<times> gotime) list option"
  advisory :: "int \<Rightarrow> (nat \<times> nat) option"

definition upsert_tick :: "int \<Rightarrow> gotime \<Rightarrow> (int \<times> gotime) list \<Rightarrow> nat \<times> (int \<times> gotime) list" where
  "upsert_tick key tick rows =
     (case map_of rows key of
        None \<Rightarrow> (1, rows @ [(key, tick)])
      | Some prev \<Rightarrow> if prev < tick then (1, AList.update key tick rows) else (0, rows))"

fun db_call :: "nat \<Rightarrow> stmt \<Rightarrow> tick_db \<Rightarrow> answer \<times> tick_db" where
  "db_call c PoolConn db = (Done, db)"
| "db_call c CloseConn db = (Done, db)"
| "db_call c (TryLock key) db =
     (case advisory db key of
        None \<Rightarrow> (Flag True, db\<lparr>advisory := (advisory db)(key := Some (c, 1))\<rparr>)
      | Some (holder, n) \<Rightarrow>
          if holder = c then (Flag True, db\<lparr>advisory := (advisory db)(key := Some (c, n + 1))\<rparr>) else (Flag False, db))"
| "db_call c CreateTicks db =
     (Done, db\<lparr>ticksTable := Some (case ticksTable db of None \<Rightarrow> [] | Some rows \<Rightarrow> rows)\<rparr>)"
| "db_call c (UpsertTick key tick) db =
     (case ticksTable db of
        None \<Rightarrow> (Failed, db)
      | Some rows \<Rightarrow> (case upsert_tick key tick rows of (n, rows') \<Rightarrow> (Rows (Some n), db\<lparr>ticksTable := Some rows'\<rparr>)))"
| "db_call c (Unlock key) db =
     (case advisory db key of
        Some (holder, n) \<Rightarrow>
          if holder = c
          then (Flag True, db\<lparr>advisory := (advisory db)(key := (if n \<le> 1 then None else Some (c, n - 1)))\<rparr>)
          else (Flag False, db)
      | None \<Rightarrow> (Flag False, db))"
| "db_call c BadConn db =
     (Done, db\<lparr>advisory := (\<lambda>key. case advisory db key of
        Some (holder, n) \<Rightarrow> if holder = c then None else Some (holder, n) | None \<Rightarrow> None)\<rparr>)"

text \<open>What a call may do: its effect and answer; an error before or after the effect; the effect without a count.\<close>

definition db_may :: "nat \<Rightarrow> stmt \<Rightarrow> tick_db \<Rightarrow> answer \<Rightarrow> tick_db \<Rightarrow> bool" where
  "db_may c q db a db' \<longleftrightarrow>
     (a, db') = db_call c q db
     \<or> a = Failed \<and> (db' = db \<or> db' = snd (db_call c q db))
     \<or> (\<exists>key tick. q = UpsertTick key tick) \<and> a = Rows None \<and> db' = snd (db_call c q db)"

primrec run_prog :: "nat \<Rightarrow> 'a prog \<Rightarrow> tick_db \<Rightarrow> 'a \<times> tick_db" where
  "run_prog c (Ret a) db = (a, db)"
| "run_prog c (Call q k) db = (case db_call c q db of (a, db') \<Rightarrow> run_prog c (k a) db')"

section \<open>Replicas\<close>

text \<open>A replica: its scheduler and lease, the tick its loop is acquiring (with the session of its connection and the
  calls still to make), and the release goroutines.\<close>

record 'c cron_replica =
  sched :: "'c Scheduler"
  lease :: PostgresAdvisoryLease
  acquiring :: "(gotime \<times> nat \<times> acquired prog) option"
  releasing :: "(nat \<times> unit prog) list"

text \<open>The log \<open>fired\<close> holds the replica, the time and the started jobs of every tick that fired.\<close>

record 'c cron_cluster =
  clusterDb :: tick_db
  replicas :: "nat \<Rightarrow> 'c cron_replica"
  fired :: "(nat \<times> gotime \<times> 'c CronJob list) list"

definition new_replica :: "int \<Rightarrow> 'c cron_replica" where
  "new_replica key = \<lparr>sched = NewScheduler, lease = NewPostgresAdvisoryLease key, acquiring = None, releasing = []\<rparr>"

definition cron_boot :: "int \<Rightarrow> tick_db \<Rightarrow> 'c cron_cluster" where
  "cron_boot key db = \<lparr>clusterDb = db, replicas = (\<lambda>_. new_replica key), fired = []\<rparr>"

definition cron_put :: "'c cron_cluster \<Rightarrow> nat \<Rightarrow> 'c cron_replica \<Rightarrow> 'c cron_cluster" where
  "cron_put s i r = s\<lparr>replicas := (replicas s)(i := r)\<rparr>"

definition started_jobs :: "'c Scheduler \<Rightarrow> 'c Scheduler \<Rightarrow> 'c CronJob list" where
  "started_jobs s s' = map fst (drop (length (inflight s)) (inflight s'))"

text \<open>The end of an acquisition: \<^const>\<open>runTick_acquired\<close> with its answer, the lease released by a goroutine.\<close>

definition tick_end :: "zone \<Rightarrow> 'c cron_replica \<Rightarrow> gotime \<Rightarrow> nat \<Rightarrow> unit prog lease_answer called \<Rightarrow> PostgresAdvisoryLease
    \<Rightarrow> bool \<times> 'c cron_replica" where
  "tick_end z r now c a p =
     (case runTick_acquired True (sched r) z now 0 a of (held, s', plan) \<Rightarrow>
        (held, r\<lparr>sched := s', lease := p, acquiring := None,
                 releasing := releasing r @ (case plan of ReleaseNow (Some h) \<Rightarrow> [(c, h)] | _ \<Rightarrow> [])\<rparr>))"

inductive cron_step :: "zone \<Rightarrow> 'c cron_cluster \<Rightarrow> 'c cron_cluster \<Rightarrow> bool" for z where
  register: "r = replicas s i \<Longrightarrow> cron_Register (sched r) j = Inr sc \<Longrightarrow> cron_step z s (cron_put s i (r\<lparr>sched := sc\<rparr>))"
| set_gate: "r = replicas s i \<Longrightarrow> cron_step z s (cron_put s i (r\<lparr>sched := cron_SetGate (sched r) g\<rparr>))"
| start: "r = replicas s i \<Longrightarrow> \<not> loopStarted (sched r) \<Longrightarrow> cron_step z s (cron_put s i (r\<lparr>sched := cron_Start (sched r)\<rparr>))"
| signal: "r = replicas s i \<Longrightarrow> cron_step z s (cron_put s i (r\<lparr>sched := snd (StopContext_signal (sched r))\<rparr>))"
| exit: "r = replicas s i \<Longrightarrow> loopStarted (sched r) \<Longrightarrow> acquiring r = None \<Longrightarrow>
    cron_step z s (cron_put s i (r\<lparr>sched := loop_exit (sched r)\<rparr>))"
| tick: "r = replicas s i \<Longrightarrow> loopStarted (sched r) \<Longrightarrow> \<not> stoppedClosed (sched r) \<Longrightarrow> acquiring r = None \<Longrightarrow>
    cron_step z s (cron_put s i (r\<lparr>acquiring := Some (now, c, AcquireTick (lease r) (tick_of now))\<rparr>))"
| call: "r = replicas s i \<Longrightarrow> acquiring r = Some (now, c, Call q k) \<Longrightarrow> db_may c q (clusterDb s) a db' \<Longrightarrow>
    cron_step z s (cron_put (s\<lparr>clusterDb := db'\<rparr>) i (r\<lparr>acquiring := Some (now, c, k a)\<rparr>))"
| panic: "r = replicas s i \<Longrightarrow> acquiring r = Some (now, c, p) \<Longrightarrow>
    cron_step z s (cron_put s i (snd (tick_end z r now c (Panicked msg) (lease r))))"
| skip: "r = replicas s i \<Longrightarrow> acquiring r = Some (now, c, Ret (a, p)) \<Longrightarrow> tick_end z r now c (Returned a) p = (False, r') \<Longrightarrow>
    cron_step z s (cron_put s i r')"
| fire: "r = replicas s i \<Longrightarrow> acquiring r = Some (now, c, Ret (a, p)) \<Longrightarrow> tick_end z r now c (Returned a) p = (True, r') \<Longrightarrow>
    cron_step z s (cron_put (s\<lparr>fired := fired s @ [(i, now, started_jobs (sched r) (sched r'))]\<rparr>) i r')"
| job_ends: "r = replicas s i \<Longrightarrow> n < length (inflight (sched r)) \<Longrightarrow>
    cron_step z s (cron_put s i (r\<lparr>sched := job_exit (sched r) n env\<rparr>))"
| release_call: "r = replicas s i \<Longrightarrow> releasing r = xs @ (c, Call q k) # ys \<Longrightarrow> db_may c q (clusterDb s) a db' \<Longrightarrow>
    cron_step z s (cron_put (s\<lparr>clusterDb := db'\<rparr>) i (r\<lparr>releasing := xs @ (c, k a) # ys\<rparr>))"
| release_panics: "r = replicas s i \<Longrightarrow> releasing r = xs @ (c, p) # ys \<Longrightarrow>
    cron_step z s (cron_put s i (r\<lparr>sched := releaseSafely (sched r) (Panicked msg), releasing := xs @ ys\<rparr>))"
| release_ends: "r = replicas s i \<Longrightarrow> releasing r = xs @ (c, Ret ()) # ys \<Longrightarrow>
    cron_step z s (cron_put s i (r\<lparr>sched := releaseSafely (sched r) (Returned ()), releasing := xs @ ys\<rparr>))"

section \<open>One tick\<close>

definition gate_ok :: "(string \<Rightarrow> bool called) option \<Rightarrow> 'c CronJob \<Rightarrow> bool" where
  "gate_ok g j \<longleftrightarrow> (case g of None \<Rightarrow> True | Some f \<Rightarrow> f (jobName j) = Returned True)"

definition report_of :: "'c Scheduler \<Rightarrow> string \<Rightarrow> sched_fault \<Rightarrow> report list" where
  "report_of s name err =
     (case onError s of
        None \<Rightarrow> [Logged name err]
      | Some h \<Rightarrow> ToOnError name err # (case h name err of Returned _ \<Rightarrow> [] | Panicked r \<Rightarrow> [OnErrorPanicked name r err]))"

definition gate_reports :: "'c Scheduler \<Rightarrow> (string \<Rightarrow> bool called) option \<Rightarrow> 'c CronJob \<Rightarrow> report list" where
  "gate_reports s g j =
     (case g of None \<Rightarrow> []
      | Some f \<Rightarrow> (case f (jobName j) of Returned _ \<Rightarrow> [] | Panicked r \<Rightarrow> report_of s (jobName j) (GatePanic r)))"

lemma reportError_eq: "reportError s name err = s\<lparr>reports := reports s @ report_of s name err\<rparr>"
  by (simp add: reportError_def report_of_def split: option.splits called.splits)

lemma start_jobs_eq:
  "start_jobs g wg js s =
     s\<lparr>inflight := inflight s @ map (\<lambda>j. (j, wg)) (filter (gate_ok g) js),
       reports := reports s @ concat (map (gate_reports s g) js)\<rparr>"
proof (induction js arbitrary: s)
  case Nil
  then show ?case by simp
next
  case (Cons j js)
  have reports_frame: "gate_reports (s\<lparr>inflight := x, reports := y\<rparr>) g = gate_reports s g"
    "gate_reports (s\<lparr>inflight := x\<rparr>) g = gate_reports s g" "gate_reports (s\<lparr>reports := y\<rparr>) g = gate_reports s g" for x y
    by (simp_all add: gate_reports_def report_of_def fun_eq_iff split: option.splits called.splits)
  show ?case
  proof (cases g)
    case None
    then show ?thesis
      using Cons.IH [of "s\<lparr>inflight := inflight s @ [(j, wg)]\<rparr>"] by (simp add: gate_ok_def gate_reports_def)
  next
    case (Some f)
    then show ?thesis
      using reports_frame
      by (cases "f (jobName j)")
        (simp_all add: Cons.IH [unfolded Some] gateAllow_def reportError_eq gate_ok_def gate_reports_def [of s _ j])
  qed
qed

lemma runOnce_eq:
  "runOnce s z now wg =
     s\<lparr>inflight := inflight s @ map (\<lambda>j. (j, wg)) (filter (gate_ok (cronGate s)) (firing_jobs s z now)),
       reports := reports s @ concat (map (gate_reports s (cronGate s)) (firing_jobs s z now))\<rparr>"
  by (simp add: runOnce_def start_jobs_eq)

lemma releaseSafely_frame [simp]:
  "inflight (releaseSafely s a) = inflight s" "cronJobs (releaseSafely s a) = cronJobs s"
  "stoppedClosed (releaseSafely s a) = stoppedClosed s" "loopStarted (releaseSafely s a) = loopStarted s"
  by (simp_all add: releaseSafely_def reportError_eq split: called.splits)

lemma job_exit_frame [simp]:
  "cronJobs (job_exit s n c) = cronJobs s"
  "stoppedClosed (job_exit s n c) = stoppedClosed s" "loopStarted (job_exit s n c) = loopStarted s"
  by (simp_all add: job_exit_def reportError_eq Let_def split: prod.splits called.splits option.splits)

lemma job_exit_inflight: "inflight (job_exit s n c) = take n (inflight s) @ drop (Suc n) (inflight s)"
  by (simp add: job_exit_def reportError_eq Let_def split: prod.splits called.splits option.splits)

text \<open>The outcomes of a tick once its lease has answered.\<close>

lemma runTick_acquired_fires:
  "fst (runTick_acquired claims s z now wg a) \<longleftrightarrow> (\<exists>release. a = Returned (True, release, None))"
  by (auto simp: runTick_acquired_def acquireSafely_def split: called.splits prod.splits option.splits)

lemma runTick_acquired_idle:
  "runTick_acquired claims s z now wg a = (False, s', plan) \<Longrightarrow>
     plan = NoRelease \<and> s' = s\<lparr>reports := reports s'\<rparr>"
  by (auto simp: runTick_acquired_def acquireSafely_def reportError_eq split: called.splits prod.splits option.splits if_splits)

section \<open>The claim of a tick\<close>

primrec no_upsert :: "'a prog \<Rightarrow> bool" where
  "no_upsert (Ret r) \<longleftrightarrow> True"
| "no_upsert (Call q k) \<longleftrightarrow> (\<forall>key t. q \<noteq> UpsertTick key t) \<and> (\<forall>a. no_upsert (k a))"

text \<open>A program that ends with the lease held only after its one claim of the tick answered one row.\<close>

primrec claims_first :: "int \<Rightarrow> gotime \<Rightarrow> acquired prog \<Rightarrow> bool" where
  "claims_first key t (Ret r) \<longleftrightarrow> \<not> fst (fst r)"
| "claims_first key t (Call q k) \<longleftrightarrow>
     (\<forall>a. if q = UpsertTick key t then (if a = Rows (Some 1) then no_upsert (k a) else claims_first key t (k a))
          else (\<forall>key' t'. q \<noteq> UpsertTick key' t') \<and> claims_first key t (k a))"

text \<open>A program whose lease keeps its key and whose release makes no claim.\<close>

primrec lease_prog :: "int \<Rightarrow> acquired prog \<Rightarrow> bool" where
  "lease_prog key (Ret r) \<longleftrightarrow>
     leaseKey (snd r) = key \<and> (\<forall>release. fst (snd (fst r)) = Some release \<longrightarrow> no_upsert release)"
| "lease_prog key (Call q k) \<longleftrightarrow> (\<forall>a. lease_prog key (k a))"

lemma no_upsert_unlocker: "no_upsert (unlocker p)"
  by (simp add: unlocker_def)

lemma AcquireTick_claims_first: "claims_first (leaseKey p) t (AcquireTick p t)"
  by (simp add: AcquireTick_def lease_lock_def claimTick_def ensureTicksTable_def unlocker_def
      split: answer.split option.split)

lemma AcquireTick_lease_prog: "lease_prog (leaseKey p) (AcquireTick p t)"
  by (simp add: AcquireTick_def lease_lock_def claimTick_def ensureTicksTable_def unlocker_def
      split: answer.split option.split)

definition last_tick :: "tick_db \<Rightarrow> int \<Rightarrow> gotime option" where
  "last_tick db key = Option.bind (ticksTable db) (\<lambda>rows. map_of rows key)"

lemma upsert_tick_last:
  "map_of (snd (upsert_tick key t rows)) key =
     (case map_of rows key of None \<Rightarrow> Some t | Some l \<Rightarrow> Some (max l t))"
  "fst (upsert_tick key t rows) = 1 \<longleftrightarrow> (\<forall>l. map_of rows key = Some l \<longrightarrow> l < t)"
  by (auto simp: upsert_tick_def update_conv' map_add_def max_def split: option.splits)

lemma last_tick_other:
  "db_may c q db a db' \<Longrightarrow> \<forall>key' t. q \<noteq> UpsertTick key' t \<Longrightarrow> last_tick db' key = last_tick db key"
  by (cases q) (auto simp: db_may_def last_tick_def split: option.splits if_splits prod.splits)

lemma upsert_call:
  "fst (db_call c (UpsertTick key t) db) = Rows (Some 1) \<longleftrightarrow> ticksTable db \<noteq> None \<and> (\<forall>l. last_tick db key = Some l \<longrightarrow> l < t)"
  "last_tick (snd (db_call c (UpsertTick key t) db)) key =
     (case ticksTable db of None \<Rightarrow> None
      | Some rows \<Rightarrow> (case last_tick db key of None \<Rightarrow> Some t | Some l \<Rightarrow> Some (max l t)))"
  by (simp_all add: last_tick_def upsert_tick_last case_prod_beta del: One_nat_def split: option.split)

lemma upsert_may:
  assumes "db_may c (UpsertTick key t) db a db'"
  shows "last_tick db' key = last_tick db key \<and> a \<noteq> Rows (Some 1)
    \<or> last_tick db' key = last_tick (snd (db_call c (UpsertTick key t) db)) key
      \<and> (a = Rows (Some 1) \<longrightarrow> fst (db_call c (UpsertTick key t) db) = Rows (Some 1))"
  using assms unfolding db_may_def by (metis answer.distinct(5) answer.inject(2) fst_conv snd_conv option.distinct(1))

lemma last_tick_upsert:
  assumes "db_may c (UpsertTick key t) db a db'"
  shows last_tick_grows: "last_tick db key = Some l \<Longrightarrow> \<exists>l'. last_tick db' key = Some l' \<and> l \<le> l'"
    and last_tick_claimed: "a = Rows (Some 1) \<Longrightarrow> last_tick db' key = Some t \<and> (\<forall>l. last_tick db key = Some l \<longrightarrow> l < t)"
proof -
  show "last_tick db key = Some l \<Longrightarrow> \<exists>l'. last_tick db' key = Some l' \<and> l \<le> l'"
    using upsert_may [OF assms] upsert_call(2) [of c key t db]
    by (cases "ticksTable db") (auto simp: last_tick_def)
  assume "a = Rows (Some 1)"
  then have "last_tick db' key = last_tick (snd (db_call c (UpsertTick key t) db)) key"
    and "ticksTable db \<noteq> None" and less: "\<forall>l. last_tick db key = Some l \<longrightarrow> l < t"
    using upsert_may [OF assms] upsert_call(1) [of c key t db] by blast+
  then show "last_tick db' key = Some t \<and> (\<forall>l. last_tick db key = Some l \<longrightarrow> l < t)"
    using upsert_call(2) [of c key t db] by (auto split: option.splits simp: max_def)
qed

section \<open>At most one replica fires a minute\<close>

abbreviation past :: "tick_db \<Rightarrow> int \<Rightarrow> gotime \<Rightarrow> bool" where
  "past db key t \<equiv> \<exists>l. last_tick db key = Some l \<and> t \<le> l"

abbreviation fired_ticks :: "'c cron_cluster \<Rightarrow> gotime list" where
  "fired_ticks s \<equiv> map (\<lambda>(i, now, js). tick_of now) (fired s)"

text \<open>Replica \<open>i\<close> holds the claim of \<open>t\<close> and has not fired it yet.\<close>

definition claimed :: "int \<Rightarrow> 'c cron_cluster \<Rightarrow> nat \<Rightarrow> gotime \<Rightarrow> bool" where
  "claimed key s i t \<longleftrightarrow>
     (\<exists>now c p. acquiring (replicas s i) = Some (now, c, p) \<and> t = tick_of now \<and> \<not> claims_first key t p)"

definition cron_replica_ok :: "int \<Rightarrow> 'c cron_replica \<Rightarrow> bool" where
  "cron_replica_ok key r \<longleftrightarrow>
     leaseKey (lease r) = key \<and> (\<forall>(c, p) \<in> set (releasing r). no_upsert p)
     \<and> (\<forall>now c p. acquiring r = Some (now, c, p) \<longrightarrow> lease_prog key p \<and> (claims_first key (tick_of now) p \<or> no_upsert p))"

definition ticks_ok :: "int \<Rightarrow> 'c cron_cluster \<Rightarrow> bool" where
  "ticks_ok key s \<longleftrightarrow>
     distinct (fired_ticks s)
     \<and> (\<forall>t \<in> set (fired_ticks s). past (clusterDb s) key t)
     \<and> (\<forall>i t. claimed key s i t \<longrightarrow> past (clusterDb s) key t \<and> t \<notin> set (fired_ticks s))
     \<and> (\<forall>i j t. claimed key s i t \<longrightarrow> claimed key s j t \<longrightarrow> i = j)"

definition cron_ok :: "int \<Rightarrow> 'c cron_cluster \<Rightarrow> bool" where
  "cron_ok key s \<longleftrightarrow> (\<forall>i. cron_replica_ok key (replicas s i)) \<and> ticks_ok key s"

lemma cron_put_simps [simp]:
  "replicas (cron_put s i r) = (replicas s)(i := r)" "clusterDb (cron_put s i r) = clusterDb s"
  "fired (cron_put s i r) = fired s"
  by (simp_all add: cron_put_def)

text \<open>Steps that make no claim and fire nothing.\<close>

lemma ticks_ok_mono:
  assumes "ticks_ok key s" "fired s' = fired s"
    and "\<And>t. past (clusterDb s) key t \<Longrightarrow> past (clusterDb s') key t"
    and "\<And>i t. claimed key s' i t \<Longrightarrow> claimed key s i t"
  shows "ticks_ok key s'"
proof -
  have f: "fired_ticks s' = fired_ticks s" using assms(2) by simp
  show ?thesis
    using assms(1,3,4) unfolding ticks_ok_def f by blast
qed

lemma quiet_step:
  assumes ok: "cron_ok key s" and r: "cron_replica_ok key r'"
    and acq: "acquiring r' = acquiring (replicas s i) \<or> (\<forall>now c p. acquiring r' = Some (now, c, p) \<longrightarrow> claims_first key (tick_of now) p)"
  shows "cron_ok key (cron_put s i r')"
proof -
  have "ticks_ok key (cron_put s i r')"
  proof (rule ticks_ok_mono)
    show "ticks_ok key s" using ok by (simp add: cron_ok_def)
    show "claimed key s j t" if "claimed key (cron_put s i r') j t" for j t
      using that acq by (auto simp: claimed_def split: if_splits)
  qed simp_all
  then show ?thesis
    using ok r by (simp add: cron_ok_def)
qed

text \<open>The call of a replica that is acquiring.\<close>

lemma past_may:
  assumes "db_may c q db a db'" "\<And>key' t. q = UpsertTick key' t \<Longrightarrow> key' = key" "past db key u"
  shows "past db' key u"
proof (cases "\<exists>key' t. q = UpsertTick key' t")
  case True
  then obtain t where q: "q = UpsertTick key t" using assms(2) by blast
  obtain l where l: "last_tick db key = Some l" "u \<le> l" using assms(3) by blast
  then show ?thesis using last_tick_grows [OF assms(1) [unfolded q] l(1)] by (meson order_trans)
next
  case False
  then show ?thesis using assms(3) last_tick_other [OF assms(1)] by simp
qed

lemma call_replica_ok:
  assumes "cron_replica_ok key r" "acquiring r = Some (now, c, Call q k)"
  shows "cron_replica_ok key (r\<lparr>acquiring := Some (now, c, k a)\<rparr>)"
  using assms by (auto simp: cron_replica_ok_def split: if_splits)

lemma call_key:
  assumes "cron_replica_ok key r" "acquiring r = Some (now, c, Call q k)" "q = UpsertTick key' t"
  shows "key' = key" "t = tick_of now" "claims_first key (tick_of now) (Call q k)"
  using assms by (auto simp: cron_replica_ok_def split: if_splits)

lemma call_step:
  assumes ok: "cron_ok key s" and acq: "acquiring (replicas s i) = Some (now, c, Call q k)"
    and may: "db_may c q (clusterDb s) a db'"
  shows "cron_ok key (cron_put (s\<lparr>clusterDb := db'\<rparr>) i ((replicas s i)\<lparr>acquiring := Some (now, c, k a)\<rparr>))"
    (is "cron_ok key ?s")
proof -
  have rok: "cron_replica_ok key (replicas s j)" for j using ok by (simp add: cron_ok_def)
  have t: "ticks_ok key s" using ok by (simp add: cron_ok_def)
  have past: "past (clusterDb s) key u \<Longrightarrow> past db' key u" for u
    by (rule past_may [OF may]) (use call_key [OF rok acq] in blast)+
  have other: "claimed key ?s j t \<longleftrightarrow> claimed key s j t" if "j \<noteq> i" for j t
    using that by (simp add: claimed_def)
  have "ticks_ok key ?s"
  proof (cases "q = UpsertTick key (tick_of now) \<and> a = Rows (Some 1)")
    case True
    note won = last_tick_claimed [OF may [unfolded True [THEN conjunct1]] True [THEN conjunct2]]
    have old: "past (clusterDb s) key u \<Longrightarrow> u < tick_of now" for u
      using won by (meson le_less_trans)
    have mine: "claimed key ?s i u \<Longrightarrow> u = tick_of now" for u
      by (auto simp: claimed_def)
    have fired: "\<And>u. u \<in> set (fired_ticks s) \<Longrightarrow> past (clusterDb s) key u"
      and theirs: "\<And>j u. claimed key s j u \<Longrightarrow> past (clusterDb s) key u \<and> u \<notin> set (fired_ticks s)"
      and uniq: "\<And>j l u. claimed key s j u \<Longrightarrow> claimed key s l u \<Longrightarrow> j = l"
      using t unfolding ticks_ok_def by blast+
    have now: "past db' key (tick_of now)" using won by simp
    have claim: "past db' key u \<and> u \<notin> set (fired_ticks s)" if "claimed key ?s j u" for j u
    proof (cases "j = i")
      case True
      then have "u = tick_of now" using that mine by blast
      then show ?thesis using now fired old by blast
    next
      case False
      then show ?thesis using that other theirs past by blast
    qed
    moreover have fresh: "u \<noteq> tick_of now" if "claimed key s j u" for j u
      using theirs [OF that] old by blast
    moreover have "j = l" if "claimed key ?s j u" "claimed key ?s l u" for j l u
    proof (rule ccontr)
      assume "j \<noteq> l"
      then consider "j = i" "l \<noteq> i" | "l = i" "j \<noteq> i" | "j \<noteq> i" "l \<noteq> i" by blast
      then show False
        using that mine other fresh uniq \<open>j \<noteq> l\<close> by cases blast+
    qed
    ultimately show ?thesis
      using t past unfolding ticks_ok_def by simp
  next
    case False
    show ?thesis
    proof (rule ticks_ok_mono [OF t])
      show "claimed key s j u" if "claimed key ?s j u" for j u
      proof (cases "j = i")
        case True
        then have u: "u = tick_of now" and "\<not> claims_first key u (k a)" using that by (auto simp: claimed_def)
        have "\<not> claims_first key u (Call q k)"
        proof
          assume "claims_first key u (Call q k)"
          then have "claims_first key u (k a)"
            unfolding claims_first.simps using False u by (auto dest: spec [of _ a] split: if_splits)
          then show False using \<open>\<not> claims_first key u (k a)\<close> by contradiction
        qed
        then show ?thesis using True acq u by (auto simp: claimed_def)
      next
        case False
        then show ?thesis using that other by blast
      qed
    qed (use past in simp_all)
  qed
  then show ?thesis
    using rok call_replica_ok [OF rok acq] by (simp add: cron_ok_def)
qed

lemma release_call_step:
  assumes ok: "cron_ok key s" and rel: "releasing (replicas s i) = xs @ (c, Call q k) # ys"
    and may: "db_may c q (clusterDb s) a db'"
  shows "cron_ok key (cron_put (s\<lparr>clusterDb := db'\<rparr>) i ((replicas s i)\<lparr>releasing := xs @ (c, k a) # ys\<rparr>))"
    (is "cron_ok key ?s")
proof -
  have rok: "cron_replica_ok key (replicas s j)" for j using ok by (simp add: cron_ok_def)
  have quiet: "no_upsert (Call q k)" using rok [of i] rel by (simp add: cron_replica_ok_def)
  have "ticks_ok key ?s"
  proof (rule ticks_ok_mono)
    show "ticks_ok key s" using ok by (simp add: cron_ok_def)
    show "past (clusterDb ?s) key t" if "past (clusterDb s) key t" for t
      using that quiet last_tick_other [OF may] by simp
    show "claimed key s j t" if "claimed key ?s j t" for j t
      using that by (auto simp: claimed_def split: if_splits)
  qed simp
  moreover have "cron_replica_ok key ((replicas s i)\<lparr>releasing := xs @ (c, k a) # ys\<rparr>)"
    using rok [of i] rel quiet by (auto simp: cron_replica_ok_def)
  ultimately show ?thesis
    using rok by (simp add: cron_ok_def)
qed

lemma tick_end_ok:
  assumes "cron_replica_ok key r" "lease_prog key (Ret (a, p))"
  shows "cron_replica_ok key (snd (tick_end z r now c (Returned a) p))"
    and "acquiring (snd (tick_end z r now c (Returned a) p)) = None"
  using assms by (cases a; auto simp: tick_end_def cron_replica_ok_def runTick_acquired_def acquireSafely_def
      split: option.splits release_plan.splits if_splits)+

lemma tick_end_panic_ok:
  assumes "cron_replica_ok key r"
  shows "cron_replica_ok key (snd (tick_end z r now c (Panicked msg) (lease r)))"
    and "acquiring (snd (tick_end z r now c (Panicked msg) (lease r))) = None"
  using assms by (simp_all add: tick_end_def cron_replica_ok_def runTick_acquired_def acquireSafely_def)

lemma fire_step:
  assumes ok: "cron_ok key s" and acq: "acquiring (replicas s i) = Some (now, c, Ret (a, p))"
    and e: "tick_end z (replicas s i) now c (Returned a) p = (True, r')"
  shows "cron_ok key (cron_put (s\<lparr>fired := fired s @ [(i, now, js)]\<rparr>) i r')"
    (is "cron_ok key ?s")
proof -
  have rok: "cron_replica_ok key (replicas s j)" for j using ok by (simp add: cron_ok_def)
  have lp: "lease_prog key (Ret (a, p))" using rok [of i] acq by (auto simp: cron_replica_ok_def)
  have r': "r' = snd (tick_end z (replicas s i) now c (Returned a) p)" using e by simp
  have "fst a"
    using e runTick_acquired_fires [of True "sched (replicas s i)" z now 0 "Returned a"]
    by (auto simp: tick_end_def split: prod.splits)
  then have mine: "claimed key s i (tick_of now)" using acq by (auto simp: claimed_def)
  have gone: "claimed key ?s j t \<longleftrightarrow> j \<noteq> i \<and> claimed key s j t" for j t
    using tick_end_ok(2) [OF rok lp] by (auto simp: claimed_def r')
  have t: "ticks_ok key s" using ok by (simp add: cron_ok_def)
  then have "past (clusterDb s) key (tick_of now)" "tick_of now \<notin> set (fired_ticks s)"
    "\<And>j. claimed key s j (tick_of now) \<Longrightarrow> j = i"
    using mine unfolding ticks_ok_def by blast+
  moreover have f: "fired_ticks ?s = fired_ticks s @ [tick_of now]" by simp
  ultimately have "ticks_ok key ?s"
    using t unfolding ticks_ok_def gone f set_append cron_put_simps by (simp del: set_map) blast
  then show ?thesis
    using rok tick_end_ok(1) [OF rok lp] by (simp add: cron_ok_def r')
qed

lemma release_done_step:
  assumes ok: "cron_ok key s" and rel: "releasing (replicas s i) = xs @ (c, p) # ys"
  shows "cron_ok key (cron_put s i ((replicas s i)\<lparr>sched := sc, releasing := xs @ ys\<rparr>))"
proof (rule quiet_step [OF ok])
  have "cron_replica_ok key (replicas s i)" using ok by (simp add: cron_ok_def)
  then show "cron_replica_ok key ((replicas s i)\<lparr>sched := sc, releasing := xs @ ys\<rparr>)"
    using rel by (auto simp: cron_replica_ok_def)
qed simp

lemma cron_ok_step:
  assumes "cron_step z s s'" "cron_ok key s"
  shows "cron_ok key s'"
  using assms
proof (induction rule: cron_step.induct)
  case (tick r s i now c)
  then have "cron_replica_ok key r" by (simp add: cron_ok_def)
  then show ?case
    using tick AcquireTick_claims_first AcquireTick_lease_prog by (intro quiet_step) (auto simp: cron_replica_ok_def)
next
  case (call r s i now c q k a db')
  then show ?case using call_step by blast
next
  case (panic r s i now c p msg)
  then have "cron_replica_ok key r" by (simp add: cron_ok_def)
  from tick_end_panic_ok [OF this, where z = z and now = now and c = c and msg = msg] show ?case
    using panic by (intro quiet_step) simp_all
next
  case (skip r s i now c a p r')
  then have "cron_replica_ok key r" by (simp add: cron_ok_def)
  moreover have "lease_prog key (Ret (a, p))" using calculation skip(2) by (auto simp: cron_replica_ok_def)
  ultimately have "cron_replica_ok key r'" "acquiring r' = None"
    using skip(3) tick_end_ok by (metis snd_conv)+
  then show ?case
    using skip by (intro quiet_step) simp_all
next
  case (fire r s i now c a p r')
  then show ?case using fire_step by blast
next
  case (release_call r s i xs c q k ys a db')
  then show ?case using release_call_step by blast
next
  case (release_panics r s i xs c p ys msg)
  then show ?case using release_done_step by blast
next
  case (release_ends r s i xs c ys)
  then show ?case using release_done_step by blast
qed (intro quiet_step; simp add: cron_ok_def cron_replica_ok_def; blast)+

lemma cron_ok_boot: "cron_ok key (cron_boot key db)"
  by (simp add: cron_ok_def cron_boot_def new_replica_def NewPostgresAdvisoryLease_def cron_replica_ok_def ticks_ok_def
      claimed_def)

section \<open>Which jobs a tick starts\<close>

definition parsed :: "'c Scheduler \<Rightarrow> bool" where
  "parsed s \<longleftrightarrow> (\<forall>sj \<in> set (cronJobs s). ParseCron (jobSpec (job sj)) = Inr (expr sj))"

definition job_due :: "zone \<Rightarrow> gotime \<Rightarrow> 'c CronJob \<Rightarrow> bool" where
  "job_due z now j \<longleftrightarrow> (\<exists>e. ParseCron (jobSpec j) = Inr e \<and> FiresAt e z (now - minute_ns) now)"

definition starts_ok :: "zone \<Rightarrow> 'c cron_cluster \<Rightarrow> bool" where
  "starts_ok z s \<longleftrightarrow> (\<forall>i. parsed (sched (replicas s i))) \<and> (\<forall>(i, now, js) \<in> set (fired s). \<forall>j \<in> set js. job_due z now j)"

lemma Register_parsed: "parsed s \<Longrightarrow> cron_Register s j = Inr s' \<Longrightarrow> parsed s'"
  by (auto simp: cron_Register_def parsed_def split: if_splits sum.splits)

lemma firing_jobs_due: "parsed s \<Longrightarrow> j \<in> set (firing_jobs s z now) \<Longrightarrow> job_due z now j"
  by (auto simp: firing_jobs_def parsed_def job_due_def)

lemma runTick_acquired_frame:
  "runTick_acquired claims s z now wg a = (f, s', plan) \<Longrightarrow> cronJobs s' = cronJobs s"
  by (auto simp: runTick_acquired_def acquireSafely_def RunOnce_def runOnce_eq reportError_eq
      split: called.splits option.splits if_splits)

lemma tick_end_cronJobs: "cronJobs (sched (snd (tick_end z r now c a p))) = cronJobs (sched r)"
  by (cases "runTick_acquired True (sched r) z now 0 a") (simp add: tick_end_def runTick_acquired_frame)

lemma tick_end_started:
  assumes "tick_end z r now c a p = (True, r')"
  shows "started_jobs (sched r) (sched r') = filter (gate_ok (cronGate (sched r))) (firing_jobs (sched r) z now)"
  using assms
  by (auto simp: tick_end_def started_jobs_def runTick_acquired_def RunOnce_def runOnce_eq comp_def
      split: prod.splits option.splits if_splits)

lemma starts_ok_step:
  assumes "cron_step z s s'" "starts_ok z s"
  shows "starts_ok z s'"
  using assms
proof (induction rule: cron_step.induct)
  case (register r s i j sc)
  then show ?case using Register_parsed [of "sched r" j sc] by (auto simp: starts_ok_def)
next
  case (panic r s i now c p msg)
  then show ?case by (auto simp: starts_ok_def parsed_def tick_end_cronJobs)
next
  case (skip r s i now c a p r')
  then have "cronJobs (sched r') = cronJobs (sched r)" using tick_end_cronJobs by (metis snd_conv)
  then show ?case using skip by (auto simp: starts_ok_def parsed_def)
next
  case (fire r s i now c a p r')
  then have "cronJobs (sched r') = cronJobs (sched r)" using tick_end_cronJobs by (metis snd_conv)
  moreover have "\<forall>j \<in> set (started_jobs (sched r) (sched r')). job_due z now j"
    using fire tick_end_started [OF fire(3)] firing_jobs_due [of "sched r"] by (simp add: starts_ok_def)
  ultimately show ?case using fire by (auto simp: starts_ok_def parsed_def)
qed (auto simp: starts_ok_def parsed_def cron_SetGate_def cron_Start_def StopContext_signal_def loop_exit_def)

lemma starts_ok_boot: "starts_ok z (cron_boot key db)"
  by (simp add: starts_ok_def cron_boot_def new_replica_def NewScheduler_def parsed_def)

abbreviation cron_run :: "zone \<Rightarrow> 'c cron_cluster \<Rightarrow> 'c cron_cluster \<Rightarrow> bool" where
  "cron_run z \<equiv> (cron_step z)\<^sup>*\<^sup>*"

lemma cron_run_ok:
  assumes "cron_run z (cron_boot key db) s"
  shows "cron_ok key s" "starts_ok z s"
proof -
  have "cron_ok key s \<and> starts_ok z s"
    using assms
    by (induction rule: rtranclp_induct) (auto intro: cron_ok_boot starts_ok_boot cron_ok_step starts_ok_step)
  then show "cron_ok key s" "starts_ok z s" by simp_all
qed

section \<open>Shutdown\<close>

definition stopped_ok :: "'c cron_cluster \<Rightarrow> bool" where
  "stopped_ok s \<longleftrightarrow> (\<forall>i. stoppedClosed (sched (replicas s i)) \<longrightarrow> acquiring (replicas s i) = None)"

lemma tick_end_stopped:
  "stoppedClosed (sched (snd (tick_end z r now c a p))) = stoppedClosed (sched r)"
  "acquiring (snd (tick_end z r now c a p)) = None"
  by (auto simp: tick_end_def runTick_acquired_def RunOnce_def runOnce_eq reportError_eq split: prod.splits option.splits if_splits)

lemma stopped_ok_step:
  assumes "cron_step z s s'" "stopped_ok s"
  shows "stopped_ok s'"
  using assms
proof (induction rule: cron_step.induct)
  case (skip r s i now c a p r')
  then have "acquiring r' = None" using tick_end_stopped by (metis snd_conv)
  then show ?case using skip by (simp add: stopped_ok_def)
next
  case (fire r s i now c a p r')
  then have "acquiring r' = None" using tick_end_stopped by (metis snd_conv)
  then show ?case using fire by (simp add: stopped_ok_def)
qed (auto simp: stopped_ok_def tick_end_stopped cron_Register_def cron_SetGate_def cron_Start_def StopContext_signal_def
    loop_exit_def split: if_splits sum.splits)

definition drained :: "'c cron_cluster \<Rightarrow> nat \<Rightarrow> bool" where
  "drained s i \<longleftrightarrow> stoppedClosed (sched (replicas s i)) \<and> inflight (sched (replicas s i)) = [] \<and> acquiring (replicas s i) = None"

lemma drained_step:
  assumes "cron_step z s s'" "drained s i"
  shows "drained s' i \<and> filter (\<lambda>(j, _). j = i) (fired s') = filter (\<lambda>(j, _). j = i) (fired s)"
  using assms
  by (induction rule: cron_step.induct)
    (auto simp: drained_def cron_Register_def cron_SetGate_def cron_Start_def StopContext_signal_def loop_exit_def
      split: if_splits sum.splits)

lemma drained_run:
  assumes "cron_run z s s'" "drained s i"
  shows "drained s' i \<and> filter (\<lambda>(j, _). j = i) (fired s') = filter (\<lambda>(j, _). j = i) (fired s)"
  using assms by (induction rule: rtranclp_induct) (simp, metis drained_step)

section \<open>An undisturbed acquisition\<close>

lemma run_prog_bind: "run_prog c (prog_bind p f) db = (case run_prog c p db of (a, db') \<Rightarrow> run_prog c (f a) db')"
  by (induction p arbitrary: db) (simp_all add: case_prod_beta)

definition lock_free :: "tick_db \<Rightarrow> int \<Rightarrow> bool" where
  "lock_free db key \<longleftrightarrow> advisory db key = None"

lemma run_lock:
  "lock_free db (leaseKey p) \<Longrightarrow>
     run_prog c (lease_lock p) db = (Inr True, db\<lparr>advisory := (advisory db)(leaseKey p := Some (c, 1))\<rparr>)"
  by (simp add: lease_lock_def lock_free_def)

lemma run_unlocker:
  assumes "advisory db (leaseKey p) = Some (c, 1)"
  shows "run_prog c (unlocker p) db = ((), db\<lparr>advisory := (advisory db)(leaseKey p := None)\<rparr>)"
  using assms by (simp add: unlocker_def)

definition table_seen :: "PostgresAdvisoryLease \<Rightarrow> tick_db \<Rightarrow> bool" where
  "table_seen p db \<longleftrightarrow> (tableReady p \<longrightarrow> ticksTable db \<noteq> None)"

lemma run_claimTick:
  assumes "table_seen p db"
  obtains db' where
    "run_prog c (claimTick p t) db =
       ((Inr (\<forall>l. last_tick db (leaseKey p) = Some l \<longrightarrow> l < t), p\<lparr>tableReady := True\<rparr>), db')"
    "advisory db' = advisory db"
    "last_tick db' (leaseKey p) = (case last_tick db (leaseKey p) of None \<Rightarrow> Some t | Some l \<Rightarrow> Some (max l t))"
proof -
  define rows where "rows = (case ticksTable db of None \<Rightarrow> [] | Some rows \<Rightarrow> rows)"
  define db' where "db' = db\<lparr>ticksTable := Some (snd (upsert_tick (leaseKey p) t rows))\<rparr>"
  have last: "last_tick db (leaseKey p) = map_of rows (leaseKey p)"
    by (simp add: last_tick_def rows_def split: option.split)
  have "run_prog c (claimTick p t) db = ((Inr (fst (upsert_tick (leaseKey p) t rows) = 1), p\<lparr>tableReady := True\<rparr>), db')"
    using assms
    by (cases "ticksTable db")
      (simp_all add: claimTick_def ensureTicksTable_def run_prog_bind table_seen_def db'_def rows_def case_prod_beta)
  moreover have "last_tick db' (leaseKey p) = (case last_tick db (leaseKey p) of None \<Rightarrow> Some t | Some l \<Rightarrow> Some (max l t))"
    by (simp add: last upsert_tick_last(1)) (simp add: last_tick_def db'_def upsert_tick_last(1))
  ultimately show ?thesis
    using that by (simp add: last upsert_tick_last(2) del: One_nat_def) (simp add: db'_def)
qed

text \<open>The lock with its claim, and the release, when every call succeeds.\<close>

lemma run_AcquireTick:
  assumes free: "lock_free db (leaseKey p)" and seen: "table_seen p db"
  obtains db' where
    "last_tick db' (leaseKey p) = (case last_tick db (leaseKey p) of None \<Rightarrow> Some t | Some l \<Rightarrow> Some (max l t))"
    "if \<forall>l. last_tick db (leaseKey p) = Some l \<longrightarrow> l < t
     then run_prog c (AcquireTick p t) db
            = (((True, Some (unlocker (p\<lparr>tableReady := True\<rparr>)), None), p\<lparr>tableReady := True\<rparr>), db')
          \<and> lock_free (snd (run_prog c (unlocker (p\<lparr>tableReady := True\<rparr>)) db')) (leaseKey p)
     else run_prog c (AcquireTick p t) db = (((False, None, None), p\<lparr>tableReady := True\<rparr>), db')
          \<and> lock_free db' (leaseKey p)"
proof -
  define db1 where "db1 = db\<lparr>advisory := (advisory db)(leaseKey p := Some (c, 1))\<rparr>"
  have seen1: "table_seen p db1" and last1: "last_tick db1 = last_tick db"
    using seen by (simp_all add: db1_def table_seen_def last_tick_def fun_eq_iff)
  obtain db2 where db2:
    "run_prog c (claimTick p t) db1 =
       ((Inr (\<forall>l. last_tick db (leaseKey p) = Some l \<longrightarrow> l < t), p\<lparr>tableReady := True\<rparr>), db2)"
    "advisory db2 = advisory db1"
    "last_tick db2 (leaseKey p) = (case last_tick db (leaseKey p) of None \<Rightarrow> Some t | Some l \<Rightarrow> Some (max l t))"
    by (rule run_claimTick [OF seen1, of c t, unfolded last1])
  define p' where "p' = p\<lparr>tableReady := True\<rparr>"
  have unlock: "run_prog c (unlocker p') db2 = ((), db2\<lparr>advisory := (advisory db2)(leaseKey p := None)\<rparr>)"
    using run_unlocker [of db2 p' c] db2(2) by (simp add: db1_def p'_def)
  have lock: "run_prog c (lease_lock p) db = (Inr True, db1)"
    using run_lock [OF free] by (simp add: db1_def)
  show ?thesis
  proof (cases "\<forall>l. last_tick db (leaseKey p) = Some l \<longrightarrow> l < t")
    case True
    show ?thesis
    proof (rule that [of db2])
      show "last_tick db2 (leaseKey p) = (case last_tick db (leaseKey p) of None \<Rightarrow> Some t | Some l \<Rightarrow> Some (max l t))"
        by (fact db2(3))
    qed (use True lock unlock db2(1) in \<open>simp add: AcquireTick_def run_prog_bind p'_def [symmetric] lock_free_def\<close>)
  next
    case False
    show ?thesis
    proof (rule that [of "db2\<lparr>advisory := (advisory db2)(leaseKey p := None)\<rparr>"])
      show "last_tick (db2\<lparr>advisory := (advisory db2)(leaseKey p := None)\<rparr>) (leaseKey p) =
          (case last_tick db (leaseKey p) of None \<Rightarrow> Some t | Some l \<Rightarrow> Some (max l t))"
        using db2(3) by (simp add: last_tick_def)
    qed (use False lock unlock db2(1) in \<open>auto simp: AcquireTick_def run_prog_bind p'_def [symmetric] lock_free_def\<close>)
  qed
qed

text \<open>The calls of one replica, one after the other.\<close>

lemma acquire_calls:
  "acquiring (replicas s i) = Some (now, c, p) \<Longrightarrow>
     cron_run z s (cron_put (s\<lparr>clusterDb := snd (run_prog c p (clusterDb s))\<rparr>) i
       ((replicas s i)\<lparr>acquiring := Some (now, c, Ret (fst (run_prog c p (clusterDb s))))\<rparr>))"
proof (induction p arbitrary: s)
  case (Ret r)
  then have "(replicas s)(i := (replicas s i)\<lparr>acquiring := Some (now, c, Ret r)\<rparr>) = replicas s"
    by (simp add: fun_eq_iff)
  then show ?case by (simp add: cron_put_def)
next
  case (Call q k)
  obtain a db' where a: "db_call c q (clusterDb s) = (a, db')" by fastforce
  define s1 where "s1 = cron_put (s\<lparr>clusterDb := db'\<rparr>) i ((replicas s i)\<lparr>acquiring := Some (now, c, k a)\<rparr>)"
  have "cron_step z s s1"
    unfolding s1_def by (rule cron_step.call [OF refl Call.prems]) (simp add: db_may_def a)
  moreover have "cron_run z s1 (cron_put (s1\<lparr>clusterDb := snd (run_prog c (k a) db')\<rparr>) i
       ((replicas s1 i)\<lparr>acquiring := Some (now, c, Ret (fst (run_prog c (k a) db')))\<rparr>))"
    using Call.IH [of "k a" s1] by (simp add: s1_def)
  ultimately show ?case
    by (simp add: a s1_def cron_put_def)
qed

lemma fresh_tick_fires:
  assumes run: "loopStarted (sched (replicas s i))" "\<not> stoppedClosed (sched (replicas s i))" "acquiring (replicas s i) = None"
    and free: "lock_free (clusterDb s) (leaseKey (lease (replicas s i)))" and seen: "table_seen (lease (replicas s i)) (clusterDb s)"
    and new: "\<forall>l. last_tick (clusterDb s) (leaseKey (lease (replicas s i))) = Some l \<longrightarrow> l < tick_of now"
  shows "\<exists>s'. cron_run z s s' \<and>
    fired s' = fired s @ [(i, now, filter (gate_ok (cronGate (sched (replicas s i)))) (firing_jobs (sched (replicas s i)) z now))]"
proof -
  define r where "r = replicas s i"
  define s1 where "s1 = cron_put s i (r\<lparr>acquiring := Some (now, 0, AcquireTick (lease r) (tick_of now))\<rparr>)"
  have "cron_step z s s1"
    unfolding s1_def by (rule cron_step.tick) (use run in \<open>simp_all add: r_def\<close>)
  moreover obtain db' rel p' where
    ran: "run_prog 0 (AcquireTick (lease r) (tick_of now)) (clusterDb s) = (((True, rel, None), p'), db')"
    by (rule run_AcquireTick [OF free seen, of "tick_of now" 0]) (use new in \<open>simp add: r_def\<close>)
  define s2 where "s2 = cron_put (s1\<lparr>clusterDb := db'\<rparr>) i (r\<lparr>acquiring := Some (now, 0, Ret ((True, rel, None), p'))\<rparr>)"
  have "cron_run z s1 s2"
    using acquire_calls [of s1 i now 0 "AcquireTick (lease r) (tick_of now)" z] ran by (simp add: s1_def s2_def)
  moreover obtain r' where ended: "tick_end z (replicas s2 i) now 0 (Returned (True, rel, None)) p' = (True, r')"
    by (simp add: tick_end_def runTick_acquired_def acquireSafely_def)
  define s3 where "s3 = cron_put (s2\<lparr>fired := fired s2 @ [(i, now, started_jobs (sched (replicas s2 i)) (sched r'))]\<rparr>) i r'"
  have "cron_step z s2 s3"
    unfolding s3_def by (rule cron_step.fire [OF refl _ ended]) (simp add: s2_def)
  ultimately have "cron_run z s s3" by (meson converse_rtranclp_into_rtranclp rtranclp.rtrancl_into_rtrancl)
  moreover have "fired s3 = fired s @ [(i, now, filter (gate_ok (cronGate (sched r))) (firing_jobs (sched r) z now))]"
    using tick_end_started [OF ended] by (simp add: s3_def s2_def s1_def)
  ultimately show ?thesis unfolding r_def by blast
qed

section \<open>Properties\<close>

text \<open>C12. At most one replica fires a minute. Any number of replicas share one database and one lease key; their ticks,
  at whatever time each clock shows, their database calls (which may fail before or after their effect), panics of
  the driver, releases, finished jobs, registrations, starts and stops interleave in any order. Then no two ticks that
  fired were of the same minute, by two replicas or by one; and every job that a tick started was registered with a
  schedule that fires at the time of that tick.\<close>

theorem cron_tick_at_most_once:
  assumes "cron_run z (cron_boot key db) s"
  shows "distinct (map (\<lambda>(i, now, js). tick_of now) (fired s))
    \<and> (\<forall>(i, now, js) \<in> set (fired s). \<forall>j \<in> set js.
          \<exists>e. ParseCron (jobSpec j) = Inr e \<and> FiresAt e z (now - minute_ns) now)"
  using cron_run_ok [OF assms] by (auto simp: cron_ok_def ticks_ok_def starts_ok_def job_due_def)

text \<open>The Postgres lease, undisturbed. With the lock free, acquiring a tick holds exactly when no replica recorded
  this minute or a later one; the recorded minute never goes back; the lock is free again after the release, and at
  once where the tick was refused.\<close>

lemma AcquireTick_outcome:
  assumes "advisory db (leaseKey p) = None" "tableReady p \<Longrightarrow> ticksTable db \<noteq> None"
  shows "\<exists>release p' db'.
    run_prog c (AcquireTick p t) db =
      (((\<forall>l. last_tick db (leaseKey p) = Some l \<longrightarrow> l < t, release, None), p'), db')
    \<and> last_tick db' (leaseKey p) = (case last_tick db (leaseKey p) of None \<Rightarrow> Some t | Some l \<Rightarrow> Some (max l t))
    \<and> (case release of
         None \<Rightarrow> advisory db' (leaseKey p) = None
       | Some rel \<Rightarrow> advisory (snd (run_prog c rel db')) (leaseKey p) = None)"
proof -
  have "lock_free db (leaseKey p)" "table_seen p db"
    using assms by (simp_all add: lock_free_def table_seen_def)
  then show ?thesis
    by (rule run_AcquireTick [where c = c and t = t]) (auto simp: lock_free_def split: if_splits)
qed

text \<open>Shutdown. Once \<^verbatim>\<open>StopContext\<close> has returned nil for a started scheduler, its loop fires no further tick and none of
  its jobs is running, then or at any later time.\<close>

lemma cron_stop_drains:
  assumes "cron_run z (cron_boot key db) s"
    and "StopContext_wait (sched (replicas s i)) True e1 e2 = Some StopOk"
    and "cron_run z s s'"
  shows "inflight (sched (replicas s' i)) = []
    \<and> filter (\<lambda>(j, _). j = i) (fired s') = filter (\<lambda>(j, _). j = i) (fired s)"
proof -
  have "stopped_ok (cron_boot key db)"
    by (simp add: stopped_ok_def cron_boot_def new_replica_def)
  with assms(1) have "stopped_ok s"
    by (induction rule: rtranclp_induct) (auto intro: stopped_ok_step)
  then have "drained s i"
    using assms(2) by (auto simp: drained_def stopped_ok_def StopContext_wait_def split: if_splits)
  then show ?thesis
    using drained_run [OF assms(3)] by (simp add: drained_def)
qed

section \<open>Witnesses\<close>

definition example_db :: tick_db where
  "example_db = \<lparr>ticksTable = None, advisory = (\<lambda>_. None)\<rparr>"

definition example_zone :: zone where
  "example_zone = \<lparr>offset_at = (\<lambda>_. 0), period_start = (\<lambda>_. 0)\<rparr>"

text \<open>Two replicas start; the second fires the minute 5.\<close>

lemma example_fires:
  "\<exists>s. cron_run example_zone (cron_boot 7 example_db :: unit cron_cluster) s \<and> fired s = [(1, 5 * minute_ns + 3, [])]"
proof -
  define s0 :: "unit cron_cluster" where "s0 = cron_boot 7 example_db"
  define s1 where "s1 = cron_put s0 1 ((replicas s0 1)\<lparr>sched := cron_Start (sched (replicas s0 1))\<rparr>)"
  have "cron_step example_zone s0 s1"
    unfolding s1_def by (rule cron_step.start) (simp_all add: s0_def cron_boot_def new_replica_def NewScheduler_def)
  moreover have "\<exists>s'. cron_run example_zone s1 s' \<and>
      fired s' = fired s1 @ [(1, 5 * minute_ns + 3,
        filter (gate_ok (cronGate (sched (replicas s1 1)))) (firing_jobs (sched (replicas s1 1)) example_zone (5 * minute_ns + 3)))]"
    by (rule fresh_tick_fires)
      (simp_all add: s1_def s0_def cron_boot_def new_replica_def NewScheduler_def cron_Start_def lock_free_def example_db_def
        table_seen_def NewPostgresAdvisoryLease_def last_tick_def)
  moreover have "firing_jobs (sched (replicas s1 1)) example_zone (5 * minute_ns + 3) = []" "fired s1 = []"
    by (simp_all add: s1_def s0_def cron_boot_def new_replica_def NewScheduler_def cron_Start_def firing_jobs_def)
  ultimately show ?thesis
    unfolding s0_def by (simp, metis converse_rtranclp_into_rtranclp)
qed

theorem cron_tick_at_most_once_witness:
  "\<exists>s. cron_run example_zone (cron_boot 7 example_db :: unit cron_cluster) s \<and> fired s = [(1, 5 * minute_ns + 3, [])]
     \<and> distinct (map (\<lambda>(i, now, js). tick_of now) (fired s))"
  using example_fires cron_tick_at_most_once by blast

lemma AcquireTick_outcome_witness:
  "\<exists>release p' db'.
    run_prog 0 (AcquireTick (NewPostgresAdvisoryLease 7) 60) example_db = (((True, release, None), p'), db')"
  using AcquireTick_outcome [of example_db "NewPostgresAdvisoryLease 7" 0 60]
  by (auto simp: example_db_def NewPostgresAdvisoryLease_def last_tick_def)

text \<open>A scheduler that was started, stopped and drained.\<close>

lemma cron_stop_drains_witness:
  "\<exists>s. cron_run example_zone (cron_boot 7 example_db :: unit cron_cluster) s
     \<and> StopContext_wait (sched (replicas s 0)) True False False = Some StopOk
     \<and> (\<forall>s'. cron_run example_zone s s' \<longrightarrow> inflight (sched (replicas s' 0)) = [])"
proof -
  define s0 :: "unit cron_cluster" where "s0 = cron_boot 7 example_db"
  define s1 where "s1 = cron_put s0 0 ((replicas s0 0)\<lparr>sched := cron_Start (sched (replicas s0 0))\<rparr>)"
  define s2 where "s2 = cron_put s1 0 ((replicas s1 0)\<lparr>sched := loop_exit (sched (replicas s1 0))\<rparr>)"
  note defs = s2_def s1_def s0_def cron_boot_def new_replica_def NewScheduler_def cron_Start_def loop_exit_def
  have "cron_step example_zone s0 s1"
    unfolding s1_def by (rule cron_step.start) (simp_all add: defs)
  moreover have "cron_step example_zone s1 s2"
    unfolding s2_def by (rule cron_step.exit) (simp_all add: defs)
  ultimately have run: "cron_run example_zone (cron_boot 7 example_db) s2"
    unfolding s0_def by (meson converse_rtranclp_into_rtranclp rtranclp.rtrancl_refl)
  moreover have stop: "StopContext_wait (sched (replicas s2 0)) True False False = Some StopOk"
    by (simp add: StopContext_wait_def defs)
  ultimately show ?thesis
    using cron_stop_drains [OF run stop] by blast
qed

end
