(* ===== verification/Backoff.thy ===== *)
theory Backoff
  imports GoInt
begin

text \<open>
  The retry delays of \<^verbatim>\<open>core/backoff/backoff.go\<close>, shared by the outbox relay, the queue and the webhook
  batteries. Durations are 64-bit integers; the doubling is written with its wrap-around.
\<close>

section \<open>Exponential delays\<close>

text \<open>The loop of \<^verbatim>\<open>Exponential\<close>, \<open>n\<close> rounds from the delay \<open>d\<close>: \<^term>\<open>Inl\<close> is a return from inside it.\<close>

fun double_loop :: "int \<Rightarrow> nat \<Rightarrow> int \<Rightarrow> int + int" where
  "double_loop mx 0 d = Inr d"
| "double_loop mx (Suc n) d =
     (if mx > 0 \<and> d \<ge> mx then Inl mx
      else if d > (2 ^ 63 - 1) div 2 then Inl (if mx > 0 then mx else d)
      else double_loop mx n (wrap64 (d * 2)))"

definition Exponential :: "int \<Rightarrow> int \<Rightarrow> int \<Rightarrow> int" where
  "Exponential base mx attempts0 =
     (if base = 0 then 0
      else let attempts = (if attempts0 < 1 then 1 else attempts0);
               e = (if attempts - 1 < 0 then 0 else attempts - 1)
           in case double_loop mx (nat e) base of
                Inl d \<Rightarrow> d
              | Inr d \<Rightarrow> if mx > 0 \<and> d > mx then mx else d)"

definition At :: "int list \<Rightarrow> int \<Rightarrow> int" where
  "At table attempts0 =
     (if length table = 0 then 0
      else let a1 = (if attempts0 < 1 then 1 else attempts0);
               attempts = (if a1 > int (length table) then int (length table) else a1)
           in table ! nat (attempts - 1))"

section \<open>What the delays are\<close>

definition loop_value :: "int \<Rightarrow> int + int \<Rightarrow> int" where
  "loop_value mx r = (case r of Inl d \<Rightarrow> d | Inr d \<Rightarrow> if mx > 0 \<and> d > mx then mx else d)"

lemma double_loop_capped:
  assumes "0 < d" "d \<le> maxInt64" "0 < mx" "mx \<le> maxInt64"
  shows "loop_value mx (double_loop mx n d) = min mx (d * 2 ^ n)"
  using assms
proof (induction n arbitrary: d)
  case 0
  then show ?case by (simp add: loop_value_def)
next
  case (Suc n)
  have grow: "d * 2 \<le> d * 2 ^ Suc n" using Suc.prems(1) by simp
  consider "mx \<le> d" | "d < mx" "d > (2 ^ 63 - 1) div 2" | "d < mx" "d \<le> (2 ^ 63 - 1) div 2" by linarith
  then show ?case
  proof cases
    case 1
    then have "mx \<le> d * 2 ^ Suc n" using grow Suc.prems(1) by linarith
    with 1 Suc.prems show ?thesis by (simp add: loop_value_def)
  next
    case 2
    then have "mx \<le> d * 2 ^ Suc n" using grow Suc.prems(4) unfolding maxInt64_def by linarith
    with 2 Suc.prems show ?thesis by (simp add: loop_value_def)
  next
    case 3
    then have fit: "wrap64 (d * 2) = d * 2" "d * 2 \<le> maxInt64"
      using Suc.prems(1) by (simp_all add: wrap64_id maxInt64_def minInt64_def)
    with 3 Suc.IH [of "d * 2"] Suc.prems show ?thesis by (simp add: mult.assoc)
  qed
qed

lemma double_loop_uncapped:
  assumes "0 < d" "d \<le> maxInt64" "mx \<le> 0"
  shows "\<exists>k\<le>n. loop_value mx (double_loop mx n d) = d * 2 ^ k \<and> d * 2 ^ k \<le> maxInt64
    \<and> (k < n \<longrightarrow> maxInt64 < 2 * (d * 2 ^ k))"
  using assms
proof (induction n arbitrary: d)
  case 0
  then show ?case by (simp add: loop_value_def)
next
  case (Suc n)
  show ?case
  proof (cases "d > (2 ^ 63 - 1) div 2")
    case True
    with Suc.prems show ?thesis by (intro exI [of _ 0]) (simp add: loop_value_def maxInt64_def)
  next
    case False
    then have fit: "wrap64 (d * 2) = d * 2" "d * 2 \<le> maxInt64"
      using Suc.prems(1) by (simp_all add: wrap64_id maxInt64_def minInt64_def)
    with Suc.IH [of "d * 2"] Suc.prems obtain k where
      "k \<le> n" "loop_value mx (double_loop mx n (d * 2)) = d * 2 * 2 ^ k" "d * 2 * 2 ^ k \<le> maxInt64"
      "k < n \<longrightarrow> maxInt64 < 2 * (d * 2 * 2 ^ k)" by auto
    with False Suc.prems fit show ?thesis by (intro exI [of _ "Suc k"]) (simp add: mult.assoc)
  qed
qed

lemma Exponential_loop:
  "base \<noteq> 0 \<Longrightarrow> Exponential base mx a = loop_value mx (double_loop mx (nat (a - 1)) base)"
  by (auto simp: Exponential_def loop_value_def Let_def)

text \<open>C31. The delay never overflows, whatever the number of attempts. With a cap it is the smaller of the cap and
  \<open>base * 2 ^ (attempts - 1)\<close>; without one it is the largest doubling of the base, at most that many, which
  a 64-bit duration holds. A delay of a later attempt is never shorter, and a positional schedule
  reads an entry of its table for every number of attempts.\<close>

theorem backoff_delay:
  assumes "0 \<le> base" "base \<le> maxInt64" "mx \<le> maxInt64"
  shows "(if 0 < mx then Exponential base mx a = min mx (base * 2 ^ nat (a - 1))
       else \<exists>k\<le>nat (a - 1). Exponential base mx a = base * 2 ^ k \<and> base * 2 ^ k \<le> maxInt64
              \<and> (base = 0 \<or> k = nat (a - 1) \<or> maxInt64 < 2 * (base * 2 ^ k)))
    \<and> Exponential base mx a \<le> Exponential base mx (a + 1)
    \<and> (if table = [] then At table a = 0 else At table a = table ! nat (max 1 (min a (int (length table))) - 1))"
proof (cases "base = 0")
  case True
  then have "Exponential base mx b = 0" for b by (simp add: Exponential_def)
  with True show ?thesis by (auto simp: At_def Let_def min_def max_def maxInt64_def)
next
  case False
  with assms(1) have pos: "0 < base" by simp
  have at: "if table = [] then At table a = 0 else At table a = table ! nat (max 1 (min a (int (length table))) - 1)"
    by (auto simp: At_def Let_def min_def max_def)
  have steps: "nat (a - 1) \<le> nat (a + 1 - 1)" by simp
  show ?thesis
  proof (cases "0 < mx")
    case True
    have v: "Exponential base mx b = min mx (base * 2 ^ nat (b - 1))" for b
      using double_loop_capped [OF pos assms(2) True assms(3)] False by (simp add: Exponential_loop)
    have "base * 2 ^ nat (a - 1) \<le> base * 2 ^ nat (a + 1 - 1)"
      using pos steps by (intro mult_left_mono power_increasing) auto
    then have "min mx (base * 2 ^ nat (a - 1)) \<le> min mx (base * 2 ^ nat (a + 1 - 1))" by linarith
    with at True show ?thesis unfolding v by simp
  next
    case False
    have v: "\<exists>k\<le>nat (b - 1). Exponential base mx b = base * 2 ^ k \<and> base * 2 ^ k \<le> maxInt64
        \<and> (k < nat (b - 1) \<longrightarrow> maxInt64 < 2 * (base * 2 ^ k))" for b
      using double_loop_uncapped [OF pos assms(2), of mx "nat (b - 1)"] False pos by (simp add: Exponential_loop)
    obtain k where k: "k \<le> nat (a - 1)" "Exponential base mx a = base * 2 ^ k" "base * 2 ^ k \<le> maxInt64"
      "k < nat (a - 1) \<longrightarrow> maxInt64 < 2 * (base * 2 ^ k)" using v [of a] by blast
    obtain l where l: "l \<le> nat (a + 1 - 1)" "Exponential base mx (a + 1) = base * 2 ^ l" "base * 2 ^ l \<le> maxInt64"
      "l < nat (a + 1 - 1) \<longrightarrow> maxInt64 < 2 * (base * 2 ^ l)" using v [of "a + 1"] by blast
    have "k \<le> l"
    proof (rule ccontr)
      assume "\<not> k \<le> l"
      then have lt: "Suc l \<le> k" "l < nat (a + 1 - 1)" using k(1) steps by linarith+
      have "2 * (base * 2 ^ l) = base * 2 ^ Suc l" by simp
      also have "\<dots> \<le> base * 2 ^ k" using lt(1) pos by (intro mult_left_mono power_increasing) auto
      finally show False using l(4) lt(2) k(3) by linarith
    qed
    then have "Exponential base mx a \<le> Exponential base mx (a + 1)"
      unfolding k(2) l(2) using pos by (intro mult_left_mono power_increasing) auto
    with False at k show ?thesis by (auto simp: le_less)
  qed
qed

theorem backoff_delay_witness:
  "Exponential (30 * second) (3600 * second) 100 = 3600 * second \<and> Exponential (30 * second) (3600 * second) 3 = 120 * second
   \<and> Exponential second 0 1000 \<le> Exponential second 0 1001"
proof -
  have b: "0 \<le> 30 * second" "30 * second \<le> maxInt64" "3600 * second \<le> maxInt64" "0 \<le> second" "second \<le> maxInt64" "0 \<le> maxInt64"
    by (simp_all add: second_def maxInt64_def)
  have "(3600 * second) \<le> 30 * second * 2 ^ 99" by (simp add: second_def)
  with backoff_delay [OF b(1-3), of 100] backoff_delay [OF b(1-3), of 3] backoff_delay [OF b(4,5,6), of 1000]
  show ?thesis by (simp add: second_def)
qed

end
