(* ===== verification/Dotenv.thy ===== *)
theory Dotenv
  imports GoStrconv "HOL-Library.List_Lexorder" "HOL-Library.Char_ord"
begin

text \<open>
  Environment files: \<^verbatim>\<open>core/dotenv\<close> (\<^verbatim>\<open>expand.go\<close>, \<^verbatim>\<open>dotenv.go\<close>, \<^verbatim>\<open>loader.go\<close>). The expander's loop over byte positions is a
  partial function, shown to return for every input; the process environment is a map, a file is its bytes or
  the way opening it fails. Go maps are association lists with distinct keys; lengths are unbounded integers.
\<close>

section \<open>Expansion\<close>

type_synonym env = "string \<Rightarrow> string option"

abbreviation USD :: char where "USD \<equiv> CHR ''$''"
abbreviation LBR :: char where "LBR \<equiv> CHR ''{''"
abbreviation RBR :: char where "RBR \<equiv> CHR ''}''"

record sources =
  srcLocal :: "(string \<times> string) list"
  srcShadow :: "(string \<times> string) list"
  srcEnv :: "env option"
  external :: "string list"
  credited :: int

record expander =
  xLocal :: "(string \<times> string) list"
  xEnv :: "env option"
  xLimit :: int
  xQuoted :: bool
  xSrc :: "sources option"
  xOver :: bool
  xErr :: bool
  xOut :: string

definition expansionFactor :: int where "expansionFactor = 10"

definition x_write :: "expander \<Rightarrow> string \<Rightarrow> expander" where
  "x_write e s =
     (if xOver e then e
      else if xLimit e \<ge> 0 \<and> int (length (xOut e)) + int (length s) > xLimit e then e\<lparr>xOver := True\<rparr>
      else e\<lparr>xOut := xOut e @ s\<rparr>)"

definition outside :: "expander \<Rightarrow> sources \<Rightarrow> string \<Rightarrow> string \<Rightarrow> expander" where
  "outside e src name v =
     x_write
       (if name \<in> set (external src) then e
        else e\<lparr>xSrc := Some (src\<lparr>external := name # external src, credited := credited src + int (length v)\<rparr>),
               xLimit := (if xLimit e \<ge> 0 then xLimit e + expansionFactor * int (length v) else xLimit e)\<rparr>)
       v"

definition lookupSources :: "expander \<Rightarrow> sources \<Rightarrow> string \<Rightarrow> expander" where
  "lookupSources e src name =
     (case (case srcEnv src of None \<Rightarrow> None | Some f \<Rightarrow> f name) of
        Some v \<Rightarrow> outside e src name v
      | None \<Rightarrow> (case map_of (srcShadow src) name of
          Some v \<Rightarrow> outside e src name v
        | None \<Rightarrow> (case map_of (srcLocal src) name of Some v \<Rightarrow> x_write e v | None \<Rightarrow> e)))"

definition x_lookup :: "expander \<Rightarrow> string \<Rightarrow> expander" where
  "x_lookup e name =
     (case xSrc e of
        Some src \<Rightarrow> lookupSources e src name
      | None \<Rightarrow> (case map_of (xLocal e) name of
          Some v \<Rightarrow> x_write e v
        | None \<Rightarrow> (case xEnv e of
            None \<Rightarrow> e
          | Some f \<Rightarrow> (case f name of Some v \<Rightarrow> x_write e v | None \<Rightarrow> e))))"

definition escaped :: "char \<Rightarrow> string" where
  "escaped c =
     (if c = CHR ''n'' then [NL] else if c = CHR ''t'' then [TAB] else if c = CHR ''r'' then [CHR 0x0D]
      else if c = DQ \<or> c = BSL \<or> c = USD then [c] else [BSL, c])"

text \<open>The loop of \<^verbatim>\<open>expander.expand\<close> at position \<open>i\<close>, with the literal text from \<open>lit\<close> still to be written.\<close>

partial_function (option) expand_loop :: "string \<Rightarrow> nat \<Rightarrow> nat \<Rightarrow> expander \<Rightarrow> expander option" where
  "expand_loop s i lit e =
     (if \<not> (i < length s \<and> \<not> xOver e) then Some (x_write e (drop lit s))
      else if s ! i = BSL \<and> xQuoted e then
        (if i + 1 = length s then Some (e\<lparr>xErr := True\<rparr>)
         else expand_loop s (i + 2) (i + 2) (x_write (x_write e (substr s lit i)) (escaped (s ! (i + 1)))))
      else if i + 1 < length s \<and> s ! i = BSL \<and> s ! (i + 1) = USD then
        expand_loop s (i + 2) (i + 2) (x_write (x_write e (substr s lit i)) [USD])
      else if i + 1 < length s \<and> s ! i = USD \<and> s ! (i + 1) = LBR then
        (case index_str (drop (i + 2) s) [RBR] of
           None \<Rightarrow> if \<not> xQuoted e then Some (x_write e (drop lit s)) else expand_loop s (i + 1) lit e
         | Some n \<Rightarrow>
             let name = substr s (i + 2) (i + 2 + n); e1 = x_write e (substr s lit i) in
             expand_loop s (i + 2 + n + 1) (i + 2 + n + 1)
               (if name = [] then x_write e1 ''${}'' else x_lookup e1 name))
      else expand_loop s (i + 1) lit e)"

definition x_expand :: "expander \<Rightarrow> string \<Rightarrow> expander option" where
  "x_expand e s = expand_loop s 0 0 e"

definition new_expander :: expander where
  "new_expander = \<lparr>xLocal = [], xEnv = None, xLimit = 0, xQuoted = False, xSrc = None, xOver = False, xErr = False, xOut = []\<rparr>"

definition Expand :: "string \<Rightarrow> (string \<times> string) list \<Rightarrow> env option \<Rightarrow> string option" where
  "Expand s local envFn = map_option xOut (x_expand (new_expander\<lparr>xLocal := local, xEnv := envFn, xLimit := -1\<rparr>) s)"

text \<open>\<open>Inl True\<close>: a trailing backslash; \<open>Inl False\<close>: past the limit. The sources come back with what was credited.\<close>

definition expandDouble :: "string \<Rightarrow> sources \<Rightarrow> int \<Rightarrow> ((bool + string) \<times> sources) option" where
  "expandDouble s src limit =
     map_option
       (\<lambda>e. (if xErr e then Inl True else if xOver e then Inl False else Inr (xOut e), the (xSrc e)))
       (x_expand (new_expander\<lparr>xLocal := srcLocal src, xLimit := limit, xQuoted := True, xSrc := Some src\<rparr>) s)"

section \<open>Parsing\<close>

datatype value_error = TrailingBackslash | UnterminatedDouble | UnterminatedSingle | ExpansionBudget

datatype dotenv_error =
    NulByte nat | MissingEquals nat | InvalidKey nat | OverBudget nat int | BadLine nat value_error | ScannerError

definition key_start :: "char \<Rightarrow> bool" where
  "key_start c \<longleftrightarrow> is_lower c \<or> is_upper c \<or> c = CHR ''_''"

definition isValidKey :: "string \<Rightarrow> bool" where
  "isValidKey k \<longleftrightarrow> k \<noteq> [] \<and> key_start (hd k) \<and> list_all (\<lambda>c. key_start c \<or> is_digit c) (tl k)"

definition parseValue :: "string \<Rightarrow> sources \<Rightarrow> int \<Rightarrow> ((value_error + string) \<times> sources) option" where
  "parseValue v src budget =
     (if v = [] then Some (Inr [], src)
      else if hd v = DQ then
        (if length v < 2 \<or> last v \<noteq> DQ then Some (Inl UnterminatedDouble, src)
         else map_option
           (\<lambda>(r, src'). (case r of Inl True \<Rightarrow> Inl TrailingBackslash | Inl False \<Rightarrow> Inl ExpansionBudget | Inr out \<Rightarrow> Inr out, src'))
           (expandDouble (substr v 1 (length v - 1)) src (max budget 0)))
      else if hd v = SQ then
        (if length v < 2 \<or> last v \<noteq> SQ then Some (Inl UnterminatedSingle, src)
         else Some (Inr (substr v 1 (length v - 1)), src))
      else Some (Inr v, src))"

definition maxLineBytes :: nat where "maxLineBytes = 1048576"

definition scan_lines :: "string \<Rightarrow> string list \<times> bool" where
  "scan_lines = lines_upto maxLineBytes"

record parse_state =
  outMap :: "(string \<times> string) list"
  consumed :: int
  expanded :: int
  counted :: "string list"

definition strip_export :: "string \<Rightarrow> string" where
  "strip_export s =
     (if has_prefix s ''export '' then trim_space (drop 7 s)
      else if has_prefix s (''export'' @ [TAB]) then trim_space (drop 7 s)
      else s)"

definition parse_assign ::
  "(string \<times> string) list \<Rightarrow> env option \<Rightarrow> nat \<Rightarrow> parse_state \<Rightarrow> string \<Rightarrow> string \<Rightarrow> (dotenv_error + parse_state) option" where
  "parse_assign shadow envFn n st key valRaw =
     (let src = \<lparr>srcLocal = outMap st, srcShadow = shadow, srcEnv = envFn, external = counted st, credited = 0\<rparr>;
          budget = expansionFactor * consumed st - expanded st
      in map_option
        (\<lambda>(r, src').
           let c = consumed st + credited src'; b = budget + expansionFactor * credited src' in
           case r of
             Inl ExpansionBudget \<Rightarrow> Inl (OverBudget n c)
           | Inl err \<Rightarrow> Inl (BadLine n err)
           | Inr v \<Rightarrow>
               if int (length v) > b then Inl (OverBudget n c)
               else Inr \<lparr>outMap = AList.update key v (outMap st), consumed = c,
                         expanded = expanded st + int (length v), counted = external src'\<rparr>)
        (parseValue valRaw src budget))"

definition parse_line ::
  "(string \<times> string) list \<Rightarrow> env option \<Rightarrow> nat \<Rightarrow> parse_state \<Rightarrow> string \<Rightarrow> (dotenv_error + parse_state) option" where
  "parse_line shadow envFn n st raw0 =
     (let raw = (if n = 1 then trim_prefix bom raw0 else raw0) in
      if CHR 0x00 \<in> set raw then Some (Inl (NulByte n))
      else
        let st1 = st\<lparr>consumed := consumed st + int (length raw) + 1\<rparr>; trimmed = trim_space raw in
        if trimmed = [] \<or> has_prefix trimmed ''#'' then Some (Inr st1)
        else
          let trimmed = strip_export trimmed in
          case index_str trimmed ''='' of
            None \<Rightarrow> Some (Inl (MissingEquals n))
          | Some eq \<Rightarrow>
              let key = trim_space (take eq trimmed) in
              if \<not> isValidKey key then Some (Inl (InvalidKey n))
              else parse_assign shadow envFn n st1 key (trim_space (drop (eq + 1) trimmed)))"

fun parse_lines ::
  "(string \<times> string) list \<Rightarrow> env option \<Rightarrow> nat \<Rightarrow> string list \<Rightarrow> parse_state \<Rightarrow> (dotenv_error + parse_state) option" where
  "parse_lines shadow envFn n [] st = Some (Inr st)"
| "parse_lines shadow envFn n (l # ls) st =
     (case parse_line shadow envFn (n + 1) st l of
        None \<Rightarrow> None
      | Some (Inl err) \<Rightarrow> Some (Inl err)
      | Some (Inr st') \<Rightarrow> parse_lines shadow envFn (n + 1) ls st')"

definition start_state :: parse_state where
  "start_state = \<lparr>outMap = [], consumed = 0, expanded = 0, counted = []\<rparr>"

text \<open>\<open>failed\<close> tells whether the reader ended with an error instead of the end of the file.\<close>

definition parse_env :: "string \<Rightarrow> bool \<Rightarrow> (string \<times> string) list \<Rightarrow> env option \<Rightarrow> (dotenv_error + (string \<times> string) list) option" where
  "parse_env r failed shadow envFn =
     (case scan_lines r of (ls, long) \<Rightarrow>
        map_option
          (\<lambda>res. case res of Inl err \<Rightarrow> Inl err | Inr st \<Rightarrow> if long \<or> failed then Inl ScannerError else Inr (outMap st))
          (parse_lines shadow envFn 0 ls start_state))"

definition Parse :: "string \<Rightarrow> bool \<Rightarrow> (dotenv_error + (string \<times> string) list) option" where
  "Parse r failed = parse_env r failed [] None"

section \<open>Loading\<close>

datatype env_file = NotExist | OpenError | File string bool

datatype load_error = CannotOpen string | CannotParse string dotenv_error

fun merge_parsed :: "(string \<times> string) list \<Rightarrow> (string \<times> string) list \<Rightarrow> (string \<times> string) list" where
  "merge_parsed merged [] = merged"
| "merge_parsed merged ((k, v) # ps) =
     merge_parsed (if map_of merged k \<noteq> None then merged else merged @ [(k, v)]) ps"

fun load_files :: "(string \<Rightarrow> env_file) \<Rightarrow> env \<Rightarrow> string list \<Rightarrow> (string \<times> string) list
    \<Rightarrow> (load_error + (string \<times> string) list) option" where
  "load_files fs env [] merged = Some (Inr merged)"
| "load_files fs env (p # ps) merged =
     (case fs p of
        NotExist \<Rightarrow> load_files fs env ps merged
      | OpenError \<Rightarrow> Some (Inl (CannotOpen p))
      | File r failed \<Rightarrow>
          (case parse_env r failed merged (Some env) of
             None \<Rightarrow> None
           | Some (Inl err) \<Rightarrow> Some (Inl (CannotParse p err))
           | Some (Inr parsed) \<Rightarrow> load_files fs env ps (merge_parsed merged parsed)))"

definition Load :: "(string \<Rightarrow> env_file) \<Rightarrow> env \<Rightarrow> string list \<Rightarrow> (load_error + (string \<times> string) list) option" where
  "Load fs env paths = load_files fs env paths []"

text \<open>\<^verbatim>\<open>os.Setenv\<close>: an error for an empty key, a key with an equals sign or a NUL, a value with a NUL.\<close>

definition Setenv :: "string \<Rightarrow> string \<Rightarrow> env \<Rightarrow> env option" where
  "Setenv k v env =
     (if k = [] \<or> CHR ''='' \<in> set k \<or> CHR 0x00 \<in> set k \<or> CHR 0x00 \<in> set v then None else Some (env(k \<mapsto> v)))"

fun apply_loop :: "(string \<times> string) list \<Rightarrow> env \<Rightarrow> string list \<Rightarrow> string list \<Rightarrow> env \<times> string list \<times> string list" where
  "apply_loop [] env loaded skipped = (env, loaded, skipped)"
| "apply_loop ((k, v) # vs) env loaded skipped =
     (if env k \<noteq> None then apply_loop vs env loaded (skipped @ [k])
      else case Setenv k v env of
        Some env' \<Rightarrow> apply_loop vs env' (loaded @ [k]) skipped
      | None \<Rightarrow> apply_loop vs env loaded skipped)"

definition Apply :: "(string \<times> string) list \<Rightarrow> env \<Rightarrow> env \<times> string list \<times> string list" where
  "Apply vals env = (case apply_loop vals env [] [] of (env', loaded, skipped) \<Rightarrow> (env', sort loaded, sort skipped))"

definition LoadAndApply :: "(string \<Rightarrow> env_file) \<Rightarrow> env \<Rightarrow> string list \<Rightarrow> (load_error + env) option" where
  "LoadAndApply fs env paths =
     map_option (\<lambda>r. case r of Inl err \<Rightarrow> Inl err | Inr vals \<Rightarrow> Inr (fst (Apply vals env))) (Load fs env paths)"

section \<open>The loop returns\<close>

text \<open>The scan by suffixes: the text \<open>lit\<close> still to be written and the rest of the input.\<close>

function xscan :: "expander \<Rightarrow> string \<Rightarrow> string \<Rightarrow> expander" where
  "xscan e lit [] = x_write e lit"
| "xscan e lit (c # cs) =
     (if xOver e then x_write e (lit @ c # cs)
      else if c = BSL \<and> xQuoted e then
        (case cs of [] \<Rightarrow> e\<lparr>xErr := True\<rparr> | d # ds \<Rightarrow> xscan (x_write (x_write e lit) (escaped d)) [] ds)
      else if c = BSL \<and> cs \<noteq> [] \<and> hd cs = USD then xscan (x_write (x_write e lit) [USD]) [] (tl cs)
      else if c = USD \<and> cs \<noteq> [] \<and> hd cs = LBR then
        (case index_str (tl cs) [RBR] of
           None \<Rightarrow> if \<not> xQuoted e then x_write e (lit @ c # cs) else xscan e (lit @ [c]) cs
         | Some n \<Rightarrow>
             let name = take n (tl cs); e1 = x_write e lit in
             xscan (if name = [] then x_write e1 ''${}'' else x_lookup e1 name) [] (drop (n + 1) (tl cs)))
      else xscan e (lit @ [c]) cs)"
  by pat_completeness auto
termination by (relation "measure (\<lambda>(e, lit, cs). length cs)") auto

lemma expand_loop_xscan:
  "lit \<le> i \<Longrightarrow> i \<le> length s \<Longrightarrow> expand_loop s i lit e = Some (xscan e (substr s lit i) (drop i s))"
proof (induction "length s - i" arbitrary: i lit e rule: less_induct)
  case less
  show ?case
  proof (cases "i < length s")
    case False
    then have "i = length s" using less.prems by simp
    then show ?thesis using less.prems by (simp add: expand_loop.simps substr_def)
  next
    case True
    then have d: "drop i s = s ! i # drop (Suc i) s" by (simp add: Cons_nth_drop_Suc)
    have rest: "substr s lit i @ s ! i # drop (Suc i) s = drop lit s" using substr_drop [of lit i s] less.prems d by simp
    have two: "drop (Suc i) s = s ! (Suc i) # drop (i + 2) s" if "i + 1 < length s"
      using that by (simp add: Cons_nth_drop_Suc)
    have last: "drop (Suc i) s = []" if "\<not> i + 1 < length s" using that True by simp
    have one: "expand_loop s (i + 1) lit e = Some (xscan e (substr s lit i @ [s ! i]) (drop (Suc i) s))" for e
      using less.hyps [of "i + 1" lit e] True less.prems substr_snoc [of lit i s] by simp
    have jump: "expand_loop s j j e = Some (xscan e [] (drop j s))" if "i < j" "j \<le> length s" for j e
      using less.hyps [of j j e] that True by simp
    have name: "substr s (Suc (Suc i)) (Suc (Suc (i + n))) = take n (drop (Suc (Suc i)) s)" for n
      by (simp add: substr_def drop_take)
    show ?thesis
    proof (cases "i + 1 < length s")
      case False
      then show ?thesis
        unfolding d using True rest one last
        by (subst expand_loop.simps) (simp add: last)
    next
      case inner: True
      show ?thesis
      proof (cases "index_str (drop (i + 2) s) [RBR]")
        case None
        then show ?thesis
          unfolding d using True inner rest one jump [of "i + 2"] two
          by (subst expand_loop.simps) (auto simp: two)
      next
        case (Some n)
        then have "i + 2 + n + 1 \<le> length s" using index_str_bound by fastforce
        then show ?thesis
          unfolding d using True inner rest one jump [of "i + 2"] jump [of "i + 2 + n + 1"] two Some
          by (subst expand_loop.simps) (auto simp: two Let_def name add.commute [of n i])
      qed
    qed
  qed
qed

lemma expand_xscan: "x_expand e s = Some (xscan e [] s)"
  by (simp add: x_expand_def expand_loop_xscan)

section \<open>One pass\<close>

text \<open>The reading of a text, which looks at no value: literal pieces, references, a trailing backslash.\<close>

datatype token = Lit string | Ref string | Trail

function tokens :: "bool \<Rightarrow> string \<Rightarrow> token list" where
  "tokens q [] = []"
| "tokens q (c # cs) =
     (if c = BSL \<and> q then (case cs of [] \<Rightarrow> [Trail] | d # ds \<Rightarrow> Lit (escaped d) # tokens q ds)
      else if c = BSL \<and> cs \<noteq> [] \<and> hd cs = USD then Lit [USD] # tokens q (tl cs)
      else if c = USD \<and> cs \<noteq> [] \<and> hd cs = LBR then
        (case index_str (tl cs) [RBR] of
           None \<Rightarrow> if \<not> q then [Lit (c # cs)] else Lit [c] # tokens q cs
         | Some n \<Rightarrow> (if n = 0 then Lit ''${}'' else Ref (take n (tl cs))) # tokens q (drop (n + 1) (tl cs)))
      else Lit [c] # tokens q cs)"
  by pat_completeness auto
termination by (relation "measure (\<lambda>(q, cs). length cs)") auto

definition source_value :: "sources \<Rightarrow> string \<Rightarrow> string" where
  "source_value src name =
     (case (case srcEnv src of None \<Rightarrow> None | Some f \<Rightarrow> f name) of
        Some v \<Rightarrow> v
      | None \<Rightarrow> (case map_of (srcShadow src) name of Some v \<Rightarrow> v
        | None \<Rightarrow> (case map_of (srcLocal src) name of Some v \<Rightarrow> v | None \<Rightarrow> [])))"

definition direct_value :: "(string \<times> string) list \<Rightarrow> env option \<Rightarrow> string \<Rightarrow> string" where
  "direct_value local envFn name =
     (case map_of local name of Some v \<Rightarrow> v
      | None \<Rightarrow> (case envFn of None \<Rightarrow> [] | Some f \<Rightarrow> (case f name of Some v \<Rightarrow> v | None \<Rightarrow> [])))"

definition xval :: "expander \<Rightarrow> string \<Rightarrow> string" where
  "xval e = (case xSrc e of Some src \<Rightarrow> source_value src | None \<Rightarrow> direct_value (xLocal e) (xEnv e))"

fun render_token :: "(string \<Rightarrow> string) \<Rightarrow> token \<Rightarrow> string" where
  "render_token f (Lit s) = s"
| "render_token f (Ref name) = f name"
| "render_token f Trail = []"

definition render_tokens :: "(string \<Rightarrow> string) \<Rightarrow> token list \<Rightarrow> string" where
  "render_tokens f ts = concat (map (render_token f) ts)"

lemma render_tokens_simps [simp]:
  "render_tokens f [] = []" "render_tokens f (t # ts) = render_token f t @ render_tokens f ts"
  by (simp_all add: render_tokens_def)

lemma x_write_frame [simp]:
  "xval (x_write e s) = xval e" "xQuoted (x_write e s) = xQuoted e" "xErr (x_write e s) = xErr e"
  "xSrc (x_write e s) = xSrc e" "xLimit (x_write e s) = xLimit e" "xLocal (x_write e s) = xLocal e"
  "xEnv (x_write e s) = xEnv e"
  by (simp_all add: x_write_def xval_def split: option.split)

text \<open>A lookup writes the value of the name, after raising the limit for a value from outside.\<close>

lemma outside_cases:
  "xSrc e = Some src \<Longrightarrow>
   \<exists>e1. outside e src name v = x_write e1 v \<and> xOut e1 = xOut e \<and> xOver e1 = xOver e \<and> xErr e1 = xErr e
     \<and> xQuoted e1 = xQuoted e \<and> xval e1 = xval e \<and> (0 \<le> xLimit e \<longrightarrow> xLimit e \<le> xLimit e1) \<and> (xLimit e < 0 \<longrightarrow> xLimit e1 < 0)"
  by (rule exI [of _ "if name \<in> set (external src) then e
        else e\<lparr>xSrc := Some (src\<lparr>external := name # external src, credited := credited src + int (length v)\<rparr>),
               xLimit := (if xLimit e \<ge> 0 then xLimit e + expansionFactor * int (length v) else xLimit e)\<rparr>"])
    (auto simp: outside_def xval_def source_value_def expansionFactor_def fun_eq_iff cong: option.case_cong)

lemma x_lookup_cases:
  "\<exists>e1. x_lookup e name = x_write e1 (xval e name) \<and> xOut e1 = xOut e \<and> xOver e1 = xOver e \<and> xErr e1 = xErr e
     \<and> xQuoted e1 = xQuoted e \<and> xval e1 = xval e \<and> (0 \<le> xLimit e \<longrightarrow> xLimit e \<le> xLimit e1) \<and> (xLimit e < 0 \<longrightarrow> xLimit e1 < 0)
   \<or> x_lookup e name = e \<and> xval e name = []"
proof (cases "xSrc e")
  case None
  then show ?thesis
    by (auto simp: x_lookup_def xval_def direct_value_def split: option.splits)
next
  case (Some src)
  then show ?thesis
    using outside_cases [OF Some, of name]
    by (auto simp: x_lookup_def lookupSources_def xval_def source_value_def split: option.splits)
qed

lemma x_write_over [simp]: "xOver e \<Longrightarrow> x_write e s = e"
  by (simp add: x_write_def)

lemma x_write_ok: "\<not> xOver (x_write e s) \<Longrightarrow> \<not> xOver e \<and> xOut (x_write e s) = xOut e @ s"
  by (auto simp: x_write_def split: if_splits)

lemma x_write2_ok:
  "\<not> xOver (x_write (x_write e s) t) \<Longrightarrow> xOut (x_write (x_write e s) t) = xOut e @ s @ t"
  using x_write_ok [of "x_write e s" t] x_write_ok [of e s] by (metis append.assoc)

lemma x_lookup_ok: "\<not> xOver (x_lookup e name) \<Longrightarrow> \<not> xOver e \<and> xOut (x_lookup e name) = xOut e @ xval e name"
  using x_lookup_cases [of e name] x_write_ok by (metis append_Nil2)

lemma x_lookup_frame [simp]:
  "xval (x_lookup e name) = xval e" "xQuoted (x_lookup e name) = xQuoted e" "xErr (x_lookup e name) = xErr e"
  using x_lookup_cases [of e name] by (metis x_write_frame(1,2,3))+

lemma xscan_over: "xOver e \<Longrightarrow> xscan e lit s = e"
  by (cases s) auto

text \<open>A scan that ends well has written the reading of its text, with every reference replaced once.\<close>

lemma xscan_sound:
  "\<not> xOver (xscan e lit s) \<Longrightarrow> \<not> xErr (xscan e lit s) \<Longrightarrow>
     Trail \<notin> set (tokens (xQuoted e) s) \<and> xOut (xscan e lit s) = xOut e @ lit @ render_tokens (xval e) (tokens (xQuoted e) s)"
proof (induction e lit s rule: xscan.induct)
  case (1 e lit)
  then show ?case using x_write_ok [of e lit] by simp
next
  case (2 e lit c cs)
  show ?case
  proof (cases "xOver e")
    case True
    then show ?thesis using 2(6) by simp
  next
    case False
    note IH = 2(1-5) [OF False]
    consider (esc) d ds where "c = BSL" "xQuoted e" "cs = d # ds" | (trail) "c = BSL" "xQuoted e" "cs = []"
      | (usd) "c = BSL" "\<not> xQuoted e" "cs \<noteq> []" "hd cs = USD"
      | (ref) n where "c = USD" "cs \<noteq> []" "hd cs = LBR" "index_str (tl cs) [RBR] = Some n"
      | (tail) "c = USD" "cs \<noteq> []" "hd cs = LBR" "index_str (tl cs) [RBR] = None" "\<not> xQuoted e"
      | (open_) "c = USD" "cs \<noteq> []" "hd cs = LBR" "index_str (tl cs) [RBR] = None" "xQuoted e"
      | (plain) "\<not> (c = BSL \<and> xQuoted e)" "\<not> (c = BSL \<and> cs \<noteq> [] \<and> hd cs = USD)" "\<not> (c = USD \<and> cs \<noteq> [] \<and> hd cs = LBR)"
      by (cases cs; cases "index_str (tl cs) [RBR]"; auto)
    then show ?thesis
    proof cases
      case esc
      define e2 where "e2 = x_write (x_write e lit) (escaped d)"
      have eq: "xscan e lit (c # cs) = xscan e2 [] ds" using esc False by (simp add: e2_def)
      have tok: "tokens (xQuoted e) (c # cs) = Lit (escaped d) # tokens (xQuoted e2) ds" using esc by (simp add: e2_def)
      have "\<not> xOver e2" using 2(6) xscan_over [of e2 "[]" ds] unfolding eq by metis
      then have out: "xOut e2 = xOut e @ lit @ escaped d" "xval e2 = xval e"
        unfolding e2_def by (rule x_write2_ok) simp
      show ?thesis
        using 2(1) [OF False conjI [OF esc(1,2)] esc(3), folded e2_def] 2(6,7) unfolding eq tok by (simp add: out)
    next
      case trail
      then show ?thesis using 2(7) False by simp
    next
      case usd
      define e2 where "e2 = x_write (x_write e lit) [USD]"
      have eq: "xscan e lit (c # cs) = xscan e2 [] (tl cs)" using usd False by (simp add: e2_def)
      have tok: "tokens (xQuoted e) (c # cs) = Lit [USD] # tokens (xQuoted e2) (tl cs)" using usd by (simp add: e2_def)
      have "\<not> xOver e2" using 2(6) xscan_over [of e2 "[]" "tl cs"] unfolding eq by metis
      then have out: "xOut e2 = xOut e @ lit @ [USD]" "xval e2 = xval e"
        unfolding e2_def by (rule x_write2_ok) simp
      have "\<not> (c = BSL \<and> xQuoted e)" "c = BSL \<and> cs \<noteq> [] \<and> hd cs = USD" using usd by simp_all
      from 2(2) [OF False this, folded e2_def] show ?thesis
        using 2(6,7) unfolding eq tok by (simp add: out)
    next
      case (ref n)
      define e1 where "e1 = x_write e lit"
      define e2 where "e2 = (if take n (tl cs) = [] then x_write e1 ''${}'' else x_lookup e1 (take n (tl cs)))"
      have eq: "xscan e lit (c # cs) = xscan e2 [] (drop (n + 1) (tl cs))"
        using ref False by (simp add: e2_def e1_def Let_def)
      have n: "take n (tl cs) = [] \<longleftrightarrow> n = 0"
        using index_str_bound [OF ref(4)] by (cases "tl cs") auto
      have "\<not> xOver e2" using 2(6) eq xscan_over [of e2] by auto
      then have out: "\<not> xOver e1 \<and> xOut e2 = xOut e1 @ (if n = 0 then ''${}'' else xval e (take n (tl cs)))"
        using x_write_ok [of e1 "''${}''"] x_lookup_ok [of e1 "take n (tl cs)"] n
        by (auto simp: e2_def e1_def split: if_splits)
      have "xQuoted e2 = xQuoted e" "xval e2 = xval e" by (simp_all add: e2_def e1_def)
      moreover have "Trail \<notin> set (tokens (xQuoted e2) (drop (n + 1) (tl cs))) \<and>
          xOut (xscan e2 [] (drop (n + 1) (tl cs))) = xOut e2 @ [] @ render_tokens (xval e2) (tokens (xQuoted e2) (drop (n + 1) (tl cs)))"
        using 2(6,7) unfolding eq
        by (intro 2(4) [OF False _ _ _ ref(4) refl refl, folded e1_def, folded e2_def]) (use ref in simp_all)
      ultimately show ?thesis
        unfolding eq using out x_write_ok [of e lit] ref(1,2,3,4) by (auto simp: e1_def [symmetric])
    next
      case tail
      then show ?thesis using 2(6,7) False x_write_ok [of e "lit @ c # cs"] by auto
    next
      case open_
      then show ?thesis using 2(3) [OF False] 2(6,7) False by auto
    next
      case plain
      have "xscan e lit (c # cs) = xscan e (lit @ [c]) cs" "tokens (xQuoted e) (c # cs) = Lit [c] # tokens (xQuoted e) cs"
        using plain False by auto
      then show ?thesis using 2(5) [OF False plain] 2(6,7) by auto
    qed
  qed
qed

lemma x_write_fits:
  "\<not> xOver e \<Longrightarrow> xLimit e < 0 \<or> int (length (xOut e)) + int (length s) \<le> xLimit e \<Longrightarrow>
     \<not> xOver (x_write e s) \<and> xOut (x_write e s) = xOut e @ s"
  by (auto simp: x_write_def)

lemma x_lookup_fits:
  assumes "\<not> xOver e" "xLimit e < 0 \<or> int (length (xOut e)) + int (length (xval e name)) \<le> xLimit e"
  shows "\<not> xOver (x_lookup e name) \<and> xOut (x_lookup e name) = xOut e @ xval e name
    \<and> (xLimit e < 0 \<longrightarrow> xLimit (x_lookup e name) < 0) \<and> (0 \<le> xLimit e \<longrightarrow> xLimit e \<le> xLimit (x_lookup e name))"
proof -
  consider e1 where "x_lookup e name = x_write e1 (xval e name)" "xOut e1 = xOut e" "xOver e1 = xOver e"
      "0 \<le> xLimit e \<longrightarrow> xLimit e \<le> xLimit e1" "xLimit e < 0 \<longrightarrow> xLimit e1 < 0"
    | "x_lookup e name = e" "xval e name = []"
    using x_lookup_cases [of e name] by blast
  then show ?thesis
  proof cases
    case 1
    have "xLimit e1 < 0 \<or> int (length (xOut e1)) + int (length (xval e name)) \<le> xLimit e1"
      using assms(2) 1 by (cases "xLimit e < 0") auto
    then show ?thesis using x_write_fits [of e1 "xval e name"] 1 assms(1) by simp
  qed (use assms in auto)
qed

definition fits :: "expander \<Rightarrow> nat \<Rightarrow> bool" where
  "fits e n \<longleftrightarrow> \<not> xOver e \<and> (xLimit e < 0 \<or> int (length (xOut e)) + int n \<le> xLimit e)"

lemma fits_write: "fits e (length s + n) \<Longrightarrow> fits (x_write e s) n"
  using x_write_fits [of e s] by (auto simp: fits_def)

lemma fits_lookup: "fits e (length (xval e name) + n) \<Longrightarrow> fits (x_lookup e name) n"
  using x_lookup_fits [of e name] unfolding fits_def by fastforce

lemma xscan_complete:
  "fits e (length lit + length (render_tokens (xval e) (tokens (xQuoted e) s))) \<Longrightarrow> Trail \<notin> set (tokens (xQuoted e) s) \<Longrightarrow>
     \<not> xOver (xscan e lit s) \<and> xErr (xscan e lit s) = xErr e"
proof (induction e lit s rule: xscan.induct)
  case (1 e lit)
  then show ?case using fits_write [of e lit 0] by (simp add: fits_def)
next
  case (2 e lit c cs)
  have over: "\<not> xOver e" using 2(6) by (simp add: fits_def)
  consider (esc) d ds where "c = BSL" "xQuoted e" "cs = d # ds" | (trail) "c = BSL" "xQuoted e" "cs = []"
    | (usd) "c = BSL" "\<not> xQuoted e" "cs \<noteq> []" "hd cs = USD"
    | (ref) n where "c = USD" "cs \<noteq> []" "hd cs = LBR" "index_str (tl cs) [RBR] = Some n"
    | (tail) "c = USD" "cs \<noteq> []" "hd cs = LBR" "index_str (tl cs) [RBR] = None" "\<not> xQuoted e"
    | (open_) "c = USD" "cs \<noteq> []" "hd cs = LBR" "index_str (tl cs) [RBR] = None" "xQuoted e"
    | (plain) "\<not> (c = BSL \<and> xQuoted e)" "\<not> (c = BSL \<and> cs \<noteq> [] \<and> hd cs = USD)" "\<not> (c = USD \<and> cs \<noteq> [] \<and> hd cs = LBR)"
    by (cases cs; cases "index_str (tl cs) [RBR]"; auto)
  then show ?case
  proof cases
    case esc
    have "fits (x_write (x_write e lit) (escaped d)) (length (render_tokens (xval e) (tokens (xQuoted e) ds)))"
      using 2(6) esc by (intro fits_write) (simp add: add.assoc)
    then show ?thesis
      using 2(1) [OF over conjI [OF esc(1,2)] esc(3)] 2(7) esc over by simp
  next
    case trail
    then show ?thesis using 2(7) by simp
  next
    case usd
    have "fits (x_write (x_write e lit) [USD]) (length (render_tokens (xval e) (tokens (xQuoted e) (tl cs))))"
      using 2(6) usd by (intro fits_write) (simp add: add.assoc)
    then show ?thesis
      using 2(2) [OF over] 2(7) usd over by simp
  next
    case (ref n)
    define e1 where "e1 = x_write e lit"
    define e2 where "e2 = (if take n (tl cs) = [] then x_write e1 ''${}'' else x_lookup e1 (take n (tl cs)))"
    have eq: "xscan e lit (c # cs) = xscan e2 [] (drop (n + 1) (tl cs))"
      using ref over by (simp add: e2_def e1_def Let_def)
    have n: "take n (tl cs) = [] \<longleftrightarrow> n = 0"
      using index_str_bound [OF ref(4)] by (cases "tl cs") auto
    have tok: "tokens (xQuoted e) (c # cs) =
        (if n = 0 then Lit ''${}'' else Ref (take n (tl cs))) # tokens (xQuoted e2) (drop (n + 1) (tl cs))"
      and v: "xval e2 = xval e" "xErr e2 = xErr e"
      using ref by (simp_all add: e2_def e1_def)
    define k where "k = length (render_tokens (xval e) (tokens (xQuoted e2) (drop (n + 1) (tl cs))))"
    have "fits e1 ((if n = 0 then length ''${}'' else length (xval e1 (take n (tl cs)))) + k)"
      unfolding e1_def by (rule fits_write) (use 2(6) [unfolded tok] in \<open>simp add: k_def split: if_splits\<close>)
    then have "fits e2 k"
      using fits_write [of e1 "''${}''" k] fits_lookup [of e1 "take n (tl cs)" k] unfolding e2_def n by (simp split: if_splits)
    then have "fits e2 (length ([] :: string) + length (render_tokens (xval e2) (tokens (xQuoted e2) (drop (n + 1) (tl cs)))))"
      by (simp add: k_def v)
    moreover have "Trail \<notin> set (tokens (xQuoted e2) (drop (n + 1) (tl cs)))" using 2(7) tok by simp
    ultimately have "\<not> xOver (xscan e2 [] (drop (n + 1) (tl cs))) \<and> xErr (xscan e2 [] (drop (n + 1) (tl cs))) = xErr e2"
      by (intro 2(4) [OF over _ _ _ ref(4) refl refl, folded e1_def, folded e2_def]) (use ref in simp_all)
    then show ?thesis unfolding eq v .
  next
    case tail
    have "fits (x_write e (lit @ c # cs)) 0" using 2(6) tail by (intro fits_write) simp
    then show ?thesis using tail over by (simp add: fits_def)
  next
    case open_
    then show ?thesis using 2(3) [OF over] 2(6,7) over by simp
  next
    case plain
    have "xscan e lit (c # cs) = xscan e (lit @ [c]) cs" "tokens (xQuoted e) (c # cs) = Lit [c] # tokens (xQuoted e) cs"
      using plain over by auto
    then show ?thesis using 2(5) [OF over plain] 2(6,7) by simp
  qed
qed

lemma tokens_unquoted: "Trail \<notin> set (tokens False s)"
  by (induction False s rule: tokens.induct) (auto split: option.splits)

lemma Expand_eq: "Expand s local envFn = Some (render_tokens (direct_value local envFn) (tokens False s))"
proof -
  define e where "e = new_expander\<lparr>xLocal := local, xEnv := envFn, xLimit := -1\<rparr>"
  have e: "xval e = direct_value local envFn" "\<not> xQuoted e" "xOut e = []" "\<not> xErr e"
    by (simp_all add: e_def new_expander_def xval_def)
  have "fits e (length ([] :: string) + length (render_tokens (xval e) (tokens (xQuoted e) s)))"
    by (simp add: e_def new_expander_def fits_def)
  from xscan_complete [OF this] have "\<not> xOver (xscan e [] s)" "\<not> xErr (xscan e [] s)"
    using tokens_unquoted e by simp_all
  from xscan_sound [OF this] show ?thesis
    using e by (simp add: Expand_def e_def [symmetric] expand_xscan)
qed

section \<open>The budget\<close>

lemma xscan_keeps:
  assumes "P e" "\<And>e s. P e \<Longrightarrow> P (x_write e s)" "\<And>e name. P e \<Longrightarrow> P (x_lookup e name)" "\<And>e. P e \<Longrightarrow> P (e\<lparr>xErr := True\<rparr>)"
  shows "P (xscan e lit s)"
  using assms(1)
proof (induction e lit s rule: xscan.induct)
  case (1 e lit)
  then show ?case using assms(2) by simp
next
  case (2 e lit c cs)
  then show ?case
    using assms(2-4) by (auto simp: Let_def split: list.split option.split)
qed

definition outside_value :: "(string \<times> string) list \<Rightarrow> env option \<Rightarrow> string \<Rightarrow> string option" where
  "outside_value shadow envFn name =
     (case (case envFn of None \<Rightarrow> None | Some f \<Rightarrow> f name) of Some v \<Rightarrow> Some v | None \<Rightarrow> map_of shadow name)"

definition outside_bytes :: "(string \<times> string) list \<Rightarrow> env option \<Rightarrow> string list \<Rightarrow> int" where
  "outside_bytes shadow envFn names =
     sum_list (map (\<lambda>n. case outside_value shadow envFn n of None \<Rightarrow> 0 | Some v \<Rightarrow> int (length v)) names)"

text \<open>What a value credits: new names, each once, with the bytes of their values from outside.\<close>

definition credit_ok :: "sources \<Rightarrow> int \<Rightarrow> expander \<Rightarrow> bool" where
  "credit_ok src0 limit e \<longleftrightarrow>
     (\<exists>src new. xSrc e = Some src \<and> external src = new @ external src0 \<and> distinct (external src)
        \<and> srcEnv src = srcEnv src0 \<and> srcShadow src = srcShadow src0 \<and> srcLocal src = srcLocal src0
        \<and> credited src = credited src0 + outside_bytes (srcShadow src0) (srcEnv src0) new
        \<and> xLimit e = limit + expansionFactor * (credited src - credited src0)
        \<and> int (length (xOut e)) \<le> xLimit e)"

lemma outside_bytes_nonneg: "0 \<le> outside_bytes shadow envFn names"
  unfolding outside_bytes_def by (rule sum_list_nonneg) (auto split: option.splits)

lemma credit_write: "credit_ok src0 limit e \<Longrightarrow> 0 \<le> limit \<Longrightarrow> credit_ok src0 limit (x_write e s)"
  using outside_bytes_nonneg
  unfolding credit_ok_def x_write_def expansionFactor_def by (auto split: if_splits)

lemma credit_outside:
  assumes "credit_ok src0 limit e" "0 \<le> limit" "xSrc e = Some src" "outside_value (srcShadow src0) (srcEnv src0) name = Some v"
  shows "credit_ok src0 limit (outside e src name v)"
proof (cases "name \<in> set (external src)")
  case True
  then show ?thesis using assms credit_write by (simp add: outside_def)
next
  case False
  obtain new where s: "external src = new @ external src0" "distinct (external src)" "srcEnv src = srcEnv src0"
    "srcShadow src = srcShadow src0" "srcLocal src = srcLocal src0"
    "credited src = credited src0 + outside_bytes (srcShadow src0) (srcEnv src0) new"
    "xLimit e = limit + expansionFactor * (credited src - credited src0)" "int (length (xOut e)) \<le> xLimit e"
    using assms(1,3) by (auto simp: credit_ok_def)
  define e' where "e' = e\<lparr>xSrc := Some (src\<lparr>external := name # external src, credited := credited src + int (length v)\<rparr>),
               xLimit := xLimit e + expansionFactor * int (length v)\<rparr>"
  have pos: "0 \<le> xLimit e"
    using s(6,7) assms(2) outside_bytes_nonneg [of "srcShadow src0" "srcEnv src0" new] by (simp add: expansionFactor_def)
  have "credit_ok src0 limit e'"
    unfolding credit_ok_def e'_def using False s assms(4)
    by (intro exI [of _ "src\<lparr>external := name # external src, credited := credited src + int (length v)\<rparr>"] exI [of _ "name # new"])
      (simp add: outside_bytes_def expansionFactor_def algebra_simps)
  then show ?thesis
    using credit_write [OF _ assms(2)] False pos by (simp add: outside_def e'_def)
qed

lemma credit_lookup:
  assumes "credit_ok src0 limit e" "0 \<le> limit"
  shows "credit_ok src0 limit (x_lookup e name)"
proof -
  obtain src where src: "xSrc e = Some src" "srcEnv src = srcEnv src0" "srcShadow src = srcShadow src0"
    using assms(1) by (auto simp: credit_ok_def)
  show ?thesis
    using credit_outside [OF assms src(1)] credit_write [OF assms] assms(1) src
    by (auto simp: x_lookup_def lookupSources_def outside_value_def split: option.splits)
qed

lemma expandDouble_credit:
  assumes "distinct (external src)" "0 \<le> limit"
  obtains r src' new where "expandDouble s src limit = Some (r, src')" "external src' = new @ external src" "distinct (external src')"
    "credited src' = credited src + outside_bytes (srcShadow src) (srcEnv src) new"
    "\<And>v. r = Inr v \<Longrightarrow> int (length v) \<le> limit + expansionFactor * (credited src' - credited src)"
proof -
  define e where "e = new_expander\<lparr>xLocal := srcLocal src, xLimit := limit, xQuoted := True, xSrc := Some src\<rparr>"
  have "credit_ok src limit e"
    using assms unfolding credit_ok_def
    by (intro exI [of _ src] exI [of _ "[]"]) (simp add: e_def new_expander_def outside_bytes_def)
  then have "credit_ok src limit (xscan e [] s)"
    by (rule xscan_keeps) (use assms(2) credit_write credit_lookup in \<open>auto simp: credit_ok_def\<close>)
  then obtain src' new where s: "xSrc (xscan e [] s) = Some src'" "external src' = new @ external src" "distinct (external src')"
    "credited src' = credited src + outside_bytes (srcShadow src) (srcEnv src) new"
    "xLimit (xscan e [] s) = limit + expansionFactor * (credited src' - credited src)"
    "int (length (xOut (xscan e [] s))) \<le> xLimit (xscan e [] s)"
    by (auto simp: credit_ok_def)
  define r where "r = (if xErr (xscan e [] s) then Inl True else if xOver (xscan e [] s) then Inl False else Inr (xOut (xscan e [] s)))"
  have "expandDouble s src limit = Some (r, src')"
    unfolding expandDouble_def e_def [symmetric] expand_xscan by (simp add: r_def s)
  moreover have "int (length v) \<le> limit + expansionFactor * (credited src' - credited src)" if "r = Inr v" for v
    using that s(5,6) by (auto simp: r_def split: if_splits)
  ultimately show ?thesis using that s(2-4) by blast
qed

section \<open>Well-formed variables\<close>

abbreviation NUL :: char where "NUL \<equiv> CHR 0x00"

definition wf_vars :: "(string \<times> string) list \<Rightarrow> bool" where
  "wf_vars vs \<longleftrightarrow> distinct (map fst vs) \<and> (\<forall>(k, v) \<in> set vs. isValidKey k \<and> NUL \<notin> set v)"

definition env_ok :: "env option \<Rightarrow> bool" where
  "env_ok envFn \<longleftrightarrow> (\<forall>f k v. envFn = Some f \<longrightarrow> f k = Some v \<longrightarrow> NUL \<notin> set v)"

lemma escaped_NUL: "c \<noteq> NUL \<Longrightarrow> NUL \<notin> set (escaped c)"
  by (auto simp: escaped_def)

lemma tokens_NUL: "NUL \<notin> set s \<Longrightarrow> t \<in> set (tokens q s) \<Longrightarrow> (\<And>name. NUL \<notin> set (f name)) \<Longrightarrow> NUL \<notin> set (render_token f t)"
proof (induction q s rule: tokens.induct)
  case (2 q c cs)
  have tl: "NUL \<notin> set (tl cs)" "NUL \<notin> set (drop n (tl cs))" for n
    using 2(6) by (cases cs; auto dest: in_set_dropD)+
  consider (esc) d ds where "c = BSL" "q" "cs = d # ds" | (trail) "c = BSL" "q" "cs = []"
    | (usd) "c = BSL" "\<not> q" "cs \<noteq> []" "hd cs = USD"
    | (ref) n where "c = USD" "cs \<noteq> []" "hd cs = LBR" "index_str (tl cs) [RBR] = Some n"
    | (tail) "c = USD" "cs \<noteq> []" "hd cs = LBR" "index_str (tl cs) [RBR] = None" "\<not> q"
    | (open_) "c = USD" "cs \<noteq> []" "hd cs = LBR" "index_str (tl cs) [RBR] = None" "q"
    | (plain) "\<not> (c = BSL \<and> q)" "\<not> (c = BSL \<and> cs \<noteq> [] \<and> hd cs = USD)" "\<not> (c = USD \<and> cs \<noteq> [] \<and> hd cs = LBR)"
    by (cases cs; cases "index_str (tl cs) [RBR]"; auto)
  then show ?case
  proof cases
    case esc
    have "t = Lit (escaped d) \<or> t \<in> set (tokens q ds)" using 2(7) esc by simp
    then show ?thesis using 2(1) [OF conjI [OF esc(1,2)] esc(3)] 2(6,8) esc escaped_NUL [of d] by auto
  next
    case trail
    then show ?thesis using 2(7) by simp
  next
    case usd
    have "t = Lit [USD] \<or> t \<in> set (tokens q (tl cs))" using 2(7) usd by simp
    then show ?thesis using 2(2) 2(8) usd tl by auto
  next
    case (ref n)
    have "t \<in> {Lit ''${}'', Ref (take n (tl cs))} \<or> t \<in> set (tokens q (drop (n + 1) (tl cs)))"
      using 2(7) ref by (auto split: if_splits)
    then show ?thesis using 2(4) [OF _ _ _ ref(4)] 2(8) ref tl by auto
  next
    case tail
    then show ?thesis using 2(6,7) by auto
  next
    case open_
    then show ?thesis using 2(3) 2(6-8) by auto
  next
    case plain
    then have "tokens q (c # cs) = Lit [c] # tokens q cs" by auto
    then show ?thesis using 2(5) [OF plain] 2(6-8) by auto
  qed
qed simp

lemma render_NUL:
  "NUL \<notin> set s \<Longrightarrow> (\<And>name. NUL \<notin> set (f name)) \<Longrightarrow> NUL \<notin> set (render_tokens f (tokens q s))"
  unfolding render_tokens_def using tokens_NUL [of s _ q f] by auto

lemma map_of_NUL: "wf_vars vs \<Longrightarrow> map_of vs k = Some v \<Longrightarrow> NUL \<notin> set v"
  by (auto simp: wf_vars_def dest: map_of_SomeD)

lemma source_value_NUL:
  assumes "wf_vars (srcLocal src)" "wf_vars (srcShadow src)" "env_ok (srcEnv src)"
  shows "NUL \<notin> set (source_value src name)"
  using assms map_of_NUL by (auto simp: source_value_def env_ok_def split: option.splits)

section \<open>The parser keeps its state well formed and within budget\<close>

lemma expandDouble_value:
  assumes "expandDouble s src limit = Some (Inr v, src')"
  shows "Trail \<notin> set (tokens True s)" "v = render_tokens (source_value src) (tokens True s)"
proof -
  define e where "e = new_expander\<lparr>xLocal := srcLocal src, xLimit := limit, xQuoted := True, xSrc := Some src\<rparr>"
  have ok: "\<not> xErr (xscan e [] s)" "\<not> xOver (xscan e [] s)" and v: "v = xOut (xscan e [] s)"
    using assms unfolding expandDouble_def e_def [symmetric] expand_xscan by (auto split: if_splits)
  have e: "xQuoted e" "xval e = source_value src" "xOut e = []"
    by (simp_all add: e_def new_expander_def xval_def)
  from xscan_sound [OF ok(2,1)] show "Trail \<notin> set (tokens True s)" "v = render_tokens (source_value src) (tokens True s)"
    by (simp_all add: e v)
qed

definition src_ok :: "sources \<Rightarrow> bool" where
  "src_ok src \<longleftrightarrow> distinct (external src) \<and> wf_vars (srcLocal src) \<and> wf_vars (srcShadow src) \<and> env_ok (srcEnv src)"

lemma parseValue_ok:
  assumes src: "src_ok src" and v: "NUL \<notin> set v"
  obtains r src' new where "parseValue v src budget = Some (r, src')" "external src' = new @ external src" "distinct (external src')"
    "credited src' = credited src + outside_bytes (srcShadow src) (srcEnv src) new" "\<And>x. r = Inr x \<Longrightarrow> NUL \<notin> set x"
proof -
  have dist: "distinct (external src)" using src by (simp add: src_ok_def)
  show ?thesis
  proof (cases "v \<noteq> [] \<and> hd v = DQ \<and> \<not> (length v < 2 \<or> last v \<noteq> DQ)")
    case True
    define t where "t = substr v 1 (length v - 1)"
    define r' where "r' r = (case r of Inl True \<Rightarrow> Inl TrailingBackslash | Inl False \<Rightarrow> Inl ExpansionBudget | Inr out \<Rightarrow> Inr out)"
      for r :: "bool + string"
    obtain r src' new where x: "expandDouble t src (max budget 0) = Some (r, src')" "external src' = new @ external src"
      "distinct (external src')" "credited src' = credited src + outside_bytes (srcShadow src) (srcEnv src) new"
      by (rule expandDouble_credit [OF dist, where limit = "max budget 0" and s = t]) simp_all
    have "NUL \<notin> set y" if "r' r = Inr y" for y
    proof -
      have "r = Inr y" using that by (auto simp: r'_def split: sum.splits bool.splits)
      then have "y = render_tokens (source_value src) (tokens True t)" using expandDouble_value(2) x(1) by blast
      moreover have "NUL \<notin> set t" using v set_substr unfolding t_def by fast
      ultimately show ?thesis using render_NUL source_value_NUL src by (simp add: src_ok_def)
    qed
    moreover have "parseValue v src budget = Some (r' r, src')"
      using True x(1) by (simp add: parseValue_def t_def r'_def)
    ultimately show ?thesis using that x(2-4) by blast
  next
    case False
    then have "\<exists>r. parseValue v src budget = Some (r, src) \<and> (\<forall>y. r = Inr y \<longrightarrow> set y \<subseteq> set v)"
      using set_substr [of v 1 "length v - 1"]
      by (cases "v = []"; cases "hd v = DQ"; cases "hd v = SQ"; cases "length v < 2 \<or> last v \<noteq> SQ") (auto simp: parseValue_def)
    then obtain r where r: "parseValue v src budget = Some (r, src)" "\<And>y. r = Inr y \<Longrightarrow> set y \<subseteq> set v" by blast
    show ?thesis
      by (rule that [OF r(1), of "[]"]) (use dist r(2) v in \<open>auto simp: outside_bytes_def\<close>)
  qed
qed

definition values_len :: "(string \<times> string) list \<Rightarrow> int" where
  "values_len vs = sum_list (map (\<lambda>(k, v). int (length v)) vs)"

lemma values_len_update: "values_len (AList.update k v vs) \<le> values_len vs + int (length v)"
  by (induction vs) (auto simp: values_len_def)

definition state_ok :: "(string \<times> string) list \<Rightarrow> env option \<Rightarrow> int \<Rightarrow> parse_state \<Rightarrow> bool" where
  "state_ok shadow envFn bytes st \<longleftrightarrow>
     wf_vars (outMap st) \<and> distinct (counted st) \<and> consumed st = bytes + outside_bytes shadow envFn (counted st)
     \<and> values_len (outMap st) \<le> expanded st \<and> expanded st \<le> expansionFactor * consumed st"

lemma wf_vars_update:
  "wf_vars vs \<Longrightarrow> isValidKey k \<Longrightarrow> NUL \<notin> set v \<Longrightarrow> wf_vars (AList.update k v vs)"
  using set_update_subset [of k v vs] by (auto simp: wf_vars_def distinct_update)

lemma outside_bytes_append: "outside_bytes shadow envFn (a @ b) = outside_bytes shadow envFn a + outside_bytes shadow envFn b"
  by (simp add: outside_bytes_def)

lemma parse_assign_ok:
  assumes st: "state_ok shadow envFn bytes st" and wf: "wf_vars shadow" "env_ok envFn"
    and key: "isValidKey key" and v: "NUL \<notin> set v"
  obtains r where "parse_assign shadow envFn n st key v = Some r" "\<And>st'. r = Inr st' \<Longrightarrow> state_ok shadow envFn bytes st'"
proof -
  define src where "src = \<lparr>srcLocal = outMap st, srcShadow = shadow, srcEnv = envFn, external = counted st, credited = 0\<rparr>"
  have "src_ok src" using st wf by (simp add: src_def src_ok_def state_ok_def)
  then obtain r src' new where x: "parseValue v src (expansionFactor * consumed st - expanded st) = Some (r, src')"
      "external src' = new @ external src" "distinct (external src')"
      "credited src' = credited src + outside_bytes (srcShadow src) (srcEnv src) new" "\<And>y. r = Inr y \<Longrightarrow> NUL \<notin> set y"
    using parseValue_ok [OF _ v] by blast
  define res where "res = the (parse_assign shadow envFn n st key v)"
  have some: "parse_assign shadow envFn n st key v = Some res"
    using x(1) by (simp add: res_def parse_assign_def src_def [symmetric] Let_def)
  show ?thesis
  proof (rule that [OF some])
    fix st' assume "res = Inr st'"
    then obtain y where y: "r = Inr y"
      "int (length y) \<le> expansionFactor * consumed st - expanded st + expansionFactor * credited src'"
      "st' = \<lparr>outMap = AList.update key y (outMap st), consumed = consumed st + credited src',
              expanded = expanded st + int (length y), counted = external src'\<rparr>"
      using some x(1) by (auto simp: parse_assign_def src_def [symmetric] Let_def split: sum.splits value_error.splits if_splits)
    have "wf_vars (AList.update key y (outMap st))"
      using st key x(5) [OF y(1)] by (intro wf_vars_update) (simp_all add: state_ok_def)
    then show "state_ok shadow envFn bytes st'"
      using st x(2,3,4) y(2,3) values_len_update [of key y "outMap st"]
      by (simp add: state_ok_def src_def outside_bytes_append expansionFactor_def)
  qed
qed

lemma set_strip_export: "set (strip_export s) \<subseteq> set s"
  using set_trim_space [of "drop 7 s"] by (auto simp: strip_export_def dest: in_set_dropD)

lemma parse_line_ok:
  assumes st: "state_ok shadow envFn bytes st" and wf: "wf_vars shadow" "env_ok envFn"
  obtains r where "parse_line shadow envFn n st raw = Some r"
    "\<And>st'. r = Inr st' \<Longrightarrow> \<exists>m. m \<le> length raw \<and> state_ok shadow envFn (bytes + int m + 1) st'"
proof -
  define l where "l = (if n = 1 then trim_prefix bom raw else raw)"
  have len: "length l \<le> length raw" by (simp add: l_def trim_prefix_def)
  define st1 where "st1 = st\<lparr>consumed := consumed st + int (length l) + 1\<rparr>"
  have st1: "state_ok shadow envFn (bytes + int (length l) + 1) st1"
    using st by (simp add: state_ok_def st1_def expansionFactor_def)
  define t where "t = strip_export (trim_space l)"
  have pl: "parse_line shadow envFn n st raw =
      (if NUL \<in> set l then Some (Inl (NulByte n))
       else if trim_space l = [] \<or> has_prefix (trim_space l) ''#'' then Some (Inr st1)
       else case index_str t ''='' of
         None \<Rightarrow> Some (Inl (MissingEquals n))
       | Some eq \<Rightarrow>
           if \<not> isValidKey (trim_space (take eq t)) then Some (Inl (InvalidKey n))
           else parse_assign shadow envFn n st1 (trim_space (take eq t)) (trim_space (drop (eq + 1) t)))"
    unfolding parse_line_def Let_def l_def st1_def t_def by (rule refl)
  show ?thesis
  proof (cases "NUL \<in> set l \<or> trim_space l = [] \<or> has_prefix (trim_space l) ''#''")
    case True
    then have "parse_line shadow envFn n st raw = Some (Inl (NulByte n)) \<or> parse_line shadow envFn n st raw = Some (Inr st1)"
      by (auto simp: pl)
    then show ?thesis
    proof
      assume "parse_line shadow envFn n st raw = Some (Inr st1)"
      from that [OF this] show ?thesis using st1 len by blast
    qed (use that in blast)
  next
    case False
    note line = False
    show ?thesis
    proof (cases "index_str t ''=''")
      case None
      then show ?thesis
        using that [of "Inl (MissingEquals n)"] False by (simp add: pl)
    next
      case (Some eq)
      define key where "key = trim_space (take eq t)"
      define v where "v = trim_space (drop (eq + 1) t)"
      have "set v \<subseteq> set l"
        using set_trim_space [of "drop (eq + 1) t"] set_strip_export [of "trim_space l"] set_trim_space [of l]
        unfolding v_def t_def by (meson dual_order.trans set_drop_subset)
      then have v: "NUL \<notin> set v" using False by blast
      have eq: "parse_line shadow envFn n st raw =
          (if \<not> isValidKey key then Some (Inl (InvalidKey n)) else parse_assign shadow envFn n st1 key v)"
        using line Some by (simp add: pl key_def v_def)
      show ?thesis
      proof (cases "isValidKey key")
        case False
        then show ?thesis using that eq by simp
      next
        case True
        obtain r where "parse_assign shadow envFn n st1 key v = Some r"
          "\<And>st'. r = Inr st' \<Longrightarrow> state_ok shadow envFn (bytes + int (length l) + 1) st'"
          using parse_assign_ok [OF st1 wf True v] by blast
        then show ?thesis using that eq True len by auto
      qed
    qed
  qed
qed

lemma parse_lines_ok:
  assumes "state_ok shadow envFn bytes st" "wf_vars shadow" "env_ok envFn"
  shows "\<exists>r. parse_lines shadow envFn n ls st = Some r \<and>
    (\<forall>st'. r = Inr st' \<longrightarrow> (\<exists>m. int m \<le> sum_list (map (\<lambda>l. int (length l) + 1) ls) \<and> state_ok shadow envFn (bytes + int m) st'))"
  using assms(1)
proof (induction ls arbitrary: n bytes st)
  case Nil
  then show ?case by (auto intro: exI [of _ 0])
next
  case (Cons l ls)
  obtain r where r: "parse_line shadow envFn (n + 1) st l = Some r"
    "\<And>st'. r = Inr st' \<Longrightarrow> \<exists>m. m \<le> length l \<and> state_ok shadow envFn (bytes + int m + 1) st'"
    using parse_line_ok [OF Cons.prems assms(2,3)] by blast
  show ?case
  proof (cases r)
    case (Inl err)
    then show ?thesis using r(1) by simp
  next
    case (Inr st1)
    then obtain m where m: "m \<le> length l" "state_ok shadow envFn (bytes + int m + 1) st1" using r(2) by blast
    obtain r' where r': "parse_lines shadow envFn (n + 1) ls st1 = Some r'"
      "\<And>st'. r' = Inr st' \<Longrightarrow> \<exists>k. int k \<le> sum_list (map (\<lambda>l. int (length l) + 1) ls) \<and>
         state_ok shadow envFn (bytes + int m + 1 + int k) st'"
      using Cons.IH [OF m(2)] by blast
    have "\<exists>k. int k \<le> sum_list (map (\<lambda>l. int (length l) + 1) (l # ls)) \<and> state_ok shadow envFn (bytes + int k) st'"
      if st': "r' = Inr st'" for st'
    proof -
      obtain k where "int k \<le> sum_list (map (\<lambda>l. int (length l) + 1) ls)" "state_ok shadow envFn (bytes + int m + 1 + int k) st'"
        using r'(2) st' by blast
      then show ?thesis using m(1) by (intro exI [of _ "m + 1 + k"]) (simp add: algebra_simps)
    qed
    then show ?thesis using r(1) Inr r'(1) by simp
  qed
qed

lemma split_on_lengths: "sum_list (map (\<lambda>l. int (length l) + 1) (split_on d s)) = int (length s) + 1"
  by (induction s) (auto split: list.splits)

lemma sum_list_takeWhile: "(\<And>x. 0 \<le> f x) \<Longrightarrow> sum_list (map f (takeWhile P xs)) \<le> sum_list (map (f :: _ \<Rightarrow> int) xs)"
  by (induction xs) (auto intro!: sum_list_nonneg add_nonneg_nonneg)

lemma scan_lines_lengths: "sum_list (map (\<lambda>l. int (length l) + 1) (fst (scan_lines s))) \<le> int (length s) + 1"
proof -
  define f :: "string \<Rightarrow> int" where "f = (\<lambda>l. int (length l) + 1)"
  have cr: "f (drop_cr l) \<le> f l" for l by (simp add: f_def drop_cr_def)
  have "sum_list (map f (butlast xs)) \<le> sum_list (map f xs)" for xs
    by (induction xs rule: rev_induct) (simp_all add: f_def)
  then have "sum_list (map f (raw_lines s)) \<le> int (length s) + 1"
    using split_on_lengths [of NL s] by (simp add: raw_lines_def Let_def f_def [symmetric]) (metis order_trans order_refl)
  moreover have "sum_list (map f (takeWhile P (raw_lines s))) \<le> sum_list (map f (raw_lines s))" for P
    by (rule sum_list_takeWhile) (simp add: f_def)
  moreover have "sum_list (map (\<lambda>l. f (drop_cr l)) xs) \<le> sum_list (map f xs)" for xs
    by (rule sum_list_mono) (rule cr)
  ultimately show ?thesis
    unfolding f_def [symmetric] by (simp add: scan_lines_def lines_upto_def Let_def comp_def) (meson order_trans)
qed

lemma parse_env_ok:
  assumes "wf_vars shadow" "env_ok envFn"
  obtains r where "parse_env s failed shadow envFn = Some r"
    "\<And>out. r = Inr out \<Longrightarrow> wf_vars out \<and> (\<exists>names. distinct names \<and>
        values_len out \<le> expansionFactor * (int (length s) + 1 + outside_bytes shadow envFn names))"
proof -
  have "state_ok shadow envFn 0 start_state"
    by (simp add: state_ok_def start_state_def wf_vars_def outside_bytes_def values_len_def)
  from parse_lines_ok [OF this assms, of 0 "fst (scan_lines s)"] obtain r where r:
    "parse_lines shadow envFn 0 (fst (scan_lines s)) start_state = Some r"
    "\<And>st. r = Inr st \<Longrightarrow> \<exists>m. int m \<le> sum_list (map (\<lambda>l. int (length l) + 1) (fst (scan_lines s))) \<and> state_ok shadow envFn (int m) st"
    by auto
  define res where "res = the (parse_env s failed shadow envFn)"
  have some: "parse_env s failed shadow envFn = Some res"
    using r(1) by (simp add: res_def parse_env_def case_prod_beta)
  show ?thesis
  proof (rule that [OF some])
    fix out assume "res = Inr out"
    then obtain st where st: "r = Inr st" "out = outMap st"
      using some r(1) by (auto simp: parse_env_def case_prod_beta split: sum.splits if_splits)
    then obtain m where m: "int m \<le> sum_list (map (\<lambda>l. int (length l) + 1) (fst (scan_lines s)))" "state_ok shadow envFn (int m) st"
      using r(2) by blast
    then have "int m \<le> int (length s) + 1" using scan_lines_lengths [of s] by linarith
    then show "wf_vars out \<and> (\<exists>names. distinct names \<and>
        values_len out \<le> expansionFactor * (int (length s) + 1 + outside_bytes shadow envFn names))"
      using m(2) unfolding state_ok_def st(2)
      by (intro conjI exI [of _ "counted st"]) (simp_all add: expansionFactor_def)
  qed
qed

section \<open>Loading and applying\<close>

lemma merge_parsed_map:
  "map_of (merge_parsed m ps) k = (case map_of m k of Some v \<Rightarrow> Some v | None \<Rightarrow> map_of ps k)"
proof (induction m ps rule: merge_parsed.induct)
  case (2 m n v ps)
  then show ?case
    by (cases "map_of m n") (auto simp: map_of_append map_add_def simp del: map_of_eq_Some_iff split: option.splits)
qed (simp split: option.split)

lemma merge_parsed_wf: "wf_vars m \<Longrightarrow> wf_vars ps \<Longrightarrow> wf_vars (merge_parsed m ps)"
proof (induction m ps rule: merge_parsed.induct)
  case (2 m n v ps)
  have "map_of m n = None \<Longrightarrow> wf_vars (m @ [(n, v)])"
    using 2(2,3) by (auto simp: wf_vars_def map_of_eq_None_iff)
  moreover have "wf_vars ps" using 2(3) by (simp add: wf_vars_def)
  ultimately show ?case using 2(1,2) by simp
qed simp

lemma load_files_ok:
  assumes "wf_vars m" "env_ok (Some env)"
  shows "\<exists>r. load_files fs env ps m = Some r \<and>
    (\<forall>vals. r = Inr vals \<longrightarrow> wf_vars vals \<and> (\<forall>k v. map_of m k = Some v \<longrightarrow> map_of vals k = Some v))"
  using assms(1)
proof (induction ps arbitrary: m)
  case (Cons p ps)
  show ?case
  proof (cases "fs p")
    case NotExist
    then show ?thesis using Cons by simp
  next
    case OpenError
    then show ?thesis by simp
  next
    case (File s failed)
    obtain r where r: "parse_env s failed m (Some env) = Some r" "\<And>out. r = Inr out \<Longrightarrow> wf_vars out"
      using parse_env_ok [OF Cons.prems assms(2), of s failed] by blast
    show ?thesis
    proof (cases r)
      case (Inl err)
      then show ?thesis using File r(1) by simp
    next
      case (Inr out)
      then have out: "wf_vars out" using r(2) by blast
      then obtain r' where r': "load_files fs env ps (merge_parsed m out) = Some r'"
        "\<forall>vals. r' = Inr vals \<longrightarrow> wf_vars vals \<and> (\<forall>k v. map_of (merge_parsed m out) k = Some v \<longrightarrow> map_of vals k = Some v)"
        using Cons.IH merge_parsed_wf Cons.prems by blast
      have "map_of m k = Some v \<Longrightarrow> map_of (merge_parsed m out) k = Some v" for k v
        using merge_parsed_map [of m out k] by simp
      then show ?thesis using File r(1) Inr r' by auto
    qed
  qed
qed auto

lemma load_files_append:
  "load_files fs env (ps @ qs) m =
     (case load_files fs env ps m of None \<Rightarrow> None | Some (Inl err) \<Rightarrow> Some (Inl err) | Some (Inr m') \<Rightarrow> load_files fs env qs m')"
  by (induction ps arbitrary: m) (auto split: env_file.splits option.splits sum.splits)

lemma valid_key_chars: "isValidKey k \<Longrightarrow> c \<in> set k \<Longrightarrow> key_start c \<or> is_digit c"
  by (cases k) (auto simp: isValidKey_def list_all_iff)

lemma valid_key_avoids: "isValidKey k \<Longrightarrow> CHR ''='' \<notin> set k \<and> NUL \<notin> set k \<and> k \<noteq> []"
  using valid_key_chars [of k "CHR ''=''"] valid_key_chars [of k NUL] by (auto simp: isValidKey_def key_start_def byte_class_defs)

lemma apply_loop_ok:
  assumes "distinct (map fst vs)" "\<forall>(k, v) \<in> set vs. isValidKey k \<and> NUL \<notin> set v"
  shows "fst (apply_loop vs env loaded skipped) k = (case env k of Some v \<Rightarrow> Some v | None \<Rightarrow> map_of vs k)"
    and "fst (snd (apply_loop vs env loaded skipped)) = loaded @ filter (\<lambda>k. env k = None) (map fst vs)"
    and "snd (snd (apply_loop vs env loaded skipped)) = skipped @ filter (\<lambda>k. env k \<noteq> None) (map fst vs)"
proof -
  have "fst (apply_loop vs env loaded skipped) k = (case env k of Some v \<Rightarrow> Some v | None \<Rightarrow> map_of vs k)
      \<and> fst (snd (apply_loop vs env loaded skipped)) = loaded @ filter (\<lambda>k. env k = None) (map fst vs)
      \<and> snd (snd (apply_loop vs env loaded skipped)) = skipped @ filter (\<lambda>k. env k \<noteq> None) (map fst vs)"
    using assms
  proof (induction vs env loaded skipped rule: apply_loop.induct)
    case (2 n v vs env loaded skipped)
    have keep: "filter (\<lambda>k. (env(n \<mapsto> v)) k = None) (map fst vs) = filter (\<lambda>k. env k = None) (map fst vs)"
      "filter (\<lambda>k. (env(n \<mapsto> v)) k \<noteq> None) (map fst vs) = filter (\<lambda>k. env k \<noteq> None) (map fst vs)"
      using 2(4) by (auto intro!: filter_cong)
    have "map_of vs n = None" using 2(4) by (simp add: map_of_eq_None_iff)
    moreover have "Setenv n v env = Some (env(n \<mapsto> v))"
      using 2(5) valid_key_avoids by (simp add: Setenv_def)
    ultimately show ?case
      using 2 keep by (cases "env n") (auto split: option.splits)
  qed (simp split: option.split)
  then show "fst (apply_loop vs env loaded skipped) k = (case env k of Some v \<Rightarrow> Some v | None \<Rightarrow> map_of vs k)"
    and "fst (snd (apply_loop vs env loaded skipped)) = loaded @ filter (\<lambda>k. env k = None) (map fst vs)"
    and "snd (snd (apply_loop vs env loaded skipped)) = skipped @ filter (\<lambda>k. env k \<noteq> None) (map fst vs)"
    by blast+
qed

section \<open>Written files\<close>

text \<open>Writing a variable as a double-quoted line.\<close>

definition escape_char :: "char \<Rightarrow> string" where
  "escape_char c =
     (if c = NL then [BSL, CHR ''n''] else if c = TAB then [BSL, CHR ''t''] else if c = CHR 0x0D then [BSL, CHR ''r'']
      else if c = DQ \<or> c = BSL \<or> c = USD then [BSL, c] else [c])"

definition escape :: "string \<Rightarrow> string" where
  "escape v = concat (map escape_char v)"

definition env_line :: "string \<times> string \<Rightarrow> string" where
  "env_line kv = fst kv @ ''='' @ [DQ] @ escape (snd kv) @ [DQ]"

definition env_text :: "(string \<times> string) list \<Rightarrow> string" where
  "env_text kvs = concat (map (\<lambda>kv. env_line kv @ [NL]) kvs)"

lemma escape_simps [simp]: "escape [] = []" "escape (c # v) = escape_char c @ escape v"
  by (simp_all add: escape_def)

lemma tokens_escape: "tokens True (escape v) = map (\<lambda>c. Lit [c]) v"
  by (induction v) (auto simp: escape_char_def escaped_def)

lemma render_escape: "render_tokens f (tokens True (escape v)) = v"
  unfolding tokens_escape by (induction v) simp_all

lemma length_escape: "length v \<le> length (escape v)"
  by (induction v) (auto simp: escape_char_def)

lemma set_escape: "NL \<notin> set (escape v)" "NUL \<notin> set v \<Longrightarrow> NUL \<notin> set (escape v)"
  by (induction v) (auto simp: escape_char_def)

lemma expandDouble_escape:
  assumes "int (length v) \<le> limit"
  shows "\<exists>src'. expandDouble (escape v) src limit = Some (Inr v, src') \<and> external src' = external src \<and> credited src' = credited src"
proof -
  define e where "e = new_expander\<lparr>xLocal := srcLocal src, xLimit := limit, xQuoted := True, xSrc := Some src\<rparr>"
  have e: "xQuoted e" "xOut e = []" "\<not> xErr e" by (simp_all add: e_def new_expander_def)
  have "fits e (length ([] :: string) + length (render_tokens (xval e) (tokens (xQuoted e) (escape v))))"
    using assms by (simp add: e render_escape fits_def) (simp add: e_def new_expander_def)
  from xscan_complete [OF this] have ok: "\<not> xOver (xscan e [] (escape v))" "\<not> xErr (xscan e [] (escape v))"
    using e by (auto simp: tokens_escape)
  have out: "xOut (xscan e [] (escape v)) = v"
    using xscan_sound [OF ok] e by (simp add: render_escape)
  define P where "P e = (xSrc e = Some src \<and> xQuoted e)" for e
  have "xSrc (xscan e' lit (escape w)) = Some src" if "xSrc e' = Some src" "xQuoted e'" for e' lit w
    using that
  proof (induction w arbitrary: e' lit)
    case (Cons c w)
    show ?case
    proof (cases "xOver e'")
      case True
      then show ?thesis using Cons.prems by (simp add: xscan_over)
    next
      case False
      then show ?thesis
        using Cons by (auto simp: escape_char_def)
    qed
  qed simp
  then have "xSrc (xscan e [] (escape v)) = Some src" by (simp add: e_def)
  then show ?thesis
    unfolding expandDouble_def e_def [symmetric] expand_xscan using ok out by simp
qed

lemma key_start_graphic: "key_start c \<or> is_digit c \<Longrightarrow> graphic c"
  by (auto simp: key_start_def byte_class_defs graphic_def)

lemma valid_key_graphic: "isValidKey k \<Longrightarrow> k \<noteq> [] \<and> graphic (hd k) \<and> graphic (last k)"
  using valid_key_chars [of k] key_start_graphic by (metis hd_in_set isValidKey_def last_in_set)

lemma valid_key_trim: "isValidKey k \<Longrightarrow> trim_space k = k"
  using valid_key_graphic trim_space_id by blast

definition fresh_line :: "string \<times> string \<Rightarrow> bool" where
  "fresh_line kv \<longleftrightarrow> isValidKey (fst kv) \<and> NUL \<notin> set (snd kv) \<and> length (env_line kv) < maxLineBytes"

lemma env_line_trim: "isValidKey k \<Longrightarrow> trim_space (env_line (k, v)) = env_line (k, v)"
  using valid_key_graphic [of k] by (intro trim_space_id) (auto simp: env_line_def graphic_def)

lemma take_7_key:
  assumes "isValidKey k" "byte_of d \<in> {9, 32}"
  shows "\<not> has_prefix (env_line (k, v)) (''export'' @ [d])"
proof
  assume "has_prefix (env_line (k, v)) (''export'' @ [d])"
  then have "take (length (''export'' @ [d])) (env_line (k, v)) = ''export'' @ [d]" unfolding has_prefix_def .
  then obtain rest where "env_line (k, v) = (''export'' @ [d]) @ rest" by (metis append_take_drop_id)
  then have e: "env_line (k, v) = ''export'' @ d # rest" by simp
  have k: "\<And>c. c \<in> set k \<Longrightarrow> graphic c" using valid_key_chars [OF assms(1)] key_start_graphic by blast
  have d: "\<not> graphic d" "d \<noteq> CHR ''=''" using assms(2) by (auto simp: graphic_def)
  have "k @ CHR ''='' # DQ # escape v @ [DQ] = ''export'' @ d # rest" using e by (simp add: env_line_def)
  then obtain us where "k = ''export'' @ us \<and> us @ CHR ''='' # DQ # escape v @ [DQ] = d # rest
      \<or> k @ us = ''export'' \<and> CHR ''='' # DQ # escape v @ [DQ] = us @ d # rest"
    unfolding append_eq_append_conv2 by blast
  then show False
  proof
    assume a: "k = ''export'' @ us \<and> us @ CHR ''='' # DQ # escape v @ [DQ] = d # rest"
    show False
    proof (cases us)
      case Nil
      then have "d = CHR ''=''" using a by simp
      then show False using d by blast
    next
      case (Cons u us')
      then have "u = d" "u \<in> set k" using a by simp_all
      then show False using d k by blast
    qed
  next
    assume a: "k @ us = ''export'' \<and> CHR ''='' # DQ # escape v @ [DQ] = us @ d # rest"
    have "set us \<subseteq> set ''export''" using a by (metis set_append sup_ge2)
    then have us: "CHR ''='' \<notin> set us" by auto
    show False
    proof (cases us)
      case Nil
      then have "d = CHR ''=''" using a by simp
      then show False using d by blast
    next
      case (Cons u us')
      then have "u = CHR ''=''" using a by simp
      then show False using us Cons by simp
    qed
  qed
qed

lemma set_env_line: "isValidKey k \<Longrightarrow> NL \<notin> set (env_line (k, v))"
  "isValidKey k \<Longrightarrow> NUL \<notin> set v \<Longrightarrow> NUL \<notin> set (env_line (k, v))"
  using set_escape [of v] valid_key_avoids [of k] valid_key_chars [of k NL]
  by (auto simp: env_line_def key_start_def byte_class_defs)

lemma parse_env_line:
  assumes k: "isValidKey k" and v: "NUL \<notin> set v" and new: "k \<notin> fst ` set (outMap st)"
    and le: "expanded st \<le> consumed st" "0 \<le> consumed st"
  shows "\<exists>st'. parse_line shadow envFn n st (env_line (k, v)) = Some (Inr st')
    \<and> outMap st' = outMap st @ [(k, v)] \<and> expanded st' \<le> consumed st' \<and> 0 \<le> consumed st'"
proof -
  define l where "l = env_line (k, v)"
  have "k \<noteq> []" "graphic (hd k)" using valid_key_graphic [OF k] by simp_all
  then have bom: "trim_prefix bom l = l"
    by (cases k) (auto simp: trim_prefix_def has_prefix_def bom_def unit_bytes_def l_def env_line_def graphic_def)
  have trim: "trim_space l = l" using env_line_trim [OF k] by (simp add: l_def)
  have "hd k \<noteq> CHR ''#''" using k by (auto simp: isValidKey_def key_start_def byte_class_defs)
  then have hash: "l \<noteq> [] \<and> \<not> has_prefix l ''#''"
    using \<open>k \<noteq> []\<close> by (cases k) (auto simp: has_prefix_def l_def env_line_def)
  have exp: "strip_export l = l"
    using take_7_key [OF k, of "CHR '' ''" v] take_7_key [OF k, of TAB v] by (simp add: strip_export_def l_def)
  have idx: "index_str l ''='' = Some (length k)"
    using index_str_char(1) [of "CHR ''=''" k "[DQ] @ escape v @ [DQ]"] valid_key_avoids [OF k] by (simp add: l_def env_line_def)
  define w where "w = DQ # escape v @ [DQ]"
  have parts: "take (length k) l = k" "drop (length k + 1) l = w" by (simp_all add: l_def env_line_def w_def)
  have w: "trim_space w = w" "hd w = DQ" "last w = DQ" "2 \<le> length w" "substr w 1 (length w - 1) = escape v"
    by (auto simp: w_def graphic_def substr_def intro!: trim_space_id)
  define st1 where "st1 = st\<lparr>consumed := consumed st + int (length l) + 1\<rparr>"
  have line: "parse_line shadow envFn n st l = parse_assign shadow envFn n st1 k w"
    using bom trim hash exp idx k set_env_line [OF k, of v] v
    by (simp add: parse_line_def parts(1) parts(2) [simplified] Let_def w(1) valid_key_trim st1_def l_def [symmetric])
  define src where "src = \<lparr>srcLocal = outMap st1, srcShadow = shadow, srcEnv = envFn, external = counted st1, credited = 0\<rparr>"
  define budget where "budget = expansionFactor * consumed st1 - expanded st1"
  have len: "int (length v) \<le> int (length l)" using length_escape [of v] by (simp add: l_def env_line_def)
  then have b: "int (length v) \<le> budget" using le by (simp add: budget_def st1_def expansionFactor_def)
  then obtain src' where "expandDouble (escape v) src (max budget 0) = Some (Inr v, src')" and c: "credited src' = credited src"
    using expandDouble_escape [of v "max budget 0" src] by auto
  then have "parseValue w src budget = Some (Inr v, src')"
    using w by (simp add: parseValue_def w_def)
  then have "parse_assign shadow envFn n st1 k w = Some (Inr \<lparr>outMap = AList.update k v (outMap st), consumed = consumed st1,
      expanded = expanded st + int (length v), counted = external src'\<rparr>)"
    using b c by (simp add: parse_assign_def src_def budget_def Let_def) (simp add: st1_def)
  moreover have "AList.update k v (outMap st) = outMap st @ [(k, v)]"
    using update_new [OF new] .
  ultimately show ?thesis
    unfolding l_def [symmetric] line using le len by (simp add: st1_def)
qed

lemma parse_env_lines:
  assumes "\<forall>kv \<in> set kvs. fresh_line kv" "distinct (map fst (outMap st @ kvs))" "expanded st \<le> consumed st" "0 \<le> consumed st"
  shows "\<exists>st'. parse_lines shadow envFn n (map env_line kvs) st = Some (Inr st') \<and> outMap st' = outMap st @ kvs"
  using assms
proof (induction kvs arbitrary: n st)
  case (Cons kv kvs)
  obtain k v where kv: "kv = (k, v)" by fastforce
  have "isValidKey k" "NUL \<notin> set v" "k \<notin> fst ` set (outMap st)"
    using Cons.prems kv by (auto simp: fresh_line_def)
  then obtain st1 where st1: "parse_line shadow envFn (n + 1) st (env_line kv) = Some (Inr st1)"
      "outMap st1 = outMap st @ [kv]" "expanded st1 \<le> consumed st1" "0 \<le> consumed st1"
    using parse_env_line [of k v st shadow envFn "n + 1"] Cons.prems kv by auto
  then have "\<exists>st'. parse_lines shadow envFn (n + 1) (map env_line kvs) st1 = Some (Inr st') \<and> outMap st' = outMap st1 @ kvs"
    using Cons.prems by (intro Cons.IH) auto
  then show ?case using st1 by auto
qed auto

lemma env_line_last: "env_line kv \<noteq> [] \<and> last (env_line kv) = DQ"
  by (simp add: env_line_def)

lemma split_env_text:
  "\<forall>kv \<in> set kvs. fresh_line kv \<Longrightarrow> split_on NL (env_text kvs) = map env_line kvs @ [[]]"
proof (induction kvs)
  case (Cons kv kvs)
  have "NL \<notin> set (env_line kv)" using Cons.prems set_env_line by (cases kv) (auto simp: fresh_line_def)
  from split_on_append_sep [OF this, of "env_text kvs"] show ?case
    using Cons by (simp add: env_text_def)
qed (simp add: env_text_def)

lemma scan_env_text:
  assumes "\<forall>kv \<in> set kvs. fresh_line kv"
  shows "scan_lines (env_text kvs) = (map env_line kvs, False)"
proof -
  have "raw_lines (env_text kvs) = map env_line kvs"
    by (simp add: raw_lines_def split_env_text [OF assms])
  moreover have "takeWhile (\<lambda>l. length l < maxLineBytes) (map env_line kvs) = map env_line kvs"
    using assms by (auto simp: takeWhile_eq_all_conv fresh_line_def)
  moreover have "drop_cr (env_line kv) = env_line kv" for kv
    using env_line_last [of kv] by (auto simp: drop_cr_def)
  ultimately show ?thesis by (simp add: scan_lines_def lines_upto_def Let_def del: takeWhile_eq_all_conv)
qed

section \<open>Properties\<close>

text \<open>C14. Expansion ends after one pass and reads no value as a template. The expander's loop returns for every state and text;
  \<^verbatim>\<open>Expand\<close> writes the reading of the text, which no value influences, with each reference replaced by the local value, or
  else the environment's, or else nothing. So a value that refers to itself or to others cannot make it loop or grow.\<close>

theorem Expand_one_pass:
  "(\<forall>e s. \<exists>e'. x_expand e s = Some e')
   \<and> Expand s local envFn = Some (concat (map (render_token (direct_value local envFn)) (tokens False s)))"
  using expand_xscan Expand_eq by (simp add: render_tokens_def)

text \<open>The expansion budget. Parsing always returns, and the values of a parsed file add up to at most ten times the bytes of
  the file and its final newline, whatever its lines refer to. With an environment and the values of other files, each name
  read from them adds its length to those bytes once.\<close>

lemma Parse_bounded:
  assumes "wf_vars shadow" "env_ok envFn"
  shows "\<exists>r. parse_env s failed shadow envFn = Some r \<and>
    (\<forall>out. r = Inr out \<longrightarrow> (\<exists>names. distinct names \<and>
        values_len out \<le> 10 * (int (length s) + 1 + outside_bytes shadow envFn names)))"
  using parse_env_ok [OF assms, of s failed] unfolding expansionFactor_def by metis

text \<open>Writing and reading back. Variables with distinct valid names and values without NUL bytes, written as
  double-quoted lines with the escapes the parser reads, parse to themselves in order: quotes, backslashes, dollars and line
  breaks in a value survive, and nothing in a value is taken for a reference.\<close>

lemma Parse_env_text:
  assumes "distinct (map fst kvs)" "\<forall>(k, v) \<in> set kvs. isValidKey k \<and> NUL \<notin> set v \<and> length (env_line (k, v)) < maxLineBytes"
  shows "Parse (env_text kvs) False = Some (Inr kvs)"
proof -
  have fresh: "\<forall>kv \<in> set kvs. fresh_line kv" using assms(2) by (auto simp: fresh_line_def)
  have "\<exists>st'. parse_lines [] None 0 (map env_line kvs) start_state = Some (Inr st') \<and> outMap st' = outMap start_state @ kvs"
    by (rule parse_env_lines [OF fresh]) (use assms(1) in \<open>simp_all add: start_state_def\<close>)
  then show ?thesis
    by (auto simp: Parse_def parse_env_def scan_env_text [OF fresh] start_state_def)
qed

text \<open>The three parts of the property: what is loaded, what is set, and what a further file adds.\<close>

lemma load_apply_parts:
  assumes "env_ok (Some env)" "Load fs env paths = Some (Inr vals)"
  shows "wf_vars vals"
    and "Apply vals env = (env', loaded, skipped) \<Longrightarrow>
      env' = (\<lambda>k. case env k of Some v \<Rightarrow> Some v | None \<Rightarrow> map_of vals k)
      \<and> set loaded = {k \<in> fst ` set vals. env k = None} \<and> set skipped = {k \<in> fst ` set vals. env k \<noteq> None}
      \<and> sorted loaded \<and> sorted skipped"
    and "fs p = File s failed \<Longrightarrow> parse_env s failed vals (Some env) = Some (Inr parsed) \<Longrightarrow>
      \<exists>vals'. Load fs env (paths @ [p]) = Some (Inr vals')
        \<and> (\<forall>k. map_of vals' k = (case map_of vals k of Some v \<Rightarrow> Some v | None \<Rightarrow> map_of parsed k))"
proof -
  have "wf_vars []" by (simp add: wf_vars_def)
  from load_files_ok [OF this assms(1), of fs paths] show wf: "wf_vars vals"
    using assms(2) by (auto simp: Load_def)
  then have ok: "distinct (map fst vals)" "\<forall>(k, v) \<in> set vals. isValidKey k \<and> NUL \<notin> set v" by (simp_all add: wf_vars_def)
  assume "Apply vals env = (env', loaded, skipped)"
  then have "env' = fst (apply_loop vals env [] [])" "loaded = sort (filter (\<lambda>k. env k = None) (map fst vals))"
    "skipped = sort (filter (\<lambda>k. env k \<noteq> None) (map fst vals))"
    using apply_loop_ok(2,3) [OF ok, of env "[]" "[]"] by (auto simp: Apply_def split: prod.splits)
  then show "env' = (\<lambda>k. case env k of Some v \<Rightarrow> Some v | None \<Rightarrow> map_of vals k)
      \<and> set loaded = {k \<in> fst ` set vals. env k = None} \<and> set skipped = {k \<in> fst ` set vals. env k \<noteq> None}
      \<and> sorted loaded \<and> sorted skipped"
    using apply_loop_ok(1) [OF ok, of env "[]" "[]"] by auto
next
  assume "fs p = File s failed" "parse_env s failed vals (Some env) = Some (Inr parsed)"
  then show "\<exists>vals'. Load fs env (paths @ [p]) = Some (Inr vals')
        \<and> (\<forall>k. map_of vals' k = (case map_of vals k of Some v \<Rightarrow> Some v | None \<Rightarrow> map_of parsed k))"
    using assms(2) merge_parsed_map by (simp add: Load_def load_files_append)
qed

text \<open>C13. What boot applies. If no value of the environment holds a NUL byte, every variable that \<^verbatim>\<open>Load\<close> returns has a valid name,
  once, and a value without NUL bytes; \<^verbatim>\<open>Apply\<close> then sets exactly the variables the environment lacks, none fails, none that
  the environment has is changed, and its two lists are sorted. A further file adds only names that no earlier one set.\<close>

theorem dotenv_load_apply:
  assumes "env_ok (Some env)" "Load fs env paths = Some (Inr vals)"
  shows "wf_vars vals
    \<and> (\<forall>env' loaded skipped. Apply vals env = (env', loaded, skipped) \<longrightarrow>
      env' = (\<lambda>k. case env k of Some v \<Rightarrow> Some v | None \<Rightarrow> map_of vals k)
      \<and> set loaded = {k \<in> fst ` set vals. env k = None} \<and> set skipped = {k \<in> fst ` set vals. env k \<noteq> None}
      \<and> sorted loaded \<and> sorted skipped)
    \<and> (\<forall>p s failed parsed. fs p = File s failed \<longrightarrow> parse_env s failed vals (Some env) = Some (Inr parsed) \<longrightarrow>
      (\<exists>vals'. Load fs env (paths @ [p]) = Some (Inr vals')
        \<and> (\<forall>k. map_of vals' k = (case map_of vals k of Some v \<Rightarrow> Some v | None \<Rightarrow> map_of parsed k))))"
  by (intro conjI load_apply_parts(1) [OF assms]) ((intro allI impI, erule load_apply_parts(2) [OF assms]),
    (intro allI impI, erule (1) load_apply_parts(3) [OF assms]))

section \<open>Witnesses\<close>

lemma Parse_bounded_witness:
  "\<exists>r. parse_env ''A=b'' False [] None = Some r \<and>
    (\<forall>out. r = Inr out \<longrightarrow> (\<exists>names. distinct names \<and> values_len out \<le> 10 * (3 + 1 + outside_bytes [] None names)))"
  using Parse_bounded [of "[]" None "''A=b''" False] by (simp add: wf_vars_def env_ok_def)

lemma Parse_env_text_witness:
  "Parse (env_text [(''A'', ''x${B}''), (''B'', [NL, DQ, BSL])]) False = Some (Inr [(''A'', ''x${B}''), (''B'', [NL, DQ, BSL])])"
  by (rule Parse_env_text)
    (simp_all add: isValidKey_def key_start_def byte_class_defs env_line_def escape_def escape_char_def maxLineBytes_def)

theorem dotenv_load_apply_witness:
  "Load (\<lambda>p. File (env_text [(''A'', ''1''), (''B'', ''2'')]) False) [''A'' \<mapsto> ''9''] [''env''] = Some (Inr [(''A'', ''1''), (''B'', ''2'')])
   \<and> fst (Apply [(''A'', ''1''), (''B'', ''2'')] [''A'' \<mapsto> ''9'']) ''A'' = Some ''9''
   \<and> fst (Apply [(''A'', ''1''), (''B'', ''2'')] [''A'' \<mapsto> ''9'']) ''B'' = Some ''2''"
proof -
  define kvs where "kvs = [(''A'', ''1''), (''B'', ''2'')]"
  define env where "env = [''A'' \<mapsto> ''9'']"
  have fresh: "\<forall>kv \<in> set kvs. fresh_line kv"
    by (simp add: kvs_def fresh_line_def isValidKey_def key_start_def byte_class_defs env_line_def escape_def escape_char_def
        maxLineBytes_def)
  have "\<exists>st'. parse_lines [] (Some env) 0 (map env_line kvs) start_state = Some (Inr st') \<and> outMap st' = outMap start_state @ kvs"
    by (rule parse_env_lines [OF fresh]) (simp_all add: start_state_def kvs_def)
  then have "parse_env (env_text kvs) False [] (Some env) = Some (Inr kvs)"
    by (auto simp: parse_env_def scan_env_text [OF fresh] start_state_def)
  then have load: "Load (\<lambda>p. File (env_text kvs) False) env [''env''] = Some (Inr kvs)"
    by (simp add: Load_def kvs_def)
  have ok: "env_ok (Some env)" by (simp add: env_ok_def env_def)
  obtain env' loaded skipped where a: "Apply kvs env = (env', loaded, skipped)" by (metis prod_cases3)
  from dotenv_load_apply [OF ok load] a have "env' ''A'' = Some ''9''" "env' ''B'' = Some ''2''"
    by (simp_all add: env_def kvs_def)
  then show ?thesis using load a by (simp add: kvs_def env_def)
qed

end
