(* ===== verification/FeatureFlag.thy ===== *)
theory FeatureFlag
  imports GoStrconv "HOL-Library.Word"
begin

text \<open>
  Feature flags: \<^verbatim>\<open>core/featureflag/flag.go\<close> (rules, evaluation, the in-memory store) and \<^verbatim>\<open>sql.go\<close> (the store in a
  table). A store is reached through the locale \<open>flag_store\<close>, interpreted on both. A request context carries an
  optional evaluation context, an optional evaluator and the resolved tenant; a nil slice is the empty list. The
  encoding of a list in a JSON column is a pair of arguments.
\<close>

unbundle bit_operations_syntax

section \<open>Flags and contexts\<close>

record Flag =
  flagKey :: string
  flagEnabled :: bool
  flagRollout :: int
  flagUsers :: "string list"
  flagTenants :: "string list"
  flagEnvs :: "string list"

record EvalContext =
  ecUser :: string
  ecTenant :: string
  ecEnv :: string
  ecAttrs :: "(string \<times> string) list"

definition zero_context :: EvalContext where
  "zero_context = \<lparr>ecUser = [], ecTenant = [], ecEnv = [], ecAttrs = []\<rparr>"

datatype flag_error = EmptyKey | NoUserId | BadTenantEscape | UsersEntry nat flag_error | MalformedList string | FlagDb

type_synonym flag_get = "string \<Rightarrow> flag_error + Flag option"

record Evaluator =
  evalStore :: "flag_get option"
  evalSalt :: string

record flag_ctx =
  ctxEval :: "EvalContext option"
  ctxEvaluator :: "Evaluator option option"
  ctxTenant :: string

definition NewEvaluator :: "flag_get option \<Rightarrow> Evaluator" where
  "NewEvaluator s = \<lparr>evalStore = s, evalSalt = []\<rparr>"

definition NewEvaluatorWithSalt :: "flag_get option \<Rightarrow> string \<Rightarrow> Evaluator" where
  "NewEvaluatorWithSalt s salt = \<lparr>evalStore = s, evalSalt = salt\<rparr>"

definition WithContext :: "flag_ctx \<Rightarrow> EvalContext \<Rightarrow> flag_ctx" where
  "WithContext ctx ec = ctx\<lparr>ctxEval := Some ec\<rparr>"

definition FromContext :: "flag_ctx option \<Rightarrow> EvalContext" where
  "FromContext ctx =
     (case ctx of None \<Rightarrow> zero_context | Some c \<Rightarrow> (case ctxEval c of None \<Rightarrow> zero_context | Some ec \<Rightarrow> ec))"

definition WithEvaluator :: "flag_ctx \<Rightarrow> Evaluator option \<Rightarrow> flag_ctx" where
  "WithEvaluator ctx e = ctx\<lparr>ctxEvaluator := Some e\<rparr>"

text \<open>The process default is an argument; \<^verbatim>\<open>SetDefault\<close> and \<^verbatim>\<open>Default\<close> write and read it.\<close>

definition EvaluatorFrom :: "Evaluator option \<Rightarrow> flag_ctx option \<Rightarrow> Evaluator option" where
  "EvaluatorFrom dflt ctx =
     (case ctx of None \<Rightarrow> dflt | Some c \<Rightarrow> (case ctxEvaluator c of None \<Rightarrow> dflt | Some e \<Rightarrow> e))"

section \<open>User entries\<close>

definition escape_byte :: "char \<Rightarrow> string" where
  "escape_byte c = (if c = CHR ''%'' then ''%25'' else if c = CHR '':'' then ''%3A'' else [c])"

definition tenantEscaper :: "string \<Rightarrow> string" where
  "tenantEscaper s = concat (map escape_byte s)"

definition UserEntry :: "string \<Rightarrow> string \<Rightarrow> string" where
  "UserEntry tenant user =
     (if tenant = [] then (if CHR '':'' \<in> set user then CHR '':'' # user else user)
      else tenantEscaper tenant @ CHR '':'' # user)"

definition hex_val :: "char \<Rightarrow> nat option" where
  "hex_val c =
     (if is_digit c then Some (byte_of c - 48)
      else if 97 \<le> byte_of c \<and> byte_of c \<le> 102 then Some (byte_of c - 87)
      else if 65 \<le> byte_of c \<and> byte_of c \<le> 70 then Some (byte_of c - 55)
      else None)"

text \<open>\<^verbatim>\<open>url.PathUnescape\<close>.\<close>

fun path_unescape :: "string \<Rightarrow> string option" where
  "path_unescape [] = Some []"
| "path_unescape (c # cs) =
     (if c = CHR ''%'' then
        (case cs of
           a # b # ds \<Rightarrow>
             (case (hex_val a, hex_val b) of
                (Some x, Some y) \<Rightarrow> map_option ((#) (char_of (16 * x + y))) (path_unescape ds)
              | _ \<Rightarrow> None)
         | _ \<Rightarrow> None)
      else map_option ((#) c) (path_unescape cs))"

definition ParseUserEntry :: "string \<Rightarrow> flag_error + string \<times> string" where
  "ParseUserEntry entry =
     (let (tenantPart, user) = (case cut_at (CHR '':'') entry of None \<Rightarrow> ([], entry) | Some p \<Rightarrow> p) in
      if user = [] then Inl NoUserId
      else case path_unescape tenantPart of None \<Rightarrow> Inl BadTenantEscape | Some tenant \<Rightarrow> Inr (tenant, user))"

fun valid_from :: "nat \<Rightarrow> string list \<Rightarrow> flag_error option" where
  "valid_from i [] = None"
| "valid_from i (u # us) = (case ParseUserEntry u of Inl err \<Rightarrow> Some (UsersEntry i err) | Inr _ \<Rightarrow> valid_from (i + 1) us)"

definition validUsers :: "string list \<Rightarrow> flag_error option" where
  "validUsers us = valid_from 0 us"

fun userAllowed :: "string list \<Rightarrow> string \<Rightarrow> string \<Rightarrow> bool" where
  "userAllowed [] tenant user = False"
| "userAllowed (u # us) tenant user = (if ParseUserEntry u = Inr (tenant, user) then True else userAllowed us tenant user)"

section \<open>Evaluation\<close>

definition subjectID :: "string \<Rightarrow> string \<Rightarrow> string" where
  "subjectID tenant user =
     (if user \<noteq> [] \<and> tenant \<noteq> [] then UserEntry tenant user else if user \<noteq> [] then user else tenant)"

definition fnv32a :: "32 word \<Rightarrow> string \<Rightarrow> 32 word" where
  "fnv32a h s = foldl (\<lambda>h c. (h XOR word_of_nat (byte_of c)) * 16777619) h s"

definition fnv_offset :: "32 word" where "fnv_offset = 2166136261"

definition flag_bucket :: "string \<Rightarrow> string \<Rightarrow> string \<Rightarrow> int" where
  "flag_bucket salt key subject =
     (let h0 = fnv_offset;
          h1 = (if salt \<noteq> [] then fnv32a (fnv32a h0 salt) [CHR 0x00] else h0)
      in int (unat (fnv32a (fnv32a (fnv32a h1 key) [CHR 0x00]) subject) mod 100))"

definition evalTenant :: "flag_ctx option \<Rightarrow> EvalContext \<Rightarrow> string" where
  "evalTenant ctx ec = (if ecTenant ec \<noteq> [] then ecTenant ec else case ctx of None \<Rightarrow> [] | Some c \<Rightarrow> ctxTenant c)"

definition evaluate :: "Evaluator \<Rightarrow> flag_ctx option \<Rightarrow> Flag option \<Rightarrow> bool" where
  "evaluate e ctx fo =
     (case fo of None \<Rightarrow> False | Some f \<Rightarrow>
      if \<not> flagEnabled f then False
      else
        let ec = FromContext ctx in
        if flagEnvs f \<noteq> [] \<and> ecEnv ec \<notin> set (flagEnvs f) then False
        else
          let tenant = evalTenant ctx ec in
          if ecUser ec \<noteq> [] \<and> userAllowed (flagUsers f) tenant (ecUser ec) then True
          else if tenant \<in> set (flagTenants f) \<and> tenant \<noteq> [] then True
          else if flagRollout f \<le> 0 then False
          else if flagRollout f \<ge> 100 then True
          else
            let subject = subjectID tenant (ecUser ec) in
            if subject = [] then False else flag_bucket (evalSalt e) (flagKey f) subject < flagRollout f)"

definition flag_Bool :: "Evaluator option \<Rightarrow> flag_ctx option \<Rightarrow> string \<Rightarrow> bool" where
  "flag_Bool eo ctx key =
     (case eo of None \<Rightarrow> False | Some e \<Rightarrow>
        (case evalStore e of None \<Rightarrow> False | Some get \<Rightarrow>
           (case get key of Inl _ \<Rightarrow> False | Inr None \<Rightarrow> False | Inr (Some f) \<Rightarrow> evaluate e ctx (Some f))))"

definition BoolDefault :: "Evaluator option \<Rightarrow> flag_ctx option \<Rightarrow> string \<Rightarrow> bool \<Rightarrow> bool" where
  "BoolDefault eo ctx key fallback =
     (case eo of None \<Rightarrow> fallback | Some e \<Rightarrow>
        (case evalStore e of None \<Rightarrow> fallback | Some get \<Rightarrow>
           (case get key of Inl _ \<Rightarrow> fallback | Inr None \<Rightarrow> fallback | Inr (Some f) \<Rightarrow> evaluate e ctx (Some f))))"

definition package_Bool :: "Evaluator option \<Rightarrow> flag_ctx option \<Rightarrow> string \<Rightarrow> bool" where
  "package_Bool dflt ctx key = flag_Bool (EvaluatorFrom dflt ctx) ctx key"

section \<open>Stores\<close>

type_synonym MemoryStore = "(string \<times> Flag) list"

definition NewMemoryStore :: MemoryStore where "NewMemoryStore = []"

definition mem_Get :: "MemoryStore \<Rightarrow> flag_get" where
  "mem_Get m key = Inr (map_of m key)"

definition clamp_rollout :: "Flag \<Rightarrow> Flag" where
  "clamp_rollout f =
     (let f1 = (if flagRollout f < 0 then f\<lparr>flagRollout := 0\<rparr> else f)
      in if flagRollout f1 > 100 then f1\<lparr>flagRollout := 100\<rparr> else f1)"

definition check_flag :: "Flag \<Rightarrow> flag_error option" where
  "check_flag f = (if flagKey f = [] then Some EmptyKey else validUsers (flagUsers f))"

definition mem_Set :: "MemoryStore \<Rightarrow> Flag \<Rightarrow> flag_error + MemoryStore" where
  "mem_Set m f =
     (case check_flag f of Some err \<Rightarrow> Inl err | None \<Rightarrow> Inr (AList.update (flagKey f) (clamp_rollout f) m))"

definition mem_Delete :: "MemoryStore \<Rightarrow> string \<Rightarrow> flag_error + MemoryStore" where
  "mem_Delete m key = Inr (AList.delete key m)"

definition mem_All :: "MemoryStore \<Rightarrow> Flag list" where
  "mem_All m = map snd m"

text \<open>The rows of the table; \<open>enc\<close> and \<open>dec\<close> write and read a JSON list.\<close>

record flag_row =
  rowKey :: string
  rowEnabled :: int
  rowRollout :: int
  rowUsers :: string
  rowTenants :: string
  rowEnvs :: string

type_synonym flag_table = "flag_row list"

definition decodeJSONList :: "(string \<Rightarrow> string list option) \<Rightarrow> string \<Rightarrow> string list option" where
  "decodeJSONList dec s = (if s = [] then Some [] else dec s)"

definition scan_row :: "(string \<Rightarrow> string list option) \<Rightarrow> flag_row \<Rightarrow> flag_error + Flag" where
  "scan_row dec r =
     (case decodeJSONList dec (rowUsers r) of None \<Rightarrow> Inl (MalformedList ''users'')
      | Some u \<Rightarrow> (case decodeJSONList dec (rowTenants r) of None \<Rightarrow> Inl (MalformedList ''tenants'')
      | Some t \<Rightarrow> (case decodeJSONList dec (rowEnvs r) of None \<Rightarrow> Inl (MalformedList ''envs'')
      | Some v \<Rightarrow> Inr \<lparr>flagKey = rowKey r, flagEnabled = (rowEnabled r \<noteq> 0), flagRollout = rowRollout r,
                       flagUsers = u, flagTenants = t, flagEnvs = v\<rparr>)))"

definition row_of :: "(string list \<Rightarrow> string) \<Rightarrow> Flag \<Rightarrow> flag_row" where
  "row_of enc f =
     \<lparr>rowKey = flagKey f, rowEnabled = (if flagEnabled f then 1 else 0), rowRollout = flagRollout f,
      rowUsers = enc (flagUsers f), rowTenants = enc (flagTenants f), rowEnvs = enc (flagEnvs f)\<rparr>"

text \<open>\<open>fails\<close> tells whether the statement returns an error, and does nothing.\<close>

definition sql_Get :: "(string \<Rightarrow> string list option) \<Rightarrow> bool \<Rightarrow> flag_table \<Rightarrow> flag_get" where
  "sql_Get dec fails rows key =
     (if fails then Inl FlagDb
      else case find (\<lambda>r. rowKey r = key) rows of
        None \<Rightarrow> Inr None
      | Some r \<Rightarrow> (case scan_row dec r of Inl err \<Rightarrow> Inl err | Inr f \<Rightarrow> Inr (Some f)))"

fun upsert_row :: "flag_row \<Rightarrow> flag_table \<Rightarrow> flag_table" where
  "upsert_row r [] = [r]"
| "upsert_row r (x # xs) = (if rowKey x = rowKey r then r # xs else x # upsert_row r xs)"

definition sql_Set :: "(string list \<Rightarrow> string) \<Rightarrow> bool \<Rightarrow> flag_table \<Rightarrow> Flag \<Rightarrow> flag_error + flag_table" where
  "sql_Set enc fails rows f =
     (case check_flag f of
        Some err \<Rightarrow> Inl err
      | None \<Rightarrow> if fails then Inl FlagDb else Inr (upsert_row (row_of enc (clamp_rollout f)) rows))"

definition sql_Delete :: "bool \<Rightarrow> flag_table \<Rightarrow> string \<Rightarrow> flag_error + flag_table" where
  "sql_Delete fails rows key = (if fails then Inl FlagDb else Inr (filter (\<lambda>r. rowKey r \<noteq> key) rows))"

fun scan_rows :: "(string \<Rightarrow> string list option) \<Rightarrow> flag_table \<Rightarrow> flag_error + Flag list" where
  "scan_rows dec [] = Inr []"
| "scan_rows dec (r # rs) =
     (case scan_row dec r of
        Inl err \<Rightarrow> Inl err
      | Inr f \<Rightarrow> (case scan_rows dec rs of Inl err \<Rightarrow> Inl err | Inr fs \<Rightarrow> Inr (f # fs)))"

text \<open>\<open>rows\<close> in the order of the query.\<close>

definition sql_All :: "(string \<Rightarrow> string list option) \<Rightarrow> bool \<Rightarrow> flag_table \<Rightarrow> flag_error + Flag list" where
  "sql_All dec fails rows = (if fails then Inl FlagDb else scan_rows dec rows)"

section \<open>User entries name one user of one tenant\<close>

lemma escaper_simps: "tenantEscaper [] = []" "tenantEscaper (c # t) = escape_byte c @ tenantEscaper t"
  by (simp_all add: tenantEscaper_def)

lemma char_of_escapes: "char_of (16 * 2 + 5 :: nat) = CHR ''%''" "char_of (16 * 3 + 10 :: nat) = CHR '':''"
  by code_simp+

lemma unescape_escape: "path_unescape (tenantEscaper t) = Some t"
proof (induction t)
  case (Cons c t)
  have "hex_val (CHR ''2'') = Some 2" "hex_val (CHR ''5'') = Some 5" "hex_val (CHR ''3'') = Some 3" "hex_val (CHR ''A'') = Some 10"
    by (simp_all add: hex_val_def byte_class_defs)
  then show ?case
    using Cons char_of_escapes by (simp add: escaper_simps escape_byte_def)
qed (simp add: escaper_simps)

lemma escaper_no_colon: "CHR '':'' \<notin> set (tenantEscaper t)"
  by (induction t) (auto simp: escaper_simps escape_byte_def)

lemma cut_at_first: "d \<notin> set p \<Longrightarrow> cut_at d (p @ d # q) = Some (p, q)"
proof -
  assume d: "d \<notin> set p"
  have "takeWhile (\<lambda>c. c \<noteq> d) (p @ d # q) = p" "dropWhile (\<lambda>c. c \<noteq> d) (p @ d # q) = d # q"
    using d by (induction p) auto
  then show ?thesis by (simp add: cut_at_def)
qed

lemma parse_user_entry: "u \<noteq> [] \<Longrightarrow> ParseUserEntry (UserEntry t u) = Inr (t, u)"
proof -
  assume u: "u \<noteq> []"
  consider "t = []" "CHR '':'' \<in> set u" | "t = []" "CHR '':'' \<notin> set u" | "t \<noteq> []" by blast
  then show ?thesis
  proof cases
    case 1
    then show ?thesis using u cut_at_first [of "CHR '':''" "[]" u] by (simp add: ParseUserEntry_def UserEntry_def)
  next
    case 2
    then show ?thesis using u by (simp add: ParseUserEntry_def UserEntry_def cut_at_def)
  next
    case 3
    then show ?thesis
      using u cut_at_first [OF escaper_no_colon, of t u] unescape_escape [of t] by (simp add: ParseUserEntry_def UserEntry_def)
  qed
qed

lemma parse_user_nonempty: "ParseUserEntry e = Inr (t, u) \<Longrightarrow> u \<noteq> []"
  by (auto simp: ParseUserEntry_def Let_def split: prod.splits option.splits if_splits)

lemma userAllowed_iff: "userAllowed us t u \<longleftrightarrow> (\<exists>e \<in> set us. ParseUserEntry e = Inr (t, u))"
  by (induction us) auto

lemma userAllowed_entries:
  assumes "\<forall>(t, u) \<in> set ps. u \<noteq> []"
  shows "userAllowed (map (\<lambda>(t, u). UserEntry t u) ps) t u \<longleftrightarrow> (t, u) \<in> set ps"
proof -
  have "ParseUserEntry (UserEntry t' u') = Inr (t', u')" if "(t', u') \<in> set ps" for t' u'
    using that assms parse_user_entry by fast
  then show ?thesis unfolding userAllowed_iff by (auto intro!: bexI [of _ "(t, u)"])
qed

lemma valid_from_iff: "valid_from i us = None \<longleftrightarrow> (\<forall>e \<in> set us. \<exists>p. ParseUserEntry e = Inr p)"
  by (induction us arbitrary: i) (auto split: sum.splits)

section \<open>The decision\<close>

definition gate_open :: "flag_ctx option \<Rightarrow> Flag \<Rightarrow> bool" where
  "gate_open ctx f \<longleftrightarrow> flagEnabled f \<and> (flagEnvs f = [] \<or> ecEnv (FromContext ctx) \<in> set (flagEnvs f))"

definition listed :: "flag_ctx option \<Rightarrow> Flag \<Rightarrow> bool" where
  "listed ctx f \<longleftrightarrow>
     (\<exists>e \<in> set (flagUsers f). ParseUserEntry e = Inr (evalTenant ctx (FromContext ctx), ecUser (FromContext ctx)))
     \<or> evalTenant ctx (FromContext ctx) \<noteq> [] \<and> evalTenant ctx (FromContext ctx) \<in> set (flagTenants f)"

definition in_cohort :: "Evaluator \<Rightarrow> flag_ctx option \<Rightarrow> Flag \<Rightarrow> bool" where
  "in_cohort e ctx f \<longleftrightarrow>
     (let subject = subjectID (evalTenant ctx (FromContext ctx)) (ecUser (FromContext ctx)) in
      flagRollout f \<ge> 100 \<or> subject \<noteq> [] \<and> flag_bucket (evalSalt e) (flagKey f) subject < flagRollout f)"

lemma flag_bucket_range: "0 \<le> flag_bucket salt key subject" "flag_bucket salt key subject < 100"
  by (simp_all add: flag_bucket_def Let_def)

lemma evaluate_iff: "evaluate e ctx (Some f) \<longleftrightarrow> gate_open ctx f \<and> (listed ctx f \<or> in_cohort e ctx f)"
  using flag_bucket_range(1) [of "evalSalt e" "flagKey f" "subjectID (evalTenant ctx (FromContext ctx)) (ecUser (FromContext ctx))"]
  by (auto simp: evaluate_def gate_open_def listed_def in_cohort_def Let_def userAllowed_iff dest: parse_user_nonempty)

lemma clamp_simps [simp]:
  "flagKey (clamp_rollout f) = flagKey f" "flagEnabled (clamp_rollout f) = flagEnabled f"
  "flagUsers (clamp_rollout f) = flagUsers f" "flagTenants (clamp_rollout f) = flagTenants f"
  "flagEnvs (clamp_rollout f) = flagEnvs f" "flagRollout (clamp_rollout f) = max 0 (min 100 (flagRollout f))"
  by (auto simp: clamp_rollout_def Let_def)

lemma evaluate_clamp: "evaluate e ctx (Some (clamp_rollout f)) = evaluate e ctx (Some f)"
  using flag_bucket_range [of "evalSalt e" "flagKey f" "subjectID (evalTenant ctx (FromContext ctx)) (ecUser (FromContext ctx))"]
  by (auto simp: evaluate_iff gate_open_def listed_def in_cohort_def Let_def)

section \<open>Stores\<close>

text \<open>What a store promises: a flag it accepted is the one it returns, with its rollout between 0 and 100, until it is set
  or deleted again; other keys are not touched. \<open>fits\<close> are the flags the store can represent.\<close>

locale flag_store =
  fixes get :: "'s \<Rightarrow> flag_get" and put :: "'s \<Rightarrow> Flag \<Rightarrow> flag_error + 's" and del :: "'s \<Rightarrow> string \<Rightarrow> flag_error + 's"
    and fits :: "Flag \<Rightarrow> bool"
  assumes put_checked: "put s f = Inr s' \<Longrightarrow> check_flag f = None"
    and get_put: "put s f = Inr s' \<Longrightarrow> fits f \<Longrightarrow> get s' (flagKey f) = Inr (Some (clamp_rollout f))"
    and get_put_other: "put s f = Inr s' \<Longrightarrow> k \<noteq> flagKey f \<Longrightarrow> get s' k = get s k"
    and get_del: "del s k = Inr s' \<Longrightarrow> get s' k = Inr None"
    and get_del_other: "del s k = Inr s' \<Longrightarrow> k' \<noteq> k \<Longrightarrow> get s' k' = get s k'"
begin

lemma put_decides:
  assumes "put s f = Inr s'" "fits f"
  shows "flag_Bool (Some \<lparr>evalStore = Some (get s'), evalSalt = salt\<rparr>) ctx (flagKey f)
       = evaluate \<lparr>evalStore = Some (get s'), evalSalt = salt\<rparr> ctx (Some f)"
    and "BoolDefault (Some \<lparr>evalStore = Some (get s'), evalSalt = salt\<rparr>) ctx (flagKey f) d
       = evaluate \<lparr>evalStore = Some (get s'), evalSalt = salt\<rparr> ctx (Some f)"
  using get_put [OF assms] evaluate_clamp by (simp_all add: flag_Bool_def BoolDefault_def)

lemma del_falls_back:
  assumes "del s k = Inr s'"
  shows "BoolDefault (Some \<lparr>evalStore = Some (get s'), evalSalt = salt\<rparr>) ctx k d = d"
    and "\<not> flag_Bool (Some \<lparr>evalStore = Some (get s'), evalSalt = salt\<rparr>) ctx k"
  using get_del [OF assms] by (simp_all add: flag_Bool_def BoolDefault_def)

end

interpretation mem_flags: flag_store mem_Get mem_Set mem_Delete "\<lambda>_. True"
  by unfold_locales
    (auto simp: mem_Set_def mem_Get_def mem_Delete_def update_conv' delete_conv' split: option.splits)

definition codec_ok :: "(string list \<Rightarrow> string) \<Rightarrow> (string \<Rightarrow> string list option) \<Rightarrow> Flag \<Rightarrow> bool" where
  "codec_ok enc dec f \<longleftrightarrow> (\<forall>l \<in> {flagUsers f, flagTenants f, flagEnvs f}. enc l \<noteq> [] \<and> dec (enc l) = Some l)"

lemma scan_row_of: "codec_ok enc dec f \<Longrightarrow> scan_row dec (row_of enc f) = Inr f"
  by (simp add: scan_row_def row_of_def codec_ok_def decodeJSONList_def)

lemma find_upsert:
  "find (\<lambda>x. rowKey x = k) (upsert_row r rows) = (if k = rowKey r then Some r else find (\<lambda>x. rowKey x = k) rows)"
  by (induction rows) auto

lemma find_filter_key: "find (\<lambda>x. rowKey x = k) (filter (\<lambda>x. rowKey x \<noteq> k') rows) = (if k = k' then None else find (\<lambda>x. rowKey x = k) rows)"
  by (induction rows) auto

interpretation sql_flags: flag_store "sql_Get dec False" "sql_Set enc fails" "sql_Delete fails" "codec_ok enc dec"
  for enc dec fails
proof unfold_locales
  fix s f s' assume "sql_Set enc fails s f = Inr s'" "codec_ok enc dec f"
  moreover from this have "scan_row dec (row_of enc (clamp_rollout f)) = Inr (clamp_rollout f)"
    by (intro scan_row_of) (simp add: codec_ok_def)
  ultimately show "sql_Get dec False s' (flagKey f) = Inr (Some (clamp_rollout f))"
    by (auto simp: sql_Set_def sql_Get_def find_upsert row_of_def [of enc "clamp_rollout f"] split: option.splits if_splits)
qed (auto simp: sql_Set_def sql_Get_def sql_Delete_def find_upsert find_filter_key row_of_def split: option.splits if_splits)

section \<open>Properties\<close>

text \<open>C15. Allow lists are scoped to a tenant. An entry built for a user of a tenant parses back to exactly that pair, whatever
  colons and percent signs the two ids hold, and so a flag that is rolled out to nobody and lists entries of some pairs is on
  exactly for the callers whose tenant and user are one of the pairs, within the kill switch and the environments.\<close>

theorem flag_users_isolated:
  assumes "\<forall>(t, u) \<in> set ps. u \<noteq> []" "flagUsers f = map (\<lambda>(t, u). UserEntry t u) ps" "flagTenants f = []" "flagRollout f \<le> 0"
  shows "(\<forall>(t, u) \<in> set ps. ParseUserEntry (UserEntry t u) = Inr (t, u))
    \<and> (evaluate e ctx (Some f) \<longleftrightarrow>
      flagEnabled f \<and> (flagEnvs f = [] \<or> ecEnv (FromContext ctx) \<in> set (flagEnvs f))
      \<and> (evalTenant ctx (FromContext ctx), ecUser (FromContext ctx)) \<in> set ps)"
proof (rule conjI)
  show "\<forall>(t, u) \<in> set ps. ParseUserEntry (UserEntry t u) = Inr (t, u)" using assms(1) parse_user_entry by auto
  have "\<not> in_cohort e ctx f"
    using assms(4) flag_bucket_range(1) [of "evalSalt e" "flagKey f" "subjectID (evalTenant ctx (FromContext ctx)) (ecUser (FromContext ctx))"]
    by (auto simp: in_cohort_def Let_def)
  moreover have "listed ctx f \<longleftrightarrow> (evalTenant ctx (FromContext ctx), ecUser (FromContext ctx)) \<in> set ps"
    using userAllowed_entries [OF assms(1)] assms(2,3) by (simp add: listed_def userAllowed_iff)
  ultimately show "evaluate e ctx (Some f) \<longleftrightarrow>
      flagEnabled f \<and> (flagEnvs f = [] \<or> ecEnv (FromContext ctx) \<in> set (flagEnvs f))
      \<and> (evalTenant ctx (FromContext ctx), ecUser (FromContext ctx)) \<in> set ps"
    by (auto simp: evaluate_iff gate_open_def)
qed

text \<open>Rollouts. Raising the percentage of a flag never turns it off for anybody; at 100 it is on wherever the kill switch and
  the environments let it, at 0 only for the allow lists; a caller without user and tenant is in no partial rollout; and two
  callers with the same subject get the same rollout decision.\<close>

lemma flag_rollout_monotone:
  "(r \<le> r' \<longrightarrow> evaluate e ctx (Some (f\<lparr>flagRollout := r\<rparr>)) \<longrightarrow> evaluate e ctx (Some (f\<lparr>flagRollout := r'\<rparr>)))
   \<and> (100 \<le> r \<longrightarrow> (evaluate e ctx (Some (f\<lparr>flagRollout := r\<rparr>)) \<longleftrightarrow> gate_open ctx f))
   \<and> (r \<le> 0 \<longrightarrow> (evaluate e ctx (Some (f\<lparr>flagRollout := r\<rparr>)) \<longleftrightarrow> gate_open ctx f \<and> listed ctx f))
   \<and> (r < 100 \<longrightarrow> ecUser (FromContext ctx) = [] \<longrightarrow> evalTenant ctx (FromContext ctx) = [] \<longrightarrow>
        (evaluate e ctx (Some (f\<lparr>flagRollout := r\<rparr>)) \<longleftrightarrow> gate_open ctx f \<and> listed ctx f))
   \<and> (subjectID (evalTenant ctx (FromContext ctx)) (ecUser (FromContext ctx))
        = subjectID (evalTenant ctx' (FromContext ctx')) (ecUser (FromContext ctx')) \<longrightarrow>
      gate_open ctx f \<longrightarrow> gate_open ctx' f \<longrightarrow> \<not> listed ctx f \<longrightarrow> \<not> listed ctx' f \<longrightarrow>
      evaluate e ctx (Some f) = evaluate e ctx' (Some f))"
  using flag_bucket_range [of "evalSalt e" "flagKey f" "subjectID (evalTenant ctx (FromContext ctx)) (ecUser (FromContext ctx))"]
  by (auto simp: evaluate_iff gate_open_def listed_def in_cohort_def subjectID_def Let_def)

text \<open>A stored flag takes effect. After a successful \<^verbatim>\<open>Set\<close> the evaluator decides the key by the flag as given, although the
  store clamps its rollout, and every other key as before; after a \<^verbatim>\<open>Delete\<close> the key is off and \<^verbatim>\<open>BoolDefault\<close> gives the
  fallback. This holds for the in-memory store, and for the table wherever the JSON encoding of the three lists can be read
  back.\<close>

lemma flag_set_takes_effect:
  shows "mem_Set m f = Inr m' \<Longrightarrow>
      BoolDefault (Some \<lparr>evalStore = Some (mem_Get m'), evalSalt = salt\<rparr>) ctx (flagKey f) d
        = evaluate \<lparr>evalStore = Some (mem_Get m'), evalSalt = salt\<rparr> ctx (Some f)
      \<and> (k \<noteq> flagKey f \<longrightarrow> mem_Get m' k = mem_Get m k)"
    and "mem_Delete m k = Inr m'' \<Longrightarrow> BoolDefault (Some \<lparr>evalStore = Some (mem_Get m''), evalSalt = salt\<rparr>) ctx k d = d"
    and "sql_Set enc fails rows f = Inr rows' \<Longrightarrow> codec_ok enc dec f \<Longrightarrow>
      BoolDefault (Some \<lparr>evalStore = Some (sql_Get dec False rows'), evalSalt = salt\<rparr>) ctx (flagKey f) d
        = evaluate \<lparr>evalStore = Some (sql_Get dec False rows'), evalSalt = salt\<rparr> ctx (Some f)
      \<and> (k \<noteq> flagKey f \<longrightarrow> sql_Get dec False rows' k = sql_Get dec False rows k)"
    and "sql_Delete fails rows k = Inr rows'' \<Longrightarrow>
      BoolDefault (Some \<lparr>evalStore = Some (sql_Get dec False rows''), evalSalt = salt\<rparr>) ctx k d = d"
proof -
  show "BoolDefault (Some \<lparr>evalStore = Some (mem_Get m'), evalSalt = salt\<rparr>) ctx (flagKey f) d
        = evaluate \<lparr>evalStore = Some (mem_Get m'), evalSalt = salt\<rparr> ctx (Some f)
      \<and> (k \<noteq> flagKey f \<longrightarrow> mem_Get m' k = mem_Get m k)" if "mem_Set m f = Inr m'"
    using mem_flags.put_decides(2) [OF that] mem_flags.get_put_other [OF that] by simp
  show "BoolDefault (Some \<lparr>evalStore = Some (mem_Get m''), evalSalt = salt\<rparr>) ctx k d = d" if "mem_Delete m k = Inr m''"
    by (rule mem_flags.del_falls_back(1) [OF that])
  show "BoolDefault (Some \<lparr>evalStore = Some (sql_Get dec False rows'), evalSalt = salt\<rparr>) ctx (flagKey f) d
        = evaluate \<lparr>evalStore = Some (sql_Get dec False rows'), evalSalt = salt\<rparr> ctx (Some f)
      \<and> (k \<noteq> flagKey f \<longrightarrow> sql_Get dec False rows' k = sql_Get dec False rows k)"
    if "sql_Set enc fails rows f = Inr rows'" "codec_ok enc dec f"
    using sql_flags.put_decides(2) [OF that] sql_flags.get_put_other [OF that(1)] by simp
  show "BoolDefault (Some \<lparr>evalStore = Some (sql_Get dec False rows''), evalSalt = salt\<rparr>) ctx k d = d"
    if "sql_Delete fails rows k = Inr rows''"
    by (rule sql_flags.del_falls_back(1) [OF that])
qed

section \<open>Witnesses\<close>

definition example_flag :: Flag where
  "example_flag = \<lparr>flagKey = ''beta'', flagEnabled = True, flagRollout = 0,
     flagUsers = [UserEntry ''a:b'' ''42'', UserEntry [] ''7''], flagTenants = [], flagEnvs = []\<rparr>"

definition example_ctx :: "string \<Rightarrow> string \<Rightarrow> flag_ctx" where
  "example_ctx t u = \<lparr>ctxEval = Some \<lparr>ecUser = u, ecTenant = t, ecEnv = [], ecAttrs = []\<rparr>, ctxEvaluator = None, ctxTenant = []\<rparr>"

theorem flag_users_isolated_witness:
  "evaluate (NewEvaluator None) (Some (example_ctx ''a:b'' ''42'')) (Some example_flag)
   \<and> \<not> evaluate (NewEvaluator None) (Some (example_ctx ''a'' ''42'')) (Some example_flag)"
  using flag_users_isolated [of "[(''a:b'', ''42''), ([], ''7'')]" example_flag "NewEvaluator None" "Some (example_ctx ''a:b'' ''42'')"]
    flag_users_isolated [of "[(''a:b'', ''42''), ([], ''7'')]" example_flag "NewEvaluator None" "Some (example_ctx ''a'' ''42'')"]
  by (simp add: example_flag_def example_ctx_def FromContext_def evalTenant_def)

lemma flag_rollout_monotone_witness:
  "evaluate (NewEvaluator None) (Some (example_ctx ''a'' ''9'')) (Some (example_flag\<lparr>flagRollout := 100\<rparr>))"
  using flag_rollout_monotone [of 0 100 "NewEvaluator None" "Some (example_ctx ''a'' ''9'')" example_flag]
    flag_rollout_monotone [of 100 100 "NewEvaluator None" "Some (example_ctx ''a'' ''9'')" example_flag]
  by (simp add: gate_open_def example_flag_def)

definition example_enc :: "string list \<Rightarrow> string" where
  "example_enc l = CHR ''['' # concat (map (\<lambda>s. s @ '','') l)"

definition example_dec :: "string \<Rightarrow> string list option" where
  "example_dec s = (case s of [] \<Rightarrow> None | c # t \<Rightarrow> if c = CHR ''['' then Some (butlast (split_on (CHR '','') t)) else None)"

lemma flag_set_takes_effect_witness:
  "\<exists>m' rows'. mem_Set NewMemoryStore (example_flag\<lparr>flagRollout := 250\<rparr>) = Inr m'
     \<and> BoolDefault (Some \<lparr>evalStore = Some (mem_Get m'), evalSalt = []\<rparr>) None ''beta'' False
     \<and> sql_Set example_enc False [] (example_flag\<lparr>flagRollout := 250\<rparr>) = Inr rows'
     \<and> BoolDefault (Some \<lparr>evalStore = Some (sql_Get example_dec False rows'), evalSalt = []\<rparr>) None ''beta'' False"
proof -
  define f where "f = example_flag\<lparr>flagRollout := 250\<rparr>"
  have "check_flag f = None"
    using parse_user_entry [of "''42''" "''a:b''"] parse_user_entry [of "''7''" "[]"]
    by (simp add: check_flag_def f_def example_flag_def validUsers_def)
  then obtain m' rows' where m': "mem_Set NewMemoryStore f = Inr m'" and rows': "sql_Set example_enc False [] f = Inr rows'"
    by (simp add: mem_Set_def sql_Set_def)
  have f: "flagKey f = ''beta''" "gate_open None f" "flagRollout f = 250"
    by (simp_all add: f_def example_flag_def gate_open_def)
  have codec: "codec_ok example_enc example_dec f"
    by (simp add: codec_ok_def f_def example_flag_def UserEntry_def tenantEscaper_def escape_byte_def example_enc_def example_dec_def)
  have "BoolDefault (Some \<lparr>evalStore = Some (mem_Get m'), evalSalt = []\<rparr>) None ''beta'' False"
    using flag_set_takes_effect(1) [OF m', of "[]" None False] f by (simp add: evaluate_iff in_cohort_def)
  moreover have "BoolDefault (Some \<lparr>evalStore = Some (sql_Get example_dec False rows'), evalSalt = []\<rparr>) None ''beta'' False"
    using flag_set_takes_effect(3) [OF rows' codec, of "[]" None False] f by (simp add: evaluate_iff in_cohort_def)
  ultimately show ?thesis using m' rows' unfolding f_def by blast
qed

end
