(* ===== verification/IdempotencyStore.thy ===== *)
theory IdempotencyStore
  imports GoStrconv RateLimit Sha256 "HOL-Library.List_Lexorder" "HOL-Library.Char_ord"
begin

text \<open>
  The in-process idempotency store of \<^verbatim>\<open>core/middleware/idempotency.go\<close>: claims, cached responses, their
  expiry and the bound on their number, with the storage key and the request fingerprint. The Go map
  of entries is an association list with distinct keys, an \<^verbatim>\<open>http.Header\<close> likewise; \<^verbatim>\<open>time.Now\<close> is an argument.
\<close>

section \<open>Data\<close>

type_synonym header = "(string \<times> string list) list"

record IdempotentResponse =
  Status :: int
  Header :: header
  Body :: string

datatype idem_error = ErrFingerprintMismatch | ErrInFlight | ErrStore

record idemEntry =
  fingerprint :: string
  resp :: "IdempotentResponse option"
  expires :: gotime
  lastAccess :: gotime

record memoryIdempotencyStore =
  ttl :: int
  inFlightTTL :: int
  maxEntries :: int
  maxEntryBytes :: int
  entries :: "(string \<times> idemEntry) list"

definition defaultMaxIdemEntries :: int where "defaultMaxIdemEntries = 100000"
definition defaultMaxIdemEntryBytes :: int where "defaultMaxIdemEntryBytes = 2 ^ 20"

datatype MemoryIdempotencyOption = WithMemoryStoreMaxEntries int | WithMemoryStoreMaxEntryBytes int

fun apply_idem_option :: "MemoryIdempotencyOption \<Rightarrow> memoryIdempotencyStore \<Rightarrow> memoryIdempotencyStore" where
  "apply_idem_option (WithMemoryStoreMaxEntries n) s = (if n > 0 then s\<lparr>maxEntries := n\<rparr> else s)"
| "apply_idem_option (WithMemoryStoreMaxEntryBytes n) s = (if n > 0 then s\<lparr>maxEntryBytes := n\<rparr> else s)"

text \<open>\<^term>\<open>None\<close> is the panic on a negative lifetime.\<close>

definition NewMemoryIdempotencyStore :: "int \<Rightarrow> MemoryIdempotencyOption list \<Rightarrow> memoryIdempotencyStore option" where
  "NewMemoryIdempotencyStore t opts =
     (if t < 0 then None
      else Some (fold apply_idem_option opts
        \<lparr>ttl = (if t = 0 then 24 * 3600 * second else t), inFlightTTL = 30 * second, maxEntries = defaultMaxIdemEntries,
         maxEntryBytes = defaultMaxIdemEntryBytes, entries = []\<rparr>))"

section \<open>Operations\<close>

text \<open>The sort of \<^verbatim>\<open>evictLocked\<close>: finished entries before claims, then by last access, then by key.\<close>

definition victim_rank :: "string \<times> idemEntry \<Rightarrow> bool \<times> int \<times> string" where
  "victim_rank kv = (resp (snd kv) = None, lastAccess (snd kv), fst kv)"

definition idem_evictLocked :: "memoryIdempotencyStore \<Rightarrow> memoryIdempotencyStore" where
  "idem_evictLocked s =
     s\<lparr>entries := shed_loop (wrap64 (maxEntries s * 9) sdiv 10) (sort_key victim_rank (entries s)) (entries s)\<rparr>"

type_synonym begin_result = "IdempotentResponse option \<times> bool \<times> idem_error option"

definition idem_Begin :: "gotime \<Rightarrow> string \<Rightarrow> string \<Rightarrow> memoryIdempotencyStore \<Rightarrow> begin_result \<times> memoryIdempotencyStore" where
  "idem_Begin now key fp s =
     (let claim = \<lparr>fingerprint = fp, resp = None, expires = now + inFlightTTL s, lastAccess = now\<rparr>;
          fresh = (let s1 = (if maxEntries s > 0 \<and> int (length (entries s)) \<ge> maxEntries s then idem_evictLocked s else s)
                   in ((None, False, None), s1\<lparr>entries := AList.update key claim (entries s1)\<rparr>))
      in case map_of (entries s) key of
           Some e \<Rightarrow>
             if now < expires e then
               (if fingerprint e \<noteq> fp then ((None, False, Some ErrFingerprintMismatch), s)
                else case resp e of
                  None \<Rightarrow> ((None, False, Some ErrInFlight), s)
                | Some r \<Rightarrow> ((Some r, True, None), s\<lparr>entries := AList.update key (e\<lparr>lastAccess := now\<rparr>) (entries s)\<rparr>))
             else fresh
         | None \<Rightarrow> fresh)"

definition responseBytes :: "IdempotentResponse \<Rightarrow> int" where
  "responseBytes r =
     int (length (Body r)) + sum_list (map (\<lambda>(k, vs). int (length k) + sum_list (map (int \<circ> length) vs)) (Header r))"

definition idem_Finish ::
  "gotime \<Rightarrow> string \<Rightarrow> string \<Rightarrow> IdempotentResponse option \<Rightarrow> memoryIdempotencyStore \<Rightarrow> idem_error option \<times> memoryIdempotencyStore" where
  "idem_Finish now key fp r s =
     (case map_of (entries s) key of
        None \<Rightarrow> (None, s)
      | Some e \<Rightarrow>
          if fingerprint e \<noteq> fp then (None, s)
          else case r of
            None \<Rightarrow> (None, s\<lparr>entries := AList.delete key (entries s)\<rparr>)
          | Some x \<Rightarrow>
              if responseBytes x > maxEntryBytes s then (None, s\<lparr>entries := AList.delete key (entries s)\<rparr>)
              else (None, s\<lparr>entries := AList.update key (e\<lparr>resp := Some x, expires := now + ttl s, lastAccess := now\<rparr>)
                             (entries s)\<rparr>))"

definition idem_reapLocked :: "gotime \<Rightarrow> memoryIdempotencyStore \<Rightarrow> memoryIdempotencyStore" where
  "idem_reapLocked now s = s\<lparr>entries := filter (\<lambda>(_, e). \<not> now > expires e) (entries s)\<rparr>"

section \<open>Keys and fingerprints\<close>

definition idem_field :: "string \<Rightarrow> string" where
  "idem_field s = show_nat (length s) @ [char_of (0 :: nat)] @ s"

definition idemStoreKey :: "string \<Rightarrow> string \<Rightarrow> string \<Rightarrow> string \<Rightarrow> string" where
  "idemStoreKey subject tenant scope key = idem_field subject @ idem_field tenant @ idem_field scope @ key"

definition idemPrincipal :: "string \<Rightarrow> string" where
  "idemPrincipal storeKey =
     (case cut_at (char_of (0 :: nat)) storeKey of
        None \<Rightarrow> []
      | Some (n, rest) \<Rightarrow>
          (case Atoi n of
             None \<Rightarrow> []
           | Some sz \<Rightarrow> if sz < 0 \<or> sz > int (length rest) then [] else take (nat sz) rest))"

text \<open>The stream of bytes \<^verbatim>\<open>requestFingerprint\<close> hashes: every field after its length in four big-endian
  bytes, of which a longer length keeps the low 32 bits.\<close>

definition fp_field :: "string \<Rightarrow> string" where
  "fp_field s = be_bytes 4 (length s mod 2 ^ 32) @ s"

definition printableASCII :: "string \<Rightarrow> bool" where
  "printableASCII s \<longleftrightarrow> list_all (\<lambda>c. \<not> (byte_of c < 32 \<or> byte_of c > 126)) s"

section \<open>The contract of a store\<close>

text \<open>The \<^verbatim>\<open>IdempotencyStore\<close> interface as its documentation states it. \<open>lookup\<close> is the live entry of a key: a claim
  (\<^term>\<open>None\<close>) or a response, with the fingerprint it belongs to. A claim lives for \<open>lease\<close>, a response that
  fits for \<open>keep\<close>; a full store may shed other keys to admit one.\<close>

locale idempotency_store =
  fixes begin_op :: "gotime \<Rightarrow> string \<Rightarrow> string \<Rightarrow> 's \<Rightarrow> begin_result \<times> 's"
    and finish_op :: "gotime \<Rightarrow> string \<Rightarrow> string \<Rightarrow> IdempotentResponse option \<Rightarrow> 's \<Rightarrow> idem_error option \<times> 's"
    and lookup :: "gotime \<Rightarrow> string \<Rightarrow> 's \<Rightarrow> (string \<times> IdempotentResponse option) option"
    and inv :: "'s \<Rightarrow> bool" and full :: "'s \<Rightarrow> bool"
    and lease :: int and keep :: int and fits :: "IdempotentResponse \<Rightarrow> bool"
  assumes inv_begin: "inv s \<Longrightarrow> inv (snd (begin_op now k fp s))"
    and inv_finish: "inv s \<Longrightarrow> inv (snd (finish_op now k fp r s))"
    and begin_live: "inv s \<Longrightarrow> lookup now k s = Some (fp', r) \<Longrightarrow>
      fst (begin_op now k fp s) =
        (if fp' \<noteq> fp then (None, False, Some ErrFingerprintMismatch)
         else case r of None \<Rightarrow> (None, False, Some ErrInFlight) | Some x \<Rightarrow> (Some x, True, None))"
    and begin_live_keeps: "inv s \<Longrightarrow> lookup now k s \<noteq> None \<Longrightarrow> lookup t k' (snd (begin_op now k fp s)) = lookup t k' s"
    and begin_free: "inv s \<Longrightarrow> lookup now k s = None \<Longrightarrow> fst (begin_op now k fp s) = (None, False, None)"
    and begin_claims: "inv s \<Longrightarrow> lookup now k s = None \<Longrightarrow> t < now + lease \<Longrightarrow>
      lookup t k (snd (begin_op now k fp s)) = Some (fp, None)"
    and begin_other: "inv s \<Longrightarrow> lookup now k s = None \<Longrightarrow> \<not> full s \<Longrightarrow> k' \<noteq> k \<Longrightarrow>
      lookup t k' (snd (begin_op now k fp s)) = lookup t k' s"
    and finish_other: "inv s \<Longrightarrow> k' \<noteq> k \<Longrightarrow> lookup t k' (snd (finish_op now k fp r s)) = lookup t k' s"
    and finish_own: "inv s \<Longrightarrow> lookup now k s = Some (fp, r0) \<Longrightarrow> t < now + keep \<Longrightarrow>
      lookup t k (snd (finish_op now k fp r s)) =
        (case r of None \<Rightarrow> None | Some x \<Rightarrow> if fits x then Some (fp, Some x) else None)"
    and finish_foreign: "inv s \<Longrightarrow> lookup now k s = Some (fp', r0) \<Longrightarrow> fp' \<noteq> fp \<Longrightarrow>
      lookup t k (snd (finish_op now k fp r s)) = lookup t k s"

section \<open>The memory store meets it\<close>

definition idem_lookup :: "gotime \<Rightarrow> string \<Rightarrow> memoryIdempotencyStore \<Rightarrow> (string \<times> IdempotentResponse option) option" where
  "idem_lookup t k s =
     (case map_of (entries s) k of
        Some e \<Rightarrow> if t < expires e then Some (fingerprint e, resp e) else None
      | None \<Rightarrow> None)"

definition idem_inv :: "int \<Rightarrow> int \<Rightarrow> int \<Rightarrow> int \<Rightarrow> memoryIdempotencyStore \<Rightarrow> bool" where
  "idem_inv T L N B s \<longleftrightarrow> distinct (map fst (entries s)) \<and> ttl s = T \<and> inFlightTTL s = L \<and> maxEntries s = N \<and> maxEntryBytes s = B
     \<and> (N \<le> 0 \<or> int (length (entries s)) \<le> N) \<and> N \<le> maxInt64 div 9"

definition idem_full :: "memoryIdempotencyStore \<Rightarrow> bool" where
  "idem_full s \<longleftrightarrow> maxEntries s > 0 \<and> int (length (entries s)) \<ge> maxEntries s"

lemma idem_upd_simps [simp]:
  "ttl (idem_evictLocked s) = ttl s" "inFlightTTL (idem_evictLocked s) = inFlightTTL s"
  "maxEntries (idem_evictLocked s) = maxEntries s" "maxEntryBytes (idem_evictLocked s) = maxEntryBytes s"
  by (simp_all add: idem_evictLocked_def)

text \<open>Shedding: the store comes down to nine tenths of its cap, the entries kept are in order after those shed.\<close>

lemma idem_evict:
  fixes s :: memoryIdempotencyStore
  assumes "distinct (map fst (entries s))" "0 \<le> maxEntries s" "maxEntries s \<le> maxInt64 div 9"
  defines "srt \<equiv> sort_key victim_rank (entries s)" and "n \<equiv> nat (int (length (entries s)) - maxEntries s * 9 div 10)"
  shows "entries (idem_evictLocked s) = filter (\<lambda>x. x \<notin> set (take n srt)) (entries s)"
    and "set (entries (idem_evictLocked s)) = set (drop n srt)"
    and "length (entries (idem_evictLocked s)) = length (entries s) - n"
    and "x \<in> set (take n srt) \<Longrightarrow> y \<in> set (drop n srt) \<Longrightarrow> victim_rank x \<le> victim_rank y"
proof -
  have "maxEntries s * 9 \<le> maxInt64" using assms(3) by (simp add: le_div_iff)
  then have "wrap64 (maxEntries s * 9) = maxEntries s * 9" using assms(2) by (intro wrap64_nonneg) auto
  then have lw: "wrap64 (maxEntries s * 9) sdiv 10 = maxEntries s * 9 div 10" "0 \<le> maxEntries s * 9 div 10"
    using assms(2) by (simp_all add: sdiv_nonneg)
  have e: "entries (idem_evictLocked s) = shed_loop (maxEntries s * 9 div 10) srt (entries s)"
    by (simp add: idem_evictLocked_def lw(1) srt_def)
  note S = shed_sorted [OF assms(1) lw(2), where f = victim_rank, folded srt_def n_def]
  show "entries (idem_evictLocked s) = filter (\<lambda>x. x \<notin> set (take n srt)) (entries s)"
    "set (entries (idem_evictLocked s)) = set (drop n srt)" "length (entries (idem_evictLocked s)) = length (entries s) - n"
    unfolding e by (fact S)+
  show "x \<in> set (take n srt) \<Longrightarrow> y \<in> set (drop n srt) \<Longrightarrow> victim_rank x \<le> victim_rank y" by (rule S(4))
qed

lemma length_AList_update: "length (AList.update k v al) \<le> Suc (length al)"
  by (induction al) auto

lemma length_AList_update_mem: "k \<in> fst ` set al \<Longrightarrow> length (AList.update k v al) = length al"
  by (induction al) auto

lemma length_AList_delete: "length (AList.delete k al) \<le> length al"
  by (simp add: AList.delete_eq)

text \<open>\<^verbatim>\<open>Begin\<close> on a key without a live entry.\<close>

definition idem_room :: "memoryIdempotencyStore \<Rightarrow> memoryIdempotencyStore" where
  "idem_room s = (if idem_full s then idem_evictLocked s else s)"

lemma idem_Begin_eq:
  "idem_Begin now k fp s =
     (case idem_lookup now k s of
        None \<Rightarrow> ((None, False, None), (idem_room s)\<lparr>entries := AList.update k
          \<lparr>fingerprint = fp, resp = None, expires = now + inFlightTTL s, lastAccess = now\<rparr> (entries (idem_room s))\<rparr>)
      | Some (fp', r) \<Rightarrow>
          if fp' \<noteq> fp then ((None, False, Some ErrFingerprintMismatch), s)
          else case r of
            None \<Rightarrow> ((None, False, Some ErrInFlight), s)
          | Some x \<Rightarrow> ((Some x, True, None),
              s\<lparr>entries := AList.update k ((the (map_of (entries s) k))\<lparr>lastAccess := now\<rparr>) (entries s)\<rparr>))"
  by (simp add: idem_Begin_def idem_lookup_def idem_room_def idem_full_def Let_def split: option.split)

lemma idem_inv_room:
  assumes "idem_inv T L N B s"
  shows "distinct (map fst (entries (idem_room s)))" "N \<le> 0 \<or> int (length (entries (idem_room s))) < N"
proof -
  have d: "distinct (map fst (entries s))" and N: "maxEntries s = N" "N \<le> maxInt64 div 9" using assms by (auto simp: idem_inv_def)
  show "distinct (map fst (entries (idem_room s)))"
  proof (cases "idem_full s")
    case True
    then have "entries (idem_room s) = filter (\<lambda>x. x \<notin> set (take (nat (int (length (entries s)) - N * 9 div 10)) (sort_key victim_rank (entries s)))) (entries s)"
      using idem_evict(1) [OF d] N by (simp add: idem_room_def idem_full_def)
    with d show ?thesis by (simp add: distinct_map inj_on_def)
  qed (simp add: idem_room_def d)
  show "N \<le> 0 \<or> int (length (entries (idem_room s))) < N"
  proof (cases "idem_full s")
    case True
    then have "length (entries (idem_room s)) = length (entries s) - nat (int (length (entries s)) - N * 9 div 10)" "0 < N" "N \<le> int (length (entries s))"
      using idem_evict(3) [OF d] N by (simp_all add: idem_room_def idem_full_def)
    then show ?thesis by linarith
  next
    case False
    then show ?thesis using assms by (auto simp: idem_room_def idem_full_def idem_inv_def)
  qed
qed

lemma idem_room_simps [simp]:
  "ttl (idem_room s) = ttl s" "inFlightTTL (idem_room s) = inFlightTTL s" "maxEntries (idem_room s) = maxEntries s"
  "maxEntryBytes (idem_room s) = maxEntryBytes s"
  by (simp_all add: idem_room_def)

lemma idem_inv_begin:
  assumes "idem_inv T L N B s"
  shows "idem_inv T L N B (snd (idem_Begin now k fp s))"
proof (cases "idem_lookup now k s")
  case None
  let ?r = "idem_room s"
  have "distinct (map fst (AList.update k v (entries ?r)))" for v
    using idem_inv_room(1) [OF assms] by (simp add: distinct_update)
  moreover have "N \<le> 0 \<or> int (length (AList.update k v (entries ?r))) \<le> N" for v
    using idem_inv_room(2) [OF assms] length_AList_update [of k v "entries ?r"] by linarith
  ultimately show ?thesis using None assms by (simp add: idem_Begin_eq idem_inv_def)
next
  case (Some p)
  then obtain e where "map_of (entries s) k = Some e" by (auto simp: idem_lookup_def split: option.splits)
  then have "k \<in> fst ` set (entries s)" by (metis map_of_eq_None_iff option.distinct(1))
  then show ?thesis using assms Some
    by (auto simp: idem_Begin_eq idem_inv_def distinct_update length_AList_update_mem split: prod.splits option.splits)
qed

lemma idem_inv_finish:
  assumes "idem_inv T L N B s"
  shows "idem_inv T L N B (snd (idem_Finish now k fp r s))"
proof (cases "map_of (entries s) k")
  case (Some e)
  then have "k \<in> fst ` set (entries s)" by (metis map_of_eq_None_iff option.distinct(1))
  then have u: "distinct (map fst (AList.update k v (entries s)))" "length (AList.update k v (entries s)) = length (entries s)" for v
    using assms by (simp_all add: idem_inv_def distinct_update length_AList_update_mem)
  have d: "distinct (map fst (AList.delete k (entries s)))" using assms by (simp add: idem_inv_def distinct_delete)
  have "N \<le> 0 \<or> int (length (AList.delete k (entries s))) \<le> N"
    using assms length_AList_delete [of k "entries s"] by (simp add: idem_inv_def) linarith
  with u d Some assms show ?thesis by (simp add: idem_Finish_def idem_inv_def split: option.split)
qed (use assms in \<open>simp add: idem_Finish_def\<close>)

interpretation mem: idempotency_store idem_Begin idem_Finish idem_lookup "idem_inv T L N B" idem_full L T "\<lambda>x. responseBytes x \<le> B"
  for T L N B
proof
  fix s :: memoryIdempotencyStore and now k fp fp' r t k' r0
  assume inv: "idem_inv T L N B s"
  show "idem_inv T L N B (snd (idem_Begin now k fp s))" by (rule idem_inv_begin [OF inv])
  show "idem_inv T L N B (snd (idem_Finish now k fp r s))" by (rule idem_inv_finish [OF inv])
  show "idem_lookup now k s = Some (fp', r) \<Longrightarrow>
      fst (idem_Begin now k fp s) =
        (if fp' \<noteq> fp then (None, False, Some ErrFingerprintMismatch)
         else case r of None \<Rightarrow> (None, False, Some ErrInFlight) | Some x \<Rightarrow> (Some x, True, None))"
    by (simp add: idem_Begin_eq split: option.split)
  show "idem_lookup now k s \<noteq> None \<Longrightarrow> idem_lookup t k' (snd (idem_Begin now k fp s)) = idem_lookup t k' s"
    by (auto simp: idem_Begin_eq idem_lookup_def update_conv' split: option.splits if_splits)
  show "idem_lookup now k s = None \<Longrightarrow> fst (idem_Begin now k fp s) = (None, False, None)"
    by (simp add: idem_Begin_eq)
  show "idem_lookup now k s = None \<Longrightarrow> t < now + L \<Longrightarrow> idem_lookup t k (snd (idem_Begin now k fp s)) = Some (fp, None)"
    using inv by (simp add: idem_Begin_eq idem_lookup_def [of t] update_conv' idem_inv_def)
  show "idem_lookup now k s = None \<Longrightarrow> \<not> idem_full s \<Longrightarrow> k' \<noteq> k \<Longrightarrow>
      idem_lookup t k' (snd (idem_Begin now k fp s)) = idem_lookup t k' s"
    by (simp add: idem_Begin_eq idem_lookup_def [of t] idem_room_def update_conv')
  show "k' \<noteq> k \<Longrightarrow> idem_lookup t k' (snd (idem_Finish now k fp r s)) = idem_lookup t k' s"
    by (cases "map_of (entries s) k"; cases r) (simp_all add: idem_Finish_def idem_lookup_def update_conv' delete_conv')
  show "idem_lookup now k s = Some (fp, r0) \<Longrightarrow> t < now + T \<Longrightarrow>
      idem_lookup t k (snd (idem_Finish now k fp r s)) =
        (case r of None \<Rightarrow> None | Some x \<Rightarrow> if responseBytes x \<le> B then Some (fp, Some x) else None)"
    using inv by (cases "map_of (entries s) k"; cases r)
      (auto simp: idem_Finish_def idem_lookup_def update_conv' delete_conv' idem_inv_def simp del: map_of_eq_Some_iff split: if_splits)
  show "idem_lookup now k s = Some (fp', r0) \<Longrightarrow> fp' \<noteq> fp \<Longrightarrow> idem_lookup t k (snd (idem_Finish now k fp r s)) = idem_lookup t k s"
    by (auto simp: idem_Finish_def idem_lookup_def split: option.splits if_splits)
qed

section \<open>Keys\<close>

lemma show_nat_nul: "char_of (0 :: nat) \<notin> set (show_nat n)"
  using show_nat_digits [of "char_of (0 :: nat)" n] byte_of_char_of [of 0] by (auto simp: is_digit_def)

lemma idem_field_inj: "idem_field a @ s = idem_field b @ t \<Longrightarrow> a = b \<and> s = t"
proof -
  assume eq: "idem_field a @ s = idem_field b @ t"
  have "cut_at (char_of (0 :: nat)) (idem_field x @ y) = Some (show_nat (length x), x @ y)" for x y
    using cut_at_append [OF show_nat_nul, of "length x" "x @ y"] by (simp add: idem_field_def)
  from this [of a s] this [of b t] eq have e: "show_nat (length a) = show_nat (length b)" "a @ s = b @ t" by simp_all
  then have "length a = length b" using show_nat_inj by blast
  with e(2) show ?thesis by simp
qed

lemma be_bytes_inj: "m < 256 ^ k \<Longrightarrow> n < 256 ^ k \<Longrightarrow> be_bytes k m = be_bytes k n \<Longrightarrow> m = n"
proof (induction k arbitrary: m n)
  case (Suc k)
  have step: "be_bytes (Suc k) x = be_bytes k (x div 256) @ [char_of x]" for x
  proof -
    have "rev [0..<Suc k] = map Suc (rev [0..<k]) @ [0]" by (metis map_Suc_upt rev_map upt_conv_Cons zero_less_Suc rev.simps(2))
    then show ?thesis by (simp add: be_bytes_def div_mult2_eq comp_def)
  qed
  have b: "m div 256 < 256 ^ k" "n div 256 < 256 ^ k" using Suc.prems(1,2) by (simp_all add: less_mult_imp_div_less)
  from Suc.prems(3) have "be_bytes k (m div 256) = be_bytes k (n div 256)" "(char_of m :: char) = char_of n" by (simp_all add: step)
  then have "m div 256 = n div 256" "of_char (char_of m :: char) = (of_char (char_of n :: char) :: nat)" using Suc.IH [OF b] by simp_all
  then have "m div 256 = n div 256" "m mod 256 = n mod 256" by (simp_all only: of_char_of)
  then show ?case by (metis div_mult_mod_eq)
qed simp

lemma length_be_bytes [simp]: "length (be_bytes k n) = k"
  by (simp add: be_bytes_def)

lemma fp_field_inj:
  assumes "length a < 2 ^ 32" "length b < 2 ^ 32" "fp_field a @ s = fp_field b @ t"
  shows "a = b \<and> s = t"
proof -
  have "be_bytes 4 (length a) @ a @ s = be_bytes 4 (length b) @ b @ t" using assms by (simp add: fp_field_def)
  then have e: "be_bytes 4 (length a) = be_bytes 4 (length b)" "a @ s = b @ t" by (simp_all add: append_eq_append_conv)
  then have "length a = length b" using assms(1,2) by (intro be_bytes_inj [of _ 4]) auto
  with e(2) show ?thesis by simp
qed

text \<open>The storage key names its caller: two requests share it exactly when the principal, the tenant, the
  scope and the client's key are all the same, whatever bytes they hold, and \<^verbatim>\<open>idemPrincipal\<close> reads the principal
  back.\<close>

lemma idem_store_key_injective:
  assumes "int (length subject) \<le> maxInt64"
  shows "(idemStoreKey subject tenant scope key = idemStoreKey subject' tenant' scope' key'
      \<longleftrightarrow> (subject, tenant, scope, key) = (subject', tenant', scope', key'))
    \<and> idemPrincipal (idemStoreKey subject tenant scope key) = subject"
proof
  show "idemStoreKey subject tenant scope key = idemStoreKey subject' tenant' scope' key'
      \<longleftrightarrow> (subject, tenant, scope, key) = (subject', tenant', scope', key')"
    unfolding idemStoreKey_def by (auto dest: idem_field_inj)
  have "cut_at (char_of (0 :: nat)) (idemStoreKey subject tenant scope key)
      = Some (show_nat (length subject), subject @ idem_field tenant @ idem_field scope @ key)"
    by (simp add: idemStoreKey_def idem_field_def cut_at_append show_nat_nul)
  then show "idemPrincipal (idemStoreKey subject tenant scope key) = subject"
    using assms by (simp add: idemPrincipal_def Atoi_show_nat)
qed

lemma idem_store_key_injective_witness:
  "idemStoreKey ''a'' [] [] ''b'' \<noteq> idemStoreKey [] ''a'' [] ''b'' \<and> idemPrincipal (idemStoreKey ''a'' ''t'' [] ''b'') = ''a''"
  using idem_store_key_injective [of "''a''" "[]" "[]" "''b''" "[]" "''a''" "[]" "''b''"]
    idem_store_key_injective [of "''a''" "''t''" "[]" "''b''" "''a''" "''t''" "[]" "''b''"]
  by (simp add: maxInt64_def)

section \<open>What ends a claim\<close>

definition fresh_store :: memoryIdempotencyStore where
  "fresh_store = \<lparr>ttl = 24 * 3600 * second, inFlightTTL = 30 * second, maxEntries = defaultMaxIdemEntries,
     maxEntryBytes = defaultMaxIdemEntryBytes, entries = []\<rparr>"

definition claims :: "memoryIdempotencyStore \<Rightarrow> (string \<times> idemEntry) list" where
  "claims s = filter (\<lambda>(_, e). resp e = None) (entries s)"

definition finished :: "memoryIdempotencyStore \<Rightarrow> (string \<times> idemEntry) list" where
  "finished s = filter (\<lambda>(_, e). resp e \<noteq> None) (entries s)"

text \<open>In a list sorted by a rank whose first part is a flag, the unflagged come first; so dropping takes them
  first.\<close>

lemma sorted_flag_split:
  fixes f :: "'a \<Rightarrow> bool \<times> 'b::linorder"
  assumes "sorted (map f xs)"
  shows "xs = filter (\<lambda>x. \<not> fst (f x)) xs @ filter (\<lambda>x. fst (f x)) xs"
  using assms
proof (induction xs)
  case (Cons x xs)
  show ?case
  proof (cases "fst (f x)")
    case True
    then have "\<forall>y\<in>set xs. fst (f y)" using Cons.prems by (auto simp: less_eq_prod_def)
    then show ?thesis using True by (simp add: filter_empty_conv)
  qed (use Cons in simp)
qed simp

lemma sorted_flag_drop:
  fixes f :: "'a \<Rightarrow> bool \<times> 'b::linorder"
  assumes "sorted (map f xs)"
  shows "length (filter (\<lambda>x. fst (f x)) (drop n xs)) =
    length (filter (\<lambda>x. fst (f x)) xs) - (n - length (filter (\<lambda>x. \<not> fst (f x)) xs))"
proof -
  let ?a = "filter (\<lambda>x. \<not> fst (f x)) xs" and ?b = "filter (\<lambda>x. fst (f x)) xs"
  have "filter (\<lambda>x. fst (f x)) (drop n ?a) = []" by (auto simp: filter_empty_conv dest!: in_set_dropD)
  moreover have "filter (\<lambda>x. fst (f x)) (drop m ?b) = drop m ?b" for m by (auto simp: filter_id_conv dest!: in_set_dropD)
  moreover have "drop n xs = drop n ?a @ drop (n - length ?a) ?b"
    using sorted_flag_split [OF assms] by (metis drop_append)
  ultimately show ?thesis by simp
qed

lemma length_filter_same_set:
  "distinct xs \<Longrightarrow> distinct ys \<Longrightarrow> set xs = set ys \<Longrightarrow> length (filter P xs) = length (filter P ys)"
  by (metis distinct_card distinct_filter set_filter)

lemma claims_shed:
  assumes "idem_inv T L N B s" "idem_full s"
  shows "length (claims (idem_evictLocked s)) =
    length (claims s) - (nat (int (length (entries s)) - N * 9 div 10) - length (finished s))"
proof -
  have d: "distinct (map fst (entries s))" "0 \<le> maxEntries s" "maxEntries s \<le> maxInt64 div 9" "maxEntries s = N"
    using assms by (auto simp: idem_inv_def idem_full_def)
  let ?n = "nat (int (length (entries s)) - N * 9 div 10)" and ?srt = "sort_key victim_rank (entries s)"
  note E = idem_evict(1,2) [OF d(1-3), unfolded d(4)]
  have D: "distinct (entries s)" using d(1) by (simp add: distinct_map)
  have P: "(\<lambda>x. fst (victim_rank x)) = (\<lambda>(_, e). resp e = None)"
    "(\<lambda>x. \<not> fst (victim_rank x)) = (\<lambda>(_, e). resp e \<noteq> None)" by (auto simp: victim_rank_def)
  have q: "length (filter Q ?srt) = length (filter Q (entries s))" for Q
    using D by (intro length_filter_same_set) simp_all
  have "length (claims (idem_evictLocked s)) = length (filter (\<lambda>(_, e). resp e = None) (drop ?n ?srt))"
    unfolding claims_def using D E by (intro length_filter_same_set) simp_all
  also have "\<dots> = length (filter (\<lambda>(_, e). resp e = None) ?srt) - (?n - length (filter (\<lambda>(_, e). resp e \<noteq> None) ?srt))"
    using sorted_flag_drop [of victim_rank ?srt ?n] unfolding P by simp
  also have "\<dots> = length (claims s) - (?n - length (finished s))"
    unfolding claims_def finished_def q ..
  finally show ?thesis .
qed

lemma claim_finish_iff:
  assumes "idem_inv T L N B s" "idem_lookup t k s = Some (fp, None)"
  shows "idem_lookup t k (snd (idem_Finish now k' fp' r s)) = Some (fp, None) \<longleftrightarrow> k' \<noteq> k \<or> fp' \<noteq> fp"
proof (cases "k' = k")
  case True
  with assms(2) show ?thesis
    by (auto simp: idem_Finish_def idem_lookup_def update_conv' delete_conv' split: option.splits if_splits)
qed (simp add: mem.finish_other [OF assms(1)] assms(2))

text \<open>C34. What ends a claim before its time, for every consistent store, key and fingerprint. A live claim
  survives a \<^verbatim>\<open>Finish\<close> exactly when that names another key or another fingerprint: its owner is known by the
  fingerprint alone, so the late end of a first run, whose claim expired and was taken again by a retry of the
  same request, ends the retry's claim and admits a third run. It survives a \<^verbatim>\<open>Begin\<close> of any key unless that
  claims a new key in a full store; and then shedding to nine tenths of the cap takes the finished entries
  first and as many claims as are missing: none exactly as long as the finished entries suffice.\<close>

theorem idem_claim_ends:
  assumes "idem_inv T L N B s" "idem_lookup t k s = Some (fp, None)" "now \<le> t"
  shows "(idem_lookup t k (snd (idem_Finish now k' fp' r s)) = Some (fp, None) \<longleftrightarrow> k' \<noteq> k \<or> fp' \<noteq> fp)
    \<and> fst (idem_Begin now k fp (snd (idem_Finish now k fp None s))) = (None, False, None)
    \<and> (if k' \<noteq> k \<and> idem_lookup now k' s = None \<and> idem_full s
       then length (claims (idem_evictLocked s)) =
              length (claims s) - (nat (int (length (entries s)) - N * 9 div 10) - length (finished s))
       else idem_lookup t k (snd (idem_Begin now k' fp' s)) = Some (fp, None))"
proof (intro conjI)
  have live: "idem_lookup now k s = Some (fp, None)"
    using assms(2,3) by (auto simp: idem_lookup_def split: option.splits if_splits)
  show "idem_lookup t k (snd (idem_Finish now k' fp' r s)) = Some (fp, None) \<longleftrightarrow> k' \<noteq> k \<or> fp' \<noteq> fp"
    by (rule claim_finish_iff [OF assms(1,2)])
  show "fst (idem_Begin now k fp (snd (idem_Finish now k fp None s))) = (None, False, None)"
    using live by (auto simp: idem_Begin_eq idem_Finish_def idem_lookup_def delete_conv' split: option.splits if_splits)
  show "if k' \<noteq> k \<and> idem_lookup now k' s = None \<and> idem_full s
       then length (claims (idem_evictLocked s)) =
              length (claims s) - (nat (int (length (entries s)) - N * 9 div 10) - length (finished s))
       else idem_lookup t k (snd (idem_Begin now k' fp' s)) = Some (fp, None)"
  proof (cases "k' \<noteq> k \<and> idem_lookup now k' s = None")
    case True
    then show ?thesis
      using claims_shed [OF assms(1)] mem.begin_other [OF assms(1), of now k' k t fp'] assms(2) by auto
  next
    case False
    with live have "idem_lookup now k' s \<noteq> None" by auto
    from mem.begin_live_keeps [OF assms(1) this, of t k fp'] False show ?thesis using assms(2) by auto
  qed
qed

definition claim_heavy_store :: memoryIdempotencyStore where
  "claim_heavy_store = fresh_store\<lparr>maxEntries := 20, entries :=
     (''done'', \<lparr>fingerprint = ''f'', resp = Some \<lparr>Status = 200, Header = [], Body = []\<rparr>, expires = 100, lastAccess = 0\<rparr>)
     # map (\<lambda>i. (show_nat i, \<lparr>fingerprint = ''f'', resp = None, expires = 100, lastAccess = 0\<rparr>)) [0..<19]\<rparr>"

theorem idem_claim_ends_witness:
  "length (claims claim_heavy_store) = 19 \<and> length (claims (idem_evictLocked claim_heavy_store)) = 18
   \<and> fst (idem_Begin 1 ''0'' ''f'' (snd (idem_Finish 1 ''0'' ''f'' None claim_heavy_store))) = (None, False, None)"
proof -
  have i: "idem_inv (24 * 3600 * second) (30 * second) 20 defaultMaxIdemEntryBytes claim_heavy_store" by code_simp
  have l: "idem_lookup 1 ''0'' claim_heavy_store = Some (''f'', None)" "idem_lookup 1 ''new'' claim_heavy_store = None"
    "idem_full claim_heavy_store" by code_simp+
  have c: "length (claims claim_heavy_store) = 19" "length (finished claim_heavy_store) = 1"
    "length (entries claim_heavy_store) = 20" by code_simp+
  from idem_claim_ends [OF i l(1), of 1 "''new''" "''g''" None] l c show ?thesis by simp
qed

end
