(* ===== verification/Idempotency.thy ===== *)
theory Idempotency
  imports IdempotencyStore
begin

text \<open>
  The idempotency middleware of \<^verbatim>\<open>core/middleware/idempotency.go\<close> over any store that meets the contract of the
  \<^verbatim>\<open>IdempotencyStore\<close> interface. A request is served in two steps on the shared store: \<open>Idempotency_start\<close> up to
  the answer or the call of the handler, and \<open>Idempotency_end\<close> when the handler has returned or panicked;
  between them other requests run. What a handler does to its response is a list of actions, which
  \<open>recorder_step\<close> applies to the recorder and to the connection behind it.
\<close>

section \<open>Requests and configuration\<close>

text \<open>The bytes a body yields and whether reading on fails then.\<close>

datatype req_body = NoBody | Stream string bool

record request =
  Method :: string
  EscapedPath :: string
  RawQuery :: string
  ContentType :: string
  IdempotencyKey :: string
  ReqBody :: req_body

record IdempotencyConfig =
  TTL :: int
  MaxBodyBytes :: int
  MaxResponseBytes :: int
  Methods :: "string list"
  Required :: bool
  Principal :: "(request \<Rightarrow> string) option"
  Tenant :: "(request \<Rightarrow> string) option"
  Scope :: "(request \<Rightarrow> string) option"
  FailOpen :: bool
  MaxStoreEntries :: int
  MaxStoreEntryBytes :: int

text \<open>The defaults of the constructor; \<^term>\<open>None\<close> is its panic. The store it makes when none is given is
  \<open>idem_default_store\<close>.\<close>

definition idem_defaults :: "IdempotencyConfig \<Rightarrow> IdempotencyConfig option" where
  "idem_defaults cfg =
     (if TTL cfg < 0 then None
      else Some (cfg\<lparr>TTL := (if TTL cfg = 0 then 24 * 3600 * second else TTL cfg),
                     MaxBodyBytes := (if MaxBodyBytes cfg \<le> 0 then 2 ^ 20 else MaxBodyBytes cfg),
                     MaxResponseBytes := (if MaxResponseBytes cfg \<le> 0 then 2 ^ 20 else MaxResponseBytes cfg),
                     Methods := (if Methods cfg = [] then [''POST'', ''PUT'', ''PATCH'', ''DELETE''] else Methods cfg)\<rparr>))"

definition idem_default_store :: "IdempotencyConfig \<Rightarrow> memoryIdempotencyStore option" where
  "idem_default_store cfg =
     NewMemoryIdempotencyStore (TTL cfg)
       [WithMemoryStoreMaxEntries (MaxStoreEntries cfg), WithMemoryStoreMaxEntryBytes (MaxStoreEntryBytes cfg)]"

definition sentinelLimit :: "int \<Rightarrow> int" where
  "sentinelLimit limit = (if limit \<ge> maxInt64 then limit else limit + 1)"

text \<open>\<^verbatim>\<open>io.ReadAll\<close> of a body limited to \<open>n\<close> bytes: an error counts only when it comes before them.\<close>

definition read_limited :: "int \<Rightarrow> string \<Rightarrow> bool \<Rightarrow> string option" where
  "read_limited n d failing =
     (if int (length d) \<ge> n then Some (take (nat n) d) else if failing then None else Some d)"

text \<open>\<^term>\<open>None\<close> is the read error; the flag says the body is too large.\<close>

definition readBodyLimit :: "req_body \<Rightarrow> int \<Rightarrow> (string \<times> bool) option" where
  "readBodyLimit b limit =
     (case b of
        NoBody \<Rightarrow> Some ([], False)
      | Stream d failing \<Rightarrow>
          (case read_limited (sentinelLimit limit) d failing of
             None \<Rightarrow> None
           | Some buf \<Rightarrow> if int (length buf) > limit then Some (buf, True) else Some (buf, False)))"

definition fp_stream :: "request \<Rightarrow> string \<Rightarrow> string \<Rightarrow> string" where
  "fp_stream r body subject =
     fp_field subject @ fp_field (Method r) @ fp_field (EscapedPath r) @ fp_field (RawQuery r)
     @ fp_field (ContentType r) @ fp_field body"

definition requestFingerprint :: "request \<Rightarrow> string \<Rightarrow> string \<Rightarrow> string" where
  "requestFingerprint r body subject = hex_encode (sha256 (fp_stream r body subject))"

section \<open>Up to the handler\<close>

datatype idem_reason =
  IdemKeyMissing | IdemKeyTooLong | IdemKeyInvalid | BodyUnreadable | IdemKeyReused | IdemInFlight | IdemStoreDown

text \<open>What the middleware does with a request: it calls the handler without a record of it (\<open>Pass\<close>, with the
  body the handler reads and the headers set before), refuses it, replays a response, or calls the
  handler under a claim on the storage key.\<close>

datatype idem_start =
    Pass req_body header
  | Refuse int idem_reason header
  | Replay IdempotentResponse
  | Claimed string string req_body

text \<open>The body handed on when the middleware stopped reading after a prefix: the prefix, then the rest.\<close>

definition rejoin :: "string \<Rightarrow> req_body \<Rightarrow> req_body" where
  "rejoin prefix b = (case b of NoBody \<Rightarrow> Stream prefix False | Stream d failing \<Rightarrow> Stream (prefix @ drop (length prefix) d) failing)"

definition opt_apply :: "('a \<Rightarrow> string) option \<Rightarrow> 'a \<Rightarrow> string" where
  "opt_apply f x = (case f of None \<Rightarrow> [] | Some g \<Rightarrow> g x)"

definition request_key :: "IdempotencyConfig \<Rightarrow> request \<Rightarrow> string" where
  "request_key cfg r =
     idemStoreKey (opt_apply (Principal cfg) r) (opt_apply (Tenant cfg) r) (opt_apply (Scope cfg) r) (IdempotencyKey r)"

text \<open>The middle part of the middleware, with the whole body read: the call of \<^verbatim>\<open>Begin\<close> and its outcomes.\<close>

definition idem_claim ::
  "(gotime \<Rightarrow> string \<Rightarrow> string \<Rightarrow> 's \<Rightarrow> begin_result \<times> 's) \<Rightarrow> IdempotencyConfig \<Rightarrow> gotime \<Rightarrow> request \<Rightarrow> string \<Rightarrow> 's \<Rightarrow> idem_start \<times> 's" where
  "idem_claim begin_op cfg now r body s =
     (let subject = opt_apply (Principal cfg) r in
      if subject = [] then (Pass (Stream body False) [], s)
      else let fp = requestFingerprint r body subject;
               storeKey = request_key cfg r
           in case begin_op now storeKey fp s of
                ((replay, ok, err), s') \<Rightarrow>
                  (case err of
                     Some ErrFingerprintMismatch \<Rightarrow> (Refuse 422 IdemKeyReused [], s')
                   | Some ErrInFlight \<Rightarrow> (Refuse 409 IdemInFlight [(''Retry-After'', [''1''])], s')
                   | Some ErrStore \<Rightarrow>
                       if FailOpen cfg then (Pass (Stream body False) [], s') else (Refuse 503 IdemStoreDown [], s')
                   | None \<Rightarrow>
                       (case replay of
                          Some x \<Rightarrow> if ok then (Replay x, s') else (Claimed storeKey fp (Stream body False), s')
                        | None \<Rightarrow> (Claimed storeKey fp (Stream body False), s'))))"

definition Idempotency_start ::
  "(gotime \<Rightarrow> string \<Rightarrow> string \<Rightarrow> 's \<Rightarrow> begin_result \<times> 's) \<Rightarrow> IdempotencyConfig \<Rightarrow> gotime \<Rightarrow> request \<Rightarrow> 's \<Rightarrow> idem_start \<times> 's" where
  "Idempotency_start begin_op cfg now r s =
     (if Principal cfg = None then (Pass (ReqBody r) [], s)
      else if Method r \<notin> set (Methods cfg) then (Pass (ReqBody r) [], s)
      else let key = IdempotencyKey r in
        if key = [] then (if Required cfg then (Refuse 400 IdemKeyMissing [], s) else (Pass (ReqBody r) [], s))
        else if length key > 255 then (Refuse 400 IdemKeyTooLong [], s)
        else if \<not> printableASCII key then (Refuse 400 IdemKeyInvalid [], s)
        else case readBodyLimit (ReqBody r) (MaxBodyBytes cfg) of
               None \<Rightarrow> (Refuse 400 BodyUnreadable [], s)
             | Some (body, tooLarge) \<Rightarrow>
                 if tooLarge then
                   (Pass (rejoin body (ReqBody r)) [(''Vary'', [''Idempotency-Key'']), (''Idempotent-Bypass'', [''body-too-large''])], s)
                 else idem_claim begin_op cfg now r body s)"

section \<open>The recorder\<close>

text \<open>The connection behind the recorder: its live header map and what it has sent. As \<^verbatim>\<open>net/http\<close> has it, an
  informational status is sent at once, the first final status counts, and a write or a flush without
  one sends 200.\<close>

record connection =
  connHeader :: header
  sentStatus :: "int option"
  sentBody :: string
  sentInfo :: "int list"

definition informational :: "int \<Rightarrow> bool" where
  "informational st \<longleftrightarrow> st \<ge> 100 \<and> st < 200 \<and> st \<noteq> 101"

definition conn_WriteHeader :: "int \<Rightarrow> connection \<Rightarrow> connection" where
  "conn_WriteHeader st c =
     (if sentStatus c \<noteq> None then c
      else if informational st then c\<lparr>sentInfo := sentInfo c @ [st]\<rparr>
      else c\<lparr>sentStatus := Some st\<rparr>)"

definition conn_Write :: "string \<Rightarrow> connection \<Rightarrow> connection" where
  "conn_Write p c = (let c' = conn_WriteHeader 200 c in c'\<lparr>sentBody := sentBody c' @ p\<rparr>)"

definition sent_status :: "connection \<Rightarrow> int" where
  "sent_status c = (case sentStatus c of None \<Rightarrow> 200 | Some st \<Rightarrow> st)"

record idempotencyRecorder =
  rStatus :: int
  upstreamKeys :: "string list"
  recBody :: string
  maxBody :: int
  bodyOverflow :: bool
  wroteHeader :: bool
  streamed :: bool

definition new_recorder :: "IdempotencyConfig \<Rightarrow> connection \<Rightarrow> idempotencyRecorder" where
  "new_recorder cfg c =
     \<lparr>rStatus = 200, upstreamKeys = map fst (connHeader c), recBody = [], maxBody = MaxResponseBytes cfg,
      bodyOverflow = False, wroteHeader = False, streamed = False\<rparr>"

datatype handler_action =
  SetHeader string "string list" | DelHeader string | WriteHeader int | Write string | Flush | Hijack

definition rec_WriteHeader :: "int \<Rightarrow> idempotencyRecorder \<times> connection \<Rightarrow> idempotencyRecorder \<times> connection" where
  "rec_WriteHeader st rc =
     (case rc of (r, c) \<Rightarrow>
        if wroteHeader r then (r, c)
        else if informational st then (r, conn_WriteHeader st c)
        else (r\<lparr>rStatus := st, wroteHeader := True\<rparr>, conn_WriteHeader st c))"

definition rec_Write :: "string \<Rightarrow> idempotencyRecorder \<times> connection \<Rightarrow> idempotencyRecorder \<times> connection" where
  "rec_Write p rc =
     (case (if wroteHeader (fst rc) then rc else rec_WriteHeader 200 rc) of (r, c) \<Rightarrow>
        (if bodyOverflow r then r
         else if int (length (recBody r)) + int (length p) > maxBody r then r\<lparr>bodyOverflow := True, recBody := []\<rparr>
         else r\<lparr>recBody := recBody r @ p\<rparr>,
         conn_Write p c))"

definition rec_FlushError :: "idempotencyRecorder \<times> connection \<Rightarrow> idempotencyRecorder \<times> connection" where
  "rec_FlushError rc = ((fst rc)\<lparr>streamed := True\<rparr>, conn_WriteHeader 200 (snd rc))"

definition rec_Hijack :: "idempotencyRecorder \<times> connection \<Rightarrow> idempotencyRecorder \<times> connection" where
  "rec_Hijack rc = ((fst rc)\<lparr>streamed := True\<rparr>, snd rc)"

fun recorder_step :: "handler_action \<Rightarrow> idempotencyRecorder \<times> connection \<Rightarrow> idempotencyRecorder \<times> connection" where
  "recorder_step (SetHeader k vs) (r, c) = (r, c\<lparr>connHeader := AList.update k vs (connHeader c)\<rparr>)"
| "recorder_step (DelHeader k) (r, c) = (r, c\<lparr>connHeader := AList.delete k (connHeader c)\<rparr>)"
| "recorder_step (WriteHeader st) rc = rec_WriteHeader st rc"
| "recorder_step (Write p) rc = rec_Write p rc"
| "recorder_step Flush rc = rec_FlushError rc"
| "recorder_step Hijack rc = rec_Hijack rc"

text \<open>\<^verbatim>\<open>http.CanonicalHeaderKey\<close>: a key with a byte no header name holds is left alone.\<close>

definition header_byte :: "char \<Rightarrow> bool" where
  "header_byte c \<longleftrightarrow> is_digit c \<or> is_lower c \<or> is_upper c \<or> c \<in> set ''!#$%&*+-.^_|~'' \<or> byte_of c \<in> {39, 96}"

fun canon_bytes :: "bool \<Rightarrow> string \<Rightarrow> string" where
  "canon_bytes up [] = []"
| "canon_bytes up (c # cs) = (if up then upper_byte c else lower_byte c) # canon_bytes (c = CHR ''-'') cs"

definition CanonicalHeaderKey :: "string \<Rightarrow> string" where
  "CanonicalHeaderKey k = (if list_all header_byte k then canon_bytes True k else k)"

definition headersStrippedFromReplay :: "string list" where
  "headersStrippedFromReplay = [''Set-Cookie'', ''Cookie'', ''Authorization'', ''Proxy-Authorization'', ''Www-Authenticate'']"

definition handlerHeaders :: "idempotencyRecorder \<Rightarrow> connection \<Rightarrow> header" where
  "handlerHeaders r c =
     filter (\<lambda>(k, _). k \<notin> set (upstreamKeys r) \<and> CanonicalHeaderKey k \<notin> set headersStrippedFromReplay) (connHeader c)"

section \<open>After the handler\<close>

definition recorded :: "idempotencyRecorder \<Rightarrow> connection \<Rightarrow> IdempotentResponse option" where
  "recorded r c =
     (if bodyOverflow r \<or> streamed r then None
      else if rStatus r \<ge> 200 \<and> rStatus r < 300 then Some \<lparr>Status = rStatus r, Header = handlerHeaders r c, Body = recBody r\<rparr>
      else None)"

text \<open>The call of \<^verbatim>\<open>Finish\<close>, on a return of the handler or on the way of its panic.\<close>

definition Idempotency_end ::
  "(gotime \<Rightarrow> string \<Rightarrow> string \<Rightarrow> IdempotentResponse option \<Rightarrow> 's \<Rightarrow> idem_error option \<times> 's) \<Rightarrow> gotime \<Rightarrow> string \<Rightarrow> string
   \<Rightarrow> idempotencyRecorder \<times> connection \<Rightarrow> bool \<Rightarrow> 's \<Rightarrow> 's" where
  "Idempotency_end finish_op now storeKey fp rc panicked s =
     snd (finish_op now storeKey fp (if panicked then None else recorded (fst rc) (snd rc)) s)"

definition writeReplay :: "connection \<Rightarrow> IdempotentResponse \<Rightarrow> connection" where
  "writeReplay c x =
     (let h = fold (\<lambda>(k, vs). AList.update k vs) (Header x) (connHeader c);
          c1 = c\<lparr>connHeader := AList.update ''Idempotent-Replay'' [''true''] h\<rparr>
      in conn_Write (Body x) (conn_WriteHeader (Status x) c1))"

section \<open>A server with concurrent requests\<close>

text \<open>Handlers that run under a claim (storage key, fingerprint, time of the claim), and the responses that
  were kept, with the time.\<close>

record 's idem_sys =
  sysStore :: 's
  sysRunning :: "(string \<times> string \<times> gotime) list"
  sysKept :: "(string \<times> string \<times> IdempotentResponse \<times> gotime) list"

definition in_lease :: "int \<Rightarrow> gotime \<Rightarrow> (string \<times> string \<times> gotime) list \<Rightarrow> bool" where
  "in_lease lease now rs \<longleftrightarrow> list_all (\<lambda>(k, fp, t). now < t + lease) rs"

definition add_claim :: "idem_start \<Rightarrow> gotime \<Rightarrow> (string \<times> string \<times> gotime) list \<Rightarrow> (string \<times> string \<times> gotime) list" where
  "add_claim res now rs = (case res of Claimed k fp b \<Rightarrow> (k, fp, now) # rs | _ \<Rightarrow> rs)"

definition add_kept ::
  "(IdempotentResponse \<Rightarrow> bool) \<Rightarrow> string \<Rightarrow> string \<Rightarrow> IdempotentResponse option \<Rightarrow> gotime
   \<Rightarrow> (string \<times> string \<times> IdempotentResponse \<times> gotime) list \<Rightarrow> (string \<times> string \<times> IdempotentResponse \<times> gotime) list" where
  "add_kept fits k fp r now ks = (case r of Some x \<Rightarrow> if fits x then (k, fp, x, now) # ks else ks | None \<Rightarrow> ks)"

text \<open>The reachable states while every handler returns within the lifetime of a claim and the store is not
  full: requests start and handlers end in any order.\<close>

inductive idem_reach ::
  "(gotime \<Rightarrow> string \<Rightarrow> string \<Rightarrow> 's \<Rightarrow> begin_result \<times> 's)
   \<Rightarrow> (gotime \<Rightarrow> string \<Rightarrow> string \<Rightarrow> IdempotentResponse option \<Rightarrow> 's \<Rightarrow> idem_error option \<times> 's)
   \<Rightarrow> ('s \<Rightarrow> bool) \<Rightarrow> (IdempotentResponse \<Rightarrow> bool) \<Rightarrow> int \<Rightarrow> IdempotencyConfig \<Rightarrow> 's \<Rightarrow> gotime \<Rightarrow> 's idem_sys \<Rightarrow> bool"
  for begin_op finish_op full fits lease cfg s0 where
  init: "idem_reach begin_op finish_op full fits lease cfg s0 now \<lparr>sysStore = s0, sysRunning = [], sysKept = []\<rparr>"
| arrive: "idem_reach begin_op finish_op full fits lease cfg s0 t sys \<Longrightarrow> t \<le> now \<Longrightarrow> in_lease lease now (sysRunning sys)
    \<Longrightarrow> \<not> full (sysStore sys) \<Longrightarrow> Idempotency_start begin_op cfg now r (sysStore sys) = (res, s')
    \<Longrightarrow> idem_reach begin_op finish_op full fits lease cfg s0 now
          (sys\<lparr>sysStore := s', sysRunning := add_claim res now (sysRunning sys)\<rparr>)"
| depart: "idem_reach begin_op finish_op full fits lease cfg s0 t sys \<Longrightarrow> t \<le> now \<Longrightarrow> in_lease lease now (sysRunning sys)
    \<Longrightarrow> (k, fp, t1) \<in> set (sysRunning sys)
    \<Longrightarrow> idem_reach begin_op finish_op full fits lease cfg s0 now
          (sys\<lparr>sysStore := Idempotency_end finish_op now k fp rc panicked (sysStore sys),
               sysRunning := remove1 (k, fp, t1) (sysRunning sys),
               sysKept := add_kept fits k fp (if panicked then None else recorded (fst rc) (snd rc)) now (sysKept sys)\<rparr>)"

section \<open>What is recorded is what was sent\<close>

text \<open>While nothing was streamed, the recorder and the connection agree.\<close>

definition rec_agrees :: "string \<Rightarrow> idempotencyRecorder \<times> connection \<Rightarrow> bool" where
  "rec_agrees b0 rc = (case rc of (r, c) \<Rightarrow>
     streamed r \<or> (wroteHeader r = (sentStatus c \<noteq> None) \<and> rStatus r = sent_status c
       \<and> (bodyOverflow r \<or> sentBody c = b0 @ recBody r)))"

lemma rec_agrees_step: "rec_agrees b0 rc \<Longrightarrow> rec_agrees b0 (recorder_step a rc)"
proof -
  assume ag: "rec_agrees b0 rc"
  obtain r c where rc: "rc = (r, c)" by (cases rc)
  show ?thesis
  proof (cases a)
    case (WriteHeader st)
    with ag show ?thesis
      by (cases "streamed r"; cases "sentStatus c"; cases "wroteHeader r")
        (simp_all add: rc rec_agrees_def rec_WriteHeader_def conn_WriteHeader_def sent_status_def)
  next
    case (Write p)
    with ag show ?thesis
      by (cases "wroteHeader r")
        (simp_all add: rc rec_agrees_def rec_Write_def rec_WriteHeader_def conn_Write_def conn_WriteHeader_def sent_status_def
          informational_def, auto)
  qed (use ag in \<open>simp_all add: rc rec_agrees_def rec_FlushError_def rec_Hijack_def sent_status_def\<close>)
qed

lemma upstream_step [simp]: "upstreamKeys (fst (recorder_step a rc)) = upstreamKeys (fst rc)"
  by (cases "(a, rc)" rule: recorder_step.cases)
    (auto simp: rec_WriteHeader_def rec_Write_def rec_FlushError_def rec_Hijack_def split: prod.splits)

lemma rec_agrees_run:
  assumes "sentStatus c = None"
  shows "rec_agrees (sentBody c) (fold recorder_step as (new_recorder cfg c, c))"
    and "upstreamKeys (fst (fold recorder_step as (new_recorder cfg c, c))) = map fst (connHeader c)"
proof -
  have "rec_agrees b rc \<Longrightarrow> rec_agrees b (fold recorder_step as rc)
      \<and> upstreamKeys (fst (fold recorder_step as rc)) = upstreamKeys (fst rc)" for b rc
    by (induction as arbitrary: rc) (simp_all add: rec_agrees_step)
  moreover have "rec_agrees (sentBody c) (new_recorder cfg c, c)"
    using assms by (simp add: rec_agrees_def new_recorder_def sent_status_def)
  ultimately show "rec_agrees (sentBody c) (fold recorder_step as (new_recorder cfg c, c))"
    "upstreamKeys (fst (fold recorder_step as (new_recorder cfg c, c))) = map fst (connHeader c)"
    by (auto simp: new_recorder_def)
qed

lemma map_of_fold_update:
  assumes "distinct (map fst h)"
  shows "map_of (fold (\<lambda>(k, vs). AList.update k vs) h al) k =
    (case map_of h k of Some v \<Rightarrow> Some v | None \<Rightarrow> map_of al k)"
  using assms
proof (induction h arbitrary: al)
  case (Cons p h)
  then have "map_of h (fst p) = None" by (simp add: map_of_eq_None_iff)
  with Cons show ?case by (cases p) (auto simp: update_conv' simp del: map_of_eq_Some_iff split: option.split)
qed simp

lemma distinct_headers:
  "distinct (map fst (connHeader (snd rc))) \<Longrightarrow> distinct (map fst (connHeader (snd (recorder_step a rc))))"
  by (cases "(a, rc)" rule: recorder_step.cases)
    (auto simp: rec_WriteHeader_def rec_Write_def rec_FlushError_def rec_Hijack_def conn_Write_def conn_WriteHeader_def
      distinct_update distinct_delete split: prod.splits)

text \<open>C33. A replay is what the first caller got: the same status and the same body, whatever the handler did to
  its response, and of the headers exactly those the handler left behind and the middleware may
  repeat. No replayed header names a cookie or a credential, or was set before the handler ran.\<close>

theorem idem_replay_faithful:
  assumes "sentStatus c = None" "sentBody c = []" "distinct (map fst (connHeader c))"
    and "sentStatus c' = None" "sentBody c' = []"
    and "fold recorder_step as (new_recorder cfg c, c) = (r, d)" "recorded r d = Some x"
  shows "sent_status (writeReplay c' x) = sent_status d \<and> sentBody (writeReplay c' x) = sentBody d
    \<and> 200 \<le> sent_status d \<and> sent_status d < 300
    \<and> map_of (Header x) k = (if k \<in> fst ` set (connHeader c) \<or> CanonicalHeaderKey k \<in> set headersStrippedFromReplay then None
        else map_of (connHeader d) k)
    \<and> (k \<noteq> ''Idempotent-Replay'' \<longrightarrow> map_of (connHeader (writeReplay c' x)) k
        = (case map_of (Header x) k of Some v \<Rightarrow> Some v | None \<Rightarrow> map_of (connHeader c') k))"
proof -
  have ag: "rec_agrees [] (r, d)" and up: "upstreamKeys r = map fst (connHeader c)"
    using rec_agrees_run [OF assms(1), of as cfg] assms(2,6) by simp_all
  have "distinct (map fst (connHeader (snd rc))) \<Longrightarrow> distinct (map fst (connHeader (snd (fold recorder_step as rc))))" for rc
    by (induction as arbitrary: rc) (simp_all add: distinct_headers)
  from this [of "(new_recorder cfg c, c)"] have dd: "distinct (map fst (connHeader d))" using assms(3,6) by simp
  have x: "x = \<lparr>Status = rStatus r, Header = handlerHeaders r d, Body = recBody r\<rparr>" and ok: "\<not> bodyOverflow r" "\<not> streamed r"
      "200 \<le> rStatus r" "rStatus r < 300"
    using assms(7) by (auto simp: recorded_def split: if_splits)
  have st: "rStatus r = sent_status d" "sentBody d = recBody r" using ag ok by (simp_all add: rec_agrees_def)
  have hx: "map_of (Header x) k = (if k \<in> fst ` set (connHeader c) \<or> CanonicalHeaderKey k \<in> set headersStrippedFromReplay then None
        else map_of (connHeader d) k)"
    using map_of_filter_distinct [OF dd, of "\<lambda>(k, _). k \<notin> set (upstreamKeys r) \<and> CanonicalHeaderKey k \<notin> set headersStrippedFromReplay" k]
    by (simp add: x handlerHeaders_def up split: option.split)
  have dx: "distinct (map fst (Header x))" using dd by (simp add: x handlerHeaders_def distinct_map inj_on_def)
  have "map_of (connHeader (writeReplay c' x)) k = (case map_of (Header x) k of Some v \<Rightarrow> Some v | None \<Rightarrow> map_of (connHeader c') k)"
    if "k \<noteq> ''Idempotent-Replay''"
    using that by (simp add: writeReplay_def Let_def conn_Write_def conn_WriteHeader_def update_conv' map_of_fold_update [OF dx])
  moreover have "sent_status (writeReplay c' x) = sent_status d" "sentBody (writeReplay c' x) = sentBody d"
    using assms(4,5) st ok
    by (simp_all add: writeReplay_def Let_def conn_Write_def conn_WriteHeader_def sent_status_def informational_def x)
  ultimately show ?thesis using hx st ok by simp
qed

section \<open>At most once\<close>

text \<open>The results of \<^verbatim>\<open>Begin\<close> on which the middleware calls the handler under a claim.\<close>

definition granted :: "begin_result \<Rightarrow> bool" where
  "granted b = (case b of (replay, ok, err) \<Rightarrow> err = None \<and> (replay = None \<or> \<not> ok))"

lemma idem_claim_granted:
  fixes begin_op :: "gotime \<Rightarrow> string \<Rightarrow> string \<Rightarrow> 's \<Rightarrow> begin_result \<times> 's" and r body cfg now s
  defines "b \<equiv> begin_op now (request_key cfg r) (requestFingerprint r body (opt_apply (Principal cfg) r)) s"
  assumes "opt_apply (Principal cfg) r \<noteq> []"
  shows "snd (idem_claim begin_op cfg now r body s) = snd b"
    and "add_claim (fst (idem_claim begin_op cfg now r body s)) now rs =
      (if granted (fst b) then (request_key cfg r, requestFingerprint r body (opt_apply (Principal cfg) r), now) # rs else rs)"
  using assms(2) unfolding idem_claim_def granted_def add_claim_def b_def
  by (auto simp: Let_def split: prod.splits option.splits idem_error.splits)

lemma Idempotency_start_cases:
  fixes begin_op :: "gotime \<Rightarrow> string \<Rightarrow> string \<Rightarrow> 's \<Rightarrow> begin_result \<times> 's" and r cfg now s
  assumes "Idempotency_start begin_op cfg now r s = (res, s')"
  obtains (idle) "s' = s" "add_claim res now rs = rs"
  | (begun) fp where "s' = snd (begin_op now (request_key cfg r) fp s)"
      "add_claim res now rs = (if granted (fst (begin_op now (request_key cfg r) fp s)) then (request_key cfg r, fp, now) # rs else rs)"
proof -
  consider "s' = s" "add_claim res now rs = rs" | body where "idem_claim begin_op cfg now r body s = (res, s')"
    using assms unfolding Idempotency_start_def
    by (auto simp: Let_def add_claim_def split: if_splits option.splits prod.splits)
  then show thesis
  proof cases
    case (2 body)
    show ?thesis
    proof (cases "opt_apply (Principal cfg) r = []")
      case True
      with 2 have "s' = s" "add_claim res now rs = rs" by (auto simp: idem_claim_def add_claim_def)
      then show ?thesis by (rule idle)
    next
      case False
      note c = idem_claim_granted [OF False, where begin_op = begin_op and body = body and now = now and s = s]
      show ?thesis using c(1) c(2) [where rs = rs] unfolding 2 fst_conv snd_conv by (rule begun)
    qed
  qed (rule idle)
qed

context idempotency_store
begin

definition sys_inv :: "gotime \<Rightarrow> 's idem_sys \<Rightarrow> bool" where
  "sys_inv now sys \<longleftrightarrow> inv (sysStore sys) \<and> distinct (map fst (sysRunning sys))
     \<and> (\<forall>k fp t1 t. (k, fp, t1) \<in> set (sysRunning sys) \<longrightarrow> now \<le> t \<longrightarrow> t < t1 + lease \<longrightarrow> lookup t k (sysStore sys) = Some (fp, None))
     \<and> (\<forall>k fp x t1 t. (k, fp, x, t1) \<in> set (sysKept sys) \<longrightarrow> now \<le> t \<longrightarrow> t < t1 + keep \<longrightarrow> lookup t k (sysStore sys) = Some (fp, Some x))"

lemma sys_inv_begin:
  fixes k fp now sys
  assumes "sys_inv now0 sys" "now0 \<le> now" "in_lease lease now (sysRunning sys)" "\<not> full (sysStore sys)"
  defines "b \<equiv> begin_op now k fp (sysStore sys)"
  shows "sys_inv now (sys\<lparr>sysStore := snd b, sysRunning := (if granted (fst b) then (k, fp, now) # sysRunning sys else sysRunning sys)\<rparr>)"
proof (cases "lookup now k (sysStore sys)")
  case None
  have i: "inv (sysStore sys)" using assms(1) by (simp add: sys_inv_def)
  have run: "lookup t k' (sysStore sys) = Some (fp', None)" if "(k', fp', t1) \<in> set (sysRunning sys)" "now \<le> t" "t < t1 + lease" for k' fp' t1 t
    using assms(1,2) that unfolding sys_inv_def by (meson order_trans)
  have kept: "lookup t k' (sysStore sys) = Some (fp', Some x)" if "(k', fp', x, t1) \<in> set (sysKept sys)" "now \<le> t" "t < t1 + keep" for k' fp' x t1 t
    using assms(1,2) that unfolding sys_inv_def by (meson order_trans)
  have live: "now < t1 + lease" if "(k', fp', t1) \<in> set (sysRunning sys)" for k' fp' t1
    using assms(3) that by (auto simp: in_lease_def list_all_iff)
  have new: "k \<notin> fst ` set (sysRunning sys)"
  proof
    assume "k \<in> fst ` set (sysRunning sys)"
    then obtain fp' t1 where m: "(k, fp', t1) \<in> set (sysRunning sys)" by auto
    from run [OF m _ live [OF m]] None show False by simp
  qed
  have f: "granted (fst b)" unfolding b_def begin_free [OF i None] by (simp add: granted_def)
  have o: "lookup t k' (snd b) = lookup t k' (sysStore sys)" if "k' \<noteq> k" for t k'
    unfolding b_def by (rule begin_other [OF i None assms(4) that])
  have c: "lookup t k (snd b) = Some (fp, None)" if "t < now + lease" for t
    unfolding b_def by (rule begin_claims [OF i None that])
  have "lookup t k' (snd b) = Some (fp', Some x)" if m: "(k', fp', x, t1) \<in> set (sysKept sys)" "now \<le> t" "t < t1 + keep" for k' fp' x t1 t
    using kept [OF m] kept [OF m(1), of now] m None o [of k' t] by (cases "k' = k") auto
  moreover have "lookup t k' (snd b) = Some (fp', None)" if m: "(k', fp', t1) \<in> set (sysRunning sys)" "now \<le> t" "t < t1 + lease" for k' fp' t1 t
    using run [OF m] new o [of k' t] m(1) by force
  moreover have "inv (snd b)" unfolding b_def by (rule inv_begin [OF i])
  ultimately show ?thesis using assms(1) new f c unfolding sys_inv_def by auto
next
  case (Some p)
  obtain fp' r where p: "p = (fp', r)" by (cases p)
  have i: "inv (sysStore sys)" using assms(1) by (simp add: sys_inv_def)
  have n: "\<not> granted (fst b)" using begin_live [OF i Some [unfolded p]] unfolding b_def by (simp add: granted_def split: option.split)
  have o: "lookup t k' (snd b) = lookup t k' (sysStore sys)" for t k' unfolding b_def using begin_live_keeps [OF i] Some by simp
  have "inv (snd b)" unfolding b_def by (rule inv_begin [OF i])
  with n o assms(1,2) show ?thesis unfolding sys_inv_def by (auto intro: order_trans)
qed

lemma sys_inv_finish:
  assumes "sys_inv now0 sys" "now0 \<le> now" "in_lease lease now (sysRunning sys)" "(k, fp, t1) \<in> set (sysRunning sys)"
  shows "sys_inv now (sys\<lparr>sysStore := snd (finish_op now k fp r (sysStore sys)), sysRunning := remove1 (k, fp, t1) (sysRunning sys),
    sysKept := add_kept fits k fp r now (sysKept sys)\<rparr>)"
proof -
  let ?s = "sysStore sys" and ?s' = "snd (finish_op now k fp r (sysStore sys))"
  have i: "inv ?s" and d: "distinct (map fst (sysRunning sys))" using assms(1) by (simp_all add: sys_inv_def)
  have run: "lookup t k' ?s = Some (fp', None)" if "(k', fp', t2) \<in> set (sysRunning sys)" "now \<le> t" "t < t2 + lease" for k' fp' t2 t
    using assms(1,2) that unfolding sys_inv_def by (meson order_trans)
  have kept: "lookup t k' ?s = Some (fp', Some x)" if "(k', fp', x, t2) \<in> set (sysKept sys)" "now \<le> t" "t < t2 + keep" for k' fp' x t2 t
    using assms(1,2) that unfolding sys_inv_def by (meson order_trans)
  have "now < t1 + lease" using assms(3,4) by (auto simp: in_lease_def list_all_iff)
  then have own: "lookup now k ?s = Some (fp, None)" using run assms(4) by blast
  have o: "lookup t k' ?s' = lookup t k' ?s" if "k' \<noteq> k" for t k' by (rule finish_other [OF i that])
  have rest: "k' \<noteq> k" if "(k', x) \<in> set (remove1 (k, fp, t1) (sysRunning sys))" for k' x
  proof -
    have "x \<noteq> (fp, t1) \<and> (k', x) \<in> set (sysRunning sys) \<or> k' \<noteq> k"
      using that d by (auto simp: distinct_map)
    then show ?thesis using assms(4) d eq_key_imp_eq_value [OF d] by metis
  qed
  have "lookup t k' ?s' = Some (fp', None)" if m: "(k', fp', t2) \<in> set (remove1 (k, fp, t1) (sysRunning sys))" "now \<le> t" "t < t2 + lease" for k' fp' t2 t
    using run [of k' fp' t2 t] m o [OF rest [OF m(1)]] notin_set_remove1 by metis
  moreover have "lookup t k' ?s' = Some (fp', Some x)" if m: "(k', fp', x, t2) \<in> set (sysKept sys)" "now \<le> t" "t < t2 + keep" for k' fp' x t2 t
    using kept [OF m] kept [OF m(1), of now] m own o [of k' t] by (cases "k' = k") auto
  moreover have "lookup t k ?s' = Some (fp, Some x)" if "r = Some x" "fits x" "t < now + keep" for t x
    using finish_own [OF i own, of t r] that by simp
  moreover have "inv ?s'" by (rule inv_finish [OF i])
  moreover have "distinct (map fst (remove1 (k, fp, t1) (sysRunning sys)))" using d by (simp add: distinct_map inj_on_def distinct_remove1 set_remove1_eq)
  ultimately show ?thesis unfolding sys_inv_def add_kept_def by (auto split: option.splits)
qed

lemma sys_inv_reach:
  assumes "inv s0" "idem_reach begin_op finish_op full fits lease cfg s0 now sys"
  shows "sys_inv now sys"
  using assms(2)
proof (induction rule: idem_reach.induct)
  case (init now)
  show ?case using assms(1) by (simp add: sys_inv_def)
next
  case (arrive t sys now r res s')
  from arrive.hyps(5) show ?case
  proof (cases rule: Idempotency_start_cases [where rs = "sysRunning sys"])
    case idle
    have "sys\<lparr>sysStore := s', sysRunning := add_claim res now (sysRunning sys)\<rparr> = sys" using idle by simp
    then show ?thesis using arrive.IH arrive.hyps(2) unfolding sys_inv_def by (auto intro: order_trans)
  next
    case (begun fp)
    show ?thesis unfolding begun by (rule sys_inv_begin [OF arrive.IH arrive.hyps(2-4)])
  qed
next
  case (depart t sys now k fp t1 panicked rc)
  show ?case unfolding Idempotency_end_def by (rule sys_inv_finish [OF depart.IH depart.hyps(2-4)])
qed

end

lemma idem_claim_live:
  assumes "idem_lookup t (request_key cfg r) s = Some (fp, w)" "opt_apply (Principal cfg) r \<noteq> []"
  shows "fst (idem_claim idem_Begin cfg t r body s) =
    (if requestFingerprint r body (opt_apply (Principal cfg) r) \<noteq> fp then Refuse 422 IdemKeyReused []
     else case w of None \<Rightarrow> Refuse 409 IdemInFlight [(''Retry-After'', [''1''])] | Some x \<Rightarrow> Replay x)"
  using assms by (auto simp: idem_claim_def idem_Begin_eq Let_def split: option.split)

lemma default_store_inv:
  assumes "idem_default_store cfg = Some s0" "MaxStoreEntries cfg \<le> maxInt64 div 9"
  shows "idem_inv (ttl s0) (inFlightTTL s0) (maxEntries s0) (maxEntryBytes s0) s0"
  using assms by (auto simp: idem_default_store_def NewMemoryIdempotencyStore_def idem_inv_def defaultMaxIdemEntries_def
    maxInt64_def split: if_splits)

text \<open>C32. At most one run. With the memory store below its cap and handlers that return within the lifetime of a
  claim, at most one handler runs at a time for a storage key; a second request of the key meanwhile is
  refused; and once a run's response was kept, every later request of the key within the lifetime is
  answered with that response or refused as a different request, and runs no handler.\<close>

theorem idem_at_most_once:
  assumes "idem_default_store cfg = Some s0" "MaxStoreEntries cfg \<le> maxInt64 div 9"
    and "idem_reach idem_Begin idem_Finish idem_full (\<lambda>x. responseBytes x \<le> maxEntryBytes s0) (inFlightTTL s0) cfg s0 now sys"
    and "now \<le> t" "opt_apply (Principal cfg) r \<noteq> []"
  shows "distinct (map fst (sysRunning sys))
    \<and> list_all (\<lambda>(k, fp, t1). k \<noteq> request_key cfg r \<or> t \<ge> t1 + inFlightTTL s0
        \<or> fst (idem_claim idem_Begin cfg t r body (sysStore sys)) =
            (if requestFingerprint r body (opt_apply (Principal cfg) r) = fp then Refuse 409 IdemInFlight [(''Retry-After'', [''1''])]
             else Refuse 422 IdemKeyReused [])) (sysRunning sys)
    \<and> list_all (\<lambda>(k, fp, x, t1). k \<noteq> request_key cfg r \<or> t \<ge> t1 + ttl s0
        \<or> fst (idem_claim idem_Begin cfg t r body (sysStore sys)) =
            (if requestFingerprint r body (opt_apply (Principal cfg) r) = fp then Replay x else Refuse 422 IdemKeyReused []))
      (sysKept sys)"
proof -
  have inv: "mem.sys_inv (ttl s0) (inFlightTTL s0) (maxEntries s0) (maxEntryBytes s0) now sys"
    by (rule mem.sys_inv_reach [OF default_store_inv [OF assms(1,2)] assms(3)])
  note I = this [unfolded mem.sys_inv_def]
  have refused: "k \<noteq> request_key cfg r \<or> t \<ge> t1 + inFlightTTL s0
      \<or> fst (idem_claim idem_Begin cfg t r body (sysStore sys)) =
        (if requestFingerprint r body (opt_apply (Principal cfg) r) = fp then Refuse 409 IdemInFlight [(''Retry-After'', [''1''])]
         else Refuse 422 IdemKeyReused [])"
    if "(k, fp, t1) \<in> set (sysRunning sys)" for k fp t1
  proof (cases "k = request_key cfg r \<and> t < t1 + inFlightTTL s0")
    case True
    then have "idem_lookup t (request_key cfg r) (sysStore sys) = Some (fp, None)" using I that assms(4) by blast
    from idem_claim_live [OF this assms(5), of body] show ?thesis by simp
  qed auto
  have replayed: "k \<noteq> request_key cfg r \<or> t \<ge> t1 + ttl s0
      \<or> fst (idem_claim idem_Begin cfg t r body (sysStore sys)) =
        (if requestFingerprint r body (opt_apply (Principal cfg) r) = fp then Replay x else Refuse 422 IdemKeyReused [])"
    if "(k, fp, x, t1) \<in> set (sysKept sys)" for k fp x t1
  proof (cases "k = request_key cfg r \<and> t < t1 + ttl s0")
    case True
    then have "idem_lookup t (request_key cfg r) (sysStore sys) = Some (fp, Some x)" using I that assms(4) by blast
    from idem_claim_live [OF this assms(5), of body] show ?thesis by simp
  qed auto
  have "distinct (map fst (sysRunning sys))" using I by simp
  then show ?thesis unfolding list_all_iff using refused replayed by blast
qed

section \<open>The request the handler sees\<close>

definition body_bytes :: "req_body \<Rightarrow> string \<times> bool" where
  "body_bytes b = (case b of NoBody \<Rightarrow> ([], False) | Stream d failing \<Rightarrow> (d, failing))"

lemma readBodyLimit_whole:
  assumes "readBodyLimit b limit = Some (body, False)" "int (length (fst (body_bytes b))) < maxInt64"
  shows "body_bytes b = (body, False)"
proof (cases b)
  case (Stream d failing)
  with assms have *: "\<not> int (length d) \<ge> sentinelLimit limit \<or> int (length d) \<le> limit"
    by (auto simp: readBodyLimit_def read_limited_def sentinelLimit_def body_bytes_def split: if_splits)
  have "sentinelLimit limit \<le> int (length d) \<Longrightarrow> limit < int (length d)"
    using assms(2) Stream by (simp add: sentinelLimit_def body_bytes_def split: if_splits)
  with * have "\<not> int (length d) \<ge> sentinelLimit limit" by linarith
  then show ?thesis using assms(1) Stream by (auto simp: readBodyLimit_def read_limited_def body_bytes_def split: if_splits)
qed (use assms in \<open>simp add: readBodyLimit_def body_bytes_def\<close>)

lemma readBodyLimit_prefix:
  "readBodyLimit b limit = Some (body, True) \<Longrightarrow> body_bytes (rejoin body b) = body_bytes b"
  by (cases b) (auto simp: readBodyLimit_def read_limited_def rejoin_def body_bytes_def split: if_splits)

text \<open>Reading the body for the fingerprint is invisible to the handler: whenever it runs, recorded or not, it
  reads exactly the bytes the client sent, with a read error where the client's stream had one; a body past
  the limit is passed on uncut.\<close>

lemma idem_body_unchanged:
  assumes "int (length (fst (body_bytes (ReqBody r)))) < maxInt64"
  shows "case fst (Idempotency_start begin_op cfg now r s) of
      Pass b _ \<Rightarrow> body_bytes b = body_bytes (ReqBody r)
    | Claimed _ _ b \<Rightarrow> body_bytes b = body_bytes (ReqBody r)
    | Replay _ \<Rightarrow> True | Refuse _ _ _ \<Rightarrow> True"
proof -
  have claim: "case fst (idem_claim begin_op cfg now r body s) of
      Pass b _ \<Rightarrow> body_bytes b = (body, False) | Claimed _ _ b \<Rightarrow> body_bytes b = (body, False)
    | Replay _ \<Rightarrow> True | Refuse _ _ _ \<Rightarrow> True" for body
    by (auto simp: idem_claim_def Let_def body_bytes_def split: prod.splits option.splits idem_error.splits)
  consider "readBodyLimit (ReqBody r) (MaxBodyBytes cfg) = None"
    | body where "readBodyLimit (ReqBody r) (MaxBodyBytes cfg) = Some (body, True)"
    | body where "readBodyLimit (ReqBody r) (MaxBodyBytes cfg) = Some (body, False)"
    by (metis option.exhaust surj_pair)
  then show ?thesis
  proof cases
    case (2 body)
    then show ?thesis using readBodyLimit_prefix by (simp add: Idempotency_start_def Let_def)
  next
    case (3 body)
    have e: "body_bytes (ReqBody r) = (body, False)" by (rule readBodyLimit_whole [OF 3 assms])
    show ?thesis unfolding e using claim [of body] 3 e by (simp add: Idempotency_start_def Let_def)
  qed (simp add: Idempotency_start_def Let_def)
qed

lemma hex_encode_inj: "hex_encode a = hex_encode b \<Longrightarrow> a = b"
proof (induction a arbitrary: b)
  case Nil
  then show ?case by (cases b) (simp_all add: hex_encode_def)
next
  case (Cons c cs)
  obtain d ds where b: "b = d # ds" using Cons.prems by (cases b) (simp_all add: hex_encode_def)
  have digit: "m < 16 \<Longrightarrow> n < 16 \<Longrightarrow> hex_digit m = hex_digit n \<Longrightarrow> m = n" for m n
    using byte_of_char_of [of "if m < 10 then 48 + m else 87 + m"] byte_of_char_of [of "if n < 10 then 48 + n else 87 + n"]
    by (auto simp: hex_digit_def split: if_splits)
  have "hex_digit (byte_of c div 16) = hex_digit (byte_of d div 16)" "hex_digit (byte_of c mod 16) = hex_digit (byte_of d mod 16)"
    "hex_encode cs = hex_encode ds" using Cons.prems unfolding b by (simp_all add: hex_encode_def)
  moreover have "byte_of c div 16 < 16" "byte_of d div 16 < 16" using byte_of_less [of c] byte_of_less [of d] by linarith+
  ultimately have "byte_of c div 16 = byte_of d div 16" "byte_of c mod 16 = byte_of d mod 16" "cs = ds"
    using digit Cons.IH by simp_all
  then show ?case unfolding b by (metis div_mult_mod_eq char_eq_byte)
qed

lemma fp_fields_inj:
  assumes "length xs = length ys" "list_all (\<lambda>s. length s < 2 ^ 32) xs" "list_all (\<lambda>s. length s < 2 ^ 32) ys"
    "concat (map fp_field xs) = concat (map fp_field ys)"
  shows "xs = ys"
  using assms
proof (induction xs ys rule: list_induct2)
  case (Cons x xs y ys)
  then have "x = y \<and> concat (map fp_field xs) = concat (map fp_field ys)" by (intro fp_field_inj) simp_all
  with Cons show ?case by simp
qed simp

text \<open>The fingerprint tells requests apart: two requests of one fingerprint agree in principal, method, path,
  query, content type and body, unless two different byte streams have one SHA-256 digest.\<close>

lemma idem_fingerprint_sound:
  assumes "list_all (\<lambda>s. length s < 2 ^ 32) [p, Method r, EscapedPath r, RawQuery r, ContentType r, body]"
    "list_all (\<lambda>s. length s < 2 ^ 32) [p', Method r', EscapedPath r', RawQuery r', ContentType r', body']"
    "requestFingerprint r body p = requestFingerprint r' body' p'"
  shows "(p, Method r, EscapedPath r, RawQuery r, ContentType r, body) = (p', Method r', EscapedPath r', RawQuery r', ContentType r', body')
    \<or> fp_stream r body p \<noteq> fp_stream r' body' p' \<and> sha256 (fp_stream r body p) = sha256 (fp_stream r' body' p')"
proof (cases "fp_stream r body p = fp_stream r' body' p'")
  case True
  then have "concat (map fp_field [p, Method r, EscapedPath r, RawQuery r, ContentType r, body])
      = concat (map fp_field [p', Method r', EscapedPath r', RawQuery r', ContentType r', body'])" by (simp add: fp_stream_def)
  from fp_fields_inj [OF _ assms(1,2) this] show ?thesis by simp
next
  case False
  then show ?thesis using assms(3) by (auto simp: requestFingerprint_def dest: hex_encode_inj)
qed

section \<open>Example server\<close>

definition example_request :: request where
  "example_request = \<lparr>Method = ''POST'', EscapedPath = ''/orders'', RawQuery = [], ContentType = ''application/json'',
     IdempotencyKey = ''k1'', ReqBody = Stream ''{}'' False\<rparr>"

definition example_config :: IdempotencyConfig where
  "example_config = \<lparr>TTL = 24 * 3600 * second, MaxBodyBytes = 1024, MaxResponseBytes = 1024, Methods = [''POST''], Required = False,
     Principal = Some (\<lambda>_. ''u''), Tenant = None, Scope = None, FailOpen = False, MaxStoreEntries = 0, MaxStoreEntryBytes = 0\<rparr>"

definition example_conn :: connection where
  "example_conn = \<lparr>connHeader = [(''X-Request-Id'', [''7''])], sentStatus = None, sentBody = [], sentInfo = []\<rparr>"

definition example_actions :: "handler_action list" where
  "example_actions = [SetHeader ''Location'' [''/orders/1''], SetHeader ''Set-Cookie'' [''s=1''], WriteHeader 103, WriteHeader 201, Write ''ok'']"

definition example_response :: IdempotentResponse where
  "example_response = \<lparr>Status = 201, Header = [(''Location'', [''/orders/1''])], Body = ''ok''\<rparr>"

definition example_fp :: string where
  "example_fp = requestFingerprint example_request ''{}'' ''u''"

lemma example_store: "idem_default_store example_config = Some fresh_store"
  by (simp add: idem_default_store_def example_config_def NewMemoryIdempotencyStore_def fresh_store_def second_def)

lemma example_run:
  "case fold recorder_step example_actions (new_recorder example_config example_conn, example_conn) of (r, d) \<Rightarrow>
     recorded r d = Some example_response \<and> sent_status d = 201 \<and> sentBody d = ''ok''"
  by code_simp

theorem idem_replay_faithful_witness:
  "sent_status (writeReplay example_conn example_response) = 201 \<and> sentBody (writeReplay example_conn example_response) = ''ok''
   \<and> map_of (Header example_response) ''Set-Cookie'' = None"
proof -
  obtain r d where rd: "fold recorder_step example_actions (new_recorder example_config example_conn, example_conn) = (r, d)"
    by (cases "fold recorder_step example_actions (new_recorder example_config example_conn, example_conn)")
  have ex: "recorded r d = Some example_response" "sent_status d = 201" "sentBody d = ''ok''" using example_run unfolding rd by simp_all
  have c: "sentStatus example_conn = None" "sentBody example_conn = []" "distinct (map fst (connHeader example_conn))"
    by (simp_all add: example_conn_def)
  have "CanonicalHeaderKey ''Set-Cookie'' \<in> set headersStrippedFromReplay" by code_simp
  with idem_replay_faithful [OF c c(1,2) rd ex(1), of "''Set-Cookie''"] ex show ?thesis by simp
qed

lemma example_started:
  "Idempotency_start idem_Begin example_config 0 example_request fresh_store =
     (Claimed (request_key example_config example_request) example_fp (Stream ''{}'' False),
      fresh_store\<lparr>entries := [(request_key example_config example_request,
        \<lparr>fingerprint = example_fp, resp = None, expires = 30 * second, lastAccess = 0\<rparr>)]\<rparr>)"
proof -
  have b: "readBodyLimit (ReqBody example_request) (MaxBodyBytes example_config) = Some (''{}'', False)" by code_simp
  have k: "printableASCII (IdempotencyKey example_request)" "length (IdempotencyKey example_request) \<le> 255" by code_simp+
  have s: "opt_apply (Principal example_config) example_request = ''u''" by (simp add: opt_apply_def example_config_def)
  have "Idempotency_start idem_Begin example_config 0 example_request fresh_store = idem_claim idem_Begin example_config 0 example_request ''{}'' fresh_store"
    using b k unfolding Idempotency_start_def Let_def by (simp add: example_config_def example_request_def)
  then show ?thesis unfolding idem_claim_def s Let_def example_fp_def [symmetric]
    by (simp add: idem_Begin_def fresh_store_def defaultMaxIdemEntries_def)
qed

theorem idem_at_most_once_witness:
  "fst (idem_claim idem_Begin example_config (60 * second) example_request ''{}''
     (snd (idem_Finish second (request_key example_config example_request) example_fp (Some example_response)
       (snd (Idempotency_start idem_Begin example_config 0 example_request fresh_store))))) = Replay example_response"
proof -
  let ?k = "request_key example_config example_request"
  let ?reach = "idem_reach idem_Begin idem_Finish idem_full (\<lambda>x. responseBytes x \<le> maxEntryBytes fresh_store) (inFlightTTL fresh_store)
    example_config fresh_store"
  obtain r d where rd: "fold recorder_step example_actions (new_recorder example_config example_conn, example_conn) = (r, d)"
    by (cases "fold recorder_step example_actions (new_recorder example_config example_conn, example_conn)")
  have rec: "recorded r d = Some example_response" using example_run unfolding rd by simp
  define s1 where "s1 = snd (Idempotency_start idem_Begin example_config 0 example_request fresh_store)"
  have i: "?reach 0 \<lparr>sysStore = fresh_store, sysRunning = [], sysKept = []\<rparr>" by (rule idem_reach.init)
  have a: "?reach 0 \<lparr>sysStore = s1, sysRunning = [(?k, example_fp, 0)], sysKept = []\<rparr>"
  proof -
    have "in_lease (inFlightTTL fresh_store) 0 (sysRunning \<lparr>sysStore = fresh_store, sysRunning = [], sysKept = []\<rparr>)"
      by (simp add: in_lease_def)
    moreover have "\<not> idem_full fresh_store" by (simp add: idem_full_def fresh_store_def defaultMaxIdemEntries_def)
    ultimately show ?thesis
      using idem_reach.arrive [OF i order_refl] example_started unfolding s1_def by (force simp: add_claim_def)
  qed
  have "?reach second \<lparr>sysStore = snd (idem_Finish second ?k example_fp (Some example_response) s1), sysRunning = [],
      sysKept = [(?k, example_fp, example_response, second)]\<rparr>"
    using idem_reach.depart [OF a, of second ?k example_fp 0 False "(r, d)"]
    by (simp add: rec in_lease_def Idempotency_end_def add_kept_def fresh_store_def example_response_def responseBytes_def
        defaultMaxIdemEntryBytes_def second_def)
  from idem_at_most_once [OF example_store _ this, of "60 * second" example_request "''{}''"]
  show ?thesis unfolding s1_def
    by (simp add: example_config_def [of] opt_apply_def example_fp_def fresh_store_def second_def maxInt64_def)
qed

lemma idem_body_unchanged_witness:
  "case fst (Idempotency_start idem_Begin example_config 0 example_request fresh_store) of
     Claimed _ _ b \<Rightarrow> body_bytes b = (''{}'', False) | _ \<Rightarrow> False"
proof -
  have "int (length (fst (body_bytes (ReqBody example_request)))) < maxInt64" by (simp add: example_request_def body_bytes_def maxInt64_def)
  from idem_body_unchanged [OF this, of idem_Begin example_config 0 fresh_store] show ?thesis
    unfolding example_started by (simp add: example_request_def body_bytes_def)
qed

lemma idem_fingerprint_sound_witness:
  "(''u'', Method example_request, EscapedPath example_request, RawQuery example_request, ContentType example_request, ''{}'')
    = (''u'', Method example_request, EscapedPath example_request, RawQuery example_request, ContentType example_request, ''{}'')
   \<or> fp_stream example_request ''{}'' ''u'' \<noteq> fp_stream example_request ''{}'' ''u''
     \<and> sha256 (fp_stream example_request ''{}'' ''u'') = sha256 (fp_stream example_request ''{}'' ''u'')"
  by (rule idem_fingerprint_sound) (simp_all add: example_request_def)

end
