(* ===== verification/StreamSeats.thy ===== *)
theory StreamSeats
  imports GoPrelude
begin

text \<open>
  Seats of long-lived streams: the shared admission rule of \<^verbatim>\<open>core/stream/seats.go\<close> and two of its clients, the
  control plane's table (\<^verbatim>\<open>framework/experimental/harness/control/seats.go\<close>) and the event streams' registry
  (\<^verbatim>\<open>framework/crud/eventstream_seats.go\<close>).

  A seat is made with a channel of its own, so a pointer to a seat is identified by the seat's
  unchanging fields. Channels are numbered in the order they are made; closing a closed one panics. The Go
  map of FIFOs is an association list with distinct keys; what a mutex guards is one step.
\<close>

section \<open>Admission\<close>

definition defaultSeatsPerPrincipal :: int where "defaultSeatsPerPrincipal = 16"

datatype SeatOverflowPolicy = SeatOverflowRefuse | SeatOverflowEvictOldest

definition seatsFor :: "int \<Rightarrow> int" where
  "seatsFor n = (if n = 0 then defaultSeatsPerPrincipal else n)"

type_synonym 's seat_order = "(string \<times> 's list) list"

definition fifo :: "'s seat_order \<Rightarrow> string \<Rightarrow> 's list" where
  "fifo order key = (case map_of order key of None \<Rightarrow> [] | Some q \<Rightarrow> q)"

definition SpliceSeat :: "'s seat_order \<Rightarrow> string \<Rightarrow> 's \<Rightarrow> 's seat_order" where
  "SpliceSeat order key v =
     (let q = fifo order key;
          order' = (if v \<in> set q then AList.update key (remove1 v q) order else order)
      in if length (fifo order' key) = 0 then AList.delete key order' else order')"

record chans =
  nextChan :: nat
  closedChans :: "nat list"

definition close_chan :: "nat \<Rightarrow> chans \<Rightarrow> chans option" where
  "close_chan c ch = (if c \<in> set (closedChans ch) then None else Some (ch\<lparr>closedChans := c # closedChans ch\<rparr>))"

text \<open>The outcome of an admission: the seat, a refusal, or the panic of a second close.\<close>

datatype 's admitted = Seated 's | Refused | SeatPanic

definition take_seat ::
  "(string \<Rightarrow> nat \<Rightarrow> 's) \<Rightarrow> 's seat_order \<Rightarrow> string \<Rightarrow> chans \<Rightarrow> 's admitted \<times> 's seat_order \<times> chans" where
  "take_seat newSeat order prin ch =
     (let seat = newSeat prin (nextChan ch)
      in (Seated seat, AList.update prin (fifo order prin @ [seat]) order, ch\<lparr>nextChan := nextChan ch + 1\<rparr>))"

definition AdmitSeat ::
  "('s \<Rightarrow> nat) \<Rightarrow> (string \<Rightarrow> nat \<Rightarrow> 's) \<Rightarrow> 's seat_order \<Rightarrow> string \<Rightarrow> int \<Rightarrow> SeatOverflowPolicy \<Rightarrow> chans
   \<Rightarrow> 's admitted \<times> 's seat_order \<times> chans" where
  "AdmitSeat SeatDone newSeat order prin n overflow ch =
     (let seats = seatsFor n in
      if seats > 0 \<and> int (length (fifo order prin)) \<ge> seats then
        (if overflow \<noteq> SeatOverflowEvictOldest \<or> length (fifo order prin) = 0 then (Refused, order, ch)
         else let oldest = hd (fifo order prin);
                  order' = SpliceSeat order prin oldest
              in case close_chan (SeatDone oldest) ch of
                   None \<Rightarrow> (SeatPanic, order', ch)
                 | Some ch' \<Rightarrow> take_seat newSeat order' prin ch')
      else take_seat newSeat order prin ch)"

section \<open>The control plane's table\<close>

record Seat =
  seatPrincipal :: string
  Done :: nat

record SeatTable =
  tOrder :: "Seat seat_order"
  tChans :: chans

definition DefaultStreamSeats :: int where "DefaultStreamSeats = 16"

definition control_seatsFor :: "int \<Rightarrow> int" where
  "control_seatsFor n = (if n = 0 then DefaultStreamSeats else n)"

definition NewSeatTable :: SeatTable where
  "NewSeatTable = \<lparr>tOrder = [], tChans = \<lparr>nextChan = 0, closedChans = []\<rparr>\<rparr>"

definition newSeat :: "string \<Rightarrow> nat \<Rightarrow> Seat" where
  "newSeat p c = \<lparr>seatPrincipal = p, Done = c\<rparr>"

definition AcquireSeat :: "string \<Rightarrow> int \<Rightarrow> SeatOverflowPolicy \<Rightarrow> SeatTable \<Rightarrow> Seat admitted \<times> SeatTable" where
  "AcquireSeat prin mx overflow t =
     (case AdmitSeat Done newSeat (tOrder t) prin (control_seatsFor mx) overflow (tChans t) of
        (r, order, ch) \<Rightarrow> (r, \<lparr>tOrder = order, tChans = ch\<rparr>))"

definition ReleaseSeat :: "Seat \<Rightarrow> SeatTable \<Rightarrow> SeatTable" where
  "ReleaseSeat seat t = t\<lparr>tOrder := SpliceSeat (tOrder t) (seatPrincipal seat) seat\<rparr>"

section \<open>The event streams' registry\<close>

text \<open>\<open>ssCut\<close> says whether the seat has an interrupt. The mutable part of a seat, \<^verbatim>\<open>returned\<close>, is kept with the
  registry by the number of the seat's channel; \<open>rLog\<close> is what the seats did, oldest first: an interrupt
  that ran, and a handler that retired its interrupt.\<close>

record streamSeat =
  ssPrincipal :: string
  ssDone :: nat
  ssCut :: bool

datatype seat_event = CutWrite nat | Retired nat

record streamSeatRegistry =
  rOrder :: "streamSeat seat_order"
  rChans :: chans
  rReturned :: "nat list"
  rLog :: "seat_event list"

definition defaultEventStreamSeats :: int where "defaultEventStreamSeats = 16"

definition eventStreamSeatsFor :: "int \<Rightarrow> int" where
  "eventStreamSeatsFor n = (if n = 0 then defaultEventStreamSeats else n)"

definition newStreamSeatRegistry :: streamSeatRegistry where
  "newStreamSeatRegistry = \<lparr>rOrder = [], rChans = \<lparr>nextChan = 0, closedChans = []\<rparr>, rReturned = [], rLog = []\<rparr>"

definition newStreamSeat :: "bool \<Rightarrow> string \<Rightarrow> nat \<Rightarrow> streamSeat" where
  "newStreamSeat hasCut p c = \<lparr>ssPrincipal = p, ssDone = c, ssCut = hasCut\<rparr>"

definition interruptWrite :: "streamSeat \<Rightarrow> streamSeatRegistry \<Rightarrow> streamSeatRegistry" where
  "interruptWrite seat r =
     (if ssDone seat \<notin> set (rReturned r) \<and> ssCut seat then r\<lparr>rLog := rLog r @ [CutWrite (ssDone seat)]\<rparr> else r)"

definition markReturned :: "streamSeat \<Rightarrow> streamSeatRegistry \<Rightarrow> streamSeatRegistry" where
  "markReturned seat r = r\<lparr>rReturned := ssDone seat # rReturned r, rLog := rLog r @ [Retired (ssDone seat)]\<rparr>"

text \<open>\<^verbatim>\<open>admit\<close> under the lock, with the head of the FIFO it saw, and what it does after the unlock.\<close>

definition admit_locked ::
  "string \<Rightarrow> int \<Rightarrow> SeatOverflowPolicy \<Rightarrow> bool \<Rightarrow> streamSeatRegistry \<Rightarrow> streamSeat admitted \<times> streamSeat option \<times> streamSeatRegistry" where
  "admit_locked prin cap overflow hasCut r =
     (let q = fifo (rOrder r) prin; oldest = (if q = [] then None else Some (hd q))
      in case AdmitSeat ssDone (newStreamSeat hasCut) (rOrder r) prin (eventStreamSeatsFor cap) overflow (rChans r) of
           (res, order, ch) \<Rightarrow> (res, oldest, r\<lparr>rOrder := order, rChans := ch\<rparr>))"

definition admit_unlocked :: "streamSeat option \<Rightarrow> streamSeatRegistry \<Rightarrow> streamSeatRegistry" where
  "admit_unlocked oldest r =
     (case oldest of
        Some s \<Rightarrow> if ssDone s \<in> set (closedChans (rChans r)) then interruptWrite s r else r
      | None \<Rightarrow> r)"

definition release_locked :: "streamSeat \<Rightarrow> streamSeatRegistry \<Rightarrow> streamSeatRegistry" where
  "release_locked seat r = r\<lparr>rOrder := SpliceSeat (rOrder r) (ssPrincipal seat) seat\<rparr>"

definition release_seat :: "streamSeat \<Rightarrow> streamSeatRegistry \<Rightarrow> streamSeatRegistry" where
  "release_seat seat r = release_locked seat (markReturned seat r)"

definition liveSeats :: "streamSeatRegistry \<Rightarrow> nat" where
  "liveSeats r = sum_list (map (\<lambda>(_, q). length q) (rOrder r))"

text \<open>\<^verbatim>\<open>streamSeatPrincipal\<close>: the owner as printed, the user (by its \<^verbatim>\<open>GetID\<close> or as printed), the tenant.\<close>

datatype seat_user = UserWithID string | UserPrinted string

definition streamSeatPrincipal :: "string option \<Rightarrow> seat_user option \<Rightarrow> string \<Rightarrow> string" where
  "streamSeatPrincipal ownerID user tenant =
     (case ownerID of
        Some o' \<Rightarrow> ''owner:'' @ o'
      | None \<Rightarrow>
          (case user of
             Some (UserWithID i) \<Rightarrow> ''user:'' @ i
           | Some (UserPrinted p) \<Rightarrow> ''user:'' @ p
           | None \<Rightarrow> if tenant \<noteq> [] then ''tenant:'' @ tenant else []))"

section \<open>The FIFO of a principal\<close>

lemma fifo_update [simp]: "fifo (AList.update k q order) k' = (if k' = k then q else fifo order k')"
  by (simp add: fifo_def update_conv')

lemma fifo_delete [simp]: "fifo (AList.delete k order) k' = (if k' = k then [] else fifo order k')"
  by (simp add: fifo_def delete_conv')

lemma fifo_SpliceSeat [simp]: "fifo (SpliceSeat order k v) k' = (if k' = k then remove1 v (fifo order k) else fifo order k')"
  by (auto simp: SpliceSeat_def Let_def remove1_idem)

lemma distinct_SpliceSeat: "distinct (map fst order) \<Longrightarrow> distinct (map fst (SpliceSeat order k v))"
  by (auto simp: SpliceSeat_def Let_def distinct_update distinct_delete)

lemma stored_SpliceSeat:
  "distinct (map fst order) \<Longrightarrow> map_of order k' \<noteq> Some [] \<Longrightarrow> map_of (SpliceSeat order k v) k' \<noteq> Some []"
  by (auto simp: SpliceSeat_def Let_def update_conv' delete_conv' fifo_def simp del: map_of_eq_Some_iff split: option.splits if_splits)

text \<open>No FIFO is stored empty, every FIFO is within the cap, every seat has a channel of its own, and that
  channel is open.\<close>

definition seats_inv :: "('s \<Rightarrow> nat) \<Rightarrow> int \<Rightarrow> 's seat_order \<Rightarrow> chans \<Rightarrow> bool" where
  "seats_inv SeatDone n order ch \<longleftrightarrow>
     distinct (map fst order)
     \<and> (\<forall>k. map_of order k \<noteq> Some [])
     \<and> (\<forall>k. distinct (map SeatDone (fifo order k)) \<and> (seatsFor n > 0 \<longrightarrow> int (length (fifo order k)) \<le> seatsFor n)
          \<and> (\<forall>v\<in>set (fifo order k). SeatDone v < nextChan ch \<and> SeatDone v \<notin> set (closedChans ch)))
     \<and> (\<forall>k k'. \<forall>v\<in>set (fifo order k). \<forall>v'\<in>set (fifo order k'). SeatDone v = SeatDone v' \<longrightarrow> k = k')
     \<and> (\<forall>c\<in>set (closedChans ch). c < nextChan ch)"

lemma seats_invD:
  assumes "seats_inv SeatDone n order ch"
  shows "distinct (map fst order)" "map_of order k \<noteq> Some []" "distinct (map SeatDone (fifo order k))"
    "seatsFor n > 0 \<Longrightarrow> int (length (fifo order k)) \<le> seatsFor n"
    "v \<in> set (fifo order k) \<Longrightarrow> SeatDone v < nextChan ch" "v \<in> set (fifo order k) \<Longrightarrow> SeatDone v \<notin> set (closedChans ch)"
    "v \<in> set (fifo order k) \<Longrightarrow> v' \<in> set (fifo order k') \<Longrightarrow> SeatDone v = SeatDone v' \<Longrightarrow> k = k'"
    "c \<in> set (closedChans ch) \<Longrightarrow> c < nextChan ch"
  using assms unfolding seats_inv_def by (blast+)

lemma seats_invI:
  assumes "distinct (map fst order)" "\<And>k. map_of order k \<noteq> Some []" "\<And>k. distinct (map SeatDone (fifo order k))"
    "\<And>k. seatsFor n > 0 \<Longrightarrow> int (length (fifo order k)) \<le> seatsFor n"
    "\<And>k v. v \<in> set (fifo order k) \<Longrightarrow> SeatDone v < nextChan ch" "\<And>k v. v \<in> set (fifo order k) \<Longrightarrow> SeatDone v \<notin> set (closedChans ch)"
    "\<And>k k' v v'. v \<in> set (fifo order k) \<Longrightarrow> v' \<in> set (fifo order k') \<Longrightarrow> SeatDone v = SeatDone v' \<Longrightarrow> k = k'"
    "\<And>c. c \<in> set (closedChans ch) \<Longrightarrow> c < nextChan ch"
  shows "seats_inv SeatDone n order ch"
  using assms unfolding seats_inv_def by blast

lemma seats_inv_close:
  assumes "seats_inv SeatDone n order ch" "c < nextChan ch" "\<And>k v. v \<in> set (fifo order k) \<Longrightarrow> SeatDone v \<noteq> c"
  shows "seats_inv SeatDone n order (ch\<lparr>closedChans := c # closedChans ch\<rparr>)"
  using seats_invD [OF assms(1)] assms(2,3) by (intro seats_invI) auto

lemma seats_inv_splice:
  assumes "seats_inv SeatDone n order ch"
  shows "seats_inv SeatDone n (SpliceSeat order k v) ch"
proof (rule seats_invI)
  note D = seats_invD [OF assms]
  have sub: "set (fifo (SpliceSeat order k v) k') \<subseteq> set (fifo order k')" for k'
    by (simp add: set_remove1_subset)
  show "distinct (map fst (SpliceSeat order k v))" using D(1) by (rule distinct_SpliceSeat)
  show "map_of (SpliceSeat order k v) k' \<noteq> Some []" for k' by (rule stored_SpliceSeat [OF D(1,2)])
  have "distinct (map SeatDone (remove1 v q))" if "distinct (map SeatDone q)" for q
    using that by (auto simp: distinct_map inj_on_def dest: notin_set_remove1)
  then show "distinct (map SeatDone (fifo (SpliceSeat order k v) k'))" for k' using D(3) by simp
  show "int (length (fifo (SpliceSeat order k v) k')) \<le> seatsFor n" if "seatsFor n > 0" for k'
    using D(4) [OF that, of k'] D(4) [OF that, of k] by (auto simp: length_remove1)
  show "SeatDone v' < nextChan ch" if "v' \<in> set (fifo (SpliceSeat order k v) k')" for k' v' using that sub D(5) by blast
  show "SeatDone v' \<notin> set (closedChans ch)" if "v' \<in> set (fifo (SpliceSeat order k v) k')" for k' v' using that sub D(6) by blast
  show "k1 = k2" if "v1 \<in> set (fifo (SpliceSeat order k v) k1)" "v2 \<in> set (fifo (SpliceSeat order k v) k2)" "SeatDone v1 = SeatDone v2" for k1 k2 v1 v2
    using that sub D(7) by blast
  show "c < nextChan ch" if "c \<in> set (closedChans ch)" for c using D(8) [OF that] .
qed

section \<open>The contract of a seat type\<close>

text \<open>What \<^verbatim>\<open>SeatMember\<close> asks of a seat: \<^verbatim>\<open>SeatDone\<close> gives the channel the seat was made with.\<close>

locale seat_member =
  fixes SeatDone :: "'s \<Rightarrow> nat" and new_seat :: "string \<Rightarrow> nat \<Rightarrow> 's"
  assumes done_new: "SeatDone (new_seat p c) = c"
begin

lemma take_seat_inv:
  assumes "seats_inv SeatDone n order ch" "seatsFor n > 0 \<Longrightarrow> int (length (fifo order p)) < seatsFor n"
  shows "case take_seat new_seat order p ch of (r, order', ch') \<Rightarrow> seats_inv SeatDone n order' ch'"
proof -
  let ?s = "new_seat p (nextChan ch)"
  let ?o = "AList.update p (fifo order p @ [?s]) order" and ?c = "ch\<lparr>nextChan := nextChan ch + 1\<rparr>"
  note D = seats_invD [OF assms(1)]
  have new: "SeatDone v \<noteq> nextChan ch" if "v \<in> set (fifo order k)" for k v using D(5) [OF that] by simp
  have fresh: "nextChan ch \<notin> SeatDone ` set (fifo order k)" for k using new by (metis imageE)
  have "seats_inv SeatDone n ?o ?c"
  proof (rule seats_invI)
    show "distinct (map fst ?o)" using D(1) by (rule distinct_update)
    show "map_of ?o k \<noteq> Some []" for k using D(2) [of k] by (simp add: update_conv' del: map_of_eq_Some_iff)
    show "distinct (map SeatDone (fifo ?o k))" for k using D(3) [of k] D(3) [of p] fresh [of p] by (simp add: done_new)
    show "int (length (fifo ?o k)) \<le> seatsFor n" if "seatsFor n > 0" for k
      using assms(2) [OF that] D(4) [OF that, of k] by simp
    show "SeatDone v < nextChan ?c" if "v \<in> set (fifo ?o k)" for v k
      using that D(5) [of v] by (force simp: done_new split: if_splits)
    show "SeatDone v \<notin> set (closedChans ?c)" if "v \<in> set (fifo ?o k)" for v k
      using that D(6) [of v] D(8) by (force simp: done_new split: if_splits)
    show "k = k'" if "v \<in> set (fifo ?o k)" "v' \<in> set (fifo ?o k')" "SeatDone v = SeatDone v'" for k k' v v'
      using that new [of v k'] new [of v' k'] new [of v k] new [of v p] new [of v' p] D(7) [of v k v' k'] D(7) [of v p v' k'] D(7) [of v k v' p]
      by (auto simp: done_new split: if_splits)
    show "c < nextChan ?c" if "c \<in> set (closedChans ?c)" for c using that D(8) by force
  qed
  then show ?thesis by (simp add: take_seat_def Let_def)
qed

text \<open>The admission rule: refuse at the cap, or give up the oldest seat, whose channel is closed, for the new
  one at the end of the FIFO. The close never panics, and other principals keep their seats.\<close>

lemma admit_spec:
  fixes p
  assumes "seats_inv SeatDone n order ch"
  defines "q \<equiv> fifo order p" and "atcap \<equiv> seatsFor n > 0 \<and> int (length (fifo order p)) \<ge> seatsFor n"
  shows "case AdmitSeat SeatDone new_seat order p n ov ch of (r, order', ch') \<Rightarrow>
      seats_inv SeatDone n order' ch'
    \<and> (if atcap \<and> ov = SeatOverflowRefuse then (r, order', ch') = (Refused, order, ch)
       else r = Seated (new_seat p (nextChan ch)) \<and> fifo order' p = (if atcap then tl q else q) @ [new_seat p (nextChan ch)]
         \<and> closedChans ch' = (if atcap then SeatDone (hd q) # closedChans ch else closedChans ch)
         \<and> (\<forall>k. k = p \<or> fifo order' k = fifo order k))"
proof (cases atcap)
  case False
  then have "AdmitSeat SeatDone new_seat order p n ov ch = take_seat new_seat order p ch"
    by (auto simp: AdmitSeat_def Let_def atcap_def)
  moreover have "seatsFor n > 0 \<Longrightarrow> int (length (fifo order p)) < seatsFor n" using False by (auto simp: atcap_def)
  ultimately show ?thesis using False take_seat_inv [OF assms(1), of p] by (simp add: take_seat_def Let_def q_def)
next
  case True
  then have ne: "q \<noteq> []" by (auto simp: atcap_def q_def)
  show ?thesis
  proof (cases "ov = SeatOverflowRefuse")
    case R: True
    then show ?thesis using True assms(1) by (simp add: AdmitSeat_def Let_def atcap_def)
  next
    case False
    then have ev: "ov = SeatOverflowEvictOldest" using SeatOverflowPolicy.exhaust by blast
    let ?o = "SpliceSeat order p (hd q)" and ?c = "ch\<lparr>closedChans := SeatDone (hd q) # closedChans ch\<rparr>"
    have mem: "hd q \<in> set (fifo order p)" using ne by (simp add: q_def)
    have open_: "SeatDone (hd q) \<notin> set (closedChans ch)" "SeatDone (hd q) < nextChan ch"
      using seats_invD(5,6) [OF assms(1) mem] by simp_all
    have rem: "remove1 (hd q) q = tl q" using ne by (cases q) simp_all
    have gone: "SeatDone v \<noteq> SeatDone (hd q)" if "v \<in> set (fifo ?o k)" for k v
    proof (cases "k = p")
      case True
      then have "v \<in> set (tl q)" using that rem by (simp add: q_def)
      moreover have "distinct (map SeatDone q)" unfolding q_def by (rule seats_invD(3) [OF assms(1)])
      ultimately show ?thesis using ne by (cases q) (auto simp: rev_image_eqI)
    next
      case False
      then show ?thesis using that seats_invD(7) [OF assms(1) _ mem] by auto
    qed
    have "seats_inv SeatDone n ?o ch" by (rule seats_inv_splice [OF assms(1)])
    then have inv: "seats_inv SeatDone n ?o ?c" using open_(2) gone by (rule seats_inv_close)
    have "int (length (fifo order p)) \<le> seatsFor n" if "seatsFor n > 0" using assms(1) that by (simp add: seats_inv_def)
    then have room: "seatsFor n > 0 \<Longrightarrow> int (length (fifo ?o p)) < seatsFor n"
      using ne mem by (simp add: length_remove1 q_def [symmetric])
    have "AdmitSeat SeatDone new_seat order p n ov ch = take_seat new_seat ?o p ?c"
      using True ne ev open_(1) by (simp add: AdmitSeat_def Let_def atcap_def q_def close_chan_def)
    then show ?thesis using take_seat_inv [OF inv room] True ev rem by (simp add: take_seat_def Let_def q_def)
  qed
qed

end

interpretation ctl: seat_member Done newSeat
  by unfold_locales (simp add: newSeat_def)

interpretation crud: seat_member ssDone "newStreamSeat hasCut" for hasCut
  by unfold_locales (simp add: newStreamSeat_def)

section \<open>The control plane's table keeps the contract\<close>

inductive table_reach :: "int \<Rightarrow> SeatOverflowPolicy \<Rightarrow> SeatTable \<Rightarrow> bool" for n ov where
  new: "table_reach n ov NewSeatTable"
| acquire: "table_reach n ov t \<Longrightarrow> AcquireSeat p n ov t = (r, t') \<Longrightarrow> table_reach n ov t'"
| release: "table_reach n ov t \<Longrightarrow> table_reach n ov (ReleaseSeat s t)"

lemma seatsFor_control [simp]: "seatsFor (control_seatsFor n) = control_seatsFor n"
  by (simp add: seatsFor_def control_seatsFor_def DefaultStreamSeats_def)

lemma seatsFor_event [simp]: "seatsFor (eventStreamSeatsFor n) = eventStreamSeatsFor n"
  by (simp add: seatsFor_def eventStreamSeatsFor_def defaultEventStreamSeats_def)

lemma table_inv: "table_reach n ov t \<Longrightarrow> seats_inv Done (control_seatsFor n) (tOrder t) (tChans t)"
proof (induction rule: table_reach.induct)
  case new
  show ?case by (rule seats_invI) (simp_all add: NewSeatTable_def fifo_def)
next
  case (acquire t p r t')
  with ctl.admit_spec [OF acquire.IH, of p ov] show ?case by (auto simp: AcquireSeat_def split: prod.splits)
next
  case (release t s)
  then show ?case by (simp add: ReleaseSeat_def seats_inv_splice)
qed

text \<open>C35. Seats of the control plane. Whatever was acquired and released before, an acquisition below the cap
  appends a seat with an open channel to its principal's FIFO; at the cap it is refused and changes nothing,
  or under the evicting policy closes the oldest seat's channel, never one already closed, and gives its
  place up. No principal exceeds the cap or loses a seat to another. A release frees the one seat, a second
  one of it changes nothing, and neither closes a channel.\<close>

theorem seats_fifo_cap:
  assumes "table_reach n ov t"
  shows "(case AcquireSeat p n ov t of (r, t') \<Rightarrow>
      let q = fifo (tOrder t) p; cap = control_seatsFor n; atcap = cap > 0 \<and> int (length q) \<ge> cap in
      (if atcap \<and> ov = SeatOverflowRefuse then r = Refused \<and> t' = t
       else r = Seated \<lparr>seatPrincipal = p, Done = nextChan (tChans t)\<rparr>
         \<and> fifo (tOrder t') p = (if atcap then tl q else q) @ [\<lparr>seatPrincipal = p, Done = nextChan (tChans t)\<rparr>]
         \<and> closedChans (tChans t') = (if atcap then Done (hd q) # closedChans (tChans t) else closedChans (tChans t))
         \<and> (k = p \<or> fifo (tOrder t') k = fifo (tOrder t) k))
      \<and> (cap \<le> 0 \<or> int (length (fifo (tOrder t') k)) \<le> cap)
      \<and> distinct (map Done (fifo (tOrder t') k))
      \<and> list_all (\<lambda>s. Done s \<notin> set (closedChans (tChans t'))) (fifo (tOrder t') k))
    \<and> fifo (tOrder (ReleaseSeat s t)) k = (if k = seatPrincipal s then remove1 s (fifo (tOrder t) k) else fifo (tOrder t) k)
    \<and> fifo (tOrder (ReleaseSeat s (ReleaseSeat s t))) k = fifo (tOrder (ReleaseSeat s t)) k
    \<and> tChans (ReleaseSeat s t) = tChans t"
proof -
  obtain r t' where A: "AcquireSeat p n ov t = (r, t')" by (cases "AcquireSeat p n ov t")
  have inv: "seats_inv Done (control_seatsFor n) (tOrder t) (tChans t)" by (rule table_inv [OF assms])
  have inv': "seats_inv Done (control_seatsFor n) (tOrder t') (tChans t')" using table_inv table_reach.acquire [OF assms A] by blast
  note D = seats_invD [OF inv']
  have "distinct (fifo (tOrder t) k)" using seats_invD(3) [OF inv] by (simp add: distinct_map)
  then have "fifo (tOrder (ReleaseSeat s (ReleaseSeat s t))) k = fifo (tOrder (ReleaseSeat s t)) k"
    by (auto simp: ReleaseSeat_def remove1_idem)
  moreover have "list_all (\<lambda>s. Done s \<notin> set (closedChans (tChans t'))) (fifo (tOrder t') k)" using D(6) by (simp add: list_all_iff)
  moreover have "control_seatsFor n \<le> 0 \<or> int (length (fifo (tOrder t') k)) \<le> control_seatsFor n" using D(4) [of k] by (cases "control_seatsFor n > 0") auto
  ultimately show ?thesis using A D(3) [of k] ctl.admit_spec [OF inv, of p ov]
    by (auto simp: AcquireSeat_def newSeat_def Let_def ReleaseSeat_def split: prod.splits if_splits)
qed

section \<open>Eviction of event streams\<close>

text \<open>Admissions, the checks after their unlock (the heads they saw, still to be checked), handlers that
  return, and the removal of their seats, in any order.\<close>

inductive crud_reach :: "int \<Rightarrow> SeatOverflowPolicy \<Rightarrow> streamSeatRegistry \<Rightarrow> streamSeat list \<Rightarrow> bool" for n ov where
  new: "crud_reach n ov newStreamSeatRegistry []"
| admit: "crud_reach n ov r pend \<Longrightarrow> admit_locked p n ov hasCut r = (res, oldest, r')
    \<Longrightarrow> crud_reach n ov r' (case oldest of None \<Rightarrow> pend | Some s \<Rightarrow> s # pend)"
| check: "crud_reach n ov r pend \<Longrightarrow> s \<in> set pend \<Longrightarrow> crud_reach n ov (admit_unlocked (Some s) r) (remove1 s pend)"
| retire: "crud_reach n ov r pend \<Longrightarrow> crud_reach n ov (markReturned s r) pend"
| free: "crud_reach n ov r pend \<Longrightarrow> crud_reach n ov (release_locked s r) pend"

fun no_late_cut :: "seat_event list \<Rightarrow> bool" where
  "no_late_cut [] = True"
| "no_late_cut (CutWrite c # es) = no_late_cut es"
| "no_late_cut (Retired c # es) = (CutWrite c \<notin> set es \<and> no_late_cut es)"

lemma no_late_cut_append:
  "no_late_cut (es @ [CutWrite c]) = (no_late_cut es \<and> Retired c \<notin> set es)"
  "no_late_cut (es @ [Retired c]) = no_late_cut es"
  by (induction es rule: no_late_cut.induct) auto

definition crud_inv :: "int \<Rightarrow> streamSeatRegistry \<Rightarrow> bool" where
  "crud_inv n r \<longleftrightarrow> seats_inv ssDone (eventStreamSeatsFor n) (rOrder r) (rChans r)
     \<and> (\<forall>c. Retired c \<in> set (rLog r) \<longrightarrow> c \<in> set (rReturned r))
     \<and> (\<forall>c. CutWrite c \<in> set (rLog r) \<longrightarrow> c \<in> set (closedChans (rChans r)))
     \<and> no_late_cut (rLog r)"

lemma crud_inv_reach: "crud_reach n ov r pend \<Longrightarrow> crud_inv n r"
proof (induction rule: crud_reach.induct)
  case new
  have "seats_inv ssDone (eventStreamSeatsFor n) [] \<lparr>nextChan = 0, closedChans = []\<rparr>" by (rule seats_invI) (simp_all add: fifo_def)
  then show ?case by (simp add: crud_inv_def newStreamSeatRegistry_def)
next
  case (admit r pend p hasCut res oldest r')
  have inv: "seats_inv ssDone (eventStreamSeatsFor n) (rOrder r) (rChans r)" using admit.IH by (simp add: crud_inv_def)
  obtain o' ch' where a: "AdmitSeat ssDone (newStreamSeat hasCut) (rOrder r) p (eventStreamSeatsFor n) ov (rChans r) = (res, o', ch')"
      "r' = r\<lparr>rOrder := o', rChans := ch'\<rparr>"
    using admit.hyps(2) by (auto simp: admit_locked_def Let_def split: prod.splits)
  have "seats_inv ssDone (eventStreamSeatsFor n) o' ch'" "set (closedChans (rChans r)) \<subseteq> set (closedChans ch')"
    using crud.admit_spec [OF inv, where p = p and ov = ov and hasCut = hasCut] a(1) by (auto split: if_splits)
  then show ?case using admit.IH a(2) by (auto simp: crud_inv_def)
next
  case (check r pend s)
  then show ?case by (auto simp: crud_inv_def admit_unlocked_def interruptWrite_def no_late_cut_append)
next
  case (retire r pend s)
  then show ?case by (auto simp: crud_inv_def markReturned_def no_late_cut_append)
next
  case (free r pend s)
  then show ?case by (simp add: crud_inv_def release_locked_def seats_inv_splice)
qed

text \<open>C36. The interrupt of an event stream. Only a seat that an admission evicted is ever interrupted, and it is
  seated no more; no interrupt runs after its handler retired it, whatever admissions and returns are
  interleaved; and an admission that evicts the oldest seat interrupts its write in its own check unless
  the handler has returned or the seat has no interrupt.\<close>

theorem eviction_cut_safe:
  assumes "crud_reach n ov r pend"
  shows "no_late_cut (rLog r)
    \<and> list_all (\<lambda>e. case e of Retired _ \<Rightarrow> True | CutWrite c \<Rightarrow> c \<in> set (closedChans (rChans r))
        \<and> list_all (\<lambda>s. ssDone s \<noteq> c) (fifo (rOrder r) k)) (rLog r)
    \<and> (case admit_locked p n ov hasCut r of (res, oldest, r') \<Rightarrow>
         case oldest of
           None \<Rightarrow> True
         | Some s \<Rightarrow> s \<in> set (fifo (rOrder r') p) \<or> ssDone s \<in> set (rReturned r) \<or> \<not> ssCut s
             \<or> rLog (admit_unlocked oldest r') = rLog r @ [CutWrite (ssDone s)])"
proof -
  have I: "crud_inv n r" by (rule crud_inv_reach [OF assms])
  then have inv: "seats_inv ssDone (eventStreamSeatsFor n) (rOrder r) (rChans r)" by (simp add: crud_inv_def)
  obtain res oldest r' where A: "admit_locked p n ov hasCut r = (res, oldest, r')" by (cases "admit_locked p n ov hasCut r")
  obtain o' ch' where a: "AdmitSeat ssDone (newStreamSeat hasCut) (rOrder r) p (eventStreamSeatsFor n) ov (rChans r) = (res, o', ch')"
      "r' = r\<lparr>rOrder := o', rChans := ch'\<rparr>" "oldest = (if fifo (rOrder r) p = [] then None else Some (hd (fifo (rOrder r) p)))"
    using A by (auto simp: admit_locked_def Let_def split: prod.splits)
  have "s \<in> set (fifo o' p) \<or> ssDone s \<in> set (closedChans ch')" if "oldest = Some s" for s
    using crud.admit_spec [OF inv, where p = p and ov = ov and hasCut = hasCut] a(1) that unfolding a(3) by (auto split: if_splits)
  then have cut: "case oldest of None \<Rightarrow> True
      | Some s \<Rightarrow> s \<in> set (fifo (rOrder r') p) \<or> ssDone s \<in> set (rReturned r) \<or> \<not> ssCut s
             \<or> rLog (admit_unlocked oldest r') = rLog r @ [CutWrite (ssDone s)]"
    by (auto simp: a(2) admit_unlocked_def interruptWrite_def split: option.split)
  have "list_all (\<lambda>e. case e of Retired _ \<Rightarrow> True | CutWrite c \<Rightarrow> c \<in> set (closedChans (rChans r))
        \<and> list_all (\<lambda>s. ssDone s \<noteq> c) (fifo (rOrder r) k)) (rLog r)"
    using I seats_invD(6) [OF inv] by (auto simp: crud_inv_def list_all_iff split: seat_event.split)
  then show ?thesis using I cut by (simp add: A crud_inv_def)
qed

section \<open>Example seats\<close>

definition example_table :: SeatTable where
  "example_table = snd (AcquireSeat ''u'' 2 SeatOverflowEvictOldest (snd (AcquireSeat ''u'' 2 SeatOverflowEvictOldest NewSeatTable)))"

theorem seats_fifo_cap_witness:
  "map Done (fifo (tOrder (snd (AcquireSeat ''u'' 2 SeatOverflowEvictOldest example_table))) ''u'') = [1, 2]
   \<and> int (length (fifo (tOrder (snd (AcquireSeat ''u'' 2 SeatOverflowEvictOldest example_table))) ''v'')) \<le> 2"
proof -
  have "table_reach 2 SeatOverflowEvictOldest example_table"
    unfolding example_table_def by (metis surjective_pairing table_reach.acquire table_reach.new)
  from seats_fifo_cap [OF this, of "''u''" "''v''"] show ?thesis
    by (simp add: split_beta control_seatsFor_def Let_def) code_simp
qed

definition example_registry :: streamSeatRegistry where
  "example_registry = snd (snd (admit_locked ''u'' 1 SeatOverflowEvictOldest True newStreamSeatRegistry))"

theorem eviction_cut_safe_witness:
  "case admit_locked ''u'' 1 SeatOverflowEvictOldest True example_registry of (res, oldest, r') \<Rightarrow>
     oldest \<noteq> None \<and> rLog (admit_unlocked oldest r') = [CutWrite 0]"
proof -
  obtain res oldest r' where a: "admit_locked ''u'' 1 SeatOverflowEvictOldest True newStreamSeatRegistry = (res, oldest, r')"
    by (cases "admit_locked ''u'' 1 SeatOverflowEvictOldest True newStreamSeatRegistry")
  have "crud_reach 1 SeatOverflowEvictOldest example_registry (case oldest of None \<Rightarrow> [] | Some s \<Rightarrow> [s])"
    using crud_reach.admit [OF crud_reach.new a] by (simp add: example_registry_def a)
  note T = eviction_cut_safe [OF this, of "''u''" "''u''" True]
  have "case admit_locked ''u'' 1 SeatOverflowEvictOldest True example_registry of (res, oldest, r') \<Rightarrow>
     oldest = Some \<lparr>ssPrincipal = ''u'', ssDone = 0, ssCut = True\<rparr>
     \<and> \<lparr>ssPrincipal = ''u'', ssDone = 0, ssCut = True\<rparr> \<notin> set (fifo (rOrder r') ''u'')" "rReturned example_registry = []" "rLog example_registry = []"
    by code_simp+
  with T show ?thesis by (auto split: prod.splits)
qed

end
