(* ===== verification/EditDist.thy ===== *)
theory EditDist
  imports Main
begin

text \<open>
  \<^verbatim>\<open>EditDistance\<close> of \<^verbatim>\<open>framework/access/access.go\<close>: the two-row table over bytes, and the proof that its
  last entry is the least number of insertions, deletions and substitutions of one byte that turns one
  string into the other. \<open>lev\<close> is the recursion the table tabulates, \<open>edit1\<close> one edit.
\<close>

section \<open>The table\<close>

text \<open>One row of the table for the byte \<open>x\<close>, from the row above: \<open>left\<close> is the entry just computed.\<close>

fun edit_row :: "char \<Rightarrow> string \<Rightarrow> nat list \<Rightarrow> nat \<Rightarrow> nat list" where
  "edit_row x (y # ys) (diag # up # ps) left =
     left # edit_row x ys (up # ps) (min (min (left + 1) (up + 1)) (diag + (if x \<noteq> y then 1 else 0)))"
| "edit_row x _ _ left = [left]"

fun edit_rows :: "string \<Rightarrow> string \<Rightarrow> nat \<Rightarrow> nat list \<Rightarrow> nat list" where
  "edit_rows [] b i previous = previous"
| "edit_rows (x # xs) b i previous = edit_rows xs b (i + 1) (edit_row x b previous i)"

definition EditDistance :: "string \<Rightarrow> string \<Rightarrow> nat" where
  "EditDistance a0 b0 =
     (let (a, b) = (if length a0 < length b0 then (b0, a0) else (a0, b0))
      in edit_rows a b 1 [0..<length b + 1] ! length b)"

section \<open>The least number of edits\<close>

fun lev :: "'a list \<Rightarrow> 'a list \<Rightarrow> nat" where
  "lev [] ys = length ys"
| "lev xs [] = length xs"
| "lev (x # xs) (y # ys) = min (min (lev (x # xs) ys + 1) (lev xs (y # ys) + 1)) (lev xs ys + (if x \<noteq> y then 1 else 0))"

inductive edit1 :: "'a list \<Rightarrow> 'a list \<Rightarrow> bool" where
  ins: "edit1 (p @ s) (p @ c # s)"
| del: "edit1 (p @ c # s) (p @ s)"
| subst: "edit1 (p @ c # s) (p @ d # s)"

lemma lev_Nil2 [simp]: "lev xs [] = length xs" by (cases xs) auto

lemma lev_sym: "lev xs ys = lev ys xs"
  by (induction xs ys rule: lev.induct) (auto simp: min.commute min.left_commute)

lemma lev_Cons_le: "lev (x # xs) ys \<le> lev xs ys + 1"
  by (cases ys) auto

lemma lev_Cons2_le: "lev xs (y # ys) \<le> lev xs ys + 1"
  using lev_Cons_le [of y ys xs] by (simp only: lev_sym)

lemma lev_le_Cons2: "lev xs ys \<le> lev xs (y # ys) + 1"
proof (induction xs)
  case (Cons x xs)
  have "lev (x # xs) ys \<le> lev xs ys + 1" by (rule lev_Cons_le)
  then show ?case using Cons.IH unfolding lev.simps(3) by linarith
qed simp

lemma lev_under_Cons:
  assumes "\<And>xs. lev xs t' \<le> lev xs t + 1"
  shows "lev xs (c # t') \<le> lev xs (c # t) + 1"
proof (induction xs)
  case Nil
  show ?case using assms [of "[]"] by simp
next
  case (Cons x xs)
  then show ?case using assms [of "x # xs"] assms [of xs] unfolding lev.simps(3) by linarith
qed

lemma lev_subst_le: "lev xs (d # s) \<le> lev xs (c # s) + 1"
proof (induction xs)
  case (Cons x xs)
  then show ?case unfolding lev.simps(3) by (auto simp: min_def)
qed simp

lemma lev_under_prefix: "(\<And>xs. lev xs t' \<le> lev xs t + 1) \<Longrightarrow> lev xs (p @ t') \<le> lev xs (p @ t) + 1"
  by (induction p arbitrary: xs) (simp, simp only: append_Cons lev_under_Cons)

lemma lev_edit1: "edit1 ys zs \<Longrightarrow> lev xs zs \<le> lev xs ys + 1"
  by (induction rule: edit1.induct) (rule lev_under_prefix, rule lev_Cons2_le lev_le_Cons2 lev_subst_le)+

lemma lev_refl [simp]: "lev xs xs = 0"
  by (induction xs) auto

lemma lev_edits: "(edit1 ^^ n) xs ys \<Longrightarrow> lev xs ys \<le> n"
proof (induction n arbitrary: ys)
  case (Suc n)
  then obtain zs where "(edit1 ^^ n) xs zs" "edit1 zs ys" by auto
  with Suc.IH [of zs] lev_edit1 [of zs ys xs] show ?case by simp
qed simp

lemma edit1_Cons: "edit1 xs ys \<Longrightarrow> edit1 (c # xs) (c # ys)"
  by (induction rule: edit1.induct) (metis append_Cons edit1.intros)+

lemma edits_Cons: "(edit1 ^^ n) xs ys \<Longrightarrow> (edit1 ^^ n) (c # xs) (c # ys)"
proof (induction n arbitrary: ys)
  case (Suc n)
  then show ?case using edit1_Cons by (metis relpowp_Suc_E relpowp_Suc_I)
qed simp

lemma edits_lev: "(edit1 ^^ lev xs ys) xs ys"
proof (induction xs ys rule: lev.induct)
  case (1 ys)
  show ?case
  proof (induction ys)
    case (Cons y ys)
    then show ?case using relpowp_Suc_I [OF Cons edit1.ins [of "[]" ys y, simplified]] by simp
  qed simp
next
  case (2 x xs)
  have all: "(edit1 ^^ length zs) zs []" for zs :: "'a list"
  proof (induction zs)
    case (Cons z zs)
    then show ?case using edit1.del [of "[]" z zs] relpowp_Suc_I2 [of edit1 "z # zs" zs "length zs"] by simp
  qed simp
  show ?case using all [of "x # xs"] by (simp only: lev_Nil2)
next
  case (3 x xs y ys)
  have min3: "min (min a b) c = a \<or> min (min a b) c = b \<or> min (min a b) c = (c :: nat)" for a b c by (simp add: min_def)
  from min3 [of "lev (x # xs) ys + 1" "lev xs (y # ys) + 1" "lev xs ys + (if x \<noteq> y then 1 else 0)"]
  consider "lev (x # xs) (y # ys) = lev (x # xs) ys + 1" | "lev (x # xs) (y # ys) = lev xs (y # ys) + 1"
    | "x \<noteq> y" "lev (x # xs) (y # ys) = lev xs ys + 1" | "x = y" "lev (x # xs) (y # ys) = lev xs ys"
    unfolding lev.simps(3) by (cases "x = y") (simp_all, blast+)
  then show ?case
  proof cases
    case 1
    show ?thesis unfolding 1 using relpowp_Suc_I [OF "3.IH"(1) edit1.ins [of "[]" ys y, simplified]] by (simp only: Suc_eq_plus1)
  next
    case 2
    show ?thesis unfolding 2 using relpowp_Suc_I2 [OF edit1.del [of "[]" x xs, simplified] "3.IH"(2)] by (simp only: Suc_eq_plus1)
  next
    case 3
    show ?thesis unfolding 3(2) using relpowp_Suc_I2 [OF edit1.subst [of "[]" x xs y, simplified] edits_Cons [OF "3.IH"(3), of y]] by (simp only: Suc_eq_plus1)
  next
    case 4
    then show ?thesis using edits_Cons [OF "3.IH"(3), of y] by simp
  qed
qed

lemma lev_rev: "lev (rev xs) (rev ys) = lev xs ys"
proof -
  have r: "edit1 (rev a) (rev b)" if "edit1 a b" for a b :: "'a list"
    using that by (induction rule: edit1.induct) (metis edit1.intros rev_append rev.simps(2) append.assoc append_Cons append_Nil)+
  have n: "(edit1 ^^ n) (rev a) (rev b)" if "(edit1 ^^ n) a b" for n and a b :: "'a list"
    using that by (induction n arbitrary: b) (auto, metis r relcomppI)
  have le: "lev (rev a) (rev b) \<le> lev a b" for a b :: "'a list" using lev_edits [OF n [OF edits_lev]] .
  show ?thesis using le [of xs ys] le [of "rev xs" "rev ys"] by simp
qed

lemma edit_row_spec:
  "edit_row x ys (map (\<lambda>k. lev r (rev (take k ys) @ s)) [0..<length ys + 1]) (lev (x # r) s)
    = map (\<lambda>k. lev (x # r) (rev (take k ys) @ s)) [0..<length ys + 1]"
proof (induction ys arbitrary: s)
  case (Cons y ys)
  have shift: "map (\<lambda>k. f (rev (take k (y # ys)) @ s)) [0..<length (y # ys) + 1]
      = f s # map (\<lambda>k. f (rev (take k ys) @ y # s)) [0..<length ys + 1]" for f :: "string \<Rightarrow> nat"
    by (simp add: upt_conv_Cons map_Suc_upt [symmetric] del: upt_Suc)
  have first: "map (\<lambda>k. f (rev (take k ys) @ y # s)) [0..<length ys + 1]
      = f (y # s) # map (\<lambda>k. f (rev (take k ys) @ y # s)) [1..<length ys + 1]" for f :: "string \<Rightarrow> nat"
    by (simp add: upt_conv_Cons del: upt_Suc)
  have "edit_row x (y # ys) (lev r s # map (\<lambda>k. lev r (rev (take k ys) @ y # s)) [0..<length ys + 1]) (lev (x # r) s)
      = lev (x # r) s # edit_row x ys (map (\<lambda>k. lev r (rev (take k ys) @ y # s)) [0..<length ys + 1]) (lev (x # r) (y # s))"
    unfolding first by simp
  then show ?case unfolding shift Cons.IH .
qed simp

lemma edit_rows_spec:
  "edit_rows xs b (length r + 1) (map (\<lambda>k. lev r (rev (take k b))) [0..<length b + 1])
    = map (\<lambda>k. lev (rev xs @ r) (rev (take k b))) [0..<length b + 1]"
proof (induction xs arbitrary: r)
  case (Cons x xs)
  have "edit_row x b (map (\<lambda>k. lev r (rev (take k b))) [0..<length b + 1]) (length r + 1)
      = map (\<lambda>k. lev (x # r) (rev (take k b))) [0..<length b + 1]"
    using edit_row_spec [of x b r "[]"] by simp
  then show ?case using Cons.IH [of "x # r"] by simp
qed simp

lemma EditDistance_lev: "EditDistance a b = lev a b"
proof -
  have init: "[0..<length b + 1] = map (\<lambda>k. lev [] (rev (take k b))) [0..<length b + 1]" for b :: string
    by (rule nth_equalityI) (simp_all add: min_def del: upt_Suc)
  have "edit_rows a b 1 [0..<length b + 1] ! length b = lev a b" for a b
    using edit_rows_spec [of a b "[]"] unfolding init [symmetric] by (simp add: lev_rev del: upt_Suc)
  then show ?thesis by (auto simp: EditDistance_def lev_sym)
qed

text \<open>\<^verbatim>\<open>EditDistance\<close> returns the least number of insertions, deletions and substitutions of a single byte that
  turn one string into the other: that many edits do it, and no fewer do.\<close>

lemma EditDistance_least: "EditDistance a b = (LEAST n. (edit1 ^^ n) a b)"
  unfolding EditDistance_lev by (rule sym, rule Least_equality, rule edits_lev, erule lev_edits)

end
