(* ===== verification/AccessPolicy.thy ===== *)
theory AccessPolicy
  imports GoPrelude EditDist "HOL-Library.List_Lexorder" "HOL-Library.Char_ord"
begin

text \<open>
  Role-based access control of \<^verbatim>\<open>framework/access\<close>: the role policy with its capability registry (\<^verbatim>\<open>access.go\<close>),
  the scope algebra (\<^verbatim>\<open>scopematch.go\<close>, \<^verbatim>\<open>heldscopes.go\<close>), and the checks that put policy, scopes and
  decider together (\<^verbatim>\<open>access.go\<close>, \<^verbatim>\<open>decider.go\<close>). A permission is its string. The Go maps are
  association lists with distinct keys and, for a set, a list without repetition.
\<close>

section \<open>The policy\<close>

record RolePolicy =
  rolePermissions :: "(string \<times> string list) list"
  capabilities :: "string list"
  strictCapabilities :: bool

definition Wildcard :: string where "Wildcard = ''*''"

definition NewRolePolicy :: RolePolicy where
  "NewRolePolicy = \<lparr>rolePermissions = [], capabilities = [], strictCapabilities = False\<rparr>"

definition Register :: "string list \<Rightarrow> RolePolicy \<Rightarrow> RolePolicy" where
  "Register cs rp = rp\<lparr>capabilities := fold List.insert cs (capabilities rp)\<rparr>"

definition Capabilities :: "RolePolicy \<Rightarrow> string list" where
  "Capabilities rp = sort (capabilities rp)"

definition Snapshot :: "RolePolicy \<Rightarrow> (string \<times> string list) list" where
  "Snapshot rp = rolePermissions rp"

definition StrictCapabilities :: "RolePolicy \<Rightarrow> RolePolicy" where
  "StrictCapabilities rp = rp\<lparr>strictCapabilities := True\<rparr>"

definition permissionsFor :: "RolePolicy \<Rightarrow> string \<Rightarrow> string list" where
  "permissionsFor rp role = (case map_of (rolePermissions rp) role of None \<Rightarrow> [] | Some ps \<Rightarrow> ps)"

definition PermissionsOf :: "RolePolicy \<Rightarrow> string \<Rightarrow> string list" where
  "PermissionsOf rp role = permissionsFor rp role"

definition Roles :: "RolePolicy \<Rightarrow> string list" where
  "Roles rp = sort (map fst (rolePermissions rp))"

section \<open>The suggestion of an unknown capability\<close>

fun nearest_loop :: "string \<Rightarrow> string list \<Rightarrow> string \<Rightarrow> nat \<Rightarrow> string" where
  "nearest_loop grant [] nearest best = nearest"
| "nearest_loop grant (c # cs) nearest best =
     (let distance = EditDistance grant c
      in if distance < best then nearest_loop grant cs c distance else nearest_loop grant cs nearest best)"

definition nearestCapability :: "string \<Rightarrow> string list \<Rightarrow> string" where
  "nearestCapability grant registered =
     (case registered of [] \<Rightarrow> [] | c # cs \<Rightarrow> nearest_loop grant cs c (EditDistance grant c))"

section \<open>Grants and revocations\<close>

datatype access_error = UnknownCapabilityError string string

definition handleUnknownCapability :: "string \<Rightarrow> string \<Rightarrow> bool \<Rightarrow> access_error option" where
  "handleUnknownCapability grant nearest strict = (if strict then Some (UnknownCapabilityError grant nearest) else None)"

definition append_new :: "'a \<Rightarrow> 'a list \<Rightarrow> 'a list" where
  "append_new p ps = (if p \<in> set ps then ps else ps @ [p])"

definition has_suffix :: "string \<Rightarrow> string \<Rightarrow> bool" where
  "has_suffix s p \<longleftrightarrow> length p \<le> length s \<and> drop (length s - length p) s = p"

definition expand :: "string \<Rightarrow> string list \<Rightarrow> string list" where
  "expand raw registered =
     (if has_suffix raw '':*'' then filter (\<lambda>c. has_prefix c (butlast raw)) registered else [])"

text \<open>One turn of the loop of \<^verbatim>\<open>prepareGrants\<close>.\<close>

definition prepare_grant :: "string list \<Rightarrow> bool \<Rightarrow> string \<Rightarrow> string list \<Rightarrow> access_error + string list" where
  "prepare_grant registered strict p prepared =
     (if p = Wildcard then Inr (append_new p prepared)
      else if registered = [] then
        (if contains_str p ''*'' then
           (case handleUnknownCapability p [] strict of Some e \<Rightarrow> Inl e | None \<Rightarrow> Inr (append_new p prepared))
         else Inr (append_new p prepared))
      else if expand p registered \<noteq> [] then Inr (fold append_new (expand p registered) prepared)
      else if p \<notin> set registered then
        (case handleUnknownCapability p (nearestCapability p registered) strict of
           Some e \<Rightarrow> Inl e | None \<Rightarrow> Inr (append_new p prepared))
      else Inr (append_new p prepared))"

fun prepare_loop :: "string list \<Rightarrow> bool \<Rightarrow> string list \<Rightarrow> string list \<Rightarrow> access_error + string list" where
  "prepare_loop registered strict [] prepared = Inr prepared"
| "prepare_loop registered strict (p # ps) prepared =
     (case prepare_grant registered strict p prepared of
        Inl e \<Rightarrow> Inl e
      | Inr prepared' \<Rightarrow> prepare_loop registered strict ps prepared')"

definition prepareGrants :: "RolePolicy \<Rightarrow> string list \<Rightarrow> access_error + string list" where
  "prepareGrants rp ps = prepare_loop (sort (capabilities rp)) (strictCapabilities rp) ps []"

definition grantPrepared :: "string \<Rightarrow> string list \<Rightarrow> RolePolicy \<Rightarrow> RolePolicy" where
  "grantPrepared role ps rp =
     (if ps = [] then rp
      else rp\<lparr>rolePermissions := AList.update role (fold append_new ps (permissionsFor rp role)) (rolePermissions rp)\<rparr>)"

definition Grant :: "string \<Rightarrow> string list \<Rightarrow> RolePolicy \<Rightarrow> access_error option \<times> RolePolicy" where
  "Grant role ps rp = (case prepareGrants rp ps of Inl e \<Rightarrow> (Some e, rp) | Inr prepared \<Rightarrow> (None, grantPrepared role prepared rp))"

fun revoke_loop :: "string list \<Rightarrow> string list \<Rightarrow> string list \<Rightarrow> string list" where
  "revoke_loop registered [] prepared = prepared"
| "revoke_loop registered (p # ps) prepared =
     (let prepared' = append_new p prepared
      in revoke_loop registered ps (if p = Wildcard then prepared' else fold append_new (expand p registered) prepared'))"

definition prepareRevokes :: "RolePolicy \<Rightarrow> string list \<Rightarrow> string list" where
  "prepareRevokes rp ps = revoke_loop (sort (capabilities rp)) ps []"

definition Revoke :: "string \<Rightarrow> string list \<Rightarrow> RolePolicy \<Rightarrow> RolePolicy" where
  "Revoke role ps rp =
     (let prepared = prepareRevokes rp ps in
      case map_of (rolePermissions rp) role of
        None \<Rightarrow> rp
      | Some existing \<Rightarrow>
          rp\<lparr>rolePermissions := AList.update role (filter (\<lambda>p. p \<notin> set prepared) existing) (rolePermissions rp)\<rparr>)"

definition replacePrepared :: "string \<Rightarrow> string list \<Rightarrow> RolePolicy \<Rightarrow> RolePolicy" where
  "replacePrepared role prepared rp = rp\<lparr>rolePermissions := AList.update role prepared (rolePermissions rp)\<rparr>"

definition ReplaceRole :: "string \<Rightarrow> string list \<Rightarrow> RolePolicy \<Rightarrow> access_error option \<times> RolePolicy" where
  "ReplaceRole role ps rp =
     (case prepareGrants rp ps of Inl e \<Rightarrow> (Some e, rp) | Inr prepared \<Rightarrow> (None, replacePrepared role prepared rp))"

section \<open>Scopes\<close>

definition splitScope :: "string \<Rightarrow> (string \<times> string) option" where
  "splitScope s =
     (case index_str s '':'' of
        None \<Rightarrow> None
      | Some idx \<Rightarrow> if idx \<le> 0 \<or> idx = length s - 1 then None else Some (take idx s, drop (idx + 1) s))"

fun scope_loop :: "string list \<Rightarrow> string \<Rightarrow> string \<Rightarrow> string \<Rightarrow> bool" where
  "scope_loop [] required wantRes wantVerb = False"
| "scope_loop (g # gs) required wantRes wantVerb =
     (if g = required then True
      else case splitScope g of
        None \<Rightarrow> scope_loop gs required wantRes wantVerb
      | Some (res, verb) \<Rightarrow>
          if (res = ''*'' \<or> res = wantRes) \<and> (verb = ''*'' \<or> verb = wantVerb) then True
          else scope_loop gs required wantRes wantVerb)"

definition ScopeMatch :: "string list \<Rightarrow> string \<Rightarrow> bool" where
  "ScopeMatch granted required =
     (case splitScope required of None \<Rightarrow> False | Some (wantRes, wantVerb) \<Rightarrow> scope_loop granted required wantRes wantVerb)"

definition isScopeChar :: "char \<Rightarrow> bool" where
  "isScopeChar c \<longleftrightarrow> is_lower c \<or> is_digit c \<or> c = CHR ''_'' \<or> c = CHR ''*'' \<or> c = CHR ''-''"

definition ValidScope :: "string \<Rightarrow> bool" where
  "ValidScope s =
     (case index_str s '':'' of
        None \<Rightarrow> False
      | Some idx \<Rightarrow>
          if idx \<le> 0 \<or> idx = length s - 1 then False
          else list_all (\<lambda>i. if s ! i = CHR '':'' then i = idx else isScopeChar (s ! i)) [0..<length s])"

definition RoleScope :: "string \<Rightarrow> string" where "RoleScope role = ''role:'' @ role"

section \<open>Checks\<close>

record Ref =
  refType :: string
  refID :: string

datatype Decision = DecisionAbstain | DecisionAllow | DecisionDeny

text \<open>What the checks read of a context. A decider is the host's function, already applied to the context; a
  missing context is \<^term>\<open>None\<close>. \<open>HeldScopes\<close> distinguishes a request without scopes from one with none granted.\<close>

record access_ctx =
  ctxPolicy :: "RolePolicy option"
  ctxRoles :: "string list"
  ctxDecider :: "(string list \<Rightarrow> string \<Rightarrow> Ref \<Rightarrow> Decision) option"
  ctxScopes :: "string list option"

record Evaluation =
  evPermission :: string
  evGranted :: bool
  evPath :: string
  evRoles :: "string list"

definition GetRoles :: "access_ctx option \<Rightarrow> string list" where
  "GetRoles ctx = (case ctx of None \<Rightarrow> [] | Some c \<Rightarrow> ctxRoles c)"

definition PolicyFromContext :: "access_ctx option \<Rightarrow> RolePolicy option" where
  "PolicyFromContext ctx = (case ctx of None \<Rightarrow> None | Some c \<Rightarrow> ctxPolicy c)"

definition GetDecider :: "access_ctx option \<Rightarrow> (string list \<Rightarrow> string \<Rightarrow> Ref \<Rightarrow> Decision) option" where
  "GetDecider ctx = (case ctx of None \<Rightarrow> None | Some c \<Rightarrow> ctxDecider c)"

definition HeldScopes :: "access_ctx option \<Rightarrow> string list option" where
  "HeldScopes ctx = (case ctx of None \<Rightarrow> None | Some c \<Rightarrow> ctxScopes c)"

definition WithHeldScopes :: "string list \<Rightarrow> access_ctx \<Rightarrow> access_ctx" where
  "WithHeldScopes scopes c = c\<lparr>ctxScopes := Some scopes\<rparr>"

definition ScopeAllows :: "access_ctx option \<Rightarrow> string \<Rightarrow> bool" where
  "ScopeAllows ctx required = (case HeldScopes ctx of None \<Rightarrow> True | Some held \<Rightarrow> ScopeMatch held required)"

text \<open>\<open>observe\<close> pairs a verdict with what an installed observer is told.\<close>

definition observe :: "access_ctx option \<Rightarrow> string \<Rightarrow> bool \<Rightarrow> string \<Rightarrow> bool \<times> Evaluation list" where
  "observe ctx p granted path = (granted, [\<lparr>evPermission = p, evGranted = granted, evPath = path, evRoles = GetRoles ctx\<rparr>])"

definition GetPermissions :: "access_ctx option \<Rightarrow> string list" where
  "GetPermissions ctx =
     (case PolicyFromContext ctx of
        None \<Rightarrow> []
      | Some policy \<Rightarrow> fold append_new (concat (map (permissionsFor policy) (GetRoles ctx))) [])"

text \<open>\<^verbatim>\<open>RolePolicy.Can\<close>, which reads the policy of the context and not its receiver.\<close>

definition policy_Can :: "access_ctx option \<Rightarrow> string \<Rightarrow> bool" where
  "policy_Can ctx p = list_ex (\<lambda>q. q = p \<or> q = Wildcard) (GetPermissions ctx)"

definition Can :: "access_ctx option \<Rightarrow> string \<Rightarrow> bool \<times> Evaluation list" where
  "Can ctx p =
     (case PolicyFromContext ctx of
        None \<Rightarrow> observe ctx p False ''can''
      | Some _ \<Rightarrow> observe ctx p (ScopeAllows ctx p \<and> policy_Can ctx p) ''can'')"

definition CanResource :: "access_ctx option \<Rightarrow> string \<Rightarrow> Ref \<Rightarrow> bool \<times> Evaluation list" where
  "CanResource ctx p ref =
     (if ctx = None then (False, [])
      else if \<not> ScopeAllows ctx p then observe ctx p False ''can-resource''
      else case GetDecider ctx of
             None \<Rightarrow> Can ctx p
           | Some d \<Rightarrow>
               (case d (GetRoles ctx) p ref of
                  DecisionAllow \<Rightarrow> observe ctx p True ''can-resource''
                | DecisionDeny \<Rightarrow> observe ctx p False ''can-resource''
                | DecisionAbstain \<Rightarrow> Can ctx p))"

definition CanResourceExact :: "access_ctx option \<Rightarrow> string \<Rightarrow> Ref \<Rightarrow> bool \<times> Evaluation list" where
  "CanResourceExact ctx p ref =
     (if ctx = None then (False, [])
      else if \<not> ScopeAllows ctx p then observe ctx p False ''can-resource-exact''
      else case GetDecider ctx of
             None \<Rightarrow> observe ctx p (p \<in> set (GetPermissions ctx)) ''can-resource-exact''
           | Some d \<Rightarrow>
               (case d (GetRoles ctx) p ref of
                  DecisionAllow \<Rightarrow> observe ctx p True ''can-resource-exact''
                | DecisionDeny \<Rightarrow> observe ctx p False ''can-resource-exact''
                | DecisionAbstain \<Rightarrow> observe ctx p (p \<in> set (GetPermissions ctx)) ''can-resource-exact''))"

definition requireResource :: "access_ctx option \<Rightarrow> string \<Rightarrow> Ref \<Rightarrow> bool" where
  "requireResource ctx p ref =
     (let byPolicy = (PolicyFromContext ctx \<noteq> None \<and> policy_Can ctx p) in
      case GetDecider ctx of
        None \<Rightarrow> byPolicy
      | Some d \<Rightarrow>
          (case d (GetRoles ctx) p ref of
             DecisionAllow \<Rightarrow> True
           | DecisionDeny \<Rightarrow> False
           | DecisionAbstain \<Rightarrow> byPolicy))"

definition zeroRef :: Ref where "zeroRef = \<lparr>refType = [], refID = []\<rparr>"

text \<open>Whether \<^verbatim>\<open>RequirePermission\<close> calls the next handler; a refusal is a 403.\<close>

definition RequirePermission :: "string \<Rightarrow> access_ctx \<Rightarrow> bool \<times> Evaluation list" where
  "RequirePermission p c =
     observe (Some c) p (ScopeAllows (Some c) p \<and> requireResource (Some c) p zeroRef) ''require-permission''"

definition WithPolicy :: "access_ctx \<Rightarrow> RolePolicy \<Rightarrow> access_ctx" where
  "WithPolicy c policy = c\<lparr>ctxPolicy := Some policy\<rparr>"

definition WithRoles :: "access_ctx \<Rightarrow> string list \<Rightarrow> access_ctx" where
  "WithRoles c roles = c\<lparr>ctxRoles := roles\<rparr>"

definition WithDecider :: "access_ctx \<Rightarrow> (string list \<Rightarrow> string \<Rightarrow> Ref \<Rightarrow> Decision) \<Rightarrow> access_ctx" where
  "WithDecider c d = c\<lparr>ctxDecider := Some d\<rparr>"

text \<open>\<^verbatim>\<open>Middleware\<close> and \<^verbatim>\<open>DeciderMiddleware\<close>: what they put into the request's context. The re-check that
  \<^verbatim>\<open>Middleware\<close> registers for long-lived requests is a function stored for the handler package and is left out.\<close>

definition access_Middleware :: "RolePolicy \<Rightarrow> (access_ctx \<Rightarrow> string list) option \<Rightarrow> access_ctx \<Rightarrow> access_ctx" where
  "access_Middleware policy roles c =
     (let c' = WithPolicy c policy
      in case roles of None \<Rightarrow> c' | Some f \<Rightarrow> WithRoles c' (f c'))"

definition DeciderMiddleware :: "(string list \<Rightarrow> string \<Rightarrow> Ref \<Rightarrow> Decision) \<Rightarrow> access_ctx \<Rightarrow> access_ctx" where
  "DeciderMiddleware d c = WithDecider c d"

section \<open>What a grant and a revocation name\<close>

text \<open>The permissions one grant stands for, and when a strict policy refuses it.\<close>

definition grant_list :: "string list \<Rightarrow> string \<Rightarrow> string list" where
  "grant_list reg p = (if expand p reg = [] then [p] else expand p reg)"

definition refused :: "string list \<Rightarrow> string \<Rightarrow> bool" where
  "refused reg p \<longleftrightarrow> p \<noteq> Wildcard \<and> (if reg = [] then CHR ''*'' \<in> set p else p \<notin> set reg \<and> expand p reg = [])"

definition cover_list :: "string list \<Rightarrow> string \<Rightarrow> string list" where
  "cover_list reg p = p # expand p reg"

lemma set_append_new [simp]: "set (append_new p ps) = insert p (set ps)"
  by (auto simp: append_new_def)

lemma distinct_append_new [simp]: "distinct (append_new p ps) \<longleftrightarrow> distinct ps"
  by (auto simp: append_new_def)

lemma set_fold_append_new [simp]: "set (fold append_new xs ps) = set xs \<union> set ps"
  by (induction xs arbitrary: ps) auto

lemma distinct_fold_append_new [simp]: "distinct (fold append_new xs ps) \<longleftrightarrow> distinct ps"
  by (induction xs arbitrary: ps) auto

lemma filter_fold_append_new:
  "set xs \<subseteq> R \<Longrightarrow> filter (\<lambda>p. p \<notin> R) (fold append_new xs ps) = filter (\<lambda>p. p \<notin> R) ps"
  by (induction xs arbitrary: ps) (auto simp: append_new_def)

lemma has_prefix_append: "has_prefix s p \<longleftrightarrow> (\<exists>t. s = p @ t)"
  unfolding has_prefix_def by (metis append_eq_conv_conj append_take_drop_id)

lemma has_suffix_append: "has_suffix s p \<longleftrightarrow> (\<exists>b. s = b @ p)"
  unfolding has_suffix_def by (auto, metis append_take_drop_id)

lemma expand_iff: "c \<in> set (expand p reg) \<longleftrightarrow> c \<in> set reg \<and> (\<exists>b t. p = b @ '':*'' \<and> c = b @ '':'' @ t)"
  by (auto simp: expand_def has_suffix_append has_prefix_append butlast_append)

lemma expand_closed:
  assumes "q \<in> set (expand p reg)"
  shows "set (expand q reg) \<subseteq> set (expand p reg)"
proof
  fix c
  assume c: "c \<in> set (expand q reg)"
  obtain b t where p: "p = b @ '':*''" "q = b @ '':'' @ t" using assms by (auto simp: expand_iff)
  obtain b' t' where q: "q = b' @ '':*''" "c = b' @ '':'' @ t'" using c by (auto simp: expand_iff)
  have "(b @ '':'') @ t = (b' @ '':'') @ ''*''" using p q by simp
  then obtain s where "t = s @ ''*''" "b' @ '':'' = (b @ '':'') @ s"
    by (cases t rule: rev_cases) auto
  then have "c = b @ '':'' @ (s @ t')" using q by (metis append.assoc)
  then show "c \<in> set (expand p reg)" using p c by (auto simp: expand_iff)
qed

lemma expand_Wildcard [simp]: "expand Wildcard reg = []"
  by (simp add: expand_def Wildcard_def has_suffix_def)

lemma expand_empty [simp]: "expand p [] = []"
  by (simp add: expand_def)

lemma prepare_grant_eq:
  "prepare_grant reg strict p acc =
     (if strict \<and> refused reg p then Inl (UnknownCapabilityError p (nearestCapability p reg))
      else Inr (fold append_new (grant_list reg p) acc))"
  by (auto simp: prepare_grant_def refused_def grant_list_def handleUnknownCapability_def nearestCapability_def)

lemma prepare_loop_eq:
  "prepare_loop reg strict ps acc =
     (case if strict then find (refused reg) ps else None of
        Some p \<Rightarrow> Inl (UnknownCapabilityError p (nearestCapability p reg))
      | None \<Rightarrow> Inr (fold append_new (concat (map (grant_list reg) ps)) acc))"
  by (induction ps arbitrary: acc) (simp, cases strict, auto simp: prepare_grant_eq split: option.split)

lemma revoke_loop_eq: "revoke_loop reg ps acc = fold append_new (concat (map (cover_list reg) ps)) acc"
  by (induction ps arbitrary: acc) (simp_all add: cover_list_def Let_def)

lemma grant_cover: "set (grant_list reg p) \<subseteq> set (cover_list reg p)"
  by (auto simp: grant_list_def cover_list_def)

lemma permissionsFor_update:
  "permissionsFor (rp\<lparr>rolePermissions := AList.update role ps al\<rparr>) r
    = (if r = role then ps else permissionsFor (rp\<lparr>rolePermissions := al\<rparr>) r)"
  by (simp add: permissionsFor_def update_conv')

lemma permissionsFor_same [simp]: "permissionsFor (rp\<lparr>rolePermissions := rolePermissions rp\<rparr>) = permissionsFor rp"
  by (rule ext) (simp add: permissionsFor_def)

lemma permissionsFor_grantPrepared:
  "permissionsFor (grantPrepared role ps rp) r
    = (if r = role then fold append_new ps (permissionsFor rp r) else permissionsFor rp r)"
  by (auto simp: grantPrepared_def permissionsFor_update)

lemma permissionsFor_Revoke:
  "permissionsFor (Revoke role ps rp) r
    = (if r = role then filter (\<lambda>p. p \<notin> set (prepareRevokes rp ps)) (permissionsFor rp r) else permissionsFor rp r)"
  by (cases "map_of (rolePermissions rp) role") (simp_all add: Revoke_def Let_def permissionsFor_update, simp_all add: permissionsFor_def)

lemma permissionsFor_replacePrepared:
  "permissionsFor (replacePrepared role ps rp) r = (if r = role then ps else permissionsFor rp r)"
  by (simp add: replacePrepared_def permissionsFor_update)

lemma capabilities_ops [simp]:
  "capabilities (grantPrepared role ps rp) = capabilities rp"
  "capabilities (Revoke role ps rp) = capabilities rp"
  "capabilities (replacePrepared role ps rp) = capabilities rp"
  "strictCapabilities (grantPrepared role ps rp) = strictCapabilities rp"
  "strictCapabilities (Revoke role ps rp) = strictCapabilities rp"
  "strictCapabilities (replacePrepared role ps rp) = strictCapabilities rp"
  by (simp_all add: grantPrepared_def Revoke_def replacePrepared_def Let_def split: option.split)

lemma prepareGrants_eq:
  "prepareGrants rp ps =
     (case if strictCapabilities rp then find (refused (sort (capabilities rp))) ps else None of
        Some p \<Rightarrow> Inl (UnknownCapabilityError p (nearestCapability p (sort (capabilities rp))))
      | None \<Rightarrow> Inr (fold append_new (concat (map (grant_list (sort (capabilities rp))) ps)) []))"
  by (simp only: prepareGrants_def prepare_loop_eq)

lemma set_prepareRevokes: "set (prepareRevokes rp ps) = (\<Union>p\<in>set ps. set (cover_list (sort (capabilities rp)) p))"
  by (auto simp: prepareRevokes_def revoke_loop_eq)

lemma expand_sort_Nil: "expand p (sort reg) = [] \<longleftrightarrow> expand p reg = []"
  by (auto simp: expand_def filter_empty_conv)

lemma set_expand_sort: "set (expand p (sort reg)) = set (expand p reg)"
  by (simp add: expand_def)

lemma set_grant_list_sort: "set (grant_list (sort reg) p) = set (grant_list reg p)"
  by (simp add: grant_list_def expand_sort_Nil set_expand_sort)

lemma set_cover_list_sort: "set (cover_list (sort reg) p) = set (cover_list reg p)"
  by (simp add: cover_list_def set_expand_sort)

lemma sort_Nil_iff [simp]: "sort xs = [] \<longleftrightarrow> xs = []"
  by (metis set_empty set_sort)

lemma refused_sort: "refused (sort reg) p \<longleftrightarrow> refused reg p"
  unfolding refused_def expand_sort_Nil by simp

section \<open>The state of a policy\<close>

text \<open>The maps and sets of the policy hold no key twice, and no role holds a permission twice.\<close>

definition policy_ok :: "RolePolicy \<Rightarrow> bool" where
  "policy_ok rp \<longleftrightarrow> distinct (map fst (rolePermissions rp)) \<and> distinct (capabilities rp)
     \<and> list_all (distinct \<circ> snd) (rolePermissions rp)"

inductive policy_reach :: "RolePolicy \<Rightarrow> bool" where
  new: "policy_reach NewRolePolicy"
| register: "policy_reach rp \<Longrightarrow> policy_reach (Register cs rp)"
| strict: "policy_reach rp \<Longrightarrow> policy_reach (StrictCapabilities rp)"
| grant: "policy_reach rp \<Longrightarrow> policy_reach (snd (Grant role ps rp))"
| revoke: "policy_reach rp \<Longrightarrow> policy_reach (Revoke role ps rp)"
| replace: "policy_reach rp \<Longrightarrow> policy_reach (snd (ReplaceRole role ps rp))"

lemma policy_ok_update:
  "policy_ok rp \<Longrightarrow> distinct ps \<Longrightarrow> policy_ok (rp\<lparr>rolePermissions := AList.update role ps (rolePermissions rp)\<rparr>)"
  by (auto simp: policy_ok_def distinct_update list_all_iff dest!: set_update_subset [THEN subsetD])

lemma policy_ok_permissions: "policy_ok rp \<Longrightarrow> distinct (permissionsFor rp role)"
  by (auto simp: policy_ok_def permissionsFor_def list_all_iff split: option.split dest!: map_of_SomeD)

lemma distinct_prepared: "prepareGrants rp ps = Inr prepared \<Longrightarrow> distinct prepared"
  by (auto simp: prepareGrants_eq split: option.splits)

lemma policy_ok_grantPrepared: "policy_ok rp \<Longrightarrow> policy_ok (grantPrepared role ps rp)"
  by (simp add: grantPrepared_def policy_ok_update policy_ok_permissions)

lemma policy_ok_replacePrepared: "policy_ok rp \<Longrightarrow> distinct ps \<Longrightarrow> policy_ok (replacePrepared role ps rp)"
  by (simp add: replacePrepared_def policy_ok_update)

lemma policy_ok_Revoke: "policy_ok rp \<Longrightarrow> policy_ok (Revoke role ps rp)"
  using policy_ok_permissions [of rp role]
  by (auto simp: Revoke_def Let_def permissionsFor_def intro!: policy_ok_update split: option.split)

lemma policy_ok_Grant: "policy_ok rp \<Longrightarrow> policy_ok (snd (Grant role ps rp))"
  by (auto simp: Grant_def policy_ok_grantPrepared split: sum.split)

lemma policy_ok_ReplaceRole: "policy_ok rp \<Longrightarrow> policy_ok (snd (ReplaceRole role ps rp))"
  by (auto simp: ReplaceRole_def policy_ok_replacePrepared distinct_prepared split: sum.split)

lemma distinct_fold_insert: "distinct xs \<Longrightarrow> distinct (fold List.insert ys xs)"
  by (induction ys arbitrary: xs) auto

lemma set_fold_insert [simp]: "set (fold List.insert ys xs) = set ys \<union> set xs"
  by (induction ys arbitrary: xs) auto

lemma policy_ok_Register: "policy_ok rp \<Longrightarrow> policy_ok (Register cs rp)"
  by (simp add: policy_ok_def Register_def distinct_fold_insert)

lemma policy_ok_reach: "policy_reach rp \<Longrightarrow> policy_ok rp"
  by (induction rule: policy_reach.induct)
    (simp_all add: policy_ok_Grant policy_ok_Revoke policy_ok_ReplaceRole policy_ok_Register,
     simp_all add: policy_ok_def NewRolePolicy_def StrictCapabilities_def)

section \<open>Correctness of grants and revocations\<close>

lemma nearest_loop_least:
  "best = EditDistance g n \<Longrightarrow> nearest_loop g cs n best \<in> insert n (set cs)
     \<and> (\<forall>c\<in>insert n (set cs). EditDistance g (nearest_loop g cs n best) \<le> EditDistance g c)"
proof (induction cs arbitrary: n best)
  case (Cons c cs)
  note c = Cons.IH [OF refl, of c] and n = Cons.IH [OF refl, of n]
  show ?case
  proof (cases "EditDistance g c < EditDistance g n")
    case True
    with c Cons.prems show ?thesis by (simp add: Let_def)
  next
    case False
    with n Cons.prems show ?thesis by (simp add: Let_def) linarith
  qed
qed simp

lemma nearestCapability_least:
  assumes "reg \<noteq> []"
  shows "nearestCapability g reg \<in> set reg \<and> (\<forall>c\<in>set reg. EditDistance g (nearestCapability g reg) \<le> EditDistance g c)"
  using assms nearest_loop_least [of "EditDistance g (hd reg)" g "hd reg" "tl reg"] by (cases reg) (auto simp: nearestCapability_def)

lemma Grant_ok:
  assumes "Grant role ps rp = (None, rp')"
  shows "set (permissionsFor rp' r) = set (permissionsFor rp r) \<union> (if r = role then \<Union>p\<in>set ps. set (grant_list (capabilities rp) p) else {})"
    "strictCapabilities rp \<Longrightarrow> p \<in> set ps \<Longrightarrow> \<not> refused (capabilities rp) p"
  using assms by (auto simp: Grant_def prepareGrants_eq permissionsFor_grantPrepared set_grant_list_sort
      refused_sort find_None_iff split: option.splits if_splits sum.splits)

lemma Grant_error:
  assumes "Grant role ps rp = (Some (UnknownCapabilityError p n), rp')"
  shows "rp' = rp" "strictCapabilities rp" "p \<in> set ps" "refused (capabilities rp) p"
    "n = nearestCapability p (sort (capabilities rp))"
  using assms by (auto simp: Grant_def prepareGrants_eq refused_sort find_Some_iff
      split: option.splits if_splits sum.splits)

lemma grant_list_registered:
  "\<not> refused reg p \<Longrightarrow> reg \<noteq> [] \<Longrightarrow> set (grant_list reg p) \<subseteq> insert Wildcard (set reg)"
  by (auto simp: refused_def grant_list_def expand_iff)

text \<open>A grant either succeeds or leaves the policy as it is. It fails only on a strict policy, naming a
  permission of the request that can never match and, when capabilities are registered, a registered one at the
  least edit distance from it. When it succeeds, the role holds exactly what it held and what the request stands
  for, every other role is untouched, and on a strict policy with registered capabilities nothing but registered
  capabilities and the superuser permission is added.\<close>

lemma grant_exact:
  "case Grant role ps rp of
     (None, rp') \<Rightarrow>
       (\<forall>r. set (permissionsFor rp' r) = set (permissionsFor rp r)
          \<union> (if r = role then \<Union>p\<in>set ps. set (grant_list (capabilities rp) p) else {}))
       \<and> (strictCapabilities rp \<and> capabilities rp \<noteq> [] \<longrightarrow>
            set (permissionsFor rp' role) - set (permissionsFor rp role) \<subseteq> insert Wildcard (set (capabilities rp)))
   | (Some (UnknownCapabilityError p n), rp') \<Rightarrow>
       rp' = rp \<and> strictCapabilities rp \<and> p \<in> set ps \<and> refused (capabilities rp) p
       \<and> (capabilities rp \<noteq> [] \<longrightarrow>
            n \<in> set (capabilities rp) \<and> (\<forall>c\<in>set (capabilities rp). EditDistance p n \<le> EditDistance p c))"
proof (cases "Grant role ps rp")
  case (Pair e rp')
  show ?thesis
  proof (cases e)
    case None
    with Pair have G: "Grant role ps rp = (None, rp')" by simp
    have "set (permissionsFor rp' role) - set (permissionsFor rp role) \<subseteq> insert Wildcard (set (capabilities rp))"
      if "strictCapabilities rp" "capabilities rp \<noteq> []"
      using that grant_list_registered Grant_ok(2) [OF G] unfolding Grant_ok(1) [OF G] by fastforce
    then show ?thesis using Grant_ok(1) [OF G] unfolding G by simp
  next
    case (Some u)
    obtain p n where "u = UnknownCapabilityError p n" by (cases u)
    with Pair Some have G: "Grant role ps rp = (Some (UnknownCapabilityError p n), rp')" by simp
    show ?thesis unfolding G using Grant_error [OF G] nearestCapability_least [of "sort (capabilities rp)" p]
      by auto
  qed
qed

lemma grant_exact_witness:
  "fst (Grant ''editor'' [''teams:*''] (Register [''teams:read'', ''teams:write'', ''orders:read''] (StrictCapabilities NewRolePolicy)))
     = None
   \<and> set (permissionsFor (snd (Grant ''editor'' [''teams:*''] (Register [''teams:read'', ''teams:write'', ''orders:read''] (StrictCapabilities NewRolePolicy)))) ''editor'')
     = {''teams:read'', ''teams:write''}
   \<and> fst (Grant ''editor'' [''team:read''] (Register [''teams:read'', ''orders:read''] (StrictCapabilities NewRolePolicy)))
     = Some (UnknownCapabilityError ''team:read'' ''teams:read'')
   \<and> EditDistance ''team:read'' ''teams:read'' \<le> EditDistance ''team:read'' ''orders:read''"
proof -
  let ?A = "Register [''teams:read'', ''teams:write'', ''orders:read''] (StrictCapabilities NewRolePolicy)"
  let ?B = "Register [''teams:read'', ''orders:read''] (StrictCapabilities NewRolePolicy)"
  have A: "fst (Grant ''editor'' [''teams:*''] ?A) = None" by code_simp
  have B: "Grant ''editor'' [''team:read''] ?B = (Some (UnknownCapabilityError ''team:read'' ''teams:read''), ?B)" by code_simp
  have g: "set (grant_list (capabilities ?A) ''teams:*'') = {''teams:read'', ''teams:write''}" by code_simp
  have e: "permissionsFor ?A ''editor'' = []" by code_simp
  have c: "capabilities ?B = [''orders:read'', ''teams:read'']" by code_simp
  have "set (permissionsFor (snd (Grant ''editor'' [''teams:*''] ?A)) ''editor'') = {''teams:read'', ''teams:write''}"
    using grant_exact [where role = "''editor''" and ps = "[''teams:*'']" and rp = ?A] A g e by (cases "Grant ''editor'' [''teams:*''] ?A") auto
  moreover have "EditDistance ''team:read'' ''teams:read'' \<le> EditDistance ''team:read'' ''orders:read''"
    using grant_exact [where role = "''editor''" and ps = "[''team:read'']" and rp = ?B] unfolding B c by simp
  ultimately show ?thesis using A B by simp
qed

text \<open>Revoking is the inverse of granting. Revoking a request takes from the role, and from no other role, exactly the
  permissions of the request and the registered capabilities its wildcards cover, and it never fails. Revoking
  what was just granted leaves each role as if it had been revoked without the grant, so nothing that the grant
  installed survives; and a permission of the request passes no check through that role any more.\<close>

lemma revoke_undoes_grant:
  "permissionsFor (Revoke role ps (snd (Grant role ps rp))) r = permissionsFor (Revoke role ps rp) r
   \<and> set (permissionsFor (Revoke role ps rp) r)
       = set (permissionsFor rp r) - (if r = role then \<Union>p\<in>set ps. set (cover_list (capabilities rp) p) else {})"
proof
  have sub: "set (fold append_new (concat (map (grant_list (sort (capabilities rp))) ps)) [])
      \<subseteq> set (prepareRevokes rp ps)"
    using grant_cover by (fastforce simp: set_prepareRevokes)
  have same: "prepareRevokes (grantPrepared role qs rp) ps = prepareRevokes rp ps" for qs
    by (simp add: prepareRevokes_def)
  show "permissionsFor (Revoke role ps (snd (Grant role ps rp))) r = permissionsFor (Revoke role ps rp) r"
    using filter_fold_append_new [OF sub]
    by (auto simp: Grant_def prepareGrants_eq permissionsFor_Revoke permissionsFor_grantPrepared same
        split: option.splits)
  show "set (permissionsFor (Revoke role ps rp) r)
       = set (permissionsFor rp r) - (if r = role then \<Union>p\<in>set ps. set (cover_list (capabilities rp) p) else {})"
    by (auto simp: permissionsFor_Revoke set_prepareRevokes set_cover_list_sort)
qed

section \<open>Correctness of the checks\<close>

text \<open>The verdict of the role policy alone.\<close>

definition role_holds :: "access_ctx \<Rightarrow> string \<Rightarrow> bool" where
  "role_holds c p \<longleftrightarrow>
     (case ctxPolicy c of None \<Rightarrow> False | Some rp \<Rightarrow> list_ex (\<lambda>r. p \<in> set (permissionsFor rp r)) (ctxRoles c))"

lemma GetPermissions_holds: "p \<in> set (GetPermissions (Some c)) \<longleftrightarrow> role_holds c p"
  by (auto simp: GetPermissions_def PolicyFromContext_def GetRoles_def role_holds_def list_ex_iff split: option.split)

lemma policy_Can_holds: "policy_Can (Some c) p \<longleftrightarrow> role_holds c p \<or> role_holds c Wildcard"
  by (auto simp: policy_Can_def list_ex_iff GetPermissions_holds [symmetric])

lemma role_holds_policy: "role_holds c p \<Longrightarrow> \<exists>rp. ctxPolicy c = Some rp"
  by (simp add: role_holds_def split: option.splits)

definition scope_ok :: "access_ctx \<Rightarrow> string \<Rightarrow> bool" where
  "scope_ok c p \<longleftrightarrow> (case ctxScopes c of None \<Rightarrow> True | Some held \<Rightarrow> ScopeMatch held p)"

lemma ScopeAllows_ok: "ScopeAllows (Some c) p \<longleftrightarrow> scope_ok c p"
  by (simp add: ScopeAllows_def HeldScopes_def scope_ok_def)

definition decided :: "access_ctx \<Rightarrow> string \<Rightarrow> Ref \<Rightarrow> Decision" where
  "decided c p ref = (case ctxDecider c of None \<Rightarrow> DecisionAbstain | Some d \<Rightarrow> d (ctxRoles c) p ref)"

lemmas check_defs = decided_def GetDecider_def GetRoles_def PolicyFromContext_def observe_def ScopeAllows_ok
  policy_Can_holds GetPermissions_holds

section \<open>Correctness of the scope algebra\<close>

lemma index_colon: "index_str s [c] = Some i \<longleftrightarrow> i < length s \<and> s ! i = c \<and> c \<notin> set (take i s)"
proof (induction s arbitrary: i)
  case (Cons a s)
  then show ?case by (cases i) (auto simp: has_prefix_def)
qed simp

lemma splitScope_iff:
  "splitScope s = Some (r, v) \<longleftrightarrow> s = r @ '':'' @ v \<and> r \<noteq> [] \<and> v \<noteq> [] \<and> CHR '':'' \<notin> set r"
proof
  assume "splitScope s = Some (r, v)"
  then obtain i where i: "index_str s '':'' = Some i" "0 < i" "i \<noteq> length s - 1" "r = take i s" "v = drop (i + 1) s"
    by (auto simp: splitScope_def split: option.splits if_splits)
  then have c: "i < length s" "s ! i = CHR '':''" "CHR '':'' \<notin> set (take i s)" by (simp_all add: index_colon)
  from id_take_nth_drop [OF c(1)] have "s = r @ '':'' @ v" using i c by simp
  then show "s = r @ '':'' @ v \<and> r \<noteq> [] \<and> v \<noteq> [] \<and> CHR '':'' \<notin> set r" using i c by auto
next
  assume s: "s = r @ '':'' @ v \<and> r \<noteq> [] \<and> v \<noteq> [] \<and> CHR '':'' \<notin> set r"
  then have "index_str s '':'' = Some (length r)" by (simp add: index_colon)
  with s show "splitScope s = Some (r, v)" by (simp add: splitScope_def)
qed

lemma splitScope_index: "splitScope s = None \<longleftrightarrow> (case index_str s '':'' of None \<Rightarrow> True | Some i \<Rightarrow> i = 0 \<or> i = length s - 1)"
  by (auto simp: splitScope_def split: option.split)

lemma scope_loop_iff:
  "scope_loop gs s r v \<longleftrightarrow> (\<exists>g\<in>set gs. g = s \<or> (\<exists>r' v'. splitScope g = Some (r', v') \<and> r' \<in> {''*'', r} \<and> v' \<in> {''*'', v}))"
  by (induction gs) (auto split: option.split)

lemma isScopeChar_colon [simp]: "\<not> isScopeChar CHR '':''"
  by (simp add: isScopeChar_def is_lower_def is_digit_def)

lemma list_all_upt: "list_all P [0..<n] \<longleftrightarrow> (\<forall>i<n. P i)"
  by (auto simp: list_all_iff)

lemma all_less_split: "(\<forall>i<a + 1 + b. P i) \<longleftrightarrow> (\<forall>i<a. P i) \<and> P a \<and> (\<forall>i<b. P (a + 1 + i))" for a :: nat
proof (intro iffI allI impI; (elim conjE)?)
  fix i
  assume "i < a + 1 + b" "\<forall>i<a. P i" "P a" "\<forall>i<b. P (a + 1 + i)"
  then show "P i"
    by (cases "i < a") (simp, cases "i = a", simp, metis add_diff_inverse_nat less_imp_diff_less linorder_neqE_nat nat_add_left_cancel_less not_less_eq Suc_eq_plus1)
qed simp

lemma ValidScope_split:
  assumes "splitScope s = Some (r, v)"
  shows "ValidScope s \<longleftrightarrow> list_all isScopeChar (r @ v)"
proof -
  from assms have s: "s = r @ '':'' @ v" "r \<noteq> []" "v \<noteq> []" "CHR '':'' \<notin> set r" by (simp_all add: splitScope_iff)
  then have idx: "index_str s '':'' = Some (length r)" by (simp add: index_colon)
  let ?P = "\<lambda>i. if s ! i = CHR '':'' then i = length r else isScopeChar (s ! i)"
  have "list_all ?P [0..<length s] \<longleftrightarrow> (\<forall>i<length r + 1 + length v. ?P i)"
    unfolding list_all_upt using arg_cong [OF s(1), of length] by simp
  also have "\<dots> \<longleftrightarrow> (\<forall>i<length r. ?P i) \<and> (\<forall>i<length v. ?P (length r + 1 + i))"
    using s(1) unfolding all_less_split [of "length r" "length v" ?P] by simp
  also have "\<dots> \<longleftrightarrow> (\<forall>i<length r. isScopeChar (r ! i)) \<and> (\<forall>i<length v. isScopeChar (v ! i))"
    using s by (auto simp: nth_append)
  also have "\<dots> \<longleftrightarrow> list_all isScopeChar (r @ v)" unfolding list_all_append by (simp only: list_all_length)
  finally have "list_all ?P [0..<length s] \<longleftrightarrow> list_all isScopeChar (r @ v)" .
  moreover have "\<not> length r \<le> 0" "length r \<noteq> length s - 1" using s by simp_all
  ultimately show ?thesis unfolding ValidScope_def idx by (simp only: option.case if_False simp_thms)
qed

text \<open>A scope is well formed exactly when it is two non-empty words over the scope vocabulary joined by one colon.
  A required scope, split at its first colon into a resource and a verb, is matched exactly when one of the granted
  strings is that scope or splits into a resource that is the same or the star and a verb that is the same or the
  star; a required string with no such split is matched by nothing, not even by itself.\<close>

lemma scope_algebra:
  "(ValidScope s \<longleftrightarrow> (\<exists>r v. s = r @ '':'' @ v \<and> r \<noteq> [] \<and> v \<noteq> [] \<and> list_all isScopeChar (r @ v)))
   \<and> (ScopeMatch granted s \<longleftrightarrow>
        (\<exists>r v. s = r @ '':'' @ v \<and> r \<noteq> [] \<and> v \<noteq> [] \<and> CHR '':'' \<notin> set r
          \<and> (\<exists>g\<in>set granted. g = s \<or>
               (\<exists>r' v'. g = r' @ '':'' @ v' \<and> v' \<noteq> [] \<and> r' \<in> {''*'', r} \<and> v' \<in> {''*'', v}))))"
proof
  show "ValidScope s \<longleftrightarrow> (\<exists>r v. s = r @ '':'' @ v \<and> r \<noteq> [] \<and> v \<noteq> [] \<and> list_all isScopeChar (r @ v))" (is "_ \<longleftrightarrow> ?R")
  proof (cases "splitScope s")
    case None
    have "\<not> ?R"
    proof
      assume ?R
      then obtain r v where rv: "s = r @ '':'' @ v" "r \<noteq> []" "v \<noteq> []" "list_all isScopeChar r" by auto
      then have "CHR '':'' \<notin> set r" by (auto simp: list_all_iff)
      with rv None show False using splitScope_iff [of s r v] by simp
    qed
    moreover have "\<not> ValidScope s" using None by (auto simp: splitScope_index ValidScope_def split: option.splits)
    ultimately show ?thesis by simp
  next
    case (Some rv)
    obtain r v where "splitScope s = Some (r, v)" using Some by (cases rv) simp
    moreover have "CHR '':'' \<notin> set r'" if "list_all isScopeChar (r' @ v')" for r' v'
      using that by (simp add: list_all_iff) (metis UnI1 isScopeChar_colon)
    ultimately show ?thesis using ValidScope_split [of s r v] splitScope_iff [of s] by (metis option.inject prod.inject)
  qed
  show "ScopeMatch granted s \<longleftrightarrow>
        (\<exists>r v. s = r @ '':'' @ v \<and> r \<noteq> [] \<and> v \<noteq> [] \<and> CHR '':'' \<notin> set r
          \<and> (\<exists>g\<in>set granted. g = s \<or>
               (\<exists>r' v'. g = r' @ '':'' @ v' \<and> v' \<noteq> [] \<and> r' \<in> {''*'', r} \<and> v' \<in> {''*'', v})))"
  proof (cases "splitScope s")
    case None
    then have "\<not> (s = r @ '':'' @ v \<and> r \<noteq> [] \<and> v \<noteq> [] \<and> CHR '':'' \<notin> set r)" for r v
      using splitScope_iff [of s r v] by simp
    then show ?thesis using None unfolding ScopeMatch_def by simp blast
  next
    case (Some rv)
    obtain r v where rv: "splitScope s = Some (r, v)" using Some by (cases rv) simp
    then have uniq: "s = r' @ '':'' @ v' \<and> r' \<noteq> [] \<and> v' \<noteq> [] \<and> CHR '':'' \<notin> set r' \<longleftrightarrow> r' = r \<and> v' = v" for r' v'
      using splitScope_iff [of s r' v'] by auto
    have nc: "r \<noteq> []" "CHR '':'' \<notin> set r" using rv splitScope_iff by auto
    have split: "splitScope g = Some (r', v') \<and> r' \<in> {''*'', r} \<and> v' \<in> {''*'', v}
        \<longleftrightarrow> g = r' @ '':'' @ v' \<and> v' \<noteq> [] \<and> r' \<in> {''*'', r} \<and> v' \<in> {''*'', v}" for g r' v'
      unfolding splitScope_iff using nc by auto
    have "ScopeMatch granted s \<longleftrightarrow> (\<exists>g\<in>set granted. g = s \<or>
               (\<exists>r' v'. g = r' @ '':'' @ v' \<and> v' \<noteq> [] \<and> r' \<in> {''*'', r} \<and> v' \<in> {''*'', v}))"
      by (simp only: ScopeMatch_def rv option.case prod.case scope_loop_iff split)
    also have "\<dots> \<longleftrightarrow> (\<exists>r' v'. (r' = r \<and> v' = v) \<and> (\<exists>g\<in>set granted. g = s \<or>
               (\<exists>r'' v''. g = r'' @ '':'' @ v'' \<and> v'' \<noteq> [] \<and> r'' \<in> {''*'', r'} \<and> v'' \<in> {''*'', v'})))"
      by blast
    finally show ?thesis unfolding uniq [symmetric] by (simp only: conj_assoc)
  qed
qed

section \<open>The table of the checks\<close>

text \<open>What a caller's scopes let through, written out over the strings: an unrestricted caller passes; a
  restricted one must hold the required scope \<open>resource:verb\<close> itself or one with a star for the resource, the verb or both.\<close>

definition scope_held :: "access_ctx \<Rightarrow> string \<Rightarrow> bool" where
  "scope_held c p \<longleftrightarrow>
     (case ctxScopes c of
        None \<Rightarrow> True
      | Some held \<Rightarrow>
          (\<exists>r v. p = r @ '':'' @ v \<and> r \<noteq> [] \<and> v \<noteq> [] \<and> CHR '':'' \<notin> set r
             \<and> (\<exists>g\<in>set held. g = p \<or>
                  (\<exists>r' v'. g = r' @ '':'' @ v' \<and> v' \<noteq> [] \<and> r' \<in> {''*'', r} \<and> v' \<in> {''*'', v}))))"

definition verdict :: "bool \<Rightarrow> access_ctx \<Rightarrow> string \<Rightarrow> Ref \<Rightarrow> bool" where
  "verdict exact c p ref \<longleftrightarrow>
     scope_held c p
     \<and> (case decided c p ref of
          DecisionAllow \<Rightarrow> True
        | DecisionDeny \<Rightarrow> False
        | DecisionAbstain \<Rightarrow> role_holds c p \<or> \<not> exact \<and> role_holds c Wildcard)"

definition told :: "access_ctx \<Rightarrow> string \<Rightarrow> bool \<Rightarrow> string \<Rightarrow> Evaluation list" where
  "told c p granted path = [\<lparr>evPermission = p, evGranted = granted, evPath = path, evRoles = ctxRoles c\<rparr>]"

lemma ScopeAllows_held: "ScopeAllows (Some c) p \<longleftrightarrow> scope_held c p"
  using scope_algebra [of p] by (simp add: ScopeAllows_ok scope_ok_def scope_held_def split: option.split)

lemma observe_told: "observe (Some c) p g path = (g, told c p g path)"
  by (simp add: observe_def told_def GetRoles_def)

lemma verdict_no_decider:
  "verdict exact (c\<lparr>ctxDecider := None\<rparr>) p ref \<longleftrightarrow> scope_held c p \<and> (role_holds c p \<or> \<not> exact \<and> role_holds c Wildcard)"
  by (simp add: verdict_def decided_def scope_held_def role_holds_def split: option.split)

lemma Can_told: "Can (Some c) p =
  (verdict False (c\<lparr>ctxDecider := None\<rparr>) p zeroRef, told c p (verdict False (c\<lparr>ctxDecider := None\<rparr>) p zeroRef) ''can'')"
  by (cases "ctxPolicy c") (simp_all add: role_holds_def [of c] Can_def observe_told verdict_no_decider ScopeAllows_held policy_Can_holds PolicyFromContext_def)

lemma requireResource_decided:
  "requireResource (Some c) p ref = (case decided c p ref of DecisionAllow \<Rightarrow> True | DecisionDeny \<Rightarrow> False
     | DecisionAbstain \<Rightarrow> role_holds c p \<or> role_holds c Wildcard)"
  using role_holds_policy [of c p] role_holds_policy [of c Wildcard]
  by (auto simp: requireResource_def check_defs Let_def split: option.split Decision.split)

text \<open>C38. Every permission check answers by one table, and tells an installed observer of it exactly once, with
  the permission, the verdict, the path it was reached by and the caller's roles. A caller restricted by scopes must
  hold the required scope, itself or through a star, whatever the decider says; then the decider's word is final,
  and where it abstains one of the caller's roles must hold the permission by name or, outside the exact check, the
  superuser permission. \<^verbatim>\<open>Can\<close> is the same with no decider; the route gate decides as the resource check does on
  the empty reference; a resource check that is left to the role policy is observed under its path. A check
  without a context is refused.\<close>

theorem access_decision:
  "CanResource (Some c) p ref =
     (verdict False c p ref,
      told c p (verdict False c p ref)
        (if scope_held c p \<and> decided c p ref = DecisionAbstain then ''can'' else ''can-resource''))
   \<and> CanResourceExact (Some c) p ref = (verdict True c p ref, told c p (verdict True c p ref) ''can-resource-exact'')
   \<and> Can (Some c) p =
       (verdict False (c\<lparr>ctxDecider := None\<rparr>) p zeroRef, told c p (verdict False (c\<lparr>ctxDecider := None\<rparr>) p zeroRef) ''can'')
   \<and> RequirePermission p c = (verdict False c p zeroRef, told c p (verdict False c p zeroRef) ''require-permission'')
   \<and> CanResource None p ref = (False, []) \<and> CanResourceExact None p ref = (False, []) \<and> \<not> fst (Can None p)"
proof (intro conjI)
  show "CanResource (Some c) p ref =
     (verdict False c p ref,
      told c p (verdict False c p ref)
        (if scope_held c p \<and> decided c p ref = DecisionAbstain then ''can'' else ''can-resource''))"
    by (simp add: CanResource_def observe_told ScopeAllows_held Can_told verdict_no_decider verdict_def [of _ c]
        decided_def GetDecider_def GetRoles_def split: option.split Decision.split)
  show "CanResourceExact (Some c) p ref = (verdict True c p ref, told c p (verdict True c p ref) ''can-resource-exact'')"
    by (simp add: CanResourceExact_def observe_told ScopeAllows_held GetPermissions_holds verdict_def
        decided_def GetDecider_def GetRoles_def split: option.split Decision.split)
  show "RequirePermission p c = (verdict False c p zeroRef, told c p (verdict False c p zeroRef) ''require-permission'')"
    by (simp add: RequirePermission_def observe_told ScopeAllows_held requireResource_decided verdict_def
        split: Decision.split)
qed (simp_all add: Can_told CanResource_def CanResourceExact_def, simp add: Can_def PolicyFromContext_def observe_def)

end
