(* ===== verification/GrantStore.thy ===== *)
theory GrantStore
  imports AccessPolicy
begin

text \<open>
  The persistent grants of \<^verbatim>\<open>framework/access/store.go\<close>: a database with the grant rows and the revocation
  tombstones, and the replicas that mirror it in a live role policy. Every database call of an operation is
  numbered, and \<open>fail n\<close> says whether the \<open>n\<close>-th one returns an error: the operations are total functions of
  the database, the store and these faults. A transaction applies all its statements or none; a commit that
  returns an error may still have taken effect, which is the flag \<open>applied\<close>. Commit, change of the live policy and
  publication are one step of the model (\<open>grant_commit\<close>, \<open>store_Revoke\<close>): the code runs them in that order under its transition lock.
\<close>

section \<open>Database and store\<close>

record grant_db =
  grantRows :: "(string \<times> string) list"
  revokedRows :: "(string \<times> string) list"

text \<open>The fields of \<^verbatim>\<open>GrantStore\<close>; \<open>sent\<close> is what \<^verbatim>\<open>publish\<close> handed to the publish queue: the node and the role
  of each frame. \<open>fanoutOn\<close> tells whether \<^verbatim>\<open>send\<close> is set, and \<open>dirtyRoles\<close> is \<^term>\<open>None\<close> for a nil map.\<close>

record GrantStore =
  storePolicy :: "RolePolicy option"
  baseline :: "(string \<times> string list) list"
  nodeID :: string
  fanoutOn :: bool
  dirtyRoles :: "string list option"
  sent :: "(string \<times> string) list"

datatype store_error =
    NoPolicy
  | EmptyRole
  | Capability access_error
  | ErrRevokedByWildcard string string
  | DbError

definition NewGrantStore :: "RolePolicy option \<Rightarrow> GrantStore" where
  "NewGrantStore policy =
     \<lparr>storePolicy = policy, baseline = [], nodeID = [], fanoutOn = False, dirtyRoles = None, sent = []\<rparr>"

definition lookup_list :: "('a \<times> 'b list) list \<Rightarrow> 'a \<Rightarrow> 'b list" where
  "lookup_list m k = (case map_of m k of None \<Rightarrow> [] | Some vs \<Rightarrow> vs)"

text \<open>The statements: \<^verbatim>\<open>INSERT ... ON CONFLICT DO NOTHING\<close> and \<^verbatim>\<open>DELETE\<close> of one row.\<close>

definition insert_grant :: "string \<Rightarrow> string \<Rightarrow> grant_db \<Rightarrow> grant_db" where
  "insert_grant role p db = db\<lparr>grantRows := append_new (role, p) (grantRows db)\<rparr>"

definition delete_grant :: "string \<Rightarrow> string \<Rightarrow> grant_db \<Rightarrow> grant_db" where
  "delete_grant role p db = db\<lparr>grantRows := removeAll (role, p) (grantRows db)\<rparr>"

definition insert_revoked :: "string \<Rightarrow> string \<Rightarrow> grant_db \<Rightarrow> grant_db" where
  "insert_revoked role p db = db\<lparr>revokedRows := append_new (role, p) (revokedRows db)\<rparr>"

definition delete_revoked :: "string \<Rightarrow> string \<Rightarrow> grant_db \<Rightarrow> grant_db" where
  "delete_revoked role p db = db\<lparr>revokedRows := removeAll (role, p) (revokedRows db)\<rparr>"

text \<open>A transaction whose first statement is call \<open>n + 1\<close>: begin, the statements, commit. The result says whether it
  reported success; an error before the commit rolls back, one of the commit leaves the database as \<open>applied\<close> says.\<close>

fun tx_exec :: "(nat \<Rightarrow> bool) \<Rightarrow> bool \<Rightarrow> nat \<Rightarrow> (grant_db \<Rightarrow> grant_db) list \<Rightarrow> grant_db \<Rightarrow> grant_db \<Rightarrow> bool \<times> grant_db" where
  "tx_exec fail applied n [] before db = (if fail n then (False, if applied then db else before) else (True, db))"
| "tx_exec fail applied n (stmt # stmts) before db =
     (if fail n then (False, before) else tx_exec fail applied (n + 1) stmts before (stmt db))"

definition transaction ::
    "(nat \<Rightarrow> bool) \<Rightarrow> bool \<Rightarrow> nat \<Rightarrow> (grant_db \<Rightarrow> grant_db) list \<Rightarrow> grant_db \<Rightarrow> bool \<times> grant_db" where
  "transaction fail applied n stmts db = (if fail n then (False, db) else tx_exec fail applied (n + 1) stmts db db)"

text \<open>The queries: the rows of one role, and all rows grouped by role.\<close>

definition rows_of :: "string \<Rightarrow> (string \<times> string) list \<Rightarrow> string list" where
  "rows_of role rows = map snd (filter (\<lambda>row. fst row = role) rows)"

definition dbPermsForRole :: "bool \<Rightarrow> string \<Rightarrow> grant_db \<Rightarrow> store_error + string list" where
  "dbPermsForRole fail role db = (if fail then Inl DbError else Inr (rows_of role (grantRows db)))"

definition tombstonesForRole :: "bool \<Rightarrow> string \<Rightarrow> grant_db \<Rightarrow> store_error + string list" where
  "tombstonesForRole fail role db = (if fail then Inl DbError else Inr (rows_of role (revokedRows db)))"

fun group_rows :: "(string \<times> string) list \<Rightarrow> (string \<times> string list) list \<Rightarrow> (string \<times> string list) list" where
  "group_rows [] out = out"
| "group_rows ((role, p) # rows) out = group_rows rows (AList.update role (lookup_list out role @ [p]) out)"

definition allDBPerms :: "bool \<Rightarrow> grant_db \<Rightarrow> store_error + (string \<times> string list) list" where
  "allDBPerms fail db = (if fail then Inl DbError else Inr (group_rows (grantRows db) []))"

definition allTombstones :: "bool \<Rightarrow> grant_db \<Rightarrow> store_error + (string \<times> string list) list" where
  "allTombstones fail db = (if fail then Inl DbError else Inr (group_rows (revokedRows db) []))"

definition permIn :: "string list \<Rightarrow> string \<Rightarrow> bool" where
  "permIn perms want = List.member perms want"

definition subtractPerms :: "string list \<Rightarrow> string list \<Rightarrow> string list" where
  "subtractPerms perms remove = (if remove = [] then perms else filter (\<lambda>p. p \<notin> set remove) perms)"

section \<open>Granting\<close>

text \<open>The loop over the tombstones of the role: the first wildcard revocation that the grant does not lift and
  that covers a prepared permission.\<close>

fun covered_loop :: "RolePolicy \<Rightarrow> string list \<Rightarrow> string list \<Rightarrow> string list \<Rightarrow> store_error option" where
  "covered_loop rp lifted prepared [] = None"
| "covered_loop rp lifted prepared (stone # stones) =
     (if permIn lifted stone then covered_loop rp lifted prepared stones
      else case find (permIn prepared) (prepareRevokes rp [stone]) of
        Some covered \<Rightarrow> Some (ErrRevokedByWildcard stone covered)
      | None \<Rightarrow> covered_loop rp lifted prepared stones)"

definition refuseCoveredGrant ::
    "bool \<Rightarrow> RolePolicy \<Rightarrow> grant_db \<Rightarrow> string \<Rightarrow> string list \<Rightarrow> string list \<Rightarrow> store_error + string list" where
  "refuseCoveredGrant fail rp db role perms prepared =
     (let lifted = prepareRevokes rp perms in
      case tombstonesForRole fail role db of
        Inl e \<Rightarrow> Inl e
      | Inr tombstones \<Rightarrow>
          (case covered_loop rp lifted prepared tombstones of Some e \<Rightarrow> Inl e | None \<Rightarrow> Inr lifted))"

text \<open>The part of \<^verbatim>\<open>Grant\<close> before its transaction: the prepared permissions and the tombstones the grant lifts.\<close>

definition grant_begin ::
    "bool \<Rightarrow> string \<Rightarrow> string list \<Rightarrow> grant_db \<Rightarrow> GrantStore \<Rightarrow> store_error + (string list \<times> string list) option" where
  "grant_begin fail role perms db s =
     (case storePolicy s of
        None \<Rightarrow> Inl NoPolicy
      | Some rp \<Rightarrow>
          if role = [] then Inl EmptyRole
          else if perms = [] then Inr None
          else case prepareGrants rp perms of
            Inl e \<Rightarrow> Inl (Capability e)
          | Inr prepared \<Rightarrow>
              (case refuseCoveredGrant fail rp db role perms prepared of
                 Inl e \<Rightarrow> Inl e
               | Inr lifted \<Rightarrow> Inr (Some (prepared, lifted))))"

definition CheckGrant :: "bool \<Rightarrow> string \<Rightarrow> string list \<Rightarrow> grant_db \<Rightarrow> GrantStore \<Rightarrow> store_error option" where
  "CheckGrant fail role perms db s =
     (case storePolicy s of
        None \<Rightarrow> Some NoPolicy
      | Some rp \<Rightarrow>
          if role = [] then Some EmptyRole
          else if perms = [] then None
          else case prepareGrants rp perms of
            Inl e \<Rightarrow> Some (Capability e)
          | Inr prepared \<Rightarrow>
              (case refuseCoveredGrant fail rp db role perms prepared of Inl e \<Rightarrow> Some e | Inr _ \<Rightarrow> None))"

definition publish :: "string \<Rightarrow> GrantStore \<Rightarrow> GrantStore" where
  "publish role s = (if fanoutOn s then s\<lparr>sent := sent s @ [(nodeID s, role)]\<rparr> else s)"

text \<open>The part of \<^verbatim>\<open>Grant\<close> from its transaction on. The commit, the change of the live policy and the hand-over of the frame
  are one step: they happen under the store's transition lock, and \<^term>\<open>sent\<close> holds the frame from the commit on.\<close>

definition grant_commit ::
    "(nat \<Rightarrow> bool) \<Rightarrow> bool \<Rightarrow> string \<Rightarrow> string list \<Rightarrow> string list \<Rightarrow> grant_db \<Rightarrow> GrantStore
      \<Rightarrow> store_error option \<times> grant_db \<times> GrantStore" where
  "grant_commit fail applied role prepared lifted db s =
     (case transaction fail applied 1 (map (insert_grant role) prepared @ map (delete_revoked role) lifted) db of
        (False, db') \<Rightarrow> (Some DbError, db', s)
      | (True, db') \<Rightarrow>
          (None, db', publish role (s\<lparr>storePolicy := map_option (grantPrepared role prepared) (storePolicy s)\<rparr>)))"

definition store_Grant ::
    "(nat \<Rightarrow> bool) \<Rightarrow> bool \<Rightarrow> string \<Rightarrow> string list \<Rightarrow> grant_db \<Rightarrow> GrantStore \<Rightarrow> store_error option \<times> grant_db \<times> GrantStore" where
  "store_Grant fail applied role perms db s =
     (case grant_begin (fail 0) role perms db s of
        Inl e \<Rightarrow> (Some e, db, s)
      | Inr None \<Rightarrow> (None, db, s)
      | Inr (Some (prepared, lifted)) \<Rightarrow> grant_commit fail applied role prepared lifted db s)"

section \<open>Revoking\<close>

definition store_Revoke ::
    "(nat \<Rightarrow> bool) \<Rightarrow> bool \<Rightarrow> string \<Rightarrow> string list \<Rightarrow> grant_db \<Rightarrow> GrantStore \<Rightarrow> store_error option \<times> grant_db \<times> GrantStore" where
  "store_Revoke fail applied role perms db s =
     (case storePolicy s of
        None \<Rightarrow> (Some NoPolicy, db, s)
      | Some rp \<Rightarrow>
          if role = [] then (Some EmptyRole, db, s)
          else if perms = [] then (None, db, s)
          else let prepared = prepareRevokes rp perms in
            (case transaction fail applied 0 (map (delete_grant role) prepared @ map (insert_revoked role) prepared) db of
               (False, db') \<Rightarrow> (Some DbError, db', s)
             | (True, db') \<Rightarrow> (None, db', publish role (s\<lparr>storePolicy := Some (Revoke role prepared rp)\<rparr>))))"

section \<open>Reloading\<close>

definition reload_one :: "RolePolicy \<Rightarrow> string \<Rightarrow> string list" where
  "reload_one rp p = (case prepareGrants rp [p] of Inl _ \<Rightarrow> [] | Inr one \<Rightarrow> one)"

definition prepareReload :: "RolePolicy \<Rightarrow> string list \<Rightarrow> string list" where
  "prepareReload rp perms =
     (case prepareGrants rp perms of
        Inr expanded \<Rightarrow> expanded
      | Inl _ \<Rightarrow> fold append_new (concat (map (reload_one rp) perms)) [])"

definition mergeBaseline :: "GrantStore \<Rightarrow> RolePolicy \<Rightarrow> string \<Rightarrow> string list \<Rightarrow> string list \<Rightarrow> string list" where
  "mergeBaseline s rp role dbPerms tombstones =
     (let out = fold append_new dbPerms (fold append_new (lookup_list (baseline s) role) [])
      in subtractPerms (prepareReload rp out) (prepareRevokes rp tombstones))"

text \<open>The roles of a full reload, and the reload proper from the rows read so far. An empty role asks for all
  roles. \<open>granted\<close> is the first query's result; the tombstones are read by the second one.\<close>

definition reload_roles ::
    "GrantStore \<Rightarrow> (string \<times> string list) list \<Rightarrow> (string \<times> string list) list \<Rightarrow> string list" where
  "reload_roles s byRole tombstones = remdups (map fst (baseline s) @ map fst byRole @ map fst tombstones)"

definition reload_begin :: "bool \<Rightarrow> string \<Rightarrow> grant_db \<Rightarrow> store_error + (string \<times> string list) list" where
  "reload_begin fail role db =
     (if role = [] then allDBPerms fail db
      else case dbPermsForRole fail role db of Inl e \<Rightarrow> Inl e | Inr ps \<Rightarrow> Inr [(role, ps)])"

definition reload_finish ::
    "bool \<Rightarrow> string \<Rightarrow> (string \<times> string list) list \<Rightarrow> grant_db \<Rightarrow> RolePolicy \<Rightarrow> GrantStore
      \<Rightarrow> store_error option \<times> GrantStore" where
  "reload_finish fail role granted db rp s =
     (if role = [] then
        (case allTombstones fail db of
           Inl e \<Rightarrow> (Some e, s)
         | Inr tombstones \<Rightarrow>
             (None, s\<lparr>storePolicy := Some (fold (\<lambda>r. replacePrepared r
                (mergeBaseline s rp r (lookup_list granted r) (lookup_list tombstones r)))
                (reload_roles s granted tombstones) rp)\<rparr>))
      else
        (case tombstonesForRole fail role db of
           Inl e \<Rightarrow> (Some e, s)
         | Inr tombstones \<Rightarrow>
             (None, s\<lparr>storePolicy :=
                Some (replacePrepared role (mergeBaseline s rp role (lookup_list granted role) tombstones) rp)\<rparr>)))"

definition reloadRole :: "(nat \<Rightarrow> bool) \<Rightarrow> string \<Rightarrow> grant_db \<Rightarrow> GrantStore \<Rightarrow> store_error option \<times> GrantStore" where
  "reloadRole fail role db s =
     (case storePolicy s of
        None \<Rightarrow> (None, s)
      | Some rp \<Rightarrow>
          (case reload_begin (fail 0) role db of
             Inl e \<Rightarrow> (Some e, s)
           | Inr granted \<Rightarrow> reload_finish (fail 1) role granted db rp s))"

section \<open>Loading at boot\<close>

text \<open>The loop over the grant rows; the scan of row \<open>n\<close> and, after the last row, the check of the iteration are
  the calls that can fail. An error returns with the grants made so far.\<close>

fun load_loop ::
    "(nat \<Rightarrow> bool) \<Rightarrow> nat \<Rightarrow> (string \<times> string list) list \<Rightarrow> (string \<times> string) list \<Rightarrow> RolePolicy
      \<Rightarrow> store_error option \<times> RolePolicy" where
  "load_loop fail n tombstones [] rp = (if fail n then Some DbError else None, rp)"
| "load_loop fail n tombstones ((role, p) # rows) rp =
     (if fail n then (Some DbError, rp)
      else if permIn (lookup_list tombstones role) p then load_loop fail (n + 1) tombstones rows rp
      else case Grant role [p] rp of
        (Some e, rp') \<Rightarrow> (Some (Capability e), rp')
      | (None, rp') \<Rightarrow> load_loop fail (n + 1) tombstones rows rp')"

text \<open>The baseline without the tombstones.\<close>

definition baseline_less :: "(string \<times> string list) list \<Rightarrow> (string \<times> string list) list \<Rightarrow> (string \<times> string list) list" where
  "baseline_less tombstones snap = map (\<lambda>(role, ps). (role, subtractPerms ps (lookup_list tombstones role))) snap"

definition apply_tombstone :: "string \<times> string list \<Rightarrow> RolePolicy \<Rightarrow> RolePolicy" where
  "apply_tombstone rt rp =
     (let toRevoke = filter (permIn (PermissionsOf rp (fst rt))) (snd rt)
      in if toRevoke = [] then rp else Revoke (fst rt) toRevoke rp)"

definition LoadInto ::
    "(nat \<Rightarrow> bool) \<Rightarrow> RolePolicy option \<Rightarrow> grant_db \<Rightarrow> GrantStore \<Rightarrow> store_error option \<times> GrantStore" where
  "LoadInto fail policy db s0 =
     (let s = (if policy = None then s0 else s0\<lparr>storePolicy := policy\<rparr>) in
      case storePolicy s of
        None \<Rightarrow> (Some NoPolicy, s)
      | Some rp \<Rightarrow>
          (case allTombstones (fail 0) db of
             Inl e \<Rightarrow> (Some e, s)
           | Inr stones \<Rightarrow>
               let tombstones = map (\<lambda>(role, ts). (role, prepareRevokes rp ts)) stones;
                   s' = s\<lparr>baseline := baseline_less tombstones (Snapshot rp)\<rparr>
               in if fail 1 then (Some DbError, s')
                  else case load_loop fail 2 tombstones (grantRows db) rp of
                    (Some e, rp') \<Rightarrow> (Some e, s'\<lparr>storePolicy := Some rp'\<rparr>)
                  | (None, rp') \<Rightarrow> (None, s'\<lparr>storePolicy := Some (fold apply_tombstone tombstones rp')\<rparr>)))"

section \<open>Refresh signals\<close>

text \<open>\<open>subscribed\<close> is whether the bus accepted the subscription.\<close>

definition SetFanout :: "string \<Rightarrow> bool \<Rightarrow> GrantStore \<Rightarrow> bool \<times> GrantStore" where
  "SetFanout node subscribed s =
     (if subscribed then (True, s\<lparr>nodeID := node, fanoutOn := True, dirtyRoles := Some []\<rparr>)
      else (False, s\<lparr>nodeID := [], fanoutOn := False, dirtyRoles := None\<rparr>))"

definition markDirty :: "string \<Rightarrow> GrantStore \<Rightarrow> GrantStore" where
  "markDirty role s = s\<lparr>dirtyRoles := map_option (append_new role) (dirtyRoles s)\<rparr>"

text \<open>A frame is the node and the role it decodes to, or \<^term>\<open>None\<close> when it does not decode.\<close>

definition handleRemote :: "(string \<times> string) option \<Rightarrow> GrantStore \<Rightarrow> GrantStore" where
  "handleRemote frame s =
     (case frame of
        None \<Rightarrow> s
      | Some (fromNode, role) \<Rightarrow> if fromNode = nodeID s then s else markDirty role s)"

text \<open>\<^verbatim>\<open>drainDirty\<close>: the snapshot it works on, one turn of its loop after the reload, and the whole pass. The result
  tells whether a reload failed.\<close>

definition drain_start :: "GrantStore \<Rightarrow> string list \<times> GrantStore" where
  "drain_start s = (sort (case dirtyRoles s of None \<Rightarrow> [] | Some rs \<Rightarrow> rs), s\<lparr>dirtyRoles := map_option (\<lambda>_. []) (dirtyRoles s)\<rparr>)"

definition drain_done :: "string \<Rightarrow> store_error option \<Rightarrow> GrantStore \<Rightarrow> bool \<times> GrantStore" where
  "drain_done role err s = (if err \<noteq> None then (True, markDirty role s) else (False, s))"

fun drain_loop :: "(nat \<Rightarrow> nat \<Rightarrow> bool) \<Rightarrow> nat \<Rightarrow> string list \<Rightarrow> grant_db \<Rightarrow> GrantStore \<Rightarrow> bool \<times> GrantStore" where
  "drain_loop fail n [] db s = (False, s)"
| "drain_loop fail n (role # roles) db s =
     (let (err, s1) = reloadRole (fail n) role db s;
          (failed, s2) = drain_done role err s1;
          (anyFailed, s3) = drain_loop fail (n + 1) roles db s2
      in (failed \<or> anyFailed, s3))"

definition drainDirty :: "(nat \<Rightarrow> nat \<Rightarrow> bool) \<Rightarrow> grant_db \<Rightarrow> GrantStore \<Rightarrow> bool \<times> GrantStore" where
  "drainDirty fail db s = (let (roles, s') = drain_start s in drain_loop fail 0 roles db s')"

section \<open>What a role should hold\<close>

text \<open>The interface between the policy and the store: a permission stands for some permissions when granted and covers
  some when revoked. What a set of grants \<open>B\<close> leaves due under tombstones \<open>T\<close>, and how a grant and a revocation change it,
  follow from six laws.\<close>

locale revocation =
  fixes grants :: "'p \<Rightarrow> 'p set" and covering :: "'p \<Rightarrow> 'p set" and ok :: "'p \<Rightarrow> bool"
  assumes grants_covered: "grants p \<subseteq> covering p"
    and covering_self: "p \<in> covering p"
    and covering_closed: "q \<in> covering p \<Longrightarrow> covering q \<subseteq> covering p"
    and grants_closed: "q \<in> grants p \<Longrightarrow> grants q \<subseteq> grants p"
    and covered_grant: "x \<in> grants y \<Longrightarrow> x \<in> covering p \<Longrightarrow> x \<in> grants p"
    and ok_grants: "ok p \<Longrightarrow> q \<in> grants p \<Longrightarrow> ok q"
begin

definition covered :: "'p set \<Rightarrow> 'p set" where "covered T = (\<Union>p\<in>T. covering p)"

definition due :: "'p set \<Rightarrow> 'p set \<Rightarrow> 'p set" where "due B T = (\<Union>p\<in>{p \<in> B. ok p}. grants p) - covered T"

lemma grants_self: "q \<in> grants p \<Longrightarrow> q \<in> grants q"
  using covered_grant covering_self by blast

lemma covered_idem: "covered (covered T) = covered T"
proof
  show "covered (covered T) \<subseteq> covered T" using covering_closed unfolding covered_def by blast
  show "covered T \<subseteq> covered (covered T)" using covering_self unfolding covered_def by blast
qed

lemma covered_grants:
  assumes "y \<in> covered T" "x \<in> grants y"
  shows "x \<in> covered T"
proof -
  from assms(1) obtain p where "p \<in> T" "y \<in> covering p" by (auto simp: covered_def)
  moreover have "x \<in> covering y" using assms(2) grants_covered by blast
  ultimately show ?thesis using covering_closed unfolding covered_def by blast
qed

text \<open>A grant that no remaining tombstone covers adds what it stands for.\<close>

lemma due_grant:
  assumes ok: "\<And>p. p \<in> P \<Longrightarrow> ok p" and Q: "Q = (\<Union>p\<in>P. grants p)" and free: "covered (T - covered P) \<inter> Q = {}"
  shows "due (B \<union> Q) (T - covered P) = due B T \<union> Q"
proof
  show "due B T \<union> Q \<subseteq> due (B \<union> Q) (T - covered P)"
  proof
    fix x
    assume "x \<in> due B T \<union> Q"
    then show "x \<in> due (B \<union> Q) (T - covered P)"
    proof
      assume "x \<in> due B T"
      then show ?thesis by (auto simp: due_def covered_def)
    next
      assume x: "x \<in> Q"
      then obtain p where p: "p \<in> P" "x \<in> grants p" by (auto simp: Q)
      have "ok x" "x \<in> grants x" using ok_grants [OF ok p(2)] grants_self [OF p(2)] p(1) by auto
      with x free show ?thesis by (auto simp: due_def)
    qed
  qed
  show "due (B \<union> Q) (T - covered P) \<subseteq> due B T \<union> Q"
  proof
    fix x
    assume "x \<in> due (B \<union> Q) (T - covered P)"
    then obtain y where y: "y \<in> B \<union> Q" "ok y" "x \<in> grants y" and x: "x \<notin> covered (T - covered P)" by (auto simp: due_def)
    show "x \<in> due B T \<union> Q"
    proof (cases "y \<in> Q")
      case True
      then show ?thesis using grants_closed y(3) unfolding Q by blast
    next
      case False
      show ?thesis
      proof (cases "x \<in> covered T")
        case True
        with x have "x \<in> covered (covered P)" by (auto simp: covered_def)
        then obtain p where "p \<in> P" "x \<in> covering p" unfolding covered_idem by (auto simp: covered_def)
        then show ?thesis using covered_grant [OF y(3)] by (auto simp: Q)
      qed (use False y in \<open>auto simp: due_def\<close>)
    qed
  qed
qed

text \<open>A revocation takes away what it covers.\<close>

lemma due_revoke:
  assumes "B - covered P \<subseteq> B'" "B' \<subseteq> B"
  shows "due B' (T \<union> covered P) = due B T - covered P"
proof -
  have un: "covered (T \<union> covered P) = covered T \<union> covered P" using covered_idem [of P] by (simp add: covered_def)
  have "x \<in> due B' (T \<union> covered P)" if "x \<in> due B T - covered P" for x
  proof -
    from that obtain y where y: "y \<in> B" "ok y" "x \<in> grants y" and x: "x \<notin> covered T" "x \<notin> covered P" by (auto simp: due_def)
    have "y \<in> B'" using covered_grants [OF _ y(3)] x(2) y(1) assms(1) by blast
    with y x show ?thesis unfolding due_def un by auto
  qed
  moreover have "due B' (T \<union> covered P) \<subseteq> due B T - covered P" using assms(2) unfolding due_def un by auto
  ultimately show ?thesis by blast
qed

end

text \<open>A policy accepts a permission unless it is strict and refuses it. The permissions a role should hold, from
  the grants \<open>B\<close> of code and database and the tombstones \<open>T\<close>: what the accepted grants stand for, without what the
  tombstones cover.\<close>

definition accepts :: "RolePolicy \<Rightarrow> string \<Rightarrow> bool" where
  "accepts rp p \<longleftrightarrow> \<not> (strictCapabilities rp \<and> refused (capabilities rp) p)"

definition covers :: "RolePolicy \<Rightarrow> string set \<Rightarrow> string set" where
  "covers rp T = (\<Union>p\<in>T. set (cover_list (capabilities rp) p))"

definition target :: "RolePolicy \<Rightarrow> string set \<Rightarrow> string set \<Rightarrow> string set" where
  "target rp B T = (\<Union>p\<in>{p \<in> B. accepts rp p}. set (grant_list (capabilities rp) p)) - covers rp T"

lemma grant_list_closed: "q \<in> set (grant_list reg p) \<Longrightarrow> set (grant_list reg q) \<subseteq> set (grant_list reg p)"
  using expand_closed [of q p reg] by (auto simp: grant_list_def split: if_splits)

lemma cover_list_closed: "q \<in> set (cover_list reg p) \<Longrightarrow> set (cover_list reg q) \<subseteq> set (cover_list reg p)"
  using expand_closed [of q p reg] by (auto simp: cover_list_def)

lemma covered_grant_list:
  assumes "x \<in> set (grant_list reg y)" "x \<in> set (cover_list reg p)"
  shows "x \<in> set (grant_list reg p)"
proof (cases "x \<in> set (expand p reg)")
  case False
  with assms(2) have x: "x = p" by (simp add: cover_list_def)
  show ?thesis
  proof (cases "expand p reg = []")
    case False
    then obtain c where "c \<in> set (expand p reg)" by (cases "expand p reg") auto
    then obtain b where b: "p = b @ '':*''" by (auto simp: expand_iff)
    have "p \<in> set reg" using assms(1) False x by (auto simp: grant_list_def expand_iff split: if_splits)
    with b have "p \<in> set (expand p reg)" by (simp add: expand_iff)
    with x False show ?thesis by (simp add: grant_list_def)
  qed (simp add: x grant_list_def)
qed (auto simp: grant_list_def)

lemma accepts_grant: "accepts rp p \<Longrightarrow> q \<in> set (grant_list (capabilities rp) p) \<Longrightarrow> accepts rp q"
  by (auto simp: accepts_def refused_def grant_list_def expand_iff split: if_splits)

interpretation perm: revocation "\<lambda>p. set (grant_list (capabilities rp) p)" "\<lambda>p. set (cover_list (capabilities rp) p)" "accepts rp"
  for rp
proof
  fix p q x y
  show "set (grant_list (capabilities rp) p) \<subseteq> set (cover_list (capabilities rp) p)" by (rule grant_cover)
  show "p \<in> set (cover_list (capabilities rp) p)" by (simp add: cover_list_def)
  show "set (cover_list (capabilities rp) q) \<subseteq> set (cover_list (capabilities rp) p)" if "q \<in> set (cover_list (capabilities rp) p)"
    using that by (rule cover_list_closed)
  show "set (grant_list (capabilities rp) q) \<subseteq> set (grant_list (capabilities rp) p)" if "q \<in> set (grant_list (capabilities rp) p)"
    using that by (rule grant_list_closed)
  show "x \<in> set (grant_list (capabilities rp) p)"
    if "x \<in> set (grant_list (capabilities rp) y)" "x \<in> set (cover_list (capabilities rp) p)"
    using that by (rule covered_grant_list)
  show "accepts rp q" if "accepts rp p" "q \<in> set (grant_list (capabilities rp) p)"
    using that by (rule accepts_grant)
qed

lemma perm_covered: "perm.covered rp = covers rp"
  by (rule ext) (simp add: perm.covered_def covers_def)

lemma perm_due: "perm.due rp = target rp"
  by (intro ext) (simp add: perm.due_def target_def perm_covered)

lemmas grant_list_self = perm.grants_self
lemmas covers_idem = perm.covered_idem [unfolded perm_covered]
lemmas covers_grant = perm.covered_grants [unfolded perm_covered]
lemmas target_grant = perm.due_grant [unfolded perm_covered perm_due]
lemmas target_revoke = perm.due_revoke [unfolded perm_covered perm_due]

lemma covers_Un: "covers rp (S \<union> T) = covers rp S \<union> covers rp T"
  by (simp add: covers_def)

lemma covers_empty [simp]: "covers rp {} = {}"
  by (simp add: covers_def)

lemma covers_member: "T \<subseteq> covers rp T"
  by (auto simp: covers_def cover_list_def)

section \<open>The code computes it\<close>

definition grants_of :: "grant_db \<Rightarrow> string \<Rightarrow> string set" where
  "grants_of db r = set (rows_of r (grantRows db))"

definition stones_of :: "grant_db \<Rightarrow> string \<Rightarrow> string set" where
  "stones_of db r = set (rows_of r (revokedRows db))"

text \<open>The live policy shows a role as the database and the captured code grants say.\<close>

definition synced :: "grant_db \<Rightarrow> GrantStore \<Rightarrow> string \<Rightarrow> bool" where
  "synced db s r \<longleftrightarrow>
     (case storePolicy s of
        None \<Rightarrow> True
      | Some rp \<Rightarrow> set (permissionsFor rp r) = target rp (set (lookup_list (baseline s) r) \<union> grants_of db r) (stones_of db r))"

lemma rows_of_iff: "p \<in> set (rows_of r rows) \<longleftrightarrow> (r, p) \<in> set rows"
  by (force simp: rows_of_def)

lemma grants_of_iff: "p \<in> grants_of db r \<longleftrightarrow> (r, p) \<in> set (grantRows db)"
  by (simp add: grants_of_def rows_of_iff)

lemma stones_of_iff: "p \<in> stones_of db r \<longleftrightarrow> (r, p) \<in> set (revokedRows db)"
  by (simp add: stones_of_def rows_of_iff)

text \<open>A transaction that reports success has applied its statements; one that reports an error has applied nothing, or all
  of them when the error is the commit's and the commit took effect.\<close>

lemma transaction_cases:
  assumes "transaction fail applied n stmts db = (ok, db')"
  shows "ok \<Longrightarrow> db' = fold (\<lambda>f. f) stmts db" "\<not> ok \<Longrightarrow> db' = db \<or> applied \<and> db' = fold (\<lambda>f. f) stmts db"
proof -
  have "tx_exec fail applied n stmts before db = (ok, db') \<Longrightarrow>
      (if ok then db' = fold (\<lambda>f. f) stmts db else db' = before \<or> applied \<and> db' = fold (\<lambda>f. f) stmts db)" for n before
    by (induction fail applied n stmts before db rule: tx_exec.induct) (auto split: if_splits)
  then show "ok \<Longrightarrow> db' = fold (\<lambda>f. f) stmts db" "\<not> ok \<Longrightarrow> db' = db \<or> applied \<and> db' = fold (\<lambda>f. f) stmts db"
    using assms by (auto simp: transaction_def split: if_splits)
qed

lemma transaction_ok: "(\<And>k. \<not> fail k) \<Longrightarrow> transaction fail applied n stmts db = (True, fold (\<lambda>f. f) stmts db)"
proof -
  assume ok: "\<And>k. \<not> fail k"
  have "tx_exec fail applied n stmts before db = (True, fold (\<lambda>f. f) stmts db)" for n before
    by (induction stmts arbitrary: n db) (simp_all add: ok)
  then show ?thesis by (simp add: transaction_def ok)
qed

lemma fold_insert_grant:
  "set (grantRows (fold (\<lambda>f. f) (map (insert_grant r) ps) db)) = set (grantRows db) \<union> Pair r ` set ps"
  "revokedRows (fold (\<lambda>f. f) (map (insert_grant r) ps) db) = revokedRows db"
  by (induction ps arbitrary: db) (auto simp: insert_grant_def)

lemma fold_delete_revoked:
  "set (revokedRows (fold (\<lambda>f. f) (map (delete_revoked r) ps) db)) = set (revokedRows db) - Pair r ` set ps"
  "grantRows (fold (\<lambda>f. f) (map (delete_revoked r) ps) db) = grantRows db"
  by (induction ps arbitrary: db) (auto simp: delete_revoked_def)

lemma fold_delete_grant:
  "set (grantRows (fold (\<lambda>f. f) (map (delete_grant r) ps) db)) = set (grantRows db) - Pair r ` set ps"
  "revokedRows (fold (\<lambda>f. f) (map (delete_grant r) ps) db) = revokedRows db"
  by (induction ps arbitrary: db) (auto simp: delete_grant_def)

lemma fold_insert_revoked:
  "set (revokedRows (fold (\<lambda>f. f) (map (insert_revoked r) ps) db)) = set (revokedRows db) \<union> Pair r ` set ps"
  "grantRows (fold (\<lambda>f. f) (map (insert_revoked r) ps) db) = grantRows db"
  by (induction ps arbitrary: db) (auto simp: insert_revoked_def)

lemma grant_tx:
  assumes "db' = fold (\<lambda>f. f) (map (insert_grant r) ps @ map (delete_revoked r) ls) db"
  shows "grants_of db' r' = grants_of db r' \<union> (if r' = r then set ps else {})"
    "stones_of db' r' = stones_of db r' - (if r' = r then set ls else {})"
  unfolding assms set_eq_iff
  by (auto simp: grants_of_iff stones_of_iff fold_insert_grant fold_delete_revoked)

lemma revoke_tx:
  assumes "db' = fold (\<lambda>f. f) (map (delete_grant r) ps @ map (insert_revoked r) ps) db"
  shows "grants_of db' r' = grants_of db r' - (if r' = r then set ps else {})"
    "stones_of db' r' = stones_of db r' \<union> (if r' = r then set ps else {})"
  unfolding assms set_eq_iff
  by (auto simp: grants_of_iff stones_of_iff fold_delete_grant fold_insert_revoked)

lemma prepareRevokes_covers: "set (prepareRevokes rp ps) = covers rp (set ps)"
  by (simp add: set_prepareRevokes covers_def set_cover_list_sort)

lemma prepareGrants_Inr:
  assumes "prepareGrants rp ps = Inr prepared"
  shows "set prepared = (\<Union>p\<in>set ps. set (grant_list (capabilities rp) p))" "p \<in> set ps \<Longrightarrow> accepts rp p"
  using assms by (auto simp: prepareGrants_eq set_grant_list_sort accepts_def refused_sort find_None_iff
      split: option.splits if_splits)

lemma prepareGrants_ne: "prepareGrants rp ps = Inr prepared \<Longrightarrow> ps \<noteq> [] \<Longrightarrow> prepared \<noteq> []"
  using prepareGrants_Inr(1) [of rp ps prepared] by (cases ps) (auto simp: grant_list_def split: if_splits)

lemma prepareGrants_Inl: "prepareGrants rp ps = Inl e \<Longrightarrow> \<exists>p\<in>set ps. \<not> accepts rp p"
  by (auto simp: prepareGrants_eq accepts_def refused_sort find_Some_iff split: option.splits if_splits)

lemma set_reload_one: "set (reload_one rp p) = (if accepts rp p then set (grant_list (capabilities rp) p) else {})"
  using prepareGrants_Inl [of rp "[p]"] prepareGrants_Inr [of rp "[p]"]
  by (cases "prepareGrants rp [p]") (simp_all add: reload_one_def)

lemma set_prepareReload: "set (prepareReload rp ps) = (\<Union>p\<in>{p \<in> set ps. accepts rp p}. set (grant_list (capabilities rp) p))"
  using prepareGrants_Inr [of rp ps] by (cases "prepareGrants rp ps") (auto simp: prepareReload_def set_reload_one split: if_splits)

lemma set_subtractPerms: "set (subtractPerms ps remove) = set ps - set remove"
  by (auto simp: subtractPerms_def)

lemma set_mergeBaseline:
  "set (mergeBaseline s rp r rows stones) = target rp (set (lookup_list (baseline s) r) \<union> set rows) (set stones)"
  by (simp add: mergeBaseline_def Let_def set_subtractPerms set_prepareReload prepareRevokes_covers target_def Un_commute)

lemma covered_loop_None:
  "covered_loop rp lifted prepared stones = None \<longleftrightarrow> covers rp (set stones - set lifted) \<inter> set prepared = {}"
proof (induction stones)
  case (Cons stone stones)
  have "find (permIn prepared) (prepareRevokes rp [stone]) = None \<longleftrightarrow> covers rp {stone} \<inter> set prepared = {}"
    by (auto simp: find_None_iff permIn_def prepareRevokes_covers)
  moreover have "set (stone # stones) - set lifted = (if stone \<in> set lifted then {} else {stone}) \<union> (set stones - set lifted)"
    by auto
  ultimately show ?case using Cons.IH by (auto simp: permIn_def covers_Un split: option.split)
qed (simp add: covers_def)

section \<open>Local operations keep a store in step with the database\<close>

lemma registry_ops [simp]:
  "capabilities (fold (\<lambda>r. replacePrepared r (f r)) rs rp) = capabilities rp"
  "strictCapabilities (fold (\<lambda>r. replacePrepared r (f r)) rs rp) = strictCapabilities rp"
  by (induction rs arbitrary: rp) simp_all

lemma target_registry:
  "capabilities rp' = capabilities rp \<Longrightarrow> strictCapabilities rp' = strictCapabilities rp \<Longrightarrow> target rp' B T = target rp B T"
  by (simp add: target_def accepts_def covers_def)

lemma publish_simps [simp]:
  "storePolicy (publish r s) = storePolicy s" "baseline (publish r s) = baseline s"
  "nodeID (publish r s) = nodeID s" "fanoutOn (publish r s) = fanoutOn s" "dirtyRoles (publish r s) = dirtyRoles s"
  "fanoutOn s \<Longrightarrow> sent (publish r s) = sent s @ [(nodeID s, r)]"
  by (simp_all add: publish_def)

lemma synced_Some:
  "storePolicy s = Some rp \<Longrightarrow> synced db s r \<longleftrightarrow>
     set (permissionsFor rp r) = target rp (set (lookup_list (baseline s) r) \<union> grants_of db r) (stones_of db r)"
  by (simp add: synced_def)

lemma synced_grant:
  assumes s: "storePolicy s = Some rp" and prep: "prepareGrants rp perms = Inr prepared"
    and free: "covers rp (stones_of db role - covers rp (set perms)) \<inter> set prepared = {}"
    and tx: "db' = fold (\<lambda>f. f) (map (insert_grant role) prepared @ map (delete_revoked role) (prepareRevokes rp perms)) db"
    and sync: "synced db s r"
  shows "synced db' (publish role (s\<lparr>storePolicy := Some (grantPrepared role prepared rp)\<rparr>)) r"
proof -
  let ?B = "set (lookup_list (baseline s) r)"
  have "target rp (?B \<union> grants_of db' r) (stones_of db' r) = target rp (?B \<union> grants_of db r) (stones_of db r) \<union> (if r = role then set prepared else {})"
    using target_grant [of "set perms" rp "set prepared" "stones_of db role" "?B \<union> grants_of db role"]
      prepareGrants_Inr [OF prep] free
    unfolding grant_tx [OF tx] prepareRevokes_covers by (auto simp: Un_assoc)
  with sync show ?thesis
    by (auto simp: synced_def s permissionsFor_grantPrepared target_registry [of "grantPrepared role prepared rp" rp])
qed

lemma synced_revoke:
  assumes s: "storePolicy s = Some rp"
    and tx: "db' = fold (\<lambda>f. f) (map (delete_grant role) (prepareRevokes rp perms) @ map (insert_revoked role) (prepareRevokes rp perms)) db"
    and sync: "synced db s r"
  shows "synced db' (publish role (s\<lparr>storePolicy := Some (Revoke role (prepareRevokes rp perms) rp)\<rparr>)) r"
proof -
  let ?B = "set (lookup_list (baseline s) r)" and ?R = "covers rp (set perms)"
  have "target rp (?B \<union> grants_of db' r) (stones_of db' r) = target rp (?B \<union> grants_of db r) (stones_of db r) - (if r = role then ?R else {})"
    using target_revoke [of "?B \<union> grants_of db r" rp "set perms" "?B \<union> (grants_of db r - ?R)" "stones_of db r"]
    unfolding revoke_tx [OF tx] prepareRevokes_covers by auto
  with sync show ?thesis
    by (auto simp: synced_def s permissionsFor_Revoke prepareRevokes_covers covers_idem
        target_registry [of "Revoke role (prepareRevokes rp perms) rp" rp])
qed

text \<open>A role of a fold of replacements holds what it was replaced with, and is as before when it was not.\<close>

lemma permissionsFor_replace_fold:
  "permissionsFor (fold (\<lambda>r. replacePrepared r (f r)) rs rp) r = (if r \<in> set rs then f r else permissionsFor rp r)"
  by (induction rs arbitrary: rp) (auto simp: permissionsFor_replacePrepared)

lemma lookup_update: "lookup_list (AList.update k v m) r = (if r = k then v else lookup_list m r)"
  by (simp add: lookup_list_def update_conv')

lemma group_rows_spec: "lookup_list (group_rows rows out) r = lookup_list out r @ rows_of r rows"
  by (induction rows out rule: group_rows.induct) (auto simp: lookup_update rows_of_def)

lemma lookup_group [simp]: "lookup_list (group_rows rows []) r = rows_of r rows"
  by (simp add: group_rows_spec) (simp add: lookup_list_def)

lemma lookup_list_not_key: "r \<notin> set (map fst m) \<Longrightarrow> lookup_list m r = []"
  by (simp add: lookup_list_def map_of_eq_None_iff [THEN iffD2])

lemma group_rows_keys: "r \<in> set (map fst (group_rows rows out)) \<longleftrightarrow> r \<in> set (map fst out) \<or> rows_of r rows \<noteq> []"
  by (induction rows out rule: group_rows.induct) (auto simp: update_conv' dom_map_of_conv_image_fst [symmetric] rows_of_def)

lemma reload_roles_iff:
  "r \<in> set (reload_roles s granted (group_rows (revokedRows db) []))
    \<longleftrightarrow> r \<in> set (map fst (baseline s)) \<or> r \<in> set (map fst granted) \<or> stones_of db r \<noteq> {}"
  using group_rows_keys [of r "revokedRows db" "[]"] by (auto simp: reload_roles_def stones_of_def simp del: in_set_conv_decomp)

text \<open>What a reload leaves: for each role it rebuilds, the code grants, the rows of the first query and the
  tombstones of the second.\<close>

lemma reload_finish_perms:
  assumes "reload_finish fl role granted db rp s = (None, s')" "storePolicy s = Some rp"
  obtains rp' where "s' = s\<lparr>storePolicy := Some rp'\<rparr>" "capabilities rp' = capabilities rp"
    "strictCapabilities rp' = strictCapabilities rp"
    "\<And>r. set (permissionsFor rp' r) =
       (if role \<noteq> [] \<and> role = r \<or> role = [] \<and> (r \<in> set (map fst (baseline s)) \<or> r \<in> set (map fst granted) \<or> stones_of db r \<noteq> {})
        then target rp (set (lookup_list (baseline s) r) \<union> set (lookup_list granted r)) (stones_of db r)
        else set (permissionsFor rp r))"
proof (cases "role = []")
  case True
  let ?rp' = "fold (\<lambda>r. replacePrepared r (mergeBaseline s rp r (lookup_list granted r) (rows_of r (revokedRows db))))
     (reload_roles s granted (group_rows (revokedRows db) [])) rp"
  have s': "s' = s\<lparr>storePolicy := Some ?rp'\<rparr>" using assms True by (auto simp: reload_finish_def allTombstones_def split: if_splits)
  show ?thesis
    by (rule that [OF s'])
      (simp_all only: registry_ops permissionsFor_replace_fold reload_roles_iff True simp_thms if_distrib [of set] set_mergeBaseline stones_of_def)
next
  case False
  let ?rp' = "replacePrepared role (mergeBaseline s rp role (lookup_list granted role) (rows_of role (revokedRows db))) rp"
  have s': "s' = s\<lparr>storePolicy := Some ?rp'\<rparr>" using assms False by (auto simp: reload_finish_def tombstonesForRole_def split: if_splits)
  show ?thesis
    by (rule that [OF s']) (use False in \<open>auto simp: permissionsFor_replacePrepared set_mergeBaseline stones_of_def\<close>)
qed

section \<open>Booting\<close>

text \<open>A policy whose roles hold, with each permission, all that granting it would install. Granting after the
  capabilities are registered builds such a policy; a wildcard granted before they are does not.\<close>

definition expanded :: "RolePolicy \<Rightarrow> bool" where
  "expanded rp \<longleftrightarrow>
     list_all (\<lambda>(r, _). list_all (\<lambda>p. accepts rp p \<and> p \<in> set (grant_list (capabilities rp) p)
       \<and> set (grant_list (capabilities rp) p) \<subseteq> set (permissionsFor rp r)) (permissionsFor rp r)) (rolePermissions rp)"

lemma permissionsFor_key: "permissionsFor rp r \<noteq> [] \<Longrightarrow> r \<in> set (map fst (rolePermissions rp))"
  by (auto simp: permissionsFor_def dest!: map_of_SomeD split: option.splits) force

lemma expandedD:
  assumes "expanded rp" "p \<in> set (permissionsFor rp r)"
  shows "accepts rp p" "p \<in> set (grant_list (capabilities rp) p)"
    "set (grant_list (capabilities rp) p) \<subseteq> set (permissionsFor rp r)"
proof -
  have "r \<in> set (map fst (rolePermissions rp))" using assms(2) by (intro permissionsFor_key) auto
  then obtain ps where "(r, ps) \<in> set (rolePermissions rp)" by auto
  with assms have "accepts rp p \<and> p \<in> set (grant_list (capabilities rp) p)
      \<and> set (grant_list (capabilities rp) p) \<subseteq> set (permissionsFor rp r)"
    unfolding expanded_def list_all_iff by blast
  then show "accepts rp p" "p \<in> set (grant_list (capabilities rp) p)"
    "set (grant_list (capabilities rp) p) \<subseteq> set (permissionsFor rp r)" by simp_all
qed

lemma distinct_group_rows: "distinct (map fst out) \<Longrightarrow> distinct (map fst (group_rows rows out))"
  by (induction rows out rule: group_rows.induct) (simp_all add: distinct_update)

lemma lookup_map: "f [] = [] \<Longrightarrow> lookup_list (map (\<lambda>(k, v). (k, f v)) m) r = f (lookup_list m r)"
  by (induction m) (auto simp: lookup_list_def)

lemma prepareRevokes_Nil [simp]: "prepareRevokes rp [] = []"
  by (simp add: prepareRevokes_def)

lemma load_loop_ok:
  assumes "load_loop fail n tombs rows rp = (None, rp')"
  shows "capabilities rp' = capabilities rp \<and> strictCapabilities rp' = strictCapabilities rp
    \<and> set (permissionsFor rp' r) = set (permissionsFor rp r)
        \<union> (\<Union>p\<in>{p. (r, p) \<in> set rows \<and> p \<notin> set (lookup_list tombs r)}. set (grant_list (capabilities rp) p))
    \<and> (\<forall>p. (r, p) \<in> set rows \<and> p \<notin> set (lookup_list tombs r) \<longrightarrow> accepts rp p)"
  using assms
proof (induction fail n tombs rows rp rule: load_loop.induct)
  case (1 fail n tombs rp)
  then show ?case by (auto split: if_splits)
next
  case (2 fail n tombs role p rows rp)
  have "\<not> fail n" using "2.prems" by (auto split: if_splits)
  show ?case
  proof (cases "permIn (lookup_list tombs role) p")
    case True
    then have p: "p \<in> set (lookup_list tombs role)" by (simp add: permIn_def)
    have "{q. (r, q) \<in> set ((role, p) # rows) \<and> q \<notin> set (lookup_list tombs r)} = {q. (r, q) \<in> set rows \<and> q \<notin> set (lookup_list tombs r)}"
      using p by auto
    moreover have "load_loop fail (n + 1) tombs rows rp = (None, rp')" using "2.prems" True \<open>\<not> fail n\<close> by simp
    ultimately show ?thesis using "2.IH"(1) [OF \<open>\<not> fail n\<close> True] p by auto
  next
    case False
    then have p: "p \<notin> set (lookup_list tombs role)" by (simp add: permIn_def)
    obtain rp1 where g: "Grant role [p] rp = (None, rp1)" and l: "load_loop fail (n + 1) tombs rows rp1 = (None, rp')"
      using "2.prems" False \<open>\<not> fail n\<close> by (auto split: option.splits prod.splits)
    have reg: "capabilities rp1 = capabilities rp" "strictCapabilities rp1 = strictCapabilities rp"
      using g by (auto simp: Grant_def split: sum.splits)
    have acc: "accepts rp p" using Grant_ok(2) [OF g] by (auto simp: accepts_def)
    have same: "accepts rp1 = accepts rp" by (rule ext) (simp add: accepts_def reg)
    from "2.IH"(2) [OF \<open>\<not> fail n\<close> False g [symmetric] refl l] Grant_ok(1) [OF g, of r] reg acc p
    show ?thesis unfolding same by (auto split: if_splits)
  qed
qed

lemma fold_tombstones:
  assumes "distinct (map fst tombs)" "\<And>ts. ts \<in> snd ` set tombs \<Longrightarrow> covers rp (set ts) = set ts"
  shows "capabilities (fold apply_tombstone tombs rp) = capabilities rp
    \<and> strictCapabilities (fold apply_tombstone tombs rp) = strictCapabilities rp
    \<and> set (permissionsFor (fold apply_tombstone tombs rp) r) = set (permissionsFor rp r) - set (lookup_list tombs r)"
  using assms
proof (induction tombs arbitrary: rp)
  case Nil
  show ?case by (simp add: lookup_list_def)
next
  case (Cons rt tombs)
  obtain role ts where rt: "rt = (role, ts)" by (cases rt)
  let ?rp = "apply_tombstone rt rp"
  have reg: "capabilities ?rp = capabilities rp" "strictCapabilities ?rp = strictCapabilities rp"
    by (simp_all add: apply_tombstone_def Let_def)
  have cov: "covers ?rp = covers rp" by (rule ext) (simp add: covers_def reg)
  let ?held = "filter (permIn (PermissionsOf rp role)) ts"
  have "covers rp (set ?held) \<subseteq> set ts" using Cons.prems(2) [of ts] by (auto simp: rt covers_def)
  moreover have "set ?held \<subseteq> covers rp (set ?held)" by (rule covers_member)
  ultimately have one: "set (permissionsFor ?rp r) = set (permissionsFor rp r) - (if r = role then set ts else {})" for r
    by (auto simp: apply_tombstone_def Let_def rt permissionsFor_Revoke prepareRevokes_covers permIn_def PermissionsOf_def filter_empty_conv)
  have "role \<notin> set (map fst tombs)" using Cons.prems(1) by (simp add: rt)
  then have "lookup_list tombs role = []" by (rule lookup_list_not_key)
  then have look: "set (lookup_list (rt # tombs) r) = (if r = role then set ts else {}) \<union> set (lookup_list tombs r)"
    by (cases "r = role") (simp_all add: rt lookup_list_def)
  have "distinct (map fst tombs)" "\<And>ts. ts \<in> snd ` set tombs \<Longrightarrow> covers ?rp (set ts) = set ts"
    using Cons.prems by (simp_all add: cov)
  from Cons.IH [OF this] show ?case unfolding look fold_Cons comp_def reg one by blast
qed

lemma LoadInto_ok:
  assumes ex: "expanded rp" and load: "LoadInto fail (Some rp) db s0 = (None, s)"
  obtains rp' where "s = s0\<lparr>storePolicy := Some rp', baseline := baseline s\<rparr>" "\<And>r. synced db s r"
    "\<And>r. permissionsFor rp' r \<noteq> [] \<Longrightarrow> r \<in> set (map fst (baseline s)) \<or> grants_of db r \<noteq> {}"
proof -
  let ?tombs = "map (\<lambda>(role, ts). (role, prepareRevokes rp ts)) (group_rows (revokedRows db) [])"
  let ?base = "baseline_less ?tombs (rolePermissions rp)"
  obtain rp1 where l: "load_loop fail 2 ?tombs (grantRows db) rp = (None, rp1)"
    and s: "s = s0\<lparr>storePolicy := Some (fold apply_tombstone ?tombs rp1), baseline := ?base\<rparr>"
    using load by (auto simp: LoadInto_def allTombstones_def Let_def Snapshot_def split: if_splits option.splits prod.splits)
  have look: "lookup_list ?tombs r = prepareRevokes rp (rows_of r (revokedRows db))" for r by (simp add: lookup_map)
  have tomb: "set (lookup_list ?tombs r) = covers rp (stones_of db r)" for r
    by (simp add: look prepareRevokes_covers stones_of_def)
  note load = load_loop_ok [OF l]
  have reg: "capabilities rp1 = capabilities rp" "strictCapabilities rp1 = strictCapabilities rp" using load by blast+
  have cov: "covers rp1 = covers rp" by (rule ext) (simp add: covers_def reg)
  let ?rp = "fold apply_tombstone ?tombs rp1"
  have final: "capabilities ?rp = capabilities rp \<and> strictCapabilities ?rp = strictCapabilities rp
    \<and> set (permissionsFor ?rp r) = set (permissionsFor rp1 r) - covers rp (stones_of db r)" for r
  proof -
    have d: "distinct (map fst ?tombs)" using distinct_group_rows [of "[]" "revokedRows db"] by (simp add: comp_def case_prod_beta)
    have c: "covers rp1 (set ts) = set ts" if "ts \<in> snd ` set ?tombs" for ts
      using that by (auto simp: cov prepareRevokes_covers covers_idem)
    show ?thesis using fold_tombstones [OF d c, of r] unfolding tomb reg by blast
  qed
  have base: "set (lookup_list ?base r) = set (permissionsFor rp r) - covers rp (stones_of db r)" for r
  proof -
    have "lookup_list (baseline_less t m) r = subtractPerms (lookup_list m r) (lookup_list t r)" for t m
      by (induction m) (auto simp: baseline_less_def lookup_list_def subtractPerms_def)
    then show ?thesis by (simp add: set_subtractPerms tomb) (simp add: lookup_list_def permissionsFor_def)
  qed
  have sync: "set (permissionsFor ?rp r) = target rp (set (lookup_list ?base r) \<union> grants_of db r) (stones_of db r)" for r
  proof -
    let ?C = "covers rp (stones_of db r)"
    have cl: "set (grant_list (capabilities rp) p) \<subseteq> ?C" if "p \<in> ?C" for p
      using covers_grant [OF that] by blast
    have held: "set (permissionsFor rp1 r) = set (permissionsFor rp r)
        \<union> (\<Union>p\<in>{p \<in> grants_of db r. p \<notin> ?C}. set (grant_list (capabilities rp) p))"
      "\<And>p. p \<in> grants_of db r \<Longrightarrow> p \<notin> ?C \<Longrightarrow> accepts rp p"
      using load [of r] unfolding tomb grants_of_iff by simp_all
    have tgt: "x \<in> target rp (set (lookup_list ?base r) \<union> grants_of db r) (stones_of db r) \<longleftrightarrow>
        x \<notin> ?C \<and> (\<exists>p. (p \<in> set (permissionsFor rp r) \<and> p \<notin> ?C \<or> p \<in> grants_of db r) \<and> accepts rp p
          \<and> x \<in> set (grant_list (capabilities rp) p))" for x
      unfolding target_def base by blast
    have "x \<in> target rp (set (lookup_list ?base r) \<union> grants_of db r) (stones_of db r)"
      if x: "x \<in> set (permissionsFor rp1 r)" "x \<notin> ?C" for x
    proof (cases "x \<in> set (permissionsFor rp r)")
      case True
      then show ?thesis using x(2) expandedD(1,2) [OF ex True] unfolding tgt by blast
    next
      case False
      then obtain p where "p \<in> grants_of db r" "p \<notin> ?C" "x \<in> set (grant_list (capabilities rp) p)"
        using x(1) held(1) by blast
      then show ?thesis using x(2) held(2) unfolding tgt by blast
    qed
    moreover have "x \<in> set (permissionsFor rp1 r)"
      if x: "x \<in> target rp (set (lookup_list ?base r) \<union> grants_of db r) (stones_of db r)" for x
    proof -
      obtain p where p: "x \<notin> ?C" "p \<in> set (permissionsFor rp r) \<and> p \<notin> ?C \<or> p \<in> grants_of db r"
        "x \<in> set (grant_list (capabilities rp) p)" using x unfolding tgt by blast
      then have "p \<notin> ?C" using cl by blast
      then show ?thesis using p held(1) expandedD(3) [OF ex, of p r] by blast
    qed
    ultimately show ?thesis using final [of r] by (auto simp: target_def)
  qed
  have "target ?rp = target rp" by (intro ext target_registry) (use final in auto)
  then have "synced db s r" for r using sync by (simp add: s synced_def)
  moreover have "r \<in> set (map fst (baseline s)) \<or> grants_of db r \<noteq> {}" if "permissionsFor ?rp r \<noteq> []" for r
  proof -
    have "set (lookup_list ?base r) \<union> grants_of db r \<noteq> {}" using that sync [of r] by (auto simp: target_def)
    then show ?thesis using lookup_list_not_key [of r ?base] by (auto simp: s simp del: set_map)
  qed
  ultimately show ?thesis using that [of ?rp] s by simp
qed

section \<open>Properties\<close>

text \<open>What a grant asks for, when it is refused, and what it, and a revocation, leave behind: the rows of every role in the
  database and, in the store, the permissions of every role of the live policy and one frame for the bus.\<close>

definition stands_for :: "RolePolicy \<Rightarrow> string list \<Rightarrow> string set" where
  "stands_for rp perms = (\<Union>p\<in>set perms. set (grant_list (capabilities rp) p))"

definition refused_grant :: "grant_db \<Rightarrow> GrantStore \<Rightarrow> string \<Rightarrow> string list \<Rightarrow> bool" where
  "refused_grant db s role perms \<longleftrightarrow>
     (case storePolicy s of
        None \<Rightarrow> True
      | Some rp \<Rightarrow>
          role = [] \<or> (\<exists>p\<in>set perms. \<not> accepts rp p)
          \<or> covers rp (stones_of db role - covers rp (set perms)) \<inter> stands_for rp perms \<noteq> {})"

definition rows_changed ::
    "string \<Rightarrow> (string set \<Rightarrow> string set) \<Rightarrow> (string set \<Rightarrow> string set) \<Rightarrow> grant_db \<Rightarrow> grant_db \<Rightarrow> bool" where
  "rows_changed role g t db db' \<longleftrightarrow>
     (\<forall>r. grants_of db' r = (if r = role then g else id) (grants_of db r)
        \<and> stones_of db' r = (if r = role then t else id) (stones_of db r))"

definition store_changed :: "string \<Rightarrow> (string set \<Rightarrow> string set) \<Rightarrow> GrantStore \<Rightarrow> GrantStore \<Rightarrow> bool" where
  "store_changed role f s s' \<longleftrightarrow>
     (\<exists>rp rp'. storePolicy s = Some rp \<and> storePolicy s' = Some rp'
        \<and> (\<forall>r. set (permissionsFor rp' r) = (if r = role then f else id) (set (permissionsFor rp r)))
        \<and> capabilities rp' = capabilities rp \<and> strictCapabilities rp' = strictCapabilities rp)
     \<and> baseline s' = baseline s \<and> nodeID s' = nodeID s \<and> fanoutOn s' = fanoutOn s \<and> dirtyRoles s' = dirtyRoles s
     \<and> sent s' = sent s @ (if fanoutOn s then [(nodeID s, role)] else [])"

lemma prepared_stands_for: "prepareGrants rp ps = Inr prepared \<Longrightarrow> set prepared = stands_for rp ps"
  using prepareGrants_Inr(1) by (simp add: stands_for_def)

lemma refuseCoveredGrant_iff:
  "refuseCoveredGrant False rp db role perms prepared = Inr lifted \<longleftrightarrow>
     lifted = prepareRevokes rp perms \<and> covers rp (stones_of db role - covers rp (set perms)) \<inter> set prepared = {}"
  using covered_loop_None [of rp "prepareRevokes rp perms" prepared "rows_of role (revokedRows db)"]
  by (auto simp: refuseCoveredGrant_def Let_def tombstonesForRole_def prepareRevokes_covers stones_of_def split: option.split)

lemma refuseCoveredGrant_reads: "refuseCoveredGrant fl rp db role perms prepared = Inr lifted \<Longrightarrow>
  refuseCoveredGrant False rp db role perms prepared = Inr lifted"
  by (cases fl) (auto simp: refuseCoveredGrant_def tombstonesForRole_def Let_def)

lemma CheckGrant_refuses: "CheckGrant False role perms db s \<noteq> None \<longleftrightarrow> refused_grant db s role perms"
proof (cases "storePolicy s")
  case (Some rp)
  show ?thesis
  proof (cases "role = [] \<or> perms = []")
    case True
    with Some show ?thesis by (auto simp: CheckGrant_def refused_grant_def stands_for_def)
  next
    case False
    show ?thesis
    proof (cases "prepareGrants rp perms")
      case (Inl e)
      with Some False prepareGrants_Inl [OF Inl] show ?thesis by (simp add: CheckGrant_def refused_grant_def)
    next
      case (Inr prepared)
      have "refuseCoveredGrant False rp db role perms prepared = Inr (prepareRevokes rp perms)
          \<or> (\<exists>e. refuseCoveredGrant False rp db role perms prepared = Inl e)"
        by (auto simp: refuseCoveredGrant_def tombstonesForRole_def Let_def split: option.split)
      with Some False Inr prepared_stands_for [OF Inr] prepareGrants_Inr(2) [OF Inr]
        refuseCoveredGrant_iff [of rp db role perms prepared "prepareRevokes rp perms"]
      show ?thesis by (auto simp: CheckGrant_def refused_grant_def)
    qed
  qed
qed (simp add: CheckGrant_def refused_grant_def)

lemma grant_begin_not_refused:
  assumes "grant_begin fl role perms db s = Inr x"
  shows "\<not> refused_grant db s role perms"
    "x = Some (prepared, lifted) \<Longrightarrow> \<exists>rp. storePolicy s = Some rp \<and> prepareGrants rp perms = Inr prepared
       \<and> lifted = prepareRevokes rp perms \<and> role \<noteq> [] \<and> perms \<noteq> []"
    "x = None \<longleftrightarrow> perms = []"
proof -
  obtain rp where rp: "storePolicy s = Some rp" "role \<noteq> []" using assms by (auto simp: grant_begin_def split: option.splits if_splits)
  show "x = None \<longleftrightarrow> perms = []" using assms rp by (auto simp: grant_begin_def split: sum.splits if_splits)
  show "x = Some (prepared, lifted) \<Longrightarrow> \<exists>rp. storePolicy s = Some rp \<and> prepareGrants rp perms = Inr prepared
       \<and> lifted = prepareRevokes rp perms \<and> role \<noteq> [] \<and> perms \<noteq> []"
    using assms rp refuseCoveredGrant_iff [of rp db role perms] refuseCoveredGrant_reads [of fl rp db role perms]
    by (auto simp: grant_begin_def split: sum.splits if_splits)
  show "\<not> refused_grant db s role perms"
  proof (cases "perms = []")
    case False
    then obtain prep lf where p: "prepareGrants rp perms = Inr prep" "refuseCoveredGrant fl rp db role perms prep = Inr lf"
      using assms rp by (auto simp: grant_begin_def split: sum.splits if_splits)
    from refuseCoveredGrant_reads [OF p(2)] prepared_stands_for [OF p(1)] prepareGrants_Inr(2) [OF p(1)] rp
    show ?thesis by (auto simp: refused_grant_def refuseCoveredGrant_iff)
  qed (use rp in \<open>simp add: refused_grant_def stands_for_def\<close>)
qed

lemma grant_begin_Inl: "grant_begin False role perms db s = Inl e \<longleftrightarrow> CheckGrant False role perms db s = Some e"
  by (auto simp: grant_begin_def CheckGrant_def split: option.split sum.split)

lemma grant_rows:
  assumes "storePolicy s = Some rp" "prepareGrants rp perms = Inr prepared"
    "db' = fold (\<lambda>f. f) (map (insert_grant role) prepared @ map (delete_revoked role) (prepareRevokes rp perms)) db"
  shows "rows_changed role (\<lambda>g. g \<union> stands_for rp perms) (\<lambda>t. t - covers rp (set perms)) db db'"
  using grant_tx [OF assms(3)] prepared_stands_for [OF assms(2)] by (simp add: rows_changed_def prepareRevokes_covers)

lemma revoke_rows:
  assumes "db' = fold (\<lambda>f. f) (map (delete_grant role) (prepareRevokes rp perms) @ map (insert_revoked role) (prepareRevokes rp perms)) db"
  shows "rows_changed role (\<lambda>g. g - covers rp (set perms)) (\<lambda>t. t \<union> covers rp (set perms)) db db'"
  using revoke_tx [OF assms] by (simp add: rows_changed_def prepareRevokes_covers)

lemma publish_sent: "sent (publish role s) = sent s @ (if fanoutOn s then [(nodeID s, role)] else [])"
  by (simp add: publish_def)

text \<open>A grant: what it leaves on success, and on an error.\<close>

lemma store_Grant_outcome:
  assumes run: "store_Grant fail applied role perms db s = (e, db', s')" and s: "storePolicy s = Some rp"
  shows "if e = None then \<not> refused_grant db s role perms
      \<and> (if perms = [] then db' = db \<and> s' = s
         else rows_changed role (\<lambda>g. g \<union> stands_for rp perms) (\<lambda>t. t - covers rp (set perms)) db db'
           \<and> store_changed role (\<lambda>g. g \<union> stands_for rp perms) s s' \<and> (\<forall>r. synced db s r \<longrightarrow> synced db' s' r))
    else s' = s \<and> (db' = db \<or> applied \<and> \<not> refused_grant db s role perms
      \<and> rows_changed role (\<lambda>g. g \<union> stands_for rp perms) (\<lambda>t. t - covers rp (set perms)) db db')"
proof -
  consider (stopped) e' where "grant_begin (fail 0) role perms db s = Inl e'" | (noop) "grant_begin (fail 0) role perms db s = Inr None"
    | (go) prepared lifted where "grant_begin (fail 0) role perms db s = Inr (Some (prepared, lifted))"
    by (metis option.exhaust prod.exhaust sum.exhaust)
  then show ?thesis
  proof cases
    case stopped
    with run show ?thesis by (auto simp: store_Grant_def)
  next
    case noop
    have "perms = []" "\<not> refused_grant db s role perms"
      using grant_begin_not_refused(1,3) [OF noop] by simp_all
    with run noop show ?thesis by (auto simp: store_Grant_def)
  next
    case go
    note nr = grant_begin_not_refused(1) [OF go]
    from grant_begin_not_refused(2) [OF go refl] s
    have g: "prepareGrants rp perms = Inr prepared" "lifted = prepareRevokes rp perms" "perms \<noteq> []" by auto
    let ?stmts = "map (insert_grant role) prepared @ map (delete_revoked role) lifted"
    obtain ok db1 where tx: "transaction fail applied 1 ?stmts db = (ok, db1)" by fastforce
    note T = transaction_cases [OF tx]
    have free: "covers rp (stones_of db role - covers rp (set perms)) \<inter> set prepared = {}"
      using nr s prepared_stands_for [OF g(1)] by (simp add: refused_grant_def)
    show ?thesis
    proof (cases ok)
      case True
      have out: "e = None" "db' = db1" "s' = publish role (s\<lparr>storePolicy := Some (grantPrepared role prepared rp)\<rparr>)"
        using run go tx True s by (auto simp: store_Grant_def grant_commit_def)
      have db1: "db1 = fold (\<lambda>f. f) ?stmts db" using T(1) True by simp
      have "store_changed role (\<lambda>g. g \<union> stands_for rp perms) s s'"
        using s prepared_stands_for [OF g(1)]
        by (simp add: out store_changed_def publish_sent permissionsFor_grantPrepared Un_commute)
      moreover have "synced db' s' r" if "synced db s r" for r
        using synced_grant [OF s g(1) free _ that] db1 by (simp add: out g(2))
      ultimately show ?thesis
        using out(1) nr g(3) grant_rows [OF s g(1) db1 [unfolded g(2)]] by (simp add: out(2))
    next
      case False
      then have out: "e = Some DbError" "db' = db1" "s' = s"
        using run go tx by (auto simp: store_Grant_def grant_commit_def)
      then show ?thesis using T(2) [OF False] grant_rows [OF s g(1), of db1 role db] nr g(2) by auto
    qed
  qed
qed

lemma store_Revoke_outcome:
  assumes run: "store_Revoke fail applied role perms db s = (e, db', s')" and s: "storePolicy s = Some rp"
  shows "if e = None then role \<noteq> []
      \<and> (if perms = [] then db' = db \<and> s' = s
         else rows_changed role (\<lambda>g. g - covers rp (set perms)) (\<lambda>t. t \<union> covers rp (set perms)) db db'
           \<and> store_changed role (\<lambda>g. g - covers rp (set perms)) s s' \<and> (\<forall>r. synced db s r \<longrightarrow> synced db' s' r))
    else s' = s \<and> (db' = db \<or> applied \<and> role \<noteq> []
      \<and> rows_changed role (\<lambda>g. g - covers rp (set perms)) (\<lambda>t. t \<union> covers rp (set perms)) db db')"
proof (cases "role = [] \<or> perms = []")
  case True
  with run s show ?thesis by (auto simp: store_Revoke_def split: if_splits)
next
  case False
  let ?prepared = "prepareRevokes rp perms"
  let ?stmts = "map (delete_grant role) ?prepared @ map (insert_revoked role) ?prepared"
  obtain ok db1 where tx: "transaction fail applied 0 ?stmts db = (ok, db1)" by fastforce
  note T = transaction_cases [OF tx]
  show ?thesis
  proof (cases ok)
    case True
    have out: "e = None" "db' = db1" "s' = publish role (s\<lparr>storePolicy := Some (Revoke role ?prepared rp)\<rparr>)"
      using run tx True s False by (auto simp: store_Revoke_def Let_def)
    have db1: "db1 = fold (\<lambda>f. f) ?stmts db" using T(1) True by simp
    have "store_changed role (\<lambda>g. g - covers rp (set perms)) s s'"
      using s by (simp add: out store_changed_def publish_sent permissionsFor_Revoke prepareRevokes_covers covers_idem set_diff_eq)
    moreover have "synced db' s' r" if "synced db s r" for r
      using synced_revoke [OF s db1 that] by (simp add: out)
    ultimately show ?thesis using out(1) False revoke_rows [OF db1] by (simp add: out(2))
  next
    case err: False
    then have "e = Some DbError" "db' = db1" "s' = s" using run s tx False by (auto simp: store_Revoke_def Let_def)
    then show ?thesis using T(2) [OF err] revoke_rows [of db1 role rp perms db] False by auto
  qed
qed

lemma store_Grant_checked: "(\<And>k. \<not> fail k) \<Longrightarrow> fst (store_Grant fail applied role perms db s) = CheckGrant False role perms db s"
proof -
  assume ok: "\<And>k. \<not> fail k"
  show ?thesis
  proof (cases "grant_begin False role perms db s")
    case (Inl e)
    then show ?thesis using grant_begin_Inl [of role perms db s e] ok by (simp add: store_Grant_def)
  next
    case (Inr x)
    have "CheckGrant False role perms db s = None" using grant_begin_Inl [of role perms db s] Inr by (cases "CheckGrant False role perms db s") auto
    then show ?thesis using Inr ok by (auto simp: store_Grant_def grant_commit_def transaction_ok split: option.split)
  qed
qed

lemma store_Revoke_checked:
  "(\<And>k. \<not> fail k) \<Longrightarrow> fst (store_Revoke fail applied role perms db s) \<noteq> None \<longleftrightarrow> storePolicy s = None \<or> role = []"
  by (auto simp: store_Revoke_def Let_def transaction_ok split: option.split)

lemma store_no_policy:
  assumes "storePolicy s = None"
  shows "store_Grant fail applied role perms db s = (Some NoPolicy, db, s)" "store_Revoke fail applied role perms db s = (Some NoPolicy, db, s)"
  by (simp_all add: store_Grant_def grant_begin_def store_Revoke_def assms)

lemma reloadRole_perms:
  assumes "storePolicy s = Some rp" "role \<noteq> []" "reloadRole fail role db s = (None, s')"
  obtains rp' where "storePolicy s' = Some rp'"
    "set (permissionsFor rp' role) = target rp (set (lookup_list (baseline s) role) \<union> grants_of db role) (stones_of db role)"
proof -
  have fin: "reload_finish (fail 1) role [(role, rows_of role (grantRows db))] db rp s = (None, s')"
    using assms by (auto simp: reloadRole_def reload_begin_def dbPermsForRole_def split: if_splits)
  obtain rp' where "s' = s\<lparr>storePolicy := Some rp'\<rparr>" "\<And>r. set (permissionsFor rp' r) =
       (if role \<noteq> [] \<and> role = r \<or> role = [] \<and> (r \<in> set (map fst (baseline s)) \<or> r \<in> set (map fst [(role, rows_of role (grantRows db))]) \<or> stones_of db r \<noteq> {})
        then target rp (set (lookup_list (baseline s) r) \<union> set (lookup_list [(role, rows_of role (grantRows db))] r)) (stones_of db r)
        else set (permissionsFor rp r))"
    using reload_finish_perms [OF fin assms(1)] by blast
  then show ?thesis using that [of rp'] assms(2) by (simp add: grants_of_def lookup_list_def [of "[_]"])
qed

lemma reloadRole_synced:
  assumes "storePolicy s = Some rp" "role \<noteq> []" "reloadRole fail role db s = (None, s')"
  shows "synced db s' role"
proof -
  have "reload_finish (fail 1) role [(role, rows_of role (grantRows db))] db rp s = (None, s')"
    using assms by (auto simp: reloadRole_def reload_begin_def dbPermsForRole_def split: if_splits)
  from reload_finish_perms [OF this assms(1)] obtain rp' where "s' = s\<lparr>storePolicy := Some rp'\<rparr>"
    "capabilities rp' = capabilities rp" "strictCapabilities rp' = strictCapabilities rp" by metis
  moreover from this(2,3) have "target rp' = target rp" by (intro ext target_registry)
  ultimately show ?thesis using reloadRole_perms [OF assms] by (auto simp: synced_def)
qed

lemma reloadRole_error: "fst (reloadRole fail role db s) \<noteq> None \<Longrightarrow> snd (reloadRole fail role db s) = s"
  by (auto simp: reloadRole_def reload_finish_def split: option.splits if_splits sum.splits)

text \<open>C39. What \<^verbatim>\<open>CheckGrant\<close>, \<^verbatim>\<open>Grant\<close>, \<^verbatim>\<open>Revoke\<close> and \<^verbatim>\<open>reloadRole\<close> do, whichever database call fails.

  \<^item> \<^verbatim>\<open>CheckGrant\<close> refuses a grant exactly when the store has no policy, the role is empty, a permission is not one the
    policy accepts, or a tombstone of the role that the grant does not lift covers something the grant stands for. A
    grant none of whose database calls fails has that very outcome.

  \<^item> A grant that succeeds was not to be refused. Of its role, it adds the rows of all it stands for and removes the
    tombstones it covers, and the live policy gains the same permissions; every other role keeps its rows and its
    permissions, one frame goes to the bus, and a role that agreed with the database still does. With no permissions
    nothing changes.

  \<^item> A revocation that succeeds removes from the rows and from the live policy of its role all it covers and leaves a
    tombstone for each.

  \<^item> A grant or revocation that reports an error leaves the store as it was and sends nothing. The database is as
    it was too, unless the failing call is a commit that was applied before its error came back: then the rows are those of the success.

  \<^item> A reload that fails leaves the store alone, and one that succeeds makes the role agree with the database.\<close>

theorem store_all_or_nothing:
  assumes "store_Grant fail applied role perms db s = (e, db', s')" "store_Revoke fail applied role perms db s = (e2, db2, s2)"
    "reloadRole fail role db s = (e3, s3)"
  shows "(CheckGrant False role perms db s \<noteq> None \<longleftrightarrow> refused_grant db s role perms)
    \<and> ((\<forall>k. \<not> fail k) \<longrightarrow> e = CheckGrant False role perms db s \<and> (e2 \<noteq> None \<longleftrightarrow> storePolicy s = None \<or> role = []))
    \<and> (case storePolicy s of None \<Rightarrow> (e, db', s') = (Some NoPolicy, db, s) \<and> (e2, db2, s2) = (Some NoPolicy, db, s)
       | Some rp \<Rightarrow>
         (if e = None then \<not> refused_grant db s role perms
            \<and> (if perms = [] then db' = db \<and> s' = s
               else rows_changed role (\<lambda>g. g \<union> stands_for rp perms) (\<lambda>t. t - covers rp (set perms)) db db'
                 \<and> store_changed role (\<lambda>g. g \<union> stands_for rp perms) s s' \<and> (\<forall>r. synced db s r \<longrightarrow> synced db' s' r))
          else s' = s \<and> (db' = db \<or> applied \<and> \<not> refused_grant db s role perms
            \<and> rows_changed role (\<lambda>g. g \<union> stands_for rp perms) (\<lambda>t. t - covers rp (set perms)) db db'))
       \<and> (if e2 = None then role \<noteq> []
            \<and> (if perms = [] then db2 = db \<and> s2 = s
               else rows_changed role (\<lambda>g. g - covers rp (set perms)) (\<lambda>t. t \<union> covers rp (set perms)) db db2
                 \<and> store_changed role (\<lambda>g. g - covers rp (set perms)) s s2 \<and> (\<forall>r. synced db s r \<longrightarrow> synced db2 s2 r))
          else s2 = s \<and> (db2 = db \<or> applied \<and> role \<noteq> []
            \<and> rows_changed role (\<lambda>g. g - covers rp (set perms)) (\<lambda>t. t \<union> covers rp (set perms)) db db2))
       \<and> (e3 \<noteq> None \<longrightarrow> s3 = s) \<and> (e3 = None \<and> role \<noteq> [] \<longrightarrow> synced db s3 role))"
proof -
  have "(\<forall>k. \<not> fail k) \<longrightarrow> e = CheckGrant False role perms db s \<and> (e2 \<noteq> None \<longleftrightarrow> storePolicy s = None \<or> role = [])"
    using store_Grant_checked [of fail applied role perms db s] store_Revoke_checked [of fail applied role perms db s] assms by simp
  moreover have "s3 = s" if "e3 \<noteq> None" using that reloadRole_error [of fail role db s] assms(3) by simp
  ultimately show ?thesis
  proof (cases "storePolicy s")
    case None
    then show ?thesis using CheckGrant_refuses [of role perms db s] store_no_policy [OF None, of fail applied role perms db] assms
      \<open>_ \<longrightarrow> _\<close> by auto
  next
    case (Some rp)
    have "synced db s3 role" if "e3 = None" "role \<noteq> []" using reloadRole_synced [OF Some that(2)] assms(3) that(1) by simp
    with Some CheckGrant_refuses store_Grant_outcome [OF assms(1) Some] store_Revoke_outcome [OF assms(2) Some]
      \<open>_ \<longrightarrow> _\<close> \<open>e3 \<noteq> None \<Longrightarrow> s3 = s\<close>
    show ?thesis by (simp only: option.case) blast
  qed
qed

theorem store_all_or_nothing_witness:
  "let s = NewGrantStore (Some (Register [''teams:read''] NewRolePolicy));
       db = \<lparr>grantRows = [], revokedRows = [(''editor'', ''teams:*'')]\<rparr>;
       db2 = \<lparr>grantRows = [], revokedRows = [(''editor'', ''teams:*''), (''editor'', ''teams:read'')]\<rparr>
   in store_Grant (\<lambda>k. k = 3) True ''editor'' [''teams:read''] db s = (Some (ErrRevokedByWildcard ''teams:*'' ''teams:read''), db, s)
      \<and> refused_grant db s ''editor'' [''teams:read'']
      \<and> store_Revoke (\<lambda>k. k = 3) True ''editor'' [''teams:read''] db s = (Some DbError, db2, s)
      \<and> rows_changed ''editor'' (\<lambda>g. g - {''teams:read''}) (\<lambda>t. t \<union> {''teams:read''}) db db2"
proof -
  define s where "s = NewGrantStore (Some (Register [''teams:read''] NewRolePolicy))"
  define db where "db = \<lparr>grantRows = [], revokedRows = [(''editor'', ''teams:*'')]\<rparr>"
  define db2 where "db2 = \<lparr>grantRows = [], revokedRows = [(''editor'', ''teams:*''), (''editor'', ''teams:read'')]\<rparr>"
  have runs: "store_Grant (\<lambda>k. k = 3) True ''editor'' [''teams:read''] db s = (Some (ErrRevokedByWildcard ''teams:*'' ''teams:read''), db, s)"
    "store_Revoke (\<lambda>k. k = 3) True ''editor'' [''teams:read''] db s = (Some DbError, db2, s)"
    "CheckGrant False ''editor'' [''teams:read''] db s \<noteq> None"
    "covers (Register [''teams:read''] NewRolePolicy) (set [''teams:read'']) = {''teams:read''}"
    unfolding s_def db_def db2_def by code_simp+
  obtain e3 s3 where "reloadRole (\<lambda>k. k = 3) ''editor'' db s = (e3, s3)" by fastforce
  note out = store_all_or_nothing [OF runs(1,2) this]
  have pol: "storePolicy s = Some (Register [''teams:read''] NewRolePolicy)" by (simp add: s_def NewGrantStore_def)
  have "db2 \<noteq> db" by (simp add: db_def db2_def)
  with out runs(3) have "refused_grant db s ''editor'' [''teams:read'']"
    "rows_changed ''editor'' (\<lambda>g. g - {''teams:read''}) (\<lambda>t. t \<union> {''teams:read''}) db db2"
    unfolding pol option.case runs(4) by simp_all
  with runs(1,2) show ?thesis unfolding s_def db_def db2_def Let_def by blast
qed

text \<open>What a successful grant or revocation leaves in the database.\<close>

lemma store_Grant_db:
  assumes "storePolicy s = Some rp" "perms \<noteq> []" "store_Grant fail applied role perms db s = (None, db', s')"
  shows "grants_of db' role = grants_of db role \<union> stands_for rp perms"
    "covers rp (stones_of db' role) \<inter> stands_for rp perms = {}" "p \<in> set perms \<Longrightarrow> accepts rp p"
  using store_Grant_outcome [OF assms(3,1)] assms(1,2) by (simp_all add: rows_changed_def refused_grant_def)

lemma store_Revoke_db:
  assumes "storePolicy s = Some rp" "perms \<noteq> []" "store_Revoke fail applied role perms db s = (None, db', s')"
  shows "covers rp (set perms) \<subseteq> stones_of db' role"
  using store_Revoke_outcome [OF assms(3,1)] assms(2) by (simp add: rows_changed_def)

text \<open>What one replica grants or revokes, another with the same registered capabilities takes over when it reloads the role.
  All that a successful grant stands for is held after the reload, whatever was revoked before, and nothing that
  a successful revocation covers is, not even when the replica's own code grants it.\<close>

lemma peers_follow:
  assumes "storePolicy s = Some rp" "storePolicy s2 = Some rp2" "capabilities rp2 = capabilities rp"
    "strictCapabilities rp2 = strictCapabilities rp" "role \<noteq> []" "perms \<noteq> []" "reloadRole fail2 role db' s2 = (None, s3)"
  shows "\<exists>rp3. storePolicy s3 = Some rp3
    \<and> (fst (store_Grant fail applied role perms db s) = None \<and> fst (snd (store_Grant fail applied role perms db s)) = db' \<longrightarrow>
         (\<Union>p\<in>set perms. set (grant_list (capabilities rp) p)) \<subseteq> set (permissionsFor rp3 role))
    \<and> (fst (store_Revoke fail applied role perms db s) = None \<and> fst (snd (store_Revoke fail applied role perms db s)) = db' \<longrightarrow>
         (\<Union>p\<in>set perms. set (cover_list (capabilities rp) p)) \<inter> set (permissionsFor rp3 role) = {})"
proof -
  obtain rp3 where rp3: "storePolicy s3 = Some rp3"
    "set (permissionsFor rp3 role) = target rp (set (lookup_list (baseline s2) role) \<union> grants_of db' role) (stones_of db' role)"
    using reloadRole_perms [OF assms(2,5,7)] unfolding target_registry [OF assms(3,4)] by blast
  have "(\<Union>p\<in>set perms. set (grant_list (capabilities rp) p)) \<subseteq> set (permissionsFor rp3 role)"
    if g: "store_Grant fail applied role perms db s = (None, db', s')" for s'
  proof -
    note p = store_Grant_db [OF assms(1,6) g]
    have "accepts rp q \<and> q \<in> set (grant_list (capabilities rp) q)" if "q \<in> stands_for rp perms" for q
      using that p(3) accepts_grant grant_list_self unfolding stands_for_def by blast
    then have "stands_for rp perms \<subseteq> set (permissionsFor rp3 role)" using p(1,2) unfolding rp3(2) target_def by blast
    then show ?thesis by (simp add: stands_for_def)
  qed
  moreover have "(\<Union>p\<in>set perms. set (cover_list (capabilities rp) p)) \<inter> set (permissionsFor rp3 role) = {}"
    if "store_Revoke fail applied role perms db s = (None, db', s')" for s'
  proof -
    have "covers rp (set perms) \<subseteq> covers rp (stones_of db' role)"
      using store_Revoke_db [OF assms(1,6) that] covers_member by blast
    then show ?thesis by (auto simp: rp3(2) target_def covers_def)
  qed
  ultimately show ?thesis using rp3(1) by (cases "store_Grant fail applied role perms db s", cases "store_Revoke fail applied role perms db s") auto
qed

lemma peers_follow_witness:
  "\<exists>db' s3 rp3. reloadRole (\<lambda>_. False) ''editor'' db'
       ((NewGrantStore (Some (Register [''teams:read'', ''teams:write''] NewRolePolicy)))\<lparr>baseline := [(''editor'', [''teams:read''])]\<rparr>) = (None, s3)
     \<and> storePolicy s3 = Some rp3 \<and> ''teams:read'' \<notin> set (permissionsFor rp3 ''editor'')
     \<and> stones_of db' ''editor'' = {''teams:*'', ''teams:read'', ''teams:write''}"
proof -
  define rp where "rp = Register [''teams:read'', ''teams:write''] NewRolePolicy"
  define db where "db = \<lparr>grantRows = [(''editor'', ''teams:read'')], revokedRows = []\<rparr>"
  define s2 where "s2 = (NewGrantStore (Some rp))\<lparr>baseline := [(''editor'', [''teams:read''])]\<rparr>"
  define r where "r = store_Revoke (\<lambda>_. False) False ''editor'' [''teams:*''] db (NewGrantStore (Some rp))"
  define db' where "db' = fst (snd r)"
  define s3 where "s3 = snd (reloadRole (\<lambda>_. False) ''editor'' db' s2)"
  have pol: "storePolicy (NewGrantStore (Some rp)) = Some rp" "storePolicy s2 = Some rp"
    by (simp_all add: NewGrantStore_def s2_def)
  have rel: "reloadRole (\<lambda>_. False) ''editor'' db' s2 = (None, s3)"
    unfolding s3_def by (rule prod_eqI) (unfold db'_def r_def db_def s2_def rp_def, code_simp, simp)
  have ok: "fst r = None" "stones_of db' ''editor'' = {''teams:*'', ''teams:read'', ''teams:write''}"
    "''teams:read'' \<in> set (cover_list (capabilities rp) ''teams:*'')"
    unfolding db'_def r_def db_def rp_def by code_simp+
  obtain rp3 where "storePolicy s3 = Some rp3"
    "(\<Union>p\<in>set [''teams:*'']. set (cover_list (capabilities rp) p)) \<inter> set (permissionsFor rp3 ''editor'') = {}"
    using peers_follow [OF pol refl refl _ _ rel, of "[''teams:*'']" "\<lambda>_. False" False db] ok(1) unfolding r_def [symmetric] db'_def by auto
  with rel ok(2,3) show ?thesis unfolding s2_def rp_def by (intro exI [of _ db'] exI [of _ s3] exI [of _ rp3]) auto
qed

text \<open>Without the condition on the code grants, boot and reload disagree: a wildcard that code granted before
  registering its capabilities stays a literal at boot, and the first reload turns it into the capabilities.\<close>

lemma boot_reload_differ:
  "let code = Register [''reports:read''] (snd (Grant ''admin'' [''reports:*''] NewRolePolicy));
       db = \<lparr>grantRows = [], revokedRows = []\<rparr>;
       s = snd (LoadInto (\<lambda>_. False) (Some code) db (NewGrantStore None));
       s' = snd (reloadRole (\<lambda>_. False) ''admin'' db s)
   in permissionsFor (the (storePolicy s)) ''admin'' = [''reports:*'']
      \<and> permissionsFor (the (storePolicy s')) ''admin'' = [''reports:read'']"
  by code_simp

end
