(* ===== verification/GrantCluster.thy ===== *)
theory GrantCluster
  imports GrantStore
begin

text \<open>
  Several replicas of the grant store over one database and one bus (\<^verbatim>\<open>framework/access/store.go\<close>): a step relation
  over the operations of \<^verbatim>\<open>GrantStore\<close>, in which the refresh worker, the bus and the transactions of different
  replicas interleave, an invariant by rule induction, and the convergence of the replicas.
\<close>

section \<open>Replicas over one database\<close>

text \<open>
  A replica is a store, what it is doing under its transition lock, the roles left of the drain pass of its
  refresh worker, the frames of the bus on their way to it, and, since the replica last began a full reload, the frames
  the bus lost on the way and the roles whose rows changed with no frame at all. A grant holds the lock from its read of the tombstones to the end of its
  transaction and a reload between its two queries, so other replicas may commit in between.

  A commit that was applied although its error came back (\<open>grant_unsure\<close>, \<open>revoke_unsure\<close>) changes the rows and leaves the
  caller with the error path: no replica is told, the committing one included. A commit that succeeds puts its frame
  in the committing store's queue in the same step, and handing it to the bus or losing it, which is also what a crash in
  between amounts to for the others, is a later step.
\<close>

datatype busy =
    Idle
  | Granting string "string list" "string list" "string list"
  | Reloading string "(string \<times> string list) list"

record replica =
  store :: GrantStore
  doing :: busy
  work :: "string list"
  inbox :: "(string \<times> string) list"
  lost :: "(string \<times> string) list"
  unsignalled :: "string list"

record cluster =
  shared :: grant_db
  node :: "nat \<Rightarrow> replica"

definition set_node :: "nat \<Rightarrow> replica \<Rightarrow> cluster \<Rightarrow> cluster" where
  "set_node i x c = c\<lparr>node := (node c)(i := x)\<rparr>"

definition unsignal :: "string \<Rightarrow> cluster \<Rightarrow> cluster" where
  "unsignal role c = c\<lparr>node := \<lambda>j. (node c j)\<lparr>unsignalled := role # unsignalled (node c j)\<rparr>\<rparr>"

inductive step :: "cluster \<Rightarrow> cluster \<Rightarrow> bool" where
  grant_begins: "x = node c i \<Longrightarrow> doing x = Idle \<Longrightarrow>
    grant_begin fl role perms (shared c) (store x) = Inr (Some (prepared, lifted)) \<Longrightarrow>
    step c (set_node i (x\<lparr>doing := Granting role perms prepared lifted\<rparr>) c)"
| grant_ends: "x = node c i \<Longrightarrow> doing x = Granting role perms prepared lifted \<Longrightarrow>
    grant_commit fail applied role prepared lifted (shared c) (store x) = (e, db', s') \<Longrightarrow> e = None \<or> db' = shared c \<Longrightarrow>
    step c (set_node i (x\<lparr>store := s', doing := Idle\<rparr>) (c\<lparr>shared := db'\<rparr>))"
| grant_unsure: "x = node c i \<Longrightarrow> doing x = Granting role perms prepared lifted \<Longrightarrow>
    grant_commit fail applied role prepared lifted (shared c) (store x) = (Some e, db', s') \<Longrightarrow> db' \<noteq> shared c \<Longrightarrow>
    step c (unsignal role (set_node i (x\<lparr>store := s', doing := Idle\<rparr>) (c\<lparr>shared := db'\<rparr>)))"
| revokes: "x = node c i \<Longrightarrow> doing x = Idle \<Longrightarrow>
    store_Revoke fail applied role perms (shared c) (store x) = (e, db', s') \<Longrightarrow> e = None \<or> db' = shared c \<Longrightarrow>
    step c (set_node i (x\<lparr>store := s'\<rparr>) (c\<lparr>shared := db'\<rparr>))"
| revoke_unsure: "x = node c i \<Longrightarrow> doing x = Idle \<Longrightarrow>
    store_Revoke fail applied role perms (shared c) (store x) = (Some e, db', s') \<Longrightarrow> db' \<noteq> shared c \<Longrightarrow>
    step c (unsignal role (set_node i (x\<lparr>store := s'\<rparr>) (c\<lparr>shared := db'\<rparr>)))"
| broadcasts: "x = node c i \<Longrightarrow> sent (store x) = frame # frames \<Longrightarrow>
    step c (c\<lparr>node := \<lambda>j. (let y = (if j = i then x\<lparr>store := (store x)\<lparr>sent := frames\<rparr>\<rparr> else node c j) in y\<lparr>inbox := inbox y @ [frame]\<rparr>)\<rparr>)"
| publish_lost: "x = node c i \<Longrightarrow> sent (store x) = before @ frame # after \<Longrightarrow>
    step c (c\<lparr>node := \<lambda>j. (let y = (if j = i then x\<lparr>store := (store x)\<lparr>sent := before @ after\<rparr>\<rparr> else node c j) in y\<lparr>lost := lost y @ [frame]\<rparr>)\<rparr>)"
| delivery_lost: "x = node c i \<Longrightarrow> inbox x = before @ frame # after \<Longrightarrow>
    step c (set_node i (x\<lparr>inbox := before @ after, lost := lost x @ [frame]\<rparr>) c)"
| delivers: "x = node c i \<Longrightarrow> inbox x = frame # frames \<Longrightarrow>
    step c (set_node i (x\<lparr>store := handleRemote (Some frame) (store x), inbox := frames\<rparr>) c)"
| reconciles: "x = node c i \<Longrightarrow> step c (set_node i (x\<lparr>store := markDirty [] (store x)\<rparr>) c)"
| drains: "x = node c i \<Longrightarrow> work x = [] \<Longrightarrow> drain_start (store x) = (roles, s') \<Longrightarrow>
    step c (set_node i (x\<lparr>store := s', work := roles\<rparr>) c)"
| reload_begins: "x = node c i \<Longrightarrow> doing x = Idle \<Longrightarrow> work x = role # roles \<Longrightarrow>
    reload_begin fl role (shared c) = Inr granted \<Longrightarrow>
    step c (set_node i (x\<lparr>doing := Reloading role granted, lost := (if role = [] then [] else lost x),
      unsignalled := (if role = [] then [] else unsignalled x)\<rparr>) c)"
| reload_refused: "x = node c i \<Longrightarrow> doing x = Idle \<Longrightarrow> work x = role # roles \<Longrightarrow>
    reload_begin fl role (shared c) = Inl e \<Longrightarrow>
    step c (set_node i (x\<lparr>store := snd (drain_done role (Some e) (store x)), work := roles\<rparr>) c)"
| reload_ends: "x = node c i \<Longrightarrow> doing x = Reloading role granted \<Longrightarrow> work x = role # roles \<Longrightarrow>
    storePolicy (store x) = Some rp \<Longrightarrow> reload_finish fl role granted (shared c) rp (store x) = (e, s') \<Longrightarrow>
    step c (set_node i (x\<lparr>store := snd (drain_done role e s'), doing := Idle, work := roles\<rparr>) c)"

text \<open>The roles a replica has still to hear of, those it has still to reload, and its invariant.\<close>

definition signalled :: "cluster \<Rightarrow> nat \<Rightarrow> string set" where
  "signalled c i = {r. \<exists>n. n \<noteq> nodeID (store (node c i))
     \<and> ((n, r) \<in> set (inbox (node c i)) \<or> (n, r) \<in> set (lost (node c i)) \<or> (\<exists>j. (n, r) \<in> set (sent (store (node c j)))))}"

definition in_flight :: "cluster \<Rightarrow> nat \<Rightarrow> string set" where
  "in_flight c i = signalled c i \<union> set (unsignalled (node c i))"

definition owed :: "string set \<Rightarrow> replica \<Rightarrow> string list \<Rightarrow> string \<Rightarrow> bool" where
  "owed F x W r \<longleftrightarrow> r \<in> F \<or> (\<exists>ds. dirtyRoles (store x) = Some ds \<and> (r \<in> set ds \<or> [] \<in> set ds)) \<or> r \<in> set W \<or> [] \<in> set W"

definition doing_ok :: "grant_db \<Rightarrow> string set \<Rightarrow> replica \<Rightarrow> RolePolicy \<Rightarrow> bool" where
  "doing_ok db F x rp \<longleftrightarrow>
     (case doing x of
        Idle \<Rightarrow> True
      | Granting role perms prepared lifted \<Rightarrow>
          role \<noteq> [] \<and> perms \<noteq> [] \<and> prepareGrants rp perms = Inr prepared \<and> lifted = prepareRevokes rp perms
          \<and> (covers rp (stones_of db role - set lifted) \<inter> set prepared = {} \<or> owed F x (work x) role)
      | Reloading role granted \<Rightarrow>
          (\<forall>r. lookup_list granted r \<noteq> [] \<longrightarrow> grants_of db r \<noteq> {} \<or> stones_of db r \<noteq> {})
          \<and> (\<exists>roles. work x = role # roles \<and>
             (\<forall>r. role = [] \<or> r = role \<longrightarrow> set (lookup_list granted r) = grants_of db r \<or> owed F x roles r)))"

definition replica_ok :: "grant_db \<Rightarrow> string set \<Rightarrow> replica \<Rightarrow> bool" where
  "replica_ok db F x \<longleftrightarrow>
     (\<exists>rp. storePolicy (store x) = Some rp \<and> doing_ok db F x rp
        \<and> (\<forall>r. permissionsFor rp r \<noteq> [] \<longrightarrow>
              r \<in> set (map fst (baseline (store x))) \<or> grants_of db r \<noteq> {} \<or> stones_of db r \<noteq> {}))
     \<and> (\<forall>r. synced db (store x) r \<or> owed F x (work x) r)
     \<and> fanoutOn (store x) \<and> dirtyRoles (store x) \<noteq> None
     \<and> fst ` set (sent (store x)) \<subseteq> {nodeID (store x)}"

definition cluster_ok :: "cluster \<Rightarrow> bool" where
  "cluster_ok c \<longleftrightarrow> inj (\<lambda>i. nodeID (store (node c i))) \<and> (\<forall>i. replica_ok (shared c) (in_flight c i) (node c i))"

section \<open>Every step keeps the invariant\<close>

lemma replica_okE:
  assumes "replica_ok db F x"
  obtains rp where "storePolicy (store x) = Some rp" "doing_ok db F x rp"
    "\<And>r. permissionsFor rp r \<noteq> [] \<Longrightarrow> r \<in> set (map fst (baseline (store x))) \<or> grants_of db r \<noteq> {} \<or> stones_of db r \<noteq> {}"
    "\<And>r. synced db (store x) r \<or> owed F x (work x) r"
    "fanoutOn (store x)" "dirtyRoles (store x) \<noteq> None" "fst ` set (sent (store x)) \<subseteq> {nodeID (store x)}"
  using assms unfolding replica_ok_def by blast

lemma replica_okI:
  assumes "storePolicy (store x) = Some rp" "doing_ok db F x rp"
    "\<And>r. permissionsFor rp r \<noteq> [] \<Longrightarrow> r \<in> set (map fst (baseline (store x))) \<or> grants_of db r \<noteq> {} \<or> stones_of db r \<noteq> {}"
    "\<And>r. synced db (store x) r \<or> owed F x (work x) r"
    "fanoutOn (store x)" "dirtyRoles (store x) \<noteq> None" "fst ` set (sent (store x)) \<subseteq> {nodeID (store x)}"
  shows "replica_ok db F x"
  using assms unfolding replica_ok_def by blast

text \<open>A commit elsewhere: rows of a role change only with a frame in flight, and no role disappears.\<close>

lemma replica_ok_remote:
  assumes ok: "replica_ok db F x" and F: "F \<subseteq> F'"
    and same: "\<And>r. r \<in> F' \<or> grants_of db' r = grants_of db r \<and> stones_of db' r = stones_of db r"
    and kept: "\<And>r. grants_of db r \<noteq> {} \<or> stones_of db r \<noteq> {} \<Longrightarrow> grants_of db' r \<noteq> {} \<or> stones_of db' r \<noteq> {}"
  shows "replica_ok db' F' x"
proof -
  obtain rp where rp: "storePolicy (store x) = Some rp" "doing_ok db F x rp"
    "\<And>r. permissionsFor rp r \<noteq> [] \<Longrightarrow> r \<in> set (map fst (baseline (store x))) \<or> grants_of db r \<noteq> {} \<or> stones_of db r \<noteq> {}"
    "\<And>r. synced db (store x) r \<or> owed F x (work x) r"
    "fanoutOn (store x)" "dirtyRoles (store x) \<noteq> None" "fst ` set (sent (store x)) \<subseteq> {nodeID (store x)}"
    using ok by (rule replica_okE) blast
  have owed: "owed F x W r \<Longrightarrow> owed F' x W r" "r \<in> F' \<Longrightarrow> owed F' x W r" for W r using F by (auto simp: owed_def)
  have "synced db' (store x) r \<or> owed F' x (work x) r" for r
    using rp(4) [of r] same [of r] owed by (auto simp: synced_def rp(1))
  moreover have "doing_ok db' F' x rp"
  proof (cases "doing x")
    case (Granting role perms prepared lifted)
    then show ?thesis using rp(2) same [of role] owed by (auto simp: doing_ok_def)
  next
    case (Reloading role granted)
    then obtain roles where w: "work x = role # roles"
      and g: "\<And>r. role = [] \<or> r = role \<Longrightarrow> set (lookup_list granted r) = grants_of db r \<or> owed F x roles r"
      and k: "\<And>r. lookup_list granted r \<noteq> [] \<Longrightarrow> grants_of db r \<noteq> {} \<or> stones_of db r \<noteq> {}"
      using rp(2) by (auto simp: doing_ok_def)
    have "set (lookup_list granted r) = grants_of db' r \<or> owed F' x roles r" if "role = [] \<or> r = role" for r
      using g [OF that] same [of r] owed by auto
    moreover have "grants_of db' r \<noteq> {} \<or> stones_of db' r \<noteq> {}" if "lookup_list granted r \<noteq> []" for r
      by (rule kept [OF k [OF that]])
    ultimately show ?thesis using Reloading w by (simp add: doing_ok_def)
  qed (simp add: doing_ok_def)
  ultimately show ?thesis using rp kept by (intro replica_okI [of x rp]) blast+
qed

lemma owed_cong:
  "dirtyRoles (store y) = dirtyRoles (store x) \<Longrightarrow> owed F y W r = owed F x W r"
  by (simp add: owed_def)

lemma synced_cong:
  "storePolicy s' = storePolicy s \<Longrightarrow> baseline s' = baseline s \<Longrightarrow> synced db s' r = synced db s r"
  by (cases "storePolicy s") (simp_all add: synced_def)

text \<open>Changes that leave the policy, the code grants and the frames of a replica alone.\<close>

lemma replica_ok_change:
  assumes ok: "replica_ok db F x"
    and same: "storePolicy (store y) = storePolicy (store x)" "baseline (store y) = baseline (store x)"
      "fanoutOn (store y) = fanoutOn (store x)" "nodeID (store y) = nodeID (store x)" "dirtyRoles (store y) \<noteq> None"
      "set (sent (store y)) \<subseteq> set (sent (store x))"
    and owed: "\<And>r. owed F x (work x) r \<Longrightarrow> owed F' y (work y) r"
    and doing: "\<And>rp. storePolicy (store x) = Some rp \<Longrightarrow> doing_ok db F x rp \<Longrightarrow> doing_ok db F' y rp"
  shows "replica_ok db F' y"
proof -
  from ok obtain rp where rp: "storePolicy (store x) = Some rp" "doing_ok db F x rp"
    "\<And>r. permissionsFor rp r \<noteq> [] \<Longrightarrow> r \<in> set (map fst (baseline (store x))) \<or> grants_of db r \<noteq> {} \<or> stones_of db r \<noteq> {}"
    "\<And>r. synced db (store x) r \<or> owed F x (work x) r"
    "fanoutOn (store x)" "fst ` set (sent (store x)) \<subseteq> {nodeID (store x)}"
    by (rule replica_okE) blast
  show ?thesis
  proof (rule replica_okI)
    show "storePolicy (store y) = Some rp" "fanoutOn (store y)" "dirtyRoles (store y) \<noteq> None"
      using rp(1,5) same by simp_all
    show "doing_ok db F' y rp" by (rule doing [OF rp(1,2)])
    show "r \<in> set (map fst (baseline (store y))) \<or> grants_of db r \<noteq> {} \<or> stones_of db r \<noteq> {}"
      if "permissionsFor rp r \<noteq> []" for r using rp(3) [OF that] unfolding same(2) .
    show "synced db (store y) r \<or> owed F' y (work y) r" for r
      using rp(4) [of r] owed [of r] synced_cong [OF same(1,2)] by blast
    show "fst ` set (sent (store y)) \<subseteq> {nodeID (store y)}" 
      unfolding same(4) using image_mono [OF same(6), of fst] rp(6) by (rule order_trans)
  qed
qed

lemma doing_ok_mono:
  assumes "doing_ok db F x rp" "doing y = doing x" "work y = work x"
    and "\<And>W r. owed F x W r \<Longrightarrow> owed F' y W r"
  shows "doing_ok db F' y rp"
proof (cases "doing x")
  case (Reloading role granted)
  with assms(1) obtain roles where w: "work x = role # roles"
    and g: "\<And>r. role = [] \<or> r = role \<Longrightarrow> set (lookup_list granted r) = grants_of db r \<or> owed F x roles r"
    by (auto simp: doing_ok_def)
  have "set (lookup_list granted r) = grants_of db r \<or> owed F' y roles r" if "role = [] \<or> r = role" for r
    using g [OF that] assms(4) by blast
  with Reloading w assms(1-3) show ?thesis by (simp add: doing_ok_def)
qed (use assms in \<open>auto simp: doing_ok_def\<close>)

lemma replica_ok_mono:
  assumes "replica_ok db F x" "doing y = doing x" "work y = work x"
    "storePolicy (store y) = storePolicy (store x)" "baseline (store y) = baseline (store x)"
    "fanoutOn (store y) = fanoutOn (store x)" "nodeID (store y) = nodeID (store x)" "dirtyRoles (store y) \<noteq> None"
    "set (sent (store y)) \<subseteq> set (sent (store x))" "\<And>W r. owed F x W r \<Longrightarrow> owed F' y W r"
  shows "replica_ok db F' y"
  by (rule replica_ok_change [OF assms(1)]) (use assms doing_ok_mono [OF _ assms(2,3,10)] in auto)

lemma replica_ok_grant_begins:
  assumes ok: "replica_ok db F x" and b: "grant_begin fl role perms db (store x) = Inr (Some (prepared, lifted))"
  shows "replica_ok db F (x\<lparr>doing := Granting role perms prepared lifted\<rparr>)"
proof (rule replica_ok_change [OF ok])
  fix rp
  assume rp: "storePolicy (store x) = Some rp"
  with b have g: "role \<noteq> []" "perms \<noteq> []" "prepareGrants rp perms = Inr prepared"
    "refuseCoveredGrant fl rp db role perms prepared = Inr lifted"
    by (auto simp: grant_begin_def split: if_splits sum.splits)
  from g(4) have "lifted = prepareRevokes rp perms" "covered_loop rp lifted prepared (rows_of role (revokedRows db)) = None"
    by (auto simp: refuseCoveredGrant_def Let_def tombstonesForRole_def split: if_splits option.splits)
  then show "doing_ok db F (x\<lparr>doing := Granting role perms prepared lifted\<rparr>) rp"
    using g by (simp add: doing_ok_def covered_loop_None stones_of_def)
qed (use ok in \<open>auto simp: owed_def replica_ok_def\<close>)

text \<open>A commit of the replica itself.\<close>

lemma replica_ok_commit:
  assumes ok: "replica_ok db F x" and y: "y = x\<lparr>store := publish role ((store x)\<lparr>storePolicy := Some rp'\<rparr>), doing := Idle\<rparr>"
    and sync: "\<And>r. synced db (store x) r \<Longrightarrow> synced db' (store y) r \<or> owed F x (work x) r"
    and held: "\<And>rp r. storePolicy (store x) = Some rp \<Longrightarrow> r \<noteq> role \<Longrightarrow> permissionsFor rp' r = permissionsFor rp r"
    and rows: "\<And>r. r \<noteq> role \<Longrightarrow> grants_of db' r = grants_of db r \<and> stones_of db' r = stones_of db r"
      "grants_of db' role \<noteq> {} \<or> stones_of db' role \<noteq> {}"
  shows "replica_ok db' F y"
proof -
  from ok obtain rp where rp: "storePolicy (store x) = Some rp"
    "\<And>r. permissionsFor rp r \<noteq> [] \<Longrightarrow> r \<in> set (map fst (baseline (store x))) \<or> grants_of db r \<noteq> {} \<or> stones_of db r \<noteq> {}"
    "\<And>r. synced db (store x) r \<or> owed F x (work x) r"
    "fanoutOn (store x)" "dirtyRoles (store x) \<noteq> None" "fst ` set (sent (store x)) \<subseteq> {nodeID (store x)}"
    by (rule replica_okE) blast
  have owed: "owed F y (work y) r = owed F x (work x) r" for r by (simp add: y owed_def)
  have known: "r \<in> set (map fst (baseline (store x))) \<or> grants_of db' r \<noteq> {} \<or> stones_of db' r \<noteq> {}"
    if "permissionsFor rp' r \<noteq> []" for r
    using that rp(2) [of r] held [OF rp(1), of r] rows by (cases "r = role") auto
  show ?thesis
  proof (rule replica_okI [of y rp'])
    show "doing_ok db' F y rp'" by (simp add: y doing_ok_def)
    show "synced db' (store y) r \<or> owed F y (work y) r" for r using rp(3) [of r] sync [of r] owed [of r] by blast
    show "r \<in> set (map fst (baseline (store y))) \<or> grants_of db' r \<noteq> {} \<or> stones_of db' r \<noteq> {}"
      if "permissionsFor rp' r \<noteq> []" for r using known [OF that] by (simp add: y)
    show "fst ` set (sent (store y)) \<subseteq> {nodeID (store y)}" using rp(4,6) by (simp add: y)
  qed (use rp in \<open>simp_all add: y\<close>)
qed

lemma replica_ok_grant_ends:
  assumes ok: "replica_ok db F x" and d: "doing x = Granting role perms prepared lifted"
    and e: "grant_commit fail applied role prepared lifted db (store x) = (e, db', s')" "e = None \<or> db' = db"
  shows "replica_ok db' F (x\<lparr>store := s', doing := Idle\<rparr>)"
proof -
  from ok d obtain rp where rp: "storePolicy (store x) = Some rp" "perms \<noteq> []" "prepareGrants rp perms = Inr prepared"
    "lifted = prepareRevokes rp perms"
    "covers rp (stones_of db role - set lifted) \<inter> set prepared = {} \<or> owed F x (work x) role"
    by (auto simp: replica_ok_def doing_ok_def)
  obtain ok1 db1 where T: "transaction fail applied 1 (map (insert_grant role) prepared @ map (delete_revoked role) lifted) db = (ok1, db1)"
    by fastforce
  show ?thesis
  proof (cases ok1)
    case False
    with e T have "db' = db" "s' = store x" by (auto simp: grant_commit_def)
    then show ?thesis using replica_ok_change [OF ok, of "x\<lparr>store := s', doing := Idle\<rparr>" F] ok
      by (auto simp: owed_def doing_ok_def replica_ok_def)
  next
    case True
    have Some: "db1 = fold (\<lambda>f. f) (map (insert_grant role) prepared @ map (delete_revoked role) lifted) db"
      using transaction_cases(1) [OF T] True by simp
    from True T e(1) rp(1) have e: "db' = db1" "s' = publish role ((store x)\<lparr>storePolicy := Some (grantPrepared role prepared rp)\<rparr>)"
      by (auto simp: grant_commit_def)
    note tx = grant_tx [OF Some]
    have ne: "set prepared \<noteq> {}" using prepareGrants_ne [OF rp(3,2)] by simp
    show ?thesis
    proof (rule replica_ok_commit [OF ok, of _ role "grantPrepared role prepared rp"])
      fix r
      assume sync: "synced db (store x) r"
      show "synced db' (store (x\<lparr>store := s', doing := Idle\<rparr>)) r \<or> owed F x (work x) r"
      proof (cases "owed F x (work x) r")
        case False
        have "synced db1 s' r"
        proof (cases "r = role")
          case True
          then have "covers rp (stones_of db role - covers rp (set perms)) \<inter> set prepared = {}"
            using rp(4,5) False by (simp add: prepareRevokes_covers)
          then show ?thesis using synced_grant [OF rp(1,3) _ Some [unfolded rp(4)] sync] by (simp add: e)
        next
          case False
          then show ?thesis using sync rp(1)
            by (simp add: e synced_def tx permissionsFor_grantPrepared target_registry [of "grantPrepared role prepared rp" rp])
        qed
        then show ?thesis by (simp add: e)
      qed simp
    qed (use e rp(1) ne tx in \<open>auto simp: permissionsFor_grantPrepared\<close>)
  qed
qed

lemma replica_ok_revokes:
  assumes ok: "replica_ok db F x" and d: "doing x = Idle"
    and e: "store_Revoke fail applied role perms db (store x) = (e, db', s')" "e = None \<or> db' = db"
  shows "replica_ok db' F (x\<lparr>store := s'\<rparr>)"
proof -
  from ok obtain rp where rp: "storePolicy (store x) = Some rp" by (auto simp: replica_ok_def)
  let ?R = "prepareRevokes rp perms"
  obtain ok1 db1 where T: "transaction fail applied 0 (map (delete_grant role) ?R @ map (insert_revoked role) ?R) db = (ok1, db1)"
    by fastforce
  show ?thesis
  proof (cases "role = [] \<or> perms = [] \<or> \<not> ok1")
    case True
    with e rp T have "db' = db" "s' = store x" by (auto simp: store_Revoke_def Let_def split: if_splits)
    with ok show ?thesis by simp
  next
    case False
    then have tx: "db1 = fold (\<lambda>f. f) (map (delete_grant role) ?R @ map (insert_revoked role) ?R) db"
      using transaction_cases(1) [OF T] by simp
    have e: "db' = db1" "s' = publish role ((store x)\<lparr>storePolicy := Some (Revoke role ?R rp)\<rparr>)"
      using e(1) rp False T by (auto simp: store_Revoke_def Let_def)
    have ne: "set ?R \<noteq> {}" using False covers_member [of "set perms" rp] by (auto simp: prepareRevokes_covers)
    have "replica_ok db' F (x\<lparr>store := s', doing := Idle\<rparr>)"
    proof (rule replica_ok_commit [OF ok, of _ role "Revoke role ?R rp"])
      show "synced db' (store (x\<lparr>store := s', doing := Idle\<rparr>)) r \<or> owed F x (work x) r" if "synced db (store x) r" for r
        using synced_revoke [OF rp tx that] by (simp add: e)
    qed (use e rp ne revoke_tx [OF tx] in \<open>auto simp: permissionsFor_Revoke\<close>)
    then show ?thesis using d by (metis replica.surjective replica.update_convs(1,2) replica.select_convs(2))
  qed
qed

lemma markDirty_simps [simp]:
  "storePolicy (markDirty r s) = storePolicy s" "baseline (markDirty r s) = baseline s" "nodeID (markDirty r s) = nodeID s"
  "fanoutOn (markDirty r s) = fanoutOn s" "sent (markDirty r s) = sent s"
  "dirtyRoles (markDirty r s) = map_option (append_new r) (dirtyRoles s)"
  by (simp_all add: markDirty_def)

lemma owed_markDirty:
  "dirtyRoles (store x) \<noteq> None \<Longrightarrow> owed F (y\<lparr>store := markDirty role (store x)\<rparr>) W r \<longleftrightarrow> owed F x W r \<or> r = role \<or> role = []"
  by (auto simp: owed_def)

lemma replica_ok_markDirty:
  assumes ok: "replica_ok db F x" and F: "F \<subseteq> insert role F'"
    and y: "store y = markDirty role (store x)" "doing y = doing x" "work y = work x"
  shows "replica_ok db F' y"
proof (rule replica_ok_mono [OF ok y(2,3)])
  have d: "dirtyRoles (store x) \<noteq> None" using ok by (simp add: replica_ok_def)
  then show "dirtyRoles (store y) \<noteq> None" by (simp add: y)
  show "owed F' y W r" if "owed F x W r" for W r using that F d by (auto simp: owed_def y)
qed (simp_all add: y)

lemma replica_ok_drains:
  assumes ok: "replica_ok db F x" and w: "work x = []" and s: "drain_start (store x) = (roles, s')"
  shows "replica_ok db F (x\<lparr>store := s', work := roles\<rparr>)"
proof (rule replica_ok_change [OF ok])
  have d: "dirtyRoles (store x) \<noteq> None" using ok by (simp add: replica_ok_def)
  have s': "s' = (store x)\<lparr>dirtyRoles := map_option (\<lambda>_. []) (dirtyRoles (store x))\<rparr>"
    "set roles = (case dirtyRoles (store x) of None \<Rightarrow> {} | Some ds \<Rightarrow> set ds)"
    using s by (auto simp: drain_start_def split: option.splits)
  show owed: "owed F (x\<lparr>store := s', work := roles\<rparr>) (work (x\<lparr>store := s', work := roles\<rparr>)) r" if "owed F x (work x) r" for r
    using that w d by (auto simp: owed_def s' split: option.split)
  show "doing_ok db F (x\<lparr>store := s', work := roles\<rparr>) rp" if "doing_ok db F x rp" for rp
    using that owed w by (auto simp: doing_ok_def split: busy.splits)
  show "dirtyRoles (store (x\<lparr>store := s', work := roles\<rparr>)) \<noteq> None" using d by (simp add: s')
qed (use s in \<open>auto simp: drain_start_def\<close>)

lemma replica_ok_reload_begins:
  assumes ok: "replica_ok db F x" and w: "work x = role # roles" and b: "reload_begin fl role db = Inr granted"
    and F: "role \<noteq> [] \<Longrightarrow> F' = F" and y: "y = x\<lparr>doing := Reloading role granted, lost := l, unsignalled := u\<rparr>"
  shows "replica_ok db F' y"
proof (rule replica_ok_change [OF ok])
  show "owed F' y (work y) r" if "owed F x (work x) r" for r
    using that F w by (cases "role = []") (auto simp: owed_def y)
  have "set (lookup_list granted r) = grants_of db r" if "role = [] \<or> r = role" for r
    using b that by (auto simp: reload_begin_def allDBPerms_def dbPermsForRole_def grants_of_def lookup_list_def [of "[(role, _)]"]
        split: if_splits)
  moreover have "lookup_list granted r \<noteq> [] \<Longrightarrow> grants_of db r \<noteq> {}" for r
    using b by (auto simp: reload_begin_def allDBPerms_def dbPermsForRole_def grants_of_def lookup_list_def [of "[(role, _)]"]
        split: if_splits)
  ultimately show "doing_ok db F' y rp" for rp by (auto simp: doing_ok_def y w)
qed (use ok in \<open>auto simp: y replica_ok_def\<close>)

lemma drain_done_simps:
  "snd (drain_done role None s) = s" "snd (drain_done role (Some e) s) = markDirty role s"
  by (simp_all add: drain_done_def)

text \<open>A reload that failed leaves the role to be reloaded again.\<close>

lemma replica_ok_retry:
  assumes ok: "replica_ok db F x" and w: "work x = role # roles"
    and y: "y = x\<lparr>store := markDirty role (store x), doing := Idle, work := roles\<rparr>"
  shows "replica_ok db F y"
proof (rule replica_ok_change [OF ok])
  have d: "dirtyRoles (store x) \<noteq> None" using ok by (simp add: replica_ok_def)
  then show "dirtyRoles (store y) \<noteq> None" by (simp add: y)
  show "owed F y (work y) r" if "owed F x (work x) r" for r using that w d by (auto simp: owed_def y)
qed (simp_all add: y doing_ok_def)

lemma replica_ok_reload_ends:
  assumes ok: "replica_ok db F x" and d: "doing x = Reloading role granted" and w: "work x = role # roles"
    and rp: "storePolicy (store x) = Some rp" and e: "reload_finish fl role granted db rp (store x) = (e, s')"
  shows "replica_ok db F (x\<lparr>store := snd (drain_done role e s'), doing := Idle, work := roles\<rparr>)"
proof (cases e)
  case (Some err)
  then have "s' = store x" using e by (auto simp: reload_finish_def allTombstones_def tombstonesForRole_def split: if_splits)
  with Some show ?thesis using replica_ok_retry [OF ok w refl] by (simp add: drain_done_simps)
next
  case None
  with e have fin: "reload_finish fl role granted db rp (store x) = (None, s')" by simp
  obtain rp' where s': "s' = (store x)\<lparr>storePolicy := Some rp'\<rparr>" and reg: "capabilities rp' = capabilities rp"
    "strictCapabilities rp' = strictCapabilities rp"
    and perms: "\<And>r. set (permissionsFor rp' r) =
       (if role \<noteq> [] \<and> role = r
          \<or> role = [] \<and> (r \<in> set (map fst (baseline (store x))) \<or> r \<in> set (map fst granted) \<or> stones_of db r \<noteq> {})
        then target rp (set (lookup_list (baseline (store x)) r) \<union> set (lookup_list granted r)) (stones_of db r)
        else set (permissionsFor rp r))"
    using reload_finish_perms [OF fin rp] by blast
  let ?y = "x\<lparr>store := s', doing := Idle, work := roles\<rparr>"
  obtain known: "\<And>r. permissionsFor rp r \<noteq> [] \<Longrightarrow> r \<in> set (map fst (baseline (store x))) \<or> grants_of db r \<noteq> {} \<or> stones_of db r \<noteq> {}"
    and sync: "\<And>r. synced db (store x) r \<or> owed F x (work x) r"
    and fan: "fanoutOn (store x)" "dirtyRoles (store x) \<noteq> None" "fst ` set (sent (store x)) \<subseteq> {nodeID (store x)}"
    and doing: "doing_ok db F x rp"
    using ok rp by (auto elim!: replica_okE)
  have rows: "set (lookup_list granted r) = grants_of db r \<or> owed F x roles r" if "role = [] \<or> r = role" for r
    using doing that d w by (auto simp: doing_ok_def)
  have stale: "grants_of db r \<noteq> {} \<or> stones_of db r \<noteq> {}" if "lookup_list granted r \<noteq> []" for r
    using doing that d by (auto simp: doing_ok_def)
  have owed: "owed F ?y roles r = owed F x roles r" for r by (simp add: owed_def s')
  have tgt: "synced db s' r \<longleftrightarrow>
      set (permissionsFor rp' r) = target rp (set (lookup_list (baseline (store x)) r) \<union> grants_of db r) (stones_of db r)" for r
    by (simp add: synced_def s' target_registry [OF reg])
  have fresh: "synced db s' r \<or> owed F x roles r" if "role = [] \<or> r = role" for r
  proof (cases "owed F x roles r")
    case False
    with rows [OF that] have g: "set (lookup_list granted r) = grants_of db r" by blast
    show ?thesis
    proof (cases "role \<noteq> [] \<and> role = r
          \<or> role = [] \<and> (r \<in> set (map fst (baseline (store x))) \<or> r \<in> set (map fst granted) \<or> stones_of db r \<noteq> {})")
      case True
      then show ?thesis by (simp only: tgt perms if_True g simp_thms)
    next
      case out: False
      then have n: "r \<notin> set (map fst (baseline (store x)))" "r \<notin> set (map fst granted)" "stones_of db r = {}"
        using that by auto
      with g have "grants_of db r = {}" by (simp add: lookup_list_not_key del: set_map)
      with n known [of r] have "permissionsFor rp r = []" by blast
      with out n g show ?thesis unfolding tgt perms by (simp add: lookup_list_not_key target_def del: set_map)
    qed
  qed simp
  have "replica_ok db F ?y"
  proof (rule replica_okI [of _ rp'])
    show "r \<in> set (map fst (baseline (store ?y))) \<or> grants_of db r \<noteq> {} \<or> stones_of db r \<noteq> {}"
      if "permissionsFor rp' r \<noteq> []" for r
    proof -
      have "permissionsFor rp r \<noteq> [] \<or> lookup_list (baseline (store x)) r \<noteq> [] \<or> lookup_list granted r \<noteq> []"
        using that perms [of r] by (auto simp: target_def split: if_splits)
      then show ?thesis using known [of r] stale [of r] lookup_list_not_key [of r "baseline (store x)"] by (auto simp: s')
    qed
    show "synced db (store ?y) r \<or> owed F ?y (work ?y) r" for r
    proof (cases "role = [] \<or> r = role")
      case True
      then show ?thesis using fresh [OF True] owed [of r] by simp
    next
      case False
      have "synced db s' r \<longleftrightarrow> synced db (store x) r"
        using perms [of r] False unfolding tgt synced_Some [OF rp] by auto
      then show ?thesis using sync [of r] owed [of r] False w by (auto simp: owed_def)
    qed
  qed (use fan in \<open>simp_all add: s' doing_ok_def\<close>)
  then show ?thesis using None by (simp add: drain_done_simps)
qed

lemma set_node_simps [simp]:
  "node (set_node i x c) j = (if j = i then x else node c j)" "shared (set_node i x c) = shared c"
  by (simp_all add: set_node_def)

lemma cluster_okD: "cluster_ok c \<Longrightarrow> replica_ok (shared c) (in_flight c i) (node c i)"
  by (simp add: cluster_ok_def)

lemma cluster_ok_local:
  assumes ok: "cluster_ok c" and same: "nodeID (store y) = nodeID (store (node c i))"
    "set (sent (store y)) = set (sent (store (node c i)))"
    and y: "replica_ok (shared c) (in_flight (set_node i y c) i) y"
  shows "cluster_ok (set_node i y c)"
proof -
  have "in_flight (set_node i y c) j = in_flight c j" if "j \<noteq> i" for j
    using that same(2) by (auto simp: in_flight_def signalled_def)
  moreover have "(\<lambda>j. nodeID (store (node (set_node i y c) j))) = (\<lambda>j. nodeID (store (node c j)))"
    using same(1) by auto
  ultimately show ?thesis using ok y by (auto simp: cluster_ok_def)
qed

lemma in_flight_local:
  "nodeID (store y) = nodeID (store (node c i)) \<Longrightarrow> set (sent (store y)) = set (sent (store (node c i))) \<Longrightarrow>
   set (inbox y) \<union> set (lost y) = set (inbox (node c i)) \<union> set (lost (node c i)) \<Longrightarrow> unsignalled y = unsignalled (node c i) \<Longrightarrow>
   in_flight (set_node i y c) i = in_flight c i"
  by (auto simp: in_flight_def signalled_def set_eq_iff) metis+

text \<open>What a commit does to the database and what it tells the bus; a failed one does neither.\<close>

definition committed :: "string \<Rightarrow> grant_db \<Rightarrow> grant_db \<Rightarrow> GrantStore \<Rightarrow> GrantStore \<Rightarrow> bool" where
  "committed role db db' s s' \<longleftrightarrow> nodeID s' = nodeID s \<and>
     (db' = db \<and> sent s' = sent s
      \<or> set (sent s') = insert (nodeID s, role) (set (sent s))
        \<and> (\<forall>r. r \<noteq> role \<longrightarrow> grants_of db' r = grants_of db r \<and> stones_of db' r = stones_of db r)
        \<and> (grants_of db' role \<noteq> {} \<or> stones_of db' role \<noteq> {}))"

lemma committed_grant:
  assumes "fanoutOn s" "prepared \<noteq> []" "grant_commit fail applied role prepared lifted db s = (e, db', s')" "e = None \<or> db' = db"
  shows "committed role db db' s s'"
proof -
  obtain ok1 db1 where T: "transaction fail applied 1 (map (insert_grant role) prepared @ map (delete_revoked role) lifted) db = (ok1, db1)"
    by fastforce
  show ?thesis
    using assms T grant_tx [of db1 role prepared lifted db] transaction_cases(1) [OF T]
    by (cases ok1) (auto simp: committed_def grant_commit_def publish_def)
qed

lemma committed_revoke:
  assumes f: "fanoutOn s" and e: "store_Revoke fail applied role perms db s = (e, db', s')" "e = None \<or> db' = db"
  shows "committed role db db' s s'"
proof (cases "storePolicy s")
  case (Some rp)
  let ?R = "prepareRevokes rp perms"
  obtain ok1 db1 where T: "transaction fail applied 0 (map (delete_grant role) ?R @ map (insert_revoked role) ?R) db = (ok1, db1)"
    by fastforce
  show ?thesis
  proof (cases ok1)
    case False
    then show ?thesis using e Some T by (auto simp: committed_def store_Revoke_def Let_def split: if_splits)
  next
    case True
    have tx: "db1 = fold (\<lambda>f. f) (map (delete_grant role) ?R @ map (insert_revoked role) ?R) db"
      using transaction_cases(1) [OF T] True by simp
    have "perms \<noteq> [] \<Longrightarrow> set ?R \<noteq> {}" using covers_member [of "set perms" rp] by (auto simp: prepareRevokes_covers)
    then show ?thesis using f e Some T True revoke_tx [OF tx]
      by (auto simp: committed_def store_Revoke_def Let_def publish_def split: if_splits)
  qed
qed (use e in \<open>auto simp: committed_def store_Revoke_def\<close>)

lemma cluster_ok_commit:
  assumes ok: "cluster_ok c" and com: "committed role (shared c) db' (store (node c i)) (store y)"
    and box: "inbox y = inbox (node c i)" "lost y = lost (node c i)" "unsignalled y = unsignalled (node c i)"
    and y: "replica_ok db' (in_flight c i) y"
  shows "cluster_ok (set_node i y (c\<lparr>shared := db'\<rparr>))"
proof -
  let ?c = "set_node i y (c\<lparr>shared := db'\<rparr>)"
  have id: "nodeID (store y) = nodeID (store (node c i))" using com by (simp add: committed_def)
  have inj: "inj (\<lambda>j. nodeID (store (node c j)))" using ok by (simp add: cluster_ok_def)
  have names: "(\<lambda>j. nodeID (store (node ?c j))) = (\<lambda>j. nodeID (store (node c j)))" using id by auto
  have sent: "set (sent (store y)) = set (sent (store (node c i))) \<and> db' = shared c
      \<or> set (sent (store y)) = insert (nodeID (store (node c i)), role) (set (sent (store (node c i))))"
    using com by (auto simp: committed_def)
  have own: "in_flight ?c i = in_flight c i" using sent box id by (auto simp: in_flight_def signalled_def set_eq_iff) metis+
  have other: "replica_ok db' (in_flight ?c j) (node c j)" if j: "j \<noteq> i" for j
  proof -
    have ne: "nodeID (store (node c i)) \<noteq> nodeID (store (node c j))" using inj j by (auto dest: injD)
    have "signalled c j \<subseteq> signalled ?c j"
    proof
      fix r
      assume "r \<in> signalled c j"
      then obtain n where n: "n \<noteq> nodeID (store (node c j))"
        "(n, r) \<in> set (inbox (node c j)) \<or> (n, r) \<in> set (lost (node c j)) \<or> (\<exists>k. (n, r) \<in> set (sent (store (node c k))))"
        by (auto simp: signalled_def)
      have "(n, r) \<in> set (sent (store (node ?c k)))" if "(n, r) \<in> set (sent (store (node c k)))" for k
        using that sent by auto
      then have "(\<exists>k. (n, r) \<in> set (sent (store (node c k)))) \<Longrightarrow> \<exists>k. (n, r) \<in> set (sent (store (node ?c k)))" by blast
      moreover have "node ?c j = node c j" using j by simp
      ultimately show "r \<in> signalled ?c j" using n unfolding signalled_def mem_Collect_eq by (metis (no_types))
    qed
    then have sub: "in_flight c j \<subseteq> in_flight ?c j" using j by (auto simp: in_flight_def)
    show ?thesis
    proof (cases "db' = shared c")
      case True
      then show ?thesis using replica_ok_remote [OF cluster_okD [OF ok, of j] sub, of db'] by simp
    next
      case False
      have role: "role \<in> in_flight ?c j" using com False j ne by (auto simp: in_flight_def signalled_def committed_def)
      have rows: "r \<noteq> role \<Longrightarrow> grants_of db' r = grants_of (shared c) r \<and> stones_of db' r = stones_of (shared c) r"
        "grants_of db' role \<noteq> {} \<or> stones_of db' role \<noteq> {}" for r
        using com False by (simp_all add: committed_def)
      show ?thesis
      proof (rule replica_ok_remote [OF cluster_okD [OF ok, of j] sub])
        show "r \<in> in_flight ?c j \<or> grants_of db' r = grants_of (shared c) r \<and> stones_of db' r = stones_of (shared c) r" for r
          using role rows(1) by (cases "r = role") simp_all
        show "grants_of db' r \<noteq> {} \<or> stones_of db' r \<noteq> {}"
          if "grants_of (shared c) r \<noteq> {} \<or> stones_of (shared c) r \<noteq> {}" for r
          using that rows by (cases "r = role") simp_all
      qed
    qed
  qed
  show ?thesis unfolding cluster_ok_def names using inj y own other by simp
qed

section \<open>Convergence\<close>

lemma cluster_okI:
  "inj (\<lambda>i. nodeID (store (node c i))) \<Longrightarrow> (\<And>i. replica_ok (shared c) (in_flight c i) (node c i)) \<Longrightarrow> cluster_ok c"
  by (simp add: cluster_ok_def)

text \<open>The bus moves a frame from a queue to every replica, or loses it for every replica: nothing that was in flight
  to a replica stops being so.\<close>

lemma cluster_ok_bus:
  assumes ok: "cluster_ok c" and x: "sent (store (node c i)) = before @ frame # after"
    and n: "\<And>j. store (n j) = (if j = i then (store (node c i))\<lparr>sent := before @ after\<rparr> else store (node c j))"
      "\<And>j. doing (n j) = doing (node c j)" "\<And>j. work (n j) = work (node c j)"
      "\<And>j. set (inbox (n j)) \<union> set (lost (n j)) = insert frame (set (inbox (node c j)) \<union> set (lost (node c j)))"
      "\<And>j. unsignalled (n j) = unsignalled (node c j)"
  shows "cluster_ok (c\<lparr>node := n\<rparr>)"
proof (rule cluster_okI)
  have id: "nodeID (store (n j)) = nodeID (store (node c j))" for j by (simp add: n(1))
  show "inj (\<lambda>j. nodeID (store (node (c\<lparr>node := n\<rparr>) j)))" using ok by (simp add: id cluster_ok_def)
  show "replica_ok (shared (c\<lparr>node := n\<rparr>)) (in_flight (c\<lparr>node := n\<rparr>) j) (node (c\<lparr>node := n\<rparr>) j)" for j
  proof -
    have "signalled c j \<subseteq> signalled (c\<lparr>node := n\<rparr>) j"
    proof
      fix r
      assume "r \<in> signalled c j"
      then obtain a where a: "a \<noteq> nodeID (store (node c j))"
        "(a, r) \<in> set (inbox (node c j)) \<union> set (lost (node c j)) \<or> (\<exists>k. (a, r) \<in> set (sent (store (node c k))))"
        by (auto simp: signalled_def)
      have "(a, r) \<in> set (sent (store (n k))) \<or> (a, r) = frame" if "(a, r) \<in> set (sent (store (node c k)))" for k
        using that x by (cases "k = i") (auto simp: n(1))
      with a(2) n(4) [of j] have "(a, r) \<in> set (inbox (n j)) \<union> set (lost (n j)) \<or> (\<exists>k. (a, r) \<in> set (sent (store (n k))))"
        by blast
      then show "r \<in> signalled (c\<lparr>node := n\<rparr>) j" using a(1) id [of j] by (auto simp: signalled_def)
    qed
    then have sub: "in_flight c j \<subseteq> in_flight (c\<lparr>node := n\<rparr>) j" by (auto simp: in_flight_def n(5))
    have st: "storePolicy (store (n j)) = storePolicy (store (node c j))" "baseline (store (n j)) = baseline (store (node c j))"
      "fanoutOn (store (n j)) = fanoutOn (store (node c j))" "dirtyRoles (store (n j)) = dirtyRoles (store (node c j))"
      "set (sent (store (n j))) \<subseteq> set (sent (store (node c j)))"
      using x by (auto simp: n(1))
    have "replica_ok (shared c) (in_flight (c\<lparr>node := n\<rparr>) j) (n j)"
    proof (rule replica_ok_mono [OF cluster_okD [OF ok, of j] n(2,3) st(1-3) id _ st(5)])
      show "dirtyRoles (store (n j)) \<noteq> None" using cluster_okD [OF ok, of j] by (simp add: st replica_ok_def)
      show "owed (in_flight (c\<lparr>node := n\<rparr>) j) (n j) W r" if "owed (in_flight c j) (node c j) W r" for W r
        using that sub by (auto simp: owed_def st)
    qed
    then show ?thesis by simp
  qed
qed

text \<open>A commit that was applied although it reported an error.\<close>

definition slipped :: "string \<Rightarrow> grant_db \<Rightarrow> grant_db \<Rightarrow> bool" where
  "slipped role db db' \<longleftrightarrow>
     (\<forall>r. r \<noteq> role \<longrightarrow> grants_of db' r = grants_of db r \<and> stones_of db' r = stones_of db r)
     \<and> (grants_of db' role \<noteq> {} \<or> stones_of db' role \<noteq> {})"

lemma grant_slips:
  assumes "grant_commit fail applied role prepared lifted db s = (Some e, db', s')" "db' \<noteq> db" "prepared \<noteq> []"
  shows "s' = s \<and> slipped role db db'"
proof -
  obtain ok1 db1 where T: "transaction fail applied 1 (map (insert_grant role) prepared @ map (delete_revoked role) lifted) db = (ok1, db1)"
    by fastforce
  show ?thesis using assms T transaction_cases(2) [OF T] grant_tx [of db1 role prepared lifted db]
    by (cases ok1) (auto simp: grant_commit_def slipped_def)
qed

lemma revoke_slips:
  assumes "store_Revoke fail applied role perms db s = (Some e, db', s')" "db' \<noteq> db"
  shows "s' = s \<and> slipped role db db'"
proof (cases "storePolicy s")
  case (Some rp)
  let ?R = "prepareRevokes rp perms"
  obtain ok1 db1 where T: "transaction fail applied 0 (map (delete_grant role) ?R @ map (insert_revoked role) ?R) db = (ok1, db1)"
    by fastforce
  have "perms \<noteq> [] \<Longrightarrow> set ?R \<noteq> {}" using covers_member [of "set perms" rp] by (auto simp: prepareRevokes_covers)
  then show ?thesis using assms Some T transaction_cases(2) [OF T] revoke_tx [of db1 role ?R db]
    by (cases ok1) (auto simp: store_Revoke_def Let_def slipped_def split: if_splits)
qed (use assms in \<open>auto simp: store_Revoke_def\<close>)

lemma replica_ok_unsignal: "replica_ok db F x \<Longrightarrow> replica_ok db F (x\<lparr>unsignalled := u\<rparr>)"
  by (rule replica_ok_mono [of db F x]) (simp_all add: owed_def, simp add: replica_ok_def)

lemma cluster_ok_unsure:
  assumes ok: "cluster_ok c" and slip: "slipped role (shared c) db'"
    and y: "y = (node c i)\<lparr>doing := Idle\<rparr>"
  shows "cluster_ok (unsignal role (set_node i y (c\<lparr>shared := db'\<rparr>)))" (is "cluster_ok ?c")
proof (rule cluster_okI)
  have st: "store (node ?c j) = store (node c j)" "inbox (node ?c j) = inbox (node c j)" "lost (node ?c j) = lost (node c j)"
    "unsignalled (node ?c j) = role # unsignalled (node c j)" "shared ?c = db'" for j
    by (simp_all add: unsignal_def y)
  show "inj (\<lambda>j. nodeID (store (node ?c j)))" using ok by (simp add: st cluster_ok_def)
  fix j
  have fl: "in_flight ?c j = insert role (in_flight c j)" by (auto simp: in_flight_def signalled_def st)
  note k = cluster_okD [OF ok, of j]
  have "replica_ok (shared c) (in_flight c j) (if j = i then y else node c j)"
    using k by (cases "j = i") (simp_all add: y, rule replica_ok_change [OF k], auto simp: owed_def doing_ok_def replica_ok_def)
  then have "replica_ok (shared c) (in_flight c j) (node ?c j)"
    by (cases "j = i") (simp_all add: unsignal_def replica_ok_unsignal)
  then show "replica_ok (shared ?c) (in_flight ?c j) (node ?c j)" unfolding fl st(5)
    by (rule replica_ok_remote) (use slip in \<open>auto simp: slipped_def\<close>)
qed

lemma reload_finish_simps:
  assumes "reload_finish fl role granted db rp s = (e, s')"
  shows "nodeID s' = nodeID s" "sent s' = sent s"
  using assms by (auto simp: reload_finish_def split: if_splits sum.splits)

lemma drain_done_fields:
  "nodeID (snd (drain_done role e s)) = nodeID s" "sent (snd (drain_done role e s)) = sent s"
  by (simp_all add: drain_done_def)

lemma handleRemote_fields:
  "nodeID (handleRemote f s) = nodeID s" "sent (handleRemote f s) = sent s"
  by (simp_all add: handleRemote_def split: option.split prod.split)

lemma in_flightI:
  "node c i = y \<Longrightarrow> n \<noteq> nodeID (store y) \<Longrightarrow>
   (n, r) \<in> set (inbox y) \<or> (n, r) \<in> set (lost y) \<or> (\<exists>j. (n, r) \<in> set (sent (store (node c j)))) \<Longrightarrow> r \<in> in_flight c i"
  by (auto simp: in_flight_def signalled_def)

lemma cluster_ok_delivers:
  assumes ok: "cluster_ok c" and i: "inbox (node c i) = frame # frames"
  shows "cluster_ok (set_node i ((node c i)\<lparr>store := handleRemote (Some frame) (store (node c i)), inbox := frames\<rparr>) c)"
    (is "cluster_ok (set_node i ?y c)")
proof (rule cluster_ok_local [OF ok])
  obtain n role where f: "frame = (n, role)" by (cases frame)
  note k = cluster_okD [OF ok, of i]
  have id: "nodeID (store ?y) = nodeID (store (node c i))" "sent (store ?y) = sent (store (node c i))"
    by (simp_all add: handleRemote_fields)
  show "replica_ok (shared c) (in_flight (set_node i ?y c) i) ?y"
  proof (cases "n = nodeID (store (node c i))")
    case True
    then have "in_flight (set_node i ?y c) i = in_flight c i" using i f id by (auto simp: in_flight_def signalled_def handleRemote_def)
    moreover have "store ?y = store (node c i)" using True by (simp add: f handleRemote_def)
    ultimately show ?thesis using k
      by (intro replica_ok_mono [OF k]) (auto simp: owed_def replica_ok_def)
  next
    case False
    then have st: "store ?y = markDirty role (store (node c i))" by (simp add: f handleRemote_def)
    have "signalled c i \<subseteq> insert role (in_flight (set_node i ?y c) i)"
    proof
      fix r
      assume "r \<in> signalled c i"
      then obtain a where a: "a \<noteq> nodeID (store (node c i))"
        "(a, r) = (n, role) \<or> (a, r) \<in> set frames \<or> (a, r) \<in> set (lost (node c i)) \<or> (\<exists>j. (a, r) \<in> set (sent (store (node c j))))"
        using i f by (auto simp: signalled_def)
      have "(a, r) \<in> set (sent (store (node (set_node i ?y c) j)))" if "(a, r) \<in> set (sent (store (node c j)))" for j
        using that id by auto
      then have "(a, r) = (n, role) \<or> (a, r) \<in> set (inbox ?y) \<or> (a, r) \<in> set (lost ?y)
          \<or> (\<exists>j. (a, r) \<in> set (sent (store (node (set_node i ?y c) j))))"
        using a(2) by (elim disjE exE) (simp, simp, simp, blast)
      moreover have "a \<noteq> nodeID (store ?y)" "node (set_node i ?y c) i = ?y" using a(1) id by simp_all
      ultimately show "r \<in> insert role (in_flight (set_node i ?y c) i)"
        using in_flightI [of "set_node i ?y c" i ?y a r] by blast
    qed
    then have "in_flight c i \<subseteq> insert role (in_flight (set_node i ?y c) i)" by (auto simp: in_flight_def)
    then show ?thesis by (rule replica_ok_markDirty [OF k _ st]) simp_all
  qed
qed (simp_all add: handleRemote_fields)

lemma cluster_ok_step:
  assumes "cluster_ok c" "step c c'"
  shows "cluster_ok c'"
  using assms(2,1)
proof (induction rule: step.induct)
  case (grant_begins x c i fl role perms prepared lifted)
  note k = cluster_okD [OF grant_begins.prems, of i]
  show ?case using replica_ok_grant_begins [OF k, folded grant_begins(1), OF grant_begins(3)] grant_begins
    by (intro cluster_ok_local) (simp_all add: in_flight_local)
next
  case (grant_ends x c i role perms prepared lifted fail applied e db' s')
  note k = cluster_okD [OF grant_ends.prems, of i, folded grant_ends(1)]
  have f: "fanoutOn (store x)" "prepared \<noteq> []"
    using k grant_ends(2) prepareGrants_ne by (auto simp: replica_ok_def doing_ok_def)
  show ?case
    by (rule cluster_ok_commit [OF grant_ends.prems, where role = role])
      (use committed_grant [OF f grant_ends(3,4)] replica_ok_grant_ends [OF k grant_ends(2-4)] grant_ends(1) in simp_all)
next
  case (grant_unsure x c i role perms prepared lifted fail applied e db' s')
  note k = cluster_okD [OF grant_unsure.prems, of i, folded grant_unsure(1)]
  have "prepared \<noteq> []" using k grant_unsure(2) prepareGrants_ne by (auto simp: replica_ok_def doing_ok_def)
  from grant_slips [OF grant_unsure(3,4) this] show ?case
    by (intro cluster_ok_unsure [OF grant_unsure.prems]) (simp_all add: grant_unsure(1))
next
  case (revokes x c i fail applied role perms e db' s')
  note k = cluster_okD [OF revokes.prems, of i, folded revokes(1)]
  have f: "fanoutOn (store x)" using k by (simp add: replica_ok_def)
  show ?case
    by (rule cluster_ok_commit [OF revokes.prems, where role = role])
      (use committed_revoke [OF f revokes(3,4)] replica_ok_revokes [OF k revokes(2-4)] revokes(1) in simp_all)
next
  case (revoke_unsure x c i fail applied role perms e db' s')
  from revoke_slips [OF revoke_unsure(3,4)] revoke_unsure(1,2) show ?case
    by (intro cluster_ok_unsure [OF revoke_unsure.prems]) simp_all
next
  case (broadcasts x c i frame frames)
  then show ?case by (intro cluster_ok_bus [where i = i and before = "[]" and frame = frame and after = frames]) (auto simp: Let_def)
next
  case (publish_lost x c i before frame after)
  then show ?case by (intro cluster_ok_bus [where i = i and before = before and frame = frame and after = after]) (auto simp: Let_def)
next
  case (delivery_lost x c i before frame after)
  let ?y = "x\<lparr>inbox := before @ after, lost := lost x @ [frame]\<rparr>"
  note k = cluster_okD [OF delivery_lost.prems, of i, folded delivery_lost(1)]
  have "in_flight (set_node i ?y c) i = in_flight c i" using delivery_lost(1,2) by (intro in_flight_local) auto
  moreover have "replica_ok (shared c) (in_flight c i) ?y" using k by (rule replica_ok_mono) (use k in \<open>auto simp: owed_def replica_ok_def\<close>)
  ultimately show ?case using delivery_lost(1) by (intro cluster_ok_local [OF delivery_lost.prems]) simp_all
next
  case (delivers x c i frame frames)
  then show ?case using cluster_ok_delivers by simp
next
  case (reconciles x c i)
  note k = cluster_okD [OF reconciles.prems, of i, folded reconciles(1)]
  show ?case using replica_ok_markDirty [OF k, of "[]" "in_flight c i"] reconciles(1)
    by (intro cluster_ok_local [OF reconciles.prems]) (simp_all add: in_flight_local subset_insertI)
next
  case (drains x c i roles s')
  note k = cluster_okD [OF drains.prems, of i, folded drains(1)]
  have "nodeID s' = nodeID (store x)" "sent s' = sent (store x)" using drains(3) by (auto simp: drain_start_def)
  then show ?case using replica_ok_drains [OF k drains(2,3)] drains(1)
    by (intro cluster_ok_local [OF drains.prems]) (simp_all add: in_flight_local)
next
  case (reload_begins x c i role roles fl granted)
  let ?y = "x\<lparr>doing := Reloading role granted, lost := (if role = [] then [] else lost x),
    unsignalled := (if role = [] then [] else unsignalled x)\<rparr>"
  note k = cluster_okD [OF reload_begins.prems, of i, folded reload_begins(1)]
  have "role \<noteq> [] \<Longrightarrow> in_flight (set_node i ?y c) i = in_flight c i" using reload_begins(1) by (intro in_flight_local) auto
  then have "replica_ok (shared c) (in_flight (set_node i ?y c) i) ?y"
    by (rule replica_ok_reload_begins [OF k reload_begins(3,4)]) simp_all
  then show ?case using reload_begins(1) by (intro cluster_ok_local [OF reload_begins.prems]) simp_all
next
  case (reload_refused x c i role roles fl e)
  note k = cluster_okD [OF reload_refused.prems, of i, folded reload_refused(1)]
  have "replica_ok (shared c) (in_flight c i) (x\<lparr>store := markDirty role (store x), doing := Idle, work := roles\<rparr>)"
    by (rule replica_ok_retry [OF k reload_refused(3) refl])
  moreover have "x\<lparr>store := markDirty role (store x), doing := Idle, work := roles\<rparr> = x\<lparr>store := markDirty role (store x), work := roles\<rparr>"
    using reload_refused(2) by (cases x) simp
  ultimately show ?case using reload_refused(1)
    by (intro cluster_ok_local [OF reload_refused.prems]) (simp_all add: in_flight_local drain_done_simps)
next
  case (reload_ends x c i role granted roles rp fl e s')
  note k = cluster_okD [OF reload_ends.prems, of i, folded reload_ends(1)]
  note s' = reload_finish_simps [OF reload_ends(5)]
  show ?case using replica_ok_reload_ends [OF k reload_ends(2-5)] reload_ends(1) s'
    by (intro cluster_ok_local [OF reload_ends.prems]) (simp_all add: in_flight_local drain_done_fields)
qed

text \<open>A replica boots by loading the database into a policy that code has granted and attaching the bus.\<close>

definition booted :: "grant_db \<Rightarrow> replica \<Rightarrow> bool" where
  "booted db x \<longleftrightarrow> (\<exists>fail rp name s. expanded rp \<and> LoadInto fail (Some rp) db (NewGrantStore None) = (None, s)
     \<and> x = \<lparr>store = snd (SetFanout name True s), doing = Idle, work = [], inbox = [], lost = [], unsignalled = []\<rparr>)"

definition started :: "cluster \<Rightarrow> bool" where
  "started c \<longleftrightarrow> inj (\<lambda>i. nodeID (store (node c i))) \<and> (\<forall>i. booted (shared c) (node c i))"

definition quiet :: "cluster \<Rightarrow> nat \<Rightarrow> bool" where
  "quiet c i \<longleftrightarrow> in_flight c i = {} \<and> work (node c i) = [] \<and> dirtyRoles (store (node c i)) = Some []"

lemma started_ok:
  assumes "started c"
  shows "cluster_ok c"
proof (rule cluster_okI)
  show "inj (\<lambda>i. nodeID (store (node c i)))" using assms by (simp add: started_def)
  fix i
  obtain fail rp name s where b: "expanded rp" "LoadInto fail (Some rp) (shared c) (NewGrantStore None) = (None, s)"
    "node c i = \<lparr>store = snd (SetFanout name True s), doing = Idle, work = [], inbox = [], lost = [], unsignalled = []\<rparr>"
    using assms unfolding started_def booted_def by blast
  obtain rp' where l: "s = (NewGrantStore None)\<lparr>storePolicy := Some rp', baseline := baseline s\<rparr>" "\<And>r. synced (shared c) s r"
    "\<And>r. permissionsFor rp' r \<noteq> [] \<Longrightarrow> r \<in> set (map fst (baseline s)) \<or> grants_of (shared c) r \<noteq> {}"
    using LoadInto_ok [OF b(1,2)] by blast
  have st: "store (node c i) = s\<lparr>nodeID := name, fanoutOn := True, dirtyRoles := Some []\<rparr>" by (simp add: b(3) SetFanout_def)
  have p: "storePolicy s = Some rp'" "sent s = []" by (subst l(1), simp add: NewGrantStore_def)+
  have "synced (shared c) (store (node c i)) r" for r
    using l(2) [of r] by (rule synced_cong [THEN iffD2, rotated 2]) (simp_all add: st)
  then show "replica_ok (shared c) (in_flight c i) (node c i)"
    by (intro replica_okI [of _ rp']) (use l(3) p b(3) in \<open>auto simp: SetFanout_def doing_ok_def\<close>)
qed

lemma reached_ok: "step\<^sup>*\<^sup>* c0 c \<Longrightarrow> started c0 \<Longrightarrow> cluster_ok c"
  by (induction rule: rtranclp_induct) (auto intro: started_ok cluster_ok_step)

section \<open>Properties\<close>

text \<open>C37. The replicas converge. Take any number of replicas booted on one database whose code grants were made after
  their capabilities were registered, and any interleaving of grants, revocations, refresh signals delivered or lost,
  reconciliations, failing or succeeding reloads and commits that take effect although they report an error, in which
  other replicas may commit between the reads and the writes of each. A replica to which no signal is on the way, for
  which no signal was lost and no such commit went unsignalled since its last full reload began, and that has nothing left to
  reload, holds for every role exactly what the database and its code grants say: what the
  accepted grants stand for, less what the revocations cover.\<close>

theorem cluster_converges:
  assumes "started c0" "step\<^sup>*\<^sup>* c0 c" "quiet c i" "storePolicy (store (node c i)) = Some rp"
  shows "set (permissionsFor rp r) =
    target rp (set (lookup_list (baseline (store (node c i))) r) \<union> grants_of (shared c) r) (stones_of (shared c) r)"
proof -
  have "synced (shared c) (store (node c i)) r \<or> owed (in_flight c i) (node c i) (work (node c i)) r"
    using cluster_okD [OF reached_ok [OF assms(2,1)], of i] by (simp add: replica_ok_def)
  then show ?thesis using assms(3,4) by (auto simp: quiet_def owed_def synced_def)
qed

theorem cluster_converges_witness:
  "\<exists>c0 c rp. started c0 \<and> step\<^sup>*\<^sup>* c0 c \<and> quiet c 0 \<and> storePolicy (store (node c 0)) = Some rp
     \<and> permissionsFor (the (storePolicy (store (node c0 0)))) ''editor'' = [''teams:read'']
     \<and> set (permissionsFor rp ''editor'') = {}"
proof -
  let ?code = "snd (Grant ''viewer'' [''teams:read''] (Register [''teams:read'', ''teams:write''] NewRolePolicy))"
  let ?db = "\<lparr>grantRows = [(''editor'', ''teams:read'')], revokedRows = []\<rparr>"
  define s where "s = snd (LoadInto (\<lambda>_. False) (Some ?code) ?db (NewGrantStore None))"
  define x where "x i = \<lparr>store = snd (SetFanout (replicate i CHR ''n'') True s), doing = Idle, work = [], inbox = [], lost = [], unsignalled = []\<rparr>" for i
  define init where "init = \<lparr>shared = ?db, node = x\<rparr>"
  define r where "r = store_Revoke (\<lambda>_. False) False ''editor'' [''teams:*''] ?db (store (x 0))"
  define c where "c = set_node 0 ((x 0)\<lparr>store := snd (snd r)\<rparr>) (init\<lparr>shared := fst (snd r)\<rparr>)"
  have load: "LoadInto (\<lambda>_. False) (Some ?code) ?db (NewGrantStore None) = (None, s)"
    unfolding s_def by (rule prod_eqI) (code_simp, simp)
  have "expanded ?code" by code_simp
  then have "booted ?db (x i)" for i using load unfolding booted_def x_def by blast
  moreover have "inj (\<lambda>i. nodeID (store (x i)))" by (auto simp: inj_def SetFanout_def x_def)
  ultimately have st: "started init" by (simp add: started_def init_def)
  have idle: "doing (x 0) = Idle" "node init 0 = x 0" "shared init = ?db" by (simp_all add: x_def init_def)
  have own: "fst r = None" "sent (snd (snd r)) = [([], ''editor'')]" "nodeID (snd (snd r)) = []" "dirtyRoles (snd (snd r)) = Some []"
    "grants_of (fst (snd r)) ''editor'' = {}" "set (lookup_list (baseline (snd (snd r))) ''editor'') = {}"
    "storePolicy (snd (snd r)) \<noteq> None" "permissionsFor (the (storePolicy (store (x 0)))) ''editor'' = [''teams:read'']"
    unfolding r_def x_def s_def by code_simp+
  have "step init c" unfolding c_def
    by (rule step.revokes [where e = "fst r" and fail = "\<lambda>_. False" and applied = False and role = "''editor''" and perms = "[''teams:*'']"])
      (simp_all add: idle r_def [symmetric], use own(1) in simp)
  then have sp: "step\<^sup>*\<^sup>* init c" by blast
  have peers: "sent (store (x j)) = []" "inbox (x j) = []" "lost (x j) = []" "work (x j) = []" "unsignalled (x j) = []" for j
    using load by (auto simp: x_def SetFanout_def s_def) code_simp
  have c: "node c j = (if j = 0 then (x 0)\<lparr>store := snd (snd r)\<rparr> else x j)" "shared c = fst (snd r)" for j
    by (simp_all add: c_def init_def)
  have q: "quiet c 0" by (auto simp: quiet_def in_flight_def signalled_def c peers own split: if_splits)
  obtain rp where rp: "storePolicy (store (node c 0)) = Some rp" using own(7) by (auto simp: c)
  have "set (permissionsFor rp ''editor'') = {}"
    using cluster_converges [OF st sp q rp, of "''editor''"] by (simp add: c own target_def)
  then show ?thesis using st sp q rp own(8) idle(2) by (intro exI [of _ init] exI [of _ c] exI [of _ rp]) simp
qed

end
