(* ===== verification/RoleResolver.thy ===== *)
theory RoleResolver
  imports RateLimit "HOL-Library.List_Lexorder" "HOL-Library.Char_ord"
begin

text \<open>
  The cached role resolver of \<^verbatim>\<open>framework/access/resolver.go\<close>: roles by user and tenants with a lifetime, one lookup
  at a time for a key, invalidation and the bounded cache. Entries are objects the callers hold pointers to, so the
  cache is a map from keys to addresses of a heap of entries. Each critical section is one function; concurrent calls
  are a step relation over them. The copies of role slices are dropped: HOL lists are values.
\<close>

section \<open>Keys and entries\<close>

record resolverKey =
  rkUser :: string
  rkTenant :: string
  rkAuthTenant :: string

text \<open>The channel of an entry: none, open or closed. \<open>origin\<close> is the address of the flight whose lookup gave the roles;
  the code has no such field, and no operation reads it.\<close>

datatype chan = NoChan | Open | Closed

record cachedRoleEntry =
  eRoles :: "string list"
  eExpires :: gotime
  eReady :: chan
  eShared :: bool
  origin :: nat

record CachedResolver =
  rTTL :: int
  rLastSweep :: gotime
  rEntries :: "(resolverKey \<times> nat) list"
  rHeap :: "cachedRoleEntry list"

definition defaultResolverTTL :: int where "defaultResolverTTL = 30 * second"

definition maxResolverEntries :: nat where "maxResolverEntries = 100000"

definition NewCachedResolver :: "int option \<Rightarrow> CachedResolver" where
  "NewCachedResolver withTTL =
     \<lparr>rTTL = (case withTTL of None \<Rightarrow> defaultResolverTTL | Some ttl \<Rightarrow> ttl), rLastSweep = 0, rEntries = [], rHeap = []\<rparr>"

text \<open>The user of a request: absent, without an ID, or with one; and its two tenants, the second one absent when it is
  not a string.\<close>

definition resolverUserID :: "string option option \<Rightarrow> string option" where
  "resolverUserID u = (case u of Some (Some i) \<Rightarrow> if i = [] then None else Some i | _ \<Rightarrow> None)"

definition resolverAuthTenant :: "string option \<Rightarrow> string" where
  "resolverAuthTenant v = (case v of None \<Rightarrow> [] | Some s \<Rightarrow> s)"

definition resolver_key :: "string option option \<Rightarrow> string \<Rightarrow> string option \<Rightarrow> resolverKey option" where
  "resolver_key u tenant auth =
     map_option (\<lambda>i. \<lparr>rkUser = i, rkTenant = tenant, rkAuthTenant = resolverAuthTenant auth\<rparr>) (resolverUserID u)"

section \<open>Operations\<close>

text \<open>The order of the shed: by expiry, then by user, tenant and auth tenant. An entry in flight has the zero expiry.\<close>

definition expiring_rank :: "CachedResolver \<Rightarrow> resolverKey \<times> nat \<Rightarrow> gotime \<times> string \<times> string \<times> string" where
  "expiring_rank r e = (eExpires (rHeap r ! snd e), rkUser (fst e), rkTenant (fst e), rkAuthTenant (fst e))"

definition expired :: "CachedResolver \<Rightarrow> gotime \<Rightarrow> resolverKey \<times> nat \<Rightarrow> bool" where
  "expired r now e \<longleftrightarrow> eReady (rHeap r ! snd e) = NoChan \<and> \<not> now < eExpires (rHeap r ! snd e)"

definition sweep_at :: "nat \<Rightarrow> gotime \<Rightarrow> CachedResolver \<Rightarrow> CachedResolver" where
  "sweep_at cap now r =
     (if length (rEntries r) < cap \<and> time_sub now (rLastSweep r) < rTTL r then r
      else
        let r1 = r\<lparr>rLastSweep := now, rEntries := filter (\<lambda>e. \<not> expired r now e) (rEntries r)\<rparr> in
        if length (rEntries r1) < cap then r1
        else r1\<lparr>rEntries := shed_loop (int (cap * 9 div 10)) (sort_key (expiring_rank r1) (rEntries r1)) (rEntries r1)\<rparr>)"

definition resolver_sweep :: "gotime \<Rightarrow> CachedResolver \<Rightarrow> CachedResolver" where
  "resolver_sweep now r = sweep_at maxResolverEntries now r"

text \<open>One turn of the loop of \<^verbatim>\<open>Resolve\<close> under the lock: the roles at hand, a flight to wait for, or a flight of one's own.\<close>

datatype lookup = Hit "string list" nat | Wait nat | Lead nat

definition lead :: "resolverKey \<Rightarrow> CachedResolver \<Rightarrow> lookup \<times> CachedResolver" where
  "lead key r =
     (let p = length (rHeap r) in
      (Lead p, r\<lparr>rHeap := rHeap r @ [\<lparr>eRoles = [], eExpires = 0, eReady = Open, eShared = False, origin = p\<rparr>],
                 rEntries := AList.update key p (rEntries r)\<rparr>))"

definition resolve_turn :: "resolverKey \<Rightarrow> gotime \<Rightarrow> CachedResolver \<Rightarrow> lookup \<times> CachedResolver" where
  "resolve_turn key now r =
     (case map_of (rEntries r) key of
        Some p \<Rightarrow>
          let e = rHeap r ! p in
          if eReady e \<noteq> NoChan then (Wait p, r)
          else if now < eExpires e then (Hit (eRoles e) (origin e), r)
          else lead key r
      | None \<Rightarrow> lead key r)"

text \<open>What a waiter does once the channel of its flight is closed: the shared roles, or another turn.\<close>

definition after_wait :: "nat \<Rightarrow> CachedResolver \<Rightarrow> string list option" where
  "after_wait p r = (let e = rHeap r ! p in if eShared e then Some (eRoles e) else None)"

definition drop_flight :: "resolverKey \<Rightarrow> nat \<Rightarrow> CachedResolver \<Rightarrow> CachedResolver" where
  "drop_flight key p r =
     (if map_of (rEntries r) key = Some p then r\<lparr>rEntries := AList.delete key (rEntries r)\<rparr> else r)"

definition close_flight :: "nat \<Rightarrow> CachedResolver \<Rightarrow> CachedResolver" where
  "close_flight p r = r\<lparr>rHeap := (rHeap r)[p := (rHeap r ! p)\<lparr>eReady := Closed\<rparr>]\<rparr>"

text \<open>\<^verbatim>\<open>resolveFlight\<close> after the lookup returned \<open>roles\<close>, with a context that is \<open>dead\<close> or not, and when it panicked.\<close>

definition resolveFlight :: "resolverKey \<Rightarrow> nat \<Rightarrow> string list \<Rightarrow> bool \<Rightarrow> gotime \<Rightarrow> CachedResolver \<Rightarrow> CachedResolver" where
  "resolveFlight key p roles dead now r =
     (if dead then close_flight p (drop_flight key p r)
      else if map_of (rEntries r) key = Some p then
        close_flight p (r\<lparr>rEntries := AList.update key (length (rHeap r)) (rEntries r),
          rHeap := (rHeap r)[p := (rHeap r ! p)\<lparr>eRoles := roles, eShared := True\<rparr>]
            @ [\<lparr>eRoles = roles, eExpires = now + rTTL r, eReady = NoChan, eShared = False, origin = p\<rparr>]\<rparr>)
      else close_flight p r)"

definition resolveFlight_panic :: "resolverKey \<Rightarrow> nat \<Rightarrow> CachedResolver \<Rightarrow> CachedResolver" where
  "resolveFlight_panic key p r = close_flight p (drop_flight key p r)"

definition Invalidate :: "string \<Rightarrow> CachedResolver \<Rightarrow> CachedResolver" where
  "Invalidate u r = r\<lparr>rEntries := filter (\<lambda>e. rkUser (fst e) \<noteq> u) (rEntries r)\<rparr>"

definition InvalidateAll :: "CachedResolver \<Rightarrow> CachedResolver" where
  "InvalidateAll r = r\<lparr>rEntries := []\<rparr>"

section \<open>Concurrent calls\<close>

text \<open>
  A call of \<^verbatim>\<open>Resolve\<close>, where it stands: one whose request gives no key runs the lookup and touches nothing. The first number a call with a key carries is the size of the heap when
  its user was last invalidated before it began: flights from that address on began after that. A finished call
  also carries the lookup its roles come from. \<open>asked\<close> and \<open>answer\<close> record what each lookup was asked and what it
  returned, whether its context was dead, and when, and \<open>who\<close> the request of each call; they are a log, no operation reads them.
  A lookup returns or panics: one that ends its goroutine with \<^verbatim>\<open>runtime.Goexit\<close> passes the \<^verbatim>\<open>recover\<close> of \<^verbatim>\<open>resolveFlight\<close> by and
  leaves its flight open, which is not a step here.
\<close>

datatype call =
    Absent
  | Began resolverKey nat
  | Turning resolverKey nat
  | Waiting resolverKey nat nat
  | Leading resolverKey nat nat
  | Returned resolverKey nat "string list" nat
  | Panicked
  | Direct "string list"

record resolver_request =
  qUser :: "string option option"
  qTenant :: string
  qAuthTenant :: "string option"

definition resolver_request_key :: "resolver_request \<Rightarrow> resolverKey option" where
  "resolver_request_key q = resolver_key (qUser q) (qTenant q) (qAuthTenant q)"

record rsys =
  resolver :: CachedResolver
  calls :: "nat \<Rightarrow> call"
  cutoff :: "string \<Rightarrow> nat"
  asked :: "nat \<Rightarrow> resolverKey option"
  answer :: "nat \<Rightarrow> (string list \<times> bool \<times> gotime) option"
  who :: "nat \<Rightarrow> resolver_request option"

inductive rstep :: "rsys \<Rightarrow> rsys \<Rightarrow> bool" where
  begins: "calls s i = Absent \<Longrightarrow> resolver_request_key q = Some key \<Longrightarrow>
    rstep s (s\<lparr>calls := (calls s)(i := Began key (cutoff s (rkUser key))), who := (who s)(i \<mapsto> q)\<rparr>)"
| bypasses: "calls s i = Absent \<Longrightarrow> resolver_request_key q = None \<Longrightarrow>
    rstep s (s\<lparr>calls := (calls s)(i := Direct roles), who := (who s)(i \<mapsto> q)\<rparr>)"
| sweeps: "calls s i = Began key b \<Longrightarrow>
    rstep s (s\<lparr>resolver := resolver_sweep now (resolver s), calls := (calls s)(i := Turning key b)\<rparr>)"
| hits: "calls s i = Turning key b \<Longrightarrow> resolve_turn key now (resolver s) = (Hit roles l, r') \<Longrightarrow>
    rstep s (s\<lparr>resolver := r', calls := (calls s)(i := Returned key b roles l)\<rparr>)"
| waits: "calls s i = Turning key b \<Longrightarrow> resolve_turn key now (resolver s) = (Wait p, r') \<Longrightarrow>
    rstep s (s\<lparr>resolver := r', calls := (calls s)(i := Waiting key b p)\<rparr>)"
| leads: "calls s i = Turning key b \<Longrightarrow> resolve_turn key now (resolver s) = (Lead p, r') \<Longrightarrow>
    rstep s (s\<lparr>resolver := r', calls := (calls s)(i := Leading key b p), asked := (asked s)(p \<mapsto> key)\<rparr>)"
| finishes: "calls s i = Leading key b p \<Longrightarrow>
    rstep s (s\<lparr>resolver := resolveFlight key p roles dead now (resolver s), calls := (calls s)(i := Returned key b roles p),
               answer := (answer s)(p \<mapsto> (roles, dead, now))\<rparr>)"
| panics: "calls s i = Leading key b p \<Longrightarrow>
    rstep s (s\<lparr>resolver := resolveFlight_panic key p (resolver s), calls := (calls s)(i := Panicked)\<rparr>)"
| shares: "calls s i = Waiting key b p \<Longrightarrow> eReady (rHeap (resolver s) ! p) = Closed \<Longrightarrow> after_wait p (resolver s) = Some roles \<Longrightarrow>
    rstep s (s\<lparr>calls := (calls s)(i := Returned key b roles p)\<rparr>)"
| retries: "calls s i = Waiting key b p \<Longrightarrow> eReady (rHeap (resolver s) ! p) = Closed \<Longrightarrow> after_wait p (resolver s) = None \<Longrightarrow>
    rstep s (s\<lparr>calls := (calls s)(i := Turning key b)\<rparr>)"
| invalidates: "rstep s (s\<lparr>resolver := Invalidate u (resolver s), cutoff := (cutoff s)(u := length (rHeap (resolver s)))\<rparr>)"
| invalidates_all: "rstep s (s\<lparr>resolver := InvalidateAll (resolver s), cutoff := (\<lambda>_. length (rHeap (resolver s)))\<rparr>)"

definition rstart :: "int option \<Rightarrow> rsys" where
  "rstart withTTL = \<lparr>resolver = NewCachedResolver withTTL, calls = (\<lambda>_. Absent), cutoff = (\<lambda>_. 0), asked = (\<lambda>_. None), answer = (\<lambda>_. None), who = (\<lambda>_. None)\<rparr>"

section \<open>The invariant\<close>

definition entry_ok :: "rsys \<Rightarrow> resolverKey \<times> nat \<Rightarrow> bool" where
  "entry_ok s kp \<longleftrightarrow>
     (let r = resolver s; e = rHeap r ! snd kp in
      snd kp < length (rHeap r) \<and> asked s (origin e) = Some (fst kp) \<and> cutoff s (rkUser (fst kp)) \<le> origin e
      \<and> (eReady e = NoChan \<longrightarrow> (\<exists>at. answer s (origin e) = Some (eRoles e, False, at) \<and> eExpires e = at + rTTL r))
      \<and> (eReady e = Open \<longrightarrow> origin e = snd kp) \<and> eReady e \<noteq> Closed)"

definition role_flight_ok :: "rsys \<Rightarrow> nat \<Rightarrow> bool" where
  "role_flight_ok s p \<longleftrightarrow>
     (let e = rHeap (resolver s) ! p in
      (eReady e \<noteq> NoChan \<longrightarrow> origin e = p)
      \<and> (eReady e = Open \<longrightarrow> \<not> eShared e \<and> answer s p = None \<and> (\<exists>i key b. calls s i = Leading key b p))
      \<and> (eShared e \<longrightarrow> (\<exists>at. answer s p = Some (eRoles e, False, at))))"

definition call_ok :: "rsys \<Rightarrow> call \<Rightarrow> bool" where
  "call_ok s c \<longleftrightarrow>
     (case c of
        Absent \<Rightarrow> True
      | Began key b \<Rightarrow> b \<le> cutoff s (rkUser key)
      | Turning key b \<Rightarrow> b \<le> cutoff s (rkUser key)
      | Waiting key b p \<Rightarrow> p < length (rHeap (resolver s)) \<and> eReady (rHeap (resolver s) ! p) \<noteq> NoChan \<and> asked s p = Some key \<and> b \<le> p
          \<and> b \<le> cutoff s (rkUser key)
      | Leading key b p \<Rightarrow> p < length (rHeap (resolver s)) \<and> eReady (rHeap (resolver s) ! p) = Open \<and> asked s p = Some key \<and> b \<le> p
      | Returned key b roles l \<Rightarrow> b \<le> l \<and> asked s l = Some key \<and> (\<exists>dead at. answer s l = Some (roles, dead, at))
      | Panicked \<Rightarrow> True
      | Direct _ \<Rightarrow> True)"

definition rinv :: "rsys \<Rightarrow> bool" where
  "rinv s \<longleftrightarrow> distinct (map fst (rEntries (resolver s)))
     \<and> (\<forall>kp\<in>set (rEntries (resolver s)). entry_ok s kp)
     \<and> (\<forall>p<length (rHeap (resolver s)). role_flight_ok s p)
     \<and> (\<forall>i. call_ok s (calls s i))
     \<and> (\<forall>i j k b k' b' p. calls s i = Leading k b p \<and> calls s j = Leading k' b' p \<longrightarrow> i = j)
     \<and> (\<forall>u. cutoff s u \<le> length (rHeap (resolver s)))
     \<and> (\<forall>p. asked s p \<noteq> None \<longrightarrow> p < length (rHeap (resolver s)))
     \<and> (\<forall>p. answer s p \<noteq> None \<longrightarrow> asked s p \<noteq> None)"

lemma rinvD:
  assumes "rinv s"
  shows "distinct (map fst (rEntries (resolver s)))" "kp \<in> set (rEntries (resolver s)) \<Longrightarrow> entry_ok s kp"
    "p < length (rHeap (resolver s)) \<Longrightarrow> role_flight_ok s p" "call_ok s (calls s i)"
    "calls s i = Leading k b p \<Longrightarrow> calls s j = Leading k' b' p \<Longrightarrow> i = j"
    "cutoff s u \<le> length (rHeap (resolver s))" "asked s p \<noteq> None \<Longrightarrow> p < length (rHeap (resolver s))"
    "answer s p \<noteq> None \<Longrightarrow> asked s p \<noteq> None"
  using assms unfolding rinv_def by blast+

lemma shed_loop_subset: "set (shed_loop lw ps bs) \<subseteq> set bs"
proof (induction ps arbitrary: bs)
  case (Cons p ps)
  have "set (AList.delete (fst p) bs) \<subseteq> set bs" by (auto simp: AList.delete_eq)
  with Cons.IH [of "AList.delete (fst p) bs"] have "set (shed_loop lw ps (AList.delete (fst p) bs)) \<subseteq> set bs" by (rule subset_trans)
  then show ?case by simp
qed simp

lemma shed_loop_distinct: "distinct (map fst bs) \<Longrightarrow> distinct (map fst (shed_loop lw ps bs))"
  by (induction ps arbitrary: bs) (simp_all add: distinct_delete)

lemma sweep_entries:
  "set (rEntries (sweep_at cap now r)) \<subseteq> set (rEntries r)"
  "distinct (map fst (rEntries r)) \<Longrightarrow> distinct (map fst (rEntries (sweep_at cap now r)))"
  "rHeap (sweep_at cap now r) = rHeap r" "rTTL (sweep_at cap now r) = rTTL r"
proof -
  let ?l = "filter (\<lambda>e. \<not> expired r now e) (rEntries r)"
  show "set (rEntries (sweep_at cap now r)) \<subseteq> set (rEntries r)"
    using shed_loop_subset [of "int (cap * 9 div 10)" _ ?l] by (auto simp: sweep_at_def Let_def)
  show "distinct (map fst (rEntries r)) \<Longrightarrow> distinct (map fst (rEntries (sweep_at cap now r)))"
    by (simp add: sweep_at_def Let_def shed_loop_distinct distinct_map_filter)
qed (simp_all add: sweep_at_def Let_def)

text \<open>Steps that leave the heap and the log alone: they keep the invariant when they only remove entries, raise the cuts
  below the entries kept, and move calls to good states that start and end no flight.\<close>

lemma rinv_keep:
  assumes inv: "rinv s"
    and heap: "rHeap (resolver s') = rHeap (resolver s)" "rTTL (resolver s') = rTTL (resolver s)"
      "asked s' = asked s" "answer s' = answer s"
    and entries: "distinct (map fst (rEntries (resolver s')))" "set (rEntries (resolver s')) \<subseteq> set (rEntries (resolver s))"
    and cuts: "\<And>u. cutoff s u \<le> cutoff s' u" "\<And>u. cutoff s' u \<le> length (rHeap (resolver s))"
      "\<And>k p. (k, p) \<in> set (rEntries (resolver s')) \<Longrightarrow> cutoff s' (rkUser k) = cutoff s (rkUser k)"
    and calls: "\<And>i. calls s' i = calls s i \<or> call_ok s (calls s' i) \<and> (\<forall>k b p. calls s' i \<noteq> Leading k b p \<and> calls s i \<noteq> Leading k b p)"
  shows "rinv s'"
proof -
  note D = rinvD [OF inv]
  have lead: "calls s' i = Leading k b p \<longleftrightarrow> calls s i = Leading k b p" for i k b p using calls [of i] by auto
  have "entry_ok s' kp" if "kp \<in> set (rEntries (resolver s'))" for kp
    using D(2) [of kp] that entries(2) cuts(3) [of "fst kp" "snd kp"] unfolding entry_ok_def Let_def heap by auto
  moreover have "role_flight_ok s' p" if "p < length (rHeap (resolver s'))" for p
    using D(3) [of p] that by (simp add: role_flight_ok_def heap lead)
  moreover have mono: "call_ok s' c" if "call_ok s c" for c
    using that le_trans [OF _ cuts(1)] by (auto simp: call_ok_def heap split: call.splits)
  moreover have "call_ok s' (calls s' i)" for i
    using calls [of i] D(4) [of i] mono by auto
  ultimately show ?thesis unfolding rinv_def
    using entries(1) D(5-8) cuts(2) by (auto simp: heap lead)
qed

lemma resolve_turn_Hit:
  assumes "rinv s" "resolve_turn key now (resolver s) = (Hit roles l, r')"
  shows "r' = resolver s" "asked s l = Some key" "cutoff s (rkUser key) \<le> l"
    "\<exists>at. answer s l = Some (roles, False, at) \<and> now < at + rTTL (resolver s)"
proof -
  obtain p where p: "map_of (rEntries (resolver s)) key = Some p"
    using assms(2) by (cases "map_of (rEntries (resolver s)) key") (auto simp: resolve_turn_def lead_def Let_def)
  then have e: "eReady (rHeap (resolver s) ! p) = NoChan" "now < eExpires (rHeap (resolver s) ! p)"
    "roles = eRoles (rHeap (resolver s) ! p)" "l = origin (rHeap (resolver s) ! p)" "r' = resolver s"
    using assms(2) by (auto simp: resolve_turn_def lead_def Let_def split: if_splits)
  have "entry_ok s (key, p)" by (rule rinvD(2) [OF assms(1) map_of_SomeD [OF p]])
  then show "asked s l = Some key" "cutoff s (rkUser key) \<le> l"
    "\<exists>at. answer s l = Some (roles, False, at) \<and> now < at + rTTL (resolver s)"
    using e by (auto simp: entry_ok_def Let_def)
  show "r' = resolver s" by (rule e)
qed

lemma resolve_turn_Wait:
  assumes "rinv s" "resolve_turn key now (resolver s) = (Wait p, r')"
  shows "r' = resolver s" "p < length (rHeap (resolver s))" "eReady (rHeap (resolver s) ! p) = Open" "asked s p = Some key"
    "cutoff s (rkUser key) \<le> p"
proof -
  have p: "map_of (rEntries (resolver s)) key = Some p" "eReady (rHeap (resolver s) ! p) \<noteq> NoChan" "r' = resolver s"
    using assms(2) by (auto simp: resolve_turn_def lead_def Let_def split: option.splits if_splits)
  have "entry_ok s (key, p)" by (rule rinvD(2) [OF assms(1) map_of_SomeD [OF p(1)]])
  then show "p < length (rHeap (resolver s))" "eReady (rHeap (resolver s) ! p) = Open" "asked s p = Some key" "cutoff s (rkUser key) \<le> p"
    using p(2) by (cases "eReady (rHeap (resolver s) ! p)"; simp add: entry_ok_def Let_def)+
  show "r' = resolver s" by (rule p(3))
qed

lemma resolve_turn_Lead:
  assumes "resolve_turn key now r = (Lead p, r')"
  shows "p = length (rHeap r)" "r' = snd (lead key r)"
  using assms by (auto simp: resolve_turn_def lead_def Let_def split: option.splits if_splits)

text \<open>A new flight.\<close>

lemma rinv_leads:
  assumes inv: "rinv s" and c: "calls s i = Turning key b" and p: "p = length (rHeap (resolver s))"
    and r: "resolver s' = snd (lead key (resolver s))"
    and s': "calls s' = (calls s)(i := Leading key b p)" "asked s' = (asked s)(p \<mapsto> key)" "answer s' = answer s" "cutoff s' = cutoff s"
  shows "rinv s'"
proof -
  note D = rinvD [OF inv]
  define new where "new = \<lparr>eRoles = [], eExpires = 0, eReady = Open, eShared = False, origin = p\<rparr>"
  have heap: "rHeap (resolver s') = rHeap (resolver s) @ [new]"
    "rEntries (resolver s') = AList.update key p (rEntries (resolver s))" "rTTL (resolver s') = rTTL (resolver s)"
    by (simp_all add: r lead_def Let_def p new_def)
  have nth: "rHeap (resolver s') ! q = rHeap (resolver s) ! q" if "q < p" for q using that by (simp add: heap nth_append p)
  have newp: "rHeap (resolver s') ! p = new" by (simp add: heap p)
  have len: "length (rHeap (resolver s')) = Suc p" by (simp add: heap p)
  have asked: "asked s' l = asked s l" if "asked s l \<noteq> None" for l using D(7) [OF that] by (simp add: p s')
  have none: "asked s p = None" using D(7) [of p] by (cases "asked s p") (simp_all add: p)
  have unanswered: "answer s p = None" using D(8) [of p] by (cases "answer s p") (simp_all add: none)
  have entry: "entry_ok s' kp" if "kp \<in> set (rEntries (resolver s'))" for kp
  proof (cases "kp = (key, p)")
    case True
    have "cutoff s (rkUser key) \<le> p" using D(6) [of "rkUser key"] by (simp add: p)
    then show ?thesis using True by (simp add: entry_ok_def Let_def newp len new_def s')
  next
    case False
    then have k: "entry_ok s kp" using that set_update_subset [of key p] D(2) unfolding heap by blast
    then have "snd kp < p" "asked s (origin (rHeap (resolver s) ! snd kp)) \<noteq> None" by (auto simp: entry_ok_def Let_def p)
    then show ?thesis using k asked unfolding entry_ok_def Let_def by (simp add: nth len heap(3) s'(3,4))
  qed
  have "role_flight_ok s' q" if "q < length (rHeap (resolver s'))" for q
  proof (cases "q = p")
    case True
    then show ?thesis by (auto simp: role_flight_ok_def newp new_def unanswered s')
  next
    case False
    then have q: "q < p" using that by (simp add: len)
    have leads: "\<exists>j k x. calls s' j = Leading k x q" if "calls s j = Leading k x q" for j k x
      using that c by (intro exI [of _ j]) (auto simp: s')
    show ?thesis using D(3) [of q] q leads unfolding role_flight_ok_def Let_def by (auto simp: nth p s'(3))
  qed
  moreover have "call_ok s' (calls s' j)" for j
  proof (cases "j = i")
    case True
    have "b \<le> p" using D(4) [of i] D(6) [of "rkUser key"] c by (simp add: call_ok_def p)
    then show ?thesis using True by (simp add: s' call_ok_def newp len new_def)
  next
    case False
    then show ?thesis using D(4) [of j] none
      by (auto simp: s' call_ok_def nth len p split: call.splits)
  qed
  moreover have "j = k" if "calls s' j = Leading x y q" "calls s' k = Leading x' y' q" for j k x y x' y' q
  proof -
    have "q < p" if "calls s j = Leading x y q" for j x y using D(4) [of j] that by (simp add: call_ok_def p)
    then show ?thesis using that D(5) by (auto simp: s' split: if_splits)
  qed
  moreover have "cutoff s' u \<le> length (rHeap (resolver s'))" for u using D(6) [of u] by (simp add: len s' p)
  moreover have "q < length (rHeap (resolver s'))" if "asked s' q \<noteq> None" for q
    using that D(7) [of q] by (auto simp: s' len p split: if_splits)
  moreover have "asked s' q \<noteq> None" if "answer s' q \<noteq> None" for q using that D(8) [of q] by (auto simp: s')
  moreover have "distinct (map fst (rEntries (resolver s')))" using D(1) by (simp add: heap distinct_update)
  ultimately show ?thesis unfolding rinv_def using entry by blast
qed

text \<open>The end of a flight: its channel closes, and no entry is left that points to it.\<close>

lemma rinv_ends:
  assumes inv: "rinv s" and c: "calls s i = Leading key b p"
    and heap: "length (rHeap (resolver s)) \<le> length (rHeap (resolver s'))"
      "\<And>q. q < length (rHeap (resolver s)) \<Longrightarrow> q \<noteq> p \<Longrightarrow> rHeap (resolver s') ! q = rHeap (resolver s) ! q"
      "eReady (rHeap (resolver s') ! p) = Closed" "origin (rHeap (resolver s') ! p) = p"
      "eShared (rHeap (resolver s') ! p) \<Longrightarrow> \<exists>at. answer s' p = Some (eRoles (rHeap (resolver s') ! p), False, at)"
      "\<And>q. length (rHeap (resolver s)) \<le> q \<Longrightarrow> q < length (rHeap (resolver s')) \<Longrightarrow>
         eReady (rHeap (resolver s') ! q) = NoChan \<and> \<not> eShared (rHeap (resolver s') ! q)"
    and entries: "distinct (map fst (rEntries (resolver s')))"
      "\<And>kp. kp \<in> set (rEntries (resolver s')) \<Longrightarrow> kp \<in> set (rEntries (resolver s)) \<and> snd kp \<noteq> p \<or> entry_ok s' kp"
    and log: "asked s' = asked s" "\<And>l. l \<noteq> p \<Longrightarrow> answer s' l = answer s l" "cutoff s' = cutoff s" "rTTL (resolver s') = rTTL (resolver s)"
    and calls: "calls s' = (calls s)(i := c')" "call_ok s' c'" "\<And>k x q. c' \<noteq> Leading k x q"
  shows "rinv s'"
proof -
  note D = rinvD [OF inv]
  have p: "p < length (rHeap (resolver s))" "asked s p = Some key" "eReady (rHeap (resolver s) ! p) = Open"
    using D(4) [of i] c by (simp_all add: call_ok_def)
  have un: "answer s p = None" using D(3) [OF p(1)] p(3) by (simp add: role_flight_ok_def Let_def)
  have ans: "answer s' l = answer s l" if "answer s l = Some x" for l x using that un log(2) [of l] by (cases "l = p") auto
  have entry: "entry_ok s' kp" if kp: "kp \<in> set (rEntries (resolver s'))" for kp
  proof (cases "entry_ok s' kp")
    case False
    then have k: "kp \<in> set (rEntries (resolver s))" "snd kp \<noteq> p" using entries(2) [OF kp] by auto
    note old = D(2) [OF k(1), unfolded entry_ok_def Let_def]
    then show ?thesis unfolding entry_ok_def Let_def heap(2) [OF conjunct1 [OF old] k(2)] log(1,3,4)
      using heap(1) ans by auto
  qed
  have flight: "role_flight_ok s' q" if q: "q < length (rHeap (resolver s'))" for q
  proof -
    consider "q = p" | "q < length (rHeap (resolver s))" "q \<noteq> p" | "length (rHeap (resolver s)) \<le> q" by linarith
    then show ?thesis
    proof cases
      case 1
      then show ?thesis using heap(3,4,5) by (simp add: role_flight_ok_def Let_def)
    next
      case 2
      have "\<exists>j k x. calls s' j = Leading k x q" if "calls s j = Leading k x q" for j k x
        using that c 2(2) by (intro exI [of _ j]) (auto simp: calls(1))
      then show ?thesis using D(3) [OF 2(1)] log(2) [OF 2(2)] unfolding role_flight_ok_def Let_def heap(2) [OF 2] by auto
    next
      case 3
      then show ?thesis using heap(6) [OF 3 q] by (simp add: role_flight_ok_def Let_def)
    qed
  qed
  have call: "call_ok s' (calls s' j)" for j
  proof (cases "j = i")
    case False
    have lead: "q \<noteq> p" if "calls s j = Leading k x q" for k x q using D(5) [OF that] c False by blast
    have heap': "eReady (rHeap (resolver s') ! q) \<noteq> NoChan" if "q < length (rHeap (resolver s))" "eReady (rHeap (resolver s) ! q) \<noteq> NoChan" for q
      using that heap(2) [of q] heap(3) by (cases "q = p") auto
    show ?thesis using D(4) [of j] False heap(1) heap(2) lead heap' ans
      by (auto simp: calls(1) call_ok_def log(1,3) split: call.splits)
  qed (use calls in simp)
  have "j = k" if "calls s' j = Leading x y q" "calls s' k = Leading x' y' q" for j k x y x' y' q
    using that D(5) [of j x y q k x' y'] calls(3) [of x y q] calls(3) [of x' y' q] by (auto simp: calls(1) split: if_splits)
  moreover have "q < length (rHeap (resolver s'))" if "asked s' q \<noteq> None" for q
    using that D(7) [of q] heap(1) by (simp add: log)
  moreover have "asked s' q \<noteq> None" if "answer s' q \<noteq> None" for q
    using that D(8) [of q] log(2) [of q] p(2) by (cases "q = p") (auto simp: log(1))
  moreover have "cutoff s' u \<le> length (rHeap (resolver s'))" for u using D(6) [of u] heap(1) by (simp add: log)
  ultimately show ?thesis unfolding rinv_def using entries(1) entry flight call by blast
qed

lemma entry_of_flight:
  assumes "rinv s" "calls s i = Leading key b p" "kp \<in> set (rEntries (resolver s))" "snd kp = p"
  shows "fst kp = key" "map_of (rEntries (resolver s)) key = Some p"
proof -
  note D = rinvD [OF assms(1)]
  have p: "p < length (rHeap (resolver s))" "asked s p = Some key" "eReady (rHeap (resolver s) ! p) = Open"
    using D(4) [of i] assms(2) by (simp_all add: call_ok_def)
  show k: "fst kp = key" using D(2) [OF assms(3)] p assms(4) by (auto simp: entry_ok_def Let_def)
  have "kp = (key, p)" using assms(4) k by (metis prod.collapse)
  with assms(3) have "(key, p) \<in> set (rEntries (resolver s))" by simp
  then show "map_of (rEntries (resolver s)) key = Some p" using D(1) by (simp add: map_of_eq_Some_iff)
qed

text \<open>The flight is dropped: its context was dead, its lookup panicked, or it was invalidated.\<close>

lemma rinv_drops:
  assumes inv: "rinv s" and c: "calls s i = Leading key b p"
    and r: "resolver s' = close_flight p (drop_flight key p (resolver s))"
    and s': "asked s' = asked s" "\<And>l. l \<noteq> p \<Longrightarrow> answer s' l = answer s l" "cutoff s' = cutoff s"
    and calls: "calls s' = (calls s)(i := c')" "call_ok s' c'" "\<And>k x q. c' \<noteq> Leading k x q"
  shows "rinv s'"
proof -
  note D = rinvD [OF inv]
  have p: "p < length (rHeap (resolver s))" "eReady (rHeap (resolver s) ! p) = Open"
    using D(4) [of i] c by (simp_all add: call_ok_def)
  have f: "origin (rHeap (resolver s) ! p) = p" "\<not> eShared (rHeap (resolver s) ! p)"
    using D(3) [OF p(1)] p(2) by (simp_all add: role_flight_ok_def Let_def)
  have heap: "rHeap (resolver s') = (rHeap (resolver s))[p := (rHeap (resolver s) ! p)\<lparr>eReady := Closed\<rparr>]"
    "rTTL (resolver s') = rTTL (resolver s)"
    by (simp_all add: r close_flight_def drop_flight_def)
  have ent: "rEntries (resolver s') = (if map_of (rEntries (resolver s)) key = Some p then AList.delete key (rEntries (resolver s)) else rEntries (resolver s))"
    by (simp add: r close_flight_def drop_flight_def)
  have "kp \<in> set (rEntries (resolver s)) \<and> snd kp \<noteq> p" if "kp \<in> set (rEntries (resolver s'))" for kp
    using that entry_of_flight [OF inv c, of kp] by (auto simp: ent AList.delete_eq split: if_splits)
  then have old: "kp \<in> set (rEntries (resolver s)) \<and> snd kp \<noteq> p \<or> entry_ok s' kp" if "kp \<in> set (rEntries (resolver s'))" for kp
    using that by blast
  show ?thesis
  proof (rule rinv_ends [OF inv c, where c' = c'])
    show "distinct (map fst (rEntries (resolver s')))" using D(1) by (simp add: ent distinct_delete)
  qed (use p f old s' calls in \<open>simp_all add: heap\<close>)
qed

lemma rinv_finishes:
  assumes inv: "rinv s" and c: "calls s i = Leading key b p"
    and r: "resolver s' = resolveFlight key p roles dead now (resolver s)"
    and s': "calls s' = (calls s)(i := Returned key b roles p)" "asked s' = asked s"
      "answer s' = (answer s)(p \<mapsto> (roles, dead, now))" "cutoff s' = cutoff s"
  shows "rinv s'"
proof -
  note D = rinvD [OF inv]
  have p: "p < length (rHeap (resolver s))" "eReady (rHeap (resolver s) ! p) = Open" "asked s p = Some key" "b \<le> p"
    using D(4) [of i] c by (simp_all add: call_ok_def)
  have f: "origin (rHeap (resolver s) ! p) = p" using D(3) [OF p(1)] p(2) by (simp add: role_flight_ok_def Let_def)
  have ret: "call_ok s' (Returned key b roles p)" using p(3,4) by (simp add: call_ok_def s')
  show ?thesis
  proof (cases "dead \<or> map_of (rEntries (resolver s)) key \<noteq> Some p")
    case True
    then have "resolver s' = close_flight p (drop_flight key p (resolver s))" by (auto simp: r resolveFlight_def drop_flight_def)
    then show ?thesis by (rule rinv_drops [OF inv c _ s'(2) _ s'(4,1) ret]) (simp_all add: s')
  next
    case False
    define n where "n = length (rHeap (resolver s))"
    let ?new = "\<lparr>eRoles = roles, eExpires = now + rTTL (resolver s), eReady = NoChan, eShared = False, origin = p\<rparr>"
    have heap: "rHeap (resolver s') = (rHeap (resolver s))[p := (rHeap (resolver s) ! p)\<lparr>eRoles := roles, eShared := True, eReady := Closed\<rparr>] @ [?new]"
      "rTTL (resolver s') = rTTL (resolver s)" "rEntries (resolver s') = AList.update key n (rEntries (resolver s))"
      using False p(1) by (simp_all add: r resolveFlight_def close_flight_def list_update_append nth_append n_def)
    have at: "rHeap (resolver s') ! p = (rHeap (resolver s) ! p)\<lparr>eRoles := roles, eShared := True, eReady := Closed\<rparr>"
      "rHeap (resolver s') ! n = ?new" "length (rHeap (resolver s')) = Suc n"
      using p(1) by (simp_all add: heap nth_append n_def)
    have key: "map_of (rEntries (resolver s)) key = Some p" using False by simp
    have "cutoff s (rkUser key) \<le> p"
      using D(2) [OF map_of_SomeD [OF key]] f by (simp add: entry_ok_def Let_def)
    then have new: "entry_ok s' (key, n)" using p(3) False by (simp add: entry_ok_def Let_def at s' heap(2))
    have old: "kp \<in> set (rEntries (resolver s)) \<and> snd kp \<noteq> p \<or> entry_ok s' kp" if "kp \<in> set (rEntries (resolver s'))" for kp
    proof (cases "fst kp = key")
      case True
      have "distinct (map fst (rEntries (resolver s')))" using D(1) by (simp add: heap distinct_update)
      moreover have "map_of (rEntries (resolver s')) key = Some n" by (simp add: heap update_conv')
      ultimately have "kp = (key, n)" using that True by (metis map_of_is_SomeI option.inject prod.collapse)
      with new show ?thesis by simp
    next
      case False
      then have "kp \<in> set (rEntries (resolver s))" using that set_update_subset [of key n] unfolding heap by fastforce
      with False entry_of_flight(1) [OF inv c this] show ?thesis by blast
    qed
    show ?thesis
    proof (rule rinv_ends [OF inv c, where c' = "Returned key b roles p"])
      show "rHeap (resolver s') ! q = rHeap (resolver s) ! q" if "q < length (rHeap (resolver s))" "q \<noteq> p" for q
        using that by (simp add: heap nth_append)
      show "eReady (rHeap (resolver s') ! q) = NoChan \<and> \<not> eShared (rHeap (resolver s') ! q)"
        if "length (rHeap (resolver s)) \<le> q" "q < length (rHeap (resolver s'))" for q
      proof -
        have "q = n" using that at(3) by (simp add: n_def)
        then show ?thesis by (simp add: at)
      qed
    qed (use D(1) f old ret False at in \<open>simp_all add: s' heap(2) distinct_update heap(3) n_def\<close>)
  qed
qed

lemma rinv_start: "rinv (rstart withTTL)"
  by (simp add: rinv_def rstart_def NewCachedResolver_def call_ok_def)

lemma rinv_step:
  assumes "rstep s s'" "rinv s"
  shows "rinv s'"
  using assms
proof (induction rule: rstep.induct)
  case (begins s i q key)
  show ?case by (rule rinv_keep [OF begins.prems]) (use begins rinvD [OF begins.prems] in \<open>auto simp: call_ok_def\<close>)
next
  case (bypasses s i q roles)
  show ?case by (rule rinv_keep [OF bypasses.prems]) (use bypasses rinvD [OF bypasses.prems] in \<open>auto simp: call_ok_def\<close>)
next
  case (sweeps s i key b now)
  note D = rinvD [OF sweeps.prems]
  show ?case by (rule rinv_keep [OF sweeps.prems])
      (use sweeps(1) D(1,6) D(4) [of i] sweep_entries [where cap = maxResolverEntries and now = now and r = "resolver s"] in \<open>auto simp: resolver_sweep_def call_ok_def\<close>)
next
  case (hits s i key b now roles l r')
  note D = rinvD [OF hits.prems] and T = resolve_turn_Hit [OF hits.prems hits(2)]
  have "call_ok s (Returned key b roles l)" using D(4) [of i] hits(1) T by (auto simp: call_ok_def)
  then show ?case by (intro rinv_keep [OF hits.prems]) (use hits(1) D T(1) in auto)
next
  case (waits s i key b now p r')
  note D = rinvD [OF waits.prems] and T = resolve_turn_Wait [OF waits.prems waits(2)]
  have "call_ok s (Waiting key b p)" using D(4) [of i] waits(1) T by (auto simp: call_ok_def)
  then show ?case by (intro rinv_keep [OF waits.prems]) (use waits(1) D T(1) in auto)
next
  case (leads s i key b now p r')
  then show ?case using resolve_turn_Lead [OF leads(2)] by (intro rinv_leads [OF leads.prems leads(1)]) simp_all
next
  case (finishes s i key b p roles dead now)
  then show ?case by (intro rinv_finishes [OF finishes.prems finishes(1)]) simp_all
next
  case (panics s i key b p)
  show ?case by (rule rinv_drops [OF panics.prems panics(1), where c' = Panicked]) (simp_all add: resolveFlight_panic_def, simp add: call_ok_def)
next
  case (shares s i key b p roles)
  note D = rinvD [OF shares.prems]
  have w: "p < length (rHeap (resolver s))" "asked s p = Some key" "b \<le> p" using D(4) [of i] shares(1) by (simp_all add: call_ok_def)
  have "call_ok s (Returned key b roles p)"
    using D(3) [OF w(1)] w shares(3) by (auto simp: call_ok_def role_flight_ok_def after_wait_def Let_def split: if_splits)
  then show ?case by (intro rinv_keep [OF shares.prems]) (use shares(1) D in auto)
next
  case (retries s i key b p)
  note D = rinvD [OF retries.prems]
  have "call_ok s (Turning key b)" using D(4) [of i] retries(1) by (simp add: call_ok_def)
  then show ?case by (intro rinv_keep [OF retries.prems]) (use retries(1) D in auto)
next
  case (invalidates s u)
  note D = rinvD [OF invalidates.prems]
  show ?case by (rule rinv_keep [OF invalidates.prems]) (use D in \<open>auto simp: Invalidate_def distinct_map_filter\<close>)
next
  case (invalidates_all s)
  note D = rinvD [OF invalidates_all.prems]
  show ?case by (rule rinv_keep [OF invalidates_all.prems]) (use D in \<open>auto simp: InvalidateAll_def\<close>)
qed

lemma rinv_reached: "rstep\<^sup>*\<^sup>* (rstart w) s \<Longrightarrow> rinv s"
  by (induction rule: rtranclp_induct) (auto intro: rinv_start rinv_step)

text \<open>The key of a call is the one its request gives.\<close>

fun resolver_call_key :: "call \<Rightarrow> resolverKey option" where
  "resolver_call_key (Began key _) = Some key"
| "resolver_call_key (Turning key _) = Some key"
| "resolver_call_key (Waiting key _ _) = Some key"
| "resolver_call_key (Leading key _ _) = Some key"
| "resolver_call_key (Returned key _ _ _) = Some key"
| "resolver_call_key _ = None"

definition call_asked :: "rsys \<Rightarrow> nat \<Rightarrow> bool" where
  "call_asked s i \<longleftrightarrow>
     calls s i = Absent \<or> calls s i = Panicked \<or> (\<exists>q. who s i = Some q \<and> resolver_request_key q = resolver_call_key (calls s i))"

lemma call_asked_step: "rstep s s' \<Longrightarrow> (\<forall>i. call_asked s i) \<Longrightarrow> \<forall>i. call_asked s' i"
proof (intro allI)
  fix j
  assume st: "rstep s s'" and all: "\<forall>i. call_asked s i"
  show "call_asked s' j" using st spec [OF all, of j] by cases (auto simp: call_asked_def split: if_splits)
qed

lemma calls_asked: "rstep\<^sup>*\<^sup>* (rstart w) s \<Longrightarrow> call_asked s i"
proof -
  assume "rstep\<^sup>*\<^sup>* (rstart w) s"
  then have "\<forall>i. call_asked s i"
    by (induction rule: rtranclp_induct) (simp add: rstart_def call_asked_def, rule call_asked_step)
  then show ?thesis by simp
qed

lemma resolver_request_key_Some: "resolver_request_key q = Some key \<longleftrightarrow>
    qUser q = Some (Some (rkUser key)) \<and> rkUser key \<noteq> [] \<and> rkTenant key = qTenant q
    \<and> rkAuthTenant key = (case qAuthTenant q of None \<Rightarrow> [] | Some t \<Rightarrow> t)"
  by (cases key) (auto simp: resolver_request_key_def resolver_key_def resolverUserID_def resolverAuthTenant_def split: option.splits if_splits)

lemma resolver_request_key_None: "resolver_request_key q = None \<longleftrightarrow> qUser q \<in> {None, Some None, Some (Some [])}"
  by (auto simp: resolver_request_key_def resolver_key_def resolverUserID_def split: option.splits if_splits)

section \<open>Properties\<close>

text \<open>C40. Whatever calls, sweeps, invalidations, panics and dead contexts interleave: the roles a call returns are the answer
  of a lookup that was asked for the same user and tenants, those of the call's own request, and that began after the last invalidation of that user
  before the call began, so an invalidation is never followed by older roles. Roles found in the cache are the answer of
  a lookup whose context was alive, given within the lifetime. No call waits for a flight that nobody leads. And only a
  request without a user ID passes the cache by.\<close>

theorem resolver_fresh:
  assumes "rstep\<^sup>*\<^sup>* (rstart w) s"
  shows "(\<forall>i key b roles l. calls s i = Returned key b roles l \<longrightarrow>
      b \<le> l \<and> asked s l = Some key \<and> (\<exists>dead at. answer s l = Some (roles, dead, at))
      \<and> (\<exists>q. who s i = Some q \<and> qUser q = Some (Some (rkUser key)) \<and> rkUser key \<noteq> [] \<and> rkTenant key = qTenant q
          \<and> rkAuthTenant key = (case qAuthTenant q of None \<Rightarrow> [] | Some t \<Rightarrow> t)))
    \<and> (\<forall>i roles. calls s i = Direct roles \<longrightarrow> (\<exists>q. who s i = Some q \<and> qUser q \<in> {None, Some None, Some (Some [])}))
    \<and> (\<forall>key now roles l r'. resolve_turn key now (resolver s) = (Hit roles l, r') \<longrightarrow>
      cutoff s (rkUser key) \<le> l \<and> asked s l = Some key
      \<and> (\<exists>at. answer s l = Some (roles, False, at) \<and> now < at + rTTL (resolver s)))
    \<and> (\<forall>i key b p. calls s i = Waiting key b p \<longrightarrow>
      eReady (rHeap (resolver s) ! p) = Closed \<or> (\<exists>j key' b'. calls s j = Leading key' b' p))"
proof -
  have inv: "rinv s" using assms by (rule rinv_reached)
  note D = rinvD [OF inv]
  have A: "b \<le> l \<and> asked s l = Some key \<and> (\<exists>dead at. answer s l = Some (roles, dead, at))
      \<and> (\<exists>q. who s i = Some q \<and> qUser q = Some (Some (rkUser key)) \<and> rkUser key \<noteq> [] \<and> rkTenant key = qTenant q
          \<and> rkAuthTenant key = (case qAuthTenant q of None \<Rightarrow> [] | Some t \<Rightarrow> t))"
    if "calls s i = Returned key b roles l" for i key b roles l
    using D(4) [of i] calls_asked [OF assms, of i] that by (simp add: call_ok_def call_asked_def resolver_request_key_Some)
  have E: "\<exists>q. who s i = Some q \<and> qUser q \<in> {None, Some None, Some (Some [])}" if "calls s i = Direct roles" for i roles
    using calls_asked [OF assms, of i] that by (simp add: call_asked_def resolver_request_key_None)
  have B: "eReady (rHeap (resolver s) ! p) = Closed \<or> (\<exists>j key' b'. calls s j = Leading key' b' p)"
    if "calls s i = Waiting key b p" for i key b p
  proof -
    have "p < length (rHeap (resolver s))" "eReady (rHeap (resolver s) ! p) \<noteq> NoChan" using D(4) [of i] that by (simp_all add: call_ok_def)
    then show ?thesis using D(3) [of p] by (cases "eReady (rHeap (resolver s) ! p)") (auto simp: role_flight_ok_def Let_def)
  qed
  have C: "cutoff s (rkUser key) \<le> l \<and> asked s l = Some key \<and> (\<exists>at. answer s l = Some (roles, False, at) \<and> now < at + rTTL (resolver s))"
    if "resolve_turn key now (resolver s) = (Hit roles l, r')" for key now roles l r'
    using resolve_turn_Hit [OF inv that] by blast
  from A B C E show ?thesis by (intro conjI allI impI) (assumption | blast)+
qed

theorem resolver_fresh_witness:
  "\<exists>s key. rstep\<^sup>*\<^sup>* (rstart None) s \<and> calls s 0 = Returned key 0 [''admin''] 0 \<and> calls s 1 = Returned key 1 [''viewer''] 1
     \<and> asked s 1 = Some key"
proof -
  define key where "key = \<lparr>rkUser = ''u'', rkTenant = ''t'', rkAuthTenant = []\<rparr>"
  define r0 where "r0 = NewCachedResolver None"
  define r1 where "r1 = snd (lead key r0)"
  define r2 where "r2 = Invalidate ''u'' r1"
  define r3 where "r3 = snd (lead key r2)"
  define q where "q = \<lparr>qUser = Some (Some ''u''), qTenant = ''t'', qAuthTenant = None\<rparr>"
  define s0 where "s0 = rstart None"
  define s1 where "s1 = s0\<lparr>calls := (calls s0)(0 := Began key 0), who := (who s0)(0 \<mapsto> q)\<rparr>"
  define s2 where "s2 = s1\<lparr>calls := (calls s1)(0 := Turning key 0)\<rparr>"
  define s3 where "s3 = s2\<lparr>resolver := r1, calls := (calls s2)(0 := Leading key 0 0), asked := (asked s2)(0 \<mapsto> key)\<rparr>"
  define s4 where "s4 = s3\<lparr>resolver := r2, cutoff := (cutoff s3)(''u'' := 1)\<rparr>"
  define s5 where "s5 = s4\<lparr>calls := (calls s4)(1 := Began key 1), who := (who s4)(1 \<mapsto> q)\<rparr>"
  define s6 where "s6 = s5\<lparr>calls := (calls s5)(1 := Turning key 1)\<rparr>"
  define s7 where "s7 = s6\<lparr>resolver := r3, calls := (calls s6)(1 := Leading key 1 1), asked := (asked s6)(1 \<mapsto> key)\<rparr>"
  define s8 where "s8 = s7\<lparr>resolver := resolveFlight key 0 [''admin''] False 5 r3, calls := (calls s7)(0 := Returned key 0 [''admin''] 0),
    answer := (answer s7)(0 \<mapsto> ([''admin''], False, 5))\<rparr>"
  define s9 where "s9 = s8\<lparr>resolver := resolveFlight key 1 [''viewer''] False 6 (resolver s8), calls := (calls s8)(1 := Returned key 1 [''viewer''] 1),
    answer := (answer s8)(1 \<mapsto> ([''viewer''], False, 6))\<rparr>"
  note rs = r0_def r1_def r2_def r3_def key_def
  note ss = s0_def s1_def s2_def s3_def s4_def s5_def s6_def s7_def s8_def s9_def rstart_def
  have sweep: "resolver_sweep 1 r0 = r0" "resolver_sweep 1 r2 = r2"
    by (simp_all add: rs resolver_sweep_def sweep_at_def maxResolverEntries_def NewCachedResolver_def lead_def Let_def Invalidate_def
        defaultResolverTTL_def second_def time_sub_def minInt64_def maxInt64_def)
  have turn: "resolve_turn key 1 r0 = (Lead 0, r1)" "resolve_turn key 1 r2 = (Lead 1, r3)"
    by (simp_all add: rs resolve_turn_def NewCachedResolver_def lead_def Let_def Invalidate_def)
  have len: "length (rHeap r1) = 1" by (simp add: r1_def r0_def lead_def Let_def NewCachedResolver_def)
  have rk: "resolver_request_key q = Some key" by (simp add: q_def key_def resolver_request_key_Some)
  have "rstep s0 s1" unfolding s1_def using rstep.begins [OF _ rk, of s0 0] by (simp add: s0_def rstart_def)
  moreover have "rstep s1 s2" using rstep.sweeps [of s1 0 key 0 1] by (simp add: ss r0_def [symmetric] sweep)
  moreover have "rstep s2 s3" using rstep.leads [of s2 0 key 0 1 0 r1] turn(1) by (simp add: ss r0_def [symmetric])
  moreover have "rstep s3 s4" using rstep.invalidates [of s3 "''u''"] by (simp add: ss r2_def len)
  moreover have "rstep s4 s5" using rstep.begins [OF _ rk, of s4 1] by (simp add: ss key_def)
  moreover have "rstep s5 s6" using rstep.sweeps [of s5 1 key 1 1] by (simp add: ss sweep)
  moreover have "rstep s6 s7" using rstep.leads [of s6 1 key 1 1 1 r3] turn(2) by (simp add: ss)
  moreover have "rstep s7 s8" using rstep.finishes [of s7 0 key 0 0 "[''admin'']" False 5] by (simp add: ss)
  moreover have "rstep s8 s9" using rstep.finishes [of s8 1 key 1 1 "[''viewer'']" False 6] by (simp add: ss)
  ultimately have "rstep\<^sup>*\<^sup>* s0 s9" by (meson rtranclp.rtrancl_into_rtrancl rtranclp.rtrancl_refl)
  then have run: "rstep\<^sup>*\<^sup>* (rstart None) s9" by (simp add: s0_def)
  have ret: "calls s9 0 = Returned key 0 [''admin''] 0" "calls s9 1 = Returned key 1 [''viewer''] 1" by (simp_all add: ss)
  have "asked s9 1 = Some key" using resolver_fresh [OF run] ret(2) by blast
  then show ?thesis using run ret by blast
qed

text \<open>The cache stays below its cap: a sweep leaves less, and only the turn that follows it adds an entry. At the cap,
  however, the shed takes flights first, as their expiry is the zero time, and the next call for such a key starts a
  second lookup beside the running one.\<close>

lemma sweep_below_cap:
  assumes "distinct (map fst (rEntries r))" "0 < cap"
  shows "length (rEntries (sweep_at cap now r)) < cap"
proof -
  let ?l = "filter (\<lambda>e. \<not> expired r now e) (rEntries r)" and ?lw = "int (cap * 9 div 10)"
  have "length (shed_loop ?lw (sort_key f ?l) ?l) = length ?l - nat (int (length ?l) - ?lw)" for f :: "_ \<Rightarrow> gotime \<times> string \<times> string \<times> string"
    using shed_sorted(3) [where bs = ?l and lw = ?lw and f = f] assms(1) by (simp add: distinct_map_filter)
  moreover have "cap * 9 div 10 < cap" using assms(2) by simp
  moreover have "length ?l - nat (int (length ?l) - ?lw) \<le> cap * 9 div 10" by linarith
  ultimately show ?thesis by (auto simp: sweep_at_def Let_def)
qed

lemma sweep_sheds_flights:
  "let k = \<lparr>rkUser = ''u'', rkTenant = [], rkAuthTenant = []\<rparr>;
       k' = \<lparr>rkUser = ''v'', rkTenant = [], rkAuthTenant = []\<rparr>;
       r = snd (lead k (NewCachedResolver None));
       r' = sweep_at 2 10 (resolveFlight k' 1 [] False 5 (snd (lead k' r)))
   in map fst (rEntries r') = [k'] \<and> fst (resolve_turn k 10 r') = Lead 3"
  by code_simp

end
