(* ===== verification/Spec2Isabelle.thy ===== *)
theory Spec2Isabelle
  imports QueryBuilder SqlSplit MigrateRuns MigrateLease ModulePair MemoryQueue RateLimit CacheFill CronScheduler Backoff Dotenv FeatureFlag Idempotency StreamSeats GrantCluster RoleResolver
begin

text \<open>
  A verification library for GoFastr, a Go web framework: the parts of it that decide, count, schedule,
  cache or build text that other programs act on, modelled as HOL definitions that read like the
  source, with the theorems that make them correct. The paths below are under \<^verbatim>\<open>src/\<close>.

  \<^bold>\<open>Parts and theories.\<close> Four theories hold what the components share. \<^verbatim>\<open>GoPrelude\<close> has Go strings as byte lists, the
  functions of package \<^verbatim>\<open>strings\<close> and the UTF-8 units they read, \<^verbatim>\<open>GoInt\<close> the 64-bit integers, durations and times with
  their wrap-around, \<^verbatim>\<open>GoStrconv\<close> decimal numerals, \<^verbatim>\<open>Sha256\<close> the hash used for names and fingerprints.

  \<^item> SQL text. \<^verbatim>\<open>SqlIdent\<close> models \<^verbatim>\<open>core/query/safe.go\<close> and \<^verbatim>\<open>keyword.go\<close> (identifiers, quoting, scrubbing),
    \<^verbatim>\<open>SqlRenumber\<close> the placeholder scanner of \<^verbatim>\<open>core/query/query.go\<close>, \<^verbatim>\<open>QueryBuilder\<close> its builders. The builders call
    the scanner on every condition and the scrubbers on every slot. Shown: placeholders are numbered in one run
    that matches the arguments, text in a literal, a name or a comment is never touched (against a grammar of
    conditions), the emitted WHERE text is well formed and means the left-to-right combination of the conditions,
    scrubbed fragments are clean; and when the scrub of a column slot leaves a comment mark.
  \<^item> Jobs. \<^verbatim>\<open>MemoryQueue\<close> models \<^verbatim>\<open>battery/queue/memory.go\<close>: the heap of pending jobs, the jobs in flight, the running
    ones, the dead-letter set and the unique keys as one record, each operation under the lock as one function.
    Shown: the state invariant, unique keys, no job lost, retries bounded, erasure complete and final, no lost
    wake-up. \<^verbatim>\<open>Backoff\<close> models \<^verbatim>\<open>core/backoff\<close>, the delays between attempts, at 64 bits.
  \<^item> Schedules. \<^verbatim>\<open>Cron\<close> models \<^verbatim>\<open>framework/cron\<close> \<^verbatim>\<open>cron.go\<close>, \<^verbatim>\<open>next.go\<close> and \<^verbatim>\<open>dst.go\<close>: parsing, matching, the next firing
    and the daylight-saving rules; \<^verbatim>\<open>CronScheduler\<close> the scheduler with its replicas, leader locks and tick rows. Shown:
    the next firing is the earliest, in zones whose clocks change, a fixed-time job fires once per change, a tick of a job fires at most once
    over all replicas, and a stopped scheduler has drained.
  \<^item> Request middleware. \<^verbatim>\<open>RateLimit\<close> models \<^verbatim>\<open>core/middleware/ratelimit.go\<close> (a window never exceeds the budget, the quoted
    wait suffices, reaping loses nothing, the store is bounded). \<^verbatim>\<open>IdempotencyStore\<close> and \<^verbatim>\<open>Idempotency\<close> model
    \<^verbatim>\<open>core/middleware/idempotency.go\<close>: the store of claims and answers behind the locale \<open>idempotency_store\<close>, interpreted
    on the in-process store, and the middleware over it, whose concurrent requests are interleaved steps (at most
    one handler per key under the named conditions, faithful replays, untouched bodies, injective keys; and
    exactly when a claim ends before its time).
  \<^item> Caching. \<^verbatim>\<open>MemoryCache\<close> models \<^verbatim>\<open>battery/cache/memory.go\<close> and refines an abstract least-recently-used list; \<^verbatim>\<open>CacheFill\<close>
    models \<^verbatim>\<open>GetOrSet\<close> and the shared fills of \<^verbatim>\<open>cache.go\<close> over any cache that meets a contract.
  \<^item> Streams. \<^verbatim>\<open>StreamSeats\<close> models \<^verbatim>\<open>core/stream/seats.go\<close> and its two users, the control-plane seat table and the event
    streams of \<^verbatim>\<open>framework/crud\<close>, each an interpretation of the locale \<open>seat_member\<close>: seats are first in, first out
    under the cap, and only an evicted stream that still runs is cut.
  \<^item> Access control, \<^verbatim>\<open>framework/access\<close>. \<^verbatim>\<open>EditDist\<close> (the suggestion for a mistyped capability is a least edit distance),
    \<^verbatim>\<open>AccessPolicy\<close> (\<^verbatim>\<open>access.go\<close>, \<^verbatim>\<open>decider.go\<close>, \<^verbatim>\<open>scopematch.go\<close>, \<^verbatim>\<open>heldscopes.go\<close>, \<^verbatim>\<open>observe.go\<close>: grants, revocations and the
    table by which every check decides), \<^verbatim>\<open>GrantStore\<close> (\<^verbatim>\<open>store.go\<close>: grants and tombstones in a database whose calls may
    fail and whose commits may take effect and still report an error, over the locale \<open>revocation\<close> interpreted on the policy), \<^verbatim>\<open>GrantCluster\<close> (its replicas over one database and a
    lossy bus: they converge), \<^verbatim>\<open>RoleResolver\<close> (\<^verbatim>\<open>resolver.go\<close>: no roles older than an invalidation).

  \<^item> Configuration. \<^verbatim>\<open>Dotenv\<close> models \<^verbatim>\<open>core/dotenv\<close> (expansion, parsing, loading and applying variables), \<^verbatim>\<open>FeatureFlag\<close> models
    \<^verbatim>\<open>core/featureflag\<close> (evaluation, allow lists, rollouts, the two stores behind one locale). Shown: what boot
    applies, that expansion is one pass that returns, that user entries of different tenants never meet.
  \<^item> Migrations, \<^verbatim>\<open>core/migrate\<close>. \<^verbatim>\<open>SqlSplit\<close> (the statement splitter), \<^verbatim>\<open>Migration\<close> (files and registration), \<^verbatim>\<open>MigrateRunner\<close>
    (Up, Down, Force and Status as programs over a database whose calls may fail), \<^verbatim>\<open>MigrateRuns\<close> (runs of them: each
    migration once, what an interruption leaves, a dirty row needs Force, Down undoes Up), \<^verbatim>\<open>MigrateLease\<close> (the lease
    with its fence: one holder).
  \<^item> Process modules, \<^verbatim>\<open>core/moduleproto\<close>. \<^verbatim>\<open>StrictKeys\<close> models the key walks of \<^verbatim>\<open>core/handler/decode_strict.go\<close>, which the codec
    calls on every line; \<^verbatim>\<open>ModuleProto\<close> the frames, versions, handshake, error-output ring and codec; \<^verbatim>\<open>ModulePeer\<close> one peer
    (\<^verbatim>\<open>peer.go\<close>: calls, notifications, served requests, cancellation, faults, the read loop) as an event machine;
    \<^verbatim>\<open>PeerWindow\<close> its cancel slots and its window of given-up ids; \<^verbatim>\<open>ModuleLink\<close> and \<^verbatim>\<open>ModulePair\<close> two peers over two
    ordered transports. Shown: the codec delivers exactly the frames written, goroutines stay within the caps,
    a cancel reaches exactly its handlers, a call gets its own answer, a waiting call is owned by one place, no
    answer is taken for an unsolicited one; and that calls which were never sent can push a sent one out of the
    window, so that its answer faults the peer.

  \<^bold>\<open>How code is read.\<close> A struct is a record, a Go map an association list with distinct keys or a function to options, an
  error a value of a datatype or of a sum. A method that holds a lock for its whole body is one function of the state;
  where the code releases the lock, calls out or waits, the parts are separate functions and an inductive relation or
  an event function interleaves them with other callers. Clocks, faults of a database, answers of host functions,
  contexts that die and the order in which goroutines run are arguments or choices of the relation, so a theorem holds
  for all of them. Some neighbouring effects are one step: the commit of a grant, the change of the live policy and the frame
  put in the store's queue, which hold the store's lock (the frame leaves the queue, or is lost, in a later step); and, in
  \<^verbatim>\<open>CacheFill\<close>, the end of a fill, which takes it off the table, cancels its context and wakes its callers. A migration run is a program over a state with errors whose every call asks a fault plan first. Integers
  stay at 64 bits where the source can leave them; the attempts of a job, which each run raises by
  one, and the version of a migration, which is read from a numeral and only compared, are unbounded. Fields marked as a log in \<^verbatim>\<open>RoleResolver\<close> and \<^verbatim>\<open>GrantCluster\<close> (the frames the
  bus lost, which lookup gave which roles) are read by no operation.

  \<^bold>\<open>Loops.\<close> Most are structural. \<open>mask_loop\<close> and \<open>next_loop\<close> of \<^verbatim>\<open>Cron\<close> end by the distance to their bound, \<open>gap_walk\<close> takes the 120 minutes the
  code bounds it by, \<open>double_loop\<close> of \<^verbatim>\<open>Backoff\<close> ends by the remaining attempts, the loop of \<^verbatim>\<open>SqlSplit\<close> by the distance to the
  end of the text. The eviction loop of \<^verbatim>\<open>MemoryCache\<close> and the expander of \<^verbatim>\<open>Dotenv\<close> are partial functions whose result is
  shown to exist. The walk of \<^verbatim>\<open>StrictKeys\<close> takes twice the number of tokens and one, which \<open>walk_fuel\<close> shows to be enough. The
  runs of two peers are shorter than \<open>2^64\<close> events, so that the 64-bit ids do not come round, and keep fewer than 1024
  given-up calls outstanding where a theorem says so, the bound the code sets.

  \<^bold>\<open>Not modelled.\<close> Logging, metrics and response bodies; the zone database (an argument); the SQL dialects (a statement of
  the grant store or of the migrator is its effect on rows, a transaction takes effect as a whole or not at all, the
  tracking table always has a primary key, the advisory lock of Postgres is the answers of its polls); JSON, as the encoding of frames and
  the bus envelope of a signal (an argument, with the round trip of a frame as hypothesis); the boot of a grant store between
  its load and its subscription, during which a signal can be missed until the next reconcile; the supervisor of
  module processes; goroutines ended by \<^verbatim>\<open>runtime.Goexit\<close>. Left out as a whole: rendering, the browser runtime, code generators and linters, desktop bindings,
  and everything whose content is input and output. What remains of the same kind as the modelled parts: the
  bounded queues of \<^verbatim>\<open>core/fanout\<close>, \<^verbatim>\<open>core/jcs\<close> and \<^verbatim>\<open>core/fuzzy\<close>, the validation of \<^verbatim>\<open>core/schema\<close>.
\<close>

end
